(* ===== verification/Prelude.thy ===== *)
theory Prelude
  imports Main "HOL-Library.Word"
begin

text \<open>
  Shared vocabulary of the development: the machine-integer types of \<open>kernel/types.h\<close>, the
  outcome of a kernel call (it returns, it panics, or it stops running at a point where it
  spins on a lock or sleeps), sequencing of calls, the \<open>for\<close> loops of the sources, and the
  byte-addressed memory with its little-endian 64-bit loads and stores.
\<close>

unbundle bit_operations_syntax

subsection \<open>Machine integers\<close>

type_synonym u8 = "8 word"
type_synonym u16 = "16 word"
type_synonym u32 = "32 word"
type_synonym u64 = "64 word"

lemma unat64_lt [simp]: "unat (a :: u64) < 18446744073709551616"
proof -
  have "unat a < 2 ^ LENGTH(64)" by (rule unsigned_less)
  then show ?thesis by simp
qed

lemma unat32_lt [simp]: "unat (a :: u32) < 4294967296"
proof -
  have "unat a < 2 ^ LENGTH(32)" by (rule unsigned_less)
  then show ?thesis by simp
qed

subsection \<open>Outcomes of kernel calls\<close>

text \<open>
  \<open>Ret a s\<close>: the call returned \<open>a\<close> in state \<open>s\<close>.
  \<open>Panic m\<close>: the call reached \<open>panic(m)\<close> (or a kernel page fault, which ends in
  \<open>panic("kerneltrap")\<close>).
  \<open>Block s k\<close>: control left the call in state \<open>s\<close>, where it spins on a lock or gave up the processor
  in \<open>sched()\<close>; when it runs again, in a state \<open>t\<close> that other harts and processes have made, it
  goes on as \<open>k t\<close>. A call that waits in a loop may block any number of times, so the type is
  coinductive.
\<close>

codatatype ('a, 's) outcome = Ret 'a 's | Panic string | Block 's "'s \<Rightarrow> ('a, 's) outcome"

primcorec andthen :: "('a, 's) outcome \<Rightarrow> ('a \<Rightarrow> 's \<Rightarrow> ('b, 's) outcome) \<Rightarrow> ('b, 's) outcome" where
  "andthen m f =
     (case m of
        Ret a s \<Rightarrow> f a s
      | Panic e \<Rightarrow> Panic e
      | Block s k \<Rightarrow> Block s (\<lambda>t. andthen (k t) f))"

lemma andthen_simps [simp, code]:
  "andthen (Ret a s) f = f a s"
  "andthen (Panic e) f = Panic e"
  "andthen (Block s k) f = Block s (\<lambda>t. andthen (k t) f)"
  by (simp_all add: andthen.code)

text \<open>Total correctness of a call: it returns without blocking, and the result satisfies \<open>Q\<close>.\<close>

definition returns :: "('a, 's) outcome \<Rightarrow> ('a \<Rightarrow> 's \<Rightarrow> bool) \<Rightarrow> bool" where
  "returns m Q = (case m of Ret a s \<Rightarrow> Q a s | _ \<Rightarrow> False)"

lemma returns_simps [simp]:
  "returns (Ret a s) Q = Q a s"
  "returns (Panic e) Q = False"
  "returns (Block s k) Q = False"
  by (simp_all add: returns_def)

lemma returns_andthen [simp]:
  "returns (andthen m f) Q = returns m (\<lambda>a s. returns (f a s) Q)"
  by (cases m) auto

lemma returns_mono: "returns m P \<Longrightarrow> (\<And>a s. P a s \<Longrightarrow> Q a s) \<Longrightarrow> returns m Q"
  by (cases m) auto

lemma returns_iff: "returns m Q \<longleftrightarrow> (\<exists>a s. m = Ret a s \<and> Q a s)"
  by (cases m) auto

text \<open>The results a call can return, after blocking or not.\<close>

inductive result :: "('a, 's) outcome \<Rightarrow> 'a \<Rightarrow> 's \<Rightarrow> bool" where
  result_Ret: "result (Ret a s) a s"
| result_Block: "result (k t) a s \<Longrightarrow> result (Block u k) a s"

inductive_cases result_RetE [elim!]: "result (Ret a s) b t"
inductive_cases result_PanicE [elim!]: "result (Panic e) b t"
inductive_cases result_BlockE: "result (Block u k) b t"

lemma result_simps [simp]:
  "result (Ret a s) b t \<longleftrightarrow> b = a \<and> t = s"
  "\<not> result (Panic e) b t"
  "result (Block u k) b t \<longleftrightarrow> (\<exists>v. result (k v) b t)"
  by (auto intro: result.intros elim: result_BlockE)

lemma andthen_eq: "\<forall>a s. result m a s \<longrightarrow> f a s = f' a s \<Longrightarrow> andthen m f = andthen m f'"
proof (coinduction arbitrary: m rule: outcome.coinduct_strong)
  case (Eq_outcome m)
  show ?case
  proof (cases m)
    case (Block u k)
    have "\<forall>a s. result (k t) a s \<longrightarrow> f a s = f' a s" for t using Eq_outcome Block by auto
    then show ?thesis unfolding Block by (auto simp: rel_fun_def)
  qed (use Eq_outcome in \<open>simp_all add: rel_fun_def\<close>)
qed

lemma andthen_cong [fundef_cong]:
  assumes "m = m'" and "\<And>a s. result m' a s \<Longrightarrow> f a s = f' a s"
  shows "andthen m f = andthen m' f'"
  unfolding assms(1) by (rule andthen_eq) (use assms(2) in blast)

lemma result_andthen: "result (andthen m f) b t \<Longrightarrow> \<exists>a s. result m a s \<and> result (f a s) b t"
proof (induction "andthen m f" b t arbitrary: m rule: result.induct)
  case (result_Ret b t)
  then show ?case by (cases m) (auto, metis result.result_Ret)
next
  case (result_Block k u b t v)
  show ?case
  proof (cases m)
    case (Ret a s)
    then have "result (f a s) b t" using result_Block.hyps(1,3) by (metis andthen_simps(1) result.result_Block)
    then show ?thesis using Ret by auto
  next
    case (Block w h)
    then have "k u = andthen (h u) f" using result_Block.hyps(3) by simp
    then show ?thesis using result_Block.hyps(2) [of "h u"] Block by auto
  qed (use result_Block.hyps(3) in simp)
qed

lemma result_andthenE:
  assumes "result (andthen m f) b t"
  obtains a s where "result m a s" and "result (f a s) b t"
  using result_andthen [OF assms] by blast

lemma andthen_assoc: "andthen (andthen m f) g = andthen m (\<lambda>a s. andthen (f a s) g)"
proof (coinduction arbitrary: m rule: outcome.coinduct_strong)
  case Eq_outcome
  then show ?case by (cases m) (auto simp: rel_fun_def)
qed

lemma andthen_RetE:
  assumes "andthen m f = Ret b t"
  obtains a s where "m = Ret a s" and "f a s = Ret b t"
  using assms by (cases m) auto

text \<open>Following a pointer: address 0 is not mapped in the kernel, so a load or store through a null
  pointer faults and \<open>kerneltrap\<close> panics.\<close>

definition deref :: "'p option \<Rightarrow> ('p \<Rightarrow> ('a, 's) outcome) \<Rightarrow> ('a, 's) outcome" where
  "deref p f = (case p of None \<Rightarrow> Panic ''kerneltrap'' | Some x \<Rightarrow> f x)"

lemma deref_simps [simp]: "deref None f = Panic ''kerneltrap''" "deref (Some x) f = f x"
  by (simp_all add: deref_def)

lemma deref_cong [fundef_cong]: "p = p' \<Longrightarrow> (\<And>x. p' = Some x \<Longrightarrow> f x = f' x) \<Longrightarrow> deref p f = deref p' f'"
  by (cases p') auto

text \<open>The call gave up the processor, in a state that satisfies \<open>Q\<close>.\<close>

definition blocks :: "('a, 's) outcome \<Rightarrow> ('s \<Rightarrow> bool) \<Rightarrow> bool" where
  "blocks m Q = (case m of Block s k \<Rightarrow> Q s | _ \<Rightarrow> False)"

lemma blocks_simps [simp]:
  "blocks (Ret a s) Q = False" "blocks (Panic e) Q = False" "blocks (Block s k) Q = Q s"
  by (simp_all add: blocks_def)

lemma blocks_mono: "blocks m P \<Longrightarrow> (\<And>s. P s \<Longrightarrow> Q s) \<Longrightarrow> blocks m Q"
  by (cases m) auto

lemma blocks_andthen: "blocks m Q \<Longrightarrow> blocks (andthen m f) Q"
  by (cases m) auto

subsection \<open>Loops that wait\<close>

text \<open>\<open>loop b x s\<close> runs the body \<open>b\<close> from the local state \<open>x\<close> until it leaves with \<open>Inr\<close>. The jump back
  to the head of the loop is a point where other harts may run, so a loop that waits for a
  condition is a sequence of \<open>Block\<close>s, and one that waits for ever never returns.\<close>

primcorec iterate :: "('x \<Rightarrow> 's \<Rightarrow> ('x + 'a, 's) outcome) \<Rightarrow> ('x + 'a, 's) outcome \<Rightarrow> ('a, 's) outcome" where
  "iterate b m =
     (case m of
        Ret r s \<Rightarrow> (case r of Inl x \<Rightarrow> Block s (\<lambda>t. iterate b (b x t)) | Inr a \<Rightarrow> Ret a s)
      | Panic e \<Rightarrow> Panic e
      | Block s k \<Rightarrow> Block s (\<lambda>t. iterate b (k t)))"

definition loop :: "('x \<Rightarrow> 's \<Rightarrow> ('x + 'a, 's) outcome) \<Rightarrow> 'x \<Rightarrow> 's \<Rightarrow> ('a, 's) outcome" where
  "loop b x s = iterate b (b x s)"

lemma loop_unfold:
  "loop b x s = andthen (b x s) (\<lambda>r t. case r of Inl y \<Rightarrow> Block t (loop b y) | Inr a \<Rightarrow> Ret a t)"
proof -
  have "iterate b m = andthen m (\<lambda>r t. case r of Inl y \<Rightarrow> Block t (loop b y) | Inr a \<Rightarrow> Ret a t)" for m
  proof (coinduction arbitrary: m rule: outcome.coinduct_strong)
    case Eq_outcome
    then show ?case
      by (cases m) (auto simp: rel_fun_def iterate.code loop_def split: sum.splits)
  qed
  then show ?thesis by (simp add: loop_def)
qed

subsection \<open>Loops over static tables\<close>

text \<open>\<open>for_each\<close> is a \<open>for\<close> loop whose body never leaves it early; \<open>for_find\<close> is one whose body
  may \<open>return\<close> or \<open>break\<close> with a value.\<close>

primrec for_each :: "('i \<Rightarrow> 's \<Rightarrow> (unit, 's) outcome) \<Rightarrow> 'i list \<Rightarrow> 's \<Rightarrow> (unit, 's) outcome" where
  "for_each f [] s = Ret () s"
| "for_each f (i # is) s = andthen (f i s) (\<lambda>_ s. for_each f is s)"

primrec for_find :: "('i \<Rightarrow> 's \<Rightarrow> ('a option, 's) outcome) \<Rightarrow> 'i list \<Rightarrow> 's \<Rightarrow> ('a option, 's) outcome" where
  "for_find f [] s = Ret None s"
| "for_find f (i # is) s =
     andthen (f i s) (\<lambda>r s. case r of None \<Rightarrow> for_find f is s | Some a \<Rightarrow> Ret (Some a) s)"

lemma for_each_append:
  "for_each f (is @ js) s = andthen (for_each f is s) (\<lambda>_ s. for_each f js s)"
  by (induction "is" arbitrary: s) (auto simp: andthen_assoc)

lemma for_each_returns:
  assumes "I s" and "\<And>i s. i \<in> set is \<Longrightarrow> I s \<Longrightarrow> returns (f i s) (\<lambda>_ t. I t)"
  shows "returns (for_each f is s) (\<lambda>_ t. I t)"
  using assms
proof (induction "is" arbitrary: s)
  case (Cons i "is")
  have "returns (f i s) (\<lambda>_ t. I t)" using Cons.prems by simp
  moreover have "returns (for_each f is t) (\<lambda>_ u. I u)" if "I t" for t
    using Cons.IH [of t] Cons.prems that by simp
  ultimately show ?case by (auto elim: returns_mono)
qed simp

text \<open>A loop whose body changes the state by a known function folds that function.\<close>

lemma for_each_fold:
  assumes "I s" and "\<And>i s. i \<in> set is \<Longrightarrow> I s \<Longrightarrow> f i s = Ret () (g i s) \<and> I (g i s)"
  shows "for_each f is s = Ret () (fold g is s) \<and> I (fold g is s)"
  using assms by (induction "is" arbitrary: s) auto

subsection \<open>Byte-addressed memory\<close>

type_synonym mem = "u64 \<Rightarrow> u8"

text \<open>The \<open>ld\<close> and \<open>sd\<close> instructions: eight bytes, least significant first.\<close>

definition store64 :: "u64 \<Rightarrow> u64 \<Rightarrow> mem \<Rightarrow> mem" where
  "store64 a v m = (\<lambda>x. if unat (x - a) < 8 then ucast (drop_bit (8 * unat (x - a)) v) else m x)"

primrec load_le :: "nat \<Rightarrow> mem \<Rightarrow> u64 \<Rightarrow> u64" where
  "load_le 0 m a = 0"
| "load_le (Suc k) m a = ucast (m a) OR push_bit 8 (load_le k m (a + 1))"

definition load64 :: "mem \<Rightarrow> u64 \<Rightarrow> u64" where
  "load64 m a = load_le 8 m a"

lemma bit_load_le:
  "bit (load_le k m a) n \<longleftrightarrow> n < 64 \<and> n < 8 * k \<and> bit (m (a + of_nat (n div 8))) (n mod 8)"
proof (induction k arbitrary: m a n)
  case (Suc k)
  show ?case
  proof (cases "n < 8")
    case True
    then show ?thesis by (simp add: bit_simps)
  next
    case False
    then obtain j where j: "n = 8 + j" using le_Suc_ex [of 8 n] by auto
    have "\<not> bit (m a) n" using False by (auto dest: bit_imp_le_length)
    moreover have "n div 8 = Suc (j div 8)" "n mod 8 = j mod 8" unfolding j by presburger+
    ultimately show ?thesis by (auto simp: j bit_simps Suc.IH add.assoc)
  qed
qed simp

lemma bit_load64:
  "bit (load64 m a) n \<longleftrightarrow> n < 64 \<and> bit (m (a + of_nat (n div 8))) (n mod 8)"
  by (auto simp: load64_def bit_load_le)

lemma load64_cong: "(\<And>i. i < 8 \<Longrightarrow> m (a + of_nat i) = m' (a + of_nat i)) \<Longrightarrow> load64 m a = load64 m' a"
  by (rule bit_eqI) (auto simp: bit_load64 div_less_iff_less_mult)

lemma load64_store64_same [simp]: "load64 (store64 a v m) a = v"
proof (rule bit_eqI)
  fix n assume "possible_bit TYPE(u64) n"
  hence n: "n < 64" by (simp add: possible_bit_word)
  hence "unat (of_nat (n div 8) :: u64) = n div 8"
    by (simp add: unat_of_nat take_bit_nat_eq_self_iff)
  with n show "bit (load64 (store64 a v m) a) n = bit v n"
    by (simp add: bit_load64 store64_def bit_simps div_less_iff_less_mult)
qed

lemma store64_apply_other: "\<not> unat (x - a) < 8 \<Longrightarrow> store64 a v m x = m x"
  by (simp add: store64_def)

end
