(* ===== verification/Riscv.thy ===== *)
theory Riscv
  imports Prelude
begin

text \<open>
  The constants and address macros of \<open>kernel/riscv.h\<close>, \<open>kernel/memlayout.h\<close> and
  \<open>kernel/param.h\<close>, and the arithmetic of pages and page-table entries the kernel relies on.
\<close>

subsection \<open>Constants\<close>

abbreviation (input) PGSIZE :: u64 where "PGSIZE \<equiv> 4096"
abbreviation (input) PGSHIFT :: nat where "PGSHIFT \<equiv> 12"
abbreviation (input) NPROC :: nat where "NPROC \<equiv> 64"
abbreviation (input) NCPU :: nat where "NCPU \<equiv> 8"
abbreviation (input) NOFILE :: nat where "NOFILE \<equiv> 16"

abbreviation (input) PTE_V :: u64 where "PTE_V \<equiv> 1"
abbreviation (input) PTE_R :: u64 where "PTE_R \<equiv> 2"
abbreviation (input) PTE_W :: u64 where "PTE_W \<equiv> 4"
abbreviation (input) PTE_X :: u64 where "PTE_X \<equiv> 8"
abbreviation (input) PTE_U :: u64 where "PTE_U \<equiv> 16"

definition MAXVA :: u64 where
  "MAXVA = push_bit (9 + 9 + 9 + 12 - 1) 1"

definition KERNBASE :: u64 where
  "KERNBASE = 0x80000000"

definition PHYSTOP :: u64 where
  "PHYSTOP = KERNBASE + 128 * 1024 * 1024"

definition TRAMPOLINE :: u64 where
  "TRAMPOLINE = MAXVA - PGSIZE"

definition KSTACK :: "nat \<Rightarrow> u64" where
  "KSTACK p = TRAMPOLINE - (of_nat p + 1) * 2 * PGSIZE"

definition TRAPFRAME :: u64 where
  "TRAPFRAME = TRAMPOLINE - PGSIZE"

definition MAKE_SATP :: "u64 \<Rightarrow> u64" where
  "MAKE_SATP pagetable = push_bit 60 8 OR drop_bit 12 pagetable"

subsection \<open>Pages\<close>

definition PGROUNDUP :: "u64 \<Rightarrow> u64" where
  "PGROUNDUP sz = (sz + PGSIZE - 1) AND NOT (PGSIZE - 1)"

definition PGROUNDDOWN :: "u64 \<Rightarrow> u64" where
  "PGROUNDDOWN a = a AND NOT (PGSIZE - 1)"

subsection \<open>Page-table entries\<close>

definition PA2PTE :: "u64 \<Rightarrow> u64" where
  "PA2PTE pa = push_bit 10 (drop_bit 12 pa)"

definition PTE2PA :: "u64 \<Rightarrow> u64" where
  "PTE2PA pte = push_bit 12 (drop_bit 10 pte)"

definition PTE_FLAGS :: "u64 \<Rightarrow> u64" where
  "PTE_FLAGS pte = pte AND 0x3FF"

definition PXSHIFT :: "nat \<Rightarrow> nat" where
  "PXSHIFT level = PGSHIFT + 9 * level"

definition PX :: "nat \<Rightarrow> u64 \<Rightarrow> u64" where
  "PX level va = drop_bit (PXSHIFT level) va AND 0x1FF"

subsection \<open>Facts about masks\<close>

lemma and_not_mask_eq: "(a :: u64) AND NOT (mask n) = push_bit n (drop_bit n a)"
  by (rule bit_eqI) (auto simp: bit_simps)

lemma pgmask: "NOT (PGSIZE - 1) = NOT (mask 12)"
  by (simp add: mask_eq_exp_minus_1)

lemma unat_round: "unat (push_bit n (drop_bit n (a :: u64))) = unat a div 2 ^ n * 2 ^ n"
proof -
  have "unat (push_bit n (drop_bit n a)) = take_bit 64 (push_bit n (unat (drop_bit n a)))"
    by (simp add: unsigned_push_bit_eq)
  moreover have "push_bit n (unat (drop_bit n a)) = unat a div 2 ^ n * 2 ^ n"
    unfolding push_bit_eq_mult unat_drop_bit_eq drop_bit_eq_div [of n "unat a"] by simp
  moreover have "unat a div 2 ^ n * 2 ^ n < 2 ^ 64"
    using le_less_trans [OF div_times_less_eq_dividend [of "unat a" "2 ^ n"] unat64_lt] by simp
  ultimately show ?thesis by (simp add: take_bit_nat_eq_self)
qed

definition page_aligned :: "u64 \<Rightarrow> bool" where
  "page_aligned a \<longleftrightarrow> a mod PGSIZE = 0"

lemma page_aligned_unat: "page_aligned a \<longleftrightarrow> unat a mod 4096 = 0"
  by (simp add: page_aligned_def word_unat_eq_iff unat_mod_distrib)

lemma page_aligned_bits: "page_aligned a \<longleftrightarrow> (\<forall>n<12. \<not> bit a n)"
proof -
  have "page_aligned a \<longleftrightarrow> take_bit 12 a = 0"
    by (simp add: page_aligned_unat word_unat_eq_iff unsigned_take_bit_eq take_bit_nat_def)
  then show ?thesis by (auto simp: bit_eq_iff bit_take_bit_iff)
qed

lemma PGROUNDDOWN_unat: "unat (PGROUNDDOWN a) = unat a div 4096 * 4096"
  unfolding PGROUNDDOWN_def pgmask and_not_mask_eq unat_round by simp

lemma PGROUNDDOWN_aligned [simp]: "page_aligned (PGROUNDDOWN a)"
  by (simp add: page_aligned_unat PGROUNDDOWN_unat)

lemma PGROUNDDOWN_id [simp]: "page_aligned a \<Longrightarrow> PGROUNDDOWN a = a"
  by (auto simp: word_unat_eq_iff PGROUNDDOWN_unat page_aligned_unat)

lemma PGROUNDDOWN_le: "PGROUNDDOWN a \<le> a"
  by (simp add: word_le_nat_alt PGROUNDDOWN_unat)

lemma PGROUNDDOWN_offset: "unat (a - PGROUNDDOWN a) = unat a mod 4096"
  using PGROUNDDOWN_le [of a]
  by (simp add: unat_sub PGROUNDDOWN_unat minus_div_mult_eq_mod)

lemma PGROUNDUP_unat:
  assumes "unat sz + 4095 < 2 ^ 64"
  shows "unat (PGROUNDUP sz) = (unat sz + 4095) div 4096 * 4096"
proof -
  have "unat (sz + PGSIZE - 1) = unat sz + 4095"
    using assms by (simp add: unat_word_ariths diff_conv_add_uminus [symmetric] del: diff_conv_add_uminus)
  then show ?thesis
    unfolding PGROUNDUP_def pgmask and_not_mask_eq unat_round by simp
qed

lemma PGROUNDUP_aligned [simp]: "page_aligned (PGROUNDUP sz)"
  unfolding page_aligned_unat PGROUNDUP_def pgmask and_not_mask_eq unat_round by simp

text \<open>
  A page-table entry built from a page-aligned physical address and ten flag bits
  gives both back: \<open>PTE2PA\<close> and \<open>PTE_FLAGS\<close> invert \<open>PA2PTE(pa) | flags\<close>.
\<close>

theorem pte_roundtrip:
  assumes "page_aligned pa" and "flags < 1024"
  shows "PTE2PA (PA2PTE pa OR flags) = pa \<and> PTE_FLAGS (PA2PTE pa OR flags) = flags"
proof -
  have pa: "\<not> bit pa n" if "n < 12" for n
    using assms(1) that by (simp add: page_aligned_bits)
  have "take_bit 10 flags = flags"
    using assms(2) by (simp add: word_unat_eq_iff unsigned_take_bit_eq word_less_nat_alt take_bit_nat_def)
  then have fl: "\<not> bit flags n" if "10 \<le> n" for n
    using that by (metis bit_take_bit_iff not_le)
  have mask: "0x3FF = (mask 10 :: u64)" by (simp add: mask_eq_exp_minus_1)
  have "bit (PTE2PA (PA2PTE pa OR flags)) n = bit pa n" if "n < 64" for n
    using pa [of n] fl [of "10 + (n - 12)"] that
    by (cases "n < 12") (auto simp: PTE2PA_def PA2PTE_def bit_simps)
  moreover have "bit (PTE_FLAGS (PA2PTE pa OR flags)) n = bit flags n" if "n < 64" for n
    using fl [of n] that by (cases "10 \<le> n") (auto simp: PTE_FLAGS_def PA2PTE_def mask bit_simps)
  ultimately show ?thesis by (auto intro: bit_eqI simp: possible_bit_word)
qed

theorem pte_roundtrip_witness:
  "PTE2PA (PA2PTE 0x87FFF000 OR 0x17) = 0x87FFF000 \<and> PTE_FLAGS (PA2PTE 0x87FFF000 OR 0x17) = 0x17"
  using pte_roundtrip [of "0x87FFF000" "0x17"] by (simp add: page_aligned_def)

end
