(* ===== verification/Spinlock.thy ===== *)
theory Spinlock
  imports Riscv
begin

text \<open>
  \<open>kernel/spinlock.c\<close>, the interrupt-enable bit of \<open>sstatus\<close> (\<open>kernel/riscv.h\<close>) and the per-cpu
  state of \<open>kernel/proc.h\<close>. The first part translates the code and gives the algebra of lock
  operations that every other component uses: the state after \<open>acquire\<close>, the state after
  \<open>release\<close>, and what a matched pair leaves behind. The second part runs the two functions
  instruction by instruction on any number of harts, interleaved, and proves mutual exclusion.
\<close>

subsection \<open>State\<close>

text \<open>A lock is identified by the object it protects; the C pointer \<open>lk->cpu\<close> is the index of the
  cpu structure, \<open>None\<close> for 0.\<close>

datatype lockid =
    KmemLock | PidLock | WaitLock | TicksLock | ProcLock nat | ReadcountLock
  | BcacheLock | LogLock | ItableLock | FtableLock | VdiskLock
  | ConsLock | PrLock | UartTxLock | PipeLock u64 | BufLk nat | InodeLk nat

record spinlock =
  locked :: u32
  lk_name :: string
  lk_cpu :: "nat option"

record cpu =
  cpu_proc :: "nat option"
  noff :: int
  intena :: bool

text \<open>\<open>tp\<close> is the hart that executes; \<open>sstatus\<close> is a register of each hart.\<close>

record machine =
  tp :: nat
  sstatus :: "nat \<Rightarrow> u64"
  cpus :: "nat \<Rightarrow> cpu"
  spin :: "lockid \<Rightarrow> spinlock"

abbreviation (input) SSTATUS_SIE :: u64 where "SSTATUS_SIE \<equiv> 2"
abbreviation (input) SSTATUS_SPIE :: u64 where "SSTATUS_SPIE \<equiv> 32"
abbreviation (input) SSTATUS_SPP :: u64 where "SSTATUS_SPP \<equiv> 256"

definition r_sstatus :: "'z machine_scheme \<Rightarrow> u64" where
  "r_sstatus s = sstatus s (tp s)"

definition w_sstatus :: "u64 \<Rightarrow> 'z machine_scheme \<Rightarrow> 'z machine_scheme" where
  "w_sstatus x s = s\<lparr>sstatus := (sstatus s)(tp s := x)\<rparr>"

definition intr_on :: "'z machine_scheme \<Rightarrow> 'z machine_scheme" where
  "intr_on s = w_sstatus (r_sstatus s OR SSTATUS_SIE) s"

definition intr_off :: "'z machine_scheme \<Rightarrow> 'z machine_scheme" where
  "intr_off s = w_sstatus (r_sstatus s AND NOT SSTATUS_SIE) s"

definition intr_get :: "'z machine_scheme \<Rightarrow> bool" where
  "intr_get s \<longleftrightarrow> r_sstatus s AND SSTATUS_SIE \<noteq> 0"

definition cpuid :: "'z machine_scheme \<Rightarrow> nat" where
  "cpuid s = tp s"

definition mycpu :: "'z machine_scheme \<Rightarrow> cpu" where
  "mycpu s = cpus s (cpuid s)"

definition upd_mycpu :: "(cpu \<Rightarrow> cpu) \<Rightarrow> 'z machine_scheme \<Rightarrow> 'z machine_scheme" where
  "upd_mycpu f s = s\<lparr>cpus := (cpus s)(cpuid s := f (mycpu s))\<rparr>"

subsection \<open>The functions of spinlock.c\<close>

definition initlock :: "lockid \<Rightarrow> string \<Rightarrow> 'z machine_scheme \<Rightarrow> 'z machine_scheme" where
  "initlock lk nm s = s\<lparr>spin := (spin s)(lk := \<lparr>locked = 0, lk_name = nm, lk_cpu = None\<rparr>)\<rparr>"

definition holding :: "lockid \<Rightarrow> 'z machine_scheme \<Rightarrow> bool" where
  "holding lk s \<longleftrightarrow> locked (spin s lk) \<noteq> 0 \<and> lk_cpu (spin s lk) = Some (cpuid s)"

definition push_off :: "'z machine_scheme \<Rightarrow> 'z machine_scheme" where
  "push_off s =
     (let old = intr_get s;
          s = intr_off s;
          s = (if noff (mycpu s) = 0 then upd_mycpu (intena_update (\<lambda>_. old)) s else s)
      in upd_mycpu (noff_update (\<lambda>n. n + 1)) s)"

definition pop_off :: "'z machine_scheme \<Rightarrow> (unit, 'z machine_scheme) outcome" where
  "pop_off s =
     (if intr_get s then Panic ''pop_off - interruptible''
      else if noff (mycpu s) < 1 then Panic ''pop_off''
      else
        (let s = upd_mycpu (noff_update (\<lambda>n. n - 1)) s
         in if noff (mycpu s) = 0 \<and> intena (mycpu s) then Ret () (intr_on s) else Ret () s))"

text \<open>\<open>__sync_lock_test_and_set\<close> swaps 1 into \<open>lk->locked\<close> and returns the old word; the loop
  leaves when that word is 0 and spins while another hart holds the lock.\<close>

definition test_and_set :: "lockid \<Rightarrow> unit \<Rightarrow> 'z machine_scheme \<Rightarrow> (unit + unit, 'z machine_scheme) outcome" where
  "test_and_set lk _ s =
     Ret (if locked (spin s lk) \<noteq> 0 then Inl () else Inr ()) (s\<lparr>spin := (spin s)(lk := (spin s lk)\<lparr>locked := 1\<rparr>)\<rparr>)"

definition acquire :: "lockid \<Rightarrow> 'z machine_scheme \<Rightarrow> (unit, 'z machine_scheme) outcome" where
  "acquire lk s =
     (let s = push_off s in
      if holding lk s then Panic ''acquire''
      else
        andthen (loop (test_and_set lk) () s) (\<lambda>_ s.
          Ret () (s\<lparr>spin := (spin s)(lk := (spin s lk)\<lparr>lk_cpu := Some (cpuid s)\<rparr>)\<rparr>)))"

definition release :: "lockid \<Rightarrow> 'z machine_scheme \<Rightarrow> (unit, 'z machine_scheme) outcome" where
  "release lk s =
     (if \<not> holding lk s then Panic ''release''
      else
        (let s = s\<lparr>spin := (spin s)(lk := (spin s lk)\<lparr>lk_cpu := None\<rparr>)\<rparr>;
             s = s\<lparr>spin := (spin s)(lk := (spin s lk)\<lparr>locked := 0\<rparr>)\<rparr>
         in pop_off s))"

text \<open>\<open>myproc()\<close> of proc.c: read \<open>c->proc\<close> with interrupts off.\<close>

definition myproc :: "'z machine_scheme \<Rightarrow> (nat option, 'z machine_scheme) outcome" where
  "myproc s =
     (let s = push_off s; p = cpu_proc (mycpu s)
      in andthen (pop_off s) (\<lambda>_ s. Ret p s))"

subsection \<open>Interrupt bit\<close>

lemma bit1_mask: "(x :: u64) AND 2 \<noteq> 0 \<longleftrightarrow> bit x 1"
proof -
  have "(x AND 2 = 0) \<longleftrightarrow> \<not> bit x 1"
    unfolding bit_eq_iff by (auto simp: bit_simps bit_2_iff dest!: spec [of _ "Suc 0"])
  then show ?thesis by simp
qed

lemma intr_get_simps [simp]:
  "\<not> intr_get (intr_off s)" "intr_get (intr_on s)"
  by (simp_all add: intr_get_def intr_off_def intr_on_def r_sstatus_def w_sstatus_def bit1_mask bit_simps bit_2_iff)

lemma not2: "- 3 = NOT (2 :: u64)"
  by simp

lemma intr_restore: "bit x (Suc 0) \<Longrightarrow> ((x :: u64) AND - 3) OR 2 = x"
  unfolding not2 by (rule bit_eqI) (auto simp: bit_simps bit_2_iff)

lemma intr_noop: "\<not> bit x (Suc 0) \<Longrightarrow> (x :: u64) AND - 3 = x"
  unfolding not2 by (rule bit_eqI) (auto simp: bit_simps bit_2_iff)

subsection \<open>The algebra of lock operations\<close>

text \<open>A lock at rest; a lock the running hart may release; the state of a cpu between calls
  (\<open>noff\<close> counts, and a positive count means interrupts are off).\<close>

definition lock_free :: "lockid \<Rightarrow> 'z machine_scheme \<Rightarrow> bool" where
  "lock_free lk s \<longleftrightarrow> locked (spin s lk) = 0 \<and> lk_cpu (spin s lk) = None"

definition lock_held :: "lockid \<Rightarrow> 'z machine_scheme \<Rightarrow> bool" where
  "lock_held lk s \<longleftrightarrow> holding lk s \<and> 1 \<le> noff (mycpu s) \<and> \<not> intr_get s"

definition cpu_ok :: "'z machine_scheme \<Rightarrow> bool" where
  "cpu_ok s \<longleftrightarrow> 0 \<le> noff (mycpu s) \<and> (0 < noff (mycpu s) \<longrightarrow> \<not> intr_get s)"

text \<open>The state after an \<open>acquire\<close> that found the lock free, the state after a \<open>release\<close>, and the
  state a matched pair leaves: only \<open>intena\<close> may differ.\<close>

definition acq :: "lockid \<Rightarrow> 'z machine_scheme \<Rightarrow> 'z machine_scheme" where
  "acq lk s = (push_off s)\<lparr>spin := (spin s)(lk := (spin s lk)\<lparr>locked := 1, lk_cpu := Some (tp s)\<rparr>)\<rparr>"

definition pop_st :: "'z machine_scheme \<Rightarrow> 'z machine_scheme" where
  "pop_st s =
     (let s = upd_mycpu (noff_update (\<lambda>n. n - 1)) s
      in if noff (mycpu s) = 0 \<and> intena (mycpu s) then intr_on s else s)"

definition rel :: "lockid \<Rightarrow> 'z machine_scheme \<Rightarrow> 'z machine_scheme" where
  "rel lk s = pop_st (s\<lparr>spin := (spin s)(lk := (spin s lk)\<lparr>lk_cpu := None, locked := 0\<rparr>)\<rparr>)"

definition settle :: "'z machine_scheme \<Rightarrow> 'z machine_scheme" where
  "settle s = (if noff (mycpu s) = 0 then upd_mycpu (intena_update (\<lambda>_. intr_get s)) s else s)"

lemmas machine_defs =
  r_sstatus_def w_sstatus_def intr_on_def intr_off_def intr_get_def cpuid_def mycpu_def upd_mycpu_def
  push_off_def pop_off_def holding_def Let_def

lemma acquire_free [simp]: "lock_free lk s \<Longrightarrow> acquire lk s = Ret () (acq lk s)"
  by (auto simp: acquire_def acq_def lock_free_def machine_defs loop_unfold test_and_set_def)

lemma release_held [simp]: "lock_held lk s \<Longrightarrow> release lk s = Ret () (rel lk s)"
  by (auto simp: release_def rel_def pop_st_def lock_held_def machine_defs)

lemma lock_held_acq [simp]: "cpu_ok s \<Longrightarrow> lock_held lk (acq lk s)"
  by (auto simp: lock_held_def acq_def cpu_ok_def machine_defs bit1_mask bit_simps bit_2_iff)

lemma lock_held_acq_other [simp]:
  "cpu_ok s \<Longrightarrow> lk' \<noteq> lk \<Longrightarrow> lock_held lk (acq lk' s) = holding lk s"
  by (auto simp: lock_held_def acq_def cpu_ok_def machine_defs bit1_mask bit_simps bit_2_iff)

lemma lock_free_acq [simp]: "lk' \<noteq> lk \<Longrightarrow> lock_free lk (acq lk' s) = lock_free lk s"
  by (auto simp: lock_free_def acq_def machine_defs)

lemma cpu_ok_acq [simp]: "cpu_ok s \<Longrightarrow> cpu_ok (acq lk s)"
  by (auto simp: acq_def cpu_ok_def machine_defs bit1_mask bit_simps bit_2_iff)

lemma pop_push: "cpu_ok s \<Longrightarrow> pop_st (push_off s) = settle s"
  unfolding pop_st_def push_off_def Let_def
  by (cases "intr_get s")
     (auto simp: settle_def cpu_ok_def machine_defs bit1_mask intr_restore intr_noop
       intro!: machine.equality cpu.equality ext split: if_splits)

lemma rel_acq [simp]:
  assumes "lock_free lk s" and "cpu_ok s"
  shows "rel lk (acq lk s) = settle s"
proof -
  have "rel lk (acq lk s) = pop_st (push_off s)"
    using assms(1) by (simp add: rel_def acq_def lock_free_def machine_defs fun_upd_idem)
  then show ?thesis using pop_push [OF assms(2)] by simp
qed

lemma settle_simps [simp]:
  "settle (settle s) = settle s"
  "acq lk (settle s) = acq lk s"
  "lock_free lk (settle s) = lock_free lk s"
  "lock_held lk (settle s) = lock_held lk s"
  "holding lk (settle s) = holding lk s"
  "cpu_ok (settle s) = cpu_ok s"
  "intr_get (settle s) = intr_get s"
  "noff (mycpu (settle s)) = noff (mycpu s)"
  "cpu_proc (mycpu (settle s)) = cpu_proc (mycpu s)"
  "tp (settle s) = tp s" "sstatus (settle s) = sstatus s" "spin (settle s) = spin s"
  by (auto simp: settle_def acq_def lock_free_def lock_held_def cpu_ok_def machine_defs)

lemma settle_acq [simp]: "cpu_ok s \<Longrightarrow> settle (acq lk s) = acq lk s"
  by (auto simp: settle_def acq_def cpu_ok_def machine_defs)

lemma acq_simps [simp]:
  "tp (acq lk s) = tp s"
  "cpu_proc (mycpu (acq lk s)) = cpu_proc (mycpu s)"
  "noff (mycpu (acq lk s)) = noff (mycpu s) + 1"
  "holding lk (acq lk s)"
  "\<not> intr_get (acq lk s)"
  by (auto simp: acq_def machine_defs bit1_mask bit_simps bit_2_iff)

lemma myproc_eq [simp]: "cpu_ok s \<Longrightarrow> myproc s = Ret (cpu_proc (mycpu s)) (settle s)"
proof -
  assume ok: "cpu_ok s"
  have "pop_off (push_off s) = Ret () (pop_st (push_off s))"
    using ok by (auto simp: pop_st_def cpu_ok_def machine_defs bit1_mask bit_simps bit_2_iff)
  moreover have "cpu_proc (mycpu (push_off s)) = cpu_proc (mycpu s)"
    by (simp add: machine_defs)
  ultimately show ?thesis by (simp add: myproc_def Let_def pop_push [OF ok])
qed

text \<open>Releasing one of several locks.\<close>

lemma settle_noff [simp]: "noff (mycpu s) \<noteq> 0 \<Longrightarrow> settle s = s"
  by (simp add: settle_def)

lemma rel_simps [simp]:
  "tp (rel lk s) = tp s"
  "cpu_proc (mycpu (rel lk s)) = cpu_proc (mycpu s)"
  "noff (mycpu (rel lk s)) = noff (mycpu s) - 1"
  "lock_free lk (rel lk s)"
  "\<not> holding lk (rel lk s)"
  by (auto simp: rel_def pop_st_def lock_free_def machine_defs)

lemma rel_other [simp]:
  assumes "lk' \<noteq> lk"
  shows "holding lk' (rel lk s) = holding lk' s" and "lock_free lk' (rel lk s) = lock_free lk' s"
  using assms by (auto simp: rel_def pop_st_def lock_free_def machine_defs)

lemma cpu_ok_rel [simp]: "1 \<le> noff (mycpu s) \<Longrightarrow> cpu_ok s \<Longrightarrow> cpu_ok (rel lk s)"
  by (auto simp: rel_def pop_st_def cpu_ok_def machine_defs bit1_mask bit_simps)

lemma intr_get_rel: "1 < noff (mycpu s) \<Longrightarrow> intr_get (rel lk s) = intr_get s"
  by (auto simp: rel_def pop_st_def machine_defs)

lemma lock_held_cpu_ok: "cpu_ok s \<Longrightarrow> lock_held lk s \<longleftrightarrow> holding lk s \<and> 1 \<le> noff (mycpu s)"
  by (auto simp: lock_held_def cpu_ok_def)

lemma cpu_ok_intr: "cpu_ok s \<Longrightarrow> 1 \<le> noff (mycpu s) \<Longrightarrow> \<not> intr_get s"
  by (auto simp: cpu_ok_def)

lemma holding_acq_other [simp]: "lk' \<noteq> lk \<Longrightarrow> holding lk (acq lk' s) = holding lk s"
  by (auto simp: acq_def machine_defs)

text \<open>Fields of the cpu that the lock layer does not read: \<open>sched\<close> restores \<open>intena\<close>, and the scheduler
  sets \<open>c->proc\<close>.\<close>

lemma set_intena_simps [simp]:
  "cpu_ok (upd_mycpu (intena_update f) s) = cpu_ok s"
  "lock_free lk (upd_mycpu (intena_update f) s) = lock_free lk s"
  "holding lk (upd_mycpu (intena_update f) s) = holding lk s"
  "lock_held lk (upd_mycpu (intena_update f) s) = lock_held lk s"
  "noff (mycpu (upd_mycpu (intena_update f) s)) = noff (mycpu s)"
  "cpu_proc (mycpu (upd_mycpu (intena_update f) s)) = cpu_proc (mycpu s)"
  "tp (upd_mycpu (intena_update f) s) = tp s"
  by (simp_all add: cpu_ok_def lock_free_def lock_held_def machine_defs)

lemma set_proc_simps [simp]:
  "cpu_ok (upd_mycpu (cpu_proc_update f) s) = cpu_ok s"
  "lock_free lk (upd_mycpu (cpu_proc_update f) s) = lock_free lk s"
  "holding lk (upd_mycpu (cpu_proc_update f) s) = holding lk s"
  "lock_held lk (upd_mycpu (cpu_proc_update f) s) = lock_held lk s"
  "noff (mycpu (upd_mycpu (cpu_proc_update f) s)) = noff (mycpu s)"
  "cpu_proc (mycpu (upd_mycpu (cpu_proc_update f) s)) = f (cpu_proc (mycpu s))"
  "intr_get (upd_mycpu (cpu_proc_update f) s) = intr_get s"
  "tp (upd_mycpu (cpu_proc_update f) s) = tp s"
  by (simp_all add: cpu_ok_def lock_free_def lock_held_def machine_defs)

text \<open>States that agree on the lock layer.\<close>

definition same_machine :: "'y machine_scheme \<Rightarrow> 'z machine_scheme \<Rightarrow> bool" where
  "same_machine s t \<longleftrightarrow> tp t = tp s \<and> sstatus t = sstatus s \<and> cpus t = cpus s \<and> spin t = spin s"

lemma same_machine_refl [simp]: "same_machine s s"
  by (simp add: same_machine_def)

lemma same_machineD:
  assumes "same_machine s t"
  shows "lock_held lk t = lock_held lk s" and "lock_free lk t = lock_free lk s" and "cpu_ok t = cpu_ok s"
    and "mycpu t = mycpu s" and "holding lk t = holding lk s"
  using assms by (simp_all add: same_machine_def lock_held_def lock_free_def cpu_ok_def machine_defs)

lemma rel_same_machine:
  "same_machine s t \<Longrightarrow> lock_free lk' (rel lk t) = lock_free lk' (rel lk s) \<and> cpu_ok (rel lk t) = cpu_ok (rel lk s)"
  by (auto simp: same_machine_def rel_def pop_st_def lock_free_def cpu_ok_def machine_defs)

subsection \<open>Component state is independent of the machine layer\<close>

text \<open>Every component keeps its state in fields it adds to \<open>machine\<close>. An update of such a field
  commutes with the lock operations and a read of it does not see them; the two locales state what
  is needed of the field and give the rewrite rules. Each component interpretes them for its own
  fields.\<close>

locale machine_upd =
  fixes upd :: "'z machine_scheme \<Rightarrow> 'z machine_scheme"
  assumes tp_upd: "tp (upd s) = tp s"
    and sstatus_upd: "sstatus (upd s) = sstatus s"
    and cpus_upd: "cpus (upd s) = cpus s"
    and spin_upd: "spin (upd s) = spin s"
    and upd_sstatus: "(upd s)\<lparr>sstatus := a\<rparr> = upd (s\<lparr>sstatus := a\<rparr>)"
    and upd_cpus: "(upd s)\<lparr>cpus := b\<rparr> = upd (s\<lparr>cpus := b\<rparr>)"
    and upd_spin: "(upd s)\<lparr>spin := c\<rparr> = upd (s\<lparr>spin := c\<rparr>)"
begin

lemmas upd_rules = tp_upd sstatus_upd cpus_upd spin_upd upd_sstatus upd_cpus upd_spin

lemma reads_upd [simp]:
  "lock_free lk (upd s) = lock_free lk s"
  "lock_held lk (upd s) = lock_held lk s"
  "holding lk (upd s) = holding lk s"
  "cpu_ok (upd s) = cpu_ok s"
  "mycpu (upd s) = mycpu s"
  "cpuid (upd s) = cpuid s"
  "intr_get (upd s) = intr_get s"
  "r_sstatus (upd s) = r_sstatus s"
  by (simp_all add: lock_free_def lock_held_def cpu_ok_def machine_defs upd_rules)

lemma intr_upd [simp]:
  "intr_on (upd s) = upd (intr_on s)"
  "intr_off (upd s) = upd (intr_off s)"
  by (simp_all add: machine_defs upd_rules)

lemma upd_mycpu_upd [simp]: "upd_mycpu f (upd s) = upd (upd_mycpu f s)"
  by (simp add: machine_defs upd_rules)

lemma push_off_upd [simp]: "push_off (upd s) = upd (push_off s)"
  by (simp add: push_off_def Let_def)

lemma pop_st_upd [simp]: "pop_st (upd s) = upd (pop_st s)"
  by (simp add: pop_st_def Let_def)

lemma acq_upd [simp]: "acq lk (upd s) = upd (acq lk s)"
  by (simp add: acq_def upd_rules)

lemma settle_upd [simp]: "settle (upd s) = upd (settle s)"
  by (simp add: settle_def)

lemma rel_upd [simp]: "rel lk (upd s) = upd (rel lk s)"
  by (simp add: rel_def upd_rules)

end

locale machine_get =
  fixes get :: "'z machine_scheme \<Rightarrow> 'b"
  assumes get_sstatus: "get (s\<lparr>sstatus := a\<rparr>) = get s"
    and get_cpus: "get (s\<lparr>cpus := b\<rparr>) = get s"
    and get_spin: "get (s\<lparr>spin := c\<rparr>) = get s"
begin

lemma get_intr [simp]: "get (intr_on s) = get s" "get (intr_off s) = get s"
  by (simp_all add: machine_defs get_sstatus)

lemma get_mycpu [simp]: "get (upd_mycpu f s) = get s"
  by (simp add: machine_defs get_cpus)

lemma get_push_off [simp]: "get (push_off s) = get s"
  by (simp add: push_off_def Let_def)

lemma get_acq [simp]: "get (acq lk s) = get s"
  by (simp add: acq_def get_spin)

lemma get_settle [simp]: "get (settle s) = get s"
  by (simp add: settle_def)

lemma get_rel [simp]: "get (rel lk s) = get s"
  by (simp add: rel_def pop_st_def Let_def get_spin)

end

subsection \<open>Matched push_off and pop_off\<close>

primrec push_offs :: "nat \<Rightarrow> 'z machine_scheme \<Rightarrow> 'z machine_scheme" where
  "push_offs 0 s = s"
| "push_offs (Suc n) s = push_offs n (push_off s)"

primrec pop_offs :: "nat \<Rightarrow> 'z machine_scheme \<Rightarrow> (unit, 'z machine_scheme) outcome" where
  "pop_offs 0 s = Ret () s"
| "pop_offs (Suc n) s = andthen (pop_offs n s) (\<lambda>_ s. pop_off s)"

lemma cpu_ok_push_off [simp]: "cpu_ok s \<Longrightarrow> cpu_ok (push_off s)"
  by (auto simp: cpu_ok_def machine_defs bit1_mask bit_simps bit_2_iff)

lemma pop_off_ok:
  "cpu_ok s \<Longrightarrow> 1 \<le> noff (mycpu s) \<Longrightarrow> pop_off s = Ret () (pop_st s)"
  by (auto simp: pop_st_def cpu_ok_def machine_defs)

lemma settle_push_off [simp]: "cpu_ok s \<Longrightarrow> settle (push_off s) = push_off s"
  by (auto simp: settle_def cpu_ok_def machine_defs)

lemma noff_push_off [simp]: "noff (mycpu (push_off s)) = noff (mycpu s) + 1"
  by (auto simp: machine_defs)

lemma pop_offs_push_offs:
  "cpu_ok s \<Longrightarrow> pop_offs n (push_offs n s) = Ret () (if n = 0 then s else settle s)"
proof (induction n arbitrary: s)
  case (Suc n)
  have "0 \<le> noff (mycpu s)" using Suc.prems by (simp add: cpu_ok_def)
  then have "pop_off (push_off s) = Ret () (settle s)"
    using Suc.prems pop_off_ok [of "push_off s"] by (simp add: pop_push)
  then show ?case using Suc by (cases n) auto
qed simp

end
