(* ===== verification/Spinlock_Conc.thy ===== *)
theory Spinlock_Conc
  imports Spinlock
begin

text \<open>
  \<open>acquire\<close> and \<open>release\<close> of \<open>kernel/spinlock.c\<close> executed by any number of harts, one memory
  operation at a time and in any interleaving. Between two calls a hart may switch its interrupts
  on and off when it holds no lock. The ghost field \<open>held\<close> records which locks a hart is inside.
\<close>

datatype lockop =
    Idle
  | Spinning lockid  \<comment> \<open>in the test-and-set loop of acquire\<close>
  | Got lockid       \<comment> \<open>the swap returned 0, lk->cpu not yet written\<close>
  | Clearing lockid  \<comment> \<open>release has cleared lk->cpu, lk->locked still 1\<close>
  | Popping          \<comment> \<open>release has cleared lk->locked, pop_off to come\<close>

record lockworld = machine +
  lockop :: "nat \<Rightarrow> lockop"
  held :: "nat \<Rightarrow> lockid set"

definition set_lock :: "lockid \<Rightarrow> (spinlock \<Rightarrow> spinlock) \<Rightarrow> 'z machine_scheme \<Rightarrow> 'z machine_scheme" where
  "set_lock lk f s = s\<lparr>spin := (spin s)(lk := f (spin s lk))\<rparr>"

inductive lstep :: "lockworld \<Rightarrow> lockworld \<Rightarrow> bool" where
  enter: "lockop s h = Idle \<Longrightarrow> t = push_off (s\<lparr>tp := h\<rparr>) \<Longrightarrow> \<not> holding lk t \<Longrightarrow>
     lstep s (t\<lparr>lockop := (lockop s)(h := Spinning lk)\<rparr>)"
| tas_fail: "lockop s h = Spinning lk \<Longrightarrow> locked (spin s lk) \<noteq> 0 \<Longrightarrow>
     lstep s (set_lock lk (locked_update (\<lambda>_. 1)) (s\<lparr>tp := h\<rparr>))"
| tas_ok: "lockop s h = Spinning lk \<Longrightarrow> locked (spin s lk) = 0 \<Longrightarrow>
     lstep s ((set_lock lk (locked_update (\<lambda>_. 1)) (s\<lparr>tp := h\<rparr>))\<lparr>lockop := (lockop s)(h := Got lk)\<rparr>)"
| set_cpu: "lockop s h = Got lk \<Longrightarrow>
     lstep s ((set_lock lk (lk_cpu_update (\<lambda>_. Some h)) (s\<lparr>tp := h\<rparr>))
       \<lparr>lockop := (lockop s)(h := Idle), held := (held s)(h := insert lk (held s h))\<rparr>)"
| clear_cpu: "lockop s h = Idle \<Longrightarrow> holding lk (s\<lparr>tp := h\<rparr>) \<Longrightarrow>
     lstep s ((set_lock lk (lk_cpu_update (\<lambda>_. None)) (s\<lparr>tp := h\<rparr>))
       \<lparr>lockop := (lockop s)(h := Clearing lk), held := (held s)(h := held s h - {lk})\<rparr>)"
| clear_locked: "lockop s h = Clearing lk \<Longrightarrow>
     lstep s ((set_lock lk (locked_update (\<lambda>_. 0)) (s\<lparr>tp := h\<rparr>))\<lparr>lockop := (lockop s)(h := Popping)\<rparr>)"
| pop: "lockop s h = Popping \<Longrightarrow> pop_off (s\<lparr>tp := h\<rparr>) = Ret () t \<Longrightarrow>
     lstep s (t\<lparr>lockop := (lockop s)(h := Idle)\<rparr>)"
| irq_on: "lockop s h = Idle \<Longrightarrow> noff (cpus s h) = 0 \<Longrightarrow> lstep s (intr_on (s\<lparr>tp := h\<rparr>))"
| irq_off: "lockop s h = Idle \<Longrightarrow> noff (cpus s h) = 0 \<Longrightarrow> lstep s (intr_off (s\<lparr>tp := h\<rparr>))"

definition lock_boot :: "lockworld \<Rightarrow> bool" where
  "lock_boot s \<longleftrightarrow> (\<forall>lk. lock_free lk s) \<and> (\<forall>h. noff (cpus s h) = 0) \<and>
     lockop s = (\<lambda>_. Idle) \<and> held s = (\<lambda>_. {})"

inductive lreach :: "lockworld \<Rightarrow> bool" where
  boot: "lock_boot s \<Longrightarrow> lreach s"
| step: "lreach s \<Longrightarrow> lstep s t \<Longrightarrow> lreach t"

subsection \<open>Invariant\<close>

text \<open>Where a hart stands with respect to a lock: inside the critical section, between the two
  writes of \<open>acquire\<close> or of \<open>release\<close>, or outside.\<close>

datatype phase = Outside | Mid | Inside

definition phase_of :: "lockworld \<Rightarrow> lockid \<Rightarrow> nat \<Rightarrow> phase" where
  "phase_of s lk h =
     (if lk \<in> held s h then Inside
      else if lockop s h = Got lk \<or> lockop s h = Clearing lk then Mid else Outside)"

text \<open>One lock: the word \<open>locked\<close>, the field \<open>cpu\<close> and the phases of the harts fit together.\<close>

definition lock_ok :: "bool \<Rightarrow> nat option \<Rightarrow> (nat \<Rightarrow> phase) \<Rightarrow> bool" where
  "lock_ok l c p \<longleftrightarrow>
     (if l then \<exists>h. p h \<noteq> Outside \<and> c = (if p h = Inside then Some h else None) \<and>
                    (\<forall>h'. h' \<noteq> h \<longrightarrow> p h' = Outside)
      else c = None \<and> (\<forall>h. p h = Outside))"

lemma lock_ok_tas: "lock_ok False c p \<Longrightarrow> lock_ok True c (p(h := Mid))"
  by (auto simp: lock_ok_def)

lemma lock_ok_set: "lock_ok l c p \<Longrightarrow> p h = Mid \<Longrightarrow> lock_ok l (Some h) (p(h := Inside))"
  by (auto simp: lock_ok_def split: if_splits; metis phase.distinct)

lemma lock_ok_clear: "lock_ok l (Some h) p \<Longrightarrow> lock_ok l None (p(h := Mid))"
  by (auto simp: lock_ok_def split: if_splits; metis phase.distinct)

lemma lock_ok_free: "lock_ok l c p \<Longrightarrow> p h = Mid \<Longrightarrow> lock_ok False c (p(h := Outside))"
  by (auto simp: lock_ok_def split: if_splits; metis phase.distinct)

lemma lock_ok_inside: "lock_ok l c p \<Longrightarrow> c = Some h \<longleftrightarrow> p h = Inside"
  by (auto simp: lock_ok_def split: if_splits; metis phase.distinct)

lemma lock_ok_unique: "lock_ok l c p \<Longrightarrow> p h \<noteq> Outside \<Longrightarrow> p h' \<noteq> Outside \<Longrightarrow> h = h'"
  by (auto simp: lock_ok_def split: if_splits; metis phase.distinct)

definition lock_inv :: "lockworld \<Rightarrow> bool" where
  "lock_inv s \<longleftrightarrow>
     (\<forall>lk. lock_ok (locked (spin s lk) \<noteq> 0) (lk_cpu (spin s lk)) (phase_of s lk)) \<and>
     (\<forall>lk h. lockop s h = Got lk \<or> lockop s h = Clearing lk \<longrightarrow> lk \<notin> held s h)"

text \<open>The interrupt discipline: \<open>noff\<close> counts the locks a hart is inside, plus one while it is in
  the middle of a call, and a hart with a positive count has its interrupts off.\<close>

definition irq_inv :: "lockworld \<Rightarrow> bool" where
  "irq_inv s \<longleftrightarrow>
     (\<forall>h. finite (held s h) \<and>
        noff (cpus s h) = int (card (held s h)) + (if lockop s h = Idle then 0 else 1) \<and>
        (0 < noff (cpus s h) \<longrightarrow> sstatus s h AND SSTATUS_SIE = 0))"

lemmas lstep_defs = set_lock_def machine_defs

lemma lock_inv_boot: "lock_boot s \<Longrightarrow> lock_inv s"
  by (auto simp: lock_boot_def lock_inv_def lock_ok_def phase_of_def lock_free_def)

interpretation lockop_get: machine_get lockop
  by unfold_locales simp_all

interpretation held_get: machine_get held
  by unfold_locales simp_all

lemma spin_get [simp]:
  "spin (push_off s) = spin s" "spin (intr_on s) = spin s" "spin (intr_off s) = spin s"
  "spin (set_lock lk f s) = (spin s)(lk := f (spin s lk))"
  by (auto simp: push_off_def Let_def intr_on_def intr_off_def w_sstatus_def upd_mycpu_def set_lock_def)

lemma set_lock_frame [simp]:
  "lockop (set_lock lk f s) = lockop s" "held (set_lock lk f s) = held s"
  by (simp_all add: set_lock_def)

lemma pop_off_frame:
  assumes "pop_off s = Ret () t"
  shows "spin t = spin s" "lockop t = lockop s" "held t = held s"
  using assms by (auto simp: pop_off_def Let_def upd_mycpu_def split: if_splits)

text \<open>A step concerns one lock and one hart: the other locks keep their word, their \<open>cpu\<close> field and
  the phases of all harts.\<close>

lemma lock_inv_upd:
  assumes inv: "lock_inv s"
    and t: "spin t = (spin s)(lk := l)" "lockop t = (lockop s)(h := x)" "held t = (held s)(h := hs)"
    and hs: "hs - {lk} = held s h - {lk}"
    and ops: "\<And>lk'. lk' \<noteq> lk \<Longrightarrow> lockop s h \<notin> {Got lk', Clearing lk'} \<and> x \<notin> {Got lk', Clearing lk'}"
    and x: "x \<in> {Got lk, Clearing lk} \<Longrightarrow> lk \<notin> hs"
    and ok: "lock_ok (locked l \<noteq> 0) (lk_cpu l) ((phase_of s lk)(h :=
       if lk \<in> hs then Inside else if x \<in> {Got lk, Clearing lk} then Mid else Outside))"
  shows "lock_inv t"
proof -
  have "phase_of t lk' = phase_of s lk'" if "lk' \<noteq> lk" for lk'
    using ops [OF that] hs that by (auto simp: phase_of_def t fun_eq_iff)
  moreover have "phase_of t lk = (phase_of s lk)(h :=
       if lk \<in> hs then Inside else if x \<in> {Got lk, Clearing lk} then Mid else Outside)"
    by (auto simp: phase_of_def t fun_eq_iff)
  moreover have "lk' \<notin> held t h'" if "lockop t h' = Got lk' \<or> lockop t h' = Clearing lk'" for lk' h'
    using that inv ops [of lk'] x by (cases "lk' = lk") (auto simp: t lock_inv_def split: if_splits)
  ultimately show ?thesis using inv ok by (simp add: lock_inv_def t)
qed

lemma lock_inv_ok: "lock_inv s \<Longrightarrow> lock_ok (locked (spin s lk) \<noteq> 0) (lk_cpu (spin s lk)) (phase_of s lk)"
  by (simp add: lock_inv_def)

lemma lock_inv_same:
  assumes "lock_inv s" and "spin t = spin s" and "lockop t = lockop s" and "held t = held s"
  shows "lock_inv t"
proof -
  have "phase_of t = phase_of s" using assms(3,4) by (auto simp: phase_of_def fun_eq_iff)
  with assms show ?thesis by (simp add: lock_inv_def)
qed

lemma phase_of_idle:
  "lk \<in> held s h \<Longrightarrow> (phase_of s lk)(h := Inside) = phase_of s lk"
  "lk \<notin> held s h \<Longrightarrow> lockop s h \<noteq> Got lk \<Longrightarrow> lockop s h \<noteq> Clearing lk \<Longrightarrow>
     (phase_of s lk)(h := Outside) = phase_of s lk"
  by (auto simp: phase_of_def fun_eq_iff)

lemma lock_inv_step: "lstep s t \<Longrightarrow> lock_inv s \<Longrightarrow> lock_inv t"
proof (induction rule: lstep.induct)
  case (enter s h t lk)
  show ?case
    by (rule lock_inv_upd [OF enter.prems, where lk = lk and h = h and l = "spin s lk" and x = "Spinning lk"
          and hs = "held s h"])
       (use enter lock_inv_ok [OF enter.prems] in \<open>auto simp: phase_of_idle\<close>)
next
  case (tas_fail s h lk)
  show ?case
    by (rule lock_inv_upd [OF tas_fail.prems, where lk = lk and h = h and l = "(spin s lk)\<lparr>locked := 1\<rparr>"
          and x = "Spinning lk" and hs = "held s h"])
       (use tas_fail lock_inv_ok [OF tas_fail.prems, of lk] in \<open>auto simp: phase_of_idle\<close>)
next
  case (tas_ok s h lk)
  have ok: "lock_ok False (lk_cpu (spin s lk)) (phase_of s lk)"
    using tas_ok lock_inv_ok [of s lk] by simp
  then have "lk \<notin> held s h" by (auto simp: lock_ok_def phase_of_def split: if_splits)
  then show ?case
    by (intro lock_inv_upd [OF tas_ok.prems, where lk = lk and h = h and l = "(spin s lk)\<lparr>locked := 1\<rparr>"
          and x = "Got lk" and hs = "held s h"])
       (use tas_ok lock_ok_tas [OF ok, of h] in auto)
next
  case (set_cpu s h lk)
  then have "phase_of s lk h = Mid" by (simp add: phase_of_def lock_inv_def)
  with set_cpu show ?case
    by (intro lock_inv_upd [OF set_cpu.prems, where lk = lk and h = h and l = "(spin s lk)\<lparr>lk_cpu := Some h\<rparr>"
          and x = Idle and hs = "insert lk (held s h)"])
       (auto intro: lock_ok_set lock_inv_ok)
next
  case (clear_cpu s h lk)
  then have "lock_ok (locked (spin s lk) \<noteq> 0) (Some h) (phase_of s lk)"
    using lock_inv_ok [of s lk] by (simp add: holding_def cpuid_def)
  from lock_ok_clear [OF this] clear_cpu show ?case
    by (intro lock_inv_upd [OF clear_cpu.prems, where lk = lk and h = h and l = "(spin s lk)\<lparr>lk_cpu := None\<rparr>"
          and x = "Clearing lk" and hs = "held s h - {lk}"]) auto
next
  case (clear_locked s h lk)
  then have "phase_of s lk h = Mid" "lk \<notin> held s h" by (simp_all add: phase_of_def lock_inv_def)
  with clear_locked show ?case
    by (intro lock_inv_upd [OF clear_locked.prems, where lk = lk and h = h and l = "(spin s lk)\<lparr>locked := 0\<rparr>"
          and x = Popping and hs = "held s h"])
       (auto intro: lock_ok_free lock_inv_ok [simplified])
next
  case (pop s h t)
  note f = pop_off_frame [OF pop.hyps(2)]
  show ?case
    by (rule lock_inv_upd [OF pop.prems, where h = h and l = "spin s KmemLock" and lk = KmemLock and x = Idle and hs = "held s h"])
       (use pop f lock_inv_ok [OF pop.prems, of KmemLock] in \<open>auto simp: phase_of_idle\<close>)
qed (auto intro: lock_inv_same)

lemma lreach_inv: "lreach s \<Longrightarrow> lock_inv s"
  by (induction rule: lreach.induct) (auto intro: lock_inv_boot lock_inv_step)

subsection \<open>Interrupt discipline\<close>

lemma irq_inv_boot: "lock_boot s \<Longrightarrow> irq_inv s"
  by (auto simp: lock_boot_def irq_inv_def)

lemma holding_iff_held: "lock_inv s \<Longrightarrow> holding lk (s\<lparr>tp := h\<rparr>) \<longleftrightarrow> lk \<in> held s h"
proof -
  assume "lock_inv s"
  note ok = lock_inv_ok [OF this, of lk]
  have "lk_cpu (spin s lk) = Some h \<longleftrightarrow> lk \<in> held s h"
    using lock_ok_inside [OF ok, of h] by (simp add: phase_of_def)
  moreover have "locked (spin s lk) \<noteq> 0" if "lk \<in> held s h"
    using ok that by (auto simp: lock_ok_def phase_of_def split: if_splits)
  ultimately show ?thesis by (auto simp: holding_def cpuid_def)
qed

lemma irq_inv_upd:
  assumes "irq_inv s" and "\<And>h'. h' \<noteq> h \<Longrightarrow> cpus t h' = cpus s h' \<and> sstatus t h' = sstatus s h' \<and>
      held t h' = held s h' \<and> lockop t h' = lockop s h'"
    and "finite (held t h)"
    and "noff (cpus t h) = int (card (held t h)) + (if lockop t h = Idle then 0 else 1)"
    and "0 < noff (cpus t h) \<Longrightarrow> sstatus t h AND SSTATUS_SIE = 0"
  shows "irq_inv t"
  unfolding irq_inv_def
proof
  fix h' show "finite (held t h') \<and> noff (cpus t h') = int (card (held t h')) + (if lockop t h' = Idle then 0 else 1) \<and>
        (0 < noff (cpus t h') \<longrightarrow> sstatus t h' AND SSTATUS_SIE = 0)"
    using assms by (cases "h' = h") (auto simp: irq_inv_def)
qed

lemma push_off_regs:
  "cpus (push_off s) = (cpus s)(tp s := (cpus s (tp s))
      \<lparr>noff := noff (cpus s (tp s)) + 1,
       intena := (if noff (cpus s (tp s)) = 0 then intr_get s else intena (cpus s (tp s)))\<rparr>)"
  "sstatus (push_off s) = (sstatus s)(tp s := sstatus s (tp s) AND NOT SSTATUS_SIE)"
  by (auto simp: machine_defs fun_eq_iff intro!: cpu.equality)

lemma pop_off_regs:
  assumes "pop_off s = Ret () t"
  shows "cpus t = (cpus s)(tp s := (cpus s (tp s))\<lparr>noff := noff (cpus s (tp s)) - 1\<rparr>)"
    and "sstatus t = (sstatus s)(tp s := (if noff (cpus s (tp s)) = 1 \<and> intena (cpus s (tp s))
           then sstatus s (tp s) OR SSTATUS_SIE else sstatus s (tp s)))"
    and "1 \<le> noff (cpus s (tp s))"
  using assms by (auto simp: machine_defs split: if_splits intro!: cpu.equality)

lemma and_not_2: "((x :: u64) AND - 3) AND 2 = 0"
  unfolding not2 by (rule bit_eqI) (auto simp: bit_simps bit_2_iff)

lemma irq_inv_step: "lstep s t \<Longrightarrow> lock_inv s \<Longrightarrow> irq_inv s \<Longrightarrow> irq_inv t"
proof (induction rule: lstep.induct)
  case (enter s h t lk)
  then show ?case
    by (intro irq_inv_upd [OF enter.prems(2), where h = h])
       (auto simp: push_off_regs irq_inv_def and_not_2)
next
  case (set_cpu s h lk)
  then have "lk \<notin> held s h" by (simp add: lock_inv_def)
  with set_cpu show ?case
    by (intro irq_inv_upd [OF set_cpu.prems(2), where h = h]) (auto simp: irq_inv_def set_lock_def)
next
  case (clear_cpu s h lk)
  then have "lk \<in> held s h" by (simp add: holding_iff_held)
  moreover have "finite (held s h)" using clear_cpu by (simp add: irq_inv_def)
  ultimately have "int (card (held s h)) = int (card (held s h - {lk})) + 1"
    using card_Suc_Diff1 [of "held s h" lk] by linarith
  with clear_cpu show ?case
    by (intro irq_inv_upd [OF clear_cpu.prems(2), where h = h]) (auto simp: irq_inv_def set_lock_def)
next
  case (pop s h t)
  note r = pop_off_regs [OF pop.hyps(2)] and f = pop_off_frame [OF pop.hyps(2)]
  show ?case
    by (rule irq_inv_upd [OF pop.prems(2), where h = h]) (use pop r f in \<open>auto simp: irq_inv_def\<close>)
next
  case (irq_on s h)
  then show ?case
    by (intro irq_inv_upd [OF irq_on.prems(2), where h = h]) (auto simp: irq_inv_def intr_on_def w_sstatus_def)
next
  case (irq_off s h)
  then show ?case
    by (intro irq_inv_upd [OF irq_off.prems(2), where h = h]) (auto simp: irq_inv_def intr_off_def w_sstatus_def)
qed (auto simp: irq_inv_def set_lock_def)

lemma lreach_irq: "lreach s \<Longrightarrow> irq_inv s"
  by (induction rule: lreach.induct) (auto intro: irq_inv_boot irq_inv_step lreach_inv)

subsection \<open>Properties\<close>

text \<open>
  Property C1: mutual exclusion. In every state the harts can reach by any interleaving of the
  instructions of \<open>acquire\<close> and \<open>release\<close>, a lock has at most one hart inside its critical section,
  and while one is inside, \<open>holding()\<close> is true for that hart and for no other.
\<close>

theorem spinlock_mutual_exclusion:
  assumes "lreach s" and "lk \<in> held s h"
  shows "holding lk (s\<lparr>tp := h\<rparr>) \<and> (\<forall>h'. holding lk (s\<lparr>tp := h'\<rparr>) \<or> lk \<in> held s h' \<longrightarrow> h' = h)"
proof -
  have inv: "lock_inv s" by (rule lreach_inv [OF assms(1)])
  have "h' = h" if "lk \<in> held s h'" for h'
    using lock_ok_unique [OF lock_inv_ok [OF inv, of lk], of h' h] that assms(2)
    by (simp add: phase_of_def)
  then show ?thesis using holding_iff_held [OF inv] assms(2) by blast
qed

text \<open>
  Property C39: interrupt discipline. A hart that is inside a lock, or in the middle of \<open>acquire\<close> or
  \<open>release\<close>, has its interrupts off, and the \<open>pop_off\<close> at the end of \<open>release\<close> never panics.
\<close>

theorem spinlock_interrupts_off:
  assumes "lreach s" and "held s h \<noteq> {} \<or> lockop s h \<noteq> Idle"
  shows "\<not> intr_get (s\<lparr>tp := h\<rparr>) \<and> (\<exists>t. pop_off (s\<lparr>tp := h\<rparr>) = Ret () t)"
proof -
  have irq: "finite (held s h)"
    "noff (cpus s h) = int (card (held s h)) + (if lockop s h = Idle then 0 else 1)"
    "0 < noff (cpus s h) \<longrightarrow> sstatus s h AND SSTATUS_SIE = 0"
    using lreach_irq [OF assms(1)] by (auto simp: irq_inv_def)
  have "0 < noff (cpus s h)"
    using irq(1,2) assms(2) card_gt_0_iff [of "held s h"] by (auto split: if_splits)
  with irq(3) show ?thesis by (auto simp: machine_defs)
qed

text \<open>A concrete run: hart 1 enters the page allocator's lock.\<close>

definition boot0 :: lockworld where
  "boot0 = \<lparr>tp = 0, sstatus = (\<lambda>_. SSTATUS_SIE), cpus = (\<lambda>_. \<lparr>cpu_proc = None, noff = 0, intena = False\<rparr>),
     spin = (\<lambda>_. \<lparr>locked = 0, lk_name = [], lk_cpu = None\<rparr>), lockop = (\<lambda>_. Idle), held = (\<lambda>_. {})\<rparr>"

lemma boot0_run: "\<exists>s. lreach s \<and> KmemLock \<in> held s 1"
proof -
  let ?a = "(push_off (boot0\<lparr>tp := 1\<rparr>))\<lparr>lockop := (lockop boot0)(1 := Spinning KmemLock)\<rparr>"
  let ?b = "(set_lock KmemLock (locked_update (\<lambda>_. 1)) (?a\<lparr>tp := 1\<rparr>))\<lparr>lockop := (lockop ?a)(1 := Got KmemLock)\<rparr>"
  have "lreach boot0" by (rule lreach.boot) (simp add: lock_boot_def boot0_def lock_free_def)
  moreover have "lstep boot0 ?a"
    by (rule lstep.enter) (simp_all add: boot0_def holding_def)
  ultimately have "lreach ?a" by (rule lreach.step)
  moreover have "lstep ?a ?b"
    by (rule lstep.tas_ok) (simp_all add: boot0_def)
  ultimately have "lreach ?b" by (rule lreach.step)
  moreover have "lockop ?b 1 = Got KmemLock" by simp
  ultimately show ?thesis using lreach.step [OF _ lstep.set_cpu [of ?b 1 KmemLock]] by fastforce
qed

theorem spinlock_mutual_exclusion_witness:
  "\<exists>s. lreach s \<and> KmemLock \<in> held s 1 \<and>
     holding KmemLock (s\<lparr>tp := 1\<rparr>) \<and> (\<forall>h'. holding KmemLock (s\<lparr>tp := h'\<rparr>) \<or> KmemLock \<in> held s h' \<longrightarrow> h' = 1)"
proof -
  obtain s where s: "lreach s" "KmemLock \<in> held s 1" using boot0_run by blast
  show ?thesis using s spinlock_mutual_exclusion [OF s] by blast
qed

theorem spinlock_interrupts_off_witness:
  "\<exists>s. lreach s \<and> (held s 1 \<noteq> {} \<or> lockop s 1 \<noteq> Idle) \<and>
     \<not> intr_get (s\<lparr>tp := 1\<rparr>) \<and> (\<exists>t. pop_off (s\<lparr>tp := 1\<rparr>) = Ret () t)"
proof -
  obtain s where s: "lreach s" "KmemLock \<in> held s 1" using boot0_run by blast
  then have "held s 1 \<noteq> {} \<or> lockop s 1 \<noteq> Idle" by blast
  with s(1) spinlock_interrupts_off [OF s(1) this] show ?thesis by blast
qed

end
