(* ===== verification/Strings.thy ===== *)
theory Strings
  imports Riscv
begin

text \<open>
  \<open>kernel/string.c\<close> on byte-addressed memory. A loop is a recursion on the value of the count
  argument, so the order of the individual byte writes is the order of the source. \<open>strlen\<close> has no
  bound, and is a partial function.
\<close>

subsection \<open>The functions\<close>

primrec memset :: "u64 \<Rightarrow> u32 \<Rightarrow> nat \<Rightarrow> mem \<Rightarrow> mem" where
  "memset dst c 0 m = m"
| "memset dst c (Suc i) m = (memset dst c i m)(dst + of_nat i := ucast c)"

primrec memcmp :: "u64 \<Rightarrow> u64 \<Rightarrow> nat \<Rightarrow> mem \<Rightarrow> int" where
  "memcmp s1 s2 0 m = 0"
| "memcmp s1 s2 (Suc n) m =
     (if m s1 \<noteq> m s2 then uint (m s1) - uint (m s2) else memcmp (s1 + 1) (s2 + 1) n m)"

primrec copy_up :: "u64 \<Rightarrow> u64 \<Rightarrow> nat \<Rightarrow> mem \<Rightarrow> mem" where
  "copy_up d s 0 m = m"
| "copy_up d s (Suc n) m = copy_up (d + 1) (s + 1) n (m(d := m s))"

primrec copy_down :: "u64 \<Rightarrow> u64 \<Rightarrow> nat \<Rightarrow> mem \<Rightarrow> mem" where
  "copy_down d s 0 m = m"
| "copy_down d s (Suc n) m = copy_down (d - 1) (s - 1) n (m(d - 1 := m (s - 1)))"

definition memmove :: "u64 \<Rightarrow> u64 \<Rightarrow> nat \<Rightarrow> mem \<Rightarrow> mem" where
  "memmove dst src n m =
     (if n = 0 then m
      else if src < dst \<and> src + of_nat n > dst
      then copy_down (dst + of_nat n) (src + of_nat n) n m
      else copy_up dst src n m)"

definition memcpy :: "u64 \<Rightarrow> u64 \<Rightarrow> nat \<Rightarrow> mem \<Rightarrow> mem" where
  "memcpy dst src n m = memmove dst src n m"

primrec strncmp :: "u64 \<Rightarrow> u64 \<Rightarrow> nat \<Rightarrow> mem \<Rightarrow> int" where
  "strncmp p q 0 m = 0"
| "strncmp p q (Suc n) m =
     (if m p \<noteq> 0 \<and> m p = m q then strncmp (p + 1) (q + 1) n m else uint (m p) - uint (m q))"

primrec strncpy_pad :: "u64 \<Rightarrow> nat \<Rightarrow> mem \<Rightarrow> mem" where
  "strncpy_pad s 0 m = m"
| "strncpy_pad s (Suc n) m = strncpy_pad (s + 1) n (m(s := 0))"

primrec strncpy :: "u64 \<Rightarrow> u64 \<Rightarrow> nat \<Rightarrow> mem \<Rightarrow> mem" where
  "strncpy s t 0 m = m"
| "strncpy s t (Suc n) m =
     (let m' = m(s := m t) in if m t \<noteq> 0 then strncpy (s + 1) (t + 1) n m' else strncpy_pad (s + 1) n m')"

text \<open>The loop of \<open>safestrcpy\<close> decrements \<open>n\<close> before it copies, and its last write follows the
  byte that ended it.\<close>

primrec safestrcpy_loop :: "u64 \<Rightarrow> u64 \<Rightarrow> nat \<Rightarrow> mem \<Rightarrow> mem" where
  "safestrcpy_loop s t 0 m = m(s := 0)"
| "safestrcpy_loop s t (Suc n) m =
     (let m' = m(s := m t) in if m t \<noteq> 0 then safestrcpy_loop (s + 1) (t + 1) n m' else m'(s + 1 := 0))"

definition safestrcpy :: "u64 \<Rightarrow> u64 \<Rightarrow> int \<Rightarrow> mem \<Rightarrow> mem" where
  "safestrcpy s t n m = (if n \<le> 0 then m else safestrcpy_loop s t (nat (n - 1)) m)"

partial_function (option) strlen_from :: "mem \<Rightarrow> u64 \<Rightarrow> nat \<Rightarrow> nat option" where
  "strlen_from m s n = (if m (s + of_nat n) = 0 then Some n else strlen_from m s (Suc n))"

definition strlen :: "u64 \<Rightarrow> mem \<Rightarrow> nat option" where
  "strlen s m = strlen_from m s 0"

subsection \<open>Ranges of addresses\<close>

text \<open>\<open>x\<close> lies in the \<open>n\<close> bytes at \<open>a\<close>; a range does not wrap around the address space.\<close>

abbreviation (input) in_range :: "u64 \<Rightarrow> u64 \<Rightarrow> nat \<Rightarrow> bool" where
  "in_range x a n \<equiv> unat (x - a) < n"

lemma unat_sub_if: "unat ((x :: u64) - a) = (if unat a \<le> unat x then unat x - unat a else unat x + 2 ^ 64 - unat a)"
  by (simp add: unat_sub_if_size word_size)

lemma unat_plus_of_nat: "unat (a :: u64) + k < 2 ^ 64 \<Longrightarrow> unat (a + of_nat k) = unat a + k"
  by (simp add: unat_word_ariths unat_of_nat take_bit_nat_def)

lemma in_range_alt: "unat (a :: u64) + n \<le> 2 ^ 64 \<Longrightarrow> in_range x a n \<longleftrightarrow> unat a \<le> unat x \<and> unat x < unat a + n"
  by (auto simp: unat_sub_if)

lemma memset_apply: "n \<le> 2 ^ 64 \<Longrightarrow> memset dst c n m x = (if in_range x dst n then ucast c else m x)"
proof (induction n)
  case (Suc n)
  have "unat (x - dst) = n \<longleftrightarrow> x - dst = of_nat n"
    using Suc.prems by (simp add: word_unat_eq_iff unat_of_nat take_bit_nat_def)
  then have "x = dst + of_nat n \<longleftrightarrow> unat (x - dst) = n"
    by (auto simp: algebra_simps)
  with Suc show ?case by auto
qed simp

lemma copy_up_apply:
  assumes "unat d + n \<le> 2 ^ 64" "unat s + n \<le> 2 ^ 64" "unat d \<le> unat s \<or> unat s + n \<le> unat d"
  shows "copy_up d s n m x = (if in_range x d n then m (s + (x - d)) else m x)"
  using assms
proof (induction n arbitrary: d s m)
  case (Suc n)
  show ?case
  proof (cases "n = 0")
    case True
    then show ?thesis by (auto simp: unat_eq_zero)
  next
    case False
    have d1: "unat (d + 1) = unat d + 1" and s1: "unat (s + 1) = unat s + 1"
      using Suc.prems False unat_plus_of_nat [of d 1] unat_plus_of_nat [of s 1] by simp_all
    have IH: "copy_up (d + 1) (s + 1) n (m(d := m s)) x =
      (if in_range x (d + 1) n then (m(d := m s)) (s + 1 + (x - (d + 1))) else (m(d := m s)) x)"
      using Suc.prems by (intro Suc.IH) (auto simp: d1 s1)
    have rx: "in_range x d (Suc n) \<longleftrightarrow> x = d \<or> in_range x (d + 1) n"
      using Suc.prems in_range_alt [of d "Suc n" x] in_range_alt [of "d + 1" n x]
      by (auto simp: d1 word_unat_eq_iff)
    have nd: "s + (x - d) \<noteq> d" if "in_range x (d + 1) n"
    proof -
      let ?k = "unat (x - d)"
      have x: "unat d + 1 \<le> unat x" "unat x < unat d + 1 + n"
        using that in_range_alt [of "d + 1" n x] Suc.prems by (simp_all add: d1)
      then have k: "unat (x - d) = unat x - unat d" by (simp add: unat_sub_if)
      have "unat (s + (x - d)) = unat s + (unat x - unat d)"
        using unat_plus_of_nat [of s ?k] Suc.prems x by (simp add: k)
      with x Suc.prems show ?thesis by (auto simp: word_unat_eq_iff)
    qed
    show ?thesis using IH rx nd in_range_alt [of "d + 1" n d] Suc.prems by (auto simp: d1)
  qed
qed simp

lemma copy_down_apply:
  assumes "unat d + n \<le> 2 ^ 64" "unat s + n \<le> 2 ^ 64" "unat s \<le> unat d \<or> unat d + n \<le> unat s"
  shows "copy_down (d + of_nat n) (s + of_nat n) n m x = (if in_range x d n then m (s + (x - d)) else m x)"
  using assms
proof (induction n arbitrary: m)
  case (Suc n)
  let ?m = "m(d + of_nat n := m (s + of_nat n))"
  have dn: "unat (d + of_nat n) = unat d + n" and sn: "unat (s + of_nat n) = unat s + n"
    using Suc.prems unat_plus_of_nat [of d n] unat_plus_of_nat [of s n] by simp_all
  have IH: "copy_down (d + of_nat n) (s + of_nat n) n ?m x = (if in_range x d n then ?m (s + (x - d)) else ?m x)"
    using Suc.prems by (intro Suc.IH) auto
  have rx: "in_range x d (Suc n) \<longleftrightarrow> x = d + of_nat n \<or> in_range x d n"
    using Suc.prems in_range_alt [of d "Suc n" x] in_range_alt [of d n x] by (auto simp: word_unat_eq_iff dn)
  have nd: "s + (x - d) \<noteq> d + of_nat n" if "in_range x d n"
  proof -
    have x: "unat d \<le> unat x" "unat x < unat d + n"
      using that in_range_alt [of d n x] Suc.prems by simp_all
    then have "unat (s + (x - d)) = unat s + (unat x - unat d)"
      using unat_plus_of_nat [of s "unat (x - d)"] Suc.prems by (simp add: unat_sub_if)
    with x Suc.prems show ?thesis by (auto simp: word_unat_eq_iff dn)
  qed
  have "copy_down (d + of_nat (Suc n)) (s + of_nat (Suc n)) (Suc n) m =
      copy_down (d + of_nat n) (s + of_nat n) n ?m"
    by (simp add: algebra_simps)
  with IH rx nd show ?case by (auto simp: algebra_simps)
qed simp

lemma memmove_apply:
  assumes "unat dst + n \<le> 2 ^ 64" and "unat src + n < 2 ^ 64"
  shows "memmove dst src n m x = (if unat (x - dst) < n then m (src + (x - dst)) else m x)"
proof -
  consider "n = 0" | "n \<noteq> 0" "src < dst" "src + of_nat n > dst"
    | "n \<noteq> 0" "\<not> (src < dst \<and> src + of_nat n > dst)" by blast
  then show ?thesis
  proof cases
    case 2
    then show ?thesis
      using copy_down_apply [of dst n src m x] assms by (auto simp: memmove_def word_less_nat_alt)
  next
    case 3
    have "unat (src + of_nat n) = unat src + n" using assms unat_plus_of_nat [of src n] by simp
    with 3 have "unat dst \<le> unat src \<or> unat src + n \<le> unat dst" by (auto simp: word_less_nat_alt)
    with 3 show ?thesis using copy_up_apply [of dst n src m x] assms by (auto simp: memmove_def)
  qed (simp add: memmove_def)
qed

subsection \<open>Properties\<close>

text \<open>
  \<open>memmove\<close> is right for overlapping regions. If neither region wraps around the
  address space, the \<open>n\<close> bytes at \<open>dst\<close> end up as the \<open>n\<close> bytes at \<open>src\<close> were before the call, and
  every other byte of memory keeps its value.
\<close>

theorem memmove_correct:
  assumes "unat dst + n \<le> 2 ^ 64" and "unat src + n < 2 ^ 64"
  shows "memmove dst src n m = (\<lambda>x. if unat (x - dst) < n then m (src + (x - dst)) else m x)"
  using memmove_apply [OF assms] by (rule ext)

theorem memmove_correct_witness:
  "memmove 1002 1000 4 (\<lambda>x. ucast x) = (\<lambda>x. if unat (x - 1002) < 4 then ucast (1000 + (x - 1002)) else ucast x)"
  using memmove_correct [of 1002 4 1000 "\<lambda>x. ucast x"] by simp

lemma safestrcpy_loop_other:
  "\<not> in_range x s (Suc n) \<Longrightarrow> Suc n \<le> 2 ^ 64 \<Longrightarrow> safestrcpy_loop s t n m x = m x"
proof (induction n arbitrary: s t m)
  case 0
  then show ?case by auto
next
  case (Suc n)
  have "\<not> in_range x (s + 1) (Suc n)"
  proof
    assume *: "in_range x (s + 1) (Suc n)"
    have "x - s = (x - (s + 1)) + of_nat 1" by simp
    moreover have "unat (x - (s + 1)) + 1 < 2 ^ 64" using * Suc.prems(2) by linarith
    ultimately have "unat (x - s) = unat (x - (s + 1)) + 1"
      using unat_plus_of_nat [of "x - (s + 1)" 1] by metis
    with * Suc.prems show False by linarith
  qed
  moreover from this have "x \<noteq> s" "x \<noteq> s + 1" using Suc.prems by auto
  ultimately show ?case using Suc.prems Suc.IH [of "s + 1"] by (auto simp: Let_def)
qed

lemma safestrcpy_loop_nul:
  "\<exists>k\<le>n. safestrcpy_loop s t n m (s + of_nat k) = 0"
proof (induction n arbitrary: s t m)
  case (Suc n)
  show ?case
  proof (cases "m t = 0")
    case True
    then show ?thesis by (intro exI [of _ 1]) (simp add: Let_def)
  next
    case False
    obtain k where "k \<le> n" "safestrcpy_loop (s + 1) (t + 1) n (m(s := m t)) (s + 1 + of_nat k) = 0"
      using Suc.IH [of "s + 1" "t + 1" "m(s := m t)"] by blast
    with False show ?thesis by (intro exI [of _ "Suc k"]) (simp add: Let_def add.assoc)
  qed
qed simp

text \<open>
  Property C40: \<open>safestrcpy\<close> keeps its promise: for a positive buffer size \<open>n\<close> the buffer holds a NUL
  within its \<open>n\<close> bytes afterwards, and no byte outside the buffer changes.
\<close>

theorem safestrcpy_terminates_and_bounded:
  assumes "0 < n" and "n < 2 ^ 31"
  shows "(\<exists>k<nat n. safestrcpy s t n m (s + of_nat k) = 0) \<and>
     (\<forall>x. \<not> unat (x - s) < nat n \<longrightarrow> safestrcpy s t n m x = m x)"
proof -
  have n: "nat n = Suc (nat (n - 1))" using assms by simp
  have "\<exists>k<nat n. safestrcpy s t n m (s + of_nat k) = 0"
    using safestrcpy_loop_nul [of "nat (n - 1)" s t m] assms n by (auto simp: safestrcpy_def less_Suc_eq_le)
  moreover have "safestrcpy s t n m x = m x" if "\<not> unat (x - s) < nat n" for x
    using safestrcpy_loop_other [of x s "nat (n - 1)" t m] that assms n by (simp add: safestrcpy_def)
  ultimately show ?thesis by blast
qed

theorem safestrcpy_terminates_and_bounded_witness:
  "(\<exists>k<nat 16. safestrcpy 100 200 16 (\<lambda>_. 7) (100 + of_nat k) = 0) \<and> safestrcpy 100 200 16 (\<lambda>_. 7) 116 = 7"
  using safestrcpy_terminates_and_bounded [of 16 100 200 "\<lambda>_. 7"] by simp

lemma strlen_from_Some:
  "(\<And>i. i < k \<Longrightarrow> m (s + of_nat (n + i)) \<noteq> 0) \<Longrightarrow> m (s + of_nat (n + k)) = 0 \<Longrightarrow> strlen_from m s n = Some (n + k)"
proof (induction k arbitrary: n)
  case 0
  then show ?case by (subst strlen_from.simps) simp
next
  case (Suc k)
  have "strlen_from m s (Suc n) = Some (Suc n + k)"
  proof (rule Suc.IH)
    fix i assume "i < k"
    then show "m (s + of_nat (Suc n + i)) \<noteq> 0" using Suc.prems(1) [of "Suc i"] by simp
  qed (use Suc.prems(2) in simp)
  moreover have "m (s + of_nat n) \<noteq> 0" using Suc.prems(1) [of 0] by simp
  ultimately show ?case by (subst strlen_from.simps) simp
qed

lemma strlen_Some:
  "(\<And>i. i < k \<Longrightarrow> m (s + of_nat i) \<noteq> 0) \<Longrightarrow> m (s + of_nat k) = 0 \<Longrightarrow> strlen s m = Some k"
  using strlen_from_Some [of k m s 0] by (simp add: strlen_def)

end
