(* ===== verification/Kalloc.thy ===== *)
theory Kalloc
  imports Spinlock Strings
begin

text \<open>
  \<open>kernel/kalloc.c\<close>: the physical page allocator. The free list is threaded through the free pages
  themselves (\<open>struct run\<close> is the first eight bytes of a free page), so its state is the head pointer
  and physical memory. \<open>kend\<close> is the linker symbol \<open>end\<close>, the first address after the kernel.
  The list is abstracted as in a heap verification: \<open>free_list m p xs\<close> says that following the
  \<open>next\<close> pointers from \<open>p\<close> in memory \<open>m\<close> visits the pages \<open>xs\<close> and stops.
\<close>

record kmem = machine +
  pmem :: mem
  freelist :: u64
  kend :: u64

interpretation pmem_upd: machine_upd "pmem_update f" for f
  by unfold_locales simp_all

interpretation freelist_upd: machine_upd "freelist_update f" for f
  by unfold_locales simp_all

interpretation pmem_get: machine_get pmem
  by unfold_locales simp_all

interpretation freelist_get: machine_get freelist
  by unfold_locales simp_all

interpretation kend_get: machine_get kend
  by unfold_locales simp_all

subsection \<open>The functions of kalloc.c\<close>

definition kfree :: "u64 \<Rightarrow> 'z kmem_scheme \<Rightarrow> (unit, 'z kmem_scheme) outcome" where
  "kfree pa s =
     (if pa mod PGSIZE \<noteq> 0 \<or> pa < kend s \<or> pa \<ge> PHYSTOP then Panic ''kfree''
      else
        (let s = s\<lparr>pmem := memset pa 1 4096 (pmem s)\<rparr>; r = pa in
         andthen (acquire KmemLock s) (\<lambda>_ s.
           let s = s\<lparr>pmem := store64 r (freelist s) (pmem s)\<rparr>;
               s = s\<lparr>freelist := r\<rparr>
           in release KmemLock s)))"

definition kalloc :: "'z kmem_scheme \<Rightarrow> (u64, 'z kmem_scheme) outcome" where
  "kalloc s =
     andthen (acquire KmemLock s) (\<lambda>_ s.
       let r = freelist s;
           s = (if r \<noteq> 0 then s\<lparr>freelist := load64 (pmem s) r\<rparr> else s)
       in andthen (release KmemLock s) (\<lambda>_ s.
            Ret r (if r \<noteq> 0 then s\<lparr>pmem := memset r 5 4096 (pmem s)\<rparr> else s)))"

text \<open>\<open>freerange\<close> compares pointers of type \<open>char *\<close>; the loop ends when the next page would pass
  \<open>pa_end\<close>.\<close>

function freerange_loop :: "u64 \<Rightarrow> u64 \<Rightarrow> 'z kmem_scheme \<Rightarrow> (unit, 'z kmem_scheme) outcome" where
  "freerange_loop p pa_end s =
     (if p \<le> p + PGSIZE \<and> p + PGSIZE \<le> pa_end
      then andthen (kfree p s) (\<lambda>_ s. freerange_loop (p + PGSIZE) pa_end s)
      else Ret () s)"
  by pat_completeness auto
termination
proof (relation "measure (\<lambda>(p, pa_end, s). unat pa_end - unat p)")
  fix p pa_end :: u64
  assume "p \<le> p + PGSIZE \<and> p + PGSIZE \<le> pa_end"
  then have "unat p < unat (p + PGSIZE)" "unat (p + PGSIZE) \<le> unat pa_end"
    by (auto simp: word_le_nat_alt order_less_le word_unat_eq_iff [symmetric])
  then show "((p + PGSIZE, pa_end, t), p, pa_end, s) \<in> measure (\<lambda>(p, pa_end, s). unat pa_end - unat p)" for s t
    by simp
qed simp

declare freerange_loop.simps [simp del]

definition freerange :: "u64 \<Rightarrow> u64 \<Rightarrow> 'z kmem_scheme \<Rightarrow> (unit, 'z kmem_scheme) outcome" where
  "freerange pa_start pa_end s = freerange_loop (PGROUNDUP pa_start) pa_end s"

definition kinit :: "'z kmem_scheme \<Rightarrow> (unit, 'z kmem_scheme) outcome" where
  "kinit s = freerange (kend s) PHYSTOP (initlock KmemLock ''kmem'' s)"

subsection \<open>Memory within and outside a page\<close>

lemma load64_store64_other:
  assumes "8 \<le> unat (b - a)" and "8 \<le> unat (a - b)"
  shows "load64 (store64 a v m) b = load64 m b"
proof (rule load64_cong)
  fix i :: nat assume i: "i < 8"
  have ab: "a \<noteq> b" using assms by auto
  have "unat (b - a) + unat (a - b) = 2 ^ 64"
    using ab by (auto simp: unat_sub_if word_unat_eq_iff) (use unat64_lt [of a] unat64_lt [of b] in linarith)+
  then have "unat (b - a) + i < 2 ^ 64" using assms i by linarith
  then have "unat (b - a + of_nat i) = unat (b - a) + i" by (rule unat_plus_of_nat)
  then have "\<not> unat (b + of_nat i - a) < 8" using assms(1) by (simp add: algebra_simps)
  then show "store64 a v m (b + of_nat i) = m (b + of_nat i)" by (rule store64_apply_other)
qed

text \<open>Pages that are aligned and different do not meet.\<close>

lemma page_disjoint:
  assumes "page_aligned a" and "page_aligned b" and "a \<noteq> b" and "unat (x - a) < 4096"
  shows "\<not> unat (x - b) < 4096"
proof
  assume b: "unat (x - b) < 4096"
  obtain i where i: "unat a = 4096 * i" using assms(1) by (auto simp: page_aligned_unat elim: dvdE)
  obtain j where j: "unat b = 4096 * j" using assms(2) by (auto simp: page_aligned_unat elim: dvdE)
  have "unat a + 4096 \<le> 2 ^ 64" "unat b + 4096 \<le> 2 ^ 64"
    using unat64_lt [of a] unat64_lt [of b] i j by simp_all
  then have "4096 * i \<le> unat x" "unat x < 4096 * i + 4096" "4096 * j \<le> unat x" "unat x < 4096 * j + 4096"
    using in_range_alt [of a 4096 x] in_range_alt [of b 4096 x] b assms(4) i j by auto
  then have "i = j" by simp
  with assms(3) i j show False by (simp add: word_unat_eq_iff)
qed

subsection \<open>Sequential behaviour\<close>

lemma kalloc_eq:
  assumes "lock_free KmemLock s" and "cpu_ok s"
  shows "kalloc s =
     (let r = freelist s in
      Ret r (if r = 0 then settle s
             else (settle s)\<lparr>freelist := load64 (pmem s) r, pmem := memset r 5 4096 (pmem s)\<rparr>))"
  using assms by (simp add: kalloc_def Let_def)

lemma kfree_eq:
  assumes "lock_free KmemLock s" and "cpu_ok s"
    and "page_aligned pa" and "kend s \<le> pa" and "pa < PHYSTOP"
  shows "kfree pa s =
     Ret () ((settle s)\<lparr>pmem := store64 pa (freelist s) (memset pa 1 4096 (pmem s)), freelist := pa\<rparr>)"
  using assms by (simp add: kfree_def Let_def page_aligned_def not_less [symmetric])

subsection \<open>The free list\<close>

primrec free_list :: "mem \<Rightarrow> u64 \<Rightarrow> u64 list \<Rightarrow> bool" where
  "free_list m p [] \<longleftrightarrow> p = 0"
| "free_list m p (x # xs) \<longleftrightarrow> p = x \<and> x \<noteq> 0 \<and> free_list m (load64 m x) xs"

definition page_ok :: "u64 \<Rightarrow> u64 \<Rightarrow> bool" where
  "page_ok e x \<longleftrightarrow> page_aligned x \<and> e \<le> x \<and> x < PHYSTOP"

definition kmem_inv :: "'z kmem_scheme \<Rightarrow> u64 list \<Rightarrow> bool" where
  "kmem_inv s xs \<longleftrightarrow>
     free_list (pmem s) (freelist s) xs \<and> distinct xs \<and> (\<forall>x\<in>set xs. page_ok (kend s) x) \<and>
     0 < kend s \<and> lock_free KmemLock s"

text \<open>\<open>same_outside m m' p\<close>: the memories differ at most in the page at \<open>p\<close>.\<close>

definition same_outside :: "mem \<Rightarrow> mem \<Rightarrow> u64 \<Rightarrow> bool" where
  "same_outside m m' p \<longleftrightarrow> (\<forall>x. \<not> unat (x - p) < 4096 \<longrightarrow> m' x = m x)"

lemma same_outside_load64:
  assumes "same_outside m m' p" and "page_aligned p" and "page_aligned q" and "p \<noteq> q" and "j + 8 \<le> 4096"
  shows "load64 m' (q + of_nat j) = load64 m (q + of_nat j)"
proof (rule load64_cong)
  fix i :: nat assume "i < 8"
  then have "unat (q + of_nat j + of_nat i - q) = j + i"
    using assms(5) unat_plus_of_nat [of 0 "j + i"] by (simp add: add.assoc)
  then have "\<not> unat (q + of_nat j + of_nat i - p) < 4096"
    using page_disjoint [OF assms(3,2)] assms(4,5) \<open>i < 8\<close> by simp
  then show "m' (q + of_nat j + of_nat i) = m (q + of_nat j + of_nat i)"
    using assms(1) by (simp add: same_outside_def)
qed

lemma same_outside_free_list:
  assumes "same_outside m m' p" and "page_aligned p" and "\<forall>x\<in>set xs. page_aligned x" and "p \<notin> set xs"
  shows "free_list m' q xs = free_list m q xs"
  using assms(3,4)
proof (induction xs arbitrary: q)
  case (Cons x xs)
  then have "load64 m' x = load64 m x"
    using same_outside_load64 [OF assms(1,2), of x 0] by auto
  with Cons show ?case by simp
qed simp

lemma same_outside_memset: "same_outside m (memset p c 4096 m) p"
  by (simp add: same_outside_def memset_apply)

lemma same_outside_store64: "j + 8 \<le> 4096 \<Longrightarrow> page_aligned p \<Longrightarrow> same_outside m (store64 (p + of_nat j) v m) p"
  unfolding same_outside_def
proof (intro allI impI)
  fix x assume j: "j + 8 \<le> 4096" and p: "page_aligned p" and x: "\<not> unat (x - p) < 4096"
  have "\<not> unat (x - (p + of_nat j)) < 8"
  proof
    assume *: "unat (x - (p + of_nat j)) < 8"
    have "x - p = (x - (p + of_nat j)) + of_nat j" by simp
    moreover have "unat (x - (p + of_nat j)) + j < 2 ^ 64" using * j by simp
    ultimately have "unat (x - p) = unat (x - (p + of_nat j)) + j" using unat_plus_of_nat by metis
    with * j x show False by linarith
  qed
  then show "store64 (p + of_nat j) v m x = m x" by (rule store64_apply_other)
qed

lemma same_outside_trans: "same_outside m m' p \<Longrightarrow> same_outside m' m'' p \<Longrightarrow> same_outside m m'' p"
  by (simp add: same_outside_def)

lemma kmem_inv_alloc:
  assumes inv: "kmem_inv s (x # xs)" and ok: "cpu_ok s"
  shows "kalloc s = Ret x ((settle s)\<lparr>freelist := load64 (pmem s) x, pmem := memset x 5 4096 (pmem s)\<rparr>) \<and>
     kmem_inv ((settle s)\<lparr>freelist := load64 (pmem s) x, pmem := memset x 5 4096 (pmem s)\<rparr>) xs"
proof -
  have fl: "freelist s = x" "x \<noteq> 0" "free_list (pmem s) (load64 (pmem s) x) xs" "x \<notin> set xs"
    and al: "page_aligned x" "\<forall>y\<in>set xs. page_aligned y" and lf: "lock_free KmemLock s"
    using inv by (auto simp: kmem_inv_def page_ok_def)
  have "free_list (memset x 5 4096 (pmem s)) (load64 (pmem s) x) xs"
    using same_outside_free_list [OF same_outside_memset al fl(4)] fl(3) by blast
  then show ?thesis using kalloc_eq [OF lf ok] inv fl by (simp add: kmem_inv_def Let_def)
qed

lemma kmem_inv_free:
  assumes inv: "kmem_inv s xs" and ok: "cpu_ok s" and pa: "page_ok (kend s) pa" "pa \<notin> set xs"
  shows "kfree pa s = Ret () ((settle s)\<lparr>pmem := store64 pa (freelist s) (memset pa 1 4096 (pmem s)), freelist := pa\<rparr>) \<and>
     kmem_inv ((settle s)\<lparr>pmem := store64 pa (freelist s) (memset pa 1 4096 (pmem s)), freelist := pa\<rparr>) (pa # xs)"
proof -
  let ?m = "store64 pa (freelist s) (memset pa 1 4096 (pmem s))"
  have fl: "free_list (pmem s) (freelist s) xs" "0 < kend s" and lf: "lock_free KmemLock s"
    and al: "page_aligned pa" "\<forall>y\<in>set xs. page_aligned y"
    using inv pa by (auto simp: kmem_inv_def page_ok_def)
  have "same_outside (pmem s) ?m pa"
    using same_outside_trans [OF same_outside_memset same_outside_store64 [of 0 pa]] al by simp
  then have "free_list ?m (freelist s) xs"
    using same_outside_free_list [OF _ al pa(2)] fl(1) by blast
  moreover have "pa \<noteq> 0" using pa(1) fl(2) by (auto simp: page_ok_def word_gt_0)
  ultimately have "free_list ?m pa (pa # xs)" by simp
  then show ?thesis using kfree_eq [OF lf ok] inv pa fl by (simp add: kmem_inv_def page_ok_def)
qed

subsection \<open>The interface of the allocator\<close>

text \<open>What the rest of the kernel relies on: a page that is handed out is no longer free, all pages
  handed out are different, and a page that is given back can be handed out again.\<close>

locale page_allocator =
  fixes alloc :: "'s \<Rightarrow> (u64, 's) outcome"
    and dealloc :: "u64 \<Rightarrow> 's \<Rightarrow> (unit, 's) outcome"
    and inv :: "'s \<Rightarrow> u64 list \<Rightarrow> bool"
    and page :: "'s \<Rightarrow> u64 \<Rightarrow> bool"
  assumes alloc_Cons: "inv s (x # xs) \<Longrightarrow> returns (alloc s) (\<lambda>r t. r = x \<and> inv t xs \<and> page t = page s)"
    and alloc_Nil: "inv s [] \<Longrightarrow> returns (alloc s) (\<lambda>r t. r = 0 \<and> inv t [] \<and> page t = page s)"
    and dealloc_ok: "inv s xs \<Longrightarrow> page s p \<Longrightarrow> p \<notin> set xs \<Longrightarrow>
      returns (dealloc p s) (\<lambda>_ t. inv t (p # xs) \<and> page t = page s)"
    and inv_pages: "inv s xs \<Longrightarrow> x \<in> set xs \<Longrightarrow> page s x"
    and inv_distinct: "inv s xs \<Longrightarrow> distinct xs"
    and page_nonnull: "inv s xs \<Longrightarrow> page s x \<Longrightarrow> x \<noteq> 0"
begin

lemma alloc_fresh:
  assumes "inv s xs"
  shows "returns (alloc s) (\<lambda>r t. if r = 0 then xs = [] \<and> inv t []
     else page t r \<and> (\<exists>ys. xs = r # ys \<and> inv t ys \<and> r \<notin> set ys))"
proof (cases xs)
  case Nil
  then show ?thesis using alloc_Nil [of s] assms by (auto elim!: returns_mono)
next
  case (Cons x ys)
  have "x \<noteq> 0" "x \<notin> set ys" "page s x"
    using inv_pages [OF assms] inv_distinct [OF assms] page_nonnull [OF assms] Cons by auto
  then show ?thesis using alloc_Cons [of s x ys] assms Cons by (auto elim!: returns_mono)
qed

lemma dealloc_alloc:
  "inv s xs \<Longrightarrow> page s p \<Longrightarrow> p \<notin> set xs \<Longrightarrow>
   returns (andthen (dealloc p s) (\<lambda>_ t. alloc t)) (\<lambda>r t. r = p \<and> inv t xs)"
  using dealloc_ok [of s xs p] by (auto intro: returns_mono [OF alloc_Cons] elim!: returns_mono)

text \<open>Two allocations in a row never return the same page.\<close>

lemma alloc_alloc:
  assumes "inv s xs"
  shows "returns (andthen (alloc s) (\<lambda>r t. andthen (alloc t) (\<lambda>q u. Ret (r, q) u)))
     (\<lambda>(r, q) u. r = 0 \<or> r \<noteq> q)"
proof -
  have "returns (alloc t) (\<lambda>q u. r \<noteq> q)" if "inv t ys" and "r \<notin> set ys" and "r \<noteq> 0" for t ys r
    by (rule returns_mono [OF alloc_fresh [OF that(1)]]) (use that(2,3) in \<open>auto split: if_splits\<close>)
  moreover have "returns (alloc t) (\<lambda>q u. True)" if "inv t ys" for t ys
    by (rule returns_mono [OF alloc_fresh [OF that]]) simp
  ultimately show ?thesis
    using alloc_fresh [OF assms] by (auto elim!: returns_mono split: if_splits)
qed

end

interpretation kpages: page_allocator kalloc kfree "\<lambda>s xs. kmem_inv s xs \<and> cpu_ok s" "\<lambda>s. page_ok (kend s)"
proof unfold_locales
  fix s :: "'a kmem_scheme" and x xs
  assume "kmem_inv s (x # xs) \<and> cpu_ok s"
  then show "returns (kalloc s) (\<lambda>r t. r = x \<and> (kmem_inv t xs \<and> cpu_ok t) \<and> page_ok (kend t) = page_ok (kend s))"
    using kmem_inv_alloc [of s x xs] by auto
next
  fix s :: "'a kmem_scheme"
  assume "kmem_inv s [] \<and> cpu_ok s"
  then show "returns (kalloc s) (\<lambda>r t. r = 0 \<and> (kmem_inv t [] \<and> cpu_ok t) \<and> page_ok (kend t) = page_ok (kend s))"
    using kalloc_eq [of s] by (simp add: kmem_inv_def)
next
  fix s :: "'a kmem_scheme" and xs p
  assume "kmem_inv s xs \<and> cpu_ok s" and "page_ok (kend s) p" and "p \<notin> set xs"
  then show "returns (kfree p s) (\<lambda>_ t. (kmem_inv t (p # xs) \<and> cpu_ok t) \<and> page_ok (kend t) = page_ok (kend s))"
    using kmem_inv_free [of s xs p] by auto
qed (auto simp: kmem_inv_def page_ok_def word_gt_0)

subsection \<open>Properties\<close>

text \<open>
  Property C7: \<open>kalloc\<close> is correct against the abstract free list. With free pages \<open>x # xs\<close> it returns
  \<open>x\<close> filled with the byte 5, leaves the list \<open>xs\<close> and changes no byte outside that page; with no free
  page it returns 0 and changes nothing.
\<close>

theorem kalloc_correct:
  assumes "kmem_inv s xs" and "cpu_ok s"
  shows "returns (kalloc s) (\<lambda>r t. case xs of
       [] \<Rightarrow> r = 0 \<and> kmem_inv t [] \<and> pmem t = pmem s
     | x # ys \<Rightarrow> r = x \<and> kmem_inv t ys \<and>
         (\<forall>a. pmem t a = (if unat (a - x) < 4096 then 5 else pmem s a)))"
proof (cases xs)
  case Nil
  then show ?thesis using assms kalloc_eq [of s] by (simp add: kmem_inv_def)
next
  case (Cons x ys)
  then show ?thesis using assms kmem_inv_alloc [of s x ys] by (auto simp: memset_apply)
qed

text \<open>A machine with one free page, for the witnesses.\<close>

definition kmem0 :: kmem where
  "kmem0 = \<lparr>tp = 0, sstatus = (\<lambda>_. 0), cpus = (\<lambda>_. \<lparr>cpu_proc = None, noff = 0, intena = False\<rparr>),
     spin = (\<lambda>_. \<lparr>locked = 0, lk_name = [], lk_cpu = None\<rparr>),
     pmem = (\<lambda>_. 0), freelist = 0x80100000, kend = 0x80100000\<rparr>"

lemma load64_zero [simp]: "load64 (\<lambda>_. 0) a = 0"
  by (rule bit_eqI) (simp add: bit_load64)

lemma kmem0_ok: "kmem_inv kmem0 [0x80100000]" "cpu_ok kmem0" "page_ok (kend kmem0) 0x80101000"
  by (simp_all add: kmem0_def kmem_inv_def page_ok_def page_aligned_def PHYSTOP_def KERNBASE_def
      lock_free_def cpu_ok_def mycpu_def cpuid_def)

theorem kalloc_correct_witness:
  "returns (kalloc kmem0) (\<lambda>r t. r = 0x80100000 \<and> kmem_inv t [] \<and>
     (\<forall>a. pmem t a = (if unat (a - 0x80100000) < 4096 then 5 else pmem kmem0 a)))"
  using kalloc_correct [OF kmem0_ok(1,2)] by simp

text \<open>
  \<open>kfree\<close> refuses exactly the addresses that are not page-aligned or lie outside
  \<open>[end, PHYSTOP)\<close>; a page it accepts becomes the head of the free list, and the next \<open>kalloc\<close>
  returns it.
\<close>

theorem kfree_correct:
  assumes "kmem_inv s xs" and "cpu_ok s" and "pa \<notin> set xs"
  shows "if page_ok (kend s) pa
     then returns (kfree pa s) (\<lambda>_ t. kmem_inv t (pa # xs)) \<and>
          returns (andthen (kfree pa s) (\<lambda>_ t. kalloc t)) (\<lambda>r t. r = pa \<and> kmem_inv t xs)
     else kfree pa s = Panic ''kfree''"
proof (cases "page_ok (kend s) pa")
  case True
  have *: "kmem_inv s xs \<and> cpu_ok s" using assms by simp
  have "returns (kfree pa s) (\<lambda>_ t. kmem_inv t (pa # xs))"
    by (rule returns_mono [OF kpages.dealloc_ok [OF * True assms(3)]]) simp
  moreover have "returns (andthen (kfree pa s) (\<lambda>_ t. kalloc t)) (\<lambda>r t. r = pa \<and> kmem_inv t xs)"
    by (rule returns_mono [OF kpages.dealloc_alloc [OF * True assms(3)]]) simp
  ultimately show ?thesis using True by (simp del: returns_andthen)
next
  case False
  then show ?thesis by (auto simp: kfree_def page_ok_def page_aligned_def not_le not_less)
qed

theorem kfree_correct_witness:
  "page_ok (kend kmem0) 0x80101000 \<and> returns (kfree 0x80101000 kmem0) (\<lambda>_ t. kmem_inv t [0x80101000, 0x80100000]) \<and>
   kfree 12 kmem0 = Panic ''kfree''"
proof -
  have "returns (kfree 0x80101000 kmem0) (\<lambda>_ t. kmem_inv t [0x80101000, 0x80100000])"
    using kfree_correct [OF kmem0_ok(1,2), of "0x80101000"] kmem0_ok(3) by (simp del: returns_andthen)
  moreover have "\<not> page_ok (kend kmem0) 12" by (simp add: page_ok_def page_aligned_def)
  then have "kfree 12 kmem0 = Panic ''kfree''"
    using kfree_correct [OF kmem0_ok(1,2), of 12] by simp
  ultimately show ?thesis using kmem0_ok(3) by simp
qed

lemma free_pages_step:
  assumes "kmem_inv s xs" and "cpu_ok s" and "page_ok (kend s) p" and "\<forall>x\<in>set xs. x < p"
  shows "\<exists>t. kfree p s = Ret () t \<and> kmem_inv t (p # xs) \<and> cpu_ok t \<and> kend t = kend s"
  using kmem_inv_free [of s xs p] assms by auto

text \<open>The pages from \<open>p\<close> up, \<open>n\<close> of them, in the order \<open>freerange\<close> leaves them on the list.\<close>

definition pages_down :: "u64 \<Rightarrow> nat \<Rightarrow> u64 list" where
  "pages_down p n = rev (map (\<lambda>i. p + PGSIZE * of_nat i) [0..<n])"

lemma freerange_loop_correct:
  assumes "kmem_inv s xs" and "cpu_ok s" and "page_aligned p" and "kend s \<le> p"
    and "\<forall>x\<in>set xs. x < p" and "unat p + 4096 * n = unat PHYSTOP"
  shows "\<exists>t. freerange_loop p PHYSTOP s = Ret () t \<and> kmem_inv t (pages_down p n @ xs) \<and> cpu_ok t"
  using assms
proof (induction n arbitrary: s xs p)
  case 0
  then have "p = PHYSTOP" by (simp add: word_unat_eq_iff)
  then have "\<not> (p \<le> p + PGSIZE \<and> p + PGSIZE \<le> PHYSTOP)" by (simp add: PHYSTOP_def KERNBASE_def)
  then show ?case using 0 by (subst freerange_loop.simps) (auto simp: pages_down_def)
next
  case (Suc n)
  have top: "unat PHYSTOP = 2281701376" by (simp add: PHYSTOP_def KERNBASE_def)
  have p1: "unat (p + PGSIZE) = unat p + 4096"
    using unat_plus_of_nat [of p 4096] Suc.prems(6) by (simp add: top)
  have lt: "p < PHYSTOP" and le: "p \<le> p + PGSIZE" "p + PGSIZE \<le> PHYSTOP"
    using Suc.prems(6) by (simp_all add: word_less_nat_alt word_le_nat_alt p1 top)
  obtain t where t: "kfree p s = Ret () t" "kmem_inv t (p # xs)" "cpu_ok t" "kend t = kend s"
    using free_pages_step [of s xs p] Suc.prems lt by (auto simp: page_ok_def)
  have "page_aligned (p + PGSIZE)" using Suc.prems(3) by (simp add: page_aligned_unat p1)
  moreover have "\<forall>x\<in>set (p # xs). x < p + PGSIZE" "kend t \<le> p + PGSIZE"
    using Suc.prems(4,5) t(4) by (auto simp: word_less_nat_alt word_le_nat_alt p1)
  moreover have "unat (p + PGSIZE) + 4096 * n = unat PHYSTOP" using Suc.prems(6) by (simp add: p1)
  ultimately obtain u where u: "freerange_loop (p + PGSIZE) PHYSTOP t = Ret () u"
    "kmem_inv u (pages_down (p + PGSIZE) n @ p # xs)" "cpu_ok u"
    using Suc.IH [OF t(2,3)] by blast
  have "pages_down p (Suc n) = pages_down (p + PGSIZE) n @ [p]"
    by (simp add: pages_down_def upt_conv_Cons map_Suc_upt [symmetric] algebra_simps comp_def del: upt_Suc)
  with u t(1) le show ?case by (subst freerange_loop.simps) simp
qed

text \<open>
  Initialisation. From a machine whose allocator is empty, \<open>kinit\<close> returns with every
  page between \<open>PGROUNDUP(end)\<close> and \<open>PHYSTOP\<close> on the free list, once each and highest address first.
\<close>

theorem kinit_correct:
  assumes "cpu_ok s" and "freelist s = 0" and "0 < kend s" and "kend s \<le> PHYSTOP"
    and "n = (unat PHYSTOP - unat (PGROUNDUP (kend s))) div 4096"
  shows "\<exists>t. kinit s = Ret () t \<and> kmem_inv t (pages_down (PGROUNDUP (kend s)) n)"
proof -
  let ?s = "initlock KmemLock ''kmem'' s" and ?p = "PGROUNDUP (kend s)"
  have top: "unat PHYSTOP = 2281701376" by (simp add: PHYSTOP_def KERNBASE_def)
  have "unat (kend s) \<le> 2281701376" using assms(4) by (simp add: word_le_nat_alt top)
  then have up: "unat ?p = (unat (kend s) + 4095) div 4096 * 4096" by (intro PGROUNDUP_unat) simp
  obtain k where k: "unat ?p = 4096 * k" using up by simp
  have "kend s \<le> ?p" "unat ?p \<le> 2281701376"
    using up \<open>unat (kend s) \<le> 2281701376\<close> by (simp_all add: word_le_nat_alt)
  moreover have "unat ?p + 4096 * n = unat PHYSTOP"
    using assms(5) calculation(2) k by (simp add: top)
  moreover have "kmem_inv ?s []" "cpu_ok ?s" "kend ?s = kend s"
    using assms by (simp_all add: kmem_inv_def initlock_def lock_free_def cpu_ok_def machine_defs)
  ultimately show ?thesis
    using freerange_loop_correct [of ?s "[]" ?p n] by (auto simp: kinit_def freerange_def)
qed

theorem kinit_correct_witness:
  "\<exists>t. kinit (kmem0\<lparr>freelist := 0, kend := 0x80021ab0\<rparr>) = Ret () t \<and> kmem_inv t (pages_down 0x80022000 32734)"
proof -
  have "PGROUNDUP 0x80021ab0 = 0x80022000" by (simp add: PGROUNDUP_def)
  then show ?thesis
    using kinit_correct [of "kmem0\<lparr>freelist := 0, kend := 0x80021ab0\<rparr>" 32734] kmem0_ok(2)
    by (simp add: PHYSTOP_def KERNBASE_def kmem0_def cpu_ok_def mycpu_def cpuid_def)
qed

subsection \<open>Copies between pages\<close>

lemma page_room: "page_aligned a \<Longrightarrow> unat a + 4096 \<le> 2 ^ 64"
proof -
  assume "page_aligned a"
  then obtain i where "unat a = 4096 * i" by (auto simp: page_aligned_unat elim: dvdE)
  with unat64_lt [of a] show ?thesis by simp
qed

lemma page_memmove:
  assumes "page_aligned d" and "page_aligned p" and "n < 4096"
  shows "memmove d p n m x = (if unat (x - d) < n then m (p + (x - d)) else m x)"
  using assms page_room [of d] page_room [of p] by (intro memmove_apply) simp_all

lemma same_outside_page_memmove:
  "page_aligned d \<Longrightarrow> page_aligned p \<Longrightarrow> n < 4096 \<Longrightarrow> same_outside m (memmove d p n m) d"
  by (simp add: same_outside_def page_memmove)

lemma kmem_inv_pmem:
  assumes "kmem_inv s xs" and "same_outside (pmem s) m p" and "page_aligned p" and "p \<notin> set xs"
  shows "kmem_inv (s\<lparr>pmem := m\<rparr>) xs"
  using assms same_outside_free_list [OF assms(2,3), of xs]
  by (auto simp: kmem_inv_def page_ok_def)

lemma load64_region:
  assumes "\<And>a. unat (a - b) < n \<Longrightarrow> m' a = m (c + (a - b))" and "j + 8 \<le> n" and "n \<le> 4096"
  shows "load64 m' (b + of_nat j) = load64 m (c + of_nat j)"
proof (rule bit_eqI)
  fix k assume "possible_bit TYPE(u64) k"
  hence k: "k < 64" by (simp add: possible_bit_word)
  have "unat (b + of_nat j + of_nat (k div 8) - b) = j + k div 8"
    using k assms(2,3) unat_plus_of_nat [of 0 "j + k div 8"] by (simp add: add.assoc)
  then have "m' (b + of_nat j + of_nat (k div 8)) = m (c + of_nat j + of_nat (k div 8))"
    using assms(1) [of "b + of_nat j + of_nat (k div 8)"] assms(2) k by (simp add: algebra_simps)
  then show "bit (load64 m' (b + of_nat j)) k = bit (load64 m (c + of_nat j)) k"
    by (simp add: bit_load64)
qed

lemma kmem_inv_settle [simp]: "kmem_inv (settle s) xs = kmem_inv s xs"
  by (simp add: kmem_inv_def)

end
