(* ===== verification/Vm.thy ===== *)
theory Vm
  imports Kalloc
begin

text \<open>
  \<open>kernel/vm.c\<close>: Sv39 page tables. Page-table pages and user pages live in physical memory \<open>pmem\<close>;
  a page table is the physical address of its root page, and a pointer to a page-table entry is the
  address of eight bytes of that memory. Buffers of the caller that are not kalloc'ed pages (the
  source of \<open>copyout\<close>, the destination of \<open>copyin\<close>) are byte lists. \<open>trampoline\<close> and \<open>etext\<close> are the
  linker's symbols, fields of the state that no operation changes.
\<close>

record vm = kmem +
  kernel_pagetable :: u64
  satp :: "nat \<Rightarrow> u64"
  sym_trampoline :: u64
  sym_etext :: u64

interpretation kernel_pagetable_get: machine_get kernel_pagetable
  by unfold_locales simp_all

interpretation sym_trampoline_get: machine_get sym_trampoline
  by unfold_locales simp_all

abbreviation (input) UART0 :: u64 where "UART0 \<equiv> 0x10000000"
abbreviation (input) VIRTIO0 :: u64 where "VIRTIO0 \<equiv> 0x10001000"
abbreviation (input) PLIC :: u64 where "PLIC \<equiv> 0x0c000000"

subsection \<open>Walking and mapping\<close>

text \<open>The loop of \<open>walk\<close> from \<open>level\<close> down to 1, then the address of the level-0 entry.\<close>

primrec walk_loop :: "nat \<Rightarrow> u64 \<Rightarrow> u64 \<Rightarrow> bool \<Rightarrow> 'z kmem_scheme \<Rightarrow> (u64, 'z kmem_scheme) outcome" where
  "walk_loop 0 pagetable va alloc s = Ret (pagetable + 8 * PX 0 va) s"
| "walk_loop (Suc l) pagetable va alloc s =
     (let pte = pagetable + 8 * PX (Suc l) va; v = load64 (pmem s) pte in
      if v AND PTE_V \<noteq> 0 then walk_loop l (PTE2PA v) va alloc s
      else if \<not> alloc then Ret 0 s
      else
        andthen (kalloc s) (\<lambda>child s.
          if child = 0 then Ret 0 s
          else
            (let s = s\<lparr>pmem := memset child 0 4096 (pmem s)\<rparr>;
                 s = s\<lparr>pmem := store64 pte (PA2PTE child OR PTE_V) (pmem s)\<rparr>
             in walk_loop l child va alloc s)))"

definition walk :: "u64 \<Rightarrow> u64 \<Rightarrow> bool \<Rightarrow> 'z kmem_scheme \<Rightarrow> (u64, 'z kmem_scheme) outcome" where
  "walk pagetable va alloc s =
     (if va \<ge> MAXVA then Panic ''walk'' else walk_loop 2 pagetable va alloc s)"

definition walkaddr :: "u64 \<Rightarrow> u64 \<Rightarrow> 'z kmem_scheme \<Rightarrow> (u64, 'z kmem_scheme) outcome" where
  "walkaddr pagetable va s =
     (if va \<ge> MAXVA then Ret 0 s
      else
        andthen (walk pagetable va False s) (\<lambda>pte s.
          if pte = 0 then Ret 0 s
          else
            (let v = load64 (pmem s) pte in
             if v AND PTE_V = 0 then Ret 0 s
             else if v AND PTE_U = 0 then Ret 0 s
             else Ret (PTE2PA v) s)))"

lemma walk_bound: "result (walk pt va alloc s) r t \<Longrightarrow> va < MAXVA"
  by (auto simp: walk_def not_le split: if_splits)

lemma unat_MAXVA: "unat MAXVA = 274877906944"
  by (simp add: MAXVA_def)

lemma next_page_less: "a < MAXVA \<Longrightarrow> unat (a + PGSIZE) = unat a + 4096"
  using unat_plus_of_nat [of a 4096] by (simp add: word_less_nat_alt unat_MAXVA)

function mappages_loop :: "u64 \<Rightarrow> u64 \<Rightarrow> u64 \<Rightarrow> u64 \<Rightarrow> u64 \<Rightarrow> 'z kmem_scheme \<Rightarrow> (int, 'z kmem_scheme) outcome" where
  "mappages_loop pagetable a last_va pa perm s =
     andthen (walk pagetable a True s) (\<lambda>pte s.
       if pte = 0 then Ret (-1) s
       else if load64 (pmem s) pte AND PTE_V \<noteq> 0 then Panic ''mappages: remap''
       else
         (let s = s\<lparr>pmem := store64 pte (PA2PTE pa OR perm OR PTE_V) (pmem s)\<rparr> in
          if a = last_va then Ret 0 s
          else mappages_loop pagetable (a + PGSIZE) last_va (pa + PGSIZE) perm s))"
  by pat_completeness auto
termination
  by (relation "measure (\<lambda>(pt, a, l, pa, perm, s). unat MAXVA - unat a)")
     (auto dest!: walk_bound simp: next_page_less word_less_nat_alt unat_MAXVA)

declare mappages_loop.simps [simp del]

definition mappages :: "u64 \<Rightarrow> u64 \<Rightarrow> u64 \<Rightarrow> u64 \<Rightarrow> u64 \<Rightarrow> 'z kmem_scheme \<Rightarrow> (int, 'z kmem_scheme) outcome" where
  "mappages pagetable va sz pa perm s =
     (if sz = 0 then Panic ''mappages: size''
      else mappages_loop pagetable (PGROUNDDOWN va) (PGROUNDDOWN (va + sz - 1)) pa perm s)"

definition kvmmap :: "u64 \<Rightarrow> u64 \<Rightarrow> u64 \<Rightarrow> u64 \<Rightarrow> u64 \<Rightarrow> 'z kmem_scheme \<Rightarrow> (unit, 'z kmem_scheme) outcome" where
  "kvmmap kpgtbl va pa sz perm s =
     andthen (mappages kpgtbl va sz pa perm s) (\<lambda>r s. if r \<noteq> 0 then Panic ''kvmmap'' else Ret () s)"

text \<open>\<open>uvmunmap\<close>: the caller passes the first address and the end \<open>va + npages * PGSIZE\<close>.\<close>

function uvmunmap_loop :: "u64 \<Rightarrow> u64 \<Rightarrow> u64 \<Rightarrow> bool \<Rightarrow> 'z kmem_scheme \<Rightarrow> (unit, 'z kmem_scheme) outcome" where
  "uvmunmap_loop pagetable a end_va do_free s =
     (if a < end_va then
        andthen (walk pagetable a False s) (\<lambda>pte s.
          if pte = 0 then Panic ''uvmunmap: walk''
          else if load64 (pmem s) pte AND PTE_V = 0 then Panic ''uvmunmap: not mapped''
          else if PTE_FLAGS (load64 (pmem s) pte) = PTE_V then Panic ''uvmunmap: not a leaf''
          else
            andthen (if do_free then kfree (PTE2PA (load64 (pmem s) pte)) s else Ret () s) (\<lambda>_ s.
              uvmunmap_loop pagetable (a + PGSIZE) end_va do_free (s\<lparr>pmem := store64 pte 0 (pmem s)\<rparr>)))
      else Ret () s)"
  by pat_completeness auto
termination
  by (relation "measure (\<lambda>(pt, a, e, d, s). unat MAXVA - unat a)")
     (auto dest!: walk_bound simp: next_page_less word_less_nat_alt unat_MAXVA)

declare uvmunmap_loop.simps [simp del]

definition uvmunmap :: "u64 \<Rightarrow> u64 \<Rightarrow> u64 \<Rightarrow> bool \<Rightarrow> 'z kmem_scheme \<Rightarrow> (unit, 'z kmem_scheme) outcome" where
  "uvmunmap pagetable va npages do_free s =
     (if va mod PGSIZE \<noteq> 0 then Panic ''uvmunmap: not aligned''
      else uvmunmap_loop pagetable va (va + npages * PGSIZE) do_free s)"

subsection \<open>User page tables\<close>

definition uvmcreate :: "'z kmem_scheme \<Rightarrow> (u64, 'z kmem_scheme) outcome" where
  "uvmcreate s =
     andthen (kalloc s) (\<lambda>pagetable s.
       if pagetable = 0 then Ret 0 s
       else Ret pagetable (s\<lparr>pmem := memset pagetable 0 4096 (pmem s)\<rparr>))"

text \<open>Copying a buffer that is not in \<open>pmem\<close> into physical memory, and back.\<close>

definition write_bytes :: "u64 \<Rightarrow> u8 list \<Rightarrow> mem \<Rightarrow> mem" where
  "write_bytes pa bs m = (\<lambda>x. if unat (x - pa) < length bs then bs ! unat (x - pa) else m x)"

definition read_bytes :: "mem \<Rightarrow> u64 \<Rightarrow> nat \<Rightarrow> u8 list" where
  "read_bytes m pa n = map (\<lambda>i. m (pa + of_nat i)) [0..<n]"

text \<open>Address 0 is not mapped in the kernel: a store through a null pointer faults, and
  \<open>kerneltrap\<close> panics.\<close>

definition uvmfirst :: "u64 \<Rightarrow> u8 list \<Rightarrow> 'z kmem_scheme \<Rightarrow> (unit, 'z kmem_scheme) outcome" where
  "uvmfirst pagetable src s =
     (if length src \<ge> 4096 then Panic ''uvmfirst: more than a page''
      else
        andthen (kalloc s) (\<lambda>pa s.
          if pa = 0 then Panic ''kerneltrap''
          else
            (let s = s\<lparr>pmem := memset pa 0 4096 (pmem s)\<rparr> in
             andthen (mappages pagetable 0 PGSIZE pa (PTE_W OR PTE_R OR PTE_X OR PTE_U) s) (\<lambda>_ s.
               Ret () (s\<lparr>pmem := write_bytes pa src (pmem s)\<rparr>)))))"

definition uvmdealloc :: "u64 \<Rightarrow> u64 \<Rightarrow> u64 \<Rightarrow> 'z kmem_scheme \<Rightarrow> (u64, 'z kmem_scheme) outcome" where
  "uvmdealloc pagetable oldsz newsz s =
     (if newsz \<ge> oldsz then Ret oldsz s
      else if PGROUNDUP newsz < PGROUNDUP oldsz then
        (let npages = ucast ((PGROUNDUP oldsz - PGROUNDUP newsz) div PGSIZE) :: u32 in
         andthen (uvmunmap pagetable (PGROUNDUP newsz) (scast npages) True s) (\<lambda>_ s. Ret newsz s))
      else Ret newsz s)"

lemma mappages_bound:
  assumes "result (mappages pt va sz pa perm s) r t"
  shows "va < MAXVA"
proof -
  have "PGROUNDDOWN va < MAXVA"
    using assms
    by (auto simp: mappages_def mappages_loop.simps elim!: result_andthenE dest!: walk_bound split: if_splits)
  then have "unat va div 4096 * 4096 < 4096 * 67108864"
    unfolding word_less_nat_alt unat_MAXVA PGROUNDDOWN_unat by simp
  then have "unat va div 4096 < 67108864" by simp
  then show ?thesis unfolding word_less_nat_alt unat_MAXVA by (simp add: div_less_iff_less_mult)
qed

function uvmalloc_loop :: "u64 \<Rightarrow> u64 \<Rightarrow> u64 \<Rightarrow> u64 \<Rightarrow> u64 \<Rightarrow> 'z kmem_scheme \<Rightarrow> (u64, 'z kmem_scheme) outcome" where
  "uvmalloc_loop pagetable a oldsz newsz xperm s =
     (if a < newsz then
        andthen (kalloc s) (\<lambda>pa s.
          if pa = 0 then andthen (uvmdealloc pagetable a oldsz s) (\<lambda>_ s. Ret 0 s)
          else
            andthen (mappages pagetable a PGSIZE pa (PTE_R OR PTE_U OR xperm)
                (s\<lparr>pmem := memset pa 0 4096 (pmem s)\<rparr>)) (\<lambda>r s.
              if r \<noteq> 0 then
                andthen (kfree pa s) (\<lambda>_ s.
                andthen (uvmdealloc pagetable a oldsz s) (\<lambda>_ s. Ret 0 s))
              else uvmalloc_loop pagetable (a + PGSIZE) oldsz newsz xperm s))
      else Ret newsz s)"
  by pat_completeness auto
termination
  by (relation "measure (\<lambda>(pt, a, oz, nz, x, s). unat MAXVA - unat a)")
     (auto dest!: mappages_bound simp: next_page_less word_less_nat_alt unat_MAXVA)

declare uvmalloc_loop.simps [simp del]

definition uvmalloc :: "u64 \<Rightarrow> u64 \<Rightarrow> u64 \<Rightarrow> u64 \<Rightarrow> 'z kmem_scheme \<Rightarrow> (u64, 'z kmem_scheme) outcome" where
  "uvmalloc pagetable oldsz newsz xperm s =
     (if newsz < oldsz then Ret oldsz s
      else uvmalloc_loop pagetable (PGROUNDUP oldsz) (PGROUNDUP oldsz) newsz xperm s)"

text \<open>\<open>freewalk\<close> recurses over the page-table pages below it. The recursion of the source has no
  bound of its own; \<open>fuel\<close> is the number of levels, 3 for a Sv39 table, and a table that is deeper
  (a corrupt one, with a cycle) overflows the kernel stack into its guard page.\<close>

primrec freewalk :: "nat \<Rightarrow> u64 \<Rightarrow> 'z kmem_scheme \<Rightarrow> (unit, 'z kmem_scheme) outcome" where
  "freewalk 0 pagetable s = Panic ''kerneltrap''"
| "freewalk (Suc fuel) pagetable s =
     andthen
       (for_each (\<lambda>i s.
          let pte = load64 (pmem s) (pagetable + 8 * of_nat i) in
          if pte AND PTE_V \<noteq> 0 \<and> pte AND (PTE_R OR PTE_W OR PTE_X) = 0 then
            andthen (freewalk fuel (PTE2PA pte) s) (\<lambda>_ s.
              Ret () (s\<lparr>pmem := store64 (pagetable + 8 * of_nat i) 0 (pmem s)\<rparr>))
          else if pte AND PTE_V \<noteq> 0 then Panic ''freewalk: leaf''
          else Ret () s) [0..<512] s)
       (\<lambda>_ s. kfree pagetable s)"

definition uvmfree :: "u64 \<Rightarrow> u64 \<Rightarrow> 'z kmem_scheme \<Rightarrow> (unit, 'z kmem_scheme) outcome" where
  "uvmfree pagetable sz s =
     andthen (if sz > 0 then uvmunmap pagetable 0 (PGROUNDUP sz div PGSIZE) True s else Ret () s)
       (\<lambda>_ s. freewalk 3 pagetable s)"

function uvmcopy_loop :: "u64 \<Rightarrow> u64 \<Rightarrow> u64 \<Rightarrow> u64 \<Rightarrow> 'z kmem_scheme \<Rightarrow> (int, 'z kmem_scheme) outcome" where
  "uvmcopy_loop old_pt new_pt i sz s =
     (if i < sz then
        andthen (walk old_pt i False s) (\<lambda>pte s.
          if pte = 0 then Panic ''uvmcopy: pte should exist''
          else if load64 (pmem s) pte AND PTE_V = 0 then Panic ''uvmcopy: page not present''
          else
            (let pa = PTE2PA (load64 (pmem s) pte); flags = PTE_FLAGS (load64 (pmem s) pte) in
             andthen (kalloc s) (\<lambda>new_pa s.
               if new_pa = 0
               then andthen (uvmunmap new_pt 0 (i div PGSIZE) True s) (\<lambda>_ s. Ret (-1) s)
               else
                 andthen (mappages new_pt i PGSIZE new_pa flags
                     (s\<lparr>pmem := memmove new_pa pa 4096 (pmem s)\<rparr>)) (\<lambda>r s.
                   if r \<noteq> 0 then
                     andthen (kfree new_pa s) (\<lambda>_ s.
                     andthen (uvmunmap new_pt 0 (i div PGSIZE) True s) (\<lambda>_ s. Ret (-1) s))
                   else uvmcopy_loop old_pt new_pt (i + PGSIZE) sz s))))
      else Ret 0 s)"
  by pat_completeness auto
termination
  by (relation "measure (\<lambda>(o_pt, n_pt, i, sz, s). unat MAXVA - unat i)")
     (auto dest!: walk_bound simp: next_page_less word_less_nat_alt unat_MAXVA)

declare uvmcopy_loop.simps [simp del]

definition uvmcopy :: "u64 \<Rightarrow> u64 \<Rightarrow> u64 \<Rightarrow> 'z kmem_scheme \<Rightarrow> (int, 'z kmem_scheme) outcome" where
  "uvmcopy old_pt new_pt sz s = uvmcopy_loop old_pt new_pt 0 sz s"

definition uvmclear :: "u64 \<Rightarrow> u64 \<Rightarrow> 'z kmem_scheme \<Rightarrow> (unit, 'z kmem_scheme) outcome" where
  "uvmclear pagetable va s =
     andthen (walk pagetable va False s) (\<lambda>pte s.
       if pte = 0 then Panic ''uvmclear''
       else Ret () (s\<lparr>pmem := store64 pte (load64 (pmem s) pte AND NOT PTE_U) (pmem s)\<rparr>))"

subsection \<open>Copying between kernel and user\<close>

text \<open>The part of \<open>len\<close> bytes at \<open>va\<close> that lies in the page of \<open>va\<close>.\<close>

definition chunk :: "u64 \<Rightarrow> nat \<Rightarrow> nat" where
  "chunk va len = min (4096 - unat (va - PGROUNDDOWN va)) len"

lemma chunk_pos: "0 < len \<Longrightarrow> 0 < chunk va len"
  by (simp add: chunk_def PGROUNDDOWN_offset)

function copyout :: "u64 \<Rightarrow> u64 \<Rightarrow> u8 list \<Rightarrow> 'z kmem_scheme \<Rightarrow> (int, 'z kmem_scheme) outcome" where
  "copyout pagetable dstva src s =
     (if src = [] then Ret 0 s
      else
        (let va0 = PGROUNDDOWN dstva in
         andthen (walkaddr pagetable va0 s) (\<lambda>pa0 s.
           if pa0 = 0 then Ret (-1) s
           else
             (let n = chunk dstva (length src);
                  s = s\<lparr>pmem := write_bytes (pa0 + (dstva - va0)) (take n src) (pmem s)\<rparr>
              in copyout pagetable (va0 + PGSIZE) (drop n src) s))))"
  by pat_completeness auto
termination
  by (relation "measure (\<lambda>(pt, va, src, s). length src)") (auto simp: chunk_pos)

text \<open>\<open>copyin\<close> returns its code and the bytes it stored into \<open>dst\<close>, also when it fails part way.\<close>

function copyin :: "u64 \<Rightarrow> u64 \<Rightarrow> nat \<Rightarrow> 'z kmem_scheme \<Rightarrow> (int \<times> u8 list, 'z kmem_scheme) outcome" where
  "copyin pagetable srcva len s =
     (if len = 0 then Ret (0, []) s
      else
        (let va0 = PGROUNDDOWN srcva in
         andthen (walkaddr pagetable va0 s) (\<lambda>pa0 s.
           if pa0 = 0 then Ret (-1, []) s
           else
             (let n = chunk srcva len; bs = read_bytes (pmem s) (pa0 + (srcva - va0)) n in
              andthen (copyin pagetable (va0 + PGSIZE) (len - n) s) (\<lambda>(r, rest) s. Ret (r, bs @ rest) s)))))"
  by pat_completeness auto
termination
  by (relation "measure (\<lambda>(pt, va, len, s). len)") (auto simp: chunk_pos)

text \<open>The inner loop of \<open>copyinstr\<close> over one page: the bytes stored, and whether it met the NUL.\<close>

primrec copy_str_page :: "mem \<Rightarrow> u64 \<Rightarrow> nat \<Rightarrow> u8 list \<times> bool" where
  "copy_str_page m p 0 = ([], False)"
| "copy_str_page m p (Suc n) =
     (if m p = 0 then ([0], True) else (let (bs, nul) = copy_str_page m (p + 1) n in (m p # bs, nul)))"

function copyinstr :: "u64 \<Rightarrow> u64 \<Rightarrow> nat \<Rightarrow> 'z kmem_scheme \<Rightarrow> (int \<times> u8 list, 'z kmem_scheme) outcome" where
  "copyinstr pagetable srcva mx s =
     (if mx = 0 then Ret (-1, []) s
      else
        (let va0 = PGROUNDDOWN srcva in
         andthen (walkaddr pagetable va0 s) (\<lambda>pa0 s.
           if pa0 = 0 then Ret (-1, []) s
           else
             (let n = chunk srcva mx; (bs, got_null) = copy_str_page (pmem s) (pa0 + (srcva - va0)) n in
              if got_null then Ret (0, bs) s
              else andthen (copyinstr pagetable (va0 + PGSIZE) (mx - n) s) (\<lambda>(r, rest) s. Ret (r, bs @ rest) s)))))"
  by pat_completeness auto
termination
  by (relation "measure (\<lambda>(pt, va, mx, s). mx)") (auto simp: chunk_pos)

declare copyout.simps [simp del] copyin.simps [simp del] copyinstr.simps [simp del]

subsection \<open>The kernel's own page table\<close>

text \<open>\<open>proc_mapstacks\<close> of proc.c: one kernel stack page per process, with an unmapped page below it.\<close>

definition proc_mapstacks :: "u64 \<Rightarrow> 'z kmem_scheme \<Rightarrow> (unit, 'z kmem_scheme) outcome" where
  "proc_mapstacks kpgtbl s =
     for_each (\<lambda>p s.
       andthen (kalloc s) (\<lambda>pa s.
         if pa = 0 then Panic ''kalloc''
         else kvmmap kpgtbl (KSTACK p) pa PGSIZE (PTE_R OR PTE_W) s)) [0..<NPROC] s"

definition kvmmake :: "'z vm_scheme \<Rightarrow> (u64, 'z vm_scheme) outcome" where
  "kvmmake s =
     andthen (kalloc s) (\<lambda>kpgtbl s.
       if kpgtbl = 0 then Panic ''kerneltrap''
       else
         (let s = s\<lparr>pmem := memset kpgtbl 0 4096 (pmem s)\<rparr>; etext = sym_etext s in
          andthen (kvmmap kpgtbl UART0 UART0 PGSIZE (PTE_R OR PTE_W) s) (\<lambda>_ s.
          andthen (kvmmap kpgtbl VIRTIO0 VIRTIO0 PGSIZE (PTE_R OR PTE_W) s) (\<lambda>_ s.
          andthen (kvmmap kpgtbl PLIC PLIC 0x400000 (PTE_R OR PTE_W) s) (\<lambda>_ s.
          andthen (kvmmap kpgtbl KERNBASE KERNBASE (etext - KERNBASE) (PTE_R OR PTE_X) s) (\<lambda>_ s.
          andthen (kvmmap kpgtbl etext etext (PHYSTOP - etext) (PTE_R OR PTE_W) s) (\<lambda>_ s.
          andthen (kvmmap kpgtbl TRAMPOLINE (sym_trampoline s) PGSIZE (PTE_R OR PTE_X) s) (\<lambda>_ s.
          andthen (proc_mapstacks kpgtbl s) (\<lambda>_ s. Ret kpgtbl s)))))))))"

definition kvminit :: "'z vm_scheme \<Rightarrow> (unit, 'z vm_scheme) outcome" where
  "kvminit s = andthen (kvmmake s) (\<lambda>kpgtbl s. Ret () (s\<lparr>kernel_pagetable := kpgtbl\<rparr>))"

definition kvminithart :: "'z vm_scheme \<Rightarrow> 'z vm_scheme" where
  "kvminithart s = s\<lparr>satp := (satp s)(tp s := MAKE_SATP (kernel_pagetable s))\<rparr>"

subsection \<open>Translation as a function of memory\<close>

text \<open>A walk that does not allocate only reads memory. \<open>walk_ro\<close> is the entry it finds and
  \<open>translate\<close> the physical page \<open>walkaddr\<close> returns, 0 when the page is not mapped for the user.\<close>

primrec walk_ro :: "nat \<Rightarrow> u64 \<Rightarrow> u64 \<Rightarrow> mem \<Rightarrow> u64" where
  "walk_ro 0 pt va m = pt + 8 * PX 0 va"
| "walk_ro (Suc l) pt va m =
     (let v = load64 m (pt + 8 * PX (Suc l) va) in if v AND 1 \<noteq> 0 then walk_ro l (PTE2PA v) va m else 0)"

definition translate :: "u64 \<Rightarrow> u64 \<Rightarrow> mem \<Rightarrow> u64" where
  "translate pt va m =
     (let pte = walk_ro 2 pt va m; v = load64 m pte in
      if va < MAXVA \<and> pte \<noteq> 0 \<and> v AND 1 \<noteq> 0 \<and> v AND 16 \<noteq> 0 then PTE2PA v else 0)"

lemma walk_loop_ro: "walk_loop l pt va False s = Ret (walk_ro l pt va (pmem s)) s"
  by (induction l arbitrary: pt) (auto simp: Let_def)

lemma walk_False: "va < MAXVA \<Longrightarrow> walk pt va False s = Ret (walk_ro 2 pt va (pmem s)) s"
  by (simp add: walk_def walk_loop_ro)

lemma walkaddr_eq: "walkaddr pt va s = Ret (translate pt va (pmem s)) s"
  by (auto simp: walkaddr_def translate_def walk_False Let_def not_le [symmetric])

lemma walkaddr_result: "result (walkaddr pt va s) (translate pt va (pmem s)) s"
  by (simp add: walkaddr_eq)

text \<open>A user virtual address, byte by byte: whether it is mapped, and where.\<close>

definition umapped :: "u64 \<Rightarrow> mem \<Rightarrow> u64 \<Rightarrow> bool" where
  "umapped pt m va \<longleftrightarrow> translate pt (PGROUNDDOWN va) m \<noteq> 0"

definition uaddr :: "u64 \<Rightarrow> mem \<Rightarrow> u64 \<Rightarrow> u64" where
  "uaddr pt m va = translate pt (PGROUNDDOWN va) m + (va - PGROUNDDOWN va)"

lemma translate_bound: "translate pt va m \<noteq> 0 \<Longrightarrow> va < MAXVA"
  by (auto simp: translate_def Let_def split: if_splits)

lemma umapped_bound: "umapped pt m va \<Longrightarrow> unat (PGROUNDDOWN va) + 4096 \<le> unat MAXVA"
proof -
  assume "umapped pt m va"
  then have "PGROUNDDOWN va < MAXVA" by (simp add: umapped_def translate_bound)
  then show ?thesis by (simp add: word_less_nat_alt unat_MAXVA PGROUNDDOWN_unat)
qed

lemma unat_page_split: "unat a = unat (PGROUNDDOWN a) + unat (a - PGROUNDDOWN a)"
  by (simp add: PGROUNDDOWN_unat PGROUNDDOWN_offset)

text \<open>Moving inside a page, and to the start of the next one.\<close>

lemma PGROUNDDOWN_within:
  assumes "i < 4096 - unat (va - PGROUNDDOWN va)"
  shows "PGROUNDDOWN (va + of_nat i) = PGROUNDDOWN va" and "unat (va + of_nat i) = unat va + i"
proof -
  define q r where "q = unat va div 4096" and "r = unat va mod 4096"
  have qr: "unat va = 4096 * q + r" "r + i < 4096"
    using assms by (simp_all add: q_def r_def PGROUNDDOWN_offset)
  have "4096 * q < 4096 * 4503599627370496" using unat64_lt [of va] qr(1) by linarith
  then have "q + 1 \<le> 4503599627370496" by simp
  then have "unat va + i < 2 ^ 64" using qr by simp
  then show u: "unat (va + of_nat i) = unat va + i" by (rule unat_plus_of_nat)
  have "(4096 * q + r + i) div 4096 = q" using qr(2) by (simp add: add.assoc)
  then show "PGROUNDDOWN (va + of_nat i) = PGROUNDDOWN va"
    by (simp add: word_unat_eq_iff PGROUNDDOWN_unat u qr(1))
qed

lemma PGROUNDDOWN_next:
  "va + of_nat (4096 - unat (va - PGROUNDDOWN va)) = PGROUNDDOWN va + PGSIZE"
proof -
  have "unat (va - PGROUNDDOWN va) \<le> 4096" by (simp add: PGROUNDDOWN_offset less_imp_le)
  then show ?thesis by (simp add: of_nat_diff)
qed

lemma uaddr_within:
  assumes "i < chunk va len"
  shows "umapped pt m (va + of_nat i) = umapped pt m va"
    and "uaddr pt m (va + of_nat i) = translate pt (PGROUNDDOWN va) m + (va - PGROUNDDOWN va) + of_nat i"
  using assms PGROUNDDOWN_within [of i va] by (simp_all add: chunk_def umapped_def uaddr_def)

lemma uaddr_after:
  assumes "0 < len - chunk va len"
  shows "va + of_nat (chunk va len) = PGROUNDDOWN va + PGSIZE"
  using assms PGROUNDDOWN_next [of va] by (auto simp: chunk_def min_def split: if_splits)

text \<open>The bytes of \<open>n\<close> user addresses from \<open>va\<close>, and how many of them come before the first one
  that is not mapped.\<close>

definition user_bytes :: "u64 \<Rightarrow> mem \<Rightarrow> u64 \<Rightarrow> nat \<Rightarrow> u8 list" where
  "user_bytes pt m va n = map (\<lambda>i. m (uaddr pt m (va + of_nat i))) [0..<n]"

definition mapped_prefix :: "u64 \<Rightarrow> mem \<Rightarrow> u64 \<Rightarrow> nat \<Rightarrow> nat \<Rightarrow> bool" where
  "mapped_prefix pt m va n k \<longleftrightarrow>
     k \<le> n \<and> (\<forall>i<k. umapped pt m (va + of_nat i)) \<and> (k < n \<longrightarrow> \<not> umapped pt m (va + of_nat k))"

lemma user_bytes_chunk:
  "n \<le> chunk va len \<Longrightarrow>
   user_bytes pt m va n = read_bytes m (translate pt (PGROUNDDOWN va) m + (va - PGROUNDDOWN va)) n"
  by (simp add: user_bytes_def read_bytes_def uaddr_within(2) [where len = len])

lemma user_bytes_add: "user_bytes pt m va (n + k) = user_bytes pt m va n @ user_bytes pt m (va + of_nat n) k"
  by (induction k) (simp_all add: user_bytes_def add.assoc)

lemma mapped_prefix_step:
  assumes "umapped pt m va" and "len \<noteq> 0"
    and "mapped_prefix pt m (PGROUNDDOWN va + PGSIZE) (len - chunk va len) k"
  shows "mapped_prefix pt m va len (chunk va len + k)"
proof -
  let ?c = "chunk va len"
  have c: "?c \<le> len" by (simp add: chunk_def)
  have in_c: "umapped pt m (va + of_nat i)" if "i < ?c" for i using uaddr_within(1) [OF that] assms(1) by simp
  show ?thesis
  proof (cases "len - ?c = 0")
    case True
    then show ?thesis using assms(3) in_c c by (simp add: mapped_prefix_def)
  next
    case False
    then have next_pg: "va + of_nat ?c = PGROUNDDOWN va + PGSIZE" by (intro uaddr_after) simp
    have "umapped pt m (va + of_nat i)" if "i < ?c + k" for i
    proof (cases "i < ?c")
      case False
      then have "i = ?c + (i - ?c)" "i - ?c < k" using that by auto
      then obtain j where "i = ?c + j" "j < k" by blast
      then show ?thesis using assms(3) next_pg by (simp add: mapped_prefix_def add.assoc [symmetric])
    qed (rule in_c)
    then show ?thesis
      using assms(3) next_pg c by (auto simp: mapped_prefix_def add.assoc [symmetric])
  qed
qed

lemma copyin_prefix:
  "\<exists>k. mapped_prefix pt (pmem s) va len k \<and>
     copyin pt va len s = Ret (if k = len then 0 else -1, user_bytes pt (pmem s) va k) s"
proof (induction pt va len s rule: copyin.induct)
  case (1 pt va len s)
  let ?m = "pmem s" and ?c = "chunk va len" and ?va = "PGROUNDDOWN va + PGSIZE"
  show ?case
  proof (cases "len \<noteq> 0 \<and> umapped pt ?m va")
    case False
    then have "mapped_prefix pt ?m va len 0" by (auto simp: mapped_prefix_def)
    moreover have "copyin pt va len s = Ret (if 0 = len then 0 else -1, user_bytes pt ?m va 0) s"
      using False by (subst copyin.simps) (auto simp: walkaddr_eq umapped_def user_bytes_def)
    ultimately show ?thesis by blast
  next
    case True
    have c: "?c \<le> len" by (simp add: chunk_def)
    obtain k where k: "mapped_prefix pt ?m ?va (len - ?c) k"
      "copyin pt ?va (len - ?c) s = Ret (if k = len - ?c then 0 else -1, user_bytes pt ?m ?va k) s"
      using "1.IH" [OF _ refl walkaddr_result _ refl refl] True by (auto simp: umapped_def)
    have "user_bytes pt ?m ?va k = user_bytes pt ?m (va + of_nat ?c) k"
    proof (cases "len - ?c = 0")
      case True
      then show ?thesis using k(1) by (simp add: mapped_prefix_def user_bytes_def)
    next
      case False
      then show ?thesis by (simp add: uaddr_after)
    qed
    then have "copyin pt va len s = Ret (if ?c + k = len then 0 else -1, user_bytes pt ?m va (?c + k)) s"
      using True k(2) c
      by (subst copyin.simps) (auto simp: walkaddr_eq umapped_def Let_def user_bytes_add user_bytes_chunk [where len = len])
    with mapped_prefix_step [OF _ _ k(1)] True show ?thesis by blast
  qed
qed

text \<open>The page-table entries a walk reads; memory that agrees on them gives the same translation.\<close>

primrec walk_ptes :: "nat \<Rightarrow> u64 \<Rightarrow> u64 \<Rightarrow> mem \<Rightarrow> u64 list" where
  "walk_ptes 0 pt va m = [pt + 8 * PX 0 va]"
| "walk_ptes (Suc l) pt va m =
     (let e = pt + 8 * PX (Suc l) va; v = load64 m e in
      e # (if v AND 1 \<noteq> 0 then walk_ptes l (PTE2PA v) va m else []))"

definition same_at :: "mem \<Rightarrow> mem \<Rightarrow> u64 list \<Rightarrow> bool" where
  "same_at m m' es \<longleftrightarrow> (\<forall>e\<in>set es. \<forall>x. unat (x - e) < 8 \<longrightarrow> m' x = m x)"

lemma same_at_load64: "same_at m m' es \<Longrightarrow> e \<in> set es \<Longrightarrow> load64 m' e = load64 m e"
  by (rule load64_cong) (auto simp: same_at_def unat_of_nat take_bit_nat_eq_self)

lemma walk_ro_frame:
  "same_at m m' (walk_ptes l pt va m) \<Longrightarrow>
   walk_ro l pt va m' = walk_ro l pt va m \<and> walk_ptes l pt va m' = walk_ptes l pt va m"
proof (induction l arbitrary: pt)
  case (Suc l)
  let ?e = "pt + 8 * PX (Suc l) va"
  have e: "load64 m' ?e = load64 m ?e"
    by (rule same_at_load64 [OF Suc.prems]) (simp add: Let_def)
  have "same_at m m' (walk_ptes l (PTE2PA (load64 m ?e)) va m)" if "load64 m ?e AND 1 \<noteq> 0"
    using Suc.prems that by (simp add: same_at_def Let_def)
  then show ?case using Suc.IH e by (auto simp: Let_def)
qed simp

lemma walk_ro_pte: "walk_ro l pt va m \<noteq> 0 \<Longrightarrow> walk_ro l pt va m \<in> set (walk_ptes l pt va m)"
  by (induction l arbitrary: pt) (auto simp: Let_def)

lemma translate_frame:
  assumes "same_at m m' (walk_ptes 2 pt va m)"
  shows "translate pt va m' = translate pt va m"
proof (cases "walk_ro 2 pt va m = 0")
  case True
  then show ?thesis using walk_ro_frame [OF assms] by (simp add: translate_def Let_def)
next
  case False
  then have "load64 m' (walk_ro 2 pt va m) = load64 m (walk_ro 2 pt va m)"
    by (intro same_at_load64 [OF assms] walk_ro_pte)
  then show ?thesis using walk_ro_frame [OF assms] by (simp add: translate_def Let_def)
qed

text \<open>User memory that \<open>copyout\<close> may write: mapped, no byte mapped twice, and no byte that belongs
  to the entries that map it.\<close>

definition user_private :: "u64 \<Rightarrow> mem \<Rightarrow> u64 \<Rightarrow> nat \<Rightarrow> bool" where
  "user_private pt m va n \<longleftrightarrow>
     (\<forall>i<n. umapped pt m (va + of_nat i)) \<and>
     (\<forall>i<n. \<forall>j<n. uaddr pt m (va + of_nat i) = uaddr pt m (va + of_nat j) \<longrightarrow> i = j) \<and>
     (\<forall>i<n. \<forall>j<n. \<forall>e\<in>set (walk_ptes 2 pt (PGROUNDDOWN (va + of_nat j)) m).
        8 \<le> unat (uaddr pt m (va + of_nat i) - e))"

lemma user_private_frame:
  assumes "user_private pt m va n" and "\<forall>x. (\<forall>i<n. x \<noteq> uaddr pt m (va + of_nat i)) \<longrightarrow> m' x = m x"
    and "j < n"
  shows "umapped pt m' (va + of_nat j)"
    and "uaddr pt m' (va + of_nat j) = uaddr pt m (va + of_nat j)"
    and "walk_ptes 2 pt (PGROUNDDOWN (va + of_nat j)) m' = walk_ptes 2 pt (PGROUNDDOWN (va + of_nat j)) m"
proof -
  have "same_at m m' (walk_ptes 2 pt (PGROUNDDOWN (va + of_nat j)) m)"
    unfolding same_at_def
  proof (intro ballI allI impI)
    fix e x
    assume "e \<in> set (walk_ptes 2 pt (PGROUNDDOWN (va + of_nat j)) m)" and "unat (x - e) < 8"
    then have "\<forall>i<n. x \<noteq> uaddr pt m (va + of_nat i)"
      using assms(1,3) unfolding user_private_def by (meson not_le)
    then show "m' x = m x" using assms(2) by blast
  qed
  note fr = translate_frame [OF this] walk_ro_frame [OF this]
  show "umapped pt m' (va + of_nat j)"
    using fr(1) assms(1,3) by (simp add: umapped_def user_private_def)
  show "uaddr pt m' (va + of_nat j) = uaddr pt m (va + of_nat j)" using fr(1) by (simp add: uaddr_def)
  show "walk_ptes 2 pt (PGROUNDDOWN (va + of_nat j)) m' = walk_ptes 2 pt (PGROUNDDOWN (va + of_nat j)) m"
    using fr(2) by simp
qed

lemma user_private_drop:
  assumes "user_private pt m va (c + n)"
  shows "user_private pt m (va + of_nat c) n"
proof -
  have *: "va + of_nat c + of_nat i = va + of_nat (c + i)" for i by simp
  show ?thesis using assms unfolding user_private_def * by (meson add_left_cancel nat_add_left_cancel_less)
qed

lemma user_private_cong:
  assumes "user_private pt m va n" and "\<forall>x. (\<forall>i<n. x \<noteq> uaddr pt m (va + of_nat i)) \<longrightarrow> m' x = m x"
  shows "user_private pt m' va n"
  using assms(1) user_private_frame [OF assms] by (simp add: user_private_def)

text \<open>Writing one chunk.\<close>

lemma write_chunk:
  fixes pt va :: u64 and m :: mem
  assumes "n \<le> chunk va len" and "length bs = n"
  defines "m' \<equiv> write_bytes (translate pt (PGROUNDDOWN va) m + (va - PGROUNDDOWN va)) bs m"
  shows "\<forall>i<n. m' (uaddr pt m (va + of_nat i)) = bs ! i"
    and "\<forall>x. (\<forall>i<n. x \<noteq> uaddr pt m (va + of_nat i)) \<longrightarrow> m' x = m x"
proof -
  let ?p = "translate pt (PGROUNDDOWN va) m + (va - PGROUNDDOWN va)"
  have ua: "uaddr pt m (va + of_nat i) = ?p + of_nat i" if "i < n" for i
    using uaddr_within(2) [of i va len] that assms(1) by simp
  have n: "n \<le> 4096" using assms(1) by (simp add: chunk_def) linarith
  show "\<forall>i<n. m' (uaddr pt m (va + of_nat i)) = bs ! i"
    using n assms(2) by (auto simp: m'_def write_bytes_def ua unat_of_nat take_bit_nat_eq_self)
  show "\<forall>x. (\<forall>i<n. x \<noteq> uaddr pt m (va + of_nat i)) \<longrightarrow> m' x = m x"
  proof (intro allI impI)
    fix x assume x: "\<forall>i<n. x \<noteq> uaddr pt m (va + of_nat i)"
    have "\<not> unat (x - ?p) < n"
    proof
      assume "unat (x - ?p) < n"
      then have "x \<noteq> ?p + of_nat (unat (x - ?p))" using x ua by metis
      then show False by simp
    qed
    then show "m' x = m x" by (simp add: m'_def write_bytes_def assms(2))
  qed
qed

lemma copyout_private:
  "user_private pt (pmem s) va (length src) \<Longrightarrow>
   \<exists>m'. copyout pt va src s = Ret 0 (s\<lparr>pmem := m'\<rparr>) \<and>
     (\<forall>i<length src. m' (uaddr pt (pmem s) (va + of_nat i)) = src ! i) \<and>
     (\<forall>x. (\<forall>i<length src. x \<noteq> uaddr pt (pmem s) (va + of_nat i)) \<longrightarrow> m' x = pmem s x)"
proof (induction pt va src s rule: copyout.induct)
  case (1 pt va src s)
  let ?m = "pmem s" and ?n = "length src" and ?va = "PGROUNDDOWN va + PGSIZE"
  let ?c = "chunk va (length src)"
  show ?case
  proof (cases "src = []")
    case True
    then show ?thesis by (subst copyout.simps) (auto intro: exI [of _ "pmem s"])
  next
    case False
    define m1 where "m1 = write_bytes (translate pt (PGROUNDDOWN va) ?m + (va - PGROUNDDOWN va)) (take ?c src) ?m"
    have c: "?c \<le> ?n" "0 < ?c" using False by (simp_all add: chunk_def) (simp add: PGROUNDDOWN_offset)
    have w: "\<forall>i<?c. m1 (uaddr pt ?m (va + of_nat i)) = src ! i"
      "\<forall>x. (\<forall>i<?c. x \<noteq> uaddr pt ?m (va + of_nat i)) \<longrightarrow> m1 x = ?m x"
      using write_chunk [of ?c va ?n "take ?c src" pt ?m] c(1) by (auto simp: m1_def)
    have fr: "\<forall>x. (\<forall>i<?n. x \<noteq> uaddr pt ?m (va + of_nat i)) \<longrightarrow> m1 x = ?m x"
      using w(2) c(1) by (meson less_le_trans)
    have "0 < ?n" using False by simp
    then have "umapped pt ?m (va + of_nat 0)" using "1.prems" unfolding user_private_def by blast
    then have um: "umapped pt ?m va" by simp
    then have step: "copyout pt va src s = copyout pt ?va (drop ?c src) (s\<lparr>pmem := m1\<rparr>)"
      using False by (subst copyout.simps) (simp add: walkaddr_eq umapped_def m1_def Let_def)
    have pr: "user_private pt m1 va ?n" by (rule user_private_cong [OF "1.prems" fr])
    have ua: "uaddr pt m1 (va + of_nat j) = uaddr pt ?m (va + of_nat j)" if "j < ?n" for j
      using user_private_frame(2) [OF "1.prems" fr that] .
    have va': "va + of_nat ?c = ?va" if "?c < ?n" using uaddr_after [of ?n va] that by simp
    have "user_private pt m1 ?va (?n - ?c)"
    proof (cases "?c < ?n")
      case True
      then show ?thesis using user_private_drop [of pt m1 va ?c "?n - ?c"] pr va' c by simp
    qed (simp add: user_private_def)
    moreover have IH: "user_private pt m1 ?va (length (drop ?c src)) \<Longrightarrow>
        \<exists>m'. copyout pt ?va (drop ?c src) (s\<lparr>pmem := m1\<rparr>) = Ret 0 (s\<lparr>pmem := m'\<rparr>) \<and>
          (\<forall>i<length (drop ?c src). m' (uaddr pt m1 (?va + of_nat i)) = drop ?c src ! i) \<and>
          (\<forall>x. (\<forall>i<length (drop ?c src). x \<noteq> uaddr pt m1 (?va + of_nat i)) \<longrightarrow> m' x = m1 x)"
      using "1.IH" [OF False refl walkaddr_result _ refl refl] um
      unfolding umapped_def m1_def [symmetric] by simp
    ultimately obtain m' where m': "copyout pt ?va (drop ?c src) (s\<lparr>pmem := m1\<rparr>) = Ret 0 (s\<lparr>pmem := m'\<rparr>)"
      "\<forall>i<?n - ?c. m' (uaddr pt m1 (?va + of_nat i)) = src ! (?c + i)"
      "\<forall>x. (\<forall>i<?n - ?c. x \<noteq> uaddr pt m1 (?va + of_nat i)) \<longrightarrow> m' x = m1 x"
      using c(1) by auto
    have up: "?va + of_nat i = va + of_nat (?c + i)" if "i < ?n - ?c" for i
      using va' that by simp
    have "m' (uaddr pt ?m (va + of_nat i)) = src ! i" if i: "i < ?n" for i
    proof (cases "i < ?c")
      case True
      have "uaddr pt ?m (va + of_nat i) \<noteq> uaddr pt m1 (?va + of_nat j)" if j: "j < ?n - ?c" for j
      proof
        assume "uaddr pt ?m (va + of_nat i) = uaddr pt m1 (?va + of_nat j)"
        moreover have "?c + j < ?n" using j by simp
        ultimately have "uaddr pt ?m (va + of_nat i) = uaddr pt ?m (va + of_nat (?c + j))"
          using up [OF j] ua [of "?c + j"] by simp
        then have "i = ?c + j" using "1.prems" i \<open>?c + j < ?n\<close> unfolding user_private_def by blast
        with True show False by simp
      qed
      then show ?thesis using m'(3) w(1) True by simp
    next
      case False
      then have j: "i - ?c < ?n - ?c" and i': "?c + (i - ?c) = i" using i by auto
      show ?thesis using m'(2) [rule_format, OF j] up [OF j] ua [OF i] unfolding i' by simp
    qed
    moreover have "m' x = ?m x" if x: "\<forall>i<?n. x \<noteq> uaddr pt ?m (va + of_nat i)" for x
    proof -
      have "x \<noteq> uaddr pt m1 (?va + of_nat i)" if "i < ?n - ?c" for i
      proof -
        have "?c + i < ?n" using that by simp
        then show ?thesis using x up [OF that] ua [of "?c + i"] by metis
      qed
      then show ?thesis using m'(3) fr x by simp
    qed
    ultimately show ?thesis using step m'(1) by auto
  qed
qed

subsection \<open>Properties\<close>

text \<open>
  \<open>copyin\<close> on every input. With \<open>k\<close> the number of bytes before the first address of the
  range that is not mapped for the user, it stores exactly those \<open>k\<close> bytes, changes no state, and
  returns 0 if \<open>k\<close> is the whole length and -1 otherwise. It always returns.
\<close>

theorem copyin_correct:
  "\<exists>k. mapped_prefix pt (pmem s) va len k \<and>
     copyin pt va len s = Ret (if k = len then 0 else -1, user_bytes pt (pmem s) va k) s"
  by (rule copyin_prefix)

text \<open>
  Property C10: \<open>copyout\<close> and \<open>copyin\<close> are inverse. When the \<open>length src\<close> user addresses from \<open>va\<close> are
  mapped, to different bytes none of which belongs to the page-table entries that map them,
  \<open>copyout\<close> returns 0, changes nothing but those bytes of memory, and a \<open>copyin\<close> of the same range
  gives the same bytes back, also across page boundaries.
\<close>

theorem copyout_copyin:
  assumes "user_private pt (pmem s) va (length src)"
  shows "\<exists>m'. copyout pt va src s = Ret 0 (s\<lparr>pmem := m'\<rparr>) \<and>
     (\<forall>x. (\<forall>i<length src. x \<noteq> uaddr pt (pmem s) (va + of_nat i)) \<longrightarrow> m' x = pmem s x) \<and>
     copyin pt va (length src) (s\<lparr>pmem := m'\<rparr>) = Ret (0, src) (s\<lparr>pmem := m'\<rparr>)"
proof -
  let ?n = "length src"
  obtain m' where m': "copyout pt va src s = Ret 0 (s\<lparr>pmem := m'\<rparr>)"
    "\<forall>i<?n. m' (uaddr pt (pmem s) (va + of_nat i)) = src ! i"
    "\<forall>x. (\<forall>i<?n. x \<noteq> uaddr pt (pmem s) (va + of_nat i)) \<longrightarrow> m' x = pmem s x"
    using copyout_private [OF assms] by blast
  obtain k where k: "mapped_prefix pt m' va ?n k"
    "copyin pt va ?n (s\<lparr>pmem := m'\<rparr>) = Ret (if k = ?n then 0 else -1, user_bytes pt m' va k) (s\<lparr>pmem := m'\<rparr>)"
    using copyin_prefix [of pt "s\<lparr>pmem := m'\<rparr>" va ?n] by auto
  have "k = ?n" using k(1) user_private_frame(1) [OF assms m'(3)] by (auto simp: mapped_prefix_def)
  moreover have "user_bytes pt m' va ?n = src"
    using m'(2) user_private_frame(2) [OF assms m'(3)] by (auto simp: user_bytes_def intro: nth_equalityI)
  ultimately show ?thesis using m'(1,3) k(2) by auto
qed

text \<open>A page table that maps the user page \<open>0x1000\<close> to the physical page \<open>0x80004000\<close>.\<close>

definition demo_mem :: mem where
  "demo_mem = store64 0x80003008 (PA2PTE 0x80004000 OR 0x17)
     (store64 0x80002000 (PA2PTE 0x80003000 OR 1) (store64 0x80001000 (PA2PTE 0x80002000 OR 1) (\<lambda>_. 0)))"

lemma demo_loads:
  "load64 demo_mem 0x80001000 = 0x20000801" "load64 demo_mem 0x80002000 = 0x20000C01"
  "load64 demo_mem 0x80003008 = 0x20001017"
  by (simp_all add: demo_mem_def load64_store64_other PA2PTE_def)

lemma demo_private: "user_private 0x80001000 demo_mem 0x1000 3"
proof -
  have pg: "PGROUNDDOWN 0x1000 = 0x1000" "PGROUNDDOWN 0x1001 = 0x1000" "PGROUNDDOWN 0x1002 = 0x1000"
    by (simp_all add: PGROUNDDOWN_def)
  have px: "PX 2 0x1000 = 0" "PX (Suc 0) 0x1000 = 0" "PX 0 0x1000 = 1"
    by (simp_all add: PX_def PXSHIFT_def)
  have two: "(2 :: nat) = Suc (Suc 0)" by simp
  have tr: "translate 0x80001000 0x1000 demo_mem = 0x80004000"
    "walk_ptes 2 0x80001000 0x1000 demo_mem = [0x80001000, 0x80002000, 0x80003008]"
    using px unfolding translate_def two
    by (simp_all add: Let_def demo_loads PTE2PA_def MAXVA_def)
  have n3: "(\<forall>i<(3::nat). P i) \<longleftrightarrow> P 0 \<and> P 1 \<and> P 2" for P
    by (auto simp: numeral_3_eq_3 less_Suc_eq numeral_2_eq_2)
  show ?thesis by (simp add: user_private_def umapped_def uaddr_def n3 pg tr)
qed

theorem copyout_copyin_witness:
  "\<exists>m'. copyout 0x80001000 0x1000 [1, 2, 3] (kmem0\<lparr>pmem := demo_mem\<rparr>) = Ret 0 (kmem0\<lparr>pmem := m'\<rparr>) \<and>
     copyin 0x80001000 0x1000 3 (kmem0\<lparr>pmem := m'\<rparr>) = Ret (0, [1, 2, 3]) (kmem0\<lparr>pmem := m'\<rparr>)"
  using copyout_copyin [of "0x80001000" "kmem0\<lparr>pmem := demo_mem\<rparr>" "0x1000" "[1, 2, 3]"] demo_private
  by (auto simp: numeral_3_eq_3)

end
