(* ===== verification/Proc.thy ===== *)
theory Proc
  imports Vm
begin

text \<open>
  \<open>kernel/proc.h\<close>, \<open>kernel/mlfq.c\<close> and the part of \<open>kernel/proc.c\<close> that does not touch files: the
  process table, allocation and release of process slots, sleep and wakeup, kill, wait and waitx, and
  the three schedulers. A process is named by its index in \<open>proc[NPROC]\<close>, a null pointer is \<open>None\<close>.
  The context switch \<open>swtch\<close> ends the call in \<open>Block\<close>, with the code after it as the continuation.
\<close>

subsection \<open>State\<close>

datatype procstate = UNUSED | USED | SLEEPING | RUNNABLE | RUNNING | ZOMBIE

text \<open>Sleep channels are addresses of kernel objects; the process sleeps on the object, not on its
  contents.\<close>

datatype chan =
    ChanNull | ChanProc nat | ChanTicks | ChanLog | ChanBufLock nat | ChanInodeLock nat
  | ChanBuf nat | ChanDiskFree | ChanPipeRead u64 | ChanPipeWrite u64 | ChanCons | ChanUart

record kcontext =
  ctx_ra :: u64
  ctx_sp :: u64
  ctx_s :: "nat \<Rightarrow> u64"

record mlfq_proc =
  curr_pri :: int
  wtime :: u32
  num_ticks :: u32
  in_queue :: bool
  intime :: u32

record proc =
  p_state :: procstate
  p_chan :: chan
  p_killed :: u32
  p_xstate :: u32
  p_pid :: u32
  p_parent :: "nat option"
  p_kstack :: u64
  p_sz :: u64
  p_pagetable :: u64
  p_trapframe :: u64
  p_context :: kcontext
  p_ofile :: "nat \<Rightarrow> nat option"
  p_cwd :: "nat option"
  p_name :: string
  p_rtime :: u32
  p_ctime :: u32
  p_etime :: u32
  sigalarm_running :: bool
  sigalarm_nticks :: u32
  sigalarm_handler :: u64
  ticks_elapsed :: u32
  trap_backup :: u64
  mlfq_data :: mlfq_proc

text \<open>The scheduler the kernel is compiled with (\<open>-D RR\<close>, \<open>-D FCFS\<close>, \<open>-D MLFQ\<close> in the Makefile).\<close>

datatype policy = RR | FCFS | MLFQ

record kproc = vm +
  procs :: "nat \<Rightarrow> proc"
  initproc :: "nat option"
  nextpid :: u32
  ticks :: u32
  policy :: policy
  sym_forkret :: u64

definition upd_proc :: "nat \<Rightarrow> (proc \<Rightarrow> proc) \<Rightarrow> 'z kproc_scheme \<Rightarrow> 'z kproc_scheme" where
  "upd_proc p f s = s\<lparr>procs := (procs s)(p := f (procs s p))\<rparr>"

abbreviation (input) set_state :: "procstate \<Rightarrow> proc \<Rightarrow> proc" where
  "set_state st \<equiv> p_state_update (\<lambda>_. st)"

text \<open>Offsets of the fields of \<open>struct trapframe\<close>, and its size.\<close>

abbreviation (input) TF_kernel_satp :: u64 where "TF_kernel_satp \<equiv> 0"
abbreviation (input) TF_kernel_sp :: u64 where "TF_kernel_sp \<equiv> 8"
abbreviation (input) TF_kernel_trap :: u64 where "TF_kernel_trap \<equiv> 16"
abbreviation (input) TF_epc :: u64 where "TF_epc \<equiv> 24"
abbreviation (input) TF_kernel_hartid :: u64 where "TF_kernel_hartid \<equiv> 32"
abbreviation (input) TF_sp :: u64 where "TF_sp \<equiv> 48"
abbreviation (input) TF_a0 :: u64 where "TF_a0 \<equiv> 112"
abbreviation (input) TF_a1 :: u64 where "TF_a1 \<equiv> 120"
abbreviation (input) TF_a7 :: u64 where "TF_a7 \<equiv> 168"
abbreviation (input) TF_size :: nat where "TF_size \<equiv> 288"

text \<open>The bytes of an \<open>int\<close> in memory.\<close>

definition le_bytes32 :: "u32 \<Rightarrow> u8 list" where
  "le_bytes32 v = map (\<lambda>i. ucast (drop_bit (8 * i) v)) [0..<4]"

subsection \<open>mlfq.c\<close>

definition push :: "nat \<Rightarrow> int \<Rightarrow> 'z kproc_scheme \<Rightarrow> 'z kproc_scheme" where
  "push p qnum s =
     upd_proc p (mlfq_data_update (\<lambda>d. d\<lparr>curr_pri := qnum, in_queue := True, intime := ticks s, wtime := 0, num_ticks := 0\<rparr>)) s"

definition remove :: "nat \<Rightarrow> int \<Rightarrow> 'z kproc_scheme \<Rightarrow> 'z kproc_scheme" where
  "remove p qnum s =
     upd_proc p (mlfq_data_update (\<lambda>d. d\<lparr>in_queue := False, wtime := 0, num_ticks := 0, intime := 0\<rparr>)) s"

definition topmost :: "int \<Rightarrow> 'z kproc_scheme \<Rightarrow> nat option" where
  "topmost qnum s =
     fold (\<lambda>p first.
       let d = mlfq_data (procs s p) in
       if in_queue d \<and> curr_pri d = qnum \<and> p_state (procs s p) = RUNNABLE then
         (case first of
            None \<Rightarrow> Some p
          | Some f \<Rightarrow> if intime (mlfq_data (procs s f)) > intime d then Some p else first)
       else first) [0..<NPROC] None"

subsection \<open>Process slots\<close>

definition procinit :: "'z kproc_scheme \<Rightarrow> (unit, 'z kproc_scheme) outcome" where
  "procinit s =
     for_each (\<lambda>p s.
       Ret () (upd_proc p (\<lambda>q. q\<lparr>p_state := UNUSED, p_kstack := KSTACK p\<rparr>) (initlock (ProcLock p) ''proc'' s)))
       [0..<NPROC] (initlock WaitLock ''wait_lock'' (initlock PidLock ''nextpid'' s))"

definition allocpid :: "'z kproc_scheme \<Rightarrow> (u32, 'z kproc_scheme) outcome" where
  "allocpid s =
     andthen (acquire PidLock s) (\<lambda>_ s.
       let pid = nextpid s; s = s\<lparr>nextpid := nextpid s + 1\<rparr>
       in andthen (release PidLock s) (\<lambda>_ s. Ret pid s))"

definition proc_pagetable :: "nat \<Rightarrow> 'z kproc_scheme \<Rightarrow> (u64, 'z kproc_scheme) outcome" where
  "proc_pagetable p s =
     andthen (uvmcreate s) (\<lambda>pagetable s.
       if pagetable = 0 then Ret 0 s
       else
         andthen (mappages pagetable TRAMPOLINE PGSIZE (sym_trampoline s) (PTE_R OR PTE_X) s) (\<lambda>r s.
           if r < 0 then andthen (uvmfree pagetable 0 s) (\<lambda>_ s. Ret 0 s)
           else
             andthen (mappages pagetable TRAPFRAME PGSIZE (p_trapframe (procs s p)) (PTE_R OR PTE_W) s) (\<lambda>r s.
               if r < 0 then
                 andthen (uvmunmap pagetable TRAMPOLINE 1 False s) (\<lambda>_ s.
                 andthen (uvmfree pagetable 0 s) (\<lambda>_ s. Ret 0 s))
               else Ret pagetable s)))"

definition proc_freepagetable :: "u64 \<Rightarrow> u64 \<Rightarrow> 'z kproc_scheme \<Rightarrow> (unit, 'z kproc_scheme) outcome" where
  "proc_freepagetable pagetable sz s =
     andthen (uvmunmap pagetable TRAMPOLINE 1 False s) (\<lambda>_ s.
     andthen (uvmunmap pagetable TRAPFRAME 1 False s) (\<lambda>_ s.
     uvmfree pagetable sz s))"

definition mlfq_zero :: mlfq_proc where
  "mlfq_zero = \<lparr>curr_pri = 0, wtime = 0, num_ticks = 0, in_queue = False, intime = 0\<rparr>"

definition freeproc :: "nat \<Rightarrow> 'z kproc_scheme \<Rightarrow> (unit, 'z kproc_scheme) outcome" where
  "freeproc p s =
     andthen (if p_trapframe (procs s p) \<noteq> 0 then kfree (p_trapframe (procs s p)) s else Ret () s) (\<lambda>_ s.
     let s = upd_proc p (\<lambda>q. q\<lparr>p_trapframe := 0\<rparr>) s in
     andthen (if p_pagetable (procs s p) \<noteq> 0
              then proc_freepagetable (p_pagetable (procs s p)) (p_sz (procs s p)) s else Ret () s) (\<lambda>_ s.
     let s = upd_proc p (\<lambda>q. q\<lparr>p_pagetable := 0, p_sz := 0, p_pid := 0, p_parent := None, p_name := '''',
                p_chan := ChanNull, p_killed := 0, p_xstate := 0, p_state := UNUSED\<rparr>) s in
     andthen (if trap_backup (procs s p) \<noteq> 0 then kfree (trap_backup (procs s p)) s else Ret () s) (\<lambda>_ s.
     let s = upd_proc p (\<lambda>q. q\<lparr>trap_backup := 0, sigalarm_nticks := 0, sigalarm_running := False,
                sigalarm_handler := 0\<rparr>) s
     in Ret () (if policy s = MLFQ then upd_proc p (\<lambda>q. q\<lparr>mlfq_data := mlfq_zero\<rparr>) s else s))))"

definition find_unused :: "nat \<Rightarrow> 'z kproc_scheme \<Rightarrow> (nat option, 'z kproc_scheme) outcome" where
  "find_unused p s =
     andthen (acquire (ProcLock p) s) (\<lambda>_ s.
       if p_state (procs s p) = UNUSED then Ret (Some p) s
       else andthen (release (ProcLock p) s) (\<lambda>_ s. Ret None s))"

definition allocproc :: "'z kproc_scheme \<Rightarrow> (nat option, 'z kproc_scheme) outcome" where
  "allocproc s =
     andthen (for_find find_unused [0..<NPROC] s) (\<lambda>found s.
       case found of
         None \<Rightarrow> Ret None s
       | Some p \<Rightarrow>
           andthen (allocpid s) (\<lambda>pid s.
           let s = upd_proc p (\<lambda>q. q\<lparr>p_pid := pid, p_state := USED\<rparr>) s in
           andthen (kalloc s) (\<lambda>tf s.
           let s = upd_proc p (\<lambda>q. q\<lparr>p_trapframe := tf\<rparr>) s in
           if tf = 0 then
             andthen (freeproc p s) (\<lambda>_ s. andthen (release (ProcLock p) s) (\<lambda>_ s. Ret None s))
           else
             andthen (proc_pagetable p s) (\<lambda>pt s.
             let s = upd_proc p (\<lambda>q. q\<lparr>p_pagetable := pt\<rparr>) s in
             if pt = 0 then
               andthen (freeproc p s) (\<lambda>_ s. andthen (release (ProcLock p) s) (\<lambda>_ s. Ret None s))
             else
               Ret (Some p) (upd_proc p (\<lambda>q. q\<lparr>
                 p_context := \<lparr>ctx_ra = sym_forkret s, ctx_sp = p_kstack q + PGSIZE, ctx_s = (\<lambda>_. 0)\<rparr>,
                 p_rtime := 0, p_etime := 0, p_ctime := ticks s, ticks_elapsed := 0, sigalarm_handler := 0,
                 sigalarm_running := False, sigalarm_nticks := 0\<rparr>) s)))))"

text \<open>\<open>sz + n\<close> adds an \<open>int\<close> to a \<open>uint64\<close>: \<open>n\<close> is sign-extended.\<close>

definition growproc :: "int \<Rightarrow> 'z kproc_scheme \<Rightarrow> (int, 'z kproc_scheme) outcome" where
  "growproc n s =
     andthen (myproc s) (\<lambda>p s. deref p (\<lambda>p.
       let sz = p_sz (procs s p); pt = p_pagetable (procs s p) in
       if n > 0 then
         andthen (uvmalloc pt sz (sz + of_int n) PTE_W s) (\<lambda>sz s.
           if sz = 0 then Ret (-1) s else Ret 0 (upd_proc p (\<lambda>q. q\<lparr>p_sz := sz\<rparr>) s))
       else if n < 0 then
         andthen (uvmdealloc pt sz (sz + of_int n) s) (\<lambda>sz s. Ret 0 (upd_proc p (\<lambda>q. q\<lparr>p_sz := sz\<rparr>) s))
       else Ret 0 (upd_proc p (\<lambda>q. q\<lparr>p_sz := sz\<rparr>) s)))"

subsection \<open>Giving up the processor\<close>

text \<open>\<open>swtch\<close> saves the registers of the running kernel thread and loads those of another one; the call
  goes on when somebody switches back to it.\<close>

definition swtch :: "'s \<Rightarrow> (unit, 's) outcome" where
  "swtch s = Block s (\<lambda>t. Ret () t)"

definition sched :: "'z kproc_scheme \<Rightarrow> (unit, 'z kproc_scheme) outcome" where
  "sched s =
     andthen (myproc s) (\<lambda>p s. deref p (\<lambda>p.
       if \<not> holding (ProcLock p) s then Panic ''sched p->lock''
       else if noff (mycpu s) \<noteq> 1 then Panic ''sched locks''
       else if p_state (procs s p) = RUNNING then Panic ''sched running''
       else if intr_get s then Panic ''sched interruptible''
       else
         (let saved = intena (mycpu s) in
          andthen (swtch s) (\<lambda>_ s. Ret () (upd_mycpu (intena_update (\<lambda>_. saved)) s)))))"

definition yield :: "'z kproc_scheme \<Rightarrow> (unit, 'z kproc_scheme) outcome" where
  "yield s =
     andthen (myproc s) (\<lambda>p s. deref p (\<lambda>p.
     andthen (acquire (ProcLock p) s) (\<lambda>_ s.
     andthen (sched (upd_proc p (set_state RUNNABLE) s)) (\<lambda>_ s.
     release (ProcLock p) s))))"

definition sleep :: "chan \<Rightarrow> lockid \<Rightarrow> 'z kproc_scheme \<Rightarrow> (unit, 'z kproc_scheme) outcome" where
  "sleep chan lk s =
     andthen (myproc s) (\<lambda>p s. deref p (\<lambda>p.
     andthen (acquire (ProcLock p) s) (\<lambda>_ s.
     andthen (release lk s) (\<lambda>_ s.
     andthen (sched (upd_proc p (\<lambda>q. q\<lparr>p_chan := chan, p_state := SLEEPING\<rparr>) s)) (\<lambda>_ s.
     andthen (release (ProcLock p) (upd_proc p (\<lambda>q. q\<lparr>p_chan := ChanNull\<rparr>) s)) (\<lambda>_ s.
     acquire lk s))))))"

definition wakeup_one :: "chan \<Rightarrow> nat \<Rightarrow> 'z kproc_scheme \<Rightarrow> (unit, 'z kproc_scheme) outcome" where
  "wakeup_one chan p s =
     andthen (myproc s) (\<lambda>me s.
       if Some p \<noteq> me then
         andthen (acquire (ProcLock p) s) (\<lambda>_ s.
           let s = (if p_state (procs s p) = SLEEPING \<and> p_chan (procs s p) = chan
                    then upd_proc p (set_state RUNNABLE) s else s)
           in release (ProcLock p) s)
       else Ret () s)"

definition wakeup :: "chan \<Rightarrow> 'z kproc_scheme \<Rightarrow> (unit, 'z kproc_scheme) outcome" where
  "wakeup chan s = for_each (wakeup_one chan) [0..<NPROC] s"

definition kill_one :: "u32 \<Rightarrow> nat \<Rightarrow> 'z kproc_scheme \<Rightarrow> (int option, 'z kproc_scheme) outcome" where
  "kill_one pid p s =
     andthen (acquire (ProcLock p) s) (\<lambda>_ s.
       if p_pid (procs s p) = pid then
         (let s = upd_proc p (\<lambda>q. q\<lparr>p_killed := 1\<rparr>) s;
              s = (if p_state (procs s p) = SLEEPING then upd_proc p (set_state RUNNABLE) s else s)
          in andthen (release (ProcLock p) s) (\<lambda>_ s. Ret (Some 0) s))
       else andthen (release (ProcLock p) s) (\<lambda>_ s. Ret None s))"

definition kill :: "u32 \<Rightarrow> 'z kproc_scheme \<Rightarrow> (int, 'z kproc_scheme) outcome" where
  "kill pid s =
     andthen (for_find (kill_one pid) [0..<NPROC] s) (\<lambda>r s. Ret (case r of Some v \<Rightarrow> v | None \<Rightarrow> -1) s)"

definition setkilled :: "nat \<Rightarrow> 'z kproc_scheme \<Rightarrow> (unit, 'z kproc_scheme) outcome" where
  "setkilled p s =
     andthen (acquire (ProcLock p) s) (\<lambda>_ s. release (ProcLock p) (upd_proc p (\<lambda>q. q\<lparr>p_killed := 1\<rparr>) s))"

definition killed :: "nat \<Rightarrow> 'z kproc_scheme \<Rightarrow> (u32, 'z kproc_scheme) outcome" where
  "killed p s =
     andthen (acquire (ProcLock p) s) (\<lambda>_ s.
       let k = p_killed (procs s p) in andthen (release (ProcLock p) s) (\<lambda>_ s. Ret k s))"

text \<open>\<open>pp->parent == p\<close> as the scans of \<open>reparent\<close>, \<open>wait\<close> and \<open>waitx\<close> test it.\<close>

definition reparent :: "nat \<Rightarrow> 'z kproc_scheme \<Rightarrow> (unit, 'z kproc_scheme) outcome" where
  "reparent p s =
     for_each (\<lambda>pp s.
       if p_parent (procs s pp) = Some p then
         wakeup (case initproc s of None \<Rightarrow> ChanNull | Some i \<Rightarrow> ChanProc i)
           (upd_proc pp (\<lambda>q. q\<lparr>p_parent := initproc s\<rparr>) s)
       else Ret () s) [0..<NPROC] s"

text \<open>Where a copy to or from \<open>either\<close> user or kernel memory goes: a user virtual address, or a kernel
  buffer, whose bytes the copy returns or carries.\<close>

datatype src_addr = UserSrc u64 | KernSrc "u8 list"
datatype dst_addr = UserDst u64 | KernDst

definition either_copyout :: "dst_addr \<Rightarrow> u8 list \<Rightarrow> 'z kproc_scheme \<Rightarrow> (int \<times> u8 list, 'z kproc_scheme) outcome" where
  "either_copyout dst src s =
     andthen (myproc s) (\<lambda>p s.
       case dst of
         UserDst va \<Rightarrow> deref p (\<lambda>p. andthen (copyout (p_pagetable (procs s p)) va src s) (\<lambda>r s. Ret (r, []) s))
       | KernDst \<Rightarrow> Ret (0, src) s)"

definition either_copyin :: "src_addr \<Rightarrow> nat \<Rightarrow> 'z kproc_scheme \<Rightarrow> (int \<times> u8 list, 'z kproc_scheme) outcome" where
  "either_copyin src len s =
     andthen (myproc s) (\<lambda>p s.
       case src of
         UserSrc va \<Rightarrow> deref p (\<lambda>p. copyin (p_pagetable (procs s p)) va len s)
       | KernSrc bs \<Rightarrow> Ret (0, take len bs) s)"

subsection \<open>Waiting for children\<close>

text \<open>The scan over the table: whether a child was seen, and the value to return if a zombie was
  found. \<open>waitx\<close> also reports the run and wait time of the zombie.\<close>

primrec wait_scan :: "nat \<Rightarrow> u64 \<Rightarrow> nat list \<Rightarrow> bool \<Rightarrow> 'z kproc_scheme
    \<Rightarrow> (bool \<times> int option, 'z kproc_scheme) outcome" where
  "wait_scan p addr [] havekids s = Ret (havekids, None) s"
| "wait_scan p addr (pp # pps) havekids s =
     (if p_parent (procs s pp) = Some p then
        andthen (acquire (ProcLock pp) s) (\<lambda>_ s.
          if p_state (procs s pp) = ZOMBIE then
            (let pid = sint (p_pid (procs s pp)) in
             andthen (if addr \<noteq> 0 then copyout (p_pagetable (procs s p)) addr (le_bytes32 (p_xstate (procs s pp))) s
                      else Ret 0 s) (\<lambda>r s.
               if r < 0 then
                 andthen (release (ProcLock pp) s) (\<lambda>_ s.
                 andthen (release WaitLock s) (\<lambda>_ s. Ret (True, Some (-1)) s))
               else
                 andthen (freeproc pp s) (\<lambda>_ s.
                 andthen (release (ProcLock pp) s) (\<lambda>_ s.
                 andthen (release WaitLock s) (\<lambda>_ s. Ret (True, Some pid) s)))))
          else andthen (release (ProcLock pp) s) (\<lambda>_ s. wait_scan p addr pps True s))
      else wait_scan p addr pps havekids s)"

definition wait_body :: "nat \<Rightarrow> u64 \<Rightarrow> unit \<Rightarrow> 'z kproc_scheme \<Rightarrow> (unit + int, 'z kproc_scheme) outcome" where
  "wait_body p addr _ s =
     andthen (wait_scan p addr [0..<NPROC] False s) (\<lambda>(havekids, r) s.
       case r of
         Some v \<Rightarrow> Ret (Inr v) s
       | None \<Rightarrow>
           andthen (if \<not> havekids then Ret 1 s else killed p s) (\<lambda>stop s.
             if stop \<noteq> 0 then andthen (release WaitLock s) (\<lambda>_ s. Ret (Inr (-1)) s)
             else andthen (sleep (ChanProc p) WaitLock s) (\<lambda>_ s. Ret (Inl ()) s)))"

definition wait :: "u64 \<Rightarrow> 'z kproc_scheme \<Rightarrow> (int, 'z kproc_scheme) outcome" where
  "wait addr s =
     andthen (myproc s) (\<lambda>p s. deref p (\<lambda>p.
     andthen (acquire WaitLock s) (\<lambda>_ s. loop (wait_body p addr) () s)))"

primrec waitx_scan :: "nat \<Rightarrow> u64 \<Rightarrow> nat list \<Rightarrow> bool \<Rightarrow> 'z kproc_scheme
    \<Rightarrow> (bool \<times> (int \<times> u32 \<times> u32) option, 'z kproc_scheme) outcome" where
  "waitx_scan p addr [] havekids s = Ret (havekids, None) s"
| "waitx_scan p addr (np # nps) havekids s =
     (if p_parent (procs s np) = Some p then
        andthen (acquire (ProcLock np) s) (\<lambda>_ s.
          if p_state (procs s np) = ZOMBIE then
            (let q = procs s np; pid = sint (p_pid q); rt = p_rtime q; wt = p_etime q - p_ctime q - p_rtime q in
             andthen (if addr \<noteq> 0 then copyout (p_pagetable (procs s p)) addr (le_bytes32 (p_xstate q)) s
                      else Ret 0 s) (\<lambda>r s.
               if r < 0 then
                 andthen (release (ProcLock np) s) (\<lambda>_ s.
                 andthen (release WaitLock s) (\<lambda>_ s. Ret (True, Some (-1, wt, rt)) s))
               else
                 andthen (freeproc np s) (\<lambda>_ s.
                 andthen (release (ProcLock np) s) (\<lambda>_ s.
                 andthen (release WaitLock s) (\<lambda>_ s. Ret (True, Some (pid, wt, rt)) s)))))
          else andthen (release (ProcLock np) s) (\<lambda>_ s. waitx_scan p addr nps True s))
      else waitx_scan p addr nps havekids s)"

text \<open>\<open>waitx\<close> returns the pid and the values it stored through \<open>wtime\<close> and \<open>rtime\<close>, \<open>None\<close> when it
  returned without storing them.\<close>

definition waitx_body :: "nat \<Rightarrow> u64 \<Rightarrow> unit \<Rightarrow> 'z kproc_scheme
    \<Rightarrow> (unit + int \<times> (u32 \<times> u32) option, 'z kproc_scheme) outcome" where
  "waitx_body p addr _ s =
     andthen (waitx_scan p addr [0..<NPROC] False s) (\<lambda>(havekids, r) s.
       case r of
         Some (v, wt, rt) \<Rightarrow> Ret (Inr (v, Some (wt, rt))) s
       | None \<Rightarrow>
           if \<not> havekids \<or> p_killed (procs s p) \<noteq> 0
           then andthen (release WaitLock s) (\<lambda>_ s. Ret (Inr (-1, None)) s)
           else andthen (sleep (ChanProc p) WaitLock s) (\<lambda>_ s. Ret (Inl ()) s))"

definition waitx :: "u64 \<Rightarrow> 'z kproc_scheme \<Rightarrow> (int \<times> (u32 \<times> u32) option, 'z kproc_scheme) outcome" where
  "waitx addr s =
     andthen (myproc s) (\<lambda>p s. deref p (\<lambda>p.
     andthen (acquire WaitLock s) (\<lambda>_ s. loop (waitx_body p addr) () s)))"

definition update_time_one :: "nat \<Rightarrow> 'z kproc_scheme \<Rightarrow> (unit, 'z kproc_scheme) outcome" where
  "update_time_one p s =
     andthen (acquire (ProcLock p) s) (\<lambda>_ s.
       let st = p_state (procs s p);
           s = (if st = RUNNING then
                  (let s = upd_proc p (p_rtime_update (\<lambda>t. t + 1)) s in
                   if policy s = MLFQ then upd_proc p (mlfq_data_update (num_ticks_update (\<lambda>t. t + 1))) s else s)
                else if policy s = MLFQ \<and> (st = SLEEPING \<or> st = RUNNABLE)
                then upd_proc p (mlfq_data_update (wtime_update (\<lambda>t. t + 1))) s
                else s)
       in release (ProcLock p) s)"

definition update_time :: "'z kproc_scheme \<Rightarrow> (unit, 'z kproc_scheme) outcome" where
  "update_time s = for_each update_time_one [0..<NPROC] s"

subsection \<open>The schedulers\<close>

definition set_cpu_proc :: "nat option \<Rightarrow> 'z machine_scheme \<Rightarrow> 'z machine_scheme" where
  "set_cpu_proc p s = upd_mycpu (cpu_proc_update (\<lambda>_. p)) s"

text \<open>Round robin: one pass of the \<open>while (1)\<close> over the table.\<close>

definition rr_one :: "nat \<Rightarrow> 'z kproc_scheme \<Rightarrow> (unit, 'z kproc_scheme) outcome" where
  "rr_one p s =
     andthen (acquire (ProcLock p) s) (\<lambda>_ s.
     andthen (if p_state (procs s p) = RUNNABLE then
                andthen (swtch (set_cpu_proc (Some p) (upd_proc p (set_state RUNNING) s))) (\<lambda>_ s.
                  Ret () (set_cpu_proc None s))
              else Ret () s) (\<lambda>_ s.
     release (ProcLock p) s))"

definition rr_pass :: "'z kproc_scheme \<Rightarrow> (unit, 'z kproc_scheme) outcome" where
  "rr_pass s = for_each rr_one [0..<NPROC] (intr_on s)"

text \<open>First come first served: the scan keeps the lock of the best process so far.\<close>

primrec fcfs_scan :: "nat list \<Rightarrow> nat option \<Rightarrow> 'z kproc_scheme \<Rightarrow> (nat option, 'z kproc_scheme) outcome" where
  "fcfs_scan [] first s = Ret first s"
| "fcfs_scan (p # ps) first s =
     andthen (acquire (ProcLock p) s) (\<lambda>_ s.
       if p_state (procs s p) = RUNNABLE \<and>
          (case first of None \<Rightarrow> True | Some f \<Rightarrow> p_ctime (procs s p) < p_ctime (procs s f)) then
         andthen (case first of Some f \<Rightarrow> release (ProcLock f) s | None \<Rightarrow> Ret () s) (\<lambda>_ s.
           fcfs_scan ps (Some p) s)
       else andthen (release (ProcLock p) s) (\<lambda>_ s. fcfs_scan ps first s))"

definition fcfs_pass :: "'z kproc_scheme \<Rightarrow> (unit, 'z kproc_scheme) outcome" where
  "fcfs_pass s =
     andthen (fcfs_scan [0..<NPROC] None (intr_on s)) (\<lambda>first s.
       case first of
         None \<Rightarrow> Ret () s
       | Some p \<Rightarrow>
           (let s = intr_off s; s = upd_proc p (set_state RUNNING) s; s = set_cpu_proc (Some p) s in
            andthen (swtch s) (\<lambda>_ s.
            andthen (release (ProcLock p) s) (\<lambda>_ s. Ret () (set_cpu_proc None s)))))"

text \<open>MLFQ: ageing and queue upkeep for one process. \<open>ticks - intime\<close> is an unsigned subtraction.\<close>

abbreviation (input) AGING_TIME :: u32 where "AGING_TIME \<equiv> 30"
abbreviation (input) MLFQ_NUM_QUEUES :: nat where "MLFQ_NUM_QUEUES \<equiv> 4"

definition needs_boost :: "nat \<Rightarrow> 'z kproc_scheme \<Rightarrow> bool" where
  "needs_boost p s \<longleftrightarrow>
     ticks s - intime (mlfq_data (procs s p)) \<ge> AGING_TIME \<and> in_queue (mlfq_data (procs s p)) \<and>
     p_state (procs s p) = RUNNABLE"

definition boost :: "nat \<Rightarrow> 'z kproc_scheme \<Rightarrow> 'z kproc_scheme" where
  "boost p s =
     (let s = remove p (curr_pri (mlfq_data (procs s p))) s
      in push p (max (curr_pri (mlfq_data (procs s p)) - 1) 0) s)"

definition mlfq_one :: "nat \<Rightarrow> 'z kproc_scheme \<Rightarrow> (unit, 'z kproc_scheme) outcome" where
  "mlfq_one p s =
     andthen (acquire (ProcLock p) s) (\<lambda>_ s.
       if needs_boost p s then release (ProcLock p) (boost p s)
       else
         (let s = (if p_state (procs s p) = RUNNABLE \<and> \<not> in_queue (mlfq_data (procs s p))
                   then push p (curr_pri (mlfq_data (procs s p))) s else s);
              s = (if p_state (procs s p) = ZOMBIE \<or> p_state (procs s p) = SLEEPING
                   then remove p (curr_pri (mlfq_data (procs s p))) s else s)
          in release (ProcLock p) s))"

primrec mlfq_next :: "nat list \<Rightarrow> 'z kproc_scheme \<Rightarrow> nat option" where
  "mlfq_next [] s = None"
| "mlfq_next (i # is) s = (case topmost (int i) s of None \<Rightarrow> mlfq_next is s | Some p \<Rightarrow> Some p)"

definition mlfq_pass :: "'z kproc_scheme \<Rightarrow> (unit, 'z kproc_scheme) outcome" where
  "mlfq_pass s =
     andthen (for_each mlfq_one [0..<NPROC] (intr_on s)) (\<lambda>_ s.
       let next_p = mlfq_next [0..<MLFQ_NUM_QUEUES] s; s = set_cpu_proc None s in
       case next_p of
         None \<Rightarrow> Ret () s
       | Some p \<Rightarrow>
           andthen (acquire (ProcLock p) s) (\<lambda>_ s.
             let s = upd_proc p (set_state RUNNING) s; s = set_cpu_proc (Some p) s; s = intr_off s in
             andthen (swtch s) (\<lambda>_ s.
             andthen (release (ProcLock p) s) (\<lambda>_ s. Ret () (set_cpu_proc None s)))))"

definition scheduler :: "'z kproc_scheme \<Rightarrow> ('a, 'z kproc_scheme) outcome" where
  "scheduler s =
     loop (\<lambda>_ s. andthen (case policy s of RR \<Rightarrow> rr_pass s | FCFS \<Rightarrow> fcfs_pass s | MLFQ \<Rightarrow> mlfq_pass s)
                   (\<lambda>_ s. Ret (Inl ()) s)) () (set_cpu_proc None s)"

subsection \<open>The process table and the lock layer\<close>

interpretation upd_proc_upd: machine_upd "upd_proc p f" for p f
  by unfold_locales (simp_all add: upd_proc_def)

interpretation procs_upd: machine_upd "procs_update f" for f
  by unfold_locales simp_all

interpretation nextpid_upd: machine_upd "nextpid_update f" for f
  by unfold_locales simp_all

interpretation procs_get: machine_get procs
  by unfold_locales simp_all

interpretation ticks_get: machine_get ticks
  by unfold_locales simp_all

interpretation policy_get: machine_get policy
  by unfold_locales simp_all

interpretation nextpid_get: machine_get nextpid
  by unfold_locales simp_all

lemma upd_proc_simps [simp]:
  "procs (upd_proc p f s) = (procs s)(p := f (procs s p))"
  "ticks (upd_proc p f s) = ticks s" "policy (upd_proc p f s) = policy s"
  "initproc (upd_proc p f s) = initproc s" "nextpid (upd_proc p f s) = nextpid s"
  "tp (upd_proc p f s) = tp s" "spin (upd_proc p f s) = spin s" "cpus (upd_proc p f s) = cpus s"
  "pmem (upd_proc p f s) = pmem s"
  by (simp_all add: upd_proc_def)

text \<open>A pass over the table that locks each process, changes it and unlocks it. \<open>eff s p\<close> is the
  change of process \<open>p\<close>; it may depend on the rest of the state, but not on what the pass changes.\<close>

locale locked_table =
  fixes body :: "nat \<Rightarrow> 'z kproc_scheme \<Rightarrow> (unit, 'z kproc_scheme) outcome"
    and eff :: "'z kproc_scheme \<Rightarrow> nat \<Rightarrow> proc \<Rightarrow> proc"
  assumes body_eq: "cpu_ok s \<Longrightarrow> lock_free (ProcLock p) s \<Longrightarrow>
      body p s = Ret () ((settle s)\<lparr>procs := (procs s)(p := eff s p (procs s p))\<rparr>)"
    and eff_stable: "eff ((settle s)\<lparr>procs := P\<rparr>) = eff s"
begin

lemma table_pass:
  assumes "cpu_ok s" and "\<forall>p\<in>set ps. lock_free (ProcLock p) s" and "distinct ps" and "ps \<noteq> []"
  shows "for_each body ps s =
     Ret () ((settle s)\<lparr>procs := (\<lambda>p. if p \<in> set ps then eff s p (procs s p) else procs s p)\<rparr>)"
  using assms
proof (induction ps arbitrary: s)
  case (Cons p ps)
  let ?t = "(settle s)\<lparr>procs := (procs s)(p := eff s p (procs s p))\<rparr>"
  have b: "body p s = Ret () ?t" using Cons.prems by (intro body_eq) auto
  show ?case
  proof (cases "ps = []")
    case True
    moreover have "(procs s)(p := eff s p (procs s p)) = (\<lambda>q. if q \<in> {p} then eff s q (procs s q) else procs s q)"
      by auto
    ultimately show ?thesis using b by simp
  next
    case False
    have "for_each body ps ?t =
        Ret () ((settle ?t)\<lparr>procs := (\<lambda>q. if q \<in> set ps then eff ?t q (procs ?t q) else procs ?t q)\<rparr>)"
      using Cons.prems False by (intro Cons.IH) auto
    moreover have "(\<lambda>q. if q \<in> set ps then eff ?t q (procs ?t q) else procs ?t q) =
        (\<lambda>q. if q \<in> set (p # ps) then eff s q (procs s q) else procs s q)"
      using Cons.prems(3) by (auto simp: eff_stable)
    ultimately show ?thesis using b by simp
  qed
qed simp

lemma full_pass:
  assumes "cpu_ok s" and "\<forall>p<NPROC. lock_free (ProcLock p) s"
  shows "for_each body [0..<NPROC] s =
     Ret () ((settle s)\<lparr>procs := (\<lambda>p. if p < NPROC then eff s p (procs s p) else procs s p)\<rparr>)"
  using table_pass [of s "[0..<NPROC]"] assms by simp

end

definition wakeup_eff :: "chan \<Rightarrow> 'z kproc_scheme \<Rightarrow> nat \<Rightarrow> proc \<Rightarrow> proc" where
  "wakeup_eff chan s p q =
     (if cpu_proc (mycpu s) \<noteq> Some p \<and> p_state q = SLEEPING \<and> p_chan q = chan then q\<lparr>p_state := RUNNABLE\<rparr> else q)"

definition time_eff :: "'z kproc_scheme \<Rightarrow> nat \<Rightarrow> proc \<Rightarrow> proc" where
  "time_eff s p q =
     (if p_state q = RUNNING then
        (let q = p_rtime_update (\<lambda>t. t + 1) q
         in if policy s = MLFQ then mlfq_data_update (num_ticks_update (\<lambda>t. t + 1)) q else q)
      else if policy s = MLFQ \<and> (p_state q = SLEEPING \<or> p_state q = RUNNABLE)
      then mlfq_data_update (wtime_update (\<lambda>t. t + 1)) q else q)"

text \<open>The queue data after \<open>push\<close> and after \<open>remove\<close>.\<close>

definition queued :: "int \<Rightarrow> u32 \<Rightarrow> mlfq_proc" where
  "queued pri t = \<lparr>curr_pri = pri, wtime = 0, num_ticks = 0, in_queue = True, intime = t\<rparr>"

definition unqueued :: "int \<Rightarrow> mlfq_proc" where
  "unqueued pri = \<lparr>curr_pri = pri, wtime = 0, num_ticks = 0, in_queue = False, intime = 0\<rparr>"

lemma queued_simps [simp]:
  "curr_pri (queued pri t) = pri" "in_queue (queued pri t)" "intime (queued pri t) = t"
  "wtime (queued pri t) = 0" "num_ticks (queued pri t) = 0"
  "curr_pri (unqueued pri) = pri" "\<not> in_queue (unqueued pri)"
  by (simp_all add: queued_def unqueued_def)

definition age_eff :: "'z kproc_scheme \<Rightarrow> nat \<Rightarrow> proc \<Rightarrow> proc" where
  "age_eff s p q =
     (let d = mlfq_data q in
      if ticks s - intime d \<ge> AGING_TIME \<and> in_queue d \<and> p_state q = RUNNABLE
      then q\<lparr>mlfq_data := queued (max (curr_pri d - 1) 0) (ticks s)\<rparr>
      else if p_state q = RUNNABLE \<and> \<not> in_queue d then q\<lparr>mlfq_data := queued (curr_pri d) (ticks s)\<rparr>
      else if p_state q = ZOMBIE \<or> p_state q = SLEEPING then q\<lparr>mlfq_data := unqueued (curr_pri d)\<rparr>
      else q)"

text \<open>What is left to show of a body is the update it makes under the lock.\<close>

lemma upd_proc_id [simp]: "upd_proc p (\<lambda>q. q) s = s"
  by (simp add: upd_proc_def)

lemma upd_proc_upd_proc [simp]: "upd_proc p f (upd_proc p g s) = upd_proc p (\<lambda>q. f (g q)) s"
  by (simp add: upd_proc_def)

lemma upd_proc_cong: "f (procs s p) = g (procs s p) \<Longrightarrow> upd_proc p f s = upd_proc p g s"
  by (simp add: upd_proc_def)

lemma eff_acq [simp]:
  "time_eff (acq lk s) = time_eff s" "age_eff (acq lk s) = age_eff s"
  by (simp_all add: fun_eq_iff time_eff_def age_eff_def Let_def)

lemma time_upd:
  "(if p_state (procs s p) = RUNNING then
      (let s = upd_proc p (p_rtime_update (\<lambda>t. t + 1)) s in
       if policy s = MLFQ then upd_proc p (mlfq_data_update (num_ticks_update (\<lambda>t. t + 1))) s else s)
    else if policy s = MLFQ \<and> (p_state (procs s p) = SLEEPING \<or> p_state (procs s p) = RUNNABLE)
    then upd_proc p (mlfq_data_update (wtime_update (\<lambda>t. t + 1))) s
    else s) = upd_proc p (time_eff s p) s"
  by (cases "p_state (procs s p)"; cases "policy s = MLFQ")
     (simp_all add: Let_def time_eff_def upd_proc_def)

lemma push_eq: "push p pri s = upd_proc p (\<lambda>q. q\<lparr>mlfq_data := queued pri (ticks s)\<rparr>) s"
  unfolding push_def queued_def by (rule upd_proc_cong) (auto intro!: proc.equality mlfq_proc.equality)

lemma remove_eq: "remove p qn s = upd_proc p (\<lambda>q. q\<lparr>mlfq_data := unqueued (curr_pri (mlfq_data q))\<rparr>) s"
  unfolding remove_def unqueued_def by (rule upd_proc_cong) (auto intro!: proc.equality mlfq_proc.equality)

lemma age_upd:
  "(if needs_boost p s then boost p s
    else
      (let s = (if p_state (procs s p) = RUNNABLE \<and> \<not> in_queue (mlfq_data (procs s p))
                then push p (curr_pri (mlfq_data (procs s p))) s else s)
       in if p_state (procs s p) = ZOMBIE \<or> p_state (procs s p) = SLEEPING
          then remove p (curr_pri (mlfq_data (procs s p))) s else s)) = upd_proc p (age_eff s p) s"
  by (cases "needs_boost p s"; cases "p_state (procs s p)"; cases "in_queue (mlfq_data (procs s p))")
     (simp_all add: Let_def age_eff_def needs_boost_def boost_def push_eq remove_eq upd_proc_def)

interpretation wake_pass: locked_table "wakeup_one chan" "wakeup_eff chan" for chan
proof unfold_locales
  fix s :: "'a kproc_scheme" and p
  assume "cpu_ok s" and "lock_free (ProcLock p) s"
  then show "wakeup_one chan p s = Ret () ((settle s)\<lparr>procs := (procs s)(p := wakeup_eff chan s p (procs s p))\<rparr>)"
    by (auto simp: wakeup_one_def wakeup_eff_def upd_proc_def Let_def)
qed (auto simp: wakeup_eff_def fun_eq_iff)

interpretation time_pass: locked_table update_time_one time_eff
proof unfold_locales
  fix s :: "'a kproc_scheme" and p
  assume "cpu_ok s" and "lock_free (ProcLock p) s"
  then show "update_time_one p s = Ret () ((settle s)\<lparr>procs := (procs s)(p := time_eff s p (procs s p))\<rparr>)"
    unfolding update_time_one_def Let_def time_upd [unfolded Let_def]
    by (simp add: upd_proc_def)
qed (auto simp: time_eff_def fun_eq_iff)

interpretation age_pass: locked_table mlfq_one age_eff
proof unfold_locales
  fix s :: "'a kproc_scheme" and p
  assume "cpu_ok s" and "lock_free (ProcLock p) s"
  moreover have "mlfq_one p s = andthen (acquire (ProcLock p) s) (\<lambda>_ t. release (ProcLock p) (upd_proc p (age_eff t p) t))"
    unfolding mlfq_one_def age_upd [symmetric] by (simp add: if_distrib [of "release (ProcLock p)"] Let_def cong: if_cong)
  ultimately show "mlfq_one p s = Ret () ((settle s)\<lparr>procs := (procs s)(p := age_eff s p (procs s p))\<rparr>)"
    by (simp add: upd_proc_def)
qed (simp add: age_eff_def fun_eq_iff Let_def)

lemma upd_proc_kmem [simp]: "freelist (upd_proc p f s) = freelist s" "kend (upd_proc p f s) = kend s"
  "kmem_inv (upd_proc p f s) xs = kmem_inv s xs"
  by (simp_all add: upd_proc_def kmem_inv_def lock_free_def)

lemma upd_proc_comm:
  "pmem_update g (upd_proc p f s) = upd_proc p f (pmem_update g s)"
  "freelist_update h (upd_proc p f s) = upd_proc p f (freelist_update h s)"
  by (simp_all add: upd_proc_def)

subsection \<open>Sleep and wakeup\<close>

abbreviation (input) table_unlocked :: "'z kproc_scheme \<Rightarrow> bool" where
  "table_unlocked s \<equiv> \<forall>p<NPROC. lock_free (ProcLock p) s"

lemma wakeup_eq:
  assumes "cpu_ok s" and "table_unlocked s"
  shows "wakeup chan s =
     Ret () ((settle s)\<lparr>procs := (\<lambda>p. if p < NPROC then wakeup_eff chan s p (procs s p) else procs s p)\<rparr>)"
  using wake_pass.full_pass [OF assms] by (simp add: wakeup_def)

text \<open>The state in which a process that called \<open>sleep(chan, lk)\<close> is switched out.\<close>

definition asleep :: "nat \<Rightarrow> chan \<Rightarrow> lockid \<Rightarrow> 'z kproc_scheme \<Rightarrow> 'z kproc_scheme" where
  "asleep p chan lk s =
     upd_proc p (\<lambda>q. q\<lparr>p_chan := chan, p_state := SLEEPING\<rparr>) (rel lk (acq (ProcLock p) s))"

lemma sched_eq:
  assumes "cpu_ok s" and "cpu_proc (mycpu s) = Some p" and "holding (ProcLock p) s"
    and "noff (mycpu s) = 1" and "p_state (procs s p) \<noteq> RUNNING"
  shows "sched s = Block s (\<lambda>t. Ret () (upd_mycpu (intena_update (\<lambda>_. intena (mycpu s))) t))"
  using assms cpu_ok_intr [OF assms(1)] by (simp add: sched_def swtch_def)

lemma sleep_eq:
  assumes "cpu_ok s" and "cpu_proc (mycpu s) = Some p" and "holding lk s" and "noff (mycpu s) = 1"
    and "lk \<noteq> ProcLock p" and "lock_free (ProcLock p) s"
  shows "sleep chan lk s = Block (asleep p chan lk s) (\<lambda>t.
     andthen (release (ProcLock p)
       (upd_proc p (\<lambda>q. q\<lparr>p_chan := ChanNull\<rparr>)
         (upd_mycpu (intena_update (\<lambda>_. intena (mycpu (asleep p chan lk s)))) t))) (\<lambda>_ s. acquire lk s))"
proof -
  let ?a = "acq (ProcLock p) s"
  have "lock_held lk ?a" using assms by (simp add: lock_held_cpu_ok)
  moreover have "cpu_ok (rel lk ?a)" using assms by (intro cpu_ok_rel) auto
  moreover have "holding (ProcLock p) (rel lk ?a)" using assms by (subst rel_other) auto
  ultimately have "sched (asleep p chan lk s) = Block (asleep p chan lk s)
      (\<lambda>t. Ret () (upd_mycpu (intena_update (\<lambda>_. intena (mycpu (asleep p chan lk s)))) t))"
    using assms assms(5) [symmetric] by (intro sched_eq [where p = p]) (simp_all add: asleep_def)
  then show ?thesis using assms \<open>lock_held lk ?a\<close> by (simp add: sleep_def asleep_def)
qed

text \<open>
  \<open>wakeup(chan)\<close> makes runnable exactly the processes that sleep on \<open>chan\<close>, other than the
  caller, and changes nothing else: no other field, no other process, no lock.
\<close>

theorem wakeup_correct:
  assumes "cpu_ok s" and "table_unlocked s"
  shows "wakeup chan s = Ret () ((settle s)\<lparr>procs := (\<lambda>p.
     if p < NPROC \<and> cpu_proc (mycpu s) \<noteq> Some p \<and> p_state (procs s p) = SLEEPING \<and> p_chan (procs s p) = chan
     then (procs s p)\<lparr>p_state := RUNNABLE\<rparr> else procs s p)\<rparr>)"
proof -
  have *: "(\<lambda>p. if p < NPROC then wakeup_eff chan s p (procs s p) else procs s p) = (\<lambda>p.
     if p < NPROC \<and> cpu_proc (mycpu s) \<noteq> Some p \<and> p_state (procs s p) = SLEEPING \<and> p_chan (procs s p) = chan
     then (procs s p)\<lparr>p_state := RUNNABLE\<rparr> else procs s p)"
    by (auto simp: wakeup_eff_def)
  show ?thesis using wakeup_eq [OF assms, of chan] unfolding * .
qed

text \<open>
  No wakeup is lost. A process that calls \<open>sleep(chan, lk)\<close> with \<open>lk\<close> as its only lock is
  switched out in a state where \<open>lk\<close> is free, its own lock is held and it is marked \<open>SLEEPING\<close> on
  \<open>chan\<close>; a \<open>wakeup(chan)\<close> by any other process in any later state where it is still so marked makes
  it runnable; and when it is switched in again it returns holding \<open>lk\<close> and not its own lock.
\<close>

theorem sleep_wakeup:
  fixes s :: "'z kproc_scheme"
  assumes "cpu_ok s" and "cpu_proc (mycpu s) = Some p" and "holding lk s" and "noff (mycpu s) = 1"
    and "lk \<noteq> ProcLock p" and "lock_free (ProcLock p) s" and "p < NPROC"
  shows "\<exists>t k. sleep chan lk s = Block t k \<and> lock_free lk t \<and> holding (ProcLock p) t \<and>
     p_state (procs t p) = SLEEPING \<and> p_chan (procs t p) = chan \<and> (\<forall>q. q \<noteq> p \<longrightarrow> procs t q = procs s q) \<and>
     (\<forall>u. cpu_ok u \<and> table_unlocked u \<and> procs u p = procs t p \<and> cpu_proc (mycpu u) \<noteq> Some p \<longrightarrow>
        returns (wakeup chan u) (\<lambda>_ v. p_state (procs v p) = RUNNABLE)) \<and>
     (\<forall>u. cpu_ok u \<and> holding (ProcLock p) u \<and> noff (mycpu u) = 1 \<and> lock_free lk u \<longrightarrow>
        returns (k u) (\<lambda>_ v. holding lk v \<and> lock_free (ProcLock p) v \<and> p_chan (procs v p) = ChanNull))"
proof -
  let ?t = "asleep p chan lk s"
  define k where "k = (\<lambda>t :: 'z kproc_scheme. andthen (release (ProcLock p) (upd_proc p (\<lambda>q. q\<lparr>p_chan := ChanNull\<rparr>)
      (upd_mycpu (intena_update (\<lambda>_. intena (mycpu ?t))) t))) (\<lambda>_ s. acquire lk s))"
  have W: "\<forall>u. cpu_ok u \<and> table_unlocked u \<and> procs u p = procs ?t p \<and> cpu_proc (mycpu u) \<noteq> Some p \<longrightarrow>
      returns (wakeup chan u) (\<lambda>_ v. p_state (procs v p) = RUNNABLE)"
    using assms(7) by (simp add: wakeup_eq wakeup_eff_def asleep_def)
  have K: "\<forall>u. cpu_ok u \<and> holding (ProcLock p) u \<and> noff (mycpu u) = 1 \<and> lock_free lk u \<longrightarrow>
      returns (k u) (\<lambda>_ v. holding lk v \<and> lock_free (ProcLock p) v \<and> p_chan (procs v p) = ChanNull)"
    using assms(5) by (simp add: k_def lock_held_cpu_ok)
  have T: "lock_free lk ?t" "holding (ProcLock p) ?t" "p_state (procs ?t p) = SLEEPING"
    "p_chan (procs ?t p) = chan" "\<forall>q. q \<noteq> p \<longrightarrow> procs ?t q = procs s q"
    using assms(5) assms(5) [symmetric] by (simp_all add: asleep_def)
  have "sleep chan lk s = Block ?t k" unfolding k_def by (rule sleep_eq [OF assms(1-6)])
  with T W K show ?thesis by (intro exI [of _ ?t] exI [of _ k] conjI)
qed

lemma yield_blocks:
  assumes "cpu_ok s" and "cpu_proc (mycpu s) = Some p" and "noff (mycpu s) = 0" and "lock_free (ProcLock p) s"
  shows "blocks (yield s) Q = Q (upd_proc p (set_state RUNNABLE) (acq (ProcLock p) s))"
  using assms by (simp add: yield_def sched_eq [where p = p])

subsection \<open>kill\<close>

lemma kill_one_eq:
  assumes "cpu_ok s" and "lock_free (ProcLock p) s"
  shows "kill_one pid p s =
     (if p_pid (procs s p) = pid
      then Ret (Some 0) ((settle s)\<lparr>procs := (procs s)(p := (procs s p)\<lparr>p_killed := 1,
             p_state := (if p_state (procs s p) = SLEEPING then RUNNABLE else p_state (procs s p))\<rparr>)\<rparr>)
      else Ret None (settle s))"
  using assms
  by (cases "p_state (procs s p) = SLEEPING") (simp_all add: kill_one_def Let_def upd_proc_def)

lemma kill_scan:
  assumes "cpu_ok s" and "\<forall>p\<in>set ps. lock_free (ProcLock p) s" and "ps \<noteq> []"
  shows "for_find (kill_one pid) ps s =
     (case find (\<lambda>p. p_pid (procs s p) = pid) ps of
        None \<Rightarrow> Ret None (settle s)
      | Some p \<Rightarrow> Ret (Some 0) ((settle s)\<lparr>procs := (procs s)(p := (procs s p)\<lparr>p_killed := 1,
             p_state := (if p_state (procs s p) = SLEEPING then RUNNABLE else p_state (procs s p))\<rparr>)\<rparr>))"
  using assms
proof (induction ps arbitrary: s)
  case (Cons p ps)
  then show ?case
    using Cons.IH [of "settle s"] by (cases "ps = []") (simp_all add: kill_one_eq split: option.splits)
qed simp

subsection \<open>The MLFQ choice\<close>

text \<open>A candidate of queue \<open>qnum\<close>, and the order of the queue: by the time of entry, then by slot.\<close>

definition queue_cand :: "int \<Rightarrow> 'z kproc_scheme \<Rightarrow> nat \<Rightarrow> bool" where
  "queue_cand qnum s p \<longleftrightarrow>
     in_queue (mlfq_data (procs s p)) \<and> curr_pri (mlfq_data (procs s p)) = qnum \<and> p_state (procs s p) = RUNNABLE"

definition before :: "'z kproc_scheme \<Rightarrow> nat \<Rightarrow> nat \<Rightarrow> bool" where
  "before s p q \<longleftrightarrow>
     intime (mlfq_data (procs s p)) < intime (mlfq_data (procs s q)) \<or>
     (intime (mlfq_data (procs s p)) = intime (mlfq_data (procs s q)) \<and> p \<le> q)"

lemma before_refl [simp]: "before s p p"
  by (simp add: before_def)

lemma before_trans: "before s p q \<Longrightarrow> before s q r \<Longrightarrow> before s p r"
  by (auto simp: before_def)

definition top_step :: "int \<Rightarrow> 'z kproc_scheme \<Rightarrow> nat \<Rightarrow> nat option \<Rightarrow> nat option" where
  "top_step qnum s p first =
     (if queue_cand qnum s p then
        (case first of
           None \<Rightarrow> Some p
         | Some f \<Rightarrow> if intime (mlfq_data (procs s f)) > intime (mlfq_data (procs s p)) then Some p else first)
      else first)"

lemma topmost_fold: "topmost qnum s = fold (top_step qnum s) [0..<NPROC] None"
  unfolding topmost_def
  by (rule fold_cong [OF refl refl]) (auto simp: top_step_def queue_cand_def Let_def split: option.splits)

lemma top_scan:
  "case fold (top_step qnum s) [0..<n] None of
     None \<Rightarrow> \<forall>q<n. \<not> queue_cand qnum s q
   | Some p \<Rightarrow> p < n \<and> queue_cand qnum s p \<and> (\<forall>q<n. queue_cand qnum s q \<longrightarrow> before s p q)"
proof (induction n)
  case (Suc n)
  then show ?case
    by (auto simp: top_step_def less_Suc_eq split: option.splits if_splits)
       (auto simp: before_def)
qed simp

lemma topmost_None: "topmost qnum s = None \<longleftrightarrow> (\<forall>q<NPROC. \<not> queue_cand qnum s q)"
  using top_scan [of NPROC qnum s] by (auto simp: topmost_fold split: option.splits)

lemma topmost_Some:
  "topmost qnum s = Some p \<Longrightarrow>
   p < NPROC \<and> queue_cand qnum s p \<and> (\<forall>q<NPROC. queue_cand qnum s q \<longrightarrow> before s p q)"
  using top_scan [of NPROC qnum s] by (auto simp: topmost_fold)

lemma mlfq_next_None: "mlfq_next is s = None \<longleftrightarrow> (\<forall>i\<in>set is. \<forall>q<NPROC. \<not> queue_cand (int i) s q)"
  by (induction "is") (auto simp: topmost_None split: option.splits dest!: topmost_Some)

lemma mlfq_next_Some:
  assumes "mlfq_next [0..<n] s = Some p"
  shows "p < NPROC \<and> (\<exists>i<n. queue_cand (int i) s p \<and> (\<forall>j<i. \<forall>q<NPROC. \<not> queue_cand (int j) s q) \<and>
     (\<forall>q<NPROC. queue_cand (int i) s q \<longrightarrow> before s p q))"
  using assms
proof (induction n)
  case (Suc n)
  have app: "mlfq_next (is @ js) s = (case mlfq_next is s of None \<Rightarrow> mlfq_next js s | Some p \<Rightarrow> Some p)" for "is" js
    by (induction "is") (auto split: option.splits)
  show ?case
  proof (cases "mlfq_next [0..<n] s")
    case None
    then have "topmost (int n) s = Some p" using Suc.prems by (simp add: app split: option.splits)
    moreover have "\<forall>j<n. \<forall>q<NPROC. \<not> queue_cand (int j) s q"
      using None by (auto simp: mlfq_next_None)
    ultimately show ?thesis using topmost_Some [of "int n" s p] by blast
  next
    case (Some r)
    then show ?thesis using Suc by (auto simp: app less_Suc_eq)
  qed
qed simp

lemma intr_on_simps [simp]:
  "noff (mycpu (intr_on s)) = noff (mycpu s)" "noff (mycpu (intr_off s)) = noff (mycpu s)"
  "cpu_proc (mycpu (intr_on s)) = cpu_proc (mycpu s)" "cpu_proc (mycpu (intr_off s)) = cpu_proc (mycpu s)"
  "lock_free lk (intr_on s) = lock_free lk s" "lock_free lk (intr_off s) = lock_free lk s"
  "holding lk (intr_on s) = holding lk s" "holding lk (intr_off s) = holding lk s"
  by (simp_all add: lock_free_def machine_defs)

lemma cpu_ok_intr_on: "noff (mycpu s) = 0 \<Longrightarrow> cpu_ok (intr_on s)"
  by (simp add: cpu_ok_def)

text \<open>The table after the first loop of the MLFQ scheduler.\<close>

definition aged :: "'z kproc_scheme \<Rightarrow> nat \<Rightarrow> proc" where
  "aged s p = (if p < NPROC then age_eff s p (procs s p) else procs s p)"

lemma aged_simps [simp]:
  "p_state (aged s p) = p_state (procs s p)" "p_ctime (aged s p) = p_ctime (procs s p)"
  by (auto simp: aged_def age_eff_def Let_def)

lemma aged_queued: "p < NPROC \<Longrightarrow> p_state (procs s p) = RUNNABLE \<Longrightarrow> in_queue (mlfq_data (aged s p))"
  by (auto simp: aged_def age_eff_def Let_def)

lemma aged_pri:
  "0 \<le> curr_pri (mlfq_data (procs s p)) \<Longrightarrow>
   0 \<le> curr_pri (mlfq_data (aged s p)) \<and> curr_pri (mlfq_data (aged s p)) \<le> curr_pri (mlfq_data (procs s p))"
  by (auto simp: aged_def age_eff_def Let_def)

lemma age_eff_intr [simp]: "age_eff (intr_on s) = age_eff s"
  by (simp add: fun_eq_iff age_eff_def Let_def)

lemma age_pass_eq:
  assumes "noff (mycpu s) = 0" and "table_unlocked s"
  shows "for_each mlfq_one [0..<NPROC] (intr_on s) = Ret () ((settle (intr_on s))\<lparr>procs := aged s\<rparr>)"
proof -
  have "(\<lambda>p. if p < NPROC then age_eff (intr_on s) p (procs (intr_on s) p) else procs (intr_on s) p) = aged s"
    by (auto simp: aged_def)
  then show ?thesis using age_pass.full_pass [of "intr_on s"] cpu_ok_intr_on [OF assms(1)] assms(2) by simp
qed

text \<open>The order in which the MLFQ scheduler prefers runnable processes: the queue, then the time of
  entry into it, then the slot.\<close>

definition mlfq_le :: "(nat \<Rightarrow> proc) \<Rightarrow> nat \<Rightarrow> nat \<Rightarrow> bool" where
  "mlfq_le P p q \<longleftrightarrow>
     (let dp = mlfq_data (P p); dq = mlfq_data (P q) in
      curr_pri dp < curr_pri dq \<or>
      (curr_pri dp = curr_pri dq \<and> (intime dp < intime dq \<or> (intime dp = intime dq \<and> p \<le> q))))"

lemma mlfq_pass_eq:
  assumes "noff (mycpu s) = 0" and "table_unlocked s"
  shows "mlfq_pass s =
     (let t = set_cpu_proc None ((settle (intr_on s))\<lparr>procs := aged s\<rparr>) in
      case mlfq_next [0..<MLFQ_NUM_QUEUES] ((settle (intr_on s))\<lparr>procs := aged s\<rparr>) of
        None \<Rightarrow> Ret () t
      | Some p \<Rightarrow>
          (let u = intr_off (set_cpu_proc (Some p) (upd_proc p (set_state RUNNING) (acq (ProcLock p) t))) in
           Block u (\<lambda>v. andthen (release (ProcLock p) v) (\<lambda>_ w. Ret () (set_cpu_proc None w)))))"
proof (cases "mlfq_next [0..<MLFQ_NUM_QUEUES] ((settle (intr_on s))\<lparr>procs := aged s\<rparr>)")
  case None
  then show ?thesis using age_pass_eq [OF assms] by (simp add: mlfq_pass_def Let_def)
next
  case (Some p)
  have "lock_free (ProcLock p) s" using mlfq_next_Some [OF Some] assms(2) by blast
  then show ?thesis using age_pass_eq [OF assms] Some
    by (simp add: mlfq_pass_def Let_def swtch_def set_cpu_proc_def)
qed

lemma mlfq_pass_idle:
  assumes "noff (mycpu s) = 0" and "table_unlocked s" and "\<forall>p<NPROC. p_state (procs s p) \<noteq> RUNNABLE"
  shows "mlfq_pass s = Ret () (set_cpu_proc None ((settle (intr_on s))\<lparr>procs := aged s\<rparr>))"
proof -
  have "mlfq_next [0..<MLFQ_NUM_QUEUES] ((settle (intr_on s))\<lparr>procs := aged s\<rparr>) = None"
    using assms(3) by (simp add: mlfq_next_None queue_cand_def)
  then show ?thesis using mlfq_pass_eq [OF assms(1,2)] by (simp add: Let_def)
qed

text \<open>
  Property C8: the MLFQ scheduler. One pass on an idle cpu with the process table unlocked, where the
  runnable processes have priorities 0 to 3: if no process is runnable it switches to none; otherwise
  it switches to the process that is least in the order queue, time of entry, slot after ageing, which
  becomes \<open>RUNNING\<close> on this cpu with its lock held; no other process changes beyond its ageing.
\<close>

theorem mlfq_schedules_best:
  assumes "noff (mycpu s) = 0" and "table_unlocked s"
    and "\<forall>p<NPROC. p_state (procs s p) = RUNNABLE \<longrightarrow> curr_pri (mlfq_data (procs s p)) \<in> {0..3}"
  shows "if \<forall>p<NPROC. p_state (procs s p) \<noteq> RUNNABLE
     then returns (mlfq_pass s) (\<lambda>_ t. cpu_proc (mycpu t) = None \<and> procs t = aged s)
     else \<exists>p<NPROC. p_state (procs s p) = RUNNABLE \<and>
       (\<forall>q<NPROC. p_state (procs s q) = RUNNABLE \<longrightarrow> mlfq_le (aged s) p q) \<and>
       blocks (mlfq_pass s) (\<lambda>t. cpu_proc (mycpu t) = Some p \<and> holding (ProcLock p) t \<and>
         procs t = (aged s)(p := (aged s p)\<lparr>p_state := RUNNING\<rparr>))"
proof (cases "\<forall>p<NPROC. p_state (procs s p) \<noteq> RUNNABLE")
  case True
  then show ?thesis using mlfq_pass_idle [OF assms(1,2)] by (simp add: set_cpu_proc_def)
next
  case False
  let ?t = "(settle (intr_on s))\<lparr>procs := aged s\<rparr>"
  have cand: "\<exists>i<4. curr_pri (mlfq_data (aged s q)) = int i \<and> queue_cand (int i) ?t q"
    if q: "q < NPROC" "p_state (procs s q) = RUNNABLE" for q
  proof -
    have "curr_pri (mlfq_data (aged s q)) \<in> {0..3}"
      using aged_pri [of s q] assms(3) q by fastforce
    then show ?thesis using aged_queued [OF q] q(2)
      by (intro exI [of _ "nat (curr_pri (mlfq_data (aged s q)))"]) (auto simp: queue_cand_def)
  qed
  from False obtain r where "r < NPROC" "p_state (procs s r) = RUNNABLE" by blast
  then have "mlfq_next [0..<4] ?t \<noteq> None" using cand [of r] by (auto simp: mlfq_next_None)
  then obtain p where p: "mlfq_next [0..<4] ?t = Some p" by blast
  obtain i where i: "p < NPROC" "i < 4" "queue_cand (int i) ?t p"
    "\<forall>j<i. \<forall>q<NPROC. \<not> queue_cand (int j) ?t q" "\<forall>q<NPROC. queue_cand (int i) ?t q \<longrightarrow> before ?t p q"
    using mlfq_next_Some [OF p] by blast
  have "mlfq_le (aged s) p q" if q: "q < NPROC" "p_state (procs s q) = RUNNABLE" for q
  proof -
    obtain j where j: "curr_pri (mlfq_data (aged s q)) = int j" "queue_cand (int j) ?t q" using cand [OF q] by blast
    then have "\<not> j < i" using i(4) q(1) by blast
    then show ?thesis using i(3,5) j q(1) by (cases "j = i") (auto simp: mlfq_le_def Let_def queue_cand_def before_def)
  qed
  moreover have "p_state (procs s p) = RUNNABLE" using i(3) by (simp add: queue_cand_def)
  moreover have "blocks (mlfq_pass s) (\<lambda>t. cpu_proc (mycpu t) = Some p \<and> holding (ProcLock p) t \<and>
      procs t = (aged s)(p := (aged s p)\<lparr>p_state := RUNNING\<rparr>))"
    using mlfq_pass_eq [OF assms(1,2)] p by (simp add: Let_def set_cpu_proc_def)
  ultimately show ?thesis using False i(1) by auto
qed

subsection \<open>The FCFS choice\<close>

definition fcfs_step :: "(nat \<Rightarrow> proc) \<Rightarrow> nat \<Rightarrow> nat option \<Rightarrow> nat option" where
  "fcfs_step P p first =
     (if p_state (P p) = RUNNABLE \<and> (case first of None \<Rightarrow> True | Some f \<Rightarrow> p_ctime (P p) < p_ctime (P f))
      then Some p else first)"

definition fcfs_le :: "(nat \<Rightarrow> proc) \<Rightarrow> nat \<Rightarrow> nat \<Rightarrow> bool" where
  "fcfs_le P p q \<longleftrightarrow> p_ctime (P p) < p_ctime (P q) \<or> (p_ctime (P p) = p_ctime (P q) \<and> p \<le> q)"

lemma fcfs_fold:
  "case fold (fcfs_step P) [0..<n] None of
     None \<Rightarrow> \<forall>q<n. p_state (P q) \<noteq> RUNNABLE
   | Some p \<Rightarrow> p < n \<and> p_state (P p) = RUNNABLE \<and> (\<forall>q<n. p_state (P q) = RUNNABLE \<longrightarrow> fcfs_le P p q)"
proof (induction n)
  case (Suc n)
  then show ?case
    by (auto simp: fcfs_step_def less_Suc_eq split: option.splits if_splits) (auto simp: fcfs_le_def)
qed simp

text \<open>During the scan this hart holds the lock of the best process so far and no other process lock.\<close>

definition scan_inv :: "nat option \<Rightarrow> 'z kproc_scheme \<Rightarrow> bool" where
  "scan_inv first s \<longleftrightarrow>
     cpu_ok s \<and> noff (mycpu s) = (if first = None then 0 else 1) \<and>
     (\<forall>q<NPROC. first \<noteq> Some q \<longrightarrow> lock_free (ProcLock q) s) \<and>
     (\<forall>f. first = Some f \<longrightarrow> holding (ProcLock f) s)"

lemma fcfs_scan_fold:
  fixes s :: "'z kproc_scheme"
  assumes "scan_inv first s" and "distinct ps" and "\<forall>p\<in>set ps. p < NPROC \<and> first \<noteq> Some p"
  shows "returns (fcfs_scan ps first s) (\<lambda>r t. r = fold (fcfs_step (procs s)) ps first \<and> scan_inv r t \<and>
     procs t = procs s \<and> tp t = tp s)"
  using assms
proof (induction ps arbitrary: first s)
  case (Cons p ps)
  let ?a = "acq (ProcLock p) s"
  have ok: "cpu_ok s" and lf: "lock_free (ProcLock p) s" using Cons.prems by (auto simp: scan_inv_def)
  have held: "lock_held (ProcLock p) ?a" using ok by simp
  show ?case
  proof (cases "p_state (procs s p) = RUNNABLE \<and> (case first of None \<Rightarrow> True | Some f \<Rightarrow> p_ctime (procs s p) < p_ctime (procs s f))")
    case take: True
    then have st: "fcfs_step (procs s) p first = Some p" by (simp add: fcfs_step_def)
    have IH: "returns (fcfs_scan ps (Some p) t) (\<lambda>r u. r = fold (fcfs_step (procs s)) ps (Some p) \<and> scan_inv r u \<and>
        procs u = procs s \<and> tp u = tp s)" if "scan_inv (Some p) t" "procs t = procs s" "tp t = tp s" for t :: "'z kproc_scheme"
      using Cons.IH [of "Some p" t] Cons.prems that by auto
    show ?thesis
    proof (cases first)
      case None
      then have "scan_inv (Some p) ?a" using Cons.prems by (auto simp: scan_inv_def)
      then show ?thesis using IH [of ?a] take lf None st by simp
    next
      case (Some f)
      have f: "f \<noteq> p" "holding (ProcLock f) s" "noff (mycpu s) = 1" using Cons.prems Some by (auto simp: scan_inv_def)
      then have hf: "lock_held (ProcLock f) ?a" using ok by simp
      have "cpu_ok (rel (ProcLock f) ?a)" using ok f by (intro cpu_ok_rel) auto
      moreover have "lock_free (ProcLock q) (rel (ProcLock f) ?a)" if "q < NPROC" "q \<noteq> p" for q
        using Cons.prems(1) Some f that by (cases "q = f") (auto simp: scan_inv_def)
      ultimately have "scan_inv (Some p) (rel (ProcLock f) ?a)" using f by (auto simp: scan_inv_def)
      then show ?thesis using IH [of "rel (ProcLock f) ?a"] take lf hf Some st by simp
    qed
  next
    case False
    have "scan_inv first (settle s)" using Cons.prems(1) by (simp add: scan_inv_def)
    then have "returns (fcfs_scan ps first (settle s)) (\<lambda>r t. r = fold (fcfs_step (procs s)) ps first \<and> scan_inv r t \<and>
        procs t = procs s \<and> tp t = tp s)"
      using Cons.IH [of first "settle s"] Cons.prems by simp
    moreover have "fcfs_scan (p # ps) first s = fcfs_scan ps first (settle s)"
      using ok lf held False by (cases first) auto
    moreover have "fcfs_step (procs s) p first = first" using False by (auto simp: fcfs_step_def)
    ultimately show ?thesis by simp
  qed
qed simp

text \<open>
  Property C13: the FCFS scheduler. One pass on an idle cpu with the process table unlocked: if no
  process is runnable it returns without switching; otherwise it switches to the runnable process
  that was created first (least \<open>ctime\<close>, then least slot), marked \<open>RUNNING\<close> on this cpu, with its lock
  the only process lock that is held; no other process changes.
\<close>

theorem fcfs_schedules_oldest:
  assumes "noff (mycpu s) = 0" and "table_unlocked s"
  shows "if \<forall>p<NPROC. p_state (procs s p) \<noteq> RUNNABLE
     then returns (fcfs_pass s) (\<lambda>_ t. procs t = procs s \<and> table_unlocked t)
     else \<exists>p<NPROC. p_state (procs s p) = RUNNABLE \<and>
       (\<forall>q<NPROC. p_state (procs s q) = RUNNABLE \<longrightarrow> fcfs_le (procs s) p q) \<and>
       blocks (fcfs_pass s) (\<lambda>t. cpu_proc (mycpu t) = Some p \<and> holding (ProcLock p) t \<and>
         (\<forall>q<NPROC. q \<noteq> p \<longrightarrow> lock_free (ProcLock q) t) \<and>
         procs t = (procs s)(p := (procs s p)\<lparr>p_state := RUNNING\<rparr>))"
proof -
  let ?r = "fold (fcfs_step (procs s)) [0..<NPROC] None"
  have "scan_inv None (intr_on s)" using assms by (simp add: scan_inv_def cpu_ok_intr_on)
  then have "returns (fcfs_scan [0..<NPROC] None (intr_on s)) (\<lambda>r t. r = ?r \<and> scan_inv r t \<and> procs t = procs s \<and> tp t = tp (intr_on s))"
    using fcfs_scan_fold [of None "intr_on s" "[0..<NPROC]"] by simp
  then obtain t where t: "fcfs_scan [0..<NPROC] None (intr_on s) = Ret ?r t" "scan_inv ?r t" "procs t = procs s"
    by (auto simp: returns_iff)
  show ?thesis
  proof (cases ?r)
    case None
    then show ?thesis using t fcfs_fold [of NPROC "procs s"] by (simp add: fcfs_pass_def scan_inv_def)
  next
    case (Some p)
    then have "p < NPROC" "p_state (procs s p) = RUNNABLE" "\<forall>q<NPROC. p_state (procs s q) = RUNNABLE \<longrightarrow> fcfs_le (procs s) p q"
      using fcfs_fold [of NPROC "procs s"] by simp_all
    moreover have "blocks (fcfs_pass s) (\<lambda>t. cpu_proc (mycpu t) = Some p \<and> holding (ProcLock p) t \<and>
        (\<forall>q<NPROC. q \<noteq> p \<longrightarrow> lock_free (ProcLock q) t) \<and> procs t = (procs s)(p := (procs s p)\<lparr>p_state := RUNNING\<rparr>))"
      using t Some by (simp add: fcfs_pass_def scan_inv_def Let_def swtch_def set_cpu_proc_def)
    ultimately show ?thesis by auto
  qed
qed

text \<open>
  \<open>kill(pid)\<close>. If some slot has this pid, the first one is marked killed, is made runnable if
  it was asleep, and 0 is returned; otherwise -1 is returned and no process changes.
\<close>

theorem kill_correct:
  assumes "cpu_ok s" and "table_unlocked s"
  shows "returns (kill pid s) (\<lambda>r t.
     case find (\<lambda>p. p_pid (procs s p) = pid) [0..<NPROC] of
       None \<Rightarrow> r = -1 \<and> procs t = procs s
     | Some p \<Rightarrow> r = 0 \<and> p_killed (procs t p) = 1 \<and>
         p_state (procs t p) = (if p_state (procs s p) = SLEEPING then RUNNABLE else p_state (procs s p)) \<and>
         (\<forall>q. q \<noteq> p \<longrightarrow> procs t q = procs s q))"
  using kill_scan [OF assms(1), of "[0..<NPROC]" pid] assms(2)
  by (simp add: kill_def split: option.splits)

subsection \<open>Witnesses\<close>

text \<open>A machine at rest with two runnable processes (slots 1 and 2, created at ticks 7 and 3), one that
  sleeps (slot 3) and no other; slot 1 waits in queue 2 since tick 5, slot 2 in queue 1 since tick 90.\<close>

definition blank_proc :: proc where
  "blank_proc = \<lparr>p_state = UNUSED, p_chan = ChanNull, p_killed = 0, p_xstate = 0, p_pid = 0, p_parent = None,
     p_kstack = 0, p_sz = 0, p_pagetable = 0, p_trapframe = 0,
     p_context = \<lparr>ctx_ra = 0, ctx_sp = 0, ctx_s = (\<lambda>_. 0)\<rparr>, p_ofile = (\<lambda>_. None), p_cwd = None, p_name = '''',
     p_rtime = 0, p_ctime = 0, p_etime = 0, sigalarm_running = False, sigalarm_nticks = 0, sigalarm_handler = 0,
     ticks_elapsed = 0, trap_backup = 0, mlfq_data = mlfq_zero\<rparr>"

definition demo_table :: "nat \<Rightarrow> proc" where
  "demo_table = (\<lambda>_. blank_proc)(
     1 := blank_proc\<lparr>p_state := RUNNABLE, p_pid := 1, p_ctime := 7, mlfq_data := queued 2 5\<rparr>,
     2 := blank_proc\<lparr>p_state := RUNNABLE, p_pid := 2, p_ctime := 3, mlfq_data := queued 1 90\<rparr>,
     3 := blank_proc\<lparr>p_state := SLEEPING, p_pid := 3, p_ctime := 9, p_chan := ChanTicks\<rparr>)"

definition kproc0 :: kproc where
  "kproc0 = \<lparr>tp = 0, sstatus = (\<lambda>_. 0), cpus = (\<lambda>_. \<lparr>cpu_proc = None, noff = 0, intena = False\<rparr>),
     spin = (\<lambda>_. \<lparr>locked = 0, lk_name = [], lk_cpu = None\<rparr>),
     pmem = (\<lambda>_. 0), freelist = 0x80100000, kend = 0x80100000,
     kernel_pagetable = 0, satp = (\<lambda>_. 0), sym_trampoline = 0x80007000, sym_etext = 0x80008000,
     procs = demo_table, initproc = Some 1, nextpid = 4, ticks = 100, policy = MLFQ, sym_forkret = 0x80001234\<rparr>"

lemma kproc0_ok [simp]:
  "cpu_ok kproc0" "lock_free lk kproc0" "noff (mycpu kproc0) = 0" "procs kproc0 = demo_table"
  "ticks kproc0 = 100" "cpu_proc (mycpu kproc0) = None"
  by (simp_all add: kproc0_def lock_free_def cpu_ok_def mycpu_def cpuid_def)

lemma demo_states:
  "p_state (demo_table p) = RUNNABLE \<longleftrightarrow> p = 1 \<or> p = 2"
  "p_state (demo_table p) = SLEEPING \<longleftrightarrow> p = 3"
  by (simp_all add: demo_table_def blank_proc_def)

theorem wakeup_correct_witness:
  "returns (wakeup ChanTicks kproc0) (\<lambda>_ t. p_state (procs t 3) = RUNNABLE \<and> procs t 1 = procs kproc0 1)"
  using wakeup_correct [of kproc0 ChanTicks] by (simp add: demo_table_def blank_proc_def)

theorem sleep_wakeup_witness:
  "\<exists>t k. sleep ChanTicks TicksLock (acq TicksLock (set_cpu_proc (Some 1) kproc0)) = Block t k \<and> lock_free TicksLock t \<and>
     p_state (procs t 1) = SLEEPING \<and> p_chan (procs t 1) = ChanTicks"
  using sleep_wakeup [of "acq TicksLock (set_cpu_proc (Some 1) kproc0)" 1 TicksLock ChanTicks]
  by (auto simp: set_cpu_proc_def)

theorem kill_correct_witness:
  "returns (kill 3 kproc0) (\<lambda>r t. r = 0 \<and> p_killed (procs t 3) = 1 \<and> p_state (procs t 3) = RUNNABLE)"
proof -
  have "find (\<lambda>p. p_pid (procs kproc0 p) = 3) [0..<NPROC] = Some 3"
    by (simp add: demo_table_def blank_proc_def upt_conv_Cons)
  then show ?thesis using kill_correct [of kproc0 3] by (auto simp: demo_states elim!: returns_mono)
qed

lemma demo_runnable: "\<not> (\<forall>p<NPROC. p_state (procs kproc0 p) \<noteq> RUNNABLE)"
  by (auto simp: demo_states intro: exI [of _ 1])

theorem mlfq_schedules_best_witness:
  "blocks (mlfq_pass kproc0) (\<lambda>t. cpu_proc (mycpu t) = Some 2)"
proof -
  have le: "\<not> mlfq_le (aged kproc0) 1 2"
    by (simp add: mlfq_le_def aged_def age_eff_def Let_def demo_table_def blank_proc_def)
  have "\<forall>p<NPROC. p_state (procs kproc0 p) = RUNNABLE \<longrightarrow> curr_pri (mlfq_data (procs kproc0 p)) \<in> {0..3}"
    by (simp add: demo_states) (simp add: demo_table_def)
  then obtain p where p: "p_state (procs kproc0 p) = RUNNABLE"
    "\<forall>q<NPROC. p_state (procs kproc0 q) = RUNNABLE \<longrightarrow> mlfq_le (aged kproc0) p q"
    "blocks (mlfq_pass kproc0) (\<lambda>t. cpu_proc (mycpu t) = Some p \<and> holding (ProcLock p) t \<and>
         procs t = (aged kproc0)(p := (aged kproc0 p)\<lparr>p_state := RUNNING\<rparr>))"
    using mlfq_schedules_best [of kproc0] demo_runnable unfolding if_not_P [OF demo_runnable] by auto
  then have "p = 2" using le spec [OF p(2), of 2] by (auto simp: demo_states)
  with p(3) show ?thesis by (auto elim: blocks_mono)
qed

theorem fcfs_schedules_oldest_witness:
  "blocks (fcfs_pass kproc0) (\<lambda>t. cpu_proc (mycpu t) = Some 2)"
proof -
  have le: "\<not> fcfs_le (procs kproc0) 1 2" by (simp add: fcfs_le_def demo_table_def blank_proc_def)
  obtain p where p: "p_state (procs kproc0 p) = RUNNABLE"
    "\<forall>q<NPROC. p_state (procs kproc0 q) = RUNNABLE \<longrightarrow> fcfs_le (procs kproc0) p q"
    "blocks (fcfs_pass kproc0) (\<lambda>t. cpu_proc (mycpu t) = Some p \<and> holding (ProcLock p) t \<and>
         (\<forall>q<NPROC. q \<noteq> p \<longrightarrow> lock_free (ProcLock q) t) \<and>
         procs t = (procs kproc0)(p := (procs kproc0 p)\<lparr>p_state := RUNNING\<rparr>))"
    using fcfs_schedules_oldest [of kproc0] unfolding if_not_P [OF demo_runnable] by auto
  then have "p = 2" using le spec [OF p(2), of 2] by (auto simp: demo_states)
  with p(3) show ?thesis by (auto elim: blocks_mono)
qed

end
