(* ===== verification/Sleep_Conc.thy ===== *)
theory Sleep_Conc
  imports Proc
begin

text \<open>
  \<open>sleep\<close>, \<open>wakeup\<close> and \<open>kill\<close> of \<open>kernel/proc.c\<close> with any interleaving of the threads of all processes. In the other theories a function runs to its end once it has its locks, so
  that the order in which \<open>sleep\<close> takes the lock of the process and gives up the lock of the condition is not visible; here every statement between two lock operations is a step, in the order
  of the source. Acquiring and releasing a lock is one step, which \<open>Spinlock_Conc\<close> justifies.
\<close>

subsection \<open>The state and the steps\<close>

text \<open>Where a thread is. \<open>Out\<close>: it holds none of the locks. \<open>Hold c\<close>: between \<open>acquire\<close> and \<open>release\<close> of the lock of \<open>c\<close>. The program
  counters of \<open>sleep(c, lk)\<close>: before \<open>acquire(&p->lock)\<close>, before \<open>release(lk)\<close>, before \<open>p->chan = chan\<close>, before \<open>p->state = SLEEPING\<close>,
  before \<open>sched()\<close>, switched out, before \<open>p->chan = 0\<close>, before \<open>release(&p->lock)\<close>, before \<open>acquire(lk)\<close>. Those of \<open>wakeup(c)\<close> at entry \<open>j\<close> of
  the table: before \<open>acquire(&p->lock)\<close>, before the test of \<open>p->state\<close> and \<open>p->chan\<close>, before \<open>release(&p->lock)\<close>. Those of \<open>kill\<close> at entry \<open>j\<close>:
  before the test of \<open>p->state\<close> and before \<open>release(&p->lock)\<close>.\<close>

datatype spc = Out | Hold chan
  | SlAcq chan | SlRel chan | SlChan chan | SlState chan | SlSched chan | Off chan | SlTidy chan | SlUnlock chan | SlRelock chan
  | Wake chan nat | WkTest chan nat | WkRel chan nat
  | KlTest nat | KlRel nat

text \<open>\<open>guard c\<close> is the holder of the lock \<open>lk\<close> that protects the condition of channel \<open>c\<close>, \<open>plock p\<close> that of the lock of process \<open>p\<close>;
  \<open>pst\<close> and \<open>pch\<close> are the fields \<open>state\<close> and \<open>chan\<close> of the processes, and \<open>cond c\<close> says that what sleepers on \<open>c\<close> wait for has
  happened. Threads below \<open>NPROC\<close> are those of the processes, the others the harts when they run no process.\<close>

record sworld =
  guard :: "chan \<Rightarrow> nat option"
  plock :: "nat \<Rightarrow> nat option"
  pst :: "nat \<Rightarrow> procstate"
  pch :: "nat \<Rightarrow> chan"
  cond :: "chan \<Rightarrow> bool"
  at :: "nat \<Rightarrow> spc"

definition goes :: "nat \<Rightarrow> spc \<Rightarrow> sworld \<Rightarrow> sworld" where
  "goes a pc s = s\<lparr>at := (at s)(a := pc)\<rparr>"

text \<open>\<open>sstep a s t\<close>: thread \<open>a\<close> makes one step. A client of \<open>sleep\<close> and \<open>wakeup\<close> works on the condition under its lock: it sleeps only
  while the condition is false, in a loop that tests it again, and calls \<open>wakeup\<close> before it releases the lock when it has made the condition true.\<close>

inductive sstep :: "nat \<Rightarrow> sworld \<Rightarrow> sworld \<Rightarrow> bool" where
  enter: "at s a = Out \<Longrightarrow> guard s c = None \<Longrightarrow> sstep a s (goes a (Hold c) (s\<lparr>guard := (guard s)(c := Some a)\<rparr>))"
| leave: "at s a = Hold c \<Longrightarrow> sstep a s (goes a Out (s\<lparr>guard := (guard s)(c := None)\<rparr>))"
| consume: "at s a = Hold c \<Longrightarrow> sstep a s (s\<lparr>cond := (cond s)(c := False)\<rparr>)"
| provide: "at s a = Hold c \<Longrightarrow> sstep a s (goes a (Wake c 0) (s\<lparr>cond := (cond s)(c := True)\<rparr>))"
| call_wakeup: "at s a = Hold c \<Longrightarrow> sstep a s (goes a (Wake c 0) s)"
| call_sleep: "at s a = Hold c \<Longrightarrow> \<not> cond s c \<Longrightarrow> a < NPROC \<Longrightarrow> sstep a s (goes a (SlAcq c) s)"
| sleep_acquire: "at s a = SlAcq c \<Longrightarrow> plock s a = None \<Longrightarrow> sstep a s (goes a (SlRel c) (s\<lparr>plock := (plock s)(a := Some a)\<rparr>))"
| sleep_release: "at s a = SlRel c \<Longrightarrow> sstep a s (goes a (SlChan c) (s\<lparr>guard := (guard s)(c := None)\<rparr>))"
| sleep_chan: "at s a = SlChan c \<Longrightarrow> sstep a s (goes a (SlState c) (s\<lparr>pch := (pch s)(a := c)\<rparr>))"
| sleep_state: "at s a = SlState c \<Longrightarrow> sstep a s (goes a (SlSched c) (s\<lparr>pst := (pst s)(a := SLEEPING)\<rparr>))"
| sleep_sched: "at s a = SlSched c \<Longrightarrow> sstep a s (goes a (Off c) (s\<lparr>plock := (plock s)(a := None)\<rparr>))"
| resume: "at s a = Off c \<Longrightarrow> plock s a = None \<Longrightarrow> pst s a = RUNNABLE \<Longrightarrow>
    sstep a s (goes a (SlTidy c) (s\<lparr>plock := (plock s)(a := Some a), pst := (pst s)(a := RUNNING)\<rparr>))"
| sleep_tidy: "at s a = SlTidy c \<Longrightarrow> sstep a s (goes a (SlUnlock c) (s\<lparr>pch := (pch s)(a := ChanNull)\<rparr>))"
| sleep_unlock: "at s a = SlUnlock c \<Longrightarrow> sstep a s (goes a (SlRelock c) (s\<lparr>plock := (plock s)(a := None)\<rparr>))"
| sleep_relock: "at s a = SlRelock c \<Longrightarrow> guard s c = None \<Longrightarrow> sstep a s (goes a (Hold c) (s\<lparr>guard := (guard s)(c := Some a)\<rparr>))"
| wakeup_self: "at s a = Wake c a \<Longrightarrow> a < NPROC \<Longrightarrow> sstep a s (goes a (Wake c (Suc a)) s)"
| wakeup_acquire: "at s a = Wake c j \<Longrightarrow> j < NPROC \<Longrightarrow> j \<noteq> a \<Longrightarrow> plock s j = None \<Longrightarrow>
    sstep a s (goes a (WkTest c j) (s\<lparr>plock := (plock s)(j := Some a)\<rparr>))"
| wakeup_test: "at s a = WkTest c j \<Longrightarrow> sstep a s (goes a (WkRel c j)
    (s\<lparr>pst := (pst s)(j := if pst s j = SLEEPING \<and> pch s j = c then RUNNABLE else pst s j)\<rparr>))"
| wakeup_release: "at s a = WkRel c j \<Longrightarrow> sstep a s (goes a (Wake c (Suc j)) (s\<lparr>plock := (plock s)(j := None)\<rparr>))"
| wakeup_return: "at s a = Wake c NPROC \<Longrightarrow> sstep a s (goes a (Hold c) s)"
| kill_acquire: "at s a = Out \<Longrightarrow> j < NPROC \<Longrightarrow> plock s j = None \<Longrightarrow> sstep a s (goes a (KlTest j) (s\<lparr>plock := (plock s)(j := Some a)\<rparr>))"
| kill_test: "at s a = KlTest j \<Longrightarrow> sstep a s (goes a (KlRel j)
    (s\<lparr>pst := (pst s)(j := if pst s j = SLEEPING then RUNNABLE else pst s j)\<rparr>))"
| kill_skip: "at s a = KlTest j \<Longrightarrow> sstep a s (goes a (KlRel j) s)"
| kill_release: "at s a = KlRel j \<Longrightarrow> sstep a s (goes a Out (s\<lparr>plock := (plock s)(j := None)\<rparr>))"

text \<open>Nobody is in the kernel and nobody sleeps; then any interleaving of the threads.\<close>

definition sinit :: "sworld \<Rightarrow> bool" where
  "sinit s \<longleftrightarrow> (\<forall>c. guard s c = None) \<and> (\<forall>p. plock s p = None \<and> pst s p \<noteq> SLEEPING \<and> at s p = Out)"

inductive sreach :: "sworld \<Rightarrow> bool" where
  start: "sinit s \<Longrightarrow> sreach s"
| step: "sreach s \<Longrightarrow> sstep a s t \<Longrightarrow> sreach t"

subsection \<open>Invariants\<close>

text \<open>The locks a thread holds follow from where it is.\<close>

fun guard_at :: "spc \<Rightarrow> chan option" where
  "guard_at (Hold c) = Some c"
| "guard_at (SlAcq c) = Some c"
| "guard_at (SlRel c) = Some c"
| "guard_at (Wake c j) = Some c"
| "guard_at (WkTest c j) = Some c"
| "guard_at (WkRel c j) = Some c"
| "guard_at _ = None"

fun plock_at :: "nat \<Rightarrow> spc \<Rightarrow> nat option" where
  "plock_at a (SlRel c) = Some a"
| "plock_at a (SlChan c) = Some a"
| "plock_at a (SlState c) = Some a"
| "plock_at a (SlSched c) = Some a"
| "plock_at a (SlTidy c) = Some a"
| "plock_at a (SlUnlock c) = Some a"
| "plock_at a (WkTest c j) = Some j"
| "plock_at a (WkRel c j) = Some j"
| "plock_at a (KlTest j) = Some j"
| "plock_at a (KlRel j) = Some j"
| "plock_at a _ = None"

definition guards_ok :: "sworld \<Rightarrow> bool" where
  "guards_ok s \<longleftrightarrow> (\<forall>c a. guard s c = Some a \<longleftrightarrow> guard_at (at s a) = Some c)"

definition plocks_ok :: "sworld \<Rightarrow> bool" where
  "plocks_ok s \<longleftrightarrow> (\<forall>j a. plock s j = Some a \<longleftrightarrow> plock_at a (at s a) = Some j)"

text \<open>A process is in state \<open>SLEEPING\<close> only between setting it and being picked up again, and then its channel is that of the call.\<close>

definition asleep_ok :: "sworld \<Rightarrow> bool" where
  "asleep_ok s \<longleftrightarrow> (\<forall>q. (pst s q = SLEEPING \<longrightarrow> (\<exists>c. at s q = SlSched c \<or> at s q = Off c)) \<and>
     (\<forall>c. at s q = SlState c \<or> at s q = SlSched c \<or> at s q = Off c \<longrightarrow> pch s q = c) \<and>
     (\<forall>c. at s q = SlAcq c \<or> at s q = SlRel c \<or> at s q = SlChan c \<or> at s q = SlState c \<or> at s q = SlSched c \<or> at s q = Off c \<longrightarrow> q < NPROC))"

text \<open>A process that cannot avoid sleeping any more, and a call of \<open>wakeup\<close> that has not passed it.\<close>

definition committed :: "sworld \<Rightarrow> chan \<Rightarrow> nat \<Rightarrow> bool" where
  "committed s c q \<longleftrightarrow> at s q = SlChan c \<or> at s q = SlState c \<or> at s q = SlSched c \<or> (at s q = Off c \<and> pst s q = SLEEPING)"

definition coming :: "chan \<Rightarrow> nat \<Rightarrow> spc \<Rightarrow> bool" where
  "coming c q pc \<longleftrightarrow> (\<exists>j. (pc = Wake c j \<or> pc = WkTest c j) \<and> j \<le> q \<or> pc = WkRel c j \<and> j < q)"

definition wakeups_ok :: "sworld \<Rightarrow> bool" where
  "wakeups_ok s \<longleftrightarrow> (\<forall>c q. (at s q = SlAcq c \<or> at s q = SlRel c \<longrightarrow> \<not> cond s c) \<and>
     (cond s c \<and> committed s c q \<longrightarrow> (\<exists>w. coming c q (at s w))))"

lemma guards_step: "sstep a s t \<Longrightarrow> guards_ok s \<Longrightarrow> guards_ok t"
  by (erule sstep.cases) (auto simp: guards_ok_def goes_def, (metis guard_at.simps option.distinct(1) option.inject)+)

lemma plocks_step: "sstep a s t \<Longrightarrow> plocks_ok s \<Longrightarrow> plocks_ok t"
  by (erule sstep.cases) (auto simp: plocks_ok_def goes_def, (metis plock_at.simps option.distinct(1) option.inject)+)

lemma asleep_step: "sstep a s t \<Longrightarrow> plocks_ok s \<Longrightarrow> asleep_ok s \<Longrightarrow> asleep_ok t"
  by (erule sstep.cases) (auto simp: asleep_ok_def goes_def)

lemma other_at: "sstep a s t \<Longrightarrow> w \<noteq> a \<Longrightarrow> at t w = at s w"
  by (erule sstep.cases) (auto simp: goes_def)

text \<open>What a step does to the condition and to the set of committed sleepers.\<close>

lemma cond_step: "sstep a s t \<Longrightarrow> cond t c \<Longrightarrow> cond s c \<or> at t a = Wake c 0"
  by (erule sstep.cases) (auto simp: goes_def split: if_splits)

lemma committed_step: "sstep a s t \<Longrightarrow> committed t c q \<Longrightarrow> asleep_ok s \<Longrightarrow> committed s c q \<or> at s q = SlRel c"
  by (erule sstep.cases) (auto simp: goes_def committed_def split: if_splits)

lemma committed_lock: "committed s c q \<Longrightarrow> plocks_ok s \<Longrightarrow> at s q = Off c \<and> pst s q = SLEEPING \<or> plock s q = Some q"
  by (auto simp: committed_def plocks_ok_def)

text \<open>The thread that is going to wake \<open>q\<close> does not get past it without waking it.\<close>

lemma coming_step:
  assumes st: "sstep a s t" and I: "plocks_ok s" "asleep_ok s" and co: "coming c q (at s a)" "committed s c q" "committed t c q"
  shows "coming c q (at t a)"
proof -
  have q: "q < NPROC" "q \<noteq> a" using I(2) co(1,2) by (auto simp: asleep_ok_def committed_def coming_def)
  have W: "at s q = Off c \<and> pst s q = SLEEPING \<and> pch s q = c" if "at s a = WkTest c q"
  proof -
    have "plock s q = Some a" using that I(1) by (simp add: plocks_ok_def)
    then show ?thesis using committed_lock [OF co(2) I(1)] I(2) q(2) by (simp add: asleep_ok_def)
  qed
  show ?thesis using st co(1,3) q W
    by cases (auto simp: coming_def goes_def committed_def le_less Suc_le_eq)
qed

lemma wakeups_step:
  assumes st: "sstep a s t" and I: "guards_ok s" "plocks_ok s" "asleep_ok s" "wakeups_ok s"
  shows "wakeups_ok t"
  unfolding wakeups_ok_def
proof (intro allI conjI impI)
  fix c q
  show "\<not> cond t c" if "at t q = SlAcq c \<or> at t q = SlRel c"
    using st that I(1,4) by cases (auto simp: goes_def wakeups_ok_def guards_ok_def split: if_splits, (metis guard_at.simps option.inject)+)
  assume "cond t c \<and> committed t c q"
  then have c: "cond t c" "committed t c q" by simp_all
  show "\<exists>w. coming c q (at t w)"
  proof (cases "at t a = Wake c 0")
    case True
    then show ?thesis by (auto simp: coming_def)
  next
    case False
    then have cs: "cond s c" using cond_step [OF st c(1)] by simp
    then have co: "committed s c q" using committed_step [OF st c(2) I(3)] I(4) by (auto simp: wakeups_ok_def)
    then obtain w where w: "coming c q (at s w)" using cs I(4) by (auto simp: wakeups_ok_def)
    show ?thesis
    proof (cases "w = a")
      case True
      then show ?thesis using coming_step [OF st I(2,3) _ co c(2)] w by blast
    next
      case False
      then show ?thesis using other_at [OF st] w by metis
    qed
  qed
qed

definition sinv :: "sworld \<Rightarrow> bool" where
  "sinv s \<longleftrightarrow> guards_ok s \<and> plocks_ok s \<and> asleep_ok s \<and> wakeups_ok s"

lemma sreach_sinv: "sreach s \<Longrightarrow> sinv s"
proof (induction rule: sreach.induct)
  case (start s)
  then show ?case by (auto simp: sinit_def sinv_def guards_ok_def plocks_ok_def asleep_ok_def wakeups_ok_def committed_def)
next
  case (step s a t)
  then show ?case unfolding sinv_def using guards_step plocks_step asleep_step wakeups_step by blast
qed

text \<open>A thread that holds the lock of a process can always go on, so a call of \<open>wakeup\<close> waits only for threads that can.\<close>

lemma plock_holder_steps: "plock_at a (at s a) = Some j \<Longrightarrow> \<exists>t. sstep a s t"
  by (cases "at s a") (auto intro: sstep.intros)

lemma wakeup_steps:
  assumes "plocks_ok s" and "coming c q (at s w)" and "q < NPROC"
  shows "\<exists>x t. sstep x s t \<and> (x = w \<or> (\<exists>j. at s w = Wake c j \<and> plock s j = Some x))"
proof (cases "\<exists>j. at s w = Wake c j")
  case False
  then show ?thesis using assms(2) plock_holder_steps [of w s] by (auto simp: coming_def)
next
  case True
  then obtain j where j: "at s w = Wake c j" "j < NPROC" using assms(2,3) by (auto simp: coming_def)
  show ?thesis
  proof (cases "plock s j")
    case None
    then show ?thesis using j sstep.wakeup_self [of s w c] sstep.wakeup_acquire [of s w c j] by (cases "j = w") blast+
  next
    case (Some x)
    then have "plock_at x (at s x) = Some j" using assms(1) by (simp add: plocks_ok_def)
    then show ?thesis using plock_holder_steps j(1) Some by blast
  qed
qed

text \<open>Property C3: no wakeup is lost. In every interleaving of threads that sleep, wake and kill, when the condition of channel \<open>c\<close> holds and a process is
  asleep on \<open>c\<close>, the lock of the condition is held by a thread in \<open>wakeup(c)\<close> whose loop has not passed the process, and that thread, or the one that holds the lock it
  waits for, can make a step. So when nobody holds the lock, nobody sleeps on \<open>c\<close> while its condition holds.\<close>

theorem sleep_no_lost_wakeup:
  assumes "sreach s" and "cond s c" and "pst s q = SLEEPING" and "pch s q = c"
  shows "\<exists>w. guard s c = Some w \<and> coming c q (at s w) \<and>
     (\<exists>x t. sstep x s t \<and> (x = w \<or> (\<exists>j. at s w = Wake c j \<and> plock s j = Some x)))"
proof -
  have I: "guards_ok s" "plocks_ok s" "asleep_ok s" "wakeups_ok s" using sreach_sinv [OF assms(1)] by (simp_all add: sinv_def)
  have c: "committed s c q" "q < NPROC" using I(3) assms(3,4) by (auto simp: asleep_ok_def committed_def)
  then obtain w where w: "coming c q (at s w)" using I(4) assms(2) by (auto simp: wakeups_ok_def)
  moreover have "guard s c = Some w" using I(1) w by (auto simp: guards_ok_def coming_def)
  ultimately show ?thesis using wakeup_steps [OF I(2) w c(2)] by blast
qed

text \<open>Process 0 waits for a tick; the tick comes after it has released the lock and before it is asleep.\<close>

definition sworld0 :: sworld where
  "sworld0 = \<lparr>guard = (\<lambda>_. None), plock = (\<lambda>_. None), pst = (\<lambda>_. RUNNING), pch = (\<lambda>_. ChanNull), cond = (\<lambda>_. False), at = (\<lambda>_. Out)\<rparr>"

definition sworld1 :: sworld where
  "sworld1 = sworld0\<lparr>guard := (guard sworld0)(ChanTicks := Some 1), plock := (plock sworld0)(0 := Some 0), pst := (pst sworld0)(0 := SLEEPING),
     pch := (pch sworld0)(0 := ChanTicks), cond := (cond sworld0)(ChanTicks := True), at := (at sworld0)(0 := SlSched ChanTicks, 1 := Wake ChanTicks 0)\<rparr>"

lemma sreach_sworld1: "sreach sworld1"
proof -
  let ?c = ChanTicks
  have "sreach sworld0" by (rule sreach.start) (simp add: sinit_def sworld0_def)
  note sreach.step [OF this sstep.enter [of _ 0 ?c]]
  then have "sreach (sworld0\<lparr>guard := (\<lambda>_. None)(?c := Some 0), at := (\<lambda>_. Out)(0 := Hold ?c)\<rparr>)" by (simp add: goes_def sworld0_def)
  from sreach.step [OF this sstep.call_sleep [of _ 0 ?c]]
  have "sreach (sworld0\<lparr>guard := (\<lambda>_. None)(?c := Some 0), at := (\<lambda>_. Out)(0 := SlAcq ?c)\<rparr>)" by (simp add: goes_def sworld0_def)
  from sreach.step [OF this sstep.sleep_acquire [of _ 0 ?c]]
  have "sreach (sworld0\<lparr>guard := (\<lambda>_. None)(?c := Some 0), plock := (\<lambda>_. None)(0 := Some 0), at := (\<lambda>_. Out)(0 := SlRel ?c)\<rparr>)"
    by (simp add: goes_def sworld0_def)
  from sreach.step [OF this sstep.sleep_release [of _ 0 ?c]]
  have "sreach (sworld0\<lparr>plock := (\<lambda>_. None)(0 := Some 0), at := (\<lambda>_. Out)(0 := SlChan ?c)\<rparr>)" by (simp add: goes_def sworld0_def)
  from sreach.step [OF this sstep.enter [of _ 1 ?c]]
  have "sreach (sworld0\<lparr>guard := (\<lambda>_. None)(?c := Some 1), plock := (\<lambda>_. None)(0 := Some 0), at := (\<lambda>_. Out)(0 := SlChan ?c, 1 := Hold ?c)\<rparr>)"
    by (simp add: goes_def sworld0_def)
  from sreach.step [OF this sstep.provide [of _ 1 ?c]]
  have "sreach (sworld0\<lparr>guard := (\<lambda>_. None)(?c := Some 1), plock := (\<lambda>_. None)(0 := Some 0), cond := (\<lambda>_. False)(?c := True),
      at := (\<lambda>_. Out)(0 := SlChan ?c, 1 := Wake ?c 0)\<rparr>)"
    by (simp add: goes_def sworld0_def)
  from sreach.step [OF this sstep.sleep_chan [of _ 0 ?c]]
  have "sreach (sworld0\<lparr>guard := (\<lambda>_. None)(?c := Some 1), plock := (\<lambda>_. None)(0 := Some 0), pch := (\<lambda>_. ChanNull)(0 := ?c), cond := (\<lambda>_. False)(?c := True),
      at := (\<lambda>_. Out)(0 := SlState ?c, 1 := Wake ?c 0)\<rparr>)"
    by (simp add: goes_def sworld0_def fun_upd_twist)
  from sreach.step [OF this sstep.sleep_state [of _ 0 ?c]] show ?thesis
    by (simp add: goes_def sworld0_def sworld1_def fun_upd_twist)
qed

theorem sleep_no_lost_wakeup_witness:
  "sreach sworld1 \<and> cond sworld1 ChanTicks \<and> pst sworld1 0 = SLEEPING \<and> guard sworld1 ChanTicks = Some 1 \<and> coming ChanTicks 0 (at sworld1 1)"
proof -
  have "cond sworld1 ChanTicks" "pst sworld1 0 = SLEEPING" "pch sworld1 0 = ChanTicks" "guard sworld1 ChanTicks = Some 1" by (simp_all add: sworld1_def)
  then show ?thesis using sleep_no_lost_wakeup [OF sreach_sworld1, of ChanTicks 0] sreach_sworld1 by auto
qed

end
