(* ===== verification/Start.thy ===== *)
theory Start
  imports Kalloc
begin

text \<open>
  \<open>kernel/start.c\<close>, the machine-mode registers of \<open>kernel/riscv.h\<close> and the machine-mode assembly: \<open>entry.S\<close> and \<open>timervec\<close> of
  \<open>kernelvec.S\<close>. A hart is a record of its registers and of memory, in which the registers of the CLINT are words; what the instructions
  \<open>mret\<close> and \<open>csrrw\<close> and taking an interrupt do is that of the privileged architecture. Addresses the linker chooses are fields that nothing
  changes. The kernel proper, in supervisor mode, is in the other theories.
\<close>

subsection \<open>Registers of a hart\<close>

datatype priv = PrivU | PrivS | PrivM

record hart =
  h_pc :: u64
  h_priv :: priv
  h_a0 :: u64
  h_a1 :: u64
  h_a2 :: u64
  h_a3 :: u64
  h_sp :: u64
  h_tp :: u64
  mhartid :: u64
  mstatus :: u64
  mepc :: u64
  mtvec :: u64
  mscratch :: u64
  medeleg :: u64
  mideleg :: u64
  mideleg_mask :: u64
  mie :: u64
  mip :: u64
  h_satp :: u64
  pmpaddr0 :: u64
  pmpcfg0 :: u64
  boot_mem :: mem
  sym_main :: u64
  sym_timervec :: u64
  sym_timer_scratch :: u64
  sym_stack0 :: u64

abbreviation (input) MSTATUS_MPP_MASK :: u64 where "MSTATUS_MPP_MASK \<equiv> push_bit 11 3"
abbreviation (input) MSTATUS_MPP_S :: u64 where "MSTATUS_MPP_S \<equiv> push_bit 11 1"
abbreviation (input) MSTATUS_MIE :: u64 where "MSTATUS_MIE \<equiv> push_bit 3 1"
abbreviation (input) SIE_SEIE :: u64 where "SIE_SEIE \<equiv> push_bit 9 1"
abbreviation (input) SIE_STIE :: u64 where "SIE_STIE \<equiv> push_bit 5 1"
abbreviation (input) SIE_SSIE :: u64 where "SIE_SSIE \<equiv> push_bit 1 1"
abbreviation (input) MIE_MTIE :: u64 where "MIE_MTIE \<equiv> push_bit 7 1"

definition CLINT :: u64 where
  "CLINT = 0x2000000"

definition CLINT_MTIMECMP :: "u64 \<Rightarrow> u64" where
  "CLINT_MTIMECMP hartid = CLINT + 0x4000 + 8 * hartid"

definition CLINT_MTIME :: u64 where
  "CLINT_MTIME = CLINT + 0xBFF8"

definition r_mhartid :: "hart \<Rightarrow> u64" where
  "r_mhartid h = mhartid h"

definition r_mstatus :: "hart \<Rightarrow> u64" where
  "r_mstatus h = mstatus h"

definition w_mstatus :: "u64 \<Rightarrow> hart \<Rightarrow> hart" where
  "w_mstatus x h = h\<lparr>mstatus := x\<rparr>"

definition w_mepc :: "u64 \<Rightarrow> hart \<Rightarrow> hart" where
  "w_mepc x h = h\<lparr>mepc := x\<rparr>"

definition w_satp :: "u64 \<Rightarrow> hart \<Rightarrow> hart" where
  "w_satp x h = h\<lparr>h_satp := x\<rparr>"

definition w_medeleg :: "u64 \<Rightarrow> hart \<Rightarrow> hart" where
  "w_medeleg x h = h\<lparr>medeleg := x\<rparr>"

text \<open>\<open>mideleg\<close> holds only the bits of interrupts the hart can delegate, and \<open>sie\<close> and \<open>sip\<close> show the delegated bits of \<open>mie\<close> and
  \<open>mip\<close>; bits outside are read as 0 and not written.\<close>

definition w_mideleg :: "u64 \<Rightarrow> hart \<Rightarrow> hart" where
  "w_mideleg x h = h\<lparr>mideleg := x AND mideleg_mask h\<rparr>"

definition r_sie :: "hart \<Rightarrow> u64" where
  "r_sie h = mie h AND mideleg h"

definition w_sie :: "u64 \<Rightarrow> hart \<Rightarrow> hart" where
  "w_sie x h = h\<lparr>mie := (mie h AND NOT (mideleg h)) OR (x AND mideleg h)\<rparr>"

definition r_mie :: "hart \<Rightarrow> u64" where
  "r_mie h = mie h"

definition w_mie :: "u64 \<Rightarrow> hart \<Rightarrow> hart" where
  "w_mie x h = h\<lparr>mie := x\<rparr>"

definition w_pmpaddr0 :: "u64 \<Rightarrow> hart \<Rightarrow> hart" where
  "w_pmpaddr0 x h = h\<lparr>pmpaddr0 := x\<rparr>"

definition w_pmpcfg0 :: "u64 \<Rightarrow> hart \<Rightarrow> hart" where
  "w_pmpcfg0 x h = h\<lparr>pmpcfg0 := x\<rparr>"

definition w_mscratch :: "u64 \<Rightarrow> hart \<Rightarrow> hart" where
  "w_mscratch x h = h\<lparr>mscratch := x\<rparr>"

definition w_mtvec :: "u64 \<Rightarrow> hart \<Rightarrow> hart" where
  "w_mtvec x h = h\<lparr>mtvec := x\<rparr>"

definition w_tp :: "u64 \<Rightarrow> hart \<Rightarrow> hart" where
  "w_tp x h = h\<lparr>h_tp := x\<rparr>"

text \<open>The instruction \<open>mret\<close>: back to the mode in MPP, at \<open>mepc\<close>; MIE becomes MPIE, MPIE 1 and MPP user mode.\<close>

definition mpp :: "u64 \<Rightarrow> priv" where
  "mpp x = (if drop_bit 11 x AND 3 = 3 then PrivM else if drop_bit 11 x AND 3 = 1 then PrivS else PrivU)"

definition mret :: "hart \<Rightarrow> hart" where
  "mret h = h\<lparr>h_priv := mpp (mstatus h), h_pc := mepc h,
     mstatus := (mstatus h AND NOT (MSTATUS_MPP_MASK OR MSTATUS_MIE OR push_bit 7 1)) OR
       (if bit (mstatus h) 7 then MSTATUS_MIE else 0) OR push_bit 7 1\<rparr>"

definition load :: "u64 \<Rightarrow> hart \<Rightarrow> u64" where
  "load a h = load64 (boot_mem h) a"

definition store :: "u64 \<Rightarrow> u64 \<Rightarrow> hart \<Rightarrow> hart" where
  "store a v h = h\<lparr>boot_mem := store64 a v (boot_mem h)\<rparr>"

subsection \<open>start.c\<close>

text \<open>\<open>timer_scratch[id]\<close> has five 8-byte words; \<open>int id\<close> is \<open>mhartid\<close> cut to 32 bits.\<close>

definition scratch_of :: "u64 \<Rightarrow> u64 \<Rightarrow> u64" where
  "scratch_of hid base = base + 40 * hid"

definition timerinit :: "hart \<Rightarrow> hart" where
  "timerinit h =
     (let hid = scast (ucast (r_mhartid h) :: u32);
          interval = 1000000;
          h = store (CLINT_MTIMECMP hid) (load CLINT_MTIME h + interval) h;
          scratch = scratch_of hid (sym_timer_scratch h);
          h = store (scratch + 24) (CLINT_MTIMECMP hid) h;
          h = store (scratch + 32) interval h;
          h = w_mscratch scratch h;
          h = w_mtvec (sym_timervec h) h;
          h = w_mstatus (r_mstatus h OR MSTATUS_MIE) h
      in w_mie (r_mie h OR MIE_MTIE) h)"

definition start :: "hart \<Rightarrow> hart" where
  "start h =
     (let x = r_mstatus h;
          x = x AND NOT MSTATUS_MPP_MASK;
          x = x OR MSTATUS_MPP_S;
          h = w_mstatus x h;
          h = w_mepc (sym_main h) h;
          h = w_satp 0 h;
          h = w_medeleg 0xffff h;
          h = w_mideleg 0xffff h;
          h = w_sie (r_sie h OR SIE_SEIE OR SIE_STIE OR SIE_SSIE) h;
          h = w_pmpaddr0 0x3fffffffffffff h;
          h = w_pmpcfg0 0xf h;
          h = timerinit h;
          hid = scast (ucast (r_mhartid h) :: u32);
          h = w_tp hid h
      in mret h)"

text \<open>\<open>entry.S\<close> gives each hart its stack and calls \<open>start\<close>.\<close>

definition entry :: "hart \<Rightarrow> hart" where
  "entry h = start (h\<lparr>h_sp := sym_stack0 h + 4096 * (mhartid h + 1)\<rparr>)"

text \<open>\<open>timervec\<close> of \<open>kernelvec.S\<close>, instruction by instruction; \<open>csrrw\<close> swaps \<open>a0\<close> and \<open>mscratch\<close>. A write of \<open>sip\<close> sets the
  software interrupt bit of \<open>mip\<close>, if it is delegated; the timer and external interrupt bits of \<open>sip\<close> are read-only.\<close>

definition w_sip_m :: "u64 \<Rightarrow> hart \<Rightarrow> hart" where
  "w_sip_m x h = h\<lparr>mip := (mip h AND NOT (mideleg h AND 2)) OR (x AND mideleg h AND 2)\<rparr>"

definition timervec_save :: "hart \<Rightarrow> hart" where
  "timervec_save h =
     (let h = h\<lparr>h_a0 := mscratch h, mscratch := h_a0 h\<rparr>;
          h = store (h_a0 h) (h_a1 h) h;
          h = store (h_a0 h + 8) (h_a2 h) h
      in store (h_a0 h + 16) (h_a3 h) h)"

definition timervec_next :: "hart \<Rightarrow> hart" where
  "timervec_next h =
     (let h = h\<lparr>h_a1 := load (h_a0 h + 24) h\<rparr>;
          h = h\<lparr>h_a2 := load (h_a0 h + 32) h\<rparr>;
          h = h\<lparr>h_a3 := load (h_a1 h) h\<rparr>;
          h = h\<lparr>h_a3 := h_a3 h + h_a2 h\<rparr>
      in store (h_a1 h) (h_a3 h) h)"

definition timervec_restore :: "hart \<Rightarrow> hart" where
  "timervec_restore h =
     (let h = h\<lparr>h_a3 := load (h_a0 h + 16) h\<rparr>;
          h = h\<lparr>h_a2 := load (h_a0 h + 8) h\<rparr>;
          h = h\<lparr>h_a1 := load (h_a0 h) h\<rparr>
      in h\<lparr>h_a0 := mscratch h, mscratch := h_a0 h\<rparr>)"

definition timervec :: "hart \<Rightarrow> hart" where
  "timervec h =
     (let h = timervec_next (timervec_save h);
          h = h\<lparr>h_a1 := 2\<rparr>;
          h = w_sip_m (h_a1 h) h
      in mret (timervec_restore h))"

text \<open>A machine timer interrupt is taken when it is enabled and not delegated, and always below machine mode; taking it saves the
  program counter and the mode.\<close>

definition takes_timer :: "hart \<Rightarrow> bool" where
  "takes_timer h \<longleftrightarrow> bit (mie h) 7 \<and> \<not> bit (mideleg h) 7 \<and> (h_priv h \<noteq> PrivM \<or> bit (mstatus h) 3) \<and> load (CLINT_MTIMECMP (mhartid h)) h \<le> load CLINT_MTIME h"

definition trap_timer :: "hart \<Rightarrow> hart" where
  "trap_timer h = h\<lparr>mepc := h_pc h, h_pc := mtvec h, h_priv := PrivM,
     mstatus := (mstatus h AND NOT (MSTATUS_MPP_MASK OR MSTATUS_MIE OR push_bit 7 1)) OR
       (case h_priv h of PrivU \<Rightarrow> 0 | PrivS \<Rightarrow> MSTATUS_MPP_S | PrivM \<Rightarrow> MSTATUS_MPP_MASK) OR (if bit (mstatus h) 3 then push_bit 7 1 else 0)\<rparr>"

subsection \<open>Properties\<close>

lemmas csr_defs = r_mhartid_def r_mstatus_def w_mstatus_def w_mepc_def w_satp_def w_medeleg_def w_mideleg_def r_sie_def w_sie_def r_mie_def w_mie_def
  w_pmpaddr0_def w_pmpcfg0_def w_mscratch_def w_mtvec_def w_tp_def w_sip_m_def

lemma load_store [simp]: "load a (store a v h) = v"
  by (simp add: load_def store_def)

lemma load_store_other: "8 \<le> unat (b - a) \<Longrightarrow> 8 \<le> unat (a - b) \<Longrightarrow> load b (store a v h) = load b h"
  by (simp add: load_def store_def load64_store64_other)

lemma unat_minus_wrap: "unat a < unat b \<Longrightarrow> unat (a - b) = 2 ^ 64 - (unat b - unat a)" for a b :: u64
  by (simp add: unat_sub_if_size word_size)

text \<open>Addresses that are far apart.\<close>

lemma load_store_below:
  assumes "unat a + 8 \<le> unat b" and "unat b + 8 \<le> 2 ^ 64"
  shows "load b (store a v h) = load b h" and "load a (store b v h) = load a h"
proof -
  have "unat (b - a) = unat b - unat a" using assms by (simp add: unat_sub word_le_nat_alt)
  moreover have "unat (a - b) = 2 ^ 64 - (unat b - unat a)" using assms by (intro unat_minus_wrap) simp
  ultimately have "8 \<le> unat (b - a)" "8 \<le> unat (a - b)" using assms by simp_all
  then show "load b (store a v h) = load b h" "load a (store b v h) = load a h" by (simp_all add: load_store_other)
qed

text \<open>A hart of the board: one of eight, with the scratch areas in RAM, which can delegate the supervisor interrupts but not the machine
  timer interrupt.\<close>

definition board :: "hart \<Rightarrow> bool" where
  "board h \<longleftrightarrow> unat (mhartid h) < NCPU \<and> unat KERNBASE \<le> unat (sym_timer_scratch h) \<and> unat (sym_timer_scratch h) + 40 * NCPU \<le> unat PHYSTOP \<and>
     bit (mideleg_mask h) 1 \<and> bit (mideleg_mask h) 5 \<and> bit (mideleg_mask h) 9 \<and> \<not> bit (mideleg_mask h) 7"

lemma hid:
  assumes "unat x < NCPU"
  shows "scast (ucast (x :: u64) :: u32) = x"
proof -
  have "x = of_nat (unat x)" by simp
  moreover have "scast (ucast (of_nat n :: u64) :: u32) = (of_nat n :: u64)" if "n < 8" for n
  proof -
    have "n = 0 \<or> n = 1 \<or> n = 2 \<or> n = 3 \<or> n = 4 \<or> n = 5 \<or> n = 6 \<or> n = 7" using that by linarith
    then show ?thesis by (elim disjE) simp_all
  qed
  ultimately show ?thesis using assms by metis
qed

lemma places:
  assumes "board h"
  shows "unat (scratch_of (mhartid h) (sym_timer_scratch h)) = unat (sym_timer_scratch h) + 40 * unat (mhartid h)"
    and "unat (CLINT_MTIMECMP (mhartid h)) = 0x2004000 + 8 * unat (mhartid h)" and "unat CLINT_MTIME = 0x200BFF8"
    and "j < 40 \<Longrightarrow> unat (scratch_of (mhartid h) (sym_timer_scratch h) + of_nat j) = unat (scratch_of (mhartid h) (sym_timer_scratch h)) + j"
proof -
  have n: "unat (mhartid h) < 8" "unat (sym_timer_scratch h) + 320 \<le> 2281701376" using assms by (simp_all add: board_def PHYSTOP_def KERNBASE_def)
  have m: "unat (40 * mhartid h) = 40 * unat (mhartid h)" "unat (8 * mhartid h) = 8 * unat (mhartid h)" using n by (simp_all add: unat_mult_lem [THEN iffD1])
  show s: "unat (scratch_of (mhartid h) (sym_timer_scratch h)) = unat (sym_timer_scratch h) + 40 * unat (mhartid h)"
    unfolding scratch_of_def using n m by (subst unat_add_lem [THEN iffD1]) simp_all
  show "unat (CLINT_MTIMECMP (mhartid h)) = 0x2004000 + 8 * unat (mhartid h)"
    unfolding CLINT_MTIMECMP_def CLINT_def using n m by (subst unat_add_lem [THEN iffD1]) simp_all
  show "unat CLINT_MTIME = 0x200BFF8" by (simp add: CLINT_MTIME_def CLINT_def)
  assume j: "j < 40"
  have "unat (of_nat j :: u64) = j" using j by (simp add: unat_of_nat take_bit_nat_eq_self)
  then show "unat (scratch_of (mhartid h) (sym_timer_scratch h) + of_nat j) = unat (scratch_of (mhartid h) (sym_timer_scratch h)) + j"
    using n s j by (subst unat_add_lem [THEN iffD1]) simp_all
qed

definition timer_ready :: "hart \<Rightarrow> bool" where
  "timer_ready h \<longleftrightarrow> board h \<and> mscratch h = scratch_of (mhartid h) (sym_timer_scratch h) \<and> load (scratch_of (mhartid h) (sym_timer_scratch h) + 24) h = CLINT_MTIMECMP (mhartid h) \<and>
     load (scratch_of (mhartid h) (sym_timer_scratch h) + 32) h = 1000000 \<and> mtvec h = sym_timervec h \<and> bit (mie h) 7 \<and> \<not> bit (mideleg h) 7 \<and> bit (mideleg h) 1"

text \<open>Physical memory protection: entry 0 in the mode that allows everything below an address, given in units of four bytes.\<close>

definition pmp_allows :: "u64 \<Rightarrow> hart \<Rightarrow> bool" where
  "pmp_allows a h \<longleftrightarrow> pmpcfg0 h AND 0x1F = 0xF \<and> unat a div 4 < unat (pmpaddr0 h)"

lemma load_upd [simp]:
  "load a (h\<lparr>mstatus := x\<rparr>) = load a h" "load a (h\<lparr>mepc := x\<rparr>) = load a h" "load a (h\<lparr>h_satp := x\<rparr>) = load a h" "load a (h\<lparr>medeleg := x\<rparr>) = load a h"
  "load a (h\<lparr>mideleg := x\<rparr>) = load a h" "load a (h\<lparr>mie := x\<rparr>) = load a h" "load a (h\<lparr>pmpaddr0 := x\<rparr>) = load a h" "load a (h\<lparr>pmpcfg0 := x\<rparr>) = load a h"
  "load a (h\<lparr>mscratch := x\<rparr>) = load a h" "load a (h\<lparr>mtvec := x\<rparr>) = load a h" "load a (h\<lparr>h_tp := x\<rparr>) = load a h" "load a (h\<lparr>h_sp := x\<rparr>) = load a h"
  "load a (h\<lparr>h_priv := p\<rparr>) = load a h" "load a (h\<lparr>h_pc := x\<rparr>) = load a h" "load a (h\<lparr>mip := x\<rparr>) = load a h"
  "load a (h\<lparr>h_a0 := x\<rparr>) = load a h" "load a (h\<lparr>h_a1 := x\<rparr>) = load a h" "load a (h\<lparr>h_a2 := x\<rparr>) = load a h" "load a (h\<lparr>h_a3 := x\<rparr>) = load a h"
  by (simp_all add: load_def)

text \<open>The five words of a scratch area and the compare register do not overlap.\<close>

lemma timer_words:
  fixes h :: hart
  assumes b: "board h"
  defines "S \<equiv> scratch_of (mhartid h) (sym_timer_scratch h)" and "C \<equiv> CLINT_MTIMECMP (mhartid h)"
  shows "i < 5 \<Longrightarrow> j < 5 \<Longrightarrow> i \<noteq> j \<Longrightarrow> load (S + of_nat (8 * i)) (store (S + of_nat (8 * j)) v g) = load (S + of_nat (8 * i)) g"
    and "i < 5 \<Longrightarrow> load C (store (S + of_nat (8 * i)) v g) = load C g"
    and "i < 5 \<Longrightarrow> load (S + of_nat (8 * i)) (store C v g) = load (S + of_nat (8 * i)) g"
proof -
  note p = places [OF b, folded S_def C_def]
  have n: "unat (mhartid h) < 8" "2147483648 \<le> unat (sym_timer_scratch h)" "unat (sym_timer_scratch h) + 320 \<le> 2281701376"
    using b by (simp_all add: board_def PHYSTOP_def KERNBASE_def)
  have S: "unat C + 8 \<le> unat S" "unat S + 48 \<le> 2 ^ 64" using p(1,2) n by simp_all
  have w: "unat (S + of_nat (8 * k)) = unat S + 8 * k" if "k < 5" for k using p(4) [of "8 * k"] that by simp
  show "load (S + of_nat (8 * i)) (store (S + of_nat (8 * j)) v g) = load (S + of_nat (8 * i)) g" if "i < 5" "j < 5" "i \<noteq> j"
  proof (cases "i < j")
    case True
    then show ?thesis using w [OF that(1)] w [OF that(2)] S that by (intro load_store_below) simp_all
  next
    case False
    then show ?thesis using w [OF that(1)] w [OF that(2)] S that by (intro load_store_below(1)) simp_all
  qed
  show "load C (store (S + of_nat (8 * i)) v g) = load C g" "load (S + of_nat (8 * i)) (store C v g) = load (S + of_nat (8 * i)) g" if "i < 5"
    using w [OF that] S that by (simp_all add: load_store_below)
qed

lemma timer_words_num:
  assumes "board h"
  defines "S \<equiv> scratch_of (mhartid h) (sym_timer_scratch h)" and "C \<equiv> CLINT_MTIMECMP (mhartid h)"
  shows "load (S + 24) (store (S + 32) v g) = load (S + 24) g" "load C (store (S + 24) v g) = load C g" "load C (store (S + 32) v g) = load C g"
    "load (S + 24) (store S v g) = load (S + 24) g" "load (S + 24) (store (S + 8) v g) = load (S + 24) g" "load (S + 24) (store (S + 16) v g) = load (S + 24) g"
    "load (S + 32) (store S v g) = load (S + 32) g" "load (S + 32) (store (S + 8) v g) = load (S + 32) g" "load (S + 32) (store (S + 16) v g) = load (S + 32) g"
    "load C (store S v g) = load C g" "load C (store (S + 8) v g) = load C g" "load C (store (S + 16) v g) = load C g"
    "load S (store C v g) = load S g" "load (S + 8) (store C v g) = load (S + 8) g" "load (S + 16) (store C v g) = load (S + 16) g"
    "load (S + 24) (store C v g) = load (S + 24) g" "load (S + 32) (store C v g) = load (S + 32) g"
    "load S (store (S + 8) v g) = load S g" "load S (store (S + 16) v g) = load S g" "load (S + 8) (store (S + 16) v g) = load (S + 8) g"
  using timer_words [OF assms(1), folded S_def C_def, of 3 4] timer_words(2,3) [OF assms(1), folded S_def C_def, of 0] timer_words(2,3) [OF assms(1), folded S_def C_def, of 1]
    timer_words(2,3) [OF assms(1), folded S_def C_def, of 2] timer_words(2,3) [OF assms(1), folded S_def C_def, of 3] timer_words(2,3) [OF assms(1), folded S_def C_def, of 4]
    timer_words(1) [OF assms(1), folded S_def C_def, of 3 0] timer_words(1) [OF assms(1), folded S_def C_def, of 3 1] timer_words(1) [OF assms(1), folded S_def C_def, of 3 2]
    timer_words(1) [OF assms(1), folded S_def C_def, of 4 0] timer_words(1) [OF assms(1), folded S_def C_def, of 4 1] timer_words(1) [OF assms(1), folded S_def C_def, of 4 2]
    timer_words(1) [OF assms(1), folded S_def C_def, of 0 1] timer_words(1) [OF assms(1), folded S_def C_def, of 0 2] timer_words(1) [OF assms(1), folded S_def C_def, of 1 2]
  by simp_all

lemma store_fields [simp]:
  "h_pc (store a v h) = h_pc h" "h_priv (store a v h) = h_priv h" "h_a0 (store a v h) = h_a0 h" "h_a1 (store a v h) = h_a1 h" "h_a2 (store a v h) = h_a2 h"
  "h_a3 (store a v h) = h_a3 h" "h_sp (store a v h) = h_sp h" "h_tp (store a v h) = h_tp h" "mhartid (store a v h) = mhartid h" "mstatus (store a v h) = mstatus h"
  "mepc (store a v h) = mepc h" "mtvec (store a v h) = mtvec h" "mscratch (store a v h) = mscratch h" "medeleg (store a v h) = medeleg h" "mideleg (store a v h) = mideleg h"
  "mideleg_mask (store a v h) = mideleg_mask h" "mie (store a v h) = mie h" "mip (store a v h) = mip h" "h_satp (store a v h) = h_satp h" "pmpaddr0 (store a v h) = pmpaddr0 h"
  "pmpcfg0 (store a v h) = pmpcfg0 h" "sym_main (store a v h) = sym_main h" "sym_timervec (store a v h) = sym_timervec h" "sym_timer_scratch (store a v h) = sym_timer_scratch h"
  "sym_stack0 (store a v h) = sym_stack0 h"
  by (simp_all add: store_def)

lemma board_same: "mhartid h' = mhartid h \<Longrightarrow> sym_timer_scratch h' = sym_timer_scratch h \<Longrightarrow> mideleg_mask h' = mideleg_mask h \<Longrightarrow> board h' = board h"
  by (simp add: board_def)

lemma timerinit_eq:
  assumes "board h"
  shows "timerinit h = (let S = scratch_of (mhartid h) (sym_timer_scratch h); C = CLINT_MTIMECMP (mhartid h) in
    (store (S + 32) 1000000 (store (S + 24) C (store C (load CLINT_MTIME h + 1000000) h)))
      \<lparr>mscratch := S, mtvec := sym_timervec h, mstatus := mstatus h OR MSTATUS_MIE, mie := mie h OR MIE_MTIE\<rparr>)"
  using hid [of "mhartid h"] assms by (simp add: timerinit_def csr_defs board_def Let_def)

lemma bit_3: "bit (3 :: int) n \<longleftrightarrow> n < 2" and bit_ffff: "bit (0xffff :: int) n \<longleftrightarrow> n < 16"
proof -
  have m: "(3 :: int) = mask 2" "(0xffff :: int) = mask 16" by (simp_all add: mask_eq_exp_minus_1)
  show "bit (3 :: int) n \<longleftrightarrow> n < 2" "bit (0xffff :: int) n \<longleftrightarrow> n < 16" unfolding m by (auto simp: bit_mask_iff)
qed

lemma mpp_start: "mpp (((x AND NOT MSTATUS_MPP_MASK) OR MSTATUS_MPP_S) OR MSTATUS_MIE) = PrivS"
proof -
  have "drop_bit 11 (((x AND NOT (push_bit 11 3)) OR push_bit 11 1) OR push_bit 3 1) AND (3 :: u64) = 1"
    by (rule bit_eqI) (auto simp: bit_simps bit_3 simp del: push_bit_numeral push_bit_of_1)
  then show ?thesis by (simp add: mpp_def)
qed

lemma start_spec:
  assumes "board h"
  shows "(let t = entry h in h_priv t = PrivS \<and> h_pc t = sym_main h \<and> h_sp t = sym_stack0 h + 4096 * (mhartid h + 1) \<and> h_satp t = 0 \<and> h_tp t = mhartid h \<and>
     bit (r_sie t) 1 \<and> bit (r_sie t) 5 \<and> bit (r_sie t) 9 \<and> pmp_allows (PHYSTOP - 1) t \<and>
     load (CLINT_MTIMECMP (mhartid h)) t = load CLINT_MTIME h + 1000000 \<and> timer_ready t)"
proof -
  define u where "u = h\<lparr>h_sp := sym_stack0 h + 4096 * (mhartid h + 1), mstatus := (mstatus h AND NOT MSTATUS_MPP_MASK) OR MSTATUS_MPP_S, mepc := sym_main h, h_satp := 0,
      medeleg := 0xffff, mideleg := 0xffff AND mideleg_mask h,
      mie := (mie h AND NOT (0xffff AND mideleg_mask h)) OR ((mie h AND (0xffff AND mideleg_mask h) OR SIE_SEIE OR SIE_STIE OR SIE_SSIE) AND (0xffff AND mideleg_mask h)),
      pmpaddr0 := 0x3fffffffffffff, pmpcfg0 := 0xf\<rparr>"
  have b: "board u" using assms by (simp add: u_def board_def)
  define t where "t = timerinit u"
  have e: "entry h = mret (t\<lparr>h_tp := mhartid h\<rparr>)"
    using hid [of "mhartid h"] assms by (simp add: entry_def start_def csr_defs Let_def u_def t_def board_def timerinit_def)
  have ti: "t = (let S = scratch_of (mhartid h) (sym_timer_scratch h); C = CLINT_MTIMECMP (mhartid h) in
    (store (S + 32) 1000000 (store (S + 24) C (store C (load CLINT_MTIME h + 1000000) u)))
      \<lparr>mscratch := S, mtvec := sym_timervec h, mstatus := mstatus u OR MSTATUS_MIE, mie := mie u OR MIE_MTIE\<rparr>)"
    unfolding t_def timerinit_eq [OF b] by (simp add: u_def)
  note tw = timer_words_num [OF assms]
  have "mpp (mstatus t) = PrivS" using mpp_start by (simp add: ti Let_def u_def)
  moreover have "bit (mie t AND mideleg t) 1" "bit (mie t AND mideleg t) 5" "bit (mie t AND mideleg t) 9" "bit (mie t) 7" "\<not> bit (mideleg t) 7" "bit (mideleg t) 1"
    using assms by (auto simp: ti Let_def u_def bit_ffff bit_simps board_def)
  moreover have "pmp_allows (PHYSTOP - 1) t" by (simp add: ti Let_def u_def pmp_allows_def PHYSTOP_def KERNBASE_def)
  moreover have "board t" "mscratch t = scratch_of (mhartid h) (sym_timer_scratch h)" "mtvec t = sym_timervec t" "mhartid t = mhartid h" "sym_timer_scratch t = sym_timer_scratch h"
    "mepc t = sym_main h" "h_sp t = sym_stack0 h + 4096 * (mhartid h + 1)" "h_satp t = 0"
    using b by (simp_all add: ti Let_def u_def board_def)
  moreover have "load (CLINT_MTIMECMP (mhartid h)) t = load CLINT_MTIME h + 1000000"
    "load (scratch_of (mhartid h) (sym_timer_scratch h) + 24) t = CLINT_MTIMECMP (mhartid h)" "load (scratch_of (mhartid h) (sym_timer_scratch h) + 32) t = 1000000"
    using tw by (simp_all add: ti Let_def)
  ultimately show ?thesis unfolding e by (simp add: mret_def timer_ready_def board_def pmp_allows_def r_sie_def Let_def)
qed
text \<open>Property C27: \<open>start\<close> brings a hart from machine mode to \<open>main\<close>. On each of the eight harts it ends in supervisor mode at \<open>main\<close>, on a stack
  of its own, with paging off, all of RAM accessible, the hart's number in \<open>tp\<close>, and the supervisor software, timer and external interrupts
  delegated and enabled; the machine timer is set a million cycles ahead, and its scratch area and vector are prepared for \<open>timervec\<close>.\<close>

theorem start_correct:
  assumes "board h"
  shows "(let t = entry h in h_priv t = PrivS \<and> h_pc t = sym_main h \<and> h_sp t = sym_stack0 h + 4096 * (mhartid h + 1) \<and> h_satp t = 0 \<and> h_tp t = mhartid h \<and>
     bit (r_sie t) 1 \<and> bit (r_sie t) 5 \<and> bit (r_sie t) 9 \<and> pmp_allows (PHYSTOP - 1) t \<and>
     load (CLINT_MTIMECMP (mhartid h)) t = load CLINT_MTIME h + 1000000 \<and> timer_ready t)"
  by (rule start_spec [OF assms])

lemma mpp_trap:
  "mpp ((x AND NOT (MSTATUS_MPP_MASK OR MSTATUS_MIE OR push_bit 7 1)) OR (case p of PrivU \<Rightarrow> 0 | PrivS \<Rightarrow> MSTATUS_MPP_S | PrivM \<Rightarrow> MSTATUS_MPP_MASK) OR
     (if b then push_bit 7 1 else 0)) = p"
proof -
  have "drop_bit 11 ((x AND NOT (push_bit 11 3 OR push_bit 3 1 OR push_bit 7 1)) OR push_bit 11 m OR (if b then push_bit 7 1 else 0)) AND (3 :: u64) = m AND 3" for m
    by (rule bit_eqI) (auto simp: bit_simps bit_3 simp del: push_bit_numeral push_bit_of_1)
  from this [of 0] this [of 1] this [of 3] show ?thesis by (cases p) (simp_all add: mpp_def)
qed

lemma mie_restored: "bit (mstatus (mret (trap_timer h))) 3 = bit (mstatus h) 3"
  by (cases "h_priv h") (auto simp: mret_def trap_timer_def bit_simps bit_3 simp del: push_bit_numeral push_bit_of_1)

text \<open>What the handler does between taking the interrupt and \<open>mret\<close>.\<close>

lemma store_gprs: "store a v (h\<lparr>h_a0 := x, mscratch := y\<rparr>) = (store a v h)\<lparr>h_a0 := x, mscratch := y\<rparr>"
  "store a v (h\<lparr>h_a1 := x, h_a2 := y, h_a3 := z\<rparr>) = (store a v h)\<lparr>h_a1 := x, h_a2 := y, h_a3 := z\<rparr>"
  "store a v (h\<lparr>h_a0 := x, mscratch := y, h_a1 := p, h_a2 := q, h_a3 := z\<rparr>) = (store a v h)\<lparr>h_a0 := x, mscratch := y, h_a1 := p, h_a2 := q, h_a3 := z\<rparr>"
  by (simp_all add: store_def)

lemma timervec_eq:
  fixes h :: hart
  assumes r: "timer_ready h"
  defines "S \<equiv> scratch_of (mhartid h) (sym_timer_scratch h)" and "C \<equiv> CLINT_MTIMECMP (mhartid h)"
  defines "u \<equiv> store C (load C h + 1000000) (store (S + 16) (h_a3 h) (store (S + 8) (h_a2 h) (store S (h_a1 h) h)))"
  shows "timervec h = mret (u\<lparr>mip := (mip h AND NOT (mideleg h AND 2)) OR (2 AND mideleg h AND 2)\<rparr>)"
proof -
  have b: "board h" and m: "mscratch h = S" "load (S + 24) h = C" "load (S + 32) h = 1000000" using r by (simp_all add: timer_ready_def S_def C_def)
  note tw = timer_words_num [OF b, folded S_def C_def]
  have s: "timervec_save h = (store (S + 16) (h_a3 h) (store (S + 8) (h_a2 h) (store S (h_a1 h) h)))\<lparr>h_a0 := S, mscratch := h_a0 h\<rparr>"
    by (simp add: timervec_save_def m store_gprs)
  have n: "timervec_next (timervec_save h) = u\<lparr>h_a0 := S, mscratch := h_a0 h, h_a1 := C, h_a2 := 1000000, h_a3 := load C h + 1000000\<rparr>"
    unfolding timervec_next_def s u_def by (simp add: Let_def m tw store_gprs)
  have l: "load S u = h_a1 h" "load (S + 8) u = h_a2 h" "load (S + 16) u = h_a3 h" using tw by (simp_all add: u_def)
  have f: "h_a0 u = h_a0 h" "h_a1 u = h_a1 h" "h_a2 u = h_a2 h" "h_a3 u = h_a3 h" "mscratch u = S" "mip u = mip h" "mideleg u = mideleg h"
    by (simp_all add: u_def m)
  have e: "u\<lparr>mip := x, h_a3 := h_a3 h, h_a2 := h_a2 h, h_a1 := h_a1 h, h_a0 := h_a0 h, mscratch := S\<rparr> = u\<lparr>mip := x\<rparr>" for x
    using f by (cases u) simp
  show ?thesis unfolding timervec_def n timervec_restore_def using f by (simp add: w_sip_m_def l Let_def) (simp only: e)
qed

text \<open>Property C26: the timer interrupt of machine mode is invisible to what it interrupts and never stops. Taken at any point on a prepared hart, \<open>timervec\<close>
  restores all registers, the mode, the program counter and the interrupt enable bit; it moves the next timer interrupt a million cycles on, makes a supervisor
  software interrupt pending, which \<open>devintr\<close> takes for a tick, changes no other memory than its scratch words and the compare register, and leaves
  the hart prepared for the next one, which it takes as soon as the time has come, whatever the supervisor does with its own interrupt enable bit.\<close>

theorem timervec_correct:
  assumes "timer_ready h"
  shows "(let t = timervec (trap_timer h); S = scratch_of (mhartid h) (sym_timer_scratch h); C = CLINT_MTIMECMP (mhartid h) in
     h_pc t = h_pc h \<and> h_priv t = h_priv h \<and> h_a0 t = h_a0 h \<and> h_a1 t = h_a1 h \<and> h_a2 t = h_a2 h \<and> h_a3 t = h_a3 h \<and> h_sp t = h_sp h \<and> h_tp t = h_tp h \<and>
     bit (mstatus t) 3 = bit (mstatus h) 3 \<and> load C t = load C h + 1000000 \<and> bit (mip t) 1 \<and>
     (\<forall>a. 24 \<le> unat (a - S) \<longrightarrow> 8 \<le> unat (a - C) \<longrightarrow> boot_mem t a = boot_mem h a) \<and> timer_ready t \<and>
     (h_priv h \<noteq> PrivM \<longrightarrow> takes_timer t = (load C h + 1000000 \<le> load CLINT_MTIME t)))"
proof -
  let ?S = "scratch_of (mhartid h) (sym_timer_scratch h)" and ?C = "CLINT_MTIMECMP (mhartid h)" and ?h = "trap_timer h"
  define u where "u = store ?C (load ?C ?h + 1000000) (store (?S + 16) (h_a3 h) (store (?S + 8) (h_a2 h) (store ?S (h_a1 h) ?h)))"
  have r: "timer_ready ?h" using assms by (simp add: timer_ready_def trap_timer_def board_def)
  have b: "board h" using assms by (simp add: timer_ready_def)
  note tw = timer_words_num [OF b]
  have lh: "load a ?h = load a h" for a by (simp add: trap_timer_def)
  have e: "timervec ?h = mret (u\<lparr>mip := (mip h AND NOT (mideleg h AND 2)) OR (2 AND mideleg h AND 2)\<rparr>)"
    using timervec_eq [OF r] by (simp add: u_def trap_timer_def)
  have "mpp (mstatus ?h) = h_priv h" using mpp_trap [of "mstatus h" "h_priv h" "bit (mstatus h) 3"] by (simp add: trap_timer_def)
  then have "mpp (mstatus u) = h_priv h" by (simp add: u_def)
  moreover have "bit (mstatus (timervec ?h)) 3 = bit (mstatus h) 3" using mie_restored [of h] by (simp add: e mret_def u_def)
  moreover have "boot_mem u a = boot_mem h a" if "24 \<le> unat (a - ?S)" "8 \<le> unat (a - ?C)" for a
  proof -
    have d: "unat (a - ?S - 8) = unat (a - ?S) - 8" "unat (a - ?S - 16) = unat (a - ?S) - 16" using that(1) by (simp_all add: unat_sub word_le_nat_alt)
    have "8 \<le> unat (a - ?S)" "8 \<le> unat (a - (?S + 8))" "8 \<le> unat (a - (?S + 16))" using that(1) d by (simp_all add: diff_diff_eq [symmetric])
    then show ?thesis using that(2) by (simp add: u_def store_def store64_apply_other trap_timer_def)
  qed
  moreover have "load ?C u = load ?C h + 1000000" "load (?S + 24) u = load (?S + 24) h" "load (?S + 32) u = load (?S + 32) h" using tw lh by (simp_all add: u_def)
  moreover have "h_a0 u = h_a0 h" "h_a1 u = h_a1 h" "h_a2 u = h_a2 h" "h_a3 u = h_a3 h" "h_sp u = h_sp h" "h_tp u = h_tp h" "mepc u = h_pc h" "mideleg u = mideleg h"
     "mie u = mie h" "mtvec u = mtvec h" "sym_timervec u = sym_timervec h" "mscratch u = mscratch h" "mhartid u = mhartid h" "sym_timer_scratch u = sym_timer_scratch h" "mideleg_mask u = mideleg_mask h"
    by (simp_all add: u_def trap_timer_def)
  ultimately show ?thesis using assms by (simp add: e mret_def Let_def timer_ready_def board_def bit_simps takes_timer_def)
qed

definition hart0 :: hart where
  "hart0 = \<lparr>h_pc = 0x80000000, h_priv = PrivM, h_a0 = 1, h_a1 = 2, h_a2 = 3, h_a3 = 4, h_sp = 0, h_tp = 0, mhartid = 2, mstatus = 0xa00000000, mepc = 0, mtvec = 0, mscratch = 0,
     medeleg = 0, mideleg = 0, mideleg_mask = 0x222, mie = 0, mip = 0, h_satp = 0, pmpaddr0 = 0, pmpcfg0 = 0, boot_mem = (\<lambda>_. 0), sym_main = 0x80000e00, sym_timervec = 0x80005d00,
     sym_timer_scratch = 0x80010000, sym_stack0 = 0x80008000\<rparr>"

lemma hart0_board: "board hart0"
  by (simp add: hart0_def board_def KERNBASE_def PHYSTOP_def bit_numeral_rec)

lemma hart0_ready: "timer_ready (entry hart0)"
  using start_spec [OF hart0_board] by (simp add: Let_def)

theorem start_correct_witness:
  "h_pc (entry hart0) = 0x80000e00 \<and> h_priv (entry hart0) = PrivS \<and> h_tp (entry hart0) = 2 \<and> h_sp (entry hart0) = 0x8000b000"
  using start_correct [OF hart0_board] by (simp add: Let_def hart0_def)

theorem timervec_correct_witness:
  "h_pc (timervec (trap_timer (entry hart0))) = 0x80000e00 \<and> h_a1 (timervec (trap_timer (entry hart0))) = 2 \<and> timer_ready (timervec (trap_timer (entry hart0)))"
proof -
  have "h_pc (entry hart0) = 0x80000e00" "h_a1 (entry hart0) = 2"
    using start_spec [OF hart0_board] by (simp_all add: Let_def hart0_def entry_def start_def timerinit_def csr_defs mret_def)
  then show ?thesis using timervec_correct [OF hart0_ready] by (simp add: Let_def)
qed

end
