(* ===== verification/Pagetable.thy ===== *)
theory Pagetable
  imports Vm
begin

text \<open>
  What the page-table functions of \<open>kernel/vm.c\<close> do, against an abstract page table: the function \<open>vmap\<close> from addresses to entries. The tables of a tree are pages of
  physical memory that no other table and no free page uses (\<open>pt_ok\<close>, \<open>vm_inv\<close>). \<open>walk\<close> finds or makes the table of an address and changes no entry of the function,
  \<open>mappages\<close> and \<open>uvmunmap\<close> update it, and \<open>uvmcopy\<close>, which \<open>fork\<close> calls, copies the memory it describes.
\<close>

subsection \<open>A page table as a function\<close>

text \<open>The index of an address at a depth of the tree, 0 at the root, and the table a walk visits there.\<close>

definition ix :: "nat \<Rightarrow> u64 \<Rightarrow> u64" where
  "ix d va = PX (2 - d) va"

primrec tbl :: "nat \<Rightarrow> u64 \<Rightarrow> u64 \<Rightarrow> mem \<Rightarrow> u64 option" where
  "tbl 0 pt va m = Some pt"
| "tbl (Suc d) pt va m =
     (case tbl d pt va m of
        None \<Rightarrow> None
      | Some t \<Rightarrow> (let v = load64 m (t + 8 * ix d va) in if v AND PTE_V \<noteq> 0 then Some (PTE2PA v) else None))"

text \<open>The entry of an address, 0 when there is no table for it: this function is what a page table stands for.\<close>

definition vmap :: "u64 \<Rightarrow> mem \<Rightarrow> u64 \<Rightarrow> u64" where
  "vmap pt m va = (case tbl 2 pt va m of None \<Rightarrow> 0 | Some t \<Rightarrow> load64 m (t + 8 * ix 2 va))"

definition agree :: "nat \<Rightarrow> u64 \<Rightarrow> u64 \<Rightarrow> bool" where
  "agree d va va' \<longleftrightarrow> (\<forall>k<d. ix k va = ix k va')"

definition tables :: "u64 \<Rightarrow> mem \<Rightarrow> u64 set" where
  "tables pt m = {t. \<exists>d\<le>2. \<exists>va. tbl d pt va m = Some t}"

text \<open>The tables of a tree are pages of memory, and no page is used for two of them.\<close>

definition pt_ok :: "u64 \<Rightarrow> mem \<Rightarrow> bool" where
  "pt_ok pt m \<longleftrightarrow> (\<forall>t\<in>tables pt m. page_aligned t \<and> t \<noteq> 0) \<and>
     (\<forall>d\<le>2. \<forall>d'\<le>2. \<forall>va va' t. tbl d pt va m = Some t \<longrightarrow> tbl d' pt va' m = Some t \<longrightarrow> d = d' \<and> agree d va va')"

lemma agree_Suc: "agree (Suc d) va va' \<longleftrightarrow> agree d va va' \<and> ix d va = ix d va'"
  by (auto simp: agree_def less_Suc_eq)

lemma agree_refl [simp]: "agree d va va"
  by (simp add: agree_def)

lemma agree_sym: "agree d va va' \<Longrightarrow> agree d va' va"
  by (simp add: agree_def)

lemma agree_trans: "agree d a b \<Longrightarrow> agree d b c \<Longrightarrow> agree d a c"
  by (simp add: agree_def)

lemma agree_le: "agree d va va' \<Longrightarrow> k \<le> d \<Longrightarrow> agree k va va'"
  by (auto simp: agree_def)

lemma tbl_agree: "agree d va va' \<Longrightarrow> tbl d pt va m = tbl d pt va' m"
  by (induction d) (simp_all add: agree_Suc split: option.split)

lemma agree_3: "agree 3 va va' \<longleftrightarrow> agree 2 va va' \<and> ix 2 va = ix 2 va'"
  using agree_Suc [of 2] by (simp add: eval_nat_numeral)

lemma vmap_agree: "agree 3 va va' \<Longrightarrow> vmap pt m va = vmap pt m va'"
  using tbl_agree [of 2 va va' pt m] by (simp add: vmap_def agree_3 split: option.split)

lemma tbl_tables: "d \<le> 2 \<Longrightarrow> tbl d pt va m = Some t \<Longrightarrow> t \<in> tables pt m"
  by (auto simp: tables_def)

lemma tbl_prev: "tbl d pt va m \<noteq> None \<Longrightarrow> k \<le> d \<Longrightarrow> tbl k pt va m \<noteq> None"
  by (induction d) (auto simp: le_Suc_eq split: option.splits)

lemma ix_less: "unat (ix d va) < 512"
proof -
  have "ix d va = take_bit 9 (drop_bit (PXSHIFT (2 - d)) va)" by (simp add: ix_def PX_def take_bit_eq_mask mask_eq_exp_minus_1)
  then have "unat (ix d va) = take_bit 9 (unat (drop_bit (PXSHIFT (2 - d)) va))" by (simp add: unsigned_take_bit_eq)
  then show ?thesis using take_bit_nat_less_exp [of 9] by simp
qed

lemma entry_offset: "8 * ix d va = of_nat (8 * unat (ix d va))" and entry_in_page: "8 * unat (ix d va) + 8 \<le> 4096"
  using ix_less [of d va] by simp_all

lemma entries_apart:
  assumes "i \<noteq> j" "unat i < 512" "unat j < 512"
  shows "8 \<le> unat (t + 8 * (i :: u64) - (t + 8 * j))"
proof -
  have e: "unat (8 * k) = 8 * unat k" if "unat k < 512" for k :: u64 using that by (simp add: unat_mult_lem [THEN iffD1])
  have "unat i \<noteq> unat j" using assms(1) by (simp add: word_unat_eq_iff)
  then have "8 \<le> unat (8 * i - 8 * j)" using assms e [of i] e [of j] by (auto simp: unat_sub_if)
  then show ?thesis by (simp add: algebra_simps)
qed

lemma entry_other_page:
  assumes "same_outside m m' p" "page_aligned p" "page_aligned q" "p \<noteq> q"
  shows "load64 m' (q + 8 * ix d va) = load64 m (q + 8 * ix d va)"
  unfolding entry_offset by (rule same_outside_load64 [OF assms entry_in_page])

lemma entry_same_outside: "page_aligned t \<Longrightarrow> same_outside m (store64 (t + 8 * ix d va) v m) t"
  unfolding entry_offset by (rule same_outside_store64 [OF entry_in_page])

subsection \<open>Changing one entry\<close>

text \<open>Memory in which all entries of a tree are the same except the one of \<open>va\<^sub>0\<close> at depth \<open>d\<^sub>0\<close>.\<close>

definition entry_change :: "u64 \<Rightarrow> nat \<Rightarrow> u64 \<Rightarrow> mem \<Rightarrow> mem \<Rightarrow> bool" where
  "entry_change pt d0 va0 m m' \<longleftrightarrow> (\<forall>d\<le>2. \<forall>va t. tbl d pt va m = Some t \<longrightarrow> \<not> (d = d0 \<and> agree (Suc d0) va va0) \<longrightarrow>
     load64 m' (t + 8 * ix d va) = load64 m (t + 8 * ix d va))"

lemma tbl_change:
  assumes "entry_change pt d0 va0 m m'" and "d \<le> 2" and "d \<le> d0 \<or> \<not> agree (Suc d0) va va0"
  shows "tbl d pt va m' = tbl d pt va m"
  using assms(2,3)
proof (induction d)
  case (Suc d)
  then have IH: "tbl d pt va m' = tbl d pt va m" by auto
  have "load64 m' (t + 8 * ix d va) = load64 m (t + 8 * ix d va)" if "tbl d pt va m = Some t" for t
  proof -
    have "\<not> (d = d0 \<and> agree (Suc d0) va va0)" using Suc.prems(2) by auto
    then show ?thesis using assms(1) that Suc.prems(1) by (simp add: entry_change_def)
  qed
  then show ?case using IH by (auto split: option.splits)
qed simp

lemma vmap_change: "entry_change pt d0 va0 m m' \<Longrightarrow> \<not> agree (Suc d0) va va0 \<Longrightarrow> vmap pt m' va = vmap pt m va"
  using tbl_change [of pt d0 va0 m m' 2 va] by (auto simp: vmap_def entry_change_def split: option.splits)

lemma store_entry:
  assumes ok: "pt_ok pt m" and t: "tbl d0 pt va0 m = Some t" and d0: "d0 \<le> 2"
  shows "entry_change pt d0 va0 m (store64 (t + 8 * ix d0 va0) v m)"
  unfolding entry_change_def
proof (intro allI impI)
  fix d va u
  assume d: "d \<le> 2" and u: "tbl d pt va m = Some u" and n: "\<not> (d = d0 \<and> agree (Suc d0) va va0)"
  have al: "page_aligned t" "page_aligned u" using ok tbl_tables [OF d0 t] tbl_tables [OF d u] by (auto simp: pt_ok_def)
  show "load64 (store64 (t + 8 * ix d0 va0) v m) (u + 8 * ix d va) = load64 m (u + 8 * ix d va)"
  proof (cases "u = t")
    case True
    then have "d = d0 \<and> agree d va va0" using ok t u d d0 unfolding pt_ok_def by blast
    then have "ix d va \<noteq> ix d0 va0" using n by (auto simp: agree_Suc)
    then show ?thesis unfolding True by (intro load64_store64_other entries_apart ix_less) simp_all
  next
    case False
    then show ?thesis by (intro entry_other_page [OF entry_same_outside] al) auto
  qed
qed

lemma tables_same: "(\<And>d va. d \<le> 2 \<Longrightarrow> tbl d pt va m' = tbl d pt va m) \<Longrightarrow> tables pt m' = tables pt m"
  by (simp add: tables_def cong: conj_cong)

lemma pt_ok_same: "(\<And>d va. d \<le> 2 \<Longrightarrow> tbl d pt va m' = tbl d pt va m) \<Longrightarrow> pt_ok pt m' = pt_ok pt m"
  using tables_same [of pt m' m] by (simp add: pt_ok_def)

text \<open>Storing a leaf.\<close>

lemma store_leaf:
  fixes v :: u64
  assumes ok: "pt_ok pt m" and t: "tbl 2 pt va0 m = Some t"
  defines "m' \<equiv> store64 (t + 8 * ix 2 va0) v m"
  shows "pt_ok pt m'" "tables pt m' = tables pt m" "vmap pt m' va = (if agree 3 va va0 then v else vmap pt m va)" "same_outside m m' t"
proof -
  have c: "entry_change pt 2 va0 m m'" unfolding m'_def by (rule store_entry [OF ok t]) simp
  have same: "tbl d pt va m' = tbl d pt va m" if "d \<le> 2" for d va using tbl_change [OF c that] that by simp
  show "pt_ok pt m'" "tables pt m' = tables pt m" using ok pt_ok_same [of pt m' m] tables_same [of pt m' m] same by simp_all
  have "vmap pt m' va = v" if "agree 3 va va0"
  proof -
    have "tbl 2 pt va0 m' = Some t" using same [of 2 va0] t by simp
    then show ?thesis unfolding vmap_agree [OF that] by (simp add: vmap_def m'_def)
  qed
  then show "vmap pt m' va = (if agree 3 va va0 then v else vmap pt m va)" using vmap_change [OF c, of va] by (auto simp: agree_3 agree_Suc)
  have "page_aligned t" using ok tbl_tables [OF _ t] by (simp add: pt_ok_def)
  then show "same_outside m m' t" unfolding m'_def by (rule entry_same_outside)
qed

text \<open>Linking a fresh page of zeros as a new table.\<close>

lemma load64_zeros: "page_aligned c \<Longrightarrow> j + 8 \<le> 4096 \<Longrightarrow> load64 (memset c 0 4096 m) (c + of_nat j) = 0"
proof -
  assume j: "j + 8 \<le> 4096" and "page_aligned c"
  have "load64 (memset c 0 4096 m) (c + of_nat j) = load64 (\<lambda>_. 0) (c + of_nat j)"
  proof (rule load64_cong)
    fix i :: nat assume "i < 8"
    then have "unat (c + of_nat j + of_nat i - c) = j + i" using j unat_plus_of_nat [of 0 "j + i"] by (simp add: add.assoc)
    then show "memset c 0 4096 m (c + of_nat j + of_nat i) = 0" using j \<open>i < 8\<close> by (simp add: memset_apply)
  qed
  then show ?thesis by simp
qed

lemma new_pte: "page_aligned c \<Longrightarrow> PTE2PA (PA2PTE c OR PTE_V) = c" "(PA2PTE c OR x OR PTE_V) AND PTE_V \<noteq> 0" "(PA2PTE c OR PTE_V) AND PTE_V \<noteq> 0"
proof -
  show "PTE2PA (PA2PTE c OR PTE_V) = c" if "page_aligned c"
  proof -
    have "12 \<le> n" if "bit c n" for n using \<open>page_aligned c\<close> that by (auto simp: page_aligned_bits simp flip: not_less)
    then show ?thesis by (intro bit_eqI) (auto simp: PTE2PA_def PA2PTE_def bit_simps)
  qed
  have "bit ((PA2PTE c OR x OR PTE_V) AND PTE_V) 0" "bit ((PA2PTE c OR PTE_V) AND PTE_V) 0" by (simp_all add: bit_simps)
  then show "(PA2PTE c OR x OR PTE_V) AND PTE_V \<noteq> 0" "(PA2PTE c OR PTE_V) AND PTE_V \<noteq> 0" by force+
qed

lemma link_table:
  fixes m0 :: mem
  assumes ok: "pt_ok pt m" and t: "tbl d0 pt va0 m = Some t" and d0: "d0 < 2" and inv: "load64 m (t + 8 * ix d0 va0) AND PTE_V = 0"
    and c: "page_aligned c" "c \<noteq> 0" "c \<notin> tables pt m" and m0: "same_outside m m0 c" "\<And>j. j + 8 \<le> 4096 \<Longrightarrow> load64 m0 (c + of_nat j) = 0"
  defines "m' \<equiv> store64 (t + 8 * ix d0 va0) (PA2PTE c OR PTE_V) m0"
  shows "pt_ok pt m'" "tables pt m' = insert c (tables pt m)" "vmap pt m' = vmap pt m" "tbl (Suc d0) pt va0 m' = Some c"
proof -
  have keep: "load64 m0 (u + 8 * ix d va) = load64 m (u + 8 * ix d va)" if "d \<le> 2" "tbl d pt va m = Some u" for d va u
  proof -
    have u: "u \<in> tables pt m" using tbl_tables that by blast
    then have "page_aligned u" "c \<noteq> u" using ok c(3) by (auto simp: pt_ok_def)
    then show ?thesis by (rule entry_other_page [OF m0(1) c(1)])
  qed
  then have ch3: "entry_change pt 3 va0 m m0" unfolding entry_change_def by blast
  then have tb0: "tbl d pt va m0 = tbl d pt va m" if "d \<le> 2" for d va using tbl_change [OF ch3 that] that by simp
  then have ok0: "pt_ok pt m0" and ta0: "tables pt m0 = tables pt m" using ok pt_ok_same [of pt m0 m] tables_same [of pt m0 m] by simp_all
  have vm0: "vmap pt m0 va = vmap pt m va" for va using tb0 keep [of 2] by (auto simp: vmap_def split: option.splits)
  have t0: "tbl d0 pt va0 m0 = Some t" using tb0 t d0 by simp
  have ch: "entry_change pt d0 va0 m0 m'" unfolding m'_def using d0 by (intro store_entry [OF ok0 t0]) simp
  have old: "tbl d pt va m' = tbl d pt va m" if "d \<le> 2" "d \<le> d0 \<or> \<not> agree (Suc d0) va va0" for d va
    using tbl_change [OF ch that] tb0 that by simp
  have un: "tbl d pt va m = None" if "Suc d0 \<le> d" "agree (Suc d0) va va0" for d va
  proof -
    have "tbl (Suc d0) pt va m = tbl (Suc d0) pt va0 m" by (rule tbl_agree [OF that(2)])
    also have "\<dots> = None" using t inv by simp
    finally show ?thesis using tbl_prev that(1) by metis
  qed
  have new: "tbl (Suc d0) pt va m' = Some c" if "agree (Suc d0) va va0" for va
  proof -
    have "tbl d0 pt va0 m' = Some t" using old [of d0 va0] d0 t by simp
    then have "tbl (Suc d0) pt va0 m' = Some c" using new_pte c(1) by (simp add: m'_def)
    then show ?thesis using tbl_agree [OF that] by simp
  qed
  have zero: "load64 m' (c + 8 * ix d va) = 0" for d va
  proof -
    have "page_aligned t" "t \<noteq> c" using ok tbl_tables [OF _ t] d0 c(3) by (auto simp: pt_ok_def)
    then have "load64 m' (c + 8 * ix d va) = load64 m0 (c + 8 * ix d va)" unfolding m'_def by (intro entry_other_page [OF entry_same_outside] c(1))
    then show ?thesis using m0(2) [OF entry_in_page] unfolding entry_offset by metis
  qed
  have deep: "tbl 2 pt va m' = (if Suc d0 = 2 then Some c else None)" if "agree (Suc d0) va va0" for va
  proof (cases "Suc d0 = 2")
    case False
    then have "d0 = 0" using d0 by simp
    then have "tbl 1 pt va m' = Some c" using new [OF that] by simp
    then have "tbl (Suc 1) pt va m' = None" using zero [of 1 va] by simp
    then show ?thesis using False by (simp add: numeral_2_eq_2)
  qed (use new [OF that] in \<open>simp add: numeral_2_eq_2 del: tbl.simps\<close>)
  have cases: "tbl d pt va m' = Some u \<longleftrightarrow> (if Suc d0 \<le> d \<and> agree (Suc d0) va va0 then d = Suc d0 \<and> u = c else tbl d pt va m = Some u)" if "d \<le> 2" for d va u
  proof (cases "Suc d0 \<le> d \<and> agree (Suc d0) va va0")
    case True
    then have "d = Suc d0 \<or> d = 2 \<and> Suc d0 \<noteq> 2" using that d0 by auto
    then show ?thesis using True new deep by auto
  next
    case False
    then show ?thesis using old [OF that, of va] by auto
  qed
  show ta: "tables pt m' = insert c (tables pt m)"
  proof -
    have "Suc d0 \<le> 2" using d0 by simp
    then have "c \<in> tables pt m'" by (rule tbl_tables) (rule new [OF agree_refl])
    moreover have "u \<in> tables pt m'" if uo: "u \<in> tables pt m" for u
    proof -
      obtain d va where d: "d \<le> 2" "tbl d pt va m = Some u" using uo by (auto simp: tables_def)
      then have "\<not> (Suc d0 \<le> d \<and> agree (Suc d0) va va0)" using un [of d va] by auto
      then show ?thesis using cases [OF d(1)] d tbl_tables by metis
    qed
    moreover have "u \<in> tables pt m" if un': "u \<in> tables pt m'" "u \<noteq> c" for u
    proof -
      obtain d va where d: "d \<le> 2" "tbl d pt va m' = Some u" using un'(1) by (auto simp: tables_def)
      then have "tbl d pt va m = Some u" using cases [OF d(1), of va u] un'(2) by (simp split: if_splits)
      then show ?thesis by (rule tbl_tables [OF d(1)])
    qed
    ultimately show ?thesis by auto
  qed
  show "pt_ok pt m'"
    unfolding pt_ok_def
  proof (intro conjI allI impI)
    show "\<forall>t\<in>tables pt m'. page_aligned t \<and> t \<noteq> 0" using ok c by (auto simp: ta pt_ok_def)
    fix d d' va va' u
    assume d: "d \<le> 2" "d' \<le> 2" and u: "tbl d pt va m' = Some u" "tbl d' pt va' m' = Some u"
    have nc: "tbl e pt w m \<noteq> Some c" if "e \<le> 2" for e w using that c(3) tbl_tables by blast
    have "d = d' \<and> agree d va va'"
    proof (cases "Suc d0 \<le> d \<and> agree (Suc d0) va va0")
      case True
      then have dc: "d = Suc d0" "u = c" using cases [OF d(1), of va u] u(1) by simp_all
      then have "Suc d0 \<le> d' \<and> agree (Suc d0) va' va0 \<and> d' = Suc d0" using cases [OF d(2), of va' u] u(2) nc [OF d(2)] by (auto split: if_splits)
      then show ?thesis using True dc agree_sym agree_trans by blast
    next
      case False
      then have a: "tbl d pt va m = Some u" using cases [OF d(1), of va u] u(1) by auto
      then have "u \<noteq> c" using nc [OF d(1)] by auto
      then have "tbl d' pt va' m = Some u" using cases [OF d(2), of va' u] u(2) by (auto split: if_splits)
      then show ?thesis using a ok d unfolding pt_ok_def by blast
    qed
    then show "d = d'" "agree d va va'" by blast+
  qed
  show "vmap pt m' = vmap pt m"
  proof
    fix va
    show "vmap pt m' va = vmap pt m va"
    proof (cases "agree (Suc d0) va va0")
      case True
      then show ?thesis using deep [OF True] un [of 2 va] d0 zero by (simp add: vmap_def)
    next
      case False
      then show ?thesis using vmap_change [OF ch] vm0 by simp
    qed
  qed
  show "tbl (Suc d0) pt va0 m' = Some c" using new [of va0] by simp
qed

subsection \<open>walk\<close>

text \<open>The allocator and one page table side by side: no table is on the free list. \<open>outside T x\<close>: the byte at \<open>x\<close> is in none of the pages \<open>T\<close>.\<close>

definition vm_inv :: "u64 \<Rightarrow> u64 list \<Rightarrow> 'z kmem_scheme \<Rightarrow> bool" where
  "vm_inv pt xs s \<longleftrightarrow> kmem_inv s xs \<and> cpu_ok s \<and> pt_ok pt (pmem s) \<and> tables pt (pmem s) \<inter> set xs = {}"

definition outside :: "u64 set \<Rightarrow> u64 \<Rightarrow> bool" where
  "outside T x \<longleftrightarrow> (\<forall>p\<in>T. \<not> unat (x - p) < 4096)"

lemma outside_Un [simp]: "outside {} x" "outside (A \<union> B) x \<longleftrightarrow> outside A x \<and> outside B x" "outside (insert p A) x \<longleftrightarrow> \<not> unat (x - p) < 4096 \<and> outside A x"
  by (auto simp: outside_def)

lemma outsideD: "outside T x \<Longrightarrow> p \<in> T \<Longrightarrow> \<not> unat (x - p) < 4096"
  by (simp add: outside_def)

text \<open>What a piece of work on the page table \<open>pt\<close> may do to the state, taking the free pages \<open>zs\<close> for tables.\<close>

definition vm_grow :: "u64 \<Rightarrow> u64 list \<Rightarrow> u64 list \<Rightarrow> 'z kmem_scheme \<Rightarrow> 'z kmem_scheme \<Rightarrow> bool" where
  "vm_grow pt zs ys s t \<longleftrightarrow> vm_inv pt ys t \<and> kend t = kend s \<and> tables pt (pmem t) = tables pt (pmem s) \<union> set zs \<and>
     (\<forall>x. outside (tables pt (pmem s) \<union> set zs) x \<longrightarrow> pmem t x = pmem s x)"

lemma vm_grow_trans: "vm_grow pt zs (us @ ys) s t \<Longrightarrow> vm_grow pt us ys t u \<Longrightarrow> vm_grow pt (zs @ us) ys s u"
  by (auto simp: vm_grow_def)

lemma kmem_inv_same:
  assumes "kmem_inv s xs" and "same_outside (pmem s) m' p" and "page_aligned p" and "p \<notin> set xs"
  shows "kmem_inv (s\<lparr>pmem := m'\<rparr>) xs"
proof -
  have "free_list m' (freelist s) xs = free_list (pmem s) (freelist s) xs"
    using assms by (intro same_outside_free_list [OF assms(2,3)]) (auto simp: kmem_inv_def page_ok_def)
  then show ?thesis using assms(1) by (simp add: kmem_inv_def)
qed

lemma entry_not_null:
  assumes "page_aligned t" "t \<noteq> 0"
  shows "t + 8 * ix d va \<noteq> 0"
proof -
  obtain k where k: "unat t = 4096 * k" using assms(1) by (auto simp: page_aligned_unat elim: dvdE)
  have "unat t + 4096 \<le> 2 ^ 64" using unat64_lt [of t] k by simp
  then have "unat (t + 8 * ix d va) = unat t + 8 * unat (ix d va)"
    unfolding entry_offset using entry_in_page [of d va] by (intro unat_plus_of_nat) simp
  moreover have "unat t \<noteq> 0" using assms(2) by (simp add: unat_eq_0)
  ultimately show ?thesis by (metis add_is_0 unat_0)
qed

lemma grow_table:
  assumes inv: "vm_inv pt (c # xs) s" and t: "tbl d pt va (pmem s) = Some t" and d: "d < 2" and v: "load64 (pmem s) (t + 8 * ix d va) AND PTE_V = 0"
  defines "m' \<equiv> store64 (t + 8 * ix d va) (PA2PTE c OR PTE_V) (memset c 0 4096 (memset c 5 4096 (pmem s)))"
  defines "s' \<equiv> (settle s)\<lparr>freelist := load64 (pmem s) c, pmem := m'\<rparr>"
  shows "vm_grow pt [c] xs s s'" "vmap pt (pmem s') = vmap pt (pmem s)" "tbl (Suc d) pt va (pmem s') = Some c"
    "kalloc s = Ret c ((settle s)\<lparr>freelist := load64 (pmem s) c, pmem := memset c 5 4096 (pmem s)\<rparr>)" "c \<noteq> 0"
proof -
  let ?m1 = "memset c 5 4096 (pmem s)" let ?m0 = "memset c 0 4096 (memset c 5 4096 (pmem s))"
  have i: "kmem_inv s (c # xs)" "cpu_ok s" "pt_ok pt (pmem s)" "c \<notin> tables pt (pmem s)" "tables pt (pmem s) \<inter> set xs = {}" using inv by (auto simp: vm_inv_def)
  note ka = kmem_inv_alloc [OF i(1,2)]
  have c: "page_aligned c" "c \<noteq> 0" "c \<notin> set xs" using i(1) by (auto simp: kmem_inv_def page_ok_def)
  have tt: "t \<in> tables pt (pmem s)" using t d by (intro tbl_tables [of d]) auto
  then have tp: "page_aligned t" "t \<noteq> c" "t \<notin> set xs" using i by (auto simp: pt_ok_def)
  have so: "same_outside (pmem s) ?m0 c" "same_outside ?m0 m' t" "same_outside ?m1 ?m0 c"
    using same_outside_trans [OF same_outside_memset same_outside_memset] entry_same_outside [OF tp(1)] same_outside_memset by (auto simp: m'_def)
  have z: "load64 ?m0 (c + of_nat j) = 0" if "j + 8 \<le> 4096" for j using load64_zeros [OF c(1) that] .
  note lt = link_table [OF i(3) t d v c(1,2) i(4) so(1) z, folded m'_def]
  have k1: "kmem_inv ((settle s)\<lparr>freelist := load64 (pmem s) c, pmem := ?m1\<rparr>) xs" using ka by simp
  have "kmem_inv ((settle s)\<lparr>freelist := load64 (pmem s) c, pmem := ?m0\<rparr>) xs" using kmem_inv_same [OF k1 _ c(1,3), of ?m0] so(3) by simp
  then have "kmem_inv s' xs" unfolding s'_def using kmem_inv_same [OF _ _ tp(1,3), of _ m'] so(2) by force
  moreover have "m' x = pmem s x" if "\<not> unat (x - c) < 4096" "\<not> unat (x - t) < 4096" for x using so that by (simp add: same_outside_def)
  ultimately show "vm_grow pt [c] xs s s'"
    using lt i c tt by (auto simp: vm_grow_def vm_inv_def s'_def dest: outsideD)
  show "vmap pt (pmem s') = vmap pt (pmem s)" "tbl (Suc d) pt va (pmem s') = Some c" using lt by (simp_all add: s'_def del: tbl.simps)
  show "kalloc s = Ret c ((settle s)\<lparr>freelist := load64 (pmem s) c, pmem := ?m1\<rparr>)" using ka by simp
  show "c \<noteq> 0" by fact
qed

lemma walk_loop_spec:
  assumes "vm_inv pt xs s" and "tbl d pt va (pmem s) = Some t" and "d + l = 2"
  shows "\<exists>r u zs ys. walk_loop l t va True s = Ret r u \<and> xs = zs @ ys \<and> vm_grow pt zs ys s u \<and> vmap pt (pmem u) = vmap pt (pmem s) \<and>
     (r = 0 \<and> ys = [] \<or> r \<noteq> 0 \<and> (\<exists>t2. tbl 2 pt va (pmem u) = Some t2 \<and> r = t2 + 8 * ix 2 va))"
  using assms
proof (induction l arbitrary: d t s xs)
  case 0
  then have d: "d = 2" by simp
  then have "t \<in> tables pt (pmem s)" using 0 tbl_tables by blast
  then have "page_aligned t" "t \<noteq> 0" using 0(1) by (auto simp: vm_inv_def pt_ok_def)
  then have "t + 8 * ix 2 va \<noteq> 0" by (rule entry_not_null)
  moreover have "vm_grow pt [] xs s s" using 0(1) by (simp add: vm_grow_def)
  ultimately show ?case using 0 d by (intro exI [of _ "t + 8 * ix 2 va"] exI [of _ s] exI [of _ "[]"] exI [of _ xs]) (simp add: ix_def)
next
  case (Suc l)
  have l: "2 - d = Suc l" using Suc.prems(3) by simp
  then have d: "d < 2" "Suc d + l = 2" "PX (Suc l) va = ix d va" using Suc.prems(3) by (simp_all add: ix_def)
  let ?v = "load64 (pmem s) (t + 8 * ix d va)"
  show ?case
  proof (cases "?v AND PTE_V = 0")
    case False
    then have "tbl (Suc d) pt va (pmem s) = Some (PTE2PA ?v)" using Suc.prems(2) by simp
    from Suc.IH [OF Suc.prems(1) this d(2)] show ?thesis using False d(3) by (simp add: Let_def)
  next
    case True
    show ?thesis
    proof (cases xs)
      case Nil
      then have "kalloc s = Ret 0 (settle s)" using Suc.prems(1) kalloc_eq [of s] by (auto simp: vm_inv_def kmem_inv_def Let_def)
      moreover have "vm_grow pt [] [] s (settle s)" using Suc.prems(1) Nil by (simp add: vm_grow_def vm_inv_def kmem_inv_def)
      ultimately show ?thesis using True d(3) Nil by (simp add: Let_def)
    next
      case (Cons c ys)
      note g = grow_table [OF Suc.prems(1) [unfolded Cons] Suc.prems(2) d(1) True]
      let ?s = "(settle s)\<lparr>freelist := load64 (pmem s) c, pmem := store64 (t + 8 * ix d va) (PA2PTE c OR PTE_V) (memset c 0 4096 (memset c 5 4096 (pmem s)))\<rparr>"
      have w: "walk_loop (Suc l) t va True s = walk_loop l c va True ?s" using True d(3) g(4,5) by (simp add: Let_def)
      have "vm_inv pt ys ?s" using g(1) by (simp add: vm_grow_def)
      from Suc.IH [OF this g(3) d(2)] obtain r u zs ws where "walk_loop l c va True ?s = Ret r u" "ys = zs @ ws" "vm_grow pt zs ws ?s u"
        "vmap pt (pmem u) = vmap pt (pmem ?s)" "r = 0 \<and> ws = [] \<or> r \<noteq> 0 \<and> (\<exists>t2. tbl 2 pt va (pmem u) = Some t2 \<and> r = t2 + 8 * ix 2 va)" by blast
      then show ?thesis using w Cons g(1,2) vm_grow_trans [of pt "[c]" zs ws s ?s u] by (intro exI [of _ r] exI [of _ u] exI [of _ "c # zs"] exI [of _ ws]) simp
    qed
  qed
qed

lemma walk_spec:
  assumes "vm_inv pt xs s" and "va < MAXVA"
  obtains r u zs ys where "walk pt va True s = Ret r u" and "xs = zs @ ys" and "vm_grow pt zs ys s u" and "vmap pt (pmem u) = vmap pt (pmem s)"
    and "r = 0 \<and> ys = [] \<or> r \<noteq> 0 \<and> (\<exists>t2. tbl 2 pt va (pmem u) = Some t2 \<and> r = t2 + 8 * ix 2 va)"
proof -
  have "walk pt va True s = walk_loop 2 pt va True s" using assms(2) by (simp add: walk_def not_le [symmetric])
  then show ?thesis using walk_loop_spec [OF assms(1), of 0 va pt 2] that by auto
qed

subsection \<open>mappages\<close>

lemma bit_ix: "bit (ix d va) n \<longleftrightarrow> n < 9 \<and> bit va (12 + 9 * (2 - d) + n)"
proof -
  have "ix d va = take_bit 9 (drop_bit (12 + 9 * (2 - d)) va)" by (simp add: ix_def PX_def PXSHIFT_def take_bit_eq_mask mask_eq_exp_minus_1)
  then show ?thesis by (simp add: bit_take_bit_iff bit_drop_bit_eq)
qed

lemma below_MAXVA: "va < MAXVA \<Longrightarrow> bit va n \<Longrightarrow> n < 38"
proof -
  assume "va < MAXVA" "bit va n"
  then have "take_bit 38 va = va" by (simp add: word_unat_eq_iff unsigned_take_bit_eq take_bit_nat_eq_self_iff word_less_nat_alt unat_MAXVA)
  then show ?thesis using \<open>bit va n\<close> by (metis bit_take_bit_iff)
qed

lemma bit_PGROUNDDOWN: "bit (PGROUNDDOWN a) n \<longleftrightarrow> 12 \<le> n \<and> bit a n"
  unfolding PGROUNDDOWN_def pgmask by (auto simp: bit_simps dest: bit_imp_le_length)

lemma agree_page:
  assumes "a < MAXVA" "b < MAXVA"
  shows "agree 3 a b \<longleftrightarrow> PGROUNDDOWN a = PGROUNDDOWN b"
proof
  assume "PGROUNDDOWN a = PGROUNDDOWN b"
  then have e: "bit (PGROUNDDOWN a) n = bit (PGROUNDDOWN b) n" for n by simp
  have "bit a n = bit b n" if "12 \<le> n" for n using that e [of n] by (simp add: bit_PGROUNDDOWN)
  then have "bit (ix d a) n = bit (ix d b) n" for d n by (simp add: bit_ix)
  then show "agree 3 a b" by (simp add: agree_def bit_eq_iff)
next
  assume ag: "agree 3 a b"
  have "bit a n = bit b n" if "12 \<le> n" "n < 39" for n
  proof -
    define d where "d = 2 - (n - 12) div 9"
    have d: "d < 3" "12 + 9 * (2 - d) + (n - 12) mod 9 = n"
    proof -
      have "(n - 12) div 9 \<le> 2" using that by auto
      then have "9 * (2 - d) = 9 * ((n - 12) div 9)" by (simp add: d_def)
      then show "d < 3" "12 + 9 * (2 - d) + (n - 12) mod 9 = n" using that mult_div_mod_eq [of 9 "n - 12"] by (simp_all add: d_def)
    qed
    then have "ix d a = ix d b" using ag by (simp add: agree_def)
    then have "bit (ix d a) ((n - 12) mod 9) = bit (ix d b) ((n - 12) mod 9)" by simp
    then show ?thesis unfolding bit_ix d(2) by simp
  qed
  moreover have "\<not> bit a n" "\<not> bit b n" if "\<not> n < 39" for n using that below_MAXVA [OF assms(1), of n] below_MAXVA [OF assms(2), of n] by auto
  ultimately have e: "bit a n = bit b n" if "12 \<le> n" for n using that by blast
  show "PGROUNDDOWN a = PGROUNDDOWN b" by (rule bit_eqI) (use e in \<open>auto simp: bit_PGROUNDDOWN\<close>)
qed

lemma grow_leaf:
  fixes v :: u64
  assumes inv: "vm_inv pt ys u" and t: "tbl 2 pt va (pmem u) = Some t"
  defines "w \<equiv> u\<lparr>pmem := store64 (t + 8 * ix 2 va) v (pmem u)\<rparr>"
  shows "vm_grow pt [] ys u w" "vmap pt (pmem w) b = (if agree 3 b va then v else vmap pt (pmem u) b)"
proof -
  have i: "kmem_inv u ys" "pt_ok pt (pmem u)" "tables pt (pmem u) \<inter> set ys = {}" using inv by (auto simp: vm_inv_def)
  have tt: "t \<in> tables pt (pmem u)" using t by (intro tbl_tables [of 2]) auto
  then have tp: "page_aligned t" "t \<notin> set ys" using i by (auto simp: pt_ok_def)
  note sl = store_leaf [OF i(2) t, of v]
  have "kmem_inv w ys" unfolding w_def by (rule kmem_inv_same [OF i(1) sl(4) tp])
  then show "vm_grow pt [] ys u w" using sl inv tt by (auto simp: vm_grow_def vm_inv_def w_def same_outside_def dest: outsideD)
  show "vmap pt (pmem w) b = (if agree 3 b va then v else vmap pt (pmem u) b)" using sl(3) by (simp add: w_def)
qed

text \<open>The pages from \<open>a\<close>, \<open>k\<close> of them.\<close>

definition in_pages :: "u64 \<Rightarrow> nat \<Rightarrow> u64 \<Rightarrow> bool" where
  "in_pages a k b \<longleftrightarrow> unat a \<le> unat b \<and> unat b < unat a + 4096 * k"

lemma in_pages_Suc:
  assumes "page_aligned a" "a < MAXVA"
  shows "in_pages a (Suc k) b \<longleftrightarrow> PGROUNDDOWN b = a \<or> in_pages (a + PGSIZE) k b" "in_pages (a + PGSIZE) k b \<Longrightarrow> PGROUNDDOWN b \<noteq> a"
proof -
  obtain n where n: "unat a = 4096 * n" using assms(1) by (auto simp: page_aligned_unat elim: dvdE)
  have e: "PGROUNDDOWN b = a \<longleftrightarrow> unat a \<le> unat b \<and> unat b < unat a + 4096" unfolding word_unat_eq_iff PGROUNDDOWN_unat n by auto
  show "in_pages a (Suc k) b \<longleftrightarrow> PGROUNDDOWN b = a \<or> in_pages (a + PGSIZE) k b" unfolding e using next_page_less [OF assms(2)] by (auto simp: in_pages_def)
  show "in_pages (a + PGSIZE) k b \<Longrightarrow> PGROUNDDOWN b \<noteq> a" unfolding e using next_page_less [OF assms(2)] by (auto simp: in_pages_def)
qed

lemma mappages_step:
  assumes "vm_inv pt xs s" and "a < MAXVA" and "vmap pt (pmem s) a AND PTE_V = 0"
  obtains (full) u where "mappages_loop pt a last_va pa perm s = Ret (-1) u" and "vm_grow pt xs [] s u" and "vmap pt (pmem u) = vmap pt (pmem s)"
  | (mapped) u zs ys where "mappages_loop pt a last_va pa perm s = (if a = last_va then Ret 0 u else mappages_loop pt (a + PGSIZE) last_va (pa + PGSIZE) perm u)"
     and "xs = zs @ ys" and "vm_grow pt zs ys s u" and "\<forall>b. vmap pt (pmem u) b = (if agree 3 b a then PA2PTE pa OR perm OR PTE_V else vmap pt (pmem s) b)"
proof -
  obtain r u zs ys where w: "walk pt a True s = Ret r u" "xs = zs @ ys" "vm_grow pt zs ys s u" "vmap pt (pmem u) = vmap pt (pmem s)"
    "r = 0 \<and> ys = [] \<or> r \<noteq> 0 \<and> (\<exists>t2. tbl 2 pt a (pmem u) = Some t2 \<and> r = t2 + 8 * ix 2 a)" using walk_spec [OF assms(1,2)] by blast
  show ?thesis
  proof (cases "r = 0")
    case True
    then have "mappages_loop pt a last_va pa perm s = Ret (-1) u" using w(1) by (subst mappages_loop.simps) simp
    then show ?thesis using True w by (intro full [of u]) auto
  next
    case False
    then obtain t where t: "tbl 2 pt a (pmem u) = Some t" "r = t + 8 * ix 2 a" using w(5) by blast
    then have v: "load64 (pmem u) r AND PTE_V = 0" using assms(3) unfolding w(4) [symmetric] by (simp add: vmap_def)
    let ?w = "u\<lparr>pmem := store64 r (PA2PTE pa OR perm OR PTE_V) (pmem u)\<rparr>"
    have "vm_inv pt ys u" using w(3) by (simp add: vm_grow_def)
    note g = grow_leaf [OF this t(1), of "PA2PTE pa OR perm OR PTE_V", folded t(2)]
    have "vm_grow pt (zs @ []) ys s ?w" by (rule vm_grow_trans [OF _ g(1)]) (use w(3) in simp)
    moreover have "mappages_loop pt a last_va pa perm s = (if a = last_va then Ret 0 ?w else mappages_loop pt (a + PGSIZE) last_va (pa + PGSIZE) perm ?w)"
      using False v w(1) by (subst mappages_loop.simps) (simp add: Let_def)
    ultimately show ?thesis using g(2) w(2,4) by (intro mapped [of ?w zs ys]) simp_all
  qed
qed

lemma mappages_loop_spec:
  assumes "vm_inv pt xs s" and "page_aligned a" and "unat a + 4096 * Suc k \<le> unat MAXVA" and "last_va = a + of_nat (4096 * k)"
    and "\<forall>b. in_pages a (Suc k) b \<longrightarrow> vmap pt (pmem s) b AND PTE_V = 0"
  shows "\<exists>r u zs ys. mappages_loop pt a last_va pa perm s = Ret r u \<and> xs = zs @ ys \<and> vm_grow pt zs ys s u \<and> (r = 0 \<or> r = -1 \<and> ys = []) \<and>
     (\<forall>b<MAXVA. \<not> in_pages a (Suc k) b \<longrightarrow> vmap pt (pmem u) b = vmap pt (pmem s) b) \<and>
     (r = 0 \<longrightarrow> (\<forall>b. in_pages a (Suc k) b \<longrightarrow> vmap pt (pmem u) b = PA2PTE (pa + (PGROUNDDOWN b - a)) OR perm OR PTE_V))"
  using assms
proof (induction k arbitrary: a pa s xs)
  case (0 a pa s xs)
  have a: "a < MAXVA" "PGROUNDDOWN a = a" using "0.prems"(2,3) by (simp_all add: word_less_nat_alt)
  have in1: "in_pages a (Suc 0) b \<longleftrightarrow> PGROUNDDOWN b = a" for b using in_pages_Suc(1) [OF "0.prems"(2) a(1), of 0 b] by (auto simp: in_pages_def)
  have bnd: "b < MAXVA" if "PGROUNDDOWN b = a" for b using that in1 [of b] "0.prems"(3) by (auto simp: in_pages_def word_less_nat_alt)
  have un: "vmap pt (pmem s) a AND PTE_V = 0" using "0.prems"(5) in1 a by blast
  show ?case
  proof (cases rule: mappages_step [OF "0.prems"(1) a(1) un, of last_va pa perm])
    case (1 u)
    then show ?thesis by (intro exI [of _ "-1"] exI [of _ u] exI [of _ xs] exI [of _ "[]"]) simp
  next
    case (2 u zs ys)
    have "agree 3 b a \<longleftrightarrow> PGROUNDDOWN b = a" if "b < MAXVA" for b using agree_page [OF that a(1)] a(2) by simp
    then show ?thesis using 2 "0.prems"(4) in1 bnd by (intro exI [of _ 0] exI [of _ u] exI [of _ zs] exI [of _ ys]) auto
  qed
next
  case (Suc k a pa s xs)
  have a: "a < MAXVA" "PGROUNDDOWN a = a" using Suc.prems(2,3) by (simp_all add: word_less_nat_alt)
  note ip = in_pages_Suc [OF Suc.prems(2) a(1)] and nx = next_page_less [OF a(1)]
  have un: "vmap pt (pmem s) a AND PTE_V = 0" using Suc.prems(5) ip(1) [of "Suc k" a] a by blast
  have al: "page_aligned (a + PGSIZE)" using Suc.prems(2) by (simp add: page_aligned_unat nx)
  have last: "last_va = a + PGSIZE + of_nat (4096 * k)" using Suc.prems(4) by (simp add: algebra_simps)
  have ne: "a \<noteq> last_va"
  proof -
    have "unat last_va = unat a + 4096 * Suc k" using Suc.prems(3,4) unat_plus_of_nat [of a "4096 * Suc k"] by (simp add: unat_MAXVA)
    then show ?thesis by auto
  qed
  show ?case
  proof (cases rule: mappages_step [OF Suc.prems(1) a(1) un, of last_va pa perm])
    case (1 u)
    then show ?thesis by (intro exI [of _ "-1"] exI [of _ u] exI [of _ xs] exI [of _ "[]"]) simp
  next
    case (2 u zs ys)
    have lt: "b < MAXVA" if "in_pages a (Suc (Suc k)) b" for b using that Suc.prems(3) by (auto simp: in_pages_def word_less_nat_alt)
    have vm: "vmap pt (pmem u) b = (if PGROUNDDOWN b = a then PA2PTE pa OR perm OR PTE_V else vmap pt (pmem s) b)" if "b < MAXVA" for b
      using 2(4) agree_page [OF that a(1)] a(2) by simp
    have "vm_inv pt ys u" using 2(3) by (simp add: vm_grow_def)
    moreover have "\<forall>b. in_pages (a + PGSIZE) (Suc k) b \<longrightarrow> vmap pt (pmem u) b AND PTE_V = 0"
      using Suc.prems(5) ip vm lt by (metis (full_types))
    ultimately obtain r w us vs where w: "mappages_loop pt (a + PGSIZE) last_va (pa + PGSIZE) perm u = Ret r w" "ys = us @ vs" "vm_grow pt us vs u w" "r = 0 \<or> r = -1 \<and> vs = []"
      "\<forall>b<MAXVA. \<not> in_pages (a + PGSIZE) (Suc k) b \<longrightarrow> vmap pt (pmem w) b = vmap pt (pmem u) b"
      "r = 0 \<longrightarrow> (\<forall>b. in_pages (a + PGSIZE) (Suc k) b \<longrightarrow> vmap pt (pmem w) b = PA2PTE (pa + PGSIZE + (PGROUNDDOWN b - (a + PGSIZE))) OR perm OR PTE_V)"
      using Suc.IH [of ys u "a + PGSIZE" "pa + PGSIZE"] al last Suc.prems(3) nx by auto
    have "vmap pt (pmem w) b = PA2PTE (pa + (PGROUNDDOWN b - a)) OR perm OR PTE_V" if r: "r = 0" and b: "in_pages a (Suc (Suc k)) b" for b
    proof (cases "in_pages (a + PGSIZE) (Suc k) b")
      case True
      then show ?thesis using w(6) r by simp
    next
      case False
      then have "PGROUNDDOWN b = a" using ip(1) [of "Suc k" b] b by blast
      then show ?thesis using w(5) False vm lt [OF b] by simp
    qed
    moreover have "vmap pt (pmem w) b = vmap pt (pmem s) b" if "b < MAXVA" "\<not> in_pages a (Suc (Suc k)) b" for b
      using that w(5) vm ip(1) [of "Suc k" b] by auto
    ultimately show ?thesis using 2 w(1,2,3,4) ne vm_grow_trans [of pt zs us vs s u w]
      by (intro exI [of _ r] exI [of _ w] exI [of _ "zs @ us"] exI [of _ vs]) auto
  qed
qed

lemma pt_frame:
  assumes ok: "pt_ok pt m" and fr: "\<forall>p\<in>tables pt m. \<forall>x. unat (x - p) < 4096 \<longrightarrow> m' x = m x"
  shows "pt_ok pt m'" "tables pt m' = tables pt m" "vmap pt m' = vmap pt m" "d \<le> 2 \<Longrightarrow> tbl d pt va m' = tbl d pt va m"
proof -
  have keep: "load64 m' (u + 8 * ix d va) = load64 m (u + 8 * ix d va)" if "d \<le> 2" "tbl d pt va m = Some u" for d va u
  proof (rule load64_cong)
    fix i :: nat assume i: "i < 8"
    have "unat (u + 8 * ix d va + of_nat i - u) = 8 * unat (ix d va) + i"
      unfolding entry_offset using unat_plus_of_nat [of 0 "8 * unat (ix d va) + i"] entry_in_page [of d va] i by (simp add: add.assoc)
    then have "unat (u + 8 * ix d va + of_nat i - u) < 4096" using entry_in_page [of d va] i by simp
    then show "m' (u + 8 * ix d va + of_nat i) = m (u + 8 * ix d va + of_nat i)" using fr tbl_tables [OF that] by blast
  qed
  then have ch: "entry_change pt 3 0 m m'" unfolding entry_change_def by blast
  have tb: "tbl d pt va m' = tbl d pt va m" if "d \<le> 2" for d va using tbl_change [OF ch that] that by simp
  then show "pt_ok pt m'" "tables pt m' = tables pt m" using ok pt_ok_same [of pt m' m] tables_same [of pt m' m] by simp_all
  show "vmap pt m' = vmap pt m" using tb keep [of 2] by (auto simp: vmap_def fun_eq_iff split: option.splits)
  show "d \<le> 2 \<Longrightarrow> tbl d pt va m' = tbl d pt va m" by (rule tb)
qed

lemma pt_frame_page:
  assumes "pt_ok pt m" and "same_outside m m' p" and "page_aligned p" and "p \<notin> tables pt m"
  shows "pt_ok pt m'" "tables pt m' = tables pt m" "vmap pt m' = vmap pt m" "d \<le> 2 \<Longrightarrow> tbl d pt va m' = tbl d pt va m"
proof -
  have "\<forall>q\<in>tables pt m. \<forall>x. unat (x - q) < 4096 \<longrightarrow> m' x = m x"
  proof (intro ballI allI impI)
    fix q x assume q: "q \<in> tables pt m" and x: "unat (x - q) < 4096"
    then have "page_aligned q" "q \<noteq> p" using assms(1,4) by (auto simp: pt_ok_def)
    then show "m' x = m x" using page_disjoint [OF _ assms(3) _ x] assms(2) by (simp add: same_outside_def)
  qed
  note f = pt_frame [OF assms(1) this]
  show "pt_ok pt m'" "tables pt m' = tables pt m" "vmap pt m' = vmap pt m" "d \<le> 2 \<Longrightarrow> tbl d pt va m' = tbl d pt va m" by (fact f)+
qed

lemma walk_ro_tbl: "d + l = 2 \<Longrightarrow> tbl d pt va m = Some t \<Longrightarrow> walk_ro l t va m = (case tbl 2 pt va m of None \<Rightarrow> 0 | Some t2 \<Rightarrow> t2 + 8 * ix 2 va)"
proof (induction l arbitrary: d t)
  case 0
  then show ?case by (simp add: ix_def)
next
  case (Suc l)
  have "2 - d = Suc l" using Suc.prems(1) by simp
  then have px: "PX (Suc l) va = ix d va" by (simp add: ix_def)
  let ?v = "load64 m (t + 8 * ix d va)"
  show ?case
  proof (cases "?v AND PTE_V = 0")
    case True
    then have "tbl (Suc d) pt va m = None" using Suc.prems(2) by simp
    then have "tbl 2 pt va m = None" using tbl_prev [of 2 pt va m "Suc d"] Suc.prems(1) by (cases "tbl 2 pt va m") auto
    then show ?thesis using True px by (simp add: Let_def)
  next
    case False
    then have "tbl (Suc d) pt va m = Some (PTE2PA ?v)" using Suc.prems(2) by simp
    then show ?thesis using Suc.IH [of "Suc d" "PTE2PA ?v"] Suc.prems(1) False px by (simp add: Let_def)
  qed
qed

lemma walk_ro_vmap:
  assumes "pt_ok pt m" and "vmap pt m va \<noteq> 0"
  shows "\<exists>t. tbl 2 pt va m = Some t \<and> walk_ro 2 pt va m = t + 8 * ix 2 va \<and> walk_ro 2 pt va m \<noteq> 0 \<and> load64 m (walk_ro 2 pt va m) = vmap pt m va"
proof -
  obtain t where t: "tbl 2 pt va m = Some t" using assms(2) by (auto simp: vmap_def split: option.splits)
  then have "page_aligned t" "t \<noteq> 0" using assms(1) tbl_tables [OF _ t] by (auto simp: pt_ok_def)
  then show ?thesis using t walk_ro_tbl [of 0 2 pt va m pt] entry_not_null [of t 2 va] by (simp add: vmap_def)
qed

text \<open>\<open>walkaddr\<close> reads the function.\<close>

lemma translate_vmap:
  assumes "pt_ok pt m"
  shows "translate pt va m = (if va < MAXVA \<and> vmap pt m va AND PTE_V \<noteq> 0 \<and> vmap pt m va AND PTE_U \<noteq> 0 then PTE2PA (vmap pt m va) else 0)"
proof (cases "vmap pt m va = 0")
  case True
  have "walk_ro 2 pt va m = 0 \<or> load64 m (walk_ro 2 pt va m) = 0"
    using True walk_ro_tbl [of 0 2 pt va m pt] by (simp add: vmap_def split: option.splits)
  then show ?thesis using True by (auto simp: translate_def Let_def)
next
  case False
  then show ?thesis using walk_ro_vmap [OF assms False] by (auto simp: translate_def Let_def)
qed

definition touched :: "u64 \<Rightarrow> u64 \<Rightarrow> u64 \<Rightarrow> bool" where
  "touched va sz b \<longleftrightarrow> PGROUNDDOWN va \<le> PGROUNDDOWN b \<and> PGROUNDDOWN b \<le> PGROUNDDOWN (va + sz - 1)"

lemma mappages_spec:
  assumes inv: "vm_inv pt xs s" and sz: "sz \<noteq> 0" "unat va + unat sz \<le> unat MAXVA" and un: "\<forall>b. touched va sz b \<longrightarrow> vmap pt (pmem s) b AND PTE_V = 0"
  shows "\<exists>r u zs ys. mappages pt va sz pa perm s = Ret r u \<and> xs = zs @ ys \<and> vm_grow pt zs ys s u \<and> (r = 0 \<or> r = -1 \<and> ys = []) \<and>
     (\<forall>b<MAXVA. \<not> touched va sz b \<longrightarrow> vmap pt (pmem u) b = vmap pt (pmem s) b) \<and>
     (r = 0 \<longrightarrow> (\<forall>b. touched va sz b \<longrightarrow> vmap pt (pmem u) b = PA2PTE (pa + (PGROUNDDOWN b - PGROUNDDOWN va)) OR perm OR PTE_V))"
proof -
  let ?a = "PGROUNDDOWN va" and ?l = "PGROUNDDOWN (va + sz - 1)"
  define k where "k = unat ?l div 4096 - unat ?a div 4096"
  have l: "unat (va + sz - 1) = unat va + unat sz - 1"
  proof -
    have p: "0 < unat sz" using sz(1) by (simp add: unat_gt_0)
    have "va + sz - 1 = va + of_nat (unat sz - 1)" using p by (simp add: of_nat_diff)
    then have "unat (va + sz - 1) = unat (va + of_nat (unat sz - 1))" by (rule arg_cong)
    also have "\<dots> = unat va + (unat sz - 1)" using sz(2) by (intro unat_plus_of_nat) (simp add: unat_MAXVA)
    finally show ?thesis using p by simp
  qed
  have pos: "0 < unat sz" using sz(1) by (simp add: unat_gt_0)
  have ua: "unat ?a = 4096 * (unat va div 4096)" "unat ?l = 4096 * ((unat va + unat sz - 1) div 4096)" unfolding PGROUNDDOWN_unat l by simp_all
  have le: "unat va div 4096 \<le> (unat va + unat sz - 1) div 4096" using pos by (intro div_le_mono) simp
  have k: "4096 * k = unat ?l - unat ?a" "unat ?a \<le> unat ?l" using le unfolding k_def ua by (simp_all add: diff_mult_distrib2)
  have mx: "unat ?a + 4096 * Suc k \<le> unat MAXVA"
  proof -
    have "(unat va + unat sz - 1) div 4096 < 67108864" using sz(2) pos by (simp add: unat_MAXVA less_mult_imp_div_less)
    then show ?thesis using k unfolding ua(2) by (simp add: unat_MAXVA)
  qed
  have tp: "touched va sz b \<longleftrightarrow> in_pages ?a (Suc k) b" for b
  proof -
    have "touched va sz b \<longleftrightarrow> unat va div 4096 \<le> unat b div 4096 \<and> unat b div 4096 \<le> (unat va + unat sz - 1) div 4096"
      unfolding touched_def word_le_nat_alt PGROUNDDOWN_unat l by simp
    also have "\<dots> \<longleftrightarrow> unat ?a \<le> unat b \<and> unat b < unat ?l + 4096" unfolding ua by auto
    also have "\<dots> \<longleftrightarrow> in_pages ?a (Suc k) b" using k by (auto simp: in_pages_def)
    finally show ?thesis .
  qed
  have last: "?l = ?a + of_nat (4096 * k)"
    using unat_plus_of_nat [of ?a "4096 * k"] k mx by (simp add: word_unat_eq_iff unat_MAXVA)
  have "mappages pt va sz pa perm s = mappages_loop pt ?a ?l pa perm s" using sz(1) by (simp add: mappages_def)
  then show ?thesis using mappages_loop_spec [OF inv PGROUNDDOWN_aligned mx last] un unfolding tp by simp
qed

subsection \<open>uvmunmap\<close>

definition leaf :: "u64 \<Rightarrow> bool" where
  "leaf v \<longleftrightarrow> v AND PTE_V \<noteq> 0 \<and> PTE_FLAGS v \<noteq> PTE_V"

text \<open>The pages that \<open>k\<close> entries from \<open>a\<close> map.\<close>

definition mapped_pages :: "u64 \<Rightarrow> mem \<Rightarrow> u64 \<Rightarrow> nat \<Rightarrow> u64 list" where
  "mapped_pages pt m a k = map (\<lambda>j. PTE2PA (vmap pt m (a + of_nat (4096 * j)))) [0..<k]"

definition owned :: "u64 \<Rightarrow> u64 list \<Rightarrow> u64 list \<Rightarrow> 'z kmem_scheme \<Rightarrow> bool" where
  "owned pt ps xs s \<longleftrightarrow> distinct ps \<and> (\<forall>p\<in>set ps. page_ok (kend s) p \<and> p \<notin> set xs \<and> p \<notin> tables pt (pmem s))"

text \<open>The entries above the lowest level, and those of the upper half of the address space, are the same.\<close>

definition upper_same :: "u64 \<Rightarrow> mem \<Rightarrow> mem \<Rightarrow> bool" where
  "upper_same pt m m' \<longleftrightarrow> (\<forall>d<2. \<forall>va t. tbl d pt va m = Some t \<longrightarrow> load64 m' (t + 8 * ix d va) = load64 m (t + 8 * ix d va)) \<and>
     (\<forall>b. 256 \<le> unat (ix 0 b) \<longrightarrow> vmap pt m' b = vmap pt m b)"

lemma upper_same_tbl: "upper_same pt m m' \<Longrightarrow> d \<le> 2 \<Longrightarrow> tbl d pt va m' = tbl d pt va m"
  by (induction d) (auto simp: upper_same_def split: option.splits)

lemma upper_same_trans: "upper_same pt m m' \<Longrightarrow> upper_same pt m' m'' \<Longrightarrow> upper_same pt m m''"
  using upper_same_tbl [of pt m m'] unfolding upper_same_def by (auto simp: less_imp_le)

lemma upper_same_refl [simp]: "upper_same pt m m"
  by (simp add: upper_same_def)

lemma upper_same_page:
  assumes "pt_ok pt m" and "same_outside m m' p" and "page_aligned p" and "p \<notin> tables pt m"
  shows "upper_same pt m m'"
proof -
  have "load64 m' (t + 8 * ix d va) = load64 m (t + 8 * ix d va)" if "d < 2" "tbl d pt va m = Some t" for d va t
  proof -
    have "t \<in> tables pt m" using that by (intro tbl_tables [of d]) auto
    then have "page_aligned t" "t \<noteq> p" using assms(1,4) by (auto simp: pt_ok_def)
    then show ?thesis using assms(2,3) by (intro entry_other_page [of m m' p]) auto
  qed
  then show ?thesis using pt_frame_page(3) [OF assms] by (simp add: upper_same_def)
qed

lemma upper_same_leaf:
  assumes "pt_ok pt m" and "tbl 2 pt a m = Some t" and "a < MAXVA"
  shows "upper_same pt m (store64 (t + 8 * ix 2 a) v m)"
proof -
  have "entry_change pt 2 a m (store64 (t + 8 * ix 2 a) v m)" by (rule store_entry [OF assms(1,2)]) simp
  then have "\<forall>d<2. \<forall>va u. tbl d pt va m = Some u \<longrightarrow> load64 (store64 (t + 8 * ix 2 a) v m) (u + 8 * ix d va) = load64 m (u + 8 * ix d va)"
    by (simp add: entry_change_def)
  moreover have "\<not> agree 3 b a" if "256 \<le> unat (ix 0 b)" for b
  proof
    assume "agree 3 b a"
    then have "ix 0 a = ix 0 b" by (simp add: agree_def)
    moreover have "unat (ix 0 a) < 2 ^ 8" 
    proof -
      have "bit (ix 0 a) n \<Longrightarrow> n < 8" for n using below_MAXVA [OF assms(3), of "30 + n"] by (simp add: bit_ix)
      then have "ix 0 a = take_bit 8 (ix 0 a)" by (intro bit_eqI) (auto simp: bit_simps)
      then have "unat (ix 0 a) = take_bit 8 (unat (ix 0 a))" by (metis unsigned_take_bit_eq)
      then show ?thesis using take_bit_nat_less_exp [of 8 "unat (ix 0 a)"] by metis
    qed
    ultimately show False using that by simp
  qed
  ultimately show ?thesis using store_leaf(3) [OF assms(1,2), of v] by (simp add: upper_same_def)
qed

lemma free_owned:
  assumes inv: "vm_inv pt xs s" and p: "page_ok (kend s) p" "p \<notin> set xs" "p \<notin> tables pt (pmem s)"
  shows "\<exists>u. kfree p s = Ret () u \<and> vm_inv pt (p # xs) u \<and> kend u = kend s \<and> tables pt (pmem u) = tables pt (pmem s) \<and> vmap pt (pmem u) = vmap pt (pmem s) \<and>
     (\<forall>d\<le>2. \<forall>va. tbl d pt va (pmem u) = tbl d pt va (pmem s)) \<and> same_outside (pmem s) (pmem u) p"
proof -
  have i: "kmem_inv s xs" "cpu_ok s" "pt_ok pt (pmem s)" "tables pt (pmem s) \<inter> set xs = {}" using inv by (auto simp: vm_inv_def)
  let ?m = "store64 p (freelist s) (memset p 1 4096 (pmem s))" let ?u = "(settle s)\<lparr>pmem := ?m, freelist := p\<rparr>"
  have al: "page_aligned p" using p(1) by (simp add: page_ok_def)
  have so: "same_outside (pmem s) ?m p" using same_outside_trans [OF same_outside_memset same_outside_store64 [of 0 p]] al by simp
  note f = pt_frame_page [OF i(3) so al p(3)]
  show ?thesis using kmem_inv_free [OF i(1,2) p(1,2)] f so i(2,4) p(3) by (intro exI [of _ ?u]) (simp add: vm_inv_def)
qed

lemma unmap_one:
  assumes inv: "vm_inv pt xs s" and lf: "leaf (vmap pt (pmem s) a)" and al: "a < MAXVA" "PGROUNDDOWN a = a" and p: "p = PTE2PA (vmap pt (pmem s) a)"
    and ow: "do_free \<Longrightarrow> page_ok (kend s) p \<and> p \<notin> set xs \<and> p \<notin> tables pt (pmem s)"
    and le: "a < end_va"
  obtains u where "uvmunmap_loop pt a end_va do_free s = uvmunmap_loop pt (a + PGSIZE) end_va do_free u" and "vm_inv pt (if do_free then p # xs else xs) u"
    and "kend u = kend s" and "tables pt (pmem u) = tables pt (pmem s)" and "\<forall>b<MAXVA. vmap pt (pmem u) b = (if PGROUNDDOWN b = a then 0 else vmap pt (pmem s) b)"
    and "\<forall>x. outside (tables pt (pmem s) \<union> (if do_free then {p} else {})) x \<longrightarrow> pmem u x = pmem s x" and "upper_same pt (pmem s) (pmem u)"
proof -
  have ok: "pt_ok pt (pmem s)" using inv by (simp add: vm_inv_def)
  have nz: "vmap pt (pmem s) a \<noteq> 0" using lf by (auto simp: leaf_def)
  obtain t where t: "tbl 2 pt a (pmem s) = Some t" "walk_ro 2 pt a (pmem s) = t + 8 * ix 2 a" "walk_ro 2 pt a (pmem s) \<noteq> 0"
    "load64 (pmem s) (walk_ro 2 pt a (pmem s)) = vmap pt (pmem s) a" using walk_ro_vmap [OF ok nz] by blast
  define do1 where "do1 = (if do_free then kfree p s else Ret () s)"
  obtain s1 where s1: "do1 = Ret () s1" "vm_inv pt (if do_free then p # xs else xs) s1" "kend s1 = kend s" "tables pt (pmem s1) = tables pt (pmem s)" "vmap pt (pmem s1) = vmap pt (pmem s)"
    "tbl 2 pt a (pmem s1) = Some t" "\<forall>x. (do_free \<longrightarrow> \<not> unat (x - p) < 4096) \<longrightarrow> pmem s1 x = pmem s x" "upper_same pt (pmem s) (pmem s1)"
  proof (cases do_free)
    case True
    then obtain u where u: "kfree p s = Ret () u" "vm_inv pt (p # xs) u" "kend u = kend s" "tables pt (pmem u) = tables pt (pmem s)" "vmap pt (pmem u) = vmap pt (pmem s)"
      "\<forall>d\<le>2. \<forall>va. tbl d pt va (pmem u) = tbl d pt va (pmem s)" "same_outside (pmem s) (pmem u) p" using free_owned [OF inv, of p] ow by blast
    moreover have "upper_same pt (pmem s) (pmem u)" using ok True ow u(7) by (intro upper_same_page [of _ _ _ p]) (simp_all add: page_ok_def)
    ultimately show ?thesis using True t(1) by (intro that [of u]) (auto simp: do1_def same_outside_def)
  qed (use inv t(1) that in \<open>simp add: do1_def\<close>)
  let ?u = "s1\<lparr>pmem := store64 (t + 8 * ix 2 a) 0 (pmem s1)\<rparr>"
  note g = grow_leaf [OF s1(2,6), of 0]
  have "uvmunmap_loop pt a end_va do_free s = andthen do1 (\<lambda>_ s. uvmunmap_loop pt (a + PGSIZE) end_va do_free (s\<lparr>pmem := store64 (t + 8 * ix 2 a) 0 (pmem s)\<rparr>))"
    using le lf t al(1) p by (subst uvmunmap_loop.simps) (simp add: walk_False leaf_def do1_def)
  then have "uvmunmap_loop pt a end_va do_free s = uvmunmap_loop pt (a + PGSIZE) end_va do_free ?u" using s1(1) by simp
  moreover have "vmap pt (pmem ?u) b = (if PGROUNDDOWN b = a then 0 else vmap pt (pmem s) b)" if "b < MAXVA" for b
    using g(2) [of b] agree_page [OF that al(1)] al(2) s1(5) by simp
  moreover have "pmem ?u x = pmem s x" if "outside (tables pt (pmem s) \<union> (if do_free then {p} else {})) x" for x
  proof -
    have "pmem ?u x = pmem s1 x" using g(1) that s1(4) by (simp add: vm_grow_def)
    also have "\<dots> = pmem s x" using s1(7) that by (auto split: if_splits)
    finally show ?thesis .
  qed
  moreover have "upper_same pt (pmem s) (pmem ?u)"
    using upper_same_trans [OF s1(8) upper_same_leaf [OF _ s1(6) al(1), of 0]] s1(2) by (simp add: vm_inv_def)
  ultimately show ?thesis using g(1) s1 by (intro that [of ?u]) (simp_all add: vm_grow_def)
qed

lemma uvmunmap_loop_spec:
  assumes "vm_inv pt xs s" and "page_aligned a" and "unat a + 4096 * k \<le> unat MAXVA" and "end_va = a + of_nat (4096 * k)"
    and "\<forall>j<k. leaf (vmap pt (pmem s) (a + of_nat (4096 * j)))" and "ps = (if do_free then mapped_pages pt (pmem s) a k else [])" and "owned pt ps xs s"
  shows "\<exists>u. uvmunmap_loop pt a end_va do_free s = Ret () u \<and> vm_inv pt (rev ps @ xs) u \<and> kend u = kend s \<and> tables pt (pmem u) = tables pt (pmem s) \<and>
     (\<forall>b<MAXVA. vmap pt (pmem u) b = (if in_pages a k b then 0 else vmap pt (pmem s) b)) \<and> (\<forall>x. outside (tables pt (pmem s) \<union> set ps) x \<longrightarrow> pmem u x = pmem s x) \<and>
     upper_same pt (pmem s) (pmem u)"
  using assms
proof (induction k arbitrary: a xs s ps)
  case 0
  moreover have "\<not> in_pages a 0 b" for a b by (simp add: in_pages_def)
  ultimately show ?case by (subst uvmunmap_loop.simps) (simp add: mapped_pages_def)
next
  case (Suc k a xs s ps)
  have a: "a < MAXVA" "PGROUNDDOWN a = a" using Suc.prems(2,3) by (simp_all add: word_less_nat_alt)
  note nx = next_page_less [OF a(1)] and ip = in_pages_Suc [OF Suc.prems(2) a(1)]
  have ue: "unat end_va = unat a + 4096 * Suc k" using Suc.prems(3,4) unat_plus_of_nat [of a "4096 * Suc k"] by (simp add: unat_MAXVA)
  have lt: "a < end_va" using ue by (simp add: word_less_nat_alt)
  define p where "p = PTE2PA (vmap pt (pmem s) a)"
  define qs where "qs = (if do_free then mapped_pages pt (pmem s) (a + PGSIZE) k else [])"
  have step: "a + of_nat (4096 * Suc j) = a + PGSIZE + of_nat (4096 * j)" for j by (simp add: algebra_simps)
  have ps: "ps = (if do_free then p # qs else [])"
    unfolding Suc.prems(6) qs_def mapped_pages_def p_def by (simp add: upt_conv_Cons map_Suc_upt [symmetric] comp_def algebra_simps del: upt_Suc)
  have "leaf (vmap pt (pmem s) a)" using Suc.prems(5) [rule_format, of 0] by simp
  moreover have "page_ok (kend s) p \<and> p \<notin> set xs \<and> p \<notin> tables pt (pmem s)" if do_free using Suc.prems(7) ps that by (simp add: owned_def)
  ultimately obtain u where u: "uvmunmap_loop pt a end_va do_free s = uvmunmap_loop pt (a + PGSIZE) end_va do_free u" "vm_inv pt (if do_free then p # xs else xs) u"
    "kend u = kend s" "tables pt (pmem u) = tables pt (pmem s)" "\<forall>b<MAXVA. vmap pt (pmem u) b = (if PGROUNDDOWN b = a then 0 else vmap pt (pmem s) b)"
    "\<forall>x. outside (tables pt (pmem s) \<union> (if do_free then {p} else {})) x \<longrightarrow> pmem u x = pmem s x" "upper_same pt (pmem s) (pmem u)"
    using unmap_one [OF Suc.prems(1) _ a p_def _ lt, of do_free] by blast
  have vj: "vmap pt (pmem u) (a + PGSIZE + of_nat (4096 * j)) = vmap pt (pmem s) (a + of_nat (4096 * Suc j))" if "j < k" for j
  proof -
    have "unat (a + PGSIZE + of_nat (4096 * j)) = unat a + 4096 + 4096 * j" using unat_plus_of_nat [of "a + PGSIZE" "4096 * j"] nx Suc.prems(3) that by (simp add: unat_MAXVA)
    then have "in_pages (a + PGSIZE) k (a + PGSIZE + of_nat (4096 * j))" "a + PGSIZE + of_nat (4096 * j) < MAXVA" using nx Suc.prems(3) that by (auto simp: in_pages_def word_less_nat_alt)
    then show ?thesis using u(5) ip(2) unfolding step by simp
  qed
  have "page_aligned (a + PGSIZE)" using Suc.prems(2) by (simp add: page_aligned_unat nx)
  moreover have "unat (a + PGSIZE) + 4096 * k \<le> unat MAXVA" "end_va = a + PGSIZE + of_nat (4096 * k)" using nx Suc.prems(3,4) by (simp_all add: algebra_simps)
  moreover have "\<forall>j<k. leaf (vmap pt (pmem u) (a + PGSIZE + of_nat (4096 * j)))"
  proof (intro allI impI)
    fix j assume j: "j < k"
    then have "Suc j < Suc k" by simp
    from Suc.prems(5) [rule_format, OF this] show "leaf (vmap pt (pmem u) (a + PGSIZE + of_nat (4096 * j)))" unfolding vj [OF j] .
  qed
  moreover have "qs = (if do_free then mapped_pages pt (pmem u) (a + PGSIZE) k else [])"
    unfolding qs_def mapped_pages_def using vj [unfolded step] by (auto intro!: map_cong arg_cong [of _ _ PTE2PA] simp del: of_nat_mult)
  moreover have "owned pt qs (if do_free then p # xs else xs) u" using Suc.prems(7) ps u(3,4) unfolding qs_def owned_def by auto
  ultimately obtain w where w: "uvmunmap_loop pt (a + PGSIZE) end_va do_free u = Ret () w" "vm_inv pt (rev qs @ (if do_free then p # xs else xs)) w" "kend w = kend u"
    "tables pt (pmem w) = tables pt (pmem u)" "\<forall>b<MAXVA. vmap pt (pmem w) b = (if in_pages (a + PGSIZE) k b then 0 else vmap pt (pmem u) b)"
    "\<forall>x. outside (tables pt (pmem u) \<union> set qs) x \<longrightarrow> pmem w x = pmem u x" "upper_same pt (pmem u) (pmem w)"
    using Suc.IH [OF u(2)] by blast
  have qn: "qs = []" if "\<not> do_free" using that by (simp add: qs_def)
  show ?case
  proof (intro exI [of _ w] conjI)
    show "\<forall>b<MAXVA. vmap pt (pmem w) b = (if in_pages a (Suc k) b then 0 else vmap pt (pmem s) b)" using w(5) u(5) ip(1) by auto
    show "\<forall>x. outside (tables pt (pmem s) \<union> set ps) x \<longrightarrow> pmem w x = pmem s x" using w(6) u(4,6) ps qn by (cases do_free) simp_all
    show "upper_same pt (pmem s) (pmem w)" using upper_same_trans [OF u(7) w(7)] .
  qed (use u w ps qn in \<open>auto split: if_splits\<close>)
qed

subsection \<open>uvmcopy\<close>

definition pg :: "nat \<Rightarrow> u64" where
  "pg l = of_nat (4096 * l)"

lemma PTE_FLAGS_take: "PTE_FLAGS e = take_bit 10 e"
  by (simp add: PTE_FLAGS_def take_bit_eq_mask mask_eq_exp_minus_1)

lemma flags_small: "PTE_FLAGS e < 1024"
proof -
  have "unat (PTE_FLAGS e) = take_bit 10 (unat e)" by (simp add: PTE_FLAGS_take unsigned_take_bit_eq)
  then show ?thesis using take_bit_nat_less_exp [of 10 "unat e"] by (simp add: word_less_nat_alt)
qed

lemma flags_valid: "e AND PTE_V \<noteq> 0 \<Longrightarrow> PTE_FLAGS e OR PTE_V = PTE_FLAGS e"
proof -
  assume "e AND PTE_V \<noteq> 0"
  then have "bit e 0" by (simp add: bit_0 and_one_eq odd_iff_mod_2_eq_one)
  then show ?thesis unfolding PTE_FLAGS_take by (intro bit_eqI) (auto simp: bit_simps)
qed

text \<open>The copy of an entry: the same flags, another page.\<close>

definition pte_copy :: "u64 \<Rightarrow> u64 \<Rightarrow> u64" where
  "pte_copy c e = PA2PTE c OR PTE_FLAGS e OR PTE_V"

lemma pte_copy_simps:
  assumes "page_aligned c" "leaf e"
  shows "PTE2PA (pte_copy c e) = c" "PTE_FLAGS (pte_copy c e) = PTE_FLAGS e" "leaf (pte_copy c e)"
proof -
  have "pte_copy c e = PA2PTE c OR PTE_FLAGS e" using flags_valid [of e] assms(2) by (simp add: pte_copy_def leaf_def or.assoc)
  then show r: "PTE2PA (pte_copy c e) = c" "PTE_FLAGS (pte_copy c e) = PTE_FLAGS e" using pte_roundtrip [OF assms(1) flags_small] by simp_all
  show "leaf (pte_copy c e)" unfolding leaf_def r(2) using assms(2) new_pte(2) by (simp add: pte_copy_def leaf_def)
qed

text \<open>A copy in progress: the pages \<open>qs\<close> are copied, \<open>xs\<close> is free, and \<open>n\<close> pages are to be copied in all.\<close>

definition copying :: "u64 \<Rightarrow> u64 \<Rightarrow> nat \<Rightarrow> u64 list \<Rightarrow> u64 list \<Rightarrow> 'z kmem_scheme \<Rightarrow> bool" where
  "copying P Q n qs xs s \<longleftrightarrow> vm_inv Q xs s \<and> pt_ok P (pmem s) \<and> tables P (pmem s) \<inter> (tables Q (pmem s) \<union> set xs \<union> set qs) = {} \<and>
     (\<forall>l<n. leaf (vmap P (pmem s) (pg l)) \<and> page_ok (kend s) (PTE2PA (vmap P (pmem s) (pg l))) \<and>
        PTE2PA (vmap P (pmem s) (pg l)) \<notin> tables Q (pmem s) \<union> set xs \<union> set qs) \<and>
     length qs \<le> n \<and> owned Q qs xs s \<and> (\<forall>l<length qs. vmap Q (pmem s) (pg l) = pte_copy (qs ! l) (vmap P (pmem s) (pg l))) \<and>
     (\<forall>b. in_pages (pg (length qs)) (n - length qs) b \<longrightarrow> vmap Q (pmem s) b = 0) \<and> 4096 * n \<le> unat MAXVA"

lemma unat_pg: "4096 * l \<le> unat MAXVA \<Longrightarrow> unat (pg l) = 4096 * l"
  using unat_plus_of_nat [of 0 "4096 * l"] by (simp add: pg_def unat_MAXVA)

lemma copy_undo:
  assumes c: "copying P Q n qs xs s" and u: "vm_inv Q ys u" "kend u = kend s" "\<forall>p\<in>set qs. p \<notin> tables Q (pmem u) \<and> p \<notin> set ys"
    and v: "\<forall>b<MAXVA. vmap Q (pmem u) b = vmap Q (pmem s) b"
  shows "\<exists>w. uvmunmap Q 0 (pg (length qs) div PGSIZE) True u = Ret () w \<and> vm_inv Q (rev qs @ ys) w \<and> tables Q (pmem w) = tables Q (pmem u) \<and>
     (\<forall>b<MAXVA. vmap Q (pmem w) b = (if in_pages 0 (length qs) b then 0 else vmap Q (pmem s) b)) \<and> (\<forall>x. outside (tables Q (pmem u) \<union> set qs) x \<longrightarrow> pmem w x = pmem u x)"
proof -
  let ?j = "length qs"
  have j: "4096 * ?j \<le> unat MAXVA" "?j \<le> n" using c by (auto simp: copying_def)
  have lt: "pg l < MAXVA" if "l < ?j" for l using unat_pg [of l] j that by (simp add: word_less_nat_alt)
  have e: "vmap Q (pmem u) (pg l) = pte_copy (qs ! l) (vmap P (pmem s) (pg l))" "leaf (vmap P (pmem s) (pg l))" "page_aligned (qs ! l)" if "l < ?j" for l
    using c v lt that j(2) by (auto simp: copying_def owned_def page_ok_def)
  have "mapped_pages Q (pmem u) 0 ?j = qs"
    unfolding mapped_pages_def add_0 pg_def [symmetric] using e pte_copy_simps(1) by (auto intro: nth_equalityI)
  moreover have "owned Q qs ys u" using c u by (auto simp: copying_def owned_def)
  moreover have "\<forall>l<?j. leaf (vmap Q (pmem u) (0 + of_nat (4096 * l)))" unfolding add_0 pg_def [symmetric] using e pte_copy_simps(3) by simp
  moreover have "(0 :: u64) + pg ?j div PGSIZE * PGSIZE = 0 + of_nat (4096 * ?j)"
    using unat_pg [OF j(1)] j(1) by (simp add: word_unat_eq_iff unat_div_distrib unat_mult_lem [THEN iffD1] unat_MAXVA) (simp add: pg_def word_unat_eq_iff)
  ultimately have "\<exists>w. uvmunmap_loop Q 0 (0 + pg ?j div PGSIZE * PGSIZE) True u = Ret () w \<and> vm_inv Q (rev qs @ ys) w \<and> kend w = kend u \<and> tables Q (pmem w) = tables Q (pmem u) \<and>
     (\<forall>b<MAXVA. vmap Q (pmem w) b = (if in_pages 0 ?j b then 0 else vmap Q (pmem u) b)) \<and> (\<forall>x. outside (tables Q (pmem u) \<union> set qs) x \<longrightarrow> pmem w x = pmem u x)"
    using uvmunmap_loop_spec [OF u(1), of 0 ?j _ qs True] j(1) by (simp add: page_aligned_def) metis
  then show ?thesis using v by (auto simp: uvmunmap_def)
qed

lemma outside_page:
  assumes "page_aligned p" "p \<notin> T" "\<forall>q\<in>T. page_aligned q" "unat (x - p) < 4096"
  shows "outside T x"
  unfolding outside_def using assms page_disjoint [OF assms(1) _ _ assms(4)] by metis

lemma page_last: "page_aligned a \<Longrightarrow> unat a + 4096 \<le> unat MAXVA \<Longrightarrow> PGROUNDDOWN (a + PGSIZE - 1) = a"
proof -
  assume a: "page_aligned a" "unat a + 4096 \<le> unat MAXVA"
  have "unat (a + PGSIZE - 1) = unat a + 4095" using unat_plus_of_nat [of a 4095] a(2) by (simp add: unat_MAXVA add_diff_eq [symmetric])
  then show ?thesis using a(1) by (auto simp: word_unat_eq_iff PGROUNDDOWN_unat page_aligned_unat elim!: dvdE)
qed

lemma pg_pages: "4096 * n \<le> unat MAXVA \<Longrightarrow> l < n \<Longrightarrow> page_aligned (pg l) \<and> pg l < MAXVA \<and> unat (pg l) = 4096 * l \<and> pg l + PGSIZE = pg (Suc l)"
  using unat_pg [of l] by (auto simp: page_aligned_unat word_less_nat_alt pg_def algebra_simps)

text \<open>The new page with the contents of the old one, before it is mapped.\<close>

lemma copy_page:
  assumes cp: "copying P Q n qs (c # ys) s" and j: "length qs < n"
  defines "pa \<equiv> PTE2PA (vmap P (pmem s) (pg (length qs)))"
  defines "s2 \<equiv> (settle s)\<lparr>freelist := load64 (pmem s) c, pmem := memmove c pa 4096 (memset c 5 4096 (pmem s))\<rparr>"
  shows "vm_inv Q ys s2" "same_outside (pmem s) (pmem s2) c" "\<forall>x. unat x < 4096 \<longrightarrow> pmem s2 (c + x) = pmem s (pa + x)" "page_ok (kend s) c" "c \<notin> set ys" "c \<notin> set qs"
    "c \<notin> tables Q (pmem s)" "tables Q (pmem s2) = tables Q (pmem s)" "vmap Q (pmem s2) = vmap Q (pmem s)" "kend s2 = kend s" "c \<noteq> 0"
    "kalloc s = Ret c ((settle s)\<lparr>freelist := load64 (pmem s) c, pmem := memset c 5 4096 (pmem s)\<rparr>)"
proof -
  have inv: "vm_inv Q (c # ys) s" and ow: "owned Q qs (c # ys) s" using cp by (simp_all add: copying_def)
  have i: "kmem_inv s (c # ys)" "cpu_ok s" "pt_ok Q (pmem s)" "tables Q (pmem s) \<inter> set ys = {}" using inv by (auto simp: vm_inv_def)
  show c: "page_ok (kend s) c" "c \<notin> set ys" "c \<notin> set qs" "c \<notin> tables Q (pmem s)" "c \<noteq> 0" using i(1) inv ow by (auto simp: kmem_inv_def vm_inv_def owned_def)
  have al: "page_aligned c" using c(1) by (simp add: page_ok_def)
  have "page_ok (kend s) pa" "pa \<noteq> c" using cp j unfolding copying_def pa_def by auto
  then have pa: "page_aligned pa" "pa < PHYSTOP" "pa \<noteq> c" by (simp_all add: page_ok_def)
  have top: "unat PHYSTOP = 2281701376" by (simp add: PHYSTOP_def KERNBASE_def)
  have mm: "pmem s2 x = (if unat (x - c) < 4096 then memset c 5 4096 (pmem s) (pa + (x - c)) else memset c 5 4096 (pmem s) x)" for x
    unfolding s2_def using memmove_apply [of c 4096 pa "memset c 5 4096 (pmem s)" x] pa(2) c(1) by (simp add: page_ok_def word_less_nat_alt top)
  show so: "same_outside (pmem s) (pmem s2) c" by (simp add: same_outside_def mm memset_apply)
  show "\<forall>x. unat x < 4096 \<longrightarrow> pmem s2 (c + x) = pmem s (pa + x)"
  proof (intro allI impI)
    fix x :: u64 assume x: "unat x < 4096"
    then have "\<not> unat (pa + x - c) < 4096" using page_disjoint [OF pa(1) al pa(3), of "pa + x"] by simp
    then show "pmem s2 (c + x) = pmem s (pa + x)" using x by (simp add: mm memset_apply)
  qed
  note f = pt_frame_page [OF i(3) so al c(4)]
  show "tables Q (pmem s2) = tables Q (pmem s)" "vmap Q (pmem s2) = vmap Q (pmem s)" by (fact f)+
  show "kend s2 = kend s" by (simp add: s2_def)
  note ka = kmem_inv_alloc [OF i(1,2)]
  show "kalloc s = Ret c ((settle s)\<lparr>freelist := load64 (pmem s) c, pmem := memset c 5 4096 (pmem s)\<rparr>)" using ka by simp
  let ?s1 = "(settle s)\<lparr>freelist := load64 (pmem s) c, pmem := memset c 5 4096 (pmem s)\<rparr>"
  have "same_outside (pmem ?s1) (pmem s2) c" by (simp add: same_outside_def mm)
  then have "kmem_inv s2 ys" using kmem_inv_same [of ?s1 ys "pmem s2" c] ka al c(2) by (simp add: s2_def)
  then show "vm_inv Q ys s2" using f i(2,4) by (simp add: vm_inv_def s2_def)
qed

text \<open>Work on \<open>Q\<close> that stays within its tables and the free pages does not change the other address space.\<close>

lemma copying_frame:
  assumes cp: "copying P Q n qs xs s" and fr: "\<forall>x. outside (tables Q (pmem s) \<union> set xs) x \<longrightarrow> m' x = pmem s x"
  shows "pt_ok P m'" "tables P m' = tables P (pmem s)" "vmap P m' = vmap P (pmem s)"
    "page_aligned p \<Longrightarrow> p \<notin> tables Q (pmem s) \<union> set xs \<Longrightarrow> unat x < 4096 \<Longrightarrow> m' (p + x) = pmem s (p + x)"
proof -
  have T: "\<forall>q\<in>tables Q (pmem s) \<union> set xs. page_aligned q" using cp by (auto simp: copying_def vm_inv_def pt_ok_def kmem_inv_def page_ok_def)
  have ok: "pt_ok P (pmem s)" using cp by (simp add: copying_def)
  have "\<forall>p\<in>tables P (pmem s). \<forall>x. unat (x - p) < 4096 \<longrightarrow> m' x = pmem s x"
  proof (intro ballI allI impI)
    fix p x assume p: "p \<in> tables P (pmem s)" and x: "unat (x - p) < 4096"
    then have "page_aligned p" "p \<notin> tables Q (pmem s) \<union> set xs" using ok cp by (auto simp: pt_ok_def copying_def)
    then show "m' x = pmem s x" using fr outside_page [OF _ _ T x] by blast
  qed
  note f = pt_frame [OF ok this]
  show "pt_ok P m'" "tables P m' = tables P (pmem s)" "vmap P m' = vmap P (pmem s)" by (fact f)+
  show "m' (p + x) = pmem s (p + x)" if "page_aligned p" "p \<notin> tables Q (pmem s) \<union> set xs" "unat x < 4096"
    using fr outside_page [OF that(1,2) T, of "p + x"] that(3) by simp
qed

lemma copy_mapped:
  assumes cp: "copying P Q n qs (c # ys) s" and j: "length qs < n" and g: "vm_grow Q zs ws s2 u" and ys: "ys = zs @ ws"
    and s2: "same_outside (pmem s) (pmem s2) c" "tables Q (pmem s2) = tables Q (pmem s)" "vmap Q (pmem s2) = vmap Q (pmem s)" "kend s2 = kend s"
    and c: "page_ok (kend s) c" "c \<notin> set ys" "c \<notin> set qs" "c \<notin> tables Q (pmem s)"
    and v1: "\<forall>b<MAXVA. PGROUNDDOWN b \<noteq> pg (length qs) \<longrightarrow> vmap Q (pmem u) b = vmap Q (pmem s2) b"
    and v2: "vmap Q (pmem u) (pg (length qs)) = pte_copy c (vmap P (pmem s) (pg (length qs)))"
  shows "copying P Q n (qs @ [c]) ws u" "\<forall>x. outside (tables Q (pmem s) \<union> set (c # ys)) x \<longrightarrow> pmem u x = pmem s x"
    "\<forall>x. unat x < 4096 \<longrightarrow> pmem u (c + x) = pmem s2 (c + x)" "tables Q (pmem u) = tables Q (pmem s) \<union> set zs"
proof -
  let ?j = "length qs"
  have mx: "4096 * n \<le> unat MAXVA" using cp by (simp add: copying_def)
  have ta: "tables Q (pmem u) = tables Q (pmem s) \<union> set zs" and inv: "vm_inv Q ws u" and ke: "kend u = kend s" using g s2 by (auto simp: vm_grow_def)
  have al: "page_aligned c" using c(1) by (simp add: page_ok_def)
  show fr: "\<forall>x. outside (tables Q (pmem s) \<union> set (c # ys)) x \<longrightarrow> pmem u x = pmem s x"
    using g s2(1,2) ys by (auto simp: vm_grow_def same_outside_def outside_def)
  show "\<forall>x. unat x < 4096 \<longrightarrow> pmem u (c + x) = pmem s2 (c + x)"
  proof (intro allI impI)
    fix x :: u64 assume x: "unat x < 4096"
    have "\<forall>q\<in>tables Q (pmem s2) \<union> set zs. page_aligned q" using g by (auto simp: vm_grow_def vm_inv_def pt_ok_def)
    then have "outside (tables Q (pmem s2) \<union> set zs) (c + x)" using outside_page [OF al, of "tables Q (pmem s2) \<union> set zs" "c + x"] x c ys s2(2) by simp
    then show "pmem u (c + x) = pmem s2 (c + x)" using g by (simp add: vm_grow_def)
  qed
  show "tables Q (pmem u) = tables Q (pmem s) \<union> set zs" by fact
  note f = copying_frame [OF cp fr]
  have ag: "PGROUNDDOWN (pg l) = pg l" "pg l < MAXVA" if "l < n" for l using pg_pages [OF mx that] by simp_all
  have "vmap Q (pmem u) (pg l) = pte_copy ((qs @ [c]) ! l) (vmap P (pmem s) (pg l))" if "l < Suc ?j" for l
  proof (cases "l = ?j")
    case False
    then have l: "l < ?j" "l < n" using that j by auto
    then have "pg l \<noteq> pg ?j" using pg_pages [OF mx l(2)] pg_pages [OF mx j] by (metis mult_cancel1 less_irrefl zero_neq_numeral)
    then have "vmap Q (pmem u) (pg l) = vmap Q (pmem s) (pg l)" using v1 ag [OF l(2)] s2(3) by simp
    then show ?thesis using cp l by (simp add: copying_def nth_append)
  qed (use v2 in simp)
  moreover have "vmap Q (pmem u) b = 0" if b: "in_pages (pg (Suc ?j)) (n - Suc ?j) b" for b
  proof -
    have e: "pg ?j + PGSIZE = pg (Suc ?j)" "page_aligned (pg ?j)" "pg ?j < MAXVA" using pg_pages [OF mx j] by simp_all
    note ip = in_pages_Suc [OF e(2,3), of "n - Suc ?j" b, unfolded e(1)]
    have sj: "unat (pg (Suc ?j)) = 4096 * Suc ?j" using unat_pg [of "Suc ?j"] mx j by simp
    have "n - ?j = Suc (n - Suc ?j)" using j by simp
    then have i1: "in_pages (pg ?j) (n - ?j) b" using ip(1) b by simp
    have "unat b < 4096 * Suc ?j + 4096 * (n - Suc ?j)" using b unfolding in_pages_def sj by blast
    also have "\<dots> = 4096 * n" using j unfolding distrib_left [symmetric] by simp
    finally have "unat b < unat MAXVA" using mx by (rule order.strict_trans2)
    then have "vmap Q (pmem u) b = vmap Q (pmem s) b" using v1 ip(2) [OF b] s2(3) by (simp add: word_less_nat_alt)
    then show ?thesis using cp i1 by (simp add: copying_def)
  qed
  moreover have "tables P (pmem u) \<inter> (tables Q (pmem u) \<union> set ws \<union> set (qs @ [c])) = {}" using cp f(2) ta ys by (auto simp: copying_def)
  moreover have "owned Q (qs @ [c]) ws u" using cp c ta ke ys by (auto simp: copying_def owned_def)
  moreover have "\<forall>l<n. leaf (vmap P (pmem u) (pg l)) \<and> page_ok (kend u) (PTE2PA (vmap P (pmem u) (pg l))) \<and> PTE2PA (vmap P (pmem u) (pg l)) \<notin> tables Q (pmem u) \<union> set ws \<union> set (qs @ [c])"
    using cp ta ke ys unfolding copying_def f(3) by auto
  ultimately show "copying P Q n (qs @ [c]) ws u" using inv f(1,3) j mx by (simp add: copying_def)
qed

text \<open>What a copy that has come to its end has done since \<open>s\<close>: with 0, \<open>rs\<close> are the new pages; with -1, everything is undone and only tables may be left.\<close>

definition copy_end :: "u64 \<Rightarrow> u64 \<Rightarrow> nat \<Rightarrow> u64 list \<Rightarrow> u64 list \<Rightarrow> 'z kmem_scheme \<Rightarrow> int \<Rightarrow> 'z kmem_scheme \<Rightarrow> bool" where
  "copy_end P Q n qs xs s r u \<longleftrightarrow>
     (r = 0 \<and> (\<exists>rs ys. copying P Q n (qs @ rs) ys u \<and> length (qs @ rs) = n \<and> (\<forall>x. outside (tables Q (pmem s) \<union> set xs) x \<longrightarrow> pmem u x = pmem s x) \<and>
        tables Q (pmem u) \<union> set ys \<union> set rs = tables Q (pmem s) \<union> set xs \<and>
        (\<forall>l<length rs. \<forall>x. unat x < 4096 \<longrightarrow> pmem u (rs ! l + x) = pmem s (PTE2PA (vmap P (pmem s) (pg (length qs + l))) + x)) \<and>
        (\<forall>b<MAXVA. \<not> in_pages 0 n b \<longrightarrow> vmap Q (pmem u) b = vmap Q (pmem s) b)) \<or>
      r = -1 \<and> (\<exists>ys. vm_inv Q ys u \<and> (\<forall>x. outside (tables Q (pmem s) \<union> set xs \<union> set qs) x \<longrightarrow> pmem u x = pmem s x) \<and>
        tables Q (pmem u) \<union> set ys = tables Q (pmem s) \<union> set xs \<union> set qs \<and>
        (\<forall>b<MAXVA. vmap Q (pmem u) b = (if in_pages 0 n b then 0 else vmap Q (pmem s) b))))"

lemma in_pages_split:
  assumes "4096 * n \<le> unat MAXVA" and "k \<le> n"
  shows "in_pages 0 n b \<longleftrightarrow> in_pages 0 k b \<or> in_pages (pg k) (n - k) b"
proof -
  have "unat (pg k) = 4096 * k" using unat_pg [of k] assms by simp
  moreover have "4096 * k + 4096 * (n - k) = 4096 * n" using assms(2) unfolding distrib_left [symmetric] by simp
  moreover have "4096 * k \<le> 4096 * n" using assms(2) by simp
  ultimately show ?thesis unfolding in_pages_def by (metis (no_types, lifting) add_0 linorder_not_le order.strict_trans2 unat_0 zero_le)
qed

lemma copy_end_undo:
  assumes cp: "copying P Q n qs xs s" and u: "vm_inv Q ys u" "tables Q (pmem u) \<union> set ys = tables Q (pmem s) \<union> set xs" "kend u = kend s"
    and v: "\<forall>b<MAXVA. vmap Q (pmem u) b = vmap Q (pmem s) b" and fr: "\<forall>x. outside (tables Q (pmem s) \<union> set xs) x \<longrightarrow> pmem u x = pmem s x"
  shows "\<exists>w. uvmunmap Q 0 (pg (length qs) div PGSIZE) True u = Ret () w \<and> copy_end P Q n qs xs s (-1) w"
proof -
  have "\<forall>p\<in>set qs. p \<notin> tables Q (pmem s) \<union> set xs" using cp by (auto simp: copying_def owned_def)
  then have "\<forall>p\<in>set qs. p \<notin> tables Q (pmem u) \<and> p \<notin> set ys" unfolding u(2) [symmetric] by blast
  from copy_undo [OF cp u(1,3) this v] obtain w where w: "uvmunmap Q 0 (pg (length qs) div PGSIZE) True u = Ret () w" "vm_inv Q (rev qs @ ys) w" "tables Q (pmem w) = tables Q (pmem u)"
    "\<forall>b<MAXVA. vmap Q (pmem w) b = (if in_pages 0 (length qs) b then 0 else vmap Q (pmem s) b)" "\<forall>x. outside (tables Q (pmem u) \<union> set qs) x \<longrightarrow> pmem w x = pmem u x" by blast
  have mx: "4096 * n \<le> unat MAXVA" "length qs \<le> n" using cp by (simp_all add: copying_def)
  have "vmap Q (pmem w) b = (if in_pages 0 n b then 0 else vmap Q (pmem s) b)" if "b < MAXVA" for b
    using w(4) that cp in_pages_split [OF mx, of b] by (auto simp: copying_def)
  moreover have "pmem w x = pmem s x" if x: "outside (tables Q (pmem s) \<union> set xs \<union> set qs) x" for x
  proof -
    have "outside (tables Q (pmem u) \<union> set ys \<union> set qs) x" unfolding u(2) by (rule x)
    then show ?thesis using w(5) fr x by simp
  qed
  moreover have "tables Q (pmem w) \<union> set (rev qs @ ys) = tables Q (pmem s) \<union> set xs \<union> set qs" using u(2) w(3) by auto
  ultimately have "copy_end P Q n qs xs s (-1) w" unfolding copy_end_def using w(2) by (intro disjI2 conjI refl exI [of _ "rev qs @ ys"]) blast+
  then show ?thesis using w(1) by blast
qed

lemma copy_end_step:
  assumes cp: "copying P Q n qs (c # zs @ ws) s" and u: "copying P Q n (qs @ [c]) ws u" "\<forall>x. outside (tables Q (pmem s) \<union> set (c # zs @ ws)) x \<longrightarrow> pmem u x = pmem s x"
      "tables Q (pmem u) = tables Q (pmem s) \<union> set zs" "\<forall>x. unat x < 4096 \<longrightarrow> pmem u (c + x) = pmem s (PTE2PA (vmap P (pmem s) (pg (length qs))) + x)"
      "\<forall>b<MAXVA. PGROUNDDOWN b \<noteq> pg (length qs) \<longrightarrow> vmap Q (pmem u) b = vmap Q (pmem s) b"
    and w: "copy_end P Q n (qs @ [c]) ws u r w" and j: "length qs < n"
  shows "copy_end P Q n qs (c # zs @ ws) s r w"
proof -
  let ?xs = "c # zs @ ws"
  have mx: "4096 * n \<le> unat MAXVA" using cp by (simp add: copying_def)
  have inp: "in_pages 0 n b" if "PGROUNDDOWN b = pg (length qs)" for b
  proof -
    have "unat b div 4096 * 4096 = 4096 * length qs" using arg_cong [OF that, of unat] pg_pages [OF mx j] by (simp add: PGROUNDDOWN_unat)
    then have "unat b div 4096 < n" using j by simp
    then show ?thesis by (auto simp: in_pages_def)
  qed
  note f = copying_frame [OF cp u(2)]
  show ?thesis
  proof (cases "r = 0")
    case False
    then obtain ys where ys: "r = -1" "vm_inv Q ys w" "\<forall>x. outside (tables Q (pmem u) \<union> set ws \<union> set (qs @ [c])) x \<longrightarrow> pmem w x = pmem u x"
      "tables Q (pmem w) \<union> set ys = tables Q (pmem u) \<union> set ws \<union> set (qs @ [c])" "\<forall>b<MAXVA. vmap Q (pmem w) b = (if in_pages 0 n b then 0 else vmap Q (pmem u) b)"
      using w unfolding copy_end_def by blast
    have e: "tables Q (pmem u) \<union> set ws \<union> set (qs @ [c]) = tables Q (pmem s) \<union> set ?xs \<union> set qs" using u(3) by auto
    have "pmem w x = pmem s x" if "outside (tables Q (pmem s) \<union> set ?xs \<union> set qs) x" for x using ys(3) [unfolded e] u(2) that by simp
    moreover have "vmap Q (pmem w) b = (if in_pages 0 n b then 0 else vmap Q (pmem s) b)" if "b < MAXVA" for b using ys(5) u(5) that inp [of b] by auto
    ultimately show ?thesis unfolding copy_end_def using ys(1,2) ys(4) [unfolded e] by (intro disjI2 conjI exI [of _ ys]) blast+
  next
    case True
    then obtain rs ys where ys: "copying P Q n ((qs @ [c]) @ rs) ys w" "length ((qs @ [c]) @ rs) = n" "\<forall>x. outside (tables Q (pmem u) \<union> set ws) x \<longrightarrow> pmem w x = pmem u x"
      "tables Q (pmem w) \<union> set ys \<union> set rs = tables Q (pmem u) \<union> set ws"
      "\<forall>l<length rs. \<forall>x. unat x < 4096 \<longrightarrow> pmem w (rs ! l + x) = pmem u (PTE2PA (vmap P (pmem u) (pg (length (qs @ [c]) + l))) + x)"
      "\<forall>b<MAXVA. \<not> in_pages 0 n b \<longrightarrow> vmap Q (pmem w) b = vmap Q (pmem u) b" using w unfolding copy_end_def by auto
    have cc: "page_aligned c" "c \<notin> tables Q (pmem u) \<union> set ws" using u(1) by (auto simp: copying_def owned_def page_ok_def)
    have "pmem w ((c # rs) ! l + x) = pmem s (PTE2PA (vmap P (pmem s) (pg (length qs + l))) + x)" if l: "l < length (c # rs)" and x: "unat x < 4096" for l x
    proof (cases l)
      case 0
      then show ?thesis using copying_frame(4) [OF u(1) ys(3) cc x] u(4) x by simp
    next
      case (Suc k)
      then have "length qs + l < n" using ys(2) l by simp
      then have "page_aligned (PTE2PA (vmap P (pmem s) (pg (length qs + l))))" "PTE2PA (vmap P (pmem s) (pg (length qs + l))) \<notin> tables Q (pmem s) \<union> set ?xs"
        using cp by (auto simp: copying_def page_ok_def)
      from f(4) [OF this x] show ?thesis using ys(5) Suc l x f(3) by simp
    qed
    moreover have "pmem w x = pmem s x" if "outside (tables Q (pmem s) \<union> set ?xs) x" for x using ys(3) u(2,3) that by (auto simp: outside_def)
    moreover have "tables Q (pmem w) \<union> set ys \<union> set (c # rs) = tables Q (pmem s) \<union> set ?xs" using ys(4) u(3) by auto
    moreover have "vmap Q (pmem w) b = vmap Q (pmem s) b" if "b < MAXVA" "\<not> in_pages 0 n b" for b using ys(6) u(5) that inp [of b] by auto
    moreover have "copying P Q n (qs @ c # rs) ys w" "length (qs @ c # rs) = n" using ys(1,2) by simp_all
    ultimately show ?thesis unfolding copy_end_def using True by (intro disjI1 conjI exI [of _ "c # rs"] exI [of _ ys]) blast+
  qed
qed

lemma copy_one:
  assumes cp: "copying P Q n qs xs s" and j: "length qs < n" and lt: "pg (length qs) < sz"
  shows "(\<exists>u. uvmcopy_loop P Q (pg (length qs)) sz s = Ret (-1) u \<and> copy_end P Q n qs xs s (-1) u) \<or>
     (\<exists>c zs ws u. xs = c # zs @ ws \<and> uvmcopy_loop P Q (pg (length qs)) sz s = uvmcopy_loop P Q (pg (Suc (length qs))) sz u \<and>
        copying P Q n (qs @ [c]) ws u \<and> (\<forall>r w. copy_end P Q n (qs @ [c]) ws u r w \<longrightarrow> copy_end P Q n qs xs s r w))"
proof -
  let ?j = "length qs" let ?i = "pg (length qs)" let ?e = "vmap P (pmem s) (pg (length qs))"
  have mx: "4096 * n \<le> unat MAXVA" using cp by (simp add: copying_def)
  note pj = pg_pages [OF mx j]
  have lf: "leaf ?e" and ok: "pt_ok P (pmem s)" and inv: "vm_inv Q xs s" using cp j by (auto simp: copying_def)
  have top: "unat ?i + 4096 \<le> unat MAXVA" using pj mx j by (simp add: word_less_nat_alt)
  have "?e \<noteq> 0" using lf by (auto simp: leaf_def)
  from walk_ro_vmap [OF ok this] have t: "walk_ro 2 P ?i (pmem s) \<noteq> 0" "load64 (pmem s) (walk_ro 2 P ?i (pmem s)) = ?e" by blast+
  have step: "uvmcopy_loop P Q ?i sz s = andthen (kalloc s) (\<lambda>new_pa s'.
      if new_pa = 0 then andthen (uvmunmap Q 0 (?i div PGSIZE) True s') (\<lambda>_ s. Ret (-1) s)
      else andthen (mappages Q ?i PGSIZE new_pa (PTE_FLAGS ?e) (s'\<lparr>pmem := memmove new_pa (PTE2PA ?e) 4096 (pmem s')\<rparr>)) (\<lambda>r s.
        if r \<noteq> 0 then andthen (kfree new_pa s) (\<lambda>_ s. andthen (uvmunmap Q 0 (?i div PGSIZE) True s) (\<lambda>_ s. Ret (-1) s))
        else uvmcopy_loop P Q (?i + PGSIZE) sz s))"
    using lt t lf pj by (subst uvmcopy_loop.simps) (simp add: walk_False leaf_def Let_def)
  have nx: "?i + PGSIZE = pg (Suc ?j)" using pj by simp
  note step = step [unfolded nx]
  show ?thesis
  proof (cases xs)
    case Nil
    have k: "kalloc s = Ret 0 (settle s)" using inv kalloc_eq [of s] Nil by (auto simp: vm_inv_def kmem_inv_def Let_def)
    have "vm_inv Q [] (settle s)" using inv Nil by (simp add: vm_inv_def kmem_inv_def)
    from copy_end_undo [OF cp this] obtain w where "uvmunmap Q 0 (?i div PGSIZE) True (settle s) = Ret () w" "copy_end P Q n qs xs s (-1) w" using Nil by auto
    then show ?thesis using step k by simp
  next
    case (Cons c ys)
    note cp' = cp [unfolded Cons]
    note g = copy_page [OF cp' j]
    define s2 where "s2 = (settle s)\<lparr>freelist := load64 (pmem s) c, pmem := memmove c (PTE2PA ?e) 4096 (memset c 5 4096 (pmem s))\<rparr>"
    note g = g [folded s2_def]
    have un: "vmap Q (pmem s2) ?i AND PTE_V = 0"
    proof -
      have "in_pages ?i (n - ?j) ?i" using j by (simp add: in_pages_def)
      then show ?thesis using cp g(9) by (simp add: copying_def)
    qed
    have map: "mappages Q ?i PGSIZE c (PTE_FLAGS ?e) s2 = mappages_loop Q ?i ?i c (PTE_FLAGS ?e) s2" using pj page_last [OF _ top] by (simp add: mappages_def)
    have ki: "?i < MAXVA" using pj by simp
    show ?thesis
    proof (cases rule: mappages_step [OF g(1) ki un, of ?i c "PTE_FLAGS ?e"])
      case (1 u)
      have ta: "tables Q (pmem u) = tables Q (pmem s) \<union> set ys" and iu: "vm_inv Q [] u" and ke: "kend u = kend s" using 1(2) g(8,10) by (auto simp: vm_grow_def)
      have "c \<notin> tables Q (pmem u)" using ta g(5,7) by simp
      from free_owned [OF iu _ _ this] obtain w where w: "kfree c u = Ret () w" "vm_inv Q [c] w" "kend w = kend u" "tables Q (pmem w) = tables Q (pmem u)" "vmap Q (pmem w) = vmap Q (pmem u)"
        "same_outside (pmem u) (pmem w) c" using g(4) ke by auto
      have "pmem w x = pmem s x" if "outside (tables Q (pmem s) \<union> set xs) x" for x
        using that w(6) 1(2) g(2,8) Cons by (auto simp: vm_grow_def same_outside_def)
      moreover have "tables Q (pmem w) \<union> set [c] = tables Q (pmem s) \<union> set xs" using w(4) ta Cons by auto
      ultimately obtain v where "uvmunmap Q 0 (?i div PGSIZE) True w = Ret () v" "copy_end P Q n qs xs s (-1) v"
        using copy_end_undo [OF cp w(2)] w(3,5) ke 1(3) g(9) by auto
      moreover have "mappages Q ?i PGSIZE c (PTE_FLAGS ?e) s2 = Ret (-1) u" using map 1(1) by simp
      ultimately show ?thesis using step g(11,12) w(1) by (simp add: s2_def)
    next
      case (2 u zs ws)
      have m0: "mappages Q ?i PGSIZE c (PTE_FLAGS ?e) s2 = Ret 0 u" using map 2(1) by simp
      have v1: "\<forall>b<MAXVA. PGROUNDDOWN b \<noteq> ?i \<longrightarrow> vmap Q (pmem u) b = vmap Q (pmem s2) b" using 2(4) agree_page [OF _ ki] pj by auto
      have v2: "vmap Q (pmem u) ?i = pte_copy c ?e" using 2(4) by (simp add: pte_copy_def)
      note m = copy_mapped [OF cp' j 2(3,2) g(2,8,9,10,4,5,6,7) v1 v2]
      have "uvmcopy_loop P Q ?i sz s = uvmcopy_loop P Q (pg (Suc ?j)) sz u" using step g(11,12) m0 by (simp add: s2_def)
      moreover have "copy_end P Q n qs xs s r w" if "copy_end P Q n (qs @ [c]) ws u r w" for r w
        unfolding Cons 2(2) by (rule copy_end_step [OF cp' [unfolded 2(2)] m(1) _ m(4) _ _ that j]) (use m(2,3) g(3,9) v1 2(2) in auto)
      ultimately show ?thesis using Cons 2(2) m(1) by blast
    qed
  qed
qed

lemma uvmcopy_loop_spec:
  assumes "copying P Q n qs xs s" and "n = (unat sz + 4095) div 4096"
  shows "\<exists>r u. uvmcopy_loop P Q (pg (length qs)) sz s = Ret r u \<and> copy_end P Q n qs xs s r u"
  using assms(1)
proof (induction "n - length qs" arbitrary: qs xs s)
  case 0
  then have l: "length qs = n" "4096 * n \<le> unat MAXVA" by (simp_all add: copying_def)
  then have "\<not> pg (length qs) < sz" using unat_pg [of n] assms(2) by (simp add: word_less_nat_alt)
  then have "uvmcopy_loop P Q (pg (length qs)) sz s = Ret 0 s" by (subst uvmcopy_loop.simps) simp
  moreover have "copy_end P Q n qs xs s 0 s"
    unfolding copy_end_def using 0 l by (intro disjI1 conjI refl exI [of _ "[]"] exI [of _ xs]) simp_all
  ultimately show ?case by blast
next
  case (Suc k)
  have j: "length qs < n" and mx: "4096 * n \<le> unat MAXVA" using Suc.hyps(2) Suc.prems by (simp_all add: copying_def)
  have "pg (length qs) < sz" using j pg_pages [OF mx j] assms(2) by (simp add: word_less_nat_alt)
  from copy_one [OF Suc.prems j this] show ?case
  proof (elim disjE exE conjE)
    fix c zs ws u
    assume c: "xs = c # zs @ ws" "uvmcopy_loop P Q (pg (length qs)) sz s = uvmcopy_loop P Q (pg (Suc (length qs))) sz u" "copying P Q n (qs @ [c]) ws u"
      "\<forall>r w. copy_end P Q n (qs @ [c]) ws u r w \<longrightarrow> copy_end P Q n qs xs s r w"
    then show ?thesis using Suc.hyps(1) [of "qs @ [c]" ws u] Suc.hyps(2) by fastforce
  qed blast
qed

subsection \<open>Properties\<close>

text \<open>Property C12: \<open>mappages\<close> updates the function a page table stands for. On a range below \<open>MAXVA\<close> that is not mapped it never panics: it returns 0, and then exactly the entries
  of the pages that the range touches have changed, to consecutive physical pages with the permissions asked for, or -1 when the memory is used up. Pages it takes for tables
  come from the free list, the tree stays a tree, and no byte outside tables and free pages changes.\<close>

theorem mappages_correct:
  assumes "vm_inv pt xs s" and "sz \<noteq> 0" and "unat va + unat sz \<le> unat MAXVA" and "\<forall>b. touched va sz b \<longrightarrow> vmap pt (pmem s) b AND PTE_V = 0"
  shows "returns (mappages pt va sz pa perm s) (\<lambda>r u. \<exists>zs ys. xs = zs @ ys \<and> vm_inv pt ys u \<and> tables pt (pmem u) = tables pt (pmem s) \<union> set zs \<and>
     (r = 0 \<or> r = -1 \<and> ys = []) \<and> (\<forall>x. outside (tables pt (pmem s) \<union> set zs) x \<longrightarrow> pmem u x = pmem s x) \<and>
     (\<forall>b<MAXVA. \<not> touched va sz b \<longrightarrow> vmap pt (pmem u) b = vmap pt (pmem s) b) \<and>
     (r = 0 \<longrightarrow> (\<forall>b. touched va sz b \<longrightarrow> vmap pt (pmem u) b = PA2PTE (pa + (PGROUNDDOWN b - PGROUNDDOWN va)) OR perm OR PTE_V)))"
proof -
  from mappages_spec [OF assms, of pa perm] obtain r u zs ys where "mappages pt va sz pa perm s = Ret r u" "xs = zs @ ys" "vm_grow pt zs ys s u" "r = 0 \<or> r = -1 \<and> ys = []"
     "\<forall>b<MAXVA. \<not> touched va sz b \<longrightarrow> vmap pt (pmem u) b = vmap pt (pmem s) b"
     "r = 0 \<longrightarrow> (\<forall>b. touched va sz b \<longrightarrow> vmap pt (pmem u) b = PA2PTE (pa + (PGROUNDDOWN b - PGROUNDDOWN va)) OR perm OR PTE_V)" by blast
  then show ?thesis unfolding vm_grow_def by (simp only: returns_simps) blast
qed

text \<open>The physical address of a virtual one; for a page of the user it is where \<open>copyin\<close> and \<open>copyout\<close> go.\<close>

definition paddr :: "u64 \<Rightarrow> mem \<Rightarrow> u64 \<Rightarrow> u64" where
  "paddr pt m va = PTE2PA (vmap pt m va) + (va - PGROUNDDOWN va)"

lemma page_of:
  assumes "4096 * n \<le> unat MAXVA" and "unat va < 4096 * n"
  shows "PGROUNDDOWN va = pg (unat va div 4096)" "unat va div 4096 < n" "vmap pt m va = vmap pt m (pg (unat va div 4096))" "unat (va - PGROUNDDOWN va) < 4096"
proof -
  show l: "unat va div 4096 < n" using assms(2) by (simp add: less_mult_imp_div_less mult.commute)
  note p = pg_pages [OF assms(1) l]
  show e: "PGROUNDDOWN va = pg (unat va div 4096)" using p by (simp add: word_unat_eq_iff PGROUNDDOWN_unat)
  have "va < MAXVA" using assms by (simp add: word_less_nat_alt)
  then have "agree 3 va (pg (unat va div 4096))" using agree_page [of va "pg (unat va div 4096)"] p e by simp
  then show "vmap pt m va = vmap pt m (pg (unat va div 4096))" by (rule vmap_agree)
  show "unat (va - PGROUNDDOWN va) < 4096" by (simp add: PGROUNDDOWN_offset)
qed

lemma uaddr_paddr:
  assumes "pt_ok pt m" and "umapped pt m va" and "4096 * n \<le> unat MAXVA" and "unat va < 4096 * n"
  shows "uaddr pt m va = paddr pt m va"
  using assms(2) page_of(1,3) [OF assms(3,4)] translate_vmap [OF assms(1), of "PGROUNDDOWN va"]
  by (auto simp: uaddr_def umapped_def paddr_def split: if_splits)

text \<open>Property C11: \<open>uvmcopy\<close> gives the child a copy of its parent's memory. When it returns 0, every address below \<open>sz\<close> has the same permissions and the same byte in both, the memory of the parent
  is as before, and no byte is shared. Otherwise it returns -1, and all pages it had mapped are unmapped and back on the free list.\<close>

theorem uvmcopy_correct:
  assumes "copying P Q n [] xs s" and "n = (unat sz + 4095) div 4096"
  shows "returns (uvmcopy P Q sz s) (\<lambda>r u.
     if r = 0 then \<forall>va < sz. PTE_FLAGS (vmap Q (pmem u) va) = PTE_FLAGS (vmap P (pmem s) va) \<and> pmem u (paddr Q (pmem u) va) = pmem s (paddr P (pmem s) va) \<and>
         vmap P (pmem u) va = vmap P (pmem s) va \<and> pmem u (paddr P (pmem u) va) = pmem s (paddr P (pmem s) va) \<and> (\<forall>vb < sz. paddr Q (pmem u) va \<noteq> paddr P (pmem u) vb)
     else r = -1 \<and> (\<forall>va < sz. vmap Q (pmem u) va = 0) \<and> (\<exists>ys. vm_inv Q ys u \<and> tables Q (pmem u) \<union> set ys = tables Q (pmem s) \<union> set xs))"
proof -
  have mx: "4096 * n \<le> unat MAXVA" using assms(1) by (simp add: copying_def)
  have szn: "unat va < 4096 * n" if "va < sz" for va using that assms(2) by (simp add: word_less_nat_alt)
  note po = page_of [OF mx szn]
  obtain r u where u: "uvmcopy P Q sz s = Ret r u" "copy_end P Q n [] xs s r u" using uvmcopy_loop_spec [OF assms] by (auto simp: uvmcopy_def pg_def)
  show ?thesis
  proof (cases "r = 0")
    case False
    then obtain ys where ys: "r = -1" "vm_inv Q ys u" "tables Q (pmem u) \<union> set ys = tables Q (pmem s) \<union> set xs" "\<forall>b<MAXVA. vmap Q (pmem u) b = (if in_pages 0 n b then 0 else vmap Q (pmem s) b)"
      using u(2) unfolding copy_end_def by auto
    have "vmap Q (pmem u) va = 0" if "va < sz" for va using ys(4) szn [OF that] mx by (simp add: in_pages_def word_less_nat_alt)
    then show ?thesis using u(1) ys False by auto
  next
    case True
    then obtain rs ys where rs: "copying P Q n rs ys u" "length rs = n" "\<forall>x. outside (tables Q (pmem s) \<union> set xs) x \<longrightarrow> pmem u x = pmem s x"
      "\<forall>l<n. \<forall>x. unat x < 4096 \<longrightarrow> pmem u (rs ! l + x) = pmem s (PTE2PA (vmap P (pmem s) (pg l)) + x)" using u(2) unfolding copy_end_def by auto
    note f = copying_frame [OF assms(1) rs(3)]
    have c: "vmap Q (pmem u) (pg l) = pte_copy (rs ! l) (vmap P (pmem s) (pg l))" "leaf (vmap P (pmem s) (pg l))" "page_aligned (rs ! l)" "rs ! l \<in> set rs"
        "page_aligned (PTE2PA (vmap P (pmem s) (pg l)))" "PTE2PA (vmap P (pmem s) (pg l)) \<notin> set rs" "PTE2PA (vmap P (pmem s) (pg l)) \<notin> tables Q (pmem s) \<union> set xs" if "l < n" for l
      using rs(1,2) assms(1) that f(3) by (auto simp: copying_def owned_def page_ok_def)
    have pq: "paddr Q (pmem u) va = rs ! (unat va div 4096) + (va - PGROUNDDOWN va)" if "va < sz" for va
      using po(2,3) [OF that] c pte_copy_simps(1) by (simp add: paddr_def)
    have pp: "paddr P (pmem u) va = PTE2PA (vmap P (pmem s) (pg (unat va div 4096))) + (va - PGROUNDDOWN va)" "paddr P (pmem s) va = paddr P (pmem u) va" if "va < sz" for va
      using po(3) [OF that] f(3) by (simp_all add: paddr_def)
    show ?thesis unfolding u(1) returns_simps if_P [OF True]
    proof (intro allI impI conjI)
      fix va assume va: "va < sz"
      note oa = po [OF va]
      show "PTE_FLAGS (vmap Q (pmem u) va) = PTE_FLAGS (vmap P (pmem s) va)" using c [OF oa(2)] oa(3) pte_copy_simps(2) by simp
      show "pmem u (paddr Q (pmem u) va) = pmem s (paddr P (pmem s) va)" unfolding pq [OF va] pp [OF va] using rs(4) oa(2,4) by blast
      show "vmap P (pmem u) va = vmap P (pmem s) va" using f(3) by simp
      show "pmem u (paddr P (pmem u) va) = pmem s (paddr P (pmem s) va)" unfolding pp [OF va] by (rule f(4)) (use c [OF oa(2)] oa(4) in auto)
      fix vb assume vb: "vb < sz"
      note ob = po [OF vb]
      show "paddr Q (pmem u) va \<noteq> paddr P (pmem u) vb"
      proof
        assume e: "paddr Q (pmem u) va = paddr P (pmem u) vb"
        have "unat (paddr Q (pmem u) va - rs ! (unat va div 4096)) < 4096" using oa(4) by (simp add: pq [OF va])
        moreover have "unat (paddr P (pmem u) vb - PTE2PA (vmap P (pmem s) (pg (unat vb div 4096)))) < 4096" using ob(4) by (simp add: pp(1) [OF vb])
        moreover have "rs ! (unat va div 4096) \<noteq> PTE2PA (vmap P (pmem s) (pg (unat vb div 4096)))" using c(4) [OF oa(2)] c(6) [OF ob(2)] by auto
        ultimately show False using page_disjoint [OF c(3) [OF oa(2)] c(5) [OF ob(2)]] e by metis
      qed
    qed
  qed
qed

subsection \<open>Witnesses\<close>

text \<open>A page table with one page at address 0, an empty one, and three free pages.\<close>

definition copy_mem :: mem where
  "copy_mem = store64 0x80003000 (PA2PTE 0x80004000 OR 0x17) (store64 0x80002000 (PA2PTE 0x80003000 OR 1) (store64 0x80001000 (PA2PTE 0x80002000 OR 1)
     (store64 0x80006000 0x80007000 (store64 0x80007000 0x80008000 (\<lambda>_. 0)))))"

definition copy_st :: kmem where
  "copy_st = kmem0\<lparr>pmem := copy_mem, freelist := 0x80006000, kend := 0x80004000\<rparr>"

lemma load64_store64_aligned:
  assumes "unat a mod 8 = 0" "unat b mod 8 = 0" "a \<noteq> b"
  shows "load64 (store64 a v m) b = load64 m b"
proof -
  have d: "8 \<le> unat (x - y)" if xy: "unat x mod 8 = 0" "unat y mod 8 = 0" "x \<noteq> y" for x y :: u64
  proof -
    obtain i j where ij: "unat x = 8 * i" "unat y = 8 * j" using xy(1,2) by (auto elim!: dvdE)
    have "i \<noteq> j" using ij xy(3) by (auto simp: word_unat_eq_iff)
    then show ?thesis using ij unat64_lt [of x] unat64_lt [of y] by (auto simp: unat_sub_if)
  qed
  show ?thesis using d [of a b] d [of b a] assms by (intro load64_store64_other) auto
qed

lemma copy_mem_load:
  assumes "unat b mod 8 = 0"
  shows "load64 copy_mem b = (if b = 0x80003000 then 0x20001017 else if b = 0x80002000 then 0x20000C01 else if b = 0x80001000 then 0x20000801
     else if b = 0x80006000 then 0x80007000 else if b = 0x80007000 then 0x80008000 else 0)"
  unfolding copy_mem_def using assms load64_store64_same by (auto simp: load64_store64_aligned PA2PTE_def)

lemma unat_entry:
  assumes "unat T + 4096 \<le> 2 ^ 64" "unat T mod 8 = 0"
  shows "unat (T + 8 * ix d va) = unat T + 8 * unat (ix d va)" "unat (T + 8 * ix d va) mod 8 = 0"
proof -
  show e: "unat (T + 8 * ix d va) = unat T + 8 * unat (ix d va)" unfolding entry_offset using assms(1) entry_in_page [of d va] by (intro unat_plus_of_nat) simp
  show "unat (T + 8 * ix d va) mod 8 = 0" unfolding e using assms(2) by (simp add: mod_add_left_eq [symmetric])
qed

lemma copy_entries:
  "load64 copy_mem (0x80001000 + 8 * ix d va) = (if ix d va = 0 then 0x20000801 else 0)" "load64 copy_mem (0x80002000 + 8 * ix d va) = (if ix d va = 0 then 0x20000C01 else 0)"
  "load64 copy_mem (0x80003000 + 8 * ix d va) = (if ix d va = 0 then 0x20001017 else 0)" "load64 copy_mem (0x80005000 + 8 * ix d va) = 0"
  using ix_less [of d va] by (subst copy_mem_load; auto simp: unat_entry word_unat_eq_iff)+

lemma le2: "d \<le> 2 \<longleftrightarrow> d = 0 \<or> d = 1 \<or> d = (2 :: nat)"
  by auto

lemma copy_tbl:
  "tbl 1 0x80001000 va copy_mem = (if ix 0 va = 0 then Some 0x80002000 else None)"
  "tbl 2 0x80001000 va copy_mem = (if ix 0 va = 0 \<and> ix 1 va = 0 then Some 0x80003000 else None)"
  "tbl 1 0x80005000 va copy_mem = None" "tbl 2 0x80005000 va copy_mem = None"
  unfolding numeral_2_eq_2 One_nat_def tbl.simps by (simp_all add: copy_entries copy_mem_load Let_def PTE2PA_def)

lemma tables_levels: "tables pt m = {pt} \<union> {t. \<exists>va. tbl 1 pt va m = Some t} \<union> {t. \<exists>va. tbl 2 pt va m = Some t}"
  unfolding tables_def le2 by (auto simp del: One_nat_def tbl.simps(2))

lemma copy_tables: "tables 0x80001000 copy_mem = {0x80001000, 0x80002000, 0x80003000}" "tables 0x80005000 copy_mem = {0x80005000}"
proof -
  have z: "ix d 0 = 0" for d by (simp add: ix_def PX_def)
  show "tables 0x80001000 copy_mem = {0x80001000, 0x80002000, 0x80003000}"
    unfolding tables_levels copy_tbl using z by (auto split: if_splits)
  show "tables 0x80005000 copy_mem = {0x80005000}" unfolding tables_levels copy_tbl by simp
qed

lemma copy_pt_ok: "pt_ok 0x80001000 copy_mem" "pt_ok 0x80005000 copy_mem"
proof -
  have 1: "agree 1 va va' \<longleftrightarrow> ix 0 va = ix 0 va'" "agree 2 va va' \<longleftrightarrow> ix 0 va = ix 0 va' \<and> ix 1 va = ix 1 va'" "agree 0 va va'" for va va'
    by (auto simp: agree_def less_Suc_eq numeral_2_eq_2)
  have al: "page_aligned 0x80001000" "page_aligned 0x80002000" "page_aligned 0x80003000" "page_aligned 0x80005000" by (simp_all add: page_aligned_def)
  show "pt_ok 0x80001000 copy_mem" unfolding pt_ok_def copy_tables le2 using al copy_tbl(1,2) 1 by (auto split: if_splits)
  show "pt_ok 0x80005000 copy_mem" unfolding pt_ok_def copy_tables le2 using al copy_tbl(3,4) 1 by auto
qed

lemma copy_vmap: "vmap 0x80001000 copy_mem 0 = 0x20001017" "vmap 0x80005000 copy_mem va = 0"
proof -
  have z: "ix d 0 = 0" for d by (simp add: ix_def PX_def)
  show "vmap 0x80001000 copy_mem 0 = 0x20001017" using copy_entries(3) [of 2 0] by (simp add: vmap_def copy_tbl z)
  show "vmap 0x80005000 copy_mem va = 0" by (simp add: vmap_def copy_tbl)
qed

lemma copy_st_inv: "vm_inv 0x80005000 [0x80006000, 0x80007000, 0x80008000] copy_st"
proof -
  have "kmem_inv copy_st [0x80006000, 0x80007000, 0x80008000]"
    using kmem0_ok(1) by (simp add: kmem_inv_def copy_st_def copy_mem_load page_ok_def page_aligned_def PHYSTOP_def KERNBASE_def lock_free_def kmem0_def)
  moreover have "cpu_ok copy_st" using kmem0_ok(2) by (simp add: copy_st_def cpu_ok_def machine_defs)
  ultimately show ?thesis using copy_pt_ok(2) by (simp add: vm_inv_def copy_tables copy_st_def)
qed

lemma copy_st_ready: "copying 0x80001000 0x80005000 1 [] [0x80006000, 0x80007000, 0x80008000] copy_st"
proof -
  have "leaf 0x20001017" "PTE2PA 0x20001017 = 0x80004000" by (simp_all add: leaf_def PTE_FLAGS_def PTE2PA_def)
  moreover have "page_ok 0x80004000 0x80004000" by (simp add: page_ok_def page_aligned_def PHYSTOP_def KERNBASE_def)
  ultimately show ?thesis using copy_st_inv copy_pt_ok(1) by (simp add: copying_def copy_st_def copy_tables copy_vmap pg_def owned_def unat_MAXVA)
qed

theorem mappages_correct_witness:
  "returns (mappages 0x80005000 0x1000 0x2000 0x80100000 0x16 copy_st) (\<lambda>r u. r = 0 \<longrightarrow> vmap 0x80005000 (pmem u) 0x2005 = PA2PTE 0x80101000 OR 0x16 OR 1)"
proof -
  have t: "touched 0x1000 0x2000 0x2005" by (simp add: touched_def PGROUNDDOWN_def)
  have p: "0x80100000 + (PGROUNDDOWN 0x2005 - PGROUNDDOWN 0x1000) = (0x80101000 :: u64)" by (simp add: PGROUNDDOWN_def)
  have v: "\<forall>b. touched 0x1000 0x2000 b \<longrightarrow> vmap 0x80005000 (pmem copy_st) b AND 1 = 0" by (simp add: copy_st_def copy_vmap)
  have "returns (mappages 0x80005000 0x1000 0x2000 0x80100000 0x16 copy_st) (\<lambda>r u. r = 0 \<longrightarrow> (\<forall>b. touched 0x1000 0x2000 b \<longrightarrow>
      vmap 0x80005000 (pmem u) b = PA2PTE (0x80100000 + (PGROUNDDOWN b - PGROUNDDOWN 0x1000)) OR 0x16 OR 1))"
    by (rule returns_mono [OF mappages_correct [OF copy_st_inv _ _ v]]) (auto simp: unat_MAXVA)
  then show ?thesis by (rule returns_mono) (use t p in metis)
qed

theorem uvmcopy_correct_witness:
  "returns (uvmcopy 0x80001000 0x80005000 0x123 copy_st) (\<lambda>r u. r = 0 \<longrightarrow> pmem u (paddr 0x80005000 (pmem u) 0x45) = pmem copy_st (paddr 0x80001000 (pmem copy_st) 0x45))"
proof -
  have "(1 :: nat) = (unat (0x123 :: u64) + 4095) div 4096" by simp
  from uvmcopy_correct [OF copy_st_ready this] show ?thesis by (rule returns_mono) (auto split: if_splits)
qed

end
