(* ===== verification/Reap.thy ===== *)
theory Reap
  imports Pagetable Proc
begin

text \<open>
  How a process ends up on the free list: \<open>freewalk\<close> and \<open>uvmfree\<close> of \<open>kernel/vm.c\<close>, and \<open>proc_freepagetable\<close>, \<open>freeproc\<close> and \<open>wait\<close> of \<open>kernel/proc.c\<close>. The pages of a process
  are its own (\<open>proc_vm\<close>): no other page table and no free page uses them. Taking the page table down frees exactly them, and \<open>wait\<close> gives a parent the exit status of its child.
\<close>

subsection \<open>Memory management changes memory only\<close>

text \<open>Two states that differ only in physical memory, the head of the free list, and the interrupt flag a pair of \<open>push_off\<close> and \<open>pop_off\<close> settles.\<close>

definition mem_only :: "'z kmem_scheme \<Rightarrow> 'z kmem_scheme \<Rightarrow> bool" where
  "mem_only s u \<longleftrightarrow> (\<exists>m f. settle u = (settle s)\<lparr>pmem := m, freelist := f\<rparr>)"

definition kmem_free :: "'z kmem_scheme \<Rightarrow> bool" where
  "kmem_free s \<longleftrightarrow> lock_free KmemLock s \<and> cpu_ok s"

lemma mem_only_refl [simp]: "mem_only s s"
proof -
  have "settle s = (settle s)\<lparr>pmem := pmem (settle s), freelist := freelist (settle s)\<rparr>" by simp
  then show ?thesis unfolding mem_only_def by blast
qed

lemma mem_only_trans: "mem_only s t \<Longrightarrow> mem_only t u \<Longrightarrow> mem_only s u"
  unfolding mem_only_def by (elim exE) (simp, blast)

lemma mem_only_upd [simp]: "mem_only s (s\<lparr>pmem := m\<rparr>)" "mem_only s ((settle s)\<lparr>pmem := m, freelist := f\<rparr>)"
proof -
  have "settle (s\<lparr>pmem := m\<rparr>) = (settle s)\<lparr>pmem := m, freelist := freelist (settle s)\<rparr>" by simp
  then show "mem_only s (s\<lparr>pmem := m\<rparr>)" unfolding mem_only_def by blast
  have "settle ((settle s)\<lparr>pmem := m, freelist := f\<rparr>) = (settle s)\<lparr>pmem := m, freelist := f\<rparr>" by simp
  then show "mem_only s ((settle s)\<lparr>pmem := m, freelist := f\<rparr>)" unfolding mem_only_def by blast
qed

lemma mem_only_free: "mem_only s u \<Longrightarrow> kmem_free u = kmem_free s"
proof -
  assume "mem_only s u"
  then obtain m f where "settle u = (settle s)\<lparr>pmem := m, freelist := f\<rparr>" by (auto simp: mem_only_def)
  then have "kmem_free (settle u) = kmem_free (settle s)" by (simp add: kmem_free_def)
  then show ?thesis by (simp add: kmem_free_def)
qed

lemma kfree_mem_only: "kfree p s = Ret () u \<Longrightarrow> kmem_free s \<Longrightarrow> mem_only s u"
  by (auto simp: kfree_def kmem_free_def Let_def split: if_splits)

lemma for_each_mem_only:
  assumes "\<And>i s u. f i s = Ret () u \<Longrightarrow> kmem_free s \<Longrightarrow> mem_only s u" and "for_each f is s = Ret () u" and "kmem_free s"
  shows "mem_only s u"
  using assms(2,3)
proof (induction "is" arbitrary: s)
  case (Cons i "is")
  then obtain t where t: "f i s = Ret () t" "for_each f is t = Ret () u" by (cases "f i s") auto
  have "mem_only s t" using assms(1) t(1) Cons.prems(2) by blast
  moreover from this have "mem_only t u" using Cons.IH [OF t(2)] mem_only_free Cons.prems(2) by blast
  ultimately show ?case by (rule mem_only_trans)
qed simp

lemma uvmunmap_loop_mem_only: "uvmunmap_loop pt a e df s = Ret () u \<Longrightarrow> kmem_free s \<Longrightarrow> mem_only s u"
proof (induction "unat MAXVA - unat a" arbitrary: a s rule: less_induct)
  case less
  show ?case
  proof (cases "a < e \<and> a < MAXVA")
    case True
    let ?p = "walk_ro 2 pt a (pmem s)"
    have un: "uvmunmap_loop pt a e df s = (if ?p = 0 then Panic ''uvmunmap: walk'' else if load64 (pmem s) ?p AND PTE_V = 0 then Panic ''uvmunmap: not mapped''
       else if PTE_FLAGS (load64 (pmem s) ?p) = PTE_V then Panic ''uvmunmap: not a leaf''
       else andthen (if df then kfree (PTE2PA (load64 (pmem s) ?p)) s else Ret () s) (\<lambda>_ s. uvmunmap_loop pt (a + PGSIZE) e df (s\<lparr>pmem := store64 ?p 0 (pmem s)\<rparr>)))"
      using True by (subst uvmunmap_loop.simps) (simp add: walk_False)
    obtain t where t: "(if df then kfree (PTE2PA (load64 (pmem s) ?p)) s else Ret () s) = Ret () t" "uvmunmap_loop pt (a + PGSIZE) e df (t\<lparr>pmem := store64 ?p 0 (pmem t)\<rparr>) = Ret () u"
      using less.prems(1) unfolding un by (cases "if df then kfree (PTE2PA (load64 (pmem s) ?p)) s else Ret () s") (auto split: if_splits)
    have st: "mem_only s t" using t(1) kfree_mem_only less.prems(2) by (auto split: if_splits)
    have m: "mem_only s (t\<lparr>pmem := store64 ?p 0 (pmem t)\<rparr>)" by (rule mem_only_trans [OF st]) simp
    have "unat MAXVA - unat (a + PGSIZE) < unat MAXVA - unat a" using True next_page_less [of a] by (auto simp: word_less_nat_alt)
    then have "mem_only (t\<lparr>pmem := store64 ?p 0 (pmem t)\<rparr>) u" using less.hyps t(2) mem_only_free [OF m] less.prems(2) by blast
    then show ?thesis by (rule mem_only_trans [OF m])
  next
    case False
    then show ?thesis using less.prems by (subst (asm) uvmunmap_loop.simps) (auto simp: walk_def not_less split: if_splits)
  qed
qed

lemma freewalk_mem_only: "freewalk fuel pt s = Ret () u \<Longrightarrow> kmem_free s \<Longrightarrow> mem_only s u"
proof (induction fuel arbitrary: pt s u)
  case (Suc fuel)
  let ?f = "\<lambda>i s. let pte = load64 (pmem s) (pt + 8 * of_nat i) in
          if pte AND PTE_V \<noteq> 0 \<and> pte AND (PTE_R OR PTE_W OR PTE_X) = 0 then
            andthen (freewalk fuel (PTE2PA pte) s) (\<lambda>_ s. Ret () (s\<lparr>pmem := store64 (pt + 8 * of_nat i) 0 (pmem s)\<rparr>))
          else if pte AND PTE_V \<noteq> 0 then Panic ''freewalk: leaf'' else Ret () s"
  obtain t where t: "for_each ?f [0..<512] s = Ret () t" "kfree pt t = Ret () u" using Suc.prems(1) by (cases "for_each ?f [0..<512] s") auto
  have b: "mem_only s w" if "?f i s = Ret () w" "kmem_free s" for i w and s :: "'a kmem_scheme"
  proof (cases "freewalk fuel (PTE2PA (load64 (pmem s) (pt + 8 * of_nat i))) s")
    case (Ret a v)
    then show ?thesis using that Suc.IH [of _ s v] mem_only_trans [of s v] by (auto simp: Let_def split: if_splits)
  qed (use that in \<open>auto simp: Let_def split: if_splits\<close>)
  have st: "mem_only s t" by (rule for_each_mem_only [OF _ t(1) Suc.prems(2)]) (rule b)
  then show ?case using kfree_mem_only [OF t(2)] mem_only_free [OF st] Suc.prems(2) mem_only_trans by blast
qed simp

subsection \<open>freewalk\<close>

text \<open>The tables under one in the order \<open>freewalk\<close> frees them, and what it needs: no entry of the lowest level is valid, those above point to tables.\<close>

definition pte_at :: "u64 \<Rightarrow> mem \<Rightarrow> nat \<Rightarrow> u64" where
  "pte_at pt m i = load64 m (pt + 8 * of_nat i)"

primrec subtables :: "nat \<Rightarrow> u64 \<Rightarrow> mem \<Rightarrow> u64 list" where
  "subtables 0 pt m = []"
| "subtables (Suc f) pt m =
     concat (map (\<lambda>i. if pte_at pt m i AND PTE_V \<noteq> 0 then subtables f (PTE2PA (pte_at pt m i)) m else []) [0..<512]) @ [pt]"

primrec no_leaves :: "nat \<Rightarrow> u64 \<Rightarrow> mem \<Rightarrow> bool" where
  "no_leaves 0 pt m \<longleftrightarrow> False"
| "no_leaves (Suc f) pt m \<longleftrightarrow> (\<forall>i<512. pte_at pt m i AND PTE_V \<noteq> 0 \<longrightarrow> pte_at pt m i AND (PTE_R OR PTE_W OR PTE_X) = 0 \<and> no_leaves f (PTE2PA (pte_at pt m i)) m)"

definition subs :: "nat \<Rightarrow> u64 \<Rightarrow> mem \<Rightarrow> nat \<Rightarrow> u64 list" where
  "subs f pt m i = (if pte_at pt m i AND PTE_V \<noteq> 0 then subtables f (PTE2PA (pte_at pt m i)) m else [])"

lemma subtables_Suc: "subtables (Suc f) pt m = concat (map (subs f pt m) [0..<512]) @ [pt]"
  by (simp add: subs_def [abs_def] del: upt_conv_Cons upt_rec_numeral)

lemma pte_at_other_page:
  assumes "\<forall>x. unat (x - pt) < 4096 \<longrightarrow> m' x = m x" and "i < 512"
  shows "pte_at pt m' i = pte_at pt m i"
  unfolding pte_at_def
proof (rule load64_cong)
  fix j :: nat assume j: "j < 8"
  have "unat (pt + 8 * of_nat i + of_nat j - pt) = 8 * i + j"
    using unat_plus_of_nat [of 0 "8 * i + j"] assms(2) j by (simp add: algebra_simps)
  then show "m' (pt + 8 * of_nat i + of_nat j) = m (pt + 8 * of_nat i + of_nat j)" using assms j by simp
qed

lemma subtables_frame:
  assumes "\<forall>p\<in>set (subtables f pt m). \<forall>x. unat (x - p) < 4096 \<longrightarrow> m' x = m x"
  shows "subtables f pt m' = subtables f pt m \<and> no_leaves f pt m' = no_leaves f pt m"
  using assms
proof (induction f arbitrary: pt)
  case (Suc f)
  have e: "pte_at pt m' i = pte_at pt m i" if "i < 512" for i using Suc.prems that by (intro pte_at_other_page) auto
  have k: "subtables f (PTE2PA (pte_at pt m i)) m' = subtables f (PTE2PA (pte_at pt m i)) m \<and> no_leaves f (PTE2PA (pte_at pt m i)) m' = no_leaves f (PTE2PA (pte_at pt m i)) m"
    if "i < 512" "pte_at pt m i AND PTE_V \<noteq> 0" for i
    using Suc.prems that by (intro Suc.IH ballI) (auto simp: subtables_Suc subs_def simp del: subtables.simps)
  have "map (subs f pt m') [0..<512] = map (subs f pt m) [0..<512]" using e k by (auto simp: subs_def)
  then have "subtables (Suc f) pt m' = subtables (Suc f) pt m" unfolding subtables_Suc by (simp only:)
  moreover have "no_leaves (Suc f) pt m' = no_leaves (Suc f) pt m" using e k by auto
  ultimately show ?case by simp
qed simp

definition freeable :: "u64 list \<Rightarrow> u64 list \<Rightarrow> 'z kmem_scheme \<Rightarrow> bool" where
  "freeable ts xs s \<longleftrightarrow> kmem_inv s xs \<and> cpu_ok s \<and> distinct ts \<and> (\<forall>p\<in>set ts. page_ok (kend s) p \<and> p \<notin> set xs)"

definition freed :: "u64 list \<Rightarrow> u64 set \<Rightarrow> u64 list \<Rightarrow> 'z kmem_scheme \<Rightarrow> 'z kmem_scheme \<Rightarrow> bool" where
  "freed ts T xs s u \<longleftrightarrow> kmem_inv u (rev ts @ xs) \<and> cpu_ok u \<and> kend u = kend s \<and> (\<forall>x. outside T x \<longrightarrow> pmem u x = pmem s x)"

lemma kfree_freed:
  assumes "freeable [p] xs s"
  shows "\<exists>u. kfree p s = Ret () u \<and> freed [p] {p} xs s u"
proof -
  have i: "kmem_inv s xs" "cpu_ok s" "page_ok (kend s) p" "p \<notin> set xs" using assms by (auto simp: freeable_def)
  let ?m = "store64 p (freelist s) (memset p 1 4096 (pmem s))"
  have "same_outside (pmem s) ?m p" using same_outside_trans [OF same_outside_memset same_outside_store64 [of 0 p]] i(3) by (simp add: page_ok_def)
  then show ?thesis using kmem_inv_free [OF i] i(2)
    by (intro exI [of _ "(settle s)\<lparr>pmem := ?m, freelist := p\<rparr>"]) (simp add: freed_def same_outside_def)
qed

lemma freewalk_entries:
  fixes s :: "'z kmem_scheme"
  defines "body \<equiv> \<lambda>f pt i (s :: 'z kmem_scheme). let pte = load64 (pmem s) (pt + 8 * of_nat i) in
          if pte AND PTE_V \<noteq> 0 \<and> pte AND (PTE_R OR PTE_W OR PTE_X) = 0 then
            andthen (freewalk f (PTE2PA pte) s) (\<lambda>_ s. Ret () (s\<lparr>pmem := store64 (pt + 8 * of_nat i) 0 (pmem s)\<rparr>))
          else if pte AND PTE_V \<noteq> 0 then Panic ''freewalk: leaf'' else Ret () s"
  assumes IH: "\<And>c xs s :: 'z kmem_scheme. no_leaves f c (pmem s) \<Longrightarrow> freeable (subtables f c (pmem s)) xs s \<Longrightarrow>
       \<exists>u. freewalk f c s = Ret () u \<and> freed (subtables f c (pmem s)) (set (subtables f c (pmem s))) xs s u"
    and "distinct is" "\<forall>i\<in>set is. i < 512" and "page_aligned pt" "pt \<notin> set xs"
    and "freeable (concat (map (subs f pt (pmem s)) is)) xs s" and "pt \<notin> set (concat (map (subs f pt (pmem s)) is))"
    and "\<forall>i\<in>set is. pte_at pt (pmem s) i AND PTE_V \<noteq> 0 \<longrightarrow> pte_at pt (pmem s) i AND (PTE_R OR PTE_W OR PTE_X) = 0 \<and> no_leaves f (PTE2PA (pte_at pt (pmem s) i)) (pmem s)"
  shows "\<exists>u. for_each (body f pt) is s = Ret () u \<and> freed (concat (map (subs f pt (pmem s)) is)) (insert pt (set (concat (map (subs f pt (pmem s)) is)))) xs s u"
  using assms(3-)
proof (induction "is" arbitrary: xs s)
  case Nil
  then show ?case by (simp add: freed_def freeable_def)
next
  case (Cons i "is")
  let ?c = "PTE2PA (pte_at pt (pmem s) i)" and ?ts = "subs f pt (pmem s) i" and ?rs = "concat (map (subs f pt (pmem s)) is)"
  have fr: "freeable (?ts @ ?rs) xs s" and np: "pt \<notin> set ?ts" "pt \<notin> set ?rs" using Cons.prems(5,6) by simp_all
  obtain u where u: "body f pt i s = Ret () u" "freed ?ts (insert pt (set ?ts)) xs s u" "\<forall>j<512. j \<noteq> i \<longrightarrow> pte_at pt (pmem u) j = pte_at pt (pmem s) j"
  proof (cases "pte_at pt (pmem s) i AND PTE_V \<noteq> 0")
    case True
    then have ts: "?ts = subtables f ?c (pmem s)" by (simp add: subs_def)
    have "no_leaves f ?c (pmem s)" "pte_at pt (pmem s) i AND (PTE_R OR PTE_W OR PTE_X) = 0" using Cons.prems(7) True by auto
    moreover have "freeable (subtables f ?c (pmem s)) xs s" using fr unfolding ts [symmetric] by (auto simp: freeable_def)
    ultimately obtain v where v: "freewalk f ?c s = Ret () v" "freed ?ts (set ?ts) xs s v" "pte_at pt (pmem s) i AND (PTE_R OR PTE_W OR PTE_X) = 0"
      using IH [of ?c s xs] unfolding ts by auto
    let ?u = "v\<lparr>pmem := store64 (pt + 8 * of_nat i) 0 (pmem v)\<rparr>"
    have i: "unat (of_nat i :: u64) = i" "i < 512" using Cons.prems(2) by (auto simp: unat_of_nat)
    have off: "pt + 8 * of_nat i = pt + of_nat (8 * i)" by simp
    have so: "same_outside (pmem v) (pmem ?u) pt" using same_outside_store64 [of "8 * i" pt] Cons.prems(3) i(2) unfolding off by simp
    have ki: "kmem_inv ?u (rev ?ts @ xs)" using v(2) np(1) Cons.prems(3,4) so by (intro kmem_inv_same [where p = pt, simplified]) (auto simp: freed_def)
    have "freed ?ts (insert pt (set ?ts)) xs s ?u" using v(2) ki so by (auto simp: freed_def same_outside_def)
    moreover have "pte_at pt (pmem ?u) j = pte_at pt (pmem s) j" if "j < 512" "j \<noteq> i" for j
    proof -
      have "unat (of_nat j :: u64) = j" using that(1) by (simp add: unat_of_nat)
      then have "(of_nat j :: u64) \<noteq> of_nat i" "unat (of_nat j :: u64) < 512" "unat (of_nat i :: u64) < 512" using i that by metis+
      then have "pte_at pt (pmem ?u) j = pte_at pt (pmem v) j" unfolding pte_at_def
        using load64_store64_other [OF entries_apart entries_apart] by simp
      also have "\<dots> = pte_at pt (pmem s) j"
      proof (rule pte_at_other_page [OF _ that(1)], intro allI impI)
        fix x assume x: "unat (x - pt) < 4096"
        have "outside (set ?ts) x" using fr np(1) by (intro outside_page [OF Cons.prems(3) _ _ x]) (auto simp: freeable_def page_ok_def)
        then show "pmem v x = pmem s x" using v(2) by (simp add: freed_def)
      qed
      finally show ?thesis .
    qed
    moreover have "body f pt i s = Ret () ?u" using True v(1,3) by (simp add: body_def Let_def pte_at_def)
    ultimately show ?thesis using that by blast
  next
    case False
    then have "?ts = []" "body f pt i s = Ret () s" by (simp_all add: subs_def body_def pte_at_def Let_def)
    then show ?thesis using that [of s] fr by (simp add: freed_def freeable_def)
  qed
  have keep: "subs f pt (pmem u) j = subs f pt (pmem s) j \<and> (pte_at pt (pmem s) j AND PTE_V \<noteq> 0 \<longrightarrow> no_leaves f (PTE2PA (pte_at pt (pmem s) j)) (pmem u) = no_leaves f (PTE2PA (pte_at pt (pmem s) j)) (pmem s))"
    if j: "j \<in> set is" for j
  proof -
    have e: "pte_at pt (pmem u) j = pte_at pt (pmem s) j" using u(3) Cons.prems(1,2) j by auto
    have "\<forall>p\<in>set (subs f pt (pmem s) j). \<forall>x. unat (x - p) < 4096 \<longrightarrow> pmem u x = pmem s x"
    proof (intro ballI allI impI)
      fix p x assume p: "p \<in> set (subs f pt (pmem s) j)" and x: "unat (x - p) < 4096"
      then have "p \<in> set ?rs" using j by auto
      then have "page_aligned p" "p \<notin> insert pt (set ?ts)" "\<forall>q\<in>insert pt (set ?ts). page_aligned q" using fr np Cons.prems(3) by (auto simp: freeable_def page_ok_def)
      from outside_page [OF this x] show "pmem u x = pmem s x" using u(2) by (simp add: freed_def)
    qed
    then show ?thesis using subtables_frame [of f "PTE2PA (pte_at pt (pmem s) j)" "pmem s" "pmem u"] e by (auto simp: subs_def)
  qed
  then have rs: "map (subs f pt (pmem u)) is = map (subs f pt (pmem s)) is" by simp
  have "freeable ?rs (rev ?ts @ xs) u" using fr u(2) by (auto simp: freeable_def freed_def)
  moreover have "pt \<notin> set (rev ?ts @ xs)" using np Cons.prems(4) by auto
  moreover have "\<forall>j\<in>set is. pte_at pt (pmem u) j AND PTE_V \<noteq> 0 \<longrightarrow> pte_at pt (pmem u) j AND (PTE_R OR PTE_W OR PTE_X) = 0 \<and> no_leaves f (PTE2PA (pte_at pt (pmem u) j)) (pmem u)"
    using Cons.prems(1,2,7) u(3) keep by auto
  ultimately obtain w where "for_each (body f pt) is u = Ret () w" "freed ?rs (insert pt (set ?rs)) (rev ?ts @ xs) u w"
    using Cons.IH [of "rev ?ts @ xs" u] Cons.prems(1,2,3) np(2) unfolding rs by auto
  then show ?case using u(1,2) by (intro exI [of _ w]) (auto simp: freed_def)
qed

lemma freewalk_spec:
  "no_leaves f pt (pmem s) \<Longrightarrow> freeable (subtables f pt (pmem s)) xs s \<Longrightarrow>
     \<exists>u. freewalk f pt s = Ret () u \<and> freed (subtables f pt (pmem s)) (set (subtables f pt (pmem s))) xs s u"
proof (induction f arbitrary: pt xs s)
  case (Suc f)
  let ?ks = "concat (map (subs f pt (pmem s)) [0..<512])"
  have fr: "freeable (?ks @ [pt]) xs s" using Suc.prems(2) unfolding subtables_Suc .
  have pt: "page_aligned pt" "pt \<notin> set xs" "pt \<notin> set ?ks" "page_ok (kend s) pt" using fr by (auto simp: freeable_def page_ok_def)
  have "freeable ?ks xs s" using fr by (auto simp: freeable_def)
  from freewalk_entries [where f = f, OF Suc.IH _ _ pt(1,2) this pt(3)] Suc.prems(1)
  obtain u where u: "for_each (\<lambda>i s. let pte = load64 (pmem s) (pt + 8 * of_nat i) in
          if pte AND PTE_V \<noteq> 0 \<and> pte AND (PTE_R OR PTE_W OR PTE_X) = 0 then
            andthen (freewalk f (PTE2PA pte) s) (\<lambda>_ s. Ret () (s\<lparr>pmem := store64 (pt + 8 * of_nat i) 0 (pmem s)\<rparr>))
          else if pte AND PTE_V \<noteq> 0 then Panic ''freewalk: leaf'' else Ret () s) [0..<512] s = Ret () u" "freed ?ks (insert pt (set ?ks)) xs s u" by auto
  have "freeable [pt] (rev ?ks @ xs) u" using u(2) pt by (auto simp: freeable_def freed_def)
  from kfree_freed [OF this] obtain w where w: "kfree pt u = Ret () w" "freed [pt] {pt} (rev ?ks @ xs) u w" by blast
  have "freewalk (Suc f) pt s = Ret () w" using u(1) w(1) by simp
  moreover have "freed (?ks @ [pt]) (set (?ks @ [pt])) xs s w" using u(2) w(2) by (auto simp: freed_def)
  ultimately show ?case unfolding subtables_Suc by blast
qed simp

subsection \<open>The tables of a tree and the tables freewalk frees\<close>

lemma small_bits: "i < 512 \<Longrightarrow> bit (of_nat i :: u64) n \<Longrightarrow> n < 9"
proof -
  assume "i < 512" "bit (of_nat i :: u64) n"
  moreover have "take_bit 9 i = i" using \<open>i < 512\<close> by (simp add: take_bit_nat_eq_self)
  ultimately show "n < 9" by (metis bit_of_nat_iff bit_take_bit_iff)
qed

lemma address_at:
  assumes "d \<le> 2" and "i < 512"
  obtains va where "agree d va va0" and "ix d va = of_nat i"
proof -
  let ?k = "12 + 9 * (2 - d)"
  let ?va = "(va0 AND NOT (push_bit ?k (mask 9))) OR push_bit ?k (of_nat i)"
  have b: "bit ?va n = (if ?k \<le> n \<and> n < ?k + 9 \<and> n < 64 then bit (of_nat i :: u64) (n - ?k) else bit va0 n)" for n
    using small_bits [OF assms(2), of "n - ?k"] by (auto simp: bit_simps dest: bit_imp_le_length)
  have "ix k ?va = ix k va0" if "k < d" for k
  proof (rule bit_eqI)
    fix n
    have "12 + 9 * (2 - k) + n \<ge> ?k + 9" using that assms(1) by simp
    then show "bit (ix k ?va) n = bit (ix k va0) n" using b [of "12 + 9 * (2 - k) + n"] by (simp add: bit_ix)
  qed
  moreover have "ix d ?va = of_nat i"
  proof (rule bit_eqI)
    fix n
    have "?k + n < 64" if "n < 9" using that assms(1) by simp
    then show "bit (ix d ?va) n = bit (of_nat i :: u64) n" using b [of "?k + n"] small_bits [OF assms(2), of n] by (auto simp: bit_ix)
  qed
  ultimately show ?thesis using that [of ?va] by (simp add: agree_def)
qed

definition links :: "u64 \<Rightarrow> mem \<Rightarrow> bool" where
  "links pt m \<longleftrightarrow> (\<forall>d<2. \<forall>va t. tbl d pt va m = Some t \<longrightarrow> load64 m (t + 8 * ix d va) AND PTE_V \<noteq> 0 \<longrightarrow> load64 m (t + 8 * ix d va) AND (PTE_R OR PTE_W OR PTE_X) = 0)"

lemma entry_pte: "ix d va = of_nat i \<Longrightarrow> load64 m (t + 8 * ix d va) = pte_at t m i"
  by (simp add: pte_at_def)

lemma distinct_concat_map:
  assumes "distinct is" and "\<And>i. i \<in> set is \<Longrightarrow> distinct (g i)" and "\<And>i j x. i \<in> set is \<Longrightarrow> j \<in> set is \<Longrightarrow> x \<in> set (g i) \<Longrightarrow> x \<in> set (g j) \<Longrightarrow> i = j"
  shows "distinct (concat (map g is))"
  using assms
proof (induction "is")
  case (Cons i "is")
  then have "set (g i) \<inter> set (g j) = {}" if "j \<in> set is" for j using that by fastforce
  then show ?case using Cons by auto
qed simp

lemma subtables_tbl:
  assumes "pt_ok pt m" and "d + f = 3" and "tbl d pt va0 m = Some t"
  shows "distinct (subtables f t m) \<and> (\<forall>p. p \<in> set (subtables f t m) \<longleftrightarrow> (\<exists>d' va. d \<le> d' \<and> d' \<le> 2 \<and> agree d va va0 \<and> tbl d' pt va m = Some p))"
  using assms(2-)
proof (induction f arbitrary: d va0 t)
  case (Suc f)
  have d: "d \<le> 2" using Suc.prems(1) by simp
  have one: "distinct (subs f t m i) \<and> (\<forall>p. p \<in> set (subs f t m i) \<longleftrightarrow> (\<exists>d' va. Suc d \<le> d' \<and> d' \<le> 2 \<and> agree d va va0 \<and> ix d va = of_nat i \<and> tbl d' pt va m = Some p))"
    if i: "i < 512" for i
  proof -
    obtain w where w: "agree d w va0" "ix d w = of_nat i" using address_at [OF d i] by blast
    have tw: "tbl d pt w m = Some t" using Suc.prems(2) tbl_agree [OF w(1)] by simp
    have aw: "agree (Suc d) va w \<longleftrightarrow> agree d va va0 \<and> ix d va = of_nat i" for va using w agree_trans agree_sym by (metis agree_Suc)
    show ?thesis
    proof (cases "pte_at t m i AND PTE_V \<noteq> 0")
      case True
      then have "tbl (Suc d) pt w m = Some (PTE2PA (pte_at t m i))" using tw by (simp add: entry_pte [OF w(2)] Let_def)
      from Suc.IH [OF _ this] Suc.prems(1) have "distinct (subtables f (PTE2PA (pte_at t m i)) m) \<and>
          (\<forall>p. p \<in> set (subtables f (PTE2PA (pte_at t m i)) m) \<longleftrightarrow> (\<exists>d' va. Suc d \<le> d' \<and> d' \<le> 2 \<and> agree (Suc d) va w \<and> tbl d' pt va m = Some p))" by simp
      then show ?thesis using True by (simp add: subs_def aw conj_assoc)
    next
      case False
      have "tbl d' pt va m = None" if "Suc d \<le> d'" "agree d va va0" "ix d va = of_nat i" for d' va
      proof -
        have "tbl d pt va m = Some t" using Suc.prems(2) tbl_agree [OF that(2)] by simp
        then have "tbl (Suc d) pt va m = None" using False by (simp add: entry_pte [OF that(3)] Let_def)
        then show ?thesis using tbl_prev [of d' pt va m "Suc d"] that(1) by blast
      qed
      then show ?thesis using False by (auto simp: subs_def)
    qed
  qed
  have t1: "\<not> (\<exists>d' va. Suc d \<le> d' \<and> d' \<le> 2 \<and> tbl d' pt va m = Some t)"
  proof
    assume "\<exists>d' va. Suc d \<le> d' \<and> d' \<le> 2 \<and> tbl d' pt va m = Some t"
    then obtain d' va where "Suc d \<le> d'" "d' \<le> 2" "tbl d' pt va m = Some t" by blast
    then have "d = d'" using assms(1) d Suc.prems(2) unfolding pt_ok_def by blast
    then show False using \<open>Suc d \<le> d'\<close> by simp
  qed
  have "distinct (concat (map (subs f t m) [0..<512]))"
  proof (rule distinct_concat_map)
    fix i j p assume i: "i \<in> set [0..<512]" "j \<in> set [0..<512]" and p: "p \<in> set (subs f t m i)" "p \<in> set (subs f t m j)"
    obtain d1 v1 where 1: "Suc d \<le> d1" "d1 \<le> 2" "ix d v1 = of_nat i" "tbl d1 pt v1 m = Some p" using one i(1) p(1) by auto
    obtain d2 v2 where 2: "Suc d \<le> d2" "d2 \<le> 2" "ix d v2 = of_nat j" "tbl d2 pt v2 m = Some p" using one i(2) p(2) by auto
    have "d1 = d2 \<and> agree d1 v1 v2" using assms(1) 1(2,4) 2(2,4) unfolding pt_ok_def by blast
    then have "(of_nat i :: u64) = of_nat j" using 1(1,3) 2(3) by (auto simp: agree_def)
    then have "unat (of_nat i :: u64) = unat (of_nat j :: u64)" by simp
    then show "i = j" using i by (simp add: unat_of_nat)
  qed (use one in auto)
  moreover have mem: "p \<in> set (concat (map (subs f t m) [0..<512])) \<longleftrightarrow> (\<exists>d' va. Suc d \<le> d' \<and> d' \<le> 2 \<and> agree d va va0 \<and> tbl d' pt va m = Some p)" for p
  proof -
    have "\<exists>i<512. ix d va = of_nat i" for va using ix_less [of d va] by (intro exI [of _ "unat (ix d va)"]) simp
    then show ?thesis using one by (auto simp: Bex_def) blast+
  qed
  ultimately have "distinct (subtables (Suc f) t m)" unfolding subtables_Suc using t1 by auto
  moreover have "p \<in> set (subtables (Suc f) t m) \<longleftrightarrow> (\<exists>d' va. d \<le> d' \<and> d' \<le> 2 \<and> agree d va va0 \<and> tbl d' pt va m = Some p)" for p
  proof -
    have "(\<exists>d' va. d \<le> d' \<and> d' \<le> 2 \<and> agree d va va0 \<and> tbl d' pt va m = Some p) \<longleftrightarrow>
       (\<exists>d' va. Suc d \<le> d' \<and> d' \<le> 2 \<and> agree d va va0 \<and> tbl d' pt va m = Some p) \<or> p = t" (is "?l = ?r")
    proof
      assume ?l
      then obtain d' va where v: "d \<le> d'" "d' \<le> 2" "agree d va va0" "tbl d' pt va m = Some p" by blast
      show ?r
      proof (cases "d' = d")
        case True
        then show ?thesis using v(3,4) tbl_agree [OF v(3)] Suc.prems(2) by simp
      next
        case False
        then show ?thesis using v by (intro disjI1 exI [of _ d'] exI [of _ va]) simp
      qed
    next
      assume ?r
      then show ?l using d Suc.prems(2) Suc_leD agree_refl by blast
    qed
    then show ?thesis unfolding subtables_Suc using mem [of p] by auto
  qed
  ultimately show ?case by blast
qed auto

lemma no_leaves_tbl:
  assumes "links pt m" and "\<And>va. vmap pt m va AND PTE_V = 0" and "d + f = 3" and "tbl d pt va0 m = Some t" and "d \<le> 2"
  shows "no_leaves f t m"
  using assms(3-)
proof (induction f arbitrary: d va0 t)
  case (Suc f)
  have "pte_at t m i AND (PTE_R OR PTE_W OR PTE_X) = 0 \<and> no_leaves f (PTE2PA (pte_at t m i)) m" if i: "i < 512" and v: "pte_at t m i AND PTE_V \<noteq> 0" for i
  proof -
    obtain w where w: "agree d w va0" "ix d w = of_nat i" using address_at [OF Suc.prems(3) i] by blast
    have tw: "tbl d pt w m = Some t" using Suc.prems(2) tbl_agree [OF w(1)] by simp
    have d: "d \<noteq> 2" using assms(2) [of w] v tw entry_pte [OF w(2)] by (auto simp: vmap_def)
    have "tbl (Suc d) pt w m = Some (PTE2PA (pte_at t m i))" using tw v by (simp add: entry_pte [OF w(2)] Let_def)
    moreover have "pte_at t m i AND (PTE_R OR PTE_W OR PTE_X) = 0" using assms(1) tw v d Suc.prems(3) unfolding links_def entry_pte [OF w(2), symmetric] by (metis le_neq_implies_less)
    ultimately show ?thesis using Suc.IH [of "Suc d" w] Suc.prems(1,3) d by simp
  qed
  then show ?case by simp
qed simp

subsection \<open>uvmfree\<close>

text \<open>A page table that can be taken down: its tables are pages of the allocator, and entries above the lowest level only point to tables.\<close>

definition space :: "u64 \<Rightarrow> u64 list \<Rightarrow> 'z kmem_scheme \<Rightarrow> bool" where
  "space pt xs s \<longleftrightarrow> vm_inv pt xs s \<and> links pt (pmem s) \<and> (\<forall>t\<in>tables pt (pmem s). page_ok (kend s) t)"

definition only_maps :: "u64 \<Rightarrow> mem \<Rightarrow> (u64 \<Rightarrow> bool) \<Rightarrow> bool" where
  "only_maps pt m A \<longleftrightarrow> (\<forall>b<MAXVA. \<not> A b \<longrightarrow> vmap pt m b AND PTE_V = 0) \<and> (\<forall>b. 256 \<le> unat (ix 0 b) \<longrightarrow> vmap pt m b AND PTE_V = 0)"

lemma links_upper: "upper_same pt m m' \<Longrightarrow> links pt m \<Longrightarrow> links pt m'"
  using upper_same_tbl [of pt m m'] by (auto simp: links_def upper_same_def less_imp_le)

lemma low_address:
  assumes "unat (ix 0 va) < 256"
  obtains b where "b < MAXVA" and "agree 3 va b"
proof -
  let ?b = "take_bit 38 va"
  have "unat ?b < 2 ^ 38" unfolding unsigned_take_bit_eq by (rule take_bit_nat_less_exp)
  then have lt: "?b < MAXVA" by (simp add: word_less_nat_alt unat_MAXVA)
  have "\<not> bit va 38"
  proof
    assume "bit va 38"
    then have "bit (ix 0 va) 8" by (simp add: bit_ix)
    then have "bit (unat (ix 0 va)) 8" by (simp add: bit_unsigned_iff)
    moreover have "take_bit 8 (unat (ix 0 va)) = unat (ix 0 va)" using assms by (simp add: take_bit_nat_eq_self)
    ultimately show False by (metis bit_take_bit_iff less_irrefl)
  qed
  then have "bit va n = bit ?b n" if "n < 39" for n using that by (cases "n = 38") (auto simp: bit_simps)
  then have "ix k va = ix k ?b" for k by (intro bit_eqI) (auto simp: bit_ix)
  then show ?thesis using lt that by (simp add: agree_def)
qed

lemma only_maps_none: "only_maps pt m (\<lambda>_. False) \<Longrightarrow> vmap pt m va AND PTE_V = 0"
proof (cases "unat (ix 0 va) < 256")
  case True
  assume "only_maps pt m (\<lambda>_. False)"
  moreover obtain b where "b < MAXVA" "agree 3 va b" using low_address [OF True] by blast
  ultimately show ?thesis using vmap_agree [of va b pt m] by (simp add: only_maps_def)
qed (simp add: only_maps_def)

lemma uvmunmap_space:
  assumes sp: "space pt xs s" and a: "page_aligned a" "unat a + 4096 * k \<le> unat MAXVA" and lf: "\<forall>j<k. leaf (vmap pt (pmem s) (a + of_nat (4096 * j)))"
    and ps: "ps = (if do_free then mapped_pages pt (pmem s) a k else [])" and ow: "owned pt ps xs s" and om: "only_maps pt (pmem s) A"
  shows "\<exists>u. uvmunmap pt a (of_nat k) do_free s = Ret () u \<and> space pt (rev ps @ xs) u \<and> kend u = kend s \<and> tables pt (pmem u) = tables pt (pmem s) \<and>
     (\<forall>b<MAXVA. vmap pt (pmem u) b = (if in_pages a k b then 0 else vmap pt (pmem s) b)) \<and> only_maps pt (pmem u) (\<lambda>b. A b \<and> \<not> in_pages a k b) \<and>
     (\<forall>x. outside (tables pt (pmem s) \<union> set ps) x \<longrightarrow> pmem u x = pmem s x) \<and> mem_only s u"
proof -
  have inv: "vm_inv pt xs s" using sp by (simp add: space_def)
  have e: "a + of_nat k * PGSIZE = a + of_nat (4096 * k)" by (simp add: algebra_simps)
  have al: "a mod PGSIZE = 0" using a(1) by (simp add: page_aligned_def)
  obtain u where u: "uvmunmap_loop pt a (a + of_nat (4096 * k)) do_free s = Ret () u" "vm_inv pt (rev ps @ xs) u" "kend u = kend s" "tables pt (pmem u) = tables pt (pmem s)"
     "\<forall>b<MAXVA. vmap pt (pmem u) b = (if in_pages a k b then 0 else vmap pt (pmem s) b)" "\<forall>x. outside (tables pt (pmem s) \<union> set ps) x \<longrightarrow> pmem u x = pmem s x"
     "upper_same pt (pmem s) (pmem u)" using uvmunmap_loop_spec [OF inv a refl lf ps ow] by blast
  have "kmem_free s" using inv by (simp add: vm_inv_def kmem_inv_def kmem_free_def)
  then have "mem_only s u" by (rule uvmunmap_loop_mem_only [OF u(1)])
  moreover have "only_maps pt (pmem u) (\<lambda>b. A b \<and> \<not> in_pages a k b)" using om u(5,7) by (auto simp: only_maps_def upper_same_def)
  moreover have "space pt (rev ps @ xs) u" using sp u(2-4) links_upper [OF u(7)] by (simp add: space_def)
  moreover have "uvmunmap pt a (of_nat k) do_free s = Ret () u" using u(1) al by (simp only: uvmunmap_def e) simp
  ultimately show ?thesis using u(3-6) by blast
qed

lemma freewalk_space:
  assumes sp: "space pt xs s" and om: "only_maps pt (pmem s) (\<lambda>_. False)"
  shows "\<exists>ts u. freewalk 3 pt s = Ret () u \<and> set ts = tables pt (pmem s) \<and> freed ts (tables pt (pmem s)) xs s u \<and> mem_only s u"
proof -
  have i: "kmem_inv s xs" "cpu_ok s" "pt_ok pt (pmem s)" "tables pt (pmem s) \<inter> set xs = {}" using sp by (auto simp: space_def vm_inv_def)
  have t: "tbl 0 pt 0 (pmem s) = Some pt" by simp
  have st: "distinct (subtables 3 pt (pmem s))" "set (subtables 3 pt (pmem s)) = tables pt (pmem s)"
    using subtables_tbl [OF i(3) _ t, of 3] by (auto simp: tables_def agree_def)
  have "freeable (subtables 3 pt (pmem s)) xs s" using i sp st by (auto simp: freeable_def space_def)
  moreover have "no_leaves 3 pt (pmem s)" using sp only_maps_none [OF om] by (intro no_leaves_tbl [OF _ _ _ t]) (simp_all add: space_def)
  ultimately obtain u where u: "freewalk 3 pt s = Ret () u" "freed (subtables 3 pt (pmem s)) (tables pt (pmem s)) xs s u" using freewalk_spec st(2) by metis
  have "mem_only s u" using i by (intro freewalk_mem_only [OF u(1)]) (simp add: kmem_free_def kmem_inv_def)
  then show ?thesis using u st(2) by blast
qed

lemma uvmfree_spec:
  assumes sp: "space pt xs s" and n: "PGROUNDUP sz = pg n" "4096 * n \<le> unat MAXVA" and lf: "\<forall>j<n. leaf (vmap pt (pmem s) (pg j))"
    and ps: "ps = mapped_pages pt (pmem s) 0 n" and ow: "owned pt ps xs s" and om: "only_maps pt (pmem s) (in_pages 0 n)"
  shows "\<exists>ys u. uvmfree pt sz s = Ret () u \<and> set ys = tables pt (pmem s) \<union> set ps \<and> freed ys (tables pt (pmem s) \<union> set ps) xs s u \<and> mem_only s u"
proof -
  have cnt: "pg n div PGSIZE = of_nat n" using unat_pg [OF n(2)] n(2) by (simp add: word_unat_eq_iff unat_div_distrib unat_of_nat unat_MAXVA)
  have "sz = 0 \<Longrightarrow> n = 0" using n unat_pg [OF n(2)] by (simp add: PGROUNDUP_def)
  then have u1: "(if sz > 0 then uvmunmap pt 0 (PGROUNDUP sz div PGSIZE) True s else Ret () s) = uvmunmap pt 0 (of_nat n) True s"
    unfolding n(1) cnt by (auto simp: uvmunmap_def uvmunmap_loop.simps word_gt_0)
  have "\<forall>j<n. leaf (vmap pt (pmem s) (0 + of_nat (4096 * j)))" using lf unfolding pg_def add_0 .
  moreover have "page_aligned 0" "unat (0 :: u64) + 4096 * n \<le> unat MAXVA" "ps = (if True then mapped_pages pt (pmem s) 0 n else [])" using n(2) ps by (simp_all add: page_aligned_def)
  ultimately obtain u where u: "uvmunmap pt 0 (of_nat n) True s = Ret () u" "space pt (rev ps @ xs) u" "kend u = kend s"
     "tables pt (pmem u) = tables pt (pmem s)" "only_maps pt (pmem u) (\<lambda>b. in_pages 0 n b \<and> \<not> in_pages 0 n b)" "\<forall>x. outside (tables pt (pmem s) \<union> set ps) x \<longrightarrow> pmem u x = pmem s x" "mem_only s u"
    using uvmunmap_space [OF sp, of 0 n ps True] ow om by blast
  have "only_maps pt (pmem u) (\<lambda>_. False)" using u(5) by simp
  from freewalk_space [OF u(2) this] obtain ts w where w: "freewalk 3 pt u = Ret () w" "set ts = tables pt (pmem u)" "freed ts (tables pt (pmem u)) (rev ps @ xs) u w" "mem_only u w" by blast
  have "uvmfree pt sz s = Ret () w" unfolding uvmfree_def u1 using u(1) w(1) by simp
  moreover have "freed (ps @ ts) (tables pt (pmem s) \<union> set ps) xs s w" using w(3) u(3,4,6) by (auto simp: freed_def)
  moreover have "set (ps @ ts) = tables pt (pmem s) \<union> set ps" using w(2) u(4) by auto
  ultimately show ?thesis using mem_only_trans [OF u(7) w(4)] by blast
qed

subsection \<open>proc_freepagetable and freeproc\<close>

text \<open>The page table of a process: its memory at the bottom, the trampoline and the trapframe at the top, nothing else.\<close>

definition user_vm :: "u64 \<Rightarrow> nat \<Rightarrow> u64 list \<Rightarrow> 'z kmem_scheme \<Rightarrow> bool" where
  "user_vm pt n xs s \<longleftrightarrow> space pt xs s \<and> 4096 * n \<le> unat TRAPFRAME \<and> leaf (vmap pt (pmem s) TRAMPOLINE) \<and> leaf (vmap pt (pmem s) TRAPFRAME) \<and>
     (\<forall>j<n. leaf (vmap pt (pmem s) (pg j))) \<and> owned pt (mapped_pages pt (pmem s) 0 n) xs s \<and>
     only_maps pt (pmem s) (\<lambda>b. in_pages 0 n b \<or> in_pages TRAMPOLINE 1 b \<or> in_pages TRAPFRAME 1 b)"

lemma top_unat: "unat TRAMPOLINE = 2 ^ 38 - 4096" "unat TRAPFRAME = 2 ^ 38 - 8192" "page_aligned TRAMPOLINE" "page_aligned TRAPFRAME" "TRAMPOLINE < MAXVA" "TRAPFRAME < MAXVA" "unat MAXVA = 2 ^ 38"
  by (simp_all add: TRAMPOLINE_def TRAPFRAME_def MAXVA_def page_aligned_def)

lemma unmap_top:
  assumes sp: "space pt xs s" and a: "page_aligned a" "unat a + 4096 \<le> unat MAXVA" "leaf (vmap pt (pmem s) a)" and om: "only_maps pt (pmem s) A"
  shows "\<exists>u. uvmunmap pt a 1 False s = Ret () u \<and> space pt xs u \<and> kend u = kend s \<and> tables pt (pmem u) = tables pt (pmem s) \<and>
     (\<forall>b<MAXVA. \<not> in_pages a 1 b \<longrightarrow> vmap pt (pmem u) b = vmap pt (pmem s) b) \<and> only_maps pt (pmem u) (\<lambda>b. A b \<and> \<not> in_pages a 1 b) \<and>
     (\<forall>x. outside (tables pt (pmem s)) x \<longrightarrow> pmem u x = pmem s x) \<and> mem_only s u"
proof -
  have "\<forall>j<1. leaf (vmap pt (pmem s) (a + of_nat (4096 * j)))" using a(3) by simp
  moreover have "unat a + 4096 * 1 \<le> unat MAXVA" "[] = (if False then mapped_pages pt (pmem s) a 1 else [])" "owned pt [] xs s" using a(2) by (simp_all add: owned_def)
  ultimately have "\<exists>u. uvmunmap pt a (of_nat 1) False s = Ret () u \<and> space pt (rev [] @ xs) u \<and> kend u = kend s \<and> tables pt (pmem u) = tables pt (pmem s) \<and>
     (\<forall>b<MAXVA. vmap pt (pmem u) b = (if in_pages a 1 b then 0 else vmap pt (pmem s) b)) \<and> only_maps pt (pmem u) (\<lambda>b. A b \<and> \<not> in_pages a 1 b) \<and>
     (\<forall>x. outside (tables pt (pmem s) \<union> set []) x \<longrightarrow> pmem u x = pmem s x) \<and> mem_only s u"
    using uvmunmap_space [OF sp a(1) _ _ _ _ om] by blast
  then show ?thesis by auto
qed

lemma mapped_pages_cong: "(\<And>j. j < n \<Longrightarrow> vmap pt m' (pg j) = vmap pt m (pg j)) \<Longrightarrow> mapped_pages pt m' 0 n = mapped_pages pt m 0 n"
  by (simp add: mapped_pages_def pg_def)

lemma proc_freepagetable_spec:
  fixes s :: "'z kproc_scheme"
  assumes vm: "user_vm pt n xs s" and n: "PGROUNDUP sz = pg n" and ps: "ps = mapped_pages pt (pmem s) 0 n"
  shows "\<exists>ys u. proc_freepagetable pt sz s = Ret () u \<and> set ys = tables pt (pmem s) \<union> set ps \<and> freed ys (tables pt (pmem s) \<union> set ps) xs s u \<and> mem_only s u"
proof -
  have v: "space pt xs s" "4096 * n \<le> unat TRAPFRAME" "leaf (vmap pt (pmem s) TRAMPOLINE)" "leaf (vmap pt (pmem s) TRAPFRAME)" "\<forall>j<n. leaf (vmap pt (pmem s) (pg j))" "owned pt ps xs s"
    "only_maps pt (pmem s) (\<lambda>b. in_pages 0 n b \<or> in_pages TRAMPOLINE 1 b \<or> in_pages TRAPFRAME 1 b)" using vm by (simp_all add: user_vm_def ps)
  have ntr: "\<not> in_pages TRAMPOLINE 1 TRAPFRAME" by (simp add: in_pages_def top_unat)
  have low: "pg j < MAXVA \<and> \<not> in_pages TRAMPOLINE 1 (pg j) \<and> \<not> in_pages TRAPFRAME 1 (pg j)" if "j < n" for j
    using v(2) that unat_pg [of j] by (simp add: in_pages_def top_unat word_less_nat_alt)
  have lw: "\<not> in_pages TRAMPOLINE 1 b \<and> \<not> in_pages TRAPFRAME 1 b" if "in_pages 0 n b" for b using v(2) that by (auto simp: in_pages_def top_unat)
  from unmap_top [OF v(1) top_unat(3) _ v(3,7)] top_unat obtain s1 where s1: "uvmunmap pt TRAMPOLINE 1 False s = Ret () s1" "space pt xs s1" "kend s1 = kend s" "tables pt (pmem s1) = tables pt (pmem s)"
     "\<forall>b<MAXVA. \<not> in_pages TRAMPOLINE 1 b \<longrightarrow> vmap pt (pmem s1) b = vmap pt (pmem s) b" "only_maps pt (pmem s1) (\<lambda>b. (in_pages 0 n b \<or> in_pages TRAMPOLINE 1 b \<or> in_pages TRAPFRAME 1 b) \<and> \<not> in_pages TRAMPOLINE 1 b)"
     "\<forall>x. outside (tables pt (pmem s)) x \<longrightarrow> pmem s1 x = pmem s x" "mem_only s s1" by auto
  have "leaf (vmap pt (pmem s1) TRAPFRAME)" using v(4) s1(5) ntr top_unat(6) by simp
  from unmap_top [OF s1(2) top_unat(4) _ this s1(6)] top_unat obtain s2 where s2: "uvmunmap pt TRAPFRAME 1 False s1 = Ret () s2" "space pt xs s2" "kend s2 = kend s1" "tables pt (pmem s2) = tables pt (pmem s1)"
     "\<forall>b<MAXVA. \<not> in_pages TRAPFRAME 1 b \<longrightarrow> vmap pt (pmem s2) b = vmap pt (pmem s1) b"
     "only_maps pt (pmem s2) (\<lambda>b. ((in_pages 0 n b \<or> in_pages TRAMPOLINE 1 b \<or> in_pages TRAPFRAME 1 b) \<and> \<not> in_pages TRAMPOLINE 1 b) \<and> \<not> in_pages TRAPFRAME 1 b)"
     "\<forall>x. outside (tables pt (pmem s1)) x \<longrightarrow> pmem s2 x = pmem s1 x" "mem_only s1 s2" by auto
  have vj: "vmap pt (pmem s2) (pg j) = vmap pt (pmem s) (pg j)" if "j < n" for j using low [OF that] s1(5) s2(5) by simp
  then have mp: "ps = mapped_pages pt (pmem s2) 0 n" using mapped_pages_cong [of n pt "pmem s2" "pmem s"] ps by simp
  have om: "only_maps pt (pmem s2) (in_pages 0 n)" using s2(6) unfolding only_maps_def by blast
  have "owned pt ps xs s2" "4096 * n \<le> unat MAXVA" "\<forall>j<n. leaf (vmap pt (pmem s2) (pg j))" using v(2,5,6) s1(3,4) s2(3,4) vj by (simp_all add: owned_def top_unat)
  from uvmfree_spec [OF s2(2) n this(2,3) mp this(1) om] obtain ys w where w: "uvmfree pt sz s2 = Ret () w" "set ys = tables pt (pmem s2) \<union> set ps"
    "freed ys (tables pt (pmem s2) \<union> set ps) xs s2 w" "mem_only s2 w" by blast
  have "proc_freepagetable pt sz s = Ret () w" using s1(1) s2(1) w(1) by (simp add: proc_freepagetable_def)
  moreover have "freed ys (tables pt (pmem s) \<union> set ps) xs s w" using w(3) s1(3,4,7) s2(3,4,7) by (auto simp: freed_def)
  ultimately show ?thesis using w(2) s1(4) s2(4) mem_only_trans [OF mem_only_trans [OF s1(8) s2(8)] w(4)] by auto
qed

lemma mem_only_noff:
  assumes "mem_only s u" and "noff (mycpu s) \<noteq> 0"
  obtains m f where "u = s\<lparr>pmem := m, freelist := f\<rparr>"
proof -
  obtain m f where e: "settle u = (settle s)\<lparr>pmem := m, freelist := f\<rparr>" using assms(1) by (auto simp: mem_only_def)
  have "noff (mycpu (settle u)) = noff (mycpu (settle s))" unfolding e by simp
  then have "noff (mycpu u) \<noteq> 0" using assms(2) by simp
  then show ?thesis using that e by (simp add: assms(2))
qed

lemma user_vm_free:
  assumes vm: "user_vm pt n xs s" and p: "owned pt (p # mapped_pages pt (pmem s) 0 n) xs s"
  shows "\<exists>u. kfree p s = Ret () u \<and> user_vm pt n (p # xs) u \<and> freed [p] {p} xs s u \<and> mem_only s u \<and> tables pt (pmem u) = tables pt (pmem s) \<and> vmap pt (pmem u) = vmap pt (pmem s)"
proof -
  have inv: "vm_inv pt xs s" and o: "page_ok (kend s) p" "p \<notin> set xs" "p \<notin> tables pt (pmem s)" using vm p by (auto simp: user_vm_def space_def owned_def)
  obtain u where u: "kfree p s = Ret () u" "vm_inv pt (p # xs) u" "kend u = kend s" "tables pt (pmem u) = tables pt (pmem s)" "vmap pt (pmem u) = vmap pt (pmem s)"
    "same_outside (pmem s) (pmem u) p" using free_owned [OF inv o] by blast
  have "links pt (pmem u)" using vm inv o u(6) by (intro links_upper [OF upper_same_page [of pt "pmem s" "pmem u" p]]) (simp_all add: user_vm_def space_def vm_inv_def page_ok_def)
  then have "user_vm pt n (p # xs) u" using vm p u by (auto simp: user_vm_def space_def only_maps_def owned_def mapped_pages_def)
  moreover have "mem_only s u" using inv by (intro kfree_mem_only [OF u(1)]) (simp add: kmem_free_def vm_inv_def kmem_inv_def)
  moreover have "freed [p] {p} xs s u" using u(2,3,6) by (simp add: freed_def vm_inv_def same_outside_def)
  ultimately show ?thesis using u by blast
qed

text \<open>A process whose memory is its own: the trapframe, the copy of it that an alarm in progress keeps, the pages of its memory, and the tables.\<close>

definition npages :: "proc \<Rightarrow> nat" where
  "npages q = unat (PGROUNDUP (p_sz q)) div 4096"

definition kept_pages :: "proc \<Rightarrow> mem \<Rightarrow> u64 list" where
  "kept_pages q m = p_trapframe q # mapped_pages (p_pagetable q) m 0 (npages q) @ (if trap_backup q = 0 then [] else [trap_backup q])"

definition proc_vm :: "proc \<Rightarrow> u64 list \<Rightarrow> 'z kmem_scheme \<Rightarrow> bool" where
  "proc_vm q xs s \<longleftrightarrow> user_vm (p_pagetable q) (npages q) xs s \<and> owned (p_pagetable q) (kept_pages q (pmem s)) xs s"

definition proc_pages :: "proc \<Rightarrow> mem \<Rightarrow> u64 set" where
  "proc_pages q m = set (kept_pages q m) \<union> tables (p_pagetable q) m"

text \<open>What \<open>freeproc\<close> leaves of a slot.\<close>

definition cleared :: "policy \<Rightarrow> proc \<Rightarrow> proc" where
  "cleared pol q = q\<lparr>p_trapframe := 0, p_pagetable := 0, p_sz := 0, p_pid := 0, p_parent := None, p_name := '''', p_chan := ChanNull, p_killed := 0, p_xstate := 0,
     p_state := UNUSED, trap_backup := 0, sigalarm_nticks := 0, sigalarm_running := False, sigalarm_handler := 0, mlfq_data := (if pol = MLFQ then mlfq_zero else mlfq_data q)\<rparr>"

lemma npages_pg: "PGROUNDUP (p_sz q) = pg (npages q)"
proof -
  have "4096 dvd unat (PGROUNDUP (p_sz q))" using PGROUNDUP_aligned [of "p_sz q"] unfolding page_aligned_unat by (simp add: dvd_eq_mod_eq_0)
  then have "4096 * npages q = unat (PGROUNDUP (p_sz q))" by (simp add: npages_def)
  then show ?thesis by (simp add: pg_def)
qed

lemma user_vm_upd [simp]: "user_vm pt n xs (upd_proc p f s) = user_vm pt n xs s"
  by (simp add: user_vm_def space_def vm_inv_def owned_def)

lemma freeproc_spec:
  fixes s :: "'z kproc_scheme"
  assumes ok: "proc_vm (procs s p) xs s" and nf: "noff (mycpu s) \<noteq> 0"
  shows "\<exists>ys m f. freeproc p s = Ret () (upd_proc p (cleared (policy s)) (s\<lparr>pmem := m, freelist := f\<rparr>)) \<and> set ys = proc_pages (procs s p) (pmem s) \<and>
     kmem_inv (s\<lparr>pmem := m, freelist := f\<rparr>) (ys @ xs) \<and> (\<forall>x. outside (proc_pages (procs s p) (pmem s)) x \<longrightarrow> m x = pmem s x)"
proof -
  let ?q = "procs s p" let ?pt = "p_pagetable ?q" and ?tf = "p_trapframe ?q" and ?bk = "trap_backup ?q" and ?n = "npages ?q"
  let ?ps = "mapped_pages ?pt (pmem s) 0 ?n"
  have vm: "user_vm ?pt ?n xs s" and ow: "owned ?pt (kept_pages ?q (pmem s)) xs s" using ok by (simp_all add: proc_vm_def)
  have cpu: "cpu_ok s" "0 < kend s" using vm by (auto simp: user_vm_def space_def vm_inv_def kmem_inv_def)
  have nz: "?tf \<noteq> 0" "?pt \<noteq> 0"
  proof -
    show "?tf \<noteq> 0" using ow cpu(2) by (auto simp: owned_def kept_pages_def page_ok_def)
    have "?pt \<in> tables ?pt (pmem s)" by (rule tbl_tables [of 0]) simp_all
    then show "?pt \<noteq> 0" using vm by (auto simp: user_vm_def space_def vm_inv_def pt_ok_def)
  qed
  have "owned ?pt (?tf # ?ps) xs s" using ow by (auto simp: owned_def kept_pages_def)
  from user_vm_free [OF vm this] obtain s1 where s1: "kfree ?tf s = Ret () s1" "user_vm ?pt ?n (?tf # xs) s1" "freed [?tf] {?tf} xs s s1" "mem_only s s1"
    "tables ?pt (pmem s1) = tables ?pt (pmem s)" "vmap ?pt (pmem s1) = vmap ?pt (pmem s)" by blast
  obtain m1 f1 where e1: "s1 = s\<lparr>pmem := m1, freelist := f1\<rparr>" using mem_only_noff [OF s1(4) nf] .
  let ?s1 = "upd_proc p (\<lambda>q. q\<lparr>p_trapframe := 0\<rparr>) s1"
  have "user_vm ?pt ?n (?tf # xs) ?s1" "?ps = mapped_pages ?pt (pmem ?s1) 0 ?n" using s1(2,6) by (simp_all add: mapped_pages_def)
  from proc_freepagetable_spec [OF this(1) npages_pg this(2)] obtain ys s2 where s2: "proc_freepagetable ?pt (p_sz ?q) ?s1 = Ret () s2" "set ys = tables ?pt (pmem s1) \<union> set ?ps"
    "freed ys (tables ?pt (pmem s1) \<union> set ?ps) (?tf # xs) ?s1 s2" "mem_only ?s1 s2" by auto
  have nf1: "noff (mycpu ?s1) \<noteq> 0" using nf by (simp add: e1)
  obtain m2 f2 where e2: "s2 = ?s1\<lparr>pmem := m2, freelist := f2\<rparr>" using mem_only_noff [OF s2(4) nf1] .
  define g where "g = (\<lambda>q :: proc. q\<lparr>p_trapframe := 0, p_pagetable := 0, p_sz := 0, p_pid := 0, p_parent := None, p_name := '''', p_chan := ChanNull, p_killed := 0, p_xstate := 0, p_state := UNUSED\<rparr>)"
  let ?s3 = "upd_proc p g (s\<lparr>pmem := m2, freelist := f2\<rparr>)"
  have s3: "upd_proc p (\<lambda>q. q\<lparr>p_pagetable := 0, p_sz := 0, p_pid := 0, p_parent := None, p_name := '''', p_chan := ChanNull, p_killed := 0, p_xstate := 0, p_state := UNUSED\<rparr>) s2 = ?s3"
    unfolding e2 e1 by (simp add: upd_proc_def g_def)
  have fr3: "kmem_inv (s\<lparr>pmem := m2, freelist := f2\<rparr>) (rev ys @ ?tf # xs)" "\<forall>x. outside (insert ?tf (tables ?pt (pmem s) \<union> set ?ps)) x \<longrightarrow> m2 x = pmem s x"
    using s2(3) s1(3,5) unfolding freed_def e2 e1 by (simp_all add: upd_proc_def kmem_inv_def lock_free_def)
  define bs where "bs = (if ?bk = 0 then [] else [?bk])"
  have bk: "\<exists>m3 f3. (if ?bk \<noteq> 0 then kfree ?bk ?s3 else Ret () ?s3) = Ret () (?s3\<lparr>pmem := m3, freelist := f3\<rparr>) \<and> kmem_inv (s\<lparr>pmem := m3, freelist := f3\<rparr>) (bs @ rev ys @ ?tf # xs) \<and>
      (\<forall>x. outside (set bs) x \<longrightarrow> m3 x = m2 x)"
  proof (cases "?bk = 0")
    case True
    then show ?thesis using fr3(1) by (intro exI [of _ m2] exI [of _ f2]) (simp add: bs_def upd_proc_def)
  next
    case False
    have "freeable [?bk] (rev ys @ ?tf # xs) ?s3" using False ow fr3(1) cpu(1) s2(2) s1(5) by (auto simp: freeable_def owned_def kept_pages_def)
    from kfree_freed [OF this] obtain w where w: "kfree ?bk ?s3 = Ret () w" "freed [?bk] {?bk} (rev ys @ ?tf # xs) ?s3 w" by blast
    have "kmem_free ?s3" using fr3(1) cpu(1) by (simp add: kmem_free_def kmem_inv_def)
    from kfree_mem_only [OF w(1) this] have "mem_only ?s3 w" .
    moreover have "noff (mycpu ?s3) \<noteq> 0" using nf by simp
    ultimately obtain m3 f3 where e3: "w = ?s3\<lparr>pmem := m3, freelist := f3\<rparr>" by (rule mem_only_noff)
    then show ?thesis using w False unfolding freed_def bs_def by (intro exI [of _ m3] exI [of _ f3]) (simp add: upd_proc_def kmem_inv_def lock_free_def)
  qed
  then obtain m3 f3 where b: "(if ?bk \<noteq> 0 then kfree ?bk ?s3 else Ret () ?s3) = Ret () (?s3\<lparr>pmem := m3, freelist := f3\<rparr>)" "kmem_inv (s\<lparr>pmem := m3, freelist := f3\<rparr>) (bs @ rev ys @ ?tf # xs)"
    "\<forall>x. outside (set bs) x \<longrightarrow> m3 x = m2 x" by blast
  have bkq: "trap_backup (procs ?s3 p) = ?bk" "p_pagetable (procs ?s1 p) = ?pt" "p_sz (procs ?s1 p) = p_sz ?q" by (simp_all add: g_def e1)
  have "freeproc p s = Ret () (upd_proc p (cleared (policy s)) (s\<lparr>pmem := m3, freelist := f3\<rparr>))"
  proof -
    have "freeproc p s = andthen (if ?bk \<noteq> 0 then kfree ?bk ?s3 else Ret () ?s3) (\<lambda>_ s.
        let s = upd_proc p (\<lambda>q. q\<lparr>trap_backup := 0, sigalarm_nticks := 0, sigalarm_running := False, sigalarm_handler := 0\<rparr>) s
        in Ret () (if policy s = MLFQ then upd_proc p (\<lambda>q. q\<lparr>mlfq_data := mlfq_zero\<rparr>) s else s))"
      unfolding freeproc_def by (simp only: Let_def nz s1(1) andthen_simps bkq s2(1) s3 not_False_eq_True if_True)
    then show ?thesis unfolding b(1) by (simp add: upd_proc_def cleared_def g_def)
  qed
  moreover have "set (bs @ rev ys @ [?tf]) = proc_pages ?q (pmem s)" using s2(2) s1(5) by (auto simp: proc_pages_def kept_pages_def bs_def)
  moreover have "\<forall>x. outside (proc_pages ?q (pmem s)) x \<longrightarrow> m3 x = pmem s x" using b(3) fr3(2) by (simp add: proc_pages_def kept_pages_def bs_def split: if_splits)
  ultimately show ?thesis using b(2) by (intro exI [of _ "bs @ rev ys @ [?tf]"] exI [of _ m3] exI [of _ f3]) simp
qed

subsection \<open>wait\<close>

text \<open>Memory that does not touch the free list or the tables of a process.\<close>

lemma free_list_frame: "\<forall>x\<in>set xs. \<forall>a. unat (a - x) < 4096 \<longrightarrow> m' a = m a \<Longrightarrow> free_list m' f xs = free_list m f xs"
proof (induction xs arbitrary: f)
  case (Cons x xs)
  have "load64 m' x = load64 m x" using pte_at_other_page [of x m' m 0] Cons.prems by (simp add: pte_at_def)
  then show ?case using Cons by simp
qed simp

lemma proc_vm_frame:
  assumes vm: "proc_vm q xs s" and fr: "\<forall>p\<in>set xs \<union> tables (p_pagetable q) (pmem s). \<forall>x. unat (x - p) < 4096 \<longrightarrow> m' x = pmem s x"
  shows "proc_vm q xs (s\<lparr>pmem := m'\<rparr>)" "proc_pages q m' = proc_pages q (pmem s)"
proof -
  let ?pt = "p_pagetable q" and ?m = "pmem s"
  have ok: "pt_ok ?pt ?m" "kmem_inv s xs" "links ?pt ?m" using vm by (auto simp: proc_vm_def user_vm_def space_def vm_inv_def)
  have "\<forall>p\<in>tables ?pt ?m. \<forall>x. unat (x - p) < 4096 \<longrightarrow> m' x = ?m x" using fr by blast
  note f = pt_frame [OF ok(1) this]
  have "load64 m' (t + 8 * ix d va) = load64 ?m (t + 8 * ix d va)" if "d < 2" "tbl d ?pt va ?m = Some t" for d va t
  proof -
    have "t \<in> tables ?pt ?m" using that by (intro tbl_tables [of d]) auto
    then have "\<forall>x. unat (x - t) < 4096 \<longrightarrow> m' x = ?m x" using fr by blast
    then show ?thesis using pte_at_other_page [of t m' ?m "unat (ix d va)"] ix_less [of d va] by (simp add: pte_at_def)
  qed
  then have "links ?pt m'" using ok(3) f(4) unfolding links_def by (metis less_imp_le)
  moreover have "\<forall>x\<in>set xs. \<forall>a. unat (a - x) < 4096 \<longrightarrow> m' a = ?m a" using fr by blast
  then have "kmem_inv (s\<lparr>pmem := m'\<rparr>) xs" using ok(2) free_list_frame [of xs m' ?m "freelist s"] by (simp add: kmem_inv_def)
  moreover have k: "kept_pages q m' = kept_pages q ?m" using f(3) by (simp add: kept_pages_def mapped_pages_def)
  ultimately show "proc_vm q xs (s\<lparr>pmem := m'\<rparr>)" using vm f(1-3)
    by (auto simp: proc_vm_def user_vm_def space_def vm_inv_def owned_def only_maps_def mapped_pages_def)
  show "proc_pages q m' = proc_pages q ?m" using k f(2) by (simp add: proc_pages_def)
qed

lemma proc_vm_acq [simp]: "cpu_ok s \<Longrightarrow> lk \<noteq> KmemLock \<Longrightarrow> proc_vm q xs (acq lk s) = proc_vm q xs s"
  by (simp add: proc_vm_def user_vm_def space_def vm_inv_def owned_def kmem_inv_def)

definition is_kid :: "nat \<Rightarrow> nat \<Rightarrow> 'z kproc_scheme \<Rightarrow> bool" where
  "is_kid p q s \<longleftrightarrow> q < NPROC \<and> p_parent (procs s q) = Some p"

lemma wait_scan_skip:
  assumes "cpu_ok s" and "noff (mycpu s) \<noteq> 0" and "table_unlocked s" and "\<forall>q\<in>set pps. q < NPROC \<and> (is_kid p q s \<longrightarrow> p_state (procs s q) \<noteq> ZOMBIE)"
  shows "wait_scan p addr (pps @ rest) havekids s = wait_scan p addr rest (havekids \<or> (\<exists>q\<in>set pps. is_kid p q s)) s"
  using assms(4)
proof (induction pps arbitrary: havekids)
  case (Cons q pps)
  have q: "q < NPROC" "is_kid p q s \<Longrightarrow> p_state (procs s q) \<noteq> ZOMBIE" using Cons.prems by auto
  show ?case
  proof (cases "p_parent (procs s q) = Some p")
    case True
    then have "p_state (procs s q) \<noteq> ZOMBIE" "is_kid p q s" using q by (auto simp: is_kid_def)
    then show ?thesis using True Cons assms(1-3) q(1) by simp
  next
    case False
    then show ?thesis using Cons by (simp add: is_kid_def)
  qed
qed simp

text \<open>The first zombie among the children, in the order of the table.\<close>

definition first_zombie :: "nat \<Rightarrow> nat \<Rightarrow> 'z kproc_scheme \<Rightarrow> bool" where
  "first_zombie p z s \<longleftrightarrow> is_kid p z s \<and> p_state (procs s z) = ZOMBIE \<and> (\<forall>q<z. is_kid p q s \<longrightarrow> p_state (procs s q) \<noteq> ZOMBIE)"

lemma wait_scan_none:
  assumes "cpu_ok s" and "noff (mycpu s) \<noteq> 0" and "table_unlocked s" and "\<And>q. is_kid p q s \<Longrightarrow> p_state (procs s q) \<noteq> ZOMBIE"
  shows "wait_scan p addr [0..<NPROC] False s = Ret (\<exists>q. is_kid p q s, None) s"
proof -
  have "(\<exists>q\<in>set [0..<NPROC]. is_kid p q s) = (\<exists>q. is_kid p q s)" by (auto simp: is_kid_def)
  then show ?thesis using wait_scan_skip [OF assms(1-3), of "[0..<NPROC]" p addr "[]" False] assms(4) by (simp del: upt_conv_Cons upt_rec_numeral)
qed

text \<open>Property C28: \<open>wait\<close> without a zombie. A process without children, or one that has been killed, gets \<open>-1\<close> and nothing changes; otherwise it goes to sleep
  on its own address, the channel \<open>exit\<close> wakes, with \<open>wait_lock\<close> released and only its own lock held.\<close>

theorem wait_sleeps:
  assumes ok: "cpu_ok s" "noff (mycpu s) = 0" "cpu_proc (mycpu s) = Some p" "p < NPROC" "lock_free WaitLock s" "table_unlocked s"
    and nz: "\<And>q. is_kid p q s \<Longrightarrow> p_state (procs s q) \<noteq> ZOMBIE"
  shows "if (\<exists>q. is_kid p q s) \<and> p_killed (procs s p) = 0 then \<exists>k. wait addr s = Block (asleep p (ChanProc p) WaitLock (acq WaitLock s)) k
     else wait addr s = Ret (-1) (settle s)"
proof -
  let ?a = "acq WaitLock s"
  have kid: "is_kid p q ?a = is_kid p q s" for q by (simp add: is_kid_def)
  have a: "cpu_ok ?a" "noff (mycpu ?a) \<noteq> 0" "noff (mycpu ?a) = 1" "table_unlocked ?a" "lock_free (ProcLock p) ?a" "cpu_proc (mycpu ?a) = Some p" "holding WaitLock ?a"
    using ok by (simp_all add: cpu_ok_def)
  have sc: "wait_scan p addr [0..<NPROC] False ?a = Ret (\<exists>q. is_kid p q s, None) ?a"
    using wait_scan_none [OF a(1,2,4), of p addr] nz by (simp add: kid del: upt_conv_Cons upt_rec_numeral)
  have kl: "killed p ?a = Ret (p_killed (procs s p)) ?a" using a ok by (simp add: killed_def)
  have w: "wait addr s = loop (wait_body p addr) () ?a" using ok by (simp add: wait_def)
  show ?thesis
  proof (cases "(\<exists>q. is_kid p q s) \<and> p_killed (procs s p) = 0")
    case True
    then have "wait_body p addr () ?a = andthen (sleep (ChanProc p) WaitLock ?a) (\<lambda>_ s. Ret (Inl ()) s)" using sc kl by (simp add: wait_body_def)
    then show ?thesis using True unfolding w by (simp add: loop_unfold sleep_eq [OF a(1,6,7,3) _ a(5)])
  next
    case False
    then have "wait_body p addr () ?a = andthen (release WaitLock ?a) (\<lambda>_ s. Ret (Inr (-1)) s)" using sc kl by (auto simp: wait_body_def)
    then show ?thesis using False ok unfolding w by (subst loop_unfold) auto
  qed
qed

text \<open>Property C14: \<open>wait\<close> reaps a child. When some child is a zombie, \<open>wait\<close> returns the pid of the first one in the table without sleeping. Its exit status is stored
  at the user address the caller gave, unless that is null; every page the child had, its trapframe, the copy of it that an alarm in progress keeps, its memory and the tables of its page table, is back
  on the free list, once; its slot is \<open>UNUSED\<close> and cleared; and no other slot and no other byte of memory changes.\<close>

theorem wait_reaps:
  fixes s :: "'z kproc_scheme"
  assumes ok: "cpu_ok s" "noff (mycpu s) = 0" "cpu_proc (mycpu s) = Some p" "p < NPROC" "lock_free WaitLock s" "table_unlocked s"
    and z: "first_zombie p z s" and vm: "proc_vm (procs s z) xs s"
    and st: "addr \<noteq> 0 \<Longrightarrow> user_private (p_pagetable (procs s p)) (pmem s) addr 4 \<and>
      (\<forall>i<4. outside (proc_pages (procs s z) (pmem s) \<union> set xs) (uaddr (p_pagetable (procs s p)) (pmem s) (addr + of_nat i)))"
  shows "\<exists>ys m f. wait addr s = Ret (sint (p_pid (procs s z)))
       ((settle s)\<lparr>pmem := m, freelist := f, procs := (procs s)(z := cleared (policy s) (procs s z))\<rparr>) \<and>
     set ys = proc_pages (procs s z) (pmem s) \<and> kmem_inv (s\<lparr>pmem := m, freelist := f\<rparr>) (ys @ xs) \<and>
     (addr \<noteq> 0 \<longrightarrow> (\<forall>i<4. m (uaddr (p_pagetable (procs s p)) (pmem s) (addr + of_nat i)) = le_bytes32 (p_xstate (procs s z)) ! i)) \<and>
     (\<forall>x. outside (proc_pages (procs s z) (pmem s)) x \<and>
        (addr \<noteq> 0 \<longrightarrow> (\<forall>i<4. x \<noteq> uaddr (p_pagetable (procs s p)) (pmem s) (addr + of_nat i))) \<longrightarrow> m x = pmem s x)"
proof -
  let ?a = "acq WaitLock s" and ?q = "procs s z" and ?pt = "p_pagetable (procs s p)"
  let ?b = "acq (ProcLock z) ?a" and ?u = "\<lambda>i. uaddr ?pt (pmem s) (addr + of_nat i)" and ?P = "proc_pages ?q (pmem s)"
  have zk: "z < NPROC" "p_parent ?q = Some p" "p_state ?q = ZOMBIE" using z by (simp_all add: first_zombie_def is_kid_def)
  have a: "cpu_ok ?a" "noff (mycpu ?a) \<noteq> 0" "table_unlocked ?a" using ok by (simp_all add: cpu_ok_def)
  have b: "cpu_ok ?b" "noff (mycpu ?b) \<noteq> 0" using a by (simp_all add: cpu_ok_def)
  have "is_kid p q ?a = is_kid p q s" for q by (simp add: is_kid_def)
  then have sk: "\<forall>q\<in>set [0..<z]. q < NPROC \<and> (is_kid p q ?a \<longrightarrow> p_state (procs ?a q) \<noteq> ZOMBIE)" using z zk(1) by (simp add: first_zombie_def)
  have "[0..<NPROC] = [0..<z] @ z # [Suc z..<NPROC]" using zk(1) upt_add_eq_append [of 0 z "NPROC - z"] upt_conv_Cons [of z NPROC] by simp
  then obtain h where sc: "wait_scan p addr [0..<NPROC] False ?a = wait_scan p addr (z # [Suc z..<NPROC]) h ?a"
    using wait_scan_skip [OF a sk, of addr "z # [Suc z..<NPROC]" False] by metis
  have cp: "\<exists>m. (if addr \<noteq> 0 then copyout ?pt addr (le_bytes32 (p_xstate ?q)) ?b else Ret 0 ?b) = Ret 0 (?b\<lparr>pmem := m\<rparr>) \<and>
      (addr \<noteq> 0 \<longrightarrow> (\<forall>i<4. m (?u i) = le_bytes32 (p_xstate ?q) ! i)) \<and> (\<forall>x. (addr \<noteq> 0 \<longrightarrow> (\<forall>i<4. x \<noteq> ?u i)) \<longrightarrow> m x = pmem s x)"
  proof (cases "addr = 0")
    case True
    then show ?thesis by (intro exI [of _ "pmem s"]) simp
  next
    case False
    have l: "length (le_bytes32 (p_xstate ?q)) = 4" by (simp add: le_bytes32_def)
    then show ?thesis using copyout_private [of ?pt ?b addr "le_bytes32 (p_xstate ?q)"] st False by (simp add: l)
  qed
  then obtain m where m: "(if addr \<noteq> 0 then copyout ?pt addr (le_bytes32 (p_xstate ?q)) ?b else Ret 0 ?b) = Ret 0 (?b\<lparr>pmem := m\<rparr>)"
    "addr \<noteq> 0 \<Longrightarrow> \<forall>i<4. m (?u i) = le_bytes32 (p_xstate ?q) ! i" "\<forall>x. (addr \<noteq> 0 \<longrightarrow> (\<forall>i<4. x \<noteq> ?u i)) \<longrightarrow> m x = pmem s x" by blast
  have "\<forall>g\<in>set xs \<union> tables (p_pagetable ?q) (pmem s). \<forall>x. unat (x - g) < 4096 \<longrightarrow> m x = pmem s x"
  proof (intro ballI allI impI)
    fix g x assume g: "g \<in> set xs \<union> tables (p_pagetable ?q) (pmem s)" and x: "unat (x - g) < 4096"
    have "x \<noteq> ?u i" if "addr \<noteq> 0" "i < 4" for i using st that g x by (auto simp: outside_def proc_pages_def)
    then show "m x = pmem s x" using m(3) by blast
  qed
  moreover have "proc_vm ?q xs ?b" using vm ok(1) a(1) by simp
  ultimately have fr: "proc_vm ?q xs (?b\<lparr>pmem := m\<rparr>)" "proc_pages ?q m = ?P" using proc_vm_frame [of ?q xs ?b m] by simp_all
  have "noff (mycpu (?b\<lparr>pmem := m\<rparr>)) \<noteq> 0" "proc_vm (procs (?b\<lparr>pmem := m\<rparr>) z) xs (?b\<lparr>pmem := m\<rparr>)" using b(2) fr(1) by simp_all
  from freeproc_spec [OF this(2,1)] obtain ys n f where fp: "freeproc z (?b\<lparr>pmem := m\<rparr>) = Ret () (upd_proc z (cleared (policy s)) (?b\<lparr>pmem := n, freelist := f\<rparr>))"
    "set ys = ?P" "kmem_inv (?b\<lparr>pmem := n, freelist := f\<rparr>) (ys @ xs)" "\<forall>x. outside ?P x \<longrightarrow> n x = m x"
    using fr(2) by auto
  let ?t = "(settle s)\<lparr>pmem := n, freelist := f, procs := (procs s)(z := cleared (policy s) ?q)\<rparr>"
  have "wait_scan p addr (z # [Suc z..<NPROC]) h ?a = Ret (True, Some (sint (p_pid ?q))) ?t"
    using a ok zk m(1) fp(1) by (simp add: upd_proc_def split del: if_split cong: if_cong)
  then have "wait addr s = Ret (sint (p_pid ?q)) ?t" using ok sc by (simp add: wait_def loop_unfold wait_body_def)
  moreover have "\<forall>i<4. n (?u i) = le_bytes32 (p_xstate ?q) ! i" if "addr \<noteq> 0"
    using st [OF that] m(2) [OF that] fp(4) by (simp add: outside_def)
  moreover have "kmem_inv (s\<lparr>pmem := n, freelist := f\<rparr>) (ys @ xs)" using fp(3) a(1) ok(1) by (simp add: kmem_inv_def)
  moreover have "n x = pmem s x" if "outside ?P x" "addr \<noteq> 0 \<longrightarrow> (\<forall>i<4. x \<noteq> ?u i)" for x using fp(4) m(3) that by simp
  ultimately show ?thesis using fp(2) by (intro exI [of _ ys] exI [of _ n] exI [of _ f]) simp
qed

subsection \<open>Witnesses\<close>

text \<open>The memory of \<open>demo_mem\<close>, in which the parent has the page \<open>0x1000\<close>, and the page table of a zombie with the trampoline and the trapframe.\<close>

definition reap_mem :: mem where
  "reap_mem = store64 0x800117F8 (PA2PTE 0x80012000 OR 1) (store64 0x80012FF8 (PA2PTE 0x80013000 OR 1)
     (store64 0x80013FF8 (PA2PTE 0x80007000 OR 0xB) (store64 0x80013FF0 (PA2PTE 0x80014000 OR 7) demo_mem)))"

definition reap0 :: kproc where
  "reap0 = (set_cpu_proc (Some 1) kproc0)\<lparr>pmem := reap_mem, freelist := 0, kend := 0x80004000,
     procs := demo_table(1 := (demo_table 1)\<lparr>p_pagetable := 0x80001000\<rparr>,
       2 := blank_proc\<lparr>p_state := ZOMBIE, p_parent := Some 1, p_pid := 7, p_xstate := 42, p_pagetable := 0x80011000, p_trapframe := 0x80014000\<rparr>)\<rparr>"

lemma reap_load:
  assumes "unat b mod 8 = 0"
  shows "load64 reap_mem b = (if b = 0x800117F8 then 0x20004801 else if b = 0x80012FF8 then 0x20004C01 else if b = 0x80013FF8 then 0x20001C0B
     else if b = 0x80013FF0 then 0x20005007 else if b = 0x80003008 then 0x20001017 else if b = 0x80002000 then 0x20000C01
     else if b = 0x80001000 then 0x20000801 else 0)"
  unfolding reap_mem_def demo_mem_def using assms load64_store64_same by (auto simp: load64_store64_aligned PA2PTE_def)

lemma reap_entries:
  "load64 reap_mem (0x80011000 + 8 * ix d va) = (if ix d va = 255 then 0x20004801 else 0)"
  "load64 reap_mem (0x80012000 + 8 * ix d va) = (if ix d va = 511 then 0x20004C01 else 0)"
  "load64 reap_mem (0x80013000 + 8 * ix d va) = (if ix d va = 511 then 0x20001C0B else if ix d va = 510 then 0x20005007 else 0)"
  using ix_less [of d va] by (subst reap_load; auto simp: unat_entry word_unat_eq_iff)+

lemma reap_tbl:
  "tbl 1 0x80011000 va reap_mem = (if ix 0 va = 255 then Some 0x80012000 else None)"
  "tbl 2 0x80011000 va reap_mem = (if ix 0 va = 255 \<and> ix 1 va = 511 then Some 0x80013000 else None)"
  unfolding numeral_2_eq_2 One_nat_def tbl.simps by (simp_all add: reap_entries reap_load Let_def PTE2PA_def)

lemma top_ix: "ix 0 TRAMPOLINE = 255" "ix 1 TRAMPOLINE = 511" "ix 2 TRAMPOLINE = 511" "ix 0 TRAPFRAME = 255" "ix 1 TRAPFRAME = 511" "ix 2 TRAPFRAME = 510"
  by (simp_all add: ix_def PX_def PXSHIFT_def TRAMPOLINE_def TRAPFRAME_def MAXVA_def)

lemma reap_tables: "tables 0x80011000 reap_mem = {0x80011000, 0x80012000, 0x80013000}"
  unfolding tables_levels reap_tbl using top_ix(1,2) by (auto split: if_splits)

lemma reap_pt_ok: "pt_ok 0x80011000 reap_mem"
proof -
  have 1: "agree 1 va va' \<longleftrightarrow> ix 0 va = ix 0 va'" "agree 2 va va' \<longleftrightarrow> ix 0 va = ix 0 va' \<and> ix 1 va = ix 1 va'" "agree 0 va va'" for va va'
    by (auto simp: agree_def less_Suc_eq numeral_2_eq_2)
  have al: "page_aligned 0x80011000" "page_aligned 0x80012000" "page_aligned 0x80013000" by (simp_all add: page_aligned_def)
  show ?thesis unfolding pt_ok_def reap_tables le2 using al reap_tbl 1 by (auto split: if_splits)
qed

lemma reap_vmap: "vmap 0x80011000 reap_mem va = (if ix 0 va = 255 \<and> ix 1 va = 511 then (if ix 2 va = 511 then 0x20001C0B else if ix 2 va = 510 then 0x20005007 else 0) else 0)"
  using reap_entries(3) [of 2 va] by (simp add: vmap_def reap_tbl)

lemma reap_links: "links 0x80011000 reap_mem"
proof -
  have "d < 2 \<longleftrightarrow> d = 0 \<or> d = (1 :: nat)" for d by auto
  then show ?thesis unfolding links_def using reap_tbl(1) reap_entries by (auto split: if_splits)
qed

lemma ix_top:
  assumes "b < MAXVA" "ix 0 b = 255" "ix 1 b = 511" "ix 2 b = 511 \<or> ix 2 b = 510"
  shows "in_pages TRAMPOLINE 1 b \<or> in_pages TRAPFRAME 1 b"
proof -
  have s: "agree 3 x y \<longleftrightarrow> ix 0 x = ix 0 y \<and> ix 1 x = ix 1 y \<and> ix 2 x = ix 2 y" for x y by (auto simp: agree_def less_Suc_eq numeral_3_eq_3 numeral_2_eq_2)
  have "agree 3 b TRAMPOLINE \<or> agree 3 b TRAPFRAME" using assms(2-4) top_ix unfolding s by auto
  moreover have "PGROUNDDOWN TRAMPOLINE = TRAMPOLINE" "PGROUNDDOWN TRAPFRAME = TRAPFRAME" by (simp_all add: PGROUNDDOWN_def TRAMPOLINE_def TRAPFRAME_def MAXVA_def)
  ultimately have "PGROUNDDOWN b = TRAMPOLINE \<or> PGROUNDDOWN b = TRAPFRAME" using agree_page [OF assms(1) top_unat(5)] agree_page [OF assms(1) top_unat(6)] by auto
  then show ?thesis using in_pages_Suc(1) [OF top_unat(3,5), of 0 b] in_pages_Suc(1) [OF top_unat(4,6), of 0 b] by auto
qed

lemma reap0_ok: "cpu_ok reap0" "noff (mycpu reap0) = 0" "cpu_proc (mycpu reap0) = Some 1" "lock_free lk reap0" "pmem reap0 = reap_mem" "kend reap0 = 0x80004000" "freelist reap0 = 0"
  "p_pagetable (procs reap0 1) = 0x80001000"
  "procs reap0 2 = blank_proc\<lparr>p_state := ZOMBIE, p_parent := Some 1, p_pid := 7, p_xstate := 42, p_pagetable := 0x80011000, p_trapframe := 0x80014000\<rparr>"
  by (simp_all add: reap0_def kproc0_def lock_free_def cpu_ok_def mycpu_def cpuid_def set_cpu_proc_def upd_mycpu_def)

lemma reap0_vm: "proc_vm (procs reap0 2) [] reap0" "proc_pages (procs reap0 2) (pmem reap0) = {0x80011000, 0x80012000, 0x80013000, 0x80014000}"
proof -
  have "leaf 0x20001C0B" "leaf 0x20005007" by (simp_all add: leaf_def PTE_FLAGS_def)
  then have lf: "leaf (vmap 0x80011000 reap_mem TRAMPOLINE)" "leaf (vmap 0x80011000 reap_mem TRAPFRAME)" by (simp_all add: reap_vmap top_ix del: One_nat_def)
  have n: "npages (procs reap0 2) = 0" by (simp add: npages_def reap0_ok blank_proc_def PGROUNDUP_def)
  have "vmap 0x80011000 reap_mem b AND PTE_V = 0" if "b < MAXVA" "\<not> in_pages TRAMPOLINE 1 b \<and> \<not> in_pages TRAPFRAME 1 b" for b
    using ix_top [OF that(1)] that(2) by (auto simp: reap_vmap)
  then have "only_maps 0x80011000 reap_mem (\<lambda>b. in_pages 0 0 b \<or> in_pages TRAMPOLINE 1 b \<or> in_pages TRAPFRAME 1 b)"
    by (auto simp: only_maps_def reap_vmap)
  moreover have "kmem_inv reap0 []" by (simp add: kmem_inv_def reap0_ok)
  then have "space 0x80011000 [] reap0"
    using reap_pt_ok reap_links reap0_ok(1) by (simp add: space_def vm_inv_def reap0_ok reap_tables page_ok_def page_aligned_def PHYSTOP_def KERNBASE_def)
  ultimately show "proc_vm (procs reap0 2) [] reap0" using lf n
    by (simp add: proc_vm_def user_vm_def reap0_ok blank_proc_def owned_def kept_pages_def mapped_pages_def reap_tables page_ok_def page_aligned_def PHYSTOP_def KERNBASE_def)
  show "proc_pages (procs reap0 2) (pmem reap0) = {0x80011000, 0x80012000, 0x80013000, 0x80014000}"
    using n by (auto simp: proc_pages_def kept_pages_def reap0_ok blank_proc_def mapped_pages_def reap_tables)
qed

lemma less4_iff: "(\<forall>i<(4::nat). P i) \<longleftrightarrow> P 0 \<and> P 1 \<and> P 2 \<and> P 3"
  by (auto simp: numeral_eq_Suc less_Suc_eq)

lemma reap_private: "user_private 0x80001000 reap_mem 0x1008 4" "i < 4 \<Longrightarrow> uaddr 0x80001000 reap_mem (0x1008 + of_nat i) = 0x80004008 + of_nat i"
proof -
  have pg: "PGROUNDDOWN 0x1008 = 0x1000" "PGROUNDDOWN 0x1009 = 0x1000" "PGROUNDDOWN 0x100A = 0x1000" "PGROUNDDOWN 0x100B = 0x1000"
    by (simp_all add: PGROUNDDOWN_def)
  have px: "PX 2 0x1000 = 0" "PX (Suc 0) 0x1000 = 0" "PX 0 0x1000 = 1" by (simp_all add: PX_def PXSHIFT_def)
  have two: "(2 :: nat) = Suc (Suc 0)" by simp
  have tr: "translate 0x80001000 0x1000 reap_mem = 0x80004000" "walk_ptes 2 0x80001000 0x1000 reap_mem = [0x80001000, 0x80002000, 0x80003008]"
    using px unfolding translate_def two by (simp_all add: Let_def reap_load PTE2PA_def MAXVA_def)
  show "user_private 0x80001000 reap_mem 0x1008 4" by (simp add: user_private_def umapped_def uaddr_def less4_iff pg tr)
  have "\<forall>i<4. uaddr 0x80001000 reap_mem (0x1008 + of_nat i) = 0x80004008 + of_nat i" by (simp add: less4_iff uaddr_def pg tr)
  then show "i < 4 \<Longrightarrow> uaddr 0x80001000 reap_mem (0x1008 + of_nat i) = 0x80004008 + of_nat i" by blast
qed

theorem wait_reaps_witness:
  "\<exists>t. wait 0x1008 reap0 = Ret 7 t \<and> p_state (procs t 2) = UNUSED \<and> pmem t 0x80004008 = 42 \<and> (\<exists>ys. set ys = {0x80011000, 0x80012000, 0x80013000, 0x80014000} \<and> free_list (pmem t) (freelist t) ys)"
proof -
  have z: "first_zombie 1 2 reap0" by (auto simp: first_zombie_def is_kid_def reap0_def demo_table_def blank_proc_def less_2_cases_iff)
  have o: "outside {0x80011000, 0x80012000, 0x80013000, 0x80014000} (0x80004008 + of_nat i)" if "i < 4" for i
  proof -
    have "\<forall>i<4. outside {0x80011000, 0x80012000, 0x80013000, 0x80014000} (0x80004008 + of_nat i)" by (simp add: less4_iff outside_def)
    then show ?thesis using that by blast
  qed
  have "\<exists>ys m f. wait 0x1008 reap0 = Ret (sint (p_pid (procs reap0 2)))
       ((settle reap0)\<lparr>pmem := m, freelist := f, procs := (procs reap0)(2 := cleared (policy reap0) (procs reap0 2))\<rparr>) \<and>
     set ys = proc_pages (procs reap0 2) (pmem reap0) \<and> kmem_inv (reap0\<lparr>pmem := m, freelist := f\<rparr>) (ys @ []) \<and>
     (\<forall>i<4. m (uaddr (p_pagetable (procs reap0 1)) (pmem reap0) (0x1008 + of_nat i)) = le_bytes32 (p_xstate (procs reap0 2)) ! i)"
    using wait_reaps [of reap0 1 2 "[]" "0x1008"] reap0_ok reap0_vm z reap_private o by auto
  then obtain ys m f where w: "wait 0x1008 reap0 = Ret (sint (p_pid (procs reap0 2)))
       ((settle reap0)\<lparr>pmem := m, freelist := f, procs := (procs reap0)(2 := cleared (policy reap0) (procs reap0 2))\<rparr>)"
     "set ys = proc_pages (procs reap0 2) (pmem reap0)" "kmem_inv (reap0\<lparr>pmem := m, freelist := f\<rparr>) ys"
     "\<forall>i<4. m (uaddr (p_pagetable (procs reap0 1)) (pmem reap0) (0x1008 + of_nat i)) = le_bytes32 (p_xstate (procs reap0 2)) ! i" by auto
  have "m 0x80004008 = 42" using w(4) [rule_format, of 0] reap_private(2) [of 0] by (simp add: reap0_ok blank_proc_def le_bytes32_def del: One_nat_def)
  then show ?thesis using w(1-3) reap0_vm(2) by (auto simp: reap0_ok blank_proc_def cleared_def kmem_inv_def)
qed
text \<open>While its child runs, the parent sleeps.\<close>

definition reap1 :: kproc where
  "reap1 = reap0\<lparr>procs := (procs reap0)(2 := (procs reap0 2)\<lparr>p_state := RUNNABLE\<rparr>)\<rparr>"

theorem wait_sleeps_witness: "\<exists>t k. wait 0 reap1 = Block t k \<and> p_state (procs t 1) = SLEEPING \<and> p_chan (procs t 1) = ChanProc 1"
proof -
  have k: "is_kid 1 q reap1 \<longleftrightarrow> q = 2" for q by (auto simp: is_kid_def reap1_def reap0_def demo_table_def blank_proc_def)
  have "p_killed (procs reap1 1) = 0" by (simp add: reap1_def reap0_def demo_table_def blank_proc_def)
  moreover have "cpu_ok reap1" "noff (mycpu reap1) = 0" "cpu_proc (mycpu reap1) = Some 1" "lock_free lk reap1" "p_state (procs reap1 2) = RUNNABLE" for lk
    using reap0_ok by (simp_all add: reap1_def)
  ultimately show ?thesis using wait_sleeps [of reap1 1 0] k by (auto simp: asleep_def)
qed

end
