(* ===== verification/Ring.thy ===== *)
theory Ring
  imports Prelude
begin

text \<open>
  The ring buffers of the kernel (pipes, console input, uart output): an array of \<open>N\<close> slots and two
  free-running unsigned counters, the slot of a counter being the counter modulo \<open>N\<close>. Because \<open>N\<close>
  divides the range of the counters, the buffer keeps working when they wrap around. The locale
  states what is needed of \<open>N\<close> and abstracts the buffer to the list of its bytes.
\<close>

definition ring_list :: "nat \<Rightarrow> (nat \<Rightarrow> 'a) \<Rightarrow> 'w::len word \<Rightarrow> 'w word \<Rightarrow> 'a list" where
  "ring_list N buf r w = map (\<lambda>i. buf (unat (r + of_nat i) mod N)) [0..<unat (w - r)]"

locale ring_buffer =
  fixes N :: nat and wtype :: "'w::len itself"
  assumes N_pos: "0 < N" and N_dvd: "N dvd 2 ^ LENGTH('w)"
begin

lemma slot: "unat ((r :: 'w word) + of_nat i) mod N = (unat r + i) mod N"
proof -
  have "unat (r + of_nat i) = (unat r + i) mod 2 ^ LENGTH('w)"
    by (simp add: unat_word_ariths(1) unat_of_nat take_bit_nat_def mod_add_right_eq)
  then show ?thesis by (simp add: mod_mod_cancel [OF N_dvd])
qed

lemma push:
  assumes "unat (w - r :: 'w word) < N" and "unat (w - r) + 1 < 2 ^ LENGTH('w)"
  shows "ring_list N (buf(unat w mod N := c)) r (w + 1) = ring_list N buf r w @ [c]"
proof -
  let ?k = "unat (w - r)"
  have w: "w = r + of_nat ?k" by simp
  have "unat (w + 1 - r) = ?k + 1"
    using assms(2) unat_word_ariths(1) [of "w - r" 1] by (simp add: algebra_simps)
  moreover have "unat (r + of_nat i) mod N \<noteq> unat w mod N" if "i < ?k" for i
  proof -
    have "(unat r + i) mod N \<noteq> (unat r + ?k) mod N"
    proof
      assume "(unat r + i) mod N = (unat r + ?k) mod N"
      then have "N dvd (unat r + ?k) - (unat r + i)" using that by (metis mod_eq_dvd_iff_nat nat_add_left_cancel_le less_imp_le)
      then have "N dvd ?k - i" by simp
      then have "N \<le> ?k - i" using that by (intro dvd_imp_le) auto
      with assms(1) show False by simp
    qed
    then show ?thesis using slot [of r i] slot [of r ?k] w by metis
  qed
  ultimately show ?thesis by (auto simp: ring_list_def)
qed

lemma pop:
  assumes "r \<noteq> (w :: 'w word)"
  shows "ring_list N buf r w = buf (unat r mod N) # ring_list N buf (r + 1) w"
    and "unat (w - (r + 1)) = unat (w - r) - 1"
proof -
  have pos: "0 < unat (w - r)" using assms by (simp add: unat_gt_0)
  show k: "unat (w - (r + 1)) = unat (w - r) - 1"
    using pos unat_minus_one [of "w - r"] assms by (simp add: algebra_simps)
  have "[0..<unat (w - r)] = 0 # map Suc [0..<unat (w - r) - 1]"
    using pos by (simp add: upt_conv_Cons map_Suc_upt)
  then show "ring_list N buf r w = buf (unat r mod N) # ring_list N buf (r + 1) w"
    by (simp add: ring_list_def k add.assoc)
qed

lemma length_ring_list [simp]: "length (ring_list N buf r (w :: 'w word)) = unat (w - r)"
  by (simp add: ring_list_def)

text \<open>Taking back the byte that was stored last.\<close>

lemma unpush:
  assumes "r \<noteq> (w :: 'w word)"
  shows "ring_list N buf r (w - 1) = butlast (ring_list N buf r w)"
    and "unat (w - 1 - r) = unat (w - r) - 1"
    and "last (ring_list N buf r w) = buf (unat (w - 1) mod N)"
proof -
  have pos: "0 < unat (w - r)" using assms by (simp add: unat_gt_0)
  show k: "unat (w - 1 - r) = unat (w - r) - 1"
    using pos unat_minus_one [of "w - r"] assms by (simp add: algebra_simps)
  have split: "[0..<unat (w - r)] = [0..<unat (w - r) - 1] @ [unat (w - r) - 1]"
    using pos by (metis Suc_diff_1 upt_Suc_append zero_le)
  show "ring_list N buf r (w - 1) = butlast (ring_list N buf r w)"
    unfolding ring_list_def k split by simp
  have "r + of_nat (unat (w - r) - 1) = w - 1"
    unfolding k [symmetric] by simp
  then show "last (ring_list N buf r w) = buf (unat (w - 1) mod N)"
    unfolding ring_list_def split by simp
qed

text \<open>A buffer with a mark between the two counters: what is before it and what is after it.\<close>

lemma split_at:
  assumes "unat (m - r) \<le> unat (w - r :: 'w word)"
  shows "ring_list N buf r w = ring_list N buf r m @ ring_list N buf m w"
    and "unat (w - m) = unat (w - r) - unat (m - r)"
proof -
  show d: "unat (w - m) = unat (w - r) - unat (m - r)"
    using unat_sub [of "m - r" "w - r"] assms by (simp add: word_le_nat_alt)
  have "[0..<unat (w - r)] = [0..<unat (m - r)] @ map (\<lambda>i. i + unat (m - r)) [0..<unat (w - m)]"
    using assms upt_add_eq_append [of 0 "unat (m - r)" "unat (w - r) - unat (m - r)"] by (simp add: d map_add_upt)
  moreover have "r + (of_nat i + of_nat (unat (m - r))) = m + (of_nat i :: 'w word)" for i by simp
  ultimately show "ring_list N buf r w = ring_list N buf r m @ ring_list N buf m w"
    by (simp add: ring_list_def comp_def add.commute)
qed

end

interpretation uart_ring: ring_buffer 32 "TYPE(64)"
  by unfold_locales (simp_all add: dvd_def exI [of _ "576460752303423488 :: nat"])

interpretation cons_ring: ring_buffer 128 "TYPE(32)"
  by unfold_locales (simp_all add: dvd_def exI [of _ "33554432 :: nat"])

interpretation pipe_ring: ring_buffer 512 "TYPE(32)"
  by unfold_locales (simp_all add: dvd_def exI [of _ "8388608 :: nat"])

end
