(* ===== verification/Console.thy ===== *)
theory Console
  imports Proc Ring
begin

text \<open>
  \<open>kernel/uart.c\<close>, \<open>kernel/console.c\<close>, \<open>kernel/printf.c\<close> and the two functions of the process layer that
  print. The 16550a chip is part of the machine: \<open>tx_idle n\<close> is the value of \<open>LSR_TX_IDLE\<close> at the
  \<open>n\<close>-th read of the line status register, \<open>uart_in\<close> the received bytes not yet read from \<open>RHR\<close>,
  \<open>uart_out\<close> the bytes written to \<open>THR\<close>, and \<open>uart_regs\<close> the last value written to each control
  register. The two ring buffers are functions of the slot, with free-running indices.
\<close>

text \<open>The device switch: the functions of \<open>devsw[]\<close> that are installed. \<open>consoleinit\<close> installs its pair.\<close>

datatype devfn = ConsoleDev

record kcons = kproc +
  tx_idle :: "nat \<Rightarrow> bool"
  lsr_reads :: nat
  uart_in :: "u8 list"
  uart_out :: "u8 list"
  uart_regs :: "nat \<Rightarrow> u8"
  uart_tx_buf :: "nat \<Rightarrow> u8"
  uart_tx_w :: u64
  uart_tx_r :: u64
  cons_buf :: "nat \<Rightarrow> u8"
  cons_r :: u32
  cons_w :: u32
  cons_e :: u32
  panicked :: bool
  pr_locking :: bool
  devsw :: "nat \<Rightarrow> devfn option"

abbreviation (input) UART_TX_BUF_SIZE :: u64 where "UART_TX_BUF_SIZE \<equiv> 32"
abbreviation (input) INPUT_BUF_SIZE :: u32 where "INPUT_BUF_SIZE \<equiv> 128"
abbreviation (input) BACKSPACE :: u32 where "BACKSPACE \<equiv> 0x100"

subsection \<open>uart.c\<close>

definition WriteReg :: "nat \<Rightarrow> u8 \<Rightarrow> 'z kcons_scheme \<Rightarrow> 'z kcons_scheme" where
  "WriteReg reg v s = s\<lparr>uart_regs := (uart_regs s)(reg := v)\<rparr>"

definition WriteTHR :: "u8 \<Rightarrow> 'z kcons_scheme \<Rightarrow> 'z kcons_scheme" where
  "WriteTHR c s = s\<lparr>uart_out := uart_out s @ [c]\<rparr>"

definition read_tx_idle :: "'z kcons_scheme \<Rightarrow> bool \<times> 'z kcons_scheme" where
  "read_tx_idle s = (tx_idle s (lsr_reads s), s\<lparr>lsr_reads := lsr_reads s + 1\<rparr>)"

definition uartinit :: "'z kcons_scheme \<Rightarrow> 'z kcons_scheme" where
  "uartinit s =
     (let IER = 1; LCR = 3; FCR = 2;
          s = WriteReg IER 0 s; s = WriteReg LCR 0x80 s; s = WriteReg 0 3 s; s = WriteReg 1 0 s;
          s = WriteReg LCR 3 s; s = WriteReg FCR 7 s; s = WriteReg IER 3 s
      in initlock UartTxLock ''uart'' s)"

text \<open>\<open>for(;;);\<close>\<close>

definition hang :: "'s \<Rightarrow> ('a, 's) outcome" where
  "hang s = loop (\<lambda>_ s. Ret (Inl ()) s) () s"

text \<open>\<open>uartstart\<close> sends at most the 32 bytes of the buffer: \<open>fuel\<close> bounds its loop.\<close>

primrec uartstart_loop :: "nat \<Rightarrow> 'z kcons_scheme \<Rightarrow> (unit, 'z kcons_scheme) outcome" where
  "uartstart_loop 0 s = Ret () s"
| "uartstart_loop (Suc fuel) s =
     (if uart_tx_w s = uart_tx_r s then Ret () s
      else
        (let (idle, s) = read_tx_idle s in
         if \<not> idle then Ret () s
         else
           (let c = uart_tx_buf s (unat (uart_tx_r s mod UART_TX_BUF_SIZE));
                s = s\<lparr>uart_tx_r := uart_tx_r s + 1\<rparr>
            in andthen (wakeup ChanUart s) (\<lambda>_ s. uartstart_loop fuel (WriteTHR c s)))))"

definition uartstart :: "'z kcons_scheme \<Rightarrow> (unit, 'z kcons_scheme) outcome" where
  "uartstart s = uartstart_loop 33 s"

definition uartputc :: "u8 \<Rightarrow> 'z kcons_scheme \<Rightarrow> (unit, 'z kcons_scheme) outcome" where
  "uartputc c s =
     andthen (acquire UartTxLock s) (\<lambda>_ s.
       if panicked s then hang s
       else
         andthen (loop (\<lambda>_ s. if uart_tx_w s = uart_tx_r s + UART_TX_BUF_SIZE
                               then andthen (sleep ChanUart UartTxLock s) (\<lambda>_ s. Ret (Inl ()) s)
                               else Ret (Inr ()) s) () s) (\<lambda>_ s.
         let s = s\<lparr>uart_tx_buf := (uart_tx_buf s)(unat (uart_tx_w s mod UART_TX_BUF_SIZE) := c)\<rparr>;
             s = s\<lparr>uart_tx_w := uart_tx_w s + 1\<rparr>
         in andthen (uartstart s) (\<lambda>_ s. release UartTxLock s)))"

definition uartputc_sync :: "u8 \<Rightarrow> 'z kcons_scheme \<Rightarrow> (unit, 'z kcons_scheme) outcome" where
  "uartputc_sync c s =
     (let s = push_off s in
      if panicked s then hang s
      else
        andthen (loop (\<lambda>_ s. let (idle, s) = read_tx_idle s in Ret (if idle then Inr () else Inl ()) s) () s) (\<lambda>_ s.
        pop_off (WriteTHR c s)))"

definition uartgetc :: "'z kcons_scheme \<Rightarrow> u8 option \<times> 'z kcons_scheme" where
  "uartgetc s = (case uart_in s of [] \<Rightarrow> (None, s) | c # cs \<Rightarrow> (Some c, s\<lparr>uart_in := cs\<rparr>))"

subsection \<open>Formatted output\<close>

definition consputc :: "u32 \<Rightarrow> 'z kcons_scheme \<Rightarrow> (unit, 'z kcons_scheme) outcome" where
  "consputc c s =
     (if c = BACKSPACE then
        andthen (uartputc_sync 8 s) (\<lambda>_ s. andthen (uartputc_sync 32 s) (\<lambda>_ s. uartputc_sync 8 s))
      else uartputc_sync (ucast c) s)"

text \<open>The arguments of \<open>printf\<close>; \<open>PStr None\<close> is a null pointer. Reading an argument as another type than
  it was passed with keeps its low bits.\<close>

datatype parg = PInt u32 | PPtr u64 | PStr "string option"

primrec arg_int :: "parg \<Rightarrow> u32" where
  "arg_int (PInt x) = x" | "arg_int (PPtr x) = ucast x" | "arg_int (PStr _) = 0"

primrec arg_ptr :: "parg \<Rightarrow> u64" where
  "arg_ptr (PInt x) = scast x" | "arg_ptr (PPtr x) = x" | "arg_ptr (PStr _) = 0"

primrec arg_str :: "parg \<Rightarrow> string option" where
  "arg_str (PInt x) = None" | "arg_str (PPtr x) = None" | "arg_str (PStr x) = x"

definition digits :: string where
  "digits = ''0123456789abcdef''"

text \<open>The \<open>do\<close>-\<open>while\<close> loop of \<open>printint\<close> fills \<open>buf\<close> with the digits, least significant first.\<close>

function print_digits :: "bool \<Rightarrow> u32 \<Rightarrow> string" where
  "print_digits hex x =
     (let base = (if hex then 16 else 10); d = digits ! unat (x mod base); x = x div base
      in if x \<noteq> 0 then d # print_digits hex x else [d])"
  by pat_completeness auto
termination
proof (relation "measure (\<lambda>(hex, x). unat x)")
  fix hex :: bool and x base x' :: u32 and d
  assume "base = (if hex then 16 else 10)" and "x' = x div base" and "x' \<noteq> 0"
  then show "((hex, x'), hex, x) \<in> measure (\<lambda>(hex, x). unat x)"
    by (auto simp: unat_div_distrib word_unat_eq_iff split: if_splits intro!: div_less_dividend gr0I)
qed simp

declare print_digits.simps [simp del]

definition printint :: "u32 \<Rightarrow> bool \<Rightarrow> bool \<Rightarrow> string" where
  "printint xx hex sign =
     (let sign = (sign \<and> xx <s 0); x = (if sign then - xx else xx)
      in rev (print_digits hex x @ (if sign then ''-'' else '''')))"

definition printptr :: "u64 \<Rightarrow> string" where
  "printptr x = ''0x'' @ map (\<lambda>i. digits ! unat (drop_bit 60 (push_bit (4 * i) x))) [0..<16]"

text \<open>The characters \<open>printf\<close> prints. A conversion with no argument left reads what the caller left in
  the register; the model reads 0.\<close>

fun format :: "string \<Rightarrow> parg list \<Rightarrow> string" where
  "format [] args = []"
| "format [c] args = (if c = CHR ''%'' then [] else [c])"
| "format (c # d # fmt) args =
     (if c \<noteq> CHR ''%'' then c # format (d # fmt) args
      else
        (let a = (case args of [] \<Rightarrow> PInt 0 | a # _ \<Rightarrow> a) in
         if d = CHR ''d'' then printint (arg_int a) False True @ format fmt (tl args)
         else if d = CHR ''x'' then printint (arg_int a) True True @ format fmt (tl args)
         else if d = CHR ''p'' then printptr (arg_ptr a) @ format fmt (tl args)
         else if d = CHR ''s'' then
           (case arg_str a of None \<Rightarrow> ''(null)'' | Some str \<Rightarrow> str) @ format fmt (tl args)
         else if d = CHR ''%'' then CHR ''%'' # format fmt args
         else CHR ''%'' # d # format fmt args))"

definition printf :: "string \<Rightarrow> parg list \<Rightarrow> 'z kcons_scheme \<Rightarrow> (unit, 'z kcons_scheme) outcome" where
  "printf fmt args s =
     (let locking = pr_locking s in
      andthen (if locking then acquire PrLock s else Ret () s) (\<lambda>_ s.
      andthen (for_each (\<lambda>c s. consputc (of_char c) s) (format fmt args) s) (\<lambda>_ s.
      if locking then release PrLock s else Ret () s)))"

text \<open>What the outcome \<open>Panic m\<close> stands for.\<close>

definition panic :: "string \<Rightarrow> 'z kcons_scheme \<Rightarrow> ('a, 'z kcons_scheme) outcome" where
  "panic str s =
     andthen (printf ''panic: '' [] (s\<lparr>pr_locking := False\<rparr>)) (\<lambda>_ s.
     andthen (printf str [] s) (\<lambda>_ s.
     andthen (printf [CHR 0x0A] [] s) (\<lambda>_ s.
     hang (s\<lparr>panicked := True\<rparr>))))"

definition printfinit :: "'z kcons_scheme \<Rightarrow> 'z kcons_scheme" where
  "printfinit s = (initlock PrLock ''pr'' s)\<lparr>pr_locking := True\<rparr>"

primrec state_name :: "procstate \<Rightarrow> string" where
  "state_name UNUSED = ''unused''" | "state_name USED = ''used''" | "state_name SLEEPING = ''sleep ''"
| "state_name RUNNABLE = ''runble''" | "state_name RUNNING = ''run   ''" | "state_name ZOMBIE = ''zombie''"

primrec state_num :: "procstate \<Rightarrow> u32" where
  "state_num UNUSED = 0" | "state_num USED = 1" | "state_num SLEEPING = 2"
| "state_num RUNNABLE = 3" | "state_num RUNNING = 4" | "state_num ZOMBIE = 5"

definition procdump :: "'z kcons_scheme \<Rightarrow> (unit, 'z kcons_scheme) outcome" where
  "procdump s =
     andthen (printf [CHR 0x0A] [] s) (\<lambda>_ s.
     for_each (\<lambda>p s.
       let q = procs s p in
       if p_state q = UNUSED then Ret () s
       else
         andthen (printf ''%d %s %s'' [PInt (p_pid q), PStr (Some (state_name (p_state q))), PStr (Some (p_name q))] s)
           (\<lambda>_ s. printf [CHR 0x0A] [] s)) [0..<NPROC] s)"

definition print_mlfq :: "'z kcons_scheme \<Rightarrow> (unit, 'z kcons_scheme) outcome" where
  "print_mlfq s =
     (let shown = (\<lambda>s p. \<not> (p_state (procs s p) = UNUSED \<or> p_pid (procs s p) <s 4) \<and> in_queue (mlfq_data (procs s p)));
          ct = length (filter (shown s) [0..<NPROC])
      in if ct = 0 then Ret () s
         else
           andthen (printf ''%d '' [PInt (ticks s)] s) (\<lambda>_ s.
           andthen (for_each (\<lambda>p s.
             if shown s p then
               printf ''%d(%d,%d) '' [PInt (p_pid (procs s p)), PInt (of_int (curr_pri (mlfq_data (procs s p)))),
                 PInt (state_num (p_state (procs s p)))] s
             else Ret () s) [0..<NPROC] s) (\<lambda>_ s.
           printf [CHR 0x0A] [] s)))"

subsection \<open>console.c\<close>

primrec consolewrite_loop :: "nat \<Rightarrow> nat \<Rightarrow> src_addr \<Rightarrow> 'z kcons_scheme \<Rightarrow> (nat, 'z kcons_scheme) outcome" where
  "consolewrite_loop 0 i src s = Ret i s"
| "consolewrite_loop (Suc k) i src s =
     andthen (either_copyin src 1 s) (\<lambda>(r, bs) s.
       if r = -1 then Ret i s
       else
         andthen (uartputc (hd bs) s) (\<lambda>_ s.
           consolewrite_loop k (i + 1)
             (case src of UserSrc va \<Rightarrow> UserSrc (va + 1) | KernSrc xs \<Rightarrow> KernSrc (tl xs)) s))"

definition consolewrite :: "src_addr \<Rightarrow> int \<Rightarrow> 'z kcons_scheme \<Rightarrow> (int, 'z kcons_scheme) outcome" where
  "consolewrite src n s = andthen (consolewrite_loop (nat n) 0 src s) (\<lambda>i s. Ret (int i) s)"

text \<open>\<open>consoleread\<close>: \<open>n\<close> bytes are still wanted of \<open>target\<close>. The run goes on until it is done (\<open>Inr\<close> the
  bytes left) or has slept and must look at the buffer again (\<open>Inl\<close>). Bytes for a kernel buffer are
  collected in \<open>out\<close>.\<close>

primrec consoleread_run :: "nat \<Rightarrow> nat \<Rightarrow> dst_addr \<Rightarrow> u8 list \<Rightarrow> 'z kcons_scheme
    \<Rightarrow> ((nat \<times> dst_addr \<times> u8 list) + (int \<times> u8 list), 'z kcons_scheme) outcome" where
  "consoleread_run 0 target dst out s = andthen (release ConsLock s) (\<lambda>_ s. Ret (Inr (int target, out)) s)"
| "consoleread_run (Suc n) target dst out s =
     (let finish = (\<lambda>left out s. andthen (release ConsLock s) (\<lambda>_ s. Ret (Inr (int target - int left, out)) s)) in
      if cons_r s = cons_w s then
        andthen (myproc s) (\<lambda>p s. deref p (\<lambda>p.
        andthen (killed p s) (\<lambda>k s.
          if k \<noteq> 0 then andthen (release ConsLock s) (\<lambda>_ s. Ret (Inr (-1, out)) s)
          else andthen (sleep ChanCons ConsLock s) (\<lambda>_ s. Ret (Inl (Suc n, dst, out)) s))))
      else
        (let c = cons_buf s (unat (cons_r s mod INPUT_BUF_SIZE)); s = s\<lparr>cons_r := cons_r s + 1\<rparr> in
         if c = 4 then finish (Suc n) out (if Suc n < target then s\<lparr>cons_r := cons_r s - 1\<rparr> else s)
         else
           andthen (either_copyout dst [c] s) (\<lambda>(r, bs) s.
             if r = -1 then finish (Suc n) out s
             else if c = 10 then finish n (out @ bs) s
             else consoleread_run n target (case dst of UserDst va \<Rightarrow> UserDst (va + 1) | KernDst \<Rightarrow> KernDst) (out @ bs) s)))"

definition consoleread :: "dst_addr \<Rightarrow> int \<Rightarrow> 'z kcons_scheme \<Rightarrow> (int \<times> u8 list, 'z kcons_scheme) outcome" where
  "consoleread dst n s =
     andthen (acquire ConsLock s) (\<lambda>_ s.
       loop (\<lambda>(left, dst, out) s. consoleread_run left (nat n) dst out s) (nat n, dst, []) s)"

text \<open>Control-U erases back to the start of the line, at most the whole buffer.\<close>

primrec kill_line :: "nat \<Rightarrow> 'z kcons_scheme \<Rightarrow> (unit, 'z kcons_scheme) outcome" where
  "kill_line 0 s = Ret () s"
| "kill_line (Suc fuel) s =
     (if cons_e s \<noteq> cons_w s \<and> cons_buf s (unat ((cons_e s - 1) mod INPUT_BUF_SIZE)) \<noteq> 10 then
        andthen (consputc BACKSPACE (s\<lparr>cons_e := cons_e s - 1\<rparr>)) (\<lambda>_ s. kill_line fuel s)
      else Ret () s)"

definition console_switch :: "u8 \<Rightarrow> 'z kcons_scheme \<Rightarrow> (unit, 'z kcons_scheme) outcome" where
  "console_switch c s =
     (if c = 16 then procdump s
      else if c = 21 then kill_line 129 s
      else if c = 8 \<or> c = 0x7f then
        (if cons_e s \<noteq> cons_w s then consputc BACKSPACE (s\<lparr>cons_e := cons_e s - 1\<rparr>) else Ret () s)
      else if c \<noteq> 0 \<and> cons_e s - cons_r s < INPUT_BUF_SIZE then
        (let c = (if c = 13 then 10 else c) in
         andthen (consputc (ucast c) s) (\<lambda>_ s.
           let s = s\<lparr>cons_buf := (cons_buf s)(unat (cons_e s mod INPUT_BUF_SIZE) := c)\<rparr>;
               s = s\<lparr>cons_e := cons_e s + 1\<rparr>
           in if c = 10 \<or> c = 4 \<or> cons_e s - cons_r s = INPUT_BUF_SIZE
              then wakeup ChanCons (s\<lparr>cons_w := cons_e s\<rparr>) else Ret () s))
      else Ret () s)"

definition consoleintr :: "u8 \<Rightarrow> 'z kcons_scheme \<Rightarrow> (unit, 'z kcons_scheme) outcome" where
  "consoleintr c s =
     andthen (acquire ConsLock s) (\<lambda>_ s.
     andthen (console_switch c s) (\<lambda>_ s. release ConsLock s))"

definition uartintr :: "'z kcons_scheme \<Rightarrow> (unit, 'z kcons_scheme) outcome" where
  "uartintr s =
     andthen (loop (\<lambda>_ s.
       let (c, s) = uartgetc s in
       case c of None \<Rightarrow> Ret (Inr ()) s | Some c \<Rightarrow> andthen (consoleintr c s) (\<lambda>_ s. Ret (Inl ()) s)) () s) (\<lambda>_ s.
     andthen (acquire UartTxLock s) (\<lambda>_ s.
     andthen (uartstart s) (\<lambda>_ s. release UartTxLock s)))"

definition consoleinit :: "'z kcons_scheme \<Rightarrow> 'z kcons_scheme" where
  "consoleinit s =
     (let s = uartinit (initlock ConsLock ''cons'' s) in s\<lparr>devsw := (devsw s)(1 := Some ConsoleDev)\<rparr>)"

subsection \<open>Console state and the lower layers\<close>

text \<open>An update of console fields commutes with the lock layer and is invisible to the process layer.\<close>

interpretation lsr_upd: machine_upd "lsr_reads_update f" for f by unfold_locales simp_all
interpretation uart_in_upd: machine_upd "uart_in_update f" for f by unfold_locales simp_all
interpretation uart_out_upd: machine_upd "uart_out_update f" for f by unfold_locales simp_all
interpretation tx_buf_upd: machine_upd "uart_tx_buf_update f" for f by unfold_locales simp_all
interpretation tx_w_upd: machine_upd "uart_tx_w_update f" for f by unfold_locales simp_all
interpretation tx_r_upd: machine_upd "uart_tx_r_update f" for f by unfold_locales simp_all
interpretation cons_buf_upd: machine_upd "cons_buf_update f" for f by unfold_locales simp_all
interpretation cons_r_upd: machine_upd "cons_r_update f" for f by unfold_locales simp_all
interpretation cons_w_upd: machine_upd "cons_w_update f" for f by unfold_locales simp_all
interpretation cons_e_upd: machine_upd "cons_e_update f" for f by unfold_locales simp_all

interpretation tx_idle_get: machine_get tx_idle by unfold_locales simp_all
interpretation lsr_get: machine_get lsr_reads by unfold_locales simp_all
interpretation uart_in_get: machine_get uart_in by unfold_locales simp_all
interpretation uart_out_get: machine_get uart_out by unfold_locales simp_all
interpretation tx_buf_get: machine_get uart_tx_buf by unfold_locales simp_all
interpretation tx_w_get: machine_get uart_tx_w by unfold_locales simp_all
interpretation tx_r_get: machine_get uart_tx_r by unfold_locales simp_all
interpretation cons_buf_get: machine_get cons_buf by unfold_locales simp_all
interpretation cons_r_get: machine_get cons_r by unfold_locales simp_all
interpretation cons_w_get: machine_get cons_w by unfold_locales simp_all
interpretation cons_e_get: machine_get cons_e by unfold_locales simp_all
interpretation panicked_get: machine_get panicked by unfold_locales simp_all
interpretation pr_locking_get: machine_get pr_locking by unfold_locales simp_all

subsection \<open>The transmit ring\<close>

definition tx_pending :: "'z kcons_scheme \<Rightarrow> u8 list" where
  "tx_pending s = ring_list 32 (uart_tx_buf s) (uart_tx_r s) (uart_tx_w s)"

definition tx_inv :: "'z kcons_scheme \<Rightarrow> bool" where
  "tx_inv s \<longleftrightarrow> unat (uart_tx_w s - uart_tx_r s) \<le> 32"

text \<open>What \<open>wakeup\<close> keeps, for callers that only need to know it returned.\<close>

lemma wakeup_keeps:
  assumes "cpu_ok s" and "table_unlocked s"
  shows "\<exists>P. wakeup chan s = Ret () ((settle s)\<lparr>procs := P\<rparr>)"
  using wakeup_eq [OF assms] by blast

lemma uartstart_loop_eq:
  assumes "cpu_ok s" and "noff (mycpu s) \<noteq> 0" and "table_unlocked s" and "length (tx_pending s) < fuel"
  shows "\<exists>P k l. uartstart_loop fuel s = Ret () (s\<lparr>procs := P, lsr_reads := l, uart_out := uart_out s @ take k (tx_pending s),
       uart_tx_r := uart_tx_r s + of_nat k\<rparr>) \<and> k \<le> length (tx_pending s) \<and> lsr_reads s \<le> l \<and>
     (k = length (tx_pending s) \<or> (lsr_reads s < l \<and> \<not> tx_idle s (l - 1)))"
  using assms
proof (induction fuel arbitrary: s)
  case (Suc fuel)
  let ?s = "s\<lparr>lsr_reads := lsr_reads s + 1\<rparr>"
  show ?case
  proof (cases "uart_tx_w s \<noteq> uart_tx_r s \<and> tx_idle s (lsr_reads s)")
    case False
    show ?thesis
    proof (cases "uart_tx_w s = uart_tx_r s")
      case True
      then show ?thesis
        by (intro exI [of _ "procs s"] exI [of _ 0] exI [of _ "lsr_reads s"]) (simp add: tx_pending_def ring_list_def)
    next
      case wr: False
      then show ?thesis using False
        by (intro exI [of _ "procs s"] exI [of _ 0] exI [of _ "lsr_reads s + 1"]) (simp add: read_tx_idle_def)
    qed
  next
    case True
    define c where "c = uart_tx_buf s (unat (uart_tx_r s mod UART_TX_BUF_SIZE))"
    have pend: "tx_pending s = c # ring_list 32 (uart_tx_buf s) (uart_tx_r s + 1) (uart_tx_w s)"
      using uart_ring.pop(1) [of "uart_tx_r s" "uart_tx_w s" "uart_tx_buf s"] True [THEN conjunct1, symmetric]
      by (simp add: tx_pending_def c_def unat_mod_distrib)
    obtain P where P: "wakeup ChanUart (?s\<lparr>uart_tx_r := uart_tx_r s + 1\<rparr>) = Ret () (?s\<lparr>uart_tx_r := uart_tx_r s + 1, procs := P\<rparr>)"
      using wakeup_keeps [of "?s\<lparr>uart_tx_r := uart_tx_r s + 1\<rparr>" ChanUart] Suc.prems by auto
    let ?t = "WriteTHR c (?s\<lparr>uart_tx_r := uart_tx_r s + 1, procs := P\<rparr>)"
    have rest: "tx_pending ?t = ring_list 32 (uart_tx_buf s) (uart_tx_r s + 1) (uart_tx_w s)"
      by (simp add: tx_pending_def WriteTHR_def)
    have step: "uartstart_loop (Suc fuel) s = uartstart_loop fuel ?t"
      using True P by (simp add: read_tx_idle_def c_def)
    obtain Q k l where IH: "uartstart_loop fuel ?t = Ret () (?t\<lparr>procs := Q, lsr_reads := l,
        uart_out := uart_out ?t @ take k (tx_pending ?t), uart_tx_r := uart_tx_r ?t + of_nat k\<rparr>)"
      "k \<le> length (tx_pending ?t)" "lsr_reads ?t \<le> l"
      "k = length (tx_pending ?t) \<or> (lsr_reads ?t < l \<and> \<not> tx_idle ?t (l - 1))"
      using Suc.IH [of ?t] Suc.prems pend rest by (auto simp: WriteTHR_def)
    have run: "uartstart_loop (Suc fuel) s = Ret () (s\<lparr>procs := Q, lsr_reads := l, uart_out := uart_out s @ take (Suc k) (tx_pending s),
       uart_tx_r := uart_tx_r s + of_nat (Suc k)\<rparr>)"
      unfolding step IH(1) rest unfolding pend by (simp add: WriteTHR_def add.assoc)
    have len: "length (tx_pending s) = Suc (length (tx_pending ?t))" using pend rest by simp
    have "Suc k \<le> length (tx_pending s)" using IH(2) len by simp
    moreover have "lsr_reads s \<le> l" using IH(3) by (simp add: WriteTHR_def)
    moreover have "Suc k = length (tx_pending s) \<or> (lsr_reads s < l \<and> \<not> tx_idle s (l - 1))"
      using IH(3,4) len by (auto simp: WriteTHR_def)
    ultimately show ?thesis using run by blast
  qed
qed simp

lemma tx_full_iff: "uart_tx_w s = uart_tx_r s + UART_TX_BUF_SIZE \<longleftrightarrow> length (tx_pending s) = 32"
proof -
  have "uart_tx_w s = uart_tx_r s + UART_TX_BUF_SIZE \<longleftrightarrow> uart_tx_w s - uart_tx_r s = 32" by (auto simp: algebra_simps)
  also have "\<dots> \<longleftrightarrow> unat (uart_tx_w s - uart_tx_r s) = unat (32 :: u64)" by (rule word_unat_eq_iff)
  finally show ?thesis by (simp add: tx_pending_def)
qed

text \<open>
  Output is first in, first out. With room in the transmit ring \<open>uartputc\<close> returns without
  sleeping, whatever the chip answers: the bytes sent so far followed by the bytes still in the ring
  are those of before followed by \<open>c\<close>, nothing already sent is changed, the ring keeps its bound
  across wrap-around of its counters, and it stops only when it is empty or the chip was busy.
\<close>

theorem uartputc_fifo:
  assumes "cpu_ok s" and "lock_free UartTxLock s" and "table_unlocked s" and "\<not> panicked s"
    and "tx_inv s" and "length (tx_pending s) < 32"
  shows "returns (uartputc c s) (\<lambda>_ t.
     uart_out t @ tx_pending t = uart_out s @ tx_pending s @ [c] \<and>
     (\<exists>sent. uart_out t = uart_out s @ sent) \<and> tx_inv t \<and> lock_free UartTxLock t \<and>
     (tx_pending t = [] \<or> \<not> tx_idle s (lsr_reads t - 1)))"
proof -
  define a where "a = acq UartTxLock s"
  define b where "b = a\<lparr>uart_tx_buf := (uart_tx_buf s)(unat (uart_tx_w s) mod 32 := c), uart_tx_w := uart_tx_w s + 1\<rparr>"
  have pb: "tx_pending b = tx_pending s @ [c]"
    using uart_ring.push [of "uart_tx_w s" "uart_tx_r s" "uart_tx_buf s" c] assms(6)
    by (simp add: tx_pending_def b_def a_def)
  have "noff (mycpu b) \<noteq> 0" using assms(1) by (simp add: b_def a_def cpu_ok_def)
  moreover have "cpu_ok b" "table_unlocked b" using assms by (simp_all add: b_def a_def)
  ultimately obtain P k l where u: "uartstart b = Ret () (b\<lparr>procs := P, lsr_reads := l,
      uart_out := uart_out b @ take k (tx_pending b), uart_tx_r := uart_tx_r b + of_nat k\<rparr>)"
    "k \<le> length (tx_pending b)" "k = length (tx_pending b) \<or> \<not> tx_idle b (l - 1)"
    using uartstart_loop_eq [of b 33] pb assms(6) unfolding uartstart_def by auto
  let ?t = "(settle s)\<lparr>uart_tx_buf := (uart_tx_buf s)(unat (uart_tx_w s) mod 32 := c), uart_tx_w := uart_tx_w s + 1,
      procs := P, lsr_reads := l, uart_out := uart_out s @ take k (tx_pending b), uart_tx_r := uart_tx_r s + of_nat k\<rparr>"
  have run: "uartputc c s = Ret () ?t"
    using u(1) assms tx_full_iff [of s]
    by (simp add: uartputc_def loop_unfold Let_def b_def a_def unat_mod_distrib)
  have "unat (uart_tx_r s + of_nat k - uart_tx_r s) = k"
    using u(2) pb assms(6) by (simp add: unat_of_nat take_bit_nat_eq_self)
  then have "unat (uart_tx_r s + of_nat k - uart_tx_r s) \<le> unat (uart_tx_w s + 1 - uart_tx_r s)"
    using u(2) by (simp add: tx_pending_def b_def a_def)
  note sp = uart_ring.split_at(1) [OF this, of "uart_tx_buf b"]
  have "tx_pending b = ring_list 32 (uart_tx_buf b) (uart_tx_r s) (uart_tx_r s + of_nat k) @ tx_pending ?t"
    using sp by (simp add: tx_pending_def b_def a_def)
  moreover have "length (ring_list 32 (uart_tx_buf b) (uart_tx_r s) (uart_tx_r s + of_nat k)) = k"
    unfolding uart_ring.length_ring_list by fact
  ultimately have pt: "tx_pending ?t = drop k (tx_pending b)" by (metis append_eq_conv_conj)
  have "length (tx_pending ?t) \<le> 32" using pt pb assms(6) by simp
  then have "tx_inv ?t" unfolding tx_inv_def tx_pending_def uart_ring.length_ring_list .
  moreover have "tx_pending ?t = [] \<or> \<not> tx_idle s (l - 1)" using u(3) pt by (auto simp: b_def a_def)
  moreover have "uart_out ?t @ tx_pending ?t = uart_out s @ tx_pending s @ [c]"
    unfolding pt unfolding pb [symmetric] by simp
  moreover have "\<exists>sent. uart_out ?t = uart_out s @ sent" "lock_free UartTxLock ?t" "lsr_reads ?t = l"
    using assms(2) by simp_all
  ultimately show ?thesis unfolding run returns_simps by simp
qed

subsection \<open>Echo and the input line\<close>

text \<open>The chip accepts every byte at once, and the kernel has not panicked.\<close>

definition chip_ready :: "'z kcons_scheme \<Rightarrow> bool" where
  "chip_ready s \<longleftrightarrow> (\<forall>n. tx_idle s n) \<and> \<not> panicked s"

lemma uartputc_sync_eq:
  assumes "cpu_ok s" and "chip_ready s"
  shows "uartputc_sync c s = Ret () ((settle s)\<lparr>lsr_reads := lsr_reads s + 1, uart_out := uart_out s @ [c]\<rparr>)"
proof -
  let ?u = "(push_off s)\<lparr>lsr_reads := lsr_reads s + 1, uart_out := uart_out s @ [c]\<rparr>"
  have "0 \<le> noff (mycpu s)" using assms(1) by (simp add: cpu_ok_def)
  then have "pop_off ?u = Ret () (pop_st ?u)" using assms(1) by (intro pop_off_ok) simp_all
  moreover have "pop_st ?u = (settle s)\<lparr>lsr_reads := lsr_reads s + 1, uart_out := uart_out s @ [c]\<rparr>"
    using pop_push [OF assms(1)] by simp
  ultimately show ?thesis using assms(2)
    by (simp add: uartputc_sync_def loop_unfold read_tx_idle_def chip_ready_def WriteTHR_def)
qed

text \<open>What \<open>consputc\<close> sends: a backspace erases the character on the screen.\<close>

definition cons_bytes :: "u32 \<Rightarrow> u8 list" where
  "cons_bytes c = (if c = BACKSPACE then [8, 32, 8] else [ucast c])"

lemma consputc_eq:
  assumes "cpu_ok s" and "chip_ready s" and "noff (mycpu s) \<noteq> 0"
  shows "\<exists>l. consputc c s = Ret () (s\<lparr>lsr_reads := l, uart_out := uart_out s @ cons_bytes c\<rparr>)"
proof -
  have [simp]: "chip_ready (s\<lparr>lsr_reads := l, uart_out := out\<rparr>)" for l out
    using assms(2) by (simp add: chip_ready_def)
  show ?thesis using assms by (auto simp: consputc_def cons_bytes_def uartputc_sync_eq)
qed

lemma cons_bytes_char: "cons_bytes (of_char ch) = [of_char ch]" "cons_bytes (ucast (d :: u8)) = [d]" "cons_bytes BACKSPACE = [8, 32, 8]"
proof -
  have "(of_char ch :: u32) \<noteq> 256"
  proof
    assume "(of_char ch :: u32) = 256"
    then have "unat (of_nat (of_char ch) :: u32) = unat (256 :: u32)" by (simp only: of_nat_of_char)
    moreover have "(of_char ch :: nat) < 256" by (rule nat_of_char_less_256)
    ultimately show False by (simp add: unsigned_of_nat take_bit_nat_eq_self)
  qed
  moreover have "ucast (of_char ch :: u32) = (of_char ch :: u8)"
  proof -
    have "take_bit 32 (of_char ch :: nat) = of_char ch" using less_trans [OF nat_of_char_less_256 [of ch], of "2 ^ 32"] by (intro take_bit_nat_eq_self) simp
    then have "ucast (of_nat (of_char ch) :: u32) = (of_nat (of_char ch) :: u8)" by (simp add: unsigned_of_nat)
    then show ?thesis by (simp only: of_nat_of_char)
  qed
  ultimately show "cons_bytes (of_char ch) = [of_char ch]" by (simp add: cons_bytes_def)
  have "(ucast d :: u32) \<noteq> 256" 
  proof
    assume "(ucast d :: u32) = 256"
    then have "uint (ucast d :: u32) = 256" by simp
    moreover have "uint (ucast d :: u32) = uint d" using less_trans [OF uint_lt2p [of d], of "2 ^ 32"] by (simp add: unsigned_ucast_eq take_bit_int_eq_self_iff)
    ultimately show False using uint_lt2p [of d] by simp
  qed
  moreover have "ucast (ucast d :: u32) = d" by (rule bit_word_eqI) (simp add: bit_ucast_iff)
  ultimately show "cons_bytes (ucast d) = [d]" by (simp add: cons_bytes_def)
qed (simp add: cons_bytes_def)

definition cons_ready :: "'z kcons_scheme \<Rightarrow> u8 list" where
  "cons_ready s = ring_list 128 (cons_buf s) (cons_r s) (cons_w s)"

definition cons_edit :: "'z kcons_scheme \<Rightarrow> u8 list" where
  "cons_edit s = ring_list 128 (cons_buf s) (cons_w s) (cons_e s)"

definition cons_inv :: "'z kcons_scheme \<Rightarrow> bool" where
  "cons_inv s \<longleftrightarrow> unat (cons_w s - cons_r s) \<le> unat (cons_e s - cons_r s) \<and> unat (cons_e s - cons_r s) \<le> 128"

lemma puts_eq:
  assumes "cpu_ok s" and "chip_ready s" and "noff (mycpu s) \<noteq> 0"
  shows "\<exists>l. for_each (\<lambda>ch s. consputc (of_char ch) s) str s = Ret () (s\<lparr>lsr_reads := l, uart_out := uart_out s @ map of_char str\<rparr>)"
  using assms
proof (induction str arbitrary: s)
  case Nil
  then show ?case by (intro exI [of _ "lsr_reads s"]) simp
next
  case (Cons ch str)
  obtain l where l: "consputc (of_char ch) s = Ret () (s\<lparr>lsr_reads := l, uart_out := uart_out s @ [of_char ch]\<rparr>)"
    using consputc_eq [OF Cons.prems] by (metis cons_bytes_char(1))
  have "chip_ready (s\<lparr>lsr_reads := l, uart_out := uart_out s @ [of_char ch]\<rparr>)" using Cons.prems(2) by (simp add: chip_ready_def)
  with Cons.IH [of "s\<lparr>lsr_reads := l, uart_out := uart_out s @ [of_char ch]\<rparr>"] Cons.prems l show ?case by auto
qed

text \<open>\<open>printf\<close> sends the formatted text and leaves its lock as it was.\<close>

lemma printf_eq:
  assumes "cpu_ok s" and "chip_ready s" and "noff (mycpu s) \<noteq> 0" and "lock_free PrLock s"
  shows "\<exists>l. printf fmt args s = Ret () (s\<lparr>lsr_reads := l, uart_out := uart_out s @ map of_char (format fmt args)\<rparr>)"
proof (cases "pr_locking s")
  case False
  then show ?thesis using puts_eq [OF assms(1-3), of "format fmt args"] by (auto simp: printf_def)
next
  case True
  have "chip_ready (acq PrLock s)" "noff (mycpu (acq PrLock s)) \<noteq> 0" using assms by (simp_all add: chip_ready_def cpu_ok_def)
  then obtain l where "for_each (\<lambda>ch s. consputc (of_char ch) s) (format fmt args) (acq PrLock s) =
      Ret () ((acq PrLock s)\<lparr>lsr_reads := l, uart_out := uart_out s @ map of_char (format fmt args)\<rparr>)"
    using puts_eq [of "acq PrLock s" "format fmt args"] assms by auto
  then show ?thesis using True assms by (auto simp: printf_def)
qed

text \<open>The process list that control-P prints.\<close>

definition proc_line :: "proc \<Rightarrow> string" where
  "proc_line q = (if p_state q = UNUSED then []
     else printint (p_pid q) False True @ '' '' @ state_name (p_state q) @ '' '' @ p_name q @ [CHR 0x0A])"

definition proc_list :: "(nat \<Rightarrow> proc) \<Rightarrow> string" where
  "proc_list P = CHR 0x0A # concat (map (\<lambda>p. proc_line (P p)) [0..<NPROC])"

lemma proc_lines_eq:
  assumes "cpu_ok s" and "chip_ready s" and "noff (mycpu s) \<noteq> 0" and "lock_free PrLock s"
  shows "\<exists>l. for_each (\<lambda>p s. let q = procs s p in if p_state q = UNUSED then Ret () s
       else andthen (printf ''%d %s %s'' [PInt (p_pid q), PStr (Some (state_name (p_state q))), PStr (Some (p_name q))] s)
         (\<lambda>_ s. printf [CHR 0x0A] [] s)) ps s =
     Ret () (s\<lparr>lsr_reads := l, uart_out := uart_out s @ map of_char (concat (map (\<lambda>p. proc_line (procs s p)) ps))\<rparr>)"
  using assms
proof (induction ps arbitrary: s)
  case Nil
  then show ?case by (intro exI [of _ "lsr_reads s"]) simp
next
  case (Cons p ps)
  let ?q = "procs s p"
  show ?case
  proof (cases "p_state ?q = UNUSED")
    case True
    then show ?thesis using Cons.IH [OF Cons.prems] by (simp add: proc_line_def)
  next
    case False
    let ?f = "printint (p_pid ?q) False True @ '' '' @ state_name (p_state ?q) @ '' '' @ p_name ?q"
    let ?u = "\<lambda>l. s\<lparr>lsr_reads := l, uart_out := uart_out s @ map of_char ?f\<rparr>"
    let ?v = "\<lambda>l. s\<lparr>lsr_reads := l, uart_out := uart_out s @ map of_char (?f @ [CHR 0x0A])\<rparr>"
    obtain l where l: "printf ''%d %s %s'' [PInt (p_pid ?q), PStr (Some (state_name (p_state ?q))), PStr (Some (p_name ?q))] s = Ret () (?u l)"
      using printf_eq [OF Cons.prems, of "''%d %s %s''" "[PInt (p_pid ?q), PStr (Some (state_name (p_state ?q))), PStr (Some (p_name ?q))]"] by auto
    have "chip_ready (?u l)" using Cons.prems(2) by (simp add: chip_ready_def)
    then obtain m where m: "printf [CHR 0x0A] [] (?u l) = Ret () (?v m)"
      using printf_eq [of "?u l" "[CHR 0x0A]" "[]"] Cons.prems by auto
    have "chip_ready (?v m)" using Cons.prems(2) by (simp add: chip_ready_def)
    from Cons.IH [OF _ this] Cons.prems l m False show ?thesis by (auto simp: Let_def proc_line_def)
  qed
qed

lemma procdump_eq:
  assumes "cpu_ok s" and "chip_ready s" and "noff (mycpu s) \<noteq> 0" and "lock_free PrLock s"
  shows "\<exists>l. procdump s = Ret () (s\<lparr>lsr_reads := l, uart_out := uart_out s @ map of_char (proc_list (procs s))\<rparr>)"
proof -
  let ?u = "\<lambda>l. s\<lparr>lsr_reads := l, uart_out := uart_out s @ [of_char (CHR 0x0A)]\<rparr>"
  obtain l where l: "printf [CHR 0x0A] [] s = Ret () (?u l)" using printf_eq [OF assms, of "[CHR 0x0A]" "[]"] by auto
  have "chip_ready (?u l)" using assms(2) by (simp add: chip_ready_def)
  from proc_lines_eq [OF _ this, of "[0..<NPROC]"] assms l show ?thesis
    by (auto simp: procdump_def proc_list_def simp del: upt_conv_Cons)
qed

text \<open>The line discipline on the input that is ready to be read and the line being edited, what it echoes, and whether it hands
  the line over to readers.\<close>

definition line_disc :: "u8 \<Rightarrow> u8 list \<times> u8 list \<Rightarrow> u8 list \<times> u8 list" where
  "line_disc c = (\<lambda>(ready, edit).
     if c = 16 then (ready, edit)
     else if c = 21 then (ready, rev (dropWhile (\<lambda>x. x \<noteq> 10) (rev edit)))
     else if c = 8 \<or> c = 127 then (ready, butlast edit)
     else if c \<noteq> 0 \<and> length ready + length edit < 128 then
       (let c = (if c = 13 then 10 else c) in
        if c = 10 \<or> c = 4 \<or> length ready + length edit = 127 then (ready @ edit @ [c], []) else (ready, edit @ [c]))
     else (ready, edit))"

definition echo :: "(nat \<Rightarrow> proc) \<Rightarrow> u8 \<Rightarrow> u8 list \<times> u8 list \<Rightarrow> u8 list" where
  "echo P c = (\<lambda>(ready, edit).
     if c = 16 then map of_char (proc_list P)
     else if c = 21 then concat (replicate (length (takeWhile (\<lambda>x. x \<noteq> 10) (rev edit))) [8, 32, 8])
     else if c = 8 \<or> c = 127 then (if edit = [] then [] else [8, 32, 8])
     else if c \<noteq> 0 \<and> length ready + length edit < 128 then [if c = 13 then 10 else c]
     else [])"

definition hands_over :: "u8 \<Rightarrow> u8 list \<times> u8 list \<Rightarrow> bool" where
  "hands_over c = (\<lambda>(ready, edit). c \<notin> {0, 8, 16, 21, 127} \<and> length ready + length edit < 128 \<and>
     (c = 10 \<or> c = 13 \<or> c = 4 \<or> length ready + length edit = 127))"

lemma cons_length:
  assumes "cons_inv s"
  shows "unat (cons_e s - cons_r s) = length (cons_ready s) + length (cons_edit s)"
    and "ring_list 128 (cons_buf s) (cons_r s) (cons_e s) = cons_ready s @ cons_edit s"
  using cons_ring.split_at [of "cons_w s" "cons_r s" "cons_e s"] assms
  by (simp_all add: cons_inv_def cons_ready_def cons_edit_def)

lemma cons_edit_Nil: "cons_edit s = [] \<longleftrightarrow> cons_e s = cons_w s"
  unfolding length_0_conv [symmetric] cons_edit_def cons_ring.length_ring_list by (simp add: unat_eq_zero)

lemma erase_one:
  assumes "cons_inv s" and "cons_e s \<noteq> cons_w s"
  defines "t \<equiv> s\<lparr>cons_e := cons_e s - 1\<rparr>"
  shows "cons_inv t" and "cons_edit t = butlast (cons_edit s)" and "cons_ready t = cons_ready s"
    and "last (cons_edit s) = cons_buf s (unat ((cons_e s - 1) mod INPUT_BUF_SIZE))"
proof -
  have "cons_edit s \<noteq> []" using assms(2) by (simp add: cons_edit_Nil)
  then have pos: "0 < unat (cons_e s - cons_r s)" "unat (cons_w s - cons_r s) < unat (cons_e s - cons_r s)"
    using cons_length(1) [OF assms(1)] by (auto simp: cons_ready_def)
  then have "cons_e s \<noteq> cons_r s" by auto
  then have "unat (cons_e s - 1 - cons_r s) = unat (cons_e s - cons_r s) - 1"
    by (intro cons_ring.unpush(2)) simp
  then show "cons_inv t" using assms(1) pos by (auto simp: cons_inv_def t_def)
  show "cons_edit t = butlast (cons_edit s)"
    using cons_ring.unpush(1) [OF assms(2) [symmetric]] by (simp add: cons_edit_def t_def)
  show "last (cons_edit s) = cons_buf s (unat ((cons_e s - 1) mod INPUT_BUF_SIZE))"
    using cons_ring.unpush(3) [OF assms(2) [symmetric]] by (simp add: cons_edit_def unat_mod_distrib)
  show "cons_ready t = cons_ready s" by (simp add: cons_ready_def t_def)
qed

lemma cons_frame [simp]:
  "cons_inv (s\<lparr>lsr_reads := l, uart_out := out\<rparr>) = cons_inv s"
  "cons_edit (s\<lparr>lsr_reads := l, uart_out := out\<rparr>) = cons_edit s"
  "cons_ready (s\<lparr>lsr_reads := l, uart_out := out\<rparr>) = cons_ready s"
  "chip_ready (s\<lparr>lsr_reads := l, uart_out := out\<rparr>) = chip_ready s"
  "chip_ready (s\<lparr>cons_e := e\<rparr>) = chip_ready s"
  by (simp_all add: cons_inv_def cons_edit_def cons_ready_def chip_ready_def)

text \<open>Control-U, for any fuel above the length of the line.\<close>

lemma kill_line_correct:
  assumes "cpu_ok s" and "noff (mycpu s) \<noteq> 0" and "chip_ready s" and "cons_inv s" and "length (cons_edit s) < fuel"
  shows "\<exists>l e. kill_line fuel s = Ret () (s\<lparr>cons_e := e, lsr_reads := l,
       uart_out := uart_out s @ concat (replicate (length (takeWhile (\<lambda>x. x \<noteq> 10) (rev (cons_edit s)))) [8, 32, 8])\<rparr>) \<and>
     cons_inv (s\<lparr>cons_e := e\<rparr>) \<and>
     cons_edit (s\<lparr>cons_e := e\<rparr>) = rev (dropWhile (\<lambda>x. x \<noteq> 10) (rev (cons_edit s)))"
  using assms
proof (induction fuel arbitrary: s)
  case (Suc fuel)
  let ?t = "s\<lparr>cons_e := cons_e s - 1\<rparr>"
  show ?case
  proof (cases "cons_e s \<noteq> cons_w s \<and> cons_buf s (unat ((cons_e s - 1) mod INPUT_BUF_SIZE)) \<noteq> 10")
    case False
    have "rev (dropWhile (\<lambda>x. x \<noteq> 10) (rev (cons_edit s))) = cons_edit s \<and> takeWhile (\<lambda>x. x \<noteq> 10) (rev (cons_edit s)) = []"
    proof (cases "cons_e s = cons_w s")
      case True
      then show ?thesis by (simp add: cons_edit_Nil [THEN iffD2])
    next
      case ne: False
      then have "cons_edit s \<noteq> []" by (simp add: cons_edit_Nil)
      moreover have "last (cons_edit s) = 10" using erase_one(4) [OF Suc.prems(4) ne] False ne by simp
      ultimately show ?thesis by (cases "cons_edit s" rule: rev_cases) auto
    qed
    moreover have "kill_line (Suc fuel) s = Ret () (s\<lparr>cons_e := cons_e s, lsr_reads := lsr_reads s, uart_out := uart_out s\<rparr>)"
      using False by auto
    moreover have "cons_inv (s\<lparr>cons_e := cons_e s\<rparr>)" "cons_edit (s\<lparr>cons_e := cons_e s\<rparr>) = cons_edit s"
      using Suc.prems(4) by simp_all
    ultimately show ?thesis by (intro exI [of _ "lsr_reads s"] exI [of _ "cons_e s"]) simp
  next
    case True
    note er = erase_one [OF Suc.prems(4) True [THEN conjunct1]]
    obtain l where c: "consputc BACKSPACE ?t = Ret () (?t\<lparr>lsr_reads := l, uart_out := uart_out s @ [8, 32, 8]\<rparr>)"
      using consputc_eq [of ?t BACKSPACE] Suc.prems by (auto simp: cons_bytes_char(3))
    let ?u = "?t\<lparr>lsr_reads := l, uart_out := uart_out s @ [8, 32, 8]\<rparr>" and ?n = "\<lambda>e. length (takeWhile (\<lambda>x. x \<noteq> 10) (rev e))"
    have ne: "cons_edit s \<noteq> []" using True by (simp add: cons_edit_Nil)
    have eu: "cons_inv ?u" "cons_edit ?u = butlast (cons_edit s)" using er by simp_all
    have "length (cons_edit ?u) < fuel" using eu(2) ne Suc.prems(5) by (cases "cons_edit s") simp_all
    then obtain l' e where IH: "kill_line fuel ?u = Ret () (?u\<lparr>cons_e := e, lsr_reads := l',
        uart_out := uart_out ?u @ concat (replicate (?n (cons_edit ?u)) [8, 32, 8])\<rparr>)"
      "cons_inv (?u\<lparr>cons_e := e\<rparr>)" "cons_edit (?u\<lparr>cons_e := e\<rparr>) = rev (dropWhile (\<lambda>x. x \<noteq> 10) (rev (cons_edit ?u)))"
      using Suc.IH [of ?u] Suc.prems eu(1) by auto
    have "last (cons_edit s) \<noteq> 10" using er(4) True by simp
    then have "dropWhile (\<lambda>x. x \<noteq> 10) (rev (cons_edit s)) = dropWhile (\<lambda>x. x \<noteq> 10) (rev (butlast (cons_edit s)))"
      using ne by (cases "cons_edit s" rule: rev_cases) auto
    then have "cons_edit (s\<lparr>cons_e := e\<rparr>) = rev (dropWhile (\<lambda>x. x \<noteq> 10) (rev (cons_edit s)))"
      using IH(3) eu(2) by (simp add: cons_edit_def)
    moreover have "cons_inv (s\<lparr>cons_e := e\<rparr>)" using IH(2) by (simp add: cons_inv_def)
    moreover have "?n (cons_edit s) = Suc (?n (cons_edit ?u))"
      using \<open>last (cons_edit s) \<noteq> 10\<close> ne eu(2) by (cases "cons_edit s" rule: rev_cases) auto
    then have "kill_line (Suc fuel) s = Ret () (s\<lparr>cons_e := e, lsr_reads := l', uart_out := uart_out s @ concat (replicate (?n (cons_edit s)) [8, 32, 8])\<rparr>)"
      using True c IH(1) by simp
    ultimately show ?thesis by blast
  qed
qed simp

text \<open>Storing one byte.\<close>

lemma store_one:
  fixes c :: u8
  assumes "cons_inv s" and "unat (cons_e s - cons_r s) < 128"
  defines "t \<equiv> s\<lparr>cons_buf := (cons_buf s)(unat (cons_e s mod INPUT_BUF_SIZE) := c), cons_e := cons_e s + 1\<rparr>"
  shows "cons_inv t" and "cons_edit t = cons_edit s @ [c]" and "cons_ready t = cons_ready s"
    and "unat (cons_e t - cons_r t) = unat (cons_e s - cons_r s) + 1"
proof -
  let ?b = "(cons_buf s)(unat (cons_e s) mod 128 := c)"
  have all: "ring_list 128 ?b (cons_r s) (cons_e s + 1) = (cons_ready s @ cons_edit s) @ [c]"
    using cons_ring.push [of "cons_e s" "cons_r s" "cons_buf s" c] assms(2) cons_length(2) [OF assms(1)] by simp
  then have len: "unat (cons_e s + 1 - cons_r s) = unat (cons_e s - cons_r s) + 1"
    using arg_cong [OF all, of length] cons_length(1) [OF assms(1)] unfolding cons_ring.length_ring_list by simp
  then show "unat (cons_e t - cons_r t) = unat (cons_e s - cons_r s) + 1" by (simp add: t_def)
  show inv: "cons_inv t" using assms(1,2) len by (simp add: cons_inv_def t_def)
  have tb: "cons_buf t = ?b" by (simp add: t_def unat_mod_distrib)
  have sp: "cons_ready t @ cons_edit t = (cons_ready s @ cons_edit s) @ [c]"
    using cons_length(2) [OF inv] all by (simp add: tb) (simp add: t_def)
  have "length (cons_ready t) = length (cons_ready s)" by (simp add: cons_ready_def t_def)
  then show "cons_ready t = cons_ready s" "cons_edit t = cons_edit s @ [c]" using sp by simp_all
qed

text \<open>The branches of the switch, with the console lock held.\<close>

definition woken :: "u8 \<Rightarrow> 'z kcons_scheme \<Rightarrow> nat \<Rightarrow> proc" where
  "woken c s = (if hands_over c (cons_ready s, cons_edit s)
     then (\<lambda>q. if q < NPROC then wakeup_eff ChanCons s q (procs s q) else procs s q) else procs s)"

definition switch_ok :: "u8 \<Rightarrow> 'z kcons_scheme \<Rightarrow> 'z kcons_scheme \<Rightarrow> bool" where
  "switch_ok c s t \<longleftrightarrow>
     (cons_ready t, cons_edit t) = line_disc c (cons_ready s, cons_edit s) \<and> cons_inv t \<and> same_machine s t \<and>
     uart_out t = uart_out s @ echo (procs s) c (cons_ready s, cons_edit s) \<and> procs t = woken c s"

lemma switch_dump:
  assumes "cpu_ok s" and "noff (mycpu s) \<noteq> 0" and "chip_ready s" and "cons_inv s" and "lock_free PrLock s"
  shows "returns (console_switch 16 s) (\<lambda>_ t. switch_ok 16 s t)"
  using procdump_eq [OF assms(1,3,2,5)] assms(4)
  by (auto simp: console_switch_def switch_ok_def line_disc_def echo_def woken_def hands_over_def same_machine_def)

lemma switch_kill:
  assumes "cpu_ok s" and "noff (mycpu s) \<noteq> 0" and "chip_ready s" and "cons_inv s"
  shows "returns (console_switch 21 s) (\<lambda>_ t. switch_ok 21 s t)"
proof -
  have "length (cons_edit s) < 129"
    using cons_length(1) [OF assms(4)] assms(4) by (simp add: cons_inv_def)
  then obtain l e where k: "kill_line 129 s = Ret () (s\<lparr>cons_e := e, lsr_reads := l,
      uart_out := uart_out s @ concat (replicate (length (takeWhile (\<lambda>x. x \<noteq> 10) (rev (cons_edit s)))) [8, 32, 8])\<rparr>)"
    "cons_inv (s\<lparr>cons_e := e\<rparr>)" "cons_edit (s\<lparr>cons_e := e\<rparr>) = rev (dropWhile (\<lambda>x. x \<noteq> 10) (rev (cons_edit s)))"
    using kill_line_correct [OF assms, of 129] by blast
  have "cons_ready (s\<lparr>cons_e := e\<rparr>) = cons_ready s" by (simp add: cons_ready_def)
  with k show ?thesis by (simp add: console_switch_def switch_ok_def line_disc_def echo_def woken_def hands_over_def same_machine_def)
qed

lemma switch_erase:
  assumes "cpu_ok s" and "noff (mycpu s) \<noteq> 0" and "chip_ready s" and "cons_inv s" and "c = 8 \<or> c = 127"
  shows "returns (console_switch c s) (\<lambda>_ t. switch_ok c s t)"
proof (cases "cons_e s = cons_w s")
  case True
  then show ?thesis using assms(4,5) cons_edit_Nil [of s]
    by (auto simp: console_switch_def switch_ok_def line_disc_def echo_def woken_def hands_over_def)
next
  case False
  obtain l where "consputc BACKSPACE (s\<lparr>cons_e := cons_e s - 1\<rparr>) = Ret () (s\<lparr>cons_e := cons_e s - 1, lsr_reads := l, uart_out := uart_out s @ [8, 32, 8]\<rparr>)"
    using consputc_eq [of "s\<lparr>cons_e := cons_e s - 1\<rparr>" BACKSPACE] assms by (auto simp: cons_bytes_char(3))
  then show ?thesis using assms(5) False erase_one [OF assms(4) False] cons_edit_Nil [of s]
    by (auto simp: console_switch_def switch_ok_def line_disc_def echo_def woken_def hands_over_def same_machine_def)
qed

lemma switch_store:
  assumes "cpu_ok s" and "noff (mycpu s) \<noteq> 0" and "chip_ready s" and "cons_inv s" and "table_unlocked s"
    and "c \<notin> {0, 8, 16, 21, 127}"
  shows "returns (console_switch c s) (\<lambda>_ t. switch_ok c s t)"
proof (cases "unat (cons_e s - cons_r s) < 128")
  case False
  then show ?thesis using assms(4,6) cons_length(1) [OF assms(4)]
    by (simp add: console_switch_def switch_ok_def line_disc_def echo_def woken_def hands_over_def word_less_nat_alt)
next
  case True
  define d where "d = (if c = 13 then 10 else c)"
  obtain l where e: "consputc (ucast d) s = Ret () (s\<lparr>lsr_reads := l, uart_out := uart_out s @ [d]\<rparr>)"
    using consputc_eq [of s "ucast d"] assms by (auto simp: cons_bytes_char(2))
  define t where "t = (s\<lparr>lsr_reads := l, uart_out := uart_out s @ [d]\<rparr>)\<lparr>cons_buf := (cons_buf s)(unat (cons_e s mod INPUT_BUF_SIZE) := d),
      cons_e := cons_e s + 1\<rparr>"
  have st: "cons_inv t" "cons_edit t = cons_edit s @ [d]" "cons_ready t = cons_ready s"
    "unat (cons_e t - cons_r t) = unat (cons_e s - cons_r s) + 1"
    using store_one [of "s\<lparr>lsr_reads := l, uart_out := uart_out s @ [d]\<rparr>" d] assms(4) True by (simp_all add: t_def)
  have full: "cons_e t - cons_r t = 128 \<longleftrightarrow> length (cons_ready s) + length (cons_edit s) = 127"
    using st(4) cons_length(1) [OF assms(4)] by (simp add: word_unat_eq_iff)
  have run: "console_switch c s = (if d = 10 \<or> d = 4 \<or> cons_e t - cons_r t = 128
      then wakeup ChanCons (t\<lparr>cons_w := cons_e t\<rparr>) else Ret () t)"
    using assms(6) True e
    by (simp add: console_switch_def word_less_nat_alt d_def [symmetric] Let_def t_def)
  have ld: "line_disc c (cons_ready s, cons_edit s) = (if d = 10 \<or> d = 4 \<or> cons_e t - cons_r t = 128
      then (cons_ready s @ cons_edit s @ [d], []) else (cons_ready s, cons_edit s @ [d]))"
    using assms(6) True cons_length(1) [OF assms(4)] unfolding full by (simp add: line_disc_def d_def Let_def)
  have ho: "hands_over c (cons_ready s, cons_edit s) \<longleftrightarrow> d = 10 \<or> d = 4 \<or> cons_e t - cons_r t = 128"
    using assms(6) True cons_length(1) [OF assms(4)] unfolding full by (auto simp: hands_over_def d_def)
  have ec: "echo (procs s) c (cons_ready s, cons_edit s) = [d]"
    using assms(6) True cons_length(1) [OF assms(4)] by (simp add: echo_def d_def)
  show ?thesis
  proof (cases "d = 10 \<or> d = 4 \<or> cons_e t - cons_r t = 128")
    case False
    then show ?thesis using st unfolding run switch_ok_def ld ec woken_def ho by (simp add: same_machine_def t_def)
  next
    case hand: True
    let ?w = "t\<lparr>cons_w := cons_e t\<rparr>"
    have "cpu_ok ?w" "noff (mycpu ?w) \<noteq> 0" "table_unlocked ?w" using assms by (simp_all add: t_def)
    moreover define P where "P = (\<lambda>q. if q < NPROC then wakeup_eff ChanCons s q (procs s q) else procs s q)"
    moreover have "wakeup_eff ChanCons ?w = wakeup_eff ChanCons s" by (simp add: wakeup_eff_def fun_eq_iff t_def)
    ultimately have "wakeup ChanCons ?w = Ret () (?w\<lparr>procs := P\<rparr>)"
      using wakeup_eq [of ?w ChanCons] by (simp add: t_def cong: if_cong)
    moreover have "cons_ready (?w\<lparr>procs := P\<rparr>) = cons_ready s @ cons_edit s @ [d]" "cons_edit (?w\<lparr>procs := P\<rparr>) = []"
      using cons_length(2) [OF st(1)] st(2,3) by (simp_all add: cons_ready_def cons_edit_def ring_list_def)
    moreover have "cons_inv (?w\<lparr>procs := P\<rparr>)" using st(1) by (simp add: cons_inv_def)
    ultimately show ?thesis using hand unfolding run switch_ok_def ld ec woken_def ho by (simp add: same_machine_def t_def P_def)
  qed
qed

lemma console_switch_ok:
  assumes "cpu_ok s" and "noff (mycpu s) \<noteq> 0" and "chip_ready s" and "cons_inv s" and "table_unlocked s" and "lock_free PrLock s"
  shows "returns (console_switch c s) (\<lambda>_ t. switch_ok c s t)"
proof -
  consider "c = 16" | "c = 21" | "c = 8 \<or> c = 127" | "c = 0" | "c \<notin> {0, 8, 16, 21, 127}" by auto
  then show ?thesis
  proof cases
    case 4
    then show ?thesis using assms(4) by (simp add: console_switch_def switch_ok_def line_disc_def echo_def woken_def hands_over_def)
  qed (use assms switch_dump switch_kill switch_erase switch_store in blast)+
qed

text \<open>
  Property C15: the console line discipline. On a machine whose chip accepts output, the interrupt
  handler \<open>consoleintr\<close> returns and changes the input buffer exactly as the abstract line editor does:
  ordinary characters are appended to the line, newline, control-D and a full buffer hand the line
  over to readers, backspace and delete erase one character, control-U the rest of the line, and a
  full buffer drops input. What it sends to the terminal is exactly the echo: the stored character, an erasing
  sequence for each character taken back, and the process list for control-P. The processes that sleep for
  console input become runnable exactly when a line is handed over, and no other process changes. The ring keeps its
  invariant when its counters wrap around, and the lock is free again.
\<close>

theorem consoleintr_refines:
  assumes "cpu_ok s" and "lock_free ConsLock s" and "lock_free PrLock s" and "table_unlocked s" and "chip_ready s" and "cons_inv s"
  shows "returns (consoleintr c s) (\<lambda>_ t.
     (cons_ready t, cons_edit t) = line_disc c (cons_ready s, cons_edit s) \<and> cons_inv t \<and> lock_free ConsLock t \<and>
     uart_out t = uart_out s @ echo (procs s) c (cons_ready s, cons_edit s) \<and>
     procs t = (if hands_over c (cons_ready s, cons_edit s)
       then (\<lambda>q. if q < NPROC then wakeup_eff ChanCons s q (procs s q) else procs s q) else procs s))"
proof -
  define a where "a = acq ConsLock s"
  have a: "cpu_ok a" "noff (mycpu a) \<noteq> 0" "chip_ready a" "cons_inv a" "table_unlocked a" "lock_free PrLock a" "lock_held ConsLock a"
    "cons_ready a = cons_ready s" "cons_edit a = cons_edit s" "uart_out a = uart_out s" "procs a = procs s"
    using assms by (simp_all add: a_def chip_ready_def cons_inv_def cons_ready_def cons_edit_def cpu_ok_def)
  have w: "woken c a = woken c s" unfolding woken_def a(8,9,11) by (simp add: wakeup_eff_def a_def fun_eq_iff)
  have "returns (release ConsLock t) (\<lambda>_ u. (cons_ready u, cons_edit u) = line_disc c (cons_ready s, cons_edit s) \<and>
      cons_inv u \<and> lock_free ConsLock u \<and> uart_out u = uart_out s @ echo (procs s) c (cons_ready s, cons_edit s) \<and> procs u = woken c s)"
    if "switch_ok c a t" for t
    using that a(7-11) w same_machineD(1) [of a t ConsLock]
    by (simp add: switch_ok_def cons_ready_def cons_edit_def cons_inv_def)
  moreover have "returns (console_switch c a) (\<lambda>_ t. switch_ok c a t)"
    using a by (intro console_switch_ok)
  ultimately show ?thesis
    using assms(1,2) unfolding woken_def by (auto simp: consoleintr_def a_def [symmetric] elim!: returns_mono)
qed

subsection \<open>Numbers\<close>

text \<open>Reading back what \<open>printint\<close> printed.\<close>

definition digit_val :: "char \<Rightarrow> nat" where
  "digit_val c = (if c \<in> set digits then length (takeWhile (\<lambda>d. d \<noteq> c) digits) else 0)"

definition undigits :: "nat \<Rightarrow> string \<Rightarrow> nat" where
  "undigits b str = foldr (\<lambda>c n. digit_val c + b * n) str 0"

definition parse_int :: "nat \<Rightarrow> string \<Rightarrow> int" where
  "parse_int b str = (case str of [] \<Rightarrow> 0 | c # cs \<Rightarrow>
     if c = CHR ''-'' then - int (undigits b (rev cs)) else int (undigits b (rev str)))"

lemma digit_cases: "n < 16 \<Longrightarrow> n \<in> {0,1,2,3,4,5,6,7,8,9,10,11,12,13,14,15::nat}"
  by (simp add: numeral_eq_Suc less_Suc_eq)

lemma digit_val_nth: "n < 16 \<Longrightarrow> digit_val (digits ! n) = n \<and> digits ! n \<noteq> CHR ''-''"
  by (drule digit_cases) (auto simp: digit_val_def digits_def)

lemma print_digits_value:
  "undigits (if hex then 16 else 10) (print_digits hex x) = unat x \<and> print_digits hex x \<noteq> [] \<and>
   CHR ''-'' \<notin> set (print_digits hex x)"
proof (induction hex x rule: print_digits.induct)
  case (1 hex x)
  let ?b = "if hex then 16 else 10 :: u32"
  have b: "unat ?b = (if hex then 16 else 10)" by simp
  have "unat x mod 10 < 16" by (rule less_trans [OF mod_less_divisor]) simp_all
  then have m: "unat (x mod ?b) < 16" by (simp add: unat_mod_distrib)
  note d = digit_val_nth [OF m] not_sym [OF digit_val_nth [OF m, THEN conjunct2]]
  have split: "unat x = unat (x mod ?b) + unat ?b * unat (x div ?b)"
    by (simp only: unat_mod_distrib unat_div_distrib) simp
  show ?case
  proof (cases "x div ?b = 0")
    case True
    then show ?thesis using d split by (subst (1 2 3) print_digits.simps) (simp add: undigits_def Let_def)
  next
    case False
    then show ?thesis using d split b 1 [OF refl refl refl False]
      by (subst (1 2 3) print_digits.simps) (simp add: undigits_def Let_def)
  qed
qed

lemma uint32_lt: "uint (x :: u32) < 4294967296"
  using uint_lt2p [of x] by simp

lemma sint32_cases: "sint (x :: u32) = (if uint x < 2147483648 then uint x else uint x - 4294967296)"
proof -
  have s: "sint x = (uint x + 2147483648) mod 4294967296 - 2147483648"
    using int_word_sint [of "uint x", where 'a = 32] by simp
  show ?thesis
  proof (cases "uint x < 2147483648")
    case False
    then have "(uint x + 2147483648) mod 4294967296 = uint x + 2147483648 - 4294967296"
      using uint32_lt [of x] by (subst minus_mod_self2 [symmetric]) simp
    then show ?thesis using s False by simp
  qed (use s in simp)
qed

lemma unat_minus_sint: "sint (x :: u32) < 0 \<Longrightarrow> int (unat (- x)) = - sint x"
proof -
  assume neg: "sint x < 0"
  then have u: "2147483648 \<le> uint x" "sint x = uint x - 4294967296"
    using uint32_lt [of x] by (auto simp: sint32_cases split: if_splits)
  have "int (unat (- x)) = (- uint x) mod 4294967296" using uint_word_ariths(4) [of x] by simp
  also have "\<dots> = (4294967296 - uint x) mod 4294967296" by (simp add: mod_diff_left_eq [symmetric])
  also have "\<dots> = 4294967296 - uint x"
    by (rule mod_pos_pos_trivial) (use u(1) uint32_lt [of x] in simp_all)
  finally show ?thesis using u(2) by simp
qed

text \<open>
  The number printer. \<open>%d\<close> and \<open>%x\<close> of the kernel's \<open>printf\<close> print a numeral whose value,
  read back in base 10 or 16, is the argument as a signed 32-bit integer, including the most negative
  one. (\<open>%x\<close> therefore prints a minus sign for arguments with the top bit set.)
\<close>

theorem printint_roundtrip: "parse_int (if hex then 16 else 10) (printint xx hex True) = sint xx"
proof (cases "sint xx < 0")
  case True
  have "int (unat (- xx)) = - sint xx" using True by (rule unat_minus_sint)
  then show ?thesis using True print_digits_value [of hex "- xx"]
    by (simp add: printint_def parse_int_def word_sless_alt)
next
  case False
  have "int (unat xx) = sint xx" using False uint32_lt [of xx] by (simp add: sint32_cases split: if_splits)
  moreover have "hd (rev (print_digits hex xx)) \<noteq> CHR ''-''"
    using print_digits_value [of hex xx] by (metis hd_in_set rev_is_Nil_conv set_rev)
  ultimately show ?thesis using False print_digits_value [of hex xx]
    by (cases "rev (print_digits hex xx)") (auto simp: printint_def parse_int_def word_sless_alt)
qed

subsection \<open>Witnesses\<close>

text \<open>The machine of the process witnesses with an idle console whose ring counters are about to wrap
  around.\<close>

definition kcons0 :: kcons where
  "kcons0 = kproc.extend kproc0 (kcons.fields (\<lambda>_. True) 0 [] [] (\<lambda>_. 0) (\<lambda>_. 0) 0xFFFFFFFFFFFFFFFF 0xFFFFFFFFFFFFFFFF
     (\<lambda>_. 0) 0xFFFFFFFF 0xFFFFFFFF 0xFFFFFFFF False True (\<lambda>_. None))"

lemma kcons0_ok [simp]:
  "cpu_ok kcons0" "lock_free lk kcons0" "noff (mycpu kcons0) = 0" "chip_ready kcons0" "\<not> panicked kcons0"
  "cons_inv kcons0" "cons_ready kcons0 = []" "cons_edit kcons0 = []" "tx_inv kcons0" "tx_pending kcons0 = []" "uart_out kcons0 = []"
  "tx_idle kcons0 n"
  by (simp_all add: kcons0_def kcons.defs kproc.defs kproc0_def lock_free_def cpu_ok_def mycpu_def cpuid_def chip_ready_def
      cons_inv_def cons_ready_def cons_edit_def tx_inv_def tx_pending_def ring_list_def)

theorem uartputc_fifo_witness:
  "returns (uartputc 65 kcons0) (\<lambda>_ t. uart_out t = [65] \<and> tx_pending t = [])"
  using uartputc_fifo [of kcons0 65] by (auto elim!: returns_mono)

text \<open>Carriage return ends the line, and process 3, which waits for it, becomes runnable.\<close>

definition kcons1 :: kcons where
  "kcons1 = kcons0\<lparr>procs := (procs kcons0)(3 := (procs kcons0 3)\<lparr>p_state := SLEEPING, p_chan := ChanCons\<rparr>)\<rparr>"

lemma kcons1_ok:
  "cons_inv kcons1" "cons_ready kcons1 = []" "cons_edit kcons1 = []" "chip_ready kcons1" "cpu_ok kcons1" "uart_out kcons1 = []" "lock_free lk kcons1"
  "p_state (wakeup_eff ChanCons kcons1 3 (procs kcons1 3)) = RUNNABLE"
proof -
  have "cpu_proc (mycpu kcons1) \<noteq> Some 3" by (simp add: kcons1_def kcons0_def kcons.defs kproc.defs kproc0_def mycpu_def cpuid_def)
  then show "p_state (wakeup_eff ChanCons kcons1 3 (procs kcons1 3)) = RUNNABLE" by (simp add: wakeup_eff_def kcons1_def)
qed (use kcons0_ok in \<open>simp_all add: kcons1_def cons_inv_def cons_ready_def cons_edit_def chip_ready_def\<close>)

theorem consoleintr_refines_witness:
  "returns (consoleintr 13 kcons1) (\<lambda>_ t. cons_ready t = [10] \<and> cons_edit t = [] \<and> uart_out t = [10] \<and> p_state (procs t 3) = RUNNABLE)"
  using consoleintr_refines [OF kcons1_ok(5,7,7) _ kcons1_ok(4,1), of 13] kcons1_ok
  by (auto simp: line_disc_def echo_def hands_over_def elim!: returns_mono)

end
