(* ===== verification/Virtio.thy ===== *)
theory Virtio
  imports Console
begin

text \<open>
  \<open>kernel/virtio_disk.c\<close> and \<open>kernel/plic.c\<close>: the driver of the virtio block device and the interrupt
  controller. The device is not part of the sources: \<open>vmmio_read\<close> is what its registers answer,
  \<open>vmmio_writes\<close> the register writes in order, and it fills the used ring and the status bytes between
  two steps of the driver. A descriptor points to a request header, to the data of a buffer or to a
  status byte; the three ring pages are kept as records.
\<close>

datatype daddr = DNull | DOps nat | DBufData nat | DStatus nat

record virtq_desc =
  d_addr :: daddr
  d_len :: u32
  d_flags :: u16
  d_next :: u16

record virtio_blk_req =
  rq_type :: u32
  rq_reserved :: u32
  rq_sector :: u64

record vdisk =
  vd_desc :: "nat \<Rightarrow> virtq_desc"
  av_idx :: u16
  av_ring :: "nat \<Rightarrow> u16"
  us_idx :: u16
  us_ring :: "nat \<Rightarrow> u32"
  vd_free :: "nat \<Rightarrow> bool"
  vd_used_idx :: u16
  info_b :: "nat \<Rightarrow> nat option"
  info_status :: "nat \<Rightarrow> u8"
  vd_ops :: "nat \<Rightarrow> virtio_blk_req"

text \<open>\<open>b_disk\<close> is the field \<open>disk\<close> of the buffers: the device owns the buffer.\<close>

record kvirtio = kcons +
  vdisk :: vdisk
  vdisk_pages :: "u64 \<times> u64 \<times> u64"
  b_disk :: "nat \<Rightarrow> bool"
  vmmio_read :: "nat \<Rightarrow> u32"
  vmmio_writes :: "(nat \<times> u32) list"
  plic_irq :: u32
  plic_writes :: "(u64 \<times> u32) list"

abbreviation (input) NUM :: nat where "NUM \<equiv> 8"
abbreviation (input) VRING_DESC_F_NEXT :: u16 where "VRING_DESC_F_NEXT \<equiv> 1"
abbreviation (input) VRING_DESC_F_WRITE :: u16 where "VRING_DESC_F_WRITE \<equiv> 2"
abbreviation (input) UART0_IRQ :: u32 where "UART0_IRQ \<equiv> 10"
abbreviation (input) VIRTIO0_IRQ :: u32 where "VIRTIO0_IRQ \<equiv> 1"

definition upd_vdisk :: "(vdisk \<Rightarrow> vdisk) \<Rightarrow> 'z kvirtio_scheme \<Rightarrow> 'z kvirtio_scheme" where
  "upd_vdisk f s = s\<lparr>vdisk := f (vdisk s)\<rparr>"

definition vwrite :: "nat \<Rightarrow> u32 \<Rightarrow> 'z kvirtio_scheme \<Rightarrow> 'z kvirtio_scheme" where
  "vwrite reg v s = s\<lparr>vmmio_writes := vmmio_writes s @ [(reg, v)]\<rparr>"

subsection \<open>plic.c\<close>

definition PLIC_SENABLE :: "nat \<Rightarrow> u64" where
  "PLIC_SENABLE hart = PLIC + 0x2080 + of_nat hart * 0x100"

definition PLIC_SPRIORITY :: "nat \<Rightarrow> u64" where
  "PLIC_SPRIORITY hart = PLIC + 0x201000 + of_nat hart * 0x2000"

definition PLIC_SCLAIM :: "nat \<Rightarrow> u64" where
  "PLIC_SCLAIM hart = PLIC + 0x201004 + of_nat hart * 0x2000"

definition plic_write :: "u64 \<Rightarrow> u32 \<Rightarrow> 'z kvirtio_scheme \<Rightarrow> 'z kvirtio_scheme" where
  "plic_write a v s = s\<lparr>plic_writes := plic_writes s @ [(a, v)]\<rparr>"

definition plicinit :: "'z kvirtio_scheme \<Rightarrow> 'z kvirtio_scheme" where
  "plicinit s = plic_write (PLIC + 4 * ucast VIRTIO0_IRQ) 1 (plic_write (PLIC + 4 * ucast UART0_IRQ) 1 s)"

definition plicinithart :: "'z kvirtio_scheme \<Rightarrow> 'z kvirtio_scheme" where
  "plicinithart s =
     (let hart = cpuid s
      in plic_write (PLIC_SPRIORITY hart) 0
           (plic_write (PLIC_SENABLE hart) (push_bit (unat UART0_IRQ) 1 OR push_bit (unat VIRTIO0_IRQ) 1) s))"

text \<open>Reading the claim register takes the pending interrupt.\<close>

definition plic_claim :: "'z kvirtio_scheme \<Rightarrow> u32 \<times> 'z kvirtio_scheme" where
  "plic_claim s = (plic_irq s, s\<lparr>plic_irq := 0\<rparr>)"

definition plic_complete :: "u32 \<Rightarrow> 'z kvirtio_scheme \<Rightarrow> 'z kvirtio_scheme" where
  "plic_complete irq s = plic_write (PLIC_SCLAIM (cpuid s)) irq s"

subsection \<open>Initialisation\<close>

definition features_mask :: u32 where
  "features_mask = NOT (push_bit 5 1) AND NOT (push_bit 7 1) AND NOT (push_bit 11 1) AND NOT (push_bit 12 1)
     AND NOT (push_bit 27 1) AND NOT (push_bit 29 1) AND NOT (push_bit 28 1)"

definition virtio_disk_init :: "'z kvirtio_scheme \<Rightarrow> (unit, 'z kvirtio_scheme) outcome" where
  "virtio_disk_init s =
     (let s = initlock VdiskLock ''virtio_disk'' s in
      if vmmio_read s 0x000 \<noteq> 0x74726976 \<or> vmmio_read s 0x004 \<noteq> 2 \<or> vmmio_read s 0x008 \<noteq> 2 \<or>
         vmmio_read s 0x00c \<noteq> 0x554d4551
      then Panic ''could not find virtio disk''
      else
        (let s = vwrite 0x070 0 s; s = vwrite 0x070 1 s; s = vwrite 0x070 3 s;
             features = vmmio_read s 0x010 AND features_mask;
             s = vwrite 0x020 features s; s = vwrite 0x070 11 s;
             status = vmmio_read s 0x070 in
         if status AND 8 = 0 then Panic ''virtio disk FEATURES_OK unset''
         else
           (let s = vwrite 0x030 0 s in
            if vmmio_read s 0x044 \<noteq> 0 then Panic ''virtio disk should not be ready''
            else if vmmio_read s 0x034 = 0 then Panic ''virtio disk has no queue 0''
            else if vmmio_read s 0x034 < of_nat NUM then Panic ''virtio disk max queue too short''
            else
              andthen (kalloc s) (\<lambda>desc s.
              andthen (kalloc s) (\<lambda>avail s.
              andthen (kalloc s) (\<lambda>used s.
                if desc = 0 \<or> avail = 0 \<or> used = 0 then Panic ''virtio disk kalloc''
                else
                  (let s = s\<lparr>pmem := memset used 0 4096 (memset avail 0 4096 (memset desc 0 4096 (pmem s)))\<rparr>;
                       s = s\<lparr>vdisk_pages := (desc, avail, used)\<rparr>;
                       s = upd_vdisk (\<lambda>d. d\<lparr>vd_desc := (\<lambda>_. \<lparr>d_addr = DNull, d_len = 0, d_flags = 0, d_next = 0\<rparr>),
                             av_idx := 0, av_ring := (\<lambda>_. 0), us_idx := 0, us_ring := (\<lambda>_. 0)\<rparr>) s;
                       s = vwrite 0x038 (of_nat NUM) s;
                       s = vwrite 0x080 (ucast desc) s; s = vwrite 0x084 (ucast (drop_bit 32 desc)) s;
                       s = vwrite 0x090 (ucast avail) s; s = vwrite 0x094 (ucast (drop_bit 32 avail)) s;
                       s = vwrite 0x0a0 (ucast used) s; s = vwrite 0x0a4 (ucast (drop_bit 32 used)) s;
                       s = vwrite 0x044 1 s;
                       s = upd_vdisk (\<lambda>d. d\<lparr>vd_free := (\<lambda>i. if i < NUM then True else vd_free d i)\<rparr>) s
                   in Ret () (vwrite 0x070 (status OR 4) s))))))))"

subsection \<open>Descriptors\<close>

definition alloc_desc :: "'z kvirtio_scheme \<Rightarrow> nat option \<times> 'z kvirtio_scheme" where
  "alloc_desc s =
     (case find (vd_free (vdisk s)) [0..<NUM] of
        Some i \<Rightarrow> (Some i, upd_vdisk (\<lambda>d. d\<lparr>vd_free := (vd_free d)(i := False)\<rparr>) s)
      | None \<Rightarrow> (None, s))"

definition free_desc :: "nat \<Rightarrow> 'z kvirtio_scheme \<Rightarrow> (unit, 'z kvirtio_scheme) outcome" where
  "free_desc i s =
     (if i \<ge> NUM then Panic ''free_desc 1''
      else if vd_free (vdisk s) i then Panic ''free_desc 2''
      else
        wakeup ChanDiskFree
          (upd_vdisk (\<lambda>d. d\<lparr>vd_desc := (vd_desc d)(i := \<lparr>d_addr = DNull, d_len = 0, d_flags = 0, d_next = 0\<rparr>),
             vd_free := (vd_free d)(i := True)\<rparr>) s))"

text \<open>\<open>free_chain\<close> frees one more descriptor in every round, and freeing a free one panics, so it makes at
  most \<open>NUM + 1\<close> rounds.\<close>

primrec free_chain_loop :: "nat \<Rightarrow> nat \<Rightarrow> 'z kvirtio_scheme \<Rightarrow> (unit, 'z kvirtio_scheme) outcome" where
  "free_chain_loop 0 i s = Ret () s"
| "free_chain_loop (Suc fuel) i s =
     (let flag = d_flags (vd_desc (vdisk s) i); nxt = d_next (vd_desc (vdisk s) i) in
      andthen (free_desc i s) (\<lambda>_ s.
        if flag AND VRING_DESC_F_NEXT \<noteq> 0 then free_chain_loop fuel (unat nxt) s else Ret () s))"

definition free_chain :: "nat \<Rightarrow> 'z kvirtio_scheme \<Rightarrow> (unit, 'z kvirtio_scheme) outcome" where
  "free_chain i s = free_chain_loop 9 i s"

definition alloc3_desc :: "'z kvirtio_scheme \<Rightarrow> ((nat \<times> nat \<times> nat) option, 'z kvirtio_scheme) outcome" where
  "alloc3_desc s =
     (let (i0, s) = alloc_desc s in
      case i0 of
        None \<Rightarrow> Ret None s
      | Some i0 \<Rightarrow>
          (let (i1, s) = alloc_desc s in
           case i1 of
             None \<Rightarrow> andthen (free_desc i0 s) (\<lambda>_ s. Ret None s)
           | Some i1 \<Rightarrow>
               (let (i2, s) = alloc_desc s in
                case i2 of
                  None \<Rightarrow> andthen (free_desc i0 s) (\<lambda>_ s. andthen (free_desc i1 s) (\<lambda>_ s. Ret None s))
                | Some i2 \<Rightarrow> Ret (Some (i0, i1, i2)) s)))"

subsection \<open>Requests\<close>

text \<open>Formatting the three descriptors and queueing the chain.\<close>

definition submit :: "nat \<Rightarrow> u32 \<Rightarrow> bool \<Rightarrow> nat \<times> nat \<times> nat \<Rightarrow> 'z kvirtio_scheme \<Rightarrow> 'z kvirtio_scheme" where
  "submit b blockno write idx s =
     (let (i0, i1, i2) = idx; sector = ucast (blockno * 2) :: u64;
          s = upd_vdisk (\<lambda>d. d\<lparr>vd_ops := (vd_ops d)(i0 :=
                \<lparr>rq_type = (if write then 1 else 0), rq_reserved = 0, rq_sector = sector\<rparr>)\<rparr>) s;
          s = upd_vdisk (\<lambda>d. d\<lparr>vd_desc := (vd_desc d)(i0 :=
                \<lparr>d_addr = DOps i0, d_len = 16, d_flags = VRING_DESC_F_NEXT, d_next = of_nat i1\<rparr>)\<rparr>) s;
          s = upd_vdisk (\<lambda>d. d\<lparr>vd_desc := (vd_desc d)(i1 :=
                \<lparr>d_addr = DBufData b, d_len = 1024, d_flags = (if write then 0 else VRING_DESC_F_WRITE) OR VRING_DESC_F_NEXT,
                  d_next = of_nat i2\<rparr>)\<rparr>) s;
          s = upd_vdisk (\<lambda>d. d\<lparr>info_status := (info_status d)(i0 := 0xff)\<rparr>) s;
          s = upd_vdisk (\<lambda>d. d\<lparr>vd_desc := (vd_desc d)(i2 :=
                \<lparr>d_addr = DStatus i0, d_len = 1, d_flags = VRING_DESC_F_WRITE, d_next = 0\<rparr>)\<rparr>) s;
          s = s\<lparr>b_disk := (b_disk s)(b := True)\<rparr>;
          s = upd_vdisk (\<lambda>d. d\<lparr>info_b := (info_b d)(i0 := Some b)\<rparr>) s;
          s = upd_vdisk (\<lambda>d. d\<lparr>av_ring := (av_ring d)(unat (av_idx d mod of_nat NUM) := of_nat i0)\<rparr>) s;
          s = upd_vdisk (\<lambda>d. d\<lparr>av_idx := av_idx d + 1\<rparr>) s
      in vwrite 0x050 0 s)"

definition virtio_disk_rw :: "nat \<Rightarrow> u32 \<Rightarrow> bool \<Rightarrow> 'z kvirtio_scheme \<Rightarrow> (unit, 'z kvirtio_scheme) outcome" where
  "virtio_disk_rw b blockno write s =
     andthen (acquire VdiskLock s) (\<lambda>_ s.
     andthen (loop (\<lambda>_ s.
       andthen (alloc3_desc s) (\<lambda>r s.
         case r of
           Some idx \<Rightarrow> Ret (Inr idx) s
         | None \<Rightarrow> andthen (sleep ChanDiskFree VdiskLock s) (\<lambda>_ s. Ret (Inl ()) s))) () s) (\<lambda>idx s.
     let s = submit b blockno write idx s in
     andthen (loop (\<lambda>_ s.
       if b_disk s b then andthen (sleep (ChanBuf b) VdiskLock s) (\<lambda>_ s. Ret (Inl ()) s) else Ret (Inr ()) s) () s) (\<lambda>_ s.
     let s = upd_vdisk (\<lambda>d. d\<lparr>info_b := (info_b d)(fst idx := None)\<rparr>) s in
     andthen (free_chain (fst idx) s) (\<lambda>_ s. release VdiskLock s))))"

text \<open>The 16-bit distance between the two used indices bounds the loop of the interrupt handler.\<close>

primrec disk_intr_loop :: "nat \<Rightarrow> 'z kvirtio_scheme \<Rightarrow> (unit, 'z kvirtio_scheme) outcome" where
  "disk_intr_loop 0 s = Ret () s"
| "disk_intr_loop (Suc fuel) s =
     (let d = vdisk s in
      if vd_used_idx d \<noteq> us_idx d then
        (let id = unat (us_ring d (unat (vd_used_idx d mod of_nat NUM))) in
         if info_status d id \<noteq> 0 then Panic ''virtio_disk_intr status''
         else
           deref (info_b d id) (\<lambda>b.
           andthen (wakeup (ChanBuf b) (s\<lparr>b_disk := (b_disk s)(b := False)\<rparr>)) (\<lambda>_ s.
             disk_intr_loop fuel (upd_vdisk (\<lambda>d. d\<lparr>vd_used_idx := vd_used_idx d + 1\<rparr>) s))))
      else Ret () s)"

definition virtio_disk_intr :: "'z kvirtio_scheme \<Rightarrow> (unit, 'z kvirtio_scheme) outcome" where
  "virtio_disk_intr s =
     andthen (acquire VdiskLock s) (\<lambda>_ s.
     let s = vwrite 0x064 (vmmio_read s 0x060 AND 3) s in
     andthen (disk_intr_loop 65536 s) (\<lambda>_ s. release VdiskLock s))"

text \<open>The machine of the console witnesses with process 1 running and an idle disk.\<close>

definition kvirtio0 :: kvirtio where
  "kvirtio0 = kcons.extend (set_cpu_proc (Some 1) kcons0) (kvirtio.fields
     \<lparr>vd_desc = (\<lambda>_. \<lparr>d_addr = DNull, d_len = 0, d_flags = 0, d_next = 0\<rparr>), av_idx = 0, av_ring = (\<lambda>_. 0), us_idx = 0,
       us_ring = (\<lambda>_. 0), vd_free = (\<lambda>_. True), vd_used_idx = 0, info_b = (\<lambda>_. None), info_status = (\<lambda>_. 0),
       vd_ops = (\<lambda>_. \<lparr>rq_type = 0, rq_reserved = 0, rq_sector = 0\<rparr>)\<rparr>
     (0, 0, 0) (\<lambda>_. False) (\<lambda>_. 0) [] 0 [])"

lemmas kvirtio0_defs = kvirtio0_def kvirtio.defs kcons0_def kcons.defs kproc.defs kproc0_def set_cpu_proc_def machine_defs

lemma kvirtio0_ok [simp]:
  "cpu_ok kvirtio0" "lock_free lk kvirtio0" "noff (mycpu kvirtio0) = 0" "cpu_proc (mycpu kvirtio0) = Some 1"
  "procs kvirtio0 = demo_table" "ticks kvirtio0 = 100"
  by (simp_all add: kvirtio0_defs lock_free_def cpu_ok_def)

end
