(* ===== verification/Disk.thy ===== *)
theory Disk
  imports Virtio
begin

text \<open>
  What \<open>kernel/virtio_disk.c\<close> promises: the life of a disk request, from \<open>virtio_disk_rw\<close> filling a chain of three descriptors to the process that asked
  being resumed after the interrupt. The device is what the specification of virtio says: it writes the status of a chain it was notified of and puts the head
  of the chain into the used ring (\<open>completed\<close>).
\<close>

interpretation vdisk_upd: machine_upd "upd_vdisk f" for f by unfold_locales (simp_all add: upd_vdisk_def)
interpretation vwrite_upd: machine_upd "vwrite r v" for r v by unfold_locales (simp_all add: vwrite_def)
interpretation b_disk_upd: machine_upd "b_disk_update f" for f by unfold_locales simp_all
interpretation vdisk_get: machine_get vdisk by unfold_locales simp_all
interpretation b_disk_get: machine_get b_disk by unfold_locales simp_all
interpretation vmmio_read_get: machine_get vmmio_read by unfold_locales simp_all
interpretation vmmio_writes_get: machine_get vmmio_writes by unfold_locales simp_all

lemma upd_vdisk_simps [simp]:
  "vdisk (upd_vdisk f s) = f (vdisk s)" "b_disk (upd_vdisk f s) = b_disk s" "procs (upd_vdisk f s) = procs s" "vmmio_writes (upd_vdisk f s) = vmmio_writes s"
  "upd_vdisk f (upd_vdisk g s) = upd_vdisk (\<lambda>d. f (g d)) s" "vmmio_read (upd_vdisk f s) = vmmio_read s"
  by (simp_all add: upd_vdisk_def)

lemma vwrite_simps [simp]:
  "vdisk (vwrite r v s) = vdisk s" "b_disk (vwrite r v s) = b_disk s" "procs (vwrite r v s) = procs s" "vmmio_writes (vwrite r v s) = vmmio_writes s @ [(r, v)]"
  by (simp_all add: vwrite_def)

subsection \<open>Descriptors\<close>

definition free_descs :: "vdisk \<Rightarrow> nat list" where
  "free_descs d = filter (vd_free d) [0..<NUM]"

lemma find_filter: "find P xs = (case filter P xs of [] \<Rightarrow> None | x # _ \<Rightarrow> Some x)"
  by (induction xs) auto

lemma alloc_desc_eq:
  "free_descs (vdisk s) = i # is \<Longrightarrow> alloc_desc s = (Some i, upd_vdisk (\<lambda>d. d\<lparr>vd_free := (vd_free d)(i := False)\<rparr>) s)"
  "free_descs (vdisk s) = i # is \<Longrightarrow> free_descs ((vdisk s)\<lparr>vd_free := (vd_free (vdisk s))(i := False)\<rparr>) = is"
  "free_descs (vdisk s) = [] \<Longrightarrow> alloc_desc s = (None, s)"
proof -
  show "free_descs (vdisk s) = i # is \<Longrightarrow> alloc_desc s = (Some i, upd_vdisk (\<lambda>d. d\<lparr>vd_free := (vd_free d)(i := False)\<rparr>) s)"
    and "free_descs (vdisk s) = [] \<Longrightarrow> alloc_desc s = (None, s)" by (simp_all add: alloc_desc_def free_descs_def find_filter)
  assume f: "free_descs (vdisk s) = i # is"
  have "distinct (i # is)" using f distinct_filter [of "[0..<NUM]" "vd_free (vdisk s)"] by (simp add: free_descs_def)
  moreover have "filter (\<lambda>x. x \<noteq> i) is = is" if "i \<notin> set is" using that by (induction "is") auto
  ultimately have "filter (\<lambda>x. x \<noteq> i) (free_descs (vdisk s)) = is" using f by simp
  then show "free_descs ((vdisk s)\<lparr>vd_free := (vd_free (vdisk s))(i := False)\<rparr>) = is" by (simp add: free_descs_def conj_commute fun_upd_def cong: conj_cong)
qed

lemma free_descs_distinct: "distinct (free_descs d)" "i \<in> set (free_descs d) \<longleftrightarrow> i < NUM \<and> vd_free d i"
  by (auto simp: free_descs_def)

lemma alloc3_eq:
  assumes "free_descs (vdisk s) = i0 # i1 # i2 # is"
  shows "alloc3_desc s = Ret (Some (i0, i1, i2)) (upd_vdisk (\<lambda>d. d\<lparr>vd_free := (vd_free d)(i0 := False, i1 := False, i2 := False)\<rparr>) s)"
proof -
  let ?s1 = "upd_vdisk (\<lambda>d. d\<lparr>vd_free := (vd_free d)(i0 := False)\<rparr>) s"
  let ?s2 = "upd_vdisk (\<lambda>d. d\<lparr>vd_free := (vd_free d)(i1 := False)\<rparr>) ?s1"
  have a: "free_descs (vdisk ?s1) = i1 # i2 # is" using alloc_desc_eq(2) [OF assms] by simp
  then have b: "free_descs (vdisk ?s2) = i2 # is" using alloc_desc_eq(2) [OF a] by simp
  show ?thesis unfolding alloc3_desc_def alloc_desc_eq(1) [OF assms] Let_def prod.case option.case alloc_desc_eq(1) [OF a] alloc_desc_eq(1) [OF b] by simp
qed

subsection \<open>A request\<close>

text \<open>What the device finds: three descriptors with the header, the data of the buffer and the status byte, and the first of them in the ring.\<close>

definition posted :: "nat \<Rightarrow> u32 \<Rightarrow> bool \<Rightarrow> nat \<Rightarrow> nat \<Rightarrow> nat \<Rightarrow> vdisk \<Rightarrow> bool" where
  "posted b blockno write i0 i1 i2 d \<longleftrightarrow>
     vd_ops d i0 = \<lparr>rq_type = (if write then 1 else 0), rq_reserved = 0, rq_sector = ucast (blockno * 2)\<rparr> \<and>
     vd_desc d i0 = \<lparr>d_addr = DOps i0, d_len = 16, d_flags = VRING_DESC_F_NEXT, d_next = of_nat i1\<rparr> \<and>
     vd_desc d i1 = \<lparr>d_addr = DBufData b, d_len = 1024, d_flags = (if write then 0 else VRING_DESC_F_WRITE) OR VRING_DESC_F_NEXT, d_next = of_nat i2\<rparr> \<and>
     vd_desc d i2 = \<lparr>d_addr = DStatus i0, d_len = 1, d_flags = VRING_DESC_F_WRITE, d_next = 0\<rparr> \<and>
     info_status d i0 = 0xff \<and> info_b d i0 = Some b \<and> av_ring d (unat (av_idx d - 1) mod NUM) = of_nat i0"

text \<open>The device has done the request that starts at \<open>i\<close>: status 0, and the descriptor in the used ring.\<close>

definition completed :: "nat \<Rightarrow> vdisk \<Rightarrow> vdisk" where
  "completed i d = d\<lparr>info_status := (info_status d)(i := 0), us_ring := (us_ring d)(unat (us_idx d) mod NUM := of_nat i), us_idx := us_idx d + 1\<rparr>"

lemma submit_posted:
  assumes "i0 \<noteq> i1" "i0 \<noteq> i2" "i1 \<noteq> i2"
  shows "posted b blockno write i0 i1 i2 (vdisk (submit b blockno write (i0, i1, i2) s))"
    and "b_disk (submit b blockno write (i0, i1, i2) s) = (b_disk s)(b := True)" and "procs (submit b blockno write (i0, i1, i2) s) = procs s"
    and "vd_free (vdisk (submit b blockno write (i0, i1, i2) s)) = vd_free (vdisk s)" and "av_idx (vdisk (submit b blockno write (i0, i1, i2) s)) = av_idx (vdisk s) + 1"
    and "us_idx (vdisk (submit b blockno write (i0, i1, i2) s)) = us_idx (vdisk s)" and "vd_used_idx (vdisk (submit b blockno write (i0, i1, i2) s)) = vd_used_idx (vdisk s)"
    and "vmmio_writes (submit b blockno write (i0, i1, i2) s) = vmmio_writes s @ [(0x050, 0)]"
    and "submit b blockno write (i0, i1, i2) (acq lk s) = acq lk (submit b blockno write (i0, i1, i2) s)"
  using assms by (simp_all add: submit_def Let_def posted_def unat_mod_distrib)

interpretation submit_upd: machine_upd "submit b n wr idx" for b n wr idx
  by unfold_locales (simp_all add: submit_def Let_def upd_vdisk_def vwrite_def split: prod.splits)

lemma free_desc_eq:
  assumes "cpu_ok s" "noff (mycpu s) \<noteq> 0" "\<forall>q<NPROC. lock_free (ProcLock q) s" "i < NUM" "\<not> vd_free (vdisk s) i"
  shows "\<exists>P. free_desc i s = Ret () ((upd_vdisk (\<lambda>d. d\<lparr>vd_desc := (vd_desc d)(i := \<lparr>d_addr = DNull, d_len = 0, d_flags = 0, d_next = 0\<rparr>), vd_free := (vd_free d)(i := True)\<rparr>) s)\<lparr>procs := P\<rparr>)"
proof -
  let ?s = "upd_vdisk (\<lambda>d. d\<lparr>vd_desc := (vd_desc d)(i := \<lparr>d_addr = DNull, d_len = 0, d_flags = 0, d_next = 0\<rparr>), vd_free := (vd_free d)(i := True)\<rparr>) s"
  have "wakeup ChanDiskFree ?s = Ret () ((settle ?s)\<lparr>procs := (\<lambda>p. if p < NPROC then wakeup_eff ChanDiskFree ?s p (procs ?s p) else procs ?s p)\<rparr>)"
    using assms by (intro wakeup_eq) simp_all
  then show ?thesis using assms by (simp add: free_desc_def) (rule exI, rule refl)
qed

lemma procs_vdisk [simp]: "vdisk (s\<lparr>procs := P\<rparr>) = vdisk s" "b_disk (s\<lparr>procs := P\<rparr>) = b_disk s"
  by simp_all

text \<open>The chain of a request is given back whole.\<close>

lemma free_chain_eq:
  assumes s: "cpu_ok s" "noff (mycpu s) \<noteq> 0" "\<forall>q<NPROC. lock_free (ProcLock q) s"
    and i: "i0 < NUM" "i1 < NUM" "i2 < NUM" "i0 \<noteq> i1" "i0 \<noteq> i2" "i1 \<noteq> i2" and f: "\<not> vd_free (vdisk s) i0" "\<not> vd_free (vdisk s) i1" "\<not> vd_free (vdisk s) i2"
    and d: "d_flags (vd_desc (vdisk s) i0) = 1" "d_next (vd_desc (vdisk s) i0) = of_nat i1" "d_flags (vd_desc (vdisk s) i1) AND 1 \<noteq> 0" "d_next (vd_desc (vdisk s) i1) = of_nat i2"
      "d_flags (vd_desc (vdisk s) i2) = 2"
  shows "\<exists>g P. free_chain i0 s = Ret () ((upd_vdisk g s)\<lparr>procs := P\<rparr>) \<and> vd_free (g (vdisk s)) = (vd_free (vdisk s))(i0 := True, i1 := True, i2 := True) \<and>
     us_idx (g (vdisk s)) = us_idx (vdisk s) \<and> vd_used_idx (g (vdisk s)) = vd_used_idx (vdisk s) \<and> info_b (g (vdisk s)) = info_b (vdisk s)"
proof -
  let ?g = "\<lambda>i d. d\<lparr>vd_desc := (vd_desc d)(i := \<lparr>d_addr = DNull, d_len = 0, d_flags = 0, d_next = 0\<rparr>), vd_free := (vd_free d)(i := True)\<rparr>"
  obtain P0 where P0: "free_desc i0 s = Ret () ((upd_vdisk (?g i0) s)\<lparr>procs := P0\<rparr>)" using free_desc_eq [OF s i(1) f(1)] by blast
  let ?s1 = "(upd_vdisk (?g i0) s)\<lparr>procs := P0\<rparr>"
  obtain P1 where P1: "free_desc i1 ?s1 = Ret () ((upd_vdisk (?g i1) ?s1)\<lparr>procs := P1\<rparr>)" using free_desc_eq [of ?s1 i1] s i f by auto
  let ?s2 = "(upd_vdisk (?g i1) ?s1)\<lparr>procs := P1\<rparr>"
  obtain P2 where P2: "free_desc i2 ?s2 = Ret () ((upd_vdisk (?g i2) ?s2)\<lparr>procs := P2\<rparr>)" using free_desc_eq [of ?s2 i2] s i f by auto
  have u: "unat (of_nat i1 :: u16) = i1" "unat (of_nat i2 :: u16) = i2" using i by (simp_all add: unat_of_nat take_bit_nat_eq_self)
  have "free_chain i0 s = free_chain_loop 8 i1 ?s1" unfolding free_chain_def using P0 d(1,2) u by (simp add: eval_nat_numeral Let_def)
  also have "\<dots> = free_chain_loop 7 i2 ?s2" using P1 d(3,4) u i by (simp add: eval_nat_numeral Let_def)
  also have "\<dots> = Ret () ((upd_vdisk (?g i2) ?s2)\<lparr>procs := P2\<rparr>)" using P2 d(5) i by (simp add: eval_nat_numeral Let_def)
  finally have "free_chain i0 s = Ret () ((upd_vdisk (\<lambda>d. ?g i2 (?g i1 (?g i0 d))) s)\<lparr>procs := P2\<rparr>)" by (simp add: upd_vdisk_def)
  then show ?thesis by (intro exI [of _ "\<lambda>d. ?g i2 (?g i1 (?g i0 d))"] exI [of _ P2]) simp
qed

definition disk_user :: "nat \<Rightarrow> 'z kvirtio_scheme \<Rightarrow> bool" where
  "disk_user p s \<longleftrightarrow> cpu_ok s \<and> noff (mycpu s) = 0 \<and> cpu_proc (mycpu s) = Some p \<and> p < NPROC \<and> lock_free VdiskLock s \<and> (\<forall>q<NPROC. lock_free (ProcLock q) s)"

text \<open>The scheduler has switched to \<open>p\<close> and hands over its lock.\<close>

definition switched_in :: "nat \<Rightarrow> 'z kvirtio_scheme \<Rightarrow> bool" where
  "switched_in p w \<longleftrightarrow> cpu_ok w \<and> noff (mycpu w) = 1 \<and> holding (ProcLock p) w \<and> lock_free VdiskLock w \<and> (\<forall>q<NPROC. q \<noteq> p \<longrightarrow> lock_free (ProcLock q) w)"

definition await :: "nat \<Rightarrow> unit \<Rightarrow> 'z kvirtio_scheme \<Rightarrow> (unit + unit, 'z kvirtio_scheme) outcome" where
  "await b _ s = (if b_disk s b then andthen (sleep (ChanBuf b) VdiskLock s) (\<lambda>_ s. Ret (Inl ()) s) else Ret (Inr ()) s)"

definition finish :: "nat \<Rightarrow> unit \<Rightarrow> 'z kvirtio_scheme \<Rightarrow> (unit, 'z kvirtio_scheme) outcome" where
  "finish i0 _ s = (let s = upd_vdisk (\<lambda>d. d\<lparr>info_b := (info_b d)(i0 := None)\<rparr>) s in andthen (free_chain i0 s) (\<lambda>_ s. release VdiskLock s))"

lemma rw_submits:
  fixes s :: "'z kvirtio_scheme"
  assumes u: "disk_user p s" and f: "free_descs (vdisk s) = i0 # i1 # i2 # is"
  shows "\<exists>t K. virtio_disk_rw b blockno write s = Block t K \<and> posted b blockno write i0 i1 i2 (vdisk t) \<and> vmmio_writes t = vmmio_writes s @ [(0x050, 0)] \<and> b_disk t b \<and>
     p_state (procs t p) = SLEEPING \<and> p_chan (procs t p) = ChanBuf b \<and> lock_free VdiskLock t \<and> vd_free (vdisk t) = (vd_free (vdisk s))(i0 := False, i1 := False, i2 := False) \<and>
     us_idx (vdisk t) = us_idx (vdisk s) \<and> vd_used_idx (vdisk t) = vd_used_idx (vdisk s) \<and> av_idx (vdisk t) = av_idx (vdisk s) + 1 \<and>
     (\<forall>w. switched_in p w \<longrightarrow> (\<exists>x. K w = Block x (\<lambda>x. andthen (loop (await b) () x) (finish i0)) \<and>
        cpu_ok x \<and> noff (mycpu x) = 1 \<and> lock_held VdiskLock x \<and> (\<forall>q<NPROC. lock_free (ProcLock q) x) \<and> vdisk x = vdisk w \<and> b_disk x = b_disk w))"
proof -
  have s: "cpu_ok s" "noff (mycpu s) = 0" "cpu_proc (mycpu s) = Some p" "p < NPROC" "lock_free VdiskLock s" "\<forall>q<NPROC. lock_free (ProcLock q) s" using u by (simp_all add: disk_user_def)
  have i: "i0 \<noteq> i1" "i0 \<noteq> i2" "i1 \<noteq> i2" using free_descs_distinct(1) [of "vdisk s"] f by auto
  let ?a = "upd_vdisk (\<lambda>d. d\<lparr>vd_free := (vd_free d)(i0 := False, i1 := False, i2 := False)\<rparr>) (acq VdiskLock s)"
  define a where "a = submit b blockno write (i0, i1, i2) ?a"
  note sp = submit_posted(1-8) [OF i, of b blockno "write" ?a, folded a_def]
  have ap: "cpu_ok a" "noff (mycpu a) = 1" "cpu_proc (mycpu a) = Some p" "holding VdiskLock a" "lock_free (ProcLock p) a"
    using s unfolding a_def by simp_all
  note sl = sleep_eq [OF ap(1,3,4,2) _ ap(5), of "ChanBuf b"]
  let ?t = "asleep p (ChanBuf b) VdiskLock a"
  define K0 where "K0 = (\<lambda>t :: 'z kvirtio_scheme. andthen (release (ProcLock p) (upd_proc p (\<lambda>q. q\<lparr>p_chan := ChanNull\<rparr>) (upd_mycpu (intena_update (\<lambda>_. intena (mycpu ?t))) t))) (\<lambda>_ s. acquire VdiskLock s))"
  have sb: "sleep (ChanBuf b) VdiskLock a = Block ?t K0" unfolding K0_def using sl by simp
  have "alloc3_desc (acq VdiskLock s) = Ret (Some (i0, i1, i2)) ?a" using f by (intro alloc3_eq) simp
  then have "virtio_disk_rw b blockno write s = andthen (loop (await b) () a) (finish i0)"
    using s by (simp add: virtio_disk_rw_def loop_unfold [of _ _ "acq VdiskLock s"] a_def await_def [abs_def] finish_def [abs_def] Let_def)
  also have "\<dots> = Block ?t (\<lambda>w. andthen (andthen (andthen (K0 w) (\<lambda>_ s. Ret (Inl ()) s)) (\<lambda>r t. case r of Inl y \<Rightarrow> Block t (loop (await b) y) | Inr a \<Rightarrow> Ret a t)) (finish i0))"
    using sp(2) by (subst loop_unfold) (simp add: await_def sb)
  finally have run: "virtio_disk_rw b blockno write s = Block ?t (\<lambda>w. andthen (andthen (andthen (K0 w) (\<lambda>_ s. Ret (Inl ()) s)) (\<lambda>r t. case r of Inl y \<Rightarrow> Block t (loop (await b) y) | Inr a \<Rightarrow> Ret a t)) (finish i0))" .
  have res: "\<exists>x. K0 w = Ret () x \<and> cpu_ok x \<and> noff (mycpu x) = 1 \<and> lock_held VdiskLock x \<and> (\<forall>q<NPROC. lock_free (ProcLock q) x) \<and> vdisk x = vdisk w \<and> b_disk x = b_disk w" if "switched_in p w" for w :: "'z kvirtio_scheme"
  proof -
    let ?w = "upd_proc p (\<lambda>q. q\<lparr>p_chan := ChanNull\<rparr>) (upd_mycpu (intena_update (\<lambda>_. intena (mycpu ?t))) w)"
    have w: "cpu_ok w" "noff (mycpu w) = 1" "holding (ProcLock p) w" "lock_free VdiskLock w" "\<forall>q<NPROC. q \<noteq> p \<longrightarrow> lock_free (ProcLock q) w" using that by (simp_all add: switched_in_def)
    let ?x = "acq VdiskLock (rel (ProcLock p) ?w)"
    have r: "cpu_ok (rel (ProcLock p) ?w)" using w by (intro cpu_ok_rel) simp_all
    have "K0 w = Ret () ?x" unfolding K0_def using w by (simp add: lock_held_cpu_ok)
    moreover have "\<forall>q<NPROC. lock_free (ProcLock q) ?x"
    proof (intro allI impI)
      fix q assume "q < NPROC"
      then show "lock_free (ProcLock q) ?x" using w by (cases "q = p") simp_all
    qed
    ultimately show ?thesis using w r by (intro exI [of _ ?x]) (simp add: upd_proc_def)
  qed
  let ?K = "\<lambda>w. andthen (andthen (andthen (K0 w) (\<lambda>_ s. Ret (Inl ()) s)) (\<lambda>r t. case r of Inl y \<Rightarrow> Block t (loop (await b) y) | Inr a \<Rightarrow> Ret a t)) (finish i0)"
  have res': "\<exists>x. ?K w = Block x (\<lambda>x. andthen (loop (await b) () x) (finish i0)) \<and> cpu_ok x \<and> noff (mycpu x) = 1 \<and> lock_held VdiskLock x \<and>
      (\<forall>q<NPROC. lock_free (ProcLock q) x) \<and> vdisk x = vdisk w \<and> b_disk x = b_disk w" if "switched_in p w" for w :: "'z kvirtio_scheme"
    using res [OF that] by fastforce
  have t: "vdisk ?t = vdisk a" "b_disk ?t = b_disk a" "vmmio_writes ?t = vmmio_writes a" "lock_free VdiskLock ?t" "p_state (procs ?t p) = SLEEPING" "p_chan (procs ?t p) = ChanBuf b"
    by (simp_all add: asleep_def upd_proc_def)
  show ?thesis
    by (intro exI [of _ ?t] exI [of _ ?K] conjI run) (use sp t res' in \<open>simp_all\<close>)
qed

lemma intr_one:
  assumes u: "cpu_ok u" "lock_free VdiskLock u" "\<forall>q<NPROC. lock_free (ProcLock q) u" "cpu_proc (mycpu u) \<noteq> Some p" "p < NPROC"
    and d: "vdisk u = completed i0 d" "i0 < NUM" "info_b d i0 = Some b" "vd_used_idx d = us_idx d" and p: "p_state (procs u p) = SLEEPING" "p_chan (procs u p) = ChanBuf b"
  shows "returns (virtio_disk_intr u) (\<lambda>_ v. \<not> b_disk v b \<and> p_state (procs v p) = RUNNABLE \<and> vdisk v = (completed i0 d)\<lparr>vd_used_idx := us_idx d + 1\<rparr> \<and> lock_free VdiskLock v \<and>
     (\<forall>c. c \<noteq> b \<longrightarrow> b_disk v c = b_disk u c))"
proof -
  let ?a = "(vwrite 0x064 (vmmio_read u 0x060 AND 3) (acq VdiskLock u))\<lparr>b_disk := (b_disk u)(b := False)\<rparr>"
  obtain P where w: "wakeup (ChanBuf b) ?a = Ret () (?a\<lparr>procs := P\<rparr>)" and P: "p_state (P p) = RUNNABLE"
  proof -
    have "cpu_ok ?a" "\<forall>q<NPROC. lock_free (ProcLock q) ?a" "settle ?a = ?a" using u by (simp_all add: cpu_ok_def)
    then show ?thesis using wakeup_eq [of ?a "ChanBuf b"] p u(4,5) that by (simp add: wakeup_eff_def)
  qed
  have un: "unat (of_nat i0 :: u32) = i0" using d(2) by (simp add: unat_of_nat take_bit_nat_eq_self)
  have L: "disk_intr_loop (Suc (Suc n)) (vwrite 0x064 (vmmio_read u 0x060 AND 3) (acq VdiskLock u)) = Ret () (upd_vdisk (\<lambda>d. d\<lparr>vd_used_idx := vd_used_idx d + 1\<rparr>) (?a\<lparr>procs := P\<rparr>))" for n
    using d(1,3,4) un w by (simp add: Let_def completed_def unat_mod_distrib)
  have nn: "(65536 :: nat) = Suc (Suc 65534)" by simp
  have "disk_intr_loop 65536 (vwrite 0x064 (vmmio_read u 0x060 AND 3) (acq VdiskLock u)) = Ret () (upd_vdisk (\<lambda>d. d\<lparr>vd_used_idx := vd_used_idx d + 1\<rparr>) (?a\<lparr>procs := P\<rparr>))" by (subst nn) (rule L)
  then have "virtio_disk_intr u = Ret () (rel VdiskLock (upd_vdisk (\<lambda>d. d\<lparr>vd_used_idx := vd_used_idx d + 1\<rparr>) (?a\<lparr>procs := P\<rparr>)))"
    using u by (simp add: virtio_disk_intr_def)
  then show ?thesis using d(1,4) P by (simp add: completed_def)
qed

lemma finish_eq:
  assumes x: "cpu_ok x" "noff (mycpu x) = 1" "lock_held VdiskLock x" "\<forall>q<NPROC. lock_free (ProcLock q) x" "\<not> b_disk x b"
    and i: "i0 < NUM" "i1 < NUM" "i2 < NUM" "i0 \<noteq> i1" "i0 \<noteq> i2" "i1 \<noteq> i2" and f: "\<not> vd_free (vdisk x) i0" "\<not> vd_free (vdisk x) i1" "\<not> vd_free (vdisk x) i2"
    and d: "vd_desc (vdisk x) i0 = \<lparr>d_addr = DOps i0, d_len = 16, d_flags = VRING_DESC_F_NEXT, d_next = of_nat i1\<rparr>"
      "vd_desc (vdisk x) i1 = \<lparr>d_addr = DBufData b, d_len = 1024, d_flags = (if wr then 0 else VRING_DESC_F_WRITE) OR VRING_DESC_F_NEXT, d_next = of_nat i2\<rparr>"
      "vd_desc (vdisk x) i2 = \<lparr>d_addr = DStatus i0, d_len = 1, d_flags = VRING_DESC_F_WRITE, d_next = 0\<rparr>"
  shows "returns (andthen (loop (await b) () x) (finish i0)) (\<lambda>_ y. vd_free (vdisk y) = (vd_free (vdisk x))(i0 := True, i1 := True, i2 := True) \<and> info_b (vdisk y) i0 = None \<and> lock_free VdiskLock y)"
proof -
  let ?x = "upd_vdisk (\<lambda>d. d\<lparr>info_b := (info_b d)(i0 := None)\<rparr>) x"
  obtain g P where g: "free_chain i0 ?x = Ret () ((upd_vdisk g ?x)\<lparr>procs := P\<rparr>)" "vd_free (g (vdisk ?x)) = (vd_free (vdisk ?x))(i0 := True, i1 := True, i2 := True)"
    "info_b (g (vdisk ?x)) = info_b (vdisk ?x)"
    using free_chain_eq [of ?x i0 i1 i2] x i f d by (auto split: if_splits)
  then show ?thesis using x by (simp add: loop_unfold await_def finish_def)
qed

subsection \<open>Properties\<close>

text \<open>Property C9: a disk request goes through. With three free descriptors \<open>virtio_disk_rw\<close> posts a chain that asks for the block of the buffer in the right direction, notifies the device,
  and sleeps on the buffer without holding the lock. When the device has answered as its specification says, the interrupt handler makes the sleeper runnable; resumed, it returns, and all
  descriptors are free again.\<close>

theorem disk_request_completes:
  fixes s :: "'z kvirtio_scheme"
  assumes "disk_user p s" and "3 \<le> length (free_descs (vdisk s))" and "vd_used_idx (vdisk s) = us_idx (vdisk s)"
  shows "\<exists>i0 i1 i2 t K. virtio_disk_rw b blockno write s = Block t K \<and> posted b blockno write i0 i1 i2 (vdisk t) \<and> vmmio_writes t = vmmio_writes s @ [(0x050, 0)] \<and>
     av_idx (vdisk t) = av_idx (vdisk s) + 1 \<and> lock_free VdiskLock t \<and> p_state (procs t p) = SLEEPING \<and>
     (\<forall>u :: 'z kvirtio_scheme. cpu_ok u \<and> lock_free VdiskLock u \<and> (\<forall>q<NPROC. lock_free (ProcLock q) u) \<and> cpu_proc (mycpu u) \<noteq> Some p \<and> procs u p = procs t p \<and> vdisk u = completed i0 (vdisk t) \<longrightarrow>
        returns (virtio_disk_intr u) (\<lambda>_ v. p_state (procs v p) = RUNNABLE \<and>
          (\<forall>w. switched_in p w \<and> vdisk w = vdisk v \<and> b_disk w = b_disk v \<longrightarrow>
             (\<exists>x k. K w = Block x k \<and> returns (k x) (\<lambda>_ y. vd_free (vdisk y) = vd_free (vdisk s) \<and> info_b (vdisk y) i0 = None \<and> lock_free VdiskLock y)))))"
proof -
  obtain i0 i1 i2 "is" where f: "free_descs (vdisk s) = i0 # i1 # i2 # is"
    using assms(2) by (metis (no_types, opaque_lifting) One_nat_def Suc_le_length_iff numeral_3_eq_3)
  have i: "i0 < NUM" "i1 < NUM" "i2 < NUM" "i0 \<noteq> i1" "i0 \<noteq> i2" "i1 \<noteq> i2" and fr: "vd_free (vdisk s) i0" "vd_free (vdisk s) i1" "vd_free (vdisk s) i2"
    using free_descs_distinct(1) [of "vdisk s"] free_descs_distinct(2) [of _ "vdisk s"] f by auto
  obtain t K where t: "virtio_disk_rw b blockno write s = Block t K" "posted b blockno write i0 i1 i2 (vdisk t)" "vmmio_writes t = vmmio_writes s @ [(0x050, 0)]" "b_disk t b"
     "p_state (procs t p) = SLEEPING" "p_chan (procs t p) = ChanBuf b" "lock_free VdiskLock t" "vd_free (vdisk t) = (vd_free (vdisk s))(i0 := False, i1 := False, i2 := False)"
     "us_idx (vdisk t) = us_idx (vdisk s)" "vd_used_idx (vdisk t) = vd_used_idx (vdisk s)" "av_idx (vdisk t) = av_idx (vdisk s) + 1"
     "\<forall>w. switched_in p w \<longrightarrow> (\<exists>x. K w = Block x (\<lambda>x. andthen (loop (await b) () x) (finish i0)) \<and>
        cpu_ok x \<and> noff (mycpu x) = 1 \<and> lock_held VdiskLock x \<and> (\<forall>q<NPROC. lock_free (ProcLock q) x) \<and> vdisk x = vdisk w \<and> b_disk x = b_disk w)"
    using rw_submits [OF assms(1) f, of b blockno "write"] by blast
  have p: "p < NPROC" using assms(1) by (simp add: disk_user_def)
  have ib: "info_b (vdisk t) i0 = Some b" using t(2) by (simp add: posted_def)
  have fin: "\<exists>x k. K w = Block x k \<and> returns (k x) (\<lambda>_ y. vd_free (vdisk y) = vd_free (vdisk s) \<and> info_b (vdisk y) i0 = None \<and> lock_free VdiskLock y)"
    if w: "switched_in p w" "vdisk w = (completed i0 (vdisk t))\<lparr>vd_used_idx := us_idx (vdisk t) + 1\<rparr>" "\<not> b_disk w b" for w :: "'z kvirtio_scheme"
  proof -
    obtain x where x: "K w = Block x (\<lambda>x. andthen (loop (await b) () x) (finish i0))" "cpu_ok x" "noff (mycpu x) = 1" "lock_held VdiskLock x"
      "\<forall>q<NPROC. lock_free (ProcLock q) x" "vdisk x = vdisk w" "b_disk x = b_disk w" using t(12) w(1) by blast
    have "(vd_free (vdisk x))(i0 := True, i1 := True, i2 := True) = vd_free (vdisk s)" using t(8) fr by (auto simp: x(6) w(2) completed_def fun_eq_iff)
    moreover have "returns (andthen (loop (await b) () x) (finish i0)) (\<lambda>_ y. vd_free (vdisk y) = (vd_free (vdisk x))(i0 := True, i1 := True, i2 := True) \<and> info_b (vdisk y) i0 = None \<and> lock_free VdiskLock y)"
      using t(2,8) w(3) x i by (intro finish_eq [where wr = "write"]) (simp_all add: w(2) completed_def posted_def)
    ultimately show ?thesis using x(1) by auto
  qed
  have I: "returns (virtio_disk_intr u) (\<lambda>_ v. p_state (procs v p) = RUNNABLE \<and> (\<forall>w. switched_in p w \<and> vdisk w = vdisk v \<and> b_disk w = b_disk v \<longrightarrow>
      (\<exists>x k. K w = Block x k \<and> returns (k x) (\<lambda>_ y. vd_free (vdisk y) = vd_free (vdisk s) \<and> info_b (vdisk y) i0 = None \<and> lock_free VdiskLock y))))"
    if u: "cpu_ok u" "lock_free VdiskLock u" "\<forall>q<NPROC. lock_free (ProcLock q) u" "cpu_proc (mycpu u) \<noteq> Some p" "procs u p = procs t p" "vdisk u = completed i0 (vdisk t)" for u :: "'z kvirtio_scheme"
    by (rule returns_mono [OF intr_one [OF u(1-4) p u(6) i(1) ib]]) (use t(5,6,9,10) u(5) assms(3) fin in auto)
  show ?thesis
    by (rule exI [of _ i0], rule exI [of _ i1], rule exI [of _ i2], rule exI [of _ t], rule exI [of _ K])
      ((rule conjI, rule t)+, intro allI impI, elim conjE, rule I; assumption)
qed

text \<open>Another processor takes the interrupt while process 1 sleeps, and the scheduler switches back to process 1.\<close>

definition woken_by :: "(nat \<Rightarrow> proc) \<Rightarrow> vdisk \<Rightarrow> kvirtio" where
  "woken_by ps d = (set_cpu_proc None kvirtio0)\<lparr>procs := ps, vdisk := d\<rparr>"

definition resumed :: "vdisk \<Rightarrow> (nat \<Rightarrow> bool) \<Rightarrow> kvirtio" where
  "resumed d bd = (acq (ProcLock 1) kvirtio0)\<lparr>vdisk := d, b_disk := bd\<rparr>"

lemma woken_by_simps [simp]:
  "cpu_ok (woken_by ps d)" "lock_free lk (woken_by ps d)" "cpu_proc (mycpu (woken_by ps d)) = None" "procs (woken_by ps d) = ps" "vdisk (woken_by ps d) = d"
  by (simp_all add: woken_by_def kvirtio0_defs lock_free_def cpu_ok_def)

lemma resumed_simps [simp]: "switched_in 1 (resumed d bd)" "vdisk (resumed d bd) = d" "b_disk (resumed d bd) = bd"
  by (simp_all add: resumed_def acq_def switched_in_def kvirtio0_defs lock_free_def cpu_ok_def)

theorem disk_request_completes_witness:
  "\<exists>i0 i1 i2 t K v x k. virtio_disk_rw 3 40 True kvirtio0 = Block t K \<and> posted 3 40 True i0 i1 i2 (vdisk t) \<and> p_state (procs t 1) = SLEEPING \<and>
     virtio_disk_intr (woken_by (procs t) (completed i0 (vdisk t))) = Ret () v \<and> p_state (procs v 1) = RUNNABLE \<and>
     K (resumed (vdisk v) (b_disk v)) = Block x k \<and> returns (k x) (\<lambda>_ y. vd_free (vdisk y) = (\<lambda>_. True))"
proof -
  have f: "vd_free (vdisk kvirtio0) = (\<lambda>_. True)" by (simp add: kvirtio0_defs)
  have "disk_user 1 kvirtio0" by (simp add: disk_user_def)
  moreover have "3 \<le> length (free_descs (vdisk kvirtio0))" "vd_used_idx (vdisk kvirtio0) = us_idx (vdisk kvirtio0)" by (simp_all add: free_descs_def kvirtio0_defs)
  ultimately obtain i0 i1 i2 t K where t: "virtio_disk_rw 3 40 True kvirtio0 = Block t K" "posted 3 40 True i0 i1 i2 (vdisk t)" "p_state (procs t 1) = SLEEPING"
    and u: "\<forall>u :: kvirtio. cpu_ok u \<and> lock_free VdiskLock u \<and> (\<forall>q<NPROC. lock_free (ProcLock q) u) \<and> cpu_proc (mycpu u) \<noteq> Some 1 \<and> procs u 1 = procs t 1 \<and> vdisk u = completed i0 (vdisk t) \<longrightarrow>
        returns (virtio_disk_intr u) (\<lambda>_ v. p_state (procs v 1) = RUNNABLE \<and> (\<forall>w. switched_in 1 w \<and> vdisk w = vdisk v \<and> b_disk w = b_disk v \<longrightarrow>
             (\<exists>x k. K w = Block x k \<and> returns (k x) (\<lambda>_ y. vd_free (vdisk y) = vd_free (vdisk kvirtio0) \<and> info_b (vdisk y) i0 = None \<and> lock_free VdiskLock y))))"
    using disk_request_completes [of 1 kvirtio0 3 40 True] by blast
  obtain v where v: "virtio_disk_intr (woken_by (procs t) (completed i0 (vdisk t))) = Ret () v" "p_state (procs v 1) = RUNNABLE" "\<forall>w. switched_in 1 w \<and> vdisk w = vdisk v \<and> b_disk w = b_disk v \<longrightarrow>
             (\<exists>x k. K w = Block x k \<and> returns (k x) (\<lambda>_ y. vd_free (vdisk y) = vd_free (vdisk kvirtio0) \<and> info_b (vdisk y) i0 = None \<and> lock_free VdiskLock y))"
    using u [rule_format, of "woken_by (procs t) (completed i0 (vdisk t))"] by (auto simp: returns_iff)
  obtain x k where x: "K (resumed (vdisk v) (b_disk v)) = Block x k"
     "returns (k x) (\<lambda>_ y. vd_free (vdisk y) = vd_free (vdisk kvirtio0) \<and> info_b (vdisk y) i0 = None \<and> lock_free VdiskLock y)"
    using v(3) [rule_format, of "resumed (vdisk v) (b_disk v)"] resumed_simps by (auto simp del: One_nat_def)
  have "returns (k x) (\<lambda>_ y. vd_free (vdisk y) = (\<lambda>_. True))" using x(2) f by (auto elim!: returns_mono)
  with t v(1,2) x(1) show ?thesis by blast
qed

end
