(* ===== verification/Bio.thy ===== *)
theory Bio
  imports Virtio
begin

text \<open>
  \<open>kernel/sleeplock.c\<close> and \<open>kernel/bio.c\<close>: sleep locks and the buffer cache. A sleep lock is identified
  by the spinlock inside it. The cache is the array \<open>bcache.buf[NBUF]\<close> linked into a ring through
  \<open>prev\<close> and \<open>next\<close>, with index \<open>NBUF\<close> for \<open>bcache.head\<close>. The disk is \<open>platter\<close>, block by block; \<open>disk_rw\<close>
  is the contract of the disk driver, one whole-block transfer, and \<open>disk_writes\<close> records the writes
  in the order they reach the disk, for reasoning about crashes.
\<close>

record sleeplock =
  sl_locked :: u32
  sl_name :: string
  sl_pid :: u32

record buf =
  b_valid :: bool
  b_dev :: u32
  b_blockno :: u32
  b_refcnt :: u32
  b_prev :: nat
  b_next :: nat
  b_data :: "u8 list"

record kbio = kvirtio +
  sleeplocks :: "lockid \<Rightarrow> sleeplock"
  bufs :: "nat \<Rightarrow> buf"
  platter :: "u32 \<Rightarrow> u8 list"
  disk_writes :: "(u32 \<times> u8 list) list"

abbreviation (input) NBUF :: nat where "NBUF \<equiv> 30"
abbreviation (input) BSIZE :: nat where "BSIZE \<equiv> 1024"
abbreviation (input) bhead :: nat where "bhead \<equiv> 30"

definition upd_buf :: "nat \<Rightarrow> (buf \<Rightarrow> buf) \<Rightarrow> 'z kbio_scheme \<Rightarrow> 'z kbio_scheme" where
  "upd_buf b f s = s\<lparr>bufs := (bufs s)(b := f (bufs s b))\<rparr>"

subsection \<open>sleeplock.c\<close>

text \<open>The channel of a sleep lock is the address of the lock.\<close>

fun sl_chan :: "lockid \<Rightarrow> chan" where
  "sl_chan (BufLk b) = ChanBufLock b"
| "sl_chan (InodeLk i) = ChanInodeLock i"
| "sl_chan _ = ChanNull"

definition initsleeplock :: "lockid \<Rightarrow> string \<Rightarrow> 'z kbio_scheme \<Rightarrow> 'z kbio_scheme" where
  "initsleeplock lk nm s =
     (let s = initlock lk ''sleep lock'' s
      in s\<lparr>sleeplocks := (sleeplocks s)(lk := \<lparr>sl_locked = 0, sl_name = nm, sl_pid = 0\<rparr>)\<rparr>)"

definition acquiresleep :: "lockid \<Rightarrow> 'z kbio_scheme \<Rightarrow> (unit, 'z kbio_scheme) outcome" where
  "acquiresleep lk s =
     andthen (acquire lk s) (\<lambda>_ s.
     andthen (loop (\<lambda>_ s. if sl_locked (sleeplocks s lk) \<noteq> 0
                           then andthen (sleep (sl_chan lk) lk s) (\<lambda>_ s. Ret (Inl ()) s)
                           else Ret (Inr ()) s) () s) (\<lambda>_ s.
     let s = s\<lparr>sleeplocks := (sleeplocks s)(lk := (sleeplocks s lk)\<lparr>sl_locked := 1\<rparr>)\<rparr> in
     andthen (myproc s) (\<lambda>p s. deref p (\<lambda>p.
     let s = s\<lparr>sleeplocks := (sleeplocks s)(lk := (sleeplocks s lk)\<lparr>sl_pid := p_pid (procs s p)\<rparr>)\<rparr>
     in release lk s))))"

definition releasesleep :: "lockid \<Rightarrow> 'z kbio_scheme \<Rightarrow> (unit, 'z kbio_scheme) outcome" where
  "releasesleep lk s =
     andthen (acquire lk s) (\<lambda>_ s.
     let s = s\<lparr>sleeplocks := (sleeplocks s)(lk := (sleeplocks s lk)\<lparr>sl_locked := 0, sl_pid := 0\<rparr>)\<rparr> in
     andthen (wakeup (sl_chan lk) s) (\<lambda>_ s. release lk s))"

definition holdingsleep :: "lockid \<Rightarrow> 'z kbio_scheme \<Rightarrow> (bool, 'z kbio_scheme) outcome" where
  "holdingsleep lk s =
     andthen (acquire lk s) (\<lambda>_ s.
     andthen (if sl_locked (sleeplocks s lk) \<noteq> 0
              then andthen (myproc s) (\<lambda>p s. deref p (\<lambda>p. Ret (sl_pid (sleeplocks s lk) = p_pid (procs s p)) s))
              else Ret False s) (\<lambda>r s.
     andthen (release lk s) (\<lambda>_ s. Ret r s)))"

subsection \<open>The disk\<close>

text \<open>The contract of \<open>virtio_disk_rw(b, write)\<close>: when it returns, the block \<open>b->blockno\<close> of the disk has
  been copied from \<open>b->data\<close>, or to it. (The driver does not look at \<open>b->dev\<close>.)\<close>

definition disk_rw :: "nat \<Rightarrow> bool \<Rightarrow> 'z kbio_scheme \<Rightarrow> (unit, 'z kbio_scheme) outcome" where
  "disk_rw b write s =
     (let n = b_blockno (bufs s b) in
      if write then
        Ret () (s\<lparr>platter := (platter s)(n := b_data (bufs s b)), disk_writes := disk_writes s @ [(n, b_data (bufs s b))]\<rparr>)
      else Ret () (upd_buf b (\<lambda>x. x\<lparr>b_data := platter s n\<rparr>) s))"

subsection \<open>bio.c\<close>

definition binit :: "'z kbio_scheme \<Rightarrow> (unit, 'z kbio_scheme) outcome" where
  "binit s =
     (let s = initlock BcacheLock ''bcache'' s;
          s = upd_buf bhead (\<lambda>h. h\<lparr>b_prev := bhead, b_next := bhead\<rparr>) s
      in for_each (\<lambda>b s.
           let s = upd_buf b (\<lambda>x. x\<lparr>b_next := b_next (bufs s bhead), b_prev := bhead\<rparr>) s;
               s = initsleeplock (BufLk b) ''buffer'' s;
               s = upd_buf (b_next (bufs s bhead)) (\<lambda>x. x\<lparr>b_prev := b\<rparr>) s
           in Ret () (upd_buf bhead (\<lambda>h. h\<lparr>b_next := b\<rparr>) s)) [0..<NBUF] s)"

text \<open>The two loops of \<open>bget\<close>, from \<open>b\<close> along \<open>next\<close> and along \<open>prev\<close> until the head. A ring of 30 buffers
  is passed in 30 steps, so the 31 of \<open>fuel\<close> are never exhausted.\<close>

primrec find_cached :: "nat \<Rightarrow> nat \<Rightarrow> u32 \<Rightarrow> u32 \<Rightarrow> (nat \<Rightarrow> buf) \<Rightarrow> nat option" where
  "find_cached 0 b dev blockno B = None"
| "find_cached (Suc fuel) b dev blockno B =
     (if b = bhead then None
      else if b_dev (B b) = dev \<and> b_blockno (B b) = blockno then Some b
      else find_cached fuel (b_next (B b)) dev blockno B)"

primrec find_free :: "nat \<Rightarrow> nat \<Rightarrow> (nat \<Rightarrow> buf) \<Rightarrow> nat option" where
  "find_free 0 b B = None"
| "find_free (Suc fuel) b B =
     (if b = bhead then None
      else if b_refcnt (B b) = 0 then Some b
      else find_free fuel (b_prev (B b)) B)"

definition bget :: "u32 \<Rightarrow> u32 \<Rightarrow> 'z kbio_scheme \<Rightarrow> (nat, 'z kbio_scheme) outcome" where
  "bget dev blockno s =
     andthen (acquire BcacheLock s) (\<lambda>_ s.
       case find_cached 31 (b_next (bufs s bhead)) dev blockno (bufs s) of
         Some b \<Rightarrow>
           (let s = upd_buf b (b_refcnt_update (\<lambda>n. n + 1)) s in
            andthen (release BcacheLock s) (\<lambda>_ s. andthen (acquiresleep (BufLk b) s) (\<lambda>_ s. Ret b s)))
       | None \<Rightarrow>
           (case find_free 31 (b_prev (bufs s bhead)) (bufs s) of
              Some b \<Rightarrow>
                (let s = upd_buf b (\<lambda>x. x\<lparr>b_dev := dev, b_blockno := blockno, b_valid := False, b_refcnt := 1\<rparr>) s in
                 andthen (release BcacheLock s) (\<lambda>_ s. andthen (acquiresleep (BufLk b) s) (\<lambda>_ s. Ret b s)))
            | None \<Rightarrow> Panic ''bget: no buffers''))"

definition bread :: "u32 \<Rightarrow> u32 \<Rightarrow> 'z kbio_scheme \<Rightarrow> (nat, 'z kbio_scheme) outcome" where
  "bread dev blockno s =
     andthen (bget dev blockno s) (\<lambda>b s.
       if \<not> b_valid (bufs s b)
       then andthen (disk_rw b False s) (\<lambda>_ s. Ret b (upd_buf b (\<lambda>x. x\<lparr>b_valid := True\<rparr>) s))
       else Ret b s)"

definition bwrite :: "nat \<Rightarrow> 'z kbio_scheme \<Rightarrow> (unit, 'z kbio_scheme) outcome" where
  "bwrite b s =
     andthen (holdingsleep (BufLk b) s) (\<lambda>h s. if \<not> h then Panic ''bwrite'' else disk_rw b True s)"

text \<open>\<open>brelse\<close> unlinks a buffer nobody uses any more and links it in behind the head.\<close>

definition relink :: "nat \<Rightarrow> 'z kbio_scheme \<Rightarrow> 'z kbio_scheme" where
  "relink b s =
     (let s = upd_buf (b_next (bufs s b)) (\<lambda>x. x\<lparr>b_prev := b_prev (bufs s b)\<rparr>) s;
          s = upd_buf (b_prev (bufs s b)) (\<lambda>x. x\<lparr>b_next := b_next (bufs s b)\<rparr>) s;
          s = upd_buf b (\<lambda>x. x\<lparr>b_next := b_next (bufs s bhead), b_prev := bhead\<rparr>) s;
          s = upd_buf (b_next (bufs s bhead)) (\<lambda>x. x\<lparr>b_prev := b\<rparr>) s
      in upd_buf bhead (\<lambda>x. x\<lparr>b_next := b\<rparr>) s)"

definition brelse :: "nat \<Rightarrow> 'z kbio_scheme \<Rightarrow> (unit, 'z kbio_scheme) outcome" where
  "brelse b s =
     andthen (holdingsleep (BufLk b) s) (\<lambda>h s.
       if \<not> h then Panic ''brelse''
       else
         andthen (releasesleep (BufLk b) s) (\<lambda>_ s.
         andthen (acquire BcacheLock s) (\<lambda>_ s.
         let s = upd_buf b (b_refcnt_update (\<lambda>n. n - 1)) s
         in release BcacheLock (if b_refcnt (bufs s b) = 0 then relink b s else s))))"

definition bpin :: "nat \<Rightarrow> 'z kbio_scheme \<Rightarrow> (unit, 'z kbio_scheme) outcome" where
  "bpin b s =
     andthen (acquire BcacheLock s) (\<lambda>_ s. release BcacheLock (upd_buf b (b_refcnt_update (\<lambda>n. n + 1)) s))"

definition bunpin :: "nat \<Rightarrow> 'z kbio_scheme \<Rightarrow> (unit, 'z kbio_scheme) outcome" where
  "bunpin b s =
     andthen (acquire BcacheLock s) (\<lambda>_ s. release BcacheLock (upd_buf b (b_refcnt_update (\<lambda>n. n - 1)) s))"

text \<open>The buffer cache as \<open>binit\<close> leaves it.\<close>

definition buf0 :: "nat \<Rightarrow> buf" where
  "buf0 b = \<lparr>b_valid = False, b_dev = 0, b_blockno = 0, b_refcnt = 0, b_prev = (if b = bhead then 0 else b + 1),
     b_next = (if b = 0 then bhead else b - 1), b_data = replicate BSIZE 0\<rparr>"

definition kbio0 :: kbio where
  "kbio0 = kvirtio.extend kvirtio0 (kbio.fields (\<lambda>_. \<lparr>sl_locked = 0, sl_name = '''', sl_pid = 0\<rparr>) buf0 (\<lambda>_. replicate BSIZE 0) [])"

lemmas kbio0_defs = kbio0_def kbio.defs kvirtio0_defs

lemma kbio0_ok [simp]:
  "cpu_ok kbio0" "lock_free lk kbio0" "noff (mycpu kbio0) = 0" "cpu_proc (mycpu kbio0) = Some 1"
  "procs kbio0 = demo_table" "ticks kbio0 = 100" "bufs kbio0 = buf0" "platter kbio0 = (\<lambda>_. replicate BSIZE 0)" "disk_writes kbio0 = []"
  "sl_locked (sleeplocks kbio0 lk) = 0"
  by (simp_all add: kbio0_defs lock_free_def cpu_ok_def)

end
