(* ===== verification/Log.thy ===== *)
theory Log
  imports Bio
begin

text \<open>
  \<open>kernel/log.c\<close>: the redo log. The header block on disk holds \<open>n\<close> and the home block numbers; the
  block \<open>log.start + 1 + i\<close> holds the new contents of home block \<open>i\<close>.
\<close>

record superblock =
  sb_magic :: u32
  sb_size :: u32
  sb_nblocks :: u32
  sb_ninodes :: u32
  sb_nlog :: u32
  sb_logstart :: u32
  sb_inodestart :: u32
  sb_bmapstart :: u32

record klog = kbio +
  log_start :: int
  log_size :: int
  log_outstanding :: int
  log_committing :: bool
  log_dev :: u32
  lh_n :: int
  lh_block :: "nat \<Rightarrow> u32"

abbreviation (input) MAXOPBLOCKS :: int where "MAXOPBLOCKS \<equiv> 10"
abbreviation (input) LOGSIZE :: int where "LOGSIZE \<equiv> 30"

subsection \<open>Words in a block\<close>

definition get32 :: "u8 list \<Rightarrow> nat \<Rightarrow> u32" where
  "get32 bs off = ucast (bs ! off) OR push_bit 8 (ucast (bs ! (off + 1))) OR push_bit 16 (ucast (bs ! (off + 2)))
     OR push_bit 24 (ucast (bs ! (off + 3)))"

definition put32 :: "nat \<Rightarrow> u32 \<Rightarrow> u8 list \<Rightarrow> u8 list" where
  "put32 off v bs = bs[off := ucast v, off + 1 := ucast (drop_bit 8 v), off + 2 := ucast (drop_bit 16 v),
     off + 3 := ucast (drop_bit 24 v)]"

subsection \<open>log.c\<close>

text \<open>Copying one committed block from the log to its home, and the loop over all of them.\<close>

definition install_one :: "bool \<Rightarrow> nat \<Rightarrow> 'z klog_scheme \<Rightarrow> (unit, 'z klog_scheme) outcome" where
  "install_one recovering tail s =
     andthen (bread (log_dev s) (of_int (log_start s + int tail + 1)) s) (\<lambda>lbuf s.
     andthen (bread (log_dev s) (lh_block s tail) s) (\<lambda>dbuf s.
     let s = upd_buf dbuf (\<lambda>x. x\<lparr>b_data := b_data (bufs s lbuf)\<rparr>) s in
     andthen (bwrite dbuf s) (\<lambda>_ s.
     andthen (if \<not> recovering then bunpin dbuf s else Ret () s) (\<lambda>_ s.
     andthen (brelse lbuf s) (\<lambda>_ s. brelse dbuf s)))))"

definition install_trans :: "bool \<Rightarrow> 'z klog_scheme \<Rightarrow> (unit, 'z klog_scheme) outcome" where
  "install_trans recovering s = for_each (install_one recovering) [0..<nat (lh_n s)] s"

definition read_head :: "'z klog_scheme \<Rightarrow> (unit, 'z klog_scheme) outcome" where
  "read_head s =
     andthen (bread (log_dev s) (of_int (log_start s)) s) (\<lambda>b s.
       let d = b_data (bufs s b); n = sint (get32 d 0);
           s = s\<lparr>lh_n := n, lh_block := (\<lambda>i. if i < nat n then get32 d (4 + 4 * i) else lh_block s i)\<rparr>
       in brelse b s)"

primrec put_blocks :: "nat \<Rightarrow> (nat \<Rightarrow> u32) \<Rightarrow> u8 list \<Rightarrow> u8 list" where
  "put_blocks 0 B d = d"
| "put_blocks (Suc i) B d = put32 (4 + 4 * i) (B i) (put_blocks i B d)"

definition write_head :: "'z klog_scheme \<Rightarrow> (unit, 'z klog_scheme) outcome" where
  "write_head s =
     andthen (bread (log_dev s) (of_int (log_start s)) s) (\<lambda>b s.
       let s = upd_buf b (\<lambda>x. x\<lparr>b_data := put_blocks (nat (lh_n s)) (lh_block s) (put32 0 (of_int (lh_n s)) (b_data x))\<rparr>) s
       in andthen (bwrite b s) (\<lambda>_ s. brelse b s))"

definition recover_from_log :: "'z klog_scheme \<Rightarrow> (unit, 'z klog_scheme) outcome" where
  "recover_from_log s =
     andthen (read_head s) (\<lambda>_ s.
     andthen (install_trans True s) (\<lambda>_ s.
     write_head (s\<lparr>lh_n := 0\<rparr>)))"

text \<open>\<open>sizeof(struct logheader)\<close> is 124, so the test against \<open>BSIZE\<close> never fails.\<close>

definition initlog :: "u32 \<Rightarrow> superblock \<Rightarrow> 'z klog_scheme \<Rightarrow> (unit, 'z klog_scheme) outcome" where
  "initlog dev sb s =
     (if 4 + 4 * LOGSIZE \<ge> int BSIZE then Panic ''initlog: too big logheader''
      else
        (let s = initlock LogLock ''log'' s;
             s = s\<lparr>log_start := sint (sb_logstart sb), log_size := sint (sb_nlog sb), log_dev := dev\<rparr>
         in recover_from_log s))"

definition begin_op_body :: "unit \<Rightarrow> 'z klog_scheme \<Rightarrow> (unit + unit, 'z klog_scheme) outcome" where
  "begin_op_body _ s =
     (if log_committing s then andthen (sleep ChanLog LogLock s) (\<lambda>_ s. Ret (Inl ()) s)
      else if lh_n s + (log_outstanding s + 1) * MAXOPBLOCKS > LOGSIZE
      then andthen (sleep ChanLog LogLock s) (\<lambda>_ s. Ret (Inl ()) s)
      else
        andthen (release LogLock (s\<lparr>log_outstanding := log_outstanding s + 1\<rparr>)) (\<lambda>_ s. Ret (Inr ()) s))"

definition begin_op :: "'z klog_scheme \<Rightarrow> (unit, 'z klog_scheme) outcome" where
  "begin_op s = andthen (acquire LogLock s) (\<lambda>_ s. loop begin_op_body () s)"

definition write_log_one :: "nat \<Rightarrow> 'z klog_scheme \<Rightarrow> (unit, 'z klog_scheme) outcome" where
  "write_log_one tail s =
     andthen (bread (log_dev s) (of_int (log_start s + int tail + 1)) s) (\<lambda>to s.
     andthen (bread (log_dev s) (lh_block s tail) s) (\<lambda>from s.
     let s = upd_buf to (\<lambda>x. x\<lparr>b_data := b_data (bufs s from)\<rparr>) s in
     andthen (bwrite to s) (\<lambda>_ s.
     andthen (brelse from s) (\<lambda>_ s. brelse to s))))"

definition write_log :: "'z klog_scheme \<Rightarrow> (unit, 'z klog_scheme) outcome" where
  "write_log s = for_each write_log_one [0..<nat (lh_n s)] s"

definition commit :: "'z klog_scheme \<Rightarrow> (unit, 'z klog_scheme) outcome" where
  "commit s =
     (if lh_n s > 0 then
        andthen (write_log s) (\<lambda>_ s.
        andthen (write_head s) (\<lambda>_ s.
        andthen (install_trans False s) (\<lambda>_ s.
        write_head (s\<lparr>lh_n := 0\<rparr>))))
      else Ret () s)"

definition end_op :: "'z klog_scheme \<Rightarrow> (unit, 'z klog_scheme) outcome" where
  "end_op s =
     andthen (acquire LogLock s) (\<lambda>_ s.
     let s = s\<lparr>log_outstanding := log_outstanding s - 1\<rparr> in
     if log_committing s then Panic ''log.committing''
     else
       (let do_commit = (log_outstanding s = 0) in
        andthen (if do_commit then Ret () (s\<lparr>log_committing := True\<rparr>) else wakeup ChanLog s) (\<lambda>_ s.
        andthen (release LogLock s) (\<lambda>_ s.
        if do_commit then
          andthen (commit s) (\<lambda>_ s.
          andthen (acquire LogLock s) (\<lambda>_ s.
          andthen (wakeup ChanLog (s\<lparr>log_committing := False\<rparr>)) (\<lambda>_ s.
          release LogLock s)))
        else Ret () s))))"

text \<open>The first slot of the header that has block \<open>bn\<close>, or \<open>n\<close>.\<close>

definition log_slot :: "nat \<Rightarrow> (nat \<Rightarrow> u32) \<Rightarrow> u32 \<Rightarrow> nat" where
  "log_slot n B bn = (case find (\<lambda>i. B i = bn) [0..<n] of Some i \<Rightarrow> i | None \<Rightarrow> n)"

definition log_write :: "nat \<Rightarrow> 'z klog_scheme \<Rightarrow> (unit, 'z klog_scheme) outcome" where
  "log_write b s =
     andthen (acquire LogLock s) (\<lambda>_ s.
       if lh_n s \<ge> LOGSIZE \<or> lh_n s \<ge> log_size s - 1 then Panic ''too big a transaction''
       else if log_outstanding s < 1 then Panic ''log_write outside of trans''
       else
         (let bn = b_blockno (bufs s b); i = log_slot (nat (lh_n s)) (lh_block s) bn;
              s = s\<lparr>lh_block := (lh_block s)(i := bn)\<rparr>
          in andthen (if int i = lh_n s then andthen (bpin b s) (\<lambda>_ s. Ret () (s\<lparr>lh_n := lh_n s + 1\<rparr>)) else Ret () s) (\<lambda>_ s.
             release LogLock s)))"

text \<open>An empty log in blocks 2 to 31.\<close>

definition klog0 :: klog where
  "klog0 = kbio.extend kbio0 (klog.fields 2 30 0 False 1 0 (\<lambda>_. 0))"

end
