(* ===== verification/Fs.thy ===== *)
theory Fs
  imports Log
begin

text \<open>
  \<open>kernel/fs.c\<close>: blocks, inodes, directories and path names. Names and paths are the bytes before the
  terminating NUL; on-disk structures are read from and written to the bytes of a block at the
  offsets of \<open>kernel/fs.h\<close>. A pointer into \<open>itable.inode[NINODE]\<close> is an index, \<open>None\<close> for 0.
\<close>

record inode =
  i_dev :: u32
  i_inum :: u32
  i_ref :: int
  i_valid :: bool
  i_type :: u16
  i_major :: u16
  i_minor :: u16
  i_nlink :: u16
  i_size :: u32
  i_addrs :: "nat \<Rightarrow> u32"

record stat =
  st_dev :: u32
  st_ino :: u32
  st_type :: u16
  st_nlink :: u16
  st_size :: u64

record kfs = klog +
  fs_sb :: superblock
  inodes :: "nat \<Rightarrow> inode"

abbreviation (input) NINODE :: nat where "NINODE \<equiv> 50"
abbreviation (input) ROOTDEV :: u32 where "ROOTDEV \<equiv> 1"
abbreviation (input) ROOTINO :: u32 where "ROOTINO \<equiv> 1"
abbreviation (input) FSMAGIC :: u32 where "FSMAGIC \<equiv> 0x10203040"
abbreviation (input) NDIRECT :: nat where "NDIRECT \<equiv> 12"
abbreviation (input) NINDIRECT :: nat where "NINDIRECT \<equiv> 256"
abbreviation (input) MAXFILE :: nat where "MAXFILE \<equiv> 268"
abbreviation (input) IPB :: u32 where "IPB \<equiv> 16"
abbreviation (input) BPB :: nat where "BPB \<equiv> 8192"
abbreviation (input) DIRSIZ :: nat where "DIRSIZ \<equiv> 14"
abbreviation (input) T_DIR :: u16 where "T_DIR \<equiv> 1"
abbreviation (input) T_FILE :: u16 where "T_FILE \<equiv> 2"
abbreviation (input) T_DEVICE :: u16 where "T_DEVICE \<equiv> 3"

definition upd_inode :: "nat \<Rightarrow> (inode \<Rightarrow> inode) \<Rightarrow> 'z kfs_scheme \<Rightarrow> 'z kfs_scheme" where
  "upd_inode i f s = s\<lparr>inodes := (inodes s)(i := f (inodes s i))\<rparr>"

definition set_data :: "nat \<Rightarrow> (u8 list \<Rightarrow> u8 list) \<Rightarrow> 'z kbio_scheme \<Rightarrow> 'z kbio_scheme" where
  "set_data b f s = upd_buf b (\<lambda>x. x\<lparr>b_data := f (b_data x)\<rparr>) s"

definition get16 :: "u8 list \<Rightarrow> nat \<Rightarrow> u16" where
  "get16 bs off = ucast (bs ! off) OR push_bit 8 (ucast (bs ! (off + 1)))"

definition put16 :: "nat \<Rightarrow> u16 \<Rightarrow> u8 list \<Rightarrow> u8 list" where
  "put16 off v bs = bs[off := ucast v, off + 1 := ucast (drop_bit 8 v)]"

text \<open>Overwriting bytes from an offset on (\<open>memmove\<close> into a block).\<close>

definition write_at :: "nat \<Rightarrow> u8 list \<Rightarrow> u8 list \<Rightarrow> u8 list" where
  "write_at off bs d = take off d @ bs @ drop (off + length bs) d"

definition IBLOCK :: "u32 \<Rightarrow> superblock \<Rightarrow> u32" where
  "IBLOCK i sb = i div IPB + sb_inodestart sb"

definition BBLOCK :: "nat \<Rightarrow> superblock \<Rightarrow> u32" where
  "BBLOCK b sb = of_nat (b div BPB) + sb_bmapstart sb"

text \<open>Offset of a \<open>struct dinode\<close> (64 bytes) in its block.\<close>

definition dinode_off :: "u32 \<Rightarrow> nat" where
  "dinode_off inum = 64 * unat (inum mod IPB)"

subsection \<open>Blocks\<close>

definition readsb :: "u32 \<Rightarrow> 'z kfs_scheme \<Rightarrow> (unit, 'z kfs_scheme) outcome" where
  "readsb dev s =
     andthen (bread dev 1 s) (\<lambda>b s.
       let d = b_data (bufs s b);
           s = s\<lparr>fs_sb := \<lparr>sb_magic = get32 d 0, sb_size = get32 d 4, sb_nblocks = get32 d 8, sb_ninodes = get32 d 12,
                 sb_nlog = get32 d 16, sb_logstart = get32 d 20, sb_inodestart = get32 d 24, sb_bmapstart = get32 d 28\<rparr>\<rparr>
       in brelse b s)"

definition fsinit :: "u32 \<Rightarrow> 'z kfs_scheme \<Rightarrow> (unit, 'z kfs_scheme) outcome" where
  "fsinit dev s =
     andthen (readsb dev s) (\<lambda>_ s.
       if sb_magic (fs_sb s) \<noteq> FSMAGIC then Panic ''invalid file system'' else initlog dev (fs_sb s) s)"

definition bzero :: "u32 \<Rightarrow> u32 \<Rightarrow> 'z kfs_scheme \<Rightarrow> (unit, 'z kfs_scheme) outcome" where
  "bzero dev bno s =
     andthen (bread dev bno s) (\<lambda>b s.
     andthen (log_write b (set_data b (\<lambda>_. replicate BSIZE 0) s)) (\<lambda>_ s. brelse b s))"

text \<open>One round of the outer loop of \<open>balloc\<close>: the bitmap block for blocks \<open>b\<close> to \<open>b + BPB - 1\<close>.\<close>

definition balloc_one :: "u32 \<Rightarrow> nat \<Rightarrow> 'z kfs_scheme \<Rightarrow> (u32 option, 'z kfs_scheme) outcome" where
  "balloc_one dev b s =
     andthen (bread dev (BBLOCK b (fs_sb s)) s) (\<lambda>bp s.
       let d = b_data (bufs s bp) in
       case find (\<lambda>bi. (d ! (bi div 8)) AND push_bit (bi mod 8) 1 = 0) [0..<min BPB (unat (sb_size (fs_sb s)) - b)] of
         Some bi \<Rightarrow>
           (let s = set_data bp (\<lambda>d. d[bi div 8 := (d ! (bi div 8)) OR push_bit (bi mod 8) 1]) s in
            andthen (log_write bp s) (\<lambda>_ s.
            andthen (brelse bp s) (\<lambda>_ s.
            andthen (bzero dev (of_nat (b + bi)) s) (\<lambda>_ s. Ret (Some (of_nat (b + bi))) s))))
       | None \<Rightarrow> andthen (brelse bp s) (\<lambda>_ s. Ret None s))"

definition balloc :: "u32 \<Rightarrow> 'z kfs_scheme \<Rightarrow> (u32, 'z kfs_scheme) outcome" where
  "balloc dev s =
     andthen (for_find (balloc_one dev) (map (\<lambda>k. k * BPB) [0..<(unat (sb_size (fs_sb s)) + BPB - 1) div BPB]) s) (\<lambda>r s.
       case r of
         Some a \<Rightarrow> Ret a s
       | None \<Rightarrow> andthen (printf (''balloc: out of blocks'' @ [CHR 0x0A]) [] s) (\<lambda>_ s. Ret 0 s))"

definition bfree :: "u32 \<Rightarrow> u32 \<Rightarrow> 'z kfs_scheme \<Rightarrow> (unit, 'z kfs_scheme) outcome" where
  "bfree dev b s =
     andthen (bread dev (BBLOCK (unat b) (fs_sb s)) s) (\<lambda>bp s.
       let bi = unat b mod BPB; m = push_bit (bi mod 8) 1 in
       if (b_data (bufs s bp) ! (bi div 8)) AND m = 0 then Panic ''freeing free block''
       else
         (let s = set_data bp (\<lambda>d. d[bi div 8 := (d ! (bi div 8)) AND NOT m]) s in
          andthen (log_write bp s) (\<lambda>_ s. brelse bp s)))"

subsection \<open>Inodes\<close>

definition iinit :: "'z kfs_scheme \<Rightarrow> (unit, 'z kfs_scheme) outcome" where
  "iinit s =
     for_each (\<lambda>i s. Ret () (initsleeplock (InodeLk i) ''inode'' s)) [0..<NINODE] (initlock ItableLock ''itable'' s)"

definition iget :: "u32 \<Rightarrow> u32 \<Rightarrow> 'z kfs_scheme \<Rightarrow> (nat, 'z kfs_scheme) outcome" where
  "iget dev inum s =
     andthen (acquire ItableLock s) (\<lambda>_ s.
       case find (\<lambda>i. i_ref (inodes s i) > 0 \<and> i_dev (inodes s i) = dev \<and> i_inum (inodes s i) = inum) [0..<NINODE] of
         Some i \<Rightarrow>
           andthen (release ItableLock (upd_inode i (i_ref_update (\<lambda>n. n + 1)) s)) (\<lambda>_ s. Ret i s)
       | None \<Rightarrow>
           (case find (\<lambda>i. i_ref (inodes s i) = 0) [0..<NINODE] of
              None \<Rightarrow> Panic ''iget: no inodes''
            | Some i \<Rightarrow>
                andthen (release ItableLock
                  (upd_inode i (\<lambda>x. x\<lparr>i_dev := dev, i_inum := inum, i_ref := 1, i_valid := False\<rparr>) s)) (\<lambda>_ s. Ret i s)))"

definition ialloc_one :: "u32 \<Rightarrow> u16 \<Rightarrow> nat \<Rightarrow> 'z kfs_scheme \<Rightarrow> (nat option, 'z kfs_scheme) outcome" where
  "ialloc_one dev type inum s =
     andthen (bread dev (IBLOCK (of_nat inum) (fs_sb s)) s) (\<lambda>b s.
       let off = dinode_off (of_nat inum) in
       if get16 (b_data (bufs s b)) off = 0 then
         (let s = set_data b (\<lambda>d. put16 off type (write_at off (replicate 64 0) d)) s in
          andthen (log_write b s) (\<lambda>_ s.
          andthen (brelse b s) (\<lambda>_ s.
          andthen (iget dev (of_nat inum) s) (\<lambda>ip s. Ret (Some ip) s))))
       else andthen (brelse b s) (\<lambda>_ s. Ret None s))"

definition ialloc :: "u32 \<Rightarrow> u16 \<Rightarrow> 'z kfs_scheme \<Rightarrow> (nat option, 'z kfs_scheme) outcome" where
  "ialloc dev type s =
     andthen (for_find (ialloc_one dev type) [1..<unat (sb_ninodes (fs_sb s))] s) (\<lambda>r s.
       case r of
         Some ip \<Rightarrow> Ret (Some ip) s
       | None \<Rightarrow> andthen (printf (''ialloc: no inodes'' @ [CHR 0x0A]) [] s) (\<lambda>_ s. Ret None s))"

primrec put_addrs :: "nat \<Rightarrow> nat \<Rightarrow> (nat \<Rightarrow> u32) \<Rightarrow> u8 list \<Rightarrow> u8 list" where
  "put_addrs off 0 A d = d"
| "put_addrs off (Suc i) A d = put32 (off + 4 * i) (A i) (put_addrs off i A d)"

definition put_dinode :: "nat \<Rightarrow> inode \<Rightarrow> u8 list \<Rightarrow> u8 list" where
  "put_dinode off x d =
     put_addrs (off + 12) (NDIRECT + 1) (i_addrs x)
       (put32 (off + 8) (i_size x) (put16 (off + 6) (i_nlink x) (put16 (off + 4) (i_minor x)
         (put16 (off + 2) (i_major x) (put16 off (i_type x) d)))))"

definition get_dinode :: "nat \<Rightarrow> u8 list \<Rightarrow> inode \<Rightarrow> inode" where
  "get_dinode off d x =
     x\<lparr>i_type := get16 d off, i_major := get16 d (off + 2), i_minor := get16 d (off + 4), i_nlink := get16 d (off + 6),
       i_size := get32 d (off + 8),
       i_addrs := (\<lambda>i. if i < NDIRECT + 1 then get32 d (off + 12 + 4 * i) else i_addrs x i)\<rparr>"

definition iupdate :: "nat \<Rightarrow> 'z kfs_scheme \<Rightarrow> (unit, 'z kfs_scheme) outcome" where
  "iupdate ip s =
     (let x = inodes s ip in
      andthen (bread (i_dev x) (IBLOCK (i_inum x) (fs_sb s)) s) (\<lambda>b s.
      let s = set_data b (put_dinode (dinode_off (i_inum x)) (inodes s ip)) s in
      andthen (log_write b s) (\<lambda>_ s. brelse b s)))"

definition idup :: "nat \<Rightarrow> 'z kfs_scheme \<Rightarrow> (nat, 'z kfs_scheme) outcome" where
  "idup ip s =
     andthen (acquire ItableLock s) (\<lambda>_ s.
     andthen (release ItableLock (upd_inode ip (i_ref_update (\<lambda>n. n + 1)) s)) (\<lambda>_ s. Ret ip s))"

definition ilock :: "nat option \<Rightarrow> 'z kfs_scheme \<Rightarrow> (unit, 'z kfs_scheme) outcome" where
  "ilock ipo s =
     (case ipo of
        None \<Rightarrow> Panic ''ilock''
      | Some ip \<Rightarrow>
          if i_ref (inodes s ip) < 1 then Panic ''ilock''
          else
            andthen (acquiresleep (InodeLk ip) s) (\<lambda>_ s.
              if \<not> i_valid (inodes s ip) then
                andthen (bread (i_dev (inodes s ip)) (IBLOCK (i_inum (inodes s ip)) (fs_sb s)) s) (\<lambda>b s.
                let s = upd_inode ip (get_dinode (dinode_off (i_inum (inodes s ip))) (b_data (bufs s b))) s in
                andthen (brelse b s) (\<lambda>_ s.
                let s = upd_inode ip (\<lambda>x. x\<lparr>i_valid := True\<rparr>) s in
                if i_type (inodes s ip) = 0 then Panic ''ilock: no type'' else Ret () s))
              else Ret () s))"

definition iunlock :: "nat option \<Rightarrow> 'z kfs_scheme \<Rightarrow> (unit, 'z kfs_scheme) outcome" where
  "iunlock ipo s =
     (case ipo of
        None \<Rightarrow> Panic ''iunlock''
      | Some ip \<Rightarrow>
          andthen (holdingsleep (InodeLk ip) s) (\<lambda>h s.
            if \<not> h \<or> i_ref (inodes s ip) < 1 then Panic ''iunlock'' else releasesleep (InodeLk ip) s))"

text \<open>\<open>bmap\<close> and \<open>itrunc\<close>: the indirect block is an array of 256 words.\<close>

definition bmap :: "nat \<Rightarrow> nat \<Rightarrow> 'z kfs_scheme \<Rightarrow> (u32, 'z kfs_scheme) outcome" where
  "bmap ip bn s =
     (if bn < NDIRECT then
        (let addr = i_addrs (inodes s ip) bn in
         if addr = 0 then
           andthen (balloc (i_dev (inodes s ip)) s) (\<lambda>addr s.
             if addr = 0 then Ret 0 s
             else Ret addr (upd_inode ip (\<lambda>x. x\<lparr>i_addrs := (i_addrs x)(bn := addr)\<rparr>) s))
         else Ret addr s)
      else
        (let bn = bn - NDIRECT in
         if bn < NINDIRECT then
           andthen
             (let addr = i_addrs (inodes s ip) NDIRECT in
              if addr = 0 then
                andthen (balloc (i_dev (inodes s ip)) s) (\<lambda>addr s.
                  if addr = 0 then Ret 0 s
                  else Ret addr (upd_inode ip (\<lambda>x. x\<lparr>i_addrs := (i_addrs x)(NDIRECT := addr)\<rparr>) s))
              else Ret addr s) (\<lambda>addr s.
           if addr = 0 then Ret 0 s
           else
             andthen (bread (i_dev (inodes s ip)) addr s) (\<lambda>bp s.
             andthen
               (let addr = get32 (b_data (bufs s bp)) (4 * bn) in
                if addr = 0 then
                  andthen (balloc (i_dev (inodes s ip)) s) (\<lambda>addr s.
                    if addr \<noteq> 0
                    then andthen (log_write bp (set_data bp (put32 (4 * bn) addr) s)) (\<lambda>_ s. Ret addr s)
                    else Ret addr s)
                else Ret addr s) (\<lambda>addr s.
             andthen (brelse bp s) (\<lambda>_ s. Ret addr s))))
         else Panic ''bmap: out of range''))"

definition itrunc :: "nat \<Rightarrow> 'z kfs_scheme \<Rightarrow> (unit, 'z kfs_scheme) outcome" where
  "itrunc ip s =
     andthen (for_each (\<lambda>i s.
       if i_addrs (inodes s ip) i \<noteq> 0 then
         andthen (bfree (i_dev (inodes s ip)) (i_addrs (inodes s ip) i) s) (\<lambda>_ s.
           Ret () (upd_inode ip (\<lambda>x. x\<lparr>i_addrs := (i_addrs x)(i := 0)\<rparr>) s))
       else Ret () s) [0..<NDIRECT] s) (\<lambda>_ s.
     andthen
       (if i_addrs (inodes s ip) NDIRECT \<noteq> 0 then
          andthen (bread (i_dev (inodes s ip)) (i_addrs (inodes s ip) NDIRECT) s) (\<lambda>bp s.
          andthen (for_each (\<lambda>j s.
            let a = get32 (b_data (bufs s bp)) (4 * j) in
            if a \<noteq> 0 then bfree (i_dev (inodes s ip)) a s else Ret () s) [0..<NINDIRECT] s) (\<lambda>_ s.
          andthen (brelse bp s) (\<lambda>_ s.
          andthen (bfree (i_dev (inodes s ip)) (i_addrs (inodes s ip) NDIRECT) s) (\<lambda>_ s.
            Ret () (upd_inode ip (\<lambda>x. x\<lparr>i_addrs := (i_addrs x)(NDIRECT := 0)\<rparr>) s)))))
        else Ret () s) (\<lambda>_ s.
     iupdate ip (upd_inode ip (\<lambda>x. x\<lparr>i_size := 0\<rparr>) s)))"

definition iput :: "nat \<Rightarrow> 'z kfs_scheme \<Rightarrow> (unit, 'z kfs_scheme) outcome" where
  "iput ip s =
     andthen (acquire ItableLock s) (\<lambda>_ s.
     andthen
       (if i_ref (inodes s ip) = 1 \<and> i_valid (inodes s ip) \<and> i_nlink (inodes s ip) = 0 then
          andthen (acquiresleep (InodeLk ip) s) (\<lambda>_ s.
          andthen (release ItableLock s) (\<lambda>_ s.
          andthen (itrunc ip s) (\<lambda>_ s.
          andthen (iupdate ip (upd_inode ip (\<lambda>x. x\<lparr>i_type := 0\<rparr>) s)) (\<lambda>_ s.
          andthen (releasesleep (InodeLk ip) (upd_inode ip (\<lambda>x. x\<lparr>i_valid := False\<rparr>) s)) (\<lambda>_ s.
          acquire ItableLock s)))))
        else Ret () s) (\<lambda>_ s.
     release ItableLock (upd_inode ip (i_ref_update (\<lambda>n. n - 1)) s)))"

definition iunlockput :: "nat \<Rightarrow> 'z kfs_scheme \<Rightarrow> (unit, 'z kfs_scheme) outcome" where
  "iunlockput ip s = andthen (iunlock (Some ip) s) (\<lambda>_ s. iput ip s)"

definition stati :: "nat \<Rightarrow> 'z kfs_scheme \<Rightarrow> stat" where
  "stati ip s = (let x = inodes s ip in
     \<lparr>st_dev = i_dev x, st_ino = i_inum x, st_type = i_type x, st_nlink = i_nlink x, st_size = ucast (i_size x)\<rparr>)"

subsection \<open>Inode content\<close>

primrec dst_add :: "dst_addr \<Rightarrow> nat \<Rightarrow> dst_addr" where
  "dst_add (UserDst va) m = UserDst (va + of_nat m)"
| "dst_add KernDst m = KernDst"

primrec src_add :: "src_addr \<Rightarrow> nat \<Rightarrow> src_addr" where
  "src_add (UserSrc va) m = UserSrc (va + of_nat m)"
| "src_add (KernSrc bs) m = KernSrc (drop m bs)"

text \<open>The number of bytes of one round: to the end of the request or of the block.\<close>

definition round_len :: "nat \<Rightarrow> nat \<Rightarrow> nat" where
  "round_len left off = min left (BSIZE - off mod BSIZE)"

lemma round_len_pos: "0 < left \<Longrightarrow> 0 < round_len left off"
  by (simp add: round_len_def)

text \<open>\<open>left\<close> is \<open>n - tot\<close>. The result is \<open>tot\<close>, -1 when a copy failed, and the bytes copied to a kernel
  destination.\<close>

function readi_loop :: "nat \<Rightarrow> dst_addr \<Rightarrow> nat \<Rightarrow> nat \<Rightarrow> nat \<Rightarrow> u8 list \<Rightarrow> 'z kfs_scheme
    \<Rightarrow> (int \<times> u8 list, 'z kfs_scheme) outcome" where
  "readi_loop ip dst off tot left out s =
     (if left = 0 then Ret (int tot, out) s
      else
        andthen (bmap ip (off div BSIZE) s) (\<lambda>addr s.
          if addr = 0 then Ret (int tot, out) s
          else
            andthen (bread (i_dev (inodes s ip)) addr s) (\<lambda>bp s.
            let m = round_len left off in
            andthen (either_copyout dst (take m (drop (off mod BSIZE) (b_data (bufs s bp)))) s) (\<lambda>(r, bs) s.
              if r = -1 then andthen (brelse bp s) (\<lambda>_ s. Ret (-1, out) s)
              else
                andthen (brelse bp s) (\<lambda>_ s.
                  readi_loop ip (dst_add dst m) (off + m) (tot + m) (left - m) (out @ bs) s)))))"
  by pat_completeness auto
termination
  by (relation "measure (\<lambda>(ip, dst, off, tot, left, out, s). left)") (auto simp: round_len_pos)

declare readi_loop.simps [simp del]

text \<open>\<open>off + n < off\<close> tests for overflow of the 32-bit sum.\<close>

definition readi :: "nat \<Rightarrow> dst_addr \<Rightarrow> u32 \<Rightarrow> u32 \<Rightarrow> 'z kfs_scheme \<Rightarrow> (int \<times> u8 list, 'z kfs_scheme) outcome" where
  "readi ip dst off n s =
     (let size = i_size (inodes s ip) in
      if off > size \<or> off + n < off then Ret (0, []) s
      else
        (let n = (if off + n > size then size - off else n) in
         readi_loop ip dst (unat off) 0 (unat n) [] s))"

text \<open>The loop of \<open>writei\<close> returns \<open>tot\<close> and the final \<open>off\<close>. A copy that fails part way has changed the
  cached block, but the block is not logged.\<close>

function writei_loop :: "nat \<Rightarrow> src_addr \<Rightarrow> nat \<Rightarrow> nat \<Rightarrow> nat \<Rightarrow> 'z kfs_scheme
    \<Rightarrow> (nat \<times> nat, 'z kfs_scheme) outcome" where
  "writei_loop ip src off tot left s =
     (if left = 0 then Ret (tot, off) s
      else
        andthen (bmap ip (off div BSIZE) s) (\<lambda>addr s.
          if addr = 0 then Ret (tot, off) s
          else
            andthen (bread (i_dev (inodes s ip)) addr s) (\<lambda>bp s.
            let m = round_len left off in
            andthen (either_copyin src m s) (\<lambda>(r, bs) s.
            let s = set_data bp (write_at (off mod BSIZE) bs) s in
              if r = -1 then andthen (brelse bp s) (\<lambda>_ s. Ret (tot, off) s)
              else
                andthen (log_write bp s) (\<lambda>_ s.
                andthen (brelse bp s) (\<lambda>_ s.
                  writei_loop ip (src_add src m) (off + m) (tot + m) (left - m) s))))))"
  by pat_completeness auto
termination
  by (relation "measure (\<lambda>(ip, src, off, tot, left, s). left)") (auto simp: round_len_pos)

declare writei_loop.simps [simp del]

definition writei :: "nat \<Rightarrow> src_addr \<Rightarrow> u32 \<Rightarrow> u32 \<Rightarrow> 'z kfs_scheme \<Rightarrow> (int, 'z kfs_scheme) outcome" where
  "writei ip src off n s =
     (if off > i_size (inodes s ip) \<or> off + n < off then Ret (-1) s
      else if unat (off + n) > MAXFILE * BSIZE then Ret (-1) s
      else
        andthen (writei_loop ip src (unat off) 0 (unat n) s) (\<lambda>(tot, off) s.
          let s = (if off > unat (i_size (inodes s ip)) then upd_inode ip (\<lambda>x. x\<lparr>i_size := of_nat off\<rparr>) s else s)
          in andthen (iupdate ip s) (\<lambda>_ s. Ret (int tot) s)))"

subsection \<open>Directories\<close>

text \<open>\<open>strncmp\<close> on the bytes before the NUL, which the end of the list stands for.\<close>

primrec strncmp_bytes :: "nat \<Rightarrow> u8 list \<Rightarrow> u8 list \<Rightarrow> int" where
  "strncmp_bytes 0 p q = 0"
| "strncmp_bytes (Suc n) p q =
     (let a = (case p of [] \<Rightarrow> 0 | c # _ \<Rightarrow> c); b = (case q of [] \<Rightarrow> 0 | c # _ \<Rightarrow> c) in
      if a \<noteq> 0 \<and> a = b then strncmp_bytes n (tl p) (tl q) else uint a - uint b)"

definition namecmp :: "u8 list \<Rightarrow> u8 list \<Rightarrow> int" where
  "namecmp p q = strncmp_bytes DIRSIZ p q"

text \<open>\<open>strncpy\<close> into a field of \<open>n\<close> bytes.\<close>

definition strncpy_bytes :: "nat \<Rightarrow> u8 list \<Rightarrow> u8 list" where
  "strncpy_bytes n p = take n (takeWhile (\<lambda>c. c \<noteq> 0) p @ replicate n 0)"

text \<open>A directory entry is two bytes of inode number and 14 of name.\<close>

definition dirent_bytes :: "u16 \<Rightarrow> u8 list \<Rightarrow> u8 list" where
  "dirent_bytes inum nm = [ucast inum, ucast (drop_bit 8 inum)] @ strncpy_bytes DIRSIZ nm"

definition dir_offs :: "u32 \<Rightarrow> nat list" where
  "dir_offs sz = map (\<lambda>k. 16 * k) [0..<(unat sz + 15) div 16]"

definition dirlookup :: "nat \<Rightarrow> u8 list \<Rightarrow> 'z kfs_scheme \<Rightarrow> ((nat \<times> u32) option, 'z kfs_scheme) outcome" where
  "dirlookup dp nm s =
     (if i_type (inodes s dp) \<noteq> T_DIR then Panic ''dirlookup not DIR''
      else
        for_find (\<lambda>off s.
          andthen (readi dp KernDst (of_nat off) 16 s) (\<lambda>(r, de) s.
            if r \<noteq> 16 then Panic ''dirlookup read''
            else if get16 de 0 = 0 then Ret None s
            else if namecmp nm (drop 2 de) = 0 then
              andthen (iget (i_dev (inodes s dp)) (ucast (get16 de 0)) s) (\<lambda>ip s. Ret (Some (ip, of_nat off)) s)
            else Ret None s)) (dir_offs (i_size (inodes s dp))) s)"

definition dirlink :: "nat \<Rightarrow> u8 list \<Rightarrow> u32 \<Rightarrow> 'z kfs_scheme \<Rightarrow> (int, 'z kfs_scheme) outcome" where
  "dirlink dp nm inum s =
     andthen (dirlookup dp nm s) (\<lambda>found s.
       case found of
         Some (ip, _) \<Rightarrow> andthen (iput ip s) (\<lambda>_ s. Ret (-1) s)
       | None \<Rightarrow>
           andthen (for_find (\<lambda>off s.
             andthen (readi dp KernDst (of_nat off) 16 s) (\<lambda>(r, de) s.
               if r \<noteq> 16 then Panic ''dirlink read''
               else if get16 de 0 = 0 then Ret (Some off) s else Ret None s)) (dir_offs (i_size (inodes s dp))) s) (\<lambda>o_off s.
           let off = (case o_off of Some off \<Rightarrow> off | None \<Rightarrow> 16 * ((unat (i_size (inodes s dp)) + 15) div 16)) in
           andthen (writei dp (KernSrc (dirent_bytes (ucast inum) nm)) (of_nat off) 16 s) (\<lambda>r s.
             if r \<noteq> 16 then Ret (-1) s else Ret 0 s)))"

subsection \<open>Paths\<close>

definition is_slash :: "u8 \<Rightarrow> bool" where
  "is_slash c \<longleftrightarrow> c = 0x2F"

definition skipelem :: "u8 list \<Rightarrow> (u8 list \<times> u8 list) option" where
  "skipelem path =
     (let path = dropWhile is_slash path in
      if path = [] then None
      else
        (let elem = takeWhile (\<lambda>c. \<not> is_slash c) path; rest = dropWhile (\<lambda>c. \<not> is_slash c) path in
         Some (take DIRSIZ elem, dropWhile is_slash rest)))"

lemma skipelem_shorter: "skipelem path = Some (nm, rest) \<Longrightarrow> length rest < length path"
proof -
  assume *: "skipelem path = Some (nm, rest)"
  let ?p = "dropWhile is_slash path"
  have "?p \<noteq> []" "rest = dropWhile is_slash (dropWhile (\<lambda>c. \<not> is_slash c) ?p)"
    using * by (auto simp: skipelem_def Let_def split: if_splits)
  moreover have "\<not> is_slash (hd ?p)" using calculation(1) by (rule hd_dropWhile)
  ultimately have "length rest < length ?p"
    by (cases ?p) (auto intro: le_less_trans [OF length_dropWhile_le] le_imp_less_Suc length_dropWhile_le)
  also have "\<dots> \<le> length path" by (rule length_dropWhile_le)
  finally show ?thesis .
qed

text \<open>The loop of \<open>namex\<close>; the result is the inode and the last element that was copied to \<open>name\<close>.\<close>

function namex_loop :: "u8 list \<Rightarrow> bool \<Rightarrow> nat \<Rightarrow> u8 list \<Rightarrow> 'z kfs_scheme
    \<Rightarrow> (nat option \<times> u8 list, 'z kfs_scheme) outcome" where
  "namex_loop path parent ip nm s =
     (case skipelem path of
        None \<Rightarrow>
          if parent then andthen (iput ip s) (\<lambda>_ s. Ret (None, nm) s) else Ret (Some ip, nm) s
      | Some (nm, path) \<Rightarrow>
          andthen (ilock (Some ip) s) (\<lambda>_ s.
            if i_type (inodes s ip) \<noteq> T_DIR then andthen (iunlockput ip s) (\<lambda>_ s. Ret (None, nm) s)
            else if parent \<and> path = [] then andthen (iunlock (Some ip) s) (\<lambda>_ s. Ret (Some ip, nm) s)
            else
              andthen (dirlookup ip nm s) (\<lambda>found s.
                case found of
                  None \<Rightarrow> andthen (iunlockput ip s) (\<lambda>_ s. Ret (None, nm) s)
                | Some (next_ip, _) \<Rightarrow> andthen (iunlockput ip s) (\<lambda>_ s. namex_loop path parent next_ip nm s))))"
  by pat_completeness auto
termination
  by (relation "measure (\<lambda>(path, parent, ip, nm, s). length path)") (auto dest: skipelem_shorter)

declare namex_loop.simps [simp del]

definition namex :: "u8 list \<Rightarrow> bool \<Rightarrow> 'z kfs_scheme \<Rightarrow> (nat option \<times> u8 list, 'z kfs_scheme) outcome" where
  "namex path parent s =
     andthen
       (if path \<noteq> [] \<and> is_slash (hd path) then iget ROOTDEV ROOTINO s
        else andthen (myproc s) (\<lambda>p s. deref p (\<lambda>p. deref (p_cwd (procs s p)) (\<lambda>cwd. idup cwd s)))) (\<lambda>ip s.
     namex_loop path parent ip [] s)"

definition namei :: "u8 list \<Rightarrow> 'z kfs_scheme \<Rightarrow> (nat option, 'z kfs_scheme) outcome" where
  "namei path s = andthen (namex path False s) (\<lambda>(ip, _) s. Ret ip s)"

definition nameiparent :: "u8 list \<Rightarrow> 'z kfs_scheme \<Rightarrow> (nat option \<times> u8 list, 'z kfs_scheme) outcome" where
  "nameiparent path s = namex path True s"

text \<open>A mounted, empty file system.\<close>

definition kfs0 :: kfs where
  "kfs0 = klog.extend klog0 (kfs.fields
     \<lparr>sb_magic = FSMAGIC, sb_size = 2000, sb_nblocks = 1954, sb_ninodes = 200, sb_nlog = 30, sb_logstart = 2, sb_inodestart = 32,
       sb_bmapstart = 45\<rparr> (\<lambda>_. \<lparr>i_dev = 0, i_inum = 0, i_ref = 0, i_valid = False, i_type = 0, i_major = 0, i_minor = 0, i_nlink = 0,
       i_size = 0, i_addrs = (\<lambda>_. 0)\<rparr>))"

end
