(* ===== verification/File.thy ===== *)
theory File
  imports Fs
begin

text \<open>
  \<open>kernel/pipe.c\<close> and \<open>kernel/file.c\<close>: pipes and open files. A \<open>struct pipe\<close> lives in a page of its own; it
  is kept as a record under the address of that page. A pointer into \<open>ftable.file[NFILE]\<close> is an index.
\<close>

datatype fdtype = FD_NONE | FD_PIPE | FD_INODE | FD_DEVICE

record openfile =
  f_type :: fdtype
  f_ref :: int
  f_readable :: bool
  f_writable :: bool
  f_pipe :: u64
  f_ip :: "nat option"
  f_off :: u32
  f_major :: u16

record pipe =
  pi_data :: "nat \<Rightarrow> u8"
  pi_nread :: u32
  pi_nwrite :: u32
  pi_readopen :: bool
  pi_writeopen :: bool

record kfile = kfs +
  files :: "nat \<Rightarrow> openfile"
  pipes :: "u64 \<Rightarrow> pipe"

abbreviation (input) NFILE :: nat where "NFILE \<equiv> 100"
abbreviation (input) NDEV :: nat where "NDEV \<equiv> 10"
abbreviation (input) PIPESIZE :: u32 where "PIPESIZE \<equiv> 512"

definition upd_file :: "nat \<Rightarrow> (openfile \<Rightarrow> openfile) \<Rightarrow> 'z kfile_scheme \<Rightarrow> 'z kfile_scheme" where
  "upd_file f g s = s\<lparr>files := (files s)(f := g (files s f))\<rparr>"

definition upd_pipe :: "u64 \<Rightarrow> (pipe \<Rightarrow> pipe) \<Rightarrow> 'z kfile_scheme \<Rightarrow> 'z kfile_scheme" where
  "upd_pipe pi g s = s\<lparr>pipes := (pipes s)(pi := g (pipes s pi))\<rparr>"

subsection \<open>pipe.c\<close>

definition pipeclose :: "u64 \<Rightarrow> bool \<Rightarrow> 'z kfile_scheme \<Rightarrow> (unit, 'z kfile_scheme) outcome" where
  "pipeclose pi writable s =
     andthen (acquire (PipeLock pi) s) (\<lambda>_ s.
     andthen
       (if writable then wakeup (ChanPipeRead pi) (upd_pipe pi (\<lambda>x. x\<lparr>pi_writeopen := False\<rparr>) s)
        else wakeup (ChanPipeWrite pi) (upd_pipe pi (\<lambda>x. x\<lparr>pi_readopen := False\<rparr>) s)) (\<lambda>_ s.
     if \<not> pi_readopen (pipes s pi) \<and> \<not> pi_writeopen (pipes s pi)
     then andthen (release (PipeLock pi) s) (\<lambda>_ s. kfree pi s)
     else release (PipeLock pi) s))"

text \<open>The loop of \<open>pipewrite\<close> with \<open>i\<close> bytes done and \<open>left\<close> to go, until it leaves (\<open>Inr\<close>) or has slept on a
  full pipe (\<open>Inl\<close>).\<close>

primrec pipewrite_run :: "u64 \<Rightarrow> nat \<Rightarrow> u64 \<Rightarrow> nat \<Rightarrow> nat \<Rightarrow> 'z kfile_scheme
    \<Rightarrow> ((nat \<times> nat) + int, 'z kfile_scheme) outcome" where
  "pipewrite_run pi pr addr 0 i s =
     andthen (wakeup (ChanPipeRead pi) s) (\<lambda>_ s.
     andthen (release (PipeLock pi) s) (\<lambda>_ s. Ret (Inr (int i)) s))"
| "pipewrite_run pi pr addr (Suc left) i s =
     andthen (if \<not> pi_readopen (pipes s pi) then Ret 1 s else killed pr s) (\<lambda>stop s.
       if stop \<noteq> 0 then andthen (release (PipeLock pi) s) (\<lambda>_ s. Ret (Inr (-1)) s)
       else if pi_nwrite (pipes s pi) = pi_nread (pipes s pi) + PIPESIZE then
         andthen (wakeup (ChanPipeRead pi) s) (\<lambda>_ s.
         andthen (sleep (ChanPipeWrite pi) (PipeLock pi) s) (\<lambda>_ s. Ret (Inl (Suc left, i)) s))
       else
         andthen (copyin (p_pagetable (procs s pr)) (addr + of_nat i) 1 s) (\<lambda>(r, bs) s.
           if r = -1 then
             andthen (wakeup (ChanPipeRead pi) s) (\<lambda>_ s.
             andthen (release (PipeLock pi) s) (\<lambda>_ s. Ret (Inr (int i)) s))
           else
             (let s = upd_pipe pi (\<lambda>x. x\<lparr>pi_data := (pi_data x)(unat (pi_nwrite x mod PIPESIZE) := hd bs),
                        pi_nwrite := pi_nwrite x + 1\<rparr>) s
              in pipewrite_run pi pr addr left (i + 1) s)))"

definition pipewrite :: "u64 \<Rightarrow> u64 \<Rightarrow> int \<Rightarrow> 'z kfile_scheme \<Rightarrow> (int, 'z kfile_scheme) outcome" where
  "pipewrite pi addr n s =
     andthen (myproc s) (\<lambda>p s.
     andthen (acquire (PipeLock pi) s) (\<lambda>_ s. deref p (\<lambda>pr.
     loop (\<lambda>(left, i) s. pipewrite_run pi pr addr left i s) (nat n, 0) s)))"

primrec piperead_copy :: "u64 \<Rightarrow> nat \<Rightarrow> u64 \<Rightarrow> nat \<Rightarrow> nat \<Rightarrow> 'z kfile_scheme \<Rightarrow> (nat, 'z kfile_scheme) outcome" where
  "piperead_copy pi pr addr 0 i s = Ret i s"
| "piperead_copy pi pr addr (Suc left) i s =
     (if pi_nread (pipes s pi) = pi_nwrite (pipes s pi) then Ret i s
      else
        (let x = pipes s pi; ch = pi_data x (unat (pi_nread x mod PIPESIZE));
             s = upd_pipe pi (\<lambda>x. x\<lparr>pi_nread := pi_nread x + 1\<rparr>) s
         in andthen (copyout (p_pagetable (procs s pr)) (addr + of_nat i) [ch] s) (\<lambda>r s.
              if r = -1 then Ret i s else piperead_copy pi pr addr left (i + 1) s)))"

definition piperead :: "u64 \<Rightarrow> u64 \<Rightarrow> int \<Rightarrow> 'z kfile_scheme \<Rightarrow> (int, 'z kfile_scheme) outcome" where
  "piperead pi addr n s =
     andthen (myproc s) (\<lambda>p s.
     andthen (acquire (PipeLock pi) s) (\<lambda>_ s. deref p (\<lambda>pr.
     andthen (loop (\<lambda>_ s.
       if pi_nread (pipes s pi) = pi_nwrite (pipes s pi) \<and> pi_writeopen (pipes s pi) then
         andthen (killed pr s) (\<lambda>k s.
           if k \<noteq> 0 then andthen (release (PipeLock pi) s) (\<lambda>_ s. Ret (Inr True) s)
           else andthen (sleep (ChanPipeRead pi) (PipeLock pi) s) (\<lambda>_ s. Ret (Inl ()) s))
       else Ret (Inr False) s) () s) (\<lambda>was_killed s.
     if was_killed then Ret (-1) s
     else
       andthen (piperead_copy pi pr addr (nat n) 0 s) (\<lambda>i s.
       andthen (wakeup (ChanPipeWrite pi) s) (\<lambda>_ s.
       andthen (release (PipeLock pi) s) (\<lambda>_ s. Ret (int i) s)))))))"

subsection \<open>file.c\<close>

definition fileinit :: "'z kfile_scheme \<Rightarrow> 'z kfile_scheme" where
  "fileinit s = initlock FtableLock ''ftable'' s"

definition filealloc :: "'z kfile_scheme \<Rightarrow> (nat option, 'z kfile_scheme) outcome" where
  "filealloc s =
     andthen (acquire FtableLock s) (\<lambda>_ s.
       case find (\<lambda>f. f_ref (files s f) = 0) [0..<NFILE] of
         Some f \<Rightarrow> andthen (release FtableLock (upd_file f (\<lambda>x. x\<lparr>f_ref := 1\<rparr>) s)) (\<lambda>_ s. Ret (Some f) s)
       | None \<Rightarrow> andthen (release FtableLock s) (\<lambda>_ s. Ret None s))"

definition filedup :: "nat \<Rightarrow> 'z kfile_scheme \<Rightarrow> (nat, 'z kfile_scheme) outcome" where
  "filedup f s =
     andthen (acquire FtableLock s) (\<lambda>_ s.
       if f_ref (files s f) < 1 then Panic ''filedup''
       else andthen (release FtableLock (upd_file f (f_ref_update (\<lambda>n. n + 1)) s)) (\<lambda>_ s. Ret f s))"

definition fileclose :: "nat \<Rightarrow> 'z kfile_scheme \<Rightarrow> (unit, 'z kfile_scheme) outcome" where
  "fileclose f s =
     andthen (acquire FtableLock s) (\<lambda>_ s.
       if f_ref (files s f) < 1 then Panic ''fileclose''
       else
         (let s = upd_file f (f_ref_update (\<lambda>n. n - 1)) s in
          if f_ref (files s f) > 0 then release FtableLock s
          else
            (let ff = files s f; s = upd_file f (\<lambda>x. x\<lparr>f_ref := 0, f_type := FD_NONE\<rparr>) s in
             andthen (release FtableLock s) (\<lambda>_ s.
               if f_type ff = FD_PIPE then pipeclose (f_pipe ff) (f_writable ff) s
               else if f_type ff = FD_INODE \<or> f_type ff = FD_DEVICE then
                 andthen (begin_op s) (\<lambda>_ s.
                 andthen (deref (f_ip ff) (\<lambda>ip. iput ip s)) (\<lambda>_ s. end_op s))
               else Ret () s))))"

definition pipealloc :: "'z kfile_scheme \<Rightarrow> (int \<times> nat option \<times> nat option, 'z kfile_scheme) outcome" where
  "pipealloc s =
     (let close = (\<lambda>f s. case f of Some f \<Rightarrow> fileclose f s | None \<Rightarrow> Ret () s);
          bad = (\<lambda>f0 f1 s. andthen (close f0 s) (\<lambda>_ s. andthen (close f1 s) (\<lambda>_ s. Ret (-1, f0, f1) s))) in
      andthen (filealloc s) (\<lambda>f0 s.
        case f0 of
          None \<Rightarrow> bad None None s
        | Some a \<Rightarrow>
            andthen (filealloc s) (\<lambda>f1 s.
              case f1 of
                None \<Rightarrow> bad (Some a) None s
              | Some b \<Rightarrow>
                  andthen (kalloc s) (\<lambda>pi s.
                    if pi = 0 then bad (Some a) (Some b) s
                    else
                      (let s = upd_pipe pi (\<lambda>x. x\<lparr>pi_readopen := True, pi_writeopen := True, pi_nwrite := 0, pi_nread := 0\<rparr>) s;
                           s = initlock (PipeLock pi) ''pipe'' s;
                           s = upd_file a (\<lambda>x. x\<lparr>f_type := FD_PIPE, f_readable := True, f_writable := False, f_pipe := pi\<rparr>) s;
                           s = upd_file b (\<lambda>x. x\<lparr>f_type := FD_PIPE, f_readable := False, f_writable := True, f_pipe := pi\<rparr>) s
                       in Ret (0, Some a, Some b) s)))))"

text \<open>\<open>struct stat\<close> in memory, 24 bytes; the four bytes of padding, which the source leaves as they were on
  the kernel stack, are 0.\<close>

definition le_bytes16 :: "u16 \<Rightarrow> u8 list" where
  "le_bytes16 v = [ucast v, ucast (drop_bit 8 v)]"

definition le_bytes64 :: "u64 \<Rightarrow> u8 list" where
  "le_bytes64 v = map (\<lambda>i. ucast (drop_bit (8 * i) v)) [0..<8]"

definition stat_bytes :: "stat \<Rightarrow> u8 list" where
  "stat_bytes st = le_bytes32 (st_dev st) @ le_bytes32 (st_ino st) @ le_bytes16 (st_type st) @ le_bytes16 (st_nlink st) @
     [0, 0, 0, 0] @ le_bytes64 (st_size st)"

definition filestat :: "nat \<Rightarrow> u64 \<Rightarrow> 'z kfile_scheme \<Rightarrow> (int, 'z kfile_scheme) outcome" where
  "filestat f addr s =
     andthen (myproc s) (\<lambda>p s.
       if f_type (files s f) = FD_INODE \<or> f_type (files s f) = FD_DEVICE then
         andthen (ilock (f_ip (files s f)) s) (\<lambda>_ s. deref (f_ip (files s f)) (\<lambda>ip.
         let st = stati ip s in
         andthen (iunlock (f_ip (files s f)) s) (\<lambda>_ s. deref p (\<lambda>p.
         andthen (copyout (p_pagetable (procs s p)) addr (stat_bytes st) s) (\<lambda>r s.
           if r < 0 then Ret (-1) s else Ret 0 s)))))
       else Ret (-1) s)"

text \<open>\<open>f->major\<close> is a \<open>short\<close>.\<close>

definition dev_of :: "u16 \<Rightarrow> 'z kcons_scheme \<Rightarrow> devfn option" where
  "dev_of mj s = (if sint mj < 0 \<or> sint mj \<ge> int NDEV then None else devsw s (unat mj))"

definition fileread :: "nat \<Rightarrow> u64 \<Rightarrow> int \<Rightarrow> 'z kfile_scheme \<Rightarrow> (int, 'z kfile_scheme) outcome" where
  "fileread f addr n s =
     (if \<not> f_readable (files s f) then Ret (-1) s
      else
        (case f_type (files s f) of
           FD_PIPE \<Rightarrow> piperead (f_pipe (files s f)) addr n s
         | FD_DEVICE \<Rightarrow>
             (case dev_of (f_major (files s f)) s of
                None \<Rightarrow> Ret (-1) s
              | Some ConsoleDev \<Rightarrow> andthen (consoleread (UserDst addr) n s) (\<lambda>(r, _) s. Ret r s))
         | FD_INODE \<Rightarrow>
             andthen (ilock (f_ip (files s f)) s) (\<lambda>_ s. deref (f_ip (files s f)) (\<lambda>ip.
             andthen (readi ip (UserDst addr) (f_off (files s f)) (of_int n) s) (\<lambda>(r, _) s.
             let s = (if r > 0 then upd_file f (f_off_update (\<lambda>off. off + of_int r)) s else s) in
             andthen (iunlock (f_ip (files s f)) s) (\<lambda>_ s. Ret r s))))
         | FD_NONE \<Rightarrow> Panic ''fileread''))"

text \<open>The loop of \<open>filewrite\<close> writes at most 3072 bytes per transaction; the result is \<open>i\<close>.\<close>

function filewrite_loop :: "nat \<Rightarrow> u64 \<Rightarrow> nat \<Rightarrow> nat \<Rightarrow> 'z kfile_scheme \<Rightarrow> (nat, 'z kfile_scheme) outcome" where
  "filewrite_loop f addr i left s =
     (if left = 0 then Ret i s
      else
        (let n1 = min left 3072 in
         andthen (begin_op s) (\<lambda>_ s.
         andthen (ilock (f_ip (files s f)) s) (\<lambda>_ s. deref (f_ip (files s f)) (\<lambda>ip.
         andthen (writei ip (UserSrc (addr + of_nat i)) (f_off (files s f)) (of_nat n1) s) (\<lambda>r s.
         let s = (if r > 0 then upd_file f (f_off_update (\<lambda>off. off + of_int r)) s else s) in
         andthen (iunlock (f_ip (files s f)) s) (\<lambda>_ s.
         andthen (end_op s) (\<lambda>_ s.
           if r \<noteq> int n1 then Ret i s else filewrite_loop f addr (i + n1) (left - n1) s))))))))"
  by pat_completeness auto
termination
  by (relation "measure (\<lambda>(f, addr, i, left, s). left)") auto

declare filewrite_loop.simps [simp del]

definition filewrite :: "nat \<Rightarrow> u64 \<Rightarrow> int \<Rightarrow> 'z kfile_scheme \<Rightarrow> (int, 'z kfile_scheme) outcome" where
  "filewrite f addr n s =
     (if \<not> f_writable (files s f) then Ret (-1) s
      else
        (case f_type (files s f) of
           FD_PIPE \<Rightarrow> pipewrite (f_pipe (files s f)) addr n s
         | FD_DEVICE \<Rightarrow>
             (case dev_of (f_major (files s f)) s of
                None \<Rightarrow> Ret (-1) s
              | Some ConsoleDev \<Rightarrow> consolewrite (UserSrc addr) n s)
         | FD_INODE \<Rightarrow>
             andthen (filewrite_loop f addr 0 (nat n) s) (\<lambda>i s. Ret (if int i = n then n else -1) s)
         | FD_NONE \<Rightarrow> Panic ''filewrite''))"

text \<open>No open files, no pipes.\<close>

definition kfile0 :: kfile where
  "kfile0 = kfs.extend kfs0 (kfile.fields (\<lambda>_. \<lparr>f_type = FD_NONE, f_ref = 0, f_readable = False, f_writable = False, f_pipe = 0,
     f_ip = None, f_off = 0, f_major = 0\<rparr>) (\<lambda>_. \<lparr>pi_data = (\<lambda>_. 0), pi_nread = 0, pi_nwrite = 0, pi_readopen = False, pi_writeopen = False\<rparr>))"

end
