(* ===== verification/Pipes.thy ===== *)
theory Pipes
  imports File
begin

text \<open>
  What \<open>kernel/pipe.c\<close> promises: a pipe is a queue of at most 512 bytes. \<open>pipewrite\<close> and \<open>piperead\<close> of \<open>File\<close> append to it and take from it, sleep exactly
  when they have to, and leave nobody sleeping who could go on. The ring of the pipe is the interpretation \<open>pipe_ring\<close> of \<open>Ring\<close>.
\<close>

interpretation pipes_upd: machine_upd "upd_pipe pi f" for pi f by unfold_locales (simp_all add: upd_pipe_def)
interpretation pipes_get: machine_get pipes by unfold_locales simp_all
interpretation files_get: machine_get files by unfold_locales simp_all

lemma upd_pipe_simps [simp]:
  "pipes (upd_pipe pi f s) = (pipes s)(pi := f (pipes s pi))" "procs (upd_pipe pi f s) = procs s" "pmem (upd_pipe pi f s) = pmem s"
  "upd_pipe pi (\<lambda>x. x) s = s" "upd_pipe pi f (upd_pipe pi g s) = upd_pipe pi (\<lambda>x. f (g x)) s"
  "upd_pipe pi f s\<lparr>pmem := m\<rparr> = upd_pipe pi f (s\<lparr>pmem := m\<rparr>)"
  by (simp_all add: upd_pipe_def)

subsection \<open>A pipe as a queue\<close>

definition pipe_queue :: "pipe \<Rightarrow> u8 list" where
  "pipe_queue x = ring_list 512 (pi_data x) (pi_nread x) (pi_nwrite x)"

definition pipe_inv :: "pipe \<Rightarrow> bool" where
  "pipe_inv x \<longleftrightarrow> length (pipe_queue x) \<le> 512"

definition pipe_put :: "pipe \<Rightarrow> u8 \<Rightarrow> pipe" where
  "pipe_put x c = x\<lparr>pi_data := (pi_data x)(unat (pi_nwrite x mod PIPESIZE) := c), pi_nwrite := pi_nwrite x + 1\<rparr>"

definition pipe_get :: "pipe \<Rightarrow> pipe" where
  "pipe_get x = x\<lparr>pi_nread := pi_nread x + 1\<rparr>"

lemma length_pipe_queue: "length (pipe_queue x) = unat (pi_nwrite x - pi_nread x)"
  unfolding pipe_queue_def by (rule pipe_ring.length_ring_list)

lemma pipe_full_iff: "pi_nwrite x = pi_nread x + PIPESIZE \<longleftrightarrow> length (pipe_queue x) = 512"
proof -
  have "pi_nwrite x = pi_nread x + PIPESIZE \<longleftrightarrow> pi_nwrite x - pi_nread x = 512" by (auto simp: algebra_simps)
  also have "\<dots> \<longleftrightarrow> unat (pi_nwrite x - pi_nread x) = unat (512 :: u32)" by (rule word_unat_eq_iff)
  finally show ?thesis by (simp add: length_pipe_queue)
qed

lemma pipe_empty_iff: "pi_nread x = pi_nwrite x \<longleftrightarrow> pipe_queue x = []"
proof -
  have "pipe_queue x = [] \<longleftrightarrow> unat (pi_nwrite x - pi_nread x) = 0" by (metis length_pipe_queue length_0_conv)
  then show ?thesis by (auto simp: unat_eq_0)
qed

lemma pipe_queue_put: "length (pipe_queue x) < 512 \<Longrightarrow> pipe_queue (pipe_put x c) = pipe_queue x @ [c]"
  using pipe_ring.push [of "pi_nwrite x" "pi_nread x" "pi_data x" c] length_pipe_queue [of x]
  by (simp add: pipe_queue_def pipe_put_def unat_mod_distrib)

lemma pipe_queue_puts: "length (pipe_queue x) + length bs \<le> 512 \<Longrightarrow> pipe_queue (foldl pipe_put x bs) = pipe_queue x @ bs"
  by (induction bs arbitrary: x) (simp_all add: pipe_queue_put)

lemma pipe_queue_get:
  assumes "pipe_queue x \<noteq> []"
  shows "pipe_queue x = pi_data x (unat (pi_nread x mod PIPESIZE)) # pipe_queue (pipe_get x)"
  using pipe_ring.pop(1) [of "pi_nread x" "pi_nwrite x" "pi_data x"] assms pipe_empty_iff [of x]
  by (simp add: pipe_queue_def pipe_get_def unat_mod_distrib)

lemma pipe_queue_gets: "k \<le> length (pipe_queue x) \<Longrightarrow> pipe_queue ((pipe_get ^^ k) x) = drop k (pipe_queue x)"
proof (induction k arbitrary: x)
  case (Suc k)
  then have "pipe_queue x \<noteq> []" by auto
  note g = pipe_queue_get [OF this]
  have "k \<le> length (pipe_queue (pipe_get x))" using Suc.prems g by (metis Suc_le_mono length_Cons)
  from Suc.IH [OF this] show ?case using g by (simp add: funpow_swap1)
qed simp

lemma pipe_flags [simp]:
  "pi_readopen (foldl pipe_put x bs) = pi_readopen x" "pi_writeopen (foldl pipe_put x bs) = pi_writeopen x"
  "pi_readopen ((pipe_get ^^ k) x) = pi_readopen x" "pi_writeopen ((pipe_get ^^ k) x) = pi_writeopen x"
  by (induction bs arbitrary: x) (simp_all add: pipe_put_def, (induction k, simp_all add: pipe_get_def)+)

subsection \<open>Writing\<close>

lemma killed_eq:
  "cpu_ok s \<Longrightarrow> lock_free (ProcLock p) s \<Longrightarrow> killed p s = Ret (p_killed (procs s p)) (settle s)"
  by (simp add: killed_def Let_def)

lemma copyin_one: "copyin pt va 1 s = (if umapped pt (pmem s) va then Ret (0, user_bytes pt (pmem s) va 1) s else Ret (-1, []) s)"
proof -
  obtain k where k: "mapped_prefix pt (pmem s) va 1 k" "copyin pt va 1 s = Ret (if k = 1 then 0 else -1, user_bytes pt (pmem s) va k) s"
    using copyin_prefix by blast
  have "k = (if umapped pt (pmem s) va then 1 else 0)" using k(1) by (auto simp: mapped_prefix_def le_Suc_eq)
  then show ?thesis using k(2) by (auto simp: user_bytes_def)
qed

lemma pipewrite_run_puts:
  assumes "cpu_ok s" "noff (mycpu s) \<noteq> 0" "lock_free (ProcLock p) s" "p_killed (procs s p) = 0" "pi_readopen (pipes s pi)"
    and "\<forall>j<c. umapped (p_pagetable (procs s p)) (pmem s) (addr + of_nat (i + j))" and "length (pipe_queue (pipes s pi)) + c \<le> 512"
  shows "pipewrite_run pi p addr (c + left) i s =
     pipewrite_run pi p addr left (i + c) (upd_pipe pi (\<lambda>x. foldl pipe_put x (user_bytes (p_pagetable (procs s p)) (pmem s) (addr + of_nat i) c)) s)"
  using assms
proof (induction c arbitrary: i s)
  case (Suc c)
  let ?pt = "p_pagetable (procs s p)" and ?a = "addr + of_nat i"
  let ?b = "pmem s (uaddr ?pt (pmem s) ?a)" and ?t = "upd_pipe pi (\<lambda>x. pipe_put x (pmem s (uaddr ?pt (pmem s) ?a))) s"
  have m: "umapped ?pt (pmem s) ?a" using Suc.prems(6) [rule_format, of 0] by simp
  have nf: "pi_nwrite (pipes s pi) \<noteq> pi_nread (pipes s pi) + PIPESIZE" using Suc.prems(7) pipe_full_iff [of "pipes s pi"] by simp
  have ub: "user_bytes ?pt (pmem s) ?a (Suc c) = ?b # user_bytes ?pt (pmem s) (addr + of_nat (i + 1)) c"
    using user_bytes_add [of ?pt "pmem s" ?a 1 c] by (simp add: user_bytes_def ac_simps)
  have one: "copyin ?pt ?a 1 s = Ret (0, [?b]) s" using m unfolding copyin_one by (simp add: user_bytes_def)
  have "pipewrite_run pi p addr (Suc c + left) i s = pipewrite_run pi p addr (c + left) (i + 1) ?t"
    using Suc.prems nf one by (simp add: killed_eq pipe_put_def [abs_def] Let_def)
  also have "\<dots> = pipewrite_run pi p addr left (i + 1 + c)
      (upd_pipe pi (\<lambda>x. foldl pipe_put x (user_bytes ?pt (pmem s) (addr + of_nat (i + 1)) c)) ?t)"
  proof -
    have "\<forall>j<c. umapped ?pt (pmem s) (addr + of_nat (i + 1 + j))" using Suc.prems(6) by (metis Suc_less_eq add_Suc_right add_Suc_shift plus_1_eq_Suc add.commute)
    moreover have "length (pipe_queue (pipe_put (pipes s pi) ?b)) + c \<le> 512" using Suc.prems(7) by (simp add: pipe_queue_put)
    moreover have "pi_readopen (pipe_put (pipes s pi) ?b)" using Suc.prems(5) by (simp add: pipe_put_def)
    ultimately show ?thesis using Suc.IH [of ?t "i + 1"] Suc.prems by simp
  qed
  finally show ?case by (simp add: ub)
qed (simp add: user_bytes_def)

text \<open>A process about to use a pipe: it runs on this hart with no lock held, nobody holds the lock of the pipe or of a process, and it has not been killed.\<close>

definition pipe_user :: "u64 \<Rightarrow> nat \<Rightarrow> 'z kfile_scheme \<Rightarrow> bool" where
  "pipe_user pi p s \<longleftrightarrow> cpu_ok s \<and> noff (mycpu s) = 0 \<and> cpu_proc (mycpu s) = Some p \<and> p < NPROC \<and> p_killed (procs s p) = 0 \<and>
     lock_free (PipeLock pi) s \<and> (\<forall>q<NPROC. lock_free (ProcLock q) s) \<and> pipe_inv (pipes s pi)"

definition waits_on :: "chan \<Rightarrow> proc \<Rightarrow> bool" where
  "waits_on chan q \<longleftrightarrow> p_state q = SLEEPING \<and> p_chan q = chan"

lemma wakeup_waits:
  assumes "cpu_ok s" "\<forall>q<NPROC. lock_free (ProcLock q) s" "cpu_proc (mycpu s) = Some p" "noff (mycpu s) \<noteq> 0"
  shows "\<exists>P. wakeup chan s = Ret () (s\<lparr>procs := P\<rparr>) \<and> (\<forall>q<NPROC. q \<noteq> p \<longrightarrow> \<not> waits_on chan (P q)) \<and> P p = procs s p"
  using wakeup_eq [OF assms(1,2), of chan] assms(3,4)
  by (intro exI [of _ "\<lambda>p. if p < NPROC then wakeup_eff chan s p (procs s p) else procs s p"]) (simp add: wakeup_eff_def waits_on_def)

text \<open>The number of bytes a writer gets rid of before it has to stop: at the first address that is not mapped, or when the pipe is full.\<close>

definition fits :: "nat \<Rightarrow> u8 list \<Rightarrow> nat" where
  "fits k q = min k (512 - length q)"

lemma pipewrite_spec:
  assumes u: "pipe_user pi p s" and ro: "pi_readopen (pipes s pi)"
    and k: "mapped_prefix (p_pagetable (procs s p)) (pmem s) addr (nat n) k"
  defines "q \<equiv> pipe_queue (pipes s pi)"
  defines "c \<equiv> fits k q"
  defines "bs \<equiv> user_bytes (p_pagetable (procs s p)) (pmem s) addr c"
  shows "case pipewrite pi addr n s of
      Ret r t \<Rightarrow> (c = nat n \<or> length q + c < 512) \<and> r = int c \<and> pipes t = (pipes s)(pi := foldl pipe_put (pipes s pi) bs) \<and> pmem t = pmem s \<and>
        pipe_user pi p t \<and> (\<forall>x<NPROC. x \<noteq> p \<longrightarrow> \<not> waits_on (ChanPipeRead pi) (procs t x))
    | Block t _ \<Rightarrow> c < nat n \<and> length q + c = 512 \<and> pipes t = (pipes s)(pi := foldl pipe_put (pipes s pi) bs) \<and> pmem t = pmem s \<and>
        lock_free (PipeLock pi) t \<and> waits_on (ChanPipeWrite pi) (procs t p) \<and> (\<forall>x<NPROC. x \<noteq> p \<longrightarrow> \<not> waits_on (ChanPipeRead pi) (procs t x))
    | Panic _ \<Rightarrow> False"
proof -
  let ?a = "acq (PipeLock pi) s" and ?pt = "p_pagetable (procs s p)"
  define b where "b = upd_pipe pi (\<lambda>x. foldl pipe_put x bs) ?a"
  have s: "cpu_ok s" "noff (mycpu s) = 0" "cpu_proc (mycpu s) = Some p" "p < NPROC" "p_killed (procs s p) = 0" "lock_free (PipeLock pi) s"
    "\<forall>q<NPROC. lock_free (ProcLock q) s" "length q \<le> 512"
    using u by (simp_all add: pipe_user_def pipe_inv_def q_def)
  have c: "c \<le> nat n" "c \<le> k" "length q + c \<le> 512" using k s(8) by (auto simp: c_def fits_def mapped_prefix_def)
  have lb: "length bs = c" by (simp add: bs_def user_bytes_def)
  have "pipewrite_run pi p addr (c + (nat n - c)) 0 ?a = pipewrite_run pi p addr (nat n - c) (0 + c) b"
    using s c k ro pipewrite_run_puts [of ?a p pi c addr 0 "nat n - c"] unfolding b_def bs_def by (simp add: q_def mapped_prefix_def)
  then have run: "pipewrite pi addr n s = andthen (pipewrite_run pi p addr (nat n - c) c b)
      (\<lambda>r t. case r of Inl y \<Rightarrow> Block t (loop (\<lambda>(left, i) s. pipewrite_run pi p addr left i s) y) | Inr a \<Rightarrow> Ret a t)"
    using s c by (simp add: pipewrite_def loop_unfold)
  have bp: "cpu_ok b" "noff (mycpu b) = 1" "cpu_proc (mycpu b) = Some p" "\<forall>q<NPROC. lock_free (ProcLock q) b" "p_killed (procs b p) = 0" "pi_readopen (pipes b pi)"
    "holding (PipeLock pi) b" "lock_held (PipeLock pi) b" "pipe_queue (pipes b pi) = q @ bs" "procs b p = procs s p" "pmem b = pmem s" "pipes b = (pipes s)(pi := foldl pipe_put (pipes s pi) bs)"
    using s ro c pipe_queue_puts [of "pipes s pi" bs] lb by (simp_all add: b_def q_def)
  obtain P where P: "wakeup (ChanPipeRead pi) b = Ret () (b\<lparr>procs := P\<rparr>)" "\<forall>q<NPROC. q \<noteq> p \<longrightarrow> \<not> waits_on (ChanPipeRead pi) (P q)" "P p = procs s p"
    using wakeup_waits [of b p "ChanPipeRead pi"] bp by auto
  have end_: "andthen (wakeup (ChanPipeRead pi) b) (\<lambda>_ s. andthen (release (PipeLock pi) s) (\<lambda>_ s. Ret r s)) = Ret r ((upd_pipe pi (\<lambda>x. foldl pipe_put x bs) (settle s))\<lparr>procs := P\<rparr>)" for r :: "nat \<times> nat + int"
    using s bp(8) unfolding P(1) by (simp add: b_def)
  have pu: "pipe_user pi p ((upd_pipe pi (\<lambda>x. foldl pipe_put x bs) (settle s))\<lparr>procs := P\<rparr>)"
    using s P(3) bp(9,12) c lb by (simp add: pipe_user_def pipe_inv_def)
  consider "c = nat n" | "c < nat n" "length q + c < 512" | "c < nat n" "length q + c = 512" using c by linarith
  then show ?thesis
  proof cases
    case 1
    then have "pipewrite pi addr n s = Ret (int c) ((upd_pipe pi (\<lambda>x. foldl pipe_put x bs) (settle s))\<lparr>procs := P\<rparr>)"
      using end_ [of "Inr (int c)"] by (simp add: run)
    then show ?thesis using pu P 1 by simp
  next
    case 2
    then have "c = k" by (auto simp: c_def fits_def)
    then have "\<not> umapped (p_pagetable (procs b p)) (pmem b) (addr + of_nat c)" using k 2(1) bp by (simp add: mapped_prefix_def)
    then have "copyin (p_pagetable (procs b p)) (addr + of_nat c) 1 b = Ret (-1, []) b" by (simp only: copyin_one if_False)
    moreover obtain l where "nat n - c = Suc l" using 2(1) by (metis Suc_diff_Suc)
    moreover have "pi_nwrite (pipes b pi) \<noteq> pi_nread (pipes b pi) + PIPESIZE" using 2 bp(9) lb pipe_full_iff [of "pipes b pi"] by simp
    ultimately have "pipewrite pi addr n s = Ret (int c) ((upd_pipe pi (\<lambda>x. foldl pipe_put x bs) (settle s))\<lparr>procs := P\<rparr>)"
      using end_ [of "Inr (int c)"] bp s(4) by (simp add: run killed_eq)
    then show ?thesis using pu P 2 by simp
  next
    case 3
    have "pi_nwrite (pipes b pi) = pi_nread (pipes b pi) + PIPESIZE" using 3 bp(9) lb pipe_full_iff [of "pipes b pi"] by simp
    moreover obtain l where l: "nat n - c = Suc l" using 3(1) by (metis Suc_diff_Suc)
    ultimately have r: "pipewrite_run pi p addr (nat n - c) c b = andthen (sleep (ChanPipeWrite pi) (PipeLock pi) (b\<lparr>procs := P\<rparr>)) (\<lambda>_ s. Ret (Inl (Suc l, c)) s)"
      using bp s(4) by (simp add: killed_eq P(1))
    have "holding (PipeLock pi) (b\<lparr>procs := P\<rparr>)" "cpu_ok (b\<lparr>procs := P\<rparr>)" "cpu_proc (mycpu (b\<lparr>procs := P\<rparr>)) = Some p" "noff (mycpu (b\<lparr>procs := P\<rparr>)) = 1" "lock_free (ProcLock p) (b\<lparr>procs := P\<rparr>)"
      using bp s(4) by simp_all
    from sleep_eq [OF this(2,3,1,4) _ this(5), of "ChanPipeWrite pi"]
    obtain K where sl: "sleep (ChanPipeWrite pi) (PipeLock pi) (b\<lparr>procs := P\<rparr>) = Block (asleep p (ChanPipeWrite pi) (PipeLock pi) (b\<lparr>procs := P\<rparr>)) K" by auto
    let ?t = "asleep p (ChanPipeWrite pi) (PipeLock pi) (b\<lparr>procs := P\<rparr>)"
    obtain K' where "pipewrite pi addr n s = Block ?t K'" by (simp add: run r sl)
    moreover have "pipes ?t = pipes b" "pmem ?t = pmem b" "lock_free (PipeLock pi) ?t" "procs ?t = P(p := (P p)\<lparr>p_chan := ChanPipeWrite pi, p_state := SLEEPING\<rparr>)"
      by (simp_all add: asleep_def upd_proc_def)
    ultimately show ?thesis using 3 P bp by (simp add: waits_on_def)
  qed
qed

subsection \<open>Reading\<close>

lemma user_private_less: "user_private pt m va n \<Longrightarrow> k \<le> n \<Longrightarrow> user_private pt m va k"
  unfolding user_private_def by (meson less_le_trans)

lemma user_private_bytes:
  assumes "user_private pt m va n" and "\<forall>i<n. m' (uaddr pt m (va + of_nat i)) = bs ! i" and "\<forall>x. (\<forall>i<n. x \<noteq> uaddr pt m (va + of_nat i)) \<longrightarrow> m' x = m x" and "length bs = n"
  shows "user_bytes pt m' va n = bs"
  using assms(2,4) user_private_frame(2) [OF assms(1,3)] by (auto simp: user_bytes_def intro: nth_equalityI)

lemma piperead_copy_gets:
  assumes "user_private (p_pagetable (procs s p)) (pmem s) (addr + of_nat i) c" and "c \<le> length (pipe_queue (pipes s pi))"
  shows "\<exists>m'. piperead_copy pi p addr (c + left) i s = piperead_copy pi p addr left (i + c) (upd_pipe pi (pipe_get ^^ c) (s\<lparr>pmem := m'\<rparr>)) \<and>
     (\<forall>j<c. m' (uaddr (p_pagetable (procs s p)) (pmem s) (addr + of_nat i + of_nat j)) = pipe_queue (pipes s pi) ! j) \<and>
     (\<forall>x. (\<forall>j<c. x \<noteq> uaddr (p_pagetable (procs s p)) (pmem s) (addr + of_nat i + of_nat j)) \<longrightarrow> m' x = pmem s x)"
  using assms
proof (induction c arbitrary: i s)
  case 0
  then show ?case by (intro exI [of _ "pmem s"]) (simp add: id_def)
next
  case (Suc c)
  let ?pt = "p_pagetable (procs s p)" and ?a = "addr + of_nat i" and ?q = "pipe_queue (pipes s pi)"
  let ?ua = "\<lambda>j. uaddr ?pt (pmem s) (?a + of_nat j)"
  define ch where "ch = pi_data (pipes s pi) (unat (pi_nread (pipes s pi) mod PIPESIZE))"
  have q: "?q \<noteq> []" using Suc.prems(2) by auto
  have q': "?q = ch # pipe_queue (pipe_get (pipes s pi))" using pipe_queue_get [OF q] by (simp add: ch_def)
  let ?s = "upd_pipe pi pipe_get s"
  have "user_private ?pt (pmem ?s) ?a (length [ch])" using user_private_less [OF Suc.prems(1), of 1] by simp
  from copyout_private [OF this] obtain m1 where m1: "copyout ?pt ?a [ch] ?s = Ret 0 (?s\<lparr>pmem := m1\<rparr>)" "m1 (?ua 0) = ch" "\<forall>x. x \<noteq> ?ua 0 \<longrightarrow> m1 x = pmem s x" by auto
  have fr: "\<forall>x. (\<forall>j<Suc c. x \<noteq> ?ua j) \<longrightarrow> m1 x = pmem s x" using m1(3) by blast
  have pr: "user_private ?pt m1 ?a (Suc c)" by (rule user_private_cong [OF Suc.prems(1) fr])
  have nx: "addr + of_nat (i + 1) + of_nat j = ?a + of_nat (Suc j)" for j :: nat by (simp add: ac_simps)
  have ua: "uaddr ?pt m1 (addr + of_nat (i + 1) + of_nat j) = ?ua (Suc j)" if "j < c" for j
    unfolding nx using user_private_frame(2) [OF Suc.prems(1) fr, of "Suc j"] that by simp
  let ?t = "upd_pipe pi pipe_get (s\<lparr>pmem := m1\<rparr>)"
  have "user_private ?pt (pmem ?t) (addr + of_nat (i + 1)) c" using user_private_drop [of ?pt m1 ?a 1 c] pr by (simp add: ac_simps)
  moreover have "c \<le> length (pipe_queue (pipes ?t pi))" using Suc.prems(2) arg_cong [OF q', of length] by simp
  ultimately obtain m' where m': "piperead_copy pi p addr (c + left) (i + 1) ?t = piperead_copy pi p addr left (i + 1 + c) (upd_pipe pi (pipe_get ^^ c) (?t\<lparr>pmem := m'\<rparr>))"
    "\<forall>j<c. m' (?ua (Suc j)) = ?q ! Suc j" "\<forall>x. (\<forall>j<c. x \<noteq> ?ua (Suc j)) \<longrightarrow> m' x = m1 x"
    using Suc.IH [of ?t "i + 1"] ua q' by auto
  have "pi_nread (pipes s pi) \<noteq> pi_nwrite (pipes s pi)" using q pipe_empty_iff [of "pipes s pi"] by simp
  then have "piperead_copy pi p addr (Suc c + left) i s = piperead_copy pi p addr (c + left) (i + 1) ?t"
    using m1(1) by (simp add: Let_def ch_def pipe_get_def [abs_def])
  moreover have "upd_pipe pi (pipe_get ^^ c) (?t\<lparr>pmem := m'\<rparr>) = upd_pipe pi (pipe_get ^^ Suc c) (s\<lparr>pmem := m'\<rparr>)" by (simp add: funpow_Suc_right comp_def del: funpow.simps)
  moreover have "m' (?ua j) = ?q ! j" if "j < Suc c" for j
  proof (cases j)
    case 0
    have "?ua 0 \<noteq> ?ua (Suc l)" if "l < c" for l using Suc.prems(1) that unfolding user_private_def by (metis Suc_less_eq nat.distinct(1) zero_less_Suc)
    then show ?thesis using 0 m'(3) m1(2) q' by simp
  qed (use that m'(2) in simp)
  moreover have "m' x = pmem s x" if "\<forall>j<Suc c. x \<noteq> ?ua j" for x using that m'(3) fr by (metis Suc_less_eq)
  ultimately show ?case using m'(1) by (intro exI [of _ m']) (simp add: comp_def)
qed

lemma piperead_spec:
  fixes n :: int and addr :: u64
  assumes u: "pipe_user pi p s"
  defines "q \<equiv> pipe_queue (pipes s pi)" and "pt \<equiv> p_pagetable (procs s p)"
  defines "c \<equiv> min (nat n) (length q)"
  assumes pr: "user_private pt (pmem s) addr c"
  shows "case piperead pi addr n s of
      Ret r t \<Rightarrow> (q \<noteq> [] \<or> \<not> pi_writeopen (pipes s pi)) \<and> r = int c \<and> pipes t = (pipes s)(pi := (pipe_get ^^ c) (pipes s pi)) \<and>
        user_bytes pt (pmem t) addr c = take c q \<and> (\<forall>x. (\<forall>i<c. x \<noteq> uaddr pt (pmem s) (addr + of_nat i)) \<longrightarrow> pmem t x = pmem s x) \<and>
        pipe_user pi p t \<and> (\<forall>x<NPROC. x \<noteq> p \<longrightarrow> \<not> waits_on (ChanPipeWrite pi) (procs t x))
    | Block t _ \<Rightarrow> q = [] \<and> pi_writeopen (pipes s pi) \<and> pipes t = pipes s \<and> pmem t = pmem s \<and> lock_free (PipeLock pi) t \<and> waits_on (ChanPipeRead pi) (procs t p)
    | Panic _ \<Rightarrow> False"
proof -
  let ?a = "acq (PipeLock pi) s"
  have s: "cpu_ok s" "noff (mycpu s) = 0" "cpu_proc (mycpu s) = Some p" "p < NPROC" "p_killed (procs s p) = 0" "lock_free (PipeLock pi) s"
    "\<forall>q<NPROC. lock_free (ProcLock q) s" "length q \<le> 512"
    using u by (simp_all add: pipe_user_def pipe_inv_def q_def)
  have ap: "cpu_ok ?a" "noff (mycpu ?a) = 1" "cpu_proc (mycpu ?a) = Some p" "lock_free (ProcLock p) ?a" "p_killed (procs ?a p) = 0" "holding (PipeLock pi) ?a"
    using s by simp_all
  have emp: "pi_nread (pipes s pi) = pi_nwrite (pipes s pi) \<longleftrightarrow> q = []" using pipe_empty_iff by (simp add: q_def)
  show ?thesis
  proof (cases "q = [] \<and> pi_writeopen (pipes s pi)")
    case True
    from sleep_eq [OF ap(1,3,6,2) _ ap(4), of "ChanPipeRead pi"]
    obtain K where sl: "sleep (ChanPipeRead pi) (PipeLock pi) ?a = Block (asleep p (ChanPipeRead pi) (PipeLock pi) ?a) K" by auto
    let ?t = "asleep p (ChanPipeRead pi) (PipeLock pi) ?a"
    obtain K' where "piperead pi addr n s = Block ?t K'" using True s ap emp by (simp add: piperead_def loop_unfold killed_eq sl)
    moreover have "pipes ?t = pipes s" "pmem ?t = pmem s" "lock_free (PipeLock pi) ?t" "p_chan (procs ?t p) = ChanPipeRead pi" "p_state (procs ?t p) = SLEEPING"
      by (simp_all add: asleep_def upd_proc_def)
    ultimately show ?thesis using True by (simp add: waits_on_def)
  next
    case False
    have c: "c \<le> nat n" "c \<le> length q" by (simp_all add: c_def)
    obtain m' where m': "piperead_copy pi p addr (c + (nat n - c)) 0 ?a = piperead_copy pi p addr (nat n - c) (0 + c) (upd_pipe pi (pipe_get ^^ c) (?a\<lparr>pmem := m'\<rparr>))"
      "\<forall>j<c. m' (uaddr pt (pmem s) (addr + of_nat j)) = q ! j" "\<forall>x. (\<forall>j<c. x \<noteq> uaddr pt (pmem s) (addr + of_nat j)) \<longrightarrow> m' x = pmem s x"
      using piperead_copy_gets [of ?a p addr 0 c pi "nat n - c"] pr c by (auto simp: pt_def q_def)
    let ?b = "upd_pipe pi (pipe_get ^^ c) (?a\<lparr>pmem := m'\<rparr>)"
    have qb: "pipe_queue (pipes ?b pi) = drop c q" using pipe_queue_gets c(2) by (simp add: q_def)
    have "piperead_copy pi p addr (nat n - c) c ?b = Ret c ?b"
    proof (cases "nat n - c")
      case (Suc l)
      then have "pipe_queue (pipes ?b pi) = []" unfolding qb by (auto simp: c_def)
      then show ?thesis using pipe_empty_iff [of "pipes ?b pi"] Suc by simp
    qed simp
    then have copy: "piperead_copy pi p addr (nat n) 0 ?a = Ret c ?b" using m'(1) c(1) by simp
    obtain P where P: "wakeup (ChanPipeWrite pi) ?b = Ret () (?b\<lparr>procs := P\<rparr>)" "\<forall>q<NPROC. q \<noteq> p \<longrightarrow> \<not> waits_on (ChanPipeWrite pi) (P q)" "P p = procs s p"
      using wakeup_waits [of ?b p "ChanPipeWrite pi"] s by auto
    let ?t = "(upd_pipe pi (pipe_get ^^ c) (settle s\<lparr>pmem := m'\<rparr>))\<lparr>procs := P\<rparr>"
    have run: "piperead pi addr n s = Ret (int c) ?t"
      using False s ap emp copy P(1) by (auto simp: piperead_def loop_unfold)
    have "pipe_user pi p ?t" using s P(3) qb by (simp add: pipe_user_def pipe_inv_def)
    moreover have "user_bytes pt m' addr c = take c q"
      using user_private_bytes [OF pr, of m' "take c q"] m'(2,3) c by simp
    ultimately show ?thesis using False m'(3) P(2) by (simp add: run)
  qed
qed

text \<open>When the destination is not mapped, the byte that was to be copied is gone: \<open>nread\<close> is advanced before \<open>copyout\<close>.\<close>

lemma piperead_loses_byte:
  assumes "pi_nread (pipes s pi) \<noteq> pi_nwrite (pipes s pi)" and "\<not> umapped (p_pagetable (procs s p)) (pmem s) addr"
  shows "returns (piperead_copy pi p addr (Suc n) 0 s) (\<lambda>r t. r = 0 \<and> pipe_queue (pipes t pi) = tl (pipe_queue (pipes s pi)))"
proof -
  have "copyout (p_pagetable (procs s p)) addr [ch] t = Ret (-1) t" if "pmem t = pmem s" for ch and t :: "'a kfile_scheme"
    using assms(2) that by (subst copyout.simps) (simp add: walkaddr_eq umapped_def)
  moreover have "pipe_queue (pipes s pi) \<noteq> []" using assms(1) pipe_empty_iff [of "pipes s pi"] by simp
  ultimately show ?thesis using assms(1) pipe_queue_get [of "pipes s pi"] by (simp add: Let_def) (metis list.sel(3) pipe_get_def)
qed

subsection \<open>Properties\<close>

text \<open>Property C24: a write to a pipe appends to a bounded queue. Of the bytes the caller has mapped, as many as fit are appended to the pipe in order, also when the
  counters wrap around. If that is all, or if the copy met an unmapped address, \<open>pipewrite\<close> returns their number; otherwise the pipe is
  full and the writer sleeps on it, with the lock free. Either way nobody is left waiting for data, and no memory and no other pipe changes.\<close>

theorem pipewrite_fifo:
  assumes "pipe_user pi p s" and "pi_readopen (pipes s pi)"
    and "mapped_prefix (p_pagetable (procs s p)) (pmem s) addr (nat n) k"
  shows "let q = pipe_queue (pipes s pi); c = min k (512 - length q); bs = user_bytes (p_pagetable (procs s p)) (pmem s) addr c in
    case pipewrite pi addr n s of
      Ret r t \<Rightarrow> (c = nat n \<or> length q + c < 512) \<and> r = int c \<and> pipe_queue (pipes t pi) = q @ bs \<and> (\<forall>pj. pj \<noteq> pi \<longrightarrow> pipes t pj = pipes s pj) \<and> pmem t = pmem s \<and>
        pipe_user pi p t \<and> (\<forall>x<NPROC. x \<noteq> p \<longrightarrow> \<not> waits_on (ChanPipeRead pi) (procs t x))
    | Block t _ \<Rightarrow> c < nat n \<and> length q + c = 512 \<and> pipe_queue (pipes t pi) = q @ bs \<and> (\<forall>pj. pj \<noteq> pi \<longrightarrow> pipes t pj = pipes s pj) \<and> pmem t = pmem s \<and>
        lock_free (PipeLock pi) t \<and> waits_on (ChanPipeWrite pi) (procs t p) \<and> (\<forall>x<NPROC. x \<noteq> p \<longrightarrow> \<not> waits_on (ChanPipeRead pi) (procs t x))
    | Panic _ \<Rightarrow> False"
proof -
  let ?q = "pipe_queue (pipes s pi)" let ?c = "min k (512 - length ?q)" let ?bs = "user_bytes (p_pagetable (procs s p)) (pmem s) addr ?c"
  have "length ?q \<le> 512" using assms(1) by (simp add: pipe_user_def pipe_inv_def)
  then have "length ?q + length ?bs \<le> 512" by (simp add: user_bytes_def)
  note q = pipe_queue_puts [OF this]
  show ?thesis using pipewrite_spec [OF assms] q unfolding fits_def Let_def by (auto split: outcome.splits)
qed

text \<open>Property C25: a read from a pipe takes from the front of the queue. A reader of an empty pipe with an open writing end sleeps, with the lock free and nothing
  changed. Otherwise \<open>piperead\<close> returns the first \<open>n\<close> bytes of the queue, or all if there are fewer (none at the end of the file), stored in
  order at the caller's address and nowhere else, the rest stays, and nobody is left waiting for room.\<close>

theorem piperead_fifo:
  assumes "pipe_user pi p s" and "user_private (p_pagetable (procs s p)) (pmem s) addr (min (nat n) (length (pipe_queue (pipes s pi))))"
  shows "let q = pipe_queue (pipes s pi); pt = p_pagetable (procs s p); c = min (nat n) (length q) in
    case piperead pi addr n s of
      Ret r t \<Rightarrow> (q \<noteq> [] \<or> \<not> pi_writeopen (pipes s pi)) \<and> r = int c \<and> pipe_queue (pipes t pi) = drop c q \<and> (\<forall>pj. pj \<noteq> pi \<longrightarrow> pipes t pj = pipes s pj) \<and>
        user_bytes pt (pmem t) addr c = take c q \<and> (\<forall>x. (\<forall>i<c. x \<noteq> uaddr pt (pmem s) (addr + of_nat i)) \<longrightarrow> pmem t x = pmem s x) \<and>
        pipe_user pi p t \<and> (\<forall>x<NPROC. x \<noteq> p \<longrightarrow> \<not> waits_on (ChanPipeWrite pi) (procs t x))
    | Block t _ \<Rightarrow> q = [] \<and> pi_writeopen (pipes s pi) \<and> pipes t = pipes s \<and> pmem t = pmem s \<and> lock_free (PipeLock pi) t \<and> waits_on (ChanPipeRead pi) (procs t p)
    | Panic _ \<Rightarrow> False"
proof -
  note q = pipe_queue_gets [of "min (nat n) (length (pipe_queue (pipes s pi)))" "pipes s pi"]
  show ?thesis using piperead_spec [OF assms] q unfolding Let_def by (auto split: outcome.splits)
qed

subsection \<open>Witnesses\<close>

text \<open>A process with three bytes of memory, and a pipe whose counters are about to wrap around.\<close>

definition kpipe :: "pipe \<Rightarrow> kfile" where
  "kpipe x = kfile0\<lparr>pmem := demo_mem, procs := demo_table(1 := (demo_table 1)\<lparr>p_state := RUNNING, p_pagetable := 0x80001000\<rparr>), pipes := (\<lambda>_. x)\<rparr>"

definition demo_pipe :: "u32 \<Rightarrow> pipe" where
  "demo_pipe w = \<lparr>pi_data = (\<lambda>_. 0)(510 := 7, 511 := 8, 0 := 9), pi_nread = 0xfffffffe, pi_nwrite = w, pi_readopen = True, pi_writeopen = True\<rparr>"

lemma demo_pipe_queue: "pipe_queue (demo_pipe 0xfffffffe) = []" "pipe_queue (demo_pipe 1) = [7, 8, 9]"
  by (simp_all add: demo_pipe_def pipe_queue_def ring_list_def upt_conv_Cons)

lemma kpipe_fields: "pipes (kpipe x) a = x" "pmem (kpipe x) = demo_mem" "p_pagetable (procs (kpipe x) 1) = 0x80001000"
  "length (pipe_queue x) \<le> 512 \<Longrightarrow> pipe_user a 1 (kpipe x)"
  by (simp_all add: kpipe_def kfile0_def kfile.defs kfs0_def kfs.defs klog0_def klog.defs kbio0_defs pipe_user_def pipe_inv_def lock_free_def cpu_ok_def demo_table_def blank_proc_def)

theorem pipewrite_fifo_witness:
  "returns (pipewrite 0x80200000 0x1000 3 (kpipe (demo_pipe 0xfffffffe))) (\<lambda>r t. r = 3 \<and> length (pipe_queue (pipes t 0x80200000)) = 3)"
proof -
  have "mapped_prefix 0x80001000 demo_mem 0x1000 3 3" using demo_private by (simp add: mapped_prefix_def user_private_def)
  moreover have "pipe_user 0x80200000 1 (kpipe (demo_pipe 0xfffffffe))" by (rule kpipe_fields) (simp add: demo_pipe_queue)
  ultimately show ?thesis using pipewrite_fifo [of "0x80200000" 1 "kpipe (demo_pipe 0xfffffffe)" "0x1000" 3 3] demo_pipe_queue(1)
    by (simp add: kpipe_fields demo_pipe_def Let_def user_bytes_def split: outcome.splits del: One_nat_def)
qed

theorem piperead_fifo_witness:
  "returns (piperead 0x80200000 0x1000 10 (kpipe (demo_pipe 1))) (\<lambda>r t. r = 3 \<and> user_bytes 0x80001000 (pmem t) 0x1000 3 = [7, 8, 9] \<and> pipe_queue (pipes t 0x80200000) = [])"
proof -
  have l: "length [7, 8, 9 :: u8] = 3" by simp
  have "pipe_user 0x80200000 1 (kpipe (demo_pipe 1))" by (rule kpipe_fields) (simp add: demo_pipe_queue)
  then show ?thesis using piperead_fifo [of "0x80200000" 1 "kpipe (demo_pipe 1)" "0x1000" 10] demo_private
    unfolding kpipe_fields demo_pipe_queue l Let_def by (simp split: outcome.splits del: One_nat_def)
qed

end
