(* ===== verification/Bcache.thy ===== *)
theory Bcache
  imports Bio
begin

text \<open>
  The buffer cache of \<open>kernel/bio.c\<close> as its clients see it. The doubly linked ring of buffers refines a list in order of recent use
  (\<open>ring\<close>); the cache with its reference counts and sleep locks refines a disk (\<open>view\<close>) with a set of pinned blocks and a set of
  buffers the running process holds (\<open>held\<close>). Each operation of the cache is specified on that abstract state.
\<close>

interpretation sleeplocks_upd: machine_upd "sleeplocks_update f" for f by unfold_locales simp_all
interpretation bufs_upd: machine_upd "bufs_update f" for f by unfold_locales simp_all
interpretation upd_buf_upd: machine_upd "upd_buf b f" for b f by unfold_locales (simp_all add: upd_buf_def)
interpretation sleeplocks_get: machine_get sleeplocks by unfold_locales simp_all
interpretation bufs_get: machine_get bufs by unfold_locales simp_all
interpretation platter_get: machine_get platter by unfold_locales simp_all
interpretation disk_writes_get: machine_get disk_writes by unfold_locales simp_all
interpretation kbio_more_get: machine_get kbio.more by unfold_locales simp_all

definition quiet :: "nat \<Rightarrow> 'z machine_scheme \<Rightarrow> bool" where
  "quiet p s \<longleftrightarrow> cpu_ok s \<and> (\<forall>lk. lock_free lk s) \<and> cpu_proc (mycpu s) = Some p"

lemma quiet_settle [simp]: "quiet p (settle s) = quiet p s"
  by (simp add: quiet_def)

lemma quietD:
  assumes "quiet p s"
  shows "cpu_ok s" and "lock_free lk s" and "cpu_proc (mycpu s) = Some p"
  using assms by (auto simp: quiet_def)

lemma acquiresleep_eq:
  assumes "quiet p s" and "sl_locked (sleeplocks s lk) = 0"
  shows "acquiresleep lk s = Ret () ((settle s)\<lparr>sleeplocks :=
     (sleeplocks s)(lk := (sleeplocks s lk)\<lparr>sl_locked := 1, sl_pid := p_pid (procs s p)\<rparr>)\<rparr>)"
  using assms by (simp add: acquiresleep_def quietD loop_unfold)

lemma holdingsleep_eq:
  assumes "quiet p s"
  shows "holdingsleep lk s =
     Ret (sl_locked (sleeplocks s lk) \<noteq> 0 \<and> sl_pid (sleeplocks s lk) = p_pid (procs s p)) (settle s)"
  using assms by (simp add: holdingsleep_def quietD)

lemma releasesleep_eq:
  assumes "quiet p s" and "\<forall>q. lk \<noteq> ProcLock q"
  shows "releasesleep lk s = Ret () ((settle s)\<lparr>sleeplocks :=
       (sleeplocks s)(lk := (sleeplocks s lk)\<lparr>sl_locked := 0, sl_pid := 0\<rparr>),
     procs := (\<lambda>q. if q < NPROC then wakeup_eff (sl_chan lk) s q (procs s q) else procs s q)\<rparr>)"
proof -
  have "wakeup_eff c ((acq lk s)\<lparr>sleeplocks := x\<rparr>) = wakeup_eff c s" for c x
    by (simp add: wakeup_eff_def fun_eq_iff)
  then show ?thesis using assms by (simp add: releasesleep_def quietD wakeup_eq Let_def cong: if_cong)
qed

subsection \<open>The ring of buffers\<close>

text \<open>\<open>linked B xs\<close>: neighbours in \<open>xs\<close> point to each other. The cache is a ring through the head: the list \<open>ls\<close> is the
  order of recent use, the most recently used buffer first.\<close>

definition linked :: "(nat \<Rightarrow> buf) \<Rightarrow> nat list \<Rightarrow> bool" where
  "linked B = successively (\<lambda>x y. b_next (B x) = y \<and> b_prev (B y) = x)"

definition ring :: "(nat \<Rightarrow> buf) \<Rightarrow> nat list \<Rightarrow> bool" where
  "ring B ls \<longleftrightarrow> distinct ls \<and> set ls = {0..<NBUF} \<and> linked B (bhead # ls @ [bhead])"

lemma successively_weaken:
  assumes "successively P xs" and "distinct xs"
    and "\<And>x y. x \<in> set (butlast xs) \<Longrightarrow> y \<in> set (tl xs) \<Longrightarrow> P x y \<Longrightarrow> Q x y"
  shows "successively Q xs"
  using assms
proof (induction xs rule: induct_list012)
  case (3 x y zs)
  have "Q x y" using 3(3,5) by auto
  moreover have "successively Q (y # zs)"
    using 3(3,4) by (intro 3(2)) (auto intro!: 3(5))
  ultimately show ?case by simp
qed simp_all

lemma find_cached_linked:
  assumes "linked B (b # ls @ [bhead])" and "bhead \<notin> set ls" and "length ls < fuel"
  shows "find_cached fuel (b_next (B b)) dev n B = find (\<lambda>c. b_dev (B c) = dev \<and> b_blockno (B c) = n) ls"
  using assms
proof (induction ls arbitrary: b fuel)
  case Nil
  then show ?case by (cases fuel) (simp_all add: linked_def)
next
  case (Cons c ls)
  then obtain f where f: "fuel = Suc f" by (cases fuel) auto
  have "b_next (B b) = c" "linked B (c # ls @ [bhead])" using Cons.prems by (simp_all add: linked_def)
  then show ?case using Cons.prems Cons.IH [of c f] f by auto
qed

lemma find_free_linked:
  assumes "linked B (bhead # ls @ [b])" and "bhead \<notin> set ls" and "length ls < fuel"
  shows "find_free fuel (b_prev (B b)) B = find (\<lambda>c. b_refcnt (B c) = 0) (rev ls)"
  using assms
proof (induction ls arbitrary: b fuel rule: rev_induct)
  case Nil
  then show ?case by (cases fuel) (simp_all add: linked_def)
next
  case (snoc c ls)
  then obtain f where f: "fuel = Suc f" by (cases fuel) auto
  have "linked B ((bhead # ls) @ [c, b])" using snoc.prems(1) by simp
  then have "b_prev (B b) = c" "linked B ((bhead # ls) @ [c])"
    unfolding linked_def successively_append_iff [of _ "bhead # ls"] by simp_all
  then show ?case using snoc.prems snoc.IH [of c f] f by auto
qed

lemma ring_length: "ring B ls \<Longrightarrow> length ls = NBUF"
  using distinct_card [of ls] by (auto simp: ring_def)

lemma ring_find_cached:
  "ring B ls \<Longrightarrow> find_cached 31 (b_next (B bhead)) dev n B = find (\<lambda>c. b_dev (B c) = dev \<and> b_blockno (B c) = n) ls"
  using ring_length [of B ls] by (intro find_cached_linked) (auto simp: ring_def)

lemma ring_find_free: "ring B ls \<Longrightarrow> find_free 31 (b_prev (B bhead)) B = find (\<lambda>c. b_refcnt (B c) = 0) (rev ls)"
  using ring_length [of B ls] by (intro find_free_linked) (auto simp: ring_def)

lemma linked_cong: "(\<And>b. b_next (B' b) = b_next (B b) \<and> b_prev (B' b) = b_prev (B b)) \<Longrightarrow> linked B' xs = linked B xs"
  by (simp add: linked_def)

lemma ring_cong: "(\<And>b. b_next (B' b) = b_next (B b) \<and> b_prev (B' b) = b_prev (B b)) \<Longrightarrow> ring B' ls = ring B ls"
  by (simp add: ring_def linked_cong [of B' B])

text \<open>Taking a buffer out of the ring and putting it behind the head, pointer by pointer as \<open>brelse\<close> does.\<close>

definition to_front :: "nat \<Rightarrow> (nat \<Rightarrow> buf) \<Rightarrow> (nat \<Rightarrow> buf)" where
  "to_front b B =
     (let B = B(b_next (B b) := (B (b_next (B b)))\<lparr>b_prev := b_prev (B b)\<rparr>);
          B = B(b_prev (B b) := (B (b_prev (B b)))\<lparr>b_next := b_next (B b)\<rparr>);
          B = B(b := (B b)\<lparr>b_next := b_next (B bhead), b_prev := bhead\<rparr>);
          B = B(b_next (B bhead) := (B (b_next (B bhead)))\<lparr>b_prev := b\<rparr>)
      in B(bhead := (B bhead)\<lparr>b_next := b\<rparr>))"

lemma ring_to_front:
  assumes r: "ring B ls" and b: "b < NBUF"
  shows "ring (to_front b B) (b # remove1 b ls)"
proof -
  obtain us vs where ls: "ls = us @ b # vs" "b \<notin> set us"
    using r b split_list_first [of b ls] by (auto simp: ring_def)
  define L R where "L = last (bhead # us)" and "R = hd (vs @ [bhead])"
  have d: "distinct (us @ b # vs)" "set (us @ b # vs) = {0..<NBUF}" using r ls by (auto simp: ring_def)
  have no: "bhead \<notin> set us" "bhead \<notin> set vs" "b \<noteq> bhead" using d(2) b by auto
  let ?P = "\<lambda>B x y. b_next (B x) = y \<and> b_prev (B y) = x"
  have "linked B ((bhead # us) @ b # vs @ [bhead])" using r ls by (simp add: ring_def)
  then have l: "successively (?P B) (bhead # us)" "b_prev (B b) = L" "b_next (B L) = b" "b_next (B b) = R" "b_prev (B R) = b"
    "successively (?P B) (vs @ [bhead])"
    unfolding linked_def successively_append_iff [of _ "bhead # us"] L_def R_def
    by (auto simp: successively_Cons)
  have Rin: "R \<in> set vs \<or> R = bhead" unfolding R_def by (cases vs) auto
  then have Rb: "R \<noteq> b" "R \<notin> set us" using d no by auto
  let ?B = "to_front b B"
  have vs: "successively (?P ?B) (vs @ [bhead])" if "\<And>x y. x \<in> set vs \<Longrightarrow> y \<in> set (tl (vs @ [bhead])) \<Longrightarrow>
      b_next (?B x) = b_next (B x) \<and> b_prev (?B y) = b_prev (B y)"
    by (rule successively_weaken [OF l(6)]) (use d no that in auto)
  have tlR: "R \<notin> set (tl (vs @ [bhead]))" using d no by (cases vs) (auto simp: R_def)
  have tlv: "y \<in> set vs \<or> y = bhead" if "y \<in> set (tl (vs @ [bhead]))" for y
    using that by (cases vs) auto
  have "linked ?B (bhead # b # (us @ vs) @ [bhead])"
  proof (cases us)
    case Nil
    then have "L = bhead" by (simp add: L_def)
    then have eq: "b_next (?B x) = b_next (B x)" "b_prev (?B x) = b_prev (B x)" for x
      using l Rb no by (auto simp: to_front_def Let_def)
    then have "linked ?B ls' = linked B ls'" for ls' by (simp add: linked_cong [of ?B B])
    then show ?thesis using r ls Nil by (simp add: ring_def)
  next
    case (Cons u us')
    have L: "L = last us" "L \<in> set us" using Cons by (simp_all add: L_def)
    have u: "b_next (B bhead) = u" "u \<in> set us" using l(1) Cons by simp_all
    have ne: "L \<noteq> bhead" "L \<noteq> b" "u \<noteq> bhead" "u \<noteq> b" "R \<noteq> u" using L u d no Rb by auto
    have nx: "b_next (?B x) = (if x = bhead then b else if x = b then u else if x = L then R else b_next (B x))"
      and pv: "b_prev (?B x) = (if x = u then b else if x = b then bhead else if x = R then L else b_prev (B x))" for x
      unfolding to_front_def Let_def by (simp_all add: l(2-5) u(1) ne ne [symmetric] Rb(1) Rb(1) [symmetric] no(3) no(3) [symmetric])
    have "successively (?P ?B) us"
    proof (rule successively_weaken)
      show "successively (?P B) us" using l(1) Cons by simp
      fix x y assume xy: "x \<in> set (butlast us)" "y \<in> set (tl us)" "?P B x y"
      have "us = butlast us @ [L]" using L Cons by simp
      then have "distinct (butlast us @ [L])" using d by (metis distinct_append)
      then have "x \<noteq> L" using xy(1) by auto
      moreover have "y \<noteq> u" using xy(2) d Cons by auto
      ultimately show "?P ?B x y"
        using xy d no Rb in_set_butlastD [OF xy(1)] list.set_sel(2) [OF _ xy(2)] Cons by (auto simp: nx pv)
    qed (use d in simp)
    moreover have "successively (?P ?B) (vs @ [bhead])"
      by (rule vs) (use d no L u Rb tlR ne in \<open>auto simp: nx pv dest: tlv\<close>)
    moreover have "?P ?B L R" "?P ?B bhead b" "?P ?B b u" using ne Rb no by (auto simp: nx pv)
    ultimately show ?thesis
      using Cons L unfolding linked_def by (auto simp: successively_append_iff successively_Cons R_def)
  qed
  moreover have "remove1 b ls = us @ vs" using ls by (simp add: remove1_append)
  ultimately show ?thesis using d b by (auto simp: ring_def)
qed

subsection \<open>The cache as a view of the disk\<close>

text \<open>\<open>keyed B d n b\<close>: buffer \<open>b\<close> is assigned to block \<open>n\<close> of device \<open>d\<close>. The view of the disk through the cache is the
  data of the valid buffer of a block, and what is on the platter for a block that is not cached.\<close>

definition keyed :: "(nat \<Rightarrow> buf) \<Rightarrow> u32 \<Rightarrow> u32 \<Rightarrow> nat \<Rightarrow> bool" where
  "keyed B d n b \<longleftrightarrow> b < NBUF \<and> b_dev (B b) = d \<and> b_blockno (B b) = n"

definition bview :: "u32 \<Rightarrow> (u32 \<Rightarrow> u8 list) \<Rightarrow> (nat \<Rightarrow> buf) \<Rightarrow> u32 \<Rightarrow> u8 list" where
  "bview d pl B n = (case find (\<lambda>b. keyed B d n b \<and> b_valid (B b)) [0..<NBUF] of Some b \<Rightarrow> b_data (B b) | None \<Rightarrow> pl n)"

text \<open>The cache with buffers \<open>P\<close> pinned by the log and \<open>R\<close> held by the running process: a block has at most one buffer,
  reference counts are exact, and a buffer nobody refers to agrees with the disk.\<close>

definition cache_ok :: "u32 \<Rightarrow> nat set \<Rightarrow> nat set \<Rightarrow> (u32 \<Rightarrow> u8 list) \<Rightarrow> (nat \<Rightarrow> buf) \<Rightarrow> bool" where
  "cache_ok d P R pl B \<longleftrightarrow>
     (\<exists>ls. ring B ls) \<and> P \<subseteq> {0..<NBUF} \<and> R \<subseteq> {0..<NBUF} \<and>
     (\<forall>b<NBUF. b_refcnt (B b) = (if b \<in> P then 1 else 0) + (if b \<in> R then 1 else 0)) \<and>
     (\<forall>b\<in>P \<union> R. b_valid (B b) \<and> b_dev (B b) = d) \<and>
     (\<forall>n b c. keyed B d n b \<longrightarrow> keyed B d n c \<longrightarrow> b = c) \<and>
     (\<forall>b n. b \<notin> P \<union> R \<longrightarrow> keyed B d n b \<longrightarrow> b_valid (B b) \<longrightarrow> b_data (B b) = pl n)"

lemma bview_cached:
  assumes "cache_ok d P R pl B" and "keyed B d n b" and "b_valid (B b)"
  shows "bview d pl B n = b_data (B b)"
proof (cases "find (\<lambda>b. keyed B d n b \<and> b_valid (B b)) [0..<NBUF]")
  case None
  then show ?thesis using assms(2,3) by (auto simp: find_None_iff keyed_def)
next
  case (Some c)
  then have "keyed B d n c" by (auto simp: find_Some_iff)
  then have "c = b" using assms(1,2) unfolding cache_ok_def by blast
  with Some show ?thesis by (simp add: bview_def)
qed

lemma bview_uncached: "(\<And>b. keyed B d n b \<Longrightarrow> \<not> b_valid (B b)) \<Longrightarrow> bview d pl B n = pl n"
  by (auto simp: bview_def find_Some_iff split: option.splits)

lemma bview_cong:
  assumes "\<And>b. keyed B' d n b \<and> b_valid (B' b) \<longleftrightarrow> keyed B d n b \<and> b_valid (B b)"
    and "\<And>b. keyed B d n b \<Longrightarrow> b_valid (B b) \<Longrightarrow> b_data (B' b) = b_data (B b)" and "pl' n = pl n"
  shows "bview d pl' B' n = bview d pl B n"
proof -
  have f: "(\<lambda>b. keyed B' d n b \<and> b_valid (B' b)) = (\<lambda>b. keyed B d n b \<and> b_valid (B b))" using assms(1) by blast
  show ?thesis
  proof (cases "find (\<lambda>b. keyed B d n b \<and> b_valid (B b)) [0..<NBUF]")
    case (Some b)
    then have "keyed B d n b" "b_valid (B b)" by (auto simp: find_Some_iff)
    with Some show ?thesis unfolding bview_def f by (simp add: assms(2))
  qed (simp add: bview_def f assms(3))
qed

lemma bview_cases:
  assumes "cache_ok d P R pl B"
  obtains b where "keyed B d n b" "b_valid (B b)" "bview d pl B n = b_data (B b)"
  | "\<And>b. keyed B d n b \<Longrightarrow> \<not> b_valid (B b)" "bview d pl B n = pl n"
  using bview_cached [OF assms] bview_uncached [of B d n pl] by metis

lemma cache_okD:
  assumes "cache_ok d P R pl B"
  shows "\<exists>ls. ring B ls" and "P \<subseteq> {0..<NBUF}" and "R \<subseteq> {0..<NBUF}"
    and "b < NBUF \<Longrightarrow> b_refcnt (B b) = (if b \<in> P then 1 else 0) + (if b \<in> R then 1 else 0)"
    and "b \<in> P \<union> R \<Longrightarrow> b_valid (B b) \<and> b_dev (B b) = d"
    and "keyed B d n b \<Longrightarrow> keyed B d n c \<Longrightarrow> b = c"
    and "b \<notin> P \<union> R \<Longrightarrow> keyed B d n b \<Longrightarrow> b_valid (B b) \<Longrightarrow> b_data (B b) = pl n"
  using assms unfolding cache_ok_def by blast+

text \<open>Looking a block up: the buffer is referenced, and filled from the disk if it is not valid.\<close>

definition hit :: "(u32 \<Rightarrow> u8 list) \<Rightarrow> nat \<Rightarrow> (nat \<Rightarrow> buf) \<Rightarrow> (nat \<Rightarrow> buf)" where
  "hit pl b B = B(b := (B b)\<lparr>b_refcnt := b_refcnt (B b) + 1, b_valid := True,
     b_data := (if b_valid (B b) then b_data (B b) else pl (b_blockno (B b)))\<rparr>)"

definition miss :: "(u32 \<Rightarrow> u8 list) \<Rightarrow> u32 \<Rightarrow> u32 \<Rightarrow> nat \<Rightarrow> (nat \<Rightarrow> buf) \<Rightarrow> (nat \<Rightarrow> buf)" where
  "miss pl d n b B = B(b := (B b)\<lparr>b_dev := d, b_blockno := n, b_valid := True, b_refcnt := 1, b_data := pl n\<rparr>)"

lemma cache_ok_hit:
  assumes c: "cache_ok d P R pl B" and k: "keyed B d n b" and R: "b \<notin> R"
  shows "cache_ok d P (insert b R) pl (hit pl b B)" and "bview d pl (hit pl b B) = bview d pl B"
    and "b_data (hit pl b B b) = bview d pl B n"
proof -
  let ?B = "hit pl b B"
  have key: "keyed ?B d' m c = keyed B d' m c" for d' m c by (simp add: keyed_def hit_def)
  have inv: "b_valid (B b)" if "b \<in> P" using cache_okD(5) [OF c, of b] that by simp
  show ok: "cache_ok d P (insert b R) pl ?B"
    unfolding cache_ok_def key
  proof (intro conjI)
    show "\<exists>ls. ring ?B ls" using cache_okD(1) [OF c] ring_cong [of ?B B] by (auto simp: hit_def)
    show "\<forall>c<NBUF. b_refcnt (?B c) = (if c \<in> P then 1 else 0) + (if c \<in> insert b R then 1 else 0)"
      using cache_okD(4) [OF c] R by (auto simp: hit_def)
    show "\<forall>c\<in>P \<union> insert b R. b_valid (?B c) \<and> b_dev (?B c) = d"
      using cache_okD(5) [OF c] k by (auto simp: hit_def keyed_def)
    show "\<forall>n b c. keyed B d n b \<longrightarrow> keyed B d n c \<longrightarrow> b = c" using cache_okD(6) [OF c] by blast
    show "\<forall>c n. c \<notin> P \<union> insert b R \<longrightarrow> keyed B d n c \<longrightarrow> b_valid (?B c) \<longrightarrow> b_data (?B c) = pl n"
      using cache_okD(7) [OF c] by (auto simp: hit_def)
  qed (use cache_okD(2,3) [OF c] k in \<open>auto simp: keyed_def\<close>)
  have blk: "b_blockno (B b) = n" using k by (simp add: keyed_def)
  have v: "bview d pl B n = (if b_valid (B b) then b_data (B b) else pl n)"
    using bview_cached [OF c k] bview_uncached [of B d n pl] cache_okD(6) [OF c k] by metis
  show d: "b_data (?B b) = bview d pl B n" using v blk by (simp add: hit_def)
  show "bview d pl ?B = bview d pl B"
  proof
    fix m
    show "bview d pl ?B m = bview d pl B m"
    proof (cases "m = n")
      case True
      then show ?thesis using d bview_cached [OF ok, of n b] k key by (simp add: hit_def)
    next
      case False
      then show ?thesis using blk by (intro bview_cong) (auto simp: hit_def keyed_def split: if_splits)
    qed
  qed
qed

lemma cache_ok_miss:
  assumes c: "cache_ok d P R pl B" and k: "\<And>c. \<not> keyed B d n c" and b: "b < NBUF" "b \<notin> P \<union> R"
  shows "cache_ok d P (insert b R) pl (miss pl d n b B)" and "bview d pl (miss pl d n b B) = bview d pl B"
    and "b_data (miss pl d n b B b) = bview d pl B n"
proof -
  let ?B = "miss pl d n b B"
  have key: "keyed ?B d m c = (if c = b then m = n else keyed B d m c)" for m c using b by (auto simp: keyed_def miss_def)
  show ok: "cache_ok d P (insert b R) pl ?B"
    unfolding cache_ok_def
  proof (intro conjI)
    show "\<exists>ls. ring ?B ls" using cache_okD(1) [OF c] ring_cong [of ?B B] by (auto simp: miss_def)
    show "\<forall>c<NBUF. b_refcnt (?B c) = (if c \<in> P then 1 else 0) + (if c \<in> insert b R then 1 else 0)"
      using cache_okD(4) [OF c] b by (auto simp: miss_def)
    show "\<forall>c\<in>P \<union> insert b R. b_valid (?B c) \<and> b_dev (?B c) = d"
      using cache_okD(5) [OF c] by (auto simp: miss_def)
    show "\<forall>n b c. keyed ?B d n b \<longrightarrow> keyed ?B d n c \<longrightarrow> b = c"
      using cache_okD(6) [OF c] k by (auto simp: key)
    show "\<forall>c n. c \<notin> P \<union> insert b R \<longrightarrow> keyed ?B d n c \<longrightarrow> b_valid (?B c) \<longrightarrow> b_data (?B c) = pl n"
      using cache_okD(7) [OF c] by (auto simp: key, auto simp: miss_def)
  qed (use cache_okD(2,3) [OF c] b in auto)
  show d: "b_data (?B b) = bview d pl B n" using bview_uncached [of B d n pl] k by (simp add: miss_def)
  show "bview d pl ?B = bview d pl B"
  proof
    fix m
    show "bview d pl ?B m = bview d pl B m"
    proof (cases "m = n")
      case True
      have "keyed ?B d n b" "b_valid (?B b)" by (simp add: key) (simp add: miss_def)
      then show ?thesis using d bview_cached [OF ok, of n b] True by simp
    next
      case False
      show ?thesis
      proof (cases "keyed B d m b \<and> b_valid (B b)")
        case True
        then have "bview d pl B m = pl m" using bview_cached [OF c, of m b] cache_okD(7) [OF c, of b m] b(2) by simp
        moreover have "\<not> keyed ?B d m e" for e
          using True False cache_okD(6) [OF c, of m b e] by (cases "e = b") (auto simp: key)
        then have "bview d pl ?B m = pl m" by (intro bview_uncached) blast
        ultimately show ?thesis by simp
      next
        case notb: False
        have "keyed ?B d m e \<and> b_valid (?B e) \<longleftrightarrow> keyed B d m e \<and> b_valid (B e)" for e
          using notb False by (cases "e = b") (simp_all add: key, simp add: miss_def)
        moreover have "b_data (?B e) = b_data (B e)" if "keyed B d m e" "b_valid (B e)" for e
          using notb that by (cases "e = b") (simp_all add: miss_def)
        ultimately show ?thesis by (intro bview_cong) simp_all
      qed
    qed
  qed
qed

text \<open>Changing the data of a held buffer, writing it to the disk, letting it go, and unpinning it.\<close>

lemma cache_ok_set:
  assumes c: "cache_ok d P R pl B" and b: "b \<in> R" and n: "b_blockno (B b) = n"
  shows "cache_ok d P R pl (B(b := (B b)\<lparr>b_data := x\<rparr>))"
    and "bview d pl (B(b := (B b)\<lparr>b_data := x\<rparr>)) = (bview d pl B)(n := x)"
proof -
  let ?B = "B(b := (B b)\<lparr>b_data := x\<rparr>)"
  have key: "keyed ?B d m c = keyed B d m c" for m c by (simp add: keyed_def)
  have kb: "keyed B d n b" "b_valid (B b)" using cache_okD(3,5) [OF c] b n by (auto simp: keyed_def)
  show ok: "cache_ok d P R pl ?B"
    unfolding cache_ok_def key
  proof (intro conjI)
    show "\<exists>ls. ring ?B ls" using cache_okD(1) [OF c] ring_cong [of ?B B] by auto
    show "\<forall>c n. c \<notin> P \<union> R \<longrightarrow> keyed B d n c \<longrightarrow> b_valid (?B c) \<longrightarrow> b_data (?B c) = pl n"
      using cache_okD(7) [OF c] b by auto
    show "\<forall>n b c. keyed B d n b \<longrightarrow> keyed B d n c \<longrightarrow> b = c" using cache_okD(6) [OF c] by blast
  qed (use cache_okD(2-5) [OF c] in auto)
  show "bview d pl ?B = (bview d pl B)(n := x)"
  proof
    fix m
    show "bview d pl ?B m = ((bview d pl B)(n := x)) m"
    proof (cases "m = n")
      case True
      then show ?thesis using bview_cached [OF ok, of n b] kb key by simp
    next
      case False
      then show ?thesis using n by (auto intro!: bview_cong simp: keyed_def split: if_splits)
    qed
  qed
qed

lemma cache_ok_write:
  assumes c: "cache_ok d P R pl B" and b: "b \<in> R" and n: "b_blockno (B b) = n"
  shows "cache_ok d P R (pl(n := b_data (B b))) B" and "bview d (pl(n := b_data (B b))) B = bview d pl B"
proof -
  have kb: "keyed B d n b" "b_valid (B b)" using cache_okD(3,5) [OF c] b n by (auto simp: keyed_def)
  show ok: "cache_ok d P R (pl(n := b_data (B b))) B"
    unfolding cache_ok_def
  proof (intro conjI)
    show "\<forall>c m. c \<notin> P \<union> R \<longrightarrow> keyed B d m c \<longrightarrow> b_valid (B c) \<longrightarrow> b_data (B c) = (pl(n := b_data (B b))) m"
      using cache_okD(6) [OF c kb(1)] cache_okD(7) [OF c] b by auto
    show "\<forall>n b c. keyed B d n b \<longrightarrow> keyed B d n c \<longrightarrow> b = c" using cache_okD(6) [OF c] by blast
  qed (use cache_okD(1-5) [OF c] in auto)
  show "bview d (pl(n := b_data (B b))) B = bview d pl B"
  proof
    fix m
    show "bview d (pl(n := b_data (B b))) B m = bview d pl B m"
      using bview_cached [OF ok kb] bview_cached [OF c kb] by (cases "m = n") (auto intro: bview_cong)
  qed
qed

lemma cache_ok_release:
  assumes c: "cache_ok d P R pl B" and b: "b \<in> R" and cl: "b \<in> P \<or> b_data (B b) = pl (b_blockno (B b))"
    and same: "\<And>c. b_valid (B' c) = b_valid (B c)" "\<And>c. b_dev (B' c) = b_dev (B c)" "\<And>c. b_blockno (B' c) = b_blockno (B c)"
      "\<And>c. b_data (B' c) = b_data (B c)" "\<And>c. b_refcnt (B' c) = (if c = b then b_refcnt (B b) - 1 else b_refcnt (B c))"
    and r: "\<exists>ls. ring B' ls"
  shows "cache_ok d P (R - {b}) pl B'" and "bview d pl B' = bview d pl B"
proof -
  have key: "keyed B' d m c = keyed B d m c" for m c by (simp add: keyed_def same)
  show "cache_ok d P (R - {b}) pl B'"
    unfolding cache_ok_def key same
  proof (intro conjI)
    show "\<exists>ls. ring B' ls" by (rule r)
    show "\<forall>c<NBUF. (if c = b then b_refcnt (B b) - 1 else b_refcnt (B c)) = (if c \<in> P then 1 else 0) + (if c \<in> R - {b} then 1 else 0)"
      using cache_okD(4) [OF c] b by auto
    show "\<forall>n b c. keyed B d n b \<longrightarrow> keyed B d n c \<longrightarrow> b = c" using cache_okD(6) [OF c] by blast
    show "\<forall>c n. c \<notin> P \<union> (R - {b}) \<longrightarrow> keyed B d n c \<longrightarrow> b_valid (B c) \<longrightarrow> b_data (B c) = pl n"
      using cache_okD(7) [OF c] cl by (auto simp: keyed_def)
  qed (use cache_okD(2,3,5) [OF c] in auto)
  show "bview d pl B' = bview d pl B" by (rule ext, rule bview_cong) (auto simp: key same)
qed

lemma cache_ok_unpin:
  assumes c: "cache_ok d P R pl B" and b: "b \<in> R" "b \<in> P"
  shows "cache_ok d (P - {b}) R pl (B(b := (B b)\<lparr>b_refcnt := b_refcnt (B b) - 1\<rparr>))"
    and "bview d pl (B(b := (B b)\<lparr>b_refcnt := b_refcnt (B b) - 1\<rparr>)) = bview d pl B"
proof -
  let ?B = "B(b := (B b)\<lparr>b_refcnt := b_refcnt (B b) - 1\<rparr>)"
  have key: "keyed ?B d m c = keyed B d m c" for m c by (simp add: keyed_def)
  show "cache_ok d (P - {b}) R pl ?B"
    unfolding cache_ok_def key
  proof (intro conjI)
    show "\<exists>ls. ring ?B ls" using cache_okD(1) [OF c] ring_cong [of ?B B] by auto
    show "\<forall>c<NBUF. b_refcnt (?B c) = (if c \<in> P - {b} then 1 else 0) + (if c \<in> R then 1 else 0)"
      using cache_okD(4) [OF c] b by auto
    show "\<forall>n b c. keyed B d n b \<longrightarrow> keyed B d n c \<longrightarrow> b = c" using cache_okD(6) [OF c] by blast
    show "\<forall>c n. c \<notin> P - {b} \<union> R \<longrightarrow> keyed B d n c \<longrightarrow> b_valid (?B c) \<longrightarrow> b_data (?B c) = pl n"
      using cache_okD(7) [OF c] b by auto
  qed (use cache_okD(2,3,5) [OF c] in auto)
  show "bview d pl ?B = bview d pl B" by (rule ext, rule bview_cong) (auto simp: key)
qed

lemma upd_buf_alt: "upd_buf b f s = s\<lparr>bufs := (bufs s)(b := f (bufs s b))\<rparr>"
  by (simp add: upd_buf_def)

lemma find_SomeD: "find Q xs = Some x \<Longrightarrow> x \<in> set xs \<and> Q x"
  by (auto simp: find_Some_iff)

lemma bufs_sleeplocks: "s\<lparr>sleeplocks := L, bufs := B\<rparr> = s\<lparr>bufs := B, sleeplocks := L\<rparr>"
  by simp

definition lock_buf :: "nat \<Rightarrow> nat \<Rightarrow> 'z kbio_scheme \<Rightarrow> lockid \<Rightarrow> sleeplock" where
  "lock_buf p b s = (sleeplocks s)(BufLk b := (sleeplocks s (BufLk b))\<lparr>sl_locked := 1, sl_pid := p_pid (procs s p)\<rparr>)"

lemma quiet_upd [simp]:
  "quiet p (s\<lparr>bufs := B\<rparr>) = quiet p s" "quiet p (s\<lparr>sleeplocks := L\<rparr>) = quiet p s"
  "quiet p (upd_buf b f s) = quiet p s" "quiet p (s\<lparr>procs := f'\<rparr>) = quiet p s"
  "quiet p (s\<lparr>platter := pl\<rparr>) = quiet p s" "quiet p (s\<lparr>disk_writes := w\<rparr>) = quiet p s"
  by (simp_all add: quiet_def lock_free_def cpu_ok_def machine_defs upd_buf_def)

lemma bget_hit:
  assumes "quiet p s" and "ring (bufs s) ls"
    and "find (\<lambda>c. b_dev (bufs s c) = d \<and> b_blockno (bufs s c) = n) ls = Some b" and "sl_locked (sleeplocks s (BufLk b)) = 0"
  shows "bget d n s = Ret b ((settle s)\<lparr>bufs := (bufs s)(b := b_refcnt_update (\<lambda>n. n + 1) (bufs s b)), sleeplocks := lock_buf p b s\<rparr>)"
  using assms(1,3,4) ring_find_cached [OF assms(2), of d n]
  by (simp add: bget_def quietD acquiresleep_eq [where p = p] lock_buf_def upd_buf_def Let_def)

lemma bget_miss:
  assumes "quiet p s" and "ring (bufs s) ls"
    and "find (\<lambda>c. b_dev (bufs s c) = d \<and> b_blockno (bufs s c) = n) ls = None"
    and "find (\<lambda>c. b_refcnt (bufs s c) = 0) (rev ls) = Some b" and "sl_locked (sleeplocks s (BufLk b)) = 0"
  shows "bget d n s = Ret b ((settle s)\<lparr>
     bufs := (bufs s)(b := (bufs s b)\<lparr>b_dev := d, b_blockno := n, b_valid := False, b_refcnt := 1\<rparr>), sleeplocks := lock_buf p b s\<rparr>)"
  using assms(1,3-5) ring_find_cached [OF assms(2), of d n] ring_find_free [OF assms(2)]
  by (simp add: bget_def quietD acquiresleep_eq [where p = p] lock_buf_def upd_buf_def Let_def)

lemma bread_hit:
  assumes "quiet p s" and "ring (bufs s) ls"
    and "find (\<lambda>c. b_dev (bufs s c) = d \<and> b_blockno (bufs s c) = n) ls = Some b" and "sl_locked (sleeplocks s (BufLk b)) = 0"
  shows "bread d n s = Ret b ((settle s)\<lparr>bufs := hit (platter s) b (bufs s), sleeplocks := lock_buf p b s\<rparr>)"
  unfolding bread_def bget_hit [OF assms]
  by (auto simp: disk_rw_def upd_buf_def hit_def bufs_sleeplocks intro!: kbio.equality ext buf.equality)

lemma bread_miss:
  assumes "quiet p s" and "ring (bufs s) ls"
    and "find (\<lambda>c. b_dev (bufs s c) = d \<and> b_blockno (bufs s c) = n) ls = None"
    and "find (\<lambda>c. b_refcnt (bufs s c) = 0) (rev ls) = Some b" and "sl_locked (sleeplocks s (BufLk b)) = 0"
  shows "bread d n s = Ret b ((settle s)\<lparr>bufs := miss (platter s) d n b (bufs s), sleeplocks := lock_buf p b s\<rparr>)"
  unfolding bread_def bget_miss [OF assms]
  by (simp add: disk_rw_def upd_buf_def miss_def) (simp add: fun_upd_def fun_eq_iff)

text \<open>The cache and the locks of the running process \<open>p\<close> on device \<open>d\<close>.\<close>

definition bc :: "nat \<Rightarrow> u32 \<Rightarrow> nat set \<Rightarrow> nat set \<Rightarrow> 'z kbio_scheme \<Rightarrow> bool" where
  "bc p d P R s \<longleftrightarrow> quiet p s \<and> cache_ok d P R (platter s) (bufs s) \<and>
     (\<forall>b<NBUF. sl_locked (sleeplocks s (BufLk b)) = (if b \<in> R then 1 else 0) \<and>
       (b \<in> R \<longrightarrow> sl_pid (sleeplocks s (BufLk b)) = p_pid (procs s p)))"

definition view :: "u32 \<Rightarrow> 'z kbio_scheme \<Rightarrow> u32 \<Rightarrow> u8 list" where
  "view d s = bview d (platter s) (bufs s)"

text \<open>What a call that does not write to the disk keeps.\<close>

definition same_disk :: "'z kbio_scheme \<Rightarrow> 'z kbio_scheme \<Rightarrow> bool" where
  "same_disk s t \<longleftrightarrow> platter t = platter s \<and> disk_writes t = disk_writes s \<and> kbio.more t = kbio.more s"

lemma bread_spec:
  assumes bc: "bc p d P R s" and R: "\<forall>b\<in>R. b_blockno (bufs s b) \<noteq> n"
    and room: "(\<exists>b\<in>P. b_blockno (bufs s b) = n) \<or> card (P \<union> R) < NBUF"
  shows "returns (bread d n s) (\<lambda>b t. bc p d P (insert b R) t \<and> b \<notin> R \<and> b < NBUF \<and> b_blockno (bufs t b) = n \<and>
     b_data (bufs t b) = view d s n \<and> view d t = view d s \<and> same_disk s t \<and>
     (\<forall>c\<in>P \<union> R. b_blockno (bufs t c) = b_blockno (bufs s c) \<and> b_data (bufs t c) = b_data (bufs s c)) \<and>
     (b \<in> P \<longleftrightarrow> (\<exists>c\<in>P. b_blockno (bufs s c) = n)))"
proof -
  have q: "quiet p s" and c: "cache_ok d P R (platter s) (bufs s)"
    and sl: "\<And>b. b < NBUF \<Longrightarrow> b \<notin> R \<Longrightarrow> sl_locked (sleeplocks s (BufLk b)) = 0"
    using bc by (auto simp: bc_def)
  obtain ls where r: "ring (bufs s) ls" using cache_okD(1) [OF c] by blast
  have mem: "x \<in> set ls \<longleftrightarrow> x < NBUF" for x using r by (auto simp: ring_def)
  have post: "bc p d P (insert b R) ((settle s)\<lparr>bufs := B, sleeplocks := lock_buf p b s\<rparr>)"
    if "cache_ok d P (insert b R) (platter s) B" for b B
    using that bc q by (auto simp: bc_def lock_buf_def)
  show ?thesis
  proof (cases "find (\<lambda>c. b_dev (bufs s c) = d \<and> b_blockno (bufs s c) = n) ls")
    case (Some b)
    then have k: "keyed (bufs s) d n b" using mem by (auto simp: keyed_def dest: find_SomeD)
    then have b: "b < NBUF" "b \<notin> R" using R by (auto simp: keyed_def)
    have P: "b \<in> P" if "e \<in> P" "b_blockno (bufs s e) = n" for e
    proof -
      have "keyed (bufs s) d n e" using cache_okD(2,5) [OF c] that by (auto simp: keyed_def)
      then show ?thesis using cache_okD(6) [OF c k] that(1) by blast
    qed
    have inP: "b \<in> P \<longleftrightarrow> (\<exists>c\<in>P. b_blockno (bufs s c) = n)" using P k by (auto simp: keyed_def)
    have keep: "b_blockno (hit (platter s) b (bufs s) e) = b_blockno (bufs s e)"
      "e \<in> P \<union> R \<Longrightarrow> b_data (hit (platter s) b (bufs s) e) = b_data (bufs s e)" for e
      using cache_okD(5) [OF c, of e] by (auto simp: hit_def)
    show ?thesis
      unfolding bread_hit [OF q r Some sl [OF b]] returns_simps view_def same_disk_def inP
      using post [OF cache_ok_hit(1) [OF c k b(2)]] cache_ok_hit(2,3) [OF c k b(2)] b k keep
      by (simp add: keyed_def)
  next
    case None
    then have k: "\<not> keyed (bufs s) d n e" for e by (auto simp: find_None_iff keyed_def mem)
    have nP: "\<not> (\<exists>b\<in>P. b_blockno (bufs s b) = n)" using k cache_okD(2,5) [OF c] by (fastforce simp: keyed_def)
    then have "card (P \<union> R) < card {0..<NBUF}" using room by simp
    moreover have "finite (P \<union> R)" using cache_okD(2,3) [OF c] by (auto intro: finite_subset)
    ultimately have "\<not> {0..<NBUF} \<subseteq> P \<union> R" using card_mono [of "P \<union> R" "{0..<NBUF}"] by linarith
    then obtain e where e: "e < NBUF" "e \<notin> P \<union> R" by (meson atLeastLessThan_iff subsetI)
    then have "b_refcnt (bufs s e) = 0" using cache_okD(4) [OF c] by simp
    then obtain b where F: "find (\<lambda>c. b_refcnt (bufs s c) = 0) (rev ls) = Some b"
      using e mem by (cases "find (\<lambda>c. b_refcnt (bufs s c) = 0) (rev ls)") (auto simp: find_None_iff)
    have b: "b < NBUF" "b_refcnt (bufs s b) = 0" using find_SomeD [OF F] mem by simp_all
    then have bn: "b \<notin> P \<union> R" using cache_okD(4) [OF c, of b] by (auto split: if_splits)
    then have sl0: "sl_locked (sleeplocks s (BufLk b)) = 0" using sl b(1) by simp
    have keep: "b_blockno (miss (platter s) d n b (bufs s) e) = b_blockno (bufs s e)"
      "b_data (miss (platter s) d n b (bufs s) e) = b_data (bufs s e)" if "e \<in> P \<union> R" for e
      using bn that by (auto simp: miss_def)
    have blk: "b_blockno (miss (platter s) d n b (bufs s) b) = n" by (simp add: miss_def)
    show ?thesis
      unfolding bread_miss [OF q r None F sl0] returns_simps view_def same_disk_def
      using post [OF cache_ok_miss(1) [OF c k b(1) bn]] cache_ok_miss(2,3) [OF c k b(1) bn] b(1) bn nP keep blk
      by simp
  qed
qed

lemma bcD:
  assumes "bc p d P R s"
  shows "quiet p s" and "cache_ok d P R (platter s) (bufs s)"
    and "b < NBUF \<Longrightarrow> sl_locked (sleeplocks s (BufLk b)) = (if b \<in> R then 1 else 0)"
    and "b \<in> R \<Longrightarrow> sl_pid (sleeplocks s (BufLk b)) = p_pid (procs s p)" and "b \<in> R \<Longrightarrow> b < NBUF"
  using assms cache_okD(3) [of d P R "platter s" "bufs s"] by (auto simp: bc_def)

lemma bc_holding: "bc p d P R s \<Longrightarrow> b \<in> R \<Longrightarrow> holdingsleep (BufLk b) s = Ret True (settle s)"
  using bcD [of p d P R s] by (simp add: holdingsleep_eq [where p = p])

lemma bc_settle [simp]: "bc p d P R (settle s) = bc p d P R s"
  by (simp add: bc_def)

lemma bc_set:
  assumes "bc p d P R s" and "b \<in> R" and "b_blockno (bufs s b) = n"
  shows "bc p d P R (upd_buf b (\<lambda>y. y\<lparr>b_data := x\<rparr>) s)" and "view d (upd_buf b (\<lambda>y. y\<lparr>b_data := x\<rparr>) s) = (view d s)(n := x)"
  using cache_ok_set [OF bcD(2) [OF assms(1)] assms(2,3), of x] assms(1) by (simp_all add: bc_def view_def upd_buf_def)

lemma bwrite_eq:
  assumes "bc p d P R s" and "b \<in> R"
  shows "bwrite b s = Ret () ((settle s)\<lparr>platter := (platter s)(b_blockno (bufs s b) := b_data (bufs s b)),
     disk_writes := disk_writes s @ [(b_blockno (bufs s b), b_data (bufs s b))]\<rparr>)"
  using bc_holding [OF assms] by (simp add: bwrite_def disk_rw_def Let_def)

lemma bwrite_spec:
  assumes bc: "bc p d P R s" and b: "b \<in> R" and n: "b_blockno (bufs s b) = n"
  shows "returns (bwrite b s) (\<lambda>_ t. bc p d P R t \<and> view d t = view d s \<and> bufs t = bufs s \<and> kbio.more t = kbio.more s \<and>
     platter t = (platter s)(n := b_data (bufs s b)) \<and> disk_writes t = disk_writes s @ [(n, b_data (bufs s b))])"
  using cache_ok_write [OF bcD(2) [OF bc] b n] bc unfolding bwrite_eq [OF bc b] by (simp add: bc_def view_def n)

text \<open>Same buffers, up to their reference counts and the order of the list.\<close>

definition same_data :: "'z kbio_scheme \<Rightarrow> 'z kbio_scheme \<Rightarrow> bool" where
  "same_data s t \<longleftrightarrow> (\<forall>c. b_blockno (bufs t c) = b_blockno (bufs s c) \<and> b_data (bufs t c) = b_data (bufs s c))"

lemma refcnt_less: "b_refcnt_update (\<lambda>n. n - 1) x = x\<lparr>b_refcnt := b_refcnt x - 1\<rparr>"
  by (cases x) simp

lemma bunpin_spec:
  assumes bc: "bc p d P R s" and b: "b \<in> R" "b \<in> P"
  shows "returns (bunpin b s) (\<lambda>_ t. bc p d (P - {b}) R t \<and> view d t = view d s \<and> same_disk s t \<and> same_data s t)"
proof -
  have "bunpin b s = Ret () ((settle s)\<lparr>bufs := (bufs s)(b := (bufs s b)\<lparr>b_refcnt := b_refcnt (bufs s b) - 1\<rparr>)\<rparr>)"
    using bcD(1) [OF bc] by (simp add: bunpin_def quietD upd_buf_def refcnt_less)
  then show ?thesis using cache_ok_unpin [OF bcD(2) [OF bc] b] bc by (simp add: bc_def view_def same_disk_def same_data_def)
qed

text \<open>The five pointer updates keep everything but the pointers.\<close>

definition same_but_links :: "(nat \<Rightarrow> buf) \<Rightarrow> (nat \<Rightarrow> buf) \<Rightarrow> bool" where
  "same_but_links B B' \<longleftrightarrow> (\<forall>c. b_valid (B' c) = b_valid (B c) \<and> b_dev (B' c) = b_dev (B c) \<and> b_blockno (B' c) = b_blockno (B c) \<and>
     b_data (B' c) = b_data (B c) \<and> b_refcnt (B' c) = b_refcnt (B c))"

lemma same_but_links_upd:
  "same_but_links B B' \<Longrightarrow> same_but_links B (B'(a := (B' a)\<lparr>b_next := x\<rparr>))"
  "same_but_links B B' \<Longrightarrow> same_but_links B (B'(a := (B' a)\<lparr>b_prev := y\<rparr>))"
  "same_but_links B B' \<Longrightarrow> same_but_links B (B'(a := (B' a)\<lparr>b_next := x, b_prev := y\<rparr>))"
  by (simp_all add: same_but_links_def)

lemma same_but_links_to_front: "same_but_links B (to_front b B)"
  unfolding to_front_def Let_def by (intro same_but_links_upd) (simp add: same_but_links_def)

lemma to_front_same [simp]:
  "b_valid (to_front b B c) = b_valid (B c)" "b_dev (to_front b B c) = b_dev (B c)" "b_blockno (to_front b B c) = b_blockno (B c)"
  "b_data (to_front b B c) = b_data (B c)" "b_refcnt (to_front b B c) = b_refcnt (B c)"
  using same_but_links_to_front [of B b] by (simp_all add: same_but_links_def)

definition put_back :: "nat \<Rightarrow> (nat \<Rightarrow> buf) \<Rightarrow> (nat \<Rightarrow> buf)" where
  "put_back b B = (let B = B(b := b_refcnt_update (\<lambda>n. n - 1) (B b)) in if b_refcnt (B b) = 0 then to_front b B else B)"

lemma bufs_bufs: "bufs (s\<lparr>bufs := B\<rparr>) = B" "s\<lparr>bufs := B, bufs := B'\<rparr> = s\<lparr>bufs := B'\<rparr>" for s :: "'z kbio_scheme"
  by simp_all

lemma relink_to_front: "relink b s = s\<lparr>bufs := to_front b (bufs s)\<rparr>"
  unfolding relink_def upd_buf_def to_front_def Let_def bufs_bufs ..

lemma brelse_relink:
  "brelse b s =
     andthen (holdingsleep (BufLk b) s) (\<lambda>h s.
       if \<not> h then Panic ''brelse''
       else
         andthen (releasesleep (BufLk b) s) (\<lambda>_ s.
         andthen (acquire BcacheLock s) (\<lambda>_ s.
         release BcacheLock (s\<lparr>bufs := put_back b (bufs s)\<rparr>))))"
proof -
  have eq: "(if b_refcnt (bufs (upd_buf b (b_refcnt_update (\<lambda>n. n - 1)) s) b) = 0 then relink b (upd_buf b (b_refcnt_update (\<lambda>n. n - 1)) s)
     else upd_buf b (b_refcnt_update (\<lambda>n. n - 1)) s) = s\<lparr>bufs := put_back b (bufs s)\<rparr>"
    for s :: "'a kbio_scheme"
    unfolding relink_to_front put_back_def Let_def upd_buf_def bufs_bufs by simp
  show ?thesis unfolding brelse_def Let_def eq ..
qed

lemma brelse_held_eq:
  assumes q: "quiet p s" and h: "holdingsleep (BufLk b) s = Ret True (settle s)"
  shows "brelse b s = Ret () ((settle s)\<lparr>
     sleeplocks := (sleeplocks s)(BufLk b := (sleeplocks s (BufLk b))\<lparr>sl_locked := 0, sl_pid := 0\<rparr>),
     procs := (\<lambda>q. if q < NPROC then wakeup_eff (ChanBufLock b) s q (procs s q) else procs s q), bufs := put_back b (bufs s)\<rparr>)"
proof -
  have "wakeup_eff c (settle s) = wakeup_eff c s" for c
    by (simp add: wakeup_eff_def fun_eq_iff)
  then show ?thesis using q h
    by (simp add: brelse_relink releasesleep_eq [where p = p] quietD cong: if_cong)
qed

lemmas brelse_eq = brelse_held_eq [OF bcD(1) bc_holding]

lemma put_back_same:
  "b_valid (put_back b B c) = b_valid (B c)" "b_dev (put_back b B c) = b_dev (B c)" "b_blockno (put_back b B c) = b_blockno (B c)"
  "b_data (put_back b B c) = b_data (B c)" "b_refcnt (put_back b B c) = (if c = b then b_refcnt (B b) - 1 else b_refcnt (B c))"
  by (simp_all add: put_back_def Let_def)

lemma ring_put_back:
  assumes "ring B ls" and "b < NBUF"
  shows "ring (put_back b B) (if b_refcnt (B b) = 1 then b # remove1 b ls else ls)"
proof -
  have "ring (B(b := b_refcnt_update (\<lambda>n. n - 1) (B b))) ls"
    using assms(1) ring_cong [of "B(b := b_refcnt_update (\<lambda>n. n - 1) (B b))" B] by simp
  then show ?thesis using ring_to_front [OF _ assms(2)] by (simp add: put_back_def Let_def)
qed

lemma wakeup_eff_pid [simp]: "p_pid (wakeup_eff c s q x) = p_pid x"
  by (simp add: wakeup_eff_def)

lemma brelse_spec:
  assumes bc: "bc p d P R s" and b: "b \<in> R" and cl: "b \<in> P \<or> b_data (bufs s b) = platter s (b_blockno (bufs s b))"
  shows "returns (brelse b s) (\<lambda>_ t. bc p d P (R - {b}) t \<and> view d t = view d s \<and> same_disk s t \<and> same_data s t)"
proof -
  note c = bcD(2) [OF bc] and bN = bcD(5) [OF bc b]
  obtain ls where "ring (bufs s) ls" using cache_okD(1) [OF c] by blast
  then have "\<exists>ls. ring (put_back b (bufs s)) ls" using ring_put_back bN by blast
  from cache_ok_release [OF c b cl put_back_same this]
  show ?thesis unfolding brelse_eq [OF bc bc b] returns_simps
    using bc by (simp add: bc_def view_def same_disk_def same_data_def put_back_same)
qed

subsection \<open>The cache for its clients\<close>

text \<open>The blocks in \<open>N\<close> are pinned, the running process \<open>p\<close> holds the buffers in \<open>R\<close>.\<close>

definition held :: "nat \<Rightarrow> u32 \<Rightarrow> u32 set \<Rightarrow> nat set \<Rightarrow> 'z kbio_scheme \<Rightarrow> bool" where
  "held p d N R s \<longleftrightarrow> (\<exists>P. bc p d P R s \<and> (\<lambda>b. b_blockno (bufs s b)) ` P = N)"

lemma bc_keyed: "bc p d P R s \<Longrightarrow> b \<in> P \<union> R \<Longrightarrow> keyed (bufs s) d (b_blockno (bufs s b)) b"
  using cache_okD(2,3,5) [OF bcD(2)] by (fastforce simp: keyed_def)

lemma bc_unique: "bc p d P R s \<Longrightarrow> b \<in> P \<union> R \<Longrightarrow> c \<in> P \<union> R \<Longrightarrow> b_blockno (bufs s b) = b_blockno (bufs s c) \<Longrightarrow> b = c"
  using bc_keyed cache_okD(6) [OF bcD(2)] by metis

lemma bc_pinned: "bc p d P R s \<Longrightarrow> b \<in> R \<Longrightarrow> b_blockno (bufs s b) \<in> (\<lambda>b. b_blockno (bufs s b)) ` P \<longleftrightarrow> b \<in> P"
  using bc_unique [of p d P R s b] by auto

lemma bc_card: "bc p d P R s \<Longrightarrow> card ((\<lambda>b. b_blockno (bufs s b)) ` P) = card P"
  by (rule card_image) (use bc_unique [of p d P R s] in \<open>auto simp: inj_on_def\<close>)

lemma held_view:
  assumes "held p d N R s" and "n \<notin> N" and "\<And>b. b \<in> R \<Longrightarrow> b_blockno (bufs s b) \<noteq> n"
  shows "view d s n = platter s n"
proof -
  obtain P where bc: "bc p d P R s" and N: "(\<lambda>b. b_blockno (bufs s b)) ` P = N" using assms(1) by (auto simp: held_def)
  show ?thesis
    unfolding view_def
  proof (cases rule: bview_cases [OF bcD(2) [OF bc], of n])
    case (1 b)
    have "b \<notin> P \<union> R" using 1(1) N assms(2,3) by (auto simp: keyed_def)
    then show "bview d (platter s) (bufs s) n = platter s n" using 1 cache_okD(7) [OF bcD(2) [OF bc], of b n] by simp
  qed
qed

lemma held_data:
  assumes "held p d N R s" and "b \<in> R" and "b_blockno (bufs s b) = n"
  shows "view d s n = b_data (bufs s b)"
proof -
  obtain P where bc: "bc p d P R s" using assms(1) by (auto simp: held_def)
  then have "keyed (bufs s) d n b" "b_valid (bufs s b)"
    using bc_keyed [of p d P R s b] cache_okD(5) [OF bcD(2) [OF bc], of b] assms(2,3) by auto
  then show ?thesis using bview_cached [OF bcD(2) [OF bc]] by (simp add: view_def)
qed

lemma bread_held:
  assumes h: "held p d N R s" and R: "\<forall>b\<in>R. b_blockno (bufs s b) \<noteq> n" and room: "n \<in> N \<or> card N + card R < NBUF"
  shows "returns (bread d n s) (\<lambda>b t. held p d N (insert b R) t \<and> b \<notin> R \<and> b_blockno (bufs t b) = n \<and> b_data (bufs t b) = view d s n \<and>
     view d t = view d s \<and> same_disk s t \<and> (\<forall>c\<in>R. b_blockno (bufs t c) = b_blockno (bufs s c) \<and> b_data (bufs t c) = b_data (bufs s c)))"
proof -
  obtain P where bc: "bc p d P R s" and N: "(\<lambda>b. b_blockno (bufs s b)) ` P = N" using h by (auto simp: held_def)
  have "(\<exists>b\<in>P. b_blockno (bufs s b) = n) \<or> card (P \<union> R) < NBUF"
    using room N bc_card [OF bc] card_Un_le [of P R] by auto
  from bread_spec [OF bc R this] show ?thesis
    by (rule returns_mono) (use N in \<open>auto simp: held_def image_iff intro!: exI [of _ P]\<close>)
qed

lemma held_set:
  assumes "held p d N R s" and "b \<in> R" and "b_blockno (bufs s b) = n"
  shows "held p d N R (upd_buf b (\<lambda>y. y\<lparr>b_data := x\<rparr>) s)" and "view d (upd_buf b (\<lambda>y. y\<lparr>b_data := x\<rparr>) s) = (view d s)(n := x)"
proof -
  obtain P where bc: "bc p d P R s" and N: "(\<lambda>b. b_blockno (bufs s b)) ` P = N" using assms(1) by (auto simp: held_def)
  have "b_blockno (bufs (upd_buf b (\<lambda>y. y\<lparr>b_data := x\<rparr>) s) c) = b_blockno (bufs s c)" for c by (simp add: upd_buf_def)
  then have "(\<lambda>c. b_blockno (bufs (upd_buf b (\<lambda>y. y\<lparr>b_data := x\<rparr>) s) c)) ` P = N" using N by simp
  then show "held p d N R (upd_buf b (\<lambda>y. y\<lparr>b_data := x\<rparr>) s)" unfolding held_def using bc_set(1) [OF bc assms(2,3)] by blast
  show "view d (upd_buf b (\<lambda>y. y\<lparr>b_data := x\<rparr>) s) = (view d s)(n := x)" using bc_set(2) [OF bc assms(2,3)] .
qed

lemma bwrite_held:
  assumes "held p d N R s" and "b \<in> R" and "b_blockno (bufs s b) = n"
  shows "returns (bwrite b s) (\<lambda>_ t. held p d N R t \<and> view d t = view d s \<and> bufs t = bufs s \<and> kbio.more t = kbio.more s \<and>
     platter t = (platter s)(n := b_data (bufs s b)) \<and> disk_writes t = disk_writes s @ [(n, b_data (bufs s b))])"
proof -
  obtain P where bc: "bc p d P R s" and N: "(\<lambda>b. b_blockno (bufs s b)) ` P = N" using assms(1) by (auto simp: held_def)
  from bwrite_spec [OF bc assms(2,3)] show ?thesis
    by (rule returns_mono) (use N in \<open>auto simp: held_def\<close>)
qed

lemma bunpin_held:
  assumes "held p d N R s" and "b \<in> R" and "b_blockno (bufs s b) = n" and "n \<in> N"
  shows "returns (bunpin b s) (\<lambda>_ t. held p d (N - {n}) R t \<and> view d t = view d s \<and> same_disk s t \<and> same_data s t)"
proof -
  obtain P where bc: "bc p d P R s" and N: "(\<lambda>b. b_blockno (bufs s b)) ` P = N" using assms(1) by (auto simp: held_def)
  have b: "b \<in> P" using bc_pinned [OF bc assms(2)] N assms(3,4) by simp
  have "(\<lambda>c. b_blockno (bufs s c)) ` (P - {b}) = N - {n}"
    using N b bc_unique [OF bc] assms(3) by fastforce
  with bunpin_spec [OF bc assms(2) b] show ?thesis
    by (elim returns_mono) (auto simp: held_def same_data_def)
qed

lemma brelse_held:
  assumes "held p d N R s" and "b \<in> R" and "b_blockno (bufs s b) = n" and "n \<in> N \<or> b_data (bufs s b) = platter s n"
  shows "returns (brelse b s) (\<lambda>_ t. held p d N (R - {b}) t \<and> view d t = view d s \<and> same_disk s t \<and> same_data s t)"
proof -
  obtain P where bc: "bc p d P R s" and N: "(\<lambda>b. b_blockno (bufs s b)) ` P = N" using assms(1) by (auto simp: held_def)
  have "b \<in> P \<or> b_data (bufs s b) = platter s (b_blockno (bufs s b))" using bc_pinned [OF bc assms(2)] N assms(3,4) by auto
  from brelse_spec [OF bc assms(2) this] show ?thesis
    by (rule returns_mono) (use N in \<open>auto simp: held_def same_data_def\<close>)
qed

subsection \<open>Writes to the disk\<close>

definition apply_writes :: "(u32 \<times> u8 list) list \<Rightarrow> (u32 \<Rightarrow> u8 list) \<Rightarrow> (u32 \<Rightarrow> u8 list)" where
  "apply_writes ws D = fold (\<lambda>(n, x) D. D(n := x)) ws D"

lemma apply_writes_simps [simp]:
  "apply_writes [] D = D" "apply_writes ((n, x) # ws) D = apply_writes ws (D(n := x))"
  "apply_writes (ws @ ws') D = apply_writes ws' (apply_writes ws D)"
  by (simp_all add: apply_writes_def)

lemma apply_writes_other: "n \<notin> fst ` set ws \<Longrightarrow> apply_writes ws D n = D n"
  by (induction ws arbitrary: D) (auto simp: apply_writes_def)

lemma apply_writes_distinct: "distinct (map fst ws) \<Longrightarrow> (n, x) \<in> set ws \<Longrightarrow> apply_writes ws D n = x"
proof (induction ws arbitrary: D)
  case (Cons w ws)
  obtain m y where w: "w = (m, y)" by (cases w)
  show ?case using Cons apply_writes_other [of m ws] by (auto simp: w rev_image_eqI)
qed simp

text \<open>The writes \<open>ws\<close> reached the disk, in this order, and nothing else did; the cache shows them.\<close>

definition wrote :: "u32 \<Rightarrow> (u32 \<times> u8 list) list \<Rightarrow> 'z kbio_scheme \<Rightarrow> 'z kbio_scheme \<Rightarrow> bool" where
  "wrote d ws s t \<longleftrightarrow> disk_writes t = disk_writes s @ ws \<and> platter t = apply_writes ws (platter s) \<and>
     view d t = apply_writes ws (view d s)"

lemma wrote_Nil: "wrote d [] s t \<longleftrightarrow> disk_writes t = disk_writes s \<and> platter t = platter s \<and> view d t = view d s"
  by (simp add: wrote_def)

lemma wrote_trans: "wrote d ws s t \<Longrightarrow> wrote d ws' t u \<Longrightarrow> wrote d (ws @ ws') s u"
  by (simp add: wrote_def)

lemma cache_ok_pin:
  assumes c: "cache_ok d P R pl B" and b: "b \<in> R" "b \<notin> P"
  shows "cache_ok d (insert b P) R pl (B(b := b_refcnt_update (\<lambda>n. n + 1) (B b)))"
    and "bview d pl (B(b := b_refcnt_update (\<lambda>n. n + 1) (B b))) = bview d pl B"
proof -
  let ?B = "B(b := b_refcnt_update (\<lambda>n. n + 1) (B b))"
  have key: "keyed ?B d m c = keyed B d m c" for m c by (simp add: keyed_def)
  show "cache_ok d (insert b P) R pl ?B"
    unfolding cache_ok_def key
  proof (intro conjI)
    show "\<exists>ls. ring ?B ls" using cache_okD(1) [OF c] ring_cong [of ?B B] by auto
    show "\<forall>c<NBUF. b_refcnt (?B c) = (if c \<in> insert b P then 1 else 0) + (if c \<in> R then 1 else 0)"
      using cache_okD(4) [OF c] b by auto
    show "\<forall>n b c. keyed B d n b \<longrightarrow> keyed B d n c \<longrightarrow> b = c" using cache_okD(6) [OF c] by blast
    show "\<forall>c n. c \<notin> insert b P \<union> R \<longrightarrow> keyed B d n c \<longrightarrow> b_valid (?B c) \<longrightarrow> b_data (?B c) = pl n"
      using cache_okD(7) [OF c] b by auto
  qed (use cache_okD(2,3,5) [OF c] b in auto)
  show "bview d pl ?B = bview d pl B" by (rule ext, rule bview_cong) (auto simp: key)
qed

lemma bget_full:
  assumes "quiet p s" and "ring (bufs s) ls"
    and "find (\<lambda>c. b_dev (bufs s c) = d \<and> b_blockno (bufs s c) = n) ls = None" and "find (\<lambda>c. b_refcnt (bufs s c) = 0) (rev ls) = None"
  shows "bget d n s = Panic ''bget: no buffers''"
  using assms(1,3,4) ring_find_cached [OF assms(2), of d n] ring_find_free [OF assms(2)] by (simp add: bget_def quietD Let_def)

text \<open>Property C16: \<open>bget\<close> on a cache whose list, the most recently used buffer first, is \<open>ls\<close>. A cached block is found and its buffer
  gets one more reference; otherwise the least recently used buffer without references is taken for the block, marked not valid;
  and when every buffer is in use the kernel panics.\<close>

theorem bget_lru:
  assumes q: "quiet p s" and r: "ring (bufs s) ls" and u: "\<And>b. b < NBUF \<Longrightarrow> b_refcnt (bufs s b) = 0 \<or> b_blockno (bufs s b) = n \<Longrightarrow> sl_locked (sleeplocks s (BufLk b)) = 0"
  shows "case find (\<lambda>c. b_dev (bufs s c) = d \<and> b_blockno (bufs s c) = n) ls of
      Some b \<Rightarrow> returns (bget d n s) (\<lambda>b' t. b' = b \<and> ring (bufs t) ls \<and> bufs t = (bufs s)(b := b_refcnt_update (\<lambda>k. k + 1) (bufs s b)))
    | None \<Rightarrow> (case find (\<lambda>c. b_refcnt (bufs s c) = 0) (rev ls) of
        Some b \<Rightarrow> returns (bget d n s) (\<lambda>b' t. b' = b \<and> ring (bufs t) ls \<and>
          bufs t = (bufs s)(b := (bufs s b)\<lparr>b_dev := d, b_blockno := n, b_valid := False, b_refcnt := 1\<rparr>))
      | None \<Rightarrow> bget d n s = Panic ''bget: no buffers'')"
proof -
  have mem: "x \<in> set ls \<longleftrightarrow> x < NBUF" for x using r by (auto simp: ring_def)
  have rc: "ring ((bufs s)(b := (bufs s b)\<lparr>b_refcnt := k\<rparr>)) ls" "ring ((bufs s)(b := b_refcnt_update f (bufs s b))) ls"
    "ring ((bufs s)(b := (bufs s b)\<lparr>b_dev := d, b_blockno := n, b_valid := v, b_refcnt := k\<rparr>)) ls" for b k v f
    using r by (subst ring_cong [of _ "bufs s"]; simp)+
  show ?thesis
  proof (cases "find (\<lambda>c. b_dev (bufs s c) = d \<and> b_blockno (bufs s c) = n) ls")
    case (Some b)
    then have "sl_locked (sleeplocks s (BufLk b)) = 0" using find_SomeD [OF Some] u mem by auto
    from bget_hit [OF q r Some this] Some show ?thesis by (simp add: rc)
  next
    case hit: None
    show ?thesis
    proof (cases "find (\<lambda>c. b_refcnt (bufs s c) = 0) (rev ls)")
      case (Some b)
      then have "sl_locked (sleeplocks s (BufLk b)) = 0" using find_SomeD [OF Some] u mem by auto
      from bget_miss [OF q r hit Some this] hit Some show ?thesis by (simp add: rc)
    next
      case None
      then show ?thesis using bget_full [OF q r hit None] hit by simp
    qed
  qed
qed

text \<open>Property C17: \<open>brelse\<close> by the holder of a buffer gives up one reference; when it was the last one, the buffer becomes the most
  recently used one: the five pointer updates take it out of its place in the list and put it in front. Nothing else of any buffer
  changes, and the buffer's lock is free.\<close>

theorem brelse_lru:
  assumes q: "quiet p s" and r: "ring (bufs s) ls" and b: "b < NBUF"
    and l: "sl_locked (sleeplocks s (BufLk b)) = 1" "sl_pid (sleeplocks s (BufLk b)) = p_pid (procs s p)"
  shows "returns (brelse b s) (\<lambda>_ t. ring (bufs t) (if b_refcnt (bufs s b) = 1 then b # remove1 b ls else ls) \<and>
     b_refcnt (bufs t b) = b_refcnt (bufs s b) - 1 \<and> sl_locked (sleeplocks t (BufLk b)) = 0 \<and>
     (\<forall>c. b_valid (bufs t c) = b_valid (bufs s c) \<and> b_dev (bufs t c) = b_dev (bufs s c) \<and> b_blockno (bufs t c) = b_blockno (bufs s c) \<and>
       b_data (bufs t c) = b_data (bufs s c) \<and> (c \<noteq> b \<longrightarrow> b_refcnt (bufs t c) = b_refcnt (bufs s c))))"
proof -
  have h: "holdingsleep (BufLk b) s = Ret True (settle s)" using l q by (simp add: holdingsleep_eq [where p = p])
  show ?thesis unfolding brelse_held_eq [OF q h] returns_simps
    using ring_put_back [OF r b] by (simp add: put_back_same)
qed

text \<open>One round of the loop of \<open>binit\<close>: the buffer is linked in behind the head.\<close>

definition link_in :: "nat \<Rightarrow> (nat \<Rightarrow> buf) \<Rightarrow> (nat \<Rightarrow> buf)" where
  "link_in b B =
     (let h = b_next (B bhead);
          B = B(b := (B b)\<lparr>b_next := h, b_prev := bhead\<rparr>);
          B = B(h := (B h)\<lparr>b_prev := b\<rparr>)
      in B(bhead := (B bhead)\<lparr>b_next := b\<rparr>))"

lemma link_in_same: "same_but_links B (link_in b B)"
  unfolding link_in_def Let_def by (intro same_but_links_upd) (simp add: same_but_links_def)

lemma linked_link_in:
  assumes l: "linked B (bhead # xs @ [bhead])" and d: "distinct xs" "bhead \<notin> set xs" and b: "b \<notin> set xs" "b \<noteq> bhead"
  shows "linked (link_in b B) (bhead # b # xs @ [bhead])"
proof -
  define h where "h = hd (xs @ [bhead])"
  have h: "b_next (B bhead) = h" "h \<noteq> b" "h \<in> set xs \<or> h = bhead"
    using l b by (cases xs; simp add: linked_def h_def)+
  have nx: "b_next (link_in b B x) = (if x = bhead then b else if x = b then h else b_next (B x))"
    and pv: "b_prev (link_in b B x) = (if x = h then b else if x = b then bhead else b_prev (B x))" for x
    using h b(2) by (auto simp: link_in_def Let_def)
  have "successively (\<lambda>x y. b_next (link_in b B x) = y \<and> b_prev (link_in b B y) = x) (xs @ [bhead])"
  proof (rule successively_weaken)
    show "successively (\<lambda>x y. b_next (B x) = y \<and> b_prev (B y) = x) (xs @ [bhead])"
      using l by (cases xs) (simp_all add: linked_def)
    show "distinct (xs @ [bhead])" using d by simp
    fix x y assume xy: "x \<in> set (butlast (xs @ [bhead]))" "y \<in> set (tl (xs @ [bhead]))" "b_next (B x) = y \<and> b_prev (B y) = x"
    have "y \<noteq> h" "y \<noteq> b" using xy(2) d b by (cases xs; auto simp: h_def)+
    then show "b_next (link_in b B x) = y \<and> b_prev (link_in b B y) = x" using xy d b by (auto simp: nx pv)
  qed
  moreover have "hd (xs @ [bhead]) = h" by (simp add: h_def)
  ultimately show ?thesis using h b(2) by (simp add: linked_def successively_Cons nx pv)
qed

lemma binit_step:
  assumes "b < NBUF"
  shows "(let s = upd_buf b (\<lambda>x. x\<lparr>b_next := b_next (bufs s bhead), b_prev := bhead\<rparr>) s;
              s = initsleeplock (BufLk b) ''buffer'' s;
              s = upd_buf (b_next (bufs s bhead)) (\<lambda>x. x\<lparr>b_prev := b\<rparr>) s
          in Ret () (upd_buf bhead (\<lambda>h. h\<lparr>b_next := b\<rparr>) s)) =
     Ret () ((initsleeplock (BufLk b) ''buffer'' s)\<lparr>bufs := link_in b (bufs s)\<rparr>)"
  using assms by (simp add: upd_buf_def initsleeplock_def initlock_def link_in_def Let_def)

lemma ring_binit:
  "k \<le> NBUF \<Longrightarrow> linked (bufs s) [bhead, bhead] \<Longrightarrow>
     returns (for_each (\<lambda>b s.
           let s = upd_buf b (\<lambda>x. x\<lparr>b_next := b_next (bufs s bhead), b_prev := bhead\<rparr>) s;
               s = initsleeplock (BufLk b) ''buffer'' s;
               s = upd_buf (b_next (bufs s bhead)) (\<lambda>x. x\<lparr>b_prev := b\<rparr>) s
           in Ret () (upd_buf bhead (\<lambda>h. h\<lparr>b_next := b\<rparr>) s)) [0..<k] s)
       (\<lambda>_ t. linked (bufs t) (bhead # rev [0..<k] @ [bhead]) \<and> same_but_links (bufs s) (bufs t) \<and>
          (\<forall>b<k. sl_locked (sleeplocks t (BufLk b)) = 0 \<and> lock_free (BufLk b) t))"
proof (induction k)
  case 0
  then show ?case by (simp add: same_but_links_def)
next
  case (Suc k)
  let ?f = "\<lambda>b (s :: 'a kbio_scheme).
           let s = upd_buf b (\<lambda>x. x\<lparr>b_next := b_next (bufs s bhead), b_prev := bhead\<rparr>) s;
               s = initsleeplock (BufLk b) ''buffer'' s;
               s = upd_buf (b_next (bufs s bhead)) (\<lambda>x. x\<lparr>b_prev := b\<rparr>) s
           in Ret () (upd_buf bhead (\<lambda>h. h\<lparr>b_next := b\<rparr>) s)"
  obtain t where t: "for_each ?f [0..<k] s = Ret () t" "linked (bufs t) (bhead # rev [0..<k] @ [bhead])" "same_but_links (bufs s) (bufs t)"
    "\<And>b. b < k \<Longrightarrow> sl_locked (sleeplocks t (BufLk b)) = 0 \<and> lock_free (BufLk b) t"
    using Suc by (auto simp: returns_iff)
  have "linked (link_in k (bufs t)) (bhead # k # rev [0..<k] @ [bhead])"
    using linked_link_in [OF t(2)] Suc.prems(1) by simp
  moreover have "same_but_links (bufs s) (link_in k (bufs t))"
    using t(3) link_in_same [of "bufs t" k] by (simp add: same_but_links_def)
  moreover have "for_each ?f [0..<Suc k] s = Ret () ((initsleeplock (BufLk k) ''buffer'' t)\<lparr>bufs := link_in k (bufs t)\<rparr>)"
    using t(1) Suc.prems(1) binit_step [of k t] by (simp add: for_each_append)
  ultimately show ?case using t(4)
    by (auto simp: initsleeplock_def initlock_def lock_free_def less_Suc_eq Let_def)
qed

text \<open>Property C30: \<open>binit\<close> makes a ring of all 30 buffers, the last one of the array first; it keeps the contents of the buffers
  and leaves every buffer unlocked.\<close>

theorem binit_correct:
  "returns (binit s) (\<lambda>_ t. ring (bufs t) (rev [0..<NBUF]) \<and>
     (\<forall>b<NBUF. sl_locked (sleeplocks t (BufLk b)) = 0 \<and> b_valid (bufs t b) = b_valid (bufs s b) \<and> b_refcnt (bufs t b) = b_refcnt (bufs s b) \<and>
        b_data (bufs t b) = b_data (bufs s b)))"
proof -
  let ?s = "upd_buf bhead (\<lambda>h. h\<lparr>b_prev := bhead, b_next := bhead\<rparr>) (initlock BcacheLock ''bcache'' s)"
  have "linked (bufs ?s) [bhead, bhead]" by (simp add: linked_def upd_buf_def)
  from ring_binit [OF order_refl this] show ?thesis
    unfolding binit_def Let_def
    by (rule returns_mono) (auto simp: ring_def same_but_links_def upd_buf_def initlock_def)
qed

lemma ring_buf0: "ring buf0 (rev [0..<NBUF])"
proof -
  have "set (rev [0..<30]) = {0..<30::nat}" "distinct (rev [0..<30::nat])" by simp_all
  moreover have "linked buf0 (bhead # rev [0..<30] @ [bhead])" by (simp add: linked_def buf0_def upt_rec)
  ultimately show ?thesis by (simp add: ring_def)
qed

lemma quiet_kbio0: "quiet 1 kbio0"
  by (simp add: quiet_def)

text \<open>A cache in which block 100 of device 1 is in buffer 5, with new contents.\<close>

definition buf1 :: "u32 \<Rightarrow> nat \<Rightarrow> buf" where
  "buf1 r = buf0(5 := (buf0 5)\<lparr>b_valid := True, b_dev := 1, b_blockno := 100, b_refcnt := r, b_data := replicate BSIZE 7\<rparr>)"

lemma ring_buf1: "ring (buf1 r) (rev [0..<NBUF])"
  using ring_buf0 ring_cong [of "buf1 r" buf0] by (simp add: buf1_def)

lemma cache_ok_buf1: "cache_ok 1 {5} {} (\<lambda>_. replicate BSIZE 0) (buf1 1)"
proof -
  have k: "keyed (buf1 1) 1 n b \<longleftrightarrow> b = 5 \<and> n = 100" for n b by (auto simp: keyed_def buf1_def buf0_def)
  show ?thesis unfolding cache_ok_def k using ring_buf1 by (auto, auto simp: buf1_def buf0_def)
qed

theorem bget_lru_witness:
  "returns (bget 1 7 kbio0) (\<lambda>b t. b = 0)"
proof -
  have e: "find (\<lambda>c. b_dev (buf0 c) = 1 \<and> b_blockno (buf0 c) = 7) (rev [0..<NBUF]) = None"
    "find (\<lambda>c. b_refcnt (buf0 c) = 0) (rev (rev [0..<NBUF])) = Some 0"
    by (simp_all add: find_None_iff) (simp_all add: buf0_def upt_rec)
  show ?thesis using bget_lru [OF quiet_kbio0, of "rev [0..<NBUF]" 7 1] ring_buf0 e by (auto elim: returns_mono)
qed

theorem brelse_lru_witness:
  "returns (brelse 5 (kbio0\<lparr>bufs := buf1 1, sleeplocks := (\<lambda>_. \<lparr>sl_locked = 1, sl_name = '''', sl_pid = p_pid (procs kbio0 1)\<rparr>)\<rparr>))
     (\<lambda>_ t. ring (bufs t) (5 # remove1 5 (rev [0..<NBUF])) \<and> b_data (bufs t 5) = replicate BSIZE 7)"
  using brelse_lru [of 1 "kbio0\<lparr>bufs := buf1 1, sleeplocks := (\<lambda>_. \<lparr>sl_locked = 1, sl_name = '''', sl_pid = p_pid (procs kbio0 1)\<rparr>)\<rparr>" "rev [0..<NBUF]" 5]
    quiet_kbio0 ring_buf1 [of 1]
  by (auto elim!: returns_mono, auto simp: buf1_def)

definition kbio1 :: kbio where
  "kbio1 = kbio0\<lparr>bufs := buf1 1\<rparr>"

lemma kbio1_fields [simp]: "platter kbio1 = (\<lambda>_. replicate BSIZE 0)" "disk_writes kbio1 = []" "bufs kbio1 = buf1 1"
  by (simp_all add: kbio1_def)

lemma held_kbio1: "held 1 1 {100} {} kbio1"
proof -
  have "bc 1 1 {5} {} kbio1" using cache_ok_buf1 quiet_kbio0 by (simp add: bc_def kbio1_def)
  then show ?thesis by (auto simp: held_def kbio1_def buf1_def intro!: exI [of _ "{5}"])
qed

lemma view_kbio1: "view 1 kbio1 = (\<lambda>_. replicate BSIZE 0)(100 := replicate BSIZE 7)"
proof
  fix n
  have "keyed (buf1 1) 1 m b \<longleftrightarrow> b = 5 \<and> m = 100" for m b by (auto simp: keyed_def buf1_def buf0_def)
  then show "view 1 kbio1 n = ((\<lambda>_. replicate BSIZE 0)(100 := replicate BSIZE 7)) n"
    using bview_cached [OF cache_ok_buf1, of 100 5] bview_uncached [of "buf1 1" 1 n]
    by (cases "n = 100") (simp_all add: view_def kbio1_def, simp add: buf1_def)
qed

text \<open>Property C6: \<open>bread\<close> shows one coherent disk. Whatever is cached, pinned by the log or held by the caller, the buffer it returns
  holds the current contents of the block (the cached ones if the block is cached, else those on the disk); reading changes neither the
  disk nor the contents of any block, and it leaves the cache consistent, with the buffer locked by the caller.\<close>

theorem bread_coherent:
  assumes "held p d N R s" and "\<forall>b\<in>R. b_blockno (bufs s b) \<noteq> n" and "n \<in> N \<or> card N + card R < NBUF"
  shows "returns (bread d n s) (\<lambda>b t. held p d N (insert b R) t \<and> b \<notin> R \<and> b_blockno (bufs t b) = n \<and> b_data (bufs t b) = view d s n \<and>
     view d t = view d s \<and> platter t = platter s \<and> disk_writes t = disk_writes s)"
  by (rule returns_mono [OF bread_held [OF assms]]) (simp add: same_disk_def)

theorem bread_coherent_witness:
  "returns (bread 1 100 kbio1) (\<lambda>b t. b_data (bufs t b) = replicate BSIZE 7 \<and> platter t 100 = replicate BSIZE 0)"
  using bread_coherent [OF held_kbio1, of 100] by (auto simp: view_kbio1 elim!: returns_mono)

theorem binit_correct_witness:
  "returns (binit (kbio0\<lparr>bufs := (\<lambda>_. (buf0 0)\<lparr>b_next := 0, b_prev := 0, b_data := [7]\<rparr>)\<rparr>)) (\<lambda>_ t. ring (bufs t) (rev [0..<NBUF]) \<and> b_data (bufs t 5) = [7])"
  by (rule returns_mono [OF binit_correct]) simp

end
