(* ===== verification/Crash.thy ===== *)
theory Crash
  imports Bcache Log
begin

text \<open>
  The redo log of \<open>kernel/log.c\<close> over the cache: every function of the log is specified by the writes it makes to the disk, in order,
  and a commit cut short at any write and followed by recovery is shown to be atomic.
\<close>

lemma held_klog [simp]:
  "held p d N R (s\<lparr>lh_n := n\<rparr>) = held p d N R s" "held p d N R (s\<lparr>lh_n := n, lh_block := f\<rparr>) = held p d N R s"
  "view d (s\<lparr>lh_n := n\<rparr>) = view d s" "view d (s\<lparr>lh_n := n, lh_block := f\<rparr>) = view d s"
  by (simp_all add: held_def bc_def view_def quiet_def lock_free_def cpu_ok_def machine_defs)

text \<open>The fields of \<open>struct log\<close>.\<close>

lemma klog_more:
  assumes "kbio.more t = kbio.more (s :: 'z klog_scheme)"
  shows "log_start t = log_start s" "log_size t = log_size s" "log_outstanding t = log_outstanding s" "log_committing t = log_committing s"
    "log_dev t = log_dev s" "lh_n t = lh_n s" "lh_block t = lh_block s" "klog.more t = klog.more s"
proof -
  show "log_start t = log_start s" "log_size t = log_size s" "log_outstanding t = log_outstanding s" "log_committing t = log_committing s"
    "log_dev t = log_dev s" "lh_n t = lh_n s" "lh_block t = lh_block s" "klog.more t = klog.more s"
    using assms by (cases t; cases s; simp)+
qed

lemma upd_buf_fields [simp]:
  "platter (upd_buf b f s) = platter s" "disk_writes (upd_buf b f s) = disk_writes s" "kbio.more (upd_buf b f s) = kbio.more s"
  "bufs (upd_buf b f s) = (bufs s)(b := f (bufs s b))"
  by (simp_all add: upd_buf_def)

lemma copy_block:
  assumes h: "held p d N R s" and fb: "fb \<in> R" "tb \<in> R" "fb \<noteq> tb" and n: "b_blockno (bufs s tb) = n" and x: "b_data (bufs s fb) = x"
  obtains t where "bwrite tb (upd_buf tb (\<lambda>y. y\<lparr>b_data := b_data (bufs s fb)\<rparr>) s) = Ret () t" and "held p d N R t" and "wrote d [(n, x)] s t"
    and "kbio.more t = kbio.more s" and "\<And>c. b_blockno (bufs t c) = b_blockno (bufs s c)" and "b_data (bufs t tb) = x" and "b_data (bufs t fb) = x"
proof -
  have "b_blockno (bufs (upd_buf tb (\<lambda>y. y\<lparr>b_data := b_data (bufs s fb)\<rparr>) s) tb) = n" using n by simp
  from bwrite_held [OF held_set(1) [OF h fb(2) n] fb(2) this]
  show ?thesis using n x fb held_set(2) [OF h fb(2) n] by (auto simp: returns_iff wrote_def intro!: that)
qed

lemma bread2:
  assumes h: "held p d N {} s" and mn: "m \<noteq> n" and N: "card N < NBUF" "n \<in> N \<or> card N + 1 < NBUF"
  obtains x t y u where "bread d m s = Ret x t" and "kbio.more t = kbio.more s" and "bread d n t = Ret y u" and "held p d N {x, y} u" and "x \<noteq> y"
    and "b_blockno (bufs u x) = m" and "b_blockno (bufs u y) = n" and "b_data (bufs u x) = view d s m" and "b_data (bufs u y) = view d s n"
    and "view d u = view d s" and "same_disk s u"
proof -
  obtain x t where 1: "bread d m s = Ret x t" "held p d N {x} t" "b_blockno (bufs t x) = m" "b_data (bufs t x) = view d s m"
    "view d t = view d s" "same_disk s t" using bread_held [OF h, of m] N(1) by (auto simp: returns_iff)
  obtain y u where 2: "bread d n t = Ret y u" "held p d N {y, x} u" "y \<noteq> x" "b_blockno (bufs u y) = n" "b_data (bufs u y) = view d t n"
    "view d u = view d t" "same_disk t u" "b_blockno (bufs u x) = m" "b_data (bufs u x) = view d s m"
    using bread_held [OF 1(2), of n] 1(3,4) mn N(2) by (auto simp: returns_iff)
  show ?thesis
    by (rule that [OF 1(1) _ 2(1), of]) (use 1 2 in \<open>auto simp: same_disk_def insert_commute\<close>)
qed

lemma brelse_clean:
  assumes "held p d N R s" and "b \<in> R" and "b_blockno (bufs s b) = n" and "n \<in> N \<or> b_data (bufs s b) = platter s n"
  obtains t where "brelse b s = Ret () t" and "held p d N (R - {b}) t" and "view d t = view d s" and "same_disk s t" and "same_data s t"
  using brelse_held [OF assms] by (auto simp: returns_iff intro: that)

lemma write_log_one_held:
  assumes h: "held p (log_dev s) N {} s" and L: "of_int (log_start s + int i + 1) = L" "L \<notin> N" and H: "lh_block s i = H" "H \<in> N"
    and N: "card N < NBUF"
  shows "returns (write_log_one i s) (\<lambda>_ t. held p (log_dev s) N {} t \<and> wrote (log_dev s) [(L, view (log_dev s) s H)] s t \<and> kbio.more t = kbio.more s)"
proof -
  let ?d = "log_dev s"
  have "L \<noteq> H" using L H by auto
  then obtain tb t fb u where 1: "bread ?d L s = Ret tb t" "kbio.more t = kbio.more s" "bread ?d H t = Ret fb u" "held p ?d N {tb, fb} u" "tb \<noteq> fb"
    "b_blockno (bufs u tb) = L" "b_blockno (bufs u fb) = H" "b_data (bufs u fb) = view ?d s H" "view ?d u = view ?d s" "same_disk s u"
    using bread2 [OF h, of L H] N H(2) by metis
  obtain v where 2: "bwrite tb (upd_buf tb (\<lambda>y. y\<lparr>b_data := b_data (bufs u fb)\<rparr>) u) = Ret () v" "held p ?d N {tb, fb} v"
    "wrote ?d [(L, view ?d s H)] u v" "kbio.more v = kbio.more u" "\<And>c. b_blockno (bufs v c) = b_blockno (bufs u c)" "b_data (bufs v tb) = view ?d s H"
    using copy_block [OF 1(4) _ _ _ 1(6,8)] 1(5) by (metis insertI1 insertI2)
  obtain w where 3: "brelse fb v = Ret () w" "held p ?d N ({tb, fb} - {fb}) w" "view ?d w = view ?d v" "same_disk v w" "same_data v w"
    using brelse_clean [OF 2(2), of fb H] 2(5) 1(7) H(2) by blast
  have "held p ?d N {tb} w" using 3(2) 1(5) by (simp add: insert_Diff_if)
  moreover have "b_data (bufs w tb) = platter w L" "b_blockno (bufs w tb) = L"
    using 3(4,5) 2(3,5,6) 1(6) by (simp_all add: same_data_def same_disk_def wrote_def)
  ultimately obtain x where 4: "brelse tb w = Ret () x" "held p ?d N ({tb} - {tb}) x" "view ?d x = view ?d w" "same_disk w x"
    using brelse_clean [of p ?d N "{tb}" w tb L] by blast
  have "write_log_one i s = Ret () x"
    using 1(1,3) 2(1) 3(1) 4(1) klog_more(5,7) [OF 1(2)] L(1) H(1) by (simp add: write_log_one_def Let_def)
  then show ?thesis using 4(2-4) 3(3,4) 2(3,4) 1(9,10) by (simp add: wrote_def same_disk_def)
qed

lemma install_one_held:
  assumes h: "held p (log_dev s) N {} s" and L: "of_int (log_start s + int i + 1) = L" "L \<notin> N" and H: "lh_block s i = H" "H \<noteq> L"
    and N: "card N < NBUF" "if rec then N = {} else H \<in> N"
  shows "returns (install_one rec i s) (\<lambda>_ t. held p (log_dev s) (N - {H}) {} t \<and> wrote (log_dev s) [(H, platter s L)] s t \<and> kbio.more t = kbio.more s)"
proof -
  let ?d = "log_dev s"
  have pl: "view ?d s L = platter s L" using held_view [OF h L(2)] by simp
  have "H \<in> N \<or> card N + 1 < NBUF" using N(2) by (auto split: if_splits)
  then obtain lb t db u where 1: "bread ?d L s = Ret lb t" "kbio.more t = kbio.more s" "bread ?d H t = Ret db u" "held p ?d N {lb, db} u" "lb \<noteq> db"
    "b_blockno (bufs u lb) = L" "b_blockno (bufs u db) = H" "b_data (bufs u lb) = platter s L" "view ?d u = view ?d s" "same_disk s u"
    using bread2 [OF h, of L H] N(1) H(2) pl by metis
  obtain v where 2: "bwrite db (upd_buf db (\<lambda>y. y\<lparr>b_data := b_data (bufs u lb)\<rparr>) u) = Ret () v" "held p ?d N {lb, db} v"
    "wrote ?d [(H, platter s L)] u v" "kbio.more v = kbio.more u" "\<And>c. b_blockno (bufs v c) = b_blockno (bufs u c)" "b_data (bufs v db) = platter s L"
    "b_data (bufs v lb) = platter s L"
    using copy_block [OF 1(4) _ _ _ 1(7,8)] 1(5) by (metis insertI1 insertI2)
  have "returns (if \<not> rec then bunpin db v else Ret () v) (\<lambda>_ t. held p ?d (N - {H}) {lb, db} t \<and> view ?d t = view ?d v \<and> same_disk v t \<and> same_data v t)"
    using bunpin_held [OF 2(2), of db H] 2(2,5) 1(7) N(2) by (auto simp: same_disk_def same_data_def)
  then obtain v' where 3: "(if \<not> rec then bunpin db v else Ret () v) = Ret () v'" "held p ?d (N - {H}) {lb, db} v'"
    "view ?d v' = view ?d v" "same_disk v v'" "same_data v v'" by (auto simp: returns_iff)
  have blk: "b_blockno (bufs v' lb) = L" "b_blockno (bufs v' db) = H" "b_data (bufs v' lb) = platter v' L" "b_data (bufs v' db) = platter v' H"
    using 3(4,5) 2(3,5-7) 1(6,7,10) H(2) by (simp_all add: same_data_def same_disk_def wrote_def)
  obtain w where 4: "brelse lb v' = Ret () w" "held p ?d (N - {H}) ({lb, db} - {lb}) w" "view ?d w = view ?d v'" "same_disk v' w" "same_data v' w"
    using brelse_clean [OF 3(2), of lb L] blk by blast
  have "held p ?d (N - {H}) {db} w" using 4(2) 1(5) by (simp add: insert_Diff_if)
  moreover have "b_blockno (bufs w db) = H" "b_data (bufs w db) = platter w H"
    using 4(4,5) blk by (simp_all add: same_data_def same_disk_def)
  ultimately obtain x where 5: "brelse db w = Ret () x" "held p ?d (N - {H}) ({db} - {db}) x" "view ?d x = view ?d w" "same_disk w x"
    using brelse_clean [of p ?d "N - {H}" "{db}" w db H] by blast
  have "install_one rec i s = Ret () x"
    using 1(1,3) 2(1) 3(1) 4(1) 5(1) klog_more(5,7) [OF 1(2)] L(1) H(1) by (simp add: install_one_def Let_def)
  then show ?thesis using 5(2-4) 4(3,4) 3(3,4) 2(3,4) 1(9,10) by (simp add: wrote_def same_disk_def)
qed

lemma length_put32 [simp]: "length (put32 off v bs) = length bs"
  by (simp add: put32_def)

lemma get32_put32 [simp]:
  assumes "off + 3 < length bs"
  shows "get32 (put32 off v bs) off = v"
proof -
  have "get32 (put32 off v bs) off = ucast (ucast v :: u8) OR push_bit 8 (ucast (ucast (drop_bit 8 v) :: u8))
     OR push_bit 16 (ucast (ucast (drop_bit 16 v) :: u8)) OR push_bit 24 (ucast (ucast (drop_bit 24 v) :: u8))"
    using assms by (simp add: get32_def put32_def nth_list_update)
  also have "\<dots> = v"
  proof (rule bit_eqI)
    fix n assume "possible_bit TYPE(u32) n"
    then consider "n < 8" | "8 \<le> n" "n < 16" | "16 \<le> n" "n < 24" | "24 \<le> n" "n < 32" by (fastforce simp: possible_bit_word)
    then show "bit ((ucast (ucast v :: u8) :: u32) OR push_bit 8 (ucast (ucast (drop_bit 8 v) :: u8))
      OR push_bit 16 (ucast (ucast (drop_bit 16 v) :: u8)) OR push_bit 24 (ucast (ucast (drop_bit 24 v) :: u8))) n = bit v n"
      by cases (simp_all add: bit_simps, linarith+)
  qed
  finally show ?thesis .
qed

lemma get32_put32_other [simp]: "off + 3 < off' \<or> off' + 3 < off \<Longrightarrow> get32 (put32 off v bs) off' = get32 bs off'"
  by (auto simp: get32_def put32_def nth_list_update)

lemma length_put_blocks [simp]: "length (put_blocks n B d) = length d"
  by (induction n) simp_all

lemma get32_put_blocks:
  "4 * n + 3 < length d \<Longrightarrow> i < n \<Longrightarrow> get32 (put_blocks n B d) (4 + 4 * i) = B i"
  by (induction n) (auto simp: less_Suc_eq)

lemma get32_put_blocks_0 [simp]: "get32 (put_blocks n B d) 0 = get32 d 0"
  by (induction n) simp_all

text \<open>The header block with \<open>n\<close> home blocks.\<close>

definition header :: "nat \<Rightarrow> (nat \<Rightarrow> u32) \<Rightarrow> u8 list \<Rightarrow> u8 list" where
  "header n B d = put_blocks n B (put32 0 (of_nat n) d)"

lemma header_get:
  assumes "4 * n + 3 < length d" and "n < 2 ^ 31"
  shows "sint (get32 (header n B d) 0) = int n" and "i < n \<Longrightarrow> get32 (header n B d) (4 + 4 * i) = B i" and "length (header n B d) = length d"
proof -
  show "sint (get32 (header n B d) 0) = int n"
    using assms by (simp add: header_def signed_of_nat signed_take_bit_int_eq_self)
qed (use assms in \<open>simp_all add: header_def get32_put_blocks\<close>)

lemma write_head_held:
  assumes h: "held p (log_dev s) N {} s" and st: "of_int (log_start s) = st" "st \<notin> N" and N: "card N < NBUF" and n: "0 \<le> lh_n s"
  shows "returns (write_head s) (\<lambda>_ t. held p (log_dev s) N {} t \<and> kbio.more t = kbio.more s \<and>
     wrote (log_dev s) [(st, header (nat (lh_n s)) (lh_block s) (platter s st))] s t)"
proof -
  let ?d = "log_dev s" and ?x = "header (nat (lh_n s)) (lh_block s) (platter s st)"
  have pl: "view ?d s st = platter s st" using held_view [OF h st(2)] by simp
  obtain b t where 1: "bread ?d st s = Ret b t" "held p ?d N {b} t" "b_blockno (bufs t b) = st" "b_data (bufs t b) = platter s st"
    "view ?d t = view ?d s" "same_disk s t" using bread_held [OF h, of st] N pl by (auto simp: returns_iff)
  let ?f = "\<lambda>x. x\<lparr>b_data := put_blocks (nat (lh_n t)) (lh_block t) (put32 0 (of_int (lh_n t)) (b_data x))\<rparr>"
  have eq: "upd_buf b ?f t = upd_buf b (\<lambda>x. x\<lparr>b_data := ?x\<rparr>) t"
    using klog_more(6,7) [of t s] 1(4,6) n by (simp add: upd_buf_def header_def same_disk_def)
  obtain u where 2: "bwrite b (upd_buf b ?f t) = Ret () u" "held p ?d N {b} u" "wrote ?d [(st, ?x)] t u" "kbio.more u = kbio.more t"
    "b_blockno (bufs u b) = st" "b_data (bufs u b) = ?x"
    using bwrite_held [OF held_set(1) [OF 1(2) _ 1(3), of ?x], of b st] held_set(2) [OF 1(2) _ 1(3), of ?x] 1(3) unfolding eq
    by (auto simp: returns_iff wrote_def)
  have "b_data (bufs u b) = platter u st" using 2(3,6) by (simp add: wrote_def)
  then obtain v where 3: "brelse b u = Ret () v" "held p ?d N ({b} - {b}) v" "view ?d v = view ?d u" "same_disk u v"
    using brelse_clean [OF 2(2), of b st] 2(5) by blast
  have "write_head s = Ret () v" using 1(1) 2(1) 3(1) st(1) by (simp add: write_head_def Let_def)
  then show ?thesis using 3(2-4) 2(3,4) 1(5,6) by (simp add: wrote_def same_disk_def)
qed

lemma read_head_held:
  assumes h: "held p (log_dev s) {} {} s" and st: "of_int (log_start s) = st" and n: "sint (get32 (platter s st) 0) = int n"
  shows "returns (read_head s) (\<lambda>_ t. held p (log_dev s) {} {} t \<and> wrote (log_dev s) [] s t \<and>
     lh_n t = int n \<and> (\<forall>i<n. lh_block t i = get32 (platter s st) (4 + 4 * i)) \<and> log_start t = log_start s \<and> log_dev t = log_dev s)"
proof -
  let ?d = "log_dev s"
  have pl: "view ?d s st = platter s st" using held_view [OF h] by simp
  obtain b t where 1: "bread ?d st s = Ret b t" "held p ?d {} {b} t" "b_blockno (bufs t b) = st" "b_data (bufs t b) = platter s st"
    "view ?d t = view ?d s" "same_disk s t" using bread_held [OF h, of st] pl by (auto simp: returns_iff)
  let ?t = "t\<lparr>lh_n := int n, lh_block := (\<lambda>i. if i < n then get32 (platter s st) (4 + 4 * i) else lh_block t i)\<rparr>"
  obtain u where 2: "brelse b ?t = Ret () u" "held p ?d {} ({b} - {b}) u" "view ?d u = view ?d ?t" "same_disk ?t u"
    using brelse_clean [of p ?d "{}" "{b}" ?t b st] 1(2-4,6) by (auto simp: same_disk_def)
  have "read_head s = Ret () u" using 1(1,4) 2(1) st n by (simp add: read_head_def Let_def cong: if_cong)
  moreover have "kbio.more u = kbio.more ?t" using 2(4) by (simp add: same_disk_def)
  note m = klog_more [OF this]
  ultimately show ?thesis using 2(2-4) 1(5,6) m klog_more [of t s] by (simp add: wrote_def same_disk_def)
qed

text \<open>Where the log lives: block \<open>i\<close> of the log area, the header first.\<close>

definition log_blk :: "int \<Rightarrow> nat \<Rightarrow> u32" where
  "log_blk st i = of_int (st + int i)"

definition log_area :: "int \<Rightarrow> u32 set" where
  "log_area st = log_blk st ` {..<30}"

lemma log_blk_inj: "i < 30 \<Longrightarrow> j < 30 \<Longrightarrow> log_blk st i = log_blk st j \<longleftrightarrow> i = j"
proof -
  assume ij: "i < 30" "j < 30"
  have "log_blk st i = log_blk st j \<longleftrightarrow> (of_nat i :: u32) = of_nat j" by (simp add: log_blk_def)
  also have "\<dots> \<longleftrightarrow> i = j"
  proof
    assume "(of_nat i :: u32) = of_nat j"
    then have "unat (of_nat i :: u32) = unat (of_nat j :: u32)" by simp
    then show "i = j" using ij by (simp add: unsigned_of_nat take_bit_nat_eq_self)
  qed simp
  finally show ?thesis .
qed

text \<open>A transaction on the \<open>n\<close> distinct home blocks \<open>H\<close>, none of them in the log.\<close>

definition txn :: "int \<Rightarrow> nat \<Rightarrow> (nat \<Rightarrow> u32) \<Rightarrow> bool" where
  "txn st n H \<longleftrightarrow> n < 30 \<and> inj_on H {..<n} \<and> H ` {..<n} \<inter> log_area st = {}"

lemma txn_log: "txn st n H \<Longrightarrow> i < n \<Longrightarrow> j < 30 \<Longrightarrow> H i \<noteq> log_blk st j" "txn st n H \<Longrightarrow> i < n \<Longrightarrow> j < 30 \<Longrightarrow> log_blk st j \<noteq> H i"
  by (auto simp: txn_def log_area_def)

lemma txn_home: "txn st n H \<Longrightarrow> i < n \<Longrightarrow> H i \<notin> log_area st"
  by (auto simp: txn_def)

lemma log_copies_area: "n < 30 \<Longrightarrow> (\<lambda>i. log_blk st (Suc i)) ` {..<n} \<subseteq> log_area st"
  by (auto simp: log_area_def)

lemma log_copies:
  assumes "n < 30"
  shows "log_blk st 0 \<notin> (\<lambda>i. log_blk st (Suc i)) ` {..<n}" and "inj_on (\<lambda>i. log_blk st (Suc i)) {..<n}"
proof -
  show "log_blk st 0 \<notin> (\<lambda>i. log_blk st (Suc i)) ` {..<n}"
  proof
    assume "log_blk st 0 \<in> (\<lambda>i. log_blk st (Suc i)) ` {..<n}"
    then obtain i where "i < n" "log_blk st 0 = log_blk st (Suc i)" by auto
    then show False using log_blk_inj [of 0 "Suc i" st] assms by simp
  qed
  show "inj_on (\<lambda>i. log_blk st (Suc i)) {..<n}"
  proof (rule inj_onI)
    fix i j assume "i \<in> {..<n}" "j \<in> {..<n}" "log_blk st (Suc i) = log_blk st (Suc j)"
    then show "i = j" using log_blk_inj [of "Suc i" "Suc j" st] assms by simp
  qed
qed

lemma txn_inj: "txn st n H \<Longrightarrow> i < n \<Longrightarrow> j < n \<Longrightarrow> H i = H j \<longleftrightarrow> i = j"
  by (auto simp: txn_def inj_on_def)

lemma for_each_wrote:
  assumes "I 0 s" and "\<And>i t. i < n \<Longrightarrow> wrote d (map w [0..<i]) s t \<Longrightarrow> I i t \<Longrightarrow> returns (f i t) (\<lambda>_ u. wrote d [w i] t u \<and> I (Suc i) u)"
  shows "returns (for_each f [0..<n] s) (\<lambda>_ t. wrote d (map w [0..<n]) s t \<and> I n t)"
  using assms(2)
proof (induction n)
  case 0
  then show ?case using assms(1) by (simp add: wrote_Nil)
next
  case (Suc n)
  then have "returns (for_each f [0..<n] s) (\<lambda>_ t. wrote d (map w [0..<n]) s t \<and> I n t)" by simp
  then show ?case
    by (auto simp: for_each_append returns_iff) (use Suc.prems [of n] wrote_trans in \<open>fastforce simp: returns_iff\<close>)
qed

definition copies :: "nat \<Rightarrow> (nat \<Rightarrow> u32) \<Rightarrow> (nat \<Rightarrow> u8 list) \<Rightarrow> (u32 \<times> u8 list) list" where
  "copies n to x = map (\<lambda>i. (to i, x i)) [0..<n]"

lemma apply_copies_other: "b \<notin> to ` {..<n} \<Longrightarrow> apply_writes (copies n to x) D b = D b"
  by (rule apply_writes_other) (auto simp: copies_def)

lemma apply_copies: "inj_on to {..<n} \<Longrightarrow> i < n \<Longrightarrow> apply_writes (copies n to x) D (to i) = x i"
  by (rule apply_writes_distinct) (auto simp: copies_def distinct_map comp_def lessThan_atLeast0)

lemma write_log_held:
  assumes h: "held p (log_dev s) (lh_block s ` {..<n}) {} s" and n: "lh_n s = int n" and tx: "txn (log_start s) n (lh_block s)"
  shows "returns (write_log s) (\<lambda>_ t. wrote (log_dev s) (copies n (\<lambda>i. log_blk (log_start s) (Suc i)) (\<lambda>i. view (log_dev s) s (lh_block s i))) s t \<and>
     held p (log_dev s) (lh_block s ` {..<n}) {} t \<and> kbio.more t = kbio.more s)"
  unfolding write_log_def copies_def n nat_int
proof (rule for_each_wrote [where I = "\<lambda>_ t. held p (log_dev s) (lh_block s ` {..<n}) {} t \<and> kbio.more t = kbio.more s"])
  fix i t assume i: "i < n" and w: "wrote (log_dev s) (map (\<lambda>i. (log_blk (log_start s) (Suc i), view (log_dev s) s (lh_block s i))) [0..<i]) s t"
    and I: "held p (log_dev s) (lh_block s ` {..<n}) {} t \<and> kbio.more t = kbio.more s"
  note m = klog_more [OF conjunct2 [OF I]]
  have n30: "n < 30" using tx by (simp add: txn_def)
  have "lh_block s i \<notin> (\<lambda>i. log_blk (log_start s) (Suc i)) ` {..<i}" using log_copies_area [of i "log_start s"] txn_home [OF tx i] i n30 by auto
  from apply_copies_other [OF this] have v: "view (log_dev s) t (lh_block s i) = view (log_dev s) s (lh_block s i)"
    using w by (simp add: wrote_def copies_def)
  have c: "card (lh_block s ` {..<n}) < NBUF" using card_image_le [of "{..<n}" "lh_block s"] n30 by simp
  have L: "log_blk (log_start s) (Suc i) \<notin> lh_block s ` {..<n}" using txn_log(2) [OF tx] i n30 by auto
  have e: "of_int (log_start t + int i + 1) = log_blk (log_start s) (Suc i)" by (simp add: m log_blk_def algebra_simps)
  have h': "held p (log_dev t) (lh_block s ` {..<n}) {} t" "lh_block t i = lh_block s i" "lh_block s i \<in> lh_block s ` {..<n}" using I i by (simp_all add: m)
  show "returns (write_log_one i t) (\<lambda>_ u. wrote (log_dev s) [(log_blk (log_start s) (Suc i), view (log_dev s) s (lh_block s i))] t u \<and>
      held p (log_dev s) (lh_block s ` {..<n}) {} u \<and> kbio.more u = kbio.more s)"
    by (rule returns_mono [OF write_log_one_held [OF h'(1) e L h'(2,3) c]]) (use I m(5) v in simp)
qed (use h in simp)

lemma install_trans_held:
  assumes h: "held p (log_dev s) (if rec then {} else lh_block s ` {..<n}) {} s" and n: "lh_n s = int n" and tx: "txn (log_start s) n (lh_block s)"
  shows "returns (install_trans rec s) (\<lambda>_ t. wrote (log_dev s) (copies n (lh_block s) (\<lambda>i. platter s (log_blk (log_start s) (Suc i)))) s t \<and>
     held p (log_dev s) {} {} t \<and> kbio.more t = kbio.more s)"
proof -
  let ?N = "\<lambda>i. if rec then {} else lh_block s ` {i..<n}"
  have n30: "n < 30" using tx by (simp add: txn_def)
  have "returns (for_each (install_one rec) [0..<n] s) (\<lambda>_ t. wrote (log_dev s) (map (\<lambda>i. (lh_block s i, platter s (log_blk (log_start s) (Suc i)))) [0..<n]) s t \<and>
    held p (log_dev s) (?N n) {} t \<and> kbio.more t = kbio.more s)"
  proof (rule for_each_wrote [where I = "\<lambda>i t. held p (log_dev s) (?N i) {} t \<and> kbio.more t = kbio.more s"])
    fix i t assume i: "i < n" and w: "wrote (log_dev s) (map (\<lambda>i. (lh_block s i, platter s (log_blk (log_start s) (Suc i)))) [0..<i]) s t"
      and I: "held p (log_dev s) (?N i) {} t \<and> kbio.more t = kbio.more s"
    note m = klog_more [OF conjunct2 [OF I]]
    have "log_blk (log_start s) (Suc i) \<notin> lh_block s ` {..<i}" using txn_log(2) [OF tx] i n30 by auto
    from apply_copies_other [OF this] have v: "platter t (log_blk (log_start s) (Suc i)) = platter s (log_blk (log_start s) (Suc i))"
      using w by (simp add: wrote_def copies_def)
    have c: "card (?N i) < NBUF" using card_image_le [of "{i..<n}" "lh_block s"] n30 by auto
    have L: "log_blk (log_start s) (Suc i) \<notin> ?N i" "lh_block s i \<noteq> log_blk (log_start s) (Suc i)"
      using txn_log [OF tx] i n30 by auto
    have r: "if rec then ?N i = {} else lh_block s i \<in> ?N i" using i by simp
    have d: "?N i - {lh_block s i} = ?N (Suc i)"
      using txn_inj [OF tx] i by (auto simp: image_iff Suc_le_eq le_less)
    have e: "of_int (log_start t + int i + 1) = log_blk (log_start s) (Suc i)" by (simp add: m log_blk_def algebra_simps)
    have h': "held p (log_dev t) (?N i) {} t" "lh_block t i = lh_block s i" using I by (simp_all add: m)
    show "returns (install_one rec i t) (\<lambda>_ u. wrote (log_dev s) [(lh_block s i, platter s (log_blk (log_start s) (Suc i)))] t u \<and>
        held p (log_dev s) (?N (Suc i)) {} u \<and> kbio.more u = kbio.more s)"
      by (rule returns_mono [OF install_one_held [OF h'(1) e L(1) h'(2) L(2) c r]]) (use I m(5) v d in simp)
  qed (use h in \<open>auto simp: lessThan_atLeast0 split: if_splits\<close>)
  then show ?thesis unfolding install_trans_def copies_def n nat_int by (rule returns_mono) (auto split: if_splits)
qed

lemma view_wrote: "wrote d ws s t \<Longrightarrow> view d t = apply_writes ws (view d s)" "wrote d ws s t \<Longrightarrow> platter t = apply_writes ws (platter s)"
  by (simp_all add: wrote_def)

text \<open>The writes of a commit: the new blocks into the log, the header that commits them, the new blocks to their homes, and
  the empty header.\<close>

definition commit_writes :: "int \<Rightarrow> nat \<Rightarrow> (nat \<Rightarrow> u32) \<Rightarrow> (u32 \<Rightarrow> u8 list) \<Rightarrow> (u32 \<Rightarrow> u8 list) \<Rightarrow> (u32 \<times> u8 list) list" where
  "commit_writes st n H D V =
     copies n (\<lambda>i. log_blk st (Suc i)) (\<lambda>i. V (H i)) @ [(log_blk st 0, header n H (D (log_blk st 0)))] @
     copies n H (\<lambda>i. V (H i)) @ [(log_blk st 0, put32 0 0 (header n H (D (log_blk st 0))))]"

lemma commit_held:
  assumes h: "held p (log_dev s) (lh_block s ` {..<n}) {} s" and n: "lh_n s = int n" "0 < n" and tx: "txn (log_start s) n (lh_block s)"
  shows "returns (commit s) (\<lambda>_ t. held p (log_dev s) {} {} t \<and> lh_n t = 0 \<and> log_start t = log_start s \<and> log_dev t = log_dev s \<and>
     log_outstanding t = log_outstanding s \<and> log_committing t = log_committing s \<and>
     wrote (log_dev s) (commit_writes (log_start s) n (lh_block s) (platter s) (view (log_dev s) s)) s t)"
proof -
  let ?d = "log_dev s" and ?H = "lh_block s" and ?st = "log_start s" and ?N = "lh_block s ` {..<n}"
  let ?hdr = "log_blk ?st 0" and ?L = "\<lambda>i. log_blk ?st (Suc i)"
  have n30: "n < 30" using tx by (simp add: txn_def)
  obtain t where 1: "write_log s = Ret () t" "wrote ?d (copies n ?L (\<lambda>i. view ?d s (?H i))) s t" "held p ?d ?N {} t" "kbio.more t = kbio.more s"
    using write_log_held [OF h n(1) tx] by (auto simp: returns_iff)
  note m1 = klog_more [OF 1(4)]
  have c: "card ?N < NBUF" using card_image_le [of "{..<n}" ?H] n30 by simp
  have hdr: "?hdr \<notin> ?N" using txn_log(2) [OF tx] by auto
  have "?hdr \<notin> ?L ` {..<n}" by (rule log_copies(1) [OF n30])
  then have pl: "platter t ?hdr = platter s ?hdr" using view_wrote(2) [OF 1(2)] by (simp add: apply_copies_other)
  obtain u where 2: "write_head t = Ret () u" "held p ?d ?N {} u" "kbio.more u = kbio.more s" "wrote ?d [(?hdr, header n ?H (platter s ?hdr))] t u"
    using write_head_held [of p t ?N ?hdr] 1(3,4) hdr c n pl by (auto simp: returns_iff m1 log_blk_def)
  note m2 = klog_more [OF 2(3)]
  have L: "platter u (?L i) = view ?d s (?H i)" if i: "i < n" for i
  proof -
    have "platter t (?L i) = view ?d s (?H i)" using apply_copies [OF log_copies(2) [OF n30] i] view_wrote(2) [OF 1(2)] by simp
    moreover have "?L i \<noteq> ?hdr" using log_blk_inj [of "Suc i" 0 ?st] i n30 by simp
    ultimately show ?thesis using view_wrote(2) [OF 2(4)] by simp
  qed
  have eq: "copies n ?H (\<lambda>i. platter u (?L i)) = copies n ?H (\<lambda>i. view ?d s (?H i))" using L by (simp add: copies_def)
  obtain v where 3: "install_trans False u = Ret () v" "wrote ?d (copies n ?H (\<lambda>i. view ?d s (?H i))) u v" "held p ?d {} {} v" "kbio.more v = kbio.more s"
    using install_trans_held [of p u False n] 2(2,3) n tx eq by (auto simp: returns_iff m2)
  note m3 = klog_more [OF 3(4)]
  have "platter v ?hdr = header n ?H (platter s ?hdr)"
    using view_wrote(2) [OF 3(2)] view_wrote(2) [OF 2(4)] hdr by (simp add: apply_copies_other)
  moreover have "header 0 B x = put32 0 0 x" for B x by (simp add: header_def)
  ultimately obtain w where 4: "write_head (v\<lparr>lh_n := 0\<rparr>) = Ret () w" "held p ?d {} {} w" "kbio.more w = kbio.more (v\<lparr>lh_n := 0\<rparr>)"
    "wrote ?d [(?hdr, put32 0 0 (header n ?H (platter s ?hdr)))] (v\<lparr>lh_n := 0\<rparr>) w"
    using write_head_held [of p "v\<lparr>lh_n := 0\<rparr>" "{}" ?hdr] 3(3) by (auto simp: returns_iff m3 log_blk_def)
  have "wrote ?d [(?hdr, put32 0 0 (header n ?H (platter s ?hdr)))] v w" using 4(4) by (simp add: wrote_def)
  from wrote_trans [OF 1(2) wrote_trans [OF 2(4) wrote_trans [OF 3(2) this]]]
  have "wrote ?d (commit_writes ?st n ?H (platter s) (view ?d s)) s w" by (simp add: commit_writes_def)
  moreover have "commit s = Ret () w" using 1(1) 2(1) 3(1) 4(1) n by (simp add: commit_def)
  ultimately show ?thesis using 4(2) klog_more [OF 4(3)] m3 by simp
qed

lemma recover_held:
  assumes h: "held p (log_dev s) {} {} s" and n: "sint (get32 (platter s (log_blk (log_start s) 0)) 0) = int n"
    and H: "\<And>i. i < n \<Longrightarrow> get32 (platter s (log_blk (log_start s) 0)) (4 + 4 * i) = H i" and tx: "txn (log_start s) n H"
  shows "returns (recover_from_log s) (\<lambda>_ t. held p (log_dev s) {} {} t \<and> lh_n t = 0 \<and>
     wrote (log_dev s) (copies n H (\<lambda>i. platter s (log_blk (log_start s) (Suc i))) @
       [(log_blk (log_start s) 0, put32 0 0 (platter s (log_blk (log_start s) 0)))]) s t)"
proof -
  let ?d = "log_dev s" and ?st = "log_start s"
  let ?hdr = "log_blk ?st 0" and ?L = "\<lambda>i. log_blk ?st (Suc i)"
  obtain t where 1: "read_head s = Ret () t" "held p ?d {} {} t" "wrote ?d [] s t" "lh_n t = int n" "\<And>i. i < n \<Longrightarrow> lh_block t i = H i"
    "log_start t = ?st" "log_dev t = ?d"
    using read_head_held [OF h _ n] H by (auto simp: returns_iff log_blk_def)
  have tx': "txn (log_start t) n (lh_block t)" using tx 1(5,6) by (auto simp: txn_def inj_on_def)
  have pl: "platter t = platter s" using 1(3) by (simp add: wrote_def)
  have eq: "copies n (lh_block t) (\<lambda>i. platter t (?L i)) = copies n H (\<lambda>i. platter s (?L i))" using 1(5) pl by (simp add: copies_def)
  obtain u where 2: "install_trans True t = Ret () u" "wrote ?d (copies n H (\<lambda>i. platter s (?L i))) t u" "held p ?d {} {} u" "kbio.more u = kbio.more t"
    using install_trans_held [of p t True n] 1(2,4,6,7) tx' eq by (auto simp: returns_iff)
  note m = klog_more [OF 2(4)]
  have "?hdr \<notin> H ` {..<n}" using txn_log(2) [OF tx] by auto
  then have "platter u ?hdr = platter s ?hdr" using view_wrote(2) [OF 2(2)] pl by (simp add: apply_copies_other)
  moreover have "header 0 B x = put32 0 0 x" for B x by (simp add: header_def)
  ultimately obtain w where 3: "write_head (u\<lparr>lh_n := 0\<rparr>) = Ret () w" "held p ?d {} {} w" "kbio.more w = kbio.more (u\<lparr>lh_n := 0\<rparr>)"
    "wrote ?d [(?hdr, put32 0 0 (platter s ?hdr))] (u\<lparr>lh_n := 0\<rparr>) w"
    using write_head_held [of p "u\<lparr>lh_n := 0\<rparr>" "{}" ?hdr] 2(3) 1(6,7) by (auto simp: returns_iff m log_blk_def)
  have "wrote ?d [(?hdr, put32 0 0 (platter s ?hdr))] u w" using 3(4) by (simp add: wrote_def)
  from wrote_trans [OF 1(3) wrote_trans [OF 2(2) this]]
  have "wrote ?d (copies n H (\<lambda>i. platter s (?L i)) @ [(?hdr, put32 0 0 (platter s ?hdr))]) s w" by simp
  moreover have "recover_from_log s = Ret () w" using 1(1) 2(1) 3(1) by (simp add: recover_from_log_def)
  ultimately show ?thesis using 3(2) klog_more(6) [OF 3(3)] by simp
qed

lemma take_copies: "take k (copies n to x) = copies (min k n) to x"
  by (simp add: copies_def take_map min_def)

lemma length_copies [simp]: "length (copies n to x) = n"
  by (simp add: copies_def)

text \<open>The disk after the first \<open>k\<close> writes of a commit: not committed, committed, or installed.\<close>

lemma commit_prefix:
  assumes tx: "txn st n H" and D': "D' = apply_writes (take k (commit_writes st n H D V)) D"
  shows "k \<le> n \<and> D' (log_blk st 0) = D (log_blk st 0) \<and> (\<forall>b. b \<notin> log_area st \<longrightarrow> D' b = D b) \<or>
    n < k \<and> k \<le> 2 * n + 1 \<and> D' (log_blk st 0) = header n H (D (log_blk st 0)) \<and> (\<forall>i<n. D' (log_blk st (Suc i)) = V (H i)) \<and>
      (\<forall>b. b \<notin> log_area st \<longrightarrow> b \<notin> H ` {..<n} \<longrightarrow> D' b = D b) \<or>
    2 * n + 1 < k \<and> D' (log_blk st 0) = put32 0 0 (header n H (D (log_blk st 0))) \<and> (\<forall>i<n. D' (H i) = V (H i)) \<and>
      (\<forall>b. b \<notin> log_area st \<longrightarrow> b \<notin> H ` {..<n} \<longrightarrow> D' b = D b)"
proof -
  let ?L = "\<lambda>i. log_blk st (Suc i)" and ?h = "log_blk st 0"
  define A where "A = apply_writes (copies n ?L (\<lambda>i. V (H i))) D"
  have n30: "n < 30" using tx by (simp add: txn_def)
  have h0: "?h \<notin> ?L ` {..<m}" if "m \<le> n" for m using log_copies(1) [OF n30, of st] that by fastforce
  have hA: "?h \<in> log_area st" by (simp add: log_area_def)
  have LA: "b \<notin> ?L ` {..<m}" if "m \<le> n" "b \<notin> log_area st" for b m
    using log_copies_area [OF n30, of st] that by fastforce
  have AL: "A (?L i) = V (H i)" if "i < n" for i unfolding A_def by (rule apply_copies [OF log_copies(2) [OF n30] that])
  have Ab: "A b = D b" if "b \<notin> log_area st" for b unfolding A_def by (rule apply_copies_other) (use LA that in blast)
  have hH: "?h \<notin> H ` {..<m}" if "m \<le> n" for m using txn_home [OF tx] hA that by fastforce
  have LH: "?L i \<notin> H ` {..<m}" if "m \<le> n" "i < n" for i m 
  proof -
    have "?L i \<in> log_area st" using that n30 by (simp add: log_area_def)
    then show ?thesis using txn_home [OF tx] that by fastforce
  qed
  consider "k \<le> n" | "n < k" "k \<le> 2 * n + 1" | "2 * n + 1 < k" by linarith
  then show ?thesis
  proof cases
    case 1
    then have "take k (commit_writes st n H D V) = copies k ?L (\<lambda>i. V (H i))"
      by (simp add: commit_writes_def take_copies min_def)
    then have "D' = apply_writes (copies k ?L (\<lambda>i. V (H i))) D" using D' by simp
    then have "D' ?h = D ?h" "\<forall>b. b \<notin> log_area st \<longrightarrow> D' b = D b"
      using h0 [OF 1] LA [OF 1] by (auto intro: apply_copies_other)
    then show ?thesis using 1 by blast
  next
    case 2
    define j where "j = k - n - 1"
    then have j: "k = n + (1 + j)" "j \<le> n" using 2 by auto
    have "take k (commit_writes st n H D V) = copies n ?L (\<lambda>i. V (H i)) @ [(?h, header n H (D ?h))] @ copies j H (\<lambda>i. V (H i))"
      using j by (simp add: commit_writes_def take_copies min_def)
    then have d: "D' = apply_writes (copies j H (\<lambda>i. V (H i))) (A(?h := header n H (D ?h)))" using D' by (simp add: A_def)
    have "D' ?h = header n H (D ?h)" using hH [OF j(2)] by (simp add: d apply_copies_other)
    moreover have "D' (?L i) = V (H i)" if "i < n" for i
    proof -
      have "?L i \<noteq> ?h" using log_copies(1) [OF n30, of st] that by (metis imageI lessThan_iff)
      then show ?thesis using LH [OF j(2) that] AL [OF that] by (simp add: d apply_copies_other)
    qed
    moreover have "D' b = D b" if "b \<notin> log_area st" "b \<notin> H ` {..<n}" for b
    proof -
      have "b \<notin> H ` {..<j}" using that(2) j(2) by auto
      then show ?thesis using that(1) hA Ab by (auto simp: d apply_copies_other)
    qed
    ultimately show ?thesis using 2 by blast
  next
    case 3
    then have "take k (commit_writes st n H D V) = commit_writes st n H D V" by (simp add: commit_writes_def)
    then have d: "D' = (apply_writes (copies n H (\<lambda>i. V (H i))) (A(?h := header n H (D ?h))))(?h := put32 0 0 (header n H (D ?h)))"
      using D' by (simp add: commit_writes_def A_def)
    have "D' (H i) = V (H i)" if "i < n" for i
    proof -
      have "H i \<noteq> ?h" using txn_home [OF tx that] hA by metis
      then show ?thesis using apply_copies [of H n i] tx that by (simp add: d txn_def)
    qed
    moreover have "D' b = D b" if "b \<notin> log_area st" "b \<notin> H ` {..<n}" for b
      using that hA Ab by (auto simp: d apply_copies_other)
    ultimately show ?thesis using 3 by (simp add: d)
  qed
qed

lemma commit_writes_all:
  assumes tx: "txn st n H" and V: "\<And>b. b \<notin> H ` {..<n} \<Longrightarrow> V b = D b" and b: "b \<notin> log_area st"
  shows "apply_writes (commit_writes st n H D V) D b = V b"
proof -
  have "apply_writes (commit_writes st n H D V) D = apply_writes (take (2 * n + 2) (commit_writes st n H D V)) D"
    by (simp add: commit_writes_def)
  from commit_prefix [OF tx this] show ?thesis using b V by (cases "b \<in> H ` {..<n}") auto
qed

text \<open>Recovery after such a crash.\<close>

lemma recover_empty:
  assumes h: "held p (log_dev c) {} {} c" and z: "get32 (platter c (log_blk (log_start c) 0)) 0 = 0" and b: "4 \<le> length (platter c (log_blk (log_start c) 0))"
  shows "returns (recover_from_log c) (\<lambda>_ r. get32 (platter r (log_blk (log_start c) 0)) 0 = 0 \<and>
     (\<forall>b. b \<notin> log_area (log_start c) \<longrightarrow> platter r b = platter c b))"
proof -
  have "txn (log_start c) 0 (\<lambda>_. 0)" by (simp add: txn_def)
  then show ?thesis
    using z b by (intro returns_mono [OF recover_held [OF h, of 0 "\<lambda>_. 0"]]) (auto simp: wrote_def copies_def log_area_def)
qed

lemma recover_crash:
  assumes tx: "txn (log_start c) n H" and h: "held p (log_dev c) {} {} c"
    and len: "length (D (log_blk (log_start c) 0)) = BSIZE" and z: "get32 (D (log_blk (log_start c) 0)) 0 = 0"
    and V: "\<And>b. b \<notin> H ` {..<n} \<Longrightarrow> b \<notin> log_area (log_start c) \<Longrightarrow> V b = D b"
    and pc: "platter c = apply_writes (take k (commit_writes (log_start c) n H D V)) D"
  shows "returns (recover_from_log c) (\<lambda>_ r. get32 (platter r (log_blk (log_start c) 0)) 0 = 0 \<and>
     (\<forall>b. b \<notin> log_area (log_start c) \<longrightarrow> platter r b = (if k \<le> n then D b else V b)))"
proof -
  let ?st = "log_start c" and ?h = "log_blk (log_start c) 0"
  have n30: "n < 30" using tx by (simp add: txn_def)
  note hd = header_get [where n = n and d = "D ?h" and B = H]
  show ?thesis
    using commit_prefix [OF tx pc]
  proof (elim disjE conjE)
    assume 1: "k \<le> n" "platter c ?h = D ?h" "\<forall>b. b \<notin> log_area ?st \<longrightarrow> platter c b = D b"
    show ?thesis using recover_empty [OF h] z len 1 by (auto elim!: returns_mono)
  next
    assume 2: "n < k" "platter c ?h = header n H (D ?h)" "\<forall>i<n. platter c (log_blk ?st (Suc i)) = V (H i)"
      "\<forall>b. b \<notin> log_area ?st \<longrightarrow> b \<notin> H ` {..<n} \<longrightarrow> platter c b = D b"
    have "copies n H (\<lambda>i. platter c (log_blk ?st (Suc i))) = copies n H (\<lambda>i. V (H i))" using 2(3) by (simp add: copies_def)
    with recover_held [OF h, of n H] hd 2(2) len n30 tx
    have "returns (recover_from_log c) (\<lambda>_ t. wrote (log_dev c) (copies n H (\<lambda>i. V (H i)) @ [(?h, put32 0 0 (platter c ?h))]) c t)"
      by (auto elim!: returns_mono)
    then show ?thesis
    proof (rule returns_mono)
      fix a r assume w: "wrote (log_dev c) (copies n H (\<lambda>i. V (H i)) @ [(?h, put32 0 0 (platter c ?h))]) c r"
      have "platter r b = V b" if b: "b \<notin> log_area ?st" for b
      proof (cases "b \<in> H ` {..<n}")
        case True
        then obtain i where "i < n" "b = H i" by auto
        then show ?thesis using w b tx apply_copies [of H n i] by (auto simp: wrote_def txn_def log_area_def)
      next
        case False
        then show ?thesis using w b V [OF False b] 2(4) by (auto simp: wrote_def apply_copies_other log_area_def)
      qed
      moreover have "get32 (platter r ?h) 0 = 0" using w len hd(3) 2(2) n30 by (simp add: wrote_def)
      ultimately show "get32 (platter r ?h) 0 = 0 \<and> (\<forall>b. b \<notin> log_area ?st \<longrightarrow> platter r b = (if k \<le> n then D b else V b))"
        using 2(1) by simp
    qed
  next
    assume 3: "2 * n + 1 < k" "platter c ?h = put32 0 0 (header n H (D ?h))" "\<forall>i<n. platter c (H i) = V (H i)"
      "\<forall>b. b \<notin> log_area ?st \<longrightarrow> b \<notin> H ` {..<n} \<longrightarrow> platter c b = D b"
    have l: "length (header n H (D ?h)) = BSIZE" using hd(3) len n30 by simp
    have "platter c b = V b" if "b \<notin> log_area ?st" for b
      using that 3(3,4) V by (cases "b \<in> H ` {..<n}") auto
    then show ?thesis using recover_empty [OF h] 3(1,2) l by (auto elim!: returns_mono)
  qed
qed

text \<open>Property C2: a commit is atomic in the face of crashes. Let the transaction be the \<open>n\<close> distinct home blocks in the header, pinned
  in the cache, none of them in the log area, with an empty header on the disk. The commit returns; it makes the writes \<open>ws\<close> and then
  the disk has the new contents of every block. If instead the power fails after any number \<open>k\<close> of those writes and \<open>recover_from_log\<close>
  runs after the next boot, it returns, the header on the disk is empty, and outside the log area the disk is the old one if fewer than
  \<open>n + 1\<close> writes were made and the new one otherwise: all of the transaction or none of it.\<close>

theorem commit_crash_atomic:
  fixes s :: "'z klog_scheme"
  assumes h: "held p (log_dev s) (lh_block s ` {..<n}) {} s" and n: "lh_n s = int n" "0 < n" and tx: "txn (log_start s) n (lh_block s)"
    and hdr: "length (platter s (log_blk (log_start s) 0)) = BSIZE" "get32 (platter s (log_blk (log_start s) 0)) 0 = 0"
  shows "returns (commit s) (\<lambda>_ t. \<exists>ws. disk_writes t = disk_writes s @ ws \<and> platter t = apply_writes ws (platter s) \<and>
     (\<forall>b. b \<notin> log_area (log_start s) \<longrightarrow> platter t b = view (log_dev s) s b) \<and>
     (\<forall>k p' (c :: 'z klog_scheme). platter c = apply_writes (take k ws) (platter s) \<longrightarrow> held p' (log_dev c) {} {} c \<longrightarrow> log_start c = log_start s \<longrightarrow>
        returns (recover_from_log c) (\<lambda>_ r. get32 (platter r (log_blk (log_start s) 0)) 0 = 0 \<and>
          (\<forall>b. b \<notin> log_area (log_start s) \<longrightarrow> platter r b = (if k \<le> n then platter s b else view (log_dev s) s b)))))"
proof -
  let ?ws = "commit_writes (log_start s) n (lh_block s) (platter s) (view (log_dev s) s)"
  have V: "view (log_dev s) s b = platter s b" if "b \<notin> lh_block s ` {..<n}" for b
    using held_view [OF h that] by simp
  have rec: "returns (recover_from_log c) (\<lambda>_ r. get32 (platter r (log_blk (log_start s) 0)) 0 = 0 \<and>
          (\<forall>b. b \<notin> log_area (log_start s) \<longrightarrow> platter r b = (if k \<le> n then platter s b else view (log_dev s) s b)))"
    if "platter c = apply_writes (take k ?ws) (platter s)" "held p' (log_dev c) {} {} c" "log_start c = log_start s" for k p' and c :: "'z klog_scheme"
    using recover_crash [of c n "lh_block s" p' "platter s" "view (log_dev s) s" k] tx hdr V that by simp
  from commit_held [OF h n tx] show ?thesis
  proof (rule returns_mono, elim conjE)
    fix t assume 1: "held p (log_dev s) {} {} t" "wrote (log_dev s) ?ws s t"
    have "platter t b = view (log_dev s) s b" if "b \<notin> log_area (log_start s)" for b
      using commit_writes_all [OF tx V that] 1(2) by (simp add: wrote_def)
    then show "\<exists>ws. disk_writes t = disk_writes s @ ws \<and> platter t = apply_writes ws (platter s) \<and>
     (\<forall>b. b \<notin> log_area (log_start s) \<longrightarrow> platter t b = view (log_dev s) s b) \<and>
     (\<forall>k p' (c :: 'z klog_scheme). platter c = apply_writes (take k ws) (platter s) \<longrightarrow> held p' (log_dev c) {} {} c \<longrightarrow> log_start c = log_start s \<longrightarrow>
        returns (recover_from_log c) (\<lambda>_ r. get32 (platter r (log_blk (log_start s) 0)) 0 = 0 \<and>
          (\<forall>b. b \<notin> log_area (log_start s) \<longrightarrow> platter r b = (if k \<le> n then platter s b else view (log_dev s) s b))))"
      using 1(2) by (intro exI [of _ ?ws] conjI allI impI) (blast intro: rec | simp add: wrote_def)+
  qed
qed

subsection \<open>Writing through the log\<close>

interpretation lh_n_upd: machine_upd "lh_n_update f" for f by unfold_locales simp_all
interpretation lh_block_upd: machine_upd "lh_block_update f" for f by unfold_locales simp_all
interpretation log_outstanding_upd: machine_upd "log_outstanding_update f" for f by unfold_locales simp_all
interpretation log_committing_upd: machine_upd "log_committing_update f" for f by unfold_locales simp_all
interpretation lh_n_get: machine_get lh_n by unfold_locales simp_all
interpretation lh_block_get: machine_get lh_block by unfold_locales simp_all
interpretation log_size_get: machine_get log_size by unfold_locales simp_all
interpretation log_outstanding_get: machine_get log_outstanding by unfold_locales simp_all
interpretation log_committing_get: machine_get log_committing by unfold_locales simp_all
interpretation log_start_get: machine_get log_start by unfold_locales simp_all
interpretation log_dev_get: machine_get log_dev by unfold_locales simp_all
interpretation klog_more_get: machine_get klog.more by unfold_locales simp_all

lemma log_slot_cases: "log_slot n B bn = n \<and> bn \<notin> B ` {..<n} \<or> log_slot n B bn < n \<and> B (log_slot n B bn) = bn"
proof (cases "find (\<lambda>i. B i = bn) [0..<n]")
  case None
  then have "log_slot n B bn = n" by (simp add: log_slot_def)
  moreover have "bn \<notin> B ` {..<n}" using None by (auto simp: find_None_iff)
  ultimately show ?thesis by blast
next
  case (Some i)
  then show ?thesis unfolding log_slot_def using find_SomeD [OF Some] by simp
qed

text \<open>The header in memory describes a transaction whose blocks are the pinned ones.\<close>

definition log_ok :: "nat \<Rightarrow> nat set \<Rightarrow> 'z klog_scheme \<Rightarrow> bool" where
  "log_ok p R s \<longleftrightarrow> 0 \<le> lh_n s \<and> txn (log_start s) (nat (lh_n s)) (lh_block s) \<and>
     held p (log_dev s) (lh_block s ` {..<nat (lh_n s)}) R s"

lemma bpin_eq: "cpu_ok s \<Longrightarrow> lock_free BcacheLock s \<Longrightarrow>
    bpin b s = Ret () ((settle s)\<lparr>bufs := (bufs s)(b := b_refcnt_update (\<lambda>n. n + 1) (bufs s b))\<rparr>)"
  by (simp add: bpin_def upd_buf_def)

lemma log_write_eq:
  assumes q: "quiet p s" and n: "lh_n s = int n" "n < 30" "int n < log_size s - 1" and o: "1 \<le> log_outstanding s"
    and bn: "b_blockno (bufs s b) = bn"
  shows "log_write b s = Ret ()
    (if bn \<in> lh_block s ` {..<n} then settle s
     else (settle s)\<lparr>bufs := (bufs s)(b := b_refcnt_update (\<lambda>n. n + 1) (bufs s b)), lh_n := int n + 1, lh_block := (lh_block s)(n := bn)\<rparr>)"
proof (cases "bn \<in> lh_block s ` {..<n}")
  case True
  then have i: "log_slot n (lh_block s) bn < n" "lh_block s (log_slot n (lh_block s) bn) = bn" using log_slot_cases [of n "lh_block s" bn] by auto
  then have "(lh_block s)(log_slot n (lh_block s) bn := bn) = lh_block s" by (simp add: fun_upd_idem)
  then show ?thesis using assms True i by (simp add: log_write_def quietD Let_def)
next
  case False
  then have "log_slot n (lh_block s) bn = n" using log_slot_cases [of n "lh_block s" bn] by (metis imageI lessThan_iff)
  then show ?thesis using assms False by (simp add: log_write_def quietD bpin_eq Let_def)
qed

text \<open>\<open>begin_op\<close> lets an operation in as long as ten blocks for each fit into \<open>LOGSIZE\<close>, so that the transaction may grow to 30 blocks. But
  \<open>log_write\<close> refuses as soon as 29 are in a log of 30 blocks, even for a block that the log absorbs.\<close>

lemma begin_op_admits:
  assumes "quiet p s" and "\<not> log_committing s" and "lh_n s + (log_outstanding s + 1) * MAXOPBLOCKS \<le> LOGSIZE"
  shows "begin_op s = Ret () ((settle s)\<lparr>log_outstanding := log_outstanding s + 1\<rparr>)"
  using assms by (simp add: begin_op_def begin_op_body_def loop_unfold quietD)

lemma log_write_full_panics:
  assumes "quiet p s" and "lh_n s = 29" and "log_size s = 30"
  shows "log_write b s = Panic ''too big a transaction''"
  using assms by (simp add: log_write_def quietD)

lemma log_write_spec:
  assumes l: "log_ok p R s" and b: "b \<in> R" "b_blockno (bufs s b) = bn" "bn \<notin> log_area (log_start s)"
    and room: "lh_n s < log_size s - 1" "log_size s \<le> 30" and o: "1 \<le> log_outstanding s"
  shows "returns (log_write b s) (\<lambda>_ t. log_ok p R t \<and>
     lh_block t ` {..<nat (lh_n t)} = insert bn (lh_block s ` {..<nat (lh_n s)}) \<and>
     lh_n t = (if bn \<in> lh_block s ` {..<nat (lh_n s)} then lh_n s else lh_n s + 1) \<and>
     view (log_dev s) t = view (log_dev s) s \<and> platter t = platter s \<and> disk_writes t = disk_writes s \<and>
     klog.more t = klog.more s \<and> log_start t = log_start s \<and> log_dev t = log_dev s \<and> log_size t = log_size s \<and>
     log_outstanding t = log_outstanding s \<and> b_blockno (bufs t b) = bn)"
proof -
  define n where "n = nat (lh_n s)"
  let ?H = "lh_block s" and ?d = "log_dev s"
  have n: "lh_n s = int n" and tx: "txn (log_start s) n ?H" and h: "held p ?d (?H ` {..<n}) R s"
    using l by (simp_all add: log_ok_def n_def)
  obtain P where bc: "bc p ?d P R s" and P: "(\<lambda>b. b_blockno (bufs s b)) ` P = ?H ` {..<n}" using h by (auto simp: held_def)
  have n30: "n < 29" using room n by simp
  note eq = log_write_eq [OF bcD(1) [OF bc] n _ _ o b(2)]
  show ?thesis
  proof (cases "bn \<in> ?H ` {..<n}")
    case True
    have "log_ok p R (settle s)" using l unfolding log_ok_def held_def by simp
    then show ?thesis using eq True n n30 room by (simp add: insert_absorb view_def b(2))
  next
    case False
    let ?B = "(bufs s)(b := b_refcnt_update (\<lambda>n. n + 1) (bufs s b))"
    let ?t = "(settle s)\<lparr>bufs := ?B, lh_n := int n + 1, lh_block := ?H(n := bn)\<rparr>"
    have bP: "b \<notin> P" using False P b(2) by auto
    note cp = cache_ok_pin [OF bcD(2) [OF bc] b(1) bP]
    have "b_blockno (?B c) = b_blockno (bufs s c)" for c by simp
    then have "(\<lambda>c. b_blockno (?B c)) ` insert b P = insert bn (?H ` {..<n})" using P b(2) by (simp del: fun_upd_apply)
    moreover have img: "(?H(n := bn)) ` {..<Suc n} = insert bn (?H ` {..<n})" by (auto simp: lessThan_Suc)
    moreover have "bc p ?d (insert b P) R ?t" using bc cp(1) by (simp add: bc_def quiet_def)
    ultimately have "held p ?d ((?H(n := bn)) ` {..<Suc n}) R ?t" unfolding held_def by (intro exI [of _ "insert b P"]) simp
    moreover have "txn (log_start s) (Suc n) (?H(n := bn))"
      using tx False n30 b(3) unfolding txn_def img by (auto simp: inj_on_def lessThan_Suc)
    ultimately have "log_ok p R ?t" by (simp add: log_ok_def nat_add_distrib)
    then show ?thesis using eq False n n30 room cp(2) img b(2) by (simp add: view_def nat_add_distrib)
  qed
qed

text \<open>Property C29: \<open>log_write\<close> of a buffer the caller holds, inside an operation and while the log has room, adds the block to the
  transaction, once: a block that is already in the header is absorbed. The header stays a list of distinct home blocks, exactly those
  the cache has pinned, and nothing is written to the disk.\<close>

theorem log_write_correct:
  assumes "log_ok p R s" and "b \<in> R" "b_blockno (bufs s b) = bn" "bn \<notin> log_area (log_start s)"
    and "lh_n s < log_size s - 1" "log_size s \<le> 30" and "1 \<le> log_outstanding s"
  shows "returns (log_write b s) (\<lambda>_ t. log_ok p R t \<and>
     lh_block t ` {..<nat (lh_n t)} = insert bn (lh_block s ` {..<nat (lh_n s)}) \<and>
     lh_n t = (if bn \<in> lh_block s ` {..<nat (lh_n s)} then lh_n s else lh_n s + 1) \<and>
     view (log_dev s) t = view (log_dev s) s \<and> platter t = platter s \<and> disk_writes t = disk_writes s)"
  by (rule returns_mono [OF log_write_spec [OF assms]]) blast

lemma held_upd [simp]:
  "held p d N R (s\<lparr>log_outstanding := n\<rparr>) = held p d N R s" "held p d N R (s\<lparr>log_committing := c\<rparr>) = held p d N R s"
  "view d (s\<lparr>log_outstanding := n\<rparr>) = view d s" "view d (s\<lparr>log_committing := c\<rparr>) = view d s"
  "held p d N R (settle s) = held p d N R s" "view d (settle s) = view d s"
  by (simp_all add: held_def bc_def view_def quiet_def)

lemma held_procs: "p_pid (f p) = p_pid (procs s p) \<Longrightarrow> held p d N R (s\<lparr>procs := f\<rparr>) = held p d N R s"
  by (simp add: held_def bc_def)

lemma commit_log_ok:
  assumes l: "log_ok p {} s" and len: "length (platter s (log_blk (log_start s) 0)) = BSIZE"
    and z: "get32 (platter s (log_blk (log_start s) 0)) 0 = 0"
  shows "returns (commit s) (\<lambda>_ t. log_ok p {} t \<and> lh_n t = 0 \<and> log_start t = log_start s \<and> log_dev t = log_dev s \<and>
     log_outstanding t = log_outstanding s \<and> log_committing t = log_committing s \<and>
     get32 (platter t (log_blk (log_start s) 0)) 0 = 0 \<and>
     (\<forall>b. b \<notin> log_area (log_start s) \<longrightarrow> platter t b = view (log_dev s) s b))"
proof -
  define n where "n = nat (lh_n s)"
  have n: "lh_n s = int n" and tx: "txn (log_start s) n (lh_block s)" and h: "held p (log_dev s) (lh_block s ` {..<n}) {} s"
    using l by (simp_all add: log_ok_def n_def)
  have V: "view (log_dev s) s b = platter s b" if "b \<notin> lh_block s ` {..<n}" for b using held_view [OF h that] by simp
  show ?thesis
  proof (cases "n = 0")
    case True
    then have "commit s = Ret () s" using n by (simp add: commit_def)
    then show ?thesis using l n z True V by simp
  next
    case False
    then have "0 < n" "n \<le> 30" using tx by (simp_all add: txn_def)
    have "txn st 0 H" for st H by (simp add: txn_def)
    moreover have "get32 (apply_writes (commit_writes (log_start s) n (lh_block s) (platter s) (view (log_dev s) s)) (platter s) (log_blk (log_start s) 0)) 0 = 0"
      using len \<open>n \<le> 30\<close> header_get(3) [of n "platter s (log_blk (log_start s) 0)"] by (simp add: commit_writes_def)
    ultimately show ?thesis using commit_held [OF h n \<open>0 < n\<close> tx] commit_writes_all [OF tx V]
      by (elim returns_mono) (auto simp: log_ok_def wrote_def)
  qed
qed

lemma end_op_eq:
  assumes q: "quiet p s" and o: "log_outstanding s = 1" "\<not> log_committing s"
    and c: "commit ((settle s)\<lparr>log_outstanding := 0, log_committing := True\<rparr>) = Ret () t" and qt: "quiet p t"
  shows "end_op s = Ret () ((settle t)\<lparr>log_committing := False,
     procs := (\<lambda>q. if q < NPROC then wakeup_eff ChanLog t q (procs t q) else procs t q)\<rparr>)"
proof -
  have "wakeup_eff ch ((acq LogLock t)\<lparr>log_committing := x\<rparr>) = wakeup_eff ch t" for ch x
    by (simp add: wakeup_eff_def fun_eq_iff)
  then show ?thesis using q o c qt by (simp add: end_op_def quietD wakeup_eq Let_def cong: if_cong)
qed

text \<open>Property C18: the \<open>end_op\<close> of the last outstanding operation commits. When it returns, every block of the file system on the disk
  has the contents the operation saw through the cache, the header is empty, both in memory and on the disk, where a reboot would look for it,
  nothing is pinned, and the log takes new operations.\<close>

theorem end_op_commits:
  assumes l: "log_ok p {} s" and o: "log_outstanding s = 1" "\<not> log_committing s"
    and len: "length (platter s (log_blk (log_start s) 0)) = BSIZE" and z: "get32 (platter s (log_blk (log_start s) 0)) 0 = 0"
  shows "returns (end_op s) (\<lambda>_ t. log_ok p {} t \<and> lh_n t = 0 \<and> get32 (platter t (log_blk (log_start s) 0)) 0 = 0 \<and>
     log_outstanding t = 0 \<and> \<not> log_committing t \<and>
     (\<forall>b. b \<notin> log_area (log_start s) \<longrightarrow> platter t b = view (log_dev s) s b \<and> view (log_dev s) t b = view (log_dev s) s b))"
proof -
  let ?s = "(settle s)\<lparr>log_outstanding := 0, log_committing := True\<rparr>"
  have q: "quiet p s" using l bcD(1) by (auto simp: log_ok_def held_def)
  have "log_ok p {} ?s" using l by (simp add: log_ok_def)
  then obtain t where t: "commit ?s = Ret () t" "log_ok p {} t" "lh_n t = 0" "log_dev t = log_dev s" "log_outstanding t = 0"
    "get32 (platter t (log_blk (log_start s) 0)) 0 = 0" "\<And>b. b \<notin> log_area (log_start s) \<Longrightarrow> platter t b = view (log_dev s) s b"
    using commit_log_ok [of p ?s] len z by (auto simp: returns_iff)
  let ?u = "(settle t)\<lparr>log_committing := False, procs := (\<lambda>q. if q < NPROC then wakeup_eff ChanLog t q (procs t q) else procs t q)\<rparr>"
  have qt: "quiet p t" using t(2) bcD(1) by (auto simp: log_ok_def held_def)
  have ok: "log_ok p {} ?u" using t(2) by (simp add: log_ok_def held_procs)
  have "held p (log_dev s) {} {} ?u" using ok t(3,4) by (simp add: log_ok_def)
  then have "view (log_dev s) ?u b = platter ?u b" for b using held_view by blast
  then show ?thesis using end_op_eq [OF q o t(1) qt] ok t by simp
qed

subsection \<open>A transaction on one block\<close>

text \<open>Block 100 has been changed in the cache and is in the header; and the state before \<open>log_write\<close>, with the buffer still held.\<close>

definition klog1 :: klog where
  "klog1 = klog0\<lparr>bufs := buf1 1, log_outstanding := 1, lh_n := 1, lh_block := (\<lambda>_. 100)\<rparr>"

definition klog2 :: klog where
  "klog2 = klog0\<lparr>bufs := buf1 1, log_outstanding := 1,
     sleeplocks := (sleeplocks klog0)(BufLk 5 := \<lparr>sl_locked = 1, sl_name = '''', sl_pid = p_pid (procs klog0 1)\<rparr>)\<rparr>"

lemma klog0_fields [simp]: "log_start klog0 = 2" "log_size klog0 = 30" "log_outstanding klog0 = 0" "\<not> log_committing klog0"
  "log_dev klog0 = 1" "lh_n klog0 = 0" "platter klog0 = (\<lambda>_. replicate BSIZE 0)" "disk_writes klog0 = []" "bufs klog0 = buf0"
  "sl_locked (sleeplocks klog0 lk) = 0"
  by (simp_all add: klog0_def klog.defs kbio0_defs)

lemma quiet_klog0: "quiet 1 klog0"
  by (simp add: quiet_def klog0_def klog.defs kbio0_defs lock_free_def cpu_ok_def)

lemma log_area_2: "n \<in> log_area 2 \<longleftrightarrow> 2 \<le> unat n \<and> unat n < 32"
proof -
  have "log_blk 2 i = of_nat (i + 2)" for i by (simp add: log_blk_def)
  then have eq: "log_area 2 = (\<lambda>i. of_nat (i + 2)) ` {..<30}" by (simp add: log_area_def)
  have u: "unat (of_nat j :: u32) = j" if "j < 32" for j using that by (simp add: unsigned_of_nat take_bit_nat_eq_self)
  show ?thesis
  proof
    assume "n \<in> log_area 2"
    then obtain i where i: "i < 30" "n = of_nat (i + 2)" unfolding eq by blast
    then have "unat n = i + 2" using u [of "i + 2"] by (simp del: of_nat_add)
    then show "2 \<le> unat n \<and> unat n < 32" using i(1) by simp
  next
    assume n: "2 \<le> unat n \<and> unat n < 32"
    then have "n = of_nat (unat n - 2 + 2)" "unat n - 2 < 30" by (simp, linarith)
    then show "n \<in> log_area 2" unfolding eq by blast
  qed
qed

lemma txn1: "txn 2 (Suc 0) (\<lambda>_. 100)"
  by (auto simp: txn_def log_area_2 inj_on_def)

lemma log_ok_klog1: "log_ok 1 {} klog1"
proof -
  have "bc 1 1 {5} {} klog1" using cache_ok_buf1 quiet_klog0 by (simp add: bc_def klog1_def quiet_def)
  then have "held 1 1 {100} {} klog1" by (auto simp: held_def klog1_def buf1_def intro!: exI [of _ "{5}"])
  then show ?thesis using txn1 by (simp add: log_ok_def klog1_def lessThan_Suc)
qed

lemma cache_ok_buf1_held: "cache_ok 1 {} {5} (\<lambda>_. replicate BSIZE 0) (buf1 1)"
proof -
  have k: "keyed (buf1 1) 1 n b \<longleftrightarrow> b = 5 \<and> n = 100" for n b by (auto simp: keyed_def buf1_def buf0_def)
  show ?thesis unfolding cache_ok_def k using ring_buf1 by (auto, auto simp: buf1_def buf0_def)
qed

lemma log_ok_klog2: "log_ok 1 {5} klog2"
proof -
  have "bc 1 1 {} {5} klog2" using cache_ok_buf1_held quiet_klog0 by (simp add: bc_def klog2_def quiet_def)
  then have "held 1 1 {} {5} klog2" by (auto simp: held_def)
  then show ?thesis by (simp add: log_ok_def klog2_def txn_def)
qed

theorem log_write_correct_witness:
  "returns (log_write 5 klog2) (\<lambda>_ t. lh_block t ` {..<nat (lh_n t)} = {100} \<and> lh_n t = 1 \<and> disk_writes t = [])"
proof -
  have "b_blockno (bufs klog2 5) = 100" by (simp add: klog2_def buf1_def)
  then show ?thesis using log_write_correct [OF log_ok_klog2, of 5 100]
    by (auto simp: klog2_def log_area_2 elim!: returns_mono)
qed

lemma view_klog1: "view 1 klog1 100 = replicate BSIZE 7"
  using bview_cached [OF cache_ok_buf1, of 100 5] by (simp add: view_def klog1_def keyed_def) (simp add: buf1_def)

theorem end_op_commits_witness:
  "returns (end_op klog1) (\<lambda>_ t. platter t 100 = replicate BSIZE 7 \<and> lh_n t = 0 \<and> get32 (platter t (log_blk 2 0)) 0 = 0)"
  using end_op_commits [OF log_ok_klog1] view_klog1 by (auto simp: klog1_def log_area_2 get32_def elim!: returns_mono)

text \<open>Power fails after two of the four writes, when the header has been written, and the machine boots with an empty cache.\<close>

lemma held_boot: "held 1 1 {} {} (klog0\<lparr>platter := pl\<rparr>)"
proof -
  have k: "\<not> keyed buf0 1 n b" for n b by (simp add: keyed_def buf0_def)
  have "cache_ok 1 {} {} pl buf0" unfolding cache_ok_def using k ring_buf0 by (auto simp: buf0_def)
  then show ?thesis using quiet_klog0 by (simp add: held_def bc_def)
qed

theorem commit_crash_atomic_witness:
  "returns (commit klog1) (\<lambda>_ t. returns (recover_from_log (klog0\<lparr>platter := apply_writes (take 2 (disk_writes t)) (platter klog1)\<rparr>))
     (\<lambda>_ r. platter r 100 = replicate BSIZE 7))"
proof -
  have h: "held 1 (log_dev klog1) (lh_block klog1 ` {..<1}) {} klog1" "txn (log_start klog1) 1 (lh_block klog1)"
    using log_ok_klog1 by (simp_all add: log_ok_def klog1_def)
  have f: "lh_n klog1 = int 1" "length (platter klog1 (log_blk (log_start klog1) 0)) = BSIZE" "get32 (platter klog1 (log_blk (log_start klog1) 0)) 0 = 0"
    "disk_writes klog1 = []" "log_start klog1 = 2" "log_dev klog1 = 1"
    by (simp_all add: klog1_def get32_def)
  from commit_crash_atomic [OF h(1) f(1) zero_less_one h(2) f(2,3)] show ?thesis
  proof (rule returns_mono, elim exE conjE)
    fix t ws assume ws: "disk_writes t = disk_writes klog1 @ ws" and c: "\<forall>k p' (c :: klog). platter c = apply_writes (take k ws) (platter klog1) \<longrightarrow>
      held p' (log_dev c) {} {} c \<longrightarrow> log_start c = log_start klog1 \<longrightarrow> returns (recover_from_log c) (\<lambda>_ r. get32 (platter r (log_blk (log_start klog1) 0)) 0 = 0 \<and>
        (\<forall>b. b \<notin> log_area (log_start klog1) \<longrightarrow> platter r b = (if k \<le> 1 then platter klog1 b else view (log_dev klog1) klog1 b)))"
    show "returns (recover_from_log (klog0\<lparr>platter := apply_writes (take 2 (disk_writes t)) (platter klog1)\<rparr>)) (\<lambda>_ r. platter r 100 = replicate BSIZE 7)"
      using c [rule_format, of "klog0\<lparr>platter := apply_writes (take 2 (disk_writes t)) (platter klog1)\<rparr>" 2 1] ws f held_boot view_klog1
      by (auto simp: log_area_2 elim!: returns_mono)
  qed
qed

text \<open>What \<open>write_head\<close> puts into the header block, \<open>read_head\<close> gets back: after a reboot that forgets the header in
  memory, the number of blocks and every home block number are those that were written.\<close>

theorem log_header_roundtrip:
  assumes h: "held p (log_dev s) {} {} s" and n: "lh_n s = int n" "n \<le> 30" and l: "length (platter s (log_blk (log_start s) 0)) = BSIZE"
  shows "returns (andthen (write_head s) (\<lambda>_ t. read_head (t\<lparr>lh_n := 0, lh_block := (\<lambda>_. 0)\<rparr>)))
    (\<lambda>_ u. lh_n u = lh_n s \<and> (\<forall>i<n. lh_block u i = lh_block s i))"
proof -
  let ?st = "log_blk (log_start s) 0"
  obtain t where t: "write_head s = Ret () t" "held p (log_dev s) {} {} t" "kbio.more t = kbio.more s"
    "platter t ?st = header n (lh_block s) (platter s ?st)"
    using write_head_held [OF h, of ?st] n by (auto simp: returns_iff wrote_def log_blk_def)
  note m = klog_more [OF t(3)] and g = header_get [where n = n and d = "platter s ?st" and B = "lh_block s"]
  have "held p (log_dev (t\<lparr>lh_n := 0, lh_block := \<lambda>_. 0\<rparr>)) {} {} (t\<lparr>lh_n := 0, lh_block := \<lambda>_. 0\<rparr>)" using t(2) m(5) by simp
  from read_head_held [OF this, of ?st n] show ?thesis
    using t m g n l by (auto simp: log_blk_def elim!: returns_mono)
qed

theorem log_header_roundtrip_witness:
  "returns (andthen (write_head (klog0\<lparr>platter := (\<lambda>_. replicate BSIZE 0), lh_n := 2, lh_block := (\<lambda>i. 40 + of_nat i)\<rparr>)) (\<lambda>_ t. read_head (t\<lparr>lh_n := 0, lh_block := (\<lambda>_. 0)\<rparr>)))
    (\<lambda>_ u. lh_n u = 2 \<and> lh_block u 1 = 41)"
  using held_boot [of "\<lambda>_. replicate BSIZE 0"] log_header_roundtrip [of 1 "klog0\<lparr>platter := (\<lambda>_. replicate BSIZE 0), lh_n := 2, lh_block := (\<lambda>i. 40 + of_nat i)\<rparr>" 2]
  by (auto elim!: returns_mono)

end
