(* ===== verification/Fsops.thy ===== *)
theory Fsops
  imports Crash Fs
begin

text \<open>
  What the operations of \<open>kernel/fs.c\<close> do, on top of the log and the buffer cache. The laws the file system needs of them are the locales
  \<open>block_reader\<close> (reading a block and giving it back) and \<open>block_txn\<close> (changing one inside a transaction), interpreted on \<open>bread\<close>,
  \<open>brelse\<close> and \<open>log_write\<close>; all statements are about \<open>view\<close>, the contents of the blocks as the cache shows them. On them: the bitmap
  (\<open>balloc\<close>, \<open>bfree\<close>), the contents of files (\<open>bmap\<close>, \<open>readi\<close>, \<open>writei\<close>, \<open>iupdate\<close>) and directories (\<open>dirlookup\<close>, \<open>dirlink\<close>).
\<close>

subsection \<open>Loops that look for something\<close>

lemma for_find_map: "for_find f (map g js) s = for_find (\<lambda>j. f (g j)) js s"
  by (induction js arbitrary: s) (simp_all cong: option.case_cong)

lemma for_find_none:
  assumes "I s" and "\<And>j t. j \<in> set js \<Longrightarrow> I t \<Longrightarrow> returns (f j t) (\<lambda>r u. r = None \<and> I u)"
  shows "returns (for_find f js s) (\<lambda>r t. r = None \<and> I t)"
  using assms
proof (induction js arbitrary: s)
  case (Cons j js)
  have "returns (f j s) (\<lambda>r u. r = None \<and> I u)" using Cons.prems by simp
  moreover have "returns (for_find f js u) (\<lambda>r t. r = None \<and> I t)" if "I u" for u using Cons that by simp
  ultimately show ?case by (auto elim!: returns_mono)
qed simp

lemma for_find_first:
  assumes "I s" and k: "a \<le> k" "k < m" and no: "\<And>j t. a \<le> j \<Longrightarrow> j < k \<Longrightarrow> I t \<Longrightarrow> returns (f j t) (\<lambda>r u. r = None \<and> I u)"
    and yes: "\<And>t. I t \<Longrightarrow> returns (f k t) (\<lambda>r u. r = Some x \<and> Q u)"
  shows "returns (for_find f [a..<m] s) (\<lambda>r t. r = Some x \<and> Q t)"
  using assms(1) k no
proof (induction "k - a" arbitrary: a s)
  case 0
  then have "[a..<m] = k # [Suc k..<m]" by (simp add: upt_conv_Cons)
  then show ?case using yes [OF "0.prems"(1)] by (auto elim!: returns_mono)
next
  case (Suc y)
  have "returns (f a s) (\<lambda>r u. r = None \<and> I u)" using Suc by simp
  moreover have "returns (for_find f [Suc a..<m] u) (\<lambda>r t. r = Some x \<and> Q t)" if "I u" for u
    by (rule Suc.hyps(1)) (use Suc that in auto)
  moreover have "[a..<m] = a # [Suc a..<m]" using Suc by (simp add: upt_conv_Cons)
  ultimately show ?case by (auto elim!: returns_mono)
qed

subsection \<open>Blocks inside a transaction\<close>

text \<open>What the file system relies on below it: blocks are read into a buffer and given back, and the contents of all blocks form one function,
  \<open>look\<close>. \<open>ok\<close> means that no buffer is held, \<open>has b n\<close> that the buffer \<open>b\<close> with the unchanged contents of block \<open>n\<close> is; \<open>kept\<close> is what none
  of the operations changes.\<close>

locale block_reader =
  fixes rd :: "u32 \<Rightarrow> 's \<Rightarrow> (nat, 's) outcome" and rel :: "nat \<Rightarrow> 's \<Rightarrow> (unit, 's) outcome" and data :: "nat \<Rightarrow> 's \<Rightarrow> u8 list"
    and ok :: "'s \<Rightarrow> bool" and has :: "nat \<Rightarrow> u32 \<Rightarrow> 's \<Rightarrow> bool" and look :: "'s \<Rightarrow> u32 \<Rightarrow> u8 list" and kept :: "'s \<Rightarrow> 's \<Rightarrow> bool"
  assumes rd: "ok s \<Longrightarrow> returns (rd n s) (\<lambda>b t. has b n t \<and> look t = look s \<and> kept s t)"
    and rel: "has b n s \<Longrightarrow> returns (rel b s) (\<lambda>_ t. ok t \<and> look t = look s \<and> kept s t)"
    and data: "has b n s \<Longrightarrow> data b s = look s n"
    and kept_trans: "kept s t \<Longrightarrow> kept t u \<Longrightarrow> kept s u"
begin

text \<open>Reading a block and computing something from it.\<close>

lemma inspect:
  assumes "ok s"
  shows "returns (andthen (rd n s) (\<lambda>b s. andthen (rel b s) (\<lambda>_ t. Ret (g (data b s)) t)))
    (\<lambda>x t. x = g (look s n) \<and> ok t \<and> look t = look s \<and> kept s t)"
proof -
  have "returns (andthen (rel b t) (\<lambda>_ s. Ret (g (data b t)) s)) (\<lambda>x u. x = g (look s n) \<and> ok u \<and> look u = look s \<and> kept s u)"
    if "has b n t" "look t = look s" "kept s t" for b t
    using rel [OF that(1)] data [OF that(1)] that kept_trans by (auto elim!: returns_mono)
  then show ?thesis using rd [OF assms, of n] by (auto elim!: returns_mono)
qed

end

text \<open>Inside a transaction blocks are also changed and logged; \<open>k\<close> is the number of blocks that still fit into it.\<close>

locale block_txn =
  fixes rd :: "u32 \<Rightarrow> 's \<Rightarrow> (nat, 's) outcome" and rel :: "nat \<Rightarrow> 's \<Rightarrow> (unit, 's) outcome" and data :: "nat \<Rightarrow> 's \<Rightarrow> u8 list"
    and ok :: "nat \<Rightarrow> 's \<Rightarrow> bool" and has :: "nat \<Rightarrow> nat \<Rightarrow> u32 \<Rightarrow> 's \<Rightarrow> bool" and look :: "'s \<Rightarrow> u32 \<Rightarrow> u8 list" and kept :: "'s \<Rightarrow> 's \<Rightarrow> bool"
    and wr :: "nat \<Rightarrow> (u8 list \<Rightarrow> u8 list) \<Rightarrow> 's \<Rightarrow> (unit, 's) outcome" and home :: "u32 \<Rightarrow> 's \<Rightarrow> bool"
  assumes reader: "block_reader rd rel data (ok k) (has k) look kept"
    and wr: "has (Suc k) b n s \<Longrightarrow> home n s \<Longrightarrow> returns (wr b f s) (\<lambda>_ t. ok k t \<and> look t = (look s)(n := f (look s n)) \<and> kept s t)"
    and home_kept: "kept s t \<Longrightarrow> home n t = home n s"

sublocale block_txn \<subseteq> block_reader rd rel data "ok k" "has k" look kept for k
  by (rule reader)

context block_txn
begin

lemma modify:
  assumes "ok (Suc k) s" and "home n s"
  shows "returns (andthen (rd n s) (\<lambda>b s. wr b f s)) (\<lambda>_ t. ok k t \<and> look t = (look s)(n := f (look s n)) \<and> kept s t)"
proof -
  have "returns (wr b f t) (\<lambda>_ u. ok k u \<and> look u = (look s)(n := f (look s n)) \<and> kept s u)"
    if "has (Suc k) b n t" "look t = look s" "kept s t" for b t
    using wr [OF that(1), of f] that assms(2) kept_trans home_kept by (auto elim!: returns_mono)
  then show ?thesis using rd [OF assms(1), of n] by (auto elim!: returns_mono)
qed

end

text \<open>The log and the cache provide this, for the running process \<open>p\<close> and the device of the log.\<close>

definition rdr :: "nat \<Rightarrow> u32 \<Rightarrow> nat set \<Rightarrow> 'z klog_scheme \<Rightarrow> bool" where
  "rdr p d R s \<longleftrightarrow> log_ok p R s \<and> log_dev s = d \<and> lh_n s \<le> 29"

definition rdr_has :: "nat \<Rightarrow> u32 \<Rightarrow> nat \<Rightarrow> u32 \<Rightarrow> 'z klog_scheme \<Rightarrow> bool" where
  "rdr_has p d b n s \<longleftrightarrow> rdr p d {b} s \<and> b_blockno (bufs s b) = n \<and> (n \<in> lh_block s ` {..<nat (lh_n s)} \<or> b_data (bufs s b) = platter s n)"

definition tx :: "nat \<Rightarrow> u32 \<Rightarrow> nat set \<Rightarrow> nat \<Rightarrow> 'z klog_scheme \<Rightarrow> bool" where
  "tx p d R k s \<longleftrightarrow> rdr p d R s \<and> log_size s = 30 \<and> 1 \<le> log_outstanding s \<and> lh_n s + int k \<le> 29"

definition tx_has :: "nat \<Rightarrow> u32 \<Rightarrow> nat \<Rightarrow> nat \<Rightarrow> u32 \<Rightarrow> 'z klog_scheme \<Rightarrow> bool" where
  "tx_has p d k b n s \<longleftrightarrow> tx p d {b} k s \<and> rdr_has p d b n s"

definition kept :: "'z klog_scheme \<Rightarrow> 'z klog_scheme \<Rightarrow> bool" where
  "kept s t \<longleftrightarrow> klog.more t = klog.more s \<and> log_start t = log_start s \<and> platter t = platter s \<and> disk_writes t = disk_writes s"

definition home :: "u32 \<Rightarrow> 'z klog_scheme \<Rightarrow> bool" where
  "home n s \<longleftrightarrow> n \<notin> log_area (log_start s)"

definition log_put :: "nat \<Rightarrow> (u8 list \<Rightarrow> u8 list) \<Rightarrow> 'z klog_scheme \<Rightarrow> (unit, 'z klog_scheme) outcome" where
  "log_put b f s = andthen (log_write b (set_data b f s)) (\<lambda>_ s. brelse b s)"

lemma card_header: "card (H ` {..<n :: nat}) \<le> n"
  using card_image_le [of "{..<n}" H] by simp

lemma rdr_same:
  assumes "kbio.more t = kbio.more (s :: 'z klog_scheme)"
  shows "rdr p d R t \<longleftrightarrow> 0 \<le> lh_n s \<and> txn (log_start s) (nat (lh_n s)) (lh_block s) \<and> held p d (lh_block s ` {..<nat (lh_n s)}) R t \<and>
     log_dev s = d \<and> lh_n s \<le> 29"
  using klog_more [OF assms] by (auto simp: rdr_def log_ok_def)

lemma rdr_read:
  assumes "rdr p d {} s"
  shows "returns (bread d n s) (\<lambda>b t. rdr_has p d b n t \<and> view d t = view d s \<and> same_disk s t)"
proof -
  let ?N = "lh_block s ` {..<nat (lh_n s)}"
  have h: "held p d ?N {} s" and r: "n \<in> ?N \<or> card ?N + card ({} :: nat set) < NBUF"
    using assms card_header [of "lh_block s" "nat (lh_n s)"] by (auto simp: rdr_def log_ok_def)
  obtain b t where b: "bread d n s = Ret b t" "held p d ?N {b} t" "b_blockno (bufs t b) = n" "b_data (bufs t b) = view d s n"
    "view d t = view d s" "same_disk s t" using bread_held [OF h _ r] by (auto simp: returns_iff)
  then have m: "kbio.more t = kbio.more s" by (simp add: same_disk_def)
  have "n \<notin> ?N \<Longrightarrow> view d s n = platter s n" using held_view [OF h] by simp
  then show ?thesis using b klog_more [OF m] assms
    by (auto simp: rdr_has_def rdr_same [OF m] rdr_same [of s s, OF refl] same_disk_def)
qed

lemma rdr_release:
  assumes "rdr_has p d b n s"
  shows "returns (brelse b s) (\<lambda>_ t. rdr p d {} t \<and> view d t = view d s \<and> same_disk s t)"
proof -
  let ?N = "lh_block s ` {..<nat (lh_n s)}"
  have h: "held p d ?N {b} s" "b \<in> {b}" "b_blockno (bufs s b) = n" "n \<in> ?N \<or> b_data (bufs s b) = platter s n"
    using assms by (auto simp: rdr_has_def rdr_def log_ok_def)
  obtain t where t: "brelse b s = Ret () t" "held p d ?N {} t" "view d t = view d s" "same_disk s t"
    using brelse_held [OF h] by (auto simp: returns_iff)
  then have m: "kbio.more t = kbio.more s" by (simp add: same_disk_def)
  show ?thesis using t assms by (auto simp: rdr_has_def rdr_same [OF m] rdr_same [of s s, OF refl])
qed

lemma rdr_data: "rdr_has p d b n s \<Longrightarrow> b_data (bufs s b) = view d s n"
  using held_data [of p d _ "{b}" s b n] by (fastforce simp: rdr_has_def rdr_def log_ok_def)

lemma same_disk_kept: "same_disk s t \<Longrightarrow> kept s t" "same_disk s t \<Longrightarrow> log_size t = log_size s \<and> log_outstanding t = log_outstanding s \<and> lh_n t = lh_n s"
  for s t :: "'z klog_scheme"
  using klog_more [of t s] by (auto simp: same_disk_def kept_def)

lemma kept_trans: "kept s t \<Longrightarrow> kept t u \<Longrightarrow> kept s u"
  by (simp add: kept_def)

lemma tx_read: "tx p d {} k s \<Longrightarrow> returns (bread d n s) (\<lambda>b t. tx_has p d k b n t \<and> view d t = view d s \<and> kept s t)"
  using rdr_read [of p d s n] same_disk_kept [of s] by (auto simp: tx_has_def tx_def rdr_has_def elim!: returns_mono)

lemma tx_release: "tx_has p d k b n s \<Longrightarrow> returns (brelse b s) (\<lambda>_ t. tx p d {} k t \<and> view d t = view d s \<and> kept s t)"
  using rdr_release [of p d b n s] same_disk_kept [of s] by (auto simp: tx_has_def tx_def elim!: returns_mono)

interpretation fs_reader: block_reader "bread d" brelse "\<lambda>b s. b_data (bufs s b)" "rdr p d {}" "rdr_has p d" "view d" kept for p d
  by unfold_locales (auto intro: returns_mono [OF rdr_read] returns_mono [OF rdr_release] rdr_data kept_trans same_disk_kept)

lemma tx_write:
  assumes h: "tx_has p d (Suc k) b n s" and n: "home n s"
  shows "returns (log_put b f s) (\<lambda>_ t. tx p d {} k t \<and> view d t = (view d s)(n := f (view d s n)) \<and> kept s t)"
proof -
  let ?x = "f (b_data (bufs s b))" and ?N = "lh_block s ` {..<nat (lh_n s)}"
  define u where "u = set_data b f s"
  have u: "u = upd_buf b (\<lambda>y. y\<lparr>b_data := ?x\<rparr>) s" by (simp add: u_def set_data_def upd_buf_def)
  have s: "held p d ?N {b} s" "b \<in> {b}" "b_blockno (bufs s b) = n" using h by (auto simp: tx_has_def rdr_has_def rdr_def log_ok_def)
  have hu: "held p d ?N {b} u" "view d u = (view d s)(n := ?x)" using held_set [OF s, of ?x] by (simp_all add: u)
  have m: "kbio.more u = kbio.more s" "platter u = platter s" "disk_writes u = disk_writes s" "b_blockno (bufs u b) = n"
    by (simp_all add: u s(3))
  note mu = klog_more [OF m(1)]
  have tu: "tx p d {b} (Suc k) u" using h hu(1) mu by (simp add: tx_has_def tx_def rdr_same [OF m(1)] rdr_same [of s s, OF refl])
  obtain v where v: "log_write b u = Ret () v" "log_ok p {b} v" "lh_block v ` {..<nat (lh_n v)} = insert n ?N" "lh_n v \<le> lh_n s + 1"
    "view d v = view d u" "platter v = platter s" "disk_writes v = disk_writes s" "klog.more v = klog.more s" "log_start v = log_start s"
    "log_dev v = d" "log_size v = 30" "log_outstanding v = log_outstanding s" "b_blockno (bufs v b) = n"
    using log_write_spec [of p "{b}" u b n] tu m mu n by (auto simp: tx_def rdr_def home_def returns_iff)
  have hv: "tx_has p d k b n v" using v tu mu by (auto simp: tx_has_def tx_def rdr_has_def rdr_def)
  from tx_release [OF hv] show ?thesis
    using v hu(2) h by (auto simp: log_put_def u_def kept_def tx_has_def rdr_data elim!: returns_mono)
qed

interpretation fs_txn: block_txn "bread d" brelse "\<lambda>b s. b_data (bufs s b)" "tx p d {}" "tx_has p d" "view d" kept log_put home for p d
  by unfold_locales (auto simp: tx_read tx_release tx_write kept_trans, auto simp: tx_has_def rdr_data kept_def home_def)

lemma kfs_kept: "kept s t \<Longrightarrow> fs_sb t = fs_sb s \<and> inodes t = inodes s" for s t :: "'z kfs_scheme"
  by (cases s; cases t) (simp add: kept_def)

subsection \<open>The block bitmap\<close>

definition bit_of :: "u8 list \<Rightarrow> nat \<Rightarrow> bool" where
  "bit_of d i \<longleftrightarrow> bit (d ! (i div 8)) (i mod 8)"

lemma div_mod_eq8: "j div 8 = i div 8 \<Longrightarrow> j mod 8 = i mod 8 \<longleftrightarrow> j = (i :: nat)"
  by (metis div_mult_mod_eq)

lemma bit_of_set:
  assumes "i < 8 * length d"
  shows "bit_of (d[i div 8 := (d ! (i div 8)) OR push_bit (i mod 8) 1]) j \<longleftrightarrow> bit_of d j \<or> j = i"
proof (cases "j div 8 = i div 8")
  case True
  have "bit ((d ! (i div 8)) OR push_bit (i mod 8) 1) (j mod 8) \<longleftrightarrow> bit (d ! (i div 8)) (j mod 8) \<or> j mod 8 = i mod 8"
    by (auto simp: bit_simps)
  then show ?thesis using True assms div_mod_eq8 [OF True] by (simp add: bit_of_def)
next
  case False
  then show ?thesis by (auto simp: bit_of_def)
qed

lemma bit_of_clear:
  assumes "i < 8 * length d"
  shows "bit_of (d[i div 8 := (d ! (i div 8)) AND NOT (push_bit (i mod 8) 1)]) j \<longleftrightarrow> bit_of d j \<and> j \<noteq> i"
proof (cases "j div 8 = i div 8")
  case True
  have "bit ((d ! (i div 8)) AND NOT (push_bit (i mod 8) 1)) (j mod 8) \<longleftrightarrow> bit (d ! (i div 8)) (j mod 8) \<and> j mod 8 \<noteq> i mod 8"
    by (auto simp: bit_simps)
  then show ?thesis using True assms div_mod_eq8 [OF True] by (simp add: bit_of_def)
next
  case False
  then show ?thesis by (auto simp: bit_of_def)
qed

text \<open>Block \<open>b\<close> is marked in the bitmap.\<close>

definition used :: "u32 \<Rightarrow> 'z kfs_scheme \<Rightarrow> nat \<Rightarrow> bool" where
  "used d s b \<longleftrightarrow> bit_of (view d s (BBLOCK b (fs_sb s))) (b mod BPB)"

abbreviation (input) nblk :: "'z kfs_scheme \<Rightarrow> nat" where "nblk s \<equiv> unat (sb_size (fs_sb s))"

text \<open>The layout: the bitmap lies outside the log, and every free block outside the log, the bitmap and the boot block.\<close>

definition layout_ok :: "u32 \<Rightarrow> 'z kfs_scheme \<Rightarrow> bool" where
  "layout_ok d s \<longleftrightarrow> (\<forall>b<nblk s. home (BBLOCK b (fs_sb s)) s \<and> length (view d s (BBLOCK b (fs_sb s))) = BSIZE \<and>
     (\<not> used d s b \<longrightarrow> b \<noteq> 0 \<and> home (of_nat b) s \<and> (\<forall>c<nblk s. of_nat b \<noteq> BBLOCK c (fs_sb s))))"

lemma BBLOCK_inj: "b < nblk s \<Longrightarrow> c < nblk s \<Longrightarrow> BBLOCK b sb = BBLOCK c sb \<longleftrightarrow> b div BPB = c div BPB"
proof -
  assume bc: "b < nblk s" "c < nblk s"
  have n: "nblk s < 4294967296" using unsigned_less [of "sb_size (fs_sb s)", where ?'a = nat] by simp
  have "x div BPB < 4294967296" if "x < nblk s" for x using that n div_le_dividend [of x BPB] by linarith
  then have "b div BPB < 2 ^ LENGTH(32)" "c div BPB < 2 ^ LENGTH(32)" using bc by simp_all
  then show ?thesis unfolding BBLOCK_def by (simp add: of_nat_inverse word_of_nat_eq_iff take_bit_nat_eq_self)
qed

text \<open>Marking a block and clearing a mark change one bit, of one bitmap block.\<close>

lemma used_update:
  assumes l: "layout_ok d s" and a: "a < nblk s" and b: "b < nblk s" and sb: "fs_sb t = fs_sb s"
    and v: "view d t (BBLOCK b (fs_sb s)) = (if BBLOCK b (fs_sb s) = BBLOCK a (fs_sb s) then f (view d s (BBLOCK a (fs_sb s))) else view d s (BBLOCK b (fs_sb s)))"
    and f: "\<And>x j. length x = BSIZE \<Longrightarrow> bit_of (f x) j = g (bit_of x j) (j = a mod BPB)" and g: "\<And>x. g x False = x"
  shows "used d t b = g (used d s b) (b = a)"
proof (cases "b div BPB = a div BPB")
  case True
  then have e: "BBLOCK b (fs_sb s) = BBLOCK a (fs_sb s)" using BBLOCK_inj [OF b a] by simp
  have "b mod BPB = a mod BPB \<longleftrightarrow> b = a" using True by (metis div_mult_mod_eq)
  then show ?thesis using v e f l a sb by (simp add: used_def layout_ok_def)
next
  case False
  then have "BBLOCK b (fs_sb s) \<noteq> BBLOCK a (fs_sb s)" "b \<noteq> a" using BBLOCK_inj [OF b a] by auto
  then show ?thesis using v sb g by (simp add: used_def)
qed

definition mark :: "nat \<Rightarrow> u8 list \<Rightarrow> u8 list" where
  "mark i x = x[i div 8 := (x ! (i div 8)) OR push_bit (i mod 8) 1]"

definition unmark :: "nat \<Rightarrow> u8 list \<Rightarrow> u8 list" where
  "unmark i x = x[i div 8 := (x ! (i div 8)) AND NOT (push_bit (i mod 8) 1)]"

lemma bit_of_mark: "length x = BSIZE \<Longrightarrow> i < BPB \<Longrightarrow> bit_of (mark i x) j \<longleftrightarrow> bit_of x j \<or> j = i"
  unfolding mark_def by (rule bit_of_set) simp

lemma bit_of_unmark: "length x = BSIZE \<Longrightarrow> i < BPB \<Longrightarrow> bit_of (unmark i x) j \<longleftrightarrow> bit_of x j \<and> j \<noteq> i"
  unfolding unmark_def by (rule bit_of_clear) simp

lemma length_mark [simp]: "length (mark i x) = length x" "length (unmark i x) = length x"
  by (simp_all add: mark_def unmark_def)

lemma find_bit:
  "find (\<lambda>bi. (x ! (bi div 8)) AND push_bit (bi mod 8) 1 = 0) [0..<n] = Some i \<longleftrightarrow> i < n \<and> \<not> bit_of x i \<and> (\<forall>j<i. bit_of x j)"
  "find (\<lambda>bi. (x ! (bi div 8)) AND push_bit (bi mod 8) 1 = 0) [0..<n] = None \<longleftrightarrow> (\<forall>j<n. bit_of x j)"
  by (auto simp: find_Some_iff find_None_iff bit_of_def bit_iff_and_push_bit_not_eq_0)

text \<open>What allocating block \<open>a\<close> does.\<close>

definition allocates :: "u32 \<Rightarrow> nat \<Rightarrow> 'z kfs_scheme \<Rightarrow> 'z kfs_scheme \<Rightarrow> bool" where
  "allocates d a s t \<longleftrightarrow> kept s t \<and>
     view d t = (view d s)(BBLOCK a (fs_sb s) := mark (a mod BPB) (view d s (BBLOCK a (fs_sb s))), of_nat a := replicate BSIZE 0)"

lemma balloc_chunk:
  assumes b: "b = c * BPB" "b + bi < n" "bi < BPB"
  shows "(b + bi) mod BPB = bi" "BBLOCK (b + bi) sb = BBLOCK b sb"
  using assms by (simp_all add: BBLOCK_def)

lemma layout_same: "layout_ok d t = layout_ok d s" "used d t = used d s"
  if "view d t = view d s" "kept s t" for s t :: "'z kfs_scheme"
proof -
  show u: "used d t = used d s" using that kfs_kept [OF that(2)] by (simp add: used_def fun_eq_iff)
  show "layout_ok d t = layout_ok d s" using that u kfs_kept [OF that(2)] fs_txn.home_kept [OF that(2)] by (simp add: layout_ok_def)
qed

lemma allocates_kept: "allocates d a t u \<Longrightarrow> view d t = view d s \<Longrightarrow> kept s t \<Longrightarrow> allocates d a s u"
  using kfs_kept [of s t] kept_trans by (auto simp: allocates_def)

text \<open>Allocating needs less than a transaction: only the blocks \<open>may\<close> names are read, so that the caller may hold a buffer with another one.\<close>

lemma home_same: "kept s t \<Longrightarrow> home n t = home n s"
  by (simp add: kept_def home_def)

locale block_alloc =
  fixes d :: u32 and ok :: "nat \<Rightarrow> 'z kfs_scheme \<Rightarrow> bool" and has :: "nat \<Rightarrow> nat \<Rightarrow> u32 \<Rightarrow> 'z kfs_scheme \<Rightarrow> bool" and may :: "u32 \<Rightarrow> bool"
  assumes rd: "ok k s \<Longrightarrow> may n \<Longrightarrow> returns (bread d n s) (\<lambda>b t. has k b n t \<and> view d t = view d s \<and> kept s t)"
    and rel: "has k b n s \<Longrightarrow> returns (brelse b s) (\<lambda>_ t. ok k t \<and> view d t = view d s \<and> kept s t)"
    and data: "has k b n s \<Longrightarrow> b_data (bufs s b) = view d s n"
    and wr: "has (Suc k) b n s \<Longrightarrow> home n s \<Longrightarrow> returns (log_put b f s) (\<lambda>_ t. ok k t \<and> view d t = (view d s)(n := f (view d s n)) \<and> kept s t)"
begin

lemma bzero_spec:
  assumes "ok (Suc k) s" and "may n" and "home n s"
  shows "returns (bzero d n s) (\<lambda>_ t. ok k t \<and> view d t = (view d s)(n := replicate BSIZE 0) \<and> kept s t)"
proof -
  have "returns (log_put b (\<lambda>_. replicate BSIZE 0) t) (\<lambda>_ u. ok k u \<and> view d u = (view d s)(n := replicate BSIZE 0) \<and> kept s u)"
    if "has (Suc k) b n t" "view d t = view d s" "kept s t" for b t
    using wr [OF that(1), of "\<lambda>_. replicate BSIZE 0"] that assms(3) kept_trans [OF that(3)] home_same [OF that(3)] by (auto elim!: returns_mono)
  then show ?thesis using rd [OF assms(1,2)] by (auto simp: bzero_def log_put_def elim!: returns_mono)
qed

lemma balloc_one_Some:
  assumes t: "ok (Suc (Suc k)) s" and l: "layout_ok d s" and b: "b = c * BPB" and a: "b + bi < nblk s" "bi < BPB"
    and free: "\<not> used d s (b + bi)" "\<And>j. j < bi \<Longrightarrow> used d s (b + j)" and my: "may (BBLOCK b (fs_sb s))" "may (of_nat (b + bi))"
  shows "returns (balloc_one d b s) (\<lambda>r t. r = Some (of_nat (b + bi)) \<and> ok k t \<and> allocates d (b + bi) s t)"
proof -
  let ?n = "BBLOCK b (fs_sb s)"
  note ch = balloc_chunk [OF b a]
  have home: "home ?n s" "home (of_nat (b + bi)) s" using l a free(1) ch(2) unfolding layout_ok_def by metis+
  have u: "used d s (b + j) \<longleftrightarrow> bit_of (view d s ?n) j" if "j < BPB" for j using that b by (simp add: used_def BBLOCK_def)
  have f: "find (\<lambda>bi. (view d s ?n ! (bi div 8)) AND push_bit (bi mod 8) 1 = 0) [0..<min BPB (nblk s - b)] = Some bi"
    unfolding find_bit using a free u by simp
  have step: "returns (andthen (log_put x (mark bi) v) (\<lambda>_ s. andthen (bzero d (of_nat (b + bi)) s) (\<lambda>_ s. Ret (Some (of_nat (b + bi))) s)))
      (\<lambda>r t. r = Some (of_nat (b + bi)) \<and> ok k t \<and> allocates d (b + bi) s t)"
    if x: "has (Suc (Suc k)) x ?n v" "view d v = view d s" "kept s v" for x v
  proof -
    have hv: "home m v \<longleftrightarrow> home m s" for m using x(3) by (rule home_same)
    have "returns (bzero d (of_nat (b + bi)) w) (\<lambda>_ t. ok k t \<and> allocates d (b + bi) s t)"
      if w: "ok (Suc k) w" "view d w = (view d v)(?n := mark bi (view d v ?n))" "kept v w" for w
      using bzero_spec [OF w(1) my(2)] w x(2) home(2) hv home_same [OF w(3)] kept_trans [OF x(3) kept_trans [OF w(3)]] ch
      by (auto simp: allocates_def elim!: returns_mono)
    then show ?thesis using wr [OF x(1), of "mark bi"] home(1) hv by (auto elim!: returns_mono)
  qed
  have "returns (let y = b_data (bufs v x) in
      case find (\<lambda>bi. (y ! (bi div 8)) AND push_bit (bi mod 8) 1 = 0) [0..<min BPB (nblk v - b)] of
        Some bi \<Rightarrow> (let v = set_data x (\<lambda>d. d[bi div 8 := (d ! (bi div 8)) OR push_bit (bi mod 8) 1]) v in
          andthen (log_write x v) (\<lambda>_ s. andthen (brelse x s) (\<lambda>_ s. andthen (bzero d (of_nat (b + bi)) s) (\<lambda>_ s. Ret (Some (of_nat (b + bi))) s))))
      | None \<Rightarrow> andthen (brelse x v) (\<lambda>_ s. Ret None s))
      (\<lambda>r t. r = Some (of_nat (b + bi)) \<and> ok k t \<and> allocates d (b + bi) s t)"
    if x: "has (Suc (Suc k)) x ?n v" "view d v = view d s" "kept s v" for x v
    using step [OF x] f kfs_kept [OF x(3)] data [OF x(1)] x(2) by (simp add: Let_def log_put_def mark_def [abs_def])
  then show ?thesis unfolding balloc_one_def using rd [OF t my(1)] by (auto elim!: returns_mono)
qed

lemma balloc_one_None:
  assumes t: "ok k s" and b: "b = c * BPB" and full: "\<And>j. b \<le> j \<Longrightarrow> j < b + BPB \<Longrightarrow> j < nblk s \<Longrightarrow> used d s j"
    and my: "may (BBLOCK b (fs_sb s))"
  shows "returns (balloc_one d b s) (\<lambda>r t. r = None \<and> ok k t \<and> view d t = view d s \<and> kept s t)"
proof -
  let ?n = "BBLOCK b (fs_sb s)"
  have "bit_of (view d s ?n) j" if "j < min BPB (nblk s - b)" for j
  proof -
    have "b + j < nblk s" using that by linarith
    then show ?thesis using full [of "b + j"] that b by (simp add: used_def BBLOCK_def)
  qed
  then have f: "find (\<lambda>bi. (view d s ?n ! (bi div 8)) AND push_bit (bi mod 8) 1 = 0) [0..<min BPB (nblk s - b)] = None"
    unfolding find_bit by blast
  have "returns (let y = b_data (bufs v x) in
      case find (\<lambda>bi. (y ! (bi div 8)) AND push_bit (bi mod 8) 1 = 0) [0..<min BPB (nblk v - b)] of
        Some bi \<Rightarrow> (let v = set_data x (\<lambda>d. d[bi div 8 := (d ! (bi div 8)) OR push_bit (bi mod 8) 1]) v in
          andthen (log_write x v) (\<lambda>_ s. andthen (brelse x s) (\<lambda>_ s. andthen (bzero d (of_nat (b + bi)) s) (\<lambda>_ s. Ret (Some (of_nat (b + bi))) s))))
      | None \<Rightarrow> andthen (brelse x v) (\<lambda>_ s. Ret None s))
      (\<lambda>r t. r = None \<and> ok k t \<and> view d t = view d s \<and> kept s t)"
    if x: "has k x ?n v" "view d v = view d s" "kept s v" for x v
    using rel [OF x(1)] f kfs_kept [OF x(3)] data [OF x(1)] x(2) kept_trans [OF x(3)]
    by (auto simp: Let_def elim!: returns_mono)
  then show ?thesis unfolding balloc_one_def using rd [OF t my] by (auto elim!: returns_mono)
qed

text \<open>The loop over the bitmap blocks finds the first free block \<open>a\<close>.\<close>

lemma balloc_scan:
  assumes t: "ok (Suc (Suc k)) s" and l: "layout_ok d s" and a: "a < nblk s" "\<not> used d s a" "\<And>j. j < a \<Longrightarrow> used d s j" and m: "a div BPB < m"
    and my: "\<And>b. b < nblk s \<Longrightarrow> may (BBLOCK b (fs_sb s))" "may (of_nat a)"
  shows "returns (for_find (balloc_one d) (map (\<lambda>k. k * BPB) [0..<m]) s) (\<lambda>r t. r = Some (of_nat a) \<and> ok k t \<and> allocates d a s t)"
  unfolding for_find_map
proof (rule for_find_first [where I = "\<lambda>t. ok (Suc (Suc k)) t \<and> view d t = view d s \<and> kept s t" and k = "a div BPB"])
  show "ok (Suc (Suc k)) s \<and> view d s = view d s \<and> kept s s" using t by (simp add: kept_def)
  fix t assume t: "ok (Suc (Suc k)) t \<and> view d t = view d s \<and> kept s t"
  then have n: "nblk t = nblk s" and u: "used d t = used d s" and lt: "layout_ok d t" using kfs_kept [of s t] layout_same [of d t s] l by auto
  have lo: "a div BPB * BPB + j < a" if "j < a mod BPB" for j using that div_mult_mod_eq [of a BPB] by linarith
  have "returns (balloc_one d (a div BPB * BPB) t) (\<lambda>r u. r = Some (of_nat (a div BPB * BPB + a mod BPB)) \<and> ok k u \<and> allocates d (a div BPB * BPB + a mod BPB) t u)"
    by (rule balloc_one_Some [OF _ lt refl]) (use t a n u lo my kfs_kept [of s t] in auto)
  then show "returns (balloc_one d (a div BPB * BPB) t) (\<lambda>r u. r = Some (of_nat a) \<and> ok k u \<and> allocates d a s u)"
    using allocates_kept [of d a t _ s] t by (auto elim!: returns_mono)
  fix j assume "j < a div BPB"
  then have j: "Suc j * BPB \<le> a" using mult_le_mono1 [of "Suc j" "a div BPB" BPB] div_times_less_eq_dividend [of a BPB] by linarith
  have "returns (balloc_one d (j * BPB) t) (\<lambda>r u. r = None \<and> ok (Suc (Suc k)) u \<and> view d u = view d t \<and> kept t u)"
    by (rule balloc_one_None [OF _ refl]) (use t j a(1,3) n u my(1) [of "j * BPB"] kfs_kept [of s t] in auto)
  then show "returns (balloc_one d (j * BPB) t) (\<lambda>r u. r = None \<and> ok (Suc (Suc k)) u \<and> view d u = view d s \<and> kept s u)"
    using t kept_trans [of s t] by (auto elim!: returns_mono)
qed (use m in auto)

lemma balloc_spec:
  assumes t: "ok (Suc (Suc k)) s" and l: "layout_ok d s" and a: "a < nblk s" "\<not> used d s a" "\<And>j. j < a \<Longrightarrow> used d s j"
    and my: "\<And>b. b < nblk s \<Longrightarrow> may (BBLOCK b (fs_sb s))" "may (of_nat a)"
  shows "returns (balloc d s) (\<lambda>v t. v = of_nat a \<and> ok k t \<and> allocates d a s t)"
proof -
  have "a div BPB < (nblk s + BPB - 1) div BPB" using a(1) by (simp add: div_less_iff_less_mult)
  from balloc_scan [OF t l a this my] show ?thesis unfolding balloc_def by (auto elim!: returns_mono)
qed

end

text \<open>The first free block.\<close>

lemma first_free: "\<exists>b<n. \<not> P b \<Longrightarrow> \<exists>a<n. \<not> P a \<and> (\<forall>j<a. P j)" for n :: nat
  using exists_least_iff [of "\<lambda>b. b < n \<and> \<not> P b"] by (metis order.strict_trans)

interpretation fs_alloc: block_alloc d "tx p d {}" "tx_has p d" "\<lambda>_. True" for p d
  by unfold_locales (auto intro: tx_read tx_release tx_write, auto simp: tx_has_def rdr_data)

lemma allocates_used:
  assumes l: "layout_ok d s" and a: "a < nblk s" "\<not> used d s a" and t: "allocates d a s t" and b: "b < nblk s"
  shows "used d t b \<longleftrightarrow> used d s b \<or> b = a"
proof (rule used_update [OF l a(1) b, where f = "mark (a mod BPB)"])
  have n: "of_nat a \<noteq> BBLOCK b (fs_sb s)" using l a b by (auto simp: layout_ok_def)
  show "view d t (BBLOCK b (fs_sb s)) = (if BBLOCK b (fs_sb s) = BBLOCK a (fs_sb s) then mark (a mod BPB) (view d s (BBLOCK a (fs_sb s))) else view d s (BBLOCK b (fs_sb s)))"
    using t n by (simp add: allocates_def)
  show "bit_of (mark (a mod BPB) x) j = (bit_of x j \<or> j = a mod BPB)" if "length x = BSIZE" for x j
    using that by (intro bit_of_mark) simp_all
qed (use t kfs_kept [of s t] in \<open>auto simp: allocates_def\<close>)

lemma allocates_layout:
  assumes l: "layout_ok d s" and a: "a < nblk s" "\<not> used d s a" and t: "allocates d a s t"
  shows "layout_ok d t"
  unfolding layout_ok_def
proof (intro allI impI conjI)
  have k: "kept s t" using t by (simp add: allocates_def)
  note kk = kfs_kept [OF k] and hk = fs_txn.home_kept [OF k]
  fix b assume "b < nblk t"
  then have b: "b < nblk s" using kk by simp
  note lb = l [unfolded layout_ok_def, rule_format, OF b]
  show "home (BBLOCK b (fs_sb t)) t" using lb kk hk by simp
  show "length (view d t (BBLOCK b (fs_sb t))) = BSIZE" using t kk lb l a(1) by (auto simp: allocates_def layout_ok_def)
  assume u: "\<not> used d t b"
  then have "\<not> used d s b" using allocates_used [OF l a t b] by simp
  then show "b \<noteq> 0" "home (of_nat b) t" using lb hk by simp_all
  fix c assume "c < nblk t"
  then show "of_nat b \<noteq> BBLOCK c (fs_sb t)" using lb \<open>\<not> used d s b\<close> kk by simp
qed

text \<open>Property C22: \<open>balloc\<close> in a transaction with room for two blocks, when the bitmap has a free block, returns the number of the first one,
  marks it and only it, fills it with zeros, and changes no other block: neither data nor inodes nor the log, and nothing on the disk yet. The
  layout stays well formed, so that blocks allocated one after the other are distinct.\<close>

theorem balloc_correct:
  assumes "tx p d {} (Suc (Suc k)) s" and "layout_ok d s" and "\<exists>b<nblk s. \<not> used d s b"
  shows "returns (balloc d s) (\<lambda>v t. \<exists>a<nblk s. v = of_nat a \<and> v \<noteq> 0 \<and> \<not> used d s a \<and> (\<forall>j<a. used d s j) \<and>
     (\<forall>b<nblk s. used d t b \<longleftrightarrow> used d s b \<or> b = a) \<and> view d t v = replicate BSIZE 0 \<and>
     (\<forall>n. n \<noteq> v \<longrightarrow> n \<noteq> BBLOCK a (fs_sb s) \<longrightarrow> view d t n = view d s n) \<and>
     tx p d {} k t \<and> layout_ok d t \<and> inodes t = inodes s \<and> platter t = platter s)"
proof -
  obtain a where a: "a < nblk s" "\<not> used d s a" "\<And>j. j < a \<Longrightarrow> used d s j" using first_free [OF assms(3)] by blast
  have "a \<noteq> 0" using assms(2) a by (auto simp: layout_ok_def)
  moreover have "nblk s < 4294967296" using unsigned_less [of "sb_size (fs_sb s)", where ?'a = nat] by simp
  then have "a < 4294967296" using a(1) by linarith
  ultimately have nz: "of_nat a \<noteq> (0 :: u32)" by (auto simp: word_of_nat_eq_0_iff dest: dvd_imp_le)
  have "returns (balloc d s) (\<lambda>v t. v = of_nat a \<and> tx p d {} k t \<and> allocates d a s t)" using fs_alloc.balloc_spec [OF assms(1,2) a(1,2)] a(3) by blast
  then show ?thesis
  proof (rule returns_mono, elim conjE)
    fix v :: u32 and t assume v: "v = of_nat a" and tk: "tx p d {} k t" and t: "allocates d a s t"
    have "\<forall>b<nblk s. used d t b \<longleftrightarrow> used d s b \<or> b = a" "layout_ok d t"
      using allocates_used [OF assms(2) a(1,2) t] allocates_layout [OF assms(2) a(1,2) t] by blast+
    moreover have "inodes t = inodes s" "platter t = platter s" using t kfs_kept [of s t] by (auto simp: allocates_def kept_def)
    moreover have "tx p d {} k t" "view d t v = replicate BSIZE 0" "\<forall>n. n \<noteq> v \<longrightarrow> n \<noteq> BBLOCK a (fs_sb s) \<longrightarrow> view d t n = view d s n"
      using t tk v by (auto simp: allocates_def)
    ultimately show "\<exists>a<nblk s. v = of_nat a \<and> v \<noteq> 0 \<and> \<not> used d s a \<and> (\<forall>j<a. used d s j) \<and>
       (\<forall>b<nblk s. used d t b \<longleftrightarrow> used d s b \<or> b = a) \<and> view d t v = replicate BSIZE 0 \<and>
       (\<forall>n. n \<noteq> v \<longrightarrow> n \<noteq> BBLOCK a (fs_sb s) \<longrightarrow> view d t n = view d s n) \<and>
       tx p d {} k t \<and> layout_ok d t \<and> inodes t = inodes s \<and> platter t = platter s"
      using a v nz by blast
  qed
qed

text \<open>\<open>bfree\<close> of a block that is in use clears its mark; of a free block it panics.\<close>

lemma bfree_spec:
  assumes t: "tx p d {} (Suc k) s" and l: "layout_ok d s" and b: "unat b < nblk s"
  shows "if used d s (unat b)
    then returns (bfree d b s) (\<lambda>_ t. tx p d {} k t \<and> kept s t \<and>
      view d t = (view d s)(BBLOCK (unat b) (fs_sb s) := unmark (unat b mod BPB) (view d s (BBLOCK (unat b) (fs_sb s)))))
    else bfree d b s = Panic ''freeing free block''"
proof -
  let ?n = "BBLOCK (unat b) (fs_sb s)" and ?i = "unat b mod BPB"
  obtain x v where x: "bread d ?n s = Ret x v" "tx_has p d (Suc k) x ?n v" "view d v = view d s" "kept s v"
    using fs_txn.rd [OF t, of ?n] by (auto simp: returns_iff)
  have h: "home ?n v" using l b fs_txn.home_kept [OF x(4)] by (simp add: layout_ok_def)
  have u: "used d s (unat b) \<longleftrightarrow> (b_data (bufs v x) ! (?i div 8)) AND push_bit (?i mod 8) 1 \<noteq> 0"
    using fs_txn.data [OF x(2)] x(3) by (simp add: used_def bit_of_def bit_iff_and_push_bit_not_eq_0)
  have e: "bfree d b s = (if used d s (unat b) then log_put x (unmark ?i) v else Panic ''freeing free block'')"
    using x(1) u by (simp add: bfree_def Let_def log_put_def unmark_def [abs_def])
  show ?thesis unfolding e using fs_txn.wr [OF x(2) h, of "unmark ?i"] x(3) kept_trans [OF x(4)] by (auto elim!: returns_mono)
qed

subsection \<open>Inodes and their contents\<close>

text \<open>The block that holds block \<open>bn\<close> of a file, and the byte at an offset.\<close>

definition fblock :: "u32 \<Rightarrow> 'z kfs_scheme \<Rightarrow> nat \<Rightarrow> nat \<Rightarrow> u32" where
  "fblock d s ip bn = (if bn < NDIRECT then i_addrs (inodes s ip) bn else get32 (view d s (i_addrs (inodes s ip) NDIRECT)) (4 * (bn - NDIRECT)))"

definition fbyte :: "u32 \<Rightarrow> 'z kfs_scheme \<Rightarrow> nat \<Rightarrow> nat \<Rightarrow> u8" where
  "fbyte d s ip o' = view d s (fblock d s ip (o' div BSIZE)) ! (o' mod BSIZE)"

abbreviation (input) fsize :: "'z kfs_scheme \<Rightarrow> nat \<Rightarrow> nat" where "fsize s ip \<equiv> unat (i_size (inodes s ip))"

text \<open>Every block of the file is there: it has no holes.\<close>

definition mapped :: "u32 \<Rightarrow> 'z kfs_scheme \<Rightarrow> nat \<Rightarrow> bool" where
  "mapped d s ip \<longleftrightarrow> i_dev (inodes s ip) = d \<and> fsize s ip \<le> MAXFILE * BSIZE \<and> (\<forall>bn. bn * BSIZE < fsize s ip \<longrightarrow>
     fblock d s ip bn \<noteq> 0 \<and> (NDIRECT \<le> bn \<longrightarrow> i_addrs (inodes s ip) NDIRECT \<noteq> 0) \<and> length (view d s (fblock d s ip bn)) = BSIZE)"

lemma kept_file:
  assumes "view d t = view d s" and "kept s t"
  shows "fblock d t ip = fblock d s ip" and "fbyte d t ip = fbyte d s ip" and "mapped d t ip = mapped d s ip" and "inodes t = inodes s"
  using assms kfs_kept [OF assms(2)] by (auto simp: fblock_def fbyte_def mapped_def fun_eq_iff)

text \<open>Bytes of one block.\<close>

lemma block_slice:
  assumes m: "m = round_len left off" and x: "length (view d s (fblock d s ip (off div BSIZE))) = BSIZE"
  shows "take m (drop (off mod BSIZE) (view d s (fblock d s ip (off div BSIZE)))) = map (fbyte d s ip) [off..<off + m]"
proof (rule nth_equalityI)
  have mb: "m \<le> BSIZE - off mod BSIZE" using m by (simp add: round_len_def)
  show "length (take m (drop (off mod BSIZE) (view d s (fblock d s ip (off div BSIZE))))) = length (map (fbyte d s ip) [off..<off + m])"
    using mb x by simp
  fix i assume "i < length (take m (drop (off mod BSIZE) (view d s (fblock d s ip (off div BSIZE)))))"
  then have i: "i < m" "off mod BSIZE + i < BSIZE" using mb x by auto
  have "off + i = off div BSIZE * BSIZE + (off mod BSIZE + i)" by simp
  then have "(off + i) div BSIZE = off div BSIZE" "(off + i) mod BSIZE = off mod BSIZE + i"
    using i(2) by (metis add_left_cancel div_mult_self3 div_less add.right_neutral zero_neq_numeral, metis mod_mult_self3 mod_less i(2))
  then show "take m (drop (off mod BSIZE) (view d s (fblock d s ip (off div BSIZE)))) ! i = map (fbyte d s ip) [off..<off + m] ! i"
    using i mb x by (simp add: fbyte_def)
qed

text \<open>The functions that read inodes, on every provider of blocks.\<close>

locale fs_reading = block_reader "bread d" brelse "\<lambda>b s. b_data (bufs s b)" ok has "view d" kept
  for d and ok :: "'z kfs_scheme \<Rightarrow> bool" and has :: "nat \<Rightarrow> u32 \<Rightarrow> 'z kfs_scheme \<Rightarrow> bool" +
  assumes has_settle: "has b n s \<Longrightarrow> cpu_ok s \<and> has b n (settle s)"
begin

lemma bmap_mapped:
  assumes o: "ok s" and m: "mapped d s ip" and b: "bn * BSIZE < fsize s ip"
  shows "returns (bmap ip bn s) (\<lambda>a t. a = fblock d s ip bn \<and> ok t \<and> view d t = view d s \<and> kept s t)"
proof -
  have f: "fblock d s ip bn \<noteq> 0" "NDIRECT \<le> bn \<Longrightarrow> i_addrs (inodes s ip) NDIRECT \<noteq> 0" "i_dev (inodes s ip) = d" "bn < MAXFILE"
    using m b by (auto simp: mapped_def)
  have k: "kept s s" by (simp add: kept_def)
  show ?thesis
  proof (cases "bn < NDIRECT")
    case True
    then show ?thesis using f o k by (simp add: bmap_def fblock_def)
  next
    case False
    let ?n = "i_addrs (inodes s ip) NDIRECT"
    obtain x v where x: "bread d ?n s = Ret x v" "has x ?n v" "view d v = view d s" "kept s v" using rd [OF o, of ?n] by (auto simp: returns_iff)
    have "get32 (b_data (bufs v x)) (4 * (bn - NDIRECT)) = fblock d s ip bn" using data [OF x(2)] x(3) False by (simp add: fblock_def)
    moreover have "bn - NDIRECT < NINDIRECT" using f(4) by simp
    ultimately have "bmap ip bn s = andthen (brelse x v) (\<lambda>_ t. Ret (fblock d s ip bn) t)" using f False x(1) by (simp add: bmap_def Let_def)
    then show ?thesis using rel [OF x(2)] x(3) kept_trans [OF x(4)] by (auto elim!: returns_mono)
  qed
qed

lemma readi_loop_mapped:
  assumes "ok s" and "mapped d s ip" and "off + left \<le> fsize s ip"
  shows "returns (readi_loop ip KernDst off tot left out s)
    (\<lambda>r t. r = (int (tot + left), out @ map (fbyte d s ip) [off..<off + left]) \<and> ok t \<and> view d t = view d s \<and> kept s t)"
  using assms
proof (induction left arbitrary: s off tot out rule: less_induct)
  case (less left)
  show ?case
  proof (cases "left = 0")
    case True
    then show ?thesis using less.prems by (simp add: readi_loop.simps [of ip KernDst off tot 0] kept_def)
  next
    case False
    let ?m = "round_len left off" and ?a = "fblock d s ip (off div BSIZE)"
    have m: "0 < ?m" "?m \<le> left" using False by (simp_all add: round_len_pos) (simp add: round_len_def)
    have bn: "off div BSIZE * BSIZE < fsize s ip" using False less.prems(3) div_times_less_eq_dividend [of off BSIZE] by linarith
    obtain v where v: "bmap ip (off div BSIZE) s = Ret ?a v" "ok v" "view d v = view d s" "kept s v"
      using bmap_mapped [OF less.prems(1,2) bn] by (auto simp: returns_iff)
    have a: "?a \<noteq> 0" "length (view d s ?a) = BSIZE" "i_dev (inodes v ip) = d" using less.prems(2) bn kfs_kept [OF v(4)] by (auto simp: mapped_def)
    obtain x w where x: "bread d ?a v = Ret x w" "has x ?a w" "view d w = view d s" "kept v w" using rd [OF v(2), of ?a] v(3) by (auto simp: returns_iff)
    have bs: "take ?m (drop (off mod BSIZE) (b_data (bufs w x))) = map (fbyte d s ip) [off..<off + ?m]"
      using block_slice [OF refl a(2)] data [OF x(2)] x(3) by simp
    have c: "either_copyout KernDst bs w = Ret (0, bs) (settle w)" for bs using has_settle [OF x(2)] by (simp add: either_copyout_def)
    obtain u where u: "brelse x (settle w) = Ret () u" "ok u" "view d u = view d s" "kept w u"
      using rel [OF conjunct2 [OF has_settle [OF x(2)]]] x(3) by (auto simp: returns_iff kept_def)
    have k: "kept s u" using kept_trans [OF v(4) kept_trans [OF x(4) u(4)]] .
    note kf = kept_file [OF u(3) k]
    have "returns (readi_loop ip KernDst (off + ?m) (tot + ?m) (left - ?m) (out @ map (fbyte d s ip) [off..<off + ?m]) u)
      (\<lambda>r t. r = (int (tot + ?m + (left - ?m)), (out @ map (fbyte d s ip) [off..<off + ?m]) @ map (fbyte d u ip) [off + ?m..<off + ?m + (left - ?m)]) \<and>
        ok t \<and> view d t = view d u \<and> kept u t)"
      by (rule less.IH) (use m less.prems kf u(2) in auto)
    moreover have "[off..<off + left] = [off..<off + ?m] @ [off + ?m..<off + left]" using m upt_add_eq_append [of off "off + ?m" "left - ?m"] by simp
    ultimately have "returns (readi_loop ip KernDst (off + ?m) (tot + ?m) (left - ?m) (out @ map (fbyte d s ip) [off..<off + ?m]) u)
      (\<lambda>r t. r = (int (tot + left), out @ map (fbyte d s ip) [off..<off + left]) \<and> ok t \<and> view d t = view d s \<and> kept s t)"
      using m u(3) kf(2) kept_trans [OF k] by (auto elim!: returns_mono)
    then show ?thesis using False v(1) a x(1) bs c u(1) by (simp add: readi_loop.simps [of ip KernDst off tot left] Let_def)
  qed
qed

text \<open>\<open>readi\<close> into a kernel buffer.\<close>

lemma readi_mapped:
  assumes "ok s" and "mapped d s ip"
    and m: "m = (if off > i_size (inodes s ip) \<or> off + n < off then 0 else min (unat n) (fsize s ip - unat off))"
  shows "returns (readi ip KernDst off n s) (\<lambda>r t. r = (int m, map (fbyte d s ip) [unat off..<unat off + m]) \<and> ok t \<and> view d t = view d s \<and> kept s t)"
proof (cases "off > i_size (inodes s ip) \<or> off + n < off")
  case True
  then show ?thesis using assms by (auto simp: readi_def Let_def kept_def)
next
  case False
  let ?n = "if off + n > i_size (inodes s ip) then i_size (inodes s ip) - off else n"
  have "unat (off + n) = unat off + unat n" using False by (metis not_less unat_plus_simple)
  moreover have "unat (i_size (inodes s ip) - off) = fsize s ip - unat off" using False by (intro unat_sub) (simp add: not_less)
  moreover have o: "unat off \<le> fsize s ip" using False by (simp add: word_le_nat_alt not_less)
  ultimately have "unat ?n = m" using False m by (simp add: word_less_nat_alt)
  then have "readi ip KernDst off n s = readi_loop ip KernDst (unat off) 0 m [] s" using False by (simp add: readi_def Let_def)
  moreover have "unat off + m \<le> fsize s ip" using m o False by simp
  ultimately show ?thesis using readi_loop_mapped [OF assms(1,2), of "unat off" m 0 "[]"] by simp
qed

end

interpretation fsr: fs_reading d "rdr p d {}" "rdr_has p d" for p d
  by unfold_locales (auto simp: rdr_has_def rdr_def log_ok_def held_def bc_def quiet_def)

interpretation fsw: fs_reading d "tx p d {} k" "tx_has p d k" for p d k
  by unfold_locales (auto simp: tx_has_def tx_def rdr_has_def rdr_def log_ok_def held_def bc_def quiet_def)

text \<open>\<open>readi\<close> into a kernel buffer, on a file without holes, returns exactly the bytes of the file from the offset on, as many as
  asked for or as there are; it returns none when the offset is behind the end or the sum overflows. Direct and indirect blocks, block
  boundaries and the end of the file are all crossed correctly, and nothing is changed.\<close>

theorem readi_correct:
  assumes "rdr p d {} s" and "mapped d s ip"
    and "m = (if off > i_size (inodes s ip) \<or> off + n < off then 0 else min (unat n) (fsize s ip - unat off))"
  shows "returns (readi ip KernDst off n s) (\<lambda>r t. r = (int m, map (fbyte d s ip) [unat off..<unat off + m]) \<and>
     rdr p d {} t \<and> view d t = view d s \<and> inodes t = inodes s \<and> platter t = platter s)"
  by (rule returns_mono [OF fsr.readi_mapped [OF assms]]) (auto simp: kept_file(4), auto simp: kept_def)

subsection \<open>Directories\<close>

text \<open>A name as \<open>namecmp\<close> sees it: the bytes before a NUL, fourteen at most.\<close>

definition cname :: "nat \<Rightarrow> u8 list \<Rightarrow> u8 list" where
  "cname n p = takeWhile (\<lambda>c. c \<noteq> 0) (take n p)"

lemma cname_simps [simp]: "cname 0 p = []" "cname n [] = []" "cname (Suc n) (c # p) = (if c = 0 then [] else c # cname n p)"
  by (simp_all add: cname_def)

lemma strncmp_bytes_eq_0: "strncmp_bytes n p q = 0 \<longleftrightarrow> cname n p = cname n q"
proof (induction n arbitrary: p q)
  case (Suc n)
  then show ?case by (cases p; cases q) (auto simp: Let_def uint_0_iff dest: unsigned_word_eqI)
qed simp

lemma namecmp_eq: "namecmp p q = 0 \<longleftrightarrow> cname DIRSIZ p = cname DIRSIZ q"
  by (simp add: namecmp_def strncmp_bytes_eq_0)

text \<open>The entry number \<open>k\<close> of a directory, its inode number, and whether it is in use and has the name.\<close>

definition dent :: "u32 \<Rightarrow> 'z kfs_scheme \<Rightarrow> nat \<Rightarrow> nat \<Rightarrow> u8 list" where
  "dent d s dp k = map (fbyte d s dp) [16 * k..<16 * k + 16]"

definition dent_inum :: "u32 \<Rightarrow> 'z kfs_scheme \<Rightarrow> nat \<Rightarrow> nat \<Rightarrow> u16" where
  "dent_inum d s dp k = get16 (dent d s dp k) 0"

definition dent_is :: "u32 \<Rightarrow> 'z kfs_scheme \<Rightarrow> nat \<Rightarrow> u8 list \<Rightarrow> nat \<Rightarrow> bool" where
  "dent_is d s dp nm k \<longleftrightarrow> dent_inum d s dp k \<noteq> 0 \<and> cname DIRSIZ nm = cname DIRSIZ (drop 2 (dent d s dp k))"

definition is_dir :: "u32 \<Rightarrow> 'z kfs_scheme \<Rightarrow> nat \<Rightarrow> bool" where
  "is_dir d s dp \<longleftrightarrow> mapped d s dp \<and> i_type (inodes s dp) = T_DIR \<and> fsize s dp mod 16 = 0"

lemma kept_dir:
  assumes "view d t = view d s" and "kept s t"
  shows "dent d t dp = dent d s dp" and "dent_inum d t dp = dent_inum d s dp" and "dent_is d t dp nm = dent_is d s dp nm" and "is_dir d t dp = is_dir d s dp"
proof -
  note k = kept_file [OF assms]
  show d: "dent d t dp = dent d s dp" by (rule ext) (simp add: dent_def k(2))
  show i: "dent_inum d t dp = dent_inum d s dp" by (rule ext) (simp add: dent_inum_def d)
  show "dent_is d t dp nm = dent_is d s dp nm" by (rule ext) (simp add: dent_is_def i d)
  show "is_dir d t dp = is_dir d s dp" by (simp add: is_dir_def k(3,4))
qed

text \<open>\<open>iget\<close>: the entry of the inode table it uses, and what it does to it.\<close>

definition iget_slot :: "u32 \<Rightarrow> u32 \<Rightarrow> 'z kfs_scheme \<Rightarrow> nat option" where
  "iget_slot d inum s =
     (case find (\<lambda>i. i_ref (inodes s i) > 0 \<and> i_dev (inodes s i) = d \<and> i_inum (inodes s i) = inum) [0..<NINODE] of
        Some i \<Rightarrow> Some i
      | None \<Rightarrow> find (\<lambda>i. i_ref (inodes s i) = 0) [0..<NINODE])"

definition iget_inodes :: "u32 \<Rightarrow> u32 \<Rightarrow> nat \<Rightarrow> (nat \<Rightarrow> inode) \<Rightarrow> nat \<Rightarrow> inode" where
  "iget_inodes d inum i I = I(i := (if i_ref (I i) > 0 then i_ref_update (\<lambda>n. n + 1) (I i)
     else (I i)\<lparr>i_dev := d, i_inum := inum, i_ref := 1, i_valid := False\<rparr>))"

interpretation inodes_upd: machine_upd "inodes_update f" for f by unfold_locales simp_all
interpretation inodes_get: machine_get inodes by unfold_locales simp_all
interpretation fs_sb_get: machine_get fs_sb by unfold_locales simp_all

lemma iget_eq:
  assumes "cpu_ok s" and "lock_free ItableLock s" and i: "iget_slot d inum s = Some i"
  shows "iget d inum s = Ret i ((settle s)\<lparr>inodes := iget_inodes d inum i (inodes s)\<rparr>)"
proof (cases "find (\<lambda>i. i_ref (inodes s i) > 0 \<and> i_dev (inodes s i) = d \<and> i_inum (inodes s i) = inum) [0..<NINODE]")
  case None
  then have f: "find (\<lambda>i. i_ref (inodes s i) = 0) [0..<NINODE] = Some i" using i by (simp add: iget_slot_def)
  then show ?thesis using assms None find_SomeD [OF f] by (simp add: iget_def upd_inode_def iget_inodes_def)
next
  case (Some j)
  then show ?thesis using assms find_SomeD [OF Some] by (simp add: iget_def upd_inode_def iget_inodes_def iget_slot_def)
qed

lemma iget_slot_kept:
  assumes "kept s t"
  shows "iget_slot d inum t = iget_slot d inum s"
proof -
  have "inodes t = inodes s" using kfs_kept [OF assms] by simp
  then show ?thesis by (simp only: iget_slot_def)
qed

locale fs_lookup = fs_reading +
  assumes ok_iget: "ok s \<Longrightarrow> cpu_ok s \<and> lock_free ItableLock s \<and> ok ((settle s)\<lparr>inodes := I\<rparr>)"
begin

lemma read_dent:
  assumes "ok s" and dir: "is_dir d s dp" and k: "16 * k < fsize s dp"
  shows "returns (readi dp KernDst (of_nat (16 * k)) 16 s) (\<lambda>r t. r = (16, dent d s dp k) \<and> ok t \<and> view d t = view d s \<and> kept s t)"
proof -
  have m: "mapped d s dp" and sz: "fsize s dp mod 16 = 0" and max: "fsize s dp \<le> MAXFILE * BSIZE" using dir by (auto simp: is_dir_def mapped_def)
  obtain q where q: "fsize s dp = 16 * q" using sz by (metis mod_eq_0_iff_dvd dvdE)
  then have le: "16 * k + 16 \<le> fsize s dp" using k by simp
  have "unat (of_nat x :: u32) = x" if "x < 4294967296" for x using that by (simp add: unat_of_nat take_bit_nat_eq_self)
  from this [of "16 * k"] have u: "unat (of_nat (16 * k) :: u32) = 16 * k" using le max by simp
  have "unat (of_nat (16 * k) + 16 :: u32) = 16 * k + 16" using le max u by (subst unat_add_lem [THEN iffD1]) simp_all
  then have "\<not> of_nat (16 * k) + 16 < (of_nat (16 * k) :: u32)" "\<not> of_nat (16 * k) > i_size (inodes s dp)"
    using u le by (simp_all add: word_less_nat_alt)
  then have "returns (readi dp KernDst (of_nat (16 * k)) 16 s)
      (\<lambda>r t. r = (int (min 16 (fsize s dp - 16 * k)), map (fbyte d s dp) [16 * k..<16 * k + min 16 (fsize s dp - 16 * k)]) \<and> ok t \<and> view d t = view d s \<and> kept s t)"
    using readi_mapped [OF assms(1) m refl, of "of_nat (16 * k)" 16] u by simp
  moreover have "min 16 (fsize s dp - 16 * k) = 16" using le by simp
  ultimately show ?thesis by (simp add: dent_def)
qed

text \<open>The body of the loop of \<open>dirlookup\<close>.\<close>

definition look_at :: "nat \<Rightarrow> u8 list \<Rightarrow> nat \<Rightarrow> 'a kfs_scheme \<Rightarrow> ((nat \<times> u32) option, 'a kfs_scheme) outcome" where
  "look_at dp nm = (\<lambda>off s.
     andthen (readi dp KernDst (of_nat off) 16 s) (\<lambda>(r, de) s.
       if r \<noteq> 16 then Panic ''dirlookup read''
       else if get16 de 0 = 0 then Ret None s
       else if namecmp nm (drop 2 de) = 0 then
         andthen (iget (i_dev (inodes s dp)) (ucast (get16 de 0)) s) (\<lambda>ip s. Ret (Some (ip, of_nat off)) s)
       else Ret None s))"

lemma look_at_no:
  assumes "ok s" and "is_dir d s dp" and "16 * k < fsize s dp" and "\<not> dent_is d s dp nm k"
  shows "returns (look_at dp nm (16 * k) s) (\<lambda>r t. r = None \<and> ok t \<and> view d t = view d s \<and> kept s t)"
  using read_dent [OF assms(1-3)] assms(4) by (auto simp: look_at_def dent_is_def dent_inum_def namecmp_eq elim!: returns_mono)

lemma look_at_yes:
  assumes "ok s" and "is_dir d s dp" and "16 * k < fsize s dp" and "dent_is d s dp nm k" and "iget_slot d (ucast (dent_inum d s dp k)) s = Some i"
  shows "returns (look_at dp nm (16 * k) s) (\<lambda>r t. r = Some (i, of_nat (16 * k)) \<and> ok t \<and> view d t = view d s \<and>
    inodes t = iget_inodes d (ucast (dent_inum d s dp k)) i (inodes s) \<and> fs_sb t = fs_sb s)"
proof -
  obtain v where v: "readi dp KernDst (of_nat (16 * k)) 16 s = Ret (16, dent d s dp k) v" "ok v" "view d v = view d s" "kept s v"
    using read_dent [OF assms(1-3)] by (auto simp: returns_iff)
  have i: "iget_slot d (ucast (dent_inum d s dp k)) v = Some i" using assms(5) iget_slot_kept [OF v(4)] by simp
  have "i_dev (inodes v dp) = d" using assms(2) kfs_kept [OF v(4)] by (simp add: is_dir_def mapped_def)
  moreover have "ok ((settle v)\<lparr>inodes := I\<rparr>)" "view d ((settle v)\<lparr>inodes := I\<rparr>) = view d v" for I
    using ok_iget [OF v(2)] by (simp_all add: view_def)
  ultimately show ?thesis
    using v assms(4) iget_eq [OF _ _ i] ok_iget [OF v(2)] kfs_kept [OF v(4)] by (simp add: look_at_def dent_is_def dent_inum_def namecmp_eq)
qed

lemma dirlookup_loop:
  assumes "ok s" and "is_dir d s dp"
  shows "dirlookup dp nm s = for_find (look_at dp nm) (map (\<lambda>k. 16 * k) [0..<fsize s dp div 16]) s"
proof -
  obtain q where "fsize s dp = 16 * q" using assms(2) by (metis is_dir_def mod_eq_0_iff_dvd dvdE)
  then show ?thesis using assms(2) by (simp add: dirlookup_def dir_offs_def look_at_def is_dir_def)
qed

text \<open>While the loop runs, nothing changes.\<close>

abbreviation (input) reading :: "'a kfs_scheme \<Rightarrow> 'a kfs_scheme \<Rightarrow> bool" where
  "reading s t \<equiv> ok t \<and> view d t = view d s \<and> kept s t"

lemma scan_none:
  assumes "ok s" and dir: "is_dir d s dp" and no: "\<And>k. k < fsize s dp div 16 \<Longrightarrow> \<not> dent_is d s dp nm k"
  shows "returns (dirlookup dp nm s) (\<lambda>r t. r = None \<and> reading s t)"
  unfolding dirlookup_loop [OF assms(1,2)] for_find_map
proof (rule for_find_none)
  show "reading s s" using assms(1) by (simp add: kept_def)
  fix j t assume j: "j \<in> set [0..<fsize s dp div 16]" and t: "reading s t"
  have "returns (look_at dp nm (16 * j) t) (\<lambda>r u. r = None \<and> reading t u)"
    by (rule look_at_no) (use t j dir no kept_dir [of d t s] kfs_kept [of s t] in auto)
  then show "returns (look_at dp nm (16 * j) t) (\<lambda>r u. r = None \<and> reading s u)" using t kept_trans [of s t] by (auto elim!: returns_mono)
qed

lemma scan_found:
  assumes "ok s" and dir: "is_dir d s dp" and k: "k < fsize s dp div 16" "dent_is d s dp nm k" and no: "\<And>i. i < k \<Longrightarrow> \<not> dent_is d s dp nm i"
    and i: "iget_slot d (ucast (dent_inum d s dp k)) s = Some i"
  shows "returns (dirlookup dp nm s) (\<lambda>r t. r = Some (i, of_nat (16 * k)) \<and> (ok t \<and> view d t = view d s \<and>
    inodes t = iget_inodes d (ucast (dent_inum d s dp k)) i (inodes s) \<and> fs_sb t = fs_sb s))"
  unfolding dirlookup_loop [OF assms(1,2)] for_find_map
proof (rule for_find_first [where I = "reading s" and k = k])
  show "reading s s" using assms(1) by (simp add: kept_def)
  fix t assume t: "reading s t"
  note kd = kept_dir [of d t s] and kf = kfs_kept [of s t]
  have "returns (look_at dp nm (16 * k) t) (\<lambda>r u. r = Some (i, of_nat (16 * k)) \<and> ok u \<and> view d u = view d t \<and>
      inodes u = iget_inodes d (ucast (dent_inum d t dp k)) i (inodes t) \<and> fs_sb u = fs_sb t)"
    by (rule look_at_yes) (use t k dir kd kf iget_slot_kept [of s t] i in auto)
  then show "returns (look_at dp nm (16 * k) t) (\<lambda>r u. r = Some (i, of_nat (16 * k)) \<and> (ok u \<and> view d u = view d s \<and>
      inodes u = iget_inodes d (ucast (dent_inum d s dp k)) i (inodes s) \<and> fs_sb u = fs_sb s))" using t kd kf by simp
  fix j assume j: "j < k"
  have "returns (look_at dp nm (16 * j) t) (\<lambda>r u. r = None \<and> reading t u)"
    by (rule look_at_no) (use t j k dir no kd kf in auto)
  then show "returns (look_at dp nm (16 * j) t) (\<lambda>r u. r = None \<and> reading s u)" using t kept_trans [of s t] by (auto elim!: returns_mono)
qed (use k in auto)

end

lemma rdr_inodes [simp]: "rdr p d R (s\<lparr>inodes := I\<rparr>) = rdr p d R s" for s :: "'z kfs_scheme"
  by (simp add: rdr_def log_ok_def held_def bc_def quiet_def)

lemma rdr_settle [simp]: "rdr p d R (settle s) = rdr p d R s"
  by (simp add: rdr_def log_ok_def)

lemma rdr_quiet: "rdr p d R s \<Longrightarrow> quiet p s"
  by (auto simp: rdr_def log_ok_def held_def bc_def)

interpretation fsl: fs_lookup d "rdr p d {}" "rdr_has p d" for p d
  by unfold_locales (auto dest: rdr_quiet simp: quietD)

interpretation fswl: fs_lookup d "tx p d {} k" "tx_has p d k" for p d k
  by unfold_locales (auto dest: rdr_quiet simp: quietD tx_def)

text \<open>\<open>dirlookup\<close> finds the first entry of the directory that is in use and has the name, compared as C strings of at most
  fourteen bytes, and returns the entry of the inode table for its inode number, with one more reference, and the offset of the entry. If no
  entry has the name it returns 0 and changes nothing.\<close>

theorem dirlookup_correct:
  assumes "rdr p d {} s" and "is_dir d s dp"
  shows "case find (dent_is d s dp nm) [0..<fsize s dp div 16] of
      None \<Rightarrow> returns (dirlookup dp nm s) (\<lambda>r t. r = None \<and> rdr p d {} t \<and> view d t = view d s \<and> inodes t = inodes s)
    | Some k \<Rightarrow> (\<forall>i. iget_slot d (ucast (dent_inum d s dp k)) s = Some i \<longrightarrow>
        returns (dirlookup dp nm s) (\<lambda>r t. r = Some (i, of_nat (16 * k)) \<and> rdr p d {} t \<and> view d t = view d s \<and>
          inodes t = iget_inodes d (ucast (dent_inum d s dp k)) i (inodes s)))"
proof (cases "find (dent_is d s dp nm) [0..<fsize s dp div 16]")
  case None
  then have n: "\<not> dent_is d s dp nm k" if "k < fsize s dp div 16" for k using that by (simp add: find_None_iff)
  have "returns (dirlookup dp nm s) (\<lambda>r t. r = None \<and> rdr p d {} t \<and> view d t = view d s \<and> kept s t)" by (rule fsl.scan_none [OF assms n])
  then show ?thesis using None kfs_kept [of s] by (auto elim!: returns_mono)
next
  case (Some k)
  then have k: "k < fsize s dp div 16" "dent_is d s dp nm k" "\<And>i. i < k \<Longrightarrow> \<not> dent_is d s dp nm i" by (auto simp: find_Some_iff)
  from fsl.scan_found [OF assms k] show ?thesis using Some by (auto elim!: returns_mono)
qed

subsection \<open>Writing files\<close>

text \<open>The blocks of a file are in range, outside the log, distinct, and distinct from the indirect block.\<close>

definition file_blocks :: "u32 \<Rightarrow> 'z kfs_scheme \<Rightarrow> nat \<Rightarrow> nat set" where
  "file_blocks d s ip = {bn. bn * BSIZE < fsize s ip}"

definition file_ok :: "u32 \<Rightarrow> 'z kfs_scheme \<Rightarrow> nat \<Rightarrow> bool" where
  "file_ok d s ip \<longleftrightarrow> mapped d s ip \<and> inj_on (fblock d s ip) (file_blocks d s ip) \<and>
     (\<forall>bn\<in>file_blocks d s ip. home (fblock d s ip bn) s \<and> fblock d s ip bn \<noteq> i_addrs (inodes s ip) NDIRECT)"

text \<open>\<open>t\<close> is \<open>s\<close> with the bytes of the file from \<open>off\<close> on replaced, and nothing else in the blocks of the file.\<close>

definition file_write :: "u32 \<Rightarrow> nat \<Rightarrow> nat \<Rightarrow> u8 list \<Rightarrow> 'z kfs_scheme \<Rightarrow> 'z kfs_scheme \<Rightarrow> bool" where
  "file_write d ip off bs s t \<longleftrightarrow> kept s t \<and>
     (\<forall>n. n \<notin> fblock d s ip ` file_blocks d s ip \<longrightarrow> view d t n = view d s n) \<and>
     (\<forall>n. length (view d t n) = length (view d s n)) \<and>
     (\<forall>i<fsize s ip. fbyte d t ip i = (if off \<le> i \<and> i < off + length bs then bs ! (i - off) else fbyte d s ip i))"

lemma file_write_blocks:
  assumes w: "file_write d ip off bs s t" and f: "file_ok d s ip"
  shows "fblock d t ip bn = fblock d s ip bn" and "file_ok d t ip" and "inodes t = inodes s" and "file_blocks d t ip = file_blocks d s ip"
proof -
  have k: "kept s t" using w by (simp add: file_write_def)
  note kk = kfs_kept [OF k]
  show i: "inodes t = inodes s" using kk by simp
  have "i_addrs (inodes s ip) NDIRECT \<notin> fblock d s ip ` file_blocks d s ip" using f by (auto simp: file_ok_def)
  then have "view d t (i_addrs (inodes s ip) NDIRECT) = view d s (i_addrs (inodes s ip) NDIRECT)" using w by (simp add: file_write_def)
  then show b: "fblock d t ip bn = fblock d s ip bn" for bn by (simp add: fblock_def i)
  show fb: "file_blocks d t ip = file_blocks d s ip" by (simp add: file_blocks_def i)
  have "fblock d t ip = fblock d s ip" using b by (simp add: fun_eq_iff)
  then show "file_ok d t ip" using f w fs_txn.home_kept [OF k] by (simp add: file_ok_def mapped_def fb i file_write_def)
qed

lemma file_write_trans:
  assumes w: "file_write d ip off bs s t" and w': "file_write d ip (off + length bs) cs t u" and f: "file_ok d s ip"
  shows "file_write d ip off (bs @ cs) s u"
proof -
  note b = file_write_blocks [OF w f]
  have "kept s u" using kept_trans w w' by (auto simp: file_write_def)
  moreover have "fblock d t ip = fblock d s ip" using b(1) by (simp add: fun_eq_iff)
  ultimately show ?thesis using w w' b(3,4) unfolding file_write_def by (auto simp: nth_append)
qed

text \<open>One round of the loop, in block \<open>bn\<close>.\<close>

lemma write_at_nth: "off + length bs \<le> length x \<Longrightarrow> i < length x \<Longrightarrow> write_at off bs x ! i = (if off \<le> i \<and> i < off + length bs then bs ! (i - off) else x ! i)"
  by (auto simp: write_at_def nth_append min_def)

lemma length_write_at: "off + length bs \<le> length x \<Longrightarrow> length (write_at off bs x) = length x"
  by (simp add: write_at_def)

lemma write_block:
  assumes f: "file_ok d s ip" and bn: "off div BSIZE \<in> file_blocks d s ip" and l: "off mod BSIZE + length bs \<le> BSIZE" and k: "kept s t"
    and v: "view d t = (view d s)(fblock d s ip (off div BSIZE) := write_at (off mod BSIZE) bs (view d s (fblock d s ip (off div BSIZE))))"
  shows "file_write d ip off bs s t"
proof -
  let ?n = "fblock d s ip (off div BSIZE)"
  have len: "length (view d s (fblock d s ip bn)) = BSIZE" if "bn \<in> file_blocks d s ip" for bn
    using f that by (auto simp: file_ok_def mapped_def file_blocks_def)
  have "?n \<noteq> i_addrs (inodes s ip) NDIRECT" using f bn by (auto simp: file_ok_def)
  then have b: "fblock d t ip = fblock d s ip" using v kfs_kept [OF k] by (simp add: fblock_def fun_eq_iff)
  have "fbyte d t ip i = (if off \<le> i \<and> i < off + length bs then bs ! (i - off) else fbyte d s ip i)" if i: "i < fsize s ip" for i
  proof -
    have ib: "i div BSIZE \<in> file_blocks d s ip" using i div_times_less_eq_dividend [of i BSIZE] by (simp add: file_blocks_def)
    show ?thesis
    proof (cases "i div BSIZE = off div BSIZE")
      case True
      have "i = off div BSIZE * BSIZE + i mod BSIZE" "off = off div BSIZE * BSIZE + off mod BSIZE" using True by (metis div_mult_mod_eq)+
      then have "off \<le> i \<longleftrightarrow> off mod BSIZE \<le> i mod BSIZE" "i < off + length bs \<longleftrightarrow> i mod BSIZE < off mod BSIZE + length bs" "i - off = i mod BSIZE - off mod BSIZE"
        by linarith+
      moreover have "write_at (off mod BSIZE) bs (view d s ?n) ! (i mod BSIZE) =
          (if off mod BSIZE \<le> i mod BSIZE \<and> i mod BSIZE < off mod BSIZE + length bs then bs ! (i mod BSIZE - off mod BSIZE) else view d s ?n ! (i mod BSIZE))"
        by (rule write_at_nth) (use len [OF bn] l in simp_all)
      ultimately show ?thesis using b v True by (simp add: fbyte_def)
    next
      case False
      then have "fblock d s ip (i div BSIZE) \<noteq> ?n" using f ib bn by (auto simp: file_ok_def inj_on_def)
      moreover have "\<not> (off \<le> i \<and> i < off + length bs)"
      proof
        assume o: "off \<le> i \<and> i < off + length bs"
        have "off div BSIZE * BSIZE \<le> i" using o div_times_less_eq_dividend [of off BSIZE] by linarith
        moreover have "i < off div BSIZE * BSIZE + BSIZE" using o l div_mult_mod_eq [of off BSIZE] by linarith
        ultimately have "i div BSIZE = off div BSIZE" by (simp add: div_nat_eqI)
        then show False using False by simp
      qed
      ultimately show ?thesis using b v by (auto simp: fbyte_def)
    qed
  qed
  then show ?thesis using v k bn len [OF bn] l unfolding file_write_def by (auto simp: length_write_at)
qed

text \<open>The number of rounds, and of blocks to log, for \<open>left\<close> bytes from \<open>off\<close> on.\<close>

definition rounds :: "nat \<Rightarrow> nat \<Rightarrow> nat" where
  "rounds off left = (if left = 0 then 0 else (off mod BSIZE + left + (BSIZE - 1)) div BSIZE)"

lemma rounds_step:
  assumes "0 < left" and m: "m = round_len left off"
  shows "rounds off left = Suc (rounds (off + m) (left - m))"
proof (cases "left \<le> BSIZE - off mod BSIZE")
  case True
  then have "m = left" using m by (simp add: round_len_def)
  moreover have "(off mod BSIZE + left + (BSIZE - 1)) div BSIZE = 1"
    by (rule div_nat_eqI) (use True assms(1) mod_less_divisor [of BSIZE off] in simp_all)
  ultimately show ?thesis using assms(1) by (simp add: rounds_def)
next
  case False
  then have mb: "m = BSIZE - off mod BSIZE" "m < left" using m by (simp_all add: round_len_def)
  have "(off + m) mod BSIZE = 0" using mb(1) div_mult_mod_eq [of off BSIZE] mod_less_divisor [of BSIZE off]
    by (metis add_diff_inverse_nat le_imp_less_Suc less_imp_le mod_add_left_eq mod_self not_less zero_less_numeral)
  moreover have "off mod BSIZE + left + (BSIZE - 1) = (left - m + (BSIZE - 1)) + BSIZE" using mb mod_less_divisor [of BSIZE off] by simp
  ultimately show ?thesis using mb(2) by (simp add: rounds_def)
qed

lemma writei_loop_spec:
  assumes "tx p d {} (rounds off left + k) s" and "file_ok d s ip" and "off + left \<le> fsize s ip" and "left \<le> length src"
  shows "returns (writei_loop ip (KernSrc src) off tot left s)
    (\<lambda>r t. r = (tot + left, off + left) \<and> tx p d {} k t \<and> file_write d ip off (take left src) s t)"
  using assms
proof (induction left arbitrary: s off tot src rule: less_induct)
  case (less left)
  show ?case
  proof (cases "left = 0")
    case True
    then show ?thesis using less.prems by (auto simp: writei_loop.simps [of ip _ off tot 0] rounds_def file_write_def kept_def)
  next
    case False
    let ?m = "round_len left off" and ?a = "fblock d s ip (off div BSIZE)" and ?bs = "take (round_len left off) src"
    have m: "0 < ?m" "?m \<le> left" "off mod BSIZE + ?m \<le> BSIZE" using False by (simp_all add: round_len_pos) (simp_all add: round_len_def)
    then have lb: "length ?bs = ?m" using less.prems(4) by simp
    have bn: "off div BSIZE \<in> file_blocks d s ip"
      using False less.prems(3) div_times_less_eq_dividend [of off BSIZE] by (simp add: file_blocks_def)
    have t: "tx p d {} (Suc (rounds (off + ?m) (left - ?m) + k)) s" using less.prems(1) rounds_step [of left ?m off] False by simp
    have mp: "mapped d s ip" using less.prems(2) by (simp add: file_ok_def)
    obtain v where v: "bmap ip (off div BSIZE) s = Ret ?a v" "tx p d {} (Suc (rounds (off + ?m) (left - ?m) + k)) v" "view d v = view d s" "kept s v"
      using fsw.bmap_mapped [OF t mp] bn by (auto simp: returns_iff file_blocks_def)
    have a: "?a \<noteq> 0" "i_dev (inodes v ip) = d" "home ?a s" using mp bn less.prems(2) kfs_kept [OF v(4)] by (auto simp: mapped_def file_blocks_def file_ok_def)
    obtain x w where x: "bread d ?a v = Ret x w" "tx_has p d (Suc (rounds (off + ?m) (left - ?m) + k)) x ?a w" "view d w = view d s" "kept v w"
      using fs_txn.rd [OF v(2), of ?a] v(3) by (auto simp: returns_iff)
    have c: "either_copyin (KernSrc src) ?m w = Ret (0, ?bs) (settle w)" and h: "tx_has p d (Suc (rounds (off + ?m) (left - ?m) + k)) x ?a (settle w)"
      using fsw.has_settle [OF x(2)] by (simp_all add: either_copyin_def)
    have "kept w (settle w)" by (simp add: kept_def)
    then have kw: "kept s (settle w)" using v(4) x(4) kept_trans by metis
    have hm: "home ?a (settle w)" using a(3) fs_txn.home_kept [OF kw] by simp
    obtain u where u: "log_put x (write_at (off mod BSIZE) ?bs) (settle w) = Ret () u" "tx p d {} (rounds (off + ?m) (left - ?m) + k) u"
      "view d u = (view d s)(?a := write_at (off mod BSIZE) ?bs (view d s ?a))" "kept (settle w) u"
      using fs_txn.wr [OF h hm, of "write_at (off mod BSIZE) ?bs"] x(3) by (auto simp: returns_iff)
    have fw: "file_write d ip off ?bs s u"
      by (rule write_block [OF less.prems(2) bn]) (use m lb u(3) kept_trans [OF kw u(4)] in auto)
    note fb = file_write_blocks [OF fw less.prems(2)]
    have "returns (writei_loop ip (KernSrc (drop ?m src)) (off + ?m) (tot + ?m) (left - ?m) u)
        (\<lambda>r t. r = (tot + ?m + (left - ?m), off + ?m + (left - ?m)) \<and> tx p d {} k t \<and> file_write d ip (off + ?m) (take (left - ?m) (drop ?m src)) u t)"
      by (rule less.IH) (use m u(2) fb less.prems(3,4) in auto)
    moreover have "take left src = ?bs @ take (left - ?m) (drop ?m src)" using m by (metis append_take_drop_id le_add_diff_inverse take_add)
    ultimately have "returns (writei_loop ip (KernSrc (drop ?m src)) (off + ?m) (tot + ?m) (left - ?m) u)
        (\<lambda>r t. r = (tot + left, off + left) \<and> tx p d {} k t \<and> file_write d ip off (take left src) s t)"
      using m lb file_write_trans [OF fw _ less.prems(2)] by (auto elim!: returns_mono)
    then have "returns (andthen (log_put x (write_at (off mod BSIZE) ?bs) (settle w)) (\<lambda>_ s. writei_loop ip (KernSrc (drop ?m src)) (off + ?m) (tot + ?m) (left - ?m) s))
        (\<lambda>r t. r = (tot + left, off + left) \<and> tx p d {} k t \<and> file_write d ip off (take left src) s t)" using u(1) by simp
    then show ?thesis using False v(1) a x(1) c by (simp add: writei_loop.simps [of ip _ off tot left] Let_def log_put_def)
  qed
qed

lemma iupdate_spec:
  assumes t: "tx p d {} (Suc k) s" and d: "i_dev (inodes s ip) = d" and h: "home (IBLOCK (i_inum (inodes s ip)) (fs_sb s)) s"
  shows "returns (iupdate ip s) (\<lambda>_ t. tx p d {} k t \<and> kept s t \<and> view d t = (view d s)(IBLOCK (i_inum (inodes s ip)) (fs_sb s) :=
     put_dinode (dinode_off (i_inum (inodes s ip))) (inodes s ip) (view d s (IBLOCK (i_inum (inodes s ip)) (fs_sb s)))))"
proof -
  let ?n = "IBLOCK (i_inum (inodes s ip)) (fs_sb s)" and ?f = "put_dinode (dinode_off (i_inum (inodes s ip))) (inodes s ip)"
  obtain x v where x: "bread d ?n s = Ret x v" "tx_has p d (Suc k) x ?n v" "view d v = view d s" "kept s v"
    using fs_txn.rd [OF t, of ?n] by (auto simp: returns_iff)
  have "home ?n v" using h fs_txn.home_kept [OF x(4)] by simp
  from fs_txn.wr [OF x(2) this, of ?f] have "returns (log_put x ?f v) (\<lambda>_ t. tx p d {} k t \<and> kept s t \<and> view d t = (view d s)(?n := ?f (view d s ?n)))"
    using x(3) kept_trans [OF x(4)] by (auto elim!: returns_mono)
  then show ?thesis using x(1) d kfs_kept [OF x(4)] by (simp add: iupdate_def Let_def log_put_def)
qed

text \<open>The inode of the file is on a block of its own.\<close>

definition inode_apart :: "u32 \<Rightarrow> 'z kfs_scheme \<Rightarrow> nat \<Rightarrow> bool" where
  "inode_apart d s ip \<longleftrightarrow> home (IBLOCK (i_inum (inodes s ip)) (fs_sb s)) s \<and>
     IBLOCK (i_inum (inodes s ip)) (fs_sb s) \<notin> insert (i_addrs (inodes s ip) NDIRECT) (fblock d s ip ` file_blocks d s ip)"

lemma length_put16 [simp]: "length (put16 off v bs) = length bs"
  by (simp add: put16_def)

lemma length_put_addrs [simp]: "length (put_addrs off n A d) = length d"
  by (induction n) simp_all

lemma length_put_dinode [simp]: "length (put_dinode off x d) = length d"
  by (simp add: put_dinode_def)

lemma apart_same:
  assumes f: "file_ok d s ip" and n: "n \<notin> insert (i_addrs (inodes s ip) NDIRECT) (fblock d s ip ` file_blocks d s ip)"
    and v: "view d t = (view d s)(n := x)" and k: "kept s t" and l: "length x = length (view d s n)"
  shows "file_ok d t ip" and "\<And>i. i < fsize s ip \<Longrightarrow> fbyte d t ip i = fbyte d s ip i" and "inodes t = inodes s"
proof -
  show i: "inodes t = inodes s" using kfs_kept [OF k] by simp
  have b: "fblock d t ip = fblock d s ip" using v n i by (auto simp: fblock_def fun_eq_iff)
  have fb: "file_blocks d t ip = file_blocks d s ip" by (simp add: file_blocks_def i)
  show "file_ok d t ip" using f b fb i v l fs_txn.home_kept [OF k] by (auto simp: file_ok_def mapped_def)
  show "fbyte d t ip j = fbyte d s ip j" if "j < fsize s ip" for j
  proof -
    have "j div BSIZE \<in> file_blocks d s ip" using that div_times_less_eq_dividend [of j BSIZE] by (simp add: file_blocks_def)
    then have "fblock d s ip (j div BSIZE) \<noteq> n" using n by auto
    then show ?thesis using b v by (simp add: fbyte_def)
  qed
qed

lemma writei_spec:
  assumes t: "tx p d {} (rounds (unat off) (length bs) + Suc k) s" and f: "file_ok d s ip" and a: "inode_apart d s ip"
    and l: "unat off + length bs \<le> fsize s ip"
  shows "returns (writei ip (KernSrc bs) off (of_nat (length bs)) s) (\<lambda>r t. r = int (length bs) \<and> tx p d {} k t \<and> file_ok d t ip \<and> inodes t = inodes s \<and>
    (\<forall>i<fsize s ip. fbyte d t ip i = (if unat off \<le> i \<and> i < unat off + length bs then bs ! (i - unat off) else fbyte d s ip i)))"
proof -
  have max: "fsize s ip \<le> MAXFILE * BSIZE" "i_dev (inodes s ip) = d" using f by (auto simp: file_ok_def mapped_def)
  have n: "unat (of_nat (length bs) :: u32) = length bs" using l max by (simp add: unat_of_nat take_bit_nat_eq_self)
  have s: "unat (off + of_nat (length bs)) = unat off + length bs" using l max n by (subst unat_add_lem [THEN iffD1]) simp_all
  have g: "\<not> off > i_size (inodes s ip)" "\<not> off + of_nat (length bs) < off" "\<not> unat (off + of_nat (length bs)) > MAXFILE * BSIZE"
    using l max s by (simp_all add: word_less_nat_alt)
  obtain u where u: "writei_loop ip (KernSrc bs) (unat off) 0 (length bs) s = Ret (length bs, unat off + length bs) u" "tx p d {} (Suc k) u"
    "file_write d ip (unat off) bs s u"
    using writei_loop_spec [OF t f l, of bs 0] by (auto simp: returns_iff)
  note fb = file_write_blocks [OF u(3) f]
  have ku: "kept s u" using u(3) by (simp add: file_write_def)
  let ?n = "IBLOCK (i_inum (inodes s ip)) (fs_sb s)"
  have h: "home (IBLOCK (i_inum (inodes u ip)) (fs_sb u)) u" using a fb(3) kfs_kept [OF ku] fs_txn.home_kept [OF ku] by (simp add: inode_apart_def)
  obtain v where v: "iupdate ip u = Ret () v" "tx p d {} k v" "kept u v" "view d v = (view d u)(?n := put_dinode (dinode_off (i_inum (inodes s ip))) (inodes s ip) (view d u ?n))"
    using iupdate_spec [OF u(2) _ h] max(2) fb(3) kfs_kept [OF ku] by (auto simp: returns_iff)
  have "fblock d u ip = fblock d s ip" using fb(1) by (simp add: fun_eq_iff)
  then have n': "?n \<notin> insert (i_addrs (inodes u ip) NDIRECT) (fblock d u ip ` file_blocks d u ip)" using a fb(3,4) by (simp add: inode_apart_def)
  note ap = apart_same [OF fb(2) n' v(4,3)]
  have "writei ip (KernSrc bs) off (of_nat (length bs)) s = Ret (int (length bs)) v"
    using g u(1) n l fb(3) v(1) by (simp add: writei_def Let_def)
  then show ?thesis using ap v(2) fb(3) u(3) by (simp add: file_write_def)
qed

subsection \<open>Linking a name\<close>

lemma takeWhile_take: "takeWhile P (take n xs) = take n (takeWhile P xs)"
  by (induction xs arbitrary: n) (auto simp: take_Cons' )

lemma cname_strncpy: "cname n (strncpy_bytes n p) = cname n p"
proof -
  let ?q = "takeWhile (\<lambda>c. c \<noteq> 0) p"
  have z: "takeWhile (\<lambda>c. c \<noteq> (0 :: u8)) (replicate m 0) = []" for m by (cases m) simp_all
  have "\<forall>c\<in>set ?q. c \<noteq> 0" by (auto dest: set_takeWhileD)
  then have "takeWhile (\<lambda>c. c \<noteq> 0) (?q @ replicate n 0) = ?q" using z by (simp add: takeWhile_append)
  then show ?thesis by (simp only: cname_def strncpy_bytes_def take_take min.idem takeWhile_take)
qed

lemma get16_dirent: "get16 (dirent_bytes inum nm) 0 = inum"
  by (rule bit_word_eqI) (auto simp: get16_def dirent_bytes_def bit_simps)

lemma length_dirent: "length (dirent_bytes inum nm) = 16" "drop 2 (dirent_bytes inum nm) = strncpy_bytes DIRSIZ nm"
  by (simp_all add: dirent_bytes_def strncpy_bytes_def)

lemma rounds_dirent: "rounds (16 * k) 16 = 1"
proof -
  obtain q r where k: "k = 64 * q + r" "r < 64" by (metis div_mult_mod_eq mod_less_divisor mult.commute zero_less_numeral)
  then have "16 * k mod BSIZE = 16 * r" by simp
  then show ?thesis using k(2) by (simp add: rounds_def div_nat_eqI)
qed

text \<open>The bytes of one entry.\<close>

lemma dent_write:
  assumes "\<And>i. i < 16 * n \<Longrightarrow> fbyte d t dp i = (if 16 * k \<le> i \<and> i < 16 * k + length bs then bs ! (i - 16 * k) else fbyte d s dp i)"
    and "length bs = 16" and "j < n"
  shows "dent d t dp j = (if j = k then bs else dent d s dp j)"
proof (rule nth_equalityI)
  show "length (dent d t dp j) = length (if j = k then bs else dent d s dp j)" using assms(2) by (simp add: dent_def)
  fix i assume "i < length (dent d t dp j)"
  then have i: "i < 16" by (simp add: dent_def)
  then have "16 * j + i < 16 * n" using assms(3) by linarith
  moreover have "16 * k \<le> 16 * j + i \<and> 16 * j + i < 16 * k + 16 \<longleftrightarrow> j = k" using i by presburger
  ultimately show "dent d t dp j ! i = (if j = k then bs else dent d s dp j) ! i"
    using assms(1) [of "16 * j + i"] assms(2) i by (auto simp: dent_def)
qed

text \<open>What \<open>iget\<close> does to the entries of the inode table.\<close>

lemma iget_slot_inum:
  assumes "iget_slot d inum s = Some i"
  shows "i_inum (iget_inodes d inum i (inodes s) i) = inum"
proof (cases "find (\<lambda>i. i_ref (inodes s i) > 0 \<and> i_dev (inodes s i) = d \<and> i_inum (inodes s i) = inum) [0..<NINODE]")
  case None
  then have "find (\<lambda>i. i_ref (inodes s i) = 0) [0..<NINODE] = Some i" using assms by (simp add: iget_slot_def)
  then show ?thesis by (auto dest: find_SomeD simp: iget_inodes_def)
next
  case (Some j)
  then show ?thesis using assms find_SomeD [OF Some] by (simp add: iget_inodes_def iget_slot_def)
qed

lemma iget_file:
  assumes "view d t = view d s" and "inodes t = iget_inodes d' inum i (inodes s)"
  shows "dent d t dp = dent d s dp"
proof -
  have "i_addrs (inodes t dp) = i_addrs (inodes s dp)" by (simp add: assms(2) iget_inodes_def)
  then show ?thesis using assms(1) by (simp add: dent_def fbyte_def fblock_def fun_eq_iff)
qed

lemma dirlink_spec:
  assumes t: "tx p d {} (Suc (Suc k)) s" and dir: "is_dir d s dp" and f: "file_ok d s dp" and a: "inode_apart d s dp"
    and no: "\<And>j. j < fsize s dp div 16 \<Longrightarrow> \<not> dent_is d s dp nm j"
    and e: "e < fsize s dp div 16" "dent_inum d s dp e = 0" "\<And>j. j < e \<Longrightarrow> dent_inum d s dp j \<noteq> 0"
  shows "returns (dirlink dp nm inum s) (\<lambda>r t. r = 0 \<and> tx p d {} k t \<and> is_dir d t dp \<and> inodes t = inodes s \<and>
     (\<forall>j<fsize s dp div 16. dent d t dp j = (if j = e then dirent_bytes (ucast inum) nm else dent d s dp j)))"
proof -
  let ?F = "\<lambda>off s. andthen (readi dp KernDst (of_nat off) 16 s) (\<lambda>(r, de) s.
               if r \<noteq> 16 then Panic ''dirlink read'' else if get16 de 0 = 0 then Ret (Some off) s else Ret None s)"
  let ?I = "\<lambda>t. tx p d {} (Suc (Suc k)) t \<and> view d t = view d s \<and> kept s t"
  obtain v where v: "dirlookup dp nm s = Ret None v" "?I v" using fswl.scan_none [OF t dir no] by (auto simp: returns_iff)
  have I: "is_dir d u dp" "fsize u dp = fsize s dp" "dent d u dp = dent d s dp" if "?I u" for u
    using that dir kept_dir [of d u s] kfs_kept [of s u] by auto
  have offs: "dir_offs (i_size (inodes s dp)) = map (\<lambda>k. 16 * k) [0..<fsize s dp div 16]"
  proof -
    obtain q where "fsize s dp = 16 * q" using dir by (metis is_dir_def mod_eq_0_iff_dvd dvdE)
    then show ?thesis by (simp add: dir_offs_def)
  qed
  have "returns (for_find ?F (map (\<lambda>k. 16 * k) [0..<fsize s dp div 16]) v) (\<lambda>r u. r = Some (16 * e) \<and> ?I u)"
    unfolding for_find_map
  proof (rule for_find_first [where I = ?I and k = e])
    fix u assume u: "?I u"
    have rd: "returns (readi dp KernDst (of_nat (16 * j)) 16 u) (\<lambda>r w. r = (16, dent d s dp j) \<and> ?I w)" if "j \<le> e" for j
    proof -
      have "16 * j < fsize u dp" using that e(1) I(2) [OF u] by linarith
      from fswl.read_dent [OF conjunct1 [OF u] I(1) [OF u] this] show ?thesis using I(3) [OF u] u kept_trans [of s u] by (auto elim!: returns_mono)
    qed
    show "returns (?F (16 * e) u) (\<lambda>r u. r = Some (16 * e) \<and> ?I u)" using rd [of e] e(2) by (auto simp: dent_inum_def elim!: returns_mono)
    show "returns (?F (16 * j) u) (\<lambda>r u. r = None \<and> ?I u)" if "j < e" for j using rd [of j] e(3) that by (auto simp: dent_inum_def elim!: returns_mono)
  qed (use v(2) e(1) in auto)
  then obtain u where u: "for_find ?F (dir_offs (i_size (inodes v dp))) v = Ret (Some (16 * e)) u" "?I u"
    using offs kfs_kept [of s v] v(2) by (auto simp: returns_iff)
  let ?bs = "dirent_bytes (ucast inum) nm"
  have max: "fsize s dp \<le> MAXFILE * BSIZE" using dir by (simp add: is_dir_def mapped_def)
  have "unat (of_nat x :: u32) = x" if "x < 4294967296" for x using that by (simp add: unat_of_nat take_bit_nat_eq_self)
  from this [of "16 * e"] obtain x :: u32 where x: "of_nat (16 * e) = x" "unat x = 16 * e" using e(1) max by simp
  have "file_ok d u dp" "inode_apart d u dp" "16 * e + 16 \<le> fsize u dp"
    using u(2) f a e(1) kept_file [of d u s] kfs_kept [of s u] fs_txn.home_kept [of s u] by (auto simp: file_ok_def inode_apart_def file_blocks_def)
  then have "returns (writei dp (KernSrc ?bs) x (of_nat (length ?bs)) u) (\<lambda>r t. r = int (length ?bs) \<and> tx p d {} k t \<and> file_ok d t dp \<and> inodes t = inodes u \<and>
      (\<forall>i<fsize u dp. fbyte d t dp i = (if 16 * e \<le> i \<and> i < 16 * e + length ?bs then ?bs ! (i - 16 * e) else fbyte d u dp i)))"
    using writei_spec [of p d x ?bs k u dp, unfolded x(2)] u(2) rounds_dirent [of e] length_dirent(1) by simp
  then obtain w where w: "writei dp (KernSrc ?bs) (of_nat (16 * e)) 16 u = Ret 16 w" "tx p d {} k w" "file_ok d w dp" "inodes w = inodes s"
      "\<And>i. i < fsize s dp \<Longrightarrow> fbyte d w dp i = (if 16 * e \<le> i \<and> i < 16 * e + length ?bs then ?bs ! (i - 16 * e) else fbyte d s dp i)"
    using length_dirent(1) kept_file [of d u s] u(2) x(1) by (auto simp: returns_iff)
  have "dent d w dp j = (if j = e then ?bs else dent d s dp j)" if "j < fsize s dp div 16" for j
    by (rule dent_write [OF w(5) length_dirent(1) that]) simp
  moreover have "is_dir d w dp" using w(3,4) dir by (simp add: is_dir_def file_ok_def)
  moreover have "dirlink dp nm inum s = Ret 0 w" using v(1) u(1) w(1) by (simp add: dirlink_def)
  ultimately show ?thesis using w(2,4) by simp
qed

text \<open>Property C23: \<open>dirlink\<close> of a new name into a directory that has a free entry writes the name and the inode number into the first free entry and
  leaves all other entries as they are, so that a following \<open>dirlookup\<close> of the name finds exactly this entry. Names of fourteen bytes, which
  have no NUL in the directory, are included.\<close>

theorem dirlink_dirlookup:
  assumes "tx p d {} (Suc (Suc k)) s" and "is_dir d s dp" and "file_ok d s dp" and "inode_apart d s dp"
    and no: "\<And>j. j < fsize s dp div 16 \<Longrightarrow> \<not> dent_is d s dp nm j"
    and e: "e < fsize s dp div 16" "dent_inum d s dp e = 0" "\<And>j. j < e \<Longrightarrow> dent_inum d s dp j \<noteq> 0"
    and i: "ucast inum \<noteq> (0 :: u16)" "iget_slot d (ucast (ucast inum :: u16)) s = Some i"
  shows "returns (andthen (dirlink dp nm inum s) (\<lambda>r s. andthen (dirlookup dp nm s) (\<lambda>q s. Ret (r, q) s)))
    (\<lambda>(r, q) t. r = 0 \<and> q = Some (i, of_nat (16 * e)) \<and> tx p d {} k t \<and> i_inum (inodes t i) = ucast (ucast inum :: u16) \<and>
      (\<forall>j<fsize s dp div 16. dent d t dp j = (if j = e then dirent_bytes (ucast inum) nm else dent d s dp j)))"
proof -
  obtain t where t: "dirlink dp nm inum s = Ret 0 t" "tx p d {} k t" "is_dir d t dp" "inodes t = inodes s"
    "\<And>j. j < fsize s dp div 16 \<Longrightarrow> dent d t dp j = (if j = e then dirent_bytes (ucast inum) nm else dent d s dp j)"
    using dirlink_spec [OF assms(1-4) no e, of inum] by (auto simp: returns_iff)
  have "dent_inum d t dp e = ucast inum" using t(5) [OF e(1)] by (simp add: dent_inum_def get16_dirent)
  moreover have "dent_is d t dp nm e" using t(5) [OF e(1)] i(1) by (simp add: dent_is_def dent_inum_def get16_dirent length_dirent cname_strncpy)
  moreover have "\<not> dent_is d t dp nm j" if "j < e" for j using t(5) [of j] that no [of j] e(1) by (simp add: dent_is_def dent_inum_def)
  moreover have "iget_slot d (ucast (ucast inum :: u16)) t = Some i" using i(2) t(4) by (simp only: iget_slot_def)
  ultimately have l: "returns (dirlookup dp nm t) (\<lambda>r u. r = Some (i, of_nat (16 * e)) \<and> (tx p d {} k u \<and> view d u = view d t \<and>
      inodes u = iget_inodes d (ucast (ucast inum :: u16)) i (inodes t) \<and> fs_sb u = fs_sb t))"
    using fswl.scan_found [OF t(2,3), of e nm i] e(1) t(4) by simp
  obtain u where u: "dirlookup dp nm t = Ret (Some (i, of_nat (16 * e))) u" "tx p d {} k u" "view d u = view d t"
      "inodes u = iget_inodes d (ucast (ucast inum :: u16)) i (inodes t)"
    using l by (auto simp: returns_iff)
  have "i_inum (inodes u i) = ucast (ucast inum :: u16)" using iget_slot_inum [OF i(2)] t(4) u(4) by simp
  then show ?thesis using t(1,5) u(1,2) iget_file [OF u(3,4)] by simp
qed

subsection \<open>A small file system\<close>

text \<open>The root directory is in block 46, the first one behind the bitmap; it has the entries \<open>.\<close> and \<open>a\<close> and a free one. Its inode is in
  entry 0 of the inode table. The cache is empty and one operation has begun.\<close>

definition root_blk :: "u8 list" where
  "root_blk = dirent_bytes 1 [46] @ dirent_bytes 2 [97] @ replicate 992 0"

definition bitmap_blk :: "u8 list" where
  "bitmap_blk = replicate 5 255 @ [127] @ replicate 1018 0"

definition root_inode :: inode where
  "root_inode = \<lparr>i_dev = 1, i_inum = 1, i_ref = 1, i_valid = True, i_type = T_DIR, i_major = 0, i_minor = 0, i_nlink = 1, i_size = 48,
     i_addrs = (\<lambda>_. 0)(0 := 46)\<rparr>"

definition kfs1 :: kfs where
  "kfs1 = kfs0\<lparr>platter := (\<lambda>_. replicate BSIZE 0)(45 := bitmap_blk, 46 := root_blk), log_outstanding := 1, inodes := (inodes kfs0)(0 := root_inode)\<rparr>"

lemma kfs1_simps [simp]:
  "platter kfs1 = (\<lambda>_. replicate BSIZE 0)(45 := bitmap_blk, 46 := root_blk)" "bufs kfs1 = buf0" "inodes kfs1 0 = root_inode"
  "log_start kfs1 = 2" "log_size kfs1 = 30" "log_dev kfs1 = 1" "lh_n kfs1 = 0" "sl_locked (sleeplocks kfs1 lk) = 0" "log_outstanding kfs1 = 1"
  "unat (sb_size (fs_sb kfs1)) = 2000" "sb_bmapstart (fs_sb kfs1) = 45" "sb_inodestart (fs_sb kfs1) = 32"
  by (simp_all add: kfs1_def kfs0_def kfs.defs klog0_def klog.defs kbio0_defs)

lemma cache_ok_cold: "cache_ok 1 {} {} pl buf0"
proof -
  have "\<not> keyed buf0 1 n b" for n b by (simp add: keyed_def buf0_def)
  then show ?thesis unfolding cache_ok_def using ring_buf0 by (auto simp: buf0_def)
qed

lemma rdr_kfs1: "rdr 1 1 {} kfs1" and tx_kfs1: "k \<le> 29 \<Longrightarrow> tx 1 1 {} k kfs1"
proof -
  have "quiet 1 kfs1" by (simp add: quiet_def kfs1_def kfs0_def kfs.defs klog0_def klog.defs kbio0_defs lock_free_def cpu_ok_def)
  moreover have "cache_ok 1 {} {} (platter kfs1) buf0" by (rule cache_ok_cold)
  ultimately have "bc 1 1 {} {} kfs1" by (simp add: bc_def)
  then have "held 1 1 {} {} kfs1" by (simp add: held_def)
  then show r: "rdr 1 1 {} kfs1" by (simp add: rdr_def log_ok_def txn_def)
  show "k \<le> 29 \<Longrightarrow> tx 1 1 {} k kfs1" using r by (simp add: tx_def)
qed

lemma view_kfs1 [simp]: "view 1 kfs1 = (\<lambda>_. replicate BSIZE 0)(45 := bitmap_blk, 46 := root_blk)"
proof -
  have "bview 1 pl buf0 = pl" for pl by (rule ext, rule bview_uncached) (simp add: keyed_def buf0_def)
  then show ?thesis by (simp add: view_def)
qed

lemma length_blks [simp]: "length root_blk = BSIZE" "length bitmap_blk = BSIZE"
  by (simp_all add: root_blk_def bitmap_blk_def length_dirent)

lemma BBLOCK_kfs1 [simp]: "b < 2000 \<Longrightarrow> BBLOCK b (fs_sb kfs1) = 45"
  by (simp add: BBLOCK_def)

lemma used_kfs1:
  assumes "b < 2000"
  shows "used 1 kfs1 b \<longleftrightarrow> b < 47"
proof -
  have m: "(255 :: u8) = mask 8" "(127 :: u8) = mask 7" by (simp_all add: mask_eq_exp_minus_1)
  have "bitmap_blk ! (b div 8) = (if b div 8 < 5 then 255 else if b div 8 = 5 then 127 else 0)"
    using assms by (auto simp: bitmap_blk_def nth_append nth_Cons')
  moreover have "b div 8 < 5 \<longleftrightarrow> b < 40" "b div 8 = 5 \<longleftrightarrow> 40 \<le> b \<and> b < 48" by auto
  moreover have "40 \<le> b \<and> b < 48 \<Longrightarrow> b mod 8 < 7 \<longleftrightarrow> b < 47" by presburger
  ultimately show ?thesis using assms by (auto simp: used_def bit_of_def m bit_simps)
qed

lemma layout_kfs1: "layout_ok 1 kfs1"
proof -
  have n: "unat (of_nat b :: u32) = b" if "b < 2000" for b using that by (simp add: unat_of_nat take_bit_nat_eq_self)
  have "of_nat b \<notin> log_area 2" "of_nat b \<noteq> (45 :: u32)" if "\<not> used 1 kfs1 b" "b < 2000" for b
    using used_kfs1 [OF that(2)] that n [OF that(2)] by (auto simp: log_area_2 word_less_nat_alt)
  then show ?thesis using used_kfs1 by (auto simp: layout_ok_def home_def log_area_2)
qed

lemma dir_kfs1: "is_dir 1 kfs1 0" "file_ok 1 kfs1 0" "inode_apart 1 kfs1 0"
proof -
  have b: "bn * BSIZE < 48 \<longleftrightarrow> bn = 0" for bn :: nat by auto
  have f: "fblock 1 kfs1 0 0 = 46" by (simp add: fblock_def root_inode_def)
  have fb: "file_blocks 1 kfs1 0 = {0}" using b by (simp add: file_blocks_def root_inode_def)
  have m: "mapped 1 kfs1 0" using f b by (auto simp: mapped_def root_inode_def)
  show "is_dir 1 kfs1 0" using m by (simp add: is_dir_def root_inode_def)
  show "file_ok 1 kfs1 0" using m f by (simp add: file_ok_def fb home_def log_area_2 root_inode_def)
  show "inode_apart 1 kfs1 0" using f by (simp add: inode_apart_def fb home_def log_area_2 root_inode_def IBLOCK_def)
qed

lemma dirent_char: "c \<noteq> 0 \<Longrightarrow> dirent_bytes n [c] = ucast n # ucast (drop_bit 8 n) # c # replicate 13 0"
  by (simp add: dirent_bytes_def strncpy_bytes_def)

lemma root_blk_eq: "root_blk = 1 # 0 # 46 # replicate 13 0 @ 2 # 0 # 97 # replicate 1005 0"
proof -
  have "replicate 13 (0 :: u8) @ replicate 992 0 = replicate (13 + 992) 0" by (rule replicate_add [symmetric])
  then show ?thesis by (simp add: root_blk_def dirent_char)
qed

lemma fbyte_kfs1: "o' < 48 \<Longrightarrow> fbyte 1 kfs1 0 o' = root_blk ! o'"
  by (simp add: fbyte_def fblock_def root_inode_def)

lemma dent_kfs1: "dent 1 kfs1 0 0 = dirent_bytes 1 [46]" "dent 1 kfs1 0 (Suc 0) = dirent_bytes 2 [97]" "dent 1 kfs1 0 2 = replicate 16 0"
proof -
  have d: "dent 1 kfs1 0 k = take 16 (drop (16 * k) root_blk)" if "k < 3" for k
  proof -
    have "dent 1 kfs1 0 k = map ((!) root_blk) [16 * k..<16 * k + 16]" using that fbyte_kfs1 by (simp add: dent_def)
    also have "\<dots> = take 16 (drop (16 * k) root_blk)" using that by (intro nth_equalityI) simp_all
    finally show ?thesis .
  qed
  show "dent 1 kfs1 0 0 = dirent_bytes 1 [46]" "dent 1 kfs1 0 (Suc 0) = dirent_bytes 2 [97]" "dent 1 kfs1 0 2 = replicate 16 0"
    using d [of 0] d [of "Suc 0"] d [of 2] by (simp_all add: root_blk_def length_dirent)
qed

lemma dent_is_kfs1: "dent_is 1 kfs1 0 nm 0 \<longleftrightarrow> cname 14 nm = [46]" "dent_is 1 kfs1 0 nm (Suc 0) \<longleftrightarrow> cname 14 nm = [97]" "\<not> dent_is 1 kfs1 0 nm 2"
    "dent_inum 1 kfs1 0 0 = 1" "dent_inum 1 kfs1 0 (Suc 0) = 2" "dent_inum 1 kfs1 0 2 = 0"
proof -
  have z: "takeWhile (\<lambda>c. c \<noteq> 0) (replicate n (0 :: u8)) = []" for n by (cases n) simp_all
  have "cname 14 (strncpy_bytes 14 [c]) = [c]" if "c \<noteq> 0" for c using that cname_strncpy [of 14 "[c]"] by (simp add: cname_def)
  then show "dent_is 1 kfs1 0 nm 0 \<longleftrightarrow> cname 14 nm = [46]" "dent_is 1 kfs1 0 nm (Suc 0) \<longleftrightarrow> cname 14 nm = [97]" "\<not> dent_is 1 kfs1 0 nm 2"
    "dent_inum 1 kfs1 0 0 = 1" "dent_inum 1 kfs1 0 (Suc 0) = 2" "dent_inum 1 kfs1 0 2 = 0"
    by (auto simp: dent_is_def dent_inum_def dent_kfs1 get16_dirent length_dirent, auto simp: get16_def)
qed

lemma cname_char [simp]: "c \<noteq> 0 \<Longrightarrow> cname 14 [c] = [c]"
  by (simp add: cname_def)

lemma iget_slot_kfs1: "n \<noteq> 1 \<Longrightarrow> iget_slot 1 n kfs1 = Some 1"
proof -
  assume n: "n \<noteq> 1"
  have r: "i_ref (inodes kfs1 i) = (if i = 0 then 1 else 0)" "i_inum (inodes kfs1 0) = 1" for i by (simp_all add: kfs1_def kfs0_def kfs.defs klog0_def klog.defs kbio0_defs root_inode_def)
  then have "find (\<lambda>i. i_ref (inodes kfs1 i) > 0 \<and> i_dev (inodes kfs1 i) = 1 \<and> i_inum (inodes kfs1 i) = n) [0..<NINODE] = None"
    using n by (auto simp: find_None_iff)
  moreover have "find (\<lambda>i. i_ref (inodes kfs1 i) = 0) [0..<NINODE] = Some 1" using r(1) by (auto simp: find_Some_iff intro!: exI [of _ 1])
  ultimately show ?thesis by (simp add: iget_slot_def)
qed

theorem balloc_correct_witness:
  "returns (balloc 1 kfs1) (\<lambda>v t. v = 47 \<and> used 1 t 47 \<and> view 1 t v = replicate BSIZE 0 \<and> platter t = platter kfs1)"
proof -
  have a: "a = 47" if "a < 2000" "\<not> used 1 kfs1 a" "\<forall>j<a. used 1 kfs1 j" for a
    using that used_kfs1 [of a] used_kfs1 [of 47] by (cases "a = 47") auto
  have "\<exists>b<unat (sb_size (fs_sb kfs1)). \<not> used 1 kfs1 b" using used_kfs1 [of 47] by (intro exI [of _ 47]) simp
  from balloc_correct [OF tx_kfs1 layout_kfs1 this, of 0] show ?thesis by (auto dest: a elim!: returns_mono)
qed

theorem readi_correct_witness:
  "returns (readi 0 KernDst 14 5 kfs1) (\<lambda>r t. r = (5, [0, 0, 2, 0, 97]))"
proof -
  have "map (fbyte 1 kfs1 0) [14..<19] = [0, 0, 2, 0, 97]" by (simp add: upt_rec fbyte_kfs1) (simp add: root_blk_eq nth_append)
  then show ?thesis using readi_correct [OF rdr_kfs1 conjunct1 [OF dir_kfs1(1) [unfolded is_dir_def]] refl, of 14 5]
    by (auto simp: root_inode_def elim!: returns_mono)
qed

theorem dirlookup_correct_witness:
  "returns (dirlookup 0 [97] kfs1) (\<lambda>r t. r = Some (1, 16) \<and> i_inum (inodes t 1) = 2)"
proof -
  have l: "[0..<unat (i_size root_inode) div 16] = [0, Suc 0, 2]" by (simp add: root_inode_def upt_rec)
  have "i_inum (iget_inodes 1 2 1 (inodes kfs1) 1) = 2" by (rule iget_slot_inum) (simp add: iget_slot_kfs1)
  then show ?thesis using dirlookup_correct [OF rdr_kfs1 dir_kfs1(1), of "[97]"]
    by (auto simp: l dent_is_kfs1 iget_slot_kfs1 elim!: returns_mono)
qed

theorem dirlink_dirlookup_witness:
  "returns (andthen (dirlink 0 [98] 7 kfs1) (\<lambda>r s. andthen (dirlookup 0 [98] s) (\<lambda>q s. Ret (r, q) s)))
     (\<lambda>(r, q) t. r = 0 \<and> q = Some (1, 32) \<and> i_inum (inodes t 1) = 7)"
proof -
  have j: "j < 3 \<Longrightarrow> j = 0 \<or> j = 1 \<or> j = 2" "j < 2 \<Longrightarrow> j = 0 \<or> j = 1" for j :: nat by auto
  have "\<not> dent_is 1 kfs1 0 [98] j" if "j < fsize kfs1 0 div 16" for j using j(1) [of j] that by (auto simp: dent_is_kfs1 root_inode_def)
  moreover have "dent_inum 1 kfs1 0 j \<noteq> 0" if "j < 2" for j using j(2) [OF that] by (auto simp: dent_is_kfs1)
  ultimately show ?thesis using dirlink_dirlookup [OF tx_kfs1 dir_kfs1, of 0 "[98]" 2 7 1]
    by (auto simp: dent_is_kfs1 iget_slot_kfs1 root_inode_def elim!: returns_mono)
qed

end
