(* ===== verification/Append.thy ===== *)
theory Append
  imports Fsops
begin

text \<open>
  Files that grow: what \<open>bmap\<close> and \<open>writei\<close> of \<open>kernel/fs.c\<close> do when a block of the file is not there yet. \<open>bmap\<close> allocates it, and the indirect block before it when needed, while it holds the
  buffer of the indirect block: the locale \<open>block_alloc\<close> of \<open>Fsops\<close> is interpreted a second time, with a buffer held (\<open>ind_alloc\<close>). A file has \<open>nb\<close> blocks, marked in the bitmap and distinct
  (\<open>file_has\<close>); \<open>grows\<close> says what a write leaves alone.
\<close>

subsection \<open>Allocating while a buffer is held\<close>

text \<open>\<open>bmap\<close> allocates a block while it holds the buffer \<open>x\<close> of the indirect block \<open>i\<close>. Buffer \<open>b\<close> is held as well, for block \<open>n\<close>.\<close>

definition clean :: "nat \<Rightarrow> u32 \<Rightarrow> 'z klog_scheme \<Rightarrow> bool" where
  "clean b n s \<longleftrightarrow> b_blockno (bufs s b) = n \<and> (n \<in> lh_block s ` {..<nat (lh_n s)} \<or> b_data (bufs s b) = platter s n)"

definition tx_two :: "nat \<Rightarrow> u32 \<Rightarrow> nat \<Rightarrow> u32 \<Rightarrow> nat \<Rightarrow> nat \<Rightarrow> u32 \<Rightarrow> 'z klog_scheme \<Rightarrow> bool" where
  "tx_two p d x i k b n s \<longleftrightarrow> tx p d {b, x} (Suc k) s \<and> b \<noteq> x \<and> n \<noteq> i \<and> clean x i s \<and> clean b n s"

lemma tx_has_clean: "tx_has p d k x i s \<longleftrightarrow> tx p d {x} k s \<and> clean x i s"
  by (auto simp: tx_has_def rdr_has_def clean_def tx_def)

lemma two_read:
  assumes h: "tx_has p d (Suc k) x i s" and n: "n \<noteq> i"
  shows "returns (bread d n s) (\<lambda>b t. tx_two p d x i k b n t \<and> view d t = view d s \<and> kept s t)"
proof -
  let ?N = "lh_block s ` {..<nat (lh_n s)}"
  have tx: "tx p d {x} (Suc k) s" and cx: "clean x i s" using h by (simp_all add: tx_has_clean)
  have hs: "held p d ?N {x} s" using tx by (auto simp: tx_def rdr_def log_ok_def)
  have ne: "\<forall>b\<in>{x}. b_blockno (bufs s b) \<noteq> n" using cx n by (simp add: clean_def)
  have r: "n \<in> ?N \<or> card ?N + card {x} < NBUF" using tx card_header [of "lh_block s" "nat (lh_n s)"] by (auto simp: tx_def)
  obtain b t where b: "bread d n s = Ret b t" "held p d ?N {b, x} t" "b \<noteq> x" "b_blockno (bufs t b) = n" "b_data (bufs t b) = view d s n"
    "view d t = view d s" "same_disk s t" "b_blockno (bufs t x) = i" "b_data (bufs t x) = b_data (bufs s x)"
    using bread_held [OF hs ne r] cx by (auto simp: returns_iff clean_def)
  have m: "kbio.more t = kbio.more s" and pl: "platter t = platter s" using b(7) by (simp_all add: same_disk_def)
  note km = klog_more [OF m]
  have "n \<notin> ?N \<Longrightarrow> view d s n = platter s n" using held_view [OF hs] ne by blast
  then have "clean b n t" "clean x i t" using b(4,5,8,9) cx km pl by (auto simp: clean_def)
  moreover have "tx p d {b, x} (Suc k) t" using tx b(2) km by (auto simp: tx_def rdr_same [OF m] rdr_same [of s s, OF refl])
  ultimately show ?thesis using b(1,3,6) n same_disk_kept(1) [OF b(7)] by (simp add: tx_two_def)
qed

lemma two_release:
  assumes h: "tx_two p d x i k b n s"
  shows "returns (brelse b s) (\<lambda>_ t. tx_has p d (Suc k) x i t \<and> view d t = view d s \<and> kept s t)"
proof -
  let ?N = "lh_block s ` {..<nat (lh_n s)}"
  have tx: "tx p d {b, x} (Suc k) s" and c: "b \<noteq> x" "clean x i s" "clean b n s" using h by (simp_all add: tx_two_def)
  have hs: "held p d ?N {b, x} s" "b \<in> {b, x}" "b_blockno (bufs s b) = n" "n \<in> ?N \<or> b_data (bufs s b) = platter s n"
    using tx c(3) by (auto simp: tx_def rdr_def log_ok_def clean_def)
  obtain t where t: "brelse b s = Ret () t" "held p d ?N ({b, x} - {b}) t" "view d t = view d s" "same_disk s t" "same_data s t" using brelse_held [OF hs] by (auto simp: returns_iff)
  have m: "kbio.more t = kbio.more s" and pl: "platter t = platter s" using t(4) by (simp_all add: same_disk_def)
  note km = klog_more [OF m]
  have "{b, x} - {b} = {x}" using c(1) by auto
  then have "tx p d {x} (Suc k) t" using tx t(2) km by (auto simp: tx_def rdr_same [OF m] rdr_same [of s s, OF refl])
  moreover have "clean x i t" using c(2) t(5) km pl by (simp add: clean_def same_data_def)
  ultimately show ?thesis using t(1,3) same_disk_kept(1) [OF t(4)] by (simp add: tx_has_clean)
qed

lemma two_data: "tx_two p d x i k b n s \<Longrightarrow> b_data (bufs s b) = view d s n"
  using held_data [of p d _ "{b, x}" s b n] by (fastforce simp: tx_two_def clean_def tx_def rdr_def log_ok_def)

lemma log_write_blockno:
  assumes "log_ok p R s" and "b_blockno (bufs s b) = bn" and "lh_n s < log_size s - 1" "log_size s \<le> 30" and "1 \<le> log_outstanding s"
  shows "returns (log_write b s) (\<lambda>_ t. \<forall>c. b_blockno (bufs t c) = b_blockno (bufs s c))"
proof -
  have n: "lh_n s = int (nat (lh_n s))" "nat (lh_n s) < 30" "int (nat (lh_n s)) < log_size s - 1" using assms by (auto simp: log_ok_def)
  have "quiet p s" using assms(1) bcD(1) by (auto simp: log_ok_def held_def)
  from log_write_eq [OF this n assms(5,2)] show ?thesis by simp
qed

lemma two_write:
  assumes h: "tx_two p d x i (Suc k) b n s" and n: "home n s"
  shows "returns (log_put b f s) (\<lambda>_ t. tx_has p d (Suc k) x i t \<and> view d t = (view d s)(n := f (view d s n)) \<and> kept s t)"
proof -
  let ?y = "f (b_data (bufs s b))" and ?N = "lh_block s ` {..<nat (lh_n s)}"
  define u where "u = set_data b f s"
  have u: "u = upd_buf b (\<lambda>z. z\<lparr>b_data := ?y\<rparr>) s" by (simp add: u_def set_data_def upd_buf_def)
  have tx: "tx p d {b, x} (Suc (Suc k)) s" and c: "b \<noteq> x" "n \<noteq> i" "clean x i s" "clean b n s" using h by (simp_all add: tx_two_def)
  have s: "held p d ?N {b, x} s" "b \<in> {b, x}" "b_blockno (bufs s b) = n" using tx c(4) by (auto simp: tx_def rdr_def log_ok_def clean_def)
  have hu: "held p d ?N {b, x} u" "view d u = (view d s)(n := ?y)" using held_set [OF s, of ?y] by (simp_all add: u)
  have m: "kbio.more u = kbio.more s" "platter u = platter s" "disk_writes u = disk_writes s" "b_blockno (bufs u b) = n" by (simp_all add: u s(3))
  have ux: "bufs u x = bufs s x" using c(1) by (simp add: u upd_buf_def)
  note mu = klog_more [OF m(1)]
  have tu: "tx p d {b, x} (Suc (Suc k)) u" using tx hu(1) mu by (auto simp: tx_def rdr_same [OF m(1)] rdr_same [of s s, OF refl])
  then have lu: "log_ok p {b, x} u" "lh_n u < log_size u - 1" "log_size u \<le> 30" "1 \<le> log_outstanding u" "log_dev u = d" by (simp_all add: tx_def rdr_def)
  have "n \<notin> log_area (log_start u)" using n mu by (simp add: home_def)
  then obtain v where v: "log_write b u = Ret () v" "log_ok p {b, x} v" "lh_block v ` {..<nat (lh_n v)} = insert n ?N" "lh_n v \<le> lh_n s + 1"
    "view d v = view d u" "platter v = platter s" "disk_writes v = disk_writes s" "klog.more v = klog.more s" "log_start v = log_start s"
    "log_dev v = d" "log_size v = log_size u" "log_outstanding v = log_outstanding u" "\<And>c. b_blockno (bufs v c) = b_blockno (bufs u c)"
    using log_write_spec [OF lu(1) s(2) m(4) _ lu(2-4)] log_write_blockno [OF lu(1) m(4) lu(2-4)] m mu lu(5) by (auto simp: returns_iff)
  have "x \<in> {b, x}" "b_blockno (bufs v x) = i" using v(13) ux c(3) by (simp_all add: clean_def)
  then have "b_data (bufs v x) = view d v i" using held_data [of p d _ "{b, x}" v x i] v(2,10) by (fastforce simp: log_ok_def)
  also have "\<dots> = b_data (bufs s x)" using v(5) hu(2) c(2,3) held_data [OF s(1), of x i] by (simp add: clean_def)
  finally have "clean x i v" using c(3) v(3,6) \<open>b_blockno (bufs v x) = i\<close> by (auto simp: clean_def)
  moreover have "clean b n v" using v(3,13) m(4) by (auto simp: clean_def)
  moreover have "tx p d {b, x} (Suc k) v" using v tu mu by (auto simp: tx_def rdr_def)
  ultimately have "tx_two p d x i k b n v" using c(1,2) by (simp add: tx_two_def)
  from two_release [OF this] show ?thesis using v(1,5-9) hu(2) two_data [OF h] by (auto simp: log_put_def u_def kept_def elim!: returns_mono)
qed

interpretation ind_alloc: block_alloc d "\<lambda>k. tx_has p d (Suc k) x i" "tx_two p d x i" "\<lambda>n. n \<noteq> i" for p d x i
  by unfold_locales (auto intro: two_read two_release two_data two_write)

subsection \<open>Files with blocks beyond their end\<close>

text \<open>The state with the size of the file set to that of its \<open>nb\<close> blocks: what \<open>file_ok\<close> says of it, it says of all the blocks.\<close>

definition sized :: "nat \<Rightarrow> nat \<Rightarrow> 'z kfs_scheme \<Rightarrow> 'z kfs_scheme" where
  "sized ip nb s = upd_inode ip (\<lambda>x. x\<lparr>i_size := of_nat (nb * BSIZE)\<rparr>) s"

lemma view_upd_inode [simp]: "view d (upd_inode ip f s) = view d s"
  by (simp add: view_def upd_inode_def)

lemma home_upd_inode [simp]: "home n (upd_inode ip f s) = home n s"
  by (simp add: home_def upd_inode_def)

lemma tx_upd_inode [simp]: "tx p d R k (upd_inode ip f s) = tx p d R k s"
  by (simp add: tx_def upd_inode_def)

lemma used_upd_inode [simp]: "used d (upd_inode ip f s) = used d s" "layout_ok d (upd_inode ip f s) = layout_ok d s"
proof -
  show "used d (upd_inode ip f s) = used d s" by (rule ext) (simp add: used_def, simp add: upd_inode_def)
  then show "layout_ok d (upd_inode ip f s) = layout_ok d s" by (simp add: layout_ok_def, simp add: upd_inode_def)
qed

lemma upd_inode_fields [simp]: "fs_sb (upd_inode ip f s) = fs_sb s" "inodes (upd_inode ip f s) = (inodes s)(ip := f (inodes s ip))"
  "platter (upd_inode ip f s) = platter s" "disk_writes (upd_inode ip f s) = disk_writes s" "log_start (upd_inode ip f s) = log_start s"
  by (simp_all add: upd_inode_def)

lemma fblock_sized [simp]: "fblock d (sized ip nb s) ip = fblock d s ip" "fbyte d (sized ip nb s) ip = fbyte d s ip"
proof -
  show "fblock d (sized ip nb s) ip = fblock d s ip" by (rule ext) (simp add: fblock_def sized_def)
  then show "fbyte d (sized ip nb s) ip = fbyte d s ip" by (intro ext) (simp add: fbyte_def, simp add: sized_def)
qed

lemma kept_sized: "kept s t \<Longrightarrow> kept (sized ip nb s) (sized ip nb t)" for s t :: "'z kfs_scheme"
  by (cases s; cases t) (simp add: kept_def sized_def upd_inode_def)

lemma sized_blocks: "nb \<le> MAXFILE \<Longrightarrow> fsize (sized ip nb s) ip = nb * BSIZE" "nb \<le> MAXFILE \<Longrightarrow> file_blocks d (sized ip nb s) ip = {..<nb}"
proof -
  assume n: "nb \<le> MAXFILE"
  then show f: "fsize (sized ip nb s) ip = nb * BSIZE" by (simp add: sized_def unsigned_of_nat take_bit_nat_eq_self del: of_nat_mult)
  show "file_blocks d (sized ip nb s) ip = {..<nb}" unfolding file_blocks_def f by auto
qed

text \<open>A block that is neither free nor part of the bitmap.\<close>

definition taken :: "u32 \<Rightarrow> 'z kfs_scheme \<Rightarrow> u32 \<Rightarrow> bool" where
  "taken d s n \<longleftrightarrow> (\<forall>b<nblk s. n \<noteq> BBLOCK b (fs_sb s) \<and> (\<not> used d s b \<longrightarrow> n \<noteq> of_nat b))"

text \<open>The indirect block, 0 when there is none, and all the blocks of a file.\<close>

definition indirect :: "'z kfs_scheme \<Rightarrow> nat \<Rightarrow> u32" where
  "indirect s ip = i_addrs (inodes s ip) NDIRECT"

definition fblocks :: "u32 \<Rightarrow> 'z kfs_scheme \<Rightarrow> nat \<Rightarrow> nat \<Rightarrow> u32 set" where
  "fblocks d s ip nb = insert (indirect s ip) (fblock d s ip ` {..<nb})"

text \<open>A file with \<open>nb\<close> blocks, at least those of its contents: they are distinct, marked in the bitmap, and no others are there; the block of the inode is another one.\<close>

definition file_has :: "u32 \<Rightarrow> 'z kfs_scheme \<Rightarrow> nat \<Rightarrow> nat \<Rightarrow> bool" where
  "file_has d s ip nb \<longleftrightarrow> nb \<le> MAXFILE \<and> fsize s ip \<le> nb * BSIZE \<and> file_ok d (sized ip nb s) ip \<and> inode_apart d (sized ip nb s) ip \<and>
     (\<forall>bn<NDIRECT. nb \<le> bn \<longrightarrow> i_addrs (inodes s ip) bn = 0) \<and> (nb < NDIRECT \<longrightarrow> indirect s ip = 0) \<and>
     (indirect s ip \<noteq> 0 \<longrightarrow> taken d s (indirect s ip) \<and> home (indirect s ip) s \<and> length (view d s (indirect s ip)) = BSIZE \<and>
       (\<forall>j<NINDIRECT. nb \<le> NDIRECT + j \<longrightarrow> get32 (view d s (indirect s ip)) (4 * j) = 0)) \<and>
     (\<forall>bn<nb. taken d s (fblock d s ip bn)) \<and> taken d s (IBLOCK (i_inum (inodes s ip)) (fs_sb s))"

lemma file_hasD:
  assumes "file_has d s ip nb"
  shows "i_dev (inodes s ip) = d" "bn < nb \<Longrightarrow> fblock d s ip bn \<noteq> 0" "bn < nb \<Longrightarrow> length (view d s (fblock d s ip bn)) = BSIZE" "bn < nb \<Longrightarrow> home (fblock d s ip bn) s"
    "bn < nb \<Longrightarrow> NDIRECT \<le> bn \<Longrightarrow> indirect s ip \<noteq> 0" "bn < nb \<Longrightarrow> fblock d s ip bn \<noteq> indirect s ip" "inj_on (fblock d s ip) {..<nb}"
    "home (IBLOCK (i_inum (inodes s ip)) (fs_sb s)) s" "IBLOCK (i_inum (inodes s ip)) (fs_sb s) \<notin> fblocks d s ip nb"
proof -
  have n: "nb \<le> MAXFILE" and f: "file_ok d (sized ip nb s) ip" "inode_apart d (sized ip nb s) ip" using assms by (simp_all add: file_has_def)
  note sb = sized_blocks [OF n]
  have m: "mapped d (sized ip nb s) ip" using f(1) by (simp add: file_ok_def)
  have v: "view d (sized ip nb s) = view d s" "home m (sized ip nb s) = home m s" "i_addrs (inodes (sized ip nb s) ip) = i_addrs (inodes s ip)"
    "i_dev (inodes (sized ip nb s) ip) = i_dev (inodes s ip)" "i_inum (inodes (sized ip nb s) ip) = i_inum (inodes s ip)" "fs_sb (sized ip nb s) = fs_sb s" for m by (simp_all add: sized_def)
  show "i_dev (inodes s ip) = d" using m v by (simp add: mapped_def)
  show "bn < nb \<Longrightarrow> fblock d s ip bn \<noteq> 0" "bn < nb \<Longrightarrow> length (view d s (fblock d s ip bn)) = BSIZE" "bn < nb \<Longrightarrow> NDIRECT \<le> bn \<Longrightarrow> indirect s ip \<noteq> 0"
    using m v by (auto simp: mapped_def sb indirect_def)
  show "bn < nb \<Longrightarrow> home (fblock d s ip bn) s" "bn < nb \<Longrightarrow> fblock d s ip bn \<noteq> indirect s ip" "inj_on (fblock d s ip) {..<nb}"
    using f(1) v by (auto simp: file_ok_def sb indirect_def)
  show "home (IBLOCK (i_inum (inodes s ip)) (fs_sb s)) s" "IBLOCK (i_inum (inodes s ip)) (fs_sb s) \<notin> fblocks d s ip nb"
    using f(2) v by (simp_all add: inode_apart_def sb fblocks_def indirect_def)
qed

lemma file_hasI:
  assumes "i_dev (inodes s ip) = d" "nb \<le> MAXFILE" "fsize s ip \<le> nb * BSIZE"
    and "\<And>bn. bn < nb \<Longrightarrow> fblock d s ip bn \<noteq> 0 \<and> length (view d s (fblock d s ip bn)) = BSIZE \<and> home (fblock d s ip bn) s \<and> (NDIRECT \<le> bn \<longrightarrow> indirect s ip \<noteq> 0) \<and>
      fblock d s ip bn \<noteq> indirect s ip \<and> taken d s (fblock d s ip bn)"
    and "inj_on (fblock d s ip) {..<nb}" "home (IBLOCK (i_inum (inodes s ip)) (fs_sb s)) s"
    and "IBLOCK (i_inum (inodes s ip)) (fs_sb s) \<notin> fblocks d s ip nb" "taken d s (IBLOCK (i_inum (inodes s ip)) (fs_sb s))"
    and "\<And>bn. bn < NDIRECT \<Longrightarrow> nb \<le> bn \<Longrightarrow> i_addrs (inodes s ip) bn = 0" "nb < NDIRECT \<Longrightarrow> indirect s ip = 0"
    and "indirect s ip \<noteq> 0 \<Longrightarrow> taken d s (indirect s ip) \<and> home (indirect s ip) s \<and> length (view d s (indirect s ip)) = BSIZE \<and>
       (\<forall>j<NINDIRECT. nb \<le> NDIRECT + j \<longrightarrow> get32 (view d s (indirect s ip)) (4 * j) = 0)"
  shows "file_has d s ip nb"
proof -
  note sb = sized_blocks [OF assms(2)]
  have v: "view d (sized ip nb s) = view d s" "home m (sized ip nb s) = home m s" "i_addrs (inodes (sized ip nb s) ip) = i_addrs (inodes s ip)"
    "i_dev (inodes (sized ip nb s) ip) = i_dev (inodes s ip)" "i_inum (inodes (sized ip nb s) ip) = i_inum (inodes s ip)" "fs_sb (sized ip nb s) = fs_sb s" for m by (simp_all add: sized_def)
  have "mapped d (sized ip nb s) ip" unfolding mapped_def sb v fblock_sized using assms(1,2,4) by (auto simp: indirect_def)
  then have "file_ok d (sized ip nb s) ip" unfolding file_ok_def sb v fblock_sized using assms(4,5) by (simp add: indirect_def)
  moreover have "inode_apart d (sized ip nb s) ip" unfolding inode_apart_def sb v fblock_sized using assms(6,7) by (simp add: fblocks_def indirect_def)
  ultimately show ?thesis using assms by (simp add: file_has_def)
qed

subsection \<open>One round of writei\<close>

text \<open>What a write to file \<open>ip\<close> may change: the blocks of the file and blocks that were free, the bitmap, and the addresses in the inode. The file has \<open>nb\<close> blocks before and \<open>nb'\<close> after.\<close>

definition grows :: "u32 \<Rightarrow> nat \<Rightarrow> nat \<Rightarrow> nat \<Rightarrow> 'z kfs_scheme \<Rightarrow> 'z kfs_scheme \<Rightarrow> bool" where
  "grows d ip nb nb' s t \<longleftrightarrow> platter t = platter s \<and> disk_writes t = disk_writes s \<and> log_start t = log_start s \<and> fs_sb t = fs_sb s \<and>
     (\<forall>j. j \<noteq> ip \<longrightarrow> inodes t j = inodes s j) \<and> (\<exists>A. inodes t ip = (inodes s ip)\<lparr>i_addrs := A\<rparr>) \<and> nb \<le> nb' \<and>
     (\<forall>b<nblk s. used d s b \<longrightarrow> used d t b) \<and>
     (\<forall>n\<in>fblocks d t ip nb'. n \<in> fblocks d s ip nb \<or> (\<exists>b<nblk s. \<not> used d s b \<and> n = of_nat b)) \<and>
     (\<forall>n. taken d s n \<and> n \<notin> fblocks d s ip nb \<longrightarrow> view d t n = view d s n)"

lemma grows_refl: "grows d ip nb nb s s"
  by (auto simp: grows_def intro: exI [of _ "i_addrs (inodes s ip)"])

lemma grows_taken: "grows d ip nb nb' s t \<Longrightarrow> taken d s n \<Longrightarrow> taken d t n"
  by (auto simp: grows_def taken_def)

lemma grows_trans:
  assumes s: "grows d ip nb nb' s t" and t: "grows d ip nb' nb'' t u"
  shows "grows d ip nb nb'' s u"
proof -
  have "n \<notin> fblocks d t ip nb'" if n: "taken d s n" "n \<notin> fblocks d s ip nb" for n
    using s n by (auto simp: grows_def taken_def)
  then have "view d u n = view d s n" if "taken d s n \<and> n \<notin> fblocks d s ip nb" for n
    using s t grows_taken [OF s] that by (auto simp: grows_def)
  moreover have "n \<in> fblocks d s ip nb \<or> (\<exists>b<nblk s. \<not> used d s b \<and> n = of_nat b)" if "n \<in> fblocks d u ip nb''" for n
    using s t that unfolding grows_def by metis
  moreover obtain A B where "inodes t ip = (inodes s ip)\<lparr>i_addrs := A\<rparr>" "inodes u ip = (inodes t ip)\<lparr>i_addrs := B\<rparr>" using s t by (auto simp: grows_def)
  then have "\<exists>A. inodes u ip = (inodes s ip)\<lparr>i_addrs := A\<rparr>" by auto
  ultimately show ?thesis using s t unfolding grows_def by auto
qed

text \<open>The free blocks.\<close>

definition nfree :: "u32 \<Rightarrow> 'z kfs_scheme \<Rightarrow> nat" where
  "nfree d s = card {b. b < nblk s \<and> \<not> used d s b}"

lemma nfree_pos: "0 < nfree d s \<Longrightarrow> \<exists>b<nblk s. \<not> used d s b"
  unfolding nfree_def by (auto simp: card_gt_0_iff)

lemma nfree_step:
  assumes "fs_sb t = fs_sb s" and "\<And>b. b < nblk s \<Longrightarrow> used d t b \<longleftrightarrow> used d s b \<or> b = a"
  shows "nfree d s \<le> Suc (nfree d t)"
proof -
  have "{b. b < nblk s \<and> \<not> used d s b} \<subseteq> insert a {b. b < nblk t \<and> \<not> used d t b}" using assms by auto
  then have "nfree d s \<le> card (insert a {b. b < nblk t \<and> \<not> used d t b})" unfolding nfree_def by (intro card_mono) auto
  then show ?thesis unfolding nfree_def by (simp add: card_insert_if split: if_splits)
qed

context fs_reading
begin

text \<open>\<open>bmap\<close> of a block that is there.\<close>

lemma bmap_there:
  assumes o: "ok s" and f: "fblock d s ip bn \<noteq> 0" "NDIRECT \<le> bn \<Longrightarrow> i_addrs (inodes s ip) NDIRECT \<noteq> 0" "i_dev (inodes s ip) = d" "bn < MAXFILE"
  shows "returns (bmap ip bn s) (\<lambda>a t. a = fblock d s ip bn \<and> ok t \<and> view d t = view d s \<and> kept s t)"
proof -
  have k: "kept s s" by (simp add: kept_def)
  show ?thesis
  proof (cases "bn < NDIRECT")
    case True
    then show ?thesis using f o k by (simp add: bmap_def fblock_def)
  next
    case False
    let ?n = "i_addrs (inodes s ip) NDIRECT"
    obtain x v where x: "bread d ?n s = Ret x v" "has x ?n v" "view d v = view d s" "kept s v" using rd [OF o, of ?n] by (auto simp: returns_iff)
    have "get32 (b_data (bufs v x)) (4 * (bn - NDIRECT)) = fblock d s ip bn" using data [OF x(2)] x(3) False by (simp add: fblock_def)
    moreover have "bn - NDIRECT < NINDIRECT" using f(4) by simp
    ultimately have "bmap ip bn s = andthen (brelse x v) (\<lambda>_ t. Ret (fblock d s ip bn) t)" using f False x(1) by (simp add: bmap_def Let_def)
    then show ?thesis using rel [OF x(2)] x(3) kept_trans [OF x(4)] by (auto elim!: returns_mono)
  qed
qed

end

lemma kept_has:
  assumes v: "view d t = view d s" and k: "kept s t"
  shows "file_has d t ip nb = file_has d s ip nb" "taken d t = taken d s" "nfree d t = nfree d s" "grows d ip nb nb s t"
proof -
  note kk = kfs_kept [OF k] and ls = layout_same [OF v k] and kf = kept_file [OF v k]
  have sz: "view d (sized ip nb t) = view d (sized ip nb s)" using v by (simp add: sized_def)
  show tk: "taken d t = taken d s" using kk ls by (simp add: taken_def fun_eq_iff)
  show "nfree d t = nfree d s" using kk ls by (simp add: nfree_def)
  have "file_ok d (sized ip nb t) ip = file_ok d (sized ip nb s) ip" "inode_apart d (sized ip nb t) ip = inode_apart d (sized ip nb s) ip"
    using kf(1) kept_file [OF sz kept_sized [OF k]] fs_txn.home_kept [OF kept_sized [OF k]] kfs_kept [OF kept_sized [OF k]] by (simp_all add: file_ok_def inode_apart_def file_blocks_def)
  moreover have i: "indirect t ip = indirect s ip" using kk by (simp add: indirect_def)
  ultimately show "file_has d t ip nb = file_has d s ip nb" using kk tk kf v fs_txn.home_kept [OF k] by (simp add: file_has_def)
  have "fblocks d t ip nb = fblocks d s ip nb" using i kf by (simp add: fblocks_def)
  then show "grows d ip nb nb s t" using kk ls v k by (auto simp: grows_def kept_def intro: exI [of _ "i_addrs (inodes s ip)"])
qed

lemma of_nat_block:
  assumes "a < nblk s" "b < nblk s"
  shows "(of_nat a :: u32) = of_nat b \<longleftrightarrow> a = b" "(of_nat a :: u32) = 0 \<longleftrightarrow> a = 0"
proof -
  have n: "nblk s < 4294967296" using unsigned_less [of "sb_size (fs_sb s)", where ?'a = nat] by simp
  have "unat (of_nat x :: u32) = x" if "x < nblk s" for x using less_trans [OF that n] by (simp add: unsigned_of_nat take_bit_nat_eq_self)
  then have "unat (of_nat a :: u32) = a" "unat (of_nat b :: u32) = b" using assms by simp_all
  then show "(of_nat a :: u32) = of_nat b \<longleftrightarrow> a = b" "(of_nat a :: u32) = 0 \<longleftrightarrow> a = 0" unfolding word_unat_eq_iff by simp_all
qed

lemma byte_block: "i < nb * BSIZE \<longleftrightarrow> i div BSIZE < nb"
  by (simp add: div_less_iff_less_mult)

text \<open>\<open>x\<close> was free in \<open>s\<close> and is an allocated block of zeros in \<open>t\<close>, and the other blocks in use are as before, but for those in \<open>E\<close>.\<close>

definition fresh :: "u32 \<Rightarrow> u32 \<Rightarrow> u32 set \<Rightarrow> 'z kfs_scheme \<Rightarrow> 'z kfs_scheme \<Rightarrow> bool" where
  "fresh d x E s t \<longleftrightarrow> x \<noteq> 0 \<and> home x t \<and> taken d t x \<and> \<not> taken d s x \<and> view d t x = replicate BSIZE 0 \<and> (\<exists>b<nblk s. \<not> used d s b \<and> x = of_nat b) \<and>
     (\<forall>n. taken d s n \<longrightarrow> taken d t n \<and> (n \<notin> E \<longrightarrow> view d t n = view d s n)) \<and> (\<forall>b<nblk s. used d s b \<longrightarrow> used d t b) \<and>
     (\<forall>n. home n t = home n s) \<and> fs_sb t = fs_sb s \<and> platter t = platter s \<and> disk_writes t = disk_writes s \<and> log_start t = log_start s \<and> (\<forall>n\<in>E. taken d s n \<longrightarrow> length (view d t n) = length (view d s n))"

lemma allocates_fresh:
  assumes l: "layout_ok d s" and a: "a < nblk s" "\<not> used d s a" and v: "allocates d a s v"
  shows "fresh d (of_nat a) {} s v" "layout_ok d v" "nfree d s \<le> Suc (nfree d v)"
proof -
  let ?x = "of_nat a :: u32"
  have a0: "a \<noteq> 0" "home ?x s" "\<forall>c<nblk s. ?x \<noteq> BBLOCK c (fs_sb s)" using l a by (auto simp: layout_ok_def)
  have k: "kept s v" and vv: "view d v = (view d s)(BBLOCK a (fs_sb s) := mark (a mod BPB) (view d s (BBLOCK a (fs_sb s))), ?x := replicate BSIZE 0)"
    using v by (simp_all add: allocates_def)
  note kk = kfs_kept [OF k] and hk = fs_txn.home_kept [OF k] and us = allocates_used [OF l a v]
  have "taken d v n \<and> view d v n = view d s n" if "taken d s n" for n using that a us kk by (auto simp: vv taken_def)
  moreover have "taken d v ?x" using a0(3) us kk of_nat_block(1) [OF a(1)] by (auto simp: taken_def)
  moreover have "\<not> taken d s ?x" using a by (auto simp: taken_def)
  ultimately show "fresh d ?x {} s v" unfolding fresh_def using of_nat_block(2) [OF a(1,1)] a0 hk us kk a vv k by (auto simp: kept_def)
  show "layout_ok d v" by (rule allocates_layout [OF l a v])
  show "nfree d s \<le> Suc (nfree d v)" by (rule nfree_step [where a = a]) (use kk us in auto)
qed

text \<open>A block more at the end of the file.\<close>

lemma add_block:
  assumes f: "file_has d s ip nb" and fr: "fresh d x {indirect s ip} s t" and nb: "nb < MAXFILE" and fb: "\<And>bn. bn \<le> nb \<Longrightarrow> fblock d t ip bn = (if bn = nb then x else fblock d s ip bn)"
    and ind: "indirect t ip = indirect s ip" "NDIRECT \<le> nb \<Longrightarrow> indirect s ip \<noteq> 0"
    and i: "\<exists>A. inodes t ip = (inodes s ip)\<lparr>i_addrs := A\<rparr>" "\<And>j. j \<noteq> ip \<Longrightarrow> inodes t j = inodes s j"
    and tl: "\<And>bn. bn < NDIRECT \<Longrightarrow> nb < bn \<Longrightarrow> i_addrs (inodes t ip) bn = 0"
      "\<And>j. j < NINDIRECT \<Longrightarrow> nb < NDIRECT + j \<Longrightarrow> indirect s ip \<noteq> 0 \<Longrightarrow> get32 (view d t (indirect s ip)) (4 * j) = 0"
  shows "file_has d t ip (Suc nb)" "grows d ip nb (Suc nb) s t" "\<And>i. i < nb * BSIZE \<Longrightarrow> fbyte d t ip i = fbyte d s ip i"
proof -
  let ?I = "IBLOCK (i_inum (inodes s ip)) (fs_sb s)"
  note D = file_hasD [OF f]
  have F: "x \<noteq> 0" "home x t" "taken d t x" "\<not> taken d s x" "view d t x = replicate BSIZE 0" "\<And>n. taken d s n \<Longrightarrow> taken d t n"
    "\<And>n. taken d s n \<Longrightarrow> n \<noteq> indirect s ip \<Longrightarrow> view d t n = view d s n" "\<And>n. home n t = home n s" "fs_sb t = fs_sb s" "taken d s (indirect s ip) \<Longrightarrow> length (view d t (indirect s ip)) = length (view d s (indirect s ip))"
    using fr by (auto simp: fresh_def)
  obtain A where A: "inodes t ip = (inodes s ip)\<lparr>i_addrs := A\<rparr>" using i(1) by blast
  have H: "fsize s ip \<le> nb * BSIZE" "taken d s ?I" "\<And>bn. bn < nb \<Longrightarrow> taken d s (fblock d s ip bn)" "nb < NDIRECT \<Longrightarrow> indirect s ip = 0"
    "indirect s ip \<noteq> 0 \<Longrightarrow> taken d s (indirect s ip) \<and> home (indirect s ip) s \<and> length (view d s (indirect s ip)) = BSIZE" using f by (auto simp: file_has_def)
  have nx: "n \<noteq> x" if "taken d s n" for n using that F(4) by blast
  have xi: "x \<noteq> indirect s ip" using F(1) H(5) nx by (cases "indirect s ip = 0") auto
  have img: "fblocks d t ip (Suc nb) = insert x (fblocks d s ip nb)" using fb ind(1) by (auto simp: fblocks_def lessThan_Suc)
  have old: "fblock d t ip bn = fblock d s ip bn" "view d t (fblock d s ip bn) = view d s (fblock d s ip bn)" if "bn < nb" for bn
    using fb [of bn] that F(7) H(3) D(6) by simp_all
  show "file_has d t ip (Suc nb)"
  proof (rule file_hasI)
    show "i_dev (inodes t ip) = d" "Suc nb \<le> MAXFILE" "fsize t ip \<le> Suc nb * BSIZE" using D(1) A nb H(1) by simp_all
    fix bn assume bn: "bn < Suc nb"
    show "fblock d t ip bn \<noteq> 0 \<and> length (view d t (fblock d t ip bn)) = BSIZE \<and> home (fblock d t ip bn) t \<and> (NDIRECT \<le> bn \<longrightarrow> indirect t ip \<noteq> 0) \<and>
        fblock d t ip bn \<noteq> indirect t ip \<and> taken d t (fblock d t ip bn)"
    proof (cases "bn = nb")
      case True
      then have "fblock d t ip bn = x" using fb [of bn] by simp
      then show ?thesis using True F(1-3,5) xi ind by simp
    next
      case False
      then have bn': "bn < nb" using bn by simp
      show ?thesis using D(2-6) [OF bn'] old [OF bn'] H(3) [OF bn'] F(6,8) ind(1) by simp
    qed
  next
    show "inj_on (fblock d t ip) {..<Suc nb}"
    proof (rule inj_onI)
      fix i j assume ij: "i \<in> {..<Suc nb}" "j \<in> {..<Suc nb}" "fblock d t ip i = fblock d t ip j"
      have ne: "fblock d s ip m \<noteq> x" if "m < nb" for m using nx H(3) that by blast
      show "i = j"
      proof (cases "i < nb \<and> j < nb")
        case True
        then have "fblock d s ip i = fblock d s ip j" using ij(3) old by simp
        then show ?thesis using D(7) True by (simp add: inj_on_def)
      next
        case False
        then show ?thesis using ij fb [of i] fb [of j] ne [of i] ne [of j] by (cases "i = nb"; cases "j = nb") auto
      qed
    qed
  next
    have "IBLOCK (i_inum (inodes t ip)) (fs_sb t) = ?I" using A F(9) by simp
    then show "home (IBLOCK (i_inum (inodes t ip)) (fs_sb t)) t" "taken d t (IBLOCK (i_inum (inodes t ip)) (fs_sb t))" "IBLOCK (i_inum (inodes t ip)) (fs_sb t) \<notin> fblocks d t ip (Suc nb)"
      using D(8,9) F(6,8) H(2) img nx by auto
  next
    show "\<And>bn. bn < NDIRECT \<Longrightarrow> Suc nb \<le> bn \<Longrightarrow> i_addrs (inodes t ip) bn = 0" "Suc nb < NDIRECT \<Longrightarrow> indirect t ip = 0" using tl(1) H(4) ind(1) by simp_all
    show "indirect t ip \<noteq> 0 \<Longrightarrow> taken d t (indirect t ip) \<and> home (indirect t ip) t \<and> length (view d t (indirect t ip)) = BSIZE \<and>
       (\<forall>j<NINDIRECT. Suc nb \<le> NDIRECT + j \<longrightarrow> get32 (view d t (indirect t ip)) (4 * j) = 0)" using H(5) F(6,8,10) ind(1) tl(2) by simp
  qed
  have "\<forall>n\<in>fblocks d t ip (Suc nb). n \<in> fblocks d s ip nb \<or> (\<exists>b<nblk s. \<not> used d s b \<and> n = of_nat b)" using fr unfolding img fresh_def by blast
  moreover have "\<forall>n. taken d s n \<and> n \<notin> fblocks d s ip nb \<longrightarrow> view d t n = view d s n" using F(7) by (auto simp: fblocks_def)
  ultimately show "grows d ip nb (Suc nb) s t" unfolding grows_def using fr i by (auto simp: fresh_def)
  show "fbyte d t ip i = fbyte d s ip i" if "i < nb * BSIZE" for i using that old [of "i div BSIZE"] unfolding byte_block by (simp add: fbyte_def)
qed

text \<open>What \<open>bmap\<close> of the block after the last one gives: the block is allocated, filled with zeros, and can be found in the inode or the indirect block.\<close>

definition grown :: "nat \<Rightarrow> u32 \<Rightarrow> nat \<Rightarrow> nat \<Rightarrow> nat \<Rightarrow> 'z kfs_scheme \<Rightarrow> u32 \<Rightarrow> 'z kfs_scheme \<Rightarrow> bool" where
  "grown p d k ip nb s a t \<longleftrightarrow> a = fblock d t ip nb \<and> tx p d {} k t \<and> layout_ok d t \<and> file_has d t ip (Suc nb) \<and> grows d ip nb (Suc nb) s t \<and>
     nfree d s \<le> Suc (nfree d t) \<and> (\<forall>i<nb * BSIZE. fbyte d t ip i = fbyte d s ip i)"

lemma upd_inode_taken [simp]: "taken d (upd_inode ip f s) = taken d s" "nfree d (upd_inode ip f s) = nfree d s"
  by (simp_all add: taken_def nfree_def fun_eq_iff)

lemma bmap_direct:
  assumes t: "tx p d {} (Suc (Suc k)) s" and l: "layout_ok d s" and f: "file_has d s ip nb" and nb: "nb < NDIRECT" and fr: "0 < nfree d s"
  shows "returns (bmap ip nb s) (grown p d k ip nb s)"
proof -
  obtain a where a: "a < nblk s" "\<not> used d s a" "\<And>j. j < a \<Longrightarrow> used d s j" using first_free [OF nfree_pos [OF fr]] by blast
  obtain v where v: "balloc d s = Ret (of_nat a) v" "tx p d {} k v" "allocates d a s v" using fs_alloc.balloc_spec [OF t l a] by (auto simp: returns_iff)
  let ?x = "of_nat a :: u32"
  let ?t = "upd_inode ip (\<lambda>x. x\<lparr>i_addrs := (i_addrs x)(nb := ?x)\<rparr>) v"
  note A = allocates_fresh [OF l a(1,2) v(3)]
  have kk: "inodes v = inodes s" using v(3) kfs_kept [of s v] by (simp add: allocates_def)
  have F: "fresh d ?x {indirect s ip} s ?t" using A(1) by (auto simp: fresh_def)
  have z: "i_addrs (inodes s ip) nb = 0" "indirect s ip = 0" "i_dev (inodes s ip) = d" "\<And>bn. bn < NDIRECT \<Longrightarrow> nb \<le> bn \<Longrightarrow> i_addrs (inodes s ip) bn = 0"
    using f nb file_hasD(1) [OF f] by (auto simp: file_has_def)
  have b: "bmap ip nb s = Ret ?x ?t" using nb v(1) z A(1) by (simp add: bmap_def fresh_def)
  have fb: "fblock d ?t ip bn = (if bn = nb then ?x else fblock d s ip bn)" if "bn \<le> nb" for bn using that nb kk by (simp add: fblock_def)
  have "nb < MAXFILE" "\<exists>A. inodes ?t ip = (inodes s ip)\<lparr>i_addrs := A\<rparr>" using nb kk by auto
  note B = add_block [OF f F this(1) fb _ _ this(2)]
  have "file_has d ?t ip (Suc nb)" "grows d ip nb (Suc nb) s ?t" "\<forall>i<nb * BSIZE. fbyte d ?t ip i = fbyte d s ip i"
    using B nb kk z(2,4) by (auto simp: indirect_def)
  then show ?thesis using b fb [of nb] v(2) A(2,3) by (simp add: grown_def)
qed

text \<open>An entry of the indirect block.\<close>

lemma fresh_write:
  assumes f: "fresh d x {} s w" and l: "layout_ok d w" and k: "kept w u" and v: "view d u = (view d w)(i := y)" and i: "taken d s i" and y: "length y = length (view d w i)"
  shows "fresh d x {i} s u" "layout_ok d u" "nfree d u = nfree d w"
proof -
  note kk = kfs_kept [OF k] and hk = fs_txn.home_kept [OF k]
  have F: "taken d w i" "fs_sb w = fs_sb s" "i \<noteq> x" "view d w i = view d s i" using f i by (auto simp: fresh_def)
  have "view d u (BBLOCK c (fs_sb w)) = view d w (BBLOCK c (fs_sb w))" if "c < nblk w" for c using F(1) that v by (auto simp: taken_def)
  then have us: "used d u c = used d w c" if "c < nblk w" for c using kk that by (simp add: used_def)
  have tu: "taken d u = taken d w" using us kk by (simp add: taken_def fun_eq_iff)
  show "layout_ok d u" using l us y v kk hk by (auto simp: layout_ok_def)
  show "nfree d u = nfree d w" unfolding nfree_def using us kk by (metis (no_types, lifting))
  show "fresh d x {i} s u" using f F y v kk hk us tu k unfolding fresh_def by (auto simp: kept_def)
qed

lemma bmap_entry:
  assumes t: "tx p d {} (Suc (Suc (Suc k))) s" and l: "layout_ok d s" and f: "file_has d s ip nb" and nb: "NDIRECT \<le> nb" "nb < MAXFILE" and i0: "indirect s ip \<noteq> 0" and fr: "0 < nfree d s"
  shows "returns (bmap ip nb s) (grown p d k ip nb s)"
proof -
  let ?i = "indirect s ip" and ?j = "nb - NDIRECT"
  have j: "?j < NINDIRECT" using nb by simp
  have I: "taken d s ?i" "home ?i s" "length (view d s ?i) = BSIZE" "i_dev (inodes s ip) = d" "\<And>j. j < NINDIRECT \<Longrightarrow> nb \<le> NDIRECT + j \<Longrightarrow> get32 (view d s ?i) (4 * j) = 0"
    using f i0 file_hasD(1) [OF f] by (auto simp: file_has_def)
  obtain a where a: "a < nblk s" "\<not> used d s a" "\<And>j. j < a \<Longrightarrow> used d s j" using first_free [OF nfree_pos [OF fr]] by blast
  let ?x = "of_nat a :: u32"
  obtain y v where v: "bread d ?i s = Ret y v" "tx_has p d (Suc (Suc (Suc k))) y ?i v" "view d v = view d s" "kept s v" using fs_txn.rd [OF t, of ?i] by (auto simp: returns_iff)
  note kv = kfs_kept [OF v(4)] and lv = layout_same [OF v(3,4)]
  have e0: "get32 (b_data (bufs v y)) (4 * ?j) = 0" using fs_txn.data [OF v(2)] v(3) I(5) [OF j] nb by simp
  have "b < nblk v \<Longrightarrow> BBLOCK b (fs_sb v) \<noteq> ?i" "?x \<noteq> ?i" for b using I(1) a kv by (auto simp: taken_def)
  then obtain w where w: "balloc d v = Ret ?x w" "tx_has p d (Suc k) y ?i w" "allocates d a v w"
    using ind_alloc.balloc_spec [OF v(2), of a] l lv a kv by (auto simp: returns_iff)
  have sw: "allocates d a s w" by (rule allocates_kept [OF w(3) v(3,4)])
  note A = allocates_fresh [OF l a(1,2) sw]
  have ks: "kept s w" using sw by (simp add: allocates_def)
  have "home ?i w" using I(2) fs_txn.home_kept [OF ks] by simp
  from fs_txn.wr [OF w(2) this, of "put32 (4 * ?j) ?x"]
  obtain u where u: "log_put y (put32 (4 * ?j) ?x) w = Ret () u" "tx p d {} k u" "view d u = (view d w)(?i := put32 (4 * ?j) ?x (view d w ?i))" "kept w u" by (auto simp: returns_iff)
  note W = fresh_write [OF A(1,2) u(4,3) I(1) length_put32]
  have nx: "?x \<noteq> 0" "view d w ?i = view d s ?i" using A(1) I(1) by (auto simp: fresh_def)
  have b: "bmap ip nb s = Ret ?x u"
  proof -
    have "bmap ip nb s = andthen (log_put y (put32 (4 * ?j) ?x) w) (\<lambda>_ s. Ret ?x s)"
      using nb(1) j i0 I(4) v(1) kv e0 w(1) nx by (simp add: bmap_def Let_def indirect_def log_put_def andthen_assoc)
    then show ?thesis using u(1) by simp
  qed
  have ku: "inodes u = inodes s" using kfs_kept [OF ks] kfs_kept [OF u(4)] by simp
  have iu: "indirect u ip = ?i" by (simp add: indirect_def ku)
  have g: "get32 (view d u ?i) (4 * m) = (if m = ?j then ?x else get32 (view d s ?i) (4 * m))" if "m < NINDIRECT" for m
    using that j I(3) nx(2) u(3) get32_put32 [of "4 * ?j" "view d s ?i" ?x] get32_put32_other [of "4 * ?j" "4 * m" ?x "view d s ?i"] by (cases "m < ?j") auto
  have fb: "fblock d u ip bn = (if bn = nb then ?x else fblock d s ip bn)" if "bn \<le> nb" for bn
  proof (cases "bn < NDIRECT")
    case True
    then show ?thesis using nb(1) by (simp add: fblock_def ku)
  next
    case False
    then have "bn - NDIRECT < NINDIRECT" "bn - NDIRECT = ?j \<longleftrightarrow> bn = nb" using that nb by auto
    then show ?thesis using False g [of "bn - NDIRECT"] iu by (simp add: fblock_def indirect_def)
  qed
  have ex: "\<exists>A. inodes u ip = (inodes s ip)\<lparr>i_addrs := A\<rparr>" by (intro exI [of _ "i_addrs (inodes s ip)"]) (simp add: ku)
  have js: "\<And>j. j \<noteq> ip \<Longrightarrow> inodes u j = inodes s j" by (simp add: ku)
  have tl: "\<And>bn. bn < NDIRECT \<Longrightarrow> nb < bn \<Longrightarrow> i_addrs (inodes u ip) bn = 0"
    "\<And>m. m < NINDIRECT \<Longrightarrow> nb < NDIRECT + m \<Longrightarrow> indirect s ip \<noteq> 0 \<Longrightarrow> get32 (view d u ?i) (4 * m) = 0" using nb(1) g I(5) by auto
  note B = add_block [OF f W(1) nb(2) fb iu i0 ex js tl]
  show ?thesis using b fb [of nb] u(2) W(2,3) A(3) B by (simp add: grown_def)
qed

text \<open>The indirect block itself.\<close>

definition missing :: "'z kfs_scheme \<Rightarrow> nat \<Rightarrow> nat" where
  "missing s ip = (if indirect s ip = 0 then 1 else 0)"

lemma add_indirect:
  assumes l: "layout_ok d s" and f: "file_has d s ip nb" and nb: "nb = NDIRECT" and i0: "indirect s ip = 0" and a: "a < nblk s" "\<not> used d s a" and v: "allocates d a s v"
    and t: "t = upd_inode ip (\<lambda>x. x\<lparr>i_addrs := (i_addrs x)(NDIRECT := of_nat a)\<rparr>) v"
  shows "file_has d t ip nb" "grows d ip nb nb s t" "indirect t ip \<noteq> 0" "i < nb * BSIZE \<Longrightarrow> fbyte d t ip i = fbyte d s ip i" "layout_ok d t" "nfree d s \<le> Suc (nfree d t)"
proof -
  let ?x = "of_nat a :: u32" and ?I = "IBLOCK (i_inum (inodes s ip)) (fs_sb s)"
  note A = allocates_fresh [OF l a v] and D = file_hasD [OF f]
  have kk: "inodes v = inodes s" using v kfs_kept [of s v] by (simp add: allocates_def)
  have F: "?x \<noteq> 0" "home ?x t" "taken d t ?x" "\<not> taken d s ?x" "view d t ?x = replicate BSIZE 0" "\<And>n. taken d s n \<Longrightarrow> taken d t n \<and> view d t n = view d s n"
    "\<And>n. home n t = home n s" "fs_sb t = fs_sb s" using A(1) by (auto simp: fresh_def t)
  have it: "inodes t ip = (inodes s ip)\<lparr>i_addrs := (i_addrs (inodes s ip))(NDIRECT := ?x)\<rparr>" "\<And>j. j \<noteq> ip \<Longrightarrow> inodes t j = inodes s j" by (simp_all add: t kk)
  show i: "indirect t ip \<noteq> 0" using F(1) by (simp add: indirect_def it)
  have ix: "indirect t ip = ?x" by (simp add: indirect_def it)
  have fb: "fblock d t ip bn = fblock d s ip bn" if "bn < nb" for bn using that nb by (simp add: fblock_def it)
  have H: "fsize s ip \<le> nb * BSIZE" "taken d s ?I" "\<And>bn. bn < nb \<Longrightarrow> taken d s (fblock d s ip bn)" using f by (auto simp: file_has_def)
  have nx: "n \<noteq> ?x" if "taken d s n" for n using that F(4) by blast
  have img: "fblock d t ip ` {..<nb} = fblock d s ip ` {..<nb}" using fb by auto
  have z: "get32 (replicate BSIZE 0) (4 * j) = 0" if "j < NINDIRECT" for j using that by (simp add: get32_def)
  show "file_has d t ip nb"
  proof (rule file_hasI)
    show "i_dev (inodes t ip) = d" "nb \<le> MAXFILE" "fsize t ip \<le> nb * BSIZE" using D(1) H(1) by (simp_all add: it nb)
    show "fblock d t ip bn \<noteq> 0 \<and> length (view d t (fblock d t ip bn)) = BSIZE \<and> home (fblock d t ip bn) t \<and> (NDIRECT \<le> bn \<longrightarrow> indirect t ip \<noteq> 0) \<and>
        fblock d t ip bn \<noteq> indirect t ip \<and> taken d t (fblock d t ip bn)" if bn: "bn < nb" for bn
      using D(2-4) [OF bn] fb [OF bn] H(3) [OF bn] F(6,7) i ix nx by auto
    show "inj_on (fblock d t ip) {..<nb}" using D(7) fb by (auto simp: inj_on_def)
    show "home (IBLOCK (i_inum (inodes t ip)) (fs_sb t)) t" "taken d t (IBLOCK (i_inum (inodes t ip)) (fs_sb t))" using D(8) F(6-8) H(2) by (simp_all add: it)
    show "IBLOCK (i_inum (inodes t ip)) (fs_sb t) \<notin> fblocks d t ip nb" using D(9) F(8) nx [OF H(2)] img ix by (simp add: fblocks_def it)
  qed (use nb z F(2,3,5) ix in auto)
  have "\<forall>n\<in>fblocks d t ip nb. n \<in> fblocks d s ip nb \<or> (\<exists>b<nblk s. \<not> used d s b \<and> n = of_nat b)" using a img ix by (auto simp: fblocks_def)
  then show "grows d ip nb nb s t" using A(1) F(6) it unfolding grows_def fresh_def t by auto
  show "fbyte d t ip i = fbyte d s ip i" if "i < nb * BSIZE" using that fb [of "i div BSIZE"] H(3) [of "i div BSIZE"] F(6) unfolding byte_block by (simp add: fbyte_def)
  show "layout_ok d t" "nfree d s \<le> Suc (nfree d t)" using A(2,3) by (simp_all add: t)
qed

lemma tx_le: "tx p d R k s \<Longrightarrow> k' \<le> k \<Longrightarrow> tx p d R k' s"
  by (simp add: tx_def)

lemma missing_le: "missing s ip \<le> 1"
  by (simp add: missing_def)

lemma grows_grown:
  assumes "grows d ip nb nb s v" and "grown p d k ip nb v a t" and "\<And>i. i < nb * BSIZE \<Longrightarrow> fbyte d v ip i = fbyte d s ip i"
  shows "grows d ip nb (Suc nb) s t" "\<And>i. i < nb * BSIZE \<Longrightarrow> fbyte d t ip i = fbyte d s ip i"
  using assms grows_trans [of d ip nb nb s v "Suc nb" t] by (simp_all add: grown_def)

text \<open>The block after the last one, direct or indirect. Up to five blocks are logged, when the indirect block is allocated too.\<close>

lemma bmap_new:
  fixes s :: "'z kfs_scheme"
  assumes t: "tx p d {} (Suc (Suc (Suc (2 * missing s ip + k)))) s" and l: "layout_ok d s" and f: "file_has d s ip nb" and nb: "nb < MAXFILE" and fr: "missing s ip < nfree d s"
  shows "returns (bmap ip nb s) (\<lambda>a t. a = fblock d t ip nb \<and> tx p d {} (2 * missing t ip + k) t \<and> layout_ok d t \<and> file_has d t ip (Suc nb) \<and> grows d ip nb (Suc nb) s t \<and>
    nfree d s + missing t ip \<le> Suc (nfree d t + missing s ip) \<and> (\<forall>i<nb * BSIZE. fbyte d t ip i = fbyte d s ip i))"
proof -
  consider "nb < NDIRECT" | "NDIRECT \<le> nb" "indirect s ip \<noteq> 0" | "nb = NDIRECT" "indirect s ip = 0"
    using file_hasD(5) [OF f, of NDIRECT] by (cases nb NDIRECT rule: linorder_cases; cases "indirect s ip = 0") auto
  then show ?thesis
  proof cases
    case 1
    then have "missing s ip = 1" using f by (simp add: file_has_def missing_def)
    then have "returns (bmap ip nb s) (grown p d (Suc (2 * 1 + k)) ip nb s)" using bmap_direct [OF _ l f 1, of p "Suc (2 * 1 + k)"] t fr by simp
    then show ?thesis
    proof (rule returns_mono)
      fix a t assume g: "grown p d (Suc (2 * 1 + k)) ip nb s a t"
      have "2 * missing t ip + k \<le> Suc (2 * 1 + k)" using missing_le [of t ip] by linarith
      then have "tx p d {} (2 * missing t ip + k) t" using g tx_le unfolding grown_def by blast
      then show "a = fblock d t ip nb \<and> tx p d {} (2 * missing t ip + k) t \<and> layout_ok d t \<and> file_has d t ip (Suc nb) \<and> grows d ip nb (Suc nb) s t \<and>
         nfree d s + missing t ip \<le> Suc (nfree d t + missing s ip) \<and> (\<forall>i<nb * BSIZE. fbyte d t ip i = fbyte d s ip i)"
        using g missing_le [of t ip] \<open>missing s ip = 1\<close> by (simp add: grown_def)
    qed
  next
    case 2
    then have m: "missing s ip = 0" by (simp add: missing_def)
    have "missing t ip = 0" if "file_has d t ip (Suc nb)" for t :: "'z kfs_scheme" using file_hasD(5) [OF that lessI 2(1)] by (simp add: missing_def)
    then show ?thesis using bmap_entry [OF _ l f 2(1) nb 2(2), of p k] t fr m by (auto simp: grown_def elim!: returns_mono)
  next
    case 3
    then have m: "missing s ip = 1" by (simp add: missing_def)
    have fr': "1 < nfree d s" using fr m by simp
    then have "0 < nfree d s" by simp
    then obtain a where a: "a < nblk s" "\<not> used d s a" "\<And>j. j < a \<Longrightarrow> used d s j" using first_free [OF nfree_pos] by blast
    have "tx p d {} (Suc (Suc (Suc (Suc (Suc k))))) s" using t m by simp
    then obtain v where v: "balloc d s = Ret (of_nat a) v" "tx p d {} (Suc (Suc (Suc k))) v" "allocates d a s v" using fs_alloc.balloc_spec [OF _ l a] by (auto simp: returns_iff)
    define u where "u = upd_inode ip (\<lambda>x. x\<lparr>i_addrs := (i_addrs x)(NDIRECT := of_nat a)\<rparr>) v"
    note A = add_indirect [OF l f 3 a(1,2) v(3) u_def]
    have kk: "inodes v = inodes s" using v(3) kfs_kept [of s v] by (simp add: allocates_def)
    have x: "(of_nat a :: u32) \<noteq> 0" using A(3) by (simp add: u_def indirect_def)
    have "bmap ip nb s = bmap ip nb u" using 3 v(1) file_hasD(1) [OF f] x by (simp add: bmap_def indirect_def Let_def u_def kk)
    moreover have "tx p d {} (Suc (Suc (Suc k))) u" "0 < nfree d u" "NDIRECT \<le> nb" using v(2) A(6) fr' 3(1) by (simp_all add: u_def)
    ultimately have r: "returns (bmap ip nb s) (grown p d k ip nb u)" using bmap_entry [OF _ A(5,1) _ nb A(3)] by simp
    have mt: "missing t ip = 0" if "file_has d t ip (Suc nb)" for t :: "'z kfs_scheme" using file_hasD(5) [OF that lessI] 3(1) by (simp add: missing_def)
    from r show ?thesis
    proof (rule returns_mono)
      fix b t assume g: "grown p d k ip nb u b t"
      then have "file_has d t ip (Suc nb)" by (simp add: grown_def)
      then show "b = fblock d t ip nb \<and> tx p d {} (2 * missing t ip + k) t \<and> layout_ok d t \<and> file_has d t ip (Suc nb) \<and> grows d ip nb (Suc nb) s t \<and>
         nfree d s + missing t ip \<le> Suc (nfree d t + missing s ip) \<and> (\<forall>i<nb * BSIZE. fbyte d t ip i = fbyte d s ip i)"
        using g grows_grown [OF A(2) g A(4)] mt A(6) m by (simp add: grown_def)
    qed
  qed
qed

text \<open>Writing into one block of the file.\<close>

lemma write_has:
  assumes l: "layout_ok d v" and f: "file_has d v ip nb" and bn: "off div BSIZE < nb" and b: "off mod BSIZE + length bs \<le> BSIZE" and k: "kept v u"
    and vu: "view d u = (view d v)(fblock d v ip (off div BSIZE) := write_at (off mod BSIZE) bs (view d v (fblock d v ip (off div BSIZE))))"
  shows "layout_ok d u" "file_has d u ip nb" "nfree d u = nfree d v" "grows d ip nb nb v u"
    "i < nb * BSIZE \<Longrightarrow> fbyte d u ip i = (if off \<le> i \<and> i < off + length bs then bs ! (i - off) else fbyte d v ip i)"
proof -
  let ?a = "fblock d v ip (off div BSIZE)" and ?V = "sized ip nb v" and ?U = "sized ip nb u"
  have n: "nb \<le> MAXFILE" and fo: "file_ok d ?V ip" and tk: "taken d v ?a" using f bn by (simp_all add: file_has_def)
  note kk = kfs_kept [OF k] and hk = fs_txn.home_kept [OF k] and sb = sized_blocks [OF n]
  have vs: "view d ?V = view d v" "view d ?U = view d u" by (simp_all add: sized_def)
  have W: "file_write d ip off bs ?V ?U" by (rule write_block [OF fo]) (use bn b vu kept_sized [OF k] in \<open>simp_all add: sb vs\<close>)
  have fw: "file_ok d ?U ip" "fblock d u ip m = fblock d v ip m" for m using file_write_blocks(1,2) [OF W fo] by simp_all
  have bt: "fbyte d u ip i = (if off \<le> i \<and> i < off + length bs then bs ! (i - off) else fbyte d v ip i)" if "i < nb * BSIZE" for i
    using W that unfolding file_write_def sb(1) fblock_sized by blast
  have fe: "fblock d u ip = fblock d v ip" using fw(2) by blast
  have len: "length (view d v ?a) = BSIZE" using file_hasD(3) [OF f bn] .
  have "view d u (BBLOCK c (fs_sb v)) = view d v (BBLOCK c (fs_sb v))" if "c < nblk v" for c using tk that vu by (auto simp: taken_def)
  then have us: "used d u c = used d v c" if "c < nblk v" for c using kk that by (simp add: used_def)
  have ln: "length (view d u m) = length (view d v m)" for m using b len by (simp add: vu length_write_at)
  then show "layout_ok d u" using l us kk hk by (simp add: layout_ok_def)
  have tu: "taken d u = taken d v" using us kk by (simp add: taken_def fun_eq_iff)
  show "nfree d u = nfree d v" unfolding nfree_def using us kk by (metis (no_types, lifting))
  have "inode_apart d ?U ip = inode_apart d ?V ip" using kfs_kept [OF kept_sized [OF k, of ip nb]] fs_txn.home_kept [OF kept_sized [OF k, of ip nb]] fe
    by (simp add: inode_apart_def file_blocks_def)
  moreover have iu: "indirect u ip = indirect v ip" by (simp add: indirect_def kk)
  moreover have "view d u (indirect v ip) = view d v (indirect v ip)" using file_hasD(6) [OF f bn] vu by simp
  ultimately show "file_has d u ip nb" using f fw(1) tu fe kk hk by (simp add: file_has_def)
  have fbs: "fblocks d u ip nb = fblocks d v ip nb" "?a \<in> fblocks d v ip nb" using iu fe bn by (simp_all add: fblocks_def)
  have "\<exists>A. inodes u ip = (inodes v ip)\<lparr>i_addrs := A\<rparr>" using kk by (intro exI [of _ "i_addrs (inodes v ip)"]) simp
  then show "grows d ip nb nb v u" unfolding grows_def fbs(1) using k kk us fbs(2) by (auto simp: kept_def vu)
  show "i < nb * BSIZE \<Longrightarrow> fbyte d u ip i = (if off \<le> i \<and> i < off + length bs then bs ! (i - off) else fbyte d v ip i)" by (rule bt)
qed

text \<open>\<open>bmap\<close> of a block that is there or is the next one.\<close>

lemma bmap_has:
  assumes t: "tx p d {} (Suc (Suc (Suc (2 * missing s ip + k)))) s" and l: "layout_ok d s" and f: "file_has d s ip nb" and bn: "bn \<le> nb" "bn < MAXFILE" and fr: "missing s ip < nfree d s"
  shows "returns (bmap ip bn s) (\<lambda>a t. a = fblock d t ip bn \<and> tx p d {} (2 * missing t ip + k) t \<and> layout_ok d t \<and> file_has d t ip (max nb (Suc bn)) \<and> grows d ip nb (max nb (Suc bn)) s t \<and>
    nfree d s + missing t ip \<le> Suc (nfree d t + missing s ip) \<and> (\<forall>i<nb * BSIZE. fbyte d t ip i = fbyte d s ip i))"
proof (cases "bn = nb")
  case True
  then show ?thesis using bmap_new [OF t l f _ fr] bn(2) by (auto simp: max_def elim!: returns_mono)
next
  case False
  then have b: "bn < nb" "max nb (Suc bn) = nb" using bn(1) by auto
  have t': "tx p d {} (2 * missing s ip + k) s" using tx_le [OF t] by simp
  note D = file_hasD [OF f]
  have "returns (bmap ip bn s) (\<lambda>a t. a = fblock d s ip bn \<and> tx p d {} (2 * missing s ip + k) t \<and> view d t = view d s \<and> kept s t)"
    by (rule fsw.bmap_there [OF t']) (use D(1,2,5) b bn(2) in \<open>auto simp: indirect_def\<close>)
  then show ?thesis
  proof (rule returns_mono, elim conjE)
    fix a v assume v: "a = fblock d s ip bn" "tx p d {} (2 * missing s ip + k) v" "view d v = view d s" "kept s v"
    have "missing v ip = missing s ip" using kfs_kept [OF v(4)] by (simp add: missing_def indirect_def)
    then show "a = fblock d v ip bn \<and> tx p d {} (2 * missing v ip + k) v \<and> layout_ok d v \<and> file_has d v ip (max nb (Suc bn)) \<and> grows d ip nb (max nb (Suc bn)) s v \<and>
        nfree d s + missing v ip \<le> Suc (nfree d v + missing s ip) \<and> (\<forall>i<nb * BSIZE. fbyte d v ip i = fbyte d s ip i)"
      using kept_has [OF v(3,4)] layout_same [OF v(3,4)] kept_file [OF v(3,4)] l f b(2) v(1,2) by simp
  qed
qed

subsection \<open>The loop of writei\<close>

text \<open>The bytes of the file afterwards, where there were bytes or have been written some.\<close>

definition bytes_put :: "u32 \<Rightarrow> nat \<Rightarrow> nat \<Rightarrow> nat \<Rightarrow> u8 list \<Rightarrow> 'z kfs_scheme \<Rightarrow> 'z kfs_scheme \<Rightarrow> bool" where
  "bytes_put d ip nb off bs s t \<longleftrightarrow> (\<forall>i. i < nb * BSIZE \<or> off \<le> i \<and> i < off + length bs \<longrightarrow>
     fbyte d t ip i = (if off \<le> i \<and> i < off + length bs then bs ! (i - off) else fbyte d s ip i))"

lemma bytes_put_trans:
  assumes s: "bytes_put d ip nb off bs s t" and t: "bytes_put d ip nb' (off + length bs) cs t u" and nb: "nb \<le> nb'" "off + length bs \<le> nb' * BSIZE"
  shows "bytes_put d ip nb off (bs @ cs) s u"
  unfolding bytes_put_def
proof (intro allI impI)
  fix i assume i: "i < nb * BSIZE \<or> off \<le> i \<and> i < off + length (bs @ cs)"
  have m: "nb * BSIZE \<le> nb' * BSIZE" using nb(1) by (rule mult_le_mono1)
  show "fbyte d u ip i = (if off \<le> i \<and> i < off + length (bs @ cs) then (bs @ cs) ! (i - off) else fbyte d s ip i)"
  proof (cases "off + length bs \<le> i \<and> i < off + length bs + length cs")
    case True
    then have "fbyte d u ip i = cs ! (i - (off + length bs))" using t by (simp add: bytes_put_def)
    moreover have "\<not> i - off < length bs" "i - off - length bs = i - (off + length bs)" using True by auto
    ultimately show ?thesis using True by (simp add: nth_append)
  next
    case False
    have "i < nb' * BSIZE" using i False nb(2) m by auto
    then have "fbyte d u ip i = fbyte d t ip i" using t False by (auto simp: bytes_put_def)
    moreover have "fbyte d t ip i = (if off \<le> i \<and> i < off + length bs then bs ! (i - off) else fbyte d s ip i)" using s i False by (auto simp: bytes_put_def)
    ultimately show ?thesis using False by (auto simp: nth_append)
  qed
qed

definition put_result :: "nat \<Rightarrow> u32 \<Rightarrow> nat \<Rightarrow> nat \<Rightarrow> nat \<Rightarrow> nat \<Rightarrow> u8 list \<Rightarrow> 'z kfs_scheme \<Rightarrow> 'z kfs_scheme \<Rightarrow> bool" where
  "put_result p d k ip nb off bs s t \<longleftrightarrow> tx p d {} k t \<and> layout_ok d t \<and> bytes_put d ip nb off bs s t \<and>
     (\<exists>nb'. file_has d t ip nb' \<and> off + length bs \<le> nb' * BSIZE \<and> grows d ip nb nb' s t)"

text \<open>One round: at most four blocks are logged and one is allocated, and once the indirect block.\<close>

lemma writei_round:
  assumes t: "tx p d {} (Suc (Suc (Suc (2 * missing s ip + Suc k)))) s" and l: "layout_ok d s" and f: "file_has d s ip nb" and bn: "off div BSIZE \<le> nb" "off div BSIZE < MAXFILE"
    and fr: "missing s ip < nfree d s" and b: "off mod BSIZE + length bs \<le> BSIZE" "0 < length bs"
  obtains v x w u where "bmap ip (off div BSIZE) s = Ret (fblock d v ip (off div BSIZE)) v" "fblock d v ip (off div BSIZE) \<noteq> 0" "i_dev (inodes v ip) = d"
    "bread d (fblock d v ip (off div BSIZE)) v = Ret x w" "cpu_ok w" "log_put x (write_at (off mod BSIZE) bs) (settle w) = Ret () u"
    "tx p d {} (2 * missing u ip + k) u" "layout_ok d u" "file_has d u ip (max nb (Suc (off div BSIZE)))" "grows d ip nb (max nb (Suc (off div BSIZE))) s u"
    "nfree d s + missing u ip \<le> Suc (nfree d u + missing s ip)" "bytes_put d ip nb off bs s u"
proof -
  let ?bn = "off div BSIZE" let ?nb = "max nb (Suc ?bn)"
  obtain v where v: "bmap ip ?bn s = Ret (fblock d v ip ?bn) v" "tx p d {} (Suc (2 * missing v ip + k)) v" "layout_ok d v" "file_has d v ip ?nb" "grows d ip nb ?nb s v"
    "nfree d s + missing v ip \<le> Suc (nfree d v + missing s ip)" "\<And>i. i < nb * BSIZE \<Longrightarrow> fbyte d v ip i = fbyte d s ip i"
    using bmap_has [OF t l f bn fr] by (auto simp: returns_iff)
  let ?a = "fblock d v ip ?bn"
  have B: "?bn < ?nb" by simp
  note D = file_hasD [OF v(4)]
  obtain x w where x: "bread d ?a v = Ret x w" "tx_has p d (Suc (2 * missing v ip + k)) x ?a w" "view d w = view d v" "kept v w"
    using fs_txn.rd [OF v(2), of ?a] by (auto simp: returns_iff)
  have h: "cpu_ok w" "tx_has p d (Suc (2 * missing v ip + k)) x ?a (settle w)" using fsw.has_settle [OF x(2)] by simp_all
  have "kept w (settle w)" by (simp add: kept_def)
  then have kw: "kept v (settle w)" using x(4) kept_trans by metis
  have hm: "home ?a (settle w)" using D(4) [OF B] fs_txn.home_kept [OF kw] by simp
  obtain u where u: "log_put x (write_at (off mod BSIZE) bs) (settle w) = Ret () u" "tx p d {} (2 * missing v ip + k) u" "view d u = (view d v)(?a := write_at (off mod BSIZE) bs (view d v ?a))" "kept (settle w) u"
    using fs_txn.wr [OF h(2) hm, of "write_at (off mod BSIZE) bs"] x(3) by (auto simp: returns_iff)
  note W = write_has [OF v(3,4) B b(1) kept_trans [OF kw u(4)] u(3)]
  have "bytes_put d ip nb off bs s u"
    unfolding bytes_put_def
  proof (intro allI impI)
    fix i assume i: "i < nb * BSIZE \<or> off \<le> i \<and> i < off + length bs"
    have "off + length bs \<le> Suc ?bn * BSIZE" using b(1) div_mult_mod_eq [of off BSIZE] unfolding mult_Suc by linarith
    moreover have "Suc ?bn * BSIZE \<le> ?nb * BSIZE" "nb * BSIZE \<le> ?nb * BSIZE" by (simp_all only: mult_le_mono1 max.cobounded1 max.cobounded2)
    ultimately have "i < ?nb * BSIZE" using i by linarith
    then show "fbyte d u ip i = (if off \<le> i \<and> i < off + length bs then bs ! (i - off) else fbyte d s ip i)"
      using W(5) [of i] v(7) [of i] i by auto
  qed
  moreover have "missing u ip = missing v ip" using kfs_kept [OF kept_trans [OF kw u(4)]] by (simp add: missing_def indirect_def)
  ultimately show ?thesis using that [OF v(1) D(2) [OF B] D(1) x(1) h(1) u(1) _ W(1,2) grows_trans [OF v(5) W(4)]] u(2) v(6) W(3) by simp
qed

lemma writei_loop_has:
  assumes "tx p d {} (4 * rounds off left + (2 * missing s ip + k)) s" and "layout_ok d s" and "file_has d s ip nb" and "off \<le> nb * BSIZE"
    and "off + left \<le> MAXFILE * BSIZE" and "rounds off left + missing s ip \<le> nfree d s" and "left \<le> length src"
  shows "returns (writei_loop ip (KernSrc src) off tot left s) (\<lambda>r t. r = (tot + left, off + left) \<and> put_result p d k ip nb off (take left src) s t)"
  using assms
proof (induction left arbitrary: s off tot src nb rule: less_induct)
  case (less left)
  show ?case
  proof (cases "left = 0")
    case True
    then show ?thesis using less.prems grows_refl [of d ip nb s] tx_le [OF less.prems(1), of k] by (auto simp: writei_loop.simps [of ip _ off tot 0] rounds_def put_result_def bytes_put_def)
  next
    case False
    let ?m = "round_len left off" and ?bs = "take (round_len left off) src" and ?bn = "off div BSIZE"
    let ?nb = "max nb (Suc ?bn)" and ?r = "rounds (off + round_len left off) (left - round_len left off)"
    have m: "0 < ?m" "?m \<le> left" "off mod BSIZE + ?m \<le> BSIZE" using False by (simp_all add: round_len_pos) (simp_all add: round_len_def)
    then have lb: "length ?bs = ?m" using less.prems(7) by simp
    have r: "rounds off left = Suc ?r" using rounds_step [of left ?m off] False by simp
    have t: "tx p d {} (Suc (Suc (Suc (2 * missing s ip + Suc (4 * ?r + k))))) s" by (rule tx_le [OF less.prems(1)]) (simp add: r)
    have bn: "?bn \<le> nb" using less.prems(4) div_le_mono [of off "nb * BSIZE" BSIZE] by simp
    have bn': "?bn < MAXFILE" using less.prems(5) False by (intro less_mult_imp_div_less) simp
    obtain v x w u where R: "bmap ip ?bn s = Ret (fblock d v ip ?bn) v" "fblock d v ip ?bn \<noteq> 0" "i_dev (inodes v ip) = d"
      "bread d (fblock d v ip ?bn) v = Ret x w" "cpu_ok w" "log_put x (write_at (off mod BSIZE) ?bs) (settle w) = Ret () u"
      "tx p d {} (2 * missing u ip + (4 * ?r + k)) u" "layout_ok d u" "file_has d u ip ?nb" "grows d ip nb ?nb s u" "nfree d s + missing u ip \<le> Suc (nfree d u + missing s ip)" "bytes_put d ip nb off ?bs s u"
      by (rule writei_round [OF t less.prems(2,3) bn bn', of ?bs]) (use less.prems(6) r m lb in auto)
    have c: "either_copyin (KernSrc src) ?m w = Ret (0, ?bs) (settle w)" using R(5) by (simp add: either_copyin_def)
    have e: "off + ?m \<le> Suc ?bn * BSIZE" using m(3) div_mult_mod_eq [of off BSIZE] unfolding mult_Suc by linarith
    have mono: "Suc ?bn * BSIZE \<le> ?nb * BSIZE" "nb * BSIZE \<le> ?nb * BSIZE" by (simp_all only: mult_le_mono1 max.cobounded1 max.cobounded2)
    have "returns (writei_loop ip (KernSrc (drop ?m src)) (off + ?m) (tot + ?m) (left - ?m) u)
        (\<lambda>r t. r = (tot + ?m + (left - ?m), off + ?m + (left - ?m)) \<and> put_result p d k ip ?nb (off + ?m) (take (left - ?m) (drop ?m src)) u t)"
    proof (rule less.IH)
      show "tx p d {} (4 * ?r + (2 * missing u ip + k)) u" by (rule tx_le [OF R(7)]) simp
      show "?r + missing u ip \<le> nfree d u" using R(11) less.prems(6) r by linarith
    qed (use m R(8,9) less.prems(5,7) e mono in auto)
    moreover have sp: "take left src = ?bs @ take (left - ?m) (drop ?m src)" using m by (metis append_take_drop_id le_add_diff_inverse take_add)
    moreover have "put_result p d k ip nb off (take left src) s t" if H: "put_result p d k ip ?nb (off + ?m) (take (left - ?m) (drop ?m src)) u t" for t
    proof -
      obtain nb' where nb': "file_has d t ip nb'" "off + ?m + length (take (left - ?m) (drop ?m src)) \<le> nb' * BSIZE" "grows d ip ?nb nb' u t" using H by (auto simp: put_result_def)
      have "bytes_put d ip nb off (take left src) s t" unfolding sp
        by (rule bytes_put_trans [OF R(12), where nb' = ?nb]) (use H lb e mono in \<open>auto simp: put_result_def\<close>)
      moreover have "off + length (take left src) \<le> nb' * BSIZE" using nb'(2) lb m(2) unfolding sp by simp
      ultimately show ?thesis using H nb'(1) grows_trans [OF R(10) nb'(3)] unfolding put_result_def by blast
    qed
    ultimately have "returns (writei_loop ip (KernSrc (drop ?m src)) (off + ?m) (tot + ?m) (left - ?m) u)
        (\<lambda>r t. r = (tot + left, off + left) \<and> put_result p d k ip nb off (take left src) s t)"
      using m by (auto elim!: returns_mono)
    then have "returns (andthen (log_put x (write_at (off mod BSIZE) ?bs) (settle w)) (\<lambda>_ s. writei_loop ip (KernSrc (drop ?m src)) (off + ?m) (tot + ?m) (left - ?m) s))
        (\<lambda>r t. r = (tot + left, off + left) \<and> put_result p d k ip nb off (take left src) s t)" using R(6) by simp
    then show ?thesis using False R(1-4) c by (simp add: writei_loop.simps [of ip _ off tot left] Let_def log_put_def)
  qed
qed

subsection \<open>writei\<close>

lemma has_mapped: "file_has d s ip nb \<Longrightarrow> mapped d s ip"
proof -
  assume f: "file_has d s ip nb"
  have n: "nb \<le> MAXFILE" "fsize s ip \<le> nb * BSIZE" using f by (simp_all add: file_has_def)
  then have "fsize s ip \<le> MAXFILE * BSIZE" by (meson le_trans mult_le_mono1)
  moreover have "bn < nb" if "bn * BSIZE < fsize s ip" for bn using less_le_trans [OF that n(2)] by simp
  ultimately show ?thesis unfolding mapped_def using file_hasD(1,2,3,5) [OF f] unfolding indirect_def by blast
qed

text \<open>Writing the block of the inode leaves the file as it is.\<close>

lemma inode_write_has:
  assumes l: "layout_ok d v" and f: "file_has d v ip nb" and k: "kept v u" and n: "n = IBLOCK (i_inum (inodes v ip)) (fs_sb v)"
    and vu: "view d u = (view d v)(n := x)" and lx: "length x = length (view d v n)"
  shows "layout_ok d u" "file_has d u ip nb" "i < nb * BSIZE \<Longrightarrow> fbyte d u ip i = fbyte d v ip i" "nb' \<le> nb \<Longrightarrow> fblock d u ip ` {..<nb'} = fblock d v ip ` {..<nb'}"
proof -
  have nb: "nb \<le> MAXFILE" and fo: "file_ok d (sized ip nb v) ip" "inode_apart d (sized ip nb v) ip" and tk: "taken d v n" using f n by (simp_all add: file_has_def)
  note kk = kfs_kept [OF k] and hk = fs_txn.home_kept [OF k] and sb = sized_blocks [OF nb]
  have vs: "view d (sized ip nb v) = view d v" "view d (sized ip nb u) = view d u" by (simp_all add: sized_def)
  have ne: "n \<notin> insert (i_addrs (inodes (sized ip nb v) ip) NDIRECT) (fblock d (sized ip nb v) ip ` file_blocks d (sized ip nb v) ip)"
    using file_hasD(9) [OF f] n by (simp add: sb, simp add: sized_def fblocks_def indirect_def)
  note ap = apart_same [OF fo(1) ne, of "sized ip nb u" x, unfolded vs, OF vu kept_sized [OF k] lx]
  have ni: "indirect v ip \<noteq> n" using file_hasD(9) [OF f] n by (auto simp: fblocks_def)
  then have fe: "fblock d u ip = fblock d v ip" using kk vu by (simp add: fblock_def fun_eq_iff indirect_def)
  have "view d u (BBLOCK c (fs_sb v)) = view d v (BBLOCK c (fs_sb v))" if "c < nblk v" for c using tk that vu by (auto simp: taken_def)
  then have us: "used d u c = used d v c" if "c < nblk v" for c using kk that by (simp add: used_def)
  then show "layout_ok d u" using l lx vu kk hk by (auto simp: layout_ok_def)
  have tu: "taken d u = taken d v" using us kk by (simp add: taken_def fun_eq_iff)
  have "inode_apart d (sized ip nb u) ip" using fo(2) kfs_kept [OF kept_sized [OF k, of ip nb]] fs_txn.home_kept [OF kept_sized [OF k, of ip nb]] fe
    by (simp add: inode_apart_def file_blocks_def)
  moreover have "indirect u ip = indirect v ip" by (simp add: indirect_def kk)
  ultimately show "file_has d u ip nb" using f ap(1) tu fe kk hk ni vu by (simp add: file_has_def)
  show "i < nb * BSIZE \<Longrightarrow> fbyte d u ip i = fbyte d v ip i" using ap(2) [of i] by (simp add: sb)
  show "nb' \<le> nb \<Longrightarrow> fblock d u ip ` {..<nb'} = fblock d v ip ` {..<nb'}" by (simp add: fe)
qed

lemma resize_has: "file_has d s ip nb \<Longrightarrow> z \<le> nb * BSIZE \<Longrightarrow> file_has d (upd_inode ip (\<lambda>x. x\<lparr>i_size := of_nat z\<rparr>) s) ip nb"
proof -
  assume f: "file_has d s ip nb" and z: "z \<le> nb * BSIZE"
  let ?t = "upd_inode ip (\<lambda>x. x\<lparr>i_size := of_nat z\<rparr>) s"
  have "nb * BSIZE \<le> MAXFILE * BSIZE" using f by (simp add: file_has_def)
  then have "z < 2 ^ 32" using z by simp
  then have "fsize ?t ip = z" by (simp add: unsigned_of_nat take_bit_nat_eq_self)
  moreover have "sized ip nb ?t = sized ip nb s" by (simp add: sized_def upd_inode_def)
  moreover have "taken d ?t = taken d s" by (simp add: taken_def fun_eq_iff)
  moreover have "fblock d ?t ip = fblock d s ip" by (simp add: fblock_def fun_eq_iff)
  moreover have "indirect ?t ip = indirect s ip" by (simp add: indirect_def)
  ultimately show ?thesis using f z by (simp add: file_has_def)
qed

lemma writei_has:
  assumes t: "tx p d {} (4 * rounds (unat off) (length bs) + (2 * missing s ip + Suc k)) s" and l: "layout_ok d s" and f: "file_has d s ip nb" and o: "unat off \<le> fsize s ip"
    and e: "unat off + length bs \<le> MAXFILE * BSIZE" and fr: "rounds (unat off) (length bs) + missing s ip \<le> nfree d s"
    and n: "n = IBLOCK (i_inum (inodes s ip)) (fs_sb s)"
  shows "returns (writei ip (KernSrc bs) off (of_nat (length bs)) s) (\<lambda>r t. r = int (length bs) \<and> tx p d {} k t \<and> layout_ok d t \<and> (\<exists>nb'. file_has d t ip nb') \<and>
     fsize t ip = max (fsize s ip) (unat off + length bs) \<and> view d t n = put_dinode (dinode_off (i_inum (inodes s ip))) (inodes t ip) (view d s n) \<and>
     (\<forall>i<fsize t ip. fbyte d t ip i = (if unat off \<le> i \<and> i < unat off + length bs then bs ! (i - unat off) else fbyte d s ip i)) \<and>
     (\<forall>m. taken d s m \<and> m \<noteq> n \<and> m \<notin> fblocks d s ip nb \<longrightarrow> view d t m = view d s m) \<and>
     (\<forall>j. j \<noteq> ip \<longrightarrow> inodes t j = inodes s j) \<and> (\<exists>A z. inodes t ip = (inodes s ip)\<lparr>i_addrs := A, i_size := z\<rparr>) \<and> platter t = platter s)"
proof -
  let ?e = "unat off + length bs" and ?z = "max (fsize s ip) (unat off + length bs)"
  have nb: "nb \<le> MAXFILE" "fsize s ip \<le> nb * BSIZE" using f by (simp_all add: file_has_def)
  have mx: "?e \<le> MAXFILE * BSIZE" by (rule e)
  then have u: "unat (of_nat (length bs) :: u32) = length bs" by (simp add: unsigned_of_nat take_bit_nat_eq_self)
  have su: "unat (off + of_nat (length bs)) = ?e" using mx u by (subst unat_add_lem [THEN iffD1]) simp_all
  have g: "\<not> off > i_size (inodes s ip)" "\<not> off + of_nat (length bs) < off" "\<not> unat (off + of_nat (length bs)) > MAXFILE * BSIZE"
    using o mx su by (simp_all add: word_less_nat_alt)
  obtain w where w: "writei_loop ip (KernSrc bs) (unat off) 0 (length bs) s = Ret (length bs, ?e) w" "put_result p d (Suc k) ip nb (unat off) bs s w"
    using writei_loop_has [OF t l f le_trans [OF o nb(2)] e fr, of bs 0] by (auto simp: returns_iff)
  obtain nb' where W: "tx p d {} (Suc k) w" "layout_ok d w" "bytes_put d ip nb (unat off) bs s w" "file_has d w ip nb'" "?e \<le> nb' * BSIZE" "grows d ip nb nb' s w"
    using w(2) by (auto simp: put_result_def)
  have G: "fs_sb w = fs_sb s" "\<And>j. j \<noteq> ip \<Longrightarrow> inodes w j = inodes s j" "platter w = platter s" "nb \<le> nb'" using W(6) by (simp_all add: grows_def)
  obtain A where A: "inodes w ip = (inodes s ip)\<lparr>i_addrs := A\<rparr>" using W(6) by (auto simp: grows_def)
  let ?x = "upd_inode ip (\<lambda>x. x\<lparr>i_size := of_nat ?z\<rparr>) w"
  have z: "?z \<le> nb' * BSIZE" using W(4,5) A by (simp add: file_has_def)
  have "nb' * BSIZE \<le> MAXFILE * BSIZE" using W(4) by (simp add: file_has_def)
  then have z32: "?z < 2 ^ 32" using z by simp
  have x: "(if ?e > unat (i_size (inodes w ip)) then upd_inode ip (\<lambda>x. x\<lparr>i_size := of_nat ?e\<rparr>) w else w) = ?x"
  proof (cases "?e > unat (i_size (inodes w ip))")
    case False
    then have "of_nat ?z = i_size (inodes w ip)" using A by (simp add: max_def)
    then have "?x = w" by (simp add: upd_inode_def)
    then show ?thesis using False by simp
  qed (use A in \<open>simp add: max_def\<close>)
  have fx: "file_has d ?x ip nb'" by (rule resize_has [OF W(4) z])
  have ni: "n = IBLOCK (i_inum (inodes ?x ip)) (fs_sb ?x)" "i_dev (inodes ?x ip) = d" "home n ?x" using n A G(1) file_hasD(1,8) [OF fx] by simp_all
  obtain v where v: "iupdate ip ?x = Ret () v" "tx p d {} k v" "kept ?x v" "view d v = (view d ?x)(n := put_dinode (dinode_off (i_inum (inodes s ip))) (inodes ?x ip) (view d ?x n))"
    using iupdate_spec [of p d k ?x ip] W(1) ni A by (auto simp: returns_iff)
  have lv: "layout_ok d ?x" using W(2) by simp
  note I = inode_write_has [OF lv fx v(3) ni(1) v(4)]
  note kk = kfs_kept [OF v(3)]
  have run: "writei ip (KernSrc bs) off (of_nat (length bs)) s = Ret (int (length bs)) v" using g w(1) u x v(1) by (simp add: writei_def Let_def)
  have fz: "fsize v ip = ?z" using kk z32 A by (simp add: unsigned_of_nat take_bit_nat_eq_self)
  have tn: "taken d s n" "n \<notin> fblocks d s ip nb" using f n file_hasD(9) [OF f] by (auto simp: file_has_def)
  have vw: "view d w m = view d s m" if "taken d s m" "m \<notin> fblocks d s ip nb" for m using W(6) that by (simp add: grows_def)
  have "fbyte d v ip i = (if unat off \<le> i \<and> i < ?e then bs ! (i - unat off) else fbyte d s ip i)" if "i < fsize v ip" for i
  proof -
    have i: "i < ?z" using that fz by simp
    then have "i < nb' * BSIZE" using z by linarith
    then have "fbyte d v ip i = fbyte d ?x ip i" using I(3) by simp
    also have "\<dots> = fbyte d w ip i" by (simp add: fbyte_def fblock_def)
    also have "\<dots> = (if unat off \<le> i \<and> i < ?e then bs ! (i - unat off) else fbyte d s ip i)"
    proof -
      have "i < nb * BSIZE \<or> unat off \<le> i \<and> i < ?e" using i o nb(2) by linarith
      then show ?thesis using W(3) unfolding bytes_put_def by blast
    qed
    finally show ?thesis .
  qed
  moreover have "\<exists>A z. inodes v ip = (inodes s ip)\<lparr>i_addrs := A, i_size := z\<rparr>" using kk A by auto
  moreover have "view d v n = put_dinode (dinode_off (i_inum (inodes s ip))) (inodes v ip) (view d s n)" using v(4) kk vw [OF tn] by simp
  moreover have "view d v m = view d s m" if "taken d s m \<and> m \<noteq> n \<and> m \<notin> fblocks d s ip nb" for m using v(4) vw that by simp
  moreover have "platter v = platter s" using v(3) G(3) by (simp add: kept_def)
  ultimately show ?thesis using run v(2) I(1,2) fz kk G(2) by auto
qed

text \<open>Property C21: \<open>writei\<close> followed by \<open>readi\<close>. Bytes are written into a file at an offset up to its end; blocks that are not there yet are
  allocated, direct ones, the indirect block, and those it points to. In a transaction with room for four blocks for every block of the file touched, two for a new indirect block and one for the inode, and on a disk with
  enough free blocks, \<open>writei\<close> returns their number, and reading the whole file back gives the old contents with the bytes put in or
  appended. The size of the file is then the larger of the old size and the end of the write; the inode with this size and the new addresses is in its place in the block of inodes; no block in
  use outside the file and no other inode has changed; and the layout and the file are well formed again.\<close>

theorem writei_readi_grows:
  assumes t: "tx p d {} (4 * rounds (unat off) (length bs) + (2 * missing s ip + Suc k)) s" and l: "layout_ok d s" and f: "file_has d s ip nb" and o: "unat off \<le> fsize s ip"
    and e: "unat off + length bs \<le> MAXFILE * BSIZE" and fr: "rounds (unat off) (length bs) + missing s ip \<le> nfree d s"
    and old: "old = map (fbyte d s ip) [0..<fsize s ip]" and new: "new = take (unat off) old @ bs @ drop (unat off + length bs) old"
    and n: "n = IBLOCK (i_inum (inodes s ip)) (fs_sb s)"
  shows "returns (andthen (writei ip (KernSrc bs) off (of_nat (length bs)) s) (\<lambda>r s. andthen (readi ip KernDst 0 (i_size (inodes s ip)) s) (\<lambda>q s. Ret (r, q) s)))
    (\<lambda>(r, q) t. r = int (length bs) \<and> q = (int (length new), new) \<and> fsize t ip = max (fsize s ip) (unat off + length bs) \<and>
      view d t n = put_dinode (dinode_off (i_inum (inodes s ip))) (inodes t ip) (view d s n) \<and>
      (\<forall>m. taken d s m \<and> m \<noteq> n \<and> m \<notin> fblocks d s ip nb \<longrightarrow> view d t m = view d s m) \<and> (\<forall>j. j \<noteq> ip \<longrightarrow> inodes t j = inodes s j) \<and>
      tx p d {} k t \<and> layout_ok d t \<and> (\<exists>nb'. file_has d t ip nb'))"
proof -
  let ?e = "unat off + length bs"
  obtain v nb' where v: "writei ip (KernSrc bs) off (of_nat (length bs)) s = Ret (int (length bs)) v" "tx p d {} k v" "layout_ok d v" "file_has d v ip nb'"
    "fsize v ip = max (fsize s ip) ?e" "view d v n = put_dinode (dinode_off (i_inum (inodes s ip))) (inodes v ip) (view d s n)"
    "\<And>i. i < fsize v ip \<Longrightarrow> fbyte d v ip i = (if unat off \<le> i \<and> i < ?e then bs ! (i - unat off) else fbyte d s ip i)"
    "\<forall>m. taken d s m \<and> m \<noteq> n \<and> m \<notin> fblocks d s ip nb \<longrightarrow> view d v m = view d s m" "\<forall>j. j \<noteq> ip \<longrightarrow> inodes v j = inodes s j"
    using writei_has [OF t l f o e fr n] by (auto simp: returns_iff)
  have "map (fbyte d v ip) [0..<fsize v ip] = new"
    by (rule nth_equalityI) (use o v(5,7) in \<open>auto simp: old new nth_append min_def\<close>)
  moreover have "length new = fsize v ip" using o v(5) by (simp add: old new)
  moreover note fsw.readi_mapped [OF v(2) has_mapped [OF v(4)] refl, of 0 "i_size (inodes v ip)"]
  moreover have "tx p d {} k u \<and> layout_ok d u \<and> (\<exists>nb'. file_has d u ip nb') \<and> inodes u = inodes v \<and> view d u = view d v" if "tx p d {} k u" "view d u = view d v" "kept v u" for u
    using that v(3,4) kept_has(1) [OF that(2,3)] layout_same [OF that(2,3)] kept_file(4) [OF that(2,3)] by auto
  ultimately show ?thesis using v(1,5,6,8,9) by (auto elim!: returns_mono)
qed

subsection \<open>Witness\<close>

text \<open>Appending to the root directory of \<open>kfs1\<close> more than its block can take.\<close>

lemma has_kfs1: "file_has 1 kfs1 0 1"
proof (rule file_hasI)
  have f: "fblock 1 kfs1 0 0 = 46" by (simp add: fblock_def root_inode_def)
  have n: "unat (of_nat b :: u32) = b" if "b < 2000" for b using that by (simp add: unat_of_nat take_bit_nat_eq_self)
  have tk: "taken 1 kfs1 x" if "unat x < 47" "x \<noteq> 45" for x using that used_kfs1 n by (auto simp: taken_def)
  show "fblock 1 kfs1 0 bn \<noteq> 0 \<and> length (view 1 kfs1 (fblock 1 kfs1 0 bn)) = BSIZE \<and> home (fblock 1 kfs1 0 bn) kfs1 \<and> (NDIRECT \<le> bn \<longrightarrow> indirect kfs1 0 \<noteq> 0) \<and>
      fblock 1 kfs1 0 bn \<noteq> indirect kfs1 0 \<and> taken 1 kfs1 (fblock 1 kfs1 0 bn)" if "bn < 1" for bn
    using that f tk [of 46] by (simp add: home_def log_area_2 root_inode_def indirect_def)
  show "home (IBLOCK (i_inum (inodes kfs1 0)) (fs_sb kfs1)) kfs1" "taken 1 kfs1 (IBLOCK (i_inum (inodes kfs1 0)) (fs_sb kfs1))"
    "IBLOCK (i_inum (inodes kfs1 0)) (fs_sb kfs1) \<notin> fblocks 1 kfs1 0 1"
    using tk [of 32] f by (simp_all add: IBLOCK_def root_inode_def home_def log_area_2 lessThan_Suc fblocks_def indirect_def)
qed (auto simp: root_inode_def inj_on_def indirect_def)

lemma nfree_kfs1: "4 \<le> nfree 1 kfs1"
proof -
  have "{100, 101, 102, 103} \<subseteq> {b. b < nblk kfs1 \<and> \<not> used 1 kfs1 b}" using used_kfs1 by auto
  then have "card {100, 101, 102, 103 :: nat} \<le> nfree 1 kfs1" unfolding nfree_def by (intro card_mono) auto
  then show ?thesis by simp
qed

theorem writei_readi_grows_witness:
  "returns (andthen (writei 0 (KernSrc (replicate 1500 7)) 48 1500 kfs1) (\<lambda>r s. andthen (readi 0 KernDst 0 (i_size (inodes s 0)) s) (\<lambda>q s. Ret (r, q) s)))
     (\<lambda>(r, q) t. r = 1500 \<and> q = (1548, take 48 root_blk @ replicate 1500 7) \<and> unat (i_size (inodes t 0)) = 1548 \<and>
       view 1 t 32 = put_dinode 64 (inodes t 0) (replicate BSIZE 0))"
proof -
  let ?bs = "replicate 1500 (7 :: u8)" and ?off = "48 :: u32"
  have r: "rounds (unat ?off) (length ?bs) = 2" by (simp add: rounds_def)
  have z: "fsize kfs1 0 = 48" "dinode_off (i_inum (inodes kfs1 0)) = 64" "IBLOCK (i_inum (inodes kfs1 0)) (fs_sb kfs1) = 32"
    by (simp_all add: root_inode_def dinode_off_def IBLOCK_def)
  have m1: "missing kfs1 0 = 1" by (simp add: missing_def indirect_def root_inode_def)
  have t: "tx 1 1 {} (4 * rounds (unat ?off) (length ?bs) + (2 * missing kfs1 0 + Suc 0)) kfs1" unfolding r m1 by (rule tx_kfs1) simp
  have o: "unat ?off \<le> fsize kfs1 0" "unat ?off + length ?bs \<le> MAXFILE * BSIZE" "rounds (unat ?off) (length ?bs) + missing kfs1 0 \<le> nfree 1 kfs1"
    unfolding r m1 using nfree_kfs1 by (simp_all add: root_inode_def)
  have m: "map (fbyte 1 kfs1 0) [0..<48] = take 48 root_blk" by (intro nth_equalityI) (simp_all add: fbyte_kfs1)
  have w: "of_nat (length ?bs) = (1500 :: u32)" by simp
  from writei_readi_grows [OF t layout_kfs1 has_kfs1 o refl refl refl] show ?thesis unfolding z w m
    by (rule returns_mono) (auto simp del: upt_Suc upt_rec_numeral)
qed

end
