(* ===== verification/Mkfs.thy ===== *)
theory Mkfs
  imports Fsops
begin

text \<open>
  \<open>mkfs/mkfs.c\<close>: the program that builds the file system image, on a little-endian host whose calls may fail. A file of the image is a function
  from offsets to bytes; \<open>iappend\<close> extends one such function and no other. Then the whole program, and the kernel of \<open>Fsops\<close> on its result.
\<close>

subsection \<open>The image file and the structures on it\<close>

record dinode =
  d_type :: u16
  d_major :: u16
  d_minor :: u16
  d_nlink :: u16
  d_size :: u32
  d_addrs :: "u32 list"

record mkfs =
  fsimg :: "u8 list"
  io_ok :: "nat \<Rightarrow> bool"
  io_n :: nat
  mk_sb :: superblock
  freeinode :: u32
  freeblock :: u32
  mk_stdout :: "(string \<times> int list) list"

abbreviation (input) FSSIZE :: nat where "FSSIZE \<equiv> 2000"
abbreviation (input) NINODES :: nat where "NINODES \<equiv> 200"
abbreviation (input) nbitmap :: nat where "nbitmap \<equiv> FSSIZE div (BSIZE * 8) + 1"
abbreviation (input) ninodeblocks :: nat where "ninodeblocks \<equiv> NINODES div 16 + 1"
abbreviation (input) nlog :: nat where "nlog \<equiv> 30"
abbreviation (input) nmeta :: nat where "nmeta \<equiv> 2 + nlog + ninodeblocks + nbitmap"

definition mk_printf :: "string \<Rightarrow> int list \<Rightarrow> mkfs \<Rightarrow> mkfs" where
  "mk_printf fmt args s = s\<lparr>mk_stdout := mk_stdout s @ [(fmt, args)]\<rparr>"

definition xshort :: "u16 \<Rightarrow> u16" where
  "xshort x = get16 [ucast x, ucast (drop_bit 8 x)] 0"

definition xint :: "u32 \<Rightarrow> u32" where
  "xint x = get32 [ucast x, ucast (drop_bit 8 x), ucast (drop_bit 16 x), ucast (drop_bit 24 x)] 0"

definition le16 :: "u16 \<Rightarrow> u8 list" where
  "le16 x = [ucast x, ucast (drop_bit 8 x)]"

definition le32 :: "u32 \<Rightarrow> u8 list" where
  "le32 x = [ucast x, ucast (drop_bit 8 x), ucast (drop_bit 16 x), ucast (drop_bit 24 x)]"

text \<open>The bytes of a \<open>struct dinode\<close> and of the \<open>struct superblock\<close> in the memory of a little-endian host.\<close>

definition dinode_bytes :: "dinode \<Rightarrow> u8 list" where
  "dinode_bytes x = le16 (d_type x) @ le16 (d_major x) @ le16 (d_minor x) @ le16 (d_nlink x) @ le32 (d_size x) @ concat (map le32 (d_addrs x))"

definition dinode_of :: "u8 list \<Rightarrow> dinode" where
  "dinode_of bs = \<lparr>d_type = get16 bs 0, d_major = get16 bs 2, d_minor = get16 bs 4, d_nlink = get16 bs 6, d_size = get32 bs 8,
     d_addrs = map (\<lambda>i. get32 bs (12 + 4 * i)) [0..<NDIRECT + 1]\<rparr>"

definition superblock_bytes :: "superblock \<Rightarrow> u8 list" where
  "superblock_bytes sb = concat (map le32 [sb_magic sb, sb_size sb, sb_nblocks sb, sb_ninodes sb, sb_nlog sb, sb_logstart sb,
     sb_inodestart sb, sb_bmapstart sb])"

text \<open>Seeking, reading and writing on the host: the call number \<open>io_n\<close> fails when \<open>io_ok\<close> says so. A write behind the end of the file
  extends it, with zeros in between.\<close>

definition io_call :: "string \<Rightarrow> mkfs \<Rightarrow> (unit, mkfs) outcome" where
  "io_call what s = (if io_ok s (io_n s) then Ret () (s\<lparr>io_n := Suc (io_n s)\<rparr>) else Panic what)"

definition pwrite :: "nat \<Rightarrow> u8 list \<Rightarrow> u8 list \<Rightarrow> u8 list" where
  "pwrite pos bs f = take pos f @ replicate (pos - length f) 0 @ bs @ drop (pos + length bs) f"

definition wsect :: "u32 \<Rightarrow> u8 list \<Rightarrow> mkfs \<Rightarrow> (unit, mkfs) outcome" where
  "wsect sec buf s =
     andthen (io_call ''lseek'' s) (\<lambda>_ s.
     andthen (io_call ''write'' s) (\<lambda>_ s. Ret () (s\<lparr>fsimg := pwrite (unat (sec * of_nat BSIZE)) buf (fsimg s)\<rparr>)))"

definition rsect :: "u32 \<Rightarrow> mkfs \<Rightarrow> (u8 list, mkfs) outcome" where
  "rsect sec s =
     andthen (io_call ''lseek'' s) (\<lambda>_ s.
     andthen (io_call ''read'' s) (\<lambda>_ s.
       let buf = take BSIZE (drop (unat (sec * of_nat BSIZE)) (fsimg s)) in
       if length buf \<noteq> BSIZE then Panic ''read'' else Ret buf s))"

subsection \<open>Inodes\<close>

definition winode :: "u32 \<Rightarrow> dinode \<Rightarrow> mkfs \<Rightarrow> (unit, mkfs) outcome" where
  "winode inum ip s =
     (let bn = IBLOCK inum (mk_sb s) in
      andthen (rsect bn s) (\<lambda>buf s. wsect bn (write_at (dinode_off inum) (dinode_bytes ip) buf) s))"

definition rinode :: "u32 \<Rightarrow> mkfs \<Rightarrow> (dinode, mkfs) outcome" where
  "rinode inum s =
     (let bn = IBLOCK inum (mk_sb s) in
      andthen (rsect bn s) (\<lambda>buf s. Ret (dinode_of (drop (dinode_off inum) buf)) s))"

definition mk_ialloc :: "u16 \<Rightarrow> mkfs \<Rightarrow> (u32, mkfs) outcome" where
  "mk_ialloc type s =
     (let inum = freeinode s;
          s = s\<lparr>freeinode := inum + 1\<rparr>;
          din = \<lparr>d_type = xshort type, d_major = 0, d_minor = 0, d_nlink = xshort 1, d_size = xint 0, d_addrs = replicate (NDIRECT + 1) 0\<rparr>
      in andthen (winode inum din s) (\<lambda>_ s. Ret inum s))"

definition mk_balloc :: "int \<Rightarrow> mkfs \<Rightarrow> (unit, mkfs) outcome" where
  "mk_balloc n s =
     (let s = mk_printf ''balloc: first %d blocks have been allocated'' [n] s in
      if \<not> n < int (BSIZE * 8) then Panic ''assert''
      else
        (let buf = fold (\<lambda>i buf. buf[i div 8 := (buf ! (i div 8)) OR push_bit (i mod 8) 1]) [0..<nat n] (replicate BSIZE 0);
             s = mk_printf ''balloc: write bitmap block at sector %d'' [sint (sb_bmapstart (mk_sb s))] s
         in wsect (sb_bmapstart (mk_sb s)) buf s))"

text \<open>\<open>iappend\<close>: the block for \<open>fbn\<close>, allocated if the file does not have it yet, and the loop over the blocks.\<close>

definition iappend_addr :: "nat \<Rightarrow> dinode \<Rightarrow> mkfs \<Rightarrow> dinode \<times> mkfs" where
  "iappend_addr k din s =
     (if xint (d_addrs din ! k) = 0
      then (din\<lparr>d_addrs := (d_addrs din)[k := xint (freeblock s)]\<rparr>, s\<lparr>freeblock := freeblock s + 1\<rparr>)
      else (din, s))"

definition iappend_block :: "nat \<Rightarrow> dinode \<Rightarrow> mkfs \<Rightarrow> (u32 \<times> dinode, mkfs) outcome" where
  "iappend_block fbn din s =
     (if fbn < NDIRECT then
        (let (din, s) = iappend_addr fbn din s in Ret (xint (d_addrs din ! fbn), din) s)
      else
        (let (din, s) = iappend_addr NDIRECT din s; i = 4 * (fbn - NDIRECT) in
         andthen (rsect (xint (d_addrs din ! NDIRECT)) s) (\<lambda>indirect s.
           if get32 indirect i = 0 then
             (let indirect = put32 i (xint (freeblock s)) indirect; s = s\<lparr>freeblock := freeblock s + 1\<rparr> in
              andthen (wsect (xint (d_addrs din ! NDIRECT)) indirect s) (\<lambda>_ s. Ret (xint (get32 indirect i), din) s))
           else Ret (xint (get32 indirect i), din) s)))"

function iappend_loop :: "u8 list \<Rightarrow> nat \<Rightarrow> dinode \<Rightarrow> mkfs \<Rightarrow> (nat \<times> dinode, mkfs) outcome" where
  "iappend_loop p off din s =
     (if p = [] then Ret (off, din) s
      else
        (let fbn = off div BSIZE; n1 = min (length p) ((fbn + 1) * BSIZE - off) in
         if \<not> fbn < MAXFILE then Panic ''assert''
         else
           andthen (iappend_block fbn din s) (\<lambda>(x, din) s.
           andthen (rsect x s) (\<lambda>buf s.
           andthen (wsect x (write_at (off - fbn * BSIZE) (take n1 p) buf) s) (\<lambda>_ s.
             iappend_loop (drop n1 p) (off + n1) din s)))))"
  by pat_completeness auto
termination
proof (relation "measure (\<lambda>(p, _). length p)", goal_cases)
  case (2 p off)
  have "off < (off div 1024 + 1) * 1024" using dividend_less_div_times [of 1024 off] by simp
  then show ?case using 2 by simp
qed simp

declare iappend_loop.simps [simp del]

definition iappend :: "u32 \<Rightarrow> u8 list \<Rightarrow> mkfs \<Rightarrow> (unit, mkfs) outcome" where
  "iappend inum p s =
     andthen (rinode inum s) (\<lambda>din s.
     andthen (iappend_loop p (unat (xint (d_size din))) din s) (\<lambda>(off, din) s.
       winode inum (din\<lparr>d_size := xint (of_nat off)\<rparr>) s))"

subsection \<open>The program\<close>

text \<open>One file of the command line. \<open>files\<close> gives for a path what \<open>open\<close> finds: nothing, or the
  pieces, none of them empty, that the calls of \<open>read\<close> return until one returns 0 or fails.\<close>

definition starts_user :: "u8 list \<Rightarrow> bool" where
  "starts_user arg \<longleftrightarrow> strncmp_bytes 5 arg [0x75, 0x73, 0x65, 0x72, 0x2F] = 0"

definition mk_file :: "(u8 list \<Rightarrow> u8 list list option) \<Rightarrow> u32 \<Rightarrow> u8 list \<Rightarrow> mkfs \<Rightarrow> (unit, mkfs) outcome" where
  "mk_file files rootino arg s =
     (let shortname = (if starts_user arg then drop 5 arg else arg) in
      if 0x2F \<in> set shortname then Panic ''assert''
      else
        (case files arg of
           None \<Rightarrow> Panic ''open''
         | Some pieces \<Rightarrow>
             (let shortname = (if shortname \<noteq> [] \<and> hd shortname = 0x5F then tl shortname else shortname) in
              andthen (mk_ialloc T_FILE s) (\<lambda>inum s.
              andthen (iappend rootino (dirent_bytes (xshort (ucast inum)) shortname) s) (\<lambda>_ s.
              for_each (iappend inum) pieces s)))))"

definition mk_superblock :: superblock where
  "mk_superblock = \<lparr>sb_magic = FSMAGIC, sb_size = xint (of_nat FSSIZE), sb_nblocks = xint (of_nat (FSSIZE - nmeta)), sb_ninodes = xint (of_nat NINODES),
     sb_nlog = xint (of_nat nlog), sb_logstart = xint 2, sb_inodestart = xint (of_nat (2 + nlog)),
     sb_bmapstart = xint (of_nat (2 + nlog + ninodeblocks))\<rparr>"

definition mk_main :: "(u8 list \<Rightarrow> u8 list list option) \<Rightarrow> bool \<Rightarrow> u8 list list \<Rightarrow> mkfs \<Rightarrow> (unit, mkfs) outcome" where
  "mk_main files img_opens argv s =
     (if length argv < 2 then Panic ''Usage: mkfs fs.img files...''
      else if \<not> img_opens then Panic ''open''
      else
        (let s = s\<lparr>fsimg := [], mk_sb := mk_superblock\<rparr>;
             s = mk_printf ''nmeta %d (boot, super, log blocks %u inode blocks %u, bitmap blocks %u) blocks %d total %d''
                   (map int [nmeta, nlog, ninodeblocks, nbitmap, FSSIZE - nmeta, FSSIZE]) s;
             s = s\<lparr>freeblock := of_nat nmeta\<rparr>
         in
         andthen (for_each (\<lambda>i s. wsect (of_nat i) (replicate BSIZE 0) s) [0..<FSSIZE] s) (\<lambda>_ s.
         andthen (wsect 1 (write_at 0 (superblock_bytes (mk_sb s)) (replicate BSIZE 0)) s) (\<lambda>_ s.
         andthen (mk_ialloc T_DIR s) (\<lambda>rootino s.
         if rootino \<noteq> ROOTINO then Panic ''assert''
         else
           andthen (iappend rootino (dirent_bytes (xshort (ucast rootino)) [0x2E]) s) (\<lambda>_ s.
           andthen (iappend rootino (dirent_bytes (xshort (ucast rootino)) [0x2E, 0x2E]) s) (\<lambda>_ s.
           andthen (for_each (mk_file files rootino) (drop 2 argv) s) (\<lambda>_ s.
           andthen (rinode rootino s) (\<lambda>din s.
           let off = xint (d_size din); off = (off div of_nat BSIZE + 1) * of_nat BSIZE in
           andthen (winode rootino (din\<lparr>d_size := xint off\<rparr>) s) (\<lambda>_ s.
           mk_balloc (sint (freeblock s)) s))))))))))"

text \<open>The static variables when the program starts.\<close>

definition mkfs0 :: "(nat \<Rightarrow> bool) \<Rightarrow> mkfs" where
  "mkfs0 ok = \<lparr>fsimg = [], io_ok = ok, io_n = 0, mk_sb = \<lparr>sb_magic = 0, sb_size = 0, sb_nblocks = 0, sb_ninodes = 0, sb_nlog = 0, sb_logstart = 0,
     sb_inodestart = 0, sb_bmapstart = 0\<rparr>, freeinode = 1, freeblock = 0, mk_stdout = []\<rparr>"

subsection \<open>Bytes and sectors\<close>

lemma xint_id [simp]: "xint x = x"
  using get32_put32 [of 0 "replicate 4 0" x] by (simp add: xint_def put32_def numeral_eq_Suc)

lemma xshort_id [simp]: "xshort x = x"
  by (rule bit_word_eqI) (auto simp: xshort_def get16_def bit_simps)

lemma length_le [simp]: "length (le16 h) = 2" "length (le32 x) = 4"
  by (simp_all add: le16_def le32_def)

lemma get_append: "get16 (p @ q) (length p + i) = get16 q i" "get32 (p @ q) (length p + i) = get32 q i"
  by (simp_all add: get16_def get32_def nth_append)

lemma get_le [simp]: "get16 (le16 h @ q) 0 = h" "get32 (le32 x @ q) 0 = x"
  using xshort_id [of h, unfolded xshort_def] xint_id [of x, unfolded xint_def] by (simp_all add: get16_def get32_def le16_def le32_def)

lemma get_skip:
  shows "2 \<le> k \<Longrightarrow> get16 (le16 h @ q) k = get16 q (k - 2)" and "2 \<le> k \<Longrightarrow> get32 (le16 h @ q) k = get32 q (k - 2)"
    and "4 \<le> k \<Longrightarrow> get32 (le32 x @ q) k = get32 q (k - 4)"
  using get_append [of "le16 h" q "k - 2"] get_append(2) [of "le32 x" q "k - 4"] by (simp_all add: le_add_diff_inverse del: add_2_eq_Suc)

lemma get32_concat: "i < length xs \<Longrightarrow> get32 (concat (map le32 xs) @ q) (4 * i) = xs ! i"
proof (induction xs arbitrary: i)
  case (Cons x xs)
  then show ?case by (cases i) (simp_all add: get_skip)
qed simp

lemma length_concat_le32 [simp]: "length (concat (map le32 xs)) = 4 * length xs"
  by (induction xs) simp_all

lemma dinode_roundtrip:
  assumes "length (d_addrs x) = 13"
  shows "dinode_of (dinode_bytes x @ q) = x" and "length (dinode_bytes x) = 64"
proof -
  have "get32 (dinode_bytes x @ q) (12 + 4 * i) = d_addrs x ! i" if "i < 13" for i
    using that assms by (simp add: dinode_bytes_def get_skip get32_concat)
  then have "map (\<lambda>i. get32 (dinode_bytes x @ q) (12 + 4 * i)) [0..<13] = d_addrs x"
    using assms by (intro nth_equalityI) simp_all
  moreover have "get16 (dinode_bytes x @ q) 0 = d_type x" "get16 (dinode_bytes x @ q) 2 = d_major x" "get16 (dinode_bytes x @ q) 4 = d_minor x"
    "get16 (dinode_bytes x @ q) 6 = d_nlink x" "get32 (dinode_bytes x @ q) 8 = d_size x"
    by (simp_all add: dinode_bytes_def get_skip)
  ultimately show "dinode_of (dinode_bytes x @ q) = x" by (simp add: dinode_of_def)
  show "length (dinode_bytes x) = 64" using assms by (simp add: dinode_bytes_def)
qed

text \<open>The sectors of the image.\<close>

definition sect :: "u8 list \<Rightarrow> nat \<Rightarrow> u8 list" where
  "sect f n = take BSIZE (drop (BSIZE * n) f)"

lemma length_pwrite: "pos + length bs \<le> length f \<Longrightarrow> length (pwrite pos bs f) = length f"
  by (simp add: pwrite_def)

lemma sect_pwrite:
  assumes "BSIZE * n + BSIZE \<le> length f" and "length bs = BSIZE"
  shows "sect (pwrite (BSIZE * n) bs f) m = (if m = n then bs else sect f m)"
proof -
  have p: "pwrite (1024 * n) bs f = take (1024 * n) f @ bs @ drop (1024 * n + 1024) f" using assms by (simp add: pwrite_def)
  consider "m = n" | "1024 * m + 1024 \<le> 1024 * n" | "1024 * n + 1024 \<le> 1024 * m" by linarith
  then show ?thesis using assms by cases (auto simp: sect_def p take_drop add.commute min_def)
qed

text \<open>While all calls of the host succeed, reading and writing sectors is reading and updating a function.\<close>

definition mk_good :: "mkfs \<Rightarrow> bool" where
  "mk_good s \<longleftrightarrow> io_ok s = (\<lambda>_. True) \<and> length (fsimg s) = FSSIZE * BSIZE \<and> mk_sb s = mk_superblock"

abbreviation (input) sects :: "mkfs \<Rightarrow> nat \<Rightarrow> u8 list" where "sects s \<equiv> sect (fsimg s)"

lemma sector_pos: "unat x < FSSIZE \<Longrightarrow> unat (x * of_nat BSIZE :: u32) = BSIZE * unat x"
  by (subst unat_mult_lem [THEN iffD1]) simp_all

lemma rsect_spec:
  assumes "mk_good s" and "unat x < FSSIZE"
  shows "returns (rsect x s) (\<lambda>b t. b = sects s (unat x) \<and> mk_good t \<and> fsimg t = fsimg s \<and> freeblock t = freeblock s \<and> freeinode t = freeinode s)"
  using assms sector_pos [OF assms(2)] by (simp add: rsect_def io_call_def mk_good_def sect_def)

lemma wsect_spec:
  assumes "mk_good s" and "unat x < FSSIZE" and "length b = BSIZE"
  shows "returns (wsect x b s) (\<lambda>_ t. sects t = (sects s)(unat x := b) \<and> mk_good t \<and> freeblock t = freeblock s \<and> freeinode t = freeinode s)"
proof -
  have "BSIZE * unat x + BSIZE \<le> length (fsimg s)" using assms by (simp add: mk_good_def)
  from sect_pwrite [OF this assms(3)] length_pwrite [of "BSIZE * unat x" b "fsimg s"] show ?thesis
    using assms sector_pos [OF assms(2)] by (simp add: wsect_def io_call_def mk_good_def fun_eq_iff [of "sect f" for f])
qed

subsection \<open>Files on the image\<close>

text \<open>An inode has 269 slots for block numbers: 12 direct ones, the indirect block (number 12), and the 256 in the indirect block.
  \<open>D\<close> gives the inodes, \<open>S\<close> the sectors. A file is the function \<open>mget\<close> from offsets to bytes, 0 where there is no block.\<close>

definition slot :: "(nat \<Rightarrow> dinode) \<Rightarrow> (nat \<Rightarrow> u8 list) \<Rightarrow> nat \<Rightarrow> nat \<Rightarrow> u32" where
  "slot D S i k = (let A = d_addrs (D i) in if k < 13 then A ! k else if A ! 12 = 0 then 0 else get32 (S (unat (A ! 12))) (4 * (k - 13)))"

definition data_slot :: "nat \<Rightarrow> nat" where
  "data_slot bn = (if bn < NDIRECT then bn else bn + 1)"

definition mget :: "(nat \<Rightarrow> dinode) \<Rightarrow> (nat \<Rightarrow> u8 list) \<Rightarrow> nat \<Rightarrow> nat \<Rightarrow> u8" where
  "mget D S i o' = (let x = slot D S i (data_slot (o' div BSIZE)) in if x = 0 then 0 else S (unat x) ! (o' mod BSIZE))"

text \<open>The invariant: block numbers are in the data area below \<open>fb\<close>, no block is in two slots, and the blocks from \<open>fb\<close> on are zero.\<close>

definition slots_ok :: "(nat \<Rightarrow> dinode) \<Rightarrow> (nat \<Rightarrow> u8 list) \<Rightarrow> nat \<Rightarrow> bool" where
  "slots_ok D S fb \<longleftrightarrow> (\<forall>i<NINODES. \<forall>k<269. slot D S i k \<noteq> 0 \<longrightarrow> nmeta \<le> unat (slot D S i k) \<and> unat (slot D S i k) < fb \<and>
     (\<forall>j<NINODES. \<forall>l<269. slot D S j l = slot D S i k \<longrightarrow> j = i \<and> l = k))"

definition mk_inv :: "(nat \<Rightarrow> dinode) \<Rightarrow> (nat \<Rightarrow> u8 list) \<Rightarrow> nat \<Rightarrow> bool" where
  "mk_inv D S fb \<longleftrightarrow> (\<forall>i<NINODES. length (d_addrs (D i)) = 13) \<and> (\<forall>b<FSSIZE. length (S b) = BSIZE) \<and>
     (\<forall>b<FSSIZE. fb \<le> b \<longrightarrow> S b = replicate BSIZE 0) \<and> nmeta \<le> fb \<and> fb \<le> FSSIZE \<and> slots_ok D S fb"

lemma slots_okD:
  assumes "slots_ok D S fb" and "i < NINODES" and "k < 269" and "slot D S i k \<noteq> 0"
  shows "nmeta \<le> unat (slot D S i k)" and "unat (slot D S i k) < fb"
    and "\<And>j l. j < NINODES \<Longrightarrow> l < 269 \<Longrightarrow> slot D S j l = slot D S i k \<longleftrightarrow> j = i \<and> l = k"
  using assms by (auto simp: slots_ok_def)

lemma unat_eq [simp]: "unat x = unat y \<longleftrightarrow> x = y" for x y :: u32
  by (simp add: word_unat_eq_iff)

lemma data_slot_range: "bn < MAXFILE \<Longrightarrow> data_slot bn < 269" "data_slot bn \<noteq> 12" "data_slot bn = data_slot bn' \<longleftrightarrow> bn = bn'"
  by (auto simp: data_slot_def)

lemma get32_zeros: "i + 3 < n \<Longrightarrow> get32 (replicate n 0) i = 0"
  by (simp add: get32_def)

lemma fb_word: "fb \<le> FSSIZE \<Longrightarrow> unat (of_nat fb :: u32) = fb"
  by (simp add: unat_of_nat take_bit_nat_eq_self)

text \<open>Giving the block \<open>fb\<close> to an empty slot.\<close>

lemma slots_ok_alloc:
  assumes ok: "slots_ok D S fb" and fb: "nmeta \<le> fb" "fb < FSSIZE"
    and new: "\<And>j l. j < NINODES \<Longrightarrow> l < 269 \<Longrightarrow> slot D' S' j l = (if j = i \<and> l = k then of_nat fb else slot D S j l)"
  shows "slots_ok D' S' (Suc fb)"
  unfolding slots_ok_def
proof (intro allI impI conjI)
  note u = fb_word [OF less_imp_le [OF fb(2)]]
  have f: "slot D S j l \<noteq> of_nat fb" if "j < NINODES" "l < 269" for j l
    using slots_okD(2) [OF ok that] u fb(1) by (cases "slot D S j l = 0") auto
  fix j l assume j: "j < NINODES" "l < 269" "slot D' S' j l \<noteq> 0"
  show "nmeta \<le> unat (slot D' S' j l)" "unat (slot D' S' j l) < Suc fb"
    using j new [OF j(1,2)] u fb slots_okD(1,2) [OF ok j(1,2)] by (auto split: if_splits)
  fix j' l' assume j': "j' < NINODES" "l' < 269" "slot D' S' j' l' = slot D' S' j l"
  show "j' = j" "l' = l"
    using j j' new [OF j(1,2)] new [OF j'(1,2)] f [OF j(1,2)] f [OF j'(1,2)] slots_okD(3) [OF ok j(1,2), of j' l'] by (auto split: if_splits)
qed

lemma mk_inv_alloc:
  assumes inv: "mk_inv D S fb" and fb: "fb < FSSIZE"
    and new: "\<And>j l. j < NINODES \<Longrightarrow> l < 269 \<Longrightarrow> slot D' S' j l = (if j = i \<and> l = k then of_nat fb else slot D S j l)"
    and len: "\<And>j. j < NINODES \<Longrightarrow> length (d_addrs (D' j)) = 13" "\<And>b. length (S' b) = length (S b)" and keep: "\<And>b. fb \<le> b \<Longrightarrow> S' b = S b"
  shows "mk_inv D' S' (Suc fb)"
  using inv fb slots_ok_alloc [OF _ _ fb new] len keep by (auto simp: mk_inv_def)

lemma mget_alloc:
  assumes inv: "mk_inv D S fb" and fb: "fb < FSSIZE" and i: "slot D S i k = 0"
    and new: "\<And>j l. j < NINODES \<Longrightarrow> l < 269 \<Longrightarrow> slot D' S' j l = (if j = i \<and> l = k then of_nat fb else slot D S j l)"
    and keep: "\<And>b. fb \<le> b \<Longrightarrow> S' b = S b" "\<And>j l. j < NINODES \<Longrightarrow> l < 269 \<Longrightarrow> l \<noteq> 12 \<Longrightarrow> slot D S j l \<noteq> 0 \<Longrightarrow> S' (unat (slot D S j l)) = S (unat (slot D S j l))"
    and j: "j < NINODES" "o' < MAXFILE * BSIZE"
  shows "mget D' S' j o' = mget D S j o'"
proof -
  let ?l = "data_slot (o' div BSIZE)"
  have "o' div BSIZE < MAXFILE" using j(2) by (simp add: div_less_iff_less_mult)
  then have l: "?l < 269" "?l \<noteq> 12" using data_slot_range by auto
  show ?thesis
  proof (cases "j = i \<and> ?l = k")
    case True
    have "S' fb = replicate BSIZE 0" using inv fb keep(1) [of fb] by (simp add: mk_inv_def)
    then show ?thesis using True i new [OF j(1) l(1)] fb_word [of fb] fb by (simp add: mget_def Let_def)
  next
    case False
    then have "slot D' S' j ?l = slot D S j ?l" using new [OF j(1) l(1)] by auto
    then show ?thesis using keep(2) [OF j(1) l] by (simp add: mget_def Let_def)
  qed
qed

text \<open>The three ways in which \<open>iappend\<close> changes a file: a block number in the inode, one in the indirect block, bytes in a data block.\<close>

lemma mk_invD:
  assumes "mk_inv D S fb"
  shows "i < NINODES \<Longrightarrow> length (d_addrs (D i)) = 13" and "b < FSSIZE \<Longrightarrow> length (S b) = BSIZE" and "fb \<le> b \<Longrightarrow> b < FSSIZE \<Longrightarrow> S b = replicate BSIZE 0"
    and "nmeta \<le> fb" and "fb \<le> FSSIZE" and "slots_ok D S fb"
  using assms by (auto simp: mk_inv_def)

lemma slot_addr:
  assumes inv: "mk_inv D S fb" and i: "i < NINODES" and k: "k < 13" "d_addrs (D i) ! k = 0" and fb: "fb < FSSIZE" and l: "l < 269"
    and D': "D' = D(i := (D i)\<lparr>d_addrs := (d_addrs (D i))[k := of_nat fb]\<rparr>)"
  shows "slot D' S j l = (if j = i \<and> l = k then of_nat fb else slot D S j l)"
proof -
  have z: "get32 (S fb) (4 * (l - 13)) = 0" if "\<not> l < 13" using that l mk_invD(3) [OF inv _ fb] by (simp add: get32_zeros)
  have n: "of_nat fb \<noteq> (0 :: u32)" "unat (of_nat fb :: u32) = fb" using fb_word [of fb] fb mk_invD(4) [OF inv] by (auto simp: unat_eq_0 [symmetric])
  show ?thesis using z n k mk_invD(1) [OF inv i] by (auto simp: slot_def D' Let_def nth_list_update)
qed

lemma slot_indirect:
  assumes inv: "mk_inv D S fb" and i: "i < NINODES" and a: "d_addrs (D i) ! 12 \<noteq> 0" and m: "m < NINDIRECT" and j: "j < NINODES" "l < 269"
    and S': "S' = S(unat (d_addrs (D i) ! 12) := put32 (4 * m) v (S (unat (d_addrs (D i) ! 12))))"
  shows "slot D S' j l = (if j = i \<and> l = 13 + m then v else slot D S j l)"
proof -
  let ?a = "d_addrs (D i) ! 12"
  have s12: "slot D S j 12 = d_addrs (D j) ! 12" for j by (simp add: slot_def)
  have "unat ?a < fb" using slots_okD(2) [OF mk_invD(6) [OF inv] i, of 12] a s12 by simp
  then have len: "length (S (unat ?a)) = BSIZE" using mk_invD(2,5) [OF inv] by simp
  have ne: "unat (d_addrs (D j) ! 12) \<noteq> unat ?a" if "j \<noteq> i" using slots_okD(3) [OF mk_invD(6) [OF inv] i _ _ j(1), of 12 12] a s12 that by simp
  show ?thesis
  proof (cases "j = i \<and> \<not> l < 13")
    case True
    then have "4 * m + 3 < 4 * (l - 13) \<or> 4 * (l - 13) + 3 < 4 * m \<or> l = 13 + m" by linarith
    then show ?thesis using True a len m by (auto simp: slot_def S' Let_def)
  next
    case False
    then show ?thesis using ne by (auto simp: slot_def S' Let_def)
  qed
qed

lemma slot_data:
  assumes inv: "mk_inv D S fb" and i: "i < NINODES" "k < 269" "k \<noteq> 12" "slot D S i k \<noteq> 0" and j: "j < NINODES"
  shows "slot D (S(unat (slot D S i k) := b)) j l = slot D S j l"
proof -
  have s12: "slot D S j 12 = d_addrs (D j) ! 12" by (simp add: slot_def)
  have "unat (d_addrs (D j) ! 12) \<noteq> unat (slot D S i k)" using slots_okD(3) [OF mk_invD(6) [OF inv] i(1,2,4) j, of 12] i(3) s12 by simp
  then show ?thesis by (auto simp: slot_def Let_def)
qed

lemma data_write:
  assumes inv: "mk_inv D S fb" and i: "i < NINODES" and bn: "bn < MAXFILE" and x: "x = slot D S i (data_slot bn)" "x \<noteq> 0" and b: "length b = BSIZE"
  shows "mk_inv D (S(unat x := b)) fb"
    and "j < NINODES \<Longrightarrow> o' < MAXFILE * BSIZE \<Longrightarrow> mget D (S(unat x := b)) j o' = (if j = i \<and> o' div BSIZE = bn then b ! (o' mod BSIZE) else mget D S j o')"
proof -
  have k: "data_slot bn < 269" "data_slot bn \<noteq> 12" using data_slot_range bn by auto
  note sd = slots_okD [OF mk_invD(6) [OF inv] i k(1)]
  have sl: "slot D (S(unat x := b)) j l = slot D S j l" if "j < NINODES" for j l
    using slot_data [OF inv i k _ that] x by simp
  have "unat x < fb" using sd(2) x by simp
  then show "mk_inv D (S(unat x := b)) fb" using inv b sl by (simp add: mk_inv_def slots_ok_def)
  assume j: "j < NINODES" and o: "o' < MAXFILE * BSIZE"
  let ?y = "slot D S j (data_slot (o' div BSIZE))"
  have "data_slot (o' div BSIZE) < 269" using o by (intro data_slot_range(1)) (simp add: div_less_iff_less_mult)
  from sd(3) [OF _ j this] have "?y = x \<longleftrightarrow> j = i \<and> o' div BSIZE = bn" using x data_slot_range(3) by auto
  then show "mget D (S(unat x := b)) j o' = (if j = i \<and> o' div BSIZE = bn then b ! (o' mod BSIZE) else mget D S j o')"
    using sl [OF j] x(2) by (auto simp: mget_def Let_def)
qed

text \<open>What allocation keeps: the bytes of all files, the sectors of the boot block to the bitmap, and every slot in use.\<close>

definition grown :: "(nat \<Rightarrow> dinode) \<Rightarrow> (nat \<Rightarrow> u8 list) \<Rightarrow> (nat \<Rightarrow> dinode) \<Rightarrow> (nat \<Rightarrow> u8 list) \<Rightarrow> bool" where
  "grown D S D' S' \<longleftrightarrow> (\<forall>j<NINODES. \<forall>o'<MAXFILE * BSIZE. mget D' S' j o' = mget D S j o') \<and> (\<forall>b<nmeta. S' b = S b) \<and>
     (\<forall>j<NINODES. \<forall>k<269. slot D S j k \<noteq> 0 \<longrightarrow> slot D' S' j k = slot D S j k)"

lemma grown_refl: "grown D S D S"
  by (simp add: grown_def)

lemma grown_trans: "grown D S D' S' \<Longrightarrow> grown D' S' D'' S'' \<Longrightarrow> grown D S D'' S''"
  by (simp add: grown_def)

definition files_at :: "(nat \<Rightarrow> dinode) \<Rightarrow> mkfs \<Rightarrow> bool" where
  "files_at D s \<longleftrightarrow> mk_good s \<and> mk_inv D (sects s) (unat (freeblock s))"

lemma freeblock_inc: "unat x < FSSIZE \<Longrightarrow> unat (x + 1 :: u32) = Suc (unat x)"
  by (subst unat_add_lem [THEN iffD1]) simp_all

lemma iappend_addr_spec:
  assumes f: "files_at D s" and i: "i < NINODES" "D i = din" and k: "k < 13" and room: "d_addrs din ! k = 0 \<Longrightarrow> unat (freeblock s) < FSSIZE"
    and e: "iappend_addr k din s = (din', t)"
  shows "files_at (D(i := din')) t \<and> grown D (sects s) (D(i := din')) (sects t) \<and> d_addrs din' ! k \<noteq> 0 \<and> din' = din\<lparr>d_addrs := d_addrs din'\<rparr> \<and>
    fsimg t = fsimg s \<and> freeinode t = freeinode s \<and> unat (freeblock t) = unat (freeblock s) + (if d_addrs din ! k = 0 then 1 else 0)"
proof (cases "d_addrs din ! k = 0")
  case True
  let ?fb = "unat (freeblock s)"
  have g: "mk_good s" and inv: "mk_inv D (sects s) ?fb" and fb: "?fb < FSSIZE" using f room [OF True] by (auto simp: files_at_def)
  have t: "din' = din\<lparr>d_addrs := (d_addrs din)[k := freeblock s]\<rparr>" "t = s\<lparr>freeblock := freeblock s + 1\<rparr>"
    using e True by (simp_all add: iappend_addr_def)
  have D: "D(i := din') = D(i := (D i)\<lparr>d_addrs := (d_addrs (D i))[k := of_nat ?fb]\<rparr>)" using t i by simp
  have new: "slot (D(i := din')) (sects s) j l = (if j = i \<and> l = k then of_nat ?fb else slot D (sects s) j l)" if "l < 269" for j l
    using slot_addr [OF inv i(1) k _ fb that D] True i by simp
  have z: "slot D (sects s) i k = 0" using True k i by (simp add: slot_def)
  have "mk_inv (D(i := din')) (sects s) (Suc ?fb)" by (rule mk_inv_alloc [OF inv fb new]) (use mk_invD(1) [OF inv] t i in auto)
  moreover have "mget (D(i := din')) (sects s) j o' = mget D (sects s) j o'" if "j < NINODES" "o' < MAXFILE * BSIZE" for j o'
    by (rule mget_alloc [OF inv fb z new _ _ that]) auto
  ultimately show ?thesis using t fb g new mk_invD(1) [OF inv i(1)] mk_invD(4) [OF inv] i k True z
    by (auto simp: files_at_def grown_def mk_good_def freeblock_inc)
next
  case False
  then show ?thesis using assms by (auto simp: iappend_addr_def grown_refl)
qed

text \<open>The number of blocks \<open>iappend\<close> takes for block \<open>bn\<close> of a file.\<close>

definition need :: "(nat \<Rightarrow> dinode) \<Rightarrow> (nat \<Rightarrow> u8 list) \<Rightarrow> nat \<Rightarrow> nat \<Rightarrow> nat" where
  "need D S i bn = (if slot D S i (data_slot bn) \<noteq> 0 then 0 else if bn < NDIRECT \<or> d_addrs (D i) ! NDIRECT \<noteq> 0 then 1 else 2)"

lemma indirect_spec:
  assumes f: "files_at D s" and i: "i < NINODES" and a: "d_addrs (D i) ! 12 \<noteq> 0" and bn: "12 \<le> bn" "bn < MAXFILE"
    and room: "slot D (sects s) i (data_slot bn) = 0 \<Longrightarrow> unat (freeblock s) < FSSIZE"
  shows "returns (andthen (rsect (d_addrs (D i) ! 12) s) (\<lambda>indirect s.
           if get32 indirect (4 * (bn - 12)) = 0 then
             (let indirect = put32 (4 * (bn - 12)) (freeblock s) indirect; s = s\<lparr>freeblock := freeblock s + 1\<rparr> in
              andthen (wsect (d_addrs (D i) ! 12) indirect s) (\<lambda>_ s. Ret (get32 indirect (4 * (bn - 12)), D i) s))
           else Ret (get32 indirect (4 * (bn - 12)), D i) s))
     (\<lambda>(x, din') t. din' = D i \<and> files_at D t \<and> grown D (sects s) D (sects t) \<and> x = slot D (sects t) i (data_slot bn) \<and> x \<noteq> 0 \<and>
        freeinode t = freeinode s \<and> unat (freeblock t) = unat (freeblock s) + (if slot D (sects s) i (data_slot bn) = 0 then 1 else 0))"
proof -
  let ?a = "d_addrs (D i) ! 12" and ?fb = "unat (freeblock s)" and ?m = "bn - 12"
  have g: "mk_good s" and inv: "mk_inv D (sects s) ?fb" using f by (auto simp: files_at_def)
  have s12: "slot D (sects s) i 12 = ?a" by (simp add: slot_def)
  have k: "data_slot bn = 13 + ?m" "?m < NINDIRECT" "data_slot bn < 269" using bn by (auto simp: data_slot_def)
  have af: "unat ?a < ?fb" using slots_okD(2) [OF mk_invD(6) [OF inv] i, of 12] a s12 by simp
  then have a2: "unat ?a < FSSIZE" using mk_invD(5) [OF inv] by simp
  obtain u where u: "rsect ?a s = Ret (sects s (unat ?a)) u" "mk_good u" "fsimg u = fsimg s" "freeblock u = freeblock s" "freeinode u = freeinode s"
    using rsect_spec [OF g a2] by (auto simp: returns_iff)
  have sl: "slot D (sects s) i (data_slot bn) = get32 (sects s (unat ?a)) (4 * ?m)" using k a by (simp add: slot_def)
  show ?thesis
  proof (cases "get32 (sects s (unat ?a)) (4 * ?m) = 0")
    case True
    let ?b = "put32 (4 * ?m) (freeblock s) (sects s (unat ?a))" and ?u = "u\<lparr>freeblock := freeblock s + 1\<rparr>"
    have fb: "?fb < FSSIZE" and z: "slot D (sects s) i (data_slot bn) = 0" using room sl True by simp_all
    have len: "length (sects s (unat ?a)) = BSIZE" using mk_invD(2) [OF inv a2] .
    have "mk_good ?u" using u(2) by (simp add: mk_good_def)
    then obtain t where t: "wsect ?a ?b ?u = Ret () t" "mk_good t" "sects t = (sects s)(unat ?a := ?b)" "freeblock t = freeblock s + 1" "freeinode t = freeinode s"
      using wsect_spec [of ?u ?a ?b] a2 len u by (auto simp: returns_iff)
    have new: "slot D (sects t) j l = (if j = i \<and> l = data_slot bn then of_nat ?fb else slot D (sects s) j l)" if "j < NINODES" "l < 269" for j l
      using slot_indirect [OF inv i a k(2) that, of "sects t"] t(3) k(1) by simp
    have "sects t b = sects s b" if "?fb \<le> b" for b using that af t(3) by auto
    moreover have "sects t (unat (slot D (sects s) j l)) = sects s (unat (slot D (sects s) j l))"
      if "j < NINODES" "l < 269" "l \<noteq> 12" "slot D (sects s) j l \<noteq> 0" for j l
      using slots_okD(3) [OF mk_invD(6) [OF inv] that(1,2,4) i, of 12] s12 that(3) t(3) by auto
    moreover have "length (sects t b) = length (sects s b)" for b using t(3) by simp
    ultimately have "mk_inv D (sects t) (Suc ?fb)" "\<And>j o'. j < NINODES \<Longrightarrow> o' < MAXFILE * BSIZE \<Longrightarrow> mget D (sects t) j o' = mget D (sects s) j o'"
      using mk_inv_alloc [OF inv fb new] mget_alloc [OF inv fb z new] mk_invD(1) [OF inv] by auto
    moreover have "sects t b = sects s b" if "b < nmeta" for b using that slots_okD(1) [OF mk_invD(6) [OF inv] i, of 12] a s12 t(3) by auto
    moreover have "freeblock s \<noteq> 0" using mk_invD(4) [OF inv] by auto
    ultimately show ?thesis using u(1,4) t new True z fb len k sl i by (auto simp: files_at_def grown_def freeblock_inc)
  next
    case False
    then show ?thesis using u f sl inv by (simp add: files_at_def grown_refl)
  qed
qed

lemma iappend_block_spec:
  assumes f: "files_at D s" and i: "i < NINODES" "D i = din" and bn: "bn < MAXFILE" and room: "unat (freeblock s) + need D (sects s) i bn \<le> FSSIZE"
  shows "returns (iappend_block bn din s) (\<lambda>(x, din') t. files_at (D(i := din')) t \<and> grown D (sects s) (D(i := din')) (sects t) \<and>
     x = slot (D(i := din')) (sects t) i (data_slot bn) \<and> x \<noteq> 0 \<and> din' = din\<lparr>d_addrs := d_addrs din'\<rparr> \<and> freeinode t = freeinode s \<and>
     unat (freeblock t) \<le> unat (freeblock s) + need D (sects s) i bn)"
proof (cases "bn < 12")
  case True
  obtain din' t where e: "iappend_addr bn din s = (din', t)" by force
  have s: "slot D (sects s) i (data_slot bn) = d_addrs din ! bn" using True i by (simp add: slot_def data_slot_def)
  have "slot (D(i := din')) (sects t) i (data_slot bn) = d_addrs din' ! bn" using True by (simp add: slot_def data_slot_def)
  with iappend_addr_spec [OF f i _ _ e] show ?thesis using True s room e by (auto simp: iappend_block_def need_def split: if_splits)
next
  case False
  obtain din' t where e: "iappend_addr 12 din s = (din', t)" by force
  let ?D = "D(i := din')"
  have sz: "slot D (sects s) i (data_slot bn) = 0" if "d_addrs din ! 12 = 0" using that False i by (simp add: slot_def data_slot_def)
  have r: "d_addrs din ! 12 = 0 \<Longrightarrow> unat (freeblock s) < FSSIZE" using room sz False i by (simp add: need_def)
  note a = iappend_addr_spec [OF f i _ r e, simplified]
  have sl: "slot ?D (sects t) i (data_slot bn) = slot D (sects s) i (data_slot bn)" if "slot D (sects s) i (data_slot bn) \<noteq> 0 \<or> d_addrs din ! 12 \<noteq> 0"
  proof (cases "d_addrs din ! 12 = 0")
    case False
    then have "din' = din" "t = s" using e by (auto simp: iappend_addr_def)
    then show ?thesis using i by auto
  qed (use that sz in simp)
  have "unat (freeblock t) < FSSIZE" if "slot ?D (sects t) i (data_slot bn) = 0"
    using that room sz sl a False i by (auto simp: need_def split: if_splits)
  from indirect_spec [of ?D t i bn, OF _ i(1) _ _ bn this] a False e show ?thesis
    using sl sz grown_trans [of D "sects s" ?D "sects t"] i
    by (auto simp: iappend_block_def Let_def need_def elim!: returns_mono split: if_splits)
qed

text \<open>The blocks a file of \<open>n\<close> bytes takes, with the indirect block.\<close>

definition cost :: "nat \<Rightarrow> nat" where
  "cost n = (let b = (n + (BSIZE - 1)) div BSIZE in if NDIRECT < b then b + 1 else b)"

definition filled :: "(nat \<Rightarrow> dinode) \<Rightarrow> (nat \<Rightarrow> u8 list) \<Rightarrow> nat \<Rightarrow> nat \<Rightarrow> bool" where
  "filled D S i n \<longleftrightarrow> (\<forall>bn. bn * BSIZE < n \<longrightarrow> slot D S i (data_slot bn) \<noteq> 0)"

lemma need_cost:
  assumes f: "filled D S i off" and n: "0 < n" "off mod BSIZE + n \<le> BSIZE"
  shows "need D S i (off div BSIZE) + cost off \<le> cost (off + n)"
proof (cases "off mod BSIZE = 0")
  case True
  then obtain q where q: "off = 1024 * q" by (auto simp: mod_eq_0_iff_dvd)
  have c: "(1024 * q + n + 1023) div 1024 = q + 1" "(1024 * q + 1023) div 1024 = q" using n q by (auto intro: div_nat_eqI)
  have "d_addrs (D i) ! 12 \<noteq> 0" if "12 < q" using f that q by (auto simp: filled_def slot_def data_slot_def dest: spec [of _ 12])
  moreover have "cost off = (if 12 < q then q + 1 else q)" "cost (off + n) = (if 12 < q + 1 then q + 2 else q + 1)" using c q by (simp_all add: cost_def)
  ultimately show ?thesis using q by (auto simp: need_def)
next
  case False
  then have "off div BSIZE * BSIZE < off" using div_mult_mod_eq [of off BSIZE] by linarith
  then have "need D S i (off div BSIZE) = 0" using f by (simp add: filled_def need_def)
  moreover have "(off + (BSIZE - 1)) div BSIZE \<le> (off + n + (BSIZE - 1)) div BSIZE" by (intro div_le_mono) simp
  ultimately show ?thesis by (auto simp: cost_def Let_def)
qed

text \<open>The effect of appending: the bytes \<open>p\<close> at offset \<open>off\<close> of file \<open>i\<close>, and no other byte of any file.\<close>

definition appended :: "(nat \<Rightarrow> dinode) \<Rightarrow> (nat \<Rightarrow> u8 list) \<Rightarrow> nat \<Rightarrow> nat \<Rightarrow> u8 list \<Rightarrow> (nat \<Rightarrow> dinode) \<Rightarrow> (nat \<Rightarrow> u8 list) \<Rightarrow> bool" where
  "appended D S i off p D' S' \<longleftrightarrow> (\<forall>j<NINODES. \<forall>o'<MAXFILE * BSIZE. mget D' S' j o' =
       (if j = i \<and> off \<le> o' \<and> o' < off + length p then p ! (o' - off) else mget D S j o')) \<and> (\<forall>b<nmeta. S' b = S b) \<and>
     (\<forall>j<NINODES. \<forall>k<269. slot D S j k \<noteq> 0 \<longrightarrow> slot D' S' j k = slot D S j k)"

lemma appended_trans:
  assumes "appended D S i off p D' S'" and "appended D' S' i (off + length p) q D'' S''"
  shows "appended D S i off (p @ q) D'' S''"
  using assms by (auto simp: appended_def nth_append)

lemma same_block:
  assumes "off \<le> o'" and "o' < off + n" and "off mod b + n \<le> (b :: nat)"
  shows "o' div b = off div b"
proof -
  have "o' = off mod b + (o' - off) + off div b * b" using assms(1) mod_div_mult_eq [of off b] by linarith
  moreover have "(x + q * b) div b = q" if "x < b" for x q using that by simp
  moreover have "off mod b + (o' - off) < b" using assms by linarith
  ultimately show ?thesis by metis
qed

text \<open>Bytes in a block that is there.\<close>

lemma write_bytes:
  assumes f: "files_at D s" and i: "i < NINODES" and off: "off < MAXFILE * BSIZE" "off mod BSIZE + length p \<le> BSIZE"
    and x: "x = slot D (sects s) i (data_slot (off div BSIZE))" "x \<noteq> 0"
  shows "returns (andthen (rsect x s) (\<lambda>buf s. wsect x (write_at (off mod BSIZE) p buf) s)) (\<lambda>_ t. files_at D t \<and>
     appended D (sects s) i off p D (sects t) \<and> (\<forall>l. slot D (sects t) i l = slot D (sects s) i l) \<and> freeblock t = freeblock s \<and> freeinode t = freeinode s)"
proof -
  let ?bn = "off div BSIZE" and ?b = "write_at (off mod BSIZE) p (sects s (unat x))"
  have bn: "?bn < MAXFILE" using off(1) by (simp add: div_less_iff_less_mult)
  have g: "mk_good s" and inv: "mk_inv D (sects s) (unat (freeblock s))" using f by (auto simp: files_at_def)
  note so = slots_okD [OF mk_invD(6) [OF inv] i data_slot_range(1) [OF bn]]
  have xr: "nmeta \<le> unat x" "unat x < FSSIZE" using so(1,2) x mk_invD(5) [OF inv] by auto
  have lx: "length (sects s (unat x)) = BSIZE" by (rule mk_invD(2) [OF inv xr(2)])
  then have lb: "length ?b = BSIZE" using off(2) by (simp add: write_at_def)
  obtain v where v: "rsect x s = Ret (sects s (unat x)) v" "mk_good v" "fsimg v = fsimg s" "freeblock v = freeblock s" "freeinode v = freeinode s"
    using rsect_spec [OF g xr(2)] by (auto simp: returns_iff)
  obtain t where t: "wsect x ?b v = Ret () t" "mk_good t" "sects t = (sects s)(unat x := ?b)" "freeblock t = freeblock s" "freeinode t = freeinode s"
    using wsect_spec [OF v(2) xr(2) lb] v by (auto simp: returns_iff)
  note dw = data_write [OF inv i bn x lb, folded t(3)]
  have sl: "slot D (sects t) j l = slot D (sects s) j l" if "j < NINODES" for j l
    using slot_data [OF inv i data_slot_range(1) [OF bn] data_slot_range(2) _ that, of ?b l] x t(3) by simp
  have "mget D (sects t) j o' = (if j = i \<and> off \<le> o' \<and> o' < off + length p then p ! (o' - off) else mget D (sects s) j o')"
    if j: "j < NINODES" "o' < MAXFILE * BSIZE" for j o'
  proof -
    have "?b ! (o' mod BSIZE) = (if off \<le> o' \<and> o' < off + length p then p ! (o' - off) else sects s (unat x) ! (o' mod BSIZE))" if "o' div BSIZE = ?bn"
    proof -
      have "o' = ?bn * BSIZE + o' mod BSIZE" "off = ?bn * BSIZE + off mod BSIZE" using that div_mult_mod_eq [of o' BSIZE] by auto
      then have "off mod BSIZE \<le> o' mod BSIZE \<longleftrightarrow> off \<le> o'" "o' mod BSIZE - off mod BSIZE = o' - off" "o' mod BSIZE < off mod BSIZE + length p \<longleftrightarrow> o' < off + length p"
        by linarith+
      then show ?thesis using off(2) lx write_at_nth [of "off mod BSIZE" p "sects s (unat x)" "o' mod BSIZE"] by simp
    qed
    moreover have "mget D (sects s) i o' = sects s (unat x) ! (o' mod BSIZE)" if "o' div BSIZE = ?bn" using that x by (simp add: mget_def)
    ultimately show ?thesis using dw(2) [OF j] same_block [OF _ _ off(2), of o'] by auto
  qed
  then have "appended D (sects s) i off p D (sects t)" using sl t(3) xr(1) by (auto simp: appended_def)
  then show ?thesis using dw(1) t v sl [OF i] by (simp add: files_at_def)
qed

text \<open>What one round and the whole loop of \<open>iappend\<close> do.\<close>

definition appending :: "(nat \<Rightarrow> dinode) \<Rightarrow> mkfs \<Rightarrow> nat \<Rightarrow> nat \<Rightarrow> u8 list \<Rightarrow> dinode \<Rightarrow> mkfs \<Rightarrow> bool" where
  "appending D s i off p din t \<longleftrightarrow> din = (D i)\<lparr>d_addrs := d_addrs din\<rparr> \<and> files_at (D(i := din)) t \<and> filled (D(i := din)) (sects t) i (off + length p) \<and>
     appended D (sects s) i off p (D(i := din)) (sects t) \<and> freeinode t = freeinode s \<and>
     unat (freeblock t) + cost off \<le> unat (freeblock s) + cost (off + length p)"

lemma appending_trans:
  assumes "appending D s i off p din t" and "appending (D(i := din)) t i (off + length p) q din' u"
  shows "appending D s i off (p @ q) din' u"
proof -
  have "appended D (sects s) i off (p @ q) (D(i := din')) (sects u)" using appended_trans assms by (fastforce simp: appending_def)
  moreover have "din' = (D i)\<lparr>d_addrs := d_addrs din'\<rparr>" using assms by (cases din'; cases din) (auto simp: appending_def)
  ultimately show ?thesis using assms by (auto simp: appending_def ac_simps)
qed

lemma filled_extend:
  assumes fl: "filled D S i off" and g: "grown D S D' S'" and i: "i < NINODES" and off: "off < MAXFILE * BSIZE" "off mod BSIZE + n \<le> BSIZE"
    and x: "slot D' S' i (data_slot (off div BSIZE)) \<noteq> 0"
  shows "filled D' S' i (off + n)"
  unfolding filled_def
proof (intro allI impI)
  fix b assume b: "b * BSIZE < off + n"
  show "slot D' S' i (data_slot b) \<noteq> 0"
  proof (cases "b * BSIZE < off")
    case True
    then have "data_slot b < 269" using off(1) by (intro data_slot_range(1)) linarith
    then show ?thesis using True fl g i by (simp add: filled_def grown_def)
  next
    case False
    then have "b = off div BSIZE" using b off(2) div_mult_mod_eq [of off BSIZE] by linarith
    then show ?thesis using x by simp
  qed
qed

lemma iappend_round:
  assumes f: "files_at D s" and i: "i < NINODES" and fl: "filled D (sects s) i off"
    and p: "0 < length p" "off mod BSIZE + length p \<le> BSIZE" "off < MAXFILE * BSIZE" and room: "unat (freeblock s) + cost (off + length p) \<le> FSSIZE + cost off"
  shows "returns (andthen (iappend_block (off div BSIZE) (D i) s) (\<lambda>(x, din) s. andthen (rsect x s) (\<lambda>buf s.
            andthen (wsect x (write_at (off mod BSIZE) p buf) s) (\<lambda>_ s. Ret din s)))) (appending D s i off p)"
proof -
  let ?bn = "off div BSIZE"
  have bn: "?bn < MAXFILE" using p(3) by (simp add: div_less_iff_less_mult)
  note nc = need_cost [OF fl p(1,2)]
  have "unat (freeblock s) + need D (sects s) i ?bn \<le> FSSIZE" using nc room by linarith
  from iappend_block_spec [OF f i refl bn this] obtain x din u where u: "iappend_block ?bn (D i) s = Ret (x, din) u" "files_at (D(i := din)) u"
    "grown D (sects s) (D(i := din)) (sects u)" "x = slot (D(i := din)) (sects u) i (data_slot ?bn)" "x \<noteq> 0" "din = (D i)\<lparr>d_addrs := d_addrs din\<rparr>"
    "freeinode u = freeinode s" "unat (freeblock u) \<le> unat (freeblock s) + need D (sects s) i ?bn"
    by (auto simp: returns_iff)
  have "filled (D(i := din)) (sects u) i (off + length p)" using filled_extend [OF fl u(3) i p(3,2)] u(4,5) by simp
  moreover have "appended D (sects s) i off p (D(i := din)) S" if "appended (D(i := din)) (sects u) i off p (D(i := din)) S" for S
    using that u(3) by (auto simp: appended_def grown_def)
  ultimately have "returns (andthen (andthen (rsect x u) (\<lambda>buf s. wsect x (write_at (off mod BSIZE) p buf) s)) (\<lambda>_ s. Ret din s)) (appending D s i off p)"
    using write_bytes [OF u(2) i p(3,2) u(4,5)] u nc by (auto simp: appending_def filled_def elim!: returns_mono)
  then show ?thesis using u(1) by simp
qed

lemma cost_mono: "x \<le> y \<Longrightarrow> cost x \<le> cost y"
  using div_le_mono [of "x + (BSIZE - 1)" "y + (BSIZE - 1)" BSIZE] by (auto simp: cost_def Let_def)

lemma iappend_loop_step:
  assumes "p \<noteq> []" and "off div BSIZE < MAXFILE" and "n = min (length p) (BSIZE - off mod BSIZE)"
  shows "iappend_loop p off din s = andthen (andthen (iappend_block (off div BSIZE) din s) (\<lambda>(x, din) s. andthen (rsect x s) (\<lambda>buf s.
     andthen (wsect x (write_at (off mod BSIZE) (take n p) buf) s) (\<lambda>_ s. Ret din s)))) (\<lambda>din s. iappend_loop (drop n p) (off + n) din s)"
proof -
  have "(off div BSIZE + 1) * BSIZE - off = BSIZE - off mod BSIZE" "off - off div BSIZE * BSIZE = off mod BSIZE"
    by (simp_all add: minus_div_mult_eq_mod) (metis diff_cancel2 div_mult_mod_eq add.commute)
  then show ?thesis using assms by (simp add: iappend_loop.simps [of p] Let_def andthen_assoc case_prod_unfold)
qed

lemma iappend_loop_spec:
  assumes "files_at D s" and "i < NINODES" and "filled D (sects s) i off" and "off + length p \<le> MAXFILE * BSIZE"
    and "unat (freeblock s) + cost (off + length p) \<le> FSSIZE + cost off"
  shows "returns (iappend_loop p off (D i) s) (\<lambda>(off', din) t. off' = off + length p \<and> appending D s i off p din t)"
  using assms
proof (induction "length p" arbitrary: p off D s rule: less_induct)
  case less
  show ?case
  proof (cases "p = []")
    case True
    have "D(i := D i) = D" by simp
    then show ?thesis using True less.prems by (auto simp: iappend_loop.simps [of "[]"] appending_def appended_def)
  next
    case False
    define n where "n = min (length p) (BSIZE - off mod BSIZE)"
    let ?p = "take n p" and ?q = "drop n p"
    have n: "length ?p = n" "0 < n" "off mod BSIZE + n \<le> BSIZE" "off + n + length ?q = off + length p" "length ?q < length p" "off + n \<le> off + length p"
      using False mod_less_divisor [of BSIZE off] by (auto simp: n_def)
    have off: "off < MAXFILE * BSIZE" "off div BSIZE < MAXFILE" using less.prems(4) False by (cases p; auto simp: div_less_iff_less_mult)+
    have "unat (freeblock s) + cost (off + n) \<le> FSSIZE + cost off" using less.prems(5) cost_mono [OF n(6)] by simp
    note r = iappend_round [OF less.prems(1-3) _ _ off(1), of ?p, unfolded n(1), OF n(2,3) this]
    show ?thesis unfolding iappend_loop_step [OF False off(2) n_def] returns_andthen [of "andthen x y" for x y]
    proof (rule returns_mono [OF r])
      fix d t assume d: "appending D s i off ?p d t"
      then have t: "files_at (D(i := d)) t" "filled (D(i := d)) (sects t) i (off + n)" "unat (freeblock t) + cost off \<le> unat (freeblock s) + cost (off + n)"
        using n(1) by (auto simp: appending_def)
      have "returns (iappend_loop ?q (off + n) ((D(i := d)) i) t) (\<lambda>(off', din) u. off' = off + n + length ?q \<and> appending (D(i := d)) t i (off + n) ?q din u)"
        by (rule less.hyps [OF n(5) t(1) less.prems(2) t(2)]) (use n(4) less.prems(4,5) t(3) in simp_all)
      then show "returns (iappend_loop ?q (off + n) d t) (\<lambda>(off', din) t. off' = off + length p \<and> appending D s i off p din t)"
        using appending_trans [OF d, of ?q] n(1,4) by (auto elim!: returns_mono)
    qed
  qed
qed

subsection \<open>The inodes on the image\<close>

definition dino :: "(nat \<Rightarrow> u8 list) \<Rightarrow> nat \<Rightarrow> dinode" where
  "dino S i = dinode_of (drop (64 * (i mod 16)) (S (32 + i div 16)))"

lemma inode_place:
  assumes "unat inum < NINODES"
  shows "unat (IBLOCK inum mk_superblock) = 32 + unat inum div 16" and "dinode_off inum = 64 * (unat inum mod 16)" and "32 + unat inum div 16 < nmeta - 1"
proof -
  have d: "unat (inum div 16) = unat inum div 16" "unat inum div 16 < 13" using assms by (simp_all add: unat_div_distrib)
  show "unat (IBLOCK inum mk_superblock) = 32 + unat inum div 16"
    unfolding IBLOCK_def mk_superblock_def using d by (subst unat_add_lem [THEN iffD1]) simp_all
  show "dinode_off inum = 64 * (unat inum mod 16)" by (simp add: dinode_off_def unat_mod_distrib)
  show "32 + unat inum div 16 < nmeta - 1" using d by simp
qed

lemma rinode_spec:
  assumes "mk_good s" and "unat inum < NINODES"
  shows "returns (rinode inum s) (\<lambda>din t. din = dino (sects s) (unat inum) \<and> mk_good t \<and> fsimg t = fsimg s \<and> freeblock t = freeblock s \<and> freeinode t = freeinode s)"
proof -
  note p = inode_place [OF assms(2)]
  have "mk_sb s = mk_superblock" using assms(1) by (simp add: mk_good_def)
  then show ?thesis using rsect_spec [OF assms(1), of "IBLOCK inum mk_superblock"] p by (auto simp: rinode_def dino_def elim!: returns_mono)
qed

lemma dinode_of_cong: "(\<And>n. n < 64 \<Longrightarrow> bs ! n = cs ! n) \<Longrightarrow> dinode_of bs = dinode_of cs"
  by (simp add: dinode_of_def get16_def get32_def)

lemma dino_write:
  assumes l: "length (S (32 + i div 16)) = BSIZE" and x: "length (d_addrs x) = 13"
    and S': "S' = S(32 + i div 16 := write_at (64 * (i mod 16)) (dinode_bytes x) (S (32 + i div 16)))"
  shows "dino S' = (dino S)(i := x)"
proof
  fix j
  let ?B = "S (32 + i div 16)" and ?W = "write_at (64 * (i mod 16)) (dinode_bytes x) (S (32 + i div 16))"
  have r: "64 * (k mod 16) + 64 \<le> length ?B" for k using l mod_less_divisor [of 16 k] by simp
  note bx = dinode_roundtrip [OF x]
  consider "j = i" | "j \<noteq> i" "j div 16 = i div 16" | "j div 16 \<noteq> i div 16" by auto
  then show "dino S' j = ((dino S)(i := x)) j"
  proof cases
    case 1
    have "drop (64 * (i mod 16)) ?W = dinode_bytes x @ drop (64 * (i mod 16) + 64) ?B" using r [of i] bx(2) by (simp add: write_at_def)
    then show ?thesis using 1 bx(1) by (simp add: dino_def S')
  next
    case 2
    then have m: "j mod 16 \<noteq> i mod 16" by (metis div_mult_mod_eq)
    have "dinode_of (drop (64 * (j mod 16)) ?W) = dinode_of (drop (64 * (j mod 16)) ?B)"
    proof (rule dinode_of_cong)
      fix n :: nat assume n: "n < 64"
      have "\<not> (64 * (i mod 16) \<le> 64 * (j mod 16) + n \<and> 64 * (j mod 16) + n < 64 * (i mod 16) + 64)" using m n by linarith
      then show "drop (64 * (j mod 16)) ?W ! n = drop (64 * (j mod 16)) ?B ! n"
        using n r [of i] r [of j] bx(2) write_at_nth [of "64 * (i mod 16)" "dinode_bytes x" ?B "64 * (j mod 16) + n"] length_write_at [of "64 * (i mod 16)" "dinode_bytes x" ?B] by auto
    qed
    then show ?thesis using 2 by (simp add: dino_def S')
  qed (auto simp: dino_def S')
qed

lemma winode_spec:
  assumes "mk_good s" and i: "unat inum < NINODES" and x: "length (d_addrs x) = 13"
  shows "returns (winode inum x s) (\<lambda>_ t. mk_good t \<and> dino (sects t) = (dino (sects s))(unat inum := x) \<and>
     (\<forall>b. b \<noteq> 32 + unat inum div 16 \<longrightarrow> sects t b = sects s b) \<and> (\<forall>b. length (sects t b) = length (sects s b)) \<and>
     freeblock t = freeblock s \<and> freeinode t = freeinode s)"
proof -
  let ?n = "IBLOCK inum mk_superblock" and ?b = "write_at (dinode_off inum) (dinode_bytes x) (sects s (32 + unat inum div 16))"
  note p = inode_place [OF i]
  have sb: "mk_sb s = mk_superblock" using assms(1) by (simp add: mk_good_def)
  have n: "unat ?n < FSSIZE" using p(1,3) by simp
  have l: "length (sects s (32 + unat inum div 16)) = BSIZE" using assms(1) p(3) by (simp add: mk_good_def sect_def)
  have "64 * (unat inum mod 16) + 64 \<le> BSIZE" by simp
  then have lb: "length ?b = BSIZE" using length_write_at l dinode_roundtrip(2) [OF x] p(2) by simp
  obtain u where u: "rsect ?n s = Ret (sects s (unat ?n)) u" "mk_good u" "fsimg u = fsimg s" "freeblock u = freeblock s" "freeinode u = freeinode s"
    using rsect_spec [OF assms(1) n] by (auto simp: returns_iff)
  have "returns (wsect ?n ?b u) (\<lambda>_ t. sects t = (sects s)(32 + unat inum div 16 := ?b) \<and> mk_good t \<and> freeblock t = freeblock s \<and> freeinode t = freeinode s)"
    using wsect_spec [OF u(2) n lb] u p(1) by simp
  then show ?thesis using u(1) sb p(1,2) dino_write [of "sects s" "unat inum" x, OF l x] l lb by (auto simp: winode_def elim!: returns_mono)
qed

text \<open>Writing an inode with the same block numbers does not change what the files contain.\<close>

lemma meta_write:
  assumes inv: "mk_inv D S fb" and S: "\<forall>b\<ge>nmeta. S' b = S b" "\<forall>b. length (S' b) = length (S b)"
    and D: "\<forall>i<NINODES. d_addrs (D' i) = d_addrs (D i)"
  shows "i < NINODES \<Longrightarrow> k < 269 \<Longrightarrow> slot D' S' i k = slot D S i k" and "i < NINODES \<Longrightarrow> o' < MAXFILE * BSIZE \<Longrightarrow> mget D' S' i o' = mget D S i o'"
    and "mk_inv D' S' fb"
proof -
  note so = slots_okD [OF mk_invD(6) [OF inv]]
  show s: "slot D' S' i k = slot D S i k" if i: "i < NINODES" "k < 269" for i k
  proof -
    have "S' (unat (d_addrs (D i) ! 12)) = S (unat (d_addrs (D i) ! 12))" if "d_addrs (D i) ! 12 \<noteq> 0"
      using so(1) [OF i(1), of 12] that S(1) by (simp add: slot_def)
    then show ?thesis using D i(1) by (simp add: slot_def Let_def)
  qed
  show "mget D' S' i o' = mget D S i o'" if i: "i < NINODES" "o' < MAXFILE * BSIZE" for i o'
  proof -
    have "data_slot (o' div BSIZE) < 269" using i(2) by (intro data_slot_range(1)) (simp add: div_less_iff_less_mult)
    then show ?thesis using s [OF i(1)] so(1) [OF i(1)] S(1) by (simp add: mget_def Let_def)
  qed
  show "mk_inv D' S' fb" using inv s S D by (simp add: mk_inv_def slots_ok_def)
qed

text \<open>A well-formed image: every file has all its blocks, and nothing but zeros behind its end.\<close>

abbreviation (input) mfile :: "mkfs \<Rightarrow> nat \<Rightarrow> nat \<Rightarrow> u8" where "mfile s \<equiv> mget (dino (sects s)) (sects s)"
abbreviation (input) msize :: "mkfs \<Rightarrow> nat \<Rightarrow> nat" where "msize s i \<equiv> unat (d_size (dino (sects s) i))"

definition img_ok :: "mkfs \<Rightarrow> bool" where
  "img_ok s \<longleftrightarrow> files_at (dino (sects s)) s \<and> (\<forall>i<NINODES. msize s i \<le> MAXFILE * BSIZE \<and> filled (dino (sects s)) (sects s) i (msize s i) \<and>
     (\<forall>o'<MAXFILE * BSIZE. msize s i \<le> o' \<longrightarrow> mfile s i o' = 0))"

definition contents :: "mkfs \<Rightarrow> nat \<Rightarrow> u8 list" where
  "contents s i = map (mfile s i) [0..<msize s i]"

text \<open>The boot block, the superblock, the log and the bitmap.\<close>

definition same_meta :: "mkfs \<Rightarrow> mkfs \<Rightarrow> bool" where
  "same_meta s t \<longleftrightarrow> (\<forall>b. b < 32 \<or> b = 45 \<longrightarrow> sects t b = sects s b)"

text \<open>What appending \<open>p\<close> to file \<open>i\<close> does to the image.\<close>

definition appends :: "nat \<Rightarrow> u8 list \<Rightarrow> mkfs \<Rightarrow> mkfs \<Rightarrow> bool" where
  "appends i p s t \<longleftrightarrow> img_ok t \<and> contents t i = contents s i @ p \<and> (\<forall>j<NINODES. j \<noteq> i \<longrightarrow> contents t j = contents s j \<and> dino (sects t) j = dino (sects s) j) \<and>
     d_type (dino (sects t) i) = d_type (dino (sects s) i) \<and> same_meta s t \<and> freeinode t = freeinode s \<and>
     unat (freeblock t) + cost (msize s i) \<le> unat (freeblock s) + cost (msize s i + length p)"

lemma append_finish:
  assumes ok: "img_ok s" and i: "i < NINODES" and n: "n = msize s i" "n + length p \<le> MAXFILE * BSIZE" and a: "appended (dino (sects s)) (sects s) i n p E S"
    and E: "E = (dino (sects s))(i := din)" and inv: "mk_inv E S (unat (freeblock t))" and g: "mk_good t"
    and d: "\<forall>j<NINODES. dino (sects t) j = (if j = i then din\<lparr>d_size := z\<rparr> else dino (sects s) j)" and z: "unat z = n + length p"
    and S: "\<forall>b\<ge>nmeta. sects t b = S b" "\<forall>b. length (sects t b) = length (S b)"
  shows "filled E S i (n + length p) \<Longrightarrow> img_ok t" and "files_at (dino (sects t)) t" and "contents t i = contents s i @ p" and "\<And>j. j < NINODES \<Longrightarrow> j \<noteq> i \<Longrightarrow> contents t j = contents s j"
proof -
  have "\<forall>j<NINODES. d_addrs (dino (sects t) j) = d_addrs (E j)" using d E by simp
  note m = meta_write [OF inv S this]
  have sz: "msize t j = (if j = i then n + length p else msize s j)" if "j < NINODES" for j using d that z by simp
  have f: "mfile t j o' = (if j = i \<and> n \<le> o' \<and> o' < n + length p then p ! (o' - n) else mfile s j o')" if "j < NINODES" "o' < MAXFILE * BSIZE" for j o'
    using m(2) [OF that] a that by (simp add: appended_def)
  have o: "msize s j \<le> MAXFILE * BSIZE" "filled (dino (sects s)) (sects s) j (msize s j)" "\<And>o'. o' < MAXFILE * BSIZE \<Longrightarrow> msize s j \<le> o' \<Longrightarrow> mfile s j o' = 0"
    if "j < NINODES" for j using ok that by (auto simp: img_ok_def)
  have F: "filled (dino (sects t)) (sects t) j (msize t j)" if fl: "filled E S i (n + length p)" and j: "j < NINODES" for j
    unfolding filled_def
  proof (intro allI impI)
    fix b assume b: "b * BSIZE < msize t j"
    then have l: "data_slot b < 269" using sz [OF j] o(1) [OF j] n(2) by (intro data_slot_range(1)) (auto split: if_splits)
    have "slot E S j (data_slot b) \<noteq> 0" using b sz [OF j] fl o(2) [OF j] a j l by (cases "j = i") (auto simp: filled_def appended_def)
    then show "slot (dino (sects t)) (sects t) j (data_slot b) \<noteq> 0" using m(1) [OF j l] by simp
  qed
  show ft: "files_at (dino (sects t)) t" using m(3) g by (simp add: files_at_def)
  show "img_ok t" if "filled E S i (n + length p)" using F [OF that] ft sz o n f by (auto simp: img_ok_def)
  show "contents t i = contents s i @ p"
    using sz [OF i] f [OF i] n o(1) [OF i] by (intro nth_equalityI) (auto simp: contents_def nth_append)
  show "contents t j = contents s j" if "j < NINODES" "j \<noteq> i" for j using sz [OF that(1)] f [OF that(1)] o(1) [OF that(1)] that(2) by (simp add: contents_def)
qed

lemma iappend_spec:
  assumes ok: "img_ok s" and i: "unat inum < NINODES" and p: "msize s (unat inum) + length p \<le> MAXFILE * BSIZE"
    and room: "unat (freeblock s) + cost (msize s (unat inum) + length p) \<le> FSSIZE + cost (msize s (unat inum))"
  shows "returns (iappend inum p s) (\<lambda>_ t. appends (unat inum) p s t)"
proof -
  let ?i = "unat inum" and ?D = "dino (sects s)" and ?n = "msize s (unat inum)"
  have g: "mk_good s" and f: "files_at ?D s" and fl: "filled ?D (sects s) ?i ?n" using ok i by (auto simp: img_ok_def files_at_def)
  obtain u where u: "rinode inum s = Ret (?D ?i) u" "mk_good u" "fsimg u = fsimg s" "freeblock u = freeblock s" "freeinode u = freeinode s"
    using rinode_spec [OF g i] by (auto simp: returns_iff)
  have fu: "files_at ?D u" "filled ?D (sects u) ?i ?n" using f fl u by (simp_all add: files_at_def)
  obtain din v where v: "iappend_loop p ?n (?D ?i) u = Ret (?n + length p, din) v" "appending ?D u ?i ?n p din v"
    using iappend_loop_spec [OF fu(1) i fu(2) p] room u(4) by (auto simp: returns_iff)
  let ?x = "din\<lparr>d_size := of_nat (?n + length p)\<rparr>" and ?E = "?D(?i := din)"
  have fv: "mk_good v" "mk_inv ?E (sects v) (unat (freeblock v))" using v(2) by (auto simp: appending_def files_at_def)
  have a: "appended ?D (sects s) ?i ?n p ?E (sects v)" using v(2) u(3) by (simp add: appending_def)
  have "unat (of_nat k :: u32) = k" if "k \<le> MAXFILE * BSIZE" for k using that by (simp add: unat_of_nat take_bit_nat_eq_self)
  note sz = this [OF p]
  have "length (d_addrs ?x) = 13" using mk_invD(1) [OF fv(2) i] by simp
  from winode_spec [OF fv(1) i this] obtain t where t: "winode inum ?x v = Ret () t" "mk_good t" "dino (sects t) = (dino (sects v))(?i := ?x)"
    "\<And>b. b \<noteq> 32 + ?i div 16 \<Longrightarrow> sects t b = sects v b" "\<And>b. length (sects t b) = length (sects v b)" "freeblock t = freeblock v" "freeinode t = freeinode v"
    by (auto simp: returns_iff)
  have dv: "dino (sects v) j = ?D j" if "j < NINODES" for j using a inode_place(3) that by (simp add: dino_def appended_def)
  have dt: "\<forall>j<NINODES. dino (sects t) j = (if j = ?i then ?x else ?D j)" using t(3) dv by simp
  have "filled ?E (sects v) ?i (?n + length p)" "mk_inv ?E (sects v) (unat (freeblock t))" using v(2) t(6) fv(2) by (simp_all add: appending_def)
  moreover have "\<forall>b\<ge>nmeta. sects t b = sects v b" using t(4) inode_place(3) [OF i] by simp
  ultimately have af: "img_ok t" "contents t ?i = contents s ?i @ p" "\<And>j. j < NINODES \<Longrightarrow> j \<noteq> ?i \<Longrightarrow> contents t j = contents s j"
    using append_finish [OF ok i refl p a refl _ t(2) dt sz] t(5) by blast+
  have "same_meta s t" using a t(4) inode_place(3) [OF i] by (simp add: same_meta_def appended_def)
  moreover have "d_type din = d_type (?D ?i)" using v(2) by (cases din) (auto simp: appending_def)
  moreover have "iappend inum p s = Ret () t" using u(1) v(1) t(1) by (simp add: iappend_def)
  ultimately show ?thesis using af dt i v(2) u t inode_place(3) [OF i] by (auto simp: appends_def appending_def)
qed

lemma contents_length: "length (contents s i) = msize s i"
  by (simp add: contents_def)

lemma appends_trans:
  assumes "appends i p s t" and "appends i q t u"
  shows "appends i (p @ q) s u"
proof -
  have "msize t i = msize s i + length p" using assms(1) contents_length [of t i] contents_length [of s i] by (simp add: appends_def)
  then show ?thesis using assms by (simp add: appends_def same_meta_def ac_simps)
qed

text \<open>Appending the pieces of a file one after the other.\<close>

lemma iappend_pieces:
  assumes "img_ok s" and "unat inum < NINODES" and "msize s (unat inum) + length (concat ps) \<le> MAXFILE * BSIZE"
    and "unat (freeblock s) + cost (msize s (unat inum) + length (concat ps)) \<le> FSSIZE + cost (msize s (unat inum))"
  shows "returns (for_each (iappend inum) ps s) (\<lambda>_ t. appends (unat inum) (concat ps) s t)"
  using assms
proof (induction ps arbitrary: s)
  case Nil
  then show ?case by (simp add: appends_def same_meta_def)
next
  case (Cons p ps)
  let ?i = "unat inum"
  have "cost (msize s ?i + length p) \<le> cost (msize s ?i + length (concat (p # ps)))" by (rule cost_mono) simp
  then have "returns (iappend inum p s) (\<lambda>_ t. appends ?i p s t)" using Cons.prems by (intro iappend_spec) simp_all
  then show ?case unfolding for_each.simps returns_andthen
  proof (rule returns_mono)
    fix t assume a: "appends ?i p s t"
    have m: "msize t ?i = msize s ?i + length p" using a contents_length [of t ?i] contents_length [of s ?i] by (simp add: appends_def)
    have "returns (for_each (iappend inum) ps t) (\<lambda>_ u. appends ?i (concat ps) t u)"
      by (rule Cons.IH) (use Cons.prems a m in \<open>auto simp: appends_def add.assoc\<close>)
    then show "returns (for_each (iappend inum) ps t) (\<lambda>_ u. appends ?i (concat (p # ps)) s u)" using appends_trans [OF a] by (auto elim!: returns_mono)
  qed
qed

text \<open>The inodes from \<open>freeinode\<close> on have not been used.\<close>

definition blank_inode :: dinode where
  "blank_inode = \<lparr>d_type = 0, d_major = 0, d_minor = 0, d_nlink = 0, d_size = 0, d_addrs = replicate 13 0\<rparr>"

definition fresh_inode :: "u16 \<Rightarrow> dinode" where
  "fresh_inode type = \<lparr>d_type = type, d_major = 0, d_minor = 0, d_nlink = 1, d_size = 0, d_addrs = replicate 13 0\<rparr>"

definition building :: "nat \<Rightarrow> mkfs \<Rightarrow> bool" where
  "building n s \<longleftrightarrow> img_ok s \<and> unat (freeinode s) = n \<and> n \<le> NINODES \<and> (\<forall>j<NINODES. n \<le> j \<longrightarrow> dino (sects s) j = blank_inode)"

lemma building_appends: "building n s \<Longrightarrow> appends i p s t \<Longrightarrow> i < n \<Longrightarrow> building n t"
  by (auto simp: building_def appends_def)

lemma mk_ialloc_spec:
  assumes b: "building n s" and n: "n < NINODES"
  shows "returns (mk_ialloc type s) (\<lambda>inum t. inum = freeinode s \<and> building (Suc n) t \<and> (\<forall>j<NINODES. contents t j = contents s j) \<and> contents s n = [] \<and>
     (\<forall>j<NINODES. dino (sects t) j = (if j = n then fresh_inode type else dino (sects s) j)) \<and> same_meta s t \<and> freeblock t = freeblock s)"
proof -
  let ?s = "s\<lparr>freeinode := freeinode s + 1\<rparr>" and ?x = "fresh_inode type" and ?D = "dino (sects s)"
  have ok: "img_ok s" and i: "unat (freeinode s) = n" and z: "?D n = blank_inode" using b n by (auto simp: building_def)
  have g: "mk_good ?s" and inv: "mk_inv ?D (sects s) (unat (freeblock s))" using ok by (auto simp: img_ok_def files_at_def mk_good_def)
  obtain t where t: "winode (freeinode s) ?x ?s = Ret () t" "mk_good t" "dino (sects t) = ?D(n := ?x)" "\<forall>b. b \<noteq> 32 + n div 16 \<longrightarrow> sects t b = sects s b"
    "\<forall>b. length (sects t b) = length (sects s b)" "freeblock t = freeblock s" "freeinode t = freeinode s + 1"
    using winode_spec [OF g, of "freeinode s" ?x] n i by (auto simp: returns_iff fresh_inode_def)
  have p: "32 + n div 16 < nmeta - 1" using inode_place(3) [of "freeinode s"] n i by simp
  then have tS: "\<forall>b\<ge>nmeta. sects t b = sects s b" "same_meta s t" using t(4) by (auto simp: same_meta_def)
  have "\<forall>j<NINODES. d_addrs ((?D(n := ?x)) j) = d_addrs (?D j)" using z by (simp add: fresh_inode_def blank_inode_def)
  note m = meta_write [where D' = "?D(n := ?x)" and S' = "sects s", OF inv _ _ this]
  have a: "appended ?D (sects s) n (msize s n) [] (?D(n := ?x)) (sects s)" using m(1,2) by (auto simp: appended_def)
  have c: "msize s n = 0" "contents s n = []" using z by (simp_all add: blank_inode_def contents_def)
  have d: "\<forall>j<NINODES. dino (sects t) j = (if j = n then ?x\<lparr>d_size := 0\<rparr> else ?D j)" using t(3) by (simp add: fresh_inode_def)
  have "mk_inv (?D(n := ?x)) (sects s) (unat (freeblock t))" "filled (?D(n := ?x)) (sects s) n (msize s n + length ([] :: u8 list))"
    using m(3) t(6) c by (simp_all add: filled_def)
  from append_finish [OF ok n refl _ a refl this(1) t(2) d _ tS(1) t(5)] this(2) have af: "img_ok t" "contents t n = contents s n" "\<And>j. j < NINODES \<Longrightarrow> j \<noteq> n \<Longrightarrow> contents t j = contents s j"
    using c by simp_all
  have "unat (freeinode t) = Suc n" using t(7) freeblock_inc [of "freeinode s"] n i by simp
  then have "building (Suc n) t" using af(1) b n t(3) by (auto simp: building_def)
  moreover have "mk_ialloc type s = Ret (freeinode s) t" using t(1) by (simp add: mk_ialloc_def fresh_inode_def)
  moreover have "contents t j = contents s j" if "j < NINODES" for j using af(2,3) that by (cases "j = n") simp_all
  ultimately show ?thesis using c(2) t(3,6) tS(2) by simp
qed

subsection \<open>The files of the command line\<close>

definition mk_name :: "u8 list \<Rightarrow> u8 list" where
  "mk_name arg = (let n = (if starts_user arg then drop 5 arg else arg) in if n \<noteq> [] \<and> hd n = 0x5F then tl n else n)"

definition mk_data :: "(u8 list \<Rightarrow> u8 list list option) \<Rightarrow> u8 list \<Rightarrow> u8 list" where
  "mk_data files arg = concat (the (files arg))"

definition arg_ok :: "(u8 list \<Rightarrow> u8 list list option) \<Rightarrow> u8 list \<Rightarrow> bool" where
  "arg_ok files arg \<longleftrightarrow> 0x2F \<notin> set (if starts_user arg then drop 5 arg else arg) \<and> files arg \<noteq> None \<and> length (mk_data files arg) \<le> MAXFILE * BSIZE"

lemma ucast_unat: "(ucast x :: u16) = of_nat (unat x)" for x :: u32
  by simp

text \<open>The effect of one file: inode \<open>n\<close> holds its bytes, and the root directory has one more entry.\<close>

definition file_added :: "(u8 list \<Rightarrow> u8 list list option) \<Rightarrow> u8 list \<Rightarrow> nat \<Rightarrow> mkfs \<Rightarrow> mkfs \<Rightarrow> bool" where
  "file_added files arg n s t \<longleftrightarrow> building (Suc n) t \<and> contents t 1 = contents s 1 @ dirent_bytes (of_nat n) (mk_name arg) \<and>
     contents t n = mk_data files arg \<and> (\<forall>j<NINODES. j \<noteq> 1 \<longrightarrow> j \<noteq> n \<longrightarrow> contents t j = contents s j) \<and>
     (\<forall>j<NINODES. d_type (dino (sects t) j) = (if j = n then T_FILE else d_type (dino (sects s) j))) \<and> same_meta s t \<and>
     unat (freeblock t) + cost (msize s 1) \<le> unat (freeblock s) + cost (msize s 1 + 16) + cost (length (mk_data files arg))"

lemma mk_file_spec:
  assumes b: "building n s" and n: "1 < n" "n < NINODES" and a: "arg_ok files arg" and r: "msize s 1 + 16 \<le> MAXFILE * BSIZE"
    and room: "unat (freeblock s) + cost (msize s 1 + 16) + cost (length (mk_data files arg)) \<le> FSSIZE + cost (msize s 1)"
  shows "returns (mk_file files 1 arg s) (\<lambda>_ t. file_added files arg n s t)"
proof -
  obtain ps where ps: "files arg = Some ps" "concat ps = mk_data files arg" using a by (auto simp: arg_ok_def mk_data_def)
  let ?e = "dirent_bytes (of_nat n) (mk_name arg)" and ?m = "msize s 1"
  obtain u where u: "mk_ialloc T_FILE s = Ret (freeinode s) u" "building (Suc n) u" "\<forall>j<NINODES. contents u j = contents s j" "contents s n = []"
    "\<forall>j<NINODES. dino (sects u) j = (if j = n then fresh_inode T_FILE else dino (sects s) j)" "same_meta s u" "freeblock u = freeblock s"
    using mk_ialloc_spec [OF b n(2), of T_FILE] by (auto simp: returns_iff)
  have i: "unat (freeinode s) = n" using b by (simp add: building_def)
  have e: "dirent_bytes (ucast (freeinode s)) (mk_name arg) = ?e" using ucast_unat [of "freeinode s"] i by simp
  have le: "length ?e = 16" by (rule length_dirent(1))
  have mu: "msize u 1 = ?m" using u(5) n by simp
  obtain v where v: "iappend 1 ?e u = Ret () v" "appends 1 ?e u v"
    using iappend_spec [of u 1 ?e] u(2,7) r room mu le by (auto simp: building_def returns_iff)
  have v': "img_ok v" "building (Suc n) v" "contents v 1 = contents u 1 @ ?e" "\<forall>j<NINODES. j \<noteq> 1 \<longrightarrow> contents v j = contents u j"
    "\<forall>j<NINODES. d_type (dino (sects v) j) = d_type (dino (sects u) j)" "same_meta u v" "unat (freeblock v) + cost ?m \<le> unat (freeblock s) + cost (?m + 16)"
    using v(2) building_appends [OF u(2) v(2)] n mu le u(7) by (auto simp: appends_def)
  have mv: "msize v n = 0" using v'(4) u(3,4) n contents_length [of v n] by auto
  have "returns (for_each (iappend (freeinode s)) ps v) (\<lambda>_ t. appends n (concat ps) v t)"
    using iappend_pieces [OF v'(1), of "freeinode s" ps] i n mv ps(2) a v'(7) room by (simp add: arg_ok_def cost_def)
  then obtain t where t: "for_each (iappend (freeinode s)) ps v = Ret () t" "appends n (mk_data files arg) v t" using ps(2) by (auto simp: returns_iff)
  have "mk_file files 1 arg s = Ret () t"
    using u(1) v(1) t(1) ps(1) a e by (simp add: mk_file_def arg_ok_def mk_name_def Let_def)
  moreover have "unat (freeblock t) \<le> unat (freeblock v) + cost (length (mk_data files arg))" using t(2) mv by (simp add: appends_def cost_def)
  ultimately show ?thesis using building_appends [OF v'(2) t(2)] t(2) v' u n
    by (auto simp: file_added_def appends_def same_meta_def fresh_inode_def)
qed

text \<open>The directory entries of the files, which get the inodes from 2 on.\<close>

definition dirents :: "u8 list list \<Rightarrow> u8 list" where
  "dirents args = concat (map (\<lambda>k. dirent_bytes (of_nat (k + 2)) (mk_name (args ! k))) [0..<length args])"

definition data_cost :: "(u8 list \<Rightarrow> u8 list list option) \<Rightarrow> u8 list list \<Rightarrow> nat" where
  "data_cost files args = sum_list (map (\<lambda>a. cost (length (mk_data files a))) args)"

lemma dirents_snoc: "dirents (args @ [a]) = dirents args @ dirent_bytes (of_nat (length args + 2)) (mk_name a)"
proof -
  have "dirents (args @ [a]) = concat (map (\<lambda>k. dirent_bytes (of_nat (k + 2)) (mk_name ((args @ [a]) ! k))) [0..<length args]) @
      dirent_bytes (of_nat (length args + 2)) (mk_name a)" by (simp add: dirents_def)
  moreover have "map (\<lambda>k. dirent_bytes (of_nat (k + 2)) (mk_name ((args @ [a]) ! k))) [0..<length args] =
      map (\<lambda>k. dirent_bytes (of_nat (k + 2)) (mk_name (args ! k))) [0..<length args]" by (rule map_cong) (simp_all add: nth_append)
  ultimately show ?thesis by (simp only: dirents_def)
qed

lemma length_dirents [simp]: "length (dirents args) = 16 * length args"
proof (induction args rule: rev_induct)
  case (snoc a args)
  then show ?case by (simp add: dirents_snoc length_dirent)
qed (simp add: dirents_def)

definition files_built :: "(u8 list \<Rightarrow> u8 list list option) \<Rightarrow> u8 list list \<Rightarrow> mkfs \<Rightarrow> bool" where
  "files_built files args s \<longleftrightarrow> (\<forall>k<length args. contents s (k + 2) = mk_data files (args ! k) \<and> d_type (dino (sects s) (k + 2)) = T_FILE)"

definition built :: "(u8 list \<Rightarrow> u8 list list option) \<Rightarrow> u8 list list \<Rightarrow> mkfs \<Rightarrow> mkfs \<Rightarrow> bool" where
  "built files args s t \<longleftrightarrow> building (length args + 2) t \<and> contents t 1 = contents s 1 @ dirents args \<and> files_built files args t \<and>
     d_type (dino (sects t) 1) = d_type (dino (sects s) 1) \<and> same_meta s t \<and>
     unat (freeblock t) + cost 32 \<le> unat (freeblock s) + cost (16 * (length args + 2)) + data_cost files args"

lemma built_snoc:
  assumes u: "built files args s u" and t: "file_added files a (length args + 2) u t" and r: "msize s 1 = 32" and n: "length args + 2 < NINODES"
  shows "built files (args @ [a]) s t"
proof -
  let ?n = "length args + 2"
  have m: "msize u 1 = 16 * ?n" using u r contents_length [of u 1] contents_length [of s 1] by (simp add: built_def)
  have e: "16 * ?n + 16 = 16 * (length (args @ [a]) + 2)" by simp
  have "files_built files (args @ [a]) t" using u t n by (auto simp: built_def file_added_def files_built_def nth_append less_Suc_eq)
  moreover have "d_type (dino (sects t) 1) = d_type (dino (sects s) 1)" using u t n by (simp add: built_def file_added_def)
  moreover have "contents t 1 = contents s 1 @ dirents (args @ [a])" using u t by (simp add: built_def file_added_def dirents_snoc)
  ultimately show ?thesis using u t m e by (simp add: built_def file_added_def data_cost_def same_meta_def)
qed

lemma mk_files_spec:
  assumes b: "building 2 s" and r: "msize s 1 = 32" and "\<forall>a\<in>set args. arg_ok files a" and "length args + 2 \<le> NINODES"
    and "unat (freeblock s) + cost (16 * (length args + 2)) + data_cost files args \<le> FSSIZE + cost 32"
  shows "returns (for_each (mk_file files 1) args s) (\<lambda>_ t. built files args s t)"
  using assms(3-5)
proof (induction args rule: rev_induct)
  case Nil
  then show ?case using b by (simp add: built_def dirents_def files_built_def same_meta_def data_cost_def numeral_2_eq_2)
next
  case (snoc a args)
  let ?n = "length args + 2"
  have c: "cost (16 * ?n) \<le> cost (16 * (length (args @ [a]) + 2))" by (rule cost_mono) simp
  have "returns (for_each (mk_file files 1) args s) (\<lambda>_ t. built files args s t)"
    by (rule snoc.IH) (use snoc.prems c in \<open>simp_all add: data_cost_def\<close>)
  then show ?case unfolding for_each_append returns_andthen
  proof (rule returns_mono)
    fix u assume u: "built files args s u"
    have m: "msize u 1 = 16 * ?n" using u r contents_length [of u 1] contents_length [of s 1] by (simp add: built_def)
    have e: "16 * ?n + 16 = 16 * (length (args @ [a]) + 2)" by simp
    have "returns (mk_file files 1 a u) (\<lambda>_ t. file_added files a ?n u t)"
      using mk_file_spec [of ?n u files a] snoc.prems u e m by (simp add: built_def data_cost_def)
    then show "returns (for_each (mk_file files 1) [a] u) (\<lambda>_ t. built files (args @ [a]) s t)"
      using built_snoc [OF u _ r] snoc.prems(2) by (auto elim!: returns_mono)
  qed
qed

subsection \<open>The empty image\<close>

lemma zero_image:
  assumes "io_ok s = (\<lambda>_. True)" and "fsimg s = []" and "n \<le> FSSIZE"
  shows "returns (for_each (\<lambda>i s. wsect (of_nat i) (replicate BSIZE 0) s) [0..<n] s) (\<lambda>_ t. fsimg t = replicate (BSIZE * n) 0 \<and> io_ok t = (\<lambda>_. True) \<and>
     mk_sb t = mk_sb s \<and> freeblock t = freeblock s \<and> freeinode t = freeinode s)"
  using assms(3)
proof (induction n)
  case (Suc n)
  have w: "unat (of_nat n * 1024 :: u32) = 1024 * n" using Suc.prems sector_pos [of "of_nat n"] fb_word [of n] by simp
  have "returns (wsect (of_nat n) (replicate BSIZE 0) u) (\<lambda>_ t. fsimg t = replicate (BSIZE * Suc n) 0 \<and> io_ok t = (\<lambda>_. True) \<and>
     mk_sb t = mk_sb s \<and> freeblock t = freeblock s \<and> freeinode t = freeinode s)"
    if "fsimg u = replicate (BSIZE * n) 0" "io_ok u = (\<lambda>_. True)" "mk_sb u = mk_sb s" "freeblock u = freeblock s" "freeinode u = freeinode s" for u
    using that w by (simp add: wsect_def io_call_def pwrite_def flip: replicate_add)
  then show ?case using Suc by (auto simp: for_each_append elim!: returns_mono)
qed (use assms in simp)

definition first_image :: "u8 list" where
  "first_image = pwrite BSIZE (write_at 0 (superblock_bytes mk_superblock) (replicate BSIZE 0)) (replicate (BSIZE * FSSIZE) 0)"

lemma sect_first: "b < FSSIZE \<Longrightarrow> sect first_image b = (if b = 1 then write_at 0 (superblock_bytes mk_superblock) (replicate BSIZE 0) else replicate BSIZE 0)"
  "length first_image = FSSIZE * BSIZE"
proof -
  have l: "length (write_at 0 (superblock_bytes mk_superblock) (replicate BSIZE 0)) = BSIZE" by (simp add: write_at_def superblock_bytes_def)
  have z: "sect (replicate (BSIZE * FSSIZE) 0) b = replicate BSIZE 0" if "b < FSSIZE" for b using that by (simp add: sect_def)
  show "sect first_image b = (if b = 1 then write_at 0 (superblock_bytes mk_superblock) (replicate BSIZE 0) else replicate BSIZE 0)" if "b < FSSIZE"
    using sect_pwrite [of 1 "replicate (BSIZE * FSSIZE) 0" _ b, OF _ l] z [OF that] by (simp add: first_image_def)
  show "length first_image = FSSIZE * BSIZE" using l by (simp add: first_image_def length_pwrite)
qed

lemma building_first:
  assumes "fsimg s = first_image" and "io_ok s = (\<lambda>_. True)" and "mk_sb s = mk_superblock" and "freeblock s = of_nat nmeta" and "freeinode s = 1"
  shows "building 1 s"
proof -
  have d: "dino (sects s) i = blank_inode" if "i < NINODES" for i
  proof -
    have b: "32 + i div 16 < 45" using that by auto
    then have z: "sects s (32 + i div 16) = replicate BSIZE 0" using sect_first(1) [of "32 + i div 16"] assms(1) by simp
    have "64 * (i mod 16) + 64 \<le> BSIZE" by simp
    then have "drop (64 * (i mod 16)) (sects s (32 + i div 16)) ! n = 0" if "n < 64" for n using that z by simp
    then have "dinode_of (drop (64 * (i mod 16)) (sects s (32 + i div 16))) = dinode_of (replicate 64 0)" by (intro dinode_of_cong) simp
    also have "\<dots> = blank_inode"
    proof -
      have "map (\<lambda>i. get32 (replicate 64 0) (12 + 4 * i)) [0..<NDIRECT + 1] = replicate 13 0" by (intro nth_equalityI) (simp_all add: get32_zeros)
      then show ?thesis by (simp add: dinode_of_def get16_def get32_zeros blank_inode_def)
    qed
    finally show ?thesis by (simp add: dino_def)
  qed
  have s: "slot (dino (sects s)) (sects s) i k = 0" if "i < NINODES" "k < 269" for i k using d [OF that(1)] by (simp add: slot_def blank_inode_def Let_def)
  have "length (sects s b) = BSIZE" if "b < FSSIZE" for b using assms(1) sect_first(2) that by (simp add: sect_def)
  then have "mk_inv (dino (sects s)) (sects s) 46" using assms(1) sect_first(1) d s by (auto simp: mk_inv_def slots_ok_def blank_inode_def)
  moreover have "mk_good s" using assms sect_first(2) by (simp add: mk_good_def)
  ultimately have "files_at (dino (sects s)) s" using assms(4) by (simp add: files_at_def)
  moreover have "mfile s i o' = 0" if "i < NINODES" "o' < MAXFILE * BSIZE" for i o'
  proof -
    have "data_slot (o' div BSIZE) < 269" using that(2) by (intro data_slot_range(1)) (simp add: div_less_iff_less_mult)
    then show ?thesis using s [OF that(1)] by (simp add: mget_def)
  qed
  ultimately have "img_ok s" using d by (simp add: img_ok_def filled_def blank_inode_def)
  then show ?thesis using d assms(5) by (simp add: building_def)
qed

text \<open>The bitmap.\<close>

lemma bitmap_fold:
  fixes B :: "nat \<Rightarrow> u8 list"
  defines "B \<equiv> \<lambda>n. fold (\<lambda>i buf. buf[i div 8 := (buf ! (i div 8)) OR push_bit (i mod 8) 1]) [0..<n] (replicate BSIZE 0)"
  assumes "n \<le> 8 * BSIZE"
  shows "length (B n) = BSIZE" and "j < 8 * BSIZE \<Longrightarrow> bit_of (B n) j \<longleftrightarrow> j < n"
proof -
  have B: "B (Suc m) = (B m)[m div 8 := (B m ! (m div 8)) OR push_bit (m mod 8) 1]" for m by (simp add: B_def)
  have l: "length (B m) = BSIZE" for m
  proof (induction m)
    case 0
    show ?case by (simp add: B_def)
  qed (simp add: B)
  then show "length (B n) = BSIZE" .
  assume j: "j < 8 * BSIZE"
  show "bit_of (B n) j \<longleftrightarrow> j < n" using assms(2)
  proof (induction n)
    case 0
    have "j div 8 < BSIZE" using j by (simp add: div_less_iff_less_mult)
    then show ?case by (simp add: B_def bit_of_def)
  next
    case (Suc n)
    then show ?case using bit_of_set [of n "B n" j] l [of n] by (auto simp: B)
  qed
qed

lemma mk_balloc_spec:
  assumes g: "mk_good s" and n: "n \<le> FSSIZE"
  shows "returns (mk_balloc (int n) s) (\<lambda>_ t. mk_good t \<and> (\<forall>b. b \<noteq> 45 \<longrightarrow> sects t b = sects s b) \<and> length (sects t 45) = BSIZE \<and>
     (\<forall>b<FSSIZE. bit_of (sects t 45) b \<longleftrightarrow> b < n) \<and> freeblock t = freeblock s \<and> freeinode t = freeinode s)"
proof -
  let ?b = "fold (\<lambda>i buf. buf[i div 8 := (buf ! (i div 8)) OR push_bit (i mod 8) 1]) [0..<n] (replicate BSIZE (0 :: u8))"
  have b: "length ?b = BSIZE" "\<forall>j<FSSIZE. bit_of ?b j \<longleftrightarrow> j < n" using bitmap_fold [of n] n by simp_all
  have sb: "sb_bmapstart (mk_sb s) = 45" using g by (simp add: mk_good_def mk_superblock_def)
  let ?s = "mk_printf ''balloc: write bitmap block at sector %d'' [45] (mk_printf ''balloc: first %d blocks have been allocated'' [int n] s)"
  have "mk_good ?s" "sects ?s = sects s" "freeblock ?s = freeblock s" "freeinode ?s = freeinode s" "mk_sb ?s = mk_sb s"
    using g by (simp_all add: mk_good_def mk_printf_def)
  with wsect_spec [of ?s 45 ?b] show ?thesis using b sb n by (auto simp: mk_balloc_def Let_def mk_printf_def elim!: returns_mono)
qed

subsection \<open>The whole program\<close>

text \<open>The size of the root directory is rounded up to whole blocks; the new bytes are zeros.\<close>

abbreviation (input) round_up :: "nat \<Rightarrow> nat" where "round_up m \<equiv> (m div BSIZE + 1) * BSIZE"

definition rounded :: "mkfs \<Rightarrow> mkfs \<Rightarrow> bool" where
  "rounded s t \<longleftrightarrow> files_at (dino (sects t)) t \<and> (msize s 1 mod BSIZE \<noteq> 0 \<longrightarrow> img_ok t) \<and> contents t 1 = contents s 1 @ replicate (round_up (msize s 1) - msize s 1) 0 \<and>
     (\<forall>j<NINODES. j \<noteq> 1 \<longrightarrow> contents t j = contents s j \<and> dino (sects t) j = dino (sects s) j) \<and> d_type (dino (sects t) 1) = d_type (dino (sects s) 1) \<and>
     same_meta s t \<and> freeblock t = freeblock s"

lemma round_root:
  assumes ok: "img_ok s" and m: "msize s 1 \<le> 4096"
  shows "returns (andthen (rinode 1 s) (\<lambda>din s. let off = xint (d_size din); off = (off div of_nat BSIZE + 1) * of_nat BSIZE in winode 1 (din\<lparr>d_size := xint off\<rparr>) s))
     (\<lambda>_ t. rounded s t)"
proof -
  let ?D = "dino (sects s)" and ?m = "msize s 1"
  let ?p = "replicate (round_up ?m - ?m) (0 :: u8)" and ?z = "(d_size (?D 1) div 1024 + 1) * 1024"
  have g: "mk_good s" and f: "files_at ?D s" and inv: "mk_inv ?D (sects s) (unat (freeblock s))" using ok by (auto simp: img_ok_def files_at_def)
  obtain u where u: "rinode 1 s = Ret (?D 1) u" "mk_good u" "fsimg u = fsimg s" "freeblock u = freeblock s" "freeinode u = freeinode s"
    using rinode_spec [OF g, of 1] by (auto simp: returns_iff)
  have q: "unat (d_size (?D 1) div 1024) = ?m div 1024" "?m div 1024 \<le> 4" using m by (simp_all add: unat_div_distrib)
  have "unat (d_size (?D 1) div 1024 + 1) = ?m div 1024 + 1" using q by (subst unat_add_lem [THEN iffD1]) simp_all
  then have z: "unat ?z = round_up ?m" using q(2) by (subst unat_mult_lem [THEN iffD1]) simp_all
  have up: "?m < round_up ?m" using dividend_less_div_times [of BSIZE ?m] by simp
  then have lp: "?m + length ?p = round_up ?m" "?m + length ?p \<le> MAXFILE * BSIZE" using q(2) by simp_all
  have "length (d_addrs ((?D 1)\<lparr>d_size := ?z\<rparr>)) = 13" using mk_invD(1) [OF inv] by simp
  from winode_spec [OF u(2) _ this, of 1] obtain t where t: "winode 1 ((?D 1)\<lparr>d_size := ?z\<rparr>) u = Ret () t" "mk_good t" "dino (sects t) = ?D(1 := (?D 1)\<lparr>d_size := ?z\<rparr>)"
      "\<forall>b. b \<noteq> 32 \<longrightarrow> sects t b = sects s b" "\<forall>b. length (sects t b) = length (sects s b)" "freeblock t = freeblock s" "freeinode t = freeinode s"
    using u by (auto simp: returns_iff)
  have "mfile s 1 o' = 0" if "?m \<le> o'" "o' < MAXFILE * BSIZE" for o' using ok that by (simp add: img_ok_def)
  then have a: "appended ?D (sects s) 1 ?m ?p (?D(1 := ?D 1)) (sects s)" by (auto simp: appended_def)
  have d: "\<forall>j<NINODES. dino (sects t) j = (if j = 1 then (?D 1)\<lparr>d_size := ?z\<rparr> else ?D j)" using t(3) by simp
  have h: "\<forall>b\<ge>nmeta. sects t b = sects s b" using t(4) by simp
  have iv: "mk_inv (?D(1 := ?D 1)) (sects s) (unat (freeblock t))" using inv t(6) by simp
  note af = append_finish [OF ok _ refl lp(2) a refl iv t(2) d _ h t(5), simplified lp(1), OF _ z]
  have "filled ?D (sects s) 1 (round_up ?m)" if "?m mod BSIZE \<noteq> 0"
    unfolding filled_def
  proof (intro allI impI)
    fix b assume "b * BSIZE < round_up ?m"
    then have "b * BSIZE \<le> ?m div BSIZE * BSIZE" by simp
    then have "b * BSIZE < ?m" using that div_mult_mod_eq [of ?m BSIZE] by linarith
    then show "slot ?D (sects s) 1 (data_slot b) \<noteq> 0" using ok by (simp add: img_ok_def filled_def)
  qed
  then have "rounded s t" using af t d by (auto simp: rounded_def same_meta_def)
  then show ?thesis using u(1) t(1) by simp
qed

lemma cost_simps: "cost 0 = 0" "cost 16 = 1" "cost 32 = 1"
  by (simp_all add: cost_def)

definition sb_sector :: "u8 list" where
  "sb_sector = write_at 0 (superblock_bytes mk_superblock) (replicate BSIZE 0)"

text \<open>The image before the first file: the superblock and a root directory with two entries.\<close>

definition root_made :: "mkfs \<Rightarrow> bool" where
  "root_made u \<longleftrightarrow> building 2 u \<and> contents u 1 = dirent_bytes 1 [0x2E] @ dirent_bytes 1 [0x2E, 0x2E] \<and> d_type (dino (sects u) 1) = T_DIR \<and>
     sects u 1 = sb_sector \<and> unat (freeblock u) \<le> nmeta + 1"

lemma make_root:
  assumes "building 1 s" and "freeblock s = of_nat nmeta" and "sects s 1 = sb_sector"
  shows "returns (andthen (mk_ialloc T_DIR s) (\<lambda>rootino s. if rootino \<noteq> ROOTINO then Panic ''assert'' else
     andthen (iappend rootino (dirent_bytes (xshort (ucast rootino)) [0x2E]) s) (\<lambda>_ s.
     andthen (iappend rootino (dirent_bytes (xshort (ucast rootino)) [0x2E, 0x2E]) s) (\<lambda>_ s. Ret rootino s)))) (\<lambda>r u. r = 1 \<and> root_made u)"
proof -
  let ?e = "dirent_bytes 1 [0x2E]" and ?e' = "dirent_bytes 1 [0x2E, 0x2E]"
  have i: "freeinode s = 1" using assms(1) by (metis building_def unat_eq unat_1)
  obtain t where t: "mk_ialloc T_DIR s = Ret 1 t" "building 2 t" "\<forall>j<NINODES. contents t j = contents s j" "contents s 1 = []"
    "\<forall>j<NINODES. dino (sects t) j = (if j = 1 then fresh_inode T_DIR else dino (sects s) j)" "same_meta s t" "freeblock t = of_nat nmeta"
    using mk_ialloc_spec [OF assms(1), of T_DIR] assms(2) i by (auto simp: returns_iff numeral_2_eq_2)
  have mt: "msize t 1 = 0" "img_ok t" using t(2,5) by (simp_all add: fresh_inode_def building_def)
  obtain u where u: "iappend 1 ?e t = Ret () u" "appends 1 ?e t u"
    using iappend_spec [of t 1 ?e] mt t(7) length_dirent(1) [of 1 "[0x2E]"] by (auto simp: returns_iff cost_simps)
  have mu: "msize u 1 = 16" "img_ok u" "unat (freeblock u) \<le> nmeta + 1"
    using u(2) contents_length [of u 1] contents_length [of t 1] mt t(7) length_dirent(1) [of 1 "[0x2E]"] by (auto simp: appends_def cost_simps)
  obtain v where v: "iappend 1 ?e' u = Ret () v" "appends 1 ?e' u v"
    using iappend_spec [of u 1 ?e'] mu length_dirent(1) [of 1 "[0x2E, 0x2E]"] by (auto simp: returns_iff cost_simps)
  have "building 2 v" using building_appends [OF building_appends [OF t(2) u(2)] v(2)] by simp
  moreover have "contents v 1 = ?e @ ?e'" using u(2) v(2) t(3,4) by (simp add: appends_def)
  moreover have "unat (freeblock v) \<le> nmeta + 1" using v(2) mu length_dirent(1) [of 1 "[0x2E, 0x2E]"] by (auto simp: appends_def cost_simps)
  moreover have "d_type (dino (sects v) 1) = T_DIR" using u(2) v(2) t(5) by (simp add: appends_def fresh_inode_def)
  moreover have "sects v 1 = sb_sector" using assms(3) t(6) u(2) v(2) by (simp add: appends_def same_meta_def)
  ultimately show ?thesis using t(1) u(1) v(1) by (simp add: root_made_def)
qed

text \<open>Everything \<open>mkfs\<close> promises about the image.\<close>

definition image_of :: "(u8 list \<Rightarrow> u8 list list option) \<Rightarrow> u8 list list \<Rightarrow> mkfs \<Rightarrow> bool" where
  "image_of files args t \<longleftrightarrow> sects t 1 = sb_sector \<and> d_type (dino (sects t) 1) = T_DIR \<and>
     contents t 1 = dirent_bytes 1 [0x2E] @ dirent_bytes 1 [0x2E, 0x2E] @ dirents args @
       replicate (round_up (16 * (length args + 2)) - 16 * (length args + 2)) 0 \<and>
     files_built files args t \<and> (\<forall>b<FSSIZE. bit_of (sects t 45) b \<longleftrightarrow> b < unat (freeblock t)) \<and> length (sects t 45) = BSIZE \<and> files_at (dino (sects t)) t \<and>
     ((length args + 2) mod 64 \<noteq> 0 \<longrightarrow> img_ok t)"

lemma sint_small:
  fixes x :: u32
  assumes "unat x \<le> FSSIZE"
  shows "sint x = int (unat x)"
proof -
  have u: "int (unat x) = uint x" by simp
  have "int (unat x) \<le> int FSSIZE" by (simp only: of_nat_le_iff assms)
  then have "uint x < 2 ^ 31" unfolding u by simp
  moreover have "- (2 ^ 31) \<le> uint x" by (rule order_trans [of _ 0]) simp_all
  ultimately show ?thesis unfolding sint_uint by (subst signed_take_bit_int_eq_self) simp_all
qed

lemma bitmap_write:
  assumes f: "files_at (dino (sects u)) u" and v: "mk_good v" "\<forall>b. b \<noteq> 45 \<longrightarrow> sects v b = sects u b" "length (sects v 45) = BSIZE" "freeblock v = freeblock u"
  shows "\<forall>j<NINODES. dino (sects v) j = dino (sects u) j" and "files_at (dino (sects v)) v"
    and "img_ok u \<Longrightarrow> img_ok v" and "\<And>j. j < NINODES \<Longrightarrow> msize u j \<le> MAXFILE * BSIZE \<Longrightarrow> contents v j = contents u j"
proof -
  have inv: "mk_inv (dino (sects u)) (sects u) (unat (freeblock u))" using f by (simp add: files_at_def)
  show d: "\<forall>j<NINODES. dino (sects v) j = dino (sects u) j"
  proof (intro allI impI)
    fix j assume "j < NINODES"
    then have "32 + j div 16 \<noteq> 45" by auto
    then show "dino (sects v) j = dino (sects u) j" using v(2) by (simp add: dino_def)
  qed
  have "\<forall>b. length (sects v b) = length (sects u b)"
  proof
    fix b show "length (sects v b) = length (sects u b)" using v(2,3) mk_invD(2) [OF inv, of 45] by (cases "b = 45") simp_all
  qed
  then have m: "\<And>i k. i < NINODES \<Longrightarrow> k < 269 \<Longrightarrow> slot (dino (sects v)) (sects v) i k = slot (dino (sects u)) (sects u) i k"
    "\<And>i o'. i < NINODES \<Longrightarrow> o' < MAXFILE * BSIZE \<Longrightarrow> mfile v i o' = mfile u i o'" "mk_inv (dino (sects v)) (sects v) (unat (freeblock u))"
    using meta_write [OF inv, of "sects v" "dino (sects v)"] v(2) d by simp_all
  show f': "files_at (dino (sects v)) v" using m(3) v(1,4) by (simp add: files_at_def)
  show "contents v j = contents u j" if "j < NINODES" "msize u j \<le> MAXFILE * BSIZE" for j using d m(2) that by (simp add: contents_def)
  show "img_ok v" if ok: "img_ok u"
  proof -
    have "filled (dino (sects v)) (sects v) i (msize u i)" if i: "i < NINODES" for i
      unfolding filled_def
    proof (intro allI impI)
      fix b assume b: "b * BSIZE < msize u i"
      have "msize u i \<le> MAXFILE * BSIZE" "slot (dino (sects u)) (sects u) i (data_slot b) \<noteq> 0" using ok i b by (auto simp: img_ok_def filled_def)
      moreover from this b have "data_slot b < 269" by (intro data_slot_range(1)) linarith
      ultimately show "slot (dino (sects v)) (sects v) i (data_slot b) \<noteq> 0" using m(1) [OF i] by simp
    qed
    then show ?thesis using ok f' d m(2) by (simp add: img_ok_def)
  qed
qed

lemma finish_image:
  assumes r: "root_made s" and b: "built files args s t" and n: "length args + 2 \<le> NINODES"
  shows "returns (andthen (andthen (rinode 1 t) (\<lambda>din s. let off = xint (d_size din); off = (off div of_nat BSIZE + 1) * of_nat BSIZE in winode 1 (din\<lparr>d_size := xint off\<rparr>) s))
     (\<lambda>_ s. mk_balloc (sint (freeblock s)) s)) (\<lambda>_ u. image_of files args u)"
proof -
  let ?n = "length args + 2"
  have c: "contents t 1 = dirent_bytes 1 [0x2E] @ dirent_bytes 1 [0x2E, 0x2E] @ dirents args" using r b by (simp add: root_made_def built_def)
  then have m: "msize t 1 = 16 * ?n" using contents_length [of t 1] by (simp add: length_dirent)
  have ok: "img_ok t" using b by (simp add: built_def building_def)
  show ?thesis unfolding returns_andthen [of "andthen x y" for x y]
  proof (rule returns_mono [OF round_root [OF ok]])
    show "msize t 1 \<le> 4096" using m n by simp
    fix u assume u: "rounded t u"
    have g: "mk_good u" and fb: "unat (freeblock u) \<le> FSSIZE" using u mk_invD(5) by (auto simp: rounded_def files_at_def)
    have "returns (mk_balloc (sint (freeblock u)) u) (\<lambda>_ t. mk_good t \<and> (\<forall>b. b \<noteq> 45 \<longrightarrow> sects t b = sects u b) \<and> length (sects t 45) = BSIZE \<and>
       (\<forall>b<FSSIZE. bit_of (sects t 45) b \<longleftrightarrow> b < unat (freeblock u)) \<and> freeblock t = freeblock u \<and> freeinode t = freeinode u)"
      using mk_balloc_spec [OF g fb] sint_small [OF fb] by simp
    then show "returns (mk_balloc (sint (freeblock u)) u) (\<lambda>_ v. image_of files args v)"
    proof (rule returns_mono, elim conjE)
      fix v assume v: "mk_good v" "\<forall>b. b \<noteq> 45 \<longrightarrow> sects v b = sects u b" "length (sects v 45) = BSIZE"
        "\<forall>b<FSSIZE. bit_of (sects v 45) b \<longleftrightarrow> b < unat (freeblock u)" "freeblock v = freeblock u" "freeinode v = freeinode u"
      have fu: "files_at (dino (sects u)) u" using u by (simp add: rounded_def)
      note w = bitmap_write [OF fu v(1-3,5)]
      have sz: "msize u j \<le> MAXFILE * BSIZE" if "j < NINODES" for j
      proof (cases "j = 1")
        case True
        have "16 * ?n div BSIZE \<le> 3200 div BSIZE" using n by (intro div_le_mono) simp
        then show ?thesis using u m True contents_length [of u 1] contents_length [of t 1] by (simp add: rounded_def)
      next
        case False
        then show ?thesis using u ok that by (simp add: rounded_def img_ok_def)
      qed
      have cv: "contents v j = contents u j" if "j < NINODES" for j using w(4) [OF that sz [OF that]] .
      have "files_built files args v" using b n u cv w(1) by (auto simp: built_def files_built_def rounded_def)
      moreover have "img_ok v" if "?n mod 64 \<noteq> 0"
      proof -
        have "16 * ?n mod (16 * 64) = 16 * (?n mod 64)" by (rule mod_mult_mult1)
        then have "16 * ?n mod BSIZE \<noteq> 0" using that by simp
        then show ?thesis using w(3) u m by (simp add: rounded_def)
      qed
      moreover have "sects v 1 = sb_sector" using r b u v(2) by (simp add: root_made_def built_def rounded_def same_meta_def)
      moreover have "d_type (dino (sects v) 1) = T_DIR" using r b u w(1) by (simp add: root_made_def built_def rounded_def)
      moreover have "contents v 1 = contents t 1 @ replicate (round_up (16 * ?n) - 16 * ?n) 0" using cv [of 1] u m by (simp add: rounded_def)
      ultimately show "image_of files args v" using w(2) v(3-5) c by (simp add: image_of_def)
    qed
  qed
qed

lemma mkfs_spec:
  assumes args: "\<forall>a\<in>set args. arg_ok files a" and n: "length args + 2 \<le> NINODES"
    and room: "nmeta + cost (16 * (length args + 2)) + data_cost files args \<le> FSSIZE"
  shows "returns (mk_main files True (prog # img # args) (mkfs0 (\<lambda>_. True))) (\<lambda>_ t. image_of files args t)"
proof -
  let ?s = "(mk_printf ''nmeta %d (boot, super, log blocks %u inode blocks %u, bitmap blocks %u) blocks %d total %d''
                   (map int [nmeta, nlog, ninodeblocks, nbitmap, FSSIZE - nmeta, FSSIZE]) ((mkfs0 (\<lambda>_. True))\<lparr>fsimg := [], mk_sb := mk_superblock\<rparr>))\<lparr>freeblock := of_nat nmeta\<rparr>"
  have s: "io_ok ?s = (\<lambda>_. True)" "fsimg ?s = []" "mk_sb ?s = mk_superblock" "freeblock ?s = of_nat nmeta" "freeinode ?s = 1"
    by (simp_all add: mk_printf_def mkfs0_def)
  obtain t where t: "for_each (\<lambda>i s. wsect (of_nat i) (replicate BSIZE 0) s) [0..<FSSIZE] ?s = Ret () t" "fsimg t = replicate (BSIZE * FSSIZE) 0"
      "io_ok t = (\<lambda>_. True)" "mk_sb t = mk_superblock" "freeblock t = of_nat nmeta" "freeinode t = 1"
    using zero_image [OF s(1,2), of FSSIZE] s(3-5) by (auto simp: returns_iff)
  obtain u where u: "wsect 1 sb_sector t = Ret () u" "fsimg u = first_image" "io_ok u = (\<lambda>_. True)" "mk_sb u = mk_superblock" "freeblock u = of_nat nmeta" "freeinode u = 1"
    using t by (simp add: wsect_def io_call_def first_image_def sb_sector_def)
  have b: "building 1 u" by (rule building_first [OF u(2-6)])
  have "sects u 1 = sb_sector" using sect_first(1) [of 1] u(2) by (simp add: sb_sector_def)
  from make_root [OF b u(5) this] obtain v where v: "andthen (mk_ialloc T_DIR u) (\<lambda>rootino s. if rootino \<noteq> ROOTINO then Panic ''assert'' else
     andthen (iappend rootino (dirent_bytes (xshort (ucast rootino)) [0x2E]) s) (\<lambda>_ s.
     andthen (iappend rootino (dirent_bytes (xshort (ucast rootino)) [0x2E, 0x2E]) s) (\<lambda>_ s. Ret rootino s))) = Ret 1 v" "root_made v"
    by (auto simp: returns_iff)
  have "msize v 1 = 32" using v(2) contents_length [of v 1] by (simp add: root_made_def length_dirent)
  then obtain w where w: "for_each (mk_file files 1) args v = Ret () w" "built files args v w"
    using mk_files_spec [of v args files] v(2) args n room by (auto simp: root_made_def returns_iff cost_simps)
  from v(1) obtain t1 u1 where r: "mk_ialloc T_DIR u = Ret 1 t1" "iappend 1 (dirent_bytes 1 [0x2E]) t1 = Ret () u1" "iappend 1 (dirent_bytes 1 [0x2E, 0x2E]) u1 = Ret () v"
    by (auto elim!: andthen_RetE split: if_splits)
  from finish_image [OF v(2) w(2) n] show ?thesis
    using t(1,4) u(1) r w(1) by (simp add: mk_main_def Let_def sb_sector_def)
qed

text \<open>Property C20: \<open>mkfs\<close> builds the file system it is asked for. When the files can be opened, have no slash in their names, are not too large and
  fit on the disk with the root directory, the program ends normally. The image then has the superblock in block 1; a root directory with the
  entries for itself, its parent and every file of the command line in order, under the name without a leading underscore, filled up with free entries;
  an inode of type \<open>T_FILE\<close> for every file with exactly the bytes of the file; a bitmap in which exactly the blocks below \<open>freeblock\<close> are marked, among them
  all blocks of all files, no block belonging to two of them. Unless the entries fill the last block of the directory exactly, every file has
  all its blocks.\<close>

theorem mkfs_correct:
  assumes args: "\<forall>a\<in>set args. arg_ok files a" and n: "length args + 2 \<le> NINODES"
    and room: "nmeta + cost (16 * (length args + 2)) + data_cost files args \<le> FSSIZE"
  shows "returns (mk_main files True (prog # img # args) (mkfs0 (\<lambda>_. True))) (\<lambda>_ t. image_of files args t)"
  by (rule mkfs_spec [OF assms])

theorem mkfs_correct_witness:
  "returns (mk_main (\<lambda>_. Some [[104, 105], [33]]) True [[109], [102], [117, 115, 101, 114, 47, 95, 99, 97, 116]] (mkfs0 (\<lambda>_. True)))
     (\<lambda>_ t. img_ok t \<and> contents t 2 = [104, 105, 33] \<and>
        take 48 (contents t 1) = dirent_bytes 1 [46] @ dirent_bytes 1 [46, 46] @ dirent_bytes 2 [99, 97, 116])"
proof -
  let ?f = "\<lambda>_. Some [[104, 105], [33]] :: u8 list list option" and ?a = "[117, 115, 101, 114, 47, 95, 99, 97, 116] :: u8 list"
  have su: "starts_user ?a" by (simp add: starts_user_def strncmp_bytes_eq_0 cname_def)
  have n: "mk_name ?a = [99, 97, 116]" using su by (simp add: mk_name_def)
  have d: "mk_data ?f ?a = [104, 105, 33]" by (simp add: mk_data_def)
  have "arg_ok ?f ?a" using su by (simp add: arg_ok_def mk_data_def)
  moreover have "cost 48 = 1" "cost (Suc (Suc (Suc 0))) = 1" by (simp_all add: cost_def)
  then have "nmeta + cost (16 * (length [?a] + 2)) + data_cost ?f [?a] \<le> FSSIZE" by (simp add: data_cost_def d)
  ultimately have "returns (mk_main ?f True [[109], [102], ?a] (mkfs0 (\<lambda>_. True))) (\<lambda>_ t. image_of ?f [?a] t)"
    using mkfs_correct [of "[?a]" ?f "[109]" "[102]"] by simp
  then show ?thesis
    by (rule returns_mono) (auto simp: image_of_def files_built_def d n dirents_def length_dirent numeral_2_eq_2)
qed

subsection \<open>The kernel on an image\<close>

lemma rdr_has_inodes [simp]: "rdr_has p d b n (s\<lparr>inodes := I\<rparr>) = rdr_has p d b n s" for s :: "'z kfs_scheme"
  by (simp add: rdr_has_def)

lemma rdr_sleep [simp]: "rdr p d R (s\<lparr>sleeplocks := (sleeplocks s)(InodeLk ip := x)\<rparr>) = rdr p d R s" for s :: "'z kfs_scheme"
  by (simp add: rdr_def log_ok_def held_def bc_def quiet_def)

lemma view_upd [simp]: "view d (s\<lparr>inodes := I\<rparr>) = view d s" "view d (s\<lparr>sleeplocks := L\<rparr>) = view d s" "view d (settle s) = view d s" for s :: "'z kfs_scheme"
  by (simp_all add: view_def)

lemma ilock_spec:
  assumes r: "rdr p d {} s" and l: "sl_locked (sleeplocks s (InodeLk ip)) = 0" and x: "1 \<le> i_ref (inodes s ip)" "\<not> i_valid (inodes s ip)" "i_dev (inodes s ip) = d"
    and n: "n = IBLOCK (i_inum (inodes s ip)) (fs_sb s)" and off: "off = dinode_off (i_inum (inodes s ip))" and ty: "get16 (view d s n) off \<noteq> 0"
  shows "returns (ilock (Some ip) s) (\<lambda>_ t. rdr p d {} t \<and> view d t = view d s \<and> fs_sb t = fs_sb s \<and>
     inodes t = (inodes s)(ip := (get_dinode off (view d s n) (inodes s ip))\<lparr>i_valid := True\<rparr>))"
proof -
  define u where "u = (settle s)\<lparr>sleeplocks := (sleeplocks s)(InodeLk ip := (sleeplocks s (InodeLk ip))\<lparr>sl_locked := 1, sl_pid := p_pid (procs s p)\<rparr>)\<rparr>"
  have a: "acquiresleep (InodeLk ip) s = Ret () u" using acquiresleep_eq [OF rdr_quiet [OF r] l] by (simp add: u_def)
  have u: "rdr p d {} u" "view d u = view d s" "inodes u = inodes s" "fs_sb u = fs_sb s"
    using r rdr_sleep [of p d "{}" "settle s" ip] by (simp_all add: u_def)
  obtain b v where v: "bread d n u = Ret b v" "rdr_has p d b n v" "view d v = view d u" "same_disk u v"
    using rdr_read [OF u(1), of n] by (auto simp: returns_iff)
  note kv = kfs_kept [OF same_disk_kept(1) [OF v(4)]]
  let ?y = "get_dinode off (view d s n) (inodes s ip)"
  let ?v = "v\<lparr>inodes := (inodes s)(ip := ?y)\<rparr>"
  have "rdr_has p d b n ?v" using v(2) by simp
  from rdr_release [OF this] obtain w where w: "brelse b ?v = Ret () w" "rdr p d {} w" "view d w = view d s" "same_disk ?v w"
    using v(3) u(2) by (auto simp: returns_iff)
  note kw = kfs_kept [OF same_disk_kept(1) [OF w(4)]]
  have ty': "i_type ?y \<noteq> 0" using ty by (simp add: get_dinode_def)
  have "b_data (bufs v b) = view d s n" using rdr_data [OF v(2)] v(3) u(2) by simp
  then have "ilock (Some ip) s = Ret () (w\<lparr>inodes := (inodes s)(ip := ?y\<lparr>i_valid := True\<rparr>)\<rparr>)"
    using a v(1) w(1) x u(3,4) kv kw ty' by (simp add: ilock_def upd_inode_def Let_def n [symmetric] off [symmetric])
  then show ?thesis using w kw kv u(4) by simp
qed

text \<open>The disk of a machine that boots from the image, and what \<open>ilock\<close> loads from it.\<close>

definition disk_of :: "mkfs \<Rightarrow> u32 \<Rightarrow> u8 list" where
  "disk_of t b = sects t (unat b)"

definition loaded :: "u32 \<Rightarrow> mkfs \<Rightarrow> nat \<Rightarrow> inode \<Rightarrow> bool" where
  "loaded d t i y \<longleftrightarrow> i_dev y = d \<and> i_type y = d_type (dino (sects t) i) \<and> i_size y = d_size (dino (sects t) i) \<and> (\<forall>k<13. i_addrs y k = d_addrs (dino (sects t) i) ! k)"

lemma loaded_get_dinode:
  assumes "length (sects t (32 + i div 16)) = BSIZE" and "i_dev x = d"
  shows "loaded d t i ((get_dinode (64 * (i mod 16)) (sects t (32 + i div 16)) x)\<lparr>i_valid := v\<rparr>)"
proof -
  let ?B = "sects t (32 + i div 16)" and ?o = "64 * (i mod 16)"
  have "?o + 64 \<le> length ?B" using assms(1) by simp
  then have "get16 (drop ?o ?B) 0 = get16 ?B ?o" "get32 (drop ?o ?B) k = get32 ?B (?o + k)" for k by (simp_all add: get16_def get32_def add.assoc)
  then show ?thesis using assms(2) by (simp add: loaded_def dino_def dinode_of_def get_dinode_def add.assoc del: upt_Suc upt_rec_numeral)
qed

lemma loaded_file:
  assumes ok: "img_ok t" and i: "i < NINODES" and v: "view d s = disk_of t" and l: "loaded d t i (inodes s ip)"
  shows "mapped d s ip" and "fsize s ip = msize t i" and "\<And>o'. o' < msize t i \<Longrightarrow> fbyte d s ip o' = mfile t i o'"
proof -
  let ?D = "dino (sects t)"
  have inv: "mk_inv ?D (sects t) (unat (freeblock t))" and sz: "msize t i \<le> MAXFILE * BSIZE" and fl: "filled ?D (sects t) i (msize t i)"
    using ok i by (auto simp: img_ok_def files_at_def)
  show n: "fsize s ip = msize t i" using l by (simp add: loaded_def)
  have b: "fblock d s ip bn = slot ?D (sects t) i (data_slot bn) \<and> slot ?D (sects t) i (data_slot bn) \<noteq> 0 \<and> (12 \<le> bn \<longrightarrow> i_addrs (inodes s ip) 12 \<noteq> 0) \<and> data_slot bn < 269"
    if "bn * BSIZE < msize t i" for bn
  proof -
    have nz: "slot ?D (sects t) i (data_slot bn) \<noteq> 0" using fl that by (simp add: filled_def)
    have k: "bn < MAXFILE" using that sz by linarith
    show ?thesis
    proof (cases "bn < 12")
      case True
      then show ?thesis using nz l k by (simp add: fblock_def slot_def data_slot_def loaded_def)
    next
      case False
      then have "d_addrs (?D i) ! 12 \<noteq> 0" using nz by (auto simp: slot_def data_slot_def Let_def split: if_splits)
      then show ?thesis using False nz l v k by (simp add: fblock_def slot_def data_slot_def loaded_def disk_of_def)
    qed
  qed
  have len: "length (view d s (fblock d s ip bn)) = BSIZE" if "bn * BSIZE < msize t i" for bn
  proof -
    have "unat (fblock d s ip bn) < unat (freeblock t)" using b [OF that] slots_okD(2) [OF mk_invD(6) [OF inv] i, of "data_slot bn"] by auto
    then show ?thesis using mk_invD(2,5) [OF inv] v by (simp add: disk_of_def)
  qed
  show "mapped d s ip" using l n sz b len by (simp add: mapped_def loaded_def)
  show "fbyte d s ip o' = mfile t i o'" if "o' < msize t i" for o'
  proof -
    have "o' div BSIZE * BSIZE < msize t i" using that div_times_less_eq_dividend [of o' BSIZE] by linarith
    from b [OF this] show ?thesis using v by (simp add: fbyte_def mget_def disk_of_def Let_def)
  qed
qed

lemma kernel_reads:
  assumes ok: "img_ok t" and i: "i < NINODES" "d_type (dino (sects t) i) \<noteq> 0" and r: "rdr p d {} s" "view d s = disk_of t" "fs_sb s = mk_superblock"
    and x: "sl_locked (sleeplocks s (InodeLk ip)) = 0" "1 \<le> i_ref (inodes s ip)" "\<not> i_valid (inodes s ip)" "i_dev (inodes s ip) = d" "i_inum (inodes s ip) = of_nat i"
  shows "returns (andthen (ilock (Some ip) s) (\<lambda>_ s. readi ip KernDst 0 (i_size (inodes s ip)) s)) (\<lambda>q u. q = (int (msize t i), contents t i) \<and> rdr p d {} u)"
proof -
  let ?n = "IBLOCK (i_inum (inodes s ip)) (fs_sb s)" and ?o = "dinode_off (i_inum (inodes s ip))"
  have ui: "unat (i_inum (inodes s ip)) = i" using x(5) i fb_word [of i] by simp
  note pl = inode_place [of "i_inum (inodes s ip)", unfolded ui, OF i(1)]
  have len: "length (sects t (32 + i div 16)) = BSIZE" using ok pl(3) by (simp add: img_ok_def files_at_def mk_good_def sect_def)
  have vn: "view d s ?n = sects t (32 + i div 16)" using r(2,3) pl(1) by (simp add: disk_of_def)
  note ld = loaded_get_dinode [OF len x(4), of True]
  have "get16 (view d s ?n) ?o \<noteq> 0" using ld i(2) pl(2) vn by (simp add: loaded_def get_dinode_def)
  from ilock_spec [OF r(1) x(1-4) refl refl this] show ?thesis unfolding returns_andthen
  proof (rule returns_mono, elim conjE)
    fix u assume u: "rdr p d {} u" "view d u = view d s" "inodes u = (inodes s)(ip := (get_dinode ?o (view d s ?n) (inodes s ip))\<lparr>i_valid := True\<rparr>)"
    have "loaded d t i (inodes u ip)" using ld u(3) pl(2) vn by simp
    note lf = loaded_file [OF ok i(1) _ this]
    have vu: "view d u = disk_of t" using u(2) r(2) by simp
    have "returns (readi ip KernDst 0 (i_size (inodes u ip)) u) (\<lambda>r w. r = (int (msize t i), map (fbyte d u ip) [0..<msize t i]) \<and> rdr p d {} w)"
      using fsr.readi_mapped [OF u(1) lf(1) [OF vu] refl, of 0 "i_size (inodes u ip)"] lf(2) [OF vu] by (auto elim!: returns_mono)
    moreover have "map (fbyte d u ip) [0..<msize t i] = contents t i" using lf(3) [OF vu] by (simp add: contents_def)
    ultimately show "returns (readi ip KernDst 0 (i_size (inodes u ip)) u) (\<lambda>q u. q = (int (msize t i), contents t i) \<and> rdr p d {} u)" by simp
  qed
qed

text \<open>The kernel allocates on an image of \<open>mkfs\<close>: its layout is well formed, and the used blocks are those below \<open>freeblock\<close>.\<close>

lemma mkfs_layout:
  assumes t: "image_of files args t" and v: "view d s = disk_of t" "fs_sb s = mk_superblock" "log_start s = 2"
  shows "layout_ok d s" and "\<And>b. b < FSSIZE \<Longrightarrow> used d s b \<longleftrightarrow> b < unat (freeblock t)"
proof -
  have n: "nblk s = FSSIZE" using v(2) by (simp add: mk_superblock_def)
  have bb: "BBLOCK b (fs_sb s) = 45" if "b < FSSIZE" for b using that v(2) by (simp add: BBLOCK_def mk_superblock_def)
  show u: "used d s b \<longleftrightarrow> b < unat (freeblock t)" if "b < FSSIZE" for b
    using that t v(1) bb [OF that] by (simp add: used_def image_of_def disk_of_def)
  have fb: "46 \<le> unat (freeblock t)" using t mk_invD(4) [of "dino (sects t)" "sects t"] by (auto simp: image_of_def files_at_def)
  have "of_nat b \<notin> log_area 2" "of_nat b \<noteq> (45 :: u32)" if "b < FSSIZE" "\<not> used d s b" for b
    using u [OF that(1)] that fb fb_word [of b] by (auto simp: log_area_2)
  moreover have "length (view d s 45) = BSIZE" using t v(1) by (simp add: image_of_def disk_of_def)
  ultimately show "layout_ok d s" using u fb bb n v(3) by (auto simp: layout_ok_def home_def log_area_2)
qed

text \<open>Property C19: what \<open>mkfs\<close> writes, the kernel reads. Boot a machine from the image \<open>mkfs\<close> has built: for every file of the command line, \<open>ilock\<close> of an
  inode table entry with the inode number of the file, followed by \<open>readi\<close> of the whole size, returns exactly the bytes of the file, through
  the inode block, the direct and the indirect blocks. The layout and the bitmap of the image satisfy what the block allocator of the
  kernel needs of them. The entries of the root directory must not fill its last block exactly (62 files, 126, ...): then the size of the directory is wrong.\<close>

theorem mkfs_kernel_reads:
  assumes "\<forall>a\<in>set args. arg_ok files a" and n: "length args + 2 \<le> NINODES" "(length args + 2) mod 64 \<noteq> 0"
    and "nmeta + cost (16 * (length args + 2)) + data_cost files args \<le> FSSIZE"
  shows "returns (mk_main files True (prog # img # args) (mkfs0 (\<lambda>_. True))) (\<lambda>_ t. \<forall>p d (s :: kfs) ip k.
     k < length args \<longrightarrow> rdr p d {} s \<longrightarrow> view d s = disk_of t \<longrightarrow> fs_sb s = mk_superblock \<longrightarrow> log_start s = 2 \<longrightarrow>
     sl_locked (sleeplocks s (InodeLk ip)) = 0 \<longrightarrow> 1 \<le> i_ref (inodes s ip) \<longrightarrow> \<not> i_valid (inodes s ip) \<longrightarrow> i_dev (inodes s ip) = d \<longrightarrow> i_inum (inodes s ip) = of_nat (k + 2) \<longrightarrow>
     layout_ok d s \<and> returns (andthen (ilock (Some ip) s) (\<lambda>_ s. readi ip KernDst 0 (i_size (inodes s ip)) s))
       (\<lambda>q u. q = (int (length (mk_data files (args ! k))), mk_data files (args ! k)) \<and> rdr p d {} u))"
proof (rule returns_mono [OF mkfs_spec [OF assms(1,2,4)]], intro allI impI)
  fix u t p d and s :: kfs and ip k
  assume t: "image_of files args t" and k: "k < length args" and s: "rdr p d {} s" "view d s = disk_of t" "fs_sb s = mk_superblock" "log_start s = 2"
    "sl_locked (sleeplocks s (InodeLk ip)) = 0" "1 \<le> i_ref (inodes s ip)" "\<not> i_valid (inodes s ip)" "i_dev (inodes s ip) = d" "i_inum (inodes s ip) = of_nat (k + 2)"
  have f: "contents t (k + 2) = mk_data files (args ! k)" "d_type (dino (sects t) (k + 2)) \<noteq> 0" "img_ok t" using t k n(2) by (auto simp: image_of_def files_built_def)
  have i: "k + 2 < NINODES" using k n(1) by simp
  show "layout_ok d s \<and> returns (andthen (ilock (Some ip) s) (\<lambda>_ s. readi ip KernDst 0 (i_size (inodes s ip)) s))
       (\<lambda>q u. q = (int (length (mk_data files (args ! k))), mk_data files (args ! k)) \<and> rdr p d {} u)"
    using kernel_reads [OF f(3) i f(2) s(1-3,5-9)] mkfs_layout(1) [OF t s(2-4)] f(1) contents_length [of t "k + 2"] by simp
qed

text \<open>A machine that has booted from a disk and has taken an entry of the inode table for inode 2.\<close>

definition kfs_boot :: "(u32 \<Rightarrow> u8 list) \<Rightarrow> kfs" where
  "kfs_boot pl = kfs0\<lparr>platter := pl, inodes := (inodes kfs0)(0 := (inodes kfs0 0)\<lparr>i_dev := 1, i_inum := 2, i_ref := 1\<rparr>)\<rparr>"

lemma kfs_boot_simps [simp]: "platter (kfs_boot pl) = pl" "bufs (kfs_boot pl) = buf0" "sl_locked (sleeplocks (kfs_boot pl) lk) = 0" "log_start (kfs_boot pl) = 2"
  "log_dev (kfs_boot pl) = 1" "lh_n (kfs_boot pl) = 0" "i_dev (inodes (kfs_boot pl) 0) = 1" "i_inum (inodes (kfs_boot pl) 0) = 2" "i_ref (inodes (kfs_boot pl) 0) = 1"
  "\<not> i_valid (inodes (kfs_boot pl) 0)" "fs_sb (kfs_boot pl) = mk_superblock"
  by (simp_all add: kfs_boot_def kfs0_def kfs.defs klog0_def klog.defs kbio0_defs mk_superblock_def)

lemma rdr_kfs_boot: "rdr 1 1 {} (kfs_boot pl)" "view 1 (kfs_boot pl) = pl"
proof -
  have "quiet 1 (kfs_boot pl)" by (simp add: quiet_def kfs_boot_def kfs0_def kfs.defs klog0_def klog.defs kbio0_defs lock_free_def cpu_ok_def)
  then have "bc 1 1 {} {} (kfs_boot pl)" using cache_ok_cold by (simp add: bc_def)
  then have "held 1 1 {} {} (kfs_boot pl)" by (simp add: held_def)
  then show "rdr 1 1 {} (kfs_boot pl)" by (simp add: rdr_def log_ok_def txn_def)
  have "bview 1 pl buf0 = pl" by (rule ext, rule bview_uncached) (simp add: keyed_def buf0_def)
  then show "view 1 (kfs_boot pl) = pl" by (simp add: view_def)
qed

theorem mkfs_kernel_reads_witness:
  "returns (mk_main (\<lambda>_. Some [[104, 105], [33]]) True [[109], [102], [99, 97, 116]] (mkfs0 (\<lambda>_. True)))
     (\<lambda>_ t. returns (andthen (ilock (Some 0) (kfs_boot (disk_of t))) (\<lambda>_ s. readi 0 KernDst 0 (i_size (inodes s 0)) s)) (\<lambda>q _. q = (3, [104, 105, 33])))"
proof -
  let ?f = "\<lambda>_. Some [[104, 105], [33]] :: u8 list list option" and ?a = "[99, 97, 116] :: u8 list"
  have su: "\<not> starts_user ?a" by (simp add: starts_user_def strncmp_bytes_eq_0 cname_def)
  have d: "mk_data ?f ?a = [104, 105, 33]" by (simp add: mk_data_def)
  have "arg_ok ?f ?a" using su by (simp add: arg_ok_def mk_data_def)
  moreover have "cost 48 = 1" "cost (Suc (Suc (Suc 0))) = 1" by (simp_all add: cost_def)
  then have "nmeta + cost (16 * (length [?a] + 2)) + data_cost ?f [?a] \<le> FSSIZE" by (simp add: data_cost_def d)
  ultimately have k: "\<forall>a\<in>set [?a]. arg_ok ?f a" "length [?a] + 2 \<le> NINODES" "(length [?a] + 2) mod 64 \<noteq> 0" "nmeta + cost (16 * (length [?a] + 2)) + data_cost ?f [?a] \<le> FSSIZE"
    by simp_all
  have q: "mk_data ?f ([?a] ! 0) = [104, 105, 33]" using d by simp
  show ?thesis
  proof (rule returns_mono [OF mkfs_kernel_reads [OF k, of "[109]" "[102]"]])
    fix t assume h: "\<forall>p d (s :: kfs) ip k. k < length [?a] \<longrightarrow> rdr p d {} s \<longrightarrow> view d s = disk_of t \<longrightarrow> fs_sb s = mk_superblock \<longrightarrow> log_start s = 2 \<longrightarrow>
     sl_locked (sleeplocks s (InodeLk ip)) = 0 \<longrightarrow> 1 \<le> i_ref (inodes s ip) \<longrightarrow> \<not> i_valid (inodes s ip) \<longrightarrow> i_dev (inodes s ip) = d \<longrightarrow> i_inum (inodes s ip) = of_nat (k + 2) \<longrightarrow>
     layout_ok d s \<and> returns (andthen (ilock (Some ip) s) (\<lambda>_ s. readi ip KernDst 0 (i_size (inodes s ip)) s))
       (\<lambda>q u. q = (int (length (mk_data ?f ([?a] ! k))), mk_data ?f ([?a] ! k)) \<and> rdr p d {} u)"
    have "returns (andthen (ilock (Some 0) (kfs_boot (disk_of t))) (\<lambda>_ s. readi 0 KernDst 0 (i_size (inodes s 0)) s))
       (\<lambda>q u. q = (int (length (mk_data ?f ([?a] ! 0))), mk_data ?f ([?a] ! 0)) \<and> rdr 1 1 {} u)"
      using h [rule_format, of 0 1 1 "kfs_boot (disk_of t)" 0] rdr_kfs_boot by simp
    then show "returns (andthen (ilock (Some 0) (kfs_boot (disk_of t))) (\<lambda>_ s. readi 0 KernDst 0 (i_size (inodes s 0)) s)) (\<lambda>q _. q = (3, [104, 105, 33]))"
      unfolding q by (rule returns_mono) simp
  qed
qed

end
