(* ===== verification/Syscall.thy ===== *)
theory Syscall
  imports File
begin

text \<open>
  The part of \<open>kernel/proc.c\<close> that touches files (\<open>fork\<close>, \<open>exit\<close>, \<open>userinit\<close>), \<open>kernel/exec.c\<close>, the argument
  fetching of \<open>kernel/syscall.c\<close>. The last layer of the state adds the counter of \<open>read\<close> calls, the trap
  registers of the harts, and \<open>stack_junk\<close>, what two local variables hold before they are assigned.
\<close>

record kernel = kfile +
  readcount :: u32
  forkret_first :: bool
  started :: bool
  stack_junk :: "u32 \<times> u32"
  sepc :: "nat \<Rightarrow> u64"
  scause :: "nat \<Rightarrow> u64"
  stval :: "nat \<Rightarrow> u64"
  stvec :: "nat \<Rightarrow> u64"
  sip :: "nat \<Rightarrow> u64"
  sym_kernelvec :: u64
  sym_uservec :: u64
  sym_userret :: u64
  sym_usertrap :: u64

abbreviation (input) MAXARG :: nat where "MAXARG \<equiv> 32"
abbreviation (input) MAXPATH :: nat where "MAXPATH \<equiv> 128"

text \<open>\<open>safestrcpy\<close> on strings that are not in physical memory.\<close>

definition safestrcpy_str :: "string \<Rightarrow> nat \<Rightarrow> string" where
  "safestrcpy_str t n = take (n - 1) t"

subsection \<open>Process creation and exit\<close>

definition initcode :: "u8 list" where
  "initcode = [
    0x17, 0x05, 0x00, 0x00, 0x13, 0x05, 0x45, 0x02, 0x97, 0x05, 0x00, 0x00, 0x93, 0x85, 0x35, 0x02,
    0x93, 0x08, 0x70, 0x00, 0x73, 0x00, 0x00, 0x00, 0x93, 0x08, 0x20, 0x00, 0x73, 0x00, 0x00, 0x00,
    0xef, 0xf0, 0x9f, 0xff, 0x2f, 0x69, 0x6e, 0x69, 0x74, 0x00, 0x00, 0x24, 0x00, 0x00, 0x00, 0x00,
    0x00, 0x00, 0x00, 0x00]"

definition userinit :: "'z kernel_scheme \<Rightarrow> (unit, 'z kernel_scheme) outcome" where
  "userinit s =
     andthen (allocproc s) (\<lambda>p s.
     let s = s\<lparr>initproc := p\<rparr> in
     deref p (\<lambda>p.
     andthen (uvmfirst (p_pagetable (procs s p)) initcode s) (\<lambda>_ s.
     let s = upd_proc p (\<lambda>q. q\<lparr>p_sz := PGSIZE\<rparr>) s; tf = p_trapframe (procs s p);
         s = s\<lparr>pmem := store64 (tf + TF_sp) PGSIZE (store64 (tf + TF_epc) 0 (pmem s))\<rparr>;
         s = upd_proc p (\<lambda>q. q\<lparr>p_name := safestrcpy_str ''initcode'' 16\<rparr>) s in
     andthen (namei [0x2F] s) (\<lambda>ip s.
     let s = upd_proc p (\<lambda>q. q\<lparr>p_cwd := ip, p_state := RUNNABLE\<rparr>) s;
         s = (if policy s = MLFQ then push p 0 s else s)
     in release (ProcLock p) s))))"

definition fork :: "'z kernel_scheme \<Rightarrow> (int, 'z kernel_scheme) outcome" where
  "fork s =
     andthen (myproc s) (\<lambda>me s.
     andthen (allocproc s) (\<lambda>np s.
       case np of
         None \<Rightarrow> Ret (-1) s
       | Some np \<Rightarrow> deref me (\<lambda>p.
           andthen (uvmcopy (p_pagetable (procs s p)) (p_pagetable (procs s np)) (p_sz (procs s p)) s) (\<lambda>r s.
             if r < 0 then
               andthen (freeproc np s) (\<lambda>_ s. andthen (release (ProcLock np) s) (\<lambda>_ s. Ret (-1) s))
             else
               (let s = upd_proc np (\<lambda>q. q\<lparr>p_sz := p_sz (procs s p)\<rparr>) s;
                    ntf = p_trapframe (procs s np);
                    s = s\<lparr>pmem := memmove ntf (p_trapframe (procs s p)) TF_size (pmem s)\<rparr>;
                    s = s\<lparr>pmem := store64 (ntf + TF_a0) 0 (pmem s)\<rparr> in
                andthen (for_each (\<lambda>i s.
                  case p_ofile (procs s p) i of
                    None \<Rightarrow> Ret () s
                  | Some f \<Rightarrow> andthen (filedup f s) (\<lambda>f s.
                      Ret () (upd_proc np (\<lambda>q. q\<lparr>p_ofile := (p_ofile q)(i := Some f)\<rparr>) s))) [0..<NOFILE] s) (\<lambda>_ s.
                andthen (deref (p_cwd (procs s p)) (\<lambda>cwd. idup cwd s)) (\<lambda>cwd s.
                let s = upd_proc np (\<lambda>q. q\<lparr>p_cwd := Some cwd, p_name := safestrcpy_str (p_name (procs s p)) 16\<rparr>) s;
                    pid = p_pid (procs s np) in
                andthen (release (ProcLock np) s) (\<lambda>_ s.
                andthen (acquire WaitLock s) (\<lambda>_ s.
                andthen (release WaitLock (upd_proc np (\<lambda>q. q\<lparr>p_parent := Some p\<rparr>) s)) (\<lambda>_ s.
                andthen (acquire (ProcLock np) s) (\<lambda>_ s.
                let s = upd_proc np (set_state RUNNABLE) s;
                    s = (if policy s = MLFQ then push np 0 s else s) in
                andthen (release (ProcLock np) s) (\<lambda>_ s. Ret (sint pid) s))))))))))))"

definition exit :: "int \<Rightarrow> 'z kernel_scheme \<Rightarrow> ('a, 'z kernel_scheme) outcome" where
  "exit status s =
     andthen (myproc s) (\<lambda>me s.
       if me = initproc s then Panic ''init exiting''
       else deref me (\<lambda>p.
         andthen (for_each (\<lambda>fd s.
           case p_ofile (procs s p) fd of
             None \<Rightarrow> Ret () s
           | Some f \<Rightarrow> andthen (fileclose f s) (\<lambda>_ s.
               Ret () (upd_proc p (\<lambda>q. q\<lparr>p_ofile := (p_ofile q)(fd := None)\<rparr>) s))) [0..<NOFILE] s) (\<lambda>_ s.
         andthen (begin_op s) (\<lambda>_ s.
         andthen (deref (p_cwd (procs s p)) (\<lambda>cwd. iput cwd s)) (\<lambda>_ s.
         andthen (end_op s) (\<lambda>_ s.
         let s = upd_proc p (\<lambda>q. q\<lparr>p_cwd := None\<rparr>) s in
         andthen (acquire WaitLock s) (\<lambda>_ s.
         andthen (reparent p s) (\<lambda>_ s.
         andthen (wakeup (case p_parent (procs s p) of None \<Rightarrow> ChanNull | Some q \<Rightarrow> ChanProc q) s) (\<lambda>_ s.
         andthen (acquire (ProcLock p) s) (\<lambda>_ s.
         let s = upd_proc p (\<lambda>q. q\<lparr>p_xstate := of_int status, p_state := ZOMBIE, p_etime := ticks s\<rparr>) s in
         andthen (release WaitLock s) (\<lambda>_ s.
         andthen (sched s) (\<lambda>_ s. Panic ''zombie exit''))))))))))))"

subsection \<open>Fetching arguments\<close>

definition get64 :: "u8 list \<Rightarrow> nat \<Rightarrow> u64" where
  "get64 bs off = ucast (get32 bs off) OR push_bit 32 (ucast (get32 bs (off + 4)))"

text \<open>The result is the code and the word stored through \<open>ip\<close>.\<close>

definition fetchaddr :: "u64 \<Rightarrow> 'z kproc_scheme \<Rightarrow> (int \<times> u64, 'z kproc_scheme) outcome" where
  "fetchaddr addr s =
     andthen (myproc s) (\<lambda>p s. deref p (\<lambda>p.
       let sz = p_sz (procs s p) in
       if addr \<ge> sz \<or> addr + 8 > sz then Ret (-1, 0) s
       else
         andthen (copyin (p_pagetable (procs s p)) addr 8 s) (\<lambda>(r, bs) s.
           if r \<noteq> 0 then Ret (-1, 0) s else Ret (0, get64 bs 0) s)))"

text \<open>The result is the code and the bytes stored into \<open>buf\<close>.\<close>

definition fetchstr :: "u64 \<Rightarrow> nat \<Rightarrow> 'z kproc_scheme \<Rightarrow> (int \<times> u8 list, 'z kproc_scheme) outcome" where
  "fetchstr addr mx s =
     andthen (myproc s) (\<lambda>p s. deref p (\<lambda>p.
       andthen (copyinstr (p_pagetable (procs s p)) addr mx s) (\<lambda>(r, bs) s.
         if r < 0 then Ret (-1, bs) s else Ret (int (length (takeWhile (\<lambda>c. c \<noteq> 0) bs)), bs) s)))"

definition argraw :: "nat \<Rightarrow> 'z kproc_scheme \<Rightarrow> (u64, 'z kproc_scheme) outcome" where
  "argraw n s =
     andthen (myproc s) (\<lambda>p s. deref p (\<lambda>p.
       if n < 6 then Ret (load64 (pmem s) (p_trapframe (procs s p) + TF_a0 + 8 * of_nat n)) s
       else Panic ''argraw''))"

definition argint :: "nat \<Rightarrow> 'z kproc_scheme \<Rightarrow> (int, 'z kproc_scheme) outcome" where
  "argint n s = andthen (argraw n s) (\<lambda>v s. Ret (sint (ucast v :: u32)) s)"

definition argaddr :: "nat \<Rightarrow> 'z kproc_scheme \<Rightarrow> (u64, 'z kproc_scheme) outcome" where
  "argaddr n s = argraw n s"

definition argstr :: "nat \<Rightarrow> nat \<Rightarrow> 'z kproc_scheme \<Rightarrow> (int \<times> u8 list, 'z kproc_scheme) outcome" where
  "argstr n mx s = andthen (argaddr n s) (\<lambda>addr s. fetchstr addr mx s)"

text \<open>The string in a buffer that \<open>argstr\<close> filled.\<close>

definition cstr :: "u8 list \<Rightarrow> u8 list" where
  "cstr bs = takeWhile (\<lambda>c. c \<noteq> 0) bs"

subsection \<open>exec.c\<close>

definition flags2perm :: "u32 \<Rightarrow> u64" where
  "flags2perm flags =
     (let perm = (if flags AND 1 \<noteq> 0 then PTE_X else 0)
      in if flags AND 2 \<noteq> 0 then perm OR PTE_W else perm)"

text \<open>\<open>readi\<close> into the physical page \<open>pa\<close> returns the bytes, which are then stored there.\<close>

definition loadseg :: "u64 \<Rightarrow> u64 \<Rightarrow> nat \<Rightarrow> u32 \<Rightarrow> u32 \<Rightarrow> 'z kernel_scheme \<Rightarrow> (int, 'z kernel_scheme) outcome" where
  "loadseg pagetable va ip offset sz s =
     andthen (for_find (\<lambda>i s.
       andthen (walkaddr pagetable (va + of_nat i) s) (\<lambda>pa s.
         if pa = 0 then Panic ''loadseg: address should exist''
         else
           (let n = min (unat sz - i) 4096 in
            andthen (readi ip KernDst (offset + of_nat i) (of_nat n) s) (\<lambda>(r, bs) s.
            let s = s\<lparr>pmem := write_bytes pa bs (pmem s)\<rparr> in
            if r \<noteq> int n then Ret (Some (-1)) s else Ret None s))))
       (map (\<lambda>k. 4096 * k) [0..<(unat sz + 4095) div 4096]) s) (\<lambda>r s.
     Ret (case r of Some v \<Rightarrow> v | None \<Rightarrow> 0) s)"

text \<open>Loading the segments: the program headers \<open>i\<close> of the list, at file offset \<open>off\<close>. The result is the
  size of the image, and whether loading failed.\<close>

primrec load_phs :: "nat list \<Rightarrow> u32 \<Rightarrow> u64 \<Rightarrow> nat \<Rightarrow> u64 \<Rightarrow> 'z kernel_scheme
    \<Rightarrow> (bool \<times> u64, 'z kernel_scheme) outcome" where
  "load_phs [] off pagetable ip sz s = Ret (True, sz) s"
| "load_phs (i # is) off pagetable ip sz s =
     andthen (readi ip KernDst off 56 s) (\<lambda>(r, ph) s.
       if r \<noteq> 56 then Ret (False, sz) s
       else
         (let p_type = get32 ph 0; flags = get32 ph 4; p_off = get64 ph 8; vaddr = get64 ph 16;
              filesz = get64 ph 32; memsz = get64 ph 40 in
          if p_type \<noteq> 1 then load_phs is (off + 56) pagetable ip sz s
          else if memsz < filesz then Ret (False, sz) s
          else if vaddr + memsz < vaddr then Ret (False, sz) s
          else if vaddr mod PGSIZE \<noteq> 0 then Ret (False, sz) s
          else
            andthen (uvmalloc pagetable sz (vaddr + memsz) (flags2perm flags) s) (\<lambda>sz1 s.
              if sz1 = 0 then Ret (False, sz) s
              else
                andthen (loadseg pagetable vaddr ip (ucast p_off) (ucast filesz) s) (\<lambda>r s.
                  if r < 0 then Ret (False, sz1) s
                  else load_phs is (off + 56) pagetable ip sz1 s))))"

text \<open>Pushing the argument strings: the stack pointer and the pointers pushed, or \<open>None\<close>.\<close>

primrec push_args :: "u8 list list \<Rightarrow> nat \<Rightarrow> u64 \<Rightarrow> u64 \<Rightarrow> u64 \<Rightarrow> u64 list \<Rightarrow> 'z kernel_scheme
    \<Rightarrow> ((u64 \<times> u64 list) option, 'z kernel_scheme) outcome" where
  "push_args [] argc pagetable sp stackbase ustack s = Ret (Some (sp, ustack)) s"
| "push_args (a # argv) argc pagetable sp stackbase ustack s =
     (if argc \<ge> MAXARG then Ret None s
      else
        (let sp = sp - of_nat (length a + 1); sp = sp - sp mod 16 in
         if sp < stackbase then Ret None s
         else
           andthen (copyout pagetable sp (a @ [0]) s) (\<lambda>r s.
             if r < 0 then Ret None s
             else push_args argv (argc + 1) pagetable sp stackbase (ustack @ [sp]) s)))"

text \<open>The name after the last slash of a path.\<close>

definition last_elem :: "u8 list \<Rightarrow> u8 list" where
  "last_elem path = rev (takeWhile (\<lambda>c. \<not> is_slash c) (rev path))"

text \<open>The exit \<open>bad\<close> before and after the inode was let go.\<close>

definition exec_bad :: "u64 \<Rightarrow> u64 \<Rightarrow> nat option \<Rightarrow> 'z kernel_scheme \<Rightarrow> (int, 'z kernel_scheme) outcome" where
  "exec_bad pagetable sz ip s =
     andthen (if pagetable \<noteq> 0 then proc_freepagetable pagetable sz s else Ret () s) (\<lambda>_ s.
     andthen (case ip of Some ip \<Rightarrow> andthen (iunlockput ip s) (\<lambda>_ s. end_op s) | None \<Rightarrow> Ret () s) (\<lambda>_ s.
     Ret (-1) s))"

definition exec :: "u8 list \<Rightarrow> u8 list list \<Rightarrow> 'z kernel_scheme \<Rightarrow> (int, 'z kernel_scheme) outcome" where
  "exec path argv s =
     andthen (myproc s) (\<lambda>p s. deref p (\<lambda>p.
     andthen (begin_op s) (\<lambda>_ s.
     andthen (namei path s) (\<lambda>ipo s.
       case ipo of
         None \<Rightarrow> andthen (end_op s) (\<lambda>_ s. Ret (-1) s)
       | Some ip \<Rightarrow>
           andthen (ilock (Some ip) s) (\<lambda>_ s.
           andthen (readi ip KernDst 0 64 s) (\<lambda>(r, elf) s.
             if r \<noteq> 64 \<or> get32 elf 0 \<noteq> 0x464C457F then exec_bad 0 0 (Some ip) s
             else
               andthen (proc_pagetable p s) (\<lambda>pagetable s.
                 if pagetable = 0 then exec_bad 0 0 (Some ip) s
                 else
                   andthen (load_phs [0..<unat (get16 elf 56)] (ucast (get64 elf 32)) pagetable ip 0 s) (\<lambda>(ok, sz) s.
                     if \<not> ok then exec_bad pagetable sz (Some ip) s
                     else
                       andthen (iunlockput ip s) (\<lambda>_ s.
                       andthen (end_op s) (\<lambda>_ s.
                       let oldsz = p_sz (procs s p); sz = PGROUNDUP sz in
                       andthen (uvmalloc pagetable sz (sz + 2 * PGSIZE) PTE_W s) (\<lambda>sz1 s.
                         if sz1 = 0 then exec_bad pagetable sz None s
                         else
                           (let sz = sz1 in
                            andthen (uvmclear pagetable (sz - 2 * PGSIZE) s) (\<lambda>_ s.
                            let stackbase = sz - PGSIZE in
                            andthen (push_args argv 0 pagetable sz stackbase [] s) (\<lambda>pushed s.
                              case pushed of
                                None \<Rightarrow> exec_bad pagetable sz None s
                              | Some (sp, ustack) \<Rightarrow>
                                  (let argc = length argv; sp = sp - of_nat (argc + 1) * 8; sp = sp - sp mod 16 in
                                   if sp < stackbase then exec_bad pagetable sz None s
                                   else
                                     andthen (copyout pagetable sp (concat (map le_bytes64 (ustack @ [0]))) s) (\<lambda>r s.
                                       if r < 0 then exec_bad pagetable sz None s
                                       else
                                         (let tf = p_trapframe (procs s p);
                                              s = s\<lparr>pmem := store64 (tf + TF_a1) sp (pmem s)\<rparr>;
                                              s = upd_proc p (\<lambda>q. q\<lparr>p_name := safestrcpy_str (map (char_of \<circ> unat) (last_elem path)) 16\<rparr>) s;
                                              oldpagetable = p_pagetable (procs s p);
                                              s = upd_proc p (\<lambda>q. q\<lparr>p_pagetable := pagetable, p_sz := sz\<rparr>) s;
                                              s = s\<lparr>pmem := store64 (tf + TF_epc) (get64 elf 24) (pmem s)\<rparr>;
                                              s = s\<lparr>pmem := store64 (tf + TF_sp) sp (pmem s)\<rparr> in
                                          andthen (proc_freepagetable oldpagetable oldsz s) (\<lambda>_ s. Ret (int argc) s))))))))))))))))))"

text \<open>The machine the witnesses run on.\<close>

definition kernel0 :: kernel where
  "kernel0 = kfile.extend kfile0 (kernel.fields 0 True False (0, 0) (\<lambda>_. 0) (\<lambda>_. 0) (\<lambda>_. 0) (\<lambda>_. 0) (\<lambda>_. 0) 0 0 0 0)"

lemmas kernel0_defs = kernel0_def kernel.defs kfile0_def kfile.defs kfs0_def kfs.defs klog0_def klog.defs kbio0_defs

lemma kernel0_ok [simp]:
  "cpu_ok kernel0" "lock_free lk kernel0" "noff (mycpu kernel0) = 0" "cpu_proc (mycpu kernel0) = Some 1"
  "procs kernel0 = demo_table" "ticks kernel0 = 100" "pmem kernel0 = (\<lambda>_. 0)" "freelist kernel0 = 0x80100000"
  "kend kernel0 = 0x80100000" "readcount kernel0 = 0" "tp kernel0 = 0"
  by (simp_all add: kernel0_defs lock_free_def cpu_ok_def)

end
