(* ===== verification/Sysproc.thy ===== *)
theory Sysproc
  imports Syscall
begin

text \<open>
  \<open>kernel/getreadcount.c\<close> and \<open>kernel/sysproc.c\<close>: the counter of \<open>read\<close> system calls and the system calls on
  processes, with \<open>sigalarm\<close> and \<open>sigreturn\<close>. A system call returns the word that goes to \<open>a0\<close>; an \<open>int\<close>
  result is sign-extended.
\<close>

subsection \<open>getreadcount.c\<close>

definition increment_read_count :: "int \<Rightarrow> 'z kernel_scheme \<Rightarrow> (unit, 'z kernel_scheme) outcome" where
  "increment_read_count num s =
     (if num = 5 then
        andthen (acquire ReadcountLock s) (\<lambda>_ s. release ReadcountLock (s\<lparr>readcount := readcount s + 1\<rparr>))
      else Ret () s)"

definition readcountfunc :: "'z kernel_scheme \<Rightarrow> (int, 'z kernel_scheme) outcome" where
  "readcountfunc s =
     andthen (acquire ReadcountLock s) (\<lambda>_ s.
       let count = sint (readcount s) in andthen (release ReadcountLock s) (\<lambda>_ s. Ret count s))"

definition readcountinit :: "'z kernel_scheme \<Rightarrow> 'z kernel_scheme" where
  "readcountinit s = (initlock ReadcountLock ''readcount'' s)\<lparr>readcount := 0\<rparr>"

subsection \<open>sysproc.c\<close>

definition sys_exit :: "'z kernel_scheme \<Rightarrow> (u64, 'z kernel_scheme) outcome" where
  "sys_exit s = andthen (argint 0 s) (\<lambda>n s. exit n s)"

definition sys_getpid :: "'z kernel_scheme \<Rightarrow> (u64, 'z kernel_scheme) outcome" where
  "sys_getpid s = andthen (myproc s) (\<lambda>p s. deref p (\<lambda>p. Ret (of_int (sint (p_pid (procs s p)))) s))"

definition sys_fork :: "'z kernel_scheme \<Rightarrow> (u64, 'z kernel_scheme) outcome" where
  "sys_fork s = andthen (fork s) (\<lambda>r s. Ret (of_int r) s)"

definition sys_wait :: "'z kernel_scheme \<Rightarrow> (u64, 'z kernel_scheme) outcome" where
  "sys_wait s = andthen (argaddr 0 s) (\<lambda>p s. andthen (wait p s) (\<lambda>r s. Ret (of_int r) s))"

definition sys_sbrk :: "'z kernel_scheme \<Rightarrow> (u64, 'z kernel_scheme) outcome" where
  "sys_sbrk s =
     andthen (argint 0 s) (\<lambda>n s.
     andthen (myproc s) (\<lambda>p s. deref p (\<lambda>p.
     let addr = p_sz (procs s p) in
     andthen (growproc n s) (\<lambda>r s. if r < 0 then Ret (-1) s else Ret addr s))))"

text \<open>\<open>ticks - ticks0 < n\<close> compares as \<open>uint\<close>, so \<open>n\<close> is converted to 32 bits unsigned.\<close>

definition sys_sleep_body :: "u32 \<Rightarrow> u32 \<Rightarrow> unit \<Rightarrow> 'z kernel_scheme \<Rightarrow> (unit + u64, 'z kernel_scheme) outcome" where
  "sys_sleep_body n ticks0 _ s =
     (if ticks s - ticks0 < n then
        andthen (myproc s) (\<lambda>p s. deref p (\<lambda>p.
        andthen (killed p s) (\<lambda>k s.
          if k \<noteq> 0 then andthen (release TicksLock s) (\<lambda>_ s. Ret (Inr (-1)) s)
          else andthen (sleep ChanTicks TicksLock s) (\<lambda>_ s. Ret (Inl ()) s))))
      else andthen (release TicksLock s) (\<lambda>_ s. Ret (Inr 0) s))"

definition sys_sleep :: "'z kernel_scheme \<Rightarrow> (u64, 'z kernel_scheme) outcome" where
  "sys_sleep s =
     andthen (argint 0 s) (\<lambda>n s.
     andthen (acquire TicksLock s) (\<lambda>_ s.
     loop (sys_sleep_body (of_int n) (ticks s)) () s))"

definition sys_kill :: "'z kernel_scheme \<Rightarrow> (u64, 'z kernel_scheme) outcome" where
  "sys_kill s = andthen (argint 0 s) (\<lambda>pid s. andthen (kill (of_int pid) s) (\<lambda>r s. Ret (of_int r) s))"

definition sys_uptime :: "'z kernel_scheme \<Rightarrow> (u64, 'z kernel_scheme) outcome" where
  "sys_uptime s =
     andthen (acquire TicksLock s) (\<lambda>_ s.
       let xticks = ticks s in andthen (release TicksLock s) (\<lambda>_ s. Ret (ucast xticks) s))"

text \<open>When \<open>waitx\<close> returns without storing the two times, the locals keep what was on the stack.\<close>

definition sys_waitx :: "'z kernel_scheme \<Rightarrow> (u64, 'z kernel_scheme) outcome" where
  "sys_waitx s =
     andthen (argaddr 0 s) (\<lambda>addr s.
     andthen (argaddr 1 s) (\<lambda>addr1 s.
     andthen (argaddr 2 s) (\<lambda>addr2 s.
     andthen (waitx addr s) (\<lambda>(ret, times) s.
     let (wt, rt) = (case times of Some t \<Rightarrow> t | None \<Rightarrow> stack_junk s) in
     andthen (myproc s) (\<lambda>p s. deref p (\<lambda>p.
     andthen (copyout (p_pagetable (procs s p)) addr1 (le_bytes32 wt) s) (\<lambda>r s.
       if r < 0 then Ret (-1) s
       else
         andthen (copyout (p_pagetable (procs s p)) addr2 (le_bytes32 rt) s) (\<lambda>r s.
           if r < 0 then Ret (-1) s else Ret (of_int ret) s))))))))"

definition sys_getreadcount :: "'z kernel_scheme \<Rightarrow> (u64, 'z kernel_scheme) outcome" where
  "sys_getreadcount s = andthen (readcountfunc s) (\<lambda>r s. Ret (of_int r) s)"

definition sys_sigalarm :: "'z kernel_scheme \<Rightarrow> (u64, 'z kernel_scheme) outcome" where
  "sys_sigalarm s =
     andthen (argint 0 s) (\<lambda>n s.
     andthen (argaddr 1 s) (\<lambda>handler s.
       if n = -1 \<or> handler = -1 then Ret (-1) s
       else
         andthen (myproc s) (\<lambda>p s. deref p (\<lambda>p.
           Ret 0 (upd_proc p (\<lambda>q. q\<lparr>sigalarm_nticks := of_int n, sigalarm_handler := handler,
             sigalarm_running := False, ticks_elapsed := 0\<rparr>) s)))))"

text \<open>\<open>*(p->trapframe) = *(p->trap_backup)\<close> reads through \<open>trap_backup\<close> before it is tested.\<close>

definition sys_sigreturn :: "'z kernel_scheme \<Rightarrow> (u64, 'z kernel_scheme) outcome" where
  "sys_sigreturn s =
     andthen (myproc s) (\<lambda>p s. deref p (\<lambda>p.
       let tf = p_trapframe (procs s p); bak = trap_backup (procs s p) in
       if bak = 0 then Panic ''kerneltrap''
       else
         (let s = s\<lparr>pmem := memmove tf bak TF_size (pmem s)\<rparr> in
          andthen (if bak \<noteq> 0 then kfree bak s else Ret () s) (\<lambda>_ s.
          let s = upd_proc p (\<lambda>q. q\<lparr>trap_backup := 0, sigalarm_running := False\<rparr>) s in
          Ret (load64 (pmem s) (tf + TF_a0)) s))))"

subsection \<open>Properties\<close>

interpretation readcount_upd: machine_upd "readcount_update f" for f by unfold_locales simp_all
interpretation readcount_get: machine_get readcount by unfold_locales simp_all

lemma increment_read_count_eq:
  assumes "cpu_ok s" and "lock_free ReadcountLock s"
  shows "increment_read_count num s = Ret () (if num = 5 then (settle s)\<lparr>readcount := readcount s + 1\<rparr> else s)"
  using assms by (simp add: increment_read_count_def)

lemma readcountfunc_eq:
  assumes "cpu_ok s" and "lock_free ReadcountLock s"
  shows "readcountfunc s = Ret (sint (readcount s)) (settle s)"
  using assms by (simp add: readcountfunc_def)

lemma sys_sigreturn_eq:
  assumes "cpu_ok s" and "cpu_proc (mycpu s) = Some p" and "p_trapframe (procs s p) = tf" and "trap_backup (procs s p) = x"
    and "kmem_inv s ys" and "x \<notin> set ys" and "page_ok (kend s) x" and "page_aligned tf" and "tf \<noteq> x" and "tf \<notin> set ys"
  shows "returns (sys_sigreturn s) (\<lambda>v t. v = load64 (pmem s) (x + TF_a0) \<and>
     (\<forall>a. unat (a - tf) < TF_size \<longrightarrow> pmem t a = pmem s (x + (a - tf))) \<and>
     procs t p = (procs s p)\<lparr>trap_backup := 0, sigalarm_running := False\<rparr> \<and> kmem_inv t (x # ys))"
proof -
  let ?m = "memmove tf x TF_size (pmem s)"
  let ?m' = "store64 x (freelist s) (memset x 1 4096 ?m)"
  have x: "page_aligned x" "x \<noteq> 0" using assms(5,7) by (auto simp: page_ok_def kmem_inv_def word_gt_0)
  have inv: "kmem_inv ((settle s)\<lparr>pmem := ?m\<rparr>) ys"
    by (rule kmem_inv_pmem [where p = tf]) (use x assms in \<open>auto intro: same_outside_page_memmove\<close>)
  have k: "kfree x ((settle s)\<lparr>pmem := ?m\<rparr>) = Ret () ((settle s)\<lparr>pmem := ?m', freelist := x\<rparr>)"
    "kmem_inv ((settle s)\<lparr>pmem := ?m', freelist := x\<rparr>) (x # ys)"
    using kmem_inv_free [OF inv, of x] assms(1,6,7) by simp_all
  have so: "same_outside ?m ?m' x"
    using same_outside_trans [OF same_outside_memset same_outside_store64 [of 0 x]] x(1) by simp
  have frame: "?m' a = pmem s (x + (a - tf))" if "unat (a - tf) < TF_size" for a
  proof -
    have "\<not> unat (a - x) < 4096" using page_disjoint [OF assms(8) x(1) assms(9)] that by simp
    then have "?m' a = ?m a" using so by (simp add: same_outside_def)
    also have "?m a = pmem s (x + (a - tf))" using that page_memmove [OF assms(8) x(1)] by simp
    finally show ?thesis .
  qed
  have a0: "load64 ?m' (tf + 112) = load64 (pmem s) (x + 112)"
    using load64_region [of tf TF_size ?m' "pmem s" x 112] frame by simp
  show ?thesis
    using assms(1-4) x(2) k frame a0
    by (simp add: sys_sigreturn_def)
qed

end
