(* ===== verification/Sysfile.thy ===== *)
theory Sysfile
  imports Sysproc
begin

text \<open>
  \<open>kernel/sysfile.c\<close>: the system calls on files. Paths fetched from user memory are the bytes before the
  NUL; \<open>argv\<close> of \<open>exec\<close> is the list of kernel pages that hold the argument strings.
\<close>

text \<open>The descriptor and the open file, or \<open>None\<close> for the result -1.\<close>

definition argfd :: "nat \<Rightarrow> 'z kernel_scheme \<Rightarrow> ((nat \<times> nat) option, 'z kernel_scheme) outcome" where
  "argfd n s =
     andthen (argint n s) (\<lambda>fd s.
       if fd < 0 \<or> fd \<ge> int NOFILE then Ret None s
       else
         andthen (myproc s) (\<lambda>p s. deref p (\<lambda>p.
           Ret (case p_ofile (procs s p) (nat fd) of None \<Rightarrow> None | Some f \<Rightarrow> Some (nat fd, f)) s)))"

definition fdalloc :: "nat \<Rightarrow> 'z kernel_scheme \<Rightarrow> (int, 'z kernel_scheme) outcome" where
  "fdalloc f s =
     andthen (myproc s) (\<lambda>p s. deref p (\<lambda>p.
       case find (\<lambda>fd. p_ofile (procs s p) fd = None) [0..<NOFILE] of
         Some fd \<Rightarrow> Ret (int fd) (upd_proc p (\<lambda>q. q\<lparr>p_ofile := (p_ofile q)(fd := Some f)\<rparr>) s)
       | None \<Rightarrow> Ret (-1) s))"

definition sys_dup :: "'z kernel_scheme \<Rightarrow> (u64, 'z kernel_scheme) outcome" where
  "sys_dup s =
     andthen (argfd 0 s) (\<lambda>a s.
       case a of
         None \<Rightarrow> Ret (-1) s
       | Some (_, f) \<Rightarrow>
           andthen (fdalloc f s) (\<lambda>fd s.
             if fd < 0 then Ret (-1) s else andthen (filedup f s) (\<lambda>_ s. Ret (of_int fd) s)))"

definition sys_read :: "'z kernel_scheme \<Rightarrow> (u64, 'z kernel_scheme) outcome" where
  "sys_read s =
     andthen (argaddr 1 s) (\<lambda>p s.
     andthen (argint 2 s) (\<lambda>n s.
     andthen (argfd 0 s) (\<lambda>a s.
       case a of
         None \<Rightarrow> Ret (-1) s
       | Some (_, f) \<Rightarrow> andthen (fileread f p n s) (\<lambda>r s. Ret (of_int r) s))))"

definition sys_write :: "'z kernel_scheme \<Rightarrow> (u64, 'z kernel_scheme) outcome" where
  "sys_write s =
     andthen (argaddr 1 s) (\<lambda>p s.
     andthen (argint 2 s) (\<lambda>n s.
     andthen (argfd 0 s) (\<lambda>a s.
       case a of
         None \<Rightarrow> Ret (-1) s
       | Some (_, f) \<Rightarrow> andthen (filewrite f p n s) (\<lambda>r s. Ret (of_int r) s))))"

definition sys_close :: "'z kernel_scheme \<Rightarrow> (u64, 'z kernel_scheme) outcome" where
  "sys_close s =
     andthen (argfd 0 s) (\<lambda>a s.
       case a of
         None \<Rightarrow> Ret (-1) s
       | Some (fd, f) \<Rightarrow>
           andthen (myproc s) (\<lambda>p s. deref p (\<lambda>p.
           andthen (fileclose f (upd_proc p (\<lambda>q. q\<lparr>p_ofile := (p_ofile q)(fd := None)\<rparr>) s)) (\<lambda>_ s. Ret 0 s))))"

definition sys_fstat :: "'z kernel_scheme \<Rightarrow> (u64, 'z kernel_scheme) outcome" where
  "sys_fstat s =
     andthen (argaddr 1 s) (\<lambda>st s.
     andthen (argfd 0 s) (\<lambda>a s.
       case a of
         None \<Rightarrow> Ret (-1) s
       | Some (_, f) \<Rightarrow> andthen (filestat f st s) (\<lambda>r s. Ret (of_int r) s)))"

subsection \<open>Links\<close>

text \<open>The exit \<open>bad\<close> of \<open>sys_link\<close>: take the new link of \<open>ip\<close> back.\<close>

definition link_bad :: "nat \<Rightarrow> 'z kernel_scheme \<Rightarrow> (u64, 'z kernel_scheme) outcome" where
  "link_bad ip s =
     andthen (ilock (Some ip) s) (\<lambda>_ s.
     andthen (iupdate ip (upd_inode ip (i_nlink_update (\<lambda>n. n - 1)) s)) (\<lambda>_ s.
     andthen (iunlockput ip s) (\<lambda>_ s.
     andthen (end_op s) (\<lambda>_ s. Ret (-1) s))))"

definition sys_link :: "'z kernel_scheme \<Rightarrow> (u64, 'z kernel_scheme) outcome" where
  "sys_link s =
     andthen (argstr 0 MAXPATH s) (\<lambda>(r, old) s.
     if r < 0 then Ret (-1) s
     else andthen (argstr 1 MAXPATH s) (\<lambda>(r, new) s.
     if r < 0 then Ret (-1) s
     else
       andthen (begin_op s) (\<lambda>_ s.
       andthen (namei (cstr old) s) (\<lambda>ipo s.
         case ipo of
           None \<Rightarrow> andthen (end_op s) (\<lambda>_ s. Ret (-1) s)
         | Some ip \<Rightarrow>
             andthen (ilock (Some ip) s) (\<lambda>_ s.
               if i_type (inodes s ip) = T_DIR then
                 andthen (iunlockput ip s) (\<lambda>_ s. andthen (end_op s) (\<lambda>_ s. Ret (-1) s))
               else
                 andthen (iupdate ip (upd_inode ip (i_nlink_update (\<lambda>n. n + 1)) s)) (\<lambda>_ s.
                 andthen (iunlock (Some ip) s) (\<lambda>_ s.
                 andthen (nameiparent (cstr new) s) (\<lambda>(dpo, nm) s.
                   case dpo of
                     None \<Rightarrow> link_bad ip s
                   | Some dp \<Rightarrow>
                       andthen (ilock (Some dp) s) (\<lambda>_ s.
                       andthen (if i_dev (inodes s dp) \<noteq> i_dev (inodes s ip) then Ret (-1) s
                                else dirlink dp nm (i_inum (inodes s ip)) s) (\<lambda>r s.
                         if r < 0 then andthen (iunlockput dp s) (\<lambda>_ s. link_bad ip s)
                         else
                           andthen (iunlockput dp s) (\<lambda>_ s.
                           andthen (iput ip s) (\<lambda>_ s.
                           andthen (end_op s) (\<lambda>_ s. Ret 0 s)))))))))))))"

text \<open>The loop starts behind the entries \<open>.\<close> and \<open>..\<close>.\<close>

definition isdirempty :: "nat \<Rightarrow> 'z kernel_scheme \<Rightarrow> (bool, 'z kernel_scheme) outcome" where
  "isdirempty dp s =
     andthen (for_find (\<lambda>off s.
       andthen (readi dp KernDst (of_nat off) 16 s) (\<lambda>(r, de) s.
         if r \<noteq> 16 then Panic ''isdirempty: readi''
         else if get16 de 0 \<noteq> 0 then Ret (Some False) s else Ret None s))
       (drop 2 (dir_offs (i_size (inodes s dp)))) s) (\<lambda>r s.
     Ret (case r of Some b \<Rightarrow> b | None \<Rightarrow> True) s)"

definition sys_unlink :: "'z kernel_scheme \<Rightarrow> (u64, 'z kernel_scheme) outcome" where
  "sys_unlink s =
     (let bad = (\<lambda>dp s. andthen (iunlockput dp s) (\<lambda>_ s. andthen (end_op s) (\<lambda>_ s. Ret (-1) s))) in
      andthen (argstr 0 MAXPATH s) (\<lambda>(r, path) s.
      if r < 0 then Ret (-1) s
      else
        andthen (begin_op s) (\<lambda>_ s.
        andthen (nameiparent (cstr path) s) (\<lambda>(dpo, nm) s.
          case dpo of
            None \<Rightarrow> andthen (end_op s) (\<lambda>_ s. Ret (-1) s)
          | Some dp \<Rightarrow>
              andthen (ilock (Some dp) s) (\<lambda>_ s.
                if namecmp nm [0x2E] = 0 \<or> namecmp nm [0x2E, 0x2E] = 0 then bad dp s
                else
                  andthen (dirlookup dp nm s) (\<lambda>found s.
                    case found of
                      None \<Rightarrow> bad dp s
                    | Some (ip, off) \<Rightarrow>
                        andthen (ilock (Some ip) s) (\<lambda>_ s.
                          if sint (i_nlink (inodes s ip)) < 1 then Panic ''unlink: nlink < 1''
                          else
                            andthen (if i_type (inodes s ip) = T_DIR then isdirempty ip s else Ret True s) (\<lambda>empty s.
                              if \<not> empty then andthen (iunlockput ip s) (\<lambda>_ s. bad dp s)
                              else
                                andthen (writei dp (KernSrc (replicate 16 0)) off 16 s) (\<lambda>w s.
                                  if w \<noteq> 16 then Panic ''unlink: writei''
                                  else
                                    andthen (if i_type (inodes s ip) = T_DIR
                                             then iupdate dp (upd_inode dp (i_nlink_update (\<lambda>n. n - 1)) s)
                                             else Ret () s) (\<lambda>_ s.
                                    andthen (iunlockput dp s) (\<lambda>_ s.
                                    andthen (iupdate ip (upd_inode ip (i_nlink_update (\<lambda>n. n - 1)) s)) (\<lambda>_ s.
                                    andthen (iunlockput ip s) (\<lambda>_ s.
                                    andthen (end_op s) (\<lambda>_ s. Ret 0 s))))))))))))))"

subsection \<open>Creating and opening\<close>

definition create_fail :: "nat \<Rightarrow> nat \<Rightarrow> 'z kernel_scheme \<Rightarrow> (nat option, 'z kernel_scheme) outcome" where
  "create_fail ip dp s =
     andthen (iupdate ip (upd_inode ip (\<lambda>x. x\<lparr>i_nlink := 0\<rparr>) s)) (\<lambda>_ s.
     andthen (iunlockput ip s) (\<lambda>_ s.
     andthen (iunlockput dp s) (\<lambda>_ s. Ret None s)))"

definition create :: "u8 list \<Rightarrow> u16 \<Rightarrow> u16 \<Rightarrow> u16 \<Rightarrow> 'z kernel_scheme \<Rightarrow> (nat option, 'z kernel_scheme) outcome" where
  "create path type major minor s =
     andthen (nameiparent path s) (\<lambda>(dpo, nm) s.
       case dpo of
         None \<Rightarrow> Ret None s
       | Some dp \<Rightarrow>
           andthen (ilock (Some dp) s) (\<lambda>_ s.
           andthen (dirlookup dp nm s) (\<lambda>found s.
             case found of
               Some (ip, _) \<Rightarrow>
                 andthen (iunlockput dp s) (\<lambda>_ s.
                 andthen (ilock (Some ip) s) (\<lambda>_ s.
                   if type = T_FILE \<and> (i_type (inodes s ip) = T_FILE \<or> i_type (inodes s ip) = T_DEVICE)
                   then Ret (Some ip) s
                   else andthen (iunlockput ip s) (\<lambda>_ s. Ret None s)))
             | None \<Rightarrow>
                 andthen (ialloc (i_dev (inodes s dp)) type s) (\<lambda>ipo s.
                   case ipo of
                     None \<Rightarrow> andthen (iunlockput dp s) (\<lambda>_ s. Ret None s)
                   | Some ip \<Rightarrow>
                       andthen (ilock (Some ip) s) (\<lambda>_ s.
                       andthen (iupdate ip (upd_inode ip (\<lambda>x. x\<lparr>i_major := major, i_minor := minor, i_nlink := 1\<rparr>) s)) (\<lambda>_ s.
                       andthen (if type = T_DIR then
                                  andthen (dirlink ip [0x2E] (i_inum (inodes s ip)) s) (\<lambda>r s.
                                    if r < 0 then Ret r s else dirlink ip [0x2E, 0x2E] (i_inum (inodes s dp)) s)
                                else Ret 0 s) (\<lambda>r s.
                         if r < 0 then create_fail ip dp s
                         else
                           andthen (dirlink dp nm (i_inum (inodes s ip)) s) (\<lambda>r s.
                             if r < 0 then create_fail ip dp s
                             else
                               andthen (if type = T_DIR
                                        then iupdate dp (upd_inode dp (i_nlink_update (\<lambda>n. n + 1)) s)
                                        else Ret () s) (\<lambda>_ s.
                               andthen (iunlockput dp s) (\<lambda>_ s. Ret (Some ip) s))))))))))"

abbreviation (input) O_WRONLY :: u32 where "O_WRONLY \<equiv> 1"
abbreviation (input) O_RDWR :: u32 where "O_RDWR \<equiv> 2"
abbreviation (input) O_CREATE :: u32 where "O_CREATE \<equiv> 0x200"
abbreviation (input) O_TRUNC :: u32 where "O_TRUNC \<equiv> 0x400"

text \<open>The part of \<open>sys_open\<close> that finds or makes the inode, locked; \<open>None\<close> after an error.\<close>

definition open_inode :: "u8 list \<Rightarrow> u32 \<Rightarrow> 'z kernel_scheme \<Rightarrow> (nat option, 'z kernel_scheme) outcome" where
  "open_inode path omode s =
     (if omode AND O_CREATE \<noteq> 0 then
        andthen (create path T_FILE 0 0 s) (\<lambda>ipo s.
          case ipo of None \<Rightarrow> andthen (end_op s) (\<lambda>_ s. Ret None s) | Some ip \<Rightarrow> Ret (Some ip) s)
      else
        andthen (namei path s) (\<lambda>ipo s.
          case ipo of
            None \<Rightarrow> andthen (end_op s) (\<lambda>_ s. Ret None s)
          | Some ip \<Rightarrow>
              andthen (ilock (Some ip) s) (\<lambda>_ s.
                if i_type (inodes s ip) = T_DIR \<and> omode \<noteq> 0 then
                  andthen (iunlockput ip s) (\<lambda>_ s. andthen (end_op s) (\<lambda>_ s. Ret None s))
                else Ret (Some ip) s)))"

definition sys_open :: "'z kernel_scheme \<Rightarrow> (u64, 'z kernel_scheme) outcome" where
  "sys_open s =
     andthen (argint 1 s) (\<lambda>om s.
     andthen (argstr 0 MAXPATH s) (\<lambda>(n, path) s.
     if n < 0 then Ret (-1) s
     else
       (let omode = of_int om :: u32 in
        andthen (begin_op s) (\<lambda>_ s.
        andthen (open_inode (cstr path) omode s) (\<lambda>ipo s.
          case ipo of
            None \<Rightarrow> Ret (-1) s
          | Some ip \<Rightarrow>
              (let x = inodes s ip in
               if i_type x = T_DEVICE \<and> (sint (i_major x) < 0 \<or> sint (i_major x) \<ge> int NDEV) then
                 andthen (iunlockput ip s) (\<lambda>_ s. andthen (end_op s) (\<lambda>_ s. Ret (-1) s))
               else
                 andthen (filealloc s) (\<lambda>fo s.
                 andthen (case fo of None \<Rightarrow> Ret (-1) s | Some f \<Rightarrow> fdalloc f s) (\<lambda>fd s.
                   if fo = None \<or> fd < 0 then
                     andthen (case fo of Some f \<Rightarrow> fileclose f s | None \<Rightarrow> Ret () s) (\<lambda>_ s.
                     andthen (iunlockput ip s) (\<lambda>_ s.
                     andthen (end_op s) (\<lambda>_ s. Ret (-1) s)))
                   else
                     (let f = the fo; x = inodes s ip;
                          s = (if i_type x = T_DEVICE
                               then upd_file f (\<lambda>y. y\<lparr>f_type := FD_DEVICE, f_major := i_major x\<rparr>) s
                               else upd_file f (\<lambda>y. y\<lparr>f_type := FD_INODE, f_off := 0\<rparr>) s);
                          s = upd_file f (\<lambda>y. y\<lparr>f_ip := Some ip, f_readable := (omode AND O_WRONLY = 0),
                                f_writable := (omode AND O_WRONLY \<noteq> 0 \<or> omode AND O_RDWR \<noteq> 0)\<rparr>) s in
                      andthen (if omode AND O_TRUNC \<noteq> 0 \<and> i_type (inodes s ip) = T_FILE then itrunc ip s else Ret () s) (\<lambda>_ s.
                      andthen (iunlock (Some ip) s) (\<lambda>_ s.
                      andthen (end_op s) (\<lambda>_ s. Ret (of_int fd) s))))))))))))"

definition sys_mkdir :: "'z kernel_scheme \<Rightarrow> (u64, 'z kernel_scheme) outcome" where
  "sys_mkdir s =
     andthen (begin_op s) (\<lambda>_ s.
     andthen (argstr 0 MAXPATH s) (\<lambda>(r, path) s.
     andthen (if r < 0 then Ret None s else create (cstr path) T_DIR 0 0 s) (\<lambda>ipo s.
       case ipo of
         None \<Rightarrow> andthen (end_op s) (\<lambda>_ s. Ret (-1) s)
       | Some ip \<Rightarrow> andthen (iunlockput ip s) (\<lambda>_ s. andthen (end_op s) (\<lambda>_ s. Ret 0 s)))))"

definition sys_mknod :: "'z kernel_scheme \<Rightarrow> (u64, 'z kernel_scheme) outcome" where
  "sys_mknod s =
     andthen (begin_op s) (\<lambda>_ s.
     andthen (argint 1 s) (\<lambda>major s.
     andthen (argint 2 s) (\<lambda>minor s.
     andthen (argstr 0 MAXPATH s) (\<lambda>(r, path) s.
     andthen (if r < 0 then Ret None s else create (cstr path) T_DEVICE (of_int major) (of_int minor) s) (\<lambda>ipo s.
       case ipo of
         None \<Rightarrow> andthen (end_op s) (\<lambda>_ s. Ret (-1) s)
       | Some ip \<Rightarrow> andthen (iunlockput ip s) (\<lambda>_ s. andthen (end_op s) (\<lambda>_ s. Ret 0 s)))))))"

definition sys_chdir :: "'z kernel_scheme \<Rightarrow> (u64, 'z kernel_scheme) outcome" where
  "sys_chdir s =
     andthen (myproc s) (\<lambda>p s.
     andthen (begin_op s) (\<lambda>_ s.
     andthen (argstr 0 MAXPATH s) (\<lambda>(r, path) s.
     andthen (if r < 0 then Ret None s else namei (cstr path) s) (\<lambda>ipo s.
       case ipo of
         None \<Rightarrow> andthen (end_op s) (\<lambda>_ s. Ret (-1) s)
       | Some ip \<Rightarrow>
           andthen (ilock (Some ip) s) (\<lambda>_ s.
             if i_type (inodes s ip) \<noteq> T_DIR then
               andthen (iunlockput ip s) (\<lambda>_ s. andthen (end_op s) (\<lambda>_ s. Ret (-1) s))
             else
               andthen (iunlock (Some ip) s) (\<lambda>_ s. deref p (\<lambda>p.
               andthen (deref (p_cwd (procs s p)) (\<lambda>cwd. iput cwd s)) (\<lambda>_ s.
               andthen (end_op s) (\<lambda>_ s.
               Ret 0 (upd_proc p (\<lambda>q. q\<lparr>p_cwd := Some ip\<rparr>) s))))))))))"

subsection \<open>exec and pipe\<close>

text \<open>The loop of \<open>sys_exec\<close> that copies the argument strings into fresh pages: whether it came to the null
  pointer, and the pages allocated. At most \<open>MAXARG\<close> rounds are made.\<close>

primrec fetch_argv :: "nat \<Rightarrow> nat \<Rightarrow> u64 \<Rightarrow> u64 list \<Rightarrow> 'z kernel_scheme \<Rightarrow> (bool \<times> u64 list, 'z kernel_scheme) outcome" where
  "fetch_argv 0 i uargv argv s = Ret (False, argv) s"
| "fetch_argv (Suc left) i uargv argv s =
     andthen (fetchaddr (uargv + 8 * of_nat i) s) (\<lambda>(r, uarg) s.
       if r < 0 then Ret (False, argv) s
       else if uarg = 0 then Ret (True, argv) s
       else
         andthen (kalloc s) (\<lambda>pa s.
           if pa = 0 then Ret (False, argv) s
           else
             andthen (fetchstr uarg 4096 s) (\<lambda>(r, bs) s.
             let s = s\<lparr>pmem := write_bytes pa bs (pmem s)\<rparr> in
             if r < 0 then Ret (False, argv @ [pa]) s
             else fetch_argv left (i + 1) uargv (argv @ [pa]) s)))"

definition sys_exec :: "'z kernel_scheme \<Rightarrow> (u64, 'z kernel_scheme) outcome" where
  "sys_exec s =
     andthen (argaddr 1 s) (\<lambda>uargv s.
     andthen (argstr 0 MAXPATH s) (\<lambda>(r, path) s.
     if r < 0 then Ret (-1) s
     else
       andthen (fetch_argv MAXARG 0 uargv [] s) (\<lambda>(ok, argv) s.
         if ok then
           andthen (exec (cstr path) (map (\<lambda>pa. cstr (read_bytes (pmem s) pa 4096)) argv) s) (\<lambda>ret s.
           andthen (for_each kfree argv s) (\<lambda>_ s. Ret (of_int ret) s))
         else andthen (for_each kfree argv s) (\<lambda>_ s. Ret (-1) s))))"

definition sys_pipe :: "'z kernel_scheme \<Rightarrow> (u64, 'z kernel_scheme) outcome" where
  "sys_pipe s =
     (let unset = (\<lambda>p fd s. upd_proc p (\<lambda>q. q\<lparr>p_ofile := (p_ofile q)(nat fd := None)\<rparr>) s);
          close2 = (\<lambda>rf wf s. andthen (fileclose rf s) (\<lambda>_ s. andthen (fileclose wf s) (\<lambda>_ s. Ret (-1) s))) in
      andthen (myproc s) (\<lambda>p s. deref p (\<lambda>p.
      andthen (argaddr 0 s) (\<lambda>fdarray s.
      andthen (pipealloc s) (\<lambda>(r, rfo, wfo) s.
        if r < 0 then Ret (-1) s
        else
          (let rf = the rfo; wf = the wfo in
           andthen (fdalloc rf s) (\<lambda>fd0 s.
             if fd0 < 0 then close2 rf wf s
             else
               andthen (fdalloc wf s) (\<lambda>fd1 s.
                 if fd1 < 0 then close2 rf wf (unset p fd0 s)
                 else
                   andthen (copyout (p_pagetable (procs s p)) fdarray (le_bytes32 (of_int fd0)) s) (\<lambda>r0 s.
                   andthen (if r0 < 0 then Ret r0 s
                            else copyout (p_pagetable (procs s p)) (fdarray + 4) (le_bytes32 (of_int fd1)) s) (\<lambda>r1 s.
                     if r1 < 0 then close2 rf wf (unset p fd1 (unset p fd0 s))
                     else Ret 0 s))))))))))"

end
