(* ===== verification/Trap.thy ===== *)
theory Trap
  imports Sysfile
begin

text \<open>
  The dispatch of \<open>kernel/syscall.c\<close>, \<open>kernel/trap.c\<close> with the MLFQ bookkeeping of the timer interrupt and the
  alarm of \<open>sigalarm\<close>, \<open>forkret\<close> of \<open>kernel/proc.c\<close>, and the boot sequence of \<open>kernel/main.c\<close>. A return to user
  space is the address in the trampoline that is jumped to and the page table passed to it.
\<close>

subsection \<open>syscall()\<close>

text \<open>The table \<open>syscalls\<close>: the numbers 1 to 25 of \<open>kernel/syscall.h\<close> have a handler.\<close>

definition syscalls :: "nat \<Rightarrow> ('z kernel_scheme \<Rightarrow> (u64, 'z kernel_scheme) outcome) option" where
  "syscalls num =
     map_of [(1, sys_fork), (2, sys_exit), (3, sys_wait), (4, sys_pipe), (5, sys_read), (6, sys_kill), (7, sys_exec),
       (8, sys_fstat), (9, sys_chdir), (10, sys_dup), (11, sys_getpid), (12, sys_sbrk), (13, sys_sleep),
       (14, sys_uptime), (15, sys_open), (16, sys_write), (17, sys_mknod), (18, sys_unlink), (19, sys_link),
       (20, sys_mkdir), (21, sys_close), (22, sys_waitx), (23, sys_getreadcount), (24, sys_sigalarm),
       (25, sys_sigreturn)] num"

definition set_a0 :: "nat \<Rightarrow> u64 \<Rightarrow> 'z kproc_scheme \<Rightarrow> 'z kproc_scheme" where
  "set_a0 p v s = s\<lparr>pmem := store64 (p_trapframe (procs s p) + TF_a0) v (pmem s)\<rparr>"

definition syscall :: "'z kernel_scheme \<Rightarrow> (unit, 'z kernel_scheme) outcome" where
  "syscall s =
     andthen (myproc s) (\<lambda>p s. deref p (\<lambda>p.
     let num = sint (ucast (load64 (pmem s) (p_trapframe (procs s p) + TF_a7)) :: u32) in
     andthen (increment_read_count num s) (\<lambda>_ s.
       case (if num > 0 then syscalls (nat num) else None) of
         Some handler \<Rightarrow> andthen (handler s) (\<lambda>v s. Ret () (set_a0 p v s))
       | None \<Rightarrow>
           andthen (printf (''%d %s: unknown sys call %d'' @ [CHR 0x0A])
             [PInt (p_pid (procs s p)), PStr (Some (p_name (procs s p))), PInt (of_int num)] s) (\<lambda>_ s.
           Ret () (set_a0 p (-1) s)))))"

subsection \<open>Trap registers\<close>

definition w_stvec :: "u64 \<Rightarrow> 'z kernel_scheme \<Rightarrow> 'z kernel_scheme" where
  "w_stvec x s = s\<lparr>stvec := (stvec s)(tp s := x)\<rparr>"

definition w_sepc :: "u64 \<Rightarrow> 'z kernel_scheme \<Rightarrow> 'z kernel_scheme" where
  "w_sepc x s = s\<lparr>sepc := (sepc s)(tp s := x)\<rparr>"

definition w_sip :: "u64 \<Rightarrow> 'z kernel_scheme \<Rightarrow> 'z kernel_scheme" where
  "w_sip x s = s\<lparr>sip := (sip s)(tp s := x)\<rparr>"

definition trapinit :: "'z kernel_scheme \<Rightarrow> 'z kernel_scheme" where
  "trapinit s = initlock TicksLock ''time'' s"

definition trapinithart :: "'z kernel_scheme \<Rightarrow> 'z kernel_scheme" where
  "trapinithart s = w_stvec (sym_kernelvec s) s"

subsection \<open>Interrupts\<close>

definition clockintr :: "'z kernel_scheme \<Rightarrow> (unit, 'z kernel_scheme) outcome" where
  "clockintr s =
     andthen (acquire TicksLock s) (\<lambda>_ s.
     andthen (update_time (s\<lparr>ticks := ticks s + 1\<rparr>)) (\<lambda>_ s.
     andthen (wakeup ChanTicks s) (\<lambda>_ s.
     release TicksLock s)))"

definition devintr :: "'z kernel_scheme \<Rightarrow> (nat, 'z kernel_scheme) outcome" where
  "devintr s =
     (let cause = scause s (tp s) in
      if cause AND 0x8000000000000000 \<noteq> 0 \<and> cause AND 0xff = 9 then
        (let (irq, s) = plic_claim s in
         andthen (if irq = UART0_IRQ then uartintr s
                  else if irq = VIRTIO0_IRQ then virtio_disk_intr s
                  else if irq \<noteq> 0 then printf (''unexpected interrupt irq=%d'' @ [CHR 0x0A]) [PInt irq] s
                  else Ret () s) (\<lambda>_ s.
         Ret 1 (if irq \<noteq> 0 then plic_complete irq s else s)))
      else if cause = 0x8000000000000001 then
        andthen (if cpuid s = 0 then clockintr s else Ret () s) (\<lambda>_ s.
        Ret 2 (w_sip (sip s (tp s) AND NOT 2) s))
      else Ret 0 s)"

subsection \<open>MLFQ in the trap handlers\<close>

text \<open>The loop over the table that promotes processes that waited too long.\<close>

definition trap_boost_one :: "nat \<Rightarrow> 'z kproc_scheme \<Rightarrow> (unit, 'z kproc_scheme) outcome" where
  "trap_boost_one p s =
     andthen (acquire (ProcLock p) s) (\<lambda>_ s.
       if needs_boost p s then release (ProcLock p) (boost p s) else release (ProcLock p) s)"

text \<open>Time slices \<open>MLFQ_TICKS0\<close> to \<open>MLFQ_TICKS3\<close>; the \<open>default\<close> case is that of queue 0.\<close>

definition mlfq_slice :: "int \<Rightarrow> u32" where
  "mlfq_slice pri = (if pri = 1 then 3 else if pri = 2 then 9 else if pri = 3 then 15 else 1)"

text \<open>A running process that used up its slice moves one queue down and yields.\<close>

definition trap_demote :: "nat \<Rightarrow> 'z kproc_scheme \<Rightarrow> (unit, 'z kproc_scheme) outcome" where
  "trap_demote p s =
     (let d = mlfq_data (procs s p) in
      if p_state (procs s p) = RUNNING \<and> num_ticks d \<ge> mlfq_slice (curr_pri d) then
        (let new_pri = min (curr_pri d + 1) (int MLFQ_NUM_QUEUES - 1);
             s = remove p (curr_pri d) s;
             s = push p new_pri s
         in yield s)
      else Ret () s)"

text \<open>Is a process waiting in a queue above that of \<open>p\<close>?\<close>

definition higher_waiting :: "nat \<Rightarrow> 'z kproc_scheme \<Rightarrow> bool" where
  "higher_waiting p s \<longleftrightarrow>
     (\<exists>i\<in>set [0..<nat (curr_pri (mlfq_data (procs s p)))]. \<exists>q\<in>set [0..<NPROC].
        p_state (procs s q) = RUNNABLE \<and> in_queue (mlfq_data (procs s q)) \<and> curr_pri (mlfq_data (procs s q)) = int i)"

definition trap_preempt :: "nat \<Rightarrow> 'z kproc_scheme \<Rightarrow> (unit, 'z kproc_scheme) outcome" where
  "trap_preempt p s = (if higher_waiting p s then yield s else Ret () s)"

subsection \<open>Traps from user space\<close>

text \<open>The alarm: at the \<open>sigalarm_nticks\<close>-th tick save the trapframe in a fresh page and return to the
  handler. The page is used without testing for 0.\<close>

definition alarm_tick :: "nat \<Rightarrow> 'z kproc_scheme \<Rightarrow> (unit, 'z kproc_scheme) outcome" where
  "alarm_tick p s =
     (let s = upd_proc p (ticks_elapsed_update (\<lambda>n. n + 1)) s; q = procs s p in
      if sint (sigalarm_nticks q) > 0 \<and> \<not> sigalarm_running q then
        if sint (ticks_elapsed q) \<ge> sint (sigalarm_nticks q) then
          (let s = upd_proc p (\<lambda>q. q\<lparr>sigalarm_running := True, ticks_elapsed := 0\<rparr>) s in
           andthen (kalloc s) (\<lambda>bak s.
           let s = upd_proc p (\<lambda>q. q\<lparr>trap_backup := bak\<rparr>) s in
           if bak = 0 then Panic ''kerneltrap''
           else
             (let tf = p_trapframe (procs s p);
                  s = s\<lparr>pmem := memmove bak tf TF_size (pmem s)\<rparr>
              in Ret () (s\<lparr>pmem := store64 (tf + TF_epc) (sigalarm_handler (procs s p)) (pmem s)\<rparr>))))
        else Ret () s
      else Ret () s)"

definition user_timer :: "nat \<Rightarrow> 'z kproc_scheme \<Rightarrow> (unit, 'z kproc_scheme) outcome" where
  "user_timer p s =
     andthen (alarm_tick p s) (\<lambda>_ s.
       case policy s of
         RR \<Rightarrow> yield s
       | FCFS \<Rightarrow> Ret () s
       | MLFQ \<Rightarrow>
           andthen (for_each trap_boost_one [0..<NPROC] s) (\<lambda>_ s.
           andthen (trap_demote p s) (\<lambda>_ s. trap_preempt p s)))"

definition usertrapret :: "'z kernel_scheme \<Rightarrow> (u64 \<times> u64, 'z kernel_scheme) outcome" where
  "usertrapret s =
     andthen (myproc s) (\<lambda>p s. deref p (\<lambda>p.
     let s = intr_off s;
         s = w_stvec (TRAMPOLINE + (sym_uservec s - sym_trampoline s)) s;
         tf = p_trapframe (procs s p);
         s = s\<lparr>pmem := store64 (tf + TF_kernel_satp) (satp s (tp s)) (pmem s)\<rparr>;
         s = s\<lparr>pmem := store64 (tf + TF_kernel_sp) (p_kstack (procs s p) + PGSIZE) (pmem s)\<rparr>;
         s = s\<lparr>pmem := store64 (tf + TF_kernel_trap) (sym_usertrap s) (pmem s)\<rparr>;
         s = s\<lparr>pmem := store64 (tf + TF_kernel_hartid) (of_nat (tp s)) (pmem s)\<rparr>;
         x = r_sstatus s AND NOT SSTATUS_SPP OR SSTATUS_SPIE;
         s = w_sstatus x s;
         s = w_sepc (load64 (pmem s) (tf + TF_epc)) s
     in Ret (TRAMPOLINE + (sym_userret s - sym_trampoline s), MAKE_SATP (p_pagetable (procs s p))) s))"

definition usertrap :: "'z kernel_scheme \<Rightarrow> (u64 \<times> u64, 'z kernel_scheme) outcome" where
  "usertrap s =
     (if r_sstatus s AND SSTATUS_SPP \<noteq> 0 then Panic ''usertrap: not from user mode''
      else
        (let s = w_stvec (sym_kernelvec s) s in
         andthen (myproc s) (\<lambda>p s. deref p (\<lambda>p.
         let tf = p_trapframe (procs s p);
             s = s\<lparr>pmem := store64 (tf + TF_epc) (sepc s (tp s)) (pmem s)\<rparr> in
         andthen
           (if scause s (tp s) = 8 then
              andthen (killed p s) (\<lambda>k s.
              if k \<noteq> 0 then exit (-1) s
              else
                (let s = s\<lparr>pmem := store64 (tf + TF_epc) (load64 (pmem s) (tf + TF_epc) + 4) (pmem s)\<rparr>
                 in andthen (syscall (intr_on s)) (\<lambda>_ s. Ret 0 s)))
            else
              andthen (devintr s) (\<lambda>which_dev s.
                if which_dev \<noteq> 0 then
                  andthen (if which_dev = 2 then user_timer p s else Ret () s) (\<lambda>_ s. Ret which_dev s)
                else
                  andthen (printf (''usertrap(): unexpected scause %p pid=%d'' @ [CHR 0x0A])
                    [PPtr (scause s (tp s)), PInt (p_pid (procs s p))] s) (\<lambda>_ s.
                  andthen (printf (''            sepc=%p stval=%p'' @ [CHR 0x0A]) [PPtr (sepc s (tp s)), PPtr (stval s (tp s))] s) (\<lambda>_ s.
                  andthen (setkilled p s) (\<lambda>_ s. Ret 0 s))))) (\<lambda>which_dev s.
         andthen (killed p s) (\<lambda>k s.
           if k \<noteq> 0 then exit (-1) s
           else
             andthen (if policy s = RR \<and> which_dev = 2 then yield s else Ret () s) (\<lambda>_ s.
             usertrapret s)))))))"

subsection \<open>Traps from the kernel\<close>

definition kerneltrap :: "'z kernel_scheme \<Rightarrow> (unit, 'z kernel_scheme) outcome" where
  "kerneltrap s =
     (let epc = sepc s (tp s); status = r_sstatus s; cause = scause s (tp s) in
      if status AND SSTATUS_SPP = 0 then Panic ''kerneltrap: not from supervisor mode''
      else if intr_get s then Panic ''kerneltrap: interrupts enabled''
      else
        andthen (devintr s) (\<lambda>which_dev s.
        if which_dev = 0 then
          andthen (printf (''scause %p'' @ [CHR 0x0A]) [PPtr cause] s) (\<lambda>_ s.
          andthen (printf (''sepc=%p stval=%p'' @ [CHR 0x0A]) [PPtr (sepc s (tp s)), PPtr (stval s (tp s))] s) (\<lambda>_ s.
          Panic ''kerneltrap''))
        else
          andthen
            (case policy s of
               RR \<Rightarrow>
                 if which_dev = 2 then
                   andthen (myproc s) (\<lambda>p s.
                     case p of
                       None \<Rightarrow> Ret () s
                     | Some _ \<Rightarrow>
                         andthen (myproc s) (\<lambda>p s. deref p (\<lambda>p.
                           if p_state (procs s p) = RUNNING then yield s else Ret () s)))
                 else Ret () s
             | FCFS \<Rightarrow> Ret () s
             | MLFQ \<Rightarrow>
                 andthen (for_each trap_boost_one [0..<NPROC] s) (\<lambda>_ s.
                 andthen (myproc s) (\<lambda>p s.
                   case p of
                     None \<Rightarrow> Ret () s
                   | Some p \<Rightarrow>
                       andthen (if which_dev = 2 then trap_demote p s else Ret () s) (\<lambda>_ s. trap_preempt p s)))) (\<lambda>_ s.
          Ret () (w_sstatus status (w_sepc epc s)))))"

subsection \<open>The first scheduling of a process\<close>

definition forkret :: "'z kernel_scheme \<Rightarrow> (u64 \<times> u64, 'z kernel_scheme) outcome" where
  "forkret s =
     andthen (myproc s) (\<lambda>p s. deref p (\<lambda>p.
     andthen (release (ProcLock p) s) (\<lambda>_ s.
     andthen (if forkret_first s then fsinit ROOTDEV (s\<lparr>forkret_first := False\<rparr>) else Ret () s) (\<lambda>_ s.
     usertrapret s))))"

subsection \<open>main.c\<close>

definition main :: "'z kernel_scheme \<Rightarrow> ('a, 'z kernel_scheme) outcome" where
  "main s =
     andthen
       (if cpuid s = 0 then
          (let s = printfinit (consoleinit s) in
           andthen (printf [CHR 0x0A] [] s) (\<lambda>_ s.
           andthen (printf (''xv6 kernel is booting'' @ [CHR 0x0A]) [] s) (\<lambda>_ s.
           andthen (printf [CHR 0x0A] [] s) (\<lambda>_ s.
           andthen (kinit s) (\<lambda>_ s.
           andthen (kvminit s) (\<lambda>_ s.
           andthen (procinit (kvminithart s)) (\<lambda>_ s.
           andthen (binit (plicinithart (plicinit (trapinithart (trapinit s))))) (\<lambda>_ s.
           andthen (iinit s) (\<lambda>_ s.
           andthen (virtio_disk_init (fileinit s)) (\<lambda>_ s.
           andthen (userinit s) (\<lambda>_ s.
           Ret () ((readcountinit s)\<lparr>started := True\<rparr>))))))))))))
        else
          andthen (loop (\<lambda>_ s. Ret (if started s then Inr () else Inl ()) s) () s) (\<lambda>_ s.
          andthen (printf (''hart %d starting'' @ [CHR 0x0A]) [PInt (of_nat (cpuid s))] s) (\<lambda>_ s.
          Ret () (plicinithart (trapinithart (kvminithart s)))))) (\<lambda>_ s.
     scheduler s)"

subsection \<open>Properties\<close>

lemma alarm_tick_due:
  assumes "cpu_ok s" and "kmem_inv s (x # xs)" and "p_trapframe (procs s p) = tf"
    and "page_aligned tf" and "tf \<notin> set (x # xs)"
    and "0 < sint (sigalarm_nticks (procs s p))" and "\<not> sigalarm_running (procs s p)"
    and "sint (sigalarm_nticks (procs s p)) \<le> sint (ticks_elapsed (procs s p) + 1)"
  shows "returns (alarm_tick p s) (\<lambda>_ t.
     procs t = (procs s)(p := (procs s p)\<lparr>sigalarm_running := True, ticks_elapsed := 0, trap_backup := x\<rparr>) \<and>
     load64 (pmem t) (tf + TF_epc) = sigalarm_handler (procs s p) \<and>
     (\<forall>a. unat (a - x) < TF_size \<longrightarrow> pmem t a = pmem s (tf + (a - x))) \<and>
     (\<forall>a. unat (a - tf) < 4096 \<and> \<not> unat (a - (tf + TF_epc)) < 8 \<longrightarrow> pmem t a = pmem s a) \<and>
     kmem_inv t xs \<and> kend t = kend s)"
proof -
  let ?m1 = "memset x 5 4096 (pmem s)"
  let ?m2 = "memmove x tf TF_size ?m1"
  let ?m3 = "store64 (tf + 24) (sigalarm_handler (procs s p)) ?m2"
  have x: "page_aligned x" "x \<noteq> 0" "x \<notin> set xs" using assms(2) by (auto simp: kmem_inv_def page_ok_def word_gt_0)
  have tfx: "tf \<noteq> x" "tf \<notin> set xs" using assms(5) by auto
  have so1: "same_outside (pmem s) ?m2 x"
    using same_outside_trans [OF same_outside_memset same_outside_page_memmove] x(1) assms(4) by simp
  have so2: "same_outside ?m2 ?m3 tf" using same_outside_store64 [of 24 tf] assms(4) by simp
  have saved: "?m3 a = pmem s (tf + (a - x))" if a: "unat (a - x) < TF_size" for a
  proof -
    have "\<not> unat (a - tf) < 4096" using page_disjoint [OF x(1) assms(4)] tfx(1) a by auto
    then have "?m3 a = ?m2 a" using so2 by (simp add: same_outside_def)
    also have "\<dots> = ?m1 (tf + (a - x))" using a page_memmove [OF x(1) assms(4)] by simp
    also have "\<dots> = pmem s (tf + (a - x))"
      using page_disjoint [OF assms(4) x(1) tfx(1), of "tf + (a - x)"] a by (simp add: memset_apply)
    finally show ?thesis .
  qed
  have rest: "?m3 a = pmem s a" if "unat (a - tf) < 4096" "\<not> unat (a - (tf + 24)) < 8" for a
  proof -
    have "\<not> unat (a - x) < 4096" using page_disjoint [OF assms(4) x(1) tfx(1)] that(1) by simp
    then have "?m2 a = pmem s a" using so1 by (simp add: same_outside_def)
    with that(2) show ?thesis by (simp add: store64_def)
  qed
  have k: "kalloc (upd_proc p f s) = Ret x ((settle (upd_proc p f s))\<lparr>freelist := load64 (pmem s) x, pmem := ?m1\<rparr>)"
    "kmem_inv ((settle s)\<lparr>freelist := load64 (pmem s) x, pmem := ?m1\<rparr>) xs" for f
    using kmem_inv_alloc [of "upd_proc p f s" x xs] kmem_inv_alloc [of s x xs] assms(1,2) by simp_all
  have "same_outside ?m1 ?m2 x" using same_outside_page_memmove x(1) assms(4) by simp
  then have "kmem_inv ((settle s)\<lparr>freelist := load64 (pmem s) x, pmem := ?m2\<rparr>) xs"
    using kmem_inv_pmem [OF k(2), of ?m2 x] x by simp
  then have inv: "kmem_inv ((settle s)\<lparr>freelist := load64 (pmem s) x, pmem := ?m3\<rparr>) xs"
    using kmem_inv_pmem [of "(settle s)\<lparr>freelist := load64 (pmem s) x, pmem := ?m2\<rparr>" xs ?m3 tf] so2 assms(4) tfx by simp
  show ?thesis
    using assms(3,6-8) x(2) k(1) inv saved rest
    by (simp add: alarm_tick_def upd_proc_comm)
qed

lemma alarm_tick_idle:
  assumes "sint (sigalarm_nticks (procs s p)) \<le> 0 \<or> sigalarm_running (procs s p) \<or>
     sint (ticks_elapsed (procs s p) + 1) < sint (sigalarm_nticks (procs s p))"
  shows "alarm_tick p s = Ret () (upd_proc p (ticks_elapsed_update (\<lambda>n. n + 1)) s)"
  using assms by (auto simp: alarm_tick_def Let_def)

text \<open>
  Property C4: an alarm interrupts a program and \<open>sigreturn\<close> resumes it. When the timer tick is the one the
  program asked for, the tick saves the 288 bytes of the trapframe in a fresh page, redirects the saved program counter to the
  handler and leaves every other byte of the trapframe page as it was. Whatever the handler then does
  to the trapframe, \<open>sigreturn\<close>, called in any later state where the saved copy and its page are intact,
  restores all 288 bytes, returns the interrupted value of \<open>a0\<close>, re-arms the alarm, and gives the page back
  to the allocator. A tick that is not due only counts.
\<close>

theorem alarm_roundtrip:
  fixes s :: "'z kernel_scheme"
  assumes "cpu_ok s" and "kmem_inv s (x # xs)" and "p_trapframe (procs s p) = tf"
    and "page_aligned tf" and "tf \<notin> set (x # xs)"
  shows "if 0 < sint (sigalarm_nticks (procs s p)) \<and> \<not> sigalarm_running (procs s p) \<and>
            sint (sigalarm_nticks (procs s p)) \<le> sint (ticks_elapsed (procs s p) + 1)
         then returns (alarm_tick p s) (\<lambda>_ t.
           load64 (pmem t) (tf + TF_epc) = sigalarm_handler (procs s p) \<and>
           (\<forall>a. unat (a - tf) < 4096 \<and> \<not> unat (a - (tf + TF_epc)) < 8 \<longrightarrow> pmem t a = pmem s a) \<and>
           procs t = (procs s)(p := (procs s p)\<lparr>sigalarm_running := True, ticks_elapsed := 0, trap_backup := x\<rparr>) \<and>
           kmem_inv t xs \<and>
           (\<forall>(u :: 'z kernel_scheme) ys. cpu_ok u \<and> cpu_proc (mycpu u) = Some p \<and>
              p_trapframe (procs u p) = tf \<and> trap_backup (procs u p) = x \<and>
              (\<forall>a. unat (a - x) < TF_size \<longrightarrow> pmem u a = pmem t a) \<and>
              kmem_inv u ys \<and> kend u = kend s \<and> x \<notin> set ys \<and> tf \<notin> set ys \<longrightarrow>
              returns (sys_sigreturn u) (\<lambda>v w. v = load64 (pmem s) (tf + TF_a0) \<and>
                (\<forall>a. unat (a - tf) < TF_size \<longrightarrow> pmem w a = pmem s a) \<and>
                procs w p = (procs u p)\<lparr>trap_backup := 0, sigalarm_running := False\<rparr> \<and> kmem_inv w (x # ys))))
         else alarm_tick p s = Ret () (upd_proc p (ticks_elapsed_update (\<lambda>n. n + 1)) s)"
proof (cases "0 < sint (sigalarm_nticks (procs s p)) \<and> \<not> sigalarm_running (procs s p) \<and>
            sint (sigalarm_nticks (procs s p)) \<le> sint (ticks_elapsed (procs s p) + 1)")
  case True
  have x: "page_ok (kend s) x" "tf \<noteq> x" "unat tf + TF_size < 2 ^ 64"
    using assms(2,5) page_room [OF assms(4)] by (auto simp: kmem_inv_def)
  have ret: "returns (sys_sigreturn u) (\<lambda>v w. v = load64 (pmem s) (tf + TF_a0) \<and>
      (\<forall>a. unat (a - tf) < TF_size \<longrightarrow> pmem w a = pmem s a) \<and>
      procs w p = (procs u p)\<lparr>trap_backup := 0, sigalarm_running := False\<rparr> \<and> kmem_inv w (x # ys))"
    if u: "cpu_ok u" "cpu_proc (mycpu u) = Some p" "p_trapframe (procs u p) = tf" "trap_backup (procs u p) = x"
        "kmem_inv u ys" "kend u = kend s" "x \<notin> set ys" "tf \<notin> set ys"
      and m: "\<And>a. unat (a - x) < TF_size \<Longrightarrow> pmem u a = pmem s (tf + (a - x))" for u :: "'z kernel_scheme" and ys
  proof (rule returns_mono [OF sys_sigreturn_eq [OF u(1-5,7) _ assms(4) x(2) u(8)]])
    have "load64 (pmem u) (x + 112) = load64 (pmem s) (tf + 112)"
      using load64_region [of x TF_size "pmem u" "pmem s" tf 112] m by simp
    moreover have "pmem u (x + (a - tf)) = pmem s a" if "unat (a - tf) < TF_size" for a
      using m [of "x + (a - tf)"] that by simp
    ultimately show "\<And>v w. v = load64 (pmem u) (x + TF_a0) \<and>
       (\<forall>a. unat (a - tf) < TF_size \<longrightarrow> pmem w a = pmem u (x + (a - tf))) \<and>
       procs w p = (procs u p)\<lparr>trap_backup := 0, sigalarm_running := False\<rparr> \<and> kmem_inv w (x # ys) \<Longrightarrow>
       v = load64 (pmem s) (tf + TF_a0) \<and> (\<forall>a. unat (a - tf) < TF_size \<longrightarrow> pmem w a = pmem s a) \<and>
       procs w p = (procs u p)\<lparr>trap_backup := 0, sigalarm_running := False\<rparr> \<and> kmem_inv w (x # ys)" by simp
  qed (use x u in simp)
  show ?thesis
    unfolding if_P [OF True]
    by (rule returns_mono [OF alarm_tick_due [OF assms]]) (use True ret in simp_all)
next
  case False
  then show ?thesis using alarm_tick_idle [of s p] by auto
qed

text \<open>The witness: process 1 of the demonstration machine has its trapframe at \<open>0x80200000\<close> and an alarm due at
  this tick.\<close>

definition kalarm0 :: kernel where
  "kalarm0 = upd_proc 1 (\<lambda>q. q\<lparr>p_trapframe := 0x80200000, sigalarm_nticks := 2, sigalarm_handler := 0x40, ticks_elapsed := 1\<rparr>) kernel0"

lemma kernel0_kmem: "kmem_inv kernel0 [0x80100000]"
  by (simp add: kmem_inv_def page_ok_def page_aligned_def PHYSTOP_def KERNBASE_def)

theorem alarm_roundtrip_witness:
  "returns (alarm_tick 1 kalarm0) (\<lambda>_ t. load64 (pmem t) (0x80200000 + TF_epc) = 0x40 \<and> trap_backup (procs t 1) = 0x80100000)"
  using alarm_roundtrip [where s = kalarm0 and x = "0x80100000" and xs = "[]" and p = 1 and tf = "0x80200000"] kernel0_kmem
  by (auto simp: kalarm0_def demo_table_def blank_proc_def page_aligned_def elim!: returns_mono)

text \<open>
  A \<open>sigreturn\<close> outside a handler stops the machine. When no alarm handler is running, \<open>trap_backup\<close> is null and the
  system call dereferences it: the kernel panics, whatever else the state is. Any user program can do this.
\<close>

theorem sigreturn_without_alarm_panics:
  assumes "cpu_ok s" and "cpu_proc (mycpu s) = Some p" and "lock_free ReadcountLock s"
    and "ucast (load64 (pmem s) (p_trapframe (procs s p) + TF_a7)) = (25 :: u32)" and "trap_backup (procs s p) = 0"
  shows "syscall s = Panic ''kerneltrap''"
  using assms by (simp add: syscall_def increment_read_count_def syscalls_def sys_sigreturn_def Let_def)

definition ktrap0 :: "u64 \<Rightarrow> kernel" where
  "ktrap0 num = kernel0\<lparr>pmem := store64 (0 + TF_a7) num (pmem kernel0)\<rparr>"

lemma ktrap0_ok [simp]:
  "cpu_ok (ktrap0 n)" "lock_free lk (ktrap0 n)" "noff (mycpu (ktrap0 n)) = 0" "cpu_proc (mycpu (ktrap0 n)) = Some 1"
  "procs (ktrap0 n) = demo_table" "load64 (pmem (ktrap0 n)) TF_a7 = n" "readcount (ktrap0 n) = 0"
  by (simp_all add: ktrap0_def)

theorem sigreturn_without_alarm_panics_witness: "syscall (ktrap0 25) = Panic ''kerneltrap''"
  by (rule sigreturn_without_alarm_panics [of _ 1]) (simp_all add: demo_table_def blank_proc_def)

text \<open>
  Dispatch and counting. With the number \<open>num\<close> in \<open>a7\<close>, \<open>syscall()\<close> runs exactly the handler of the table for
  \<open>1 \<le> num \<le> 25\<close> and stores its result in \<open>a0\<close>; the counter of \<open>getreadcount\<close> has by then gone up by one if \<open>num\<close> is that
  of \<open>read\<close> and is unchanged otherwise. \<open>getreadcount\<close> itself returns the counter and does not change it.
\<close>

theorem syscall_dispatch:
  fixes s :: "'z kernel_scheme"
  assumes "cpu_ok s" and "cpu_proc (mycpu s) = Some p" and "lock_free ReadcountLock s"
    and "num = sint (ucast (load64 (pmem s) (p_trapframe (procs s p) + TF_a7)) :: u32)" and "1 \<le> num" and "num \<le> 25"
  shows "(\<exists>h. syscalls (nat num) = Some h \<and>
       syscall s = andthen (h ((settle s)\<lparr>readcount := readcount s + (if num = 5 then 1 else 0)\<rparr>)) (\<lambda>v t. Ret () (set_a0 p v t))) \<and>
     (num = 23 \<longrightarrow> returns (syscall s) (\<lambda>_ t.
       load64 (pmem t) (p_trapframe (procs s p) + TF_a0) = of_int (sint (readcount s)) \<and> readcount t = readcount s))"
proof -
  have "nat num \<in> set [1..<26]" using assms(5,6) by auto
  then obtain h where h: "syscalls (nat num) = (Some h :: ('z kernel_scheme \<Rightarrow> (u64, 'z kernel_scheme) outcome) option)"
    by (auto simp: syscalls_def upt_conv_Cons)
  have e: "increment_read_count num (settle s) = Ret () ((settle s)\<lparr>readcount := readcount s + (if num = 5 then 1 else 0)\<rparr>)"
    using assms(1,3) by (simp add: increment_read_count_eq)
  have d: "syscall s = andthen (h ((settle s)\<lparr>readcount := readcount s + (if num = 5 then 1 else 0)\<rparr>)) (\<lambda>v t. Ret () (set_a0 p v t))"
    using assms(1,2,5) h e unfolding syscall_def by (simp add: Let_def assms(4) [symmetric])
  have "returns (syscall s) (\<lambda>_ t. load64 (pmem t) (p_trapframe (procs s p) + TF_a0) = of_int (sint (readcount s)) \<and> readcount t = readcount s)"
    if "num = 23"
  proof -
    from h that have "h = sys_getreadcount" by (simp add: syscalls_def)
    with d assms(1,3) that show ?thesis by (simp add: sys_getreadcount_def readcountfunc_eq set_a0_def)
  qed
  with d h show ?thesis by blast
qed

theorem syscall_dispatch_witness:
  "\<exists>h. syscalls 5 = Some h \<and>
     syscall (ktrap0 5) = andthen (h ((settle (ktrap0 5))\<lparr>readcount := 1\<rparr>)) (\<lambda>v t. Ret () (set_a0 1 v t))"
  using syscall_dispatch [of "ktrap0 5" 1 5] by (simp add: demo_table_def blank_proc_def)

interpretation ticks_upd: machine_upd "ticks_update f" for f by unfold_locales simp_all

text \<open>
  The clock interrupt. \<open>clockintr\<close> advances \<open>ticks\<close> by one (modulo \<open>2 ^ 32\<close>), charges the tick to the run time of
  every running process and, under MLFQ, to its time slice, and to the waiting time of every process that sleeps or waits;
  then it makes every process that sleeps on \<open>ticks\<close> runnable, and changes nothing else.
\<close>

theorem clockintr_correct:
  assumes "cpu_ok s" and "lock_free TicksLock s" and "table_unlocked s"
  shows "clockintr s = Ret () ((settle s)\<lparr>ticks := ticks s + 1, procs := (\<lambda>p.
     if p < NPROC then
       (let q = procs s p;
            m = (if policy s = MLFQ then
                   (if p_state q = RUNNING then num_ticks_update (\<lambda>t. t + 1)
                    else if p_state q = SLEEPING \<or> p_state q = RUNNABLE then wtime_update (\<lambda>t. t + 1) else (\<lambda>d. d))
                 else (\<lambda>d. d))
        in q\<lparr>p_rtime := (if p_state q = RUNNING then p_rtime q + 1 else p_rtime q), mlfq_data := m (mlfq_data q),
             p_state := (if p_state q = SLEEPING \<and> p_chan q = ChanTicks \<and> cpu_proc (mycpu s) \<noteq> Some p
                         then RUNNABLE else p_state q)\<rparr>)
     else procs s p)\<rparr>)"
proof -
  have T: "\<forall>p<NPROC. lock_free (ProcLock p) ((acq TicksLock s)\<lparr>ticks := ticks s + 1\<rparr>)" using assms by simp
  have eff: "wakeup_eff ChanTicks u p (time_eff v p q) =
      (let m = (if policy v = MLFQ then
                   (if p_state q = RUNNING then num_ticks_update (\<lambda>t. t + 1)
                    else if p_state q = SLEEPING \<or> p_state q = RUNNABLE then wtime_update (\<lambda>t. t + 1) else (\<lambda>d. d))
                 else (\<lambda>d. d))
        in q\<lparr>p_rtime := (if p_state q = RUNNING then p_rtime q + 1 else p_rtime q), mlfq_data := m (mlfq_data q),
             p_state := (if p_state q = SLEEPING \<and> p_chan q = ChanTicks \<and> cpu_proc (mycpu u) \<noteq> Some p
                         then RUNNABLE else p_state q)\<rparr>)" for u :: "'a kernel_scheme" and v :: "'a kernel_scheme" and p q
    by (auto simp: wakeup_eff_def time_eff_def Let_def)
  show ?thesis
    using assms T by (simp add: clockintr_def update_time_def time_pass.full_pass wakeup_eq eff Let_def cong: if_cong)
qed

lemma kernel0_policy [simp]: "policy kernel0 = MLFQ"
  by (simp add: kernel0_defs)

theorem clockintr_correct_witness:
  "returns (clockintr kernel0) (\<lambda>_ t. ticks t = 101 \<and> p_state (procs t 3) = RUNNABLE \<and> wtime (mlfq_data (procs t 1)) = 1)"
  using clockintr_correct [of kernel0] by (simp add: demo_table_def blank_proc_def queued_def)

text \<open>What the promotion pass of the timer interrupt does to one process.\<close>

definition boost_eff :: "'z kproc_scheme \<Rightarrow> nat \<Rightarrow> proc \<Rightarrow> proc" where
  "boost_eff s p q =
     (let d = mlfq_data q in
      if ticks s - intime d \<ge> AGING_TIME \<and> in_queue d \<and> p_state q = RUNNABLE
      then q\<lparr>mlfq_data := queued (max (curr_pri d - 1) 0) (ticks s)\<rparr> else q)"

lemma boost_upd: "(if needs_boost p s then boost p s else s) = upd_proc p (boost_eff s p) s"
  by (cases "needs_boost p s"; cases "p_state (procs s p)"; cases "in_queue (mlfq_data (procs s p))")
     (simp_all add: Let_def boost_eff_def needs_boost_def boost_def push_eq remove_eq upd_proc_def)

interpretation boost_pass: locked_table trap_boost_one boost_eff
proof unfold_locales
  fix s :: "'a kproc_scheme" and p
  assume "cpu_ok s" and "lock_free (ProcLock p) s"
  moreover have "trap_boost_one p s = andthen (acquire (ProcLock p) s) (\<lambda>_ t. release (ProcLock p) (upd_proc p (boost_eff t p) t))"
    unfolding trap_boost_one_def boost_upd [symmetric] by (simp add: if_distrib [of "release (ProcLock p)"] cong: if_cong)
  moreover have "boost_eff (acq lk s) = boost_eff s" for lk by (simp add: fun_eq_iff boost_eff_def Let_def)
  ultimately show "trap_boost_one p s = Ret () ((settle s)\<lparr>procs := (procs s)(p := boost_eff s p (procs s p))\<rparr>)"
    by (simp add: upd_proc_def)
qed (simp add: boost_eff_def fun_eq_iff Let_def)

text \<open>The process table after the promotion pass.\<close>

definition boosted :: "'z kproc_scheme \<Rightarrow> nat \<Rightarrow> proc" where
  "boosted s = (\<lambda>q. if q < NPROC then boost_eff s q (procs s q) else procs s q)"

lemma trap_demote_eq:
  assumes "cpu_ok s" and "cpu_proc (mycpu s) = Some p" and "noff (mycpu s) = 0" and "lock_free (ProcLock p) s"
    and "p_state (procs s p) = RUNNING" and "d = mlfq_data (procs s p)"
  shows "if num_ticks d \<ge> mlfq_slice (curr_pri d)
     then blocks (trap_demote p s) (\<lambda>t. procs t = (procs s)(p := (procs s p)\<lparr>p_state := RUNNABLE,
       mlfq_data := queued (min (curr_pri d + 1) 3) (ticks s)\<rparr>) \<and> holding (ProcLock p) t)
     else trap_demote p s = Ret () s"
  using assms by (simp add: trap_demote_def Let_def yield_blocks push_eq remove_eq fun_upd_def fun_eq_iff)

lemma higher_waiting_iff:
  "higher_waiting p s \<longleftrightarrow> (\<exists>q<NPROC. p_state (procs s q) = RUNNABLE \<and> in_queue (mlfq_data (procs s q)) \<and>
     0 \<le> curr_pri (mlfq_data (procs s q)) \<and> curr_pri (mlfq_data (procs s q)) < curr_pri (mlfq_data (procs s p)))"
proof -
  have "(\<exists>i\<in>set [0..<nat a]. b = int i) \<longleftrightarrow> 0 \<le> b \<and> b < a" for a b :: int
    by (auto intro!: bexI [of _ "nat b"])
  moreover have "higher_waiting p s \<longleftrightarrow> (\<exists>q<NPROC. p_state (procs s q) = RUNNABLE \<and> in_queue (mlfq_data (procs s q)) \<and>
      (\<exists>i\<in>set [0..<nat (curr_pri (mlfq_data (procs s p)))]. curr_pri (mlfq_data (procs s q)) = int i))"
    unfolding higher_waiting_def set_upt atLeast0LessThan by blast
  ultimately show ?thesis by simp
qed

text \<open>
  Property C5: the MLFQ time slice. On a timer tick, with no alarm set (\<open>sigalarm_nticks\<close> not positive) and process \<open>p\<close> running in queue \<open>pri\<close>:
  every process that has waited 30 ticks in its queue is promoted by one queue. If \<open>p\<close> has used up the slice of its queue
  (1, 3, 9 or 15 ticks) it is put at the end of the next lower queue and gives up the processor; otherwise, if a process is
  waiting in a higher queue, \<open>p\<close> gives up the processor and keeps its place; otherwise it goes on running.
\<close>

theorem mlfq_tick:
  fixes s :: "'z kproc_scheme"
  assumes "policy s = MLFQ" and "cpu_ok s" and "noff (mycpu s) = 0" and "table_unlocked s"
    and "p < NPROC" and "cpu_proc (mycpu s) = Some p" and "p_state (procs s p) = RUNNING"
    and "sint (sigalarm_nticks (procs s p)) \<le> 0" and "d = mlfq_data (procs s p)"
    and "s' = upd_proc p (ticks_elapsed_update (\<lambda>n. n + 1)) s"
  shows "if num_ticks d \<ge> mlfq_slice (curr_pri d)
     then blocks (user_timer p s) (\<lambda>t. procs t = (boosted s')(p := (procs s' p)\<lparr>p_state := RUNNABLE,
            mlfq_data := queued (min (curr_pri d + 1) 3) (ticks s)\<rparr>))
     else if \<exists>q<NPROC. p_state (procs s q) = RUNNABLE \<and> in_queue (mlfq_data (boosted s' q)) \<and>
            0 \<le> curr_pri (mlfq_data (boosted s' q)) \<and> curr_pri (mlfq_data (boosted s' q)) < curr_pri d
     then blocks (user_timer p s) (\<lambda>t. procs t = (boosted s')(p := (procs s' p)\<lparr>p_state := RUNNABLE\<rparr>))
     else returns (user_timer p s) (\<lambda>_ t. procs t = boosted s' \<and> procs t p = procs s' p)"
proof -
  let ?t = "(settle s')\<lparr>procs := boosted s'\<rparr>"
  have "cpu_ok s'" "table_unlocked s'" using assms(2,4,10) by simp_all
  then have b: "for_each trap_boost_one [0..<NPROC] s' = Ret () ?t"
    unfolding boosted_def by (rule boost_pass.full_pass)
  have p: "boosted s' p = procs s' p" "procs s' p = (procs s p)\<lparr>ticks_elapsed := ticks_elapsed (procs s p) + 1\<rparr>"
    using assms(5,7,10) by (simp_all add: boosted_def boost_eff_def)
  have run: "user_timer p s = andthen (trap_demote p ?t) (\<lambda>_ s. trap_preempt p s)"
    using assms(1,8,10) b alarm_tick_idle [of s p] by (simp add: user_timer_def)
  have st: "p_state (boosted s' q) = p_state (procs s q)" for q
    using assms(10) by (simp add: boosted_def boost_eff_def Let_def)
  have hw: "higher_waiting p ?t \<longleftrightarrow> (\<exists>q<NPROC. p_state (procs s q) = RUNNABLE \<and> in_queue (mlfq_data (boosted s' q)) \<and>
            0 \<le> curr_pri (mlfq_data (boosted s' q)) \<and> curr_pri (mlfq_data (boosted s' q)) < curr_pri d)"
    using p assms(9) st by (simp add: higher_waiting_iff)
  have ok: "cpu_ok ?t" "cpu_proc (mycpu ?t) = Some p" "noff (mycpu ?t) = 0" "lock_free (ProcLock p) ?t"
    using assms by simp_all
  have e: "p_state (procs ?t p) = RUNNING" "d = mlfq_data (procs ?t p)" "ticks s' = ticks s"
    using p assms(7,9,10) by simp_all
  have dem: "if num_ticks d \<ge> mlfq_slice (curr_pri d)
     then blocks (trap_demote p ?t) (\<lambda>t. procs t = (boosted s')(p := (procs s' p)\<lparr>p_state := RUNNABLE,
       mlfq_data := queued (min (curr_pri d + 1) 3) (ticks s)\<rparr>) \<and> holding (ProcLock p) t)
     else trap_demote p ?t = Ret () ?t"
    using trap_demote_eq [OF ok e(1,2)] by (simp add: p(1) e(3) cong: if_cong)
  show ?thesis
  proof (cases "num_ticks d \<ge> mlfq_slice (curr_pri d)")
    case True
    with dem show ?thesis unfolding run by (auto intro: blocks_andthen elim!: blocks_mono)
  next
    case False
    with dem hw p show ?thesis
      unfolding run by (auto simp: trap_preempt_def yield_blocks [OF ok])
  qed
qed

theorem mlfq_tick_witness:
  "blocks (user_timer 1 (upd_proc 1 (\<lambda>q. q\<lparr>p_state := RUNNING, mlfq_data := (mlfq_data q)\<lparr>num_ticks := 9\<rparr>\<rparr>) kernel0))
     (\<lambda>t. p_state (procs t 1) = RUNNABLE \<and> curr_pri (mlfq_data (procs t 1)) = 3)"
  using mlfq_tick [where p = 1 and s = "upd_proc 1 (\<lambda>q. q\<lparr>p_state := RUNNING, mlfq_data := (mlfq_data q)\<lparr>num_ticks := 9\<rparr>\<rparr>) kernel0",
    OF _ _ _ _ _ _ _ _ refl refl]
  by (simp add: demo_table_def blank_proc_def queued_def mlfq_slice_def) (auto elim!: blocks_mono)

end
