(* ===== verification/Ulib.thy ===== *)
theory Ulib
  imports Strings
begin

text \<open>
  \<open>user/ulib.c\<close>: the string and memory functions of the user library, on byte-addressed memory. Loops that only a NUL ends are
  partial functions: \<open>None\<close> is a loop that runs for ever.
\<close>

subsection \<open>The functions\<close>

partial_function (option) strcpy_loop :: "u64 \<Rightarrow> u64 \<Rightarrow> mem \<Rightarrow> mem option" where
  "strcpy_loop s t m =
     (let m' = m(s := m t) in if m t \<noteq> 0 then strcpy_loop (s + 1) (t + 1) m' else Some m')"

definition strcpy :: "u64 \<Rightarrow> u64 \<Rightarrow> mem \<Rightarrow> (u64 \<times> mem) option" where
  "strcpy s t m = map_option (\<lambda>m. (s, m)) (strcpy_loop s t m)"

partial_function (option) strcmp :: "u64 \<Rightarrow> u64 \<Rightarrow> mem \<Rightarrow> int option" where
  "strcmp p q m = (if m p \<noteq> 0 \<and> m p = m q then strcmp (p + 1) (q + 1) m else Some (uint (m p) - uint (m q)))"

partial_function (option) strlen_loop :: "mem \<Rightarrow> u64 \<Rightarrow> nat \<Rightarrow> nat option" where
  "strlen_loop m s n = (if m (s + of_nat n) = 0 then Some n else strlen_loop m s (Suc n))"

definition strlen_u :: "u64 \<Rightarrow> mem \<Rightarrow> u32 option" where
  "strlen_u s m = map_option of_nat (strlen_loop m s 0)"

text \<open>The loop of \<open>memset\<close> goes upwards; \<open>memset_up dst c i n\<close> is what is left of it when \<open>i\<close> bytes are set.\<close>

primrec memset_up :: "u64 \<Rightarrow> u32 \<Rightarrow> nat \<Rightarrow> mem \<Rightarrow> mem" where
  "memset_up dst c 0 m = m"
| "memset_up dst c (Suc n) m = memset_up (dst + 1) c n (m(dst := ucast c))"

definition memset_u :: "u64 \<Rightarrow> u32 \<Rightarrow> u32 \<Rightarrow> mem \<Rightarrow> mem" where
  "memset_u dst c n m = memset_up dst c (unat n) m"

partial_function (option) strchr :: "u64 \<Rightarrow> u8 \<Rightarrow> mem \<Rightarrow> u64 option" where
  "strchr s c m = (if m s = 0 then Some 0 else if m s = c then Some s else strchr (s + 1) c m)"

partial_function (option) atoi_loop :: "u64 \<Rightarrow> u32 \<Rightarrow> mem \<Rightarrow> u32 option" where
  "atoi_loop s n m = (if 48 \<le> m s \<and> m s \<le> 57 then atoi_loop (s + 1) (n * 10 + ucast (m s) - 48) m else Some n)"

definition atoi :: "u64 \<Rightarrow> mem \<Rightarrow> u32 option" where
  "atoi s m = atoi_loop s 0 m"

definition memmove_u :: "u64 \<Rightarrow> u64 \<Rightarrow> int \<Rightarrow> mem \<Rightarrow> mem" where
  "memmove_u vdst vsrc n m =
     (if vsrc > vdst then copy_up vdst vsrc (nat n) m
      else copy_down (vdst + of_int n) (vsrc + of_int n) (nat n) m)"

primrec memcmp_loop :: "u64 \<Rightarrow> u64 \<Rightarrow> nat \<Rightarrow> mem \<Rightarrow> int" where
  "memcmp_loop p1 p2 0 m = 0"
| "memcmp_loop p1 p2 (Suc n) m =
     (if m p1 \<noteq> m p2 then uint (m p1) - uint (m p2) else memcmp_loop (p1 + 1) (p2 + 1) n m)"

definition memcmp_u :: "u64 \<Rightarrow> u64 \<Rightarrow> u32 \<Rightarrow> mem \<Rightarrow> int" where
  "memcmp_u s1 s2 n m = memcmp_loop s1 s2 (unat n) m"

definition memcpy_u :: "u64 \<Rightarrow> u64 \<Rightarrow> u32 \<Rightarrow> mem \<Rightarrow> mem" where
  "memcpy_u dst src n m = memmove_u dst src (sint n) m"

subsection \<open>Strings in memory\<close>

text \<open>The string \<open>xs\<close> at address \<open>s\<close>, with the NUL that ends it.\<close>

definition str_at :: "mem \<Rightarrow> u64 \<Rightarrow> u8 list \<Rightarrow> bool" where
  "str_at m s xs \<longleftrightarrow> (\<forall>i<length xs. m (s + of_nat i) = xs ! i) \<and> m (s + of_nat (length xs)) = 0 \<and> 0 \<notin> set xs"

lemma str_at_Nil [simp]: "str_at m s [] \<longleftrightarrow> m s = 0"
  by (simp add: str_at_def)

lemma str_at_Cons: "str_at m s (x # xs) \<longleftrightarrow> m s = x \<and> x \<noteq> 0 \<and> str_at m (s + 1) xs"
proof -
  have "(\<forall>i<length (x # xs). m (s + of_nat i) = (x # xs) ! i) \<longleftrightarrow> m s = x \<and> (\<forall>i<length xs. m (s + 1 + of_nat i) = xs ! i)"
    by (auto simp: less_Suc_eq_0_disj add.assoc)
  then show ?thesis by (auto simp: str_at_def add.assoc)
qed

lemma strcmp_str_at:
  "str_at m p xs \<Longrightarrow> str_at m q ys \<Longrightarrow> \<exists>d. strcmp p q m = Some d \<and> (d = 0 \<longleftrightarrow> xs = ys) \<and> (d < 0 \<longleftrightarrow> (xs, ys) \<in> lexord {(a, b). a < b})"
proof (induction xs arbitrary: p q ys)
  case Nil
  then show ?case by (cases ys) (auto simp: strcmp.simps [of p q] str_at_Cons word_less_def uint_0_iff intro: le_neq_trans)
next
  case (Cons x xs)
  note p = Cons.prems(1) [unfolded str_at_Cons]
  show ?case
  proof (cases ys)
    case Nil
    then show ?thesis using p Cons.prems(2) by (subst strcmp.simps) (auto simp: uint_0_iff)
  next
    case ys: (Cons y ys')
    note q = Cons.prems(2) [unfolded ys str_at_Cons]
    show ?thesis
    proof (cases "x = y")
      case True
      then have "strcmp p q m = strcmp (p + 1) (q + 1) m" using p q by (subst strcmp.simps) simp
      then show ?thesis using Cons.IH [of "p + 1" "q + 1" ys'] p q True ys by auto
    next
      case False
      then have "strcmp p q m = Some (uint x - uint y)" using p q by (subst strcmp.simps) simp
      then show ?thesis using False ys by (auto simp: word_less_def word_uint_eq_iff)
    qed
  qed
qed

lemma strchr_str_at:
  "str_at m s xs \<Longrightarrow> c \<noteq> 0 \<Longrightarrow> strchr s c m = Some (if c \<in> set xs then s + of_nat (length (takeWhile (\<lambda>x. x \<noteq> c) xs)) else 0)"
proof (induction xs arbitrary: s)
  case Nil
  then show ?case by (subst strchr.simps) simp
next
  case (Cons x xs)
  note s = Cons.prems(1) [unfolded str_at_Cons]
  show ?case using Cons.IH [of "s + 1"] s Cons.prems(2) by (subst strchr.simps) (auto simp: add.assoc)
qed

lemma strlen_str_at: "str_at m s xs \<Longrightarrow> strlen_u s m = Some (of_nat (length xs))"
proof -
  assume c: "str_at m s xs"
  have "strlen_loop m s n = Some (length xs)" if "n \<le> length xs" for n
    using that
  proof (induction "length xs - n" arbitrary: n)
    case 0
    then have "n = length xs" by simp
    then show ?case using c by (subst strlen_loop.simps) (simp add: str_at_def)
  next
    case (Suc k)
    then have "n < length xs" by simp
    then have "m (s + of_nat n) \<noteq> 0" using c nth_mem [of n xs] by (metis str_at_def)
    moreover have "strlen_loop m s (Suc n) = Some (length xs)" using Suc by simp
    ultimately show ?case by (subst strlen_loop.simps) simp
  qed
  then show ?thesis by (simp add: strlen_u_def)
qed

text \<open>The value of a decimal numeral, most significant digit first.\<close>

definition decimal :: "u8 list \<Rightarrow> nat" where
  "decimal ds = foldl (\<lambda>n d. n * 10 + (unat d - 48)) 0 ds"

lemma atoi_loop_str_at:
  assumes "\<forall>d\<in>set ds. 48 \<le> d \<and> d \<le> 57" and "\<forall>i<length ds. m (s + of_nat i) = ds ! i"
    and "\<not> (48 \<le> m (s + of_nat (length ds)) \<and> m (s + of_nat (length ds)) \<le> 57)"
  shows "atoi_loop s (of_nat n) m = Some (of_nat (foldl (\<lambda>n d. n * 10 + (unat d - 48)) n ds))"
  using assms
proof (induction ds arbitrary: s n)
  case Nil
  then show ?case by (subst atoi_loop.simps) auto
next
  case (Cons d ds)
  have d: "48 \<le> d" "d \<le> 57" "m s = d" using Cons.prems(1,2) by auto
  have "unat d \<ge> 48" using d(1) by (simp add: word_le_nat_alt)
  then have e: "(of_nat (n * 10 + (unat d - 48)) :: u32) = of_nat n * 10 + ucast d - 48" by (simp add: of_nat_diff)
  have "atoi_loop s (of_nat n) m = atoi_loop (s + 1) (of_nat (n * 10 + (unat d - 48))) m"
    unfolding e by (subst atoi_loop.simps) (simp only: d simp_thms if_True)
  also have "\<dots> = Some (of_nat (foldl (\<lambda>n d. n * 10 + (unat d - 48)) (n * 10 + (unat d - 48)) ds))"
  proof (rule Cons.IH)
    show "\<forall>i<length ds. m (s + 1 + of_nat i) = ds ! i" using Cons.prems(2) by (auto simp: add.assoc)
    show "\<not> (48 \<le> m (s + 1 + of_nat (length ds)) \<and> m (s + 1 + of_nat (length ds)) \<le> 57)" using Cons.prems(3) by (simp add: add.assoc)
  qed (use Cons.prems(1) in simp)
  finally show ?case by simp
qed

text \<open>\<open>atoi\<close> of a string that starts with the digits \<open>ds\<close>, followed by something that is not a digit, returns their decimal
  value modulo \<open>2 ^ 32\<close>, and 0 when there is no digit.\<close>

lemma atoi_correct:
  assumes "\<forall>d\<in>set ds. 48 \<le> d \<and> d \<le> 57" and "\<forall>i<length ds. m (s + of_nat i) = ds ! i"
    and "\<not> (48 \<le> m (s + of_nat (length ds)) \<and> m (s + of_nat (length ds)) \<le> 57)"
  shows "atoi s m = Some (of_nat (decimal ds))"
  using atoi_loop_str_at [OF assms, of 0] by (simp add: atoi_def decimal_def)

lemma memmove_u_apply:
  assumes "unat dst + n \<le> 2 ^ 64" and "unat src + n \<le> 2 ^ 64"
  shows "memmove_u dst src (int n) m x = (if unat (x - dst) < n then m (src + (x - dst)) else m x)"
  using copy_up_apply [of dst n src m x] copy_down_apply [of dst n src m x] assms
  by (auto simp: memmove_u_def word_less_nat_alt)

text \<open>The two implementations of \<open>memmove\<close> in the repository, the one of \<open>user/ulib.c\<close> that always copies downwards when
  the source is not above the destination and the one of \<open>kernel/string.c\<close> that does so only when the regions overlap, compute the same
  memory whenever the regions do not wrap around the address space.\<close>

theorem memmove_u_equiv_kernel:
  assumes "unat dst + n \<le> 2 ^ 64" and "unat src + n < 2 ^ 64"
  shows "memmove_u dst src (int n) m = memmove dst src n m"
  using memmove_u_apply [of dst n src m] memmove_apply [OF assms, of m] assms by (intro ext) simp

theorem memmove_u_equiv_kernel_witness: "memmove_u 1002 1000 4 (\<lambda>x. ucast x) = memmove 1002 1000 4 (\<lambda>x. ucast x)"
  using memmove_u_equiv_kernel [of 1002 4 1000 "\<lambda>x. ucast x"] by simp

end
