(* ===== verification/User.thy ===== *)
theory User
  imports Ulib Fs "HOL-Library.AList"
begin

text \<open>
  User programs. A program is a tree of system calls; \<open>user/printf.c\<close> and the functions of \<open>user/ulib.c\<close> that make system calls are
  programs. \<open>runs\<close> is a program running to its end with the files and descriptors of \<open>uworld\<close>.
\<close>

subsection \<open>Programs\<close>

text \<open>The system calls of \<open>user/user.h\<close> that the programs make, with the strings and buffers their pointers lead to, and what a call
  brings back: its result, and what it stored through its pointer arguments.\<close>

datatype sysc =
    SysFork | SysWait | SysPipe | SysRead int nat | SysWrite int string | SysClose int | SysKill "32 word" | SysExec string "string list"
  | SysOpen string nat | SysMknod string int int | SysUnlink string | SysFstat int | SysLink string string | SysMkdir string
  | SysChdir string | SysDup int | SysSleep int | SysGetreadcount
  | SysWaitx | SysSbrk int | SysGetpid

record reply =
  r_ret :: int
  r_data :: string
  r_stat :: stat
  r_pipe :: "int \<times> int"
  r_status :: int
  r_times :: "int \<times> int"

text \<open>A program is done with a value, has called \<open>exit\<close>, goes back to the head of a loop, or makes a system call and goes on with
  what the kernel answers. It may run for ever, so the type is coinductive.\<close>

codatatype 'a prog = Done 'a | Exit int | Tau "'a prog" | Sys sysc "reply \<Rightarrow> 'a prog"

primcorec andthen_p :: "'a prog \<Rightarrow> ('a \<Rightarrow> 'b prog) \<Rightarrow> 'b prog" where
  "andthen_p m f =
     (case m of Done a \<Rightarrow> f a | Exit n \<Rightarrow> Exit n | Tau p \<Rightarrow> Tau (andthen_p p f) | Sys c k \<Rightarrow> Sys c (\<lambda>r. andthen_p (k r) f))"

lemma andthen_p_simps [simp, code]:
  "andthen_p (Done a) f = f a" "andthen_p (Exit n) f = Exit n" "andthen_p (Tau p) f = Tau (andthen_p p f)"
  "andthen_p (Sys c k) f = Sys c (\<lambda>r. andthen_p (k r) f)"
  by (simp_all add: andthen_p.code)

primcorec iterate_p :: "('x \<Rightarrow> ('x + 'a) prog) \<Rightarrow> ('x + 'a) prog \<Rightarrow> 'a prog" where
  "iterate_p b m =
     (case m of
        Done r \<Rightarrow> (case r of Inl x \<Rightarrow> Tau (iterate_p b (b x)) | Inr a \<Rightarrow> Done a)
      | Exit n \<Rightarrow> Exit n
      | Tau p \<Rightarrow> Tau (iterate_p b p)
      | Sys c k \<Rightarrow> Sys c (\<lambda>r. iterate_p b (k r)))"

text \<open>\<open>loop_p b x\<close> runs the body from the local state \<open>x\<close> until it leaves with \<open>Inr\<close>.\<close>

definition loop_p :: "('x \<Rightarrow> ('x + 'a) prog) \<Rightarrow> 'x \<Rightarrow> 'a prog" where
  "loop_p b x = iterate_p b (b x)"

lemma loop_p_unfold: "loop_p b x = andthen_p (b x) (\<lambda>r. case r of Inl y \<Rightarrow> Tau (loop_p b y) | Inr a \<Rightarrow> Done a)"
proof -
  have "iterate_p b m = andthen_p m (\<lambda>r. case r of Inl y \<Rightarrow> Tau (loop_p b y) | Inr a \<Rightarrow> Done a)" for m
  proof (coinduction arbitrary: m rule: prog.coinduct_strong)
    case Eq_prog
    then show ?case by (cases m) (auto simp: rel_fun_def iterate_p.code loop_p_def split: sum.splits)
  qed
  then show ?thesis by (simp add: loop_p_def)
qed

abbreviation (input) write_p :: "int \<Rightarrow> string \<Rightarrow> (int \<Rightarrow> 'a prog) \<Rightarrow> 'a prog" where
  "write_p fd str k \<equiv> Sys (SysWrite fd str) (\<lambda>r. k (r_ret r))"

primrec for_p :: "('i \<Rightarrow> unit prog) \<Rightarrow> 'i list \<Rightarrow> unit prog" where
  "for_p f [] = Done ()"
| "for_p f (x # xs) = andthen_p (f x) (\<lambda>_. for_p f xs)"

subsection \<open>The library: printf.c\<close>

definition digits_u :: string where
  "digits_u = ''0123456789ABCDEF''"

definition putc :: "int \<Rightarrow> char \<Rightarrow> unit prog" where
  "putc fd c = write_p fd [c] (\<lambda>_. Done ())"

text \<open>The \<open>do\<close>-\<open>while\<close> loop of \<open>printint\<close>, least significant digit first; \<open>base\<close> is 10 or 16.\<close>

function printint_digits :: "u32 \<Rightarrow> bool \<Rightarrow> string" where
  "printint_digits x hex =
     (let base = (if hex then 16 else 10); d = digits_u ! unat (x mod base); x = x div base
      in if x \<noteq> 0 then d # printint_digits x hex else [d])"
  by pat_completeness auto
termination
proof (relation "measure (\<lambda>(x, hex). unat x)")
  fix hex :: bool and x base x' :: u32 and d
  assume "base = (if hex then 16 else 10)" and "x' = x div base" and "x' \<noteq> 0"
  then show "((x', hex), x, hex) \<in> measure (\<lambda>(x, hex). unat x)"
    by (auto simp: unat_div_distrib word_unat_eq_iff split: if_splits intro!: div_less_dividend gr0I)
qed simp

declare printint_digits.simps [simp del]

definition printint_u :: "int \<Rightarrow> u32 \<Rightarrow> bool \<Rightarrow> bool \<Rightarrow> unit prog" where
  "printint_u fd xx hex sign =
     (let neg = (sign \<and> xx <s 0); x = (if neg then - xx else xx); buf = printint_digits x hex @ (if neg then ''-'' else '''')
      in for_p (putc fd) (rev buf))"

definition printptr_u :: "int \<Rightarrow> u64 \<Rightarrow> unit prog" where
  "printptr_u fd x =
     for_p (putc fd) (''0x'' @ map (\<lambda>i. digits_u ! unat (drop_bit 60 (push_bit (4 * i) x))) [0..<16])"

text \<open>An argument of \<open>printf\<close> is a 64-bit register or a string; \<open>va_arg(ap, int)\<close> is its low half. \<open>vprintf_loop\<close> is the loop from the
  state it is in, with the rest of the format and of the arguments.\<close>

datatype uarg = UReg u64 | UStr "string option"

fun reg :: "uarg list \<Rightarrow> u64" where
  "reg (UReg x # _) = x"
| "reg _ = 0"

fun str_arg :: "uarg list \<Rightarrow> string option" where
  "str_arg (UStr x # _) = x"
| "str_arg _ = None"

fun vprintf_loop :: "int \<Rightarrow> bool \<Rightarrow> string \<Rightarrow> uarg list \<Rightarrow> unit prog" where
  "vprintf_loop fd state [] ap = Done ()"
| "vprintf_loop fd False (c # fmt) ap =
     (if c = CHR ''%'' then vprintf_loop fd True fmt ap
      else andthen_p (putc fd c) (\<lambda>_. vprintf_loop fd False fmt ap))"
| "vprintf_loop fd True (c # fmt) ap =
     (if c = CHR ''d'' then andthen_p (printint_u fd (ucast (reg ap)) False True) (\<lambda>_. vprintf_loop fd False fmt (tl ap))
      else if c = CHR ''l'' then andthen_p (printint_u fd (ucast (reg ap)) False False) (\<lambda>_. vprintf_loop fd False fmt (tl ap))
      else if c = CHR ''x'' then andthen_p (printint_u fd (ucast (reg ap)) True False) (\<lambda>_. vprintf_loop fd False fmt (tl ap))
      else if c = CHR ''p'' then andthen_p (printptr_u fd (reg ap)) (\<lambda>_. vprintf_loop fd False fmt (tl ap))
      else if c = CHR ''s'' then
        andthen_p (for_p (putc fd) (case str_arg ap of None \<Rightarrow> ''(null)'' | Some s \<Rightarrow> s)) (\<lambda>_. vprintf_loop fd False fmt (tl ap))
      else if c = CHR ''c'' then andthen_p (putc fd (char_of (unat (ucast (reg ap) :: u8)))) (\<lambda>_. vprintf_loop fd False fmt (tl ap))
      else if c = CHR ''%'' then andthen_p (putc fd c) (\<lambda>_. vprintf_loop fd False fmt ap)
      else andthen_p (putc fd (CHR ''%'')) (\<lambda>_. andthen_p (putc fd c) (\<lambda>_. vprintf_loop fd False fmt ap)))"

definition vprintf :: "int \<Rightarrow> string \<Rightarrow> uarg list \<Rightarrow> unit prog" where
  "vprintf fd fmt ap = vprintf_loop fd False fmt ap"

definition fprintf :: "int \<Rightarrow> string \<Rightarrow> uarg list \<Rightarrow> unit prog" where
  "fprintf fd fmt ap = vprintf fd fmt ap"

definition printf_u :: "string \<Rightarrow> uarg list \<Rightarrow> unit prog" where
  "printf_u fmt ap = vprintf 1 fmt ap"

subsection \<open>The library: gets and stat of ulib.c\<close>

text \<open>\<open>gets\<close> returns the bytes it stored before the NUL.\<close>

definition gets_body :: "nat \<Rightarrow> string \<Rightarrow> (string + string) prog" where
  "gets_body nbuf buf =
     (if length buf + 1 < nbuf then
        Sys (SysRead 0 1) (\<lambda>r.
          if r_ret r < 1 then Done (Inr buf)
          else
            (let c = hd (r_data r); buf = buf @ [c]
             in if c = CHR 0x0A \<or> c = CHR 0x0D then Done (Inr buf) else Done (Inl buf)))
      else Done (Inr buf))"

definition gets :: "nat \<Rightarrow> string prog" where
  "gets nbuf = loop_p (gets_body nbuf) []"

definition stat_u :: "string \<Rightarrow> (int \<times> stat option) prog" where
  "stat_u n =
     Sys (SysOpen n 0) (\<lambda>r. let fd = r_ret r in
       if fd < 0 then Done (-1, None)
       else Sys (SysFstat fd) (\<lambda>r. Sys (SysClose fd) (\<lambda>_. Done (r_ret r, if r_ret r < 0 then None else Some (r_stat r)))))"

text \<open>\<open>_main\<close>: a program that returns from \<open>main\<close> exits with 0.\<close>

definition main_u :: "'a prog \<Rightarrow> 'a prog" where
  "main_u prg = andthen_p prg (\<lambda>_. Exit 0)"

subsection \<open>Running a program\<close>

text \<open>The files and descriptors of a filter program, as the system calls promise them: a \<open>read\<close> brings between one byte and the number
  asked for, as long as there is anything left to read (how many is up to the kernel: \<open>uw_chunks\<close>); a \<open>write\<close> takes all its bytes; \<open>open\<close>
  gives the smallest free descriptor of an existing file and \<open>-1\<close> otherwise.\<close>

record uworld =
  uw_files :: "(string \<times> string) list"
  uw_in :: "(int \<times> string) list"
  uw_out :: "int \<Rightarrow> string"
  uw_chunks :: "nat list"

definition ans :: "int \<Rightarrow> reply" where
  "ans n = \<lparr>r_ret = n, r_data = [], r_stat = \<lparr>st_dev = 0, st_ino = 0, st_type = 0, st_nlink = 0, st_size = 0\<rparr>, r_pipe = (0, 0), r_status = 0, r_times = (0, 0)\<rparr>"

lemma ans_simps [simp]: "r_ret (ans n) = n" "r_data (ans n) = []"
  by (simp_all add: ans_def)

definition chunk_size :: "uworld \<Rightarrow> nat \<Rightarrow> nat" where
  "chunk_size w n = (case uw_chunks w of [] \<Rightarrow> n | k # _ \<Rightarrow> min n (Suc k))"

definition free_fd :: "uworld \<Rightarrow> int" where
  "free_fd w = (case find (\<lambda>fd. fd \<notin> fst ` set (uw_in w)) [0..15] of Some fd \<Rightarrow> fd | None \<Rightarrow> -1)"

fun usys :: "sysc \<Rightarrow> uworld \<Rightarrow> reply \<times> uworld" where
  "usys (SysRead fd n) w =
     (case map_of (uw_in w) fd of
        None \<Rightarrow> (ans (-1), w)
      | Some str \<Rightarrow>
          (let got = take (chunk_size w n) str
           in ((ans (int (length got)))\<lparr>r_data := got\<rparr>,
               w\<lparr>uw_in := AList.update fd (drop (chunk_size w n) str) (uw_in w), uw_chunks := tl (uw_chunks w)\<rparr>)))"
| "usys (SysWrite fd str) w = (ans (int (length str)), w\<lparr>uw_out := (uw_out w)(fd := uw_out w fd @ str)\<rparr>)"
| "usys (SysOpen n mode) w =
     (case map_of (uw_files w) n of
        None \<Rightarrow> (ans (-1), w)
      | Some str \<Rightarrow> if free_fd w < 0 then (ans (-1), w) else (ans (free_fd w), w\<lparr>uw_in := AList.update (free_fd w) str (uw_in w)\<rparr>))"
| "usys (SysClose fd) w = (ans 0, w\<lparr>uw_in := AList.delete fd (uw_in w)\<rparr>)"
| "usys _ w = (ans (-1), w)"

datatype 'a ending = Returned 'a | Exited int

text \<open>A program runs to its end against a kernel that answers calls with \<open>sys\<close>.\<close>

inductive runs_by :: "(sysc \<Rightarrow> 'w \<Rightarrow> reply \<times> 'w) \<Rightarrow> 'a prog \<Rightarrow> 'w \<Rightarrow> 'a ending \<Rightarrow> 'w \<Rightarrow> bool" for sys where
  runs_Done: "runs_by sys (Done a) w (Returned a) w"
| runs_Exit: "runs_by sys (Exit n) w (Exited n) w"
| runs_Tau: "runs_by sys p w e w' \<Longrightarrow> runs_by sys (Tau p) w e w'"
| runs_Sys: "sys c w = (r, v) \<Longrightarrow> runs_by sys (k r) v e w' \<Longrightarrow> runs_by sys (Sys c k) w e w'"

abbreviation runs :: "'a prog \<Rightarrow> uworld \<Rightarrow> 'a ending \<Rightarrow> uworld \<Rightarrow> bool" where
  "runs \<equiv> runs_by usys"

inductive_simps runs_simps [simp]: "runs_by sys (Done a) w e w'" "runs_by sys (Exit n) w e w'" "runs_by sys (Tau p) w e w'"

lemma runs_Sys_iff [simp]: "runs_by sys (Sys c k) w e w' \<longleftrightarrow> runs_by sys (k (fst (sys c w))) (snd (sys c w)) e w'"
  by (auto elim: runs_by.cases intro: runs_Sys simp: prod_eq_iff)

lemma runs_andthen: "runs_by sys m w (Returned a) v \<Longrightarrow> runs_by sys (f a) v e w' \<Longrightarrow> runs_by sys (andthen_p m f) w e w'"
proof (induction m w "Returned a" v rule: runs_by.induct)
  case (runs_Sys c w r v k w'')
  then show ?case by simp
qed simp_all

lemma runs_andthen_Exit: "runs_by sys m w (Exited n) v \<Longrightarrow> runs_by sys (andthen_p m f) w (Exited n) v"
  by (induction m w "Exited n :: 'b ending" v rule: runs_by.induct) auto

lemma runs_loop:
  "runs_by sys (b x) w (Returned (Inl y)) v \<Longrightarrow> runs_by sys (loop_p b y) v e w' \<Longrightarrow> runs_by sys (loop_p b x) w e w'"
  "runs_by sys (b x) w (Returned (Inr a)) v \<Longrightarrow> runs_by sys (loop_p b x) w (Returned a) v"
  by (subst loop_p_unfold, erule runs_andthen, simp)+

subsection \<open>Writing\<close>

text \<open>A kernel with files that take all they are given: \<open>outp\<close> is what a write leaves. \<open>printf\<close> and \<open>fprintf\<close> write their format, filled in.\<close>

definition show_int :: "u32 \<Rightarrow> bool \<Rightarrow> bool \<Rightarrow> string" where
  "show_int xx hex sign =
     (let neg = (sign \<and> xx <s 0); x = (if neg then - xx else xx) in (if neg then ''-'' else '''') @ rev (printint_digits x hex))"

fun format_u :: "bool \<Rightarrow> string \<Rightarrow> uarg list \<Rightarrow> string" where
  "format_u state [] ap = []"
| "format_u False (c # fmt) ap = (if c = CHR ''%'' then format_u True fmt ap else c # format_u False fmt ap)"
| "format_u True (c # fmt) ap =
     (if c = CHR ''d'' then show_int (ucast (reg ap)) False True @ format_u False fmt (tl ap)
      else if c = CHR ''l'' then show_int (ucast (reg ap)) False False @ format_u False fmt (tl ap)
      else if c = CHR ''x'' then show_int (ucast (reg ap)) True False @ format_u False fmt (tl ap)
      else if c = CHR ''p'' then
        ''0x'' @ map (\<lambda>i. digits_u ! unat (drop_bit 60 (push_bit (4 * i) (reg ap)))) [0..<16] @ format_u False fmt (tl ap)
      else if c = CHR ''s'' then (case str_arg ap of None \<Rightarrow> ''(null)'' | Some s \<Rightarrow> s) @ format_u False fmt (tl ap)
      else if c = CHR ''c'' then char_of (unat (ucast (reg ap) :: u8)) # format_u False fmt (tl ap)
      else if c = CHR ''%'' then c # format_u False fmt ap
      else CHR ''%'' # c # format_u False fmt ap)"

locale writing =
  fixes sys :: "sysc \<Rightarrow> 'w \<Rightarrow> reply \<times> 'w" and outp :: "int \<Rightarrow> string \<Rightarrow> 'w \<Rightarrow> 'w"
  assumes sys_write: "sys (SysWrite fd str) w = (ans (int (length str)), outp fd str w)"
    and outp_nil: "outp fd [] w = w"
    and outp_append: "outp fd ys (outp fd xs w) = outp fd (xs @ ys) w"
begin

lemma runs_puts: "runs_by sys (for_p (putc fd) str) w (Returned ()) (outp fd str w)"
proof (induction str arbitrary: w)
  case (Cons c str)
  show ?case using Cons.IH [of "outp fd [c] w"] by (simp add: putc_def sys_write outp_append)
qed (simp add: outp_nil)

lemma runs_puts_then:
  assumes "\<And>w. runs_by sys p w e (outp fd ys w)" and "zs = xs @ ys"
  shows "runs_by sys (andthen_p (for_p (putc fd) xs) (\<lambda>_. p)) w e (outp fd zs w)"
  using runs_andthen [OF runs_puts [of fd xs w], of "\<lambda>_. p"] assms(1) [of "outp fd xs w"] assms(2) by (simp add: outp_append)

lemma runs_if:
  "(P \<Longrightarrow> runs_by sys a w e (outp fd x w)) \<Longrightarrow> (\<not> P \<Longrightarrow> runs_by sys b w e (outp fd y w)) \<Longrightarrow>
     runs_by sys (if P then a else b) w e (outp fd (if P then x else y) w)"
  by simp

lemma putc_for: "putc fd c = for_p (putc fd) [c]"
  by (simp add: putc_def)

lemma runs_vprintf: "runs_by sys (vprintf_loop fd st fmt ap) w (Returned ()) (outp fd (format_u st fmt ap) w)"
proof (induction fd st fmt ap arbitrary: w rule: vprintf_loop.induct)
  case (2 fd c fmt ap)
  show ?case using 2 by (auto simp: putc_for [of fd c] simp del: for_p.simps intro!: runs_puts_then)
next
  case (3 fd c fmt ap)
  have pi: "printint_u fd x hex sgn = for_p (putc fd) (show_int x hex sgn)" for x hex sgn
    by (simp add: printint_u_def show_int_def Let_def)
  have pp: "runs_by sys (andthen_p (putc fd (CHR ''%'')) (\<lambda>_. andthen_p (putc fd c) (\<lambda>_. p))) w (Returned ()) (outp fd (CHR ''%'' # c # ys) w)"
    if "\<And>w. runs_by sys p w (Returned ()) (outp fd ys w)" for p ys w
    unfolding putc_for [of fd c] putc_for [of fd "CHR ''%''"] by (rule runs_puts_then, rule runs_puts_then, rule that) simp_all
  have pc: "runs_by sys (andthen_p (putc fd d) (\<lambda>_. p)) w (Returned ()) (outp fd (d # ys) w)" if "\<And>w. runs_by sys p w (Returned ()) (outp fd ys w)" for d p ys w
    unfolding putc_for [of fd d] by (rule runs_puts_then, rule that) simp
  show ?case unfolding vprintf_loop.simps format_u.simps pi printptr_u_def
    by (intro runs_if; (rule pp | rule pc | rule runs_puts_then); (rule 3; assumption)?; simp?)
qed (simp add: outp_nil)

lemma runs_printf:
  "runs_by sys (printf_u fmt ap) w (Returned ()) (outp 1 (format_u False fmt ap) w)" "runs_by sys (fprintf fd fmt ap) w (Returned ()) (outp fd (format_u False fmt ap) w)"
  by (simp_all add: printf_u_def fprintf_def vprintf_def runs_vprintf)

end

text \<open>Writing adds to the output of a descriptor.\<close>

definition outs :: "int \<Rightarrow> string \<Rightarrow> uworld \<Rightarrow> uworld" where
  "outs fd str w = w\<lparr>uw_out := (uw_out w)(fd := uw_out w fd @ str)\<rparr>"

lemma outs_simps [simp]:
  "outs fd [] w = w" "outs fd ys (outs fd xs w) = outs fd (xs @ ys) w" "uw_in (outs fd xs w) = uw_in w" "uw_files (outs fd xs w) = uw_files w"
  "uw_chunks (outs fd xs w) = uw_chunks w" "uw_out (outs fd xs w) fd = uw_out w fd @ xs"
  by (simp_all add: outs_def)

lemma usys_write [simp]: "usys (SysWrite fd str) w = (ans (int (length str)), outs fd str w)"
  by (simp add: outs_def)

declare usys.simps(2) [simp del]

interpretation uw: writing usys outs
  by unfold_locales simp_all

lemmas runs_puts = uw.runs_puts
lemmas runs_printf [intro!] = uw.runs_printf

subsection \<open>Reading in chunks\<close>

lemma usys_read:
  assumes "map_of (uw_in w) fd = Some s" and "0 < n"
  obtains k v where "usys (SysRead fd n) w = ((ans (int (length (take k s))))\<lparr>r_data := take k s\<rparr>, v)" and "0 < k" and "k \<le> n"
    and "map_of (uw_in v) fd = Some (drop k s)" and "uw_out v = uw_out w" and "uw_files v = uw_files w"
proof -
  have "0 < chunk_size w n" "chunk_size w n \<le> n" using assms(2) by (auto simp: chunk_size_def split: list.splits)
  moreover let ?v = "w\<lparr>uw_in := AList.update fd (drop (chunk_size w n) s) (uw_in w), uw_chunks := tl (uw_chunks w)\<rparr>"
  have "usys (SysRead fd n) w = ((ans (int (length (take (chunk_size w n) s))))\<lparr>r_data := take (chunk_size w n) s\<rparr>, ?v)"
    by (simp add: assms(1) Let_def)
  ultimately show ?thesis by (intro that [of "chunk_size w n" ?v]) (simp_all add: update_conv')
qed

declare usys.simps(1) [simp del]

lemma take_min_length [simp]: "take (min (length s) k) s = take k s"
  by (simp add: min_def)

end
