(* ===== verification/Uprogs.thy ===== *)
theory Uprogs
  imports User
begin

text \<open>
  The utilities \<open>user/cat.c\<close>, \<open>wc.c\<close>, \<open>echo.c\<close>, \<open>kill.c\<close>, \<open>ln.c\<close>, \<open>mkdir.c\<close>, \<open>rm.c\<close>, \<open>zombie.c\<close>, \<open>getreadcount.c\<close>, \<open>ls.c\<close> and \<open>init.c\<close>.
\<close>

abbreviation (input) nl :: string where "nl \<equiv> [CHR 0x0A]"

definition num :: "int \<Rightarrow> uarg" where
  "num n = UReg (of_int n)"

abbreviation (input) sarg :: "string \<Rightarrow> uarg" where "sarg s \<equiv> UStr (Some s)"

subsection \<open>cat\<close>

definition cat_body :: "int \<Rightarrow> unit \<Rightarrow> (unit + int) prog" where
  "cat_body fd _ =
     Sys (SysRead fd 512) (\<lambda>r. let n = r_ret r in
       if n > 0 then
         Sys (SysWrite 1 (take (nat n) (r_data r))) (\<lambda>r.
           if r_ret r \<noteq> n then andthen_p (fprintf 2 (''cat: write error'' @ nl) []) (\<lambda>_. Exit 1)
           else Done (Inl ()))
       else Done (Inr n))"

definition cat :: "int \<Rightarrow> unit prog" where
  "cat fd =
     andthen_p (loop_p (cat_body fd) ()) (\<lambda>n.
       if n < 0 then andthen_p (fprintf 2 (''cat: read error'' @ nl) []) (\<lambda>_. Exit 1) else Done ())"

text \<open>The loop over the file arguments, which \<open>cat\<close>, \<open>wc\<close> and \<open>grep\<close> share: each opens a file, runs on it and closes it.\<close>

definition cat_main :: "string list \<Rightarrow> unit prog" where
  "cat_main argv =
     (if length argv \<le> 1 then andthen_p (cat 0) (\<lambda>_. Exit 0)
      else
        andthen_p (for_p (\<lambda>a. Sys (SysOpen a 0) (\<lambda>r. let fd = r_ret r in
            if fd < 0 then andthen_p (fprintf 2 (''cat: cannot open %s'' @ nl) [sarg a]) (\<lambda>_. Exit 1)
            else andthen_p (cat fd) (\<lambda>_. Sys (SysClose fd) (\<lambda>_. Done ())))) (tl argv))
          (\<lambda>_. Exit 0))"

subsection \<open>wc\<close>

record wc_counts =
  wl :: u32
  ww :: u32
  wch :: u32
  inword :: bool

definition wc_space :: "char \<Rightarrow> bool" where
  "wc_space c \<longleftrightarrow> c \<in> set ('' '' @ [CHR 0x0D, CHR 0x09, CHR 0x0A, CHR 0x0B])"

definition wc_char :: "char \<Rightarrow> wc_counts \<Rightarrow> wc_counts" where
  "wc_char c w =
     (let w = w\<lparr>wch := wch w + 1\<rparr>;
          w = (if c = CHR 0x0A then w\<lparr>wl := wl w + 1\<rparr> else w)
      in if wc_space c then w\<lparr>inword := False\<rparr>
         else if \<not> inword w then w\<lparr>ww := ww w + 1, inword := True\<rparr>
         else w)"

definition wc_body :: "int \<Rightarrow> wc_counts \<Rightarrow> (wc_counts + (int \<times> wc_counts)) prog" where
  "wc_body fd w =
     Sys (SysRead fd 512) (\<lambda>r. let n = r_ret r in
       if n > 0 then Done (Inl (fold wc_char (take (nat n) (r_data r)) w)) else Done (Inr (n, w)))"

definition wc :: "int \<Rightarrow> string \<Rightarrow> unit prog" where
  "wc fd name =
     andthen_p (loop_p (wc_body fd) \<lparr>wl = 0, ww = 0, wch = 0, inword = False\<rparr>) (\<lambda>(n, w).
       if n < 0 then andthen_p (printf_u (''wc: read error'' @ nl) []) (\<lambda>_. Exit 1)
       else printf_u (''%d %d %d %s'' @ nl) [UReg (ucast (wl w)), UReg (ucast (ww w)), UReg (ucast (wch w)), sarg name])"

definition wc_main :: "string list \<Rightarrow> unit prog" where
  "wc_main argv =
     (if length argv \<le> 1 then andthen_p (wc 0 '''') (\<lambda>_. Exit 0)
      else
        andthen_p (for_p (\<lambda>a. Sys (SysOpen a 0) (\<lambda>r. let fd = r_ret r in
            if fd < 0 then andthen_p (printf_u (''wc: cannot open %s'' @ nl) [sarg a]) (\<lambda>_. Exit 1)
            else andthen_p (wc fd a) (\<lambda>_. Sys (SysClose fd) (\<lambda>_. Done ())))) (tl argv))
          (\<lambda>_. Exit 0))"

text \<open>\<open>atoi\<close> of a string that is an argument.\<close>

definition atoi_str :: "string \<Rightarrow> u32" where
  "atoi_str s = of_nat (decimal (takeWhile (\<lambda>d. 48 \<le> d \<and> d \<le> 57) (map of_char s)))"

lemma atoi_str_at: "str_at m p (map of_char s) \<Longrightarrow> atoi p m = Some (atoi_str s)"
proof -
  let ?P = "\<lambda>d :: u8. 48 \<le> d \<and> d \<le> 57"
  assume s: "str_at m p (map of_char s)"
  let ?xs = "map of_char s :: u8 list" and ?ds = "takeWhile ?P (map of_char s :: u8 list)"
  have a: "m (p + of_nat i) = ?ds ! i" if "i < length ?ds" for i
    using s that length_takeWhile_le [of ?P ?xs] by (simp add: str_at_def takeWhile_nth)
  have b: "\<not> ?P (m (p + of_nat (length ?ds)))"
  proof (cases "length ?ds < length ?xs")
    case True
    then show ?thesis using s nth_length_takeWhile [OF True] by (simp add: str_at_def)
  next
    case False
    then have "length ?ds = length ?xs" using length_takeWhile_le [of ?P ?xs] by linarith
    then show ?thesis using s by (simp add: str_at_def)
  qed
  have c: "\<forall>d\<in>set ?ds. ?P d" by (auto dest: set_takeWhileD)
  show ?thesis unfolding atoi_str_def by (rule atoi_correct [where m = m and s = p, OF c _ b]) (use a in blast)
qed

subsection \<open>echo, kill, ln, mkdir, rm, zombie, getreadcount\<close>

text \<open>\<open>argv\<close> has \<open>argc\<close> strings, the name of the program first.\<close>

definition echo_main :: "string list \<Rightarrow> unit prog" where
  "echo_main argv =
     andthen_p (for_p (\<lambda>i.
         Sys (SysWrite 1 (argv ! i)) (\<lambda>_.
         Sys (SysWrite 1 (if i + 1 < length argv then '' '' else nl)) (\<lambda>_. Done ()))) [1..<length argv])
       (\<lambda>_. Exit 0)"

definition kill_main :: "string list \<Rightarrow> unit prog" where
  "kill_main argv =
     (if length argv < 2 then andthen_p (fprintf 2 (''usage: kill pid...'' @ nl) []) (\<lambda>_. Exit 1)
      else andthen_p (for_p (\<lambda>a. Sys (SysKill (atoi_str a)) (\<lambda>_. Done ())) (tl argv)) (\<lambda>_. Exit 0))"

definition ln_main :: "string list \<Rightarrow> unit prog" where
  "ln_main argv =
     (if length argv \<noteq> 3 then andthen_p (fprintf 2 (''Usage: ln old new'' @ nl) []) (\<lambda>_. Exit 1)
      else
        Sys (SysLink (argv ! 1) (argv ! 2)) (\<lambda>r.
          andthen_p (if r_ret r < 0 then fprintf 2 (''link %s %s: failed'' @ nl) [sarg (argv ! 1), sarg (argv ! 2)] else Done ())
            (\<lambda>_. Exit 0)))"

text \<open>The loops of \<open>mkdir\<close> and \<open>rm\<close> stop at the first failure, and the program still exits with 0.\<close>

primrec mkdir_loop :: "string list \<Rightarrow> unit prog" where
  "mkdir_loop [] = Done ()"
| "mkdir_loop (a # as) =
     Sys (SysMkdir a) (\<lambda>r. if r_ret r < 0 then fprintf 2 (''mkdir: %s failed to create'' @ nl) [sarg a] else mkdir_loop as)"

definition mkdir_main :: "string list \<Rightarrow> unit prog" where
  "mkdir_main argv =
     (if length argv < 2 then andthen_p (fprintf 2 (''Usage: mkdir files...'' @ nl) []) (\<lambda>_. Exit 1)
      else andthen_p (mkdir_loop (tl argv)) (\<lambda>_. Exit 0))"

primrec rm_loop :: "string list \<Rightarrow> unit prog" where
  "rm_loop [] = Done ()"
| "rm_loop (a # as) =
     Sys (SysUnlink a) (\<lambda>r. if r_ret r < 0 then fprintf 2 (''rm: %s failed to delete'' @ nl) [sarg a] else rm_loop as)"

definition rm_main :: "string list \<Rightarrow> unit prog" where
  "rm_main argv =
     (if length argv < 2 then andthen_p (fprintf 2 (''Usage: rm files...'' @ nl) []) (\<lambda>_. Exit 1)
      else andthen_p (rm_loop (tl argv)) (\<lambda>_. Exit 0))"

definition zombie_main :: "unit prog" where
  "zombie_main = Sys SysFork (\<lambda>r. if r_ret r > 0 then Sys (SysSleep 5) (\<lambda>_. Exit 0) else Exit 0)"

definition getreadcount_main :: "unit prog" where
  "getreadcount_main = Sys SysGetreadcount (\<lambda>r. andthen_p (printf_u (''%d'' @ nl) [num (r_ret r)]) (\<lambda>_. Exit 0))"

subsection \<open>ls\<close>

abbreviation (input) DIRSIZ_u :: nat where "DIRSIZ_u \<equiv> 14"

text \<open>The name after the last slash, padded with blanks to \<open>DIRSIZ\<close>.\<close>

definition fmtname :: "string \<Rightarrow> string" where
  "fmtname path =
     (let p = rev (takeWhile (\<lambda>c. c \<noteq> CHR ''/'') (rev path))
      in if length p \<ge> DIRSIZ_u then p else p @ replicate (DIRSIZ_u - length p) (CHR '' ''))"

text \<open>One directory entry: two bytes of inode number, 14 of name.\<close>

definition de_inum :: "string \<Rightarrow> nat" where
  "de_inum de = of_char (de ! 0) + 256 * of_char (de ! 1)"

definition de_name :: "string \<Rightarrow> string" where
  "de_name de = takeWhile (\<lambda>c. c \<noteq> CHR 0x00) (take DIRSIZ_u (drop 2 de))"

definition ls_line :: "string \<Rightarrow> string \<Rightarrow> stat \<Rightarrow> unit prog" where
  "ls_line fmt path st =
     printf_u fmt [sarg (fmtname path), UReg (scast (st_type st)), UReg (ucast (st_ino st)), UReg (st_size st)]"

definition ls_body :: "int \<Rightarrow> string \<Rightarrow> unit \<Rightarrow> (unit + unit) prog" where
  "ls_body fd path _ =
     Sys (SysRead fd 16) (\<lambda>r.
       if r_ret r \<noteq> 16 then Done (Inr ())
       else if de_inum (r_data r) = 0 then Done (Inl ())
       else
         (let buf = path @ ''/'' @ de_name (r_data r) in
          andthen_p (stat_u buf) (\<lambda>(n, st).
            case st of
              None \<Rightarrow> andthen_p (printf_u (''ls: cannot stat %s'' @ nl) [sarg buf]) (\<lambda>_. Done (Inl ()))
            | Some st \<Rightarrow> andthen_p (ls_line (''%s %d %d %d'' @ nl) buf st) (\<lambda>_. Done (Inl ())))))"

definition ls :: "string \<Rightarrow> unit prog" where
  "ls path =
     Sys (SysOpen path 0) (\<lambda>r. let fd = r_ret r in
       if fd < 0 then fprintf 2 (''ls: cannot open %s'' @ nl) [sarg path]
       else
         Sys (SysFstat fd) (\<lambda>r.
           if r_ret r < 0 then
             andthen_p (fprintf 2 (''ls: cannot stat %s'' @ nl) [sarg path]) (\<lambda>_. Sys (SysClose fd) (\<lambda>_. Done ()))
           else
             (let st = r_stat r in
              andthen_p
                (if st_type st = T_DEVICE \<or> st_type st = T_FILE then ls_line (''%s %d %d %l'' @ nl) path st
                 else if st_type st = T_DIR then
                   (if length path + 1 + DIRSIZ_u + 1 > 512 then printf_u (''ls: path too long'' @ nl) []
                    else loop_p (ls_body fd path) ())
                 else Done ())
                (\<lambda>_. Sys (SysClose fd) (\<lambda>_. Done ())))))"

definition ls_main :: "string list \<Rightarrow> unit prog" where
  "ls_main argv =
     (if length argv < 2 then andthen_p (ls ''.'') (\<lambda>_. Exit 0)
      else andthen_p (for_p ls (tl argv)) (\<lambda>_. Exit 0))"

subsection \<open>init\<close>

definition init_wait :: "int \<Rightarrow> unit \<Rightarrow> (unit + unit) prog" where
  "init_wait pid _ =
     Sys SysWait (\<lambda>r. let wpid = r_ret r in
       if wpid = pid then Done (Inr ())
       else if wpid < 0 then andthen_p (printf_u (''init: wait returned an error'' @ nl) []) (\<lambda>_. Exit 1)
       else Done (Inl ()))"

definition init_body :: "unit \<Rightarrow> (unit + unit) prog" where
  "init_body _ =
     andthen_p (printf_u (''init: starting sh'' @ nl) []) (\<lambda>_.
     Sys SysFork (\<lambda>r. let pid = r_ret r in
       if pid < 0 then andthen_p (printf_u (''init: fork failed'' @ nl) []) (\<lambda>_. Exit 1)
       else if pid = 0 then
         Sys (SysExec ''sh'' [''sh'']) (\<lambda>_. andthen_p (printf_u (''init: exec sh failed'' @ nl) []) (\<lambda>_. Exit 1))
       else andthen_p (loop_p (init_wait pid) ()) (\<lambda>_. Done (Inl ()))))"

definition init_main :: "unit prog" where
  "init_main =
     Sys (SysOpen ''console'' 2) (\<lambda>r.
     andthen_p (if r_ret r < 0 then Sys (SysMknod ''console'' 1 0) (\<lambda>_. Sys (SysOpen ''console'' 2) (\<lambda>_. Done ())) else Done ()) (\<lambda>_.
     Sys (SysDup 0) (\<lambda>_. Sys (SysDup 0) (\<lambda>_. loop_p init_body ()))))"

subsection \<open>What the filters compute\<close>

lemma cat_loop:
  "map_of (uw_in w) fd = Some s \<Longrightarrow>
     \<exists>v. runs (loop_p (cat_body fd) ()) w (Returned 0) v \<and> uw_out v = (uw_out w)(1 := uw_out w 1 @ s) \<and> map_of (uw_in v) fd = Some []"
proof (induction "length s" arbitrary: s w rule: less_induct)
  case less
  obtain k v where r: "usys (SysRead fd 512) w = ((ans (int (length (take k s))))\<lparr>r_data := take k s\<rparr>, v)" "0 < k"
    "map_of (uw_in v) fd = Some (drop k s)" "uw_out v = uw_out w"
    using usys_read [OF less.prems, of 512] by (metis zero_less_numeral)
  show ?case
  proof (cases "s = []")
    case True
    then have "runs (cat_body fd ()) w (Returned (Inr 0)) v" using r by (simp add: cat_body_def)
    from runs_loop(2) [of usys "cat_body fd" "()", OF this] show ?thesis using r True by auto
  next
    case False
    let ?v = "outs 1 (take k s) v"
    have "runs (cat_body fd ()) w (Returned (Inl ())) ?v" using r False by (simp add: cat_body_def Let_def)
    moreover have "length (drop k s) < length s" using False r(2) by simp
    from less.hyps [OF this, of ?v] obtain u where "runs (loop_p (cat_body fd) ()) ?v (Returned 0) u"
      "uw_out u = (uw_out ?v)(1 := uw_out ?v 1 @ drop k s)" "map_of (uw_in u) fd = Some []" using r(3) by auto
    ultimately show ?thesis using r(4) runs_loop(1) [of usys "cat_body fd" "()"] by (intro exI [of _ u]) (auto simp: outs_def)
  qed
qed

lemma cat_correct:
  assumes "map_of (uw_in w) fd = Some s"
  shows "\<exists>v. runs (cat fd) w (Returned ()) v \<and> uw_out v = (uw_out w)(1 := uw_out w 1 @ s)"
proof -
  obtain v where "runs (loop_p (cat_body fd) ()) w (Returned 0) v" "uw_out v = (uw_out w)(1 := uw_out w 1 @ s)"
    using cat_loop [OF assms] by blast
  then show ?thesis unfolding cat_def by (intro exI [of _ v] conjI runs_andthen [where a = 0]) simp_all
qed

text \<open>The number of words: of places where a word starts.\<close>

definition word_starts :: "string \<Rightarrow> nat" where
  "word_starts s = length (filter (\<lambda>i. \<not> wc_space (s ! i) \<and> (i = 0 \<or> wc_space (s ! (i - 1)))) [0..<length s])"

definition counts_of :: "string \<Rightarrow> wc_counts" where
  "counts_of s = \<lparr>wl = of_nat (length (filter (\<lambda>c. c = CHR 0x0A) s)), ww = of_nat (word_starts s), wch = of_nat (length s),
     inword = (s \<noteq> [] \<and> \<not> wc_space (last s))\<rparr>"

lemma word_starts_snoc:
  "word_starts (s @ [c]) = word_starts s + (if \<not> wc_space c \<and> (s = [] \<or> wc_space (last s)) then 1 else 0)"
proof -
  have "filter (\<lambda>i. \<not> wc_space ((s @ [c]) ! i) \<and> (i = 0 \<or> wc_space ((s @ [c]) ! (i - 1)))) [0..<length s] =
    filter (\<lambda>i. \<not> wc_space (s ! i) \<and> (i = 0 \<or> wc_space (s ! (i - 1)))) [0..<length s]"
    by (rule filter_cong) (auto simp: nth_append)
  moreover have "(s @ [c]) ! (length s - 1) = last s" if "s \<noteq> []" using that by (simp add: nth_append last_conv_nth)
  ultimately show ?thesis unfolding word_starts_def by (auto simp: nth_append)
qed

lemma newline_space: "wc_space (CHR 0x0A)"
  by (simp add: wc_space_def)

lemma fold_wc_char: "fold wc_char s (counts_of []) = counts_of s"
proof (induction s rule: rev_induct)
  case (snoc c s)
  then show ?case
    by (auto simp: counts_of_def wc_char_def word_starts_snoc newline_space Let_def)
qed simp

lemma wc_loop:
  "map_of (uw_in w) fd = Some s \<Longrightarrow>
     \<exists>v. runs (loop_p (wc_body fd) x) w (Returned (0, fold wc_char s x)) v \<and> uw_out v = uw_out w"
proof (induction "length s" arbitrary: s w x rule: less_induct)
  case less
  obtain k v where r: "usys (SysRead fd 512) w = ((ans (int (length (take k s))))\<lparr>r_data := take k s\<rparr>, v)" "0 < k"
    "map_of (uw_in v) fd = Some (drop k s)" "uw_out v = uw_out w"
    using usys_read [OF less.prems, of 512] by (metis zero_less_numeral)
  show ?case
  proof (cases "s = []")
    case True
    then have "runs (wc_body fd x) w (Returned (Inr (0, x))) v" using r by (simp add: wc_body_def)
    from runs_loop(2) [of usys "wc_body fd" x, OF this] show ?thesis using r True by auto
  next
    case False
    let ?x = "fold wc_char (take k s) x"
    have a: "runs (wc_body fd x) w (Returned (Inl ?x)) v" using r False by (simp add: wc_body_def Let_def)
    have "length (drop k s) < length s" using False r(2) by simp
    from less.hyps [OF this r(3)] obtain u where b: "runs (loop_p (wc_body fd) ?x) v (Returned (0, fold wc_char (drop k s) ?x)) u" "uw_out u = uw_out v"
      by blast
    have "fold wc_char (drop k s) ?x = fold wc_char s x" by (metis append_take_drop_id fold_append comp_apply)
    then show ?thesis using r(4) runs_loop(1) [of usys "wc_body fd" x, OF a b(1)] b(2) by auto
  qed
qed

text \<open>\<open>wc\<close> terminates on every input, however the kernel cuts it into pieces, and prints the number of newlines, of words
  (maximal runs of characters that are not white space) and of bytes, each modulo \<open>2 ^ 32\<close>.\<close>

theorem wc_correct:
  assumes "map_of (uw_in w) fd = Some s"
  shows "\<exists>v. runs (wc fd name) w (Returned ()) v \<and> uw_out v = (uw_out w)(1 := uw_out w 1 @
     format_u False (''%d %d %d %s'' @ nl) [UReg (ucast (of_nat (length (filter (\<lambda>c. c = CHR 0x0A) s)) :: u32)),
       UReg (ucast (of_nat (word_starts s) :: u32)), UReg (ucast (of_nat (length s) :: u32)), UStr (Some name)])"
proof -
  have e: "\<lparr>wl = 0, ww = 0, wch = 0, inword = False\<rparr> = counts_of []" by (simp add: counts_of_def word_starts_def)
  obtain v where v: "runs (loop_p (wc_body fd) (counts_of [])) w (Returned (0, counts_of s)) v" "uw_out v = uw_out w"
    using wc_loop [OF assms, of "counts_of []"] unfolding fold_wc_char by blast
  have "runs (wc fd name) w (Returned ()) (outs 1 (format_u False (''%d %d %d %s'' @ nl) [UReg (ucast (wl (counts_of s))), UReg (ucast (ww (counts_of s))),
      UReg (ucast (wch (counts_of s))), UStr (Some name)]) v)"
    unfolding wc_def e by (rule runs_andthen [OF v(1)]) (simp add: runs_printf del: append_Cons)
  then show ?thesis using v(2) by (auto simp: counts_of_def outs_def)
qed

theorem wc_correct_witness:
  "\<exists>v. runs (wc 0 ''x'') \<lparr>uw_files = [], uw_in = [(0, ''a bc'' @ nl)], uw_out = (\<lambda>_. ''''), uw_chunks = [0, 1]\<rparr> (Returned ()) v \<and>
     uw_out v 1 = ''1 2 5 x'' @ nl"
proof -
  have "show_int 1 False True = ''1''" "show_int 2 False True = ''2''" "show_int 5 False True = ''5''" "word_starts (''a bc'' @ nl) = 2"
    by code_simp+
  then show ?thesis
    using wc_correct [of "\<lparr>uw_files = [], uw_in = [(0, ''a bc'' @ nl)], uw_out = (\<lambda>_. ''''), uw_chunks = [0, 1]\<rparr>" 0 "''a bc'' @ nl" "''x''"]
    by auto
qed

end
