(* ===== verification/Grep.thy ===== *)
theory Grep
  imports Uprogs
begin

text \<open>
  \<open>user/grep.c\<close>: the regular expression matcher and the loop that cuts the input into lines.
\<close>

subsection \<open>The matcher\<close>

text \<open>A pointer into a string is the rest of the string from there on, without its NUL.\<close>

function (sequential) matchhere :: "string \<Rightarrow> string \<Rightarrow> bool" and matchstar :: "char \<Rightarrow> string \<Rightarrow> string \<Rightarrow> bool" where
  "matchhere [] line = True"
| "matchhere (c # re) line =
     (if re \<noteq> [] \<and> hd re = CHR ''*'' then matchstar c (tl re) line
      else if c = CHR ''$'' \<and> re = [] then line = []
      else if line \<noteq> [] \<and> (c = CHR ''.'' \<or> c = hd line) then matchhere re (tl line)
      else False)"
| "matchstar c re line =
     (if matchhere re line then True
      else if line \<noteq> [] \<and> (hd line = c \<or> c = CHR ''.'') then matchstar c re (tl line)
      else False)"
  by pat_completeness auto
termination
  by (relation "measure (\<lambda>x. case x of Inl (re, line) \<Rightarrow> 2 * (length re + length line) | Inr (c, re, line) \<Rightarrow> 2 * (length re + length line) + 1)")
    (auto simp: neq_Nil_conv)

declare matchstar.simps [simp del]

fun match_loop :: "string \<Rightarrow> string \<Rightarrow> bool" where
  "match_loop re [] = matchhere re []"
| "match_loop re (c # line) = (if matchhere re (c # line) then True else match_loop re line)"

definition match :: "string \<Rightarrow> string \<Rightarrow> bool" where
  "match re line = (if re \<noteq> [] \<and> hd re = CHR ''^'' then matchhere (tl re) line else match_loop re line)"

subsection \<open>What a pattern means\<close>

text \<open>A pattern is a list of items: a character, any character, either of them repeated, and the end of the line.\<close>

datatype atom = Lit char | Any
datatype item = One atom | Many atom | End

definition atom_of :: "char \<Rightarrow> atom" where
  "atom_of c = (if c = CHR ''.'' then Any else Lit c)"

fun items :: "string \<Rightarrow> item list" where
  "items [] = []"
| "items [c] = (if c = CHR ''$'' then [End] else [One (atom_of c)])"
| "items (c # d # re) = (if d = CHR ''*'' then Many (atom_of c) # items re else One (atom_of c) # items (d # re))"

fun chars :: "atom \<Rightarrow> char set" where
  "chars (Lit c) = {c}"
| "chars Any = UNIV"

text \<open>\<open>denotes is u v\<close>: the items describe \<open>u\<close>, when the line goes on with \<open>v\<close>.\<close>

fun denotes :: "item list \<Rightarrow> string \<Rightarrow> string \<Rightarrow> bool" where
  "denotes [] u v \<longleftrightarrow> u = []"
| "denotes (One a # is) u v \<longleftrightarrow> (\<exists>c w. u = c # w \<and> c \<in> chars a \<and> denotes is w v)"
| "denotes (Many a # is) u v \<longleftrightarrow> (\<exists>x w. u = x @ w \<and> set x \<subseteq> chars a \<and> denotes is w v)"
| "denotes (End # is) u v \<longleftrightarrow> u = [] \<and> v = [] \<and> denotes is u v"

definition matches_at :: "string \<Rightarrow> string \<Rightarrow> bool" where
  "matches_at re line \<longleftrightarrow> (\<exists>u v. line = u @ v \<and> denotes (items re) u v)"

lemma chars_atom_of: "d \<in> chars (atom_of c) \<longleftrightarrow> c = CHR ''.'' \<or> d = c"
  by (auto simp: atom_of_def)

lemma matches_at_Nil: "matches_at [] line"
  by (auto simp: matches_at_def)

lemma matches_at_One:
  "items re = One a # items re' \<Longrightarrow> matches_at re line \<longleftrightarrow> line \<noteq> [] \<and> hd line \<in> chars a \<and> matches_at re' (tl line)"
  by (cases line) (auto simp: matches_at_def Cons_eq_append_conv)

lemma matches_at_End: "items re = [End] \<Longrightarrow> matches_at re line \<longleftrightarrow> line = []"
  by (auto simp: matches_at_def)

definition star_at :: "char \<Rightarrow> string \<Rightarrow> string \<Rightarrow> bool" where
  "star_at c re line \<longleftrightarrow> (\<exists>x rest. line = x @ rest \<and> set x \<subseteq> chars (atom_of c) \<and> matches_at re rest)"

lemma matches_at_Many: "items re = Many (atom_of c) # items re' \<Longrightarrow> matches_at re line \<longleftrightarrow> star_at c re' line"
  by (auto simp: matches_at_def star_at_def) (metis append.assoc)+

lemma star_at_step:
  "star_at c re line \<longleftrightarrow> matches_at re line \<or> (line \<noteq> [] \<and> (hd line = c \<or> c = CHR ''.'') \<and> star_at c re (tl line))"
proof
  assume "star_at c re line"
  then obtain x rest where x: "line = x @ rest" "set x \<subseteq> chars (atom_of c)" "matches_at re rest" by (auto simp: star_at_def)
  then show "matches_at re line \<or> (line \<noteq> [] \<and> (hd line = c \<or> c = CHR ''.'') \<and> star_at c re (tl line))"
    by (cases x) (auto simp: star_at_def chars_atom_of)
next
  assume "matches_at re line \<or> (line \<noteq> [] \<and> (hd line = c \<or> c = CHR ''.'') \<and> star_at c re (tl line))"
  then consider "matches_at re line" | "line \<noteq> []" "hd line = c \<or> c = CHR ''.''" "star_at c re (tl line)" by blast
  then show "star_at c re line"
  proof cases
    case 1
    then show ?thesis unfolding star_at_def by (intro exI [of _ "[]"] exI [of _ line]) auto
  next
    case t: 2
    then obtain x rest where x: "tl line = x @ rest" "set x \<subseteq> chars (atom_of c)" "matches_at re rest" by (auto simp: star_at_def)
    have "line = (hd line # x) @ rest" using t(1) x(1) by (cases line) auto
    moreover have "set (hd line # x) \<subseteq> chars (atom_of c)" using t(2) x(2) by (auto simp: chars_atom_of)
    ultimately show ?thesis using x(3) unfolding star_at_def by blast
  qed
qed

lemma matchhere_matchstar: "matchhere re line \<longleftrightarrow> matches_at re line" "matchstar c re line \<longleftrightarrow> star_at c re line"
proof (induction re line and c re line rule: matchhere_matchstar.induct)
  case (1 line)
  then show ?case by (simp add: matches_at_Nil)
next
  case (2 c re line)
  show ?case
  proof (cases re)
    case Nil
    then show ?thesis using 2 by (cases "c = CHR ''$''") (simp_all add: matches_at_End matches_at_One [where re' = "[]"] chars_atom_of, blast?)
  next
    case re: (Cons d re')
    show ?thesis
    proof (cases "d = CHR ''*''")
      case True
      then have "matches_at (c # re) line \<longleftrightarrow> star_at c re' line" using re by (intro matches_at_Many) simp
      then show ?thesis using 2(1) re True by simp
    next
      case False
      then have "matches_at (c # re) line \<longleftrightarrow> line \<noteq> [] \<and> hd line \<in> chars (atom_of c) \<and> matches_at re (tl line)"
        using re by (intro matches_at_One) simp
      then show ?thesis using 2(2) re False by (auto simp: chars_atom_of)
    qed
  qed
next
  case (3 c re line)
  have IH: "matchhere re line = matches_at re line"
    "\<not> matchhere re line \<Longrightarrow> line \<noteq> [] \<and> (hd line = c \<or> c = CHR ''.'') \<Longrightarrow> matchstar c re (tl line) = star_at c re (tl line)"
    using 3 by blast+
  have "matchstar c re line \<longleftrightarrow> matchhere re line \<or> ((line \<noteq> [] \<and> (hd line = c \<or> c = CHR ''.'')) \<and> matchstar c re (tl line))"
    by (subst matchstar.simps) presburger
  moreover note star_at_step [of c re line] IH
  ultimately show ?case by blast
qed

lemma match_loop_iff: "match_loop re line \<longleftrightarrow> (\<exists>u v. line = u @ v \<and> matchhere re v)"
proof (induction line)
  case Nil
  then show ?case by simp
next
  case (Cons c line)
  show ?case unfolding match_loop.simps Cons.IH by (auto simp: Cons_eq_append_conv)
qed

text \<open>Property C36: the matcher of \<open>grep\<close> decides what patterns mean. A pattern \<open>^re\<close> matches the lines some prefix of which \<open>re\<close> describes;
  any other pattern matches the lines that have a part it describes, where \<open>.\<close> describes every character, \<open>c*\<close> every sequence of \<open>c\<close>s,
  \<open>$\<close> at the end of the pattern the end of the line, and any other character itself. The recursion of \<open>matchhere\<close> and \<open>matchstar\<close> is
  equivalent to this definition, and terminates on all patterns and lines.\<close>

theorem match_equiv:
  "match re line \<longleftrightarrow>
     (if re \<noteq> [] \<and> hd re = CHR ''^'' then (\<exists>u v. line = u @ v \<and> denotes (items (tl re)) u v)
      else (\<exists>before u v. line = before @ u @ v \<and> denotes (items re) u v))"
  by (auto simp: match_def match_loop_iff matchhere_matchstar matches_at_def)

subsection \<open>grep\<close>

text \<open>\<open>strchr(p, '\<close>newline\<open>')\<close>: the place of the first newline, if it comes before the NUL.\<close>

definition find_nl :: "string \<Rightarrow> nat option" where
  "find_nl p =
     (let q = length (takeWhile (\<lambda>c. c \<noteq> CHR 0x0A \<and> c \<noteq> CHR 0x00) p)
      in if q < length p \<and> p ! q = CHR 0x0A then Some q else None)"

text \<open>The inner loop, over the complete lines in the buffer from \<open>p\<close> on; it leaves the part after the last newline.\<close>

function grep_lines :: "string \<Rightarrow> string \<Rightarrow> string prog" where
  "grep_lines pattern p =
     (case find_nl p of
        None \<Rightarrow> Done p
      | Some q \<Rightarrow>
          andthen_p (if match pattern (take q p) then Sys (SysWrite 1 (take (q + 1) p)) (\<lambda>_. Done ()) else Done ())
            (\<lambda>_. grep_lines pattern (drop (q + 1) p)))"
  by pat_completeness auto
termination
  by (relation "measure (\<lambda>(pattern, p). length p)") (auto simp: find_nl_def Let_def split: if_splits)

declare grep_lines.simps [simp del]

definition grep_body :: "string \<Rightarrow> int \<Rightarrow> string \<Rightarrow> (string + unit) prog" where
  "grep_body pattern fd buf =
     Sys (SysRead fd (1024 - length buf - 1)) (\<lambda>r. let n = r_ret r in
       if n > 0 then andthen_p (grep_lines pattern (buf @ take (nat n) (r_data r))) (\<lambda>rest. Done (Inl rest))
       else Done (Inr ()))"

definition grep :: "string \<Rightarrow> int \<Rightarrow> unit prog" where
  "grep pattern fd = loop_p (grep_body pattern fd) []"

definition grep_main :: "string list \<Rightarrow> unit prog" where
  "grep_main argv =
     (if length argv \<le> 1 then andthen_p (fprintf 2 (''usage: grep pattern [file ...]'' @ nl) []) (\<lambda>_. Exit 1)
      else if length argv \<le> 2 then andthen_p (grep (argv ! 1) 0) (\<lambda>_. Exit 0)
      else
        andthen_p (for_p (\<lambda>a. Sys (SysOpen a 0) (\<lambda>r. let fd = r_ret r in
            if fd < 0 then andthen_p (printf_u (''grep: cannot open %s'' @ nl) [UStr (Some a)]) (\<lambda>_. Exit 1)
            else andthen_p (grep (argv ! 1) fd) (\<lambda>_. Sys (SysClose fd) (\<lambda>_. Done ())))) (drop 2 argv))
          (\<lambda>_. Exit 0))"

text \<open>The complete lines of a text, and what follows the last newline.\<close>

fun lines_of :: "string \<Rightarrow> string list \<times> string" where
  "lines_of [] = ([], [])"
| "lines_of (c # s) =
     (case lines_of s of (lns, r) \<Rightarrow>
        if c = CHR 0x0A then ([] # lns, r) else (case lns of [] \<Rightarrow> ([], c # r) | l # lns' \<Rightarrow> ((c # l) # lns', r)))"

lemma lines_of_line: "CHR 0x0A \<notin> set x \<Longrightarrow> lines_of (x @ CHR 0x0A # y) = (x # fst (lines_of y), snd (lines_of y))"
  by (induction x) (auto split: prod.splits)

lemma lines_of_part: "CHR 0x0A \<notin> set x \<Longrightarrow> lines_of x = ([], x)"
  by (induction x) (auto split: prod.splits)

lemma lines_of_tail: "CHR 0x0A \<notin> set (snd (lines_of s))"
  by (induction s) (auto split: prod.splits list.splits)

lemma lines_of_subset: "set (snd (lines_of s)) \<subseteq> set s"
  by (induction s) (auto split: prod.splits list.splits if_splits)

lemma lines_of_append:
  "lines_of (a @ b) = (fst (lines_of a) @ fst (lines_of (snd (lines_of a) @ b)), snd (lines_of (snd (lines_of a) @ b)))"
  by (induction a) (auto split: prod.splits list.splits)

lemma lines_of_prefix:
  assumes "CHR 0x0A \<notin> set r" and "\<forall>l\<in>set (fst (lines_of (r @ b))). length l < n" and "length (snd (lines_of (r @ b))) < n"
  shows "length r < n"
proof (cases "CHR 0x0A \<in> set b")
  case True
  then obtain x y where b: "b = x @ CHR 0x0A # y" "CHR 0x0A \<notin> set x" using split_list_first by metis
  then have "lines_of (r @ b) = ((r @ x) # fst (lines_of y), snd (lines_of y))" using lines_of_line [of "r @ x" y] assms(1) by simp
  then show ?thesis using assms(2) by auto
next
  case False
  then show ?thesis using lines_of_part [of "r @ b"] assms by auto
qed

definition matching :: "string \<Rightarrow> string list \<Rightarrow> string" where
  "matching pattern lns = concat (map (\<lambda>l. l @ [CHR 0x0A]) (filter (match pattern) lns))"

lemma matching_simps [simp]:
  "matching pattern [] = []" "matching pattern (lns @ lns') = matching pattern lns @ matching pattern lns'"
  "matching pattern (l # lns) = (if match pattern l then l @ [CHR 0x0A] else []) @ matching pattern lns"
  by (simp_all add: matching_def)

lemma find_nl_cases:
  assumes "CHR 0x00 \<notin> set p"
  obtains "find_nl p = None" and "CHR 0x0A \<notin> set p"
  | x y where "find_nl p = Some (length x)" and "p = x @ CHR 0x0A # y" and "CHR 0x0A \<notin> set x"
proof (cases "CHR 0x0A \<in> set p")
  case True
  then obtain x y where p: "p = x @ CHR 0x0A # y" "CHR 0x0A \<notin> set x" using split_list_first by metis
  have "\<And>c. c \<in> set x \<Longrightarrow> c \<noteq> CHR 0x0A \<and> c \<noteq> CHR 0x00" using p assms by auto
  then have "takeWhile (\<lambda>c. c \<noteq> CHR 0x0A \<and> c \<noteq> CHR 0x00) p = x" unfolding p(1) using takeWhile_append2 [of x "\<lambda>c. c \<noteq> CHR 0x0A \<and> c \<noteq> CHR 0x00" "CHR 0x0A # y"] by simp
  then have "find_nl p = Some (length x)" using p by (simp add: find_nl_def)
  then show ?thesis using that(2) p by blast
next
  case False
  then have "takeWhile (\<lambda>c. c \<noteq> CHR 0x0A \<and> c \<noteq> CHR 0x00) p = p" using assms by (intro takeWhile_eq_all_conv [THEN iffD2]) auto
  then have "find_nl p = None" unfolding find_nl_def Let_def by (simp only: less_irrefl simp_thms if_False)
  then show ?thesis using that(1) False by blast
qed

lemma runs_grep_lines:
  "CHR 0x00 \<notin> set p \<Longrightarrow> runs (grep_lines pattern p) w (Returned (snd (lines_of p))) (outs 1 (matching pattern (fst (lines_of p))) w)"
proof (induction "length p" arbitrary: p w rule: less_induct)
  case less
  show ?case
  proof (cases rule: find_nl_cases [OF less.prems])
    case 1
    then show ?thesis by (subst grep_lines.simps) (simp add: lines_of_part)
  next
    case (2 x y)
    let ?w = "outs 1 (if match pattern x then x @ [CHR 0x0A] else []) w"
    have "runs (grep_lines pattern y) ?w (Returned (snd (lines_of y))) (outs 1 (matching pattern (fst (lines_of y))) ?w)"
      using less.hyps [of y ?w] less.prems 2(2) by simp
    then show ?thesis using 2 lines_of_line [OF 2(3), of y] by (subst grep_lines.simps) (cases "match pattern x"; simp)
  qed
qed

lemma grep_loop:
  assumes "map_of (uw_in w) fd = Some s" and "CHR 0x0A \<notin> set buf" and "CHR 0x00 \<notin> set (buf @ s)"
    and "\<forall>l\<in>set (fst (lines_of (buf @ s))). length l < 1023" and "length (snd (lines_of (buf @ s))) < 1023"
  shows "\<exists>v. runs (loop_p (grep_body pattern fd) buf) w (Returned ()) v \<and>
     uw_out v = (uw_out w)(1 := uw_out w 1 @ matching pattern (fst (lines_of (buf @ s))))"
  using assms
proof (induction "length s" arbitrary: s w buf rule: less_induct)
  case less
  have m: "length buf < 1023" using lines_of_prefix [OF less.prems(2,4,5)] .
  then have "0 < 1024 - length buf - 1" by simp
  then obtain k v where r: "usys (SysRead fd (1024 - length buf - 1)) w = ((ans (int (length (take k s))))\<lparr>r_data := take k s\<rparr>, v)" "0 < k"
    "map_of (uw_in v) fd = Some (drop k s)" "uw_out v = uw_out w"
    using usys_read [OF less.prems(1)] by metis
  show ?case
  proof (cases "s = []")
    case True
    then have "runs (grep_body pattern fd buf) w (Returned (Inr ())) v" using r by (simp add: grep_body_def)
    from runs_loop(2) [of usys "grep_body pattern fd" buf, OF this] show ?thesis
      using r True lines_of_part [OF less.prems(2)] by auto
  next
    case False
    let ?b = "buf @ take k s"
    let ?rest = "snd (lines_of ?b)" and ?v = "outs 1 (matching pattern (fst (lines_of ?b))) v"
    have n0: "CHR 0x00 \<notin> set ?b" using less.prems(3) by (auto dest: in_set_takeD)
    have a: "runs (grep_body pattern fd buf) w (Returned (Inl ?rest)) ?v"
      using r False runs_andthen [OF runs_grep_lines [OF n0, of pattern v], of "\<lambda>rest. Done (Inl rest)" "Returned (Inl ?rest)" ?v]
      by (simp add: grep_body_def Let_def)
    have app: "lines_of (buf @ s) = (fst (lines_of ?b) @ fst (lines_of (?rest @ drop k s)), snd (lines_of (?rest @ drop k s)))"
      using lines_of_append [of ?b "drop k s"] by simp
    have sub: "set ?rest \<subseteq> set ?b" by (rule lines_of_subset)
    have "length (drop k s) < length s" using False r(2) by simp
    moreover have "CHR 0x00 \<notin> set (?rest @ drop k s)" using sub n0 less.prems(3) by (auto dest: in_set_dropD)
    ultimately obtain u where b: "runs (loop_p (grep_body pattern fd) ?rest) ?v (Returned ()) u"
      "uw_out u = (uw_out ?v)(1 := uw_out ?v 1 @ matching pattern (fst (lines_of (?rest @ drop k s))))"
      using less.hyps [of "drop k s" ?v ?rest] r(3) lines_of_tail less.prems(4,5) unfolding app by auto
    show ?thesis using runs_loop(1) [of usys "grep_body pattern fd" buf, OF a b(1)] b(2) r(4) unfolding app by (auto simp: outs_def)
  qed
qed

text \<open>Property C38: \<open>grep\<close> prints exactly the lines that match. For an input of lines of at most 1022 bytes, none of them NUL, and however the
  kernel cuts it into pieces, \<open>grep\<close> terminates and has then written the lines that match the pattern, in order and each with its newline;
  what follows the last newline is not looked at.\<close>

theorem grep_correct:
  assumes "map_of (uw_in w) fd = Some s" and "CHR 0x00 \<notin> set s" and "\<forall>l\<in>set (fst (lines_of s)). length l < 1023"
    and "length (snd (lines_of s)) < 1023"
  shows "\<exists>v. runs (grep pattern fd) w (Returned ()) v \<and>
     uw_out v = (uw_out w)(1 := uw_out w 1 @ concat (map (\<lambda>l. l @ [CHR 0x0A]) (filter (match pattern) (fst (lines_of s)))))"
  using grep_loop [of w fd s "[]" pattern] assms by (simp add: grep_def matching_def)

theorem grep_correct_witness:
  "\<exists>v. runs (grep ''b*$'' 0) \<lparr>uw_files = [], uw_in = [(0, ''ab'' @ nl @ ''c'')], uw_out = (\<lambda>_. ''''), uw_chunks = [0, 0]\<rparr> (Returned ()) v \<and>
     uw_out v 1 = ''ab'' @ nl"
proof -
  have "match ''b*$'' ''ab''" by code_simp
  then show ?thesis
    using grep_correct [of "\<lparr>uw_files = [], uw_in = [(0, ''ab'' @ nl @ ''c'')], uw_out = (\<lambda>_. ''''), uw_chunks = [0, 0]\<rparr>" 0 "''ab'' @ nl @ ''c''" "''b*$''"]
    by auto
qed

end
