(* ===== verification/Umalloc.thy ===== *)
theory Umalloc
  imports Prelude
begin

text \<open>
  \<open>user/umalloc.c\<close>: the memory allocator of user programs. The heap is cut into units of a header (16 bytes); a free block starts with
  its header, and the free blocks form a circular list in the order of their addresses.
\<close>

subsection \<open>The functions\<close>

text \<open>Addresses are byte addresses; \<open>adv p n\<close> is the pointer sum \<open>p + n\<close> of a \<open>Header *\<close>. Only the headers of the heap are modelled. \<open>um_base\<close>
  is the address of the static header \<open>base\<close>, \<open>um_brk\<close> the end of the program's memory, which \<open>sbrk\<close> moves up to \<open>um_limit\<close>.\<close>

record header =
  h_ptr :: nat
  h_size :: nat

record umem =
  heap :: "nat \<Rightarrow> header"
  freep :: nat
  um_base :: nat
  um_brk :: nat
  um_limit :: nat

definition adv :: "nat \<Rightarrow> nat \<Rightarrow> nat" where
  "adv p n = p + 16 * n"

definition uint_add :: "nat \<Rightarrow> nat \<Rightarrow> nat" where
  "uint_add a b = (a + b) mod 2 ^ 32"

text \<open>The loop of \<open>free\<close> that looks for the place of \<open>bp\<close>.\<close>

partial_function (option) free_find :: "(nat \<Rightarrow> header) \<Rightarrow> nat \<Rightarrow> nat \<Rightarrow> nat option" where
  "free_find H bp p =
     (if bp > p \<and> bp < h_ptr (H p) then Some p
      else if p \<ge> h_ptr (H p) \<and> (bp > p \<or> bp < h_ptr (H p)) then Some p
      else free_find H bp (h_ptr (H p)))"

definition free_link :: "nat \<Rightarrow> nat \<Rightarrow> umem \<Rightarrow> umem" where
  "free_link bp p s =
     (let H = heap s;
          H = (if adv bp (h_size (H bp)) = h_ptr (H p)
               then H(bp := \<lparr>h_ptr = h_ptr (H (h_ptr (H p))), h_size = uint_add (h_size (H bp)) (h_size (H (h_ptr (H p))))\<rparr>)
               else H(bp := (H bp)\<lparr>h_ptr := h_ptr (H p)\<rparr>));
          H = (if adv p (h_size (H p)) = bp
               then H(p := \<lparr>h_ptr = h_ptr (H bp), h_size = uint_add (h_size (H p)) (h_size (H bp))\<rparr>)
               else H(p := (H p)\<lparr>h_ptr := bp\<rparr>))
      in s\<lparr>heap := H, freep := p\<rparr>)"

definition free :: "nat \<Rightarrow> umem \<Rightarrow> umem option" where
  "free ap s =
     (let bp = ap - 16 in
      case free_find (heap s) bp (freep s) of None \<Rightarrow> None | Some p \<Rightarrow> Some (free_link bp p s))"

text \<open>\<open>sbrk\<close> as the kernel's \<open>sys_sbrk\<close> and \<open>growproc\<close> do it. It takes an \<open>int\<close>, so the argument \<open>nu * sizeof(Header)\<close> is cut to 32 bits;
  a negative one shrinks the program, or does nothing if the program is smaller than that.\<close>

definition sbrk_u :: "nat \<Rightarrow> umem \<Rightarrow> nat option \<times> umem" where
  "sbrk_u n s =
     (let i = sint (of_nat n :: 32 word) in
      if i > 0 then
        (if int (um_brk s) + i \<le> int (um_limit s) then (Some (um_brk s), s\<lparr>um_brk := nat (int (um_brk s) + i)\<rparr>) else (None, s))
      else if int (um_brk s) + i \<ge> 0 then (Some (um_brk s), s\<lparr>um_brk := nat (int (um_brk s) + i)\<rparr>)
      else (Some (um_brk s), s))"

definition morecore :: "nat \<Rightarrow> umem \<Rightarrow> (nat \<times> umem) option" where
  "morecore nu s =
     (let nu = (if nu < 4096 then 4096 else nu) in
      case sbrk_u (nu * 16) s of
        (None, s) \<Rightarrow> Some (0, s)
      | (Some hp, s) \<Rightarrow>
          map_option (\<lambda>s. (freep s, s)) (free (adv hp 1) (s\<lparr>heap := (heap s)(hp := (heap s hp)\<lparr>h_size := nu\<rparr>)\<rparr>)))"

text \<open>Taking \<open>nunits\<close> units from the block \<open>p\<close> that follows \<open>prevp\<close>: the whole block, or its end.\<close>

definition carve :: "nat \<Rightarrow> nat \<Rightarrow> nat \<Rightarrow> umem \<Rightarrow> nat \<times> umem" where
  "carve nunits prevp p s =
     (if h_size (heap s p) = nunits
      then (adv p 1, s\<lparr>heap := (heap s)(prevp := (heap s prevp)\<lparr>h_ptr := h_ptr (heap s p)\<rparr>), freep := prevp\<rparr>)
      else
        (let H = (heap s)(p := (heap s p)\<lparr>h_size := h_size (heap s p) - nunits\<rparr>); p = adv p (h_size (H p))
         in (adv p 1, s\<lparr>heap := H(p := (H p)\<lparr>h_size := nunits\<rparr>), freep := prevp\<rparr>)))"

partial_function (option) malloc_loop :: "nat \<Rightarrow> nat \<Rightarrow> nat \<Rightarrow> umem \<Rightarrow> (nat \<times> umem) option" where
  "malloc_loop nunits prevp p s =
     (if h_size (heap s p) \<ge> nunits then Some (carve nunits prevp p s)
      else if p = freep s then
        (case morecore nunits s of
           None \<Rightarrow> None
         | Some (q, s) \<Rightarrow> if q = 0 then Some (0, s) else malloc_loop nunits q (h_ptr (heap s q)) s)
      else malloc_loop nunits p (h_ptr (heap s p)) s)"

definition malloc_init :: "umem \<Rightarrow> umem" where
  "malloc_init s =
     (if freep s = 0
      then s\<lparr>heap := (heap s)(um_base s := \<lparr>h_ptr = um_base s, h_size = 0\<rparr>), freep := um_base s\<rparr>
      else s)"

definition malloc :: "nat \<Rightarrow> umem \<Rightarrow> (nat \<times> umem) option" where
  "malloc nbytes s =
     (let nunits = ((nbytes + 16 - 1) div 16 + 1) mod 2 ^ 32;
          s = malloc_init s
      in malloc_loop nunits (freep s) (h_ptr (heap s (freep s))) s)"

subsection \<open>The free list\<close>

text \<open>Free blocks, in the order of their addresses, none of them touching the next, all between \<open>lo\<close> and \<open>hi\<close>.\<close>

fun spaced :: "nat \<Rightarrow> (nat \<times> nat) list \<Rightarrow> nat \<Rightarrow> bool" where
  "spaced lo [] hi \<longleftrightarrow> True"
| "spaced lo ((a, n) # bs) hi \<longleftrightarrow> lo < a \<and> 0 < n \<and> adv a n \<le> hi \<and> spaced (adv a n) bs hi"

definition chain :: "(nat \<Rightarrow> header) \<Rightarrow> nat list \<Rightarrow> bool" where
  "chain H = successively (\<lambda>x y. h_ptr (H x) = y)"

definition uinv :: "umem \<Rightarrow> (nat \<times> nat) list \<Rightarrow> bool" where
  "uinv s bs \<longleftrightarrow>
     0 < um_base s \<and> um_base s < um_brk s \<and> um_brk s \<le> um_limit s \<and> um_limit s \<le> 2 ^ 36 \<and>
     chain (heap s) (um_base s # map fst bs @ [um_base s]) \<and> h_size (heap s (um_base s)) = 0 \<and>
     (\<forall>(a, n)\<in>set bs. h_size (heap s a) = n) \<and> spaced (um_base s) bs (um_brk s) \<and> freep s \<in> set (um_base s # map fst bs)"

text \<open>The bytes of the free blocks.\<close>

definition bytes :: "nat \<times> nat \<Rightarrow> nat set" where
  "bytes b = {fst b..<adv (fst b) (snd b)}"

definition free_bytes :: "(nat \<times> nat) list \<Rightarrow> nat set" where
  "free_bytes bs = \<Union> (bytes ` set bs)"

lemma free_bytes_simps [simp]:
  "free_bytes [] = {}" "free_bytes (b # bs) = bytes b \<union> free_bytes bs" "free_bytes (bs @ bs') = free_bytes bs \<union> free_bytes bs'"
  by (auto simp: free_bytes_def)

lemma spaced_append: "spaced lo (us @ vs) hi \<longleftrightarrow> spaced lo us hi \<and> spaced (if us = [] then lo else adv (fst (last us)) (snd (last us))) vs hi"
  by (induction us arbitrary: lo) auto

lemma spaced_lo: "spaced lo bs hi \<Longrightarrow> lo' \<le> lo \<Longrightarrow> spaced lo' bs hi"
  by (cases bs) auto

lemma spaced_top: "spaced lo bs hi \<Longrightarrow> hi \<le> hi' \<Longrightarrow> spaced lo bs hi'"
  by (induction bs arbitrary: lo) auto

lemma spaced_gt: "spaced lo bs hi \<Longrightarrow> (a, n) \<in> set bs \<Longrightarrow> lo < a \<and> 0 < n \<and> adv a n \<le> hi"
proof (induction bs arbitrary: lo)
  case (Cons b bs)
  then show ?case by (cases b) (fastforce simp: adv_def)
qed simp

lemma spaced_sorted: "spaced lo bs hi \<Longrightarrow> sorted_wrt (<) (lo # map fst bs)"
proof (induction bs arbitrary: lo)
  case (Cons b bs)
  obtain a n where b: "b = (a, n)" by (cases b)
  have "sorted_wrt (<) (adv a n # map fst bs)" using Cons.IH [of "adv a n"] Cons.prems b by simp
  then show ?case using Cons.prems b by (fastforce simp: adv_def)
qed simp

lemma spaced_distinct: "spaced lo bs hi \<Longrightarrow> distinct (lo # map fst bs)"
  using spaced_sorted strict_sorted_iff by blast

lemma chain_simps [simp]: "chain H []" "chain H [x]" "chain H (x # y # zs) \<longleftrightarrow> h_ptr (H x) = y \<and> chain H (y # zs)"
  by (simp_all add: chain_def)

lemma chain_append: "chain H (xs @ y # zs) \<longleftrightarrow> chain H (xs @ [y]) \<and> chain H (y # zs)"
  by (induction xs rule: induct_list012) (auto simp: chain_def successively_append_iff successively_Cons)

lemma chain_upd: "a \<notin> set (butlast xs) \<Longrightarrow> chain (H(a := x)) xs = chain H xs"
  by (induction xs rule: induct_list012) auto

text \<open>The search of \<open>free\<close> goes on while the addresses grow and the block does not lie between two of them.\<close>

lemma free_find_walk:
  assumes "chain H (p # xs @ [q])" and "sorted_wrt (<) (p # xs @ [q])" and "(\<forall>z\<in>set (xs @ [q]). z < bp) \<or> (\<forall>y\<in>set (p # xs). bp < y)"
  shows "free_find H bp p = free_find H bp q"
  using assms
proof (induction xs arbitrary: p)
  case Nil
  then show ?case by (subst free_find.simps) auto
next
  case (Cons x xs)
  have "h_ptr (H p) = x" using Cons.prems(1) by simp
  then have "free_find H bp p = free_find H bp x" using Cons.prems(2,3) by (subst free_find.simps) auto
  also have "\<dots> = free_find H bp q" using Cons.prems by (intro Cons.IH) auto
  finally show ?case .
qed

lemma chain_split:
  assumes "chain H (xs @ ys)" and "x \<in> set xs"
  obtains "x = last xs" | zs where "chain H (x # zs @ [last xs])" and "set zs \<subseteq> set xs" and "\<And>P. sorted_wrt P xs \<Longrightarrow> sorted_wrt P (x # zs @ [last xs])"
proof -
  obtain as cs where s: "xs = as @ x # cs" using assms(2) split_list by metis
  show ?thesis
  proof (cases "cs = []")
    case True
    then show ?thesis using that(1) s by simp
  next
    case False
    then have l: "x # butlast cs @ [last xs] = x # cs" using s by simp
    have "x # cs @ ys = (x # butlast cs) @ last cs # ys" using False append_butlast_last_id [OF False] by (metis append.assoc append_Cons append_Nil)
    moreover have "chain H (x # cs @ ys)" using assms(1) chain_append [of H as x "cs @ ys"] s by simp
    ultimately have "chain H ((x # butlast cs) @ [last cs])" by (metis chain_append)
    then have "chain H (x # cs)" using False by simp
    moreover have "set (butlast cs) \<subseteq> set xs" using s by (auto dest: in_set_butlastD)
    moreover have "sorted_wrt P xs \<Longrightarrow> sorted_wrt P (x # cs)" for P using s by (simp add: sorted_wrt_append)
    ultimately show ?thesis using that(2) [of "butlast cs"] unfolding l by blast
  qed
qed

lemma free_find_place:
  assumes ch: "chain H (base # map fst (us @ vs) @ [base])" and sp: "spaced base (us @ vs) hi"
    and us: "\<forall>(a, m)\<in>set us. adv a m \<le> bp" and vs: "\<forall>(a, m)\<in>set vs. bp < a" and b: "base < bp"
    and p: "p \<in> set (base # map fst (us @ vs))"
  shows "free_find H bp p = Some (last (base # map fst us))"
proof -
  let ?us = "base # map fst us" and ?vs = "map fst vs"
  define L where "L = last ?us"
  have so: "sorted_wrt (<) (?us @ ?vs)" using spaced_sorted [OF sp] by simp
  then have sus: "sorted_wrt (<) ?us" and svs: "sorted_wrt (<) ?vs" by (simp_all only: sorted_wrt_append)
  have pos: "(a, m) \<in> set us \<Longrightarrow> 0 < m" for a m using spaced_gt [OF sp, of a m] by simp
  have lt: "y < bp" if "y \<in> set ?us" for y using that us b pos by (fastforce simp: adv_def)
  have gt: "bp < y" if "y \<in> set ?vs" for y using that vs by auto
  have ch': "chain H (?us @ ?vs @ [base])" using ch by simp
  have "?us @ ?vs @ [base] = butlast ?us @ L # ?vs @ [base]" unfolding L_def by (metis append.assoc append_Cons append_Nil append_butlast_last_id list.distinct(1))
  with ch' have "chain H (L # ?vs @ [base])" by (metis chain_append)
  then have nx: "h_ptr (H L) = hd (?vs @ [base])" and chv: "chain H (?vs @ [base])" by (cases vs; simp)+
  have Lin: "L \<in> set ?us" unfolding L_def by (rule last_in_set) simp
  have "base \<le> L" using so Lin by (auto intro: less_imp_le)
  then have stop: "free_find H bp L = Some L"
    using nx lt [OF Lin] b gt by (subst free_find.simps) (cases vs; auto)
  have low: "free_find H bp y = Some L" if y: "y \<in> set ?us" for y
  proof (cases rule: chain_split [OF ch' y])
    case 1
    then show ?thesis using stop by (simp add: L_def)
  next
    case (2 zs)
    have "free_find H bp y = free_find H bp L"
      unfolding L_def by (rule free_find_walk [OF 2(1) 2(3) [OF sus]]) (use lt 2(2) Lin in \<open>auto simp: L_def\<close>)
    then show ?thesis using stop by simp
  qed
  have high: "free_find H bp y = Some L" if y: "y \<in> set ?vs" for y
  proof -
    let ?M = "last ?vs"
    have M: "?M \<in> set ?vs" using y by (intro last_in_set) auto
    have "free_find H bp y = free_find H bp ?M"
    proof (cases rule: chain_split [OF chv y])
      case (2 zs)
      show ?thesis by (rule free_find_walk [OF 2(1) 2(3) [OF svs]]) (use gt y 2(2) in auto)
    qed simp
    also have "\<dots> = free_find H bp base"
    proof -
      have "?vs @ [base] = butlast ?vs @ ?M # [base]" using y by (metis append.assoc append_Cons append_Nil append_butlast_last_id empty_iff empty_set)
      then have "chain H [?M, base]" using chv chain_append [of H "butlast ?vs" ?M "[base]"] by metis
      then have "h_ptr (H ?M) = base" by simp
      then show ?thesis using gt [OF M] b by (subst free_find.simps) auto
    qed
    finally show ?thesis using low [of base] by simp
  qed
  show ?thesis using p low high unfolding L_def [symmetric] by auto
qed

text \<open>The free list with a block put in between \<open>us\<close> and \<open>vs\<close>, joined with its neighbours where they touch.\<close>

definition join_right :: "nat \<times> nat \<Rightarrow> (nat \<times> nat) list \<Rightarrow> (nat \<times> nat) list" where
  "join_right b vs = (case vs of [] \<Rightarrow> [b] | v # vs' \<Rightarrow> if adv (fst b) (snd b) = fst v then (fst b, snd b + snd v) # vs' else b # vs)"

definition join_left :: "(nat \<times> nat) list \<Rightarrow> (nat \<times> nat) list \<Rightarrow> (nat \<times> nat) list" where
  "join_left us bs =
     (if us = [] then bs
      else if adv (fst (last us)) (snd (last us)) = fst (hd bs) then butlast us @ (fst (last us), snd (last us) + snd (hd bs)) # tl bs else us @ bs)"

lemma adv_add: "adv a (m + n) = adv (adv a m) n"
  by (simp add: adv_def)

lemma adv_less: "0 < n \<Longrightarrow> a < adv a n"
  by (simp add: adv_def)

lemma bytes_join: "adv a m = c \<Longrightarrow> bytes (a, m + n) = bytes (a, m) \<union> bytes (c, n)"
  by (auto simp: bytes_def adv_def)

lemma join_right_props:
  assumes "spaced lo vs hi" and "lo < adv b n" and "0 < n" and "adv b n \<le> hi" and "\<forall>(a, m)\<in>set vs. adv b n \<le> a" and "lo' < b"
  shows "spaced lo' (join_right (b, n) vs) hi" and "free_bytes (join_right (b, n) vs) = bytes (b, n) \<union> free_bytes vs"
    and "fst (hd (join_right (b, n) vs)) = b" and "join_right (b, n) vs \<noteq> []"
proof -
  show "spaced lo' (join_right (b, n) vs) hi"
  proof (cases vs)
    case (Cons v vs')
    obtain a m where v: "v = (a, m)" by (cases v)
    show ?thesis using assms Cons v by (auto simp: join_right_def adv_add le_less)
  qed (use assms in \<open>simp add: join_right_def\<close>)
  show "free_bytes (join_right (b, n) vs) = bytes (b, n) \<union> free_bytes vs"
    by (cases vs) (auto simp: join_right_def bytes_join split: prod.splits)
qed (auto simp: join_right_def split: list.splits)

lemma join_left_props:
  assumes "spaced lo us hi" and "spaced (if us = [] then lo else adv (fst (last us)) (snd (last us)) - 1) bs hi" and "bs \<noteq> []"
  shows "spaced lo (join_left us bs) hi" and "free_bytes (join_left us bs) = free_bytes us \<union> free_bytes bs"
proof -
  show "spaced lo (join_left us bs) hi"
  proof (cases us rule: rev_cases)
    case (snoc us' u)
    obtain a m where u: "u = (a, m)" by (cases u)
    obtain b n bs' where bs: "bs = (b, n) # bs'" using assms(3) by (cases bs) auto
    have "0 < adv a m" using assms(1) snoc u spaced_gt [OF assms(1), of a m] by (simp add: adv_def)
    then show ?thesis using assms snoc u bs
      by (auto simp: join_left_def spaced_append adv_add split: if_splits)
  qed (use assms in \<open>simp add: join_left_def\<close>)
  show "free_bytes (join_left us bs) = free_bytes us \<union> free_bytes bs"
    using assms(3) by (cases us rule: rev_cases; cases bs) (auto simp: join_left_def bytes_join split: prod.splits)
qed

lemma chain_cong: "(\<And>x. x \<in> set (butlast xs) \<Longrightarrow> H' x = H x) \<Longrightarrow> chain H' xs = chain H xs"
  by (induction xs rule: induct_list012) auto

lemma uint_add_eq: "a + b < 2 ^ 32 \<Longrightarrow> uint_add a b = a + b"
  by (simp add: uint_add_def)

lemma adv_fits: "adv a n \<le> hi \<Longrightarrow> hi \<le> 2 ^ 36 \<Longrightarrow> 0 < a \<Longrightarrow> n < 2 ^ 32"
  by (simp add: adv_def)

text \<open>What a list of free blocks says of the headers.\<close>

definition sized :: "(nat \<Rightarrow> header) \<Rightarrow> (nat \<times> nat) list \<Rightarrow> bool" where
  "sized H bs \<longleftrightarrow> (\<forall>(a, n)\<in>set bs. h_size (H a) = n)"

lemma sized_simps [simp]:
  "sized H []" "sized H ((a, n) # bs) \<longleftrightarrow> h_size (H a) = n \<and> sized H bs" "sized H (bs @ bs') \<longleftrightarrow> sized H bs \<and> sized H bs'"
  by (simp_all add: sized_def ball_Un)

lemma sized_cong: "(\<And>a n. (a, n) \<in> set bs \<Longrightarrow> H' a = H a) \<Longrightarrow> sized H' bs = sized H bs"
  by (auto simp: sized_def)

text \<open>The first half of \<open>free_link\<close>: the block is linked to what follows it.\<close>

lemma link_right:
  assumes ch: "chain H (map fst vs @ [base])" and sz: "sized H vs" and sp: "spaced lo vs hi" and hi: "hi \<le> 2 ^ 36" and b: "base < bp" "0 < base"
    and n: "h_size (H bp) = n" "0 < n" "adv bp n \<le> hi" and vs: "\<forall>(a, m)\<in>set vs. adv bp n \<le> a"
    and R: "R = hd (map fst vs @ [base])"
    and H': "H' = (if adv bp (h_size (H bp)) = R then H(bp := \<lparr>h_ptr = h_ptr (H R), h_size = uint_add (h_size (H bp)) (h_size (H R))\<rparr>)
                   else H(bp := (H bp)\<lparr>h_ptr := R\<rparr>))"
  shows "chain H' (map fst (join_right (bp, n) vs) @ [base])" and "sized H' (join_right (bp, n) vs)"
proof -
  have nb: "bp \<notin> set (map fst vs)" using vs n(2) by (fastforce simp: adv_def)
  have nbase: "adv bp n \<noteq> base" using b(1) by (simp add: adv_def)
  have o: "x \<noteq> bp \<Longrightarrow> H' x = H x" for x unfolding H' by simp
  have cong: "chain H' (map fst ws @ [base]) = chain H (map fst ws @ [base])" "sized H' ws = sized H ws" if "set ws \<subseteq> set vs" for ws
    using that nb by (force intro!: chain_cong sized_cong o)+
  have "chain H' (map fst (join_right (bp, n) vs) @ [base]) \<and> sized H' (join_right (bp, n) vs)"
  proof (cases vs)
    case Nil
    then have "H' bp = (H bp)\<lparr>h_ptr := base\<rparr>" using nbase R n(1) by (simp add: H')
    then show ?thesis using n(1) Nil by (simp add: join_right_def)
  next
    case (Cons v vs')
    obtain a m where v: "v = (a, m)" by (cases v)
    have sub: "set vs' \<subseteq> set vs" using Cons by auto
    show ?thesis
    proof (cases "adv bp n = a")
      case True
      have "adv a m \<le> hi" using sp Cons v by simp
      then have "adv bp (n + m) \<le> hi" using True adv_add by simp
      then have "n + m < 2 ^ 32" using adv_fits hi b by fastforce
      then have "H' bp = \<lparr>h_ptr = h_ptr (H a), h_size = n + m\<rparr>" using True R Cons v n(1) sz by (simp add: H' uint_add_eq)
      moreover have "h_ptr (H a) = hd (map fst vs' @ [base])" "chain H (map fst vs' @ [base])" using ch Cons v by (cases vs'; simp)+
      ultimately show ?thesis using cong [OF sub] sz Cons v True by (cases vs') (auto simp: join_right_def)
    next
      case False
      then have "H' bp = (H bp)\<lparr>h_ptr := a\<rparr>" using R Cons v n(1) by (simp add: H')
      then show ?thesis using cong [OF order_refl] ch sz False Cons v n(1) by (auto simp: join_right_def)
    qed
  qed
  then show "chain H' (map fst (join_right (bp, n) vs) @ [base])" and "sized H' (join_right (bp, n) vs)" by simp_all
qed

text \<open>The second half: what precedes the block is linked to it.\<close>

lemma link_left_base:
  assumes chb: "chain H (bp # xs @ [base])" and gt: "\<forall>x\<in>set (bp # xs). base < x"
  shows "chain (H(base := (H base)\<lparr>h_ptr := bp\<rparr>)) (base # bp # xs @ [base])"
proof -
  have "chain (H(base := (H base)\<lparr>h_ptr := bp\<rparr>)) (bp # xs @ [base]) = chain H (bp # xs @ [base])"
    by (rule chain_upd) (use gt in \<open>auto simp: butlast_append\<close>)
  then show ?thesis using chb by simp
qed

lemma link_left_block:
  assumes ch: "chain H (base # us @ [l])" and chb: "chain H (xs @ [base])" and l: "l \<notin> set (base # us)" "l \<notin> set xs"
    and x: "h_ptr x = hd (xs @ [base])"
  shows "chain (H(l := x)) (base # us @ l # xs @ [base])"
proof -
  have "chain (H(l := x)) (base # us @ [l])" using ch l(1) by (subst chain_upd) (auto simp: butlast_append)
  moreover have "chain (H(l := x)) (xs @ [base])" using chb l(2) by (subst chain_upd) (auto simp: butlast_append)
  then have "chain (H(l := x)) (l # xs @ [base])" using x by (cases xs) auto
  ultimately show ?thesis using chain_append [of "H(l := x)" "base # us" l "xs @ [base]"] by simp
qed

lemma link_left:
  assumes ch: "chain H (base # map fst us)" and chb: "chain H (map fst bs @ [base])" and bs: "bs = (bp, n) # bs'"
    and sz: "sized H us" "sized H bs" "h_size (H base) = 0"
    and sp: "spaced base us hi" "spaced (if us = [] then base else adv (fst (last us)) (snd (last us)) - 1) bs hi"
    and hi: "hi \<le> 2 ^ 36" and b: "0 < base" and L: "L = last (base # map fst us)"
    and H': "H' = (if adv L (h_size (H L)) = bp then H(L := \<lparr>h_ptr = h_ptr (H bp), h_size = uint_add (h_size (H L)) (h_size (H bp))\<rparr>)
                   else H(L := (H L)\<lparr>h_ptr := bp\<rparr>))"
  shows "chain H' (base # map fst (join_left us bs) @ [base])" and "sized H' (join_left us bs)" and "h_size (H' base) = 0"
proof -
  have "chain H' (base # map fst (join_left us bs) @ [base]) \<and> sized H' (join_left us bs) \<and> h_size (H' base) = 0"
  proof (cases us rule: rev_cases)
    case Nil
    have gt: "base < x" if "x \<in> set (map fst bs)" for x using that sp(2) Nil spaced_gt [of base bs hi] by auto
    then have "H' = H(base := (H base)\<lparr>h_ptr := bp\<rparr>)" using Nil L sz(3) bs by (auto simp: H' adv_def)
    moreover have "sized (H(base := (H base)\<lparr>h_ptr := bp\<rparr>)) bs = sized H bs" using gt by (intro sized_cong) force
    ultimately show ?thesis using link_left_base [of H bp "map fst bs'" base] chb gt bs sz Nil by (simp add: join_left_def)
  next
    case (snoc us' u)
    obtain l m where u: "u = (l, m)" by (cases u)
    have Ll: "L = l" and szl: "h_size (H l) = m" and m: "0 < m" using L snoc u sz(1) sp(1) spaced_gt [OF sp(1), of l m] by auto
    have gt: "adv l m - 1 < x" if "x \<in> set (map fst bs)" for x
      using that sp(2) snoc u spaced_gt [of "adv l m - 1" bs hi] by auto
    then have lbs: "l \<notin> set (map fst bs)" using m by (fastforce simp: adv_def)
    have lus: "l \<notin> set (base # map fst us')" using spaced_distinct [OF sp(1)] snoc u by auto
    have ch': "chain H (base # map fst us' @ [l])" using ch snoc u by simp
    have szc: "sized (H(l := x)) us' = sized H us'" "sized (H(l := x)) bs = sized H bs" for x
      using lus lbs by (force intro!: sized_cong)+
    show ?thesis
    proof (cases "adv l m = bp")
      case True
      have "adv bp n \<le> hi" using sp(2) bs by simp
      then have "adv l (m + n) \<le> hi" using True adv_add by simp
      moreover have "base < l" using spaced_gt [OF sp(1), of l m] snoc u by simp
      ultimately have "m + n < 2 ^ 32" using adv_fits [of l "m + n" hi] hi by simp
      then have H'e: "H' = H(l := \<lparr>h_ptr = h_ptr (H bp), h_size = m + n\<rparr>)" using True sz(2) bs by (simp add: H' Ll szl uint_add_eq)
      have "h_ptr (H bp) = hd (map fst bs' @ [base])" "chain H (map fst bs' @ [base])" using chb bs by (cases bs'; simp)+
      with link_left_block [OF ch', of "map fst bs'" "\<lparr>h_ptr = h_ptr (H bp), h_size = m + n\<rparr>"] lus lbs bs
      have "chain H' (base # map fst us' @ l # map fst bs' @ [base])" unfolding H'e by simp
      then show ?thesis using True snoc u bs sz szc lus unfolding H'e by (auto simp: join_left_def)
    next
      case False
      then have H'e: "H' = H(l := (H l)\<lparr>h_ptr := bp\<rparr>)" by (simp add: H' Ll szl)
      have "chain H' (base # map fst us' @ l # map fst bs @ [base])" unfolding H'e
        by (rule link_left_block [OF ch' chb lus lbs]) (simp add: bs)
      then show ?thesis using False snoc u bs sz szc lus szl unfolding H'e by (auto simp: join_left_def)
    qed
  qed
  then show "chain H' (base # map fst (join_left us bs) @ [base])" and "sized H' (join_left us bs)" and "h_size (H' base) = 0" by simp_all
qed

subsection \<open>free\<close>

lemma disjoint_blocks: "bytes (a, m) \<inter> bytes (b, n) = {} \<Longrightarrow> 0 < m \<Longrightarrow> 0 < n \<Longrightarrow> adv a m \<le> b \<or> adv b n \<le> a"
proof (rule ccontr)
  assume "bytes (a, m) \<inter> bytes (b, n) = {}" "0 < m" "0 < n" "\<not> (adv a m \<le> b \<or> adv b n \<le> a)"
  then have "max a b \<in> bytes (a, m) \<inter> bytes (b, n)" by (auto simp: bytes_def adv_def)
  with \<open>bytes (a, m) \<inter> bytes (b, n) = {}\<close> show False by blast
qed

lemma split_free:
  assumes "spaced lo bs hi" and "bytes (b, n) \<inter> free_bytes bs = {}" and "0 < n"
  obtains us vs where "bs = us @ vs" and "\<forall>(a, m)\<in>set us. adv a m \<le> b" and "\<forall>(a, m)\<in>set vs. adv b n \<le> a"
  using assms
proof (induction bs arbitrary: lo thesis)
  case (Cons c bs)
  obtain a m where c: "c = (a, m)" by (cases c)
  have m: "0 < m" "spaced (adv a m) bs hi" and d: "bytes (b, n) \<inter> free_bytes bs = {}" using Cons.prems(2,3) c by auto
  show ?case
  proof (cases "adv a m \<le> b")
    case True
    obtain us vs where "bs = us @ vs" "\<forall>(a, m)\<in>set us. adv a m \<le> b" "\<forall>(a, m)\<in>set vs. adv b n \<le> a"
      using Cons.IH [OF _ m(2) d Cons.prems(4)] by blast
    then show ?thesis using Cons.prems(1) [of "c # us" vs] True c by simp
  next
    case False
    then have "adv b n \<le> a" using disjoint_blocks [of a m b n] Cons.prems(3,4) c m(1) by auto
    moreover have "a < x" if "(x, y) \<in> set bs" for x y using spaced_gt [OF m(2) that] m(1) by (simp add: adv_def)
    ultimately show ?thesis using Cons.prems(1) [of "[]" "c # bs"] c by fastforce
  qed
qed simp

lemma joined_bytes:
  assumes sp: "spaced base (us @ vs) hi" and n: "0 < n" "adv bp n \<le> hi" and us: "\<forall>(a, m)\<in>set us. adv a m \<le> bp"
    and vs: "\<forall>(a, m)\<in>set vs. adv bp n \<le> a" and b: "base < bp"
  shows "free_bytes (join_left us (join_right (bp, n) vs)) = free_bytes (us @ vs) \<union> bytes (bp, n)"
proof -
  let ?lo = "if us = [] then base else adv (fst (last us)) (snd (last us))" and ?lo' = "if us = [] then base else adv (fst (last us)) (snd (last us)) - 1"
  have spu: "spaced base us hi" and spv: "spaced ?lo vs hi" using sp by (simp_all only: spaced_append)
  have "?lo \<le> bp" using us b by (cases us rule: rev_cases) auto
  then have "?lo < adv bp n" "?lo' < bp" using b n(1) spaced_gt [OF spu] by (cases us rule: rev_cases; auto simp: adv_def)+
  note jr = join_right_props [OF spv this(1) n vs this(2)]
  show ?thesis using join_left_props(2) [OF spu jr(1,4)] jr(2) by auto
qed

lemma free_spec:
  assumes inv: "uinv s (us @ vs)" and b: "um_base s < bp" and n: "h_size (heap s bp) = n" "0 < n" "adv bp n \<le> um_brk s"
    and us: "\<forall>(a, m)\<in>set us. adv a m \<le> bp" and vs: "\<forall>(a, m)\<in>set vs. adv bp n \<le> a"
  obtains s' where "free (adv bp 1) s = Some s'" and "uinv s' (join_left us (join_right (bp, n) vs))" and "freep s' = last (um_base s # map fst us)"
    and "um_brk s' = um_brk s" and "um_base s' = um_base s" and "um_limit s' = um_limit s"
    and "\<And>x. x \<notin> set (um_base s # bp # map fst (us @ vs)) \<Longrightarrow> heap s' x = heap s x"
proof -
  let ?H = "heap s" and ?base = "um_base s" and ?hi = "um_brk s"
  let ?L = "last (?base # map fst us)" and ?bs = "join_right (bp, n) vs"
  have ch: "chain ?H (?base # map fst (us @ vs) @ [?base])" and sz: "sized ?H (us @ vs)" "h_size (?H ?base) = 0"
    and sp: "spaced ?base (us @ vs) ?hi" and hi: "?hi \<le> 2 ^ 36" "0 < ?base" and fp: "freep s \<in> set (?base # map fst (us @ vs))"
    using inv by (auto simp: uinv_def sized_def)
  have vs': "\<forall>(a, m)\<in>set vs. bp < a" using vs n(2) by (fastforce simp: adv_def)
  have find: "free_find ?H bp (freep s) = Some ?L" by (rule free_find_place [OF ch sp us vs' b fp])
  have chs: "chain ?H (butlast (?base # map fst us) @ ?L # map fst vs @ [?base])"
    using ch append_butlast_last_id [of "?base # map fst us"] by (metis append.assoc append_Cons append_Nil list.distinct(1) map_append)
  then have chu: "chain ?H (?base # map fst us)" and "chain ?H (?L # map fst vs @ [?base])"
    by (metis chain_append append_butlast_last_id list.distinct(1))+
  then have R: "h_ptr (?H ?L) = hd (map fst vs @ [?base])" and chv: "chain ?H (map fst vs @ [?base])" by (cases vs; simp)+
  define lo where "lo = (if us = [] then ?base else adv (fst (last us)) (snd (last us)))"
  have spu: "spaced ?base us ?hi" and spv: "spaced lo vs ?hi" using sp by (simp_all add: spaced_append lo_def)
  have lo: "lo \<le> bp" using us b by (cases us rule: rev_cases) (auto simp: lo_def)
  define H1 where "H1 = (if adv bp (h_size (?H bp)) = h_ptr (?H ?L) then ?H(bp := \<lparr>h_ptr = h_ptr (?H (h_ptr (?H ?L))),
      h_size = uint_add (h_size (?H bp)) (h_size (?H (h_ptr (?H ?L))))\<rparr>) else ?H(bp := (?H bp)\<lparr>h_ptr := h_ptr (?H ?L)\<rparr>))"
  have szv: "sized ?H vs" and szu: "sized ?H us" using sz(1) by simp_all
  note r = link_right [OF chv szv spv hi(1) b hi(2) n vs R H1_def]
  have lt: "x < bp" if "x \<in> set (?base # map fst us)" for x
    using that us b spaced_gt [OF spu] by (fastforce simp: adv_def)
  have Lin: "?L \<in> set (?base # map fst us)" by (rule last_in_set) simp
  have Lbp: "?L \<noteq> bp" "?base \<noteq> bp" using lt [OF Lin] b by simp_all
  have ubp: "bp \<notin> set (map fst us)" using lt by auto
  have H1o: "H1 x = ?H x" if "x \<noteq> bp" for x using that by (simp add: H1_def)
  define lo' where "lo' = (if us = [] then ?base else adv (fst (last us)) (snd (last us)) - 1)"
  have lo': "lo' < bp" using lo b spaced_gt [OF spu] by (cases us rule: rev_cases) (auto simp: lo_def lo'_def adv_def)
  have "lo < adv bp n" using lo n(2) by (simp add: adv_def)
  note jr = join_right_props [OF spv this n(2,3) vs lo']
  obtain m bs' where bs: "?bs = (bp, m) # bs'" using jr(3,4) by (cases ?bs) auto
  have chu1: "chain H1 (?base # map fst us)" using chu ubp Lbp(2) by (subst chain_cong [of _ H1 ?H]) (auto intro!: H1o dest: in_set_butlastD split: if_splits)
  have szu1: "sized H1 us" using szu ubp by (subst sized_cong [of _ H1 ?H]) (force intro!: H1o)+
  define H2 where "H2 = (if adv ?L (h_size (H1 ?L)) = bp then H1(?L := \<lparr>h_ptr = h_ptr (H1 bp), h_size = uint_add (h_size (H1 ?L)) (h_size (H1 bp))\<rparr>)
      else H1(?L := (H1 ?L)\<lparr>h_ptr := bp\<rparr>))"
  have "h_size (H1 ?base) = 0" using sz(2) H1o Lbp(2) by simp
  note l = link_left [OF chu1 r(1) bs szu1 r(2) this spu jr(1) [unfolded lo'_def] hi refl H2_def]
  define s' where "s' = s\<lparr>heap := H2, freep := ?L\<rparr>"
  have f: "free (adv bp 1) s = Some s'"
    unfolding free_def Let_def adv_def using find
    by (simp add: free_link_def s'_def H2_def H1_def Let_def adv_def)
  have u: "uinv s' (join_left us ?bs)"
  proof -
    have "?L \<in> set (?base # map fst (join_left us ?bs))"
      by (cases us rule: rev_cases) (auto simp: join_left_def)
    then show ?thesis using inv l join_left_props(1) [OF spu jr(1) [unfolded lo'_def] jr(4)]
      by (simp add: uinv_def s'_def sized_def)
  qed
  have h: "heap s' x = ?H x" if "x \<notin> set (?base # bp # map fst (us @ vs))" for x
  proof -
    have "x \<notin> set (?base # map fst us)" "x \<noteq> bp" using that by auto
    then have "x \<noteq> ?L" "x \<noteq> bp" using Lin by metis+
    then show ?thesis by (simp add: s'_def H2_def H1_def)
  qed
  show ?thesis by (rule that [OF f u _ _ _ _ h]) (simp_all add: s'_def)
qed

text \<open>Property C32: \<open>free\<close> of an allocated block, one that does not overlap any free block, terminates and gives exactly the bytes of the block
  back: the free list stays circular, in the order of addresses and with no two blocks touching, whatever block \<open>freep\<close> points to, and
  the headers of all other allocated blocks keep their contents.\<close>

theorem free_correct:
  assumes inv: "uinv s bs" and b: "um_base s < bp" and n: "h_size (heap s bp) = n" "0 < n" "adv bp n \<le> um_brk s"
    and d: "bytes (bp, n) \<inter> free_bytes bs = {}"
  shows "\<exists>s' bs'. free (adv bp 1) s = Some s' \<and> uinv s' bs' \<and> free_bytes bs' = free_bytes bs \<union> bytes (bp, n) \<and> um_brk s' = um_brk s \<and>
     (\<forall>x. x \<notin> free_bytes bs \<longrightarrow> x \<noteq> bp \<longrightarrow> x \<noteq> um_base s \<longrightarrow> heap s' x = heap s x)"
proof -
  have sp: "spaced (um_base s) bs (um_brk s)" using inv by (simp add: uinv_def)
  obtain us vs where s: "bs = us @ vs" and us: "\<forall>(a, m)\<in>set us. adv a m \<le> bp" and vs: "\<forall>(a, m)\<in>set vs. adv bp n \<le> a"
    using split_free [OF sp d n(2)] by metis
  obtain s' where s': "free (adv bp 1) s = Some s'" "uinv s' (join_left us (join_right (bp, n) vs))" "um_brk s' = um_brk s"
    "\<And>x. x \<notin> set (um_base s # bp # map fst (us @ vs)) \<Longrightarrow> heap s' x = heap s x"
    using free_spec [OF inv [unfolded s] b n us vs] by metis
  have "x \<in> free_bytes bs" if "x \<in> set (map fst bs)" for x
    using that spaced_gt [OF sp] by (force simp: free_bytes_def bytes_def adv_def)
  then have "heap s' x = heap s x" if "x \<notin> free_bytes bs" "x \<noteq> bp" "x \<noteq> um_base s" for x using s'(4) [of x] that s by auto
  then show ?thesis using s' joined_bytes [OF sp [unfolded s] n(2,3) us vs b] s by (intro exI [of _ s'] exI [of _ "join_left us (join_right (bp, n) vs)"]) auto
qed

subsection \<open>malloc\<close>

lemma uinvD:
  assumes "uinv s bs"
  shows "0 < um_base s" "um_base s < um_brk s" "um_brk s \<le> um_limit s" "um_limit s \<le> 2 ^ 36"
    and "chain (heap s) (um_base s # map fst bs @ [um_base s])" "h_size (heap s (um_base s)) = 0" "sized (heap s) bs"
    and "spaced (um_base s) bs (um_brk s)" "freep s \<in> set (um_base s # map fst bs)" "distinct (um_base s # map fst bs)"
  using assms spaced_distinct [of "um_base s" bs "um_brk s"] by (auto simp: uinv_def sized_def)

lemma uinvI:
  assumes "uinv s bs" and "chain H (um_base s # map fst bs' @ [um_base s])" and "h_size (H (um_base s)) = 0" and "sized H bs'"
    and "spaced (um_base s) bs' (um_brk s)" and "p \<in> set (um_base s # map fst bs')"
  shows "uinv (s\<lparr>heap := H, freep := p\<rparr>) bs'"
  using assms by (auto simp: uinv_def sized_def)

text \<open>In the circular list every block has one predecessor.\<close>

lemma chain_next: "chain H (xs @ [q]) \<Longrightarrow> map (\<lambda>x. h_ptr (H x)) xs = tl (xs @ [q])"
  by (induction xs rule: induct_list012) auto

lemma chain_pred:
  assumes "uinv s bs" and "x \<in> set (um_base s # map fst bs)" and "y \<in> set (um_base s # map fst bs)"
    and "h_ptr (heap s x) = h_ptr (heap s y)"
  shows "x = y"
proof -
  let ?xs = "um_base s # map fst bs"
  have "map (\<lambda>x. h_ptr (heap s x)) ?xs = map fst bs @ [um_base s]" using chain_next [of "heap s" ?xs "um_base s"] uinvD(5) [OF assms(1)] by simp
  moreover have "distinct (map fst bs @ [um_base s])" using uinvD(10) [OF assms(1)] by auto
  ultimately have "inj_on (\<lambda>x. h_ptr (heap s x)) (set ?xs)" by (metis distinct_map)
  then show ?thesis using assms(2-4) by (auto simp: inj_on_def)
qed

lemma chain_before:
  assumes "uinv s (us @ (a, m) # vs)"
  shows "h_ptr (heap s (last (um_base s # map fst us))) = a"
proof -
  have "chain (heap s) ((um_base s # map fst us) @ a # map fst vs @ [um_base s])" using uinvD(5) [OF assms] by simp
  then have "chain (heap s) ((um_base s # map fst us) @ [a])" by (metis chain_append)
  moreover have "(um_base s # map fst us) @ [a] = butlast (um_base s # map fst us) @ last (um_base s # map fst us) # [a]"
    by (metis append.assoc append_Cons append_Nil append_butlast_last_id list.distinct(1))
  ultimately have "chain (heap s) [last (um_base s # map fst us), a]" by (metis chain_append)
  then show ?thesis by simp
qed

lemma sized_size: "(\<And>x. x \<in> set (map fst bs) \<Longrightarrow> h_size (H' x) = h_size (H x)) \<Longrightarrow> sized H' bs = sized H bs"
  unfolding sized_def by (intro ball_cong) force+

text \<open>Taking units from a block that is large enough.\<close>

lemma carve_whole:
  assumes inv: "uinv s (us @ (a, k) # vs)" and k: "0 < k" and p: "p = last (um_base s # map fst us)"
  shows "fst (carve k p a s) = adv a 1" and "uinv (snd (carve k p a s)) (us @ vs)" and "heap (snd (carve k p a s)) a = heap s a"
proof -
  let ?b = "um_base s"
  note D = uinvD [OF inv]
  have sz: "h_size (heap s a) = k" using D(7) by simp
  have pin: "p \<in> set (?b # map fst us)" unfolding p by (rule last_in_set) simp
  have d: "distinct (?b # map fst us @ a # map fst vs)" using D(10) by simp
  have "distinct ((?b # map fst us) @ a # map fst vs)" using d by simp
  then have "set (?b # map fst us) \<inter> set (a # map fst vs) = {}" unfolding distinct_append by blast
  then have "p \<notin> set (a # map fst vs)" using pin by blast
  then have pa: "p \<noteq> a" "p \<notin> set (map fst vs)" by simp_all
  let ?H = "(heap s)(p := (heap s p)\<lparr>h_ptr := h_ptr (heap s a)\<rparr>)"
  have e: "carve k p a s = (adv a 1, s\<lparr>heap := ?H, freep := p\<rparr>)" by (simp add: carve_def sz)
  show "fst (carve k p a s) = adv a 1" by (simp add: e)
  show "heap (snd (carve k p a s)) a = heap s a" using pa by (simp add: e)
  have ch: "chain (heap s) (?b # map fst us)" "chain (heap s) (a # map fst vs @ [?b])"
  proof -
    have "chain (heap s) ((?b # map fst us) @ a # map fst vs @ [?b])" using D(5) by simp
    then have 1: "chain (heap s) ((?b # map fst us) @ [a])" "chain (heap s) (a # map fst vs @ [?b])" by (metis chain_append)+
    then show "chain (heap s) (a # map fst vs @ [?b])" by simp
    show "chain (heap s) (?b # map fst us)" using 1(1) by (cases us rule: rev_cases) (auto, metis chain_append append_Cons append.assoc)
  qed
  have nx: "h_ptr (heap s a) = hd (map fst vs @ [?b])" and cv: "chain (heap s) (map fst vs @ [?b])" using ch(2) by (cases vs; simp)+
  have chain': "chain ?H (?b # map fst (us @ vs) @ [?b])"
  proof (cases us rule: rev_cases)
    case Nil
    then have pb: "p = ?b" by (simp add: p)
    have "chain ?H (map fst vs @ [?b]) = chain (heap s) (map fst vs @ [?b])" by (rule chain_upd) (use pa pb in \<open>auto simp: butlast_append\<close>)
    then show ?thesis using Nil cv nx pb by (cases vs) auto
  next
    case (snoc us' u)
    then have pu: "p = fst u" by (simp add: p)
    have "chain (heap s) (?b # map fst us' @ [p])" using ch(1) snoc pu by simp
    moreover have "p \<notin> set (?b # map fst us')" using d snoc pu by auto
    ultimately have "chain ?H (?b # map fst us' @ p # map fst vs @ [?b])" using nx by (intro link_left_block cv) (use pa in auto)
    then show ?thesis using snoc pu by simp
  qed
  have "sized ?H (us @ vs) = sized (heap s) (us @ vs)" by (rule sized_size) simp
  then have szs: "sized ?H (us @ vs)" using D(7) by simp
  have spa: "spaced ?b (us @ vs) (um_brk s)"
  proof -
    have "spaced ?b us (um_brk s)" "spaced (if us = [] then ?b else adv (fst (last us)) (snd (last us))) ((a, k) # vs) (um_brk s)"
      using D(8) by (simp_all only: spaced_append)
    then show ?thesis unfolding spaced_append by (auto intro: spaced_lo simp: adv_def)
  qed
  show "uinv (snd (carve k p a s)) (us @ vs)" unfolding e
    by (simp, rule uinvI [OF inv chain' _ szs spa]) (use pin D(6) in auto)
qed

lemma carve_part:
  assumes inv: "uinv s (us @ (a, m) # vs)" and k: "0 < k" "k < m" and p: "p \<in> set (um_base s # map fst (us @ (a, m) # vs))"
  shows "fst (carve k p a s) = adv (adv a (m - k)) 1" and "uinv (snd (carve k p a s)) (us @ (a, m - k) # vs)"
    and "h_size (heap (snd (carve k p a s)) (adv a (m - k))) = k"
proof -
  let ?b = "um_base s" and ?c = "adv a (m - k)"
  note D = uinvD [OF inv]
  have sz: "h_size (heap s a) = m" using D(7) by simp
  let ?H = "((heap s)(a := (heap s a)\<lparr>h_size := m - k\<rparr>))(?c := ((heap s)(a := (heap s a)\<lparr>h_size := m - k\<rparr>)) ?c\<lparr>h_size := k\<rparr>)"
  have e: "carve k p a s = (adv ?c 1, s\<lparr>heap := ?H, freep := p\<rparr>)" using k by (simp add: carve_def sz Let_def)
  show "fst (carve k p a s) = adv ?c 1" by (simp add: e)
  show "h_size (heap (snd (carve k p a s)) ?c) = k" by (simp add: e)
  have sp: "spaced ?b us (um_brk s)" "spaced (if us = [] then ?b else adv (fst (last us)) (snd (last us))) ((a, m) # vs) (um_brk s)"
    using D(8) by (simp_all only: spaced_append)
  have ca: "a < ?c" "?c < adv a m" using k by (simp_all add: adv_def)
  have lo: "x < a" if "x \<in> set (?b # map fst us)" for x
  proof -
    have "sorted_wrt (<) ((?b # map fst us) @ a # map fst vs)" using spaced_sorted [OF D(8)] by simp
    then show ?thesis using that unfolding sorted_wrt_append by auto
  qed
  have hi: "adv a m < x" if "x \<in> set (map fst vs)" for x
    using that sp(2) spaced_gt [of "adv a m" vs "um_brk s"] by auto
  have ne: "?c \<notin> set (?b # map fst us)" "?c \<notin> set (map fst vs)" "?c \<noteq> a" "a \<notin> set (map fst us)" "a \<notin> set (map fst vs)" "a \<noteq> ?b"
    using lo [of ?c] hi [of ?c] hi [of a] lo [of a] lo [of ?b] ca by (auto simp: adv_def dest: not_less_iff_gr_or_eq [THEN iffD1])
  have ptr: "h_ptr (?H x) = h_ptr (heap s x)" for x by simp
  have "chain ?H (?b # map fst (us @ (a, m) # vs) @ [?b])" using D(5) unfolding chain_def ptr .
  then have chain': "chain ?H (?b # map fst (us @ (a, m - k) # vs) @ [?b])" by simp
  have szs: "sized ?H (us @ (a, m - k) # vs)"
  proof -
    have "x \<noteq> a \<and> x \<noteq> ?c" if "x \<in> set (map fst us) \<or> x \<in> set (map fst vs)" for x
      using that ne(1,2,4,5) by (metis list.set_intros(2))
    then have "sized ?H us = sized (heap s) us" "sized ?H vs = sized (heap s) vs" by (intro sized_size; simp)+
    then show ?thesis using D(7) ne(3) by simp
  qed
  have spa: "spaced ?b (us @ (a, m - k) # vs) (um_brk s)"
    unfolding spaced_append using sp k ca spaced_lo [of "adv a m" vs "um_brk s" ?c] by auto
  have "h_size (?H ?b) = 0" using D(6) ne by simp
  moreover have "p \<in> set (?b # map fst (us @ (a, m - k) # vs))" using p by simp
  ultimately have "uinv (s\<lparr>heap := ?H, freep := p\<rparr>) (us @ (a, m - k) # vs)" by (intro uinvI [OF inv chain' _ szs spa])
  then show "uinv (snd (carve k p a s)) (us @ (a, m - k) # vs)" unfolding e by simp
qed

lemma malloc_walk:
  assumes "chain (heap s) (q # xs @ [r])" and "\<forall>x\<in>set xs. h_size (heap s x) < k \<and> x \<noteq> freep s"
  shows "malloc_loop k q (h_ptr (heap s q)) s = malloc_loop k (last (q # xs)) r s"
  using assms
proof (induction xs arbitrary: q)
  case (Cons x xs)
  have "h_ptr (heap s q) = x" using Cons.prems(1) by simp
  then have "malloc_loop k q (h_ptr (heap s q)) s = malloc_loop k x (h_ptr (heap s x)) s"
    using Cons.prems(2) by (subst malloc_loop.simps) simp
  also have "\<dots> = malloc_loop k (last (x # xs)) r s" using Cons.prems by (intro Cons.IH) auto
  finally show ?case by simp
qed simp

lemma rotate_chain:
  assumes inv: "uinv s bs"
  obtains zs where "chain (heap s) (freep s # zs @ [freep s])" and "freep s \<notin> set zs" and "set (freep s # zs) = set (um_base s # map fst bs)"
proof -
  let ?N = "um_base s # map fst bs" and ?f = "freep s"
  obtain as cs where N: "?N = as @ ?f # cs" using uinvD(9) [OF inv] split_list by metis
  have ch: "chain (heap s) (as @ ?f # cs @ [um_base s])" using uinvD(5) [OF inv] N by (metis append.assoc append_Cons)
  then have c1: "chain (heap s) (as @ [?f])" and c2: "chain (heap s) (?f # cs @ [um_base s])" by (metis chain_append)+
  have "chain (heap s) (?f # (cs @ as) @ [?f])"
  proof (cases as)
    case Nil
    then show ?thesis using c2 N by simp
  next
    case (Cons a as')
    then have "a = um_base s" using N by simp
    then show ?thesis using c1 c2 Cons chain_append [of "heap s" "?f # cs" "um_base s" "as' @ [?f]"] by simp
  qed
  moreover have "?f \<notin> set (cs @ as)" using uinvD(10) [OF inv] N by (metis distinct_append distinct.simps(2) not_distinct_conv_prefix Un_iff set_append disjoint_iff list.set_intros(1))
  moreover have "set (?f # cs @ as) = set ?N" using N by auto
  ultimately show ?thesis by (rule that)
qed

lemma malloc_search:
  assumes inv: "uinv s bs" and k: "0 < k"
  shows "(\<exists>us a m vs. bs = us @ (a, m) # vs \<and> k \<le> m \<and>
        malloc_loop k (freep s) (h_ptr (heap s (freep s))) s = Some (carve k (last (um_base s # map fst us)) a s)) \<or>
     (\<forall>(a, m)\<in>set bs. m < k) \<and> malloc_loop k (freep s) (h_ptr (heap s (freep s))) s =
        (case morecore k s of None \<Rightarrow> None | Some (q, s) \<Rightarrow> if q = 0 then Some (0, s) else malloc_loop k q (h_ptr (heap s q)) s)"
proof -
  let ?N = "um_base s # map fst bs" and ?f = "freep s" and ?H = "heap s"
  note D = uinvD [OF inv]
  obtain zs where z: "chain ?H (?f # zs @ [?f])" "?f \<notin> set zs" "set (?f # zs) = set ?N" using rotate_chain [OF inv] .
  show ?thesis
  proof (cases "\<exists>x\<in>set (zs @ [?f]). k \<le> h_size (?H x)")
    case True
    then obtain xs p ys where s: "zs @ [?f] = xs @ p # ys" "k \<le> h_size (?H p)" "\<forall>x\<in>set xs. h_size (?H x) < k"
      using split_list_first_prop [of "zs @ [?f]" "\<lambda>x. k \<le> h_size (?H x)"] by (auto simp: not_le)
    have xs: "set xs \<subseteq> set zs"
    proof
      fix x assume "x \<in> set xs"
      moreover have "xs = take (length xs) zs"
      proof -
        have "length xs \<le> length zs" using arg_cong [OF s(1), of length] by simp
        then show ?thesis using arg_cong [OF s(1), of "take (length xs)"] by simp
      qed
      ultimately show "x \<in> set zs" by (metis in_set_takeD)
    qed
    have "?f # zs @ [?f] = (?f # xs) @ p # ys" using s(1) by simp
    then have c: "chain ?H (?f # xs @ [p])" using z(1) by (metis chain_append append_Cons)
    let ?q = "last (?f # xs)"
    have "malloc_loop k ?f (h_ptr (?H ?f)) s = malloc_loop k ?q p s" using s(3) xs z(2) by (intro malloc_walk [OF c]) auto
    then have eq: "malloc_loop k ?f (h_ptr (?H ?f)) s = Some (carve k ?q p s)" using s(2) by (subst (asm) (2) malloc_loop.simps) simp
    have "p \<in> set (zs @ [?f])" unfolding s(1) by simp
    then have "p \<in> set ?N" using z(3) by auto
    moreover have "p \<noteq> um_base s" using s(2) D(6) k by auto
    ultimately obtain m where "(p, m) \<in> set bs" by auto
    then obtain us vs where bs: "bs = us @ (p, m) # vs" using split_list by metis
    have "h_size (?H p) = m" using D(7) bs by simp
    have "?q \<in> set (?f # xs)" by (rule last_in_set) simp
    moreover have "set (?f # xs) \<subseteq> set ?N" unfolding z(3) [symmetric] using xs by auto
    ultimately have q: "?q \<in> set ?N" by blast
    have "?f # xs @ [p] = butlast (?f # xs) @ ?q # [p]" by (metis append.assoc append_Cons append_Nil append_butlast_last_id list.distinct(1))
    then have "chain ?H [?q, p]" using c by (metis chain_append)
    then have "h_ptr (?H ?q) = h_ptr (?H (last (um_base s # map fst us)))" using chain_before [of s us p m vs] inv bs by simp
    moreover have "set (um_base s # map fst us) \<subseteq> set ?N" using bs by auto
    then have "last (um_base s # map fst us) \<in> set ?N" using last_in_set [of "um_base s # map fst us"] by blast
    ultimately have "?q = last (um_base s # map fst us)" using chain_pred [OF inv q] by blast
    then show ?thesis using eq bs s(2) \<open>h_size (?H p) = m\<close> by auto
  next
    case False
    have "malloc_loop k ?f (h_ptr (?H ?f)) s = malloc_loop k (last (?f # zs)) ?f s"
      using False z(2) by (intro malloc_walk [OF z(1)]) (auto simp: not_le)
    also have "\<dots> = (case morecore k s of None \<Rightarrow> None | Some (q, s) \<Rightarrow> if q = 0 then Some (0, s) else malloc_loop k q (h_ptr (heap s q)) s)"
      using False by (subst malloc_loop.simps) simp
    moreover have "m < k" if "(a, m) \<in> set bs" for a m
    proof -
      have "a \<in> set (zs @ [?f])" using that z(3) by force
      then show ?thesis using False D(7) that by (auto simp: sized_def not_le)
    qed
    ultimately show ?thesis by auto
  qed
qed

lemma spaced_above: "spaced lo bs hi \<Longrightarrow> x \<in> free_bytes bs \<Longrightarrow> lo < x \<and> x < hi"
  using spaced_gt [of lo bs hi] by (fastforce simp: free_bytes_def bytes_def)

lemma spaced_below: "spaced lo (us @ (a, m) # vs) hi \<Longrightarrow> x \<in> free_bytes us \<Longrightarrow> x < a"
proof (induction us arbitrary: lo)
  case (Cons u us)
  obtain c n where u: "u = (c, n)" by (cases u)
  have "adv c n < a" using Cons.prems(1) u spaced_gt [of "adv c n" "us @ (a, m) # vs" hi a m] by simp
  then show ?case using Cons u by (auto simp: bytes_def)
qed simp

lemma spaced_disjoint:
  assumes "spaced lo (us @ (a, m) # vs) hi"
  shows "bytes (a, m) \<inter> free_bytes (us @ vs) = {}"
proof -
  have "spaced (adv a m) vs hi" using assms by (simp add: spaced_append)
  then have "x \<notin> bytes (a, m)" if "x \<in> free_bytes vs" for x using spaced_above that by (fastforce simp: bytes_def)
  moreover have "x \<notin> bytes (a, m)" if "x \<in> free_bytes us" for x using spaced_below [OF assms that] by (auto simp: bytes_def)
  ultimately show ?thesis by auto
qed

lemma node_bytes: "spaced lo bs hi \<Longrightarrow> x \<in> set (map fst bs) \<Longrightarrow> x \<in> free_bytes bs"
  using spaced_gt [of lo bs hi] by (force simp: free_bytes_def bytes_def adv_def)

lemma malloc_fit:
  assumes inv: "uinv s (us @ (a, m) # vs)" and k: "0 < k" "k \<le> m" and p: "p = last (um_base s # map fst us)"
  obtains b s' bs' where "carve k p a s = (adv b 1, s')" and "uinv s' bs'" and "h_size (heap s' b) = k" and "um_brk s' = um_brk s"
    and "bytes (b, k) \<inter> free_bytes bs' = {}" and "bytes (b, k) \<union> free_bytes bs' = free_bytes (us @ (a, m) # vs)"
    and "\<And>x. x \<notin> free_bytes (us @ (a, m) # vs) \<Longrightarrow> x \<noteq> um_base s \<Longrightarrow> heap s' x = heap s x"
proof -
  let ?bs = "us @ (a, m) # vs" and ?b = "um_base s"
  note D = uinvD [OF inv]
  have sz: "h_size (heap s a) = m" using D(7) by simp
  have pin: "p \<in> set (?b # map fst us)" unfolding p by (rule last_in_set) simp
  have pf: "p \<in> free_bytes ?bs \<or> p = ?b" using pin node_bytes [OF D(8)] by auto
  have aB: "a \<in> free_bytes ?bs" using node_bytes [OF D(8)] by simp
  define b where "b = (if m = k then a else adv a (m - k))"
  define s' where "s' = snd (carve k p a s)"
  have e: "carve k p a s = (adv b 1, s')" "um_brk s' = um_brk s" "\<And>x. x \<noteq> p \<Longrightarrow> x \<noteq> a \<Longrightarrow> x \<noteq> b \<Longrightarrow> heap s' x = heap s x"
    by (simp_all add: s'_def b_def carve_def sz Let_def split: if_splits)
  have bb: "bytes (b, k) \<subseteq> bytes (a, m)" using k by (auto simp: b_def bytes_def adv_def)
  then have "b \<in> free_bytes ?bs" using k by (auto simp: bytes_def adv_def)
  then have fr: "heap s' x = heap s x" if "x \<notin> free_bytes ?bs" "x \<noteq> ?b" for x using e(3) that pf aB by metis
  show ?thesis
  proof (cases "m = k")
    case True
    note c = carve_whole [OF inv [unfolded True] k(1) p]
    show ?thesis
      using c True sz spaced_disjoint [OF D(8)] by (intro that [OF e(1) _ _ e(2) _ _ fr, of "us @ vs"]) (auto simp: s'_def b_def)
  next
    case False
    then have km: "k < m" using k by simp
    have p': "p \<in> set (?b # map fst ?bs)" using pin by auto
    note c = carve_part [OF inv k(1) km p']
    have un: "bytes (a, m) = bytes (a, m - k) \<union> bytes (b, k)" using bytes_join [of a "m - k" b k] False km by (simp add: b_def)
    have "bytes (b, k) \<inter> bytes (a, m - k) = {}" using False by (auto simp: b_def bytes_def)
    moreover have "bytes (b, k) \<inter> free_bytes (us @ vs) = {}" using bb spaced_disjoint [OF D(8)] by blast
    ultimately show ?thesis
      using c False un by (intro that [OF e(1) _ _ e(2) _ _ fr, of "us @ (a, m - k) # vs"]) (auto simp: s'_def b_def)
  qed
qed

text \<open>\<open>morecore\<close> puts the memory \<open>sbrk\<close> gives at the end of the free list.\<close>

lemma sbrk_u_small: "0 < n \<Longrightarrow> n < 2 ^ 31 \<Longrightarrow> sbrk_u n s = (if um_brk s + n \<le> um_limit s then (Some (um_brk s), s\<lparr>um_brk := um_brk s + n\<rparr>) else (None, s))"
proof -
  assume n: "0 < n" "n < 2 ^ 31"
  have "sint (of_nat n :: 32 word) = int n" using n by (simp add: signed_of_nat signed_take_bit_int_eq_self)
  then show ?thesis using n(1) by (simp add: sbrk_u_def Let_def nat_add_distrib flip: of_nat_add)
qed

lemma morecore_spec:
  assumes inv: "uinv s bs" and k: "0 < k" "k < 2 ^ 27" and nu: "nu = (if k < 4096 then 4096 else k)"
  shows "um_limit s < adv (um_brk s) nu \<and> morecore k s = Some (0, s) \<or>
    (\<exists>s' bs'. morecore k s = Some (freep s', s') \<and> freep s' \<noteq> 0 \<and> uinv s' bs' \<and> um_brk s' = adv (um_brk s) nu \<and> um_base s' = um_base s \<and>
      (\<exists>(a, m)\<in>set bs'. k \<le> m) \<and> free_bytes bs' = free_bytes bs \<union> {um_brk s..<um_brk s'} \<and>
      (\<forall>x. x \<notin> free_bytes bs \<longrightarrow> x < um_brk s \<longrightarrow> x \<noteq> um_base s \<longrightarrow> heap s' x = heap s x))"
proof (cases "adv (um_brk s) nu \<le> um_limit s")
  case False
  then show ?thesis using k nu by (auto simp: morecore_def sbrk_u_small adv_def Let_def mult.commute)
next
  case True
  let ?hp = "um_brk s" and ?b = "um_base s"
  define t where "t = s\<lparr>um_brk := adv ?hp nu, heap := (heap s)(?hp := (heap s ?hp)\<lparr>h_size := nu\<rparr>)\<rparr>"
  note D = uinvD [OF inv]
  have nu0: "0 < nu" "nu < 2 ^ 27" "k \<le> nu" using k nu by auto
  have top: "x < ?hp" if "x \<in> set (?b # map fst bs)" for x
    using that D(2) spaced_gt [OF D(8)] by (fastforce simp: adv_def)
  have ne: "heap t x = heap s x" if "x \<in> set (?b # map fst bs)" for x using top [OF that] by (simp add: t_def)
  have invt: "uinv t bs"
  proof -
    have "chain (heap t) (?b # map fst bs @ [?b]) = chain (heap s) (?b # map fst bs @ [?b])"
      by (rule chain_cong) (use top in \<open>auto simp: t_def dest: in_set_butlastD\<close>)
    moreover have "sized (heap t) bs = sized (heap s) bs" by (rule sized_size) (use ne in simp)
    moreover have "h_size (heap t ?b) = 0" using D(2,6) by (simp add: t_def)
    moreover have "spaced ?b bs (adv ?hp nu)" using spaced_top [OF D(8)] by (simp add: adv_def)
    ultimately show ?thesis using D True by (simp add: uinv_def t_def sized_def adv_def)
  qed
  have us: "\<forall>(a, m)\<in>set bs. adv a m \<le> ?hp" using spaced_gt [OF D(8)] by auto
  have "adv ?hp nu \<le> um_brk t" "h_size (heap t ?hp) = nu" "um_base t < ?hp" using D(2) by (simp_all add: t_def)
  then obtain s' where s': "free (adv ?hp 1) t = Some s'" "uinv s' (join_left bs (join_right (?hp, nu) []))" "freep s' = last (um_base t # map fst bs)"
    "um_brk s' = um_brk t" "um_base s' = um_base t" "\<And>x. x \<notin> set (um_base t # ?hp # map fst bs) \<Longrightarrow> heap s' x = heap t x"
    using free_spec [of t bs "[]" ?hp nu] invt nu0(1) us by (metis append_Nil2 empty_iff empty_set)
  let ?bs = "join_left bs (join_right (?hp, nu) [])"
  have "morecore k s = Some (freep s', s')"
    using s'(1) True nu0(1,2) by (simp add: morecore_def nu [symmetric] Let_def sbrk_u_small adv_def mult.commute t_def)
  moreover have "freep s' \<noteq> 0" using s'(3) last_in_set [of "um_base t # map fst bs"] uinvD(1,9) [OF s'(2)] spaced_gt [OF uinvD(8) [OF s'(2)]] by fastforce
  moreover have "\<exists>(a, m)\<in>set ?bs. k \<le> m"
    using nu0(3) by (cases bs rule: rev_cases) (auto simp: join_left_def join_right_def)
  moreover have "free_bytes ?bs = free_bytes bs \<union> {um_brk s..<um_brk s'}"
    using joined_bytes [of ?b bs "[]" "um_brk t" nu ?hp] uinvD(8) [OF invt] nu0(1) us D(2) s'(4) by (simp add: t_def bytes_def)
  moreover have "heap s' x = heap s x" if "x \<notin> free_bytes bs" "x < um_brk s" "x \<noteq> um_base s" for x
  proof -
    have "x \<notin> set (um_base t # ?hp # map fst bs)" using that node_bytes [OF D(8), of x] by (auto simp: t_def)
    then show ?thesis using s'(6) that(2) by (simp add: t_def)
  qed
  ultimately show ?thesis using s'(2,4,5) by (intro disjI2 exI [of _ s'] exI [of _ ?bs]) (auto simp: t_def)
qed

text \<open>Property C31: \<open>malloc\<close> terminates for every request below \<open>2 ^ 31 - 32\<close> bytes. Either it returns 0, with no free block large
  enough and the rest of the address space too small for \<open>sbrk\<close>, and then nothing has changed; or it returns the address behind the header
  of a block of \<open>k\<close> units, room for \<open>nbytes\<close> bytes, that was free or is new memory from \<open>sbrk\<close> and is not free any more. The free list
  stays well formed and the headers of all blocks allocated before keep their contents.\<close>

theorem malloc_correct:
  assumes inv: "uinv s bs" and nb: "nbytes < 2 ^ 31 - 32" and k: "k = (nbytes + 15) div 16 + 1"
  shows "\<exists>r s' bs'. malloc nbytes s = Some (r, s') \<and> uinv s' bs' \<and>
     (if r = 0 then s' = s \<and> bs' = bs \<and> (\<forall>(a, m)\<in>set bs. m < k) \<and> um_limit s < adv (um_brk s) (if k < 4096 then 4096 else k)
      else (\<exists>b. r = adv b 1 \<and> h_size (heap s' b) = k \<and> nbytes \<le> 16 * (k - 1) \<and> bytes (b, k) \<inter> free_bytes bs' = {} \<and>
        bytes (b, k) \<union> free_bytes bs' = free_bytes bs \<union> {um_brk s..<um_brk s'})) \<and>
     (\<forall>x. x \<notin> free_bytes bs \<longrightarrow> x < um_brk s \<longrightarrow> x \<noteq> um_base s \<longrightarrow> heap s' x = heap s x)"
proof -
  have kk: "0 < k" "k < 2 ^ 27" "nbytes \<le> 16 * (k - 1)" "((nbytes + 16 - 1) div 16 + 1) mod 2 ^ 32 = k"
  proof -
    have "k \<le> (2 ^ 31 - 33 + 15) div 16 + 1" using nb unfolding k by (intro add_mono div_le_mono) simp_all
    then show "k < 2 ^ 27" by simp
    then show "((nbytes + 16 - 1) div 16 + 1) mod 2 ^ 32 = k" using k by simp
    show "0 < k" by (simp add: k)
    show "nbytes \<le> 16 * (k - 1)" unfolding k by simp
  qed
  have "freep s \<noteq> 0" using uinvD(1,9) [OF inv] spaced_gt [OF uinvD(8) [OF inv]] by fastforce
  then have init: "malloc_init s = s" by (simp add: malloc_init_def)
  have e: "malloc nbytes s = malloc_loop k (freep s) (h_ptr (heap s (freep s))) s"
    unfolding malloc_def Let_def init kk(4) ..
  have fit: "\<exists>b s' bs'. malloc_loop k (freep t) (h_ptr (heap t (freep t))) t = Some (adv b 1, s') \<and> uinv s' bs' \<and> h_size (heap s' b) = k \<and>
      um_brk s' = um_brk t \<and> bytes (b, k) \<inter> free_bytes bs' = {} \<and> bytes (b, k) \<union> free_bytes bs' = free_bytes ts \<and>
      (\<forall>x. x \<notin> free_bytes ts \<longrightarrow> x \<noteq> um_base t \<longrightarrow> heap s' x = heap t x)"
    if "uinv t ts" "\<exists>us a m vs. ts = us @ (a, m) # vs \<and> k \<le> m \<and>
        malloc_loop k (freep t) (h_ptr (heap t (freep t))) t = Some (carve k (last (um_base t # map fst us)) a t)" for t ts
    using that malloc_fit [OF _ kk(1)] by (metis (no_types, lifting))
  show ?thesis using malloc_search [OF inv kk(1)]
  proof (elim disjE conjE)
    assume "\<exists>us a m vs. bs = us @ (a, m) # vs \<and> k \<le> m \<and>
        malloc_loop k (freep s) (h_ptr (heap s (freep s))) s = Some (carve k (last (um_base s # map fst us)) a s)"
    from fit [OF inv this] obtain b s' bs' where m: "malloc_loop k (freep s) (h_ptr (heap s (freep s))) s = Some (adv b 1, s')" "uinv s' bs'"
      "h_size (heap s' b) = k" "um_brk s' = um_brk s" "bytes (b, k) \<inter> free_bytes bs' = {}" "bytes (b, k) \<union> free_bytes bs' = free_bytes bs"
      "\<And>x. x \<notin> free_bytes bs \<Longrightarrow> x \<noteq> um_base s \<Longrightarrow> heap s' x = heap s x" by blast
    then show ?thesis using kk(3) unfolding e by (intro exI [of _ "adv b 1"] exI [of _ s'] exI [of _ bs']) (auto simp: adv_def)
  next
    assume none: "\<forall>(a, m)\<in>set bs. m < k" and ml: "malloc_loop k (freep s) (h_ptr (heap s (freep s))) s =
        (case morecore k s of None \<Rightarrow> None | Some (q, s) \<Rightarrow> if q = 0 then Some (0, s) else malloc_loop k q (h_ptr (heap s q)) s)"
    show ?thesis using morecore_spec [OF inv kk(1,2) refl]
    proof (elim disjE conjE exE)
      assume "um_limit s < adv (um_brk s) (if k < 4096 then 4096 else k)" "morecore k s = Some (0, s)"
      then show ?thesis using ml none inv unfolding e by (intro exI [of _ 0] exI [of _ s] exI [of _ bs]) auto
    next
      fix t ts assume t: "morecore k s = Some (freep t, t)" "freep t \<noteq> 0" "uinv t ts" "um_brk t = adv (um_brk s) (if k < 4096 then 4096 else k)"
        "um_base t = um_base s" "\<exists>(a, m)\<in>set ts. k \<le> m" "free_bytes ts = free_bytes bs \<union> {um_brk s..<um_brk t}"
        "\<forall>x. x \<notin> free_bytes bs \<longrightarrow> x < um_brk s \<longrightarrow> x \<noteq> um_base s \<longrightarrow> heap t x = heap s x"
      have "\<exists>us a m vs. ts = us @ (a, m) # vs \<and> k \<le> m \<and>
          malloc_loop k (freep t) (h_ptr (heap t (freep t))) t = Some (carve k (last (um_base t # map fst us)) a t)"
        using malloc_search [OF t(3) kk(1)] t(6) by fastforce
      from fit [OF t(3) this] obtain b s' bs' where m: "malloc_loop k (freep t) (h_ptr (heap t (freep t))) t = Some (adv b 1, s')" "uinv s' bs'"
        "h_size (heap s' b) = k" "um_brk s' = um_brk t" "bytes (b, k) \<inter> free_bytes bs' = {}" "bytes (b, k) \<union> free_bytes bs' = free_bytes ts"
        "\<And>x. x \<notin> free_bytes ts \<Longrightarrow> x \<noteq> um_base t \<Longrightarrow> heap s' x = heap t x" by blast
      have "malloc nbytes s = Some (adv b 1, s')" unfolding e ml using t(1,2) m(1) by simp
      moreover have "heap s' x = heap s x" if "x \<notin> free_bytes bs" "x < um_brk s" "x \<noteq> um_base s" for x
        using that m(7) [of x] t(5,7,8) by auto
      ultimately show ?thesis using m(2-6) t(7) kk(3) by (intro exI [of _ "adv b 1"] exI [of _ s'] exI [of _ bs']) (auto simp: adv_def)
    qed
  qed
qed

lemma sbrk_u_overflow:
  assumes "um_brk s < 2 ^ 31"
  shows "sbrk_u (2 ^ 27 * 16) s = (Some (um_brk s), s)"
  using assms by (simp add: sbrk_u_def)

text \<open>The heap of a program that has called \<open>malloc\<close> for the first time.\<close>

lemma uinv_init:
  assumes "freep s = 0" and "0 < um_base s" and "um_base s < um_brk s" and "um_brk s \<le> um_limit s" and "um_limit s \<le> 2 ^ 36"
  shows "uinv (malloc_init s) []"
  using assms by (simp add: malloc_init_def uinv_def)

definition um0 :: umem where
  "um0 = malloc_init \<lparr>heap = (\<lambda>_. \<lparr>h_ptr = 0, h_size = 4\<rparr>), freep = 0, um_base = 4096, um_brk = 16384, um_limit = 1000000\<rparr>"

lemma uinv_um0: "uinv um0 []"
  unfolding um0_def by (rule uinv_init) simp_all

lemma um0_simps [simp]: "um_base um0 = 4096" "um_brk um0 = 16384" "um_limit um0 = 1000000" "x \<noteq> 4096 \<Longrightarrow> h_size (heap um0 x) = 4"
  by (simp_all add: um0_def malloc_init_def)

theorem free_correct_witness: "\<exists>s' bs'. free (adv 8192 1) um0 = Some s' \<and> uinv s' bs' \<and> free_bytes bs' = {8192..<8256}"
  using free_correct [OF uinv_um0, of 8192 4] by (auto simp: adv_def bytes_def)

theorem malloc_correct_witness: "\<exists>r s' bs'. malloc 100 um0 = Some (r, s') \<and> uinv s' bs' \<and> r \<noteq> 0"
  using malloc_correct [OF uinv_um0, of 100 8] by (auto simp: adv_def split: if_splits)

end
