(* ===== verification/Shell.thy ===== *)
theory Shell
  imports User
begin

text \<open>
  \<open>user/sh.c\<close>: the tokenizer, the recursive-descent parser, \<open>nulterminate\<close>, and \<open>runcmd\<close> with the main loop of the shell.
\<close>

subsection \<open>Tokens\<close>

text \<open>The line is a string without NUL; a pointer into it is a position, \<open>es\<close> its length. \<open>ch\<close> reads a character, the NUL at the end
  included.\<close>

definition whitespace :: string where
  "whitespace = '' '' @ [CHR 0x09, CHR 0x0D, CHR 0x0A, CHR 0x0B]"

definition symbols :: string where
  "symbols = ''<|>&;()''"

definition ch :: "string \<Rightarrow> nat \<Rightarrow> char" where
  "ch s i = (if i < length s then s ! i else CHR 0x00)"

text \<open>The loops that move \<open>s\<close> forward while it is below \<open>es\<close> and the character satisfies \<open>P\<close>.\<close>

definition skip :: "(char \<Rightarrow> bool) \<Rightarrow> string \<Rightarrow> nat \<Rightarrow> nat" where
  "skip P s i = i + length (takeWhile P (drop i s))"

abbreviation (input) white :: "char \<Rightarrow> bool" where "white c \<equiv> c \<in> set whitespace"

definition word :: "char \<Rightarrow> bool" where
  "word c \<longleftrightarrow> c \<notin> set whitespace \<and> c \<notin> set symbols"

text \<open>\<open>gettoken\<close> returns the kind of token, where it starts and ends, and where the next one starts.\<close>

definition gettoken :: "string \<Rightarrow> nat \<Rightarrow> char \<times> nat \<times> nat \<times> nat" where
  "gettoken s i =
     (let q = skip white s i; c = ch s q;
          (ret, eq) =
            (if c = CHR 0x00 then (c, q)
             else if c \<in> set ''|();&<'' then (c, q + 1)
             else if c = CHR ''>'' then (if ch s (q + 1) = CHR ''>'' then (CHR ''+'', q + 2) else (c, q + 1))
             else (CHR ''a'', skip word s q))
      in (ret, q, eq, skip white s eq))"

definition peek :: "string \<Rightarrow> nat \<Rightarrow> string \<Rightarrow> nat \<times> bool" where
  "peek s i toks = (let i = skip white s i in (i, ch s i \<noteq> CHR 0x00 \<and> ch s i \<in> set toks))"

subsection \<open>Commands\<close>

text \<open>The five structs, with the strings in them: for the parser a string is a pair of positions, \<open>argv\<close> and \<open>eargv\<close> or \<open>file\<close> and \<open>efile\<close>.\<close>

datatype 't cmd =
    ExecCmd "'t list"
  | RedirCmd "'t cmd" 't nat int
  | PipeCmd "'t cmd" "'t cmd"
  | ListCmd "'t cmd" "'t cmd"
  | BackCmd "'t cmd"

type_synonym pcmd = "(nat \<times> nat) cmd"

abbreviation (input) MAXARGS :: nat where "MAXARGS \<equiv> 10"

text \<open>A parser function ends in \<open>panic(msg)\<close>, with \<open>Inl msg\<close>, or returns.\<close>

type_synonym 'a parsed = "string + 'a"

text \<open>Reading a token moves forward, unless the end is reached.\<close>

lemma skip_bounds: "i \<le> skip P s i" "i \<le> length s \<Longrightarrow> skip P s i \<le> length s"
  using length_takeWhile_le [of P "drop i s"] by (auto simp: skip_def)

lemma skip_ge: "length s \<le> i \<Longrightarrow> skip P s i = i"
  by (simp add: skip_def)

lemma skip_nth:
  assumes "i \<le> j" and "j < skip P s i"
  shows "j < length s" and "P (s ! j)"
proof -
  have j: "j - i < length (takeWhile P (drop i s))" using assms by (simp add: skip_def)
  then have "j - i < length (drop i s)" using length_takeWhile_le [of P "drop i s"] by linarith
  then show "j < length s" using assms(1) by simp
  have "takeWhile P (drop i s) ! (j - i) = s ! j" using takeWhile_nth [OF j] j length_takeWhile_le [of P "drop i s"] assms(1) by simp
  then show "P (s ! j)" using set_takeWhileD [of "takeWhile P (drop i s) ! (j - i)" P] nth_mem [OF j] by metis
qed

lemma skip_stop: "skip P s i < length s \<Longrightarrow> \<not> P (s ! skip P s i)"
  using nth_length_takeWhile [of P "drop i s"] by (auto simp: skip_def)

lemma gettoken_bounds:
  assumes "gettoken s i = (ret, q, eq, j)"
  shows "i \<le> q" and "q \<le> eq" and "eq \<le> j" and "i \<le> length s \<Longrightarrow> j \<le> length s" and "ret \<noteq> CHR 0x00 \<Longrightarrow> q < eq" and "ret \<noteq> CHR 0x00 \<Longrightarrow> q < length s"
proof -
  have q: "q = skip white s i" "j = skip white s eq" using assms by (auto simp: gettoken_def Let_def split: prod.splits)
  then show "i \<le> q" "eq \<le> j" using skip_bounds by auto
  have e: "eq = (if ch s q = CHR 0x00 then q else if ch s q \<in> set ''|();&<'' then q + 1
      else if ch s q = CHR ''>'' then (if ch s (q + 1) = CHR ''>'' then q + 2 else q + 1) else skip word s q)"
    and r: "ret = CHR 0x00 \<longleftrightarrow> ch s q = CHR 0x00"
    using assms q(1) by (auto simp: gettoken_def Let_def split: if_splits)
  show "q \<le> eq" unfolding e using skip_bounds [where i = q and P = word and s = s] by auto
  show "j \<le> length s" if "i \<le> length s"
  proof -
    have ql: "q \<le> length s" using q skip_bounds that by simp
    then have "eq \<le> length s" unfolding e using skip_bounds(2) [OF ql, of word] by (auto simp: ch_def split: if_splits)
    then show ?thesis using q skip_bounds by simp
  qed
  assume "ret \<noteq> CHR 0x00"
  then have c: "ch s q \<noteq> CHR 0x00" using r by simp
  then show l: "q < length s" by (auto simp: ch_def split: if_splits)
  show "q < eq"
  proof (cases "word (s ! q)")
    case True
    then have "q < skip word s q" using l by (simp add: skip_def takeWhile_eq_Nil_iff hd_drop_conv_nth)
    then show ?thesis using c unfolding e by auto
  next
    case False
    have "s ! q \<notin> set whitespace" using skip_stop [of white s i] l q(1) by simp
    then have "ch s q \<in> set symbols" using False l by (simp add: word_def ch_def)
    then show ?thesis unfolding e using c by (auto simp: symbols_def)
  qed
qed

lemma peek_bounds: "peek s i toks = (j, b) \<Longrightarrow> i \<le> j \<and> (i \<le> length s \<longrightarrow> j \<le> length s) \<and> (b \<longrightarrow> j < length s)"
  using skip_bounds [where i = i and P = white and s = s] by (auto simp: peek_def Let_def ch_def split: if_splits)

text \<open>After \<open>peek\<close> has seen something, \<open>gettoken\<close> moves.\<close>

lemma peek_gettoken:
  assumes "peek s i toks = (j, True)" and "gettoken s j = (ret, q, eq, k)"
  shows "j < k"
proof -
  have j: "j = skip white s i" "ch s j \<noteq> CHR 0x00" using assms(1) by (auto simp: peek_def Let_def)
  then have jl: "j < length s" by (auto simp: ch_def split: if_splits)
  have "\<not> white (s ! j)" using skip_stop [of white s i] j(1) jl by simp
  then have "skip white s j = j" using jl by (simp add: skip_def takeWhile_eq_Nil_iff hd_drop_conv_nth)
  then have "ret \<noteq> CHR 0x00" using assms(2) j(2) by (auto simp: gettoken_def Let_def split: if_splits)
  then show ?thesis using gettoken_bounds [OF assms(2)] by linarith
qed

subsection \<open>The parser\<close>

abbreviation (input) O_RDONLY_u :: nat where "O_RDONLY_u \<equiv> 0"
abbreviation (input) O_WRONLY_u :: nat where "O_WRONLY_u \<equiv> 1"
abbreviation (input) O_CREATE_u :: nat where "O_CREATE_u \<equiv> 512"
abbreviation (input) O_TRUNC_u :: nat where "O_TRUNC_u \<equiv> 1024"

text \<open>The five constructors; \<open>malloc\<close> always succeeds for them.\<close>

definition execcmd :: pcmd where
  "execcmd = ExecCmd []"

definition redircmd :: "pcmd \<Rightarrow> nat \<Rightarrow> nat \<Rightarrow> nat \<Rightarrow> int \<Rightarrow> pcmd" where
  "redircmd subcmd q eq mode fd = RedirCmd subcmd (q, eq) mode fd"

definition pipecmd :: "pcmd \<Rightarrow> pcmd \<Rightarrow> pcmd" where
  "pipecmd left right = PipeCmd left right"

definition listcmd :: "pcmd \<Rightarrow> pcmd \<Rightarrow> pcmd" where
  "listcmd left right = ListCmd left right"

definition backcmd :: "pcmd \<Rightarrow> pcmd" where
  "backcmd subcmd = BackCmd subcmd"

function parseredirs :: "string \<Rightarrow> pcmd \<Rightarrow> nat \<Rightarrow> (pcmd \<times> nat) parsed" where
  "parseredirs s c i =
     (case peek s i ''<>'' of (i, b) \<Rightarrow>
        if \<not> b then Inr (c, i)
        else
          case gettoken s i of (tok, _, _, i) \<Rightarrow>
          case gettoken s i of (t, q, eq, i) \<Rightarrow>
            if t \<noteq> CHR ''a'' then Inl ''missing file for redirection''
            else if tok = CHR ''<'' then parseredirs s (redircmd c q eq O_RDONLY_u 0) i
            else if tok = CHR ''>'' then parseredirs s (redircmd c q eq (O_WRONLY_u + O_CREATE_u + O_TRUNC_u) 1) i
            else if tok = CHR ''+'' then parseredirs s (redircmd c q eq (O_WRONLY_u + O_CREATE_u) 1) i
            else parseredirs s c i)"
  by pat_completeness auto

lemma peek_gettoken2:
  assumes "(j, b) = peek s i toks" and "b" and "(t, x) = gettoken s j" and "(q, e, k) = x" and "(t', y) = gettoken s k" and "(q', e', l) = y"
  shows "length s - l < length s - i" and "i \<le> l" and "i \<le> length s \<Longrightarrow> l \<le> length s"
proof -
  have "j < k" "j < length s" "i \<le> j" using peek_gettoken [of s i toks j t q e k] peek_bounds [of s i toks j b] assms by auto
  moreover have "k \<le> l" "k \<le> length s \<Longrightarrow> l \<le> length s" "j \<le> length s \<Longrightarrow> k \<le> length s"
    using gettoken_bounds(1-4) [of s k t' q' e' l] gettoken_bounds(4) [of s j t q e k] assms by auto
  ultimately show "length s - l < length s - i" "i \<le> l" "i \<le> length s \<Longrightarrow> l \<le> length s" by auto
qed

termination parseredirs
  by (relation "measure (\<lambda>(s, c, i). length s - i)") (use peek_gettoken2(1) in auto)

declare parseredirs.simps [simp del]

text \<open>\<open>cmd->argv[argc++] = q\<close>: the exec command is the innermost one, below the redirections wrapped around it.\<close>

fun add_arg :: "nat \<times> nat \<Rightarrow> pcmd \<Rightarrow> pcmd" where
  "add_arg a (ExecCmd argv) = ExecCmd (argv @ [a])"
| "add_arg a (RedirCmd c f mode fd) = RedirCmd (add_arg a c) f mode fd"
| "add_arg a c = c"

text \<open>The loop of \<open>parseexec\<close>.\<close>

function parseargs :: "string \<Rightarrow> nat \<Rightarrow> pcmd \<Rightarrow> nat \<Rightarrow> (pcmd \<times> nat) parsed" where
  "parseargs s argc ret i =
     (case peek s i ''|)&;'' of (i, b) \<Rightarrow>
        if b then Inr (ret, i)
        else
          case gettoken s i of (tok, q, eq, i) \<Rightarrow>
            if tok = CHR 0x00 then Inr (ret, i)
            else if tok \<noteq> CHR ''a'' then Inl ''syntax''
            else if MAXARGS \<le> argc + 1 then Inl ''too many args''
            else
              case parseredirs s (add_arg (q, eq) ret) i of
                Inl e \<Rightarrow> Inl e
              | Inr (ret, i) \<Rightarrow> parseargs s (argc + 1) ret i)"
  by pat_completeness auto
termination
  by (relation "measure (\<lambda>(s, argc, c, i). MAXARGS - argc)") auto

declare parseargs.simps [simp del]

text \<open>The loop of \<open>parseline\<close> over the ampersands.\<close>

function parsebacks :: "string \<Rightarrow> pcmd \<Rightarrow> nat \<Rightarrow> pcmd \<times> nat" where
  "parsebacks s c i =
     (case peek s i ''&'' of (i, b) \<Rightarrow>
        if b then (case gettoken s i of (_, _, _, i) \<Rightarrow> parsebacks s (backcmd c) i) else (c, i))"
  by pat_completeness auto

lemma peek_gettoken1:
  assumes "(j, b) = peek s i toks" and "b" and "(t, x) = gettoken s j" and "(q, e, k) = x"
  shows "length s - k < length s - i" and "i < k" and "i \<le> length s \<Longrightarrow> k \<le> length s"
proof -
  have "j < k" "j < length s" "i \<le> j" using peek_gettoken [of s i toks j t q e k] peek_bounds [of s i toks j b] assms by auto
  moreover have "j \<le> length s \<Longrightarrow> k \<le> length s" using gettoken_bounds(4) [of s j t q e k] assms by auto
  ultimately show "length s - k < length s - i" "i < k" "i \<le> length s \<Longrightarrow> k \<le> length s" by auto
qed

termination parsebacks
  by (relation "measure (\<lambda>(s, c, i). length s - i)") (use peek_gettoken1(1) in auto)

declare parsebacks.simps [simp del]

text \<open>The recursive functions of the parser call each other; \<open>None\<close> is the recursion running out of the depth it is given.\<close>

type_synonym 'a parser = "'a parsed option"

definition andthen_q :: "(pcmd \<times> nat) parser \<Rightarrow> (pcmd \<Rightarrow> nat \<Rightarrow> 'b parser) \<Rightarrow> 'b parser" where
  "andthen_q m f = (case m of None \<Rightarrow> None | Some (Inl e) \<Rightarrow> Some (Inl e) | Some (Inr (c, i)) \<Rightarrow> f c i)"

lemma andthen_q_simps [simp]:
  "andthen_q None f = None" "andthen_q (Some (Inl e)) f = Some (Inl e)" "andthen_q (Some (Inr (c, i))) f = f c i"
  by (simp_all add: andthen_q_def)

fun parseline :: "nat \<Rightarrow> string \<Rightarrow> nat \<Rightarrow> (pcmd \<times> nat) parser"
  and parsepipe :: "nat \<Rightarrow> string \<Rightarrow> nat \<Rightarrow> (pcmd \<times> nat) parser"
  and parseblock :: "nat \<Rightarrow> string \<Rightarrow> nat \<Rightarrow> (pcmd \<times> nat) parser"
  and parseexec :: "nat \<Rightarrow> string \<Rightarrow> nat \<Rightarrow> (pcmd \<times> nat) parser" where
  "parseline 0 s i = None"
| "parseline (Suc n) s i =
     andthen_q (parsepipe n s i) (\<lambda>c i.
       case parsebacks s c i of (c, i) \<Rightarrow>
       case peek s i '';'' of (i, b) \<Rightarrow>
         if b then (case gettoken s i of (_, _, _, i) \<Rightarrow> andthen_q (parseline n s i) (\<lambda>d i. Some (Inr (listcmd c d, i))))
         else Some (Inr (c, i)))"
| "parsepipe 0 s i = None"
| "parsepipe (Suc n) s i =
     andthen_q (parseexec n s i) (\<lambda>c i.
       case peek s i ''|'' of (i, b) \<Rightarrow>
         if b then (case gettoken s i of (_, _, _, i) \<Rightarrow> andthen_q (parsepipe n s i) (\<lambda>d i. Some (Inr (pipecmd c d, i))))
         else Some (Inr (c, i)))"
| "parseblock 0 s i = None"
| "parseblock (Suc n) s i =
     (case peek s i ''('' of (i, b) \<Rightarrow>
        if \<not> b then Some (Inl ''parseblock'')
        else
          case gettoken s i of (_, _, _, i) \<Rightarrow>
            andthen_q (parseline n s i) (\<lambda>c i.
              case peek s i '')'' of (i, b) \<Rightarrow>
                if \<not> b then Some (Inl ''syntax - missing )'')
                else (case gettoken s i of (_, _, _, i) \<Rightarrow> Some (parseredirs s c i))))"
| "parseexec 0 s i = None"
| "parseexec (Suc n) s i =
     (case peek s i ''('' of (i, b) \<Rightarrow>
        if b then parseblock n s i
        else andthen_q (Some (parseredirs s execcmd i)) (\<lambda>ret i. Some (parseargs s 0 ret i)))"

subsection \<open>parsecmd and nulterminate\<close>

text \<open>\<open>nulterminate\<close> stores a NUL behind every string of the command, in the buffer that holds the line.\<close>

fun nulterminate :: "pcmd \<Rightarrow> string \<Rightarrow> string" where
  "nulterminate (ExecCmd argv) b = fold (\<lambda>(q, eq) b. b[eq := CHR 0x00]) argv b"
| "nulterminate (RedirCmd c (q, eq) mode fd) b = (nulterminate c b)[eq := CHR 0x00]"
| "nulterminate (PipeCmd left right) b = nulterminate right (nulterminate left b)"
| "nulterminate (ListCmd left right) b = nulterminate right (nulterminate left b)"
| "nulterminate (BackCmd c) b = nulterminate c b"

text \<open>The depth is enough for every line, see below. An error is what is printed before \<open>exit(1)\<close>.\<close>

definition parsecmd :: "string \<Rightarrow> (pcmd \<times> string) parser" where
  "parsecmd s =
     andthen_q (parseline (4 * length s + 4) s 0) (\<lambda>c i.
       case peek s i '''' of (i, _) \<Rightarrow>
         if i \<noteq> length s then Some (Inl (''leftovers: '' @ drop i s @ [CHR 0x0A] @ ''syntax''))
         else Some (Inr (c, nulterminate c (s @ [CHR 0x00]))))"

text \<open>The C string at position \<open>p\<close> of a buffer.\<close>

definition cstr :: "string \<Rightarrow> nat \<Rightarrow> string" where
  "cstr b p = takeWhile (\<lambda>c. c \<noteq> CHR 0x00) (drop p b)"

subsection \<open>Running commands\<close>

text \<open>\<open>panic\<close>, \<open>fork1\<close> and \<open>runcmd\<close> do not come back; the strings of the command are read from the buffer \<open>b\<close>.\<close>

definition panic_u :: "string \<Rightarrow> 'a prog" where
  "panic_u s = andthen_p (fprintf 2 (''%s'' @ [CHR 0x0A]) [UStr (Some s)]) (\<lambda>_. Exit 1)"

definition fork1 :: "(int \<Rightarrow> 'a prog) \<Rightarrow> 'a prog" where
  "fork1 k = Sys SysFork (\<lambda>r. if r_ret r = -1 then panic_u ''fork'' else k (r_ret r))"

abbreviation (input) sys_then :: "sysc \<Rightarrow> 'a prog \<Rightarrow> 'a prog" where
  "sys_then c m \<equiv> Sys c (\<lambda>_. m)"

primrec runcmd :: "string \<Rightarrow> pcmd \<Rightarrow> 'a prog" where
  "runcmd b (ExecCmd argv) =
     (case argv of
        [] \<Rightarrow> Exit 1
      | a # _ \<Rightarrow>
          sys_then (SysExec (cstr b (fst a)) (map (cstr b \<circ> fst) argv))
            (andthen_p (fprintf 2 (''exec %s failed'' @ [CHR 0x0A]) [UStr (Some (cstr b (fst a)))]) (\<lambda>_. Exit 0)))"
| "runcmd b (RedirCmd c f mode fd) =
     sys_then (SysClose fd) (Sys (SysOpen (cstr b (fst f)) mode) (\<lambda>r.
       if r_ret r < 0 then andthen_p (fprintf 2 (''open %s failed'' @ [CHR 0x0A]) [UStr (Some (cstr b (fst f)))]) (\<lambda>_. Exit 1)
       else runcmd b c))"
| "runcmd b (ListCmd left right) =
     fork1 (\<lambda>pid. if pid = 0 then runcmd b left else sys_then SysWait (runcmd b right))"
| "runcmd b (PipeCmd left right) =
     Sys SysPipe (\<lambda>r.
       if r_ret r < 0 then panic_u ''pipe''
       else
         (case r_pipe r of (p0, p1) \<Rightarrow>
            fork1 (\<lambda>pid.
              if pid = 0 then sys_then (SysClose 1) (sys_then (SysDup p1) (sys_then (SysClose p0) (sys_then (SysClose p1) (runcmd b left))))
              else
                fork1 (\<lambda>pid.
                  if pid = 0 then sys_then (SysClose 0) (sys_then (SysDup p0) (sys_then (SysClose p0) (sys_then (SysClose p1) (runcmd b right))))
                  else sys_then (SysClose p0) (sys_then (SysClose p1) (sys_then SysWait (sys_then SysWait (Exit 0))))))))"
| "runcmd b (BackCmd c) = fork1 (\<lambda>pid. if pid = 0 then runcmd b c else Exit 0)"

text \<open>\<open>getcmd\<close> returns the line in the buffer of 100 bytes, \<open>None\<close> at the end of the input.\<close>

definition getcmd :: "nat \<Rightarrow> string option prog" where
  "getcmd nbuf =
     Sys (SysWrite 2 ''$ '') (\<lambda>_. andthen_p (gets nbuf) (\<lambda>buf.
       Done (if cstr buf 0 = [] then None else Some (cstr buf 0))))"

definition open_console :: "unit \<Rightarrow> (unit + unit) prog" where
  "open_console _ =
     Sys (SysOpen ''console'' 2) (\<lambda>r.
       if r_ret r < 0 then Done (Inr ())
       else if r_ret r \<ge> 3 then Sys (SysClose (r_ret r)) (\<lambda>_. Done (Inr ()))
       else Done (Inl ()))"

text \<open>The parser runs in the child. A parser that ran out of depth would be a child that does not answer: this never happens.\<close>

definition run_line :: "string \<Rightarrow> 'a prog" where
  "run_line buf =
     (case parsecmd buf of None \<Rightarrow> Exit 1 | Some (Inl e) \<Rightarrow> panic_u e | Some (Inr (c, b)) \<Rightarrow> runcmd b c)"

definition sh_body :: "unit \<Rightarrow> (unit + unit) prog" where
  "sh_body _ =
     andthen_p (getcmd 100) (\<lambda>line.
       case line of
         None \<Rightarrow> Exit 0
       | Some buf \<Rightarrow>
           if take 3 buf = ''cd '' then
             (let dir = drop 3 (butlast buf) in
              Sys (SysChdir dir) (\<lambda>r.
                if r_ret r < 0 then andthen_p (fprintf 2 (''cannot cd %s'' @ [CHR 0x0A]) [UStr (Some dir)]) (\<lambda>_. Done (Inl ()))
                else Done (Inl ())))
           else
             fork1 (\<lambda>pid. if pid = 0 then run_line buf else Sys SysWait (\<lambda>_. Done (Inl ()))))"

definition sh_main :: "unit prog" where
  "sh_main = andthen_p (loop_p open_console ()) (\<lambda>_. loop_p sh_body ())"

subsection \<open>The parser terminates, and its strings are words\<close>

text \<open>A token of the line: a longest run of word characters.\<close>

definition tok :: "string \<Rightarrow> nat \<times> nat \<Rightarrow> bool" where
  "tok s t = (case t of (q, e) \<Rightarrow> q < e \<and> e \<le> length s \<and> (\<forall>j. q \<le> j \<longrightarrow> j < e \<longrightarrow> word (s ! j)) \<and> (e < length s \<longrightarrow> \<not> word (s ! e)))"

lemma gettoken_word:
  assumes "gettoken s i = (CHR ''a'', q, e, j)"
  shows "tok s (q, e)"
proof -
  have q: "q < e" "q < length s" "q \<le> length s" using gettoken_bounds(5,6) [OF assms] by simp_all
  have "e = skip word s q" using assms by (auto simp: gettoken_def Let_def split: if_splits)
  then show ?thesis
    using q skip_nth [of q _ word s] skip_stop [of word s q] skip_bounds(2) [where P = word and s = s and i = q] by (auto simp: tok_def)
qed

definition good :: "string \<Rightarrow> nat \<Rightarrow> pcmd \<Rightarrow> nat \<Rightarrow> bool" where
  "good s i c j \<longleftrightarrow> i \<le> j \<and> j \<le> length s \<and> (\<forall>t\<in>set_cmd c. tok s t)"

lemma goodI: "i \<le> j \<Longrightarrow> j \<le> length s \<Longrightarrow> (\<And>t. t \<in> set_cmd c \<Longrightarrow> tok s t) \<Longrightarrow> good s i c j"
  by (simp add: good_def)

lemma parseredirs_good:
  "parseredirs s c i = Inr (c', j) \<Longrightarrow> i \<le> length s \<Longrightarrow> \<forall>t\<in>set_cmd c. tok s t \<Longrightarrow> good s i c' j"
proof (induction "length s - i" arbitrary: c i rule: less_induct)
  case less
  obtain k b where p: "peek s i ''<>'' = (k, b)" by fastforce
  show ?case
  proof (cases b)
    case False
    then show ?thesis using less.prems p peek_bounds [OF p] by (auto simp: parseredirs.simps [of s c i] good_def)
  next
    case True
    obtain t q1 e1 k1 where g1: "gettoken s k = (t, q1, e1, k1)" by (metis prod_cases4)
    obtain t' q e l where g2: "gettoken s k1 = (t', q, e, l)" by (metis prod_cases4)
    note l = peek_gettoken2 [OF p [symmetric] True g1 [symmetric] refl g2 [symmetric] refl]
    have t': "t' = CHR ''a''" using less.prems(1) p True g1 g2 by (auto simp: parseredirs.simps [of s c i] split: if_splits)
    then have w: "tok s (q, e)" using gettoken_word g2 by simp
    have "\<exists>d. parseredirs s d l = Inr (c', j) \<and> set_cmd d \<subseteq> insert (q, e) (set_cmd c)"
      using less.prems(1) p True g1 g2 t' by (auto simp: parseredirs.simps [of s c i] redircmd_def split: if_splits)
    then have "good s l c' j" using less.hyps [OF l(1)] l(3) less.prems(2,3) w by blast
    then show ?thesis using l by (simp add: good_def)
  qed
qed

lemma set_add_arg: "set_cmd (add_arg a c) \<subseteq> insert a (set_cmd c)"
  by (induction c rule: add_arg.induct) auto

lemma parseargs_good:
  "parseargs s argc ret i = Inr (c', j) \<Longrightarrow> i \<le> length s \<Longrightarrow> \<forall>t\<in>set_cmd ret. tok s t \<Longrightarrow> good s i c' j"
proof (induction "MAXARGS - argc" arbitrary: argc ret i rule: less_induct)
  case less
  obtain k b where p: "peek s i ''|)&;'' = (k, b)" by fastforce
  obtain t q e l where g: "gettoken s k = (t, q, e, l)" by (metis prod_cases4)
  have k: "i \<le> k" "k \<le> length s" "k \<le> l" "l \<le> length s"
    using peek_bounds [OF p] less.prems(2) gettoken_bounds(1-4) [OF g] by auto
  show ?case
  proof (cases "b \<or> t = CHR 0x00")
    case True
    then show ?thesis using less.prems p g k by (auto simp: parseargs.simps [of s argc] good_def split: if_splits)
  next
    case False
    then have t: "t = CHR ''a''" "\<not> MAXARGS \<le> argc + 1"
      using less.prems(1) p g by (auto simp: parseargs.simps [of s argc] split: if_splits)
    then obtain d m where r: "parseredirs s (add_arg (q, e) ret) l = Inr (d, m)" "parseargs s (argc + 1) d m = Inr (c', j)"
      using less.prems(1) p g False by (auto simp: parseargs.simps [of s argc] split: sum.splits)
    have "tok s (q, e)" using gettoken_word g t by simp
    then have d: "good s l d m" using parseredirs_good [OF r(1) k(4)] set_add_arg [of "(q, e)" ret] less.prems(3) by blast
    then have "good s m c' j" using less.hyps [of "argc + 1", OF _ r(2)] t(2) by (simp add: good_def)
    then show ?thesis using d k by (simp add: good_def)
  qed
qed

lemma parsebacks_good: "parsebacks s c i = (c', j) \<Longrightarrow> i \<le> length s \<Longrightarrow> \<forall>t\<in>set_cmd c. tok s t \<Longrightarrow> good s i c' j"
proof (induction "length s - i" arbitrary: c i rule: less_induct)
  case less
  obtain k b where p: "peek s i ''&'' = (k, b)" by fastforce
  obtain t q e l where g: "gettoken s k = (t, q, e, l)" by (metis prod_cases4)
  show ?case
  proof (cases b)
    case False
    then show ?thesis using less.prems p peek_bounds [OF p] by (auto simp: parsebacks.simps [of s c i] good_def)
  next
    case True
    note l = peek_gettoken1 [OF p [symmetric] True g [symmetric] refl]
    have "parsebacks s (backcmd c) l = (c', j)" using less.prems(1) p g True by (simp add: parsebacks.simps [of s c i])
    then have "good s l c' j" using less.hyps [OF l(1)] l(3) less.prems(2,3) by (simp add: backcmd_def)
    then show ?thesis using l by (simp add: good_def)
  qed
qed

text \<open>A call of the parser that returns or panics, with the depth it is given.\<close>

definition ends :: "string \<Rightarrow> nat \<Rightarrow> (pcmd \<times> nat) parser \<Rightarrow> bool" where
  "ends s i r \<longleftrightarrow> (\<exists>e. r = Some (Inl e)) \<or> (\<exists>c j. r = Some (Inr (c, j)) \<and> good s i c j)"

lemma ends_simps [simp]: "ends s i (Some (Inl e))" "ends s i (Some (Inr (c, j))) \<longleftrightarrow> good s i c j" "\<not> ends s i None"
  by (auto simp: ends_def)

lemma ends_andthen: "ends s i m \<Longrightarrow> (\<And>c j. good s i c j \<Longrightarrow> ends s i (f c j)) \<Longrightarrow> ends s i (andthen_q m f)"
  by (cases "\<exists>e. m = Some (Inl e)") (auto simp: ends_def [of s i m])

lemma ends_mono: "ends s k r \<Longrightarrow> i \<le> k \<Longrightarrow> ends s i r"
  by (auto simp: ends_def good_def)

lemma ends_Some: "(\<And>c j. r = Inr (c, j) \<Longrightarrow> good s i c j) \<Longrightarrow> ends s i (Some r)"
  by (cases r) auto

text \<open>After an operator the parser goes on behind it, with the rest of the depth.\<close>

lemma operator_step:
  assumes "i \<le> j" "j \<le> length s" "peek s j T = (j', True)" "gettoken s j' = (t, q, e, k)"
  shows "length s - k < length s - i" "i < k" "k \<le> length s"
  using assms peek_gettoken1 [OF assms(3) [symmetric] TrueI assms(4) [symmetric] refl] by auto

lemma ends_infix:
  assumes c: "good s i c k" and r: "\<And>m. length s - m < length s - i \<Longrightarrow> m \<le> length s \<Longrightarrow> ends s m (P m)"
    and mk: "\<And>c d. set_cmd (mk c d) \<subseteq> set_cmd c \<union> set_cmd d"
  shows "ends s i (case peek s k T of (i, b) \<Rightarrow>
     if b then (case gettoken s i of (_, _, _, i) \<Rightarrow> andthen_q (P i) (\<lambda>d i. Some (Inr (mk c d, i)))) else Some (Inr (c, i)))"
proof -
  obtain l b where p: "peek s k T = (l, b)" by fastforce
  obtain t q e m where g: "gettoken s l = (t, q, e, m)" by (metis prod_cases4)
  have dl: "good s i c l" using c peek_bounds [OF p] by (auto simp: good_def)
  show ?thesis
  proof (cases b)
    case True
    then have m: "length s - m < length s - i" "i < m" "m \<le> length s" using operator_step [of i k s T l t q e m] c p g by (auto simp: good_def)
    have "ends s i (P m)" using r [OF m(1,3)] m(2) by (elim ends_mono) simp
    then have "ends s i (andthen_q (P m) (\<lambda>d i. Some (Inr (mk c d, i))))"
      by (rule ends_andthen) (use dl mk [of c] in \<open>fastforce simp: good_def\<close>)
    then show ?thesis using True p g by simp
  qed (use p dl in simp)
qed

lemma ends_block:
  assumes c: "good s i c k"
  shows "ends s i (case peek s k '')'' of (i, b) \<Rightarrow> if \<not> b then Some (Inl ''syntax - missing )'')
    else (case gettoken s i of (_, _, _, i) \<Rightarrow> Some (parseredirs s c i)))"
proof -
  obtain l b where p: "peek s k '')'' = (l, b)" by fastforce
  obtain t q e m where g: "gettoken s l = (t, q, e, m)" by (metis prod_cases4)
  show ?thesis
  proof (cases b)
    case True
    then have m: "i < m" "m \<le> length s" using operator_step [of i k s "'')''" l t q e m] c p g by (auto simp: good_def)
    have "ends s i (Some (parseredirs s c m))"
      by (rule ends_Some) (use parseredirs_good [of s c m] m c in \<open>force simp: good_def\<close>)
    then show ?thesis using p g True by simp
  qed (use p in simp)
qed

lemma ends_simple:
  assumes "i \<le> l" and "l \<le> length s"
  shows "ends s i (andthen_q (Some (parseredirs s execcmd l)) (\<lambda>ret i. Some (parseargs s 0 ret i)))"
proof (rule ends_andthen)
  show "ends s i (Some (parseredirs s execcmd l))"
    by (rule ends_Some) (use parseredirs_good [of s execcmd l] assms in \<open>force simp: good_def execcmd_def\<close>)
  show "ends s i (Some (parseargs s 0 c j))" if "good s i c j" for c j
    by (rule ends_Some) (use parseargs_good [of s 0 c j] that in \<open>force simp: good_def\<close>)
qed

lemma parse_ends:
  assumes "i \<le> length s"
  shows "4 * (length s - i) + 4 \<le> n \<Longrightarrow> ends s i (parseline n s i)" "4 * (length s - i) + 3 \<le> n \<Longrightarrow> ends s i (parsepipe n s i)"
    "4 * (length s - i) + 1 \<le> n \<Longrightarrow> ends s i (parseblock n s i)" "4 * (length s - i) + 2 \<le> n \<Longrightarrow> ends s i (parseexec n s i)"
  using assms
proof (induction n arbitrary: i)
  case (Suc n)
  {
    case 1
    have "ends s i (parsepipe n s i)" using 1 by (intro Suc.IH) simp_all
    then show ?case unfolding parseline.simps
    proof (rule ends_andthen)
      fix c j assume c: "good s i c j"
      obtain d k where b: "parsebacks s c j = (d, k)" by fastforce
      have "good s i d k" using parsebacks_good [OF b] c by (simp add: good_def)
      from ends_infix [OF this, of "parseline n s" listcmd "'';''"] show "ends s i (case parsebacks s c j of (c, i) \<Rightarrow> case peek s i '';'' of (i, b) \<Rightarrow>
         if b then (case gettoken s i of (_, _, _, i) \<Rightarrow> andthen_q (parseline n s i) (\<lambda>d i. Some (Inr (listcmd c d, i)))) else Some (Inr (c, i)))"
        using 1 b Suc.IH by (simp add: listcmd_def)
    qed
  next
    case 2
    have "ends s i (parseexec n s i)" using 2 by (intro Suc.IH) simp_all
    then show ?case unfolding parsepipe.simps
      by (rule ends_andthen) (rule ends_infix, use 2 Suc.IH in \<open>auto simp: pipecmd_def\<close>)
  next
    case 3
    obtain l b where p: "peek s i ''('' = (l, b)" by fastforce
    obtain t q e m where g: "gettoken s l = (t, q, e, m)" by (metis prod_cases4)
    show ?case
    proof (cases b)
      case True
      then have p': "peek s i ''('' = (l, True)" using p by simp
      note m = operator_step [OF order_refl 3(2) p' g]
      have "ends s m (parseline n s m)" using m 3 by (intro Suc.IH) simp_all
      then have "ends s i (parseline n s m)" using m by (elim ends_mono) simp
      then show ?thesis using True p g by simp (elim ends_andthen ends_block)
    qed (use p in simp)
  next
    case 4
    obtain l b where p: "peek s i ''('' = (l, b)" by fastforce
    have l: "i \<le> l" "i \<le> length s \<Longrightarrow> l \<le> length s" using peek_bounds [OF p] by auto
    show ?case
    proof (cases b)
      case True
      have "ends s l (parseblock n s l)" using l 4 by (intro Suc.IH) auto
      then show ?thesis using p True l by (auto elim: ends_mono)
    qed (use p 4 l ends_simple [of i l s] in simp)
  }
qed simp_all

text \<open>Property C34: the recursive-descent parser terminates on every line: \<open>parsecmd\<close> either panics with a message or returns a command and
  the buffer, and never needs a recursion deeper than four times the length of the line.\<close>

theorem parsecmd_terminates: "\<exists>r. parsecmd s = Some r"
proof -
  have "ends s 0 (parseline (4 * length s + 4) s 0)" by (rule parse_ends) simp_all
  then show ?thesis by (auto simp: ends_def parsecmd_def split: prod.splits)
qed

subsection \<open>The strings of a command\<close>

definition slice :: "string \<Rightarrow> nat \<times> nat \<Rightarrow> string" where
  "slice s t = (case t of (q, e) \<Rightarrow> take (e - q) (drop q s))"

lemma nth_upd: "j < length xs \<Longrightarrow> xs[i := x] ! j = (if i = j then x else xs ! j)"
  by (cases "i = j") auto

lemma nul_fold:
  "length (fold (\<lambda>(q, eq) b. b[eq := x]) argv b) = length b"
  "j < length b \<Longrightarrow> fold (\<lambda>(q, eq) b. b[eq := x]) argv b ! j = (if \<exists>q. (q, j) \<in> set argv then x else b ! j)"
  by (induction argv arbitrary: b) (auto simp: nth_upd split: if_splits)

lemma nulterminate_length [simp]: "length (nulterminate c b) = length b"
  by (induction c b rule: nulterminate.induct) (simp_all add: nul_fold)

lemma nulterminate_nth: "j < length b \<Longrightarrow> nulterminate c b ! j = (if \<exists>q. (q, j) \<in> set_cmd c then CHR 0x00 else b ! j)"
  by (induction c b rule: nulterminate.induct) (auto simp: nul_fold nth_upd)

lemma cstr_eq:
  assumes "q \<le> e" and "e < length b" and "b ! e = CHR 0x00" and "\<And>j. q \<le> j \<Longrightarrow> j < e \<Longrightarrow> b ! j \<noteq> CHR 0x00"
  shows "cstr b q = take (e - q) (drop q b)"
proof -
  let ?x = "take (e - q) (drop q b)"
  have "drop (e - q) (drop q b) = CHR 0x00 # drop (Suc e) b" using assms(1,3) Cons_nth_drop_Suc [OF assms(2)] by simp
  then have d: "drop q b = ?x @ CHR 0x00 # drop (Suc e) b" by (metis append_take_drop_id)
  have "\<forall>x\<in>set ?x. x \<noteq> CHR 0x00" using assms(1,2,4) by (auto simp: in_set_conv_nth)
  then have "takeWhile (\<lambda>c. c \<noteq> CHR 0x00) (?x @ CHR 0x00 # drop (Suc e) b) = ?x" by (simp add: takeWhile_append)
  then show ?thesis unfolding cstr_def using d by simp
qed

lemma nulterminate_token:
  assumes t: "\<forall>t\<in>set_cmd c. tok s t" "(q, e) \<in> set_cmd c" and s: "CHR 0x00 \<notin> set s"
  shows "cstr (nulterminate c (s @ [CHR 0x00])) q = slice s (q, e)"
proof -
  let ?b = "nulterminate c (s @ [CHR 0x00])"
  have te: "q < e" "e \<le> length s" "\<And>j. q \<le> j \<Longrightarrow> j < e \<Longrightarrow> word (s ! j)" using t by (auto simp: tok_def)
  have "(q', j) \<notin> set_cmd c" if "q \<le> j" "j < e" for j q'
    using that te t(1) by (force simp: tok_def)
  then have n: "?b ! j = s ! j" if "q \<le> j" "j < e" for j using that te(2) by (simp add: nulterminate_nth nth_append)
  have z: "?b ! e = CHR 0x00" using te t(2) by (auto simp: nulterminate_nth)
  have "?b ! j \<noteq> CHR 0x00" if "q \<le> j" "j < e" for j
    using n [OF that] that te(2) s nth_mem [of j s] by (metis order_less_le_trans)
  then have "cstr ?b q = take (e - q) (drop q ?b)" using te z by (intro cstr_eq) auto
  also have "\<dots> = slice s (q, e)" unfolding slice_def prod.case
    by (rule nth_equalityI) (use te n [of "q + _"] in simp_all)
  finally show ?thesis .
qed

lemma parsecmd_tokens:
  assumes "parsecmd s = Some (Inr (c, b))"
  shows "\<forall>t\<in>set_cmd c. tok s t" and "b = nulterminate c (s @ [CHR 0x00])"
proof -
  have e: "ends s 0 (parseline (4 * length s + 4) s 0)" by (rule parse_ends) simp_all
  show "\<forall>t\<in>set_cmd c. tok s t" "b = nulterminate c (s @ [CHR 0x00])"
    using assms e by (auto simp: parsecmd_def ends_def good_def split: prod.splits if_splits)
qed

text \<open>Property C35: after \<open>nulterminate\<close> every string of the command, read up to its NUL, is exactly the word of the line it was parsed from,
  although the strings share the buffer and a NUL is stored behind each: no NUL falls into another word.\<close>

theorem nulterminate_strings:
  assumes "CHR 0x00 \<notin> set s" and "parsecmd s = Some (Inr (c, b))" and "(q, e) \<in> set_cmd c"
  shows "q < e \<and> cstr b q = take (e - q) (drop q s) \<and> (\<forall>x\<in>set (cstr b q). word x)"
proof -
  have t: "tok s (q, e)" using parsecmd_tokens(1) [OF assms(2)] assms(3) by blast
  have c: "cstr b q = take (e - q) (drop q s)"
    using nulterminate_token [OF parsecmd_tokens(1) [OF assms(2)] assms(3,1)] parsecmd_tokens(2) [OF assms(2)] by (simp add: slice_def)
  then show ?thesis using t by (auto simp: tok_def in_set_conv_nth)
qed

subsection \<open>Printing commands\<close>

text \<open>The rest of the line from a position on, without leading whitespace: what the tokenizer looks at.\<close>

abbreviation (input) strip :: "string \<Rightarrow> string" where "strip \<equiv> dropWhile white"

definition rem :: "string \<Rightarrow> nat \<Rightarrow> string" where
  "rem s i = strip (drop i s)"

lemma drop_skip: "drop (skip P s i) s = dropWhile P (drop i s)"
  by (simp add: skip_def dropWhile_eq_drop add.commute)

lemma strip_strip: "strip (strip u) = strip u"
  by (induction u) auto

lemma rem_skip: "rem s (skip white s i) = rem s i"
  by (simp add: rem_def drop_skip strip_strip)

lemma hd_strip: "strip u = x # v \<Longrightarrow> \<not> white x"
  by (metis hd_dropWhile list.distinct(1) list.sel(1))

lemma ch_skip: "ch s (skip white s i) = (case rem s i of [] \<Rightarrow> CHR 0x00 | x # _ \<Rightarrow> x)"
proof -
  have d: "drop (skip white s i) s = rem s i" by (simp add: rem_def drop_skip)
  show ?thesis
  proof (cases "skip white s i < length s")
    case True
    then have "rem s i = s ! skip white s i # drop (Suc (skip white s i)) s" using d Cons_nth_drop_Suc by metis
    then show ?thesis using True by (simp add: ch_def)
  next
    case False
    then show ?thesis using d by (simp add: ch_def)
  qed
qed

lemma peek_rem:
  assumes "peek s i T = (j, b)" and "CHR 0x00 \<notin> set T"
  shows "rem s j = rem s i" and "b \<longleftrightarrow> rem s i \<noteq> [] \<and> hd (rem s i) \<in> set T"
  using assms by (auto simp: peek_def Let_def rem_skip ch_skip split: list.splits)

lemma gettoken_end: "rem s i = [] \<Longrightarrow> gettoken s i = (t, q, e, j) \<Longrightarrow> t = CHR 0x00 \<and> rem s j = []"
  by (auto simp: gettoken_def Let_def ch_skip rem_skip)

lemma gettoken_symbol:
  assumes r: "rem s i = x # u" and x: "x \<in> set ''|();&<'' \<or> x = CHR ''>'' \<and> (u = [] \<or> hd u \<noteq> CHR ''>'')" and g: "gettoken s i = (t, q, e, j)"
  shows "t = x" and "rem s j = strip u"
proof -
  let ?q = "skip white s i"
  have d: "drop ?q s = x # u" using r by (simp add: rem_def drop_skip)
  then have u: "drop (Suc ?q) s = u" by (metis drop_Suc list.sel(3) tl_drop)
  have c: "ch s ?q = x" by (simp add: ch_skip r)
  have "ch s (?q + 1) \<noteq> CHR ''>''" if "x = CHR ''>''"
    using x that u hd_drop_conv_nth [of "Suc ?q" s] by (auto simp: ch_def)
  then have "t = x \<and> e = Suc ?q \<and> j = skip white s e" using g x c by (auto simp: gettoken_def Let_def split: if_splits)
  then show "t = x" "rem s j = strip u" using u by (simp_all add: rem_skip) (simp add: rem_def)
qed

lemma gettoken_append:
  assumes r: "rem s i = CHR ''>'' # CHR ''>'' # u" and g: "gettoken s i = (t, q, e, j)"
  shows "t = CHR ''+''" and "rem s j = strip u"
proof -
  let ?q = "skip white s i"
  have d: "drop ?q s = CHR ''>'' # CHR ''>'' # u" using r by (simp add: rem_def drop_skip)
  then have u: "drop (Suc ?q) s = CHR ''>'' # u" "drop (Suc (Suc ?q)) s = u" by (metis drop_Suc list.sel(3) tl_drop)+
  have c: "ch s ?q = CHR ''>''" by (simp add: ch_skip r)
  have "Suc ?q < length s" using u(1) by (metis drop_eq_Nil list.distinct(1) not_le)
  then have "ch s (?q + 1) = CHR ''>''" using u(1) hd_drop_conv_nth [of "Suc ?q" s] by (auto simp: ch_def)
  then have "t = CHR ''+'' \<and> e = Suc (Suc ?q) \<and> j = skip white s e" using g c by (auto simp: gettoken_def Let_def)
  then show "t = CHR ''+''" "rem s j = strip u" using u by (simp_all add: rem_skip) (simp add: rem_def)
qed

definition word_str :: "string \<Rightarrow> bool" where
  "word_str w \<longleftrightarrow> w \<noteq> [] \<and> (\<forall>x\<in>set w. word x \<and> x \<noteq> CHR 0x00)"

lemma strip_word: "word_str w \<Longrightarrow> strip (w @ v) = w @ v"
  by (cases w) (auto simp: word_str_def word_def)

lemma gettoken_wordstr:
  assumes r: "rem s i = w @ v" and w: "word_str w" and v: "v = [] \<or> \<not> word (hd v)" and g: "gettoken s i = (t, q, e, j)"
  shows "t = CHR ''a''" and "slice s (q, e) = w" and "rem s j = strip v"
proof -
  let ?q = "skip white s i"
  have d: "drop ?q s = w @ v" using r by (simp add: rem_def drop_skip)
  have "takeWhile word (w @ v) = w" using w v by (cases v) (auto simp: word_str_def takeWhile_append)
  then have sk: "skip word s ?q = ?q + length w" by (simp add: skip_def [of word] d)
  obtain x u where x: "w = x # u" "word x" "x \<noteq> CHR 0x00" using w by (cases w) (auto simp: word_str_def)
  have c: "ch s ?q = x" by (simp add: ch_skip r x)
  have "x \<notin> set symbols" using x(2) by (simp add: word_def)
  then have "t = CHR ''a'' \<and> q = ?q \<and> e = ?q + length w \<and> j = skip white s e"
    using g x(3) by (auto simp: gettoken_def Let_def c sk symbols_def)
  moreover have "drop (?q + length w) s = v" using d by (metis append_eq_conv_conj drop_drop add.commute)
  ultimately show "t = CHR ''a''" "slice s (q, e) = w" "rem s j = strip v" using d by (simp_all add: slice_def rem_skip) (simp add: rem_def)
qed

text \<open>A command as text, in canonical form. The number is the level of the grammar: 0 a line, 1 what an ampersand follows, 2 a pipeline, 3 a
  command of a pipeline; a command of a lower level is put in parentheses.\<close>

definition redir_str :: "string \<times> nat \<times> int \<Rightarrow> string" where
  "redir_str r = (case r of (f, mode, fd) \<Rightarrow> (if fd = 0 then '' <'' else if mode = 1537 then '' >'' else '' >>'') @ '' '' @ f)"

primrec show_cmd :: "nat \<Rightarrow> string cmd \<Rightarrow> string" where
  "show_cmd p (ExecCmd argv) = concat (map (\<lambda>a. '' '' @ a) argv)"
| "show_cmd p (RedirCmd c f mode fd) = show_cmd 3 c @ redir_str (f, mode, fd)"
| "show_cmd p (PipeCmd a b) = (if p > 2 then ''('' @ (show_cmd 3 a @ ''|'' @ show_cmd 2 b) @ '')'' else show_cmd 3 a @ ''|'' @ show_cmd 2 b)"
| "show_cmd p (BackCmd a) = (if p > 1 then ''('' @ (show_cmd 1 a @ ''&'') @ '')'' else show_cmd 1 a @ ''&'')"
| "show_cmd p (ListCmd a b) = (if p > 0 then ''('' @ (show_cmd 1 a @ '';'' @ show_cmd 0 b) @ '')'' else show_cmd 1 a @ '';'' @ show_cmd 0 b)"

text \<open>The commands that can be typed: words for arguments and files, fewer than \<open>MAXARGS\<close> arguments, the three kinds of redirection.\<close>

definition wf_redir :: "string \<times> nat \<times> int \<Rightarrow> bool" where
  "wf_redir r = (case r of (f, mode, fd) \<Rightarrow> word_str f \<and> (mode, fd) \<in> {(0, 0), (1537, 1), (513, 1)})"

primrec wf_cmd :: "string cmd \<Rightarrow> bool" where
  "wf_cmd (ExecCmd argv) \<longleftrightarrow> length argv < MAXARGS \<and> (\<forall>a\<in>set argv. word_str a)"
| "wf_cmd (RedirCmd c f mode fd) \<longleftrightarrow> wf_cmd c \<and> wf_redir (f, mode, fd)"
| "wf_cmd (PipeCmd a b) \<longleftrightarrow> wf_cmd a \<and> wf_cmd b"
| "wf_cmd (ListCmd a b) \<longleftrightarrow> wf_cmd a \<and> wf_cmd b"
| "wf_cmd (BackCmd a) \<longleftrightarrow> wf_cmd a"

text \<open>What may follow a part of a command.\<close>

definition follow :: "string \<Rightarrow> string \<Rightarrow> bool" where
  "follow F rest \<longleftrightarrow> strip rest = [] \<or> hd (strip rest) \<in> set F"

lemma follow_mono: "follow F rest \<Longrightarrow> set F \<subseteq> set G \<Longrightarrow> follow G rest"
  by (auto simp: follow_def)

lemma follow_word: "follow F rest \<Longrightarrow> set F \<subseteq> set symbols \<Longrightarrow> rest = [] \<or> \<not> word (hd rest)"
  by (cases rest) (auto simp: follow_def word_def split: if_splits)

definition wrap :: "'t cmd \<Rightarrow> ('t \<times> nat \<times> int) list \<Rightarrow> 't cmd" where
  "wrap c rs = fold (\<lambda>(f, mode, fd) c. RedirCmd c f mode fd) rs c"

lemma wrap_simps [simp]: "wrap c [] = c" "wrap c ((f, mode, fd) # rs) = wrap (RedirCmd c f mode fd) rs"
  by (simp_all add: wrap_def)

abbreviation (input) redirs_str :: "(string \<times> nat \<times> int) list \<Rightarrow> string" where "redirs_str rs \<equiv> concat (map redir_str rs)"

text \<open>\<open>parseredirs\<close> on printed redirections.\<close>

lemma parseredirs_none:
  assumes "rem s i = [] \<or> hd (rem s i) \<notin> set ''<>''"
  obtains j where "parseredirs s c i = Inr (c, j)" and "rem s j = rem s i"
proof -
  obtain k b where p: "peek s i ''<>'' = (k, b)" by fastforce
  have "\<not> b" "rem s k = rem s i" using peek_rem [OF p] assms by auto
  then show ?thesis using p by (intro that [of k]) (simp_all add: parseredirs.simps [of s c i])
qed

lemma parseredirs_one:
  assumes r: "rem s i = strip (redir_str (f, mode, fd) @ v)" and w: "wf_redir (f, mode, fd)" and v: "v = [] \<or> \<not> word (hd v)"
  obtains t j where "parseredirs s c i = parseredirs s (RedirCmd c t mode fd) j" and "slice s t = f" and "rem s j = strip v"
proof -
  have f: "word_str f" using w by (simp add: wf_redir_def)
  obtain k b where p: "peek s i ''<>'' = (k, b)" by fastforce
  obtain t1 q1 e1 k1 where g1: "gettoken s k = (t1, q1, e1, k1)" by (metis prod_cases4)
  obtain t q e l where g2: "gettoken s k1 = (t, q, e, l)" by (metis prod_cases4)
  have wh: "white (CHR '' '')" "\<not> white (CHR ''<'')" "\<not> white (CHR ''>'')" by (simp_all add: whitespace_def)
  have ri: "rem s i = (if fd = 0 then ''<'' else if mode = 1537 then ''>'' else ''>>'') @ '' '' @ f @ v" using r wh by (simp add: redir_str_def)
  then have b: "b" "rem s k = rem s i" using peek_rem [OF p] by (auto split: if_splits)
  have sp: "strip ('' '' @ f @ v) = f @ v" using strip_word [OF f] wh(1) by simp
  have t1: "t1 = (if fd = 0 then CHR ''<'' else if mode = 1537 then CHR ''>'' else CHR ''+'') \<and> rem s k1 = f @ v"
    using gettoken_symbol [OF _ _ g1] gettoken_append [OF _ g1] b(2) ri sp by (auto split: if_splits)
  then have "t = CHR ''a''" "slice s (q, e) = f" "rem s l = strip v" using gettoken_wordstr [OF _ f v g2] by simp_all
  moreover from this have "parseredirs s c i = parseredirs s (RedirCmd c (q, e) mode fd) l"
    using p b g1 g2 t1 w by (auto simp: parseredirs.simps [of s c i] redircmd_def wf_redir_def split: if_splits)
  ultimately show ?thesis by (intro that)
qed

lemma parseredirs_show:
  assumes "rem s i = strip (redirs_str rs @ rest)" and "\<forall>r\<in>set rs. wf_redir r" and "follow F rest" and "set F \<subseteq> set ''|)&;''"
  shows "\<exists>c' j. parseredirs s c i = Inr (c', j) \<and> rem s j = strip rest \<and> map_cmd (slice s) c' = wrap (map_cmd (slice s) c) rs"
  using assms
proof (induction rs arbitrary: c i)
  case Nil
  then have "rem s i = [] \<or> hd (rem s i) \<notin> set ''<>''" by (auto simp: follow_def)
  then show ?case using Nil by (elim parseredirs_none [where c = c]) auto
next
  case (Cons r rs)
  obtain f mode fd where r: "r = (f, mode, fd)" by (cases r)
  have "rest = [] \<or> \<not> word (hd rest)" using follow_word [OF Cons.prems(3)] Cons.prems(4) by (auto simp: symbols_def)
  then have v: "redirs_str rs @ rest = [] \<or> \<not> word (hd (redirs_str rs @ rest))"
    by (cases rs) (auto simp: redir_str_def word_def whitespace_def split: prod.splits)
  obtain t j where j: "parseredirs s c i = parseredirs s (RedirCmd c t mode fd) j" "slice s t = f" "rem s j = strip (redirs_str rs @ rest)"
    using parseredirs_one [of s i f mode fd "redirs_str rs @ rest" c] Cons.prems(1,2) v r by auto
  show ?case using Cons.IH [OF j(3) _ Cons.prems(3,4), of "RedirCmd c t mode fd"] Cons.prems(2) j(1,2) r by simp
qed

text \<open>\<open>parseargs\<close> on printed arguments.\<close>

abbreviation (input) args_str :: "string list \<Rightarrow> string" where "args_str argv \<equiv> concat (map (\<lambda>a. '' '' @ a) argv)"

lemma parseargs_none:
  assumes "rem s i = [] \<or> hd (rem s i) \<in> set ''|)&;''"
  obtains j where "parseargs s argc ret i = Inr (ret, j)" and "rem s j = rem s i"
proof -
  obtain k b where p: "peek s i ''|)&;'' = (k, b)" by fastforce
  obtain t q e l where g: "gettoken s k = (t, q, e, l)" by (metis prod_cases4)
  have k: "rem s k = rem s i" "b \<longleftrightarrow> rem s i \<noteq> []" using peek_rem [OF p] assms by auto
  show ?thesis
  proof (cases b)
    case True
    then show ?thesis using p k by (intro that [of k]) (simp_all add: parseargs.simps [of s argc])
  next
    case False
    then show ?thesis using p k g gettoken_end [OF _ g] by (intro that [of l]) (simp_all add: parseargs.simps [of s argc])
  qed
qed

lemma parseargs_one:
  assumes r: "rem s i = a @ v" and a: "word_str a" and v: "v = [] \<or> \<not> word (hd v)" and n: "argc + 1 < MAXARGS"
  obtains t j where "parseargs s argc ret i = (case parseredirs s (add_arg t ret) j of Inl e \<Rightarrow> Inl e | Inr (ret, i) \<Rightarrow> parseargs s (argc + 1) ret i)"
    and "slice s t = a" and "rem s j = strip v"
proof -
  obtain k b where p: "peek s i ''|)&;'' = (k, b)" by fastforce
  obtain t q e l where g: "gettoken s k = (t, q, e, l)" by (metis prod_cases4)
  have "hd (a @ v) \<notin> set ''|)&;''" using a by (cases a) (auto simp: word_str_def word_def symbols_def)
  then have k: "rem s k = a @ v" "\<not> b" using peek_rem [OF p] r by auto
  note w = gettoken_wordstr [OF k(1) a v g]
  show ?thesis using p k(2) g w n by (intro that [of "(q, e)" l]) (simp_all add: parseargs.simps [of s argc])
qed

lemma sep_word: "rest = [] \<or> \<not> word (hd rest) \<Longrightarrow> args_str as @ redirs_str rs @ rest = [] \<or> \<not> word (hd (args_str as @ redirs_str rs @ rest))"
  by (cases as; cases rs) (auto simp: redir_str_def word_def whitespace_def split: prod.splits)

lemma parseargs_show:
  assumes "rem s i = strip (args_str as @ redirs_str rs @ rest)" and "as \<noteq> []" and "\<forall>a\<in>set as. word_str a" and "\<forall>r\<in>set rs. wf_redir r"
    and "follow ''|)&;'' rest" and "argc + length as < MAXARGS"
  shows "\<exists>c' j. parseargs s argc (ExecCmd ts) i = Inr (c', j) \<and> rem s j = strip rest \<and>
     map_cmd (slice s) c' = wrap (ExecCmd (map (slice s) ts @ as)) rs"
  using assms
proof (induction as arbitrary: ts i argc)
  case (Cons a as)
  let ?v = "args_str as @ redirs_str rs @ rest"
  have a: "word_str a" using Cons.prems(3) by simp
  have sp: "white (CHR '' '')" by (simp add: whitespace_def)
  have ri: "rem s i = a @ ?v" using Cons.prems(1) strip_word [OF a, of ?v] sp by simp
  have "rest = [] \<or> \<not> word (hd rest)" using follow_word [OF Cons.prems(5)] by (auto simp: symbols_def)
  note v = sep_word [OF this, of as rs]
  have n: "argc + 1 < MAXARGS" using Cons.prems(6) by simp
  obtain t j where j: "slice s t = a" "rem s j = strip ?v" "parseargs s argc (ExecCmd ts) i =
      (case parseredirs s (ExecCmd (ts @ [t])) j of Inl e \<Rightarrow> Inl e | Inr (ret, i) \<Rightarrow> parseargs s (argc + 1) ret i)"
    using parseargs_one [OF ri a v n, of "ExecCmd ts"] unfolding add_arg.simps by blast
  show ?case
  proof (cases "as = []")
    case True
    obtain c' k where c: "parseredirs s (ExecCmd (ts @ [t])) j = Inr (c', k)" "rem s k = strip rest"
      "map_cmd (slice s) c' = wrap (ExecCmd (map (slice s) ts @ [a])) rs"
      using parseredirs_show [OF _ Cons.prems(4,5), of s j "ExecCmd (ts @ [t])"] j(1,2) True by auto
    have "rem s k = [] \<or> hd (rem s k) \<in> set ''|)&;''" using c(2) Cons.prems(5) by (auto simp: follow_def)
    then show ?thesis using c j(3) True by (elim parseargs_none [where argc = "argc + 1" and ret = c']) auto
  next
    case False
    then obtain x as' where as: "as = x # as'" "word_str x" using Cons.prems(3) by (cases as) auto
    then have "rem s j = x @ args_str as' @ redirs_str rs @ rest" using j(2) strip_word [OF as(2)] sp by simp
    then have "hd (rem s j) \<notin> set ''<>''" using as(2) by (cases x) (auto simp: word_str_def word_def symbols_def)
    then obtain k where k: "parseredirs s (ExecCmd (ts @ [t])) j = Inr (ExecCmd (ts @ [t]), k)" "rem s k = rem s j"
      using parseredirs_none by blast
    show ?thesis using Cons.IH [of k "argc + 1" "ts @ [t]"] k j False Cons.prems by auto
  qed
qed simp

text \<open>What each function of the parser makes of a printed command.\<close>

definition parses :: "string \<Rightarrow> (pcmd \<times> nat) parser \<Rightarrow> string \<Rightarrow> string cmd \<Rightarrow> bool" where
  "parses s r rest c \<longleftrightarrow> (\<exists>c' j. r = Some (Inr (c', j)) \<and> rem s j = strip rest \<and> map_cmd (slice s) c' = c)"

definition exec_ok :: "string cmd \<Rightarrow> bool" where
  "exec_ok c \<longleftrightarrow> (\<forall>s i n rs rest. i \<le> length s \<longrightarrow> rem s i = strip (show_cmd 3 c @ redirs_str rs @ rest) \<longrightarrow> (\<forall>r\<in>set rs. wf_redir r) \<longrightarrow>
     follow ''|)&;'' rest \<longrightarrow> 4 * (length s - i) + 2 \<le> n \<longrightarrow> parses s (parseexec n s i) rest (wrap c rs))"

definition pipe_ok :: "string cmd \<Rightarrow> bool" where
  "pipe_ok c \<longleftrightarrow> (\<forall>s i n rest. i \<le> length s \<longrightarrow> rem s i = strip (show_cmd 2 c @ rest) \<longrightarrow> follow '')&;'' rest \<longrightarrow>
     4 * (length s - i) + 3 \<le> n \<longrightarrow> parses s (parsepipe n s i) rest c)"

definition back_ok :: "string cmd \<Rightarrow> bool" where
  "back_ok c \<longleftrightarrow> (\<forall>s i n rest. i \<le> length s \<longrightarrow> rem s i = strip (show_cmd 1 c @ rest) \<longrightarrow> follow '')&;'' rest \<longrightarrow>
     4 * (length s - i) + 3 \<le> n \<longrightarrow> (\<exists>d k c' j. parsepipe n s i = Some (Inr (d, k)) \<and> parsebacks s d k = parsebacks s c' j \<and>
       rem s j = strip rest \<and> map_cmd (slice s) c' = c))"

definition line_ok :: "string cmd \<Rightarrow> bool" where
  "line_ok c \<longleftrightarrow> (\<forall>s i n rest. i \<le> length s \<longrightarrow> rem s i = strip (show_cmd 0 c @ rest) \<longrightarrow> follow '')'' rest \<longrightarrow>
     4 * (length s - i) + 4 \<le> n \<longrightarrow> parses s (parseline n s i) rest c)"

lemma peek_False:
  assumes "rem s i = strip rest" and "follow F rest" and "set T \<inter> set F = {}" and "CHR 0x00 \<notin> set T"
  obtains j where "peek s i T = (j, False)" and "rem s j = strip rest"
proof -
  obtain j b where p: "peek s i T = (j, b)" by fastforce
  have "\<not> b" using peek_rem(2) [OF p assms(4)] assms(1-3) by (auto simp: follow_def)
  then show ?thesis using that [of j] p peek_rem(1) [OF p assms(4)] assms(1) by simp
qed

text \<open>An operator that is there is seen and taken.\<close>

lemma take_operator:
  assumes r: "rem s i = strip (x # u)" and x: "x \<in> set ''|();&''" and i: "i0 \<le> i" "i \<le> length s"
  obtains j t q e k where "peek s i [x] = (j, True)" and "gettoken s j = (t, q, e, k)" and "rem s k = strip u"
    and "length s - k < length s - i0" and "i0 < k" and "k \<le> length s"
proof -
  obtain j b where p: "peek s i [x] = (j, b)" by fastforce
  obtain t q e k where g: "gettoken s j = (t, q, e, k)" by (metis prod_cases4)
  have "\<not> white x" using x by (auto simp: whitespace_def)
  then have ri: "rem s i = x # u" using r by simp
  have b: "rem s j = x # u" "b" using peek_rem [OF p] x ri by auto
  have "rem s k = strip u" using gettoken_symbol(2) [OF b(1) _ g] x by auto
  then show ?thesis using that [OF _ g] p b operator_step [OF i _ g, of "[x]"] by simp
qed

lemma pipe_of_exec:
  assumes e: "exec_ok c" and s: "show_cmd 2 c = show_cmd 3 c"
  shows "pipe_ok c"
  unfolding pipe_ok_def
proof (intro allI impI)
  fix s i n rest
  assume i: "i \<le> length s" and r: "rem s i = strip (show_cmd 2 c @ rest)" and f: "follow '')&;'' rest" and n: "4 * (length s - i) + 3 \<le> n"
  obtain m where m: "n = Suc m" "4 * (length s - i) + 2 \<le> m" using n by (cases n) auto
  have "follow ''|)&;'' rest" using f by (rule follow_mono) simp
  then obtain d k where d: "parseexec m s i = Some (Inr (d, k))" "rem s k = strip rest" "map_cmd (slice s) d = c"
    using e [unfolded exec_ok_def, rule_format, of i s "[]" rest m] i r m s by (auto simp: parses_def)
  obtain j where "peek s k ''|'' = (j, False)" "rem s j = strip rest" using peek_False [OF d(2) f, of "''|''"] by auto
  then show "parses s (parsepipe n s i) rest c" using d m by (simp add: parses_def)
qed

lemma back_of_pipe: "pipe_ok c \<Longrightarrow> show_cmd 1 c = show_cmd 2 c \<Longrightarrow> back_ok c"
  unfolding back_ok_def pipe_ok_def parses_def by metis

lemma line_of_back:
  assumes e: "back_ok c" and s: "show_cmd 0 c = show_cmd 1 c"
  shows "line_ok c"
  unfolding line_ok_def
proof (intro allI impI)
  fix s i n rest
  assume i: "i \<le> length s" and r: "rem s i = strip (show_cmd 0 c @ rest)" and f: "follow '')'' rest" and n: "4 * (length s - i) + 4 \<le> n"
  obtain m where m: "n = Suc m" "4 * (length s - i) + 3 \<le> m" using n by (cases n) auto
  have "follow '')&;'' rest" using f by (rule follow_mono) simp
  then obtain d k c' j where d: "parsepipe m s i = Some (Inr (d, k))" "parsebacks s d k = parsebacks s c' j" "rem s j = strip rest" "map_cmd (slice s) c' = c"
    using e [unfolded back_ok_def, rule_format, of i s rest m] i r m s by auto
  obtain j1 where j1: "peek s j ''&'' = (j1, False)" "rem s j1 = strip rest" using peek_False [OF d(3) f, of "''&''"] by auto
  obtain j2 where j2: "peek s j1 '';'' = (j2, False)" "rem s j2 = strip rest" using peek_False [OF j1(2) f, of "'';''"] by auto
  show "parses s (parseline n s i) rest c" using d m j1 j2 by (simp add: parses_def parsebacks.simps [of s c' j])
qed

lemma exec_of_line:
  assumes e: "line_ok c" and s: "show_cmd 3 c = ''('' @ show_cmd 0 c @ '')''"
  shows "exec_ok c"
  unfolding exec_ok_def
proof (intro allI impI)
  fix s i n rs rest
  assume i: "i \<le> length s" and r: "rem s i = strip (show_cmd 3 c @ redirs_str rs @ rest)" and rs: "\<forall>r\<in>set rs. wf_redir r"
    and f: "follow ''|)&;'' rest" and n: "4 * (length s - i) + 2 \<le> n"
  obtain m where m: "n = Suc (Suc m)" "4 * (length s - i) \<le> m" using n by (cases n rule: old.nat.exhaust; cases "n - 1") auto
  let ?u = "redirs_str rs @ rest"
  have ri: "rem s i = strip (CHR ''('' # show_cmd 0 c @ CHR '')'' # ?u)" using r s by simp
  obtain j t q e' k where "peek s i ''('' = (j, True)" by (rule take_operator [OF ri _ order_refl i]) simp
  then have j: "peek s i ''('' = (j, True)" "i \<le> j" "j \<le> length s" "rem s j = rem s i" using peek_bounds peek_rem(1) i by fastforce+
  obtain j' t q e' k where k: "peek s j ''('' = (j', True)" "gettoken s j' = (t, q, e', k)" "rem s k = strip (show_cmd 0 c @ CHR '')'' # ?u)"
    "length s - k < length s - i" "k \<le> length s"
    by (rule take_operator [of s j "CHR ''(''" "show_cmd 0 c @ CHR '')'' # ?u" i]) (use ri j in auto)
  have "follow '')'' (CHR '')'' # ?u)" by (simp add: follow_def whitespace_def)
  then obtain d l where d: "parseline m s k = Some (Inr (d, l))" "rem s l = strip (CHR '')'' # ?u)" "map_cmd (slice s) d = c"
    using e [unfolded line_ok_def, rule_format, OF k(5,3), of m] k(4) m by (auto simp: parses_def)
  have "ends s k (parseline m s k)" using k m by (intro parse_ends) auto
  then have l: "k \<le> l" "l \<le> length s" using d(1) by (auto simp: good_def)
  obtain j2 t2 q2 e2 k2 where k2: "peek s l '')'' = (j2, True)" "gettoken s j2 = (t2, q2, e2, k2)" "rem s k2 = strip ?u"
    by (rule take_operator [OF d(2) _ l(1,2)]) auto
  obtain c' j3 where "parseredirs s d k2 = Inr (c', j3)" "rem s j3 = strip rest" "map_cmd (slice s) c' = wrap c rs"
    using parseredirs_show [OF k2(3) rs f, of d] d(3) by auto
  then show "parses s (parseexec n s i) rest (wrap c rs)" using m j(1) k d(1) k2 by (simp add: parses_def)
qed

lemma exec_simple:
  assumes w: "wf_cmd (ExecCmd as)"
  shows "exec_ok (ExecCmd as)"
  unfolding exec_ok_def
proof (intro allI impI)
  fix s i n rs rest
  assume i: "i \<le> length s" and r: "rem s i = strip (show_cmd 3 (ExecCmd as) @ redirs_str rs @ rest)" and rs: "\<forall>r\<in>set rs. wf_redir r"
    and f: "follow ''|)&;'' rest" and n: "4 * (length s - i) + 2 \<le> n"
  obtain m where m: "n = Suc m" using n by (cases n) auto
  have as: "length as < MAXARGS" "\<forall>a\<in>set as. word_str a" using w by simp_all
  have sp: "white (CHR '' '')" "\<not> white (CHR ''<'')" "\<not> white (CHR ''>'')" by (simp_all add: whitespace_def)
  obtain j b where p: "peek s i ''('' = (j, b)" by fastforce
  have rj: "rem s j = rem s i" and b: "b \<longleftrightarrow> rem s i \<noteq> [] \<and> hd (rem s i) = CHR ''(''" using peek_rem [OF p] by auto
  show "parses s (parseexec n s i) rest (wrap (ExecCmd as) rs)"
  proof (cases as)
    case Nil
    have "\<not> b"
      using b r f sp Nil by (cases rs) (auto simp: follow_def redir_str_def split: prod.splits if_splits)
    moreover obtain c' k where c: "parseredirs s execcmd j = Inr (c', k)" "rem s k = strip rest" "map_cmd (slice s) c' = wrap (ExecCmd []) rs"
      using parseredirs_show [OF _ rs f, of s j execcmd] rj r Nil by (auto simp: execcmd_def)
    moreover obtain l where "parseargs s 0 c' k = Inr (c', l)" "rem s l = strip rest"
      using parseargs_none [of s k 0 c'] c(2) f by (auto simp: follow_def)
    ultimately show ?thesis using m p Nil by (simp add: parses_def)
  next
    case (Cons a as')
    have a: "word_str a" using as Cons by simp
    then have h: "rem s i = a @ args_str as' @ redirs_str rs @ rest" using r sp strip_word [OF a] Cons by simp
    then have "\<not> b" "hd (rem s i) \<notin> set ''<>''" using a b by (cases a; auto simp: word_str_def word_def symbols_def)+
    moreover obtain k where k: "parseredirs s execcmd j = Inr (execcmd, k)" "rem s k = rem s i"
      using parseredirs_none [of s j execcmd] calculation(2) rj by auto
    moreover have "rem s k = strip (args_str as @ redirs_str rs @ rest)" using k r by simp
    from parseargs_show [OF this _ as(2) rs f, of 0 "[]"] obtain c' l where
      "parseargs s 0 execcmd k = Inr (c', l)" "rem s l = strip rest" "map_cmd (slice s) c' = wrap (ExecCmd as) rs"
      using as(1) Cons by (auto simp: execcmd_def)
    ultimately show ?thesis using m p by (simp add: parses_def)
  qed
qed

lemma exec_redir:
  assumes e: "exec_ok c" and r: "wf_redir (f, mode, fd)"
  shows "exec_ok (RedirCmd c f mode fd)"
  unfolding exec_ok_def
proof (intro allI impI)
  fix s i n rs rest
  assume a: "i \<le> length s" "rem s i = strip (show_cmd 3 (RedirCmd c f mode fd) @ redirs_str rs @ rest)" "\<forall>r\<in>set rs. wf_redir r"
    "follow ''|)&;'' rest" "4 * (length s - i) + 2 \<le> n"
  then show "parses s (parseexec n s i) rest (wrap (RedirCmd c f mode fd) rs)"
    using e [unfolded exec_ok_def, rule_format, of i s "(f, mode, fd) # rs" rest n] r by auto
qed

lemma pipe_pipe:
  assumes a: "exec_ok a" and b: "pipe_ok b"
  shows "pipe_ok (PipeCmd a b)"
  unfolding pipe_ok_def
proof (intro allI impI)
  fix s i n rest
  assume i: "i \<le> length s" and r: "rem s i = strip (show_cmd 2 (PipeCmd a b) @ rest)" and f: "follow '')&;'' rest" and n: "4 * (length s - i) + 3 \<le> n"
  let ?u = "show_cmd 2 b @ rest"
  obtain m where m: "n = Suc m" "4 * (length s - i) + 2 \<le> m" using n by (cases n) auto
  have "follow ''|)&;'' (CHR ''|'' # ?u)" by (simp add: follow_def whitespace_def)
  then obtain d k where d: "parseexec m s i = Some (Inr (d, k))" "rem s k = strip (CHR ''|'' # ?u)" "map_cmd (slice s) d = a"
    using a [unfolded exec_ok_def, rule_format, of i s "[]" "CHR ''|'' # ?u" m] i r m by (auto simp: parses_def)
  have "ends s i (parseexec m s i)" using i m by (intro parse_ends) auto
  then have k: "i \<le> k" "k \<le> length s" using d(1) by (auto simp: good_def)
  obtain j t q e l where l: "peek s k ''|'' = (j, True)" "gettoken s j = (t, q, e, l)" "rem s l = strip ?u"
    "length s - l < length s - i" "l \<le> length s" by (rule take_operator [OF d(2) _ k]) auto
  then obtain d' k' where "parsepipe m s l = Some (Inr (d', k'))" "rem s k' = strip rest" "map_cmd (slice s) d' = b"
    using b [unfolded pipe_ok_def, rule_format, OF l(5,3) f, of m] m by (auto simp: parses_def)
  then show "parses s (parsepipe n s i) rest (PipeCmd a b)" using d l m by (simp add: parses_def pipecmd_def)
qed

lemma back_back:
  assumes a: "back_ok a"
  shows "back_ok (BackCmd a)"
  unfolding back_ok_def
proof (intro allI impI)
  fix s i n rest
  assume i: "i \<le> length s" and r: "rem s i = strip (show_cmd 1 (BackCmd a) @ rest)" and f: "follow '')&;'' rest" and n: "4 * (length s - i) + 3 \<le> n"
  have "follow '')&;'' (CHR ''&'' # rest)" by (simp add: follow_def whitespace_def)
  then obtain d k c' j where d: "parsepipe n s i = Some (Inr (d, k))" "parsebacks s d k = parsebacks s c' j" "rem s j = strip (CHR ''&'' # rest)"
    "map_cmd (slice s) c' = a"
    using a [unfolded back_ok_def, rule_format, of i s "CHR ''&'' # rest" n] i r n by auto
  obtain j' b where p: "peek s j ''&'' = (j', b)" by fastforce
  obtain t q e l where g: "gettoken s j' = (t, q, e, l)" by (metis prod_cases4)
  have "rem s j = CHR ''&'' # rest" using d(3) by (simp add: whitespace_def)
  then have b: "b" "rem s j' = CHR ''&'' # rest" using peek_rem [OF p] by auto
  have "rem s l = strip rest" using gettoken_symbol(2) [OF b(2) _ g] by simp
  moreover have "parsebacks s d k = parsebacks s (BackCmd c') l" using d(2) p b g by (simp add: parsebacks.simps [of s c' j] backcmd_def)
  ultimately show "\<exists>d k c' j. parsepipe n s i = Some (Inr (d, k)) \<and> parsebacks s d k = parsebacks s c' j \<and>
     rem s j = strip rest \<and> map_cmd (slice s) c' = BackCmd a" using d by (metis cmd.map(5))
qed

lemma line_list:
  assumes a: "back_ok a" and b: "line_ok b"
  shows "line_ok (ListCmd a b)"
  unfolding line_ok_def
proof (intro allI impI)
  fix s i n rest
  assume i: "i \<le> length s" and r: "rem s i = strip (show_cmd 0 (ListCmd a b) @ rest)" and f: "follow '')'' rest" and n: "4 * (length s - i) + 4 \<le> n"
  let ?u = "show_cmd 0 b @ rest"
  obtain m where m: "n = Suc m" "4 * (length s - i) + 3 \<le> m" using n by (cases n) auto
  have fs: "follow '')&;'' (CHR '';'' # ?u)" "follow '';'' (CHR '';'' # ?u)" by (simp_all add: follow_def whitespace_def)
  then obtain d k c' j where d: "parsepipe m s i = Some (Inr (d, k))" "parsebacks s d k = parsebacks s c' j" "rem s j = strip (CHR '';'' # ?u)" "map_cmd (slice s) c' = a"
    using a [unfolded back_ok_def, rule_format, of i s "CHR '';'' # ?u" m] i r m by auto
  obtain j1 where j1: "peek s j ''&'' = (j1, False)" "rem s j1 = strip (CHR '';'' # ?u)" using peek_False [OF d(3) fs(2), of "''&''"] by auto
  then have pb: "parsebacks s d k = (c', j1)" using d(2) by (simp add: parsebacks.simps [of s c' j])
  have "ends s i (parsepipe m s i)" using i m by (intro parse_ends) auto
  then have "good s i d k" using d(1) by simp
  then have k: "i \<le> j1" "j1 \<le> length s" using parsebacks_good [OF pb] by (auto simp: good_def)
  obtain j2 t q e l where l: "peek s j1 '';'' = (j2, True)" "gettoken s j2 = (t, q, e, l)" "rem s l = strip ?u"
    "length s - l < length s - i" "l \<le> length s" by (rule take_operator [OF j1(2) _ k]) auto
  then obtain d' k' where "parseline m s l = Some (Inr (d', k'))" "rem s k' = strip rest" "map_cmd (slice s) d' = b"
    using b [unfolded line_ok_def, rule_format, OF l(5,3) f, of m] m by (auto simp: parses_def)
  then show "parses s (parseline n s i) rest (ListCmd a b)" using d(1,4) pb l m by (simp add: parses_def listcmd_def)
qed

lemma parse_show: "wf_cmd c \<Longrightarrow> exec_ok c \<and> pipe_ok c \<and> back_ok c \<and> line_ok c"
proof (induction c)
  case (ExecCmd as)
  have e: "exec_ok (ExecCmd as)" using ExecCmd by (rule exec_simple)
  have p: "pipe_ok (ExecCmd as)" by (rule pipe_of_exec [OF e]) simp
  have b: "back_ok (ExecCmd as)" by (rule back_of_pipe [OF p]) simp
  show ?case using e p b line_of_back [OF b] by simp
next
  case (RedirCmd c f mode fd)
  have e: "exec_ok (RedirCmd c f mode fd)" using RedirCmd by (intro exec_redir) simp_all
  have p: "pipe_ok (RedirCmd c f mode fd)" by (rule pipe_of_exec [OF e]) simp
  have b: "back_ok (RedirCmd c f mode fd)" by (rule back_of_pipe [OF p]) simp
  show ?case using e p b line_of_back [OF b] by simp
next
  case (PipeCmd x y)
  have p: "pipe_ok (PipeCmd x y)" using PipeCmd by (intro pipe_pipe) simp_all
  have b: "back_ok (PipeCmd x y)" by (rule back_of_pipe [OF p]) simp
  have l: "line_ok (PipeCmd x y)" by (rule line_of_back [OF b]) simp
  show ?case using p b l exec_of_line [OF l] by simp
next
  case (ListCmd x y)
  have l: "line_ok (ListCmd x y)" using ListCmd by (intro line_list) simp_all
  have e: "exec_ok (ListCmd x y)" by (rule exec_of_line [OF l]) simp
  have p: "pipe_ok (ListCmd x y)" by (rule pipe_of_exec [OF e]) simp
  show ?case using l e p back_of_pipe [OF p] by simp
next
  case (BackCmd x)
  have b: "back_ok (BackCmd x)" using BackCmd by (intro back_back) simp_all
  have l: "line_ok (BackCmd x)" by (rule line_of_back [OF b]) simp
  have e: "exec_ok (BackCmd x)" by (rule exec_of_line [OF l]) simp
  show ?case using b l e pipe_of_exec [OF e] by simp
qed

lemma show_no_nul: "wf_cmd c \<Longrightarrow> CHR 0x00 \<notin> set (show_cmd p c)"
  by (induction c arbitrary: p) (auto simp: word_str_def redir_str_def wf_redir_def)

lemma nulterminate_map:
  assumes "\<forall>t\<in>set_cmd c. tok s t" and "CHR 0x00 \<notin> set s"
  shows "map_cmd (\<lambda>t. cstr (nulterminate c (s @ [CHR 0x00])) (fst t)) c = map_cmd (slice s) c"
  by (rule cmd.map_cong0) (use nulterminate_token [OF assms(1) _ assms(2)] in \<open>metis prod.collapse\<close>)

text \<open>Property C33: a command printed as text and typed in, with a newline, is parsed back: the shell runs exactly that command, with the
  strings it reads from the buffer after \<open>nulterminate\<close>. This covers every command tree with words for arguments and files, at most nine
  arguments, and the three redirections, with parentheses where the precedences of \<open>|\<close>, \<open>&\<close> and \<open>;\<close> need them.\<close>

theorem parse_show_roundtrip:
  assumes "wf_cmd c"
  shows "\<exists>c' b. parsecmd (show_cmd 0 c @ [CHR 0x0A]) = Some (Inr (c', b)) \<and> map_cmd (\<lambda>t. cstr b (fst t)) c' = c"
proof -
  let ?s = "show_cmd 0 c @ [CHR 0x0A]"
  have nl: "white (CHR 0x0A)" by (simp add: whitespace_def)
  have line: "line_ok c" using parse_show [OF assms] by simp
  have "follow '')'' [CHR 0x0A]" using nl by (simp add: follow_def)
  then obtain c' j where c: "parseline (4 * length ?s + 4) ?s 0 = Some (Inr (c', j))" "rem ?s j = []" "map_cmd (slice ?s) c' = c"
    using line [unfolded line_ok_def, rule_format, of 0 ?s "[CHR 0x0A]" "4 * length ?s + 4"] nl by (auto simp: parses_def rem_def)
  have "ends ?s 0 (parseline (4 * length ?s + 4) ?s 0)" by (rule parse_ends) simp_all
  then have g: "good ?s 0 c' j" using c(1) by simp
  obtain k b where p: "peek ?s j '''' = (k, b)" by fastforce
  have "k = skip white ?s j" using p by (simp add: peek_def Let_def)
  then have "drop k ?s = []" using c(2) unfolding rem_def by (metis drop_skip)
  then have "k = length ?s" using peek_bounds [OF p] g by (auto simp: good_def)
  then have pc: "parsecmd ?s = Some (Inr (c', nulterminate c' (?s @ [CHR 0x00])))" using c(1) p by (simp add: parsecmd_def)
  have "CHR 0x00 \<notin> set ?s" using show_no_nul [OF assms] by simp
  then have "map_cmd (\<lambda>t. cstr (nulterminate c' (?s @ [CHR 0x00])) (fst t)) c' = c"
    using nulterminate_map [of c' ?s] g c(3) by (simp add: good_def)
  then show ?thesis using pc by blast
qed

theorem parse_show_roundtrip_witness:
  "\<exists>c' b. parsecmd ('' ls| wc > out&; echo hi'' @ [CHR 0x0A]) = Some (Inr (c', b)) \<and>
     map_cmd (\<lambda>t. cstr b (fst t)) c' = ListCmd (BackCmd (PipeCmd (ExecCmd [''ls'']) (RedirCmd (ExecCmd [''wc'']) ''out'' 1537 1))) (ExecCmd [''echo'', ''hi''])"
proof -
  let ?c = "ListCmd (BackCmd (PipeCmd (ExecCmd [''ls'']) (RedirCmd (ExecCmd [''wc'']) ''out'' 1537 1))) (ExecCmd [''echo'', ''hi''])"
  have "wf_cmd ?c" by code_simp
  from parse_show_roundtrip [OF this] show ?thesis by (simp add: redir_str_def)
qed

theorem nulterminate_strings_witness:
  "parsecmd ''cat<f'' = Some (Inr (RedirCmd (ExecCmd [(0, 3)]) (4, 5) 0 0, ''cat'' @ [CHR 0x00] @ ''f'' @ [CHR 0x00])) \<and>
     cstr (''cat'' @ [CHR 0x00] @ ''f'' @ [CHR 0x00]) 4 = ''f''"
proof -
  have p: "parsecmd ''cat<f'' = Some (Inr (RedirCmd (ExecCmd [(0, 3)]) (4, 5) 0 0, ''cat'' @ [CHR 0x00] @ ''f'' @ [CHR 0x00]))" by code_simp
  from nulterminate_strings [OF _ p, of 4 5] show ?thesis using p by simp
qed

end
