(* ===== verification/Utests.thy ===== *)
theory Utests
  imports Shell Uprogs "HOL-Library.Signed_Division"
begin

text \<open>
  Test programs of \<open>user/\<close>: \<open>readtest1.c\<close>, \<open>readtest2.c\<close>, \<open>forktest.c\<close>, \<open>stressfs.c\<close>, \<open>schedulertest.c\<close> and \<open>grind.c\<close>. \<open>grind\<close> draws from the generator of Park and Miller;
  \<open>readtest1\<close> and \<open>forktest\<close> pass on a kernel that counts reads and has a bounded process table.
\<close>

abbreviation (input) O_RDWR_u :: nat where "O_RDWR_u \<equiv> 2"

subsection \<open>readtest1 and readtest2\<close>

definition readtest1_main :: "unit prog" where
  "readtest1_main =
     Sys SysGetreadcount (\<lambda>r. let x1 = r_ret r in
     Sys SysGetreadcount (\<lambda>r. let x2 = r_ret r in
     sys_then (SysRead 4 1) (
     Sys SysGetreadcount (\<lambda>r. let x3 = r_ret r in
     andthen_p (for_p (\<lambda>_. sys_then (SysRead 4 1) (Done ())) [0..<1000]) (\<lambda>_.
     Sys SysGetreadcount (\<lambda>r. let x4 = r_ret r in
     andthen_p (printf_u (''XV6_TEST_OUTPUT %d %d %d'' @ nl) [num (x2 - x1), num (x3 - x2), num (x4 - x3)]) (\<lambda>_. Exit 0)))))))"

definition readtest2_main :: "unit prog" where
  "readtest2_main =
     Sys SysGetreadcount (\<lambda>r. let x1 = r_ret r in
     Sys SysFork (\<lambda>r. let rc = r_ret r; total = 0 in
     andthen_p (for_p (\<lambda>_. sys_then (SysRead 4 1) (Done ())) [0..<100000]) (\<lambda>_.
     andthen_p
       (if rc > 0 then
          sys_then SysWait (Sys SysGetreadcount (\<lambda>r. let x2 = r_ret r; total = total + (x2 - x1) in
          printf_u (''XV6_TEST_OUTPUT %d'' @ nl) [num total]))
        else Done ())
       (\<lambda>_. Exit 0))))"

subsection \<open>forktest\<close>

definition print_u :: "string \<Rightarrow> unit prog" where
  "print_u s = sys_then (SysWrite 1 s) (Done ())"

definition forktest_fork :: "nat \<Rightarrow> (nat + nat) prog" where
  "forktest_fork n =
     (if n < 1000 then
        Sys SysFork (\<lambda>r. let pid = r_ret r in
          if pid < 0 then Done (Inr n) else if pid = 0 then Exit 0 else Done (Inl (n + 1)))
      else Done (Inr n))"

definition forktest_wait :: "nat \<Rightarrow> (nat + unit) prog" where
  "forktest_wait n =
     (if n > 0 then
        Sys SysWait (\<lambda>r.
          if r_ret r < 0 then andthen_p (print_u (''wait stopped early'' @ nl)) (\<lambda>_. Exit 1) else Done (Inl (n - 1)))
      else Done (Inr ()))"

definition forktest :: "unit prog" where
  "forktest =
     andthen_p (print_u (''fork test'' @ nl)) (\<lambda>_.
     andthen_p (loop_p forktest_fork 0) (\<lambda>n.
     if n = 1000 then andthen_p (print_u (''fork claimed to work N times!'' @ nl)) (\<lambda>_. Exit 1)
     else
       andthen_p (loop_p forktest_wait n) (\<lambda>_.
       Sys SysWait (\<lambda>r.
         if r_ret r \<noteq> -1 then andthen_p (print_u (''wait got too many'' @ nl)) (\<lambda>_. Exit 1)
         else print_u (''fork test OK'' @ nl)))))"

definition forktest_main :: "unit prog" where
  "forktest_main = andthen_p forktest (\<lambda>_. Exit 0)"

subsection \<open>stressfs\<close>

definition stressfs_fork :: "nat \<Rightarrow> (nat + nat) prog" where
  "stressfs_fork i =
     (if i < 4 then Sys SysFork (\<lambda>r. if r_ret r > 0 then Done (Inr i) else Done (Inl (i + 1))) else Done (Inr i))"

definition stressfs_main :: "unit prog" where
  "stressfs_main =
     (let data = replicate 512 (CHR ''a'') in
     andthen_p (printf_u (''stressfs starting'' @ nl) []) (\<lambda>_.
     andthen_p (loop_p stressfs_fork 0) (\<lambda>i.
     andthen_p (printf_u (''write %d'' @ nl) [num (int i)]) (\<lambda>_.
     let path = ''stressfs'' @ [char_of (of_char (CHR ''0'') + i)] in
     Sys (SysOpen path (O_CREATE_u + O_RDWR_u)) (\<lambda>r. let fd = r_ret r in
     andthen_p (for_p (\<lambda>_. sys_then (SysWrite fd data) (Done ())) [0..<20]) (\<lambda>_.
     sys_then (SysClose fd) (
     andthen_p (printf_u (''read'' @ nl) []) (\<lambda>_.
     Sys (SysOpen path O_RDONLY_u) (\<lambda>r. let fd = r_ret r in
     andthen_p (for_p (\<lambda>_. sys_then (SysRead fd 512) (Done ())) [0..<20]) (\<lambda>_.
     sys_then (SysClose fd) (sys_then SysWait (Exit 0))))))))))))"

subsection \<open>schedulertest\<close>

text \<open>The totals are \<open>int\<close>s of 32 bits. The empty loop of a CPU-bound child makes no call.\<close>

abbreviation (input) NFORK :: nat where "NFORK \<equiv> 10"

definition schedulertest_child :: "nat \<Rightarrow> 'a prog" where
  "schedulertest_child n =
     andthen_p (if n < 5 then sys_then (SysSleep 200) (Done ()) else Done ()) (\<lambda>_.
     andthen_p (printf_u (''Process %d finished'' @ nl) [num (int n)]) (\<lambda>_. Exit 0))"

definition schedulertest_fork :: "nat \<Rightarrow> (nat + nat) prog" where
  "schedulertest_fork n =
     (if n < NFORK then
        Sys SysFork (\<lambda>r. let pid = r_ret r in
          if pid < 0 then Done (Inr n) else if pid = 0 then schedulertest_child n else Done (Inl (n + 1)))
      else Done (Inr n))"

definition int_add :: "int \<Rightarrow> int \<Rightarrow> int" where
  "int_add x y = signed_take_bit 31 (x + y)"

definition schedulertest_wait :: "nat \<times> int \<times> int \<Rightarrow> ((nat \<times> int \<times> int) + (int \<times> int)) prog" where
  "schedulertest_wait = (\<lambda>(n, trtime, twtime).
     if n > 0 then
       Sys SysWaitx (\<lambda>r.
         if r_ret r \<ge> 0 then (let (wtime, rtime) = r_times r in Done (Inl (n - 1, int_add trtime rtime, int_add twtime wtime)))
         else Done (Inl (n - 1, trtime, twtime)))
     else Done (Inr (trtime, twtime)))"

definition schedulertest_main :: "unit prog" where
  "schedulertest_main =
     andthen_p (loop_p schedulertest_fork 0) (\<lambda>n.
     andthen_p (loop_p schedulertest_wait (n, 0, 0)) (\<lambda>(trtime, twtime).
     andthen_p (printf_u (''Average rtime %d,  wtime %d'' @ nl) [num (trtime sdiv int NFORK), num (twtime sdiv int NFORK)]) (\<lambda>_. Exit 0)))"

subsection \<open>grind\<close>

text \<open>\<open>do_rand\<close>: \<open>long\<close> is a 64-bit word read as signed, and C's division and remainder truncate.\<close>

definition do_rand :: "u64 \<Rightarrow> int \<times> u64" where
  "do_rand ctx =
     (let x = ctx mod 0x7ffffffe + 1;
          hi = of_int (sint x sdiv 127773);
          lo = of_int (sint x smod 127773);
          x = 16807 * lo - 2836 * hi;
          x = (if sint x < 0 then x + 0x7fffffff else x);
          x = x - 1
      in (sint (ucast x :: u32), x))"

text \<open>The variables of \<open>grind.c\<close>: the global \<open>rand_next\<close>, and those of \<open>go\<close>.\<close>

record grind =
  rand_next :: u64
  g_fd :: int
  g_buf :: string
  break0 :: u64
  iters :: u64

definition rand :: "'a grind_scheme \<Rightarrow> int \<times> 'a grind_scheme" where
  "rand g = (let (x, ctx) = do_rand (rand_next g) in (x, g\<lparr>rand_next := ctx\<rparr>))"

definition grind_fail :: "int \<Rightarrow> string \<Rightarrow> int \<Rightarrow> 'a prog" where
  "grind_fail fd msg n = andthen_p (fprintf fd (msg @ nl) []) (\<lambda>_. Exit n)"

definition grind_fork :: "'a prog \<Rightarrow> (int \<Rightarrow> 'a prog) \<Rightarrow> 'a prog" where
  "grind_fork child parent =
     Sys SysFork (\<lambda>r. let pid = r_ret r in
       if pid = 0 then child else if pid < 0 then grind_fail 1 ''grind: fork failed'' 1 else parent pid)"

abbreviation (input) O_NEW :: nat where "O_NEW \<equiv> O_CREATE_u + O_RDWR_u"

abbreviation (input) open_close :: "string \<Rightarrow> 'a prog \<Rightarrow> 'a prog" where
  "open_close path m \<equiv> Sys (SysOpen path O_NEW) (\<lambda>r. sys_then (SysClose (r_ret r)) m)"

text \<open>The longer branches of \<open>go\<close>: a pipe shared by four processes (19), a file created, written and looked at (21), and
  \<open>echo hi | cat\<close> (22).\<close>

definition go_pipe :: "'a prog \<Rightarrow> 'a prog" where
  "go_pipe next =
     Sys SysPipe (\<lambda>r. if r_ret r < 0 then grind_fail 1 ''grind: pipe failed'' 1
     else (let (p0, p1) = r_pipe r in
       grind_fork
         (sys_then SysFork (sys_then SysFork (
          Sys (SysWrite p1 ''x'') (\<lambda>r.
          andthen_p (if r_ret r \<noteq> 1 then printf_u (''grind: pipe write failed'' @ nl) [] else Done ()) (\<lambda>_.
          Sys (SysRead p0 1) (\<lambda>r.
          andthen_p (if r_ret r \<noteq> 1 then printf_u (''grind: pipe read failed'' @ nl) [] else Done ()) (\<lambda>_. Exit 0)))))))
         (\<lambda>pid. sys_then (SysClose p0) (sys_then (SysClose p1) (sys_then SysWait next)))))"

definition go_create :: "'a prog \<Rightarrow> 'a prog" where
  "go_create next =
     sys_then (SysUnlink ''c'') (
     Sys (SysOpen ''c'' O_NEW) (\<lambda>r. let fd1 = r_ret r in
     if fd1 < 0 then grind_fail 1 ''grind: create c failed'' 1
     else
     Sys (SysWrite fd1 ''x'') (\<lambda>r.
     if r_ret r \<noteq> 1 then grind_fail 1 ''grind: write c failed'' 1
     else
     Sys (SysFstat fd1) (\<lambda>r.
     if r_ret r \<noteq> 0 then grind_fail 1 ''grind: fstat failed'' 1
     else if st_size (r_stat r) \<noteq> 1 then
       andthen_p (printf_u (''grind: fstat reports wrong size %d'' @ nl) [UReg (scast (ucast (st_size (r_stat r)) :: u32))]) (\<lambda>_. Exit 1)
     else if st_ino (r_stat r) > 200 then
       andthen_p (printf_u (''grind: fstat reports crazy i-number %d'' @ nl) [UReg (ucast (st_ino (r_stat r)))]) (\<lambda>_. Exit 1)
     else sys_then (SysClose fd1) (sys_then (SysUnlink ''c'') next)))))"

text \<open>The two children of \<open>echo hi | cat\<close>.\<close>

definition go_echo :: "int \<times> int \<Rightarrow> int \<times> int \<Rightarrow> 'a prog" where
  "go_echo aa bb =
     sys_then (SysClose (fst bb)) (sys_then (SysClose (snd bb)) (sys_then (SysClose (fst aa)) (sys_then (SysClose 1) (
     Sys (SysDup (snd aa)) (\<lambda>r.
     if r_ret r \<noteq> 1 then grind_fail 2 ''grind: dup failed'' 1
     else
     sys_then (SysClose (snd aa)) (
     sys_then (SysExec ''grindir/../echo'' [''echo'', ''hi'']) (
     grind_fail 2 ''grind: echo: not found'' 2)))))))"

definition go_cat :: "int \<times> int \<Rightarrow> int \<times> int \<Rightarrow> 'a prog" where
  "go_cat aa bb =
     sys_then (SysClose (snd aa)) (sys_then (SysClose (fst bb)) (sys_then (SysClose 0) (
     Sys (SysDup (fst aa)) (\<lambda>r.
     if r_ret r \<noteq> 0 then grind_fail 2 ''grind: dup failed'' 4
     else
     sys_then (SysClose (fst aa)) (sys_then (SysClose 1) (
     Sys (SysDup (snd bb)) (\<lambda>r.
     if r_ret r \<noteq> 1 then grind_fail 2 ''grind: dup failed'' 5
     else
     sys_then (SysClose (snd bb)) (
     sys_then (SysExec ''/cat'' [''cat'']) (
     grind_fail 2 ''grind: cat: not found'' 6)))))))))"

text \<open>A byte of \<open>buf\<close> after \<open>read(bb[0], buf+i, 1)\<close>.\<close>

definition byte_read :: "reply \<Rightarrow> char" where
  "byte_read r = (if r_ret r = 1 then hd (r_data r) else CHR 0x00)"

definition go_pipeline :: "'a prog \<Rightarrow> 'a prog" where
  "go_pipeline next =
     Sys SysPipe (\<lambda>r. if r_ret r < 0 then grind_fail 2 ''grind: pipe failed'' 1
     else (let aa = r_pipe r in
     Sys SysPipe (\<lambda>r. if r_ret r < 0 then grind_fail 2 ''grind: pipe failed'' 1
     else (let bb = r_pipe r in
     Sys SysFork (\<lambda>r. let pid1 = r_ret r in
     if pid1 = 0 then go_echo aa bb
     else if pid1 < 0 then grind_fail 2 ''grind: fork failed'' 3
     else
     Sys SysFork (\<lambda>r. let pid2 = r_ret r in
     if pid2 = 0 then go_cat aa bb
     else if pid2 < 0 then grind_fail 2 ''grind: fork failed'' 7
     else
     sys_then (SysClose (fst aa)) (sys_then (SysClose (snd aa)) (sys_then (SysClose (snd bb)) (
     Sys (SysRead (fst bb) 1) (\<lambda>r. let b0 = byte_read r in
     Sys (SysRead (fst bb) 1) (\<lambda>r. let b1 = byte_read r in
     Sys (SysRead (fst bb) 1) (\<lambda>r. let b2 = byte_read r; buf = takeWhile (\<lambda>c. c \<noteq> CHR 0x00) [b0, b1, b2] in
     sys_then (SysClose (fst bb)) (
     Sys SysWait (\<lambda>r. let st1 = r_status r in
     Sys SysWait (\<lambda>r. let st2 = r_status r in
     if st1 \<noteq> 0 \<or> st2 \<noteq> 0 \<or> buf \<noteq> ''hi'' @ nl then
       andthen_p (printf_u (''grind: exec pipeline failed %d %d '' @ [CHR 0x22] @ ''%s'' @ [CHR 0x22] @ nl) [num st1, num st2, sarg buf]) (\<lambda>_. Exit 1)
     else next)))))))))))))))"

text \<open>One turn of the loop of \<open>go\<close>.\<close>

definition go_body :: "bool \<Rightarrow> 'z grind_scheme \<Rightarrow> ('z grind_scheme + unit) prog" where
  "go_body which_child g =
     (let g = g\<lparr>iters := iters g + 1\<rparr>; (x, g') = rand g; what = x smod 23; fd = g_fd g; next = Done (Inl g') in
     andthen_p (if iters g mod 500 = 0 then sys_then (SysWrite 1 (if which_child then ''B'' else ''A'')) (Done ()) else Done ()) (\<lambda>_.
     if what = 1 then open_close ''grindir/../a'' next
     else if what = 2 then open_close ''grindir/../grindir/../b'' next
     else if what = 3 then sys_then (SysUnlink ''grindir/../a'') next
     else if what = 4 then
       Sys (SysChdir ''grindir'') (\<lambda>r. if r_ret r \<noteq> 0 then grind_fail 1 ''grind: chdir grindir failed'' 1
       else sys_then (SysUnlink ''../b'') (sys_then (SysChdir ''/'') next))
     else if what = 5 then sys_then (SysClose fd) (Sys (SysOpen ''/grindir/../a'' O_NEW) (\<lambda>r. Done (Inl (g'\<lparr>g_fd := r_ret r\<rparr>))))
     else if what = 6 then sys_then (SysClose fd) (Sys (SysOpen ''/./grindir/./../b'' O_NEW) (\<lambda>r. Done (Inl (g'\<lparr>g_fd := r_ret r\<rparr>))))
     else if what = 7 then sys_then (SysWrite fd (g_buf g)) next
     else if what = 8 then Sys (SysRead fd 999) (\<lambda>r. Done (Inl (g'\<lparr>g_buf := r_data r @ drop (length (r_data r)) (g_buf g)\<rparr>)))
     else if what = 9 then sys_then (SysMkdir ''grindir/../a'') (open_close ''a/../a/./a'' (sys_then (SysUnlink ''a/a'') next))
     else if what = 10 then sys_then (SysMkdir ''/../b'') (open_close ''grindir/../b/b'' (sys_then (SysUnlink ''b/b'') next))
     else if what = 11 then sys_then (SysUnlink ''b'') (sys_then (SysLink ''../grindir/./../a'' ''../b'') next)
     else if what = 12 then sys_then (SysUnlink ''../grindir/../a'') (sys_then (SysLink ''.././b'' ''/grindir/../a'') next)
     else if what = 13 then grind_fork (Exit 0) (\<lambda>pid. sys_then SysWait next)
     else if what = 14 then grind_fork (sys_then SysFork (sys_then SysFork (Exit 0))) (\<lambda>pid. sys_then SysWait next)
     else if what = 15 then sys_then (SysSbrk 6011) next
     else if what = 16 then
       Sys (SysSbrk 0) (\<lambda>r. if of_int (r_ret r) > break0 g then
         Sys (SysSbrk 0) (\<lambda>r. sys_then (SysSbrk (sint (ucast (- (of_int (r_ret r) - break0 g)) :: u32))) next)
       else next)
     else if what = 17 then
       grind_fork (open_close ''a'' (Exit 0)) (\<lambda>pid.
         Sys (SysChdir ''../grindir/..'') (\<lambda>r. if r_ret r \<noteq> 0 then grind_fail 1 ''grind: chdir failed'' 1
         else sys_then (SysKill (of_int pid)) (sys_then SysWait next)))
     else if what = 18 then
       grind_fork (Sys SysGetpid (\<lambda>r. sys_then (SysKill (of_int (r_ret r))) (Exit 0))) (\<lambda>pid. sys_then SysWait next)
     else if what = 19 then go_pipe next
     else if what = 20 then
       grind_fork
         (sys_then (SysUnlink ''a'') (sys_then (SysMkdir ''a'') (sys_then (SysChdir ''a'') (sys_then (SysUnlink ''../a'') (
          sys_then (SysOpen ''x'' O_NEW) (sys_then (SysUnlink ''x'') (Exit 0)))))))
         (\<lambda>pid. sys_then SysWait next)
     else if what = 21 then go_create next
     else if what = 22 then go_pipeline next
     else next))"

text \<open>\<open>go\<close> never returns; \<open>seed\<close> is \<open>rand_next\<close> in the child.\<close>

definition go :: "bool \<Rightarrow> u64 \<Rightarrow> unit prog" where
  "go which_child seed =
     Sys (SysSbrk 0) (\<lambda>r. let g = \<lparr>rand_next = seed, g_fd = -1, g_buf = replicate 999 (CHR 0x00), break0 = of_int (r_ret r), iters = 0\<rparr> in
     sys_then (SysMkdir ''grindir'') (
     Sys (SysChdir ''grindir'') (\<lambda>r. if r_ret r \<noteq> 0 then grind_fail 1 ''grind: chdir grindir failed'' 1
     else sys_then (SysChdir ''/'') (loop_p (go_body which_child) g))))"

definition iter :: "u64 \<Rightarrow> 'a prog" where
  "iter seed =
     sys_then (SysUnlink ''a'') (sys_then (SysUnlink ''b'') (
     Sys SysFork (\<lambda>r. let pid1 = r_ret r in
     if pid1 < 0 then grind_fail 1 ''grind: fork failed'' 1
     else if pid1 = 0 then andthen_p (go False (seed XOR 31)) (\<lambda>_. Exit 0)
     else
     Sys SysFork (\<lambda>r. let pid2 = r_ret r in
     if pid2 < 0 then grind_fail 1 ''grind: fork failed'' 1
     else if pid2 = 0 then andthen_p (go True (seed XOR 7177)) (\<lambda>_. Exit 0)
     else
     Sys SysWait (\<lambda>r. let st1 = (if r_ret r < 0 then -1 else r_status r) in
     andthen_p (if st1 \<noteq> 0 then sys_then (SysKill (of_int pid1)) (sys_then (SysKill (of_int pid2)) (Done ())) else Done ()) (\<lambda>_.
     sys_then SysWait (Exit 0)))))))"

definition grind_body :: "u64 \<Rightarrow> (u64 + unit) prog" where
  "grind_body seed =
     Sys SysFork (\<lambda>r. let pid = r_ret r in
     if pid = 0 then iter seed
     else
     andthen_p (if pid > 0 then sys_then SysWait (Done ()) else Done ()) (\<lambda>_.
     sys_then (SysSleep 20) (Done (Inl (seed + 1)))))"

definition grind_main :: "unit prog" where
  "grind_main = loop_p grind_body 1"

subsection \<open>The generator of Park and Miller\<close>

text \<open>Schrage's method: \<open>16807 x mod (2^31 - 1)\<close> without an intermediate result of more than 31 bits.\<close>

lemma schrage:
  fixes x :: int
  assumes "0 < x" and "x < 0x7fffffff"
  defines "y \<equiv> 16807 * (x mod 127773) - 2836 * (x div 127773)"
  shows "(16807 * x) mod 0x7fffffff = (if y < 0 then y + 0x7fffffff else y)" and "- 0x7fffffff < y" and "y < 0x7fffffff" and "0 < (16807 * x) mod 0x7fffffff"
proof -
  define q r where "q = x div 127773" and "r = x mod 127773"
  have x: "x = 127773 * q + r" and m: "0 \<le> r" "r < 127773" by (simp_all add: q_def r_def)
  have d: "0 \<le> q" "q \<le> 16807" using assms(1,2) x m by linarith+
  have y: "y = 16807 * r - 2836 * q" by (simp add: y_def q_def r_def)
  have e: "16807 * x = y + 0x7fffffff * q" unfolding y x by simp
  show b: "- 0x7fffffff < y" "y < 0x7fffffff" using m d unfolding y by linarith+
  have "(16807 * x) mod 0x7fffffff = y mod 0x7fffffff" unfolding e by simp
  moreover have "y mod 0x7fffffff = (y + 0x7fffffff) mod 0x7fffffff" by simp
  ultimately show "(16807 * x) mod 0x7fffffff = (if y < 0 then y + 0x7fffffff else y)" using b by (cases "y < 0") (simp_all add: mod_pos_pos_trivial del: mod_add_self2)
  have "\<not> 0x7fffffff dvd 16807 * x"
  proof
    assume "0x7fffffff dvd 16807 * x"
    moreover have "x = 1407677000 * (16807 * x) - 0x7fffffff * (11017 * x)" by simp
    ultimately have "0x7fffffff dvd x" by (metis dvd_diff dvd_mult dvd_triv_left)
    then show False using assms(1,2) zdvd_not_zless by blast
  qed
  then show "0 < (16807 * x) mod 0x7fffffff" by (simp add: dvd_eq_mod_eq_0 less_le)
qed

text \<open>Property C37: the generator of \<open>grind\<close> is that of Park and Miller, \<open>x \<mapsto> 16807 x mod (2^31 - 1)\<close> on \<open>1, ..., 2^31 - 2\<close>, shifted down by one; the
  result is the new state, and it is neither negative nor too big for an \<open>int\<close>.\<close>

theorem do_rand_equiv:
  "do_rand ctx = ((16807 * (uint ctx mod 0x7ffffffe + 1)) mod 0x7fffffff - 1, of_int ((16807 * (uint ctx mod 0x7ffffffe + 1)) mod 0x7fffffff - 1)) \<and>
   fst (do_rand ctx) \<in> {0..0x7ffffffd}"
proof -
  define x where "x = uint ctx mod 0x7ffffffe + 1"
  have "0 \<le> uint ctx mod 0x7ffffffe" "uint ctx mod 0x7ffffffe < 0x7ffffffe" by simp_all
  then have b: "0 < x" "x < 0x7fffffff" by (simp_all add: x_def)
  define y where "y = 16807 * (x mod 127773) - 2836 * (x div 127773)"
  define z where "z = (16807 * x) mod 0x7fffffff"
  note s = schrage [OF b, folded y_def z_def]
  have "uint (ctx mod 0x7ffffffe + 1) = x" using b by (simp add: x_def uint_word_ariths uint_mod)
  then have sx: "sint (ctx mod 0x7ffffffe + 1) = x" using b by (simp add: sint_uint signed_take_bit_int_eq_self)
  have dm: "x sdiv 127773 = x div 127773" "x smod 127773 = x mod 127773" using b by (simp_all add: signed_divide_int_def signed_modulo_int_def)
  have y: "16807 * of_int (x mod 127773) - 2836 * of_int (x div 127773) = (of_int y :: u64)" by (simp add: y_def)
  have sy: "sint (of_int y :: u64) = y" using s(2,3) by (simp add: signed_of_int signed_take_bit_int_eq_self)
  have z: "(if y < 0 then of_int y + 0x7fffffff else of_int y) - 1 = (of_int (z - 1) :: u64)" using s(1) by simp
  have r: "0 < z" "z < 0x7fffffff" using s(4) by (simp_all add: z_def)
  have "sint (ucast (of_int (z - 1) :: u64) :: u32) = z - 1"
  proof -
    have "(ucast (of_int (z - 1) :: u64) :: u32) = of_int (z - 1)" by (simp add: unsigned_of_int word_of_int_eq_iff take_bit_take_bit del: of_int_diff)
    then show ?thesis using r by (simp add: signed_of_int signed_take_bit_int_eq_self del: of_int_diff)
  qed
  then have "do_rand ctx = (z - 1, of_int (z - 1))" unfolding do_rand_def Let_def sx dm y sy z by simp
  then show ?thesis unfolding x_def [symmetric] z_def [symmetric] using r by simp
qed

subsection \<open>A kernel for the tests\<close>

text \<open>What the tests see of the kernel, from the side of the parent: the number of free slots of the process table, the children not waited for with the times
  \<open>waitx\<close> reports of them, the counter of \<open>getreadcount\<close> (32 bits, one up at every \<open>read\<close>), and the output.\<close>

record tworld =
  tw_out :: "int \<Rightarrow> string"
  tw_reads :: u32
  tw_slots :: nat
  tw_kids :: "(int \<times> int \<times> int) list"
  tw_born :: "(int \<times> int \<times> int) list"

definition touts :: "int \<Rightarrow> string \<Rightarrow> tworld \<Rightarrow> tworld" where
  "touts fd str w = w\<lparr>tw_out := (tw_out w)(fd := tw_out w fd @ str)\<rparr>"

text \<open>\<open>tw_born\<close> are the processes to come: their numbers and times.\<close>

fun tsys :: "sysc \<Rightarrow> tworld \<Rightarrow> reply \<times> tworld" where
  "tsys (SysWrite fd str) w = (ans (int (length str)), touts fd str w)"
| "tsys (SysRead fd n) w = (ans (-1), w\<lparr>tw_reads := tw_reads w + 1\<rparr>)"
| "tsys SysGetreadcount w = (ans (sint (tw_reads w)), w)"
| "tsys SysFork w =
     (case (tw_slots w, tw_born w) of
        (Suc n, c # cs) \<Rightarrow> (ans (fst c), w\<lparr>tw_slots := n, tw_kids := tw_kids w @ [c], tw_born := cs\<rparr>)
      | _ \<Rightarrow> (ans (-1), w))"
| "tsys SysWait w =
     (case tw_kids w of [] \<Rightarrow> (ans (-1), w) | c # cs \<Rightarrow> (ans (fst c), w\<lparr>tw_slots := tw_slots w + 1, tw_kids := cs\<rparr>))"
| "tsys SysWaitx w =
     (case tw_kids w of [] \<Rightarrow> (ans (-1), w) | c # cs \<Rightarrow> ((ans (fst c))\<lparr>r_times := snd c\<rparr>, w\<lparr>tw_slots := tw_slots w + 1, tw_kids := cs\<rparr>))"
| "tsys _ w = (ans (-1), w)"

lemma touts_simps [simp]:
  "touts fd [] w = w" "touts fd ys (touts fd xs w) = touts fd (xs @ ys) w" "tw_reads (touts fd xs w) = tw_reads w" "tw_out (touts fd xs w) fd = tw_out w fd @ xs"
  "tw_slots (touts fd xs w) = tw_slots w" "tw_kids (touts fd xs w) = tw_kids w" "tw_born (touts fd xs w) = tw_born w"
  by (simp_all add: touts_def)

interpretation tw: writing tsys touts
  by unfold_locales simp_all

lemma runs_reads: "runs_by tsys (for_p (\<lambda>_. sys_then (SysRead fd 1) (Done ())) xs) w (Returned ()) (w\<lparr>tw_reads := tw_reads w + of_nat (length xs)\<rparr>)"
proof (induction xs arbitrary: w)
  case (Cons x xs)
  show ?case using Cons.IH [of "w\<lparr>tw_reads := tw_reads w + 1\<rparr>"] by (simp add: algebra_simps)
qed simp

lemma num_diff: "(ucast (reg (num (sint (x :: u32) - sint y) # as)) :: u32) = x - y"
proof -
  have "(ucast (of_int (sint x - sint y) :: u64) :: u32) = of_int (sint x - sint y)"
    by (simp add: unsigned_of_int word_of_int_eq_iff take_bit_take_bit del: of_int_diff)
  then show ?thesis by (simp add: num_def)
qed

theorem readtest1_counts:
  "\<exists>v. runs_by tsys readtest1_main w (Exited 0) v \<and> tw_out v 1 = tw_out w 1 @ ''XV6_TEST_OUTPUT 0 1 1000'' @ nl \<and> tw_reads v = tw_reads w + 1001"
proof -
  have d: "show_int 0 False True = ''0''" "show_int 1 False True = ''1''" "show_int 1000 False True = ''1000''" by code_simp+
  have n: "ucast (reg (num 0 # as)) = (0 :: u32)" for as using num_diff [of 0 0] by simp
  let ?w = "w\<lparr>tw_reads := tw_reads w + 1001\<rparr>" and ?n = "\<lambda>x y :: u32. num (sint x - sint y)"
  let ?r = "tw_reads w"
  have f: "format_u False (''XV6_TEST_OUTPUT %d %d %d'' @ nl) [num 0, ?n (?r + 1) ?r, ?n (?r + 1001) (?r + 1)] = ''XV6_TEST_OUTPUT 0 1 1000'' @ nl"
    by (simp add: num_diff n d)
  have p: "runs_by tsys (andthen_p (printf_u (''XV6_TEST_OUTPUT %d %d %d'' @ nl) [num 0, ?n (?r + 1) ?r, ?n (?r + 1001) (?r + 1)]) (\<lambda>_. Exit 0)) ?w (Exited 0) (touts 1 (''XV6_TEST_OUTPUT 0 1 1000'' @ nl) ?w)"
    by (rule runs_andthen [OF tw.runs_printf(1)]) (simp only: f runs_simps)
  have r: "runs_by tsys (for_p (\<lambda>_. sys_then (SysRead 4 1) (Done ())) [0..<1000]) (w\<lparr>tw_reads := ?r + 1\<rparr>) (Returned ()) ?w"
    using runs_reads [of 4 "[0..<1000]" "w\<lparr>tw_reads := ?r + 1\<rparr>"] by (simp add: algebra_simps del: upt_rec_numeral)
  show ?thesis
    by (rule exI [of _ "touts 1 (''XV6_TEST_OUTPUT 0 1 1000'' @ nl) ?w"]) (use p in \<open>auto simp: readtest1_main_def Let_def simp del: upt_rec_numeral One_nat_def intro!: runs_andthen [OF r]\<close>)
qed

text \<open>\<open>forktest\<close> fills the process table and finds exactly the children it made.\<close>

definition forks :: "nat \<Rightarrow> tworld \<Rightarrow> tworld" where
  "forks n w = w\<lparr>tw_slots := tw_slots w - n, tw_kids := tw_kids w @ take n (tw_born w), tw_born := drop n (tw_born w)\<rparr>"

lemma forktest_forks:
  assumes "tw_slots w + n < 1000" and "tw_slots w \<le> length (tw_born w)" and "\<forall>c \<in> set (tw_born w). 0 < fst c"
  shows "runs_by tsys (loop_p forktest_fork n) w (Returned (n + tw_slots w)) (forks (tw_slots w) w)"
  using assms
proof (induction "tw_slots w" arbitrary: w n)
  case 0
  then show ?case by (intro runs_loop(2)) (simp add: forktest_fork_def forks_def)
next
  case (Suc k)
  then obtain c cs where b: "tw_born w = c # cs" by (cases "tw_born w") auto
  have sl: "tw_slots w = Suc k" using Suc.hyps(2) by simp
  let ?w = "w\<lparr>tw_slots := k, tw_kids := tw_kids w @ [c], tw_born := cs\<rparr>"
  have "runs_by tsys (loop_p forktest_fork (n + 1)) ?w (Returned (n + 1 + k)) (forks k ?w)" using Suc.prems sl b Suc.hyps(1) [of ?w "n + 1"] by simp
  moreover have "forks k ?w = forks (tw_slots w) w" "n + 1 + k = n + tw_slots w" using sl b by (simp_all add: forks_def)
  moreover have "runs_by tsys (forktest_fork n) w (Returned (Inl (n + 1))) ?w" using Suc.prems sl b by (simp add: forktest_fork_def Let_def)
  ultimately show ?case using runs_loop(1) [of tsys forktest_fork n] by metis
qed

lemma forktest_waits:
  assumes "n = length (tw_kids w)" and "\<forall>c \<in> set (tw_kids w). 0 < fst c"
  shows "runs_by tsys (loop_p forktest_wait n) w (Returned ()) (w\<lparr>tw_slots := tw_slots w + n, tw_kids := []\<rparr>)"
  using assms
proof (induction n arbitrary: w)
  case 0
  then show ?case by (intro runs_loop(2)) (simp add: forktest_wait_def)
next
  case (Suc n)
  then obtain c cs where b: "tw_kids w = c # cs" by (cases "tw_kids w") auto
  have "runs_by tsys (forktest_wait (Suc n)) w (Returned (Inl n)) (w\<lparr>tw_slots := tw_slots w + 1, tw_kids := cs\<rparr>)" using Suc.prems b by (simp add: forktest_wait_def)
  moreover have "runs_by tsys (loop_p forktest_wait n) (w\<lparr>tw_slots := tw_slots w + 1, tw_kids := cs\<rparr>) (Returned ()) (w\<lparr>tw_slots := tw_slots w + Suc n, tw_kids := []\<rparr>)"
    using Suc.IH [of "w\<lparr>tw_slots := tw_slots w + 1, tw_kids := cs\<rparr>"] Suc.prems b by simp
  ultimately show ?case by (rule runs_loop(1))
qed

theorem forktest_ok:
  assumes "tw_slots w < 1000" and "tw_slots w \<le> length (tw_born w)" and "\<forall>c \<in> set (tw_born w). 0 < fst c" and "tw_kids w = []"
  shows "\<exists>v. runs_by tsys forktest_main w (Exited 0) v \<and> tw_out v 1 = tw_out w 1 @ ''fork test'' @ nl @ ''fork test OK'' @ nl \<and> tw_slots v = tw_slots w \<and> tw_kids v = []"
proof -
  let ?n = "tw_slots w"
  define w1 where "w1 = touts 1 (''fork test'' @ nl) w"
  define w2 where "w2 = forks ?n w1"
  define w3 where "w3 = w2\<lparr>tw_slots := ?n, tw_kids := []\<rparr>"
  have p: "runs_by tsys (print_u (''fork test'' @ nl)) w (Returned ()) w1" by (simp add: print_u_def w1_def)
  have f: "runs_by tsys (loop_p forktest_fork 0) w1 (Returned ?n) w2" using forktest_forks [of w1 0] assms by (simp add: w1_def w2_def)
  have g: "runs_by tsys (loop_p forktest_wait ?n) w2 (Returned ()) w3"
    using forktest_waits [of ?n w2] assms by (simp add: w1_def w2_def w3_def forks_def) (meson in_set_takeD)
  let ?rest = "Sys SysWait (\<lambda>r. if r_ret r \<noteq> -1 then andthen_p (print_u (''wait got too many'' @ nl)) (\<lambda>_. Exit 1) else print_u (''fork test OK'' @ nl))"
  have "runs_by tsys ?rest w3 (Returned ()) (touts 1 (''fork test OK'' @ nl) w3)" by (simp add: print_u_def w3_def)
  from runs_andthen [OF g, of "\<lambda>_. ?rest", OF this] have r: "runs_by tsys (andthen_p (loop_p forktest_wait ?n) (\<lambda>_. ?rest)) w2 (Returned ()) (touts 1 (''fork test OK'' @ nl) w3)" .
  have "runs_by tsys forktest w (Returned ()) (touts 1 (''fork test OK'' @ nl) w3)"
    unfolding forktest_def by (rule runs_andthen [OF p], rule runs_andthen [OF f]) (use r assms(1) in \<open>simp only: if_not_P less_irrefl_nat not_False_eq_True less_imp_neq simp_thms if_False\<close>)
  from runs_andthen [OF this, of "\<lambda>_. Exit 0"] show ?thesis
    by (intro exI [of _ "touts 1 (''fork test OK'' @ nl) w3"]) (simp add: forktest_main_def forks_def touts_def w1_def w2_def w3_def)
qed

end
