(* ===== verification/Spec2Isabelle.thy ===== *)
theory Spec2Isabelle
  imports Spinlock_Conc Sleep_Conc Start Reap Disk Pipes Append Mkfs Trap Grep Umalloc Shell Utests
begin

text \<open>
  Verification of xv6 with the changes of this repository: the MLFQ and FCFS schedulers, \<open>sigalarm\<close> and \<open>sigreturn\<close>, \<open>getreadcount\<close>
  and \<open>waitx\<close>. The sources are \<open>kernel/\<close>, \<open>user/\<close> and \<open>mkfs/\<close> under \<open>src/initial-xv6/src\<close>; file names below are relative to it.

  \<^bold>\<open>The program and the theories.\<close> Every theory models the files its opening text names, in the order of the code, one definition
  per function (a loop of a function may be a definition of its own), and proves its properties behind the definitions.

  \<^item> \<open>Prelude\<close>: machine integers, the outcome of a kernel call, loops, byte memory. \<open>Riscv\<close>: the constants and address macros of
    \<open>kernel/riscv.h\<close>, \<open>memlayout.h\<close> and \<open>param.h\<close>. \<open>Ring\<close>: the locale of ring buffers with free-running counters.
  \<^item> \<open>Spinlock\<close>: \<open>kernel/spinlock.c\<close> and the per-cpu state; \<open>Spinlock_Conc\<close>: its instructions interleaved on any number of harts.
  \<^item> \<open>Start\<close>: \<open>kernel/start.c\<close>, \<open>entry.S\<close> and the machine-mode timer handler \<open>timervec\<close> of \<open>kernelvec.S\<close>, on the registers of one hart.
  \<^item> \<open>Strings\<close>: \<open>kernel/string.c\<close>. \<open>Kalloc\<close>: \<open>kernel/kalloc.c\<close>. \<open>Vm\<close>: \<open>kernel/vm.c\<close>; \<open>Pagetable\<close>: a page
    table as a function, and the copy \<open>fork\<close> makes.
  \<^item> \<open>Proc\<close>: the process table, sleep and wakeup, wait and the schedulers (\<open>kernel/proc.c\<close>, \<open>kernel/mlfq.c\<close>); \<open>Sleep_Conc\<close>: \<open>sleep\<close>, \<open>wakeup\<close> and \<open>kill\<close>
    statement by statement, interleaved; \<open>Reap\<close>: how \<open>wait\<close> takes a process down.
  \<^item> \<open>Console\<close>: \<open>kernel/uart.c\<close>, \<open>console.c\<close>, \<open>printf.c\<close>. \<open>Virtio\<close>: \<open>kernel/virtio_disk.c\<close>, \<open>plic.c\<close>;
    \<open>Disk\<close>: the life of a disk request.
  \<^item> \<open>Bio\<close>: \<open>kernel/sleeplock.c\<close>, \<open>bio.c\<close>; \<open>Bcache\<close>: the cache as a list in order of use and as a disk. \<open>Log\<close>: \<open>kernel/log.c\<close>;
    \<open>Crash\<close>: commits, crashes and recovery. \<open>Fs\<close>: \<open>kernel/fs.c\<close>; \<open>Fsops\<close>: what its operations do to blocks, files and directories; \<open>Append\<close>: files that grow.
    \<open>File\<close>: \<open>kernel/pipe.c\<close>, \<open>file.c\<close>; \<open>Pipes\<close>: a pipe as a bounded queue. \<open>Mkfs\<close>: \<open>mkfs/mkfs.c\<close>, and the kernel on the image it builds.
  \<^item> \<open>Syscall\<close>: \<open>fork\<close>, \<open>exit\<close>, \<open>kernel/exec.c\<close> and the arguments of system calls; \<open>Sysproc\<close>: \<open>kernel/sysproc.c\<close>, \<open>getreadcount.c\<close>;
    \<open>Sysfile\<close>: \<open>kernel/sysfile.c\<close>; \<open>Trap\<close>: \<open>kernel/syscall.c\<close>, \<open>trap.c\<close>, \<open>main.c\<close>.
  \<^item> \<open>Ulib\<close>, \<open>User\<close>: \<open>user/ulib.c\<close>, \<open>user/printf.c\<close>; \<open>Uprogs\<close>: the utilities; \<open>Grep\<close>: \<open>user/grep.c\<close>; \<open>Umalloc\<close>: \<open>user/umalloc.c\<close>;
    \<open>Shell\<close>: \<open>user/sh.c\<close>; \<open>Utests\<close>: the test programs \<open>grind.c\<close>, \<open>forktest.c\<close>, \<open>stressfs.c\<close>, \<open>schedulertest.c\<close>, \<open>readtest1.c\<close>, \<open>readtest2.c\<close>.

  \<^bold>\<open>The state of the kernel\<close> is one record that each layer extends: \<open>machine\<close> (harts, \<open>sstatus\<close>, spinlocks), \<open>kmem\<close> (physical memory
  and the free list), \<open>vm\<close>, \<open>kproc\<close> (the process table, \<open>ticks\<close>), \<open>kcons\<close>, \<open>kvirtio\<close>, \<open>kbio\<close> (the buffers and the disk), \<open>klog\<close>,
  \<open>kfs\<close>, \<open>kfile\<close>, \<open>kernel\<close>. An operation of a layer works on every extension of its record, so that a lemma about it is used above
  unchanged. Page tables, trapframes and the free list are bytes of physical memory, as in the code; buffers, inodes, files and processes
  are records under their index.

  \<^bold>\<open>Calls.\<close> A call ends in \<open>Ret\<close> with its value, in \<open>Panic\<close> with the message, or in \<open>Block\<close> where it gives up the processor, with the
  rest of the call as a continuation on whatever state it is resumed in. \<open>sleep\<close>, \<open>sched\<close> and a spinning \<open>acquire\<close> block; the theorems
  on single calls are for the state of one hart that finds the locks free, and \<open>Spinlock_Conc\<close> shows why a hart inside a lock is alone. Where the order of the
  lock operations is the point, in \<open>sleep\<close> and \<open>wakeup\<close>, \<open>Sleep_Conc\<close> gives the other threads a step between any two statements.
  Locks are taken and released in the model exactly where the code does it; the locales \<open>machine_upd\<close> and \<open>machine_get\<close> say that an
  update or a field has nothing to do with them, and are interpreted for the fields of all layers.

  \<^bold>\<open>Parameters.\<close> The disk driver's clients see \<open>disk_rw\<close>, a transfer of one block between a buffer and \<open>platter\<close>; the driver itself is in
  \<open>Virtio\<close>, where the device answers through \<open>vmmio_read\<close>. A crash keeps a prefix of the list of block writes. The uart reports its
  state through \<open>tx_idle\<close>. Linker symbols are fields of the state that nothing changes. The host of \<open>mkfs\<close> may let any
  call fail (\<open>io_ok\<close>), and the input files are a function from paths to the pieces \<open>read\<close> returns.

  \<^bold>\<open>User programs\<close> are trees of system calls with the answer of the kernel as the argument of the rest, coinductive since a program
  may run for ever; \<open>runs_by\<close> runs one against a kernel given by its answers, and \<open>runs\<close> against files that hand out their bytes in pieces of any size, as \<open>read\<close> may.

  \<^bold>\<open>Bounds.\<close> The walk over the ring of buffers has 31 steps, one more than there are buffers; \<open>Bcache\<close> shows that the ring has 30. Page
  table walks are recursive in the level. Path lookups and the loops over file blocks recurse on the rest of the path or the count. Loops
  that a lock or an event ends are \<open>loop\<close> of \<open>Prelude\<close>; loops only a NUL ends are \<open>partial_function (option)\<close>.

  \<^bold>\<open>What is shown.\<close> Every hart reaches \<open>main\<close> as \<open>start\<close> should leave it, and the timer interrupt of machine mode is
  invisible to what it interrupts; mutual exclusion and interrupt nesting of spinlocks; the allocator refines a list of pages; page tables
  refine functions from addresses to entries, and \<open>fork\<close> copies memory without sharing any; copies to and from user
  memory agree; no interleaving of \<open>sleep\<close>, \<open>wakeup\<close> and \<open>kill\<close> loses a wakeup; \<open>wait\<close> frees exactly the pages of the child it reaps, or sleeps; the FCFS and MLFQ schedulers choose the process they promise, and the timer tick ages,
  demotes and preempts as it should; an alarm followed by \<open>sigreturn\<close> restores every register; the console implements its line
  discipline, sends exactly the echo and wakes its readers exactly when a line is handed over; a disk request is answered by the interrupt that wakes its process, with all descriptors free again; a pipe is a bounded queue of bytes whose readers and writers sleep only when they must; the buffer cache is coherent and recycles the least recently used buffer; a commit is atomic under crashes, and the last \<open>end_op\<close> leaves an empty header on the disk; \<open>balloc\<close> takes
  the first free block and no other, \<open>writei\<close> replaces and appends exactly the bytes it should, allocating direct and indirect blocks, and \<open>readi\<close> reads them back, \<open>dirlookup\<close> finds what \<open>dirlink\<close>
  has linked; \<open>mkfs\<close> builds an image with the files it is given, which the kernel then reads; the user's \<open>malloc\<close> and \<open>free\<close> keep their list and neither lose nor share memory; \<open>grep\<close> prints the matching lines and its matcher decides the
  meaning of patterns; the parser of the shell ends on every line and is the inverse of printing a command; the random numbers of \<open>grind\<close> are those of Park and Miller. The laws one layer needs of
  the one below are locales: \<open>block_reader\<close> and \<open>block_txn\<close> are what \<open>kernel/fs.c\<close> needs of the log and the cache, \<open>fs_reading\<close> and
  \<open>fs_lookup\<close> what reading files and directories needs, interpreted both outside and inside a transaction;
  \<open>block_alloc\<close> is what \<open>balloc\<close> and its callers need of a transaction, interpreted with no buffer held and with the indirect block held.

  \<^bold>\<open>Not modelled.\<close> The assembly that only moves registers (\<open>kernelvec\<close>, \<open>trampoline.S\<close>, \<open>swtch.S\<close>, \<open>initcode.S\<close>);
  \<open>kernel/ramdisk.c\<close>, which is not linked and uses fields \<open>struct buf\<close> does not have any more; \<open>user/usertests.c\<close>, a list of calls of the
  kernel with the answers it expects; \<open>user/alarmtest.c\<close>, whose handlers run between the instructions of the program, which trees of system calls do
  not have (\<open>Trap\<close> shows what it tests: the handler is called, and \<open>sigreturn\<close> restores every register).
\<close>

end
